(* ===== verification/Prelude.thy ===== *)
theory Prelude
  imports Main "HOL-Library.Word" "HOL-Library.Monad_Syntax" "HOL-Library.Signed_Division"
begin

text \<open>
  Shared vocabulary of the development.

  The kernel is C++ compiled for a 32-bit host. A kernel routine is modelled by a function into
  \<^typ>\<open>'a option\<close>: \<open>Some\<close> of the returned value and the new state, or \<open>None\<close> when the kernel
  does not return, because an \<open>ASSERT\<close> fails (\<open>Abort\<close>, src/code/threads/utility.h), an array is
  read outside its bounds or an integer is divided by zero. Return codes (\<open>FALSE\<close>, \<open>-1\<close>) are
  ordinary values. The do-notation of \<open>Monad_Syntax\<close> sequences such routines.

  Host integers of the file system and the allocators are \<^typ>\<open>int\<close> (C's signed overflow is
  undefined behaviour, the model computes without bound); \<open>sdiv\<close> and \<open>smod\<close> are C's truncating
  division. The simulated MIPS machine, bit maps and everything stored on disk use words.
\<close>

unbundle bit_operations_syntax

type_synonym byte = "8 word"
type_synonym u32 = "32 word"

named_theorems wf_intros \<open>well-formedness of the value an operation returns\<close>
named_theorems op_simps \<open>characteristic equations of operations on well-formed states\<close>

subsection \<open>Assertions and division (threads/utility.h)\<close>

definition ASSERT :: "bool \<Rightarrow> unit option" where
  "ASSERT c = (if c then Some () else None)"

definition divRoundDown :: "int \<Rightarrow> int \<Rightarrow> int" where
  "divRoundDown n s = n sdiv s"

definition divRoundUp :: "int \<Rightarrow> int \<Rightarrow> int" where
  "divRoundUp n s = n sdiv s + (if n smod s > 0 then 1 else 0)"

lemma ASSERT_bind_Some [simp]:
  "(do { ASSERT c; f }) = Some y \<longleftrightarrow> c \<and> f = Some y"
  by (simp add: ASSERT_def)

lemma ASSERT_Some [simp]: "ASSERT c = Some x \<longleftrightarrow> c"
  by (simp add: ASSERT_def)

lemma ASSERT_True [simp]: "(do { ASSERT True; f }) = f"
  by (simp add: ASSERT_def)

lemma ASSERT_False [simp]: "(do { ASSERT False; f }) = None"
  by (simp add: ASSERT_def)

lemma ASSERT_bind_None [simp]:
  "(do { ASSERT c; f }) = None \<longleftrightarrow> c \<longrightarrow> f = None"
  by (simp add: ASSERT_def)

lemma sdiv_nonneg [simp]: "0 \<le> a \<Longrightarrow> 0 < b \<Longrightarrow> a sdiv b = a div (b::int)"
  by (cases "a = 0") (simp_all add: signed_divide_int_def)

lemma smod_nonneg [simp]: "0 \<le> a \<Longrightarrow> 0 < b \<Longrightarrow> a smod b = a mod (b::int)"
  by (cases "a = 0")
     (simp_all add: signed_modulo_int_def minus_mult_div_eq_mod [symmetric] mult.commute)

lemma divRoundUp_nonneg [simp]: "0 \<le> n \<Longrightarrow> 0 < s \<Longrightarrow> 0 \<le> divRoundUp n s"
  by (simp add: divRoundUp_def pos_imp_zdiv_nonneg_iff)

lemma divRoundUp_pos: "0 \<le> n \<Longrightarrow> 0 < s \<Longrightarrow> divRoundUp n s = n div s + (if n mod s > 0 then 1 else 0)"
  by (simp add: divRoundUp_def)

subsection \<open>Option monad\<close>

lemmas bind_Some_iff = Option.bind_eq_Some_conv

lemma bind_SomeE:
  assumes "Option.bind m f = Some y"
  obtains x where "m = Some x" "f x = Some y"
  using assms by (auto simp: bind_Some_iff)

text \<open>
  \<open>post m Q\<close>: if the routine \<open>m\<close> returns, its result satisfies \<open>Q\<close>. The rules follow the do-notation,
  so that \<open>intro vcg\<close> leaves one goal per path through a routine, with the results of the calls on
  that path as premises.
\<close>

definition post :: "'a option \<Rightarrow> ('a \<Rightarrow> bool) \<Rightarrow> bool" where
  "post m Q \<longleftrightarrow> (\<forall>x. m = Some x \<longrightarrow> Q x)"

lemma post_bind: "(\<And>x. m = Some x \<Longrightarrow> post (f x) Q) \<Longrightarrow> post (Option.bind m f) Q"
  by (auto simp: post_def bind_Some_iff)

lemma post_if: "(c \<Longrightarrow> post a Q) \<Longrightarrow> (\<not> c \<Longrightarrow> post b Q) \<Longrightarrow> post (if c then a else b) Q"
  by simp

lemma post_Let: "(\<And>x. x = t \<Longrightarrow> post (f x) Q) \<Longrightarrow> post (Let t f) Q"
  by simp

lemma post_prod: "(\<And>a b. x = (a, b) \<Longrightarrow> post (f a b) Q) \<Longrightarrow> post (case x of (a, b) \<Rightarrow> f a b) Q"
  by (cases x) simp

lemma post_option: "(x = None \<Longrightarrow> post a Q) \<Longrightarrow> (\<And>y. x = Some y \<Longrightarrow> post (f y) Q) \<Longrightarrow>
    post (case x of None \<Rightarrow> a | Some y \<Rightarrow> f y) Q"
  by (cases x) simp_all

lemma post_Some: "Q x \<Longrightarrow> post (Some x) Q"
  by (simp add: post_def)

lemma post_None: "post None Q"
  by (simp add: post_def)

lemma postD: "post m Q \<Longrightarrow> m = Some x \<Longrightarrow> Q x"
  by (simp add: post_def)

lemmas vcg = post_bind post_if post_Let post_prod post_option post_Some post_None

subsection \<open>Lists\<close>

lemma distinct_nth_inj: "distinct xs \<Longrightarrow> i < length xs \<Longrightarrow> j < length xs \<Longrightarrow> xs ! i = xs ! j \<longleftrightarrow> i = j"
  by (simp add: nth_eq_iff_index_eq)

lemma take_drop_nth_eqI:
  assumes "length xs = length ys" "\<And>i. i < length xs \<Longrightarrow> xs ! i = ys ! i"
  shows "xs = ys"
  using assms by (rule nth_equalityI)

subsection \<open>Little-endian integers in memory\<close>

text \<open>
  A 32-bit integer in host memory or in a disk sector is four bytes, least significant first
  (the simulated machine and the supported hosts are little endian).
\<close>

definition le32 :: "u32 \<Rightarrow> byte list" where
  "le32 w = [ucast w, ucast (drop_bit 8 w), ucast (drop_bit 16 w), ucast (drop_bit 24 w)]"

definition unle32 :: "byte list \<Rightarrow> u32" where
  "unle32 bs = ucast (bs ! 0) OR push_bit 8 (ucast (bs ! 1)) OR push_bit 16 (ucast (bs ! 2))
     OR push_bit 24 (ucast (bs ! 3))"

definition int_bytes :: "int \<Rightarrow> byte list" where
  "int_bytes x = le32 (word_of_int x)"

definition bytes_int :: "byte list \<Rightarrow> int" where
  "bytes_int bs = sint (unle32 bs)"

definition is_int32 :: "int \<Rightarrow> bool" where
  "is_int32 x \<longleftrightarrow> - (2 ^ 31) \<le> x \<and> x < 2 ^ 31"

lemma length_le32 [simp]: "length (le32 w) = 4"
  by (simp add: le32_def)

lemma length_int_bytes [simp]: "length (int_bytes x) = 4"
  by (simp add: int_bytes_def)

lemma byte_bit_ge [simp]: "8 \<le> n \<Longrightarrow> \<not> bit (a :: byte) n"
  using bit_imp_le_length [of a n] by auto

lemma unle32_le32 [simp]: "unle32 (le32 w @ bs) = w"
proof (rule bit_word_eqI)
  fix n assume "n < LENGTH(32)"
  then consider "n < 8" | "8 \<le> n" "n < 16" | "16 \<le> n" "n < 24" | "24 \<le> n" "n < 32"
    by fastforce
  then show "bit (unle32 (le32 w @ bs)) n = bit w n"
    by cases (auto simp: unle32_def le32_def bit_simps)
qed

lemma le32_unle32:
  assumes "length bs = 4"
  shows "le32 (unle32 bs) = bs"
proof -
  obtain a b c d where "bs = [a, b, c, d]"
    using assms by (auto simp: numeral_eq_Suc length_Suc_conv)
  then show ?thesis
    by (auto simp: unle32_def le32_def bit_simps intro!: bit_word_eqI)
qed

lemma bytes_int_bytes:
  "is_int32 x \<Longrightarrow> bytes_int (int_bytes x @ bs) = x"
  by (simp add: bytes_int_def int_bytes_def is_int32_def sint_sbintrunc'
      signed_take_bit_int_eq_self)

lemma bytes_int_range: "is_int32 (bytes_int bs)"
  using sint_ge [of "unle32 bs"] sint_lt [of "unle32 bs"] by (simp add: bytes_int_def is_int32_def)

lemma int_bytes_int:
  "length bs = 4 \<Longrightarrow> int_bytes (bytes_int bs) = bs"
  by (simp add: int_bytes_def bytes_int_def le32_unle32)

end
