(* ===== verification/Disk.thy ===== *)
theory Disk
  imports Prelude
begin

text \<open>
  The simulated disk of src/code/machine/disk.h and disk.cc and the synchronous interface of
  src/code/filesys/synchdisk.h and synchdisk.cc.

  \<open>RawDisk\<close> is the asynchronous device: a request is accepted when none is active, changes the
  backing store, and schedules a completion interrupt after a latency computed from the head
  position. \<open>SynchDisk\<close> adds the lock and the semaphore; a step relation interleaves any number of
  threads and the interrupt, and its invariant shows that the device assertion \<open>!active\<close> never
  fails. The file system above only sees the effect of a completed request, \<open>ReadSector\<close> and
  \<open>WriteSector\<close> on a \<open>dev\<close>; both views satisfy the locale \<open>sector_store\<close>.
\<close>

abbreviation SectorSize :: int where "SectorSize \<equiv> 128"
abbreviation SectorsPerTrack :: int where "SectorsPerTrack \<equiv> 32"
abbreviation NumTracks :: int where "NumTracks \<equiv> 32"
abbreviation NumSectors :: int where "NumSectors \<equiv> 1024"
abbreviation RotationTime :: int where "RotationTime \<equiv> 500"
abbreviation SeekTime :: int where "SeekTime \<equiv> 500"

subsection \<open>The asynchronous device\<close>

text \<open>
  \<open>store\<close> is the backing UNIX file, sector by sector; \<open>irq\<close> is the time of the scheduled \<open>DiskInt\<close>;
  the current time \<open>stats->totalTicks\<close> is the parameter \<open>now\<close>.
\<close>

record RawDisk =
  store :: "int \<Rightarrow> byte list"
  active :: bool
  lastSector :: int
  bufferInit :: int
  numDiskReads :: int
  numDiskWrites :: int
  irq :: "int option"

definition Disk_new :: "(int \<Rightarrow> byte list) \<Rightarrow> RawDisk" where
  "Disk_new file = \<lparr>store = file, active = False, lastSector = 0, bufferInit = 0,
     numDiskReads = 0, numDiskWrites = 0, irq = None\<rparr>"

definition TimeToSeek :: "RawDisk \<Rightarrow> int \<Rightarrow> int \<Rightarrow> int \<times> int" where
  "TimeToSeek d now newSector =
     (let newTrack = newSector sdiv SectorsPerTrack;
          oldTrack = lastSector d sdiv SectorsPerTrack;
          seek = \<bar>newTrack - oldTrack\<bar> * SeekTime;
          over = (now + seek) smod RotationTime;
          rotation = (if over > 0 then RotationTime - over else 0)
      in (seek, rotation))"

definition ModuloDiff :: "int \<Rightarrow> int \<Rightarrow> int" where
  "ModuloDiff to from =
     (let toOffset = to smod SectorsPerTrack; fromOffset = from smod SectorsPerTrack
      in ((toOffset - fromOffset) + SectorsPerTrack) smod SectorsPerTrack)"

definition ComputeLatency :: "RawDisk \<Rightarrow> int \<Rightarrow> int \<Rightarrow> bool \<Rightarrow> int" where
  "ComputeLatency d now newSector writing =
     (let (seek, rotation) = TimeToSeek d now newSector;
          timeAfter = now + seek + rotation
      in if \<not> writing \<and> seek = 0
            \<and> (timeAfter - bufferInit d) sdiv RotationTime
                > ModuloDiff newSector (bufferInit d sdiv RotationTime)
         then RotationTime
         else seek + (rotation + ModuloDiff newSector (timeAfter sdiv RotationTime) * RotationTime)
                + RotationTime)"

definition UpdateLast :: "RawDisk \<Rightarrow> int \<Rightarrow> int \<Rightarrow> RawDisk" where
  "UpdateLast d now newSector =
     (let (seek, rotate) = TimeToSeek d now newSector;
          d1 = (if seek \<noteq> 0 then d\<lparr>bufferInit := now + seek + rotate\<rparr> else d)
      in d1\<lparr>lastSector := newSector\<rparr>)"

text \<open>\<open>Interrupt::Schedule\<close> asserts that the delay is positive.\<close>

definition Schedule_irq :: "RawDisk \<Rightarrow> int \<Rightarrow> int \<Rightarrow> RawDisk option" where
  "Schedule_irq d now fromNow = do {
     ASSERT (fromNow > 0);
     Some (d\<lparr>irq := Some (now + fromNow)\<rparr>)
   }"

definition ReadRequest :: "RawDisk \<Rightarrow> int \<Rightarrow> int \<Rightarrow> (byte list \<times> RawDisk) option" where
  "ReadRequest d now sectorNumber = do {
     let ticks = ComputeLatency d now sectorNumber False;
     ASSERT (\<not> active d);
     ASSERT (sectorNumber \<ge> 0 \<and> sectorNumber < NumSectors);
     let data = store d sectorNumber;
     let d1 = UpdateLast (d\<lparr>active := True\<rparr>) now sectorNumber;
     d2 \<leftarrow> Schedule_irq (d1\<lparr>numDiskReads := numDiskReads d1 + 1\<rparr>) now ticks;
     Some (data, d2)
   }"

definition WriteRequest :: "RawDisk \<Rightarrow> int \<Rightarrow> int \<Rightarrow> byte list \<Rightarrow> RawDisk option" where
  "WriteRequest d now sectorNumber data = do {
     let ticks = ComputeLatency d now sectorNumber True;
     ASSERT (\<not> active d);
     ASSERT (sectorNumber \<ge> 0 \<and> sectorNumber < NumSectors);
     let d0 = d\<lparr>store := (store d)(sectorNumber := take (nat SectorSize) data)\<rparr>;
     let d1 = UpdateLast (d0\<lparr>active := True\<rparr>) now sectorNumber;
     Schedule_irq (d1\<lparr>numDiskWrites := numDiskWrites d1 + 1\<rparr>) now ticks
   }"

text \<open>\<open>Disk::HandleInterrupt\<close>; the call of the handler is the semaphore step of \<open>SynchDisk\<close>.\<close>

definition HandleInterrupt :: "RawDisk \<Rightarrow> RawDisk" where
  "HandleInterrupt d = d\<lparr>active := False, irq := None\<rparr>"

subsection \<open>Timing\<close>

lemma ModuloDiff_range: "0 \<le> to \<Longrightarrow> 0 \<le> from \<Longrightarrow> 0 \<le> ModuloDiff to from \<and> ModuloDiff to from < 32"
proof -
  assume "0 \<le> to" "0 \<le> from"
  moreover from this have "0 \<le> to mod 32 - from mod 32 + 32"
    using pos_mod_bound [of 32 "from"] pos_mod_sign [of 32 to] by linarith
  ultimately show ?thesis by (simp add: ModuloDiff_def Let_def)
qed

lemma TimeToSeek_range:
  assumes "0 \<le> now" "0 \<le> n" "n < NumSectors" "0 \<le> lastSector d" "lastSector d < NumSectors"
    and "TimeToSeek d now n = (seek, rotation)"
  shows "0 \<le> seek \<and> seek \<le> 31 * SeekTime \<and> 0 \<le> rotation \<and> rotation < RotationTime
    \<and> (now + seek + rotation) mod RotationTime = 0"
proof -
  define tracks where "tracks = \<bar>n div 32 - lastSector d div 32\<bar>"
  have "0 \<le> n div 32" "n div 32 \<le> 31" "0 \<le> lastSector d div 32" "lastSector d div 32 \<le> 31"
    using assms(2-5) by linarith+
  then have "0 \<le> tracks" "tracks \<le> 31" by (simp_all add: tracks_def)
  moreover have seek: "seek = tracks * 500"
    using assms by (simp add: TimeToSeek_def Let_def tracks_def)
  moreover have "rotation = (if (now + seek) smod 500 > 0 then 500 - (now + seek) smod 500 else 0)"
    using assms by (auto simp: TimeToSeek_def Let_def seek tracks_def simp del: smod_nonneg)
  moreover have "(now + seek) smod 500 = (now + seek) mod 500"
    using assms(1) \<open>0 \<le> tracks\<close> seek by (intro smod_nonneg) simp_all
  moreover have "0 \<le> (now + seek) mod 500" "(now + seek) mod 500 < 500" by simp_all
  moreover have "(now + seek + (500 - (now + seek) mod 500)) mod 500 = 0"
    by (metis add_diff_eq diff_add_eq minus_mod_eq_mult_div mod_add_self2 mod_mult_self1_is_0)
  ultimately show ?thesis
    by (auto split: if_splits)
qed

lemma ComputeLatency_range:
  assumes "0 \<le> now" "0 \<le> n" "n < NumSectors" "0 \<le> lastSector d" "lastSector d < NumSectors"
  shows "RotationTime \<le> ComputeLatency d now n w
    \<and> ComputeLatency d now n w < 31 * SeekTime + RotationTime * (1 + SectorsPerTrack)"
proof -
  obtain seek rotation where t: "TimeToSeek d now n = (seek, rotation)" by fastforce
  note r = TimeToSeek_range [OF assms t]
  then have "0 \<le> ModuloDiff n ((now + seek + rotation) div 500)
      \<and> ModuloDiff n ((now + seek + rotation) div 500) < 32"
    using assms(1,2) by (intro ModuloDiff_range) (simp_all add: pos_imp_zdiv_nonneg_iff)
  then show ?thesis
    using r t assms(1) by (auto simp: ComputeLatency_def Let_def)
qed

lemma request_effects:
  assumes "0 \<le> now" "0 \<le> n" "n < NumSectors" "\<not> active d"
    and "0 \<le> lastSector d" "lastSector d < NumSectors"
  shows "(\<exists>d1 t1. ReadRequest d now n = Some (store d n, d1) \<and> store d1 = store d
        \<and> active d1 \<and> irq d1 = Some (now + t1) \<and> lastSector d1 = n
        \<and> RotationTime \<le> t1 \<and> t1 < 31 * SeekTime + RotationTime * (1 + SectorsPerTrack))
    \<and> (\<exists>d2 t2. WriteRequest d now n data = Some d2
        \<and> store d2 = (store d)(n := take 128 data) \<and> active d2 \<and> irq d2 = Some (now + t2)
        \<and> lastSector d2 = n
        \<and> RotationTime \<le> t2 \<and> t2 < 31 * SeekTime + RotationTime * (1 + SectorsPerTrack))"
proof (intro conjI)
  have pos: "0 < ComputeLatency d now n w" for w
    using ComputeLatency_range [OF assms(1-3,5,6), of w] by simp
  have upd: "store (UpdateLast e now n) = store e" "active (UpdateLast e now n) = active e"
    "lastSector (UpdateLast e now n) = n" for e
    by (simp_all add: UpdateLast_def Let_def split: prod.splits)
  show "\<exists>d1 t1. ReadRequest d now n = Some (store d n, d1) \<and> store d1 = store d
      \<and> active d1 \<and> irq d1 = Some (now + t1) \<and> lastSector d1 = n
      \<and> RotationTime \<le> t1 \<and> t1 < 31 * SeekTime + RotationTime * (1 + SectorsPerTrack)"
    using assms pos [of False] ComputeLatency_range [OF assms(1-3,5,6), of False]
    by (simp add: ReadRequest_def Schedule_irq_def Let_def upd)
  show "\<exists>d2 t2. WriteRequest d now n data = Some d2
      \<and> store d2 = (store d)(n := take 128 data) \<and> active d2 \<and> irq d2 = Some (now + t2)
      \<and> lastSector d2 = n
      \<and> RotationTime \<le> t2 \<and> t2 < 31 * SeekTime + RotationTime * (1 + SectorsPerTrack)"
    using assms pos [of True] ComputeLatency_range [OF assms(1-3,5,6), of True]
    by (simp add: WriteRequest_def Schedule_irq_def Let_def upd)
qed

text \<open>
  The latency \<open>Disk::ComputeLatency\<close> returns for a sector of the disk is at least one rotation
  and less than a full seek plus one revolution of the track and a rotation; in particular it is
  positive, so the assertion of \<open>Interrupt::Schedule\<close> holds for every request the device accepts.
\<close>

theorem requests_scheduled:
  assumes "0 \<le> now" "0 \<le> n" "n < NumSectors" "\<not> active d"
    and "0 \<le> lastSector d" "lastSector d < NumSectors"
  shows "(\<exists>d1 t1. ReadRequest d now n = Some (store d n, d1) \<and> store d1 = store d
        \<and> active d1 \<and> irq d1 = Some (now + t1) \<and> lastSector d1 = n
        \<and> RotationTime \<le> t1 \<and> t1 < 31 * SeekTime + RotationTime * (1 + SectorsPerTrack))
    \<and> (\<exists>d2 t2. WriteRequest d now n data = Some d2
        \<and> store d2 = (store d)(n := take 128 data) \<and> active d2 \<and> irq d2 = Some (now + t2)
        \<and> lastSector d2 = n
        \<and> RotationTime \<le> t2 \<and> t2 < 31 * SeekTime + RotationTime * (1 + SectorsPerTrack))"
  by (rule request_effects [OF assms])

subsection \<open>The synchronous disk: threads, lock, semaphore and interrupt\<close>

text \<open>
  A thread in \<open>SynchDisk::ReadSector\<close> or \<open>WriteSector\<close> acquires the lock, issues the request,
  waits on the semaphore and releases the lock. \<open>Idle\<close> is outside; \<open>Entered\<close> waits for the lock;
  \<open>Locked\<close> holds it; \<open>Issued\<close> waits in \<open>semaphore->P()\<close>. \<open>crashed\<close> records a failed assertion.
\<close>

datatype request = RReq int | WReq int "byte list"
datatype phase = Idle | Entered request | Locked request | Issued request

record SynchDisk =
  raw :: RawDisk
  semaphore :: nat
  lock :: "nat option"
  threads :: "nat \<Rightarrow> phase"
  crashed :: bool

definition SynchDisk_new :: "(int \<Rightarrow> byte list) \<Rightarrow> SynchDisk" where
  "SynchDisk_new img = \<lparr>raw = Disk_new img, semaphore = 0, lock = None,
     threads = (\<lambda>_. Idle), crashed = False\<rparr>"

fun issue :: "RawDisk \<Rightarrow> int \<Rightarrow> request \<Rightarrow> RawDisk option" where
  "issue d now (RReq n) = map_option snd (ReadRequest d now n)"
| "issue d now (WReq n data) = WriteRequest d now n data"

fun req_sector :: "request \<Rightarrow> int" where
  "req_sector (RReq n) = n"
| "req_sector (WReq n data) = n"

inductive sd_step :: "SynchDisk \<Rightarrow> SynchDisk \<Rightarrow> bool" where
  call: "threads s t = Idle \<Longrightarrow> 0 \<le> req_sector r \<Longrightarrow> req_sector r < NumSectors \<Longrightarrow>
     sd_step s (s\<lparr>threads := (threads s)(t := Entered r)\<rparr>)"
| acquire: "threads s t = Entered r \<Longrightarrow> lock s = None \<Longrightarrow>
     sd_step s (s\<lparr>lock := Some t, threads := (threads s)(t := Locked r)\<rparr>)"
| request: "threads s t = Locked r \<Longrightarrow> 0 \<le> now \<Longrightarrow> issue (raw s) now r = Some d \<Longrightarrow>
     sd_step s (s\<lparr>raw := d, threads := (threads s)(t := Issued r)\<rparr>)"
| request_fails: "threads s t = Locked r \<Longrightarrow> 0 \<le> now \<Longrightarrow> issue (raw s) now r = None \<Longrightarrow>
     sd_step s (s\<lparr>crashed := True\<rparr>)"
| interrupt: "active (raw s) \<Longrightarrow>
     sd_step s (s\<lparr>raw := HandleInterrupt (raw s), semaphore := semaphore s + 1\<rparr>)"
| wake: "threads s t = Issued r \<Longrightarrow> semaphore s > 0 \<Longrightarrow> lock s = Some t \<Longrightarrow>
     sd_step s (s\<lparr>semaphore := semaphore s - 1, lock := None, threads := (threads s)(t := Idle)\<rparr>)"

inductive sd_reachable :: "(int \<Rightarrow> byte list) \<Rightarrow> SynchDisk \<Rightarrow> bool" for img where
  start: "sd_reachable img (SynchDisk_new img)"
| step: "sd_reachable img s \<Longrightarrow> sd_step s s' \<Longrightarrow> sd_reachable img s'"

definition disk_wf :: "RawDisk \<Rightarrow> bool" where
  "disk_wf d \<longleftrightarrow> 0 \<le> lastSector d \<and> lastSector d < NumSectors"

definition holds_lock :: "phase \<Rightarrow> bool" where
  "holds_lock p \<longleftrightarrow> (case p of Locked r \<Rightarrow> True | Issued r \<Rightarrow> True | _ \<Rightarrow> False)"

text \<open>
  The invariant: the lock names exactly the thread between acquire and release; the device is
  active or the semaphore is one only while that thread has issued its request, and never both.
\<close>

definition sd_inv :: "SynchDisk \<Rightarrow> bool" where
  "sd_inv s \<longleftrightarrow> \<not> crashed s \<and> disk_wf (raw s)
     \<and> (\<forall>t. holds_lock (threads s t) \<longleftrightarrow> lock s = Some t)
     \<and> (\<forall>t r. threads s t = Entered r \<or> threads s t = Locked r \<or> threads s t = Issued r
           \<longrightarrow> 0 \<le> req_sector r \<and> req_sector r < NumSectors)
     \<and> semaphore s + (if active (raw s) then 1 else 0)
         = (case lock s of Some t \<Rightarrow> (case threads s t of Issued r \<Rightarrow> 1 | _ \<Rightarrow> 0) | None \<Rightarrow> 0)"

lemma issue_accepted:
  assumes "disk_wf d" "\<not> active d" "0 \<le> now" "0 \<le> req_sector r" "req_sector r < NumSectors"
  obtains d' where "issue d now r = Some d'" "disk_wf d'" "active d'"
proof (cases r)
  case (RReq n)
  then show ?thesis
    using request_effects [of now n d "[]"] assms that by (auto simp: disk_wf_def)
next
  case (WReq n data)
  then show ?thesis
    using request_effects [of now n d data] assms that by (auto simp: disk_wf_def)
qed

lemma sd_inv_locked_idle_device:
  assumes "sd_inv s" "threads s t = Locked r"
  shows "\<not> active (raw s)" "lock s = Some t"
proof -
  show l: "lock s = Some t"
    using assms unfolding sd_inv_def by (metis holds_lock_def phase.simps(18))
  then show "\<not> active (raw s)"
    using assms by (auto simp: sd_inv_def split: if_splits)
qed

lemma sd_step_inv:
  assumes "sd_step s s'" "sd_inv s"
  shows "sd_inv s'"
  using assms
proof (induction rule: sd_step.induct)
  case (call s t r)
  then show ?case
    by (auto simp: sd_inv_def holds_lock_def split: option.splits phase.splits)
next
  case (acquire s t r)
  then show ?case
    by (auto simp: sd_inv_def holds_lock_def split: option.splits phase.splits)
next
  case (request s t r now d)
  note idle = sd_inv_locked_idle_device [OF request.prems request.hyps(1)]
  have "0 \<le> req_sector r" "req_sector r < NumSectors" "disk_wf (raw s)"
    using request by (auto simp: sd_inv_def)
  then have "disk_wf d" "active d"
    using issue_accepted [of "raw s" now r] idle request.hyps(2,3) by auto
  then show ?case
    using request idle by (auto simp: sd_inv_def holds_lock_def split: phase.splits if_splits)
next
  case (request_fails s t r now)
  note idle = sd_inv_locked_idle_device [OF request_fails.prems request_fails.hyps(1)]
  have "0 \<le> req_sector r" "req_sector r < NumSectors" "disk_wf (raw s)"
    using request_fails by (auto simp: sd_inv_def)
  then show ?case
    using issue_accepted [of "raw s" now r] idle request_fails.hyps(2,3) by auto
next
  case (interrupt s)
  then show ?case
    by (auto simp: sd_inv_def HandleInterrupt_def disk_wf_def split: option.splits phase.splits)
next
  case (wake s t r)
  then show ?case
    by (auto simp: sd_inv_def holds_lock_def split: if_splits phase.splits)
qed

lemma sd_reachable_inv: "sd_reachable img s \<Longrightarrow> sd_inv s"
proof (induction rule: sd_reachable.induct)
  case start
  show ?case
    by (simp add: sd_inv_def SynchDisk_new_def Disk_new_def disk_wf_def holds_lock_def)
next
  case (step s s')
  then show ?case by (blast intro: sd_step_inv)
qed

text \<open>
  C35. Mutual exclusion on the disk. Whatever threads call \<open>SynchDisk::ReadSector\<close> and
  \<open>WriteSector\<close> on sectors of the disk and however their steps interleave with the completion
  interrupt, no device assertion fails, at most one thread is between \<open>Acquire\<close> and \<open>Release\<close>, and
  a thread about to issue its request finds the device idle and the semaphore at zero.
\<close>

theorem synchdisk_mutual_exclusion:
  assumes "sd_reachable img s"
  shows "\<not> crashed s
    \<and> (holds_lock (threads s t) \<longrightarrow> holds_lock (threads s u) \<longrightarrow> t = u)
    \<and> (threads s t = Locked r \<longrightarrow> \<not> active (raw s) \<and> semaphore s = 0)
    \<and> semaphore s \<le> 1"
proof (intro conjI impI)
  note inv = sd_reachable_inv [OF assms]
  then show "\<not> crashed s" by (simp add: sd_inv_def)
  show "t = u" if "holds_lock (threads s t)" "holds_lock (threads s u)"
    using inv that by (auto simp: sd_inv_def)
  show "\<not> active (raw s)" if "threads s t = Locked r"
    using inv that by (rule sd_inv_locked_idle_device)
  show "semaphore s = 0" if "threads s t = Locked r"
    using inv sd_inv_locked_idle_device(2) [OF inv that] that by (auto simp: sd_inv_def)
  show "semaphore s \<le> 1"
    using inv by (auto simp: sd_inv_def split: option.splits phase.splits)
qed

theorem synchdisk_mutual_exclusion_witness:
  "\<exists>s. sd_reachable (\<lambda>_. replicate 128 0) s \<and> threads s 3 = Locked (RReq 5) \<and> \<not> active (raw s)"
proof -
  let ?s0 = "SynchDisk_new (\<lambda>_. replicate 128 0)"
  let ?s1 = "?s0\<lparr>threads := (threads ?s0)(3 := Entered (RReq 5))\<rparr>"
  let ?s2 = "?s1\<lparr>lock := Some 3, threads := (threads ?s1)(3 := Locked (RReq 5))\<rparr>"
  have "sd_reachable (\<lambda>_. replicate 128 0) ?s1"
    by (rule sd_reachable.step [OF sd_reachable.start], rule sd_step.call)
       (simp_all add: SynchDisk_new_def)
  then have "sd_reachable (\<lambda>_. replicate 128 0) ?s2"
    by (rule sd_reachable.step, intro sd_step.acquire) (simp_all add: SynchDisk_new_def)
  then show ?thesis
    using synchdisk_mutual_exclusion [of _ ?s2 3 0 "RReq 5"] by (intro exI [of _ ?s2]) auto
qed

text \<open>
  No deadlock in the disk driver: in every reachable state in which some thread holds the disk
  lock, a step that brings this thread closer to its return is enabled. A thread that has the lock
  can issue its request; after that the interrupt can occur or the thread can wake up, and waking
  up releases the lock.
\<close>

lemma synchdisk_progress:
  assumes "sd_reachable img s" "lock s = Some t"
  shows "(\<exists>r s'. threads s t = Locked r \<and> sd_step s s' \<and> threads s' t = Issued r)
    \<or> (\<exists>r s'. threads s t = Issued r \<and> semaphore s = 0 \<and> sd_step s s'
         \<and> threads s' t = Issued r \<and> semaphore s' = 1)
    \<or> (\<exists>r s'. threads s t = Issued r \<and> sd_step s s' \<and> threads s' t = Idle \<and> lock s' = None)"
proof -
  note inv = sd_reachable_inv [OF assms(1)]
  have "holds_lock (threads s t)" using inv assms(2) by (simp add: sd_inv_def)
  then consider r where "threads s t = Locked r" | r where "threads s t = Issued r"
    by (cases "threads s t") (auto simp: holds_lock_def)
  then show ?thesis
  proof cases
    case (1 r)
    then have "disk_wf (raw s)" "0 \<le> req_sector r" "req_sector r < NumSectors"
      using inv by (auto simp: sd_inv_def)
    then obtain d where "issue (raw s) 0 r = Some d"
      using issue_accepted [of "raw s" 0 r] sd_inv_locked_idle_device [OF inv 1] by auto
    with 1 have "sd_step s (s\<lparr>raw := d, threads := (threads s)(t := Issued r)\<rparr>)"
      by (intro sd_step.request) simp_all
    with 1 show ?thesis
      by (intro disjI1 exI [of _ r] exI [of _ "s\<lparr>raw := d, threads := (threads s)(t := Issued r)\<rparr>"])
         simp
  next
    case (2 r)
    show ?thesis
    proof (cases "semaphore s = 0")
      case True
      then have "active (raw s)"
        using inv assms(2) 2 by (auto simp: sd_inv_def split: if_splits)
      then have "sd_step s (s\<lparr>raw := HandleInterrupt (raw s), semaphore := semaphore s + 1\<rparr>)"
        by (rule sd_step.interrupt)
      with 2 True show ?thesis
        by (intro disjI2 disjI1 exI [of _ r]
            exI [of _ "s\<lparr>raw := HandleInterrupt (raw s), semaphore := semaphore s + 1\<rparr>"]) simp
    next
      case False
      with 2 assms(2) have "sd_step s (s\<lparr>semaphore := semaphore s - 1, lock := None,
          threads := (threads s)(t := Idle)\<rparr>)"
        by (intro sd_step.wake) simp_all
      with 2 show ?thesis
        by (intro disjI2 exI [of _ r] exI [of _ "s\<lparr>semaphore := semaphore s - 1, lock := None,
            threads := (threads s)(t := Idle)\<rparr>"]) simp
    qed
  qed
qed

subsection \<open>The sectors as the file system sees them\<close>

text \<open>
  A \<open>dev\<close> is the contents of the disk between two completed requests, together with \<open>junk\<close>, the
  contents of freshly allocated host memory: buffers and objects the kernel allocates with \<open>new\<close>
  and does not initialise hold these bytes. Every theorem holds for every \<open>junk\<close>.
\<close>

record dev =
  sectors :: "int \<Rightarrow> byte list"
  junk :: "nat \<Rightarrow> byte"

definition ReadSector :: "dev \<Rightarrow> int \<Rightarrow> byte list option" where
  "ReadSector v sectorNumber = do {
     ASSERT (sectorNumber \<ge> 0 \<and> sectorNumber < NumSectors);
     Some (sectors v sectorNumber)
   }"

definition WriteSector :: "dev \<Rightarrow> int \<Rightarrow> byte list \<Rightarrow> dev option" where
  "WriteSector v sectorNumber data = do {
     ASSERT (sectorNumber \<ge> 0 \<and> sectorNumber < NumSectors);
     Some (v\<lparr>sectors := (sectors v)(sectorNumber := take (nat SectorSize) data)\<rparr>)
   }"

text \<open>
  A whole call of the synchronous disk by one thread: the request is issued at time \<open>now\<close> and the
  call returns when the completion interrupt fires. The state is the device and the clock.
\<close>

definition irq_time :: "RawDisk \<Rightarrow> int \<Rightarrow> int" where
  "irq_time d now = (case irq d of Some t \<Rightarrow> t | None \<Rightarrow> now)"

fun SynchDisk_ReadSector :: "RawDisk \<times> int \<Rightarrow> int \<Rightarrow> (byte list \<times> RawDisk \<times> int) option" where
  "SynchDisk_ReadSector (d, now) n = do {
     (data, d1) \<leftarrow> ReadRequest d now n;
     Some (data, HandleInterrupt d1, irq_time d1 now)
   }"

fun SynchDisk_WriteSector :: "RawDisk \<times> int \<Rightarrow> int \<Rightarrow> byte list \<Rightarrow> (RawDisk \<times> int) option" where
  "SynchDisk_WriteSector (d, now) n data = do {
     d1 \<leftarrow> WriteRequest d now n data;
     Some (HandleInterrupt d1, irq_time d1 now)
   }"

definition disk_idle :: "RawDisk \<times> int \<Rightarrow> bool" where
  "disk_idle s \<longleftrightarrow> disk_wf (fst s) \<and> \<not> active (fst s) \<and> 0 \<le> snd s"

definition dev_wf :: "dev \<Rightarrow> bool" where
  "dev_wf v \<longleftrightarrow> (\<forall>n. length (sectors v n) = 128)"

locale sector_store =
  fixes ok :: "'s \<Rightarrow> bool"
    and sec :: "'s \<Rightarrow> int \<Rightarrow> byte list"
    and rd :: "'s \<Rightarrow> int \<Rightarrow> (byte list \<times> 's) option"
    and wr :: "'s \<Rightarrow> int \<Rightarrow> byte list \<Rightarrow> 's option"
  assumes rd_ok: "ok s \<Longrightarrow> 0 \<le> n \<Longrightarrow> n < NumSectors \<Longrightarrow>
      \<exists>s'. rd s n = Some (sec s n, s') \<and> ok s' \<and> sec s' = sec s"
    and wr_ok: "ok s \<Longrightarrow> 0 \<le> n \<Longrightarrow> n < NumSectors \<Longrightarrow> length data = 128 \<Longrightarrow>
      \<exists>s'. wr s n data = Some s' \<and> ok s' \<and> sec s' = (sec s)(n := data)"
begin

primrec wr_all :: "'s \<Rightarrow> (int \<times> byte list) list \<Rightarrow> 's option" where
  "wr_all s [] = Some s"
| "wr_all s (p # ps) = do { s' \<leftarrow> wr s (fst p) (snd p); wr_all s' ps }"

primrec rd_all :: "'s \<Rightarrow> int list \<Rightarrow> (byte list \<times> 's) option" where
  "rd_all s [] = Some ([], s)"
| "rd_all s (n # ns) = do { (b, s1) \<leftarrow> rd s n; (bs, s2) \<leftarrow> rd_all s1 ns; Some (b @ bs, s2) }"

lemma wr_all_spec:
  assumes "ok s" "\<forall>(n, data) \<in> set ps. 0 \<le> n \<and> n < NumSectors \<and> length data = 128"
    and "distinct (map fst ps)"
  shows "\<exists>s'. wr_all s ps = Some s' \<and> ok s'
    \<and> sec s' = (\<lambda>n. case map_of ps n of Some data \<Rightarrow> data | None \<Rightarrow> sec s n)"
  using assms
proof (induction ps arbitrary: s)
  case Nil
  then show ?case by simp
next
  case (Cons p ps)
  obtain n data where p: "p = (n, data)" by (cases p)
  obtain s1 where s1: "wr s n data = Some s1" "ok s1" "sec s1 = (sec s)(n := data)"
    using wr_ok [of s n data] Cons.prems p by auto
  have "map_of ps n = None"
    using Cons.prems(3) p by (simp add: map_of_eq_None_iff)
  then have "(\<lambda>m. case map_of ps m of Some x \<Rightarrow> x | None \<Rightarrow> sec s1 m)
      = (\<lambda>m. case map_of (p # ps) m of Some x \<Rightarrow> x | None \<Rightarrow> sec s m)"
    using p s1(3) by (intro ext) (simp split: option.split)
  moreover obtain s' where "wr_all s1 ps = Some s'" "ok s'"
    "sec s' = (\<lambda>m. case map_of ps m of Some x \<Rightarrow> x | None \<Rightarrow> sec s1 m)"
    using Cons.IH [OF s1(2)] Cons.prems by auto
  ultimately show ?case using p s1(1) by auto
qed

lemma rd_all_spec:
  assumes "ok s" "set ns \<subseteq> {0..<NumSectors}"
  shows "\<exists>s'. rd_all s ns = Some (concat (map (sec s) ns), s') \<and> ok s' \<and> sec s' = sec s"
  using assms
proof (induction ns arbitrary: s)
  case Nil
  then show ?case by simp
next
  case (Cons n ns)
  then obtain s1 where s1: "rd s n = Some (sec s n, s1)" "ok s1" "sec s1 = sec s"
    using rd_ok [of s n] by auto
  with Cons.IH [OF s1(2)] Cons.prems show ?case by auto
qed

lemma rd_all_wr_all:
  assumes "ok s" "distinct ns" "set ns \<subseteq> {0..<NumSectors}" "length ns = length bs"
    and "\<forall>b \<in> set bs. length b = 128"
  shows "\<exists>s1 s2. wr_all s (zip ns bs) = Some s1 \<and> rd_all s1 ns = Some (concat bs, s2) \<and> ok s2"
proof -
  have "\<forall>(n, data) \<in> set (zip ns bs). 0 \<le> n \<and> n < NumSectors \<and> length data = 128"
    using assms(3,5) by (auto dest: set_zip_leftD set_zip_rightD)
  moreover have "distinct (map fst (zip ns bs))" using assms(2,4) by simp
  ultimately obtain s1 where s1: "wr_all s (zip ns bs) = Some s1" "ok s1"
    "sec s1 = (\<lambda>n. case map_of (zip ns bs) n of Some data \<Rightarrow> data | None \<Rightarrow> sec s n)"
    using wr_all_spec [OF assms(1)] by blast
  have "map (sec s1) ns = bs"
    using assms(2,4) by (auto simp: s1(3) map_of_zip_nth intro!: nth_equalityI)
  with rd_all_spec [OF s1(2) assms(3)] s1(1) show ?thesis by auto
qed

end

interpretation ds: sector_store dev_wf sectors "\<lambda>v n. map_option (\<lambda>x. (x, v)) (ReadSector v n)"
  WriteSector
  by unfold_locales (auto simp: ReadSector_def WriteSector_def dev_wf_def)

interpretation sd: sector_store disk_idle "\<lambda>s. store (fst s)" SynchDisk_ReadSector SynchDisk_WriteSector
proof (unfold_locales, goal_cases)
  case (1 s n)
  obtain d now where s: "s = (d, now)" by fastforce
  show ?case
    using request_effects [of now n d "[]"] 1
    by (auto simp: s HandleInterrupt_def disk_wf_def disk_idle_def irq_time_def)
next
  case (2 s n data)
  obtain d now where s: "s = (d, now)" by fastforce
  show ?case
    using request_effects [of now n d data] 2
    by (auto simp: s HandleInterrupt_def disk_wf_def disk_idle_def irq_time_def)
qed

text \<open>
  What is written to the disk is read back: writing any number of distinct sectors through the
  synchronous disk and reading them in the same order returns the data written, whatever the head
  position and the time, and the device is idle again afterwards.
\<close>

lemma synchdisk_read_back:
  assumes "disk_idle s" "distinct ns" "set ns \<subseteq> {0..<NumSectors}" "length ns = length bs"
    and "\<forall>b \<in> set bs. length b = 128"
  shows "\<exists>s1 s2. sd.wr_all s (zip ns bs) = Some s1 \<and> sd.rd_all s1 ns = Some (concat bs, s2)
    \<and> disk_idle s2"
  using assms by (rule sd.rd_all_wr_all)

end
