(* ===== verification/FileHdr.thy ===== *)
theory FileHdr
  imports Disk
begin

text \<open>
  File headers and open files: src/code/filesys/filehdr.h, filehdr.cc (\<open>FetchFrom\<close>, \<open>WriteBack\<close>,
  \<open>ByteToSector\<close> and the accessors) and openfile.h, openfile.cc (the \<open>FILESYS\<close> version).

  A header is one sector: type, length in bytes, number of data sectors and 29 sector numbers. The
  first 28 are data sectors; the last one is the header of a file that lists the further data
  sectors (the "undirected block"). \<open>ByteToSector\<close> opens that file and reads from it, and reading
  calls \<open>ByteToSector\<close> again, on an offset at most a 32nd as large.

  \<open>maps_to\<close> is the contract between the header and its blocks; under it \<open>ReadAt\<close> and \<open>WriteAt\<close> are
  reading and writing a plain byte sequence (\<open>contents\<close>).
\<close>

abbreviation NumDirect :: int where "NumDirect \<equiv> 29"

subsection \<open>Headers in memory and on disk\<close>

text \<open>\<open>BAD_TYPE\<close> stands for the values outside the enumeration that a foreign sector can hold.\<close>

datatype fileType = DATA_FILE | DIRECTORY | ROOT | BAD_TYPE int

fun type_code :: "fileType \<Rightarrow> int" where
  "type_code DATA_FILE = 0"
| "type_code DIRECTORY = 1"
| "type_code ROOT = 2"
| "type_code (BAD_TYPE n) = n"

definition code_type :: "int \<Rightarrow> fileType" where
  "code_type n = (if n = 0 then DATA_FILE else if n = 1 then DIRECTORY else if n = 2 then ROOT
     else BAD_TYPE n)"

record FileHeader =
  ftype :: fileType
  numBytes :: int
  numSectors :: int
  dataSectors :: "int list"

fun decode_ints :: "nat \<Rightarrow> byte list \<Rightarrow> int list" where
  "decode_ints 0 bs = []"
| "decode_ints (Suc n) bs = bytes_int bs # decode_ints n (drop 4 bs)"

definition encode_hdr :: "FileHeader \<Rightarrow> byte list" where
  "encode_hdr h = int_bytes (type_code (ftype h)) @ int_bytes (numBytes h)
     @ int_bytes (numSectors h) @ concat (map int_bytes (dataSectors h))"

definition decode_hdr :: "byte list \<Rightarrow> FileHeader" where
  "decode_hdr bs = (let xs = decode_ints 32 bs in
     \<lparr>ftype = code_type (xs ! 0), numBytes = xs ! 1, numSectors = xs ! 2, dataSectors = drop 3 xs\<rparr>)"

text \<open>\<open>new FileHeader\<close>: there is no constructor, the fields are whatever the memory held.\<close>

definition FileHeader_new :: "dev \<Rightarrow> FileHeader" where
  "FileHeader_new v = decode_hdr (map (junk v) [0..<128])"

definition FileHeader_FetchFrom :: "dev \<Rightarrow> int \<Rightarrow> FileHeader option" where
  "FileHeader_FetchFrom v sector = do { bs \<leftarrow> ReadSector v sector; Some (decode_hdr bs) }"

definition FileHeader_WriteBack :: "dev \<Rightarrow> FileHeader \<Rightarrow> int \<Rightarrow> dev option" where
  "FileHeader_WriteBack v h sector = WriteSector v sector (encode_hdr h)"

definition FileLength :: "FileHeader \<Rightarrow> int" where
  "FileLength h = numBytes h"

definition IsDataFile :: "FileHeader \<Rightarrow> bool" where
  "IsDataFile h \<longleftrightarrow> ftype h = DATA_FILE"

definition IsDirectory :: "FileHeader \<Rightarrow> bool" where
  "IsDirectory h \<longleftrightarrow> ftype h = DIRECTORY \<or> ftype h = ROOT"

definition IsRoot :: "FileHeader \<Rightarrow> bool" where
  "IsRoot h \<longleftrightarrow> ftype h = ROOT"

definition GetNumBytes :: "FileHeader \<Rightarrow> int" where
  "GetNumBytes h = numBytes h"

subsection \<open>Reading through a header\<close>

text \<open>
  The loop of \<open>OpenFile::ReadAt\<close> over the sectors \<open>i, i + 1, \<dots>\<close> and \<open>ReadAt\<close> itself, over the
  function \<open>bts\<close> that \<open>hdr->ByteToSector\<close> computes. The bytes returned are those copied to \<open>into\<close>;
  their number is the result of the call. A negative \<open>position\<close> makes the source of \<open>bcopy\<close> lie
  before the buffer.
\<close>

fun read_sectors :: "(int \<Rightarrow> int option) \<Rightarrow> dev \<Rightarrow> int \<Rightarrow> nat \<Rightarrow> byte list option" where
  "read_sectors bts v i 0 = Some []"
| "read_sectors bts v i (Suc n) = do {
     s \<leftarrow> bts (i * SectorSize);
     b \<leftarrow> ReadSector v s;
     bs \<leftarrow> read_sectors bts v (i + 1) n;
     Some (b @ bs)
   }"

definition ReadAt_via :: "(int \<Rightarrow> int option) \<Rightarrow> dev \<Rightarrow> FileHeader \<Rightarrow> int \<Rightarrow> int \<Rightarrow> byte list option" where
  "ReadAt_via bts v h numBytes' position =
     (let fileLength = FileLength h in
      if numBytes' \<le> 0 \<or> position \<ge> fileLength then Some []
      else do {
        let n = (if position + numBytes' > fileLength then fileLength - position else numBytes');
        let firstSector = divRoundDown position SectorSize;
        let lastSector = divRoundDown (position + n - 1) SectorSize;
        let numSectors' = 1 + lastSector - firstSector;
        buf \<leftarrow> read_sectors bts v firstSector (nat numSectors');
        ASSERT (0 \<le> position - firstSector * SectorSize);
        Some (take (nat n) (drop (nat (position - firstSector * SectorSize)) buf))
      })"

text \<open>
  \<open>FileHeader::ByteToSector\<close>. The recursion through \<open>ReadAt\<close> is bounded by fuel; \<open>bts_fuel_enough\<close>
  shows that eight levels are never exhausted on a 32-bit offset. \<open>entry\<close> is unsigned in the source: a
  negative quotient becomes a huge index, and the read of the undirected block then fails its
  assertion.
\<close>

fun bts_fuel :: "nat \<Rightarrow> dev \<Rightarrow> FileHeader \<Rightarrow> int \<Rightarrow> int option" where
  "bts_fuel 0 v h offset = None"
| "bts_fuel (Suc fuel) v h offset =
     (let entry = offset sdiv SectorSize in
      if entry < 0 then None
      else if entry < NumDirect - 1 then Some (dataSectors h ! nat entry)
      else do {
        ih \<leftarrow> FileHeader_FetchFrom v (dataSectors h ! nat (NumDirect - 1));
        let newOffset = offset - SectorSize * (NumDirect - 1);
        bs \<leftarrow> ReadAt_via (bts_fuel fuel v ih) v ih 4 (4 * (newOffset sdiv SectorSize));
        ASSERT (length bs = 4);
        Some (bytes_int bs)
      })"

definition ByteToSector :: "dev \<Rightarrow> FileHeader \<Rightarrow> int \<Rightarrow> int option" where
  "ByteToSector v h offset = bts_fuel 8 v h offset"

definition ReadAt :: "dev \<Rightarrow> FileHeader \<Rightarrow> int \<Rightarrow> int \<Rightarrow> byte list option" where
  "ReadAt v h n position = ReadAt_via (ByteToSector v h) v h n position"

subsection \<open>Writing through a header\<close>

definition overlay :: "'a list \<Rightarrow> nat \<Rightarrow> 'a list \<Rightarrow> 'a list" where
  "overlay xs k ys = take k xs @ ys @ drop (k + length ys) xs"

fun write_sectors :: "dev \<Rightarrow> FileHeader \<Rightarrow> int \<Rightarrow> nat \<Rightarrow> byte list \<Rightarrow> dev option" where
  "write_sectors v h i 0 buf = Some v"
| "write_sectors v h i (Suc n) buf = do {
     s \<leftarrow> ByteToSector v h (i * SectorSize);
     v' \<leftarrow> WriteSector v s buf;
     write_sectors v' h (i + 1) n (drop (nat SectorSize) buf)
   }"

text \<open>\<open>OpenFile::WriteAt\<close>: the number of bytes written and the disk afterwards.\<close>

definition WriteAt :: "dev \<Rightarrow> FileHeader \<Rightarrow> byte list \<Rightarrow> int \<Rightarrow> int \<Rightarrow> (int \<times> dev) option" where
  "WriteAt v h from numBytes' position =
     (let fileLength = FileLength h in
      if numBytes' \<le> 0 \<or> position \<ge> fileLength then Some (0, v)
      else do {
        let n = (if position + numBytes' > fileLength then fileLength - position else numBytes');
        let firstSector = divRoundDown position SectorSize;
        let lastSector = divRoundDown (position + n - 1) SectorSize;
        let numSectors' = 1 + lastSector - firstSector;
        let buf = map (junk v) [0..<nat (numSectors' * SectorSize)];
        let firstAligned = (position = firstSector * SectorSize);
        let lastAligned = (position + n = (lastSector + 1) * SectorSize);
        buf \<leftarrow> (if \<not> firstAligned then do {
                  bs \<leftarrow> ReadAt v h SectorSize (firstSector * SectorSize);
                  Some (overlay buf 0 bs) }
                else Some buf);
        buf \<leftarrow> (if \<not> lastAligned \<and> (firstSector \<noteq> lastSector \<or> firstAligned) then do {
                  bs \<leftarrow> ReadAt v h SectorSize (lastSector * SectorSize);
                  Some (overlay buf (nat ((lastSector - firstSector) * SectorSize)) bs) }
                else Some buf);
        ASSERT (0 \<le> position - firstSector * SectorSize \<and> nat n \<le> length from);
        let buf = overlay buf (nat (position - firstSector * SectorSize)) (take (nat n) from);
        v' \<leftarrow> write_sectors v h firstSector (nat numSectors') buf;
        Some (n, v')
      })"

subsection \<open>Open files\<close>

record OpenFile =
  hdr :: FileHeader
  seekPosition :: int

definition OpenFile_new :: "dev \<Rightarrow> int \<Rightarrow> OpenFile option" where
  "OpenFile_new v sector = do {
     h \<leftarrow> FileHeader_FetchFrom v sector;
     Some \<lparr>hdr = h, seekPosition = 0\<rparr>
   }"

definition OpenFile_Seek :: "OpenFile \<Rightarrow> int \<Rightarrow> OpenFile" where
  "OpenFile_Seek f position = f\<lparr>seekPosition := position\<rparr>"

definition OpenFile_Read :: "dev \<Rightarrow> OpenFile \<Rightarrow> int \<Rightarrow> (byte list \<times> OpenFile) option" where
  "OpenFile_Read v f n = do {
     bs \<leftarrow> ReadAt v (hdr f) n (seekPosition f);
     Some (bs, f\<lparr>seekPosition := seekPosition f + int (length bs)\<rparr>)
   }"

definition OpenFile_Write :: "dev \<Rightarrow> OpenFile \<Rightarrow> byte list \<Rightarrow> int \<Rightarrow> (int \<times> OpenFile \<times> dev) option" where
  "OpenFile_Write v f into n = do {
     (result, v') \<leftarrow> WriteAt v (hdr f) into n (seekPosition f);
     Some (result, f\<lparr>seekPosition := seekPosition f + result\<rparr>, v')
   }"

definition OpenFile_Length :: "OpenFile \<Rightarrow> int" where
  "OpenFile_Length f = FileLength (hdr f)"

definition GetSeek :: "OpenFile \<Rightarrow> int" where
  "GetSeek f = seekPosition f"

subsection \<open>Headers survive the disk\<close>

definition hdr_repr :: "FileHeader \<Rightarrow> bool" where
  "hdr_repr h \<longleftrightarrow> length (dataSectors h) = 29 \<and> list_all is_int32 (dataSectors h)
     \<and> is_int32 (numBytes h) \<and> is_int32 (numSectors h)
     \<and> is_int32 (type_code (ftype h)) \<and> code_type (type_code (ftype h)) = ftype h"

lemma length_concat_int_bytes [simp]: "length (concat (map int_bytes xs)) = 4 * length xs"
  by (induction xs) simp_all

lemma decode_ints_concat:
  "list_all is_int32 xs \<Longrightarrow> decode_ints (length xs) (concat (map int_bytes xs) @ bs) = xs"
  by (induction xs) (simp_all add: bytes_int_bytes)

lemma encode_hdr_eq: "encode_hdr h = concat (map int_bytes
    (type_code (ftype h) # numBytes h # numSectors h # dataSectors h))"
  by (simp add: encode_hdr_def)

lemma length_encode_hdr: "hdr_repr h \<Longrightarrow> length (encode_hdr h) = 128"
  by (simp add: encode_hdr_eq hdr_repr_def)

lemma decode_encode_hdr: "hdr_repr h \<Longrightarrow> decode_hdr (encode_hdr h) = h"
proof -
  assume h: "hdr_repr h"
  let ?xs = "type_code (ftype h) # numBytes h # numSectors h # dataSectors h"
  have "length ?xs = 32" "list_all is_int32 ?xs" using h by (simp_all add: hdr_repr_def)
  then have "decode_ints 32 (encode_hdr h) = ?xs"
    using decode_ints_concat [of ?xs "[]"] by (simp only: encode_hdr_eq append_Nil2)
  then show ?thesis using h by (simp add: decode_hdr_def hdr_repr_def)
qed

lemma length_decode_ints [simp]: "length (decode_ints n bs) = n"
  by (induction n bs rule: decode_ints.induct) simp_all

lemma decode_ints_int32: "list_all is_int32 (decode_ints n bs)"
  by (induction n bs rule: decode_ints.induct) (simp_all add: bytes_int_range)

lemma decode_hdr_repr: "hdr_repr (decode_hdr bs)"
proof -
  have "is_int32 (decode_ints 32 bs ! i)" if "i < 32" for i
    using decode_ints_int32 [of 32 bs] that by (simp add: list_all_length)
  moreover have "list_all is_int32 (drop 3 (decode_ints 32 bs))"
    using decode_ints_int32 [of 32 bs] by (auto simp: list_all_iff dest: in_set_dropD)
  moreover have "type_code (code_type n) = n" for n by (simp add: code_type_def)
  ultimately show ?thesis by (simp add: decode_hdr_def hdr_repr_def Let_def)
qed

lemma FetchFrom_repr: "FileHeader_FetchFrom v n = Some h \<Longrightarrow> hdr_repr h"
  by (auto simp: FileHeader_FetchFrom_def bind_Some_iff decode_hdr_repr)

text \<open>
  A file header written to a sector of the disk and fetched again is the same header, and the
  write changes no other sector: 32 little-endian integers fill the sector exactly.
\<close>

theorem header_write_fetch:
  assumes "hdr_repr h" "0 \<le> n" "n < NumSectors" "dev_wf v"
  shows "\<exists>v'. FileHeader_WriteBack v h n = Some v' \<and> FileHeader_FetchFrom v' n = Some h
    \<and> dev_wf v' \<and> (\<forall>m. m \<noteq> n \<longrightarrow> sectors v' m = sectors v m)"
  using assms length_encode_hdr [OF assms(1)] decode_encode_hdr [OF assms(1)]
  by (auto simp: FileHeader_WriteBack_def FileHeader_FetchFrom_def WriteSector_def ReadSector_def
      dev_wf_def)

subsection \<open>Enough fuel for \<open>ByteToSector\<close>\<close>

lemma sector_bounds:
  fixes x :: int
  shows "128 * (x div 128) \<le> x" "x < 128 * (x div 128) + 128"
  using pos_mod_bound [of 128 x] mult_div_mod_eq [of 128 x] pos_mod_sign [of 128 x] by simp_all

lemma read_sectors_cong:
  assumes "\<And>k. k < n \<Longrightarrow> f ((i + int k) * 128) = g ((i + int k) * 128)"
  shows "read_sectors f v i n = read_sectors g v i n"
  using assms
proof (induction n arbitrary: i)
  case 0
  then show ?case by simp
next
  case (Suc n)
  have "read_sectors f v (i + 1) n = read_sectors g v (i + 1) n"
  proof (rule Suc.IH)
    fix k assume "k < n"
    then show "f ((i + 1 + int k) * 128) = g ((i + 1 + int k) * 128)"
      using Suc.prems [of "Suc k"] by (simp add: algebra_simps)
  qed
  then show ?case using Suc.prems [of 0] by simp
qed

lemma ReadAt_via_cong:
  assumes "0 \<le> p" "\<And>off. 0 \<le> off \<Longrightarrow> off \<le> p + n - 1 \<Longrightarrow> off mod 128 = 0 \<Longrightarrow> f off = g off"
  shows "ReadAt_via f v h n p = ReadAt_via g v h n p"
proof (cases "n \<le> 0 \<or> p \<ge> FileLength h")
  case True
  then show ?thesis by (simp add: ReadAt_via_def Let_def)
next
  case False
  define m where "m = (if p + n > FileLength h then FileLength h - p else n)"
  have m: "0 < m" "m \<le> n" using False by (auto simp: m_def)
  have "read_sectors f v (p div 128) (nat (1 + (p + m - 1) div 128 - p div 128))
      = read_sectors g v (p div 128) (nat (1 + (p + m - 1) div 128 - p div 128))"
  proof (rule read_sectors_cong)
    fix k assume k: "k < nat (1 + (p + m - 1) div 128 - p div 128)"
    then have "p div 128 + int k \<le> (p + m - 1) div 128" by linarith
    then have "(p div 128 + int k) * 128 \<le> (p + m - 1) div 128 * 128" by simp
    also have "\<dots> \<le> p + m - 1"
      using pos_mod_sign [of 128 "p + m - 1"] mult_div_mod_eq [of 128 "p + m - 1"] by linarith
    finally have "(p div 128 + int k) * 128 \<le> p + n - 1" using m by linarith
    then show "f ((p div 128 + int k) * 128) = g ((p div 128 + int k) * 128)"
      using assms(1) by (intro assms(2)) simp_all
  qed
  then show ?thesis
    using assms(1) False m by (simp add: ReadAt_via_def Let_def divRoundDown_def m_def)
qed

lemma bts_fuel_enough:
  assumes "0 \<le> off" "off < 3584 * 32 ^ k" "k \<le> k'"
  shows "bts_fuel (Suc k') v h off = bts_fuel (Suc k) v h off"
  using assms
proof (induction k arbitrary: k' h off)
  case 0
  then have "off sdiv 128 < 28" by simp
  then show ?case using "0.prems"(1) by (simp add: Let_def)
next
  case (Suc k)
  then obtain k1 where k1: "k' = Suc k1" "k \<le> k1" by (cases k') auto
  show ?case
  proof (cases "off div 128 < 28")
    case True
    then show ?thesis using Suc.prems(1) by (simp add: Let_def k1)
  next
    case False
    then have off: "3584 \<le> off" by linarith
    define p where "p = 4 * ((off - 3584) div 128)"
    have p: "0 \<le> p" "32 * p \<le> off - 3584" using off by (simp_all add: p_def)
    have "ReadAt_via (bts_fuel (Suc k1) v ih) v ih 4 p = ReadAt_via (bts_fuel (Suc k) v ih) v ih 4 p"
      for ih
    proof (rule ReadAt_via_cong [OF p(1)])
      fix o' :: int assume o': "0 \<le> o'" "o' \<le> p + 4 - 1" "o' mod 128 = 0"
      have "p mod 4 = 0" by (simp add: p_def)
      moreover have "o' mod 4 = 0" using o'(3) by presburger
      ultimately have "o' \<le> p" using o'(2) by presburger
      then have "o' < 3584 * 32 ^ k" using p Suc.prems(2) by simp
      from Suc.IH [OF o'(1) this k1(2)]
      show "bts_fuel (Suc k1) v ih o' = bts_fuel (Suc k) v ih o'" .
    qed
    then show ?thesis
      using off False by (simp add: Let_def k1 p_def)
  qed
qed

lemma ByteToSector_unfold:
  assumes "0 \<le> off" "off < 2 ^ 31"
  shows "ByteToSector v h off =
     (if off div 128 < 28 then Some (dataSectors h ! nat (off div 128))
      else do {
        ih \<leftarrow> FileHeader_FetchFrom v (dataSectors h ! 28);
        bs \<leftarrow> ReadAt v ih 4 (4 * ((off - 3584) div 128));
        ASSERT (length bs = 4);
        Some (bytes_int bs)
      })"
proof (cases "off div 128 < 28")
  case True
  have "bts_fuel (Suc 7) v h off = Some (dataSectors h ! nat (off div 128))"
    using assms(1) True by (simp only: bts_fuel.simps Let_def) simp
  moreover have "ByteToSector v h off = bts_fuel (Suc 7) v h off"
    by (simp add: ByteToSector_def eval_nat_numeral del: bts_fuel.simps)
  ultimately show ?thesis using True by simp
next
  case False
  then have off: "3584 \<le> off" by linarith
  define p where "p = 4 * ((off - 3584) div 128)"
  have p: "0 \<le> p" "32 * p \<le> off - 3584" using off by (simp_all add: p_def)
  have "ReadAt_via (bts_fuel 7 v ih) v ih 4 p = ReadAt_via (ByteToSector v ih) v ih 4 p" for ih
  proof (rule ReadAt_via_cong [OF p(1)])
    fix o' :: int assume o': "0 \<le> o'" "o' \<le> p + 4 - 1"
    then have "o' < 3584 * 32 ^ 6" using p assms(2) by simp
    from bts_fuel_enough [OF o'(1) this, of 7]
    show "bts_fuel 7 v ih o' = ByteToSector v ih o'"
      by (simp add: ByteToSector_def eval_nat_numeral del: bts_fuel.simps)
  qed
  then have "bts_fuel (Suc 7) v h off = do {
        ih \<leftarrow> FileHeader_FetchFrom v (dataSectors h ! 28);
        bs \<leftarrow> ReadAt_via (ByteToSector v ih) v ih 4 p;
        ASSERT (length bs = 4);
        Some (bytes_int bs)
      }"
    using off False by (simp only: bts_fuel.simps Let_def) (simp add: p_def)
  moreover have "ByteToSector v h off = bts_fuel (Suc 7) v h off"
    by (simp add: ByteToSector_def eval_nat_numeral del: bts_fuel.simps)
  ultimately show ?thesis
    using False by (simp add: ReadAt_def p_def del: bts_fuel.simps)
qed

text \<open>
  \<open>FileHeader::ByteToSector\<close> terminates on every offset an \<open>int\<close> can hold, although it opens and
  reads the undirected block through itself: the fuel of the model is never what stops it, for
  offsets below \<open>2^31\<close> more fuel gives the same result.
\<close>

lemma ByteToSector_terminates:
  assumes "0 \<le> off" "off < 2 ^ 31" "8 \<le> fuel"
  shows "bts_fuel fuel v h off = ByteToSector v h off"
proof -
  obtain k where k: "fuel = Suc k" "7 \<le> k" using assms(3) by (cases fuel) auto
  have "off < 3584 * 32 ^ 7" using assms(2) by simp
  from bts_fuel_enough [OF assms(1) this k(2)] show ?thesis
    by (simp add: ByteToSector_def k eval_nat_numeral del: bts_fuel.simps)
qed

subsection \<open>A file as a byte sequence\<close>

text \<open>
  \<open>maps_to v h bl ix\<close>: the data sectors of the file are \<open>bl\<close>, in order and distinct, and
  \<open>ByteToSector\<close> finds them as long as the index sectors \<open>ix\<close> (the undirected block), which are not
  data sectors, keep their contents.
\<close>

definition maps_to :: "dev \<Rightarrow> FileHeader \<Rightarrow> int list \<Rightarrow> int set \<Rightarrow> bool" where
  "maps_to v h bl ix \<longleftrightarrow> distinct bl \<and> set bl \<subseteq> {0..<NumSectors} \<and> set bl \<inter> ix = {}
     \<and> 0 \<le> numBytes h \<and> numBytes h \<le> 128 * int (length bl)
     \<and> (\<forall>v'. dev_wf v' \<longrightarrow> (\<forall>s \<in> ix. sectors v' s = sectors v s) \<longrightarrow>
          (\<forall>i < length bl. ByteToSector v' h (int i * 128) = Some (bl ! i)))"

definition raw_contents :: "dev \<Rightarrow> int list \<Rightarrow> byte list" where
  "raw_contents v bl = concat (map (sectors v) bl)"

definition contents :: "dev \<Rightarrow> FileHeader \<Rightarrow> int list \<Rightarrow> byte list" where
  "contents v h bl = take (nat (numBytes h)) (raw_contents v bl)"

lemma length_raw_contents [simp]: "dev_wf v \<Longrightarrow> length (raw_contents v bl) = 128 * length bl"
  by (induction bl) (simp_all add: raw_contents_def dev_wf_def)

lemma raw_contents_drop:
  "dev_wf v \<Longrightarrow> raw_contents v (drop k bl) = drop (128 * k) (raw_contents v bl)"
  by (induction bl arbitrary: k) (auto simp: raw_contents_def dev_wf_def drop_Cons split: nat.split)

lemma raw_contents_take:
  "dev_wf v \<Longrightarrow> raw_contents v (take k bl) = take (128 * k) (raw_contents v bl)"
  by (induction bl arbitrary: k) (auto simp: raw_contents_def dev_wf_def take_Cons split: nat.split)

lemma maps_to_bts:
  "maps_to v h bl ix \<Longrightarrow> dev_wf v \<Longrightarrow> i < length bl \<Longrightarrow> ByteToSector v h (int i * 128) = Some (bl ! i)"
  unfolding maps_to_def by blast

lemma maps_to_cong:
  "maps_to v h bl ix \<Longrightarrow> (\<And>s. s \<in> ix \<Longrightarrow> sectors v' s = sectors v s) \<Longrightarrow> maps_to v' h bl ix"
  unfolding maps_to_def by simp

lemma read_sectors_blocks:
  assumes "maps_to v h bl ix" "dev_wf v" "k + n \<le> length bl"
  shows "read_sectors (ByteToSector v h) v (int k) n = Some (raw_contents v (take n (drop k bl)))"
  using assms(3)
proof (induction n arbitrary: k)
  case 0
  then show ?case by (simp add: raw_contents_def)
next
  case (Suc n)
  have k: "k < length bl" using Suc.prems by simp
  then have "bl ! k \<in> {0..<1024}"
    using assms(1) nth_mem unfolding maps_to_def by blast
  then have rs: "ReadSector v (bl ! k) = Some (sectors v (bl ! k))" by (simp add: ReadSector_def)
  have "read_sectors (ByteToSector v h) v (int k + 1) n
      = Some (raw_contents v (take n (drop (Suc k) bl)))"
    using Suc.IH [of "Suc k"] Suc.prems by (simp add: add.commute)
  moreover have "take (Suc n) (drop k bl) = bl ! k # take n (drop (Suc k) bl)"
    using k by (simp add: Cons_nth_drop_Suc [symmetric])
  ultimately show ?case
    using maps_to_bts [OF assms(1,2) k] rs by (simp add: raw_contents_def)
qed

lemma ReadAt_spec:
  assumes "dev_wf v" "maps_to v h bl ix" "0 \<le> p"
  shows "ReadAt v h n p = Some (take (nat n) (drop (nat p) (contents v h bl)))"
proof (cases "n \<le> 0 \<or> p \<ge> numBytes h")
  case True
  then show ?thesis
    using assms(3) by (auto simp: ReadAt_def ReadAt_via_def Let_def FileLength_def contents_def)
next
  case False
  define m where "m = (if p + n > numBytes h then numBytes h - p else n)"
  have m: "0 < m" "m \<le> n" "p + m \<le> numBytes h" using False by (auto simp: m_def)
  have len: "numBytes h \<le> 128 * int (length bl)" using assms(2) by (simp add: maps_to_def)
  define f l where "f = nat (p div 128)" and "l = nat ((p + m - 1) div 128)"
  have f: "int f = p div 128" and l: "int l = (p + m - 1) div 128"
    using assms(3) m by (simp_all add: f_def l_def pos_imp_zdiv_nonneg_iff)
  have fl: "f \<le> l" using f l m by (metis add_increasing2 zdiv_mono1 add.commute add_diff_eq
      nat_int_comparison(3) zero_less_numeral zle_diff1_eq diff_ge_0_iff_ge le_add_same_cancel1
      int_one_le_iff_zero_less)
  have ll: "l < length bl" using l m len by linarith
  define cnt where "cnt = 1 + l - f"
  have cnt: "nat (1 + (p + m - 1) div 128 - p div 128) = cnt"
    using fl unfolding f [symmetric] l [symmetric] cnt_def by linarith
  have "f + cnt \<le> length bl" using fl ll by (simp add: cnt_def)
  from read_sectors_blocks [OF assms(2,1) this]
  have rd: "read_sectors (ByteToSector v h) v (p div 128) cnt
      = Some (take (128 * cnt) (drop (128 * f) (raw_contents v bl)))"
    by (simp add: f raw_contents_take raw_contents_drop assms(1))
  have off: "0 \<le> p - p div 128 * 128" "nat (p - p div 128 * 128) + 128 * f = nat p"
    using assms(3) f pos_mod_sign [of 128 p] mult_div_mod_eq [of 128 p] by linarith+
  have bnd: "nat m + nat (p - p div 128 * 128) \<le> 128 * cnt"
  proof -
    have "p + m - 1 < 128 * (int l + 1)"
      using sector_bounds(2) [of "p + m - 1"] unfolding l [symmetric] by (simp add: algebra_simps)
    moreover have "int (128 * cnt) = 128 * (int l + 1) - 128 * int f"
      using fl by (simp add: cnt_def of_nat_diff algebra_simps)
    ultimately have "m + (p - p div 128 * 128) \<le> int (128 * cnt)"
      using f by linarith
    then show ?thesis using off(1) m by linarith
  qed
  have "take (nat m) (drop (nat (p - p div 128 * 128))
        (take (128 * cnt) (drop (128 * f) (raw_contents v bl))))
      = take (nat m) (drop (nat p) (raw_contents v bl))"
    using off(2) le_diff_conv2 [THEN iffD2, OF _ bnd] bnd
    by (simp add: drop_take add.commute min_absorb1)
  also have "\<dots> = take (nat n) (drop (nat p) (contents v h bl))"
    using m False assms(3) by (auto simp: contents_def drop_take m_def min_def nat_diff_distrib)
  finally show ?thesis
    using False assms(3) m rd off(1)
    by (simp add: ReadAt_def ReadAt_via_def Let_def FileLength_def divRoundDown_def
        m_def [symmetric] cnt)
qed

subsection \<open>Writing\<close>

lemma length_overlay [simp]:
  "k + length ys \<le> length xs \<Longrightarrow> length (overlay xs k ys) = length xs"
  by (simp add: overlay_def)

lemma nth_overlay:
  "k + length ys \<le> length xs \<Longrightarrow> i < length xs \<Longrightarrow>
    overlay xs k ys ! i = (if k \<le> i \<and> i < k + length ys then ys ! (i - k) else xs ! i)"
  by (auto simp: overlay_def nth_append min_def)

lemma raw_contents_nth:
  assumes "dev_wf v" "q < 128 * length bl"
  shows "raw_contents v bl ! q = sectors v (bl ! (q div 128)) ! (q mod 128)"
  using assms(2)
proof (induction bl arbitrary: q)
  case Nil
  then show ?case by simp
next
  case (Cons s bl)
  have len: "length (sectors v s) = 128" using assms(1) by (simp add: dev_wf_def)
  show ?case
  proof (cases "q < 128")
    case True
    then show ?thesis using len by (simp add: raw_contents_def nth_append)
  next
    case False
    then obtain q' where q: "q = q' + 128" by (metis add.commute le_Suc_ex not_less)
    have "raw_contents v (s # bl) ! q = raw_contents v bl ! q'"
      using len by (simp add: raw_contents_def nth_append q)
    also have "\<dots> = sectors v (bl ! (q' div 128)) ! (q' mod 128)"
      using Cons q by simp
    finally show ?thesis
      using div_add_self2 [of 128 q'] by (simp add: q)
  qed
qed

lemma write_sectors_spec:
  assumes "dev_wf v" "maps_to v h bl ix" "k + n \<le> length bl" "128 * n \<le> length buf"
  shows "\<exists>v'. write_sectors v h (int k) n buf = Some v' \<and> dev_wf v' \<and> junk v' = junk v
    \<and> (\<forall>s. s \<notin> set (take n (drop k bl)) \<longrightarrow> sectors v' s = sectors v s)
    \<and> (\<forall>j < n. sectors v' (bl ! (k + j)) = take 128 (drop (128 * j) buf))"
  using assms
proof (induction n arbitrary: v k buf)
  case 0
  then show ?case by simp
next
  case (Suc n)
  have k: "k < length bl" using Suc.prems(3) by simp
  then have range: "bl ! k \<in> {0..<1024}" and notix: "bl ! k \<notin> ix"
    using Suc.prems(2) nth_mem [OF k] unfolding maps_to_def by blast+
  define v1 where "v1 = v\<lparr>sectors := (sectors v)(bl ! k := take 128 buf)\<rparr>"
  have w: "WriteSector v (bl ! k) buf = Some v1"
    using range by (simp add: WriteSector_def v1_def)
  have v1: "dev_wf v1" using Suc.prems(1,4) by (simp add: v1_def dev_wf_def)
  have m1: "maps_to v1 h bl ix"
    using Suc.prems(2) by (rule maps_to_cong) (use notix in \<open>auto simp: v1_def\<close>)
  have "Suc k + n \<le> length bl" "128 * n \<le> length (drop 128 buf)" using Suc.prems(3,4) by simp_all
  from Suc.IH [OF v1 m1 this] obtain v' where v':
    "write_sectors v1 h (int (Suc k)) n (drop 128 buf) = Some v'" "dev_wf v'" "junk v' = junk v1"
    "\<forall>s. s \<notin> set (take n (drop (Suc k) bl)) \<longrightarrow> sectors v' s = sectors v1 s"
    "\<forall>j < n. sectors v' (bl ! (Suc k + j)) = take 128 (drop (128 * j) (drop 128 buf))"
    by blast
  have split: "take (Suc n) (drop k bl) = bl ! k # take n (drop (Suc k) bl)"
    using k by (simp add: Cons_nth_drop_Suc [symmetric])
  have "distinct bl" using Suc.prems(2) by (simp add: maps_to_def)
  then have "distinct (take (Suc n) (drop k bl))" by simp
  then have fresh: "bl ! k \<notin> set (take n (drop (Suc k) bl))" unfolding split by simp
  have "sectors v' (bl ! (k + j)) = take 128 (drop (128 * j) buf)" if "j < Suc n" for j
  proof (cases j)
    case 0
    then show ?thesis using v'(4) fresh by (simp add: v1_def)
  next
    case (Suc i)
    then show ?thesis using v'(5) that by (simp add: algebra_simps)
  qed
  moreover have "sectors v' s = sectors v s" if "s \<notin> set (take (Suc n) (drop k bl))" for s
    using that v'(4) unfolding split by (auto simp: v1_def)
  ultimately show ?case
    using w v'(1-3) maps_to_bts [OF Suc.prems(2,1) k] by (simp add: v1_def add.commute)
qed

lemma write_sectors_contents:
  assumes "dev_wf v" "maps_to v h bl ix" "k + n \<le> length bl" "length buf = 128 * n"
  obtains v' where "write_sectors v h (int k) n buf = Some v'" "dev_wf v'" "junk v' = junk v"
    "maps_to v' h bl ix" "\<And>s. s \<notin> set bl \<Longrightarrow> sectors v' s = sectors v s"
    "raw_contents v' bl = overlay (raw_contents v bl) (128 * k) buf"
proof -
  have "128 * n \<le> length buf" using assms(4) by simp
  from write_sectors_spec [OF assms(1-3) this] obtain v' where v':
    "write_sectors v h (int k) n buf = Some v'" "dev_wf v'" "junk v' = junk v"
    "\<forall>s. s \<notin> set (take n (drop k bl)) \<longrightarrow> sectors v' s = sectors v s"
    "\<forall>j < n. sectors v' (bl ! (k + j)) = take 128 (drop (128 * j) buf)"
    by blast
  have frame: "sectors v' s = sectors v s" if "s \<notin> set bl" for s
    using v'(4) that by (meson in_set_dropD in_set_takeD)
  have "maps_to v' h bl ix"
    using assms(2) by (rule maps_to_cong) (use assms(2) frame in \<open>auto simp: maps_to_def\<close>)
  moreover have "raw_contents v' bl = overlay (raw_contents v bl) (128 * k) buf"
  proof (rule nth_equalityI)
    show len: "length (raw_contents v' bl) = length (overlay (raw_contents v bl) (128 * k) buf)"
      using assms v'(2) by simp
    fix q assume "q < length (raw_contents v' bl)"
    then have q: "q < 128 * length bl" using v'(2) by simp
    define i r where "i = q div 128" and "r = q mod 128"
    have qi: "q = 128 * i + r" "r < 128" "i < length bl" using q by (simp_all add: i_def r_def)
    have lhs: "raw_contents v' bl ! q = sectors v' (bl ! i) ! r"
      using raw_contents_nth [OF v'(2) q] by (simp add: i_def r_def)
    have rhs: "overlay (raw_contents v bl) (128 * k) buf ! q
        = (if 128 * k \<le> q \<and> q < 128 * k + 128 * n then buf ! (q - 128 * k) else sectors v (bl ! i) ! r)"
      using assms q raw_contents_nth [OF assms(1) q] by (simp add: nth_overlay i_def r_def)
    show "raw_contents v' bl ! q = overlay (raw_contents v bl) (128 * k) buf ! q"
    proof (cases "k \<le> i \<and> i < k + n")
      case True
      then obtain j where j: "i = k + j" "j < n" by (metis add_less_cancel_left le_Suc_ex)
      then have "sectors v' (bl ! i) ! r = buf ! (128 * j + r)"
        using v'(5) assms(4) qi(2) by (simp add: nth_take)
      then show ?thesis using lhs rhs j qi(1,2) by simp
    next
      case False
      have "bl ! i \<notin> set (take n (drop k bl))"
      proof
        assume "bl ! i \<in> set (take n (drop k bl))"
        then obtain j where "j < n" "k + j < length bl" "bl ! i = bl ! (k + j)"
          by (auto simp: in_set_conv_nth)
        moreover have "distinct bl" using assms(2) by (simp add: maps_to_def)
        ultimately have "i = k + j" using qi(3) by (simp add: nth_eq_iff_index_eq)
        then show False using False \<open>j < n\<close> by simp
      qed
      then have "sectors v' (bl ! i) = sectors v (bl ! i)" using v'(4) by blast
      moreover have "\<not> (128 * k \<le> q \<and> q < 128 * k + 128 * n)" using False qi(1,2) by linarith
      ultimately show ?thesis unfolding lhs rhs by presburger
    qed
  qed
  ultimately show ?thesis using that v'(1-3) frame by blast
qed

text \<open>
  The buffer of \<open>WriteAt\<close> before the new bytes are copied in: \<open>f\<close> is the first sector, \<open>cnt\<close> the
  number of sectors, \<open>K\<close> the offset of the write in the buffer and \<open>N\<close> its length. Every byte of the
  file outside the write is in place.
\<close>

definition write_buffer :: "dev \<Rightarrow> FileHeader \<Rightarrow> nat \<Rightarrow> nat \<Rightarrow> bool \<Rightarrow> bool \<Rightarrow> byte list option" where
  "write_buffer v h f l fa la = do {
     let buf = map (junk v) [0..<128 * (1 + l - f)];
     buf \<leftarrow> (if \<not> fa then do { bs \<leftarrow> ReadAt v h 128 (int f * 128); Some (overlay buf 0 bs) }
             else Some buf);
     (if \<not> la \<and> (f \<noteq> l \<or> fa) then do {
        bs \<leftarrow> ReadAt v h 128 (int l * 128); Some (overlay buf (nat ((int l - int f) * 128)) bs) }
      else Some buf)
   }"

lemma ReadAt_sector:
  assumes "dev_wf v" "maps_to v h bl ix" "k < length bl"
  shows "ReadAt v h 128 (int k * 128)
    = Some (take (nat (numBytes h) - 128 * k) (sectors v (bl ! k)))"
proof -
  have len: "length (sectors v (bl ! k)) = 128" using assms(1) by (simp add: dev_wf_def)
  have "raw_contents v (drop k bl) = sectors v (bl ! k) @ raw_contents v (drop (Suc k) bl)"
    using assms(3) by (simp add: Cons_nth_drop_Suc [symmetric] raw_contents_def)
  then have "take 128 (drop (128 * k) (raw_contents v bl)) = sectors v (bl ! k)"
    using assms(1) len by (simp add: raw_contents_drop [symmetric])
  then have "take 128 (drop (128 * k) (contents v h bl))
      = take (nat (numBytes h) - 128 * k) (sectors v (bl ! k))"
    by (simp add: contents_def drop_take take_take min.commute [of 128]) (metis take_take)
  moreover have "nat (int k * 128) = 128 * k" by linarith
  ultimately show ?thesis
    using ReadAt_spec [OF assms(1,2), of "int k * 128" 128] by simp
qed

lemma write_buffer_spec:
  assumes "dev_wf v" "maps_to v h bl ix" "f \<le> l" "l < length bl"
    and K: "K < 128" "fa \<longleftrightarrow> K = 0" "128 * l < 128 * f + K + N" "128 * f + K + N \<le> 128 * l + 128"
    and la: "la \<longleftrightarrow> 128 * f + K + N = 128 * l + 128" "128 * f + K + N \<le> nat (numBytes h)"
  obtains buf where "write_buffer v h f l fa la = Some buf" "length buf = 128 * (1 + l - f)"
    "\<And>j. j < K \<or> K + N \<le> j \<Longrightarrow> j < 128 * (1 + l - f) \<Longrightarrow> 128 * f + j < nat (numBytes h) \<Longrightarrow>
       buf ! j = raw_contents v bl ! (128 * f + j)"
proof -
  let ?L = "128 * (1 + l - f)" and ?nb = "nat (numBytes h)"
  define b0 where "b0 = map (junk v) [0..<?L]"
  define xf xl where "xf = take (?nb - 128 * f) (sectors v (bl ! f))"
    and "xl = take (?nb - 128 * l) (sectors v (bl ! l))"
  define b1 where "b1 = (if fa then b0 else overlay b0 0 xf)"
  define two where "two \<longleftrightarrow> \<not> la \<and> (f \<noteq> l \<or> fa)"
  define b2 where "b2 = (if two then overlay b1 (128 * (l - f)) xl else b1)"
  have len: "length (sectors v s) = 128" for s using assms(1) by (simp add: dev_wf_def)
  have lx: "length xf = min (?nb - 128 * f) 128" "length xl = min (?nb - 128 * l) 128"
    by (simp_all add: xf_def xl_def len)
  have fit: "length xf \<le> ?L" "128 * (l - f) + length xl \<le> ?L"
    using lx assms(3) by (simp_all add: Suc_diff_le min.coboundedI2)
  have l0: "length b0 = ?L" by (simp add: b0_def)
  have l1: "length b1 = ?L" using fit l0 by (simp add: b1_def)
  have l2: "length b2 = ?L" using fit l1 by (simp add: b2_def)
  have "nat ((int l - int f) * 128) = 128 * (l - f)"
    using assms(3) by (simp add: nat_mult_distrib nat_diff_distrib)
  then have run: "write_buffer v h f l fa la = Some b2"
    using ReadAt_sector [OF assms(1,2), of f] ReadAt_sector [OF assms(1,2), of l] assms(3,4)
    by (simp add: write_buffer_def b2_def b1_def b0_def xf_def xl_def two_def Let_def)
  have raw: "raw_contents v bl ! (128 * f + j)
      = sectors v (bl ! (f + j div 128)) ! (j mod 128)" if "j < ?L" for j
  proof -
    have "128 * f + j < 128 * length bl" using that assms(3,4) by linarith
    moreover have "(128 * f + j) div 128 = f + j div 128" "(128 * f + j) mod 128 = j mod 128"
      by simp_all
    ultimately show ?thesis using raw_contents_nth [OF assms(1)] by simp
  qed
  have first: "b1 ! j = raw_contents v bl ! (128 * f + j)"
    if "\<not> fa" "j < 128" "128 * f + j < ?nb" for j
  proof -
    have "j < length xf" using that lx by (simp add: less_diff_conv add.commute)
    moreover have "j < ?L" using that(2) assms(3) by simp
    ultimately show ?thesis
      using that raw [of j] fit l0 by (simp add: b1_def nth_overlay xf_def)
  qed
  have last: "b2 ! j = raw_contents v bl ! (128 * f + j)"
    if "two" "128 * (l - f) \<le> j" "j < ?L" "128 * f + j < ?nb" for j
  proof -
    have r: "j - 128 * (l - f) < 128" using that(2,3) assms(3) by linarith
    then have j: "j div 128 = l - f" "j mod 128 = j - 128 * (l - f)"
      using that(2) by (simp_all add: div_nat_eqI mod_nat_eqI)
    have "j - 128 * (l - f) < ?nb - 128 * l" using that(2,4) assms(3) by linarith
    then have in_xl: "j - 128 * (l - f) < length xl" using r lx by simp
    then have "j < 128 * (l - f) + length xl" using that(2) by linarith
    then have "b2 ! j = xl ! (j - 128 * (l - f))"
      using that fit l1 by (simp add: b2_def nth_overlay)
    then show ?thesis
      using raw [OF that(3)] j assms(3) in_xl by (simp add: xl_def)
  qed
  have other: "b2 ! j = b1 ! j" if "\<not> two \<or> j < 128 * (l - f)" "j < ?L" for j
    using that fit l1 by (auto simp: b2_def nth_overlay)
  have "b2 ! j = raw_contents v bl ! (128 * f + j)"
    if j: "j < K \<or> K + N \<le> j" "j < ?L" "128 * f + j < ?nb" for j
  proof (cases "two \<and> 128 * (l - f) \<le> j")
    case True
    then show ?thesis using last j by blast
  next
    case False
    have "\<not> fa \<and> j < 128"
    proof (cases "j < K")
      case True
      then show ?thesis using K by auto
    next
      case notK: False
      then have "K + N \<le> j" using j(1) by simp
      then have "\<not> la" "128 * (l - f) \<le> j" using la(1) j(2) K(3) assms(3) by (auto simp: diff_mult_distrib2)
      then have "\<not> two" using False by blast
      then show ?thesis using \<open>\<not> la\<close> two_def j(2) by auto
    qed
    then show ?thesis using first other False j by auto
  qed
  with run l2 that show ?thesis by blast
qed

text \<open>Replacing whole sectors by such a buffer with \<open>d\<close> copied in at \<open>K\<close> changes the file by \<open>d\<close> only.\<close>

lemma contents_write:
  assumes "dev_wf v" "nb = nat (numBytes h)" "f + c \<le> length bl" "nb \<le> 128 * length bl"
    and raw: "raw_contents v' bl = overlay (raw_contents v bl) (128 * f) (overlay buf K d)"
    and fits: "length buf = 128 * c" "K + length d \<le> 128 * c" "128 * f + K + length d \<le> nb"
    and rest: "\<And>j. j < K \<or> K + length d \<le> j \<Longrightarrow> j < 128 * c \<Longrightarrow> 128 * f + j < nb \<Longrightarrow>
       buf ! j = raw_contents v bl ! (128 * f + j)"
  shows "contents v' h bl = overlay (contents v h bl) (128 * f + K) d"
proof (rule nth_equalityI)
  have lb: "length (overlay buf K d) = 128 * c" using fits by simp
  have fit: "128 * f + 128 * c \<le> 128 * length bl" using assms(3) by linarith
  have lr: "length (raw_contents v' bl) = 128 * length bl" using raw lb fit assms(1) by simp
  have lc: "length (contents v h bl) = nb" using assms by (simp add: contents_def)
  show "length (contents v' h bl) = length (overlay (contents v h bl) (128 * f + K) d)"
    using lr lc fits assms(2,4) by (simp add: contents_def)
  fix q assume "q < length (contents v' h bl)"
  then have q: "q < nb" using assms(2) by (simp add: contents_def)
  have "contents v' h bl ! q = overlay (raw_contents v bl) (128 * f) (overlay buf K d) ! q"
    using q assms(2) by (simp add: contents_def raw)
  also have "\<dots> = (if 128 * f \<le> q \<and> q < 128 * f + 128 * c then overlay buf K d ! (q - 128 * f)
      else raw_contents v bl ! q)"
    using fit lb q assms(1,4) by (simp add: nth_overlay)
  also have "\<dots> = (if 128 * f + K \<le> q \<and> q < 128 * f + K + length d then d ! (q - (128 * f + K))
      else raw_contents v bl ! q)"
  proof (cases "128 * f \<le> q \<and> q < 128 * f + 128 * c")
    case True
    then obtain j where j: "q = 128 * f + j" "j < 128 * c"
      by (metis add_less_cancel_left le_Suc_ex)
    show ?thesis using True j fits rest [of j] q by (auto simp: nth_overlay)
  next
    case False
    then show ?thesis using fits by auto
  qed
  also have "\<dots> = overlay (contents v h bl) (128 * f + K) d ! q"
    using q lc fits assms(2) by (simp add: nth_overlay contents_def)
  finally show "contents v' h bl ! q = overlay (contents v h bl) (128 * f + K) d ! q" .
qed

lemma WriteAt_spec:
  assumes "dev_wf v" "maps_to v h bl ix" "0 \<le> p" "p < numBytes h" "0 < n" "int (length from) \<ge> n"
  defines "m \<equiv> min n (numBytes h - p)"
  obtains v' where "WriteAt v h from n p = Some (m, v')" "dev_wf v'" "junk v' = junk v"
    "maps_to v' h bl ix" "\<And>s. s \<notin> set bl \<Longrightarrow> sectors v' s = sectors v s"
    "contents v' h bl = overlay (contents v h bl) (nat p) (take (nat m) from)"
proof -
  have m: "0 < m" "m \<le> n" "p + m \<le> numBytes h" using assms(4,5) by (auto simp: m_def)
  have m_if: "(if p + n > numBytes h then numBytes h - p else n) = m" by (auto simp: m_def)
  have len: "numBytes h \<le> 128 * int (length bl)" using assms(2) by (simp add: maps_to_def)
  define f l where "f = nat (p div 128)" and "l = nat ((p + m - 1) div 128)"
  have f: "p div 128 = int f" and l: "(p + m - 1) div 128 = int l"
    using assms(3) m by (simp_all add: f_def l_def pos_imp_zdiv_nonneg_iff)
  note bf = sector_bounds [of p, unfolded f] and bl' = sector_bounds [of "p + m - 1", unfolded l]
  define K N where "K = nat (p - int f * 128)" and "N = nat m"
  have Kp: "int K = p - int f * 128" using bf by (simp add: K_def)
  have Nm: "int N = m" using m by (simp add: N_def)
  have fl: "f \<le> l" using bf bl' m by linarith
  have ll: "l < length bl" using bl' m len by linarith
  have cnt: "nat (1 + int l - int f) = 1 + l - f" using fl by linarith
  have L: "nat ((1 + int l - int f) * 128) = 128 * (1 + l - f)"
    by (simp add: nat_mult_distrib cnt)
  define fa la where "fa \<longleftrightarrow> p = int f * 128" and "la \<longleftrightarrow> p + m = (int l + 1) * 128"
  have K: "K < 128" "fa \<longleftrightarrow> K = 0" "128 * l < 128 * f + K + N" "128 * f + K + N \<le> 128 * l + 128"
    using bf bl' Kp Nm m unfolding fa_def by linarith+
  have la: "la \<longleftrightarrow> 128 * f + K + N = 128 * l + 128"
  proof -
    have "la \<longleftrightarrow> int (128 * f + K + N) = int (128 * l + 128)"
      unfolding la_def using Kp Nm by (simp add: algebra_simps)
    then show ?thesis by (simp only: of_nat_eq_iff)
  qed
  have le: "128 * f + K + N \<le> nat (numBytes h)"
    using Kp Nm m by linarith
  obtain buf where buf: "write_buffer v h f l fa la = Some buf" "length buf = 128 * (1 + l - f)"
    "\<And>j. j < K \<or> K + N \<le> j \<Longrightarrow> j < 128 * (1 + l - f) \<Longrightarrow> 128 * f + j < nat (numBytes h) \<Longrightarrow>
       buf ! j = raw_contents v bl ! (128 * f + j)"
    using write_buffer_spec [OF assms(1,2) fl ll K la le] by blast
  define buf' where "buf' = overlay buf K (take N from)"
  have lf: "length (take N from) = N" using assms(6) m(2) Nm by simp
  have KN: "K + N \<le> 128 * (1 + l - f)" using K(4) fl by (simp add: diff_mult_distrib2)
  have lb: "length buf' = 128 * (1 + l - f)" using buf(2) lf KN by (simp add: buf'_def)
  have "f + (1 + l - f) \<le> length bl" using fl ll by simp
  from write_sectors_contents [OF assms(1,2) this lb] obtain v' where v':
    "write_sectors v h (int f) (1 + l - f) buf' = Some v'" "dev_wf v'" "junk v' = junk v"
    "maps_to v' h bl ix" "\<And>s. s \<notin> set bl \<Longrightarrow> sectors v' s = sectors v s"
    "raw_contents v' bl = overlay (raw_contents v bl) (128 * f) buf'"
    by blast
  have sd: "p sdiv 128 = int f" "(p + m - 1) sdiv 128 = int l"
    using assms(3) m f l by simp_all
  have live: "\<not> (n \<le> 0 \<or> numBytes h \<le> p)" using assms(4,5) by simp
  have step: "WriteAt v h from n p = do {
      buf \<leftarrow> write_buffer v h f l fa la;
      ASSERT (0 \<le> p - int f * 128 \<and> nat m \<le> length from);
      v' \<leftarrow> write_sectors v h (int f) (1 + l - f)
              (overlay buf (nat (p - int f * 128)) (take (nat m) from));
      Some (m, v') }"
    by (simp only: WriteAt_def FileLength_def Let_def m_if divRoundDown_def sd live write_buffer_def
        fa_def la_def if_False L cnt Option.bind_assoc of_nat_eq_iff)
  have run: "WriteAt v h from n p = Some (m, v')"
    unfolding step buf(1) using bf m(2) assms(6) v'(1)
    by (simp add: buf'_def K_def N_def)
  have "contents v' h bl = overlay (contents v h bl) (128 * f + K) (take N from)"
  proof (rule contents_write [OF assms(1) refl _ _ v'(6) [unfolded buf'_def] buf(2)])
    show "f + (1 + l - f) \<le> length bl" using fl ll by simp
    show "nat (numBytes h) \<le> 128 * length bl" using len by linarith
  qed (use KN lf le buf(3) in simp_all)
  moreover have "nat p = 128 * f + K" using Kp assms(3) by linarith
  ultimately show ?thesis using that run v' by (simp add: N_def)
qed

subsection \<open>Where the contract holds\<close>

text \<open>Files whose sectors are all listed in the header itself.\<close>

lemma direct_maps_to:
  assumes "length (dataSectors h) = 29" "k \<le> 28" "bl = take k (dataSectors h)"
    "distinct bl" "set bl \<subseteq> {0..<NumSectors}" "0 \<le> numBytes h" "numBytes h \<le> 128 * int k"
  shows "maps_to v h bl {}"
proof -
  have "ByteToSector v' h (int i * 128) = Some (bl ! i)" if "i < length bl" for v' i
    using that assms(1-3) by (simp add: ByteToSector_unfold)
  then show ?thesis using assms by (simp add: maps_to_def)
qed

text \<open>
  Files with an undirected block: its header \<open>ih\<close> is in the last sector of the table, and the
  contents of the block are the numbers of the further sectors. The contract of the block gives the
  contract of the file.
\<close>

lemma take_drop_int_bytes:
  "j < length xs \<Longrightarrow> take 4 (drop (4 * j) (concat (map int_bytes xs))) = int_bytes (xs ! j)"
proof (induction xs arbitrary: j)
  case (Cons x xs)
  then show ?case by (cases j) simp_all
qed simp

lemma indirect_maps_to:
  assumes h: "length (dataSectors h) = 29" "0 \<le> numBytes h"
      "numBytes h \<le> 128 * (28 + int (length rest))"
    and ih: "FileHeader_FetchFrom v (dataSectors h ! 28) = Some ih" "maps_to v ih ibl iix"
    and c: "contents v ih ibl = concat (map int_bytes rest)" "length rest < 2 ^ 20"
    and bl: "bl = take 28 (dataSectors h) @ rest" "distinct bl" "set bl \<subseteq> {0..<NumSectors}"
      "set bl \<inter> ({dataSectors h ! 28} \<union> set ibl \<union> iix) = {}"
    and wf: "dev_wf v"
  shows "maps_to v h bl ({dataSectors h ! 28} \<union> set ibl \<union> iix)"
proof -
  let ?ix = "{dataSectors h ! 28} \<union> set ibl \<union> iix"
  have find: "ByteToSector v' h (int i * 128) = Some (bl ! i)"
    if wf': "dev_wf v'" and same: "\<forall>s \<in> ?ix. sectors v' s = sectors v s" and i: "i < length bl" for v' i
  proof (cases "i < 28")
    case True
    then show ?thesis using h(1) bl(1) by (simp add: ByteToSector_unfold nth_append)
  next
    case False
    define j where "j = i - 28"
    have j: "i = 28 + j" "j < length rest" using False i h(1) bl(1) by (auto simp: j_def)
    have i31: "int i * 128 < 2 ^ 31" using j c(2) by simp
    have fetch: "FileHeader_FetchFrom v' (dataSectors h ! 28) = Some ih"
      using ih(1) same by (simp add: FileHeader_FetchFrom_def ReadSector_def bind_Some_iff)
    have mt: "maps_to v' ih ibl iix" using ih(2) by (rule maps_to_cong) (use same in auto)
    have "raw_contents v' ibl = raw_contents v ibl"
      using same by (auto simp: raw_contents_def intro!: arg_cong [of _ _ concat])
    then have c': "contents v' ih ibl = concat (map int_bytes rest)"
      using c(1) by (simp add: contents_def)
    have "ReadAt v' ih 4 (4 * int j) = Some (int_bytes (rest ! j))"
      using ReadAt_spec [OF wf' mt, of "4 * int j" 4] take_drop_int_bytes [OF j(2)] c'
      by (simp add: nat_mult_distrib)
    moreover have "(int i * 128 - 3584) div 128 = int j" using j(1) by simp
    moreover have "is_int32 (rest ! j)"
    proof -
      have "rest ! j \<in> set bl" using bl(1) j(2) by simp
      then have "rest ! j \<in> {0..<1024}" using bl(3) by blast
      then show ?thesis by (simp add: is_int32_def)
    qed
    ultimately show ?thesis
      using i31 j fetch h(1) bl(1) bytes_int_bytes [of "rest ! j" "[]"]
      by (simp add: ByteToSector_unfold nth_append)
  qed
  have "length bl = 28 + length rest" using h(1) bl(1) by simp
  then show ?thesis using find h bl by (auto simp: maps_to_def)
qed

text \<open>
  C32. Open files refine byte sequences. When the header maps to distinct data sectors (through the
  header alone or through the undirected block), \<open>WriteAt\<close> inside the file succeeds, returns the number
  of bytes that fit before the end of the file, replaces exactly those bytes of the contents and
  touches no sector outside the data sectors of the file; every later \<open>ReadAt\<close> returns the bytes of
  the new contents. The partial first and last sectors keep their other bytes.
\<close>

theorem WriteAt_refines:
  assumes "dev_wf v" "maps_to v h bl ix" "0 \<le> p" "p < numBytes h" "0 < n" "n \<le> int (length from)"
  shows "\<exists>v'. WriteAt v h from n p = Some (min n (numBytes h - p), v') \<and> dev_wf v' \<and> maps_to v' h bl ix
    \<and> (\<forall>s. s \<notin> set bl \<longrightarrow> sectors v' s = sectors v s)
    \<and> (let c = overlay (contents v h bl) (nat p) (take (nat (min n (numBytes h - p))) from)
       in contents v' h bl = c
          \<and> (\<forall>k q. 0 \<le> q \<longrightarrow> ReadAt v' h k q = Some (take (nat k) (drop (nat q) c))))"
proof -
  obtain v' where v': "WriteAt v h from n p = Some (min n (numBytes h - p), v')" "dev_wf v'"
    "maps_to v' h bl ix" "\<And>s. s \<notin> set bl \<Longrightarrow> sectors v' s = sectors v s"
    "contents v' h bl = overlay (contents v h bl) (nat p) (take (nat (min n (numBytes h - p))) from)"
    using WriteAt_spec [OF assms] by metis
  with ReadAt_spec [OF v'(2,3)] show ?thesis by (auto simp: Let_def)
qed

theorem WriteAt_refines_witness:
  "\<exists>v'. WriteAt \<lparr>sectors = (\<lambda>_. replicate 128 7), junk = (\<lambda>_. 85)\<rparr>
       \<lparr>ftype = DATA_FILE, numBytes = 200, numSectors = 2, dataSectors = 40 # 30 # replicate 27 0\<rparr>
       [1, 2, 3, 4] 4 126 = Some (4, v')
     \<and> sectors v' 50 = replicate 128 7
     \<and> (\<exists>bs. ReadAt v' \<lparr>ftype = DATA_FILE, numBytes = 200, numSectors = 2,
          dataSectors = 40 # 30 # replicate 27 0\<rparr> 6 125 = Some bs \<and> bs = [7, 1, 2, 3, 4, 7])"
proof -
  let ?v = "\<lparr>sectors = (\<lambda>_. replicate 128 7), junk = (\<lambda>_. 85)\<rparr>"
  let ?h = "\<lparr>ftype = DATA_FILE, numBytes = 200, numSectors = 2,
    dataSectors = 40 # 30 # replicate 27 0\<rparr>"
  have wf: "dev_wf ?v" by (simp add: dev_wf_def)
  have mt: "maps_to ?v ?h [40, 30] {}" by (rule direct_maps_to [of _ 2]) simp_all
  have c: "contents ?v ?h [40, 30] = replicate 200 7"
    by (simp add: contents_def raw_contents_def replicate_add [symmetric])
  have o: "take 6 (drop 125 (overlay (replicate 200 7) 126 [1, 2, 3, 4]))
      = [7, 1, 2, 3, 4, 7 :: byte]"
    by (simp add: overlay_def eval_nat_numeral)
  show ?thesis
    using WriteAt_refines [OF wf mt, of 126 4 "[1, 2, 3, 4]"] o by (auto simp: c Let_def)
qed

end
