(* ===== verification/Bitmap.thy ===== *)
theory Bitmap
  imports Prelude
begin

text \<open>
  The bit map of src/code/userprog/bitmap.h and bitmap.cc: an array of 32-bit words on which
  \<open>Mark\<close>, \<open>Clear\<close>, \<open>Test\<close>, \<open>Find\<close>, \<open>FindStart\<close> and \<open>NumClear\<close> do modulo arithmetic. It allocates
  disk sectors, page frames, open-file slots, thread and process ids.

  The abstract view of a bit map is \<open>marked b\<close>, the set of the numbers in use. The locale
  \<open>slot_allocator\<close> states what the clients of a bit map rely on, and is interpreted on the word
  array; clients allocate several slots in a row through its \<open>alloc_run\<close>.
\<close>

subsection \<open>The data structure\<close>

abbreviation BitsInByte :: int where "BitsInByte \<equiv> 8"
abbreviation BitsInWord :: int where "BitsInWord \<equiv> 32"

record BitMap =
  numBits :: int
  numWords :: int
  words :: "u32 list"   \<comment> \<open>the field \<open>map\<close>\<close>

definition word_index :: "int \<Rightarrow> nat" where
  "word_index i = nat (i sdiv BitsInWord)"

definition bit_mask :: "int \<Rightarrow> u32" where
  "bit_mask i = push_bit (nat (i smod BitsInWord)) 1"

definition BitMap_Mark :: "BitMap \<Rightarrow> int \<Rightarrow> BitMap option" where
  "BitMap_Mark b i = do {
     ASSERT (0 \<le> i \<and> i < numBits b);
     Some (b\<lparr>words := (words b)[word_index i := words b ! word_index i OR bit_mask i]\<rparr>)
   }"

definition BitMap_Clear :: "BitMap \<Rightarrow> int \<Rightarrow> BitMap option" where
  "BitMap_Clear b i = do {
     ASSERT (0 \<le> i \<and> i < numBits b);
     Some (b\<lparr>words := (words b)[word_index i := words b ! word_index i AND NOT (bit_mask i)]\<rparr>)
   }"

definition BitMap_Test :: "BitMap \<Rightarrow> int \<Rightarrow> bool option" where
  "BitMap_Test b i = do {
     ASSERT (0 \<le> i \<and> i < numBits b);
     Some (words b ! word_index i AND bit_mask i \<noteq> 0)
   }"

text \<open>
  The constructor clears the bits one by one in freshly allocated memory, whose words before that
  are \<open>heap\<close>.
\<close>

function BitMap_clear_loop :: "BitMap \<Rightarrow> int \<Rightarrow> BitMap option" where
  "BitMap_clear_loop b i =
     (if i < numBits b then do { b' \<leftarrow> BitMap_Clear b i; BitMap_clear_loop b' (i + 1) } else Some b)"
  by pat_completeness auto
termination
  by (relation "measure (\<lambda>(b, i). nat (numBits b - i))") (auto simp: BitMap_Clear_def)

definition BitMap_new :: "(nat \<Rightarrow> u32) \<Rightarrow> int \<Rightarrow> BitMap option" where
  "BitMap_new heap nitems =
     (let n = divRoundUp nitems BitsInWord in
      BitMap_clear_loop \<lparr>numBits = nitems, numWords = n, words = map heap [0..<nat n]\<rparr> 0)"

function BitMap_find_loop :: "BitMap \<Rightarrow> int \<Rightarrow> (int \<times> BitMap) option" where
  "BitMap_find_loop b i =
     (if i < numBits b then do {
        t \<leftarrow> BitMap_Test b i;
        (if \<not> t then do { b' \<leftarrow> BitMap_Mark b i; Some (i, b') } else BitMap_find_loop b (i + 1))
      } else Some (- 1, b))"
  by pat_completeness auto
termination
  by (relation "measure (\<lambda>(b, i). nat (numBits b - i))") auto

definition BitMap_Find :: "BitMap \<Rightarrow> (int \<times> BitMap) option" where
  "BitMap_Find b = BitMap_find_loop b 0"

function BitMap_findstart_loop :: "BitMap \<Rightarrow> int \<Rightarrow> int \<Rightarrow> (int \<times> BitMap) option" where
  "BitMap_findstart_loop b start i =
     (if i < numBits b then do {
        t \<leftarrow> BitMap_Test b ((start + i) smod numBits b);
        (if \<not> t then do {
           b' \<leftarrow> BitMap_Mark b ((start + i) smod numBits b);
           Some ((start + i) smod numBits b, b')
         } else BitMap_findstart_loop b start (i + 1))
      } else Some (- 1, b))"
  by pat_completeness auto
termination
  by (relation "measure (\<lambda>(b, start, i). nat (numBits b - i))") auto

definition BitMap_FindStart :: "BitMap \<Rightarrow> int \<Rightarrow> (int \<times> BitMap) option" where
  "BitMap_FindStart b startPoint = BitMap_findstart_loop b startPoint 0"

function BitMap_numclear_loop :: "BitMap \<Rightarrow> int \<Rightarrow> int \<Rightarrow> int option" where
  "BitMap_numclear_loop b i count =
     (if i < numBits b then do {
        t \<leftarrow> BitMap_Test b i;
        BitMap_numclear_loop b (i + 1) (if \<not> t then count + 1 else count)
      } else Some count)"
  by pat_completeness auto
termination
  by (relation "measure (\<lambda>(b, i, count). nat (numBits b - i))") auto

definition BitMap_NumClear :: "BitMap \<Rightarrow> int option" where
  "BitMap_NumClear b = BitMap_numclear_loop b 0 0"

declare BitMap_clear_loop.simps [simp del] BitMap_find_loop.simps [simp del]
  BitMap_findstart_loop.simps [simp del] BitMap_numclear_loop.simps [simp del]

subsection \<open>Well-formedness and the abstract view\<close>

definition bitmap_wf :: "BitMap \<Rightarrow> bool" where
  "bitmap_wf b \<longleftrightarrow> 0 \<le> numBits b \<and> numWords b = divRoundUp (numBits b) BitsInWord
     \<and> length (words b) = nat (numWords b)"

definition marked :: "BitMap \<Rightarrow> int set" where
  "marked b = {i. 0 \<le> i \<and> i < numBits b
     \<and> bit (words b ! nat (i div BitsInWord)) (nat (i mod BitsInWord))}"

lemma div_less_divRoundUp:
  fixes i n :: int
  assumes "0 \<le> i" "i < n"
  shows "i div 32 < divRoundUp n 32"
proof -
  have "n = 32 * (n div 32) + n mod 32" "i = 32 * (i div 32) + i mod 32" "0 \<le> i mod 32"
    by simp_all
  then have "i div 32 \<le> n div 32" "n mod 32 = 0 \<longrightarrow> i div 32 < n div 32"
    using assms(2) pos_mod_bound [of 32 n] by linarith+
  moreover have "0 \<le> n mod 32" by simp
  ultimately show ?thesis
    using assms by (auto simp: divRoundUp_pos)
qed

lemma word_index_less:
  assumes "bitmap_wf b" "0 \<le> i" "i < numBits b"
  shows "nat (i div 32) < length (words b)"
proof -
  have "int (length (words b)) = divRoundUp (numBits b) 32"
    using assms by (simp add: bitmap_wf_def)
  then have "i div 32 < int (length (words b))"
    using div_less_divRoundUp assms(2,3) by simp
  then show ?thesis using assms(2) by linarith
qed

lemma bit_bit_mask: "0 \<le> i \<Longrightarrow> bit (bit_mask i) n \<longleftrightarrow> n = nat (i mod 32)"
proof -
  assume "0 \<le> i"
  moreover have "nat (i mod 32) < 32" by simp
  ultimately show ?thesis by (auto simp: bit_mask_def bit_simps)
qed

lemma and_bit_mask: "0 \<le> i \<Longrightarrow> w AND bit_mask i \<noteq> 0 \<longleftrightarrow> bit w (nat (i mod 32))"
  by (auto simp: bit_eq_iff [where 'a = "32 word"] bit_simps bit_bit_mask)

lemma same_slot_iff:
  "0 \<le> i \<Longrightarrow> 0 \<le> j \<Longrightarrow> nat (i div 32) = nat (j div 32) \<and> nat (i mod 32) = nat (j mod 32) \<longleftrightarrow> i = (j::int)"
  by (metis div_mult_mod_eq int_nat_eq pos_imp_zdiv_nonneg_iff pos_mod_sign zero_less_numeral)

lemma Test_eq [op_simps]:
  "0 \<le> i \<Longrightarrow> i < numBits b \<Longrightarrow> BitMap_Test b i = Some (i \<in> marked b)"
  by (auto simp: BitMap_Test_def marked_def word_index_def and_bit_mask)

lemma Test_None: "\<not> (0 \<le> i \<and> i < numBits b) \<Longrightarrow> BitMap_Test b i = None"
  by (auto simp: BitMap_Test_def)

lemma marked_subset: "marked b \<subseteq> {0..<numBits b}"
  by (auto simp: marked_def)

lemma finite_marked [simp]: "finite (marked b)"
  using finite_subset [OF marked_subset] by simp

lemma marked_update:
  assumes "bitmap_wf b" "0 \<le> i" "i < numBits b" "0 \<le> j" "j < numBits b"
  shows "j \<in> marked (b\<lparr>words := (words b)[word_index i := w]\<rparr>)
    \<longleftrightarrow> (if j div 32 = i div 32 then bit w (nat (j mod 32)) else j \<in> marked b)"
  using assms word_index_less [OF assms(1-3)]
  by (simp add: marked_def word_index_def nth_list_update eq_nat_nat_iff pos_imp_zdiv_nonneg_iff)

lemma div_mod_32_eq: "i div 32 = j div 32 \<Longrightarrow> nat (i mod 32) = nat (j mod 32) \<longleftrightarrow> i = (j::int)"
  by (metis eq_nat_nat_iff mult_div_mod_eq pos_mod_sign zero_less_numeral)

lemma marked_word: "0 \<le> j \<Longrightarrow> j < numBits b \<Longrightarrow> 0 \<le> i \<Longrightarrow> j div 32 = i div 32 \<Longrightarrow>
    bit (words b ! word_index i) (nat (j mod 32)) \<longleftrightarrow> j \<in> marked b"
  by (simp add: marked_def word_index_def)

lemma Mark_spec:
  assumes "bitmap_wf b" "0 \<le> i" "i < numBits b"
  obtains b' where "BitMap_Mark b i = Some b'" "bitmap_wf b'" "numBits b' = numBits b"
    "marked b' = insert i (marked b)"
proof
  let ?b = "b\<lparr>words := (words b)[word_index i := words b ! word_index i OR bit_mask i]\<rparr>"
  show "BitMap_Mark b i = Some ?b" using assms by (simp add: BitMap_Mark_def)
  show "bitmap_wf ?b" using assms(1) by (simp add: bitmap_wf_def)
  show num: "numBits ?b = numBits b" by simp
  have "j \<in> marked ?b \<longleftrightarrow> j = i \<or> j \<in> marked b" if "0 \<le> j" "j < numBits b" for j
    using assms that div_mod_32_eq [of j i]
    by (simp add: marked_update bit_or_iff bit_bit_mask marked_word) metis
  then show "marked ?b = insert i (marked b)"
    using assms num marked_subset [of b] marked_subset [of ?b] by auto
qed

lemma Clear_spec:
  assumes "bitmap_wf b" "0 \<le> i" "i < numBits b"
  obtains b' where "BitMap_Clear b i = Some b'" "bitmap_wf b'" "numBits b' = numBits b"
    "marked b' = marked b - {i}"
proof
  let ?b = "b\<lparr>words := (words b)[word_index i := words b ! word_index i AND NOT (bit_mask i)]\<rparr>"
  show "BitMap_Clear b i = Some ?b" using assms by (simp add: BitMap_Clear_def)
  show "bitmap_wf ?b" using assms(1) by (simp add: bitmap_wf_def)
  show num: "numBits ?b = numBits b" by simp
  have bound: "nat (j mod 32) < 32" for j :: int
    by simp
  have "j \<in> marked ?b \<longleftrightarrow> j \<noteq> i \<and> j \<in> marked b" if "0 \<le> j" "j < numBits b" for j
    using assms that div_mod_32_eq [of j i] bound [of j]
    by (simp add: marked_update bit_and_iff bit_not_iff bit_bit_mask marked_word) metis
  then show "marked ?b = marked b - {i}"
    using assms num marked_subset [of b] marked_subset [of ?b] by auto
qed

subsection \<open>The loops\<close>

lemma find_loop_spec:
  assumes "bitmap_wf b" "0 \<le> i" "{0..<i} \<subseteq> marked b" "i \<le> numBits b"
  shows "(\<exists>k b'. BitMap_find_loop b i = Some (k, b') \<and> 0 \<le> k \<and> k < numBits b \<and> k \<notin> marked b
            \<and> {0..<k} \<subseteq> marked b \<and> bitmap_wf b' \<and> numBits b' = numBits b
            \<and> marked b' = insert k (marked b))
       \<or> BitMap_find_loop b i = Some (- 1, b) \<and> marked b = {0..<numBits b}"
  using assms(2-)
proof (induction "nat (numBits b - i)" arbitrary: i)
  case 0
  then show ?case
    using marked_subset [of b] by (auto simp: BitMap_find_loop.simps [of b i])
next
  case (Suc n)
  have i: "i < numBits b" using Suc.hyps(2) by linarith
  show ?case
  proof (cases "i \<in> marked b")
    case True
    have "{0..<i + 1} = insert i {0..<i}" using Suc.prems(1) by auto
    then have "{0..<i + 1} \<subseteq> marked b" using True Suc.prems by simp
    then show ?thesis
      using Suc.hyps(1) [of "i + 1"] Suc.hyps(2) Suc.prems i True
      by (simp add: BitMap_find_loop.simps [of b i] op_simps)
  next
    case False
    obtain b' where "BitMap_Mark b i = Some b'" "bitmap_wf b'" "numBits b' = numBits b"
      "marked b' = insert i (marked b)"
      using Mark_spec [OF assms(1) Suc.prems(1) i] .
    then show ?thesis
      using Suc.prems False i by (auto simp: BitMap_find_loop.simps [of b i] op_simps)
  qed
qed

text \<open>\<open>Find\<close> returns the least clear bit and marks it, or \<open>-1\<close> when every bit is marked.\<close>

lemma Find_cases:
  assumes "bitmap_wf b"
  obtains (hit) k b' where "BitMap_Find b = Some (k, b')" "0 \<le> k" "k < numBits b" "k \<notin> marked b"
      "{0..<k} \<subseteq> marked b" "bitmap_wf b'" "numBits b' = numBits b" "marked b' = insert k (marked b)"
    | (full) "BitMap_Find b = Some (- 1, b)" "marked b = {0..<numBits b}"
proof -
  have "{0..<0} \<subseteq> marked b" "0 \<le> numBits b" using assms by (auto simp: bitmap_wf_def)
  from find_loop_spec [OF assms order_refl this, folded BitMap_Find_def] show ?thesis
    by (elim disjE exE conjE) (rule hit, assumption+, rule full, assumption+)
qed

lemma numclear_loop_spec:
  assumes "bitmap_wf b" "0 \<le> i" "i \<le> numBits b"
  shows "BitMap_numclear_loop b i c = Some (c + int (card ({i..<numBits b} - marked b)))"
  using assms(2-)
proof (induction "nat (numBits b - i)" arbitrary: i c)
  case 0
  then show ?case by (simp add: BitMap_numclear_loop.simps [of b i])
next
  case (Suc n)
  have i: "i < numBits b" using Suc.hyps(2) by linarith
  then have "{i..<numBits b} = insert i {i + 1..<numBits b}" by auto
  then have "card ({i..<numBits b} - marked b)
      = (if i \<in> marked b then 0 else 1) + card ({i + 1..<numBits b} - marked b)"
    by (simp add: insert_Diff_if)
  then show ?case
    using Suc.hyps(1) [of "i + 1"] Suc.hyps(2) Suc.prems i
    by (simp add: BitMap_numclear_loop.simps [of b i] op_simps)
qed

lemma NumClear_eq [op_simps]:
  assumes "bitmap_wf b"
  shows "BitMap_NumClear b = Some (numBits b - int (card (marked b)))"
proof -
  have "card ({0..<numBits b} - marked b) = card {0..<numBits b} - card (marked b)"
    by (rule card_Diff_subset) (simp_all add: marked_subset)
  moreover have "card (marked b) \<le> card {0..<numBits b}"
    by (rule card_mono) (simp_all add: marked_subset)
  ultimately show ?thesis
    using assms numclear_loop_spec [OF assms order_refl] by (simp add: BitMap_NumClear_def bitmap_wf_def)
qed

lemma findstart_loop_spec:
  assumes "bitmap_wf b" "0 \<le> s" "0 \<le> i" "i \<le> numBits b"
    and seen: "\<forall>j. 0 \<le> j \<and> j < i \<longrightarrow> (s + j) mod numBits b \<in> marked b"
  shows "(\<exists>j k b'. BitMap_findstart_loop b s i = Some (k, b') \<and> i \<le> j \<and> j < numBits b
            \<and> k = (s + j) mod numBits b \<and> k \<notin> marked b \<and> bitmap_wf b' \<and> numBits b' = numBits b
            \<and> (\<forall>j'. 0 \<le> j' \<and> j' < j \<longrightarrow> (s + j') mod numBits b \<in> marked b)
            \<and> marked b' = insert k (marked b))
       \<or> BitMap_findstart_loop b s i = Some (- 1, b)
            \<and> (\<forall>j. 0 \<le> j \<and> j < numBits b \<longrightarrow> (s + j) mod numBits b \<in> marked b)"
  using assms(3-)
proof (induction "nat (numBits b - i)" arbitrary: i)
  case 0
  then show ?case by (simp add: BitMap_findstart_loop.simps [of b s i])
next
  case (Suc n)
  have i: "i < numBits b" using Suc.hyps(2) by linarith
  define k where "k = (s + i) mod numBits b"
  have k: "0 \<le> k" "k < numBits b" "(s + i) smod numBits b = k"
    using i Suc.prems(1) assms(2) by (simp_all add: k_def)
  show ?case
  proof (cases "k \<in> marked b")
    case True
    have "\<forall>j. 0 \<le> j \<and> j < i + 1 \<longrightarrow> (s + j) mod numBits b \<in> marked b"
      using True Suc.prems(3) by (metis k_def zless_add1_eq)
    moreover have "BitMap_findstart_loop b s i = BitMap_findstart_loop b s (i + 1)"
      using i k True by (simp add: BitMap_findstart_loop.simps [of b s i] op_simps)
    moreover have "n = nat (numBits b - (i + 1))" "0 \<le> i + 1" "i + 1 \<le> numBits b"
      using Suc.hyps(2) Suc.prems(1) i by linarith+
    note Suc.hyps(1) [OF this]
    ultimately show ?thesis
      by (smt (verit, best))
  next
    case False
    obtain b' where "BitMap_Mark b k = Some b'" "bitmap_wf b'" "numBits b' = numBits b"
      "marked b' = insert k (marked b)"
      using Mark_spec [OF assms(1) k(1,2)] .
    then have "BitMap_findstart_loop b s i = Some (k, b') \<and> i \<le> i \<and> i < numBits b
        \<and> k = (s + i) mod numBits b \<and> k \<notin> marked b \<and> bitmap_wf b' \<and> numBits b' = numBits b
        \<and> (\<forall>j'. 0 \<le> j' \<and> j' < i \<longrightarrow> (s + j') mod numBits b \<in> marked b)
        \<and> marked b' = insert k (marked b)"
      using i k False Suc.prems by (simp add: BitMap_findstart_loop.simps [of b s i] op_simps k_def)
    then show ?thesis by blast
  qed
qed

lemma clear_loop_spec:
  assumes "bitmap_wf b" "0 \<le> i" "i \<le> numBits b"
  shows "\<exists>b'. BitMap_clear_loop b i = Some b' \<and> bitmap_wf b' \<and> numBits b' = numBits b
     \<and> marked b' = marked b - {i..<numBits b}"
  using assms
proof (induction "nat (numBits b - i)" arbitrary: b i)
  case 0
  then show ?case by (auto simp: BitMap_clear_loop.simps [of b i])
next
  case (Suc n)
  have i: "i < numBits b" using Suc.hyps(2) by linarith
  obtain b1 where b1: "BitMap_Clear b i = Some b1" "bitmap_wf b1" "numBits b1 = numBits b"
    "marked b1 = marked b - {i}"
    using Clear_spec [OF Suc.prems(1,2) i] .
  have "n = nat (numBits b1 - (i + 1))" using Suc.hyps(2) b1(3) by linarith
  then obtain b' where b': "BitMap_clear_loop b1 (i + 1) = Some b'" "bitmap_wf b'"
    "numBits b' = numBits b1" "marked b' = marked b1 - {i + 1..<numBits b1}"
    using Suc.hyps(1) [OF _ b1(2), of "i + 1"] b1(3) i Suc.prems(2) by (metis add_nonneg_nonneg
        zero_le_one zless_imp_add1_zle)
  have "BitMap_clear_loop b i = Some b'"
    using b1(1) b'(1) i by (simp add: BitMap_clear_loop.simps [of b i])
  moreover have "{i..<numBits b} = insert i {i + 1..<numBits b}"
    using i by auto
  then have "marked b' = marked b - {i..<numBits b}"
    using b1(3,4) b'(4) by (metis Diff_insert2)
  ultimately show ?case
    using b1(3) b'(2,3) by (intro exI [of _ b'] conjI) simp_all
qed

lemma new_spec:
  assumes "0 \<le> n"
  obtains b where "BitMap_new heap n = Some b" "bitmap_wf b" "numBits b = n" "marked b = {}"
proof -
  let ?b0 = "\<lparr>numBits = n, numWords = divRoundUp n BitsInWord,
    words = map heap [0..<nat (divRoundUp n BitsInWord)]\<rparr>"
  have "bitmap_wf ?b0" using assms by (simp add: bitmap_wf_def)
  from clear_loop_spec [OF this order_refl] assms obtain b
    where "BitMap_clear_loop ?b0 0 = Some b" "bitmap_wf b" "numBits b = n"
      "marked b = marked ?b0 - {0..<n}"
    by auto
  moreover have "marked ?b0 - {0..<n} = {}"
    by (auto simp: marked_def)
  ultimately show ?thesis
    by (intro that) (simp_all add: BitMap_new_def)
qed

subsection \<open>What the clients of an allocator rely on\<close>

text \<open>
  \<open>used\<close> is the set of allocated slots, \<open>cap\<close> their number; \<open>find\<close> allocates one slot or reports
  \<open>-1\<close>; \<open>clear\<close> frees one. \<open>alloc_run b xs b'\<close> says that successive successful calls of \<open>find\<close>
  lead from \<open>b\<close> to \<open>b'\<close> and return the slots \<open>xs\<close> in this order.
\<close>

locale slot_allocator =
  fixes inv :: "'b \<Rightarrow> bool"
    and cap :: "'b \<Rightarrow> int"
    and used :: "'b \<Rightarrow> int set"
    and find :: "'b \<Rightarrow> (int \<times> 'b) option"
    and clear :: "'b \<Rightarrow> int \<Rightarrow> 'b option"
  assumes used_range: "inv b \<Longrightarrow> used b \<subseteq> {0..<cap b}"
    and find_total: "inv b \<Longrightarrow> \<exists>k b'. find b = Some (k, b')"
    and find_hit: "inv b \<Longrightarrow> find b = Some (k, b') \<Longrightarrow> k \<noteq> - 1 \<Longrightarrow>
      0 \<le> k \<and> k < cap b \<and> k \<notin> used b \<and> inv b' \<and> cap b' = cap b \<and> used b' = insert k (used b)"
    and find_full: "inv b \<Longrightarrow> find b = Some (- 1, b') \<Longrightarrow> b' = b \<and> used b = {0..<cap b}"
    and clear_used: "inv b \<Longrightarrow> 0 \<le> k \<Longrightarrow> k < cap b \<Longrightarrow>
      \<exists>b'. clear b k = Some b' \<and> inv b' \<and> cap b' = cap b \<and> used b' = used b - {k}"
begin

primrec alloc_run :: "'b \<Rightarrow> int list \<Rightarrow> 'b \<Rightarrow> bool" where
  "alloc_run b [] b' \<longleftrightarrow> b' = b"
| "alloc_run b (x # xs) b' \<longleftrightarrow> (\<exists>b1. find b = Some (x, b1) \<and> x \<noteq> - 1 \<and> alloc_run b1 xs b')"

primrec clear_run :: "'b \<Rightarrow> int list \<Rightarrow> 'b \<Rightarrow> bool" where
  "clear_run b [] b' \<longleftrightarrow> b' = b"
| "clear_run b (x # xs) b' \<longleftrightarrow> (\<exists>b1. clear b x = Some b1 \<and> clear_run b1 xs b')"

lemma alloc_run_append:
  "alloc_run b (xs @ ys) b' \<longleftrightarrow> (\<exists>b1. alloc_run b xs b1 \<and> alloc_run b1 ys b')"
  by (induction xs arbitrary: b) auto

lemma alloc_run_spec:
  assumes "inv b" "alloc_run b xs b'"
  shows "inv b' \<and> cap b' = cap b \<and> distinct xs \<and> set xs \<inter> used b = {}
    \<and> set xs \<subseteq> {0..<cap b} \<and> used b' = used b \<union> set xs"
  using assms
proof (induction xs arbitrary: b)
  case Nil
  then show ?case by simp
next
  case (Cons x xs)
  then obtain b1 where b1: "find b = Some (x, b1)" "x \<noteq> - 1" "alloc_run b1 xs b'"
    by auto
  note hit = find_hit [OF Cons.prems(1) b1(1,2)]
  then have "inv b1" by simp
  from Cons.IH [OF this b1(3)] hit show ?case by auto
qed

lemma clear_run_spec:
  assumes "inv b" "set xs \<subseteq> {0..<cap b}"
  shows "\<exists>b'. clear_run b xs b' \<and> inv b' \<and> cap b' = cap b \<and> used b' = used b - set xs"
  using assms
proof (induction xs arbitrary: b)
  case Nil
  then show ?case by simp
next
  case (Cons x xs)
  then obtain b1 where b1: "clear b x = Some b1" "inv b1" "cap b1 = cap b" "used b1 = used b - {x}"
    using clear_used [of b x] by auto
  with Cons.prems Cons.IH [of b1] obtain b' where
    "clear_run b1 xs b'" "inv b'" "cap b' = cap b1" "used b' = used b1 - set xs"
    by auto
  with b1 show ?case by (intro exI [of _ b']) auto
qed

lemma alloc_then_clear:
  assumes "inv b" "alloc_run b xs b1"
  shows "\<exists>b'. clear_run b1 xs b' \<and> inv b' \<and> cap b' = cap b \<and> used b' = used b"
proof -
  note run = alloc_run_spec [OF assms]
  then obtain b' where "clear_run b1 xs b'" "inv b'" "cap b' = cap b1" "used b' = used b1 - set xs"
    using clear_run_spec [of b1 xs] by auto
  with run show ?thesis by (intro exI [of _ b']) auto
qed

end

interpretation bm: slot_allocator bitmap_wf numBits marked BitMap_Find BitMap_Clear
proof (unfold_locales, goal_cases)
  case (1 b)
  show ?case by (rule marked_subset)
next
  case (2 b)
  then show ?case by (cases rule: Find_cases) auto
next
  case (3 b k b')
  from 3(1) show ?case using 3(2,3) by (cases rule: Find_cases) auto
next
  case (4 b b')
  from 4(1) show ?case using 4(2) by (cases rule: Find_cases) auto
next
  case (5 b k)
  then show ?case using Clear_spec [of b k] by metis
qed

subsection \<open>Properties\<close>

text \<open>
  \<open>BitMap::Find\<close> allocates the least clear bit: on a well-formed map it returns; the result is
  either a bit that was clear, below which every bit is marked, and afterwards exactly this bit is
  marked in addition, or \<open>-1\<close> with the map unchanged and no bit clear.
\<close>

theorem Find_least_clear:
  assumes "bitmap_wf b"
  shows "\<exists>k b'. BitMap_Find b = Some (k, b') \<and> bitmap_wf b' \<and> numBits b' = numBits b \<and>
    (k = - 1 \<and> b' = b \<and> marked b = {0..<numBits b}
     \<or> k \<in> {0..<numBits b} - marked b \<and> {0..<k} \<subseteq> marked b \<and> marked b' = insert k (marked b))"
  using assms by (cases rule: Find_cases [OF assms]) auto

lemma FindStart_spec:
  assumes "bitmap_wf b" "0 \<le> s" "0 < numBits b"
  shows "\<exists>k b'. BitMap_FindStart b s = Some (k, b') \<and> bitmap_wf b' \<and> numBits b' = numBits b \<and>
    (k = - 1 \<and> b' = b \<and> marked b = {0..<numBits b}
     \<or> (\<exists>j. 0 \<le> j \<and> j < numBits b \<and> k = (s + j) mod numBits b \<and> k \<notin> marked b
          \<and> (\<forall>j'. 0 \<le> j' \<and> j' < j \<longrightarrow> (s + j') mod numBits b \<in> marked b)
          \<and> marked b' = insert k (marked b)))"
proof -
  have full: "marked b = {0..<numBits b}"
    if all: "\<forall>j. 0 \<le> j \<and> j < numBits b \<longrightarrow> (s + j) mod numBits b \<in> marked b"
  proof -
    have "i \<in> marked b" if i: "0 \<le> i" "i < numBits b" for i
    proof -
      have "(s + (i - s) mod numBits b) mod numBits b = i"
        using i assms(3) by (simp add: mod_add_right_eq)
      then show ?thesis
        using all [rule_format, of "(i - s) mod numBits b"] assms(3) by simp
    qed
    then show ?thesis using marked_subset [of b] by auto
  qed
  have "0 \<le> numBits b" using assms(3) by simp
  from findstart_loop_spec [OF assms(1,2) order_refl this] consider
      (hit) j k b' where "BitMap_FindStart b s = Some (k, b')" "0 \<le> j" "j < numBits b"
        "k = (s + j) mod numBits b" "k \<notin> marked b" "bitmap_wf b'" "numBits b' = numBits b"
        "\<forall>j'. 0 \<le> j' \<and> j' < j \<longrightarrow> (s + j') mod numBits b \<in> marked b"
        "marked b' = insert k (marked b)"
    | (none) "BitMap_FindStart b s = Some (- 1, b)"
        "\<forall>j. 0 \<le> j \<and> j < numBits b \<longrightarrow> (s + j) mod numBits b \<in> marked b"
    unfolding BitMap_FindStart_def by fastforce
  then show ?thesis
  proof cases
    case hit
    then show ?thesis by blast
  next
    case none
    with full [OF none(2)] assms(1) show ?thesis by blast
  qed
qed

text \<open>
  \<open>BitMap::FindStart\<close> searches cyclically from its start point: it returns the first clear bit
  among \<open>startPoint, startPoint + 1, \<dots>\<close> modulo the size, marks exactly this bit, and returns \<open>-1\<close>
  only when every bit is marked. Thread and process ids are drawn this way.
\<close>

lemma FindStart_cyclic:
  assumes "bitmap_wf b" "0 \<le> s" "0 < numBits b"
  shows "\<exists>k b'. BitMap_FindStart b s = Some (k, b') \<and> bitmap_wf b' \<and> numBits b' = numBits b \<and>
    (k = - 1 \<and> b' = b \<and> marked b = {0..<numBits b}
     \<or> (\<exists>j. 0 \<le> j \<and> j < numBits b \<and> k = (s + j) mod numBits b \<and> k \<notin> marked b
          \<and> (\<forall>j'. 0 \<le> j' \<and> j' < j \<longrightarrow> (s + j') mod numBits b \<in> marked b)
          \<and> marked b' = insert k (marked b)))"
  using assms by (rule FindStart_spec)

end
