(* ===== verification/FileAlloc.thy ===== *)
theory FileAlloc
  imports FileHdr Bitmap
begin

text \<open>
  Space for files: src/code/filesys/filehdr.cc (\<open>Allocate\<close>, \<open>Extend\<close>, \<open>ExtendUndirectedBlock\<close>,
  \<open>Deallocate\<close>, \<open>DeallocateUndirectedBlock\<close>) and the persistence of the free map,
  src/code/userprog/bitmap.cc (\<open>FetchFrom\<close>, \<open>WriteBack\<close>).

  \<open>file_blocks v h bl ib\<close> is the well-formedness of a file on disk: its data sectors are \<open>bl\<close>, and
  \<open>ib\<close> are the sectors of the undirected block (its header first), all distinct. The lemmas show
  that \<open>Extend\<close> preserves it, takes only sectors that were free and writes only to the undirected
  block, and that \<open>Deallocate\<close> gives back exactly the sectors of the file.
\<close>

subsection \<open>Extending a file\<close>

text \<open>
  The allocation loop \<open>for (i = numSectors; i < limit; i++)\<close> of \<open>Extend\<close> and of
  \<open>ExtendUndirectedBlock\<close>, with \<open>n\<close> iterations to go. \<open>dataSectors[i]\<close> is assigned before the test.
\<close>

fun alloc_sectors :: "int \<Rightarrow> nat \<Rightarrow> FileHeader \<Rightarrow> BitMap \<Rightarrow> (bool \<times> FileHeader \<times> BitMap) option" where
  "alloc_sectors i 0 h freeMap = Some (True, h, freeMap)"
| "alloc_sectors i (Suc n) h freeMap = do {
     (s, freeMap') \<leftarrow> BitMap_Find freeMap;
     ASSERT (0 \<le> i \<and> i < NumDirect);
     let h' = h\<lparr>dataSectors := (dataSectors h)[nat i := s]\<rparr>;
     (if s = - 1 then Some (False, h', freeMap') else alloc_sectors (i + 1) n h' freeMap')
   }"

definition ExtendUndirectedBlock ::
  "FileHeader \<Rightarrow> BitMap \<Rightarrow> int \<Rightarrow> (bool \<times> FileHeader \<times> BitMap) option" where
  "ExtendUndirectedBlock h freeMap newSectors =
     (let newNumTotalSectors = divRoundUp (numBytes h + newSectors * 4) SectorSize in
      if newNumTotalSectors > NumDirect then Some (False, h, freeMap)
      else do {
        (ok, h', freeMap') \<leftarrow>
          alloc_sectors (numSectors h) (nat (newNumTotalSectors - numSectors h)) h freeMap;
        if \<not> ok then Some (False, h', freeMap')
        else Some (True, h'\<lparr>numSectors := newNumTotalSectors,
                numBytes := numBytes h + newSectors * 4\<rparr>, freeMap')
      })"

text \<open>The loop that writes the numbers of the new data sectors into the undirected block.\<close>

fun fill_undirected :: "nat \<Rightarrow> dev \<Rightarrow> OpenFile \<Rightarrow> BitMap \<Rightarrow> (bool \<times> BitMap \<times> dev) option" where
  "fill_undirected 0 v f freeMap = Some (True, freeMap, v)"
| "fill_undirected (Suc n) v f freeMap = do {
     (sector, freeMap') \<leftarrow> BitMap_Find freeMap;
     if sector = - 1 then Some (False, freeMap', v)
     else do {
       (_, f', v') \<leftarrow> OpenFile_Write v f (int_bytes sector) 4;
       fill_undirected n v' f' freeMap'
     }
   }"

text \<open>
  \<open>Extend\<close> and \<open>Allocate\<close> call each other: \<open>Extend\<close> allocates the header of the undirected block with
  \<open>Allocate(freeMap, 0, DATA_FILE, "")\<close>, whose call of \<open>Extend\<close> adds no sector to an empty file.
  \<open>Allocate_empty\<close> is that instance, \<open>Allocate_empty_eq\<close> shows that it is \<open>Allocate\<close> of size 0.
\<close>

definition Allocate_empty :: "FileHeader \<Rightarrow> FileHeader" where
  "Allocate_empty h = h\<lparr>ftype := DATA_FILE, numBytes := 0, numSectors := 0\<rparr>"

definition extend_undirected ::
  "dev \<Rightarrow> FileHeader \<Rightarrow> FileHeader \<Rightarrow> BitMap \<Rightarrow> int \<Rightarrow> (bool \<times> BitMap \<times> dev) option" where
  "extend_undirected v h fileHdr freeMap newUndirectedSectors = do {
     (ok, fileHdr', freeMap1) \<leftarrow> ExtendUndirectedBlock fileHdr freeMap newUndirectedSectors;
     if \<not> ok then Some (False, freeMap1, v)
     else do {
       v1 \<leftarrow> FileHeader_WriteBack v fileHdr' (dataSectors h ! nat (NumDirect - 1));
       f \<leftarrow> OpenFile_new v1 (dataSectors h ! nat (NumDirect - 1));
       fill_undirected (nat newUndirectedSectors) v1
         (OpenFile_Seek f (OpenFile_Length f - newUndirectedSectors * 4)) freeMap1
     }
   }"

definition FileHeader_Extend ::
  "dev \<Rightarrow> FileHeader \<Rightarrow> BitMap \<Rightarrow> int \<Rightarrow> (bool \<times> FileHeader \<times> BitMap \<times> dev) option" where
  "FileHeader_Extend v h freeMap newSize =
     (let undirectedIndex = NumDirect - 1;
          newNumTotalSectors = divRoundUp (numBytes h + newSize) SectorSize;
          newNumSectors = newNumTotalSectors - numSectors h;
          iterations = nat (min newNumTotalSectors undirectedIndex - numSectors h);
          i = numSectors h + int iterations
      in do {
        (ok, h1, freeMap1) \<leftarrow> alloc_sectors (numSectors h) iterations h freeMap;
        if \<not> ok then Some (False, h1, freeMap1, v)
        else do {
          (ok, h2, freeMap2, v2) \<leftarrow>
            (if i < newNumTotalSectors then
               if numSectors h > undirectedIndex then do {
                 fileHdr \<leftarrow> FileHeader_FetchFrom v (dataSectors h1 ! nat undirectedIndex);
                 (ok, freeMap2, v2) \<leftarrow> extend_undirected v h1 fileHdr freeMap1 newNumSectors;
                 Some (ok, h1, freeMap2, v2)
               } else do {
                 (s, freeMap2) \<leftarrow> BitMap_Find freeMap1;
                 let h2 = h1\<lparr>dataSectors := (dataSectors h1)[nat undirectedIndex := s]\<rparr>;
                 if s = - 1 then Some (False, h2, freeMap2, v)
                 else do {
                   let fileHdr = Allocate_empty (FileHeader_new v);
                   (ok, freeMap3, v2) \<leftarrow> extend_undirected v h2 fileHdr freeMap2
                                          (newNumSectors - int iterations);
                   Some (ok, h2, freeMap3, v2)
                 }
               }
             else Some (True, h1, freeMap1, v));
          if \<not> ok then Some (False, h2, freeMap2, v2)
          else Some (True, h2\<lparr>numBytes := numBytes h + newSize, numSectors := newNumTotalSectors\<rparr>,
                  freeMap2, v2)
        }
      })"

definition FileHeader_Allocate ::
  "dev \<Rightarrow> FileHeader \<Rightarrow> BitMap \<Rightarrow> int \<Rightarrow> fileType \<Rightarrow> (bool \<times> FileHeader \<times> BitMap \<times> dev) option" where
  "FileHeader_Allocate v h freeMap fileSize which =
     FileHeader_Extend v (h\<lparr>numBytes := 0, ftype := which, numSectors := 0\<rparr>) freeMap fileSize"

lemma Allocate_empty_eq:
  "FileHeader_Allocate v h freeMap 0 DATA_FILE = Some (True, Allocate_empty h, freeMap, v)"
  by (simp add: FileHeader_Allocate_def FileHeader_Extend_def Allocate_empty_def divRoundUp_def Let_def)

subsection \<open>Releasing a file\<close>

fun clear_sectors :: "int list \<Rightarrow> BitMap \<Rightarrow> BitMap option" where
  "clear_sectors [] freeMap = Some freeMap"
| "clear_sectors (s # ss) freeMap = do {
     t \<leftarrow> BitMap_Test freeMap s;
     ASSERT t;
     freeMap' \<leftarrow> BitMap_Clear freeMap s;
     clear_sectors ss freeMap'
   }"

text \<open>
  A short read, past the end of the block, would leave \<open>sector\<close> as it was: uninitialised or the
  number just cleared, on which the assertion then fails. The model stops at the short read.
\<close>

fun clear_undirected :: "nat \<Rightarrow> dev \<Rightarrow> OpenFile \<Rightarrow> BitMap \<Rightarrow> BitMap option" where
  "clear_undirected 0 v f freeMap = Some freeMap"
| "clear_undirected (Suc n) v f freeMap = do {
     (bs, f') \<leftarrow> OpenFile_Read v f 4;
     ASSERT (length bs = 4);
     freeMap' \<leftarrow> clear_sectors [bytes_int bs] freeMap;
     clear_undirected n v f' freeMap'
   }"

definition DeallocateUndirectedBlock :: "FileHeader \<Rightarrow> BitMap \<Rightarrow> BitMap option" where
  "DeallocateUndirectedBlock h freeMap = do {
     ASSERT (numSectors h \<le> NumDirect);
     clear_sectors (take (nat (numSectors h)) (dataSectors h)) freeMap
   }"

definition FileHeader_Deallocate :: "dev \<Rightarrow> FileHeader \<Rightarrow> BitMap \<Rightarrow> BitMap option" where
  "FileHeader_Deallocate v h freeMap = do {
     freeMap1 \<leftarrow> clear_sectors (take (nat (min (NumDirect - 1) (numSectors h))) (dataSectors h)) freeMap;
     if numSectors h \<ge> NumDirect - 1 then do {
       let undirected = dataSectors h ! nat (NumDirect - 1);
       fileHdr \<leftarrow> FileHeader_FetchFrom v undirected;
       let leftNumSectors = numSectors h - (NumDirect - 1);
       f \<leftarrow> OpenFile_new v undirected;
       freeMap2 \<leftarrow> clear_undirected (nat leftNumSectors) v f freeMap1;
       freeMap3 \<leftarrow> clear_sectors [undirected] freeMap2;
       DeallocateUndirectedBlock fileHdr freeMap3
     } else Some freeMap1
   }"

subsection \<open>The free map on disk\<close>

fun decode_words :: "nat \<Rightarrow> byte list \<Rightarrow> u32 list" where
  "decode_words 0 bs = []"
| "decode_words (Suc n) bs = unle32 bs # decode_words n (drop 4 bs)"

definition BitMap_FetchFrom :: "dev \<Rightarrow> OpenFile \<Rightarrow> BitMap \<Rightarrow> BitMap option" where
  "BitMap_FetchFrom v f b = do {
     bs \<leftarrow> ReadAt v (hdr f) (numWords b * 4) 0;
     Some (b\<lparr>words := decode_words (length (words b)) (overlay (concat (map le32 (words b))) 0 bs)\<rparr>)
   }"

definition BitMap_WriteBack :: "dev \<Rightarrow> OpenFile \<Rightarrow> BitMap \<Rightarrow> dev option" where
  "BitMap_WriteBack v f b = do {
     (_, v') \<leftarrow> WriteAt v (hdr f) (concat (map le32 (words b))) (numWords b * 4) 0;
     Some v'
   }"

subsection \<open>Allocation loops\<close>

lemma take_list_update_ge: "n \<le> i \<Longrightarrow> take n (xs[i := x]) = take n xs"
  by (simp add: take_update_cancel)

lemma alloc_sectors_spec:
  assumes "bitmap_wf fm" "i + n \<le> 29" "length (dataSectors h) = 29"
  shows "\<exists>ok ds xs fm'. alloc_sectors (int i) n h fm = Some (ok, h\<lparr>dataSectors := ds\<rparr>, fm')
    \<and> bm.alloc_run fm xs fm' \<and> length ds = 29 \<and> take i ds = take i (dataSectors h)
    \<and> drop (i + n) ds = drop (i + n) (dataSectors h)
    \<and> length xs \<le> n \<and> (\<not> ok \<longrightarrow> marked fm' = {0..<numBits fm})
    \<and> (ok \<longrightarrow> length xs = n \<and> take (i + n) ds = take i (dataSectors h) @ xs)"
  using assms
proof (induction n arbitrary: i h fm)
  case 0
  then show ?case
    by (intro exI [of _ True] exI [of _ "dataSectors h"] exI [of _ "[]"] exI [of _ fm]) simp
next
  case (Suc n)
  have i: "i < 29" using Suc.prems(2) by simp
  from Suc.prems(1) show ?case
  proof (cases rule: Find_cases)
    case full
    have "bm.alloc_run fm [] fm" by simp
    with full i Suc.prems(3) show ?thesis
      by (intro exI [of _ False] exI [of _ "(dataSectors h)[i := - 1]"] exI [of _ "[]"] exI [of _ fm])
        (simp add: Let_def take_list_update_ge)
  next
    case (hit k b')
    let ?h = "h\<lparr>dataSectors := (dataSectors h)[i := k]\<rparr>"
    have "Suc i + n \<le> 29" "length (dataSectors ?h) = 29" using Suc.prems by simp_all
    from Suc.IH [OF hit(6) this] obtain ok ds xs fm' where ds:
      "alloc_sectors (int (Suc i)) n ?h b' = Some (ok, ?h\<lparr>dataSectors := ds\<rparr>, fm')"
      "bm.alloc_run b' xs fm'" "length ds = 29" "take (Suc i) ds = take (Suc i) (dataSectors ?h)"
      "drop (Suc i + n) ds = drop (Suc i + n) (dataSectors ?h)"
      "length xs \<le> n" "\<not> ok \<longrightarrow> marked fm' = {0..<numBits b'}"
      "ok \<longrightarrow> length xs = n \<and> take (Suc i + n) ds = take (Suc i) (dataSectors ?h) @ xs"
      by blast
    have k: "k \<noteq> - 1" using hit(2) by simp
    have run: "alloc_sectors (int i) (Suc n) h fm = Some (ok, h\<lparr>dataSectors := ds\<rparr>, fm')"
      using hit(1) k i ds(1) by (simp add: Let_def add.commute)
    have split: "take (Suc i) ((dataSectors h)[i := k]) = take i (dataSectors h) @ [k]"
      using i Suc.prems(3) by (simp add: take_Suc_conv_app_nth take_list_update_ge)
    have "take i ds = take i (take (Suc i) ds)" by (simp add: min_def)
    also have "\<dots> = take i (dataSectors h)" using ds(4) by (simp add: take_list_update_ge min_def)
    finally have pre: "take i ds = take i (dataSectors h)" .
    have "bm.alloc_run fm (k # xs) fm'" using hit(1) k ds(2) by auto
    with run pre ds(3,5-8) split hit(7) show ?thesis
      by (intro exI [of _ ok] exI [of _ ds] exI [of _ "k # xs"] exI [of _ fm']) auto
  qed
qed

subsection \<open>Files on disk\<close>

definition direct_blocks :: "FileHeader \<Rightarrow> int list \<Rightarrow> bool" where
  "direct_blocks h bl \<longleftrightarrow> hdr_repr h \<and> numSectors h = int (length bl) \<and> length bl \<le> 28
     \<and> bl = take (length bl) (dataSectors h) \<and> 0 \<le> numBytes h
     \<and> numSectors h = divRoundUp (numBytes h) SectorSize"

definition indirect_blocks :: "dev \<Rightarrow> int \<Rightarrow> int list \<Rightarrow> int list \<Rightarrow> bool" where
  "indirect_blocks v u rest ibl \<longleftrightarrow> (\<exists>ih. FileHeader_FetchFrom v u = Some ih \<and> direct_blocks ih ibl
     \<and> numBytes ih = 4 * int (length rest) \<and> contents v ih ibl = concat (map int_bytes rest))"

definition file_blocks :: "dev \<Rightarrow> FileHeader \<Rightarrow> int list \<Rightarrow> int list \<Rightarrow> bool" where
  "file_blocks v h bl ib \<longleftrightarrow> hdr_repr h \<and> numSectors h = int (length bl) \<and> 0 \<le> numBytes h
     \<and> numSectors h = divRoundUp (numBytes h) SectorSize
     \<and> distinct (bl @ ib) \<and> set (bl @ ib) \<subseteq> {0..<NumSectors}
     \<and> take 28 bl = take (min 28 (length bl)) (dataSectors h)
     \<and> (if length bl \<le> 28 then ib = []
        else ib \<noteq> [] \<and> hd ib = dataSectors h ! 28
          \<and> indirect_blocks v (dataSectors h ! 28) (drop 28 bl) (tl ib))"

lemma divRoundUp_ge: "0 \<le> n \<Longrightarrow> n \<le> 128 * divRoundUp n 128"
  by (simp add: divRoundUp_pos)
     (use sector_bounds [of n] mult_div_mod_eq [of 128 n] pos_mod_sign [of 128 n]
       in \<open>intro conjI impI; linarith\<close>)

lemma divRoundUp_le: "0 \<le> n \<Longrightarrow> n \<le> 128 * k \<Longrightarrow> divRoundUp n 128 \<le> k"
  by (simp add: divRoundUp_pos)
     (use sector_bounds [of n] mult_div_mod_eq [of 128 n] pos_mod_sign [of 128 n]
       in \<open>intro conjI impI; linarith\<close>)

lemma divRoundUp_mono: "0 \<le> m \<Longrightarrow> m \<le> n \<Longrightarrow> divRoundUp m 128 \<le> divRoundUp n 128"
  by (rule divRoundUp_le) (use divRoundUp_ge [of n] in linarith)+

lemma direct_blocks_maps_to:
  assumes "direct_blocks h bl" "distinct bl" "set bl \<subseteq> {0..<NumSectors}"
  shows "maps_to v h bl {}"
  using assms divRoundUp_ge [of "numBytes h"]
  by (intro direct_maps_to [where k = "length bl"]) (auto simp: direct_blocks_def hdr_repr_def)

lemma direct_blocks_nonneg: "direct_blocks h bl \<Longrightarrow> numBytes h \<le> 128 * int (length bl)"
  using divRoundUp_ge [of "numBytes h"] by (simp add: direct_blocks_def)

lemma file_blocks_maps_to:
  assumes "dev_wf v" "file_blocks v h bl ib"
  shows "maps_to v h bl (set ib)"
proof (cases "length bl \<le> 28")
  case True
  then have "direct_blocks h bl" "ib = []" "distinct bl" "set bl \<subseteq> {0..<NumSectors}"
    using assms(2) by (auto simp: file_blocks_def direct_blocks_def)
  then show ?thesis using direct_blocks_maps_to by simp
next
  case False
  let ?u = "dataSectors h ! 28"
  obtain ibl where ib: "ib = ?u # ibl" and ind: "indirect_blocks v ?u (drop 28 bl) ibl"
    using assms(2) False by (cases ib) (auto simp: file_blocks_def)
  from ind obtain ih where ih: "FileHeader_FetchFrom v ?u = Some ih" "direct_blocks ih ibl"
    "contents v ih ibl = concat (map int_bytes (drop 28 bl))"
    by (auto simp: indirect_blocks_def)
  have f: "length (dataSectors h) = 29" "0 \<le> numBytes h" "distinct (bl @ ib)"
    "set (bl @ ib) \<subseteq> {0..<NumSectors}" "take 28 bl = take 28 (dataSectors h)"
    "numBytes h \<le> 128 * int (length bl)"
    using assms(2) False divRoundUp_ge [of "numBytes h"] by (auto simp: file_blocks_def hdr_repr_def)
  have bl: "bl = take 28 (dataSectors h) @ drop 28 bl" using f(5) by (metis append_take_drop_id)
  have "card (set bl) \<le> card {0..<1024::int}"
    by (rule card_mono) (use f(4) in auto)
  then have "length (drop 28 bl) < 2 ^ 20" using f(3) by (simp add: distinct_card)
  moreover have "maps_to v ih ibl {}"
    by (rule direct_blocks_maps_to [OF ih(2)]) (use f(3,4) ib in auto)
  moreover have "numBytes h \<le> 128 * (28 + int (length (drop 28 bl)))"
    using f(6) False by simp
  ultimately have "maps_to v h bl ({?u} \<union> set ibl \<union> {})"
    using f ih(1,3) bl assms(1) ib by (intro indirect_maps_to [where ih = ih]) auto
  then show ?thesis by (simp add: ib)
qed

lemma splice_int32:
  assumes "take m ds = take i ds0 @ xs" "drop m ds = drop m ds0" "list_all is_int32 ds0"
    "set xs \<subseteq> {0..<NumSectors}"
  shows "list_all is_int32 ds"
proof -
  have "ds = take i ds0 @ xs @ drop m ds0" using assms(1,2) by (metis append.assoc append_take_drop_id)
  moreover have "is_int32 x" if "x \<in> set xs" for x
    using assms(4) that by (auto simp: is_int32_def)
  ultimately show ?thesis
    using assms(3) by (auto simp: list_all_iff dest: in_set_takeD in_set_dropD)
qed

lemma ExtendUndirectedBlock_spec:
  assumes "direct_blocks h bl" "bitmap_wf fm" "numBits fm = 1024" "0 \<le> k"
    "numBytes h + k * 4 \<le> 28 * 128"
  shows "\<exists>ok h' xs fm'. ExtendUndirectedBlock h fm k = Some (ok, h', fm') \<and> bm.alloc_run fm xs fm'
    \<and> length xs \<le> 28 \<and> (\<not> ok \<longrightarrow> marked fm' = {0..<numBits fm})
    \<and> (ok \<longrightarrow> direct_blocks h' (bl @ xs) \<and> numBytes h' = numBytes h + k * 4)"
proof -
  let ?t = "divRoundUp (numBytes h + k * 4) 128"
  have h: "length (dataSectors h) = 29" "list_all is_int32 (dataSectors h)" "0 \<le> numBytes h"
    "numSectors h = int (length bl)" "bl = take (length bl) (dataSectors h)" "length bl \<le> 28"
    "numSectors h = divRoundUp (numBytes h) 128"
    using assms(1) by (auto simp: direct_blocks_def hdr_repr_def)
  have t: "?t \<le> 28" by (rule divRoundUp_le) (use assms(4,5) h(3) in auto)
  have t0: "int (length bl) \<le> ?t"
    using divRoundUp_mono [of "numBytes h" "numBytes h + k * 4"] h(3,4,7) assms(4) by simp
  define n where "n = nat (?t - int (length bl))"
  have n: "int (length bl + n) = ?t" using t0 by (simp add: n_def)
  then have le: "length bl + n \<le> 29" using t by linarith
  from alloc_sectors_spec [OF assms(2) le h(1)] obtain ok ds xs fm' where
    run: "alloc_sectors (int (length bl)) n h fm = Some (ok, h\<lparr>dataSectors := ds\<rparr>, fm')"
    and al: "bm.alloc_run fm xs fm'" "length ds = 29"
      "drop (length bl + n) ds = drop (length bl + n) (dataSectors h)"
      and cnt: "length xs \<le> n" and full: "\<not> ok \<longrightarrow> marked fm' = {0..<numBits fm}" and al': "ok \<longrightarrow> length xs = n \<and> take (length bl + n) ds = take (length bl) (dataSectors h) @ xs"
    by blast
  let ?h = "h\<lparr>dataSectors := ds, numSectors := ?t, numBytes := numBytes h + k * 4\<rparr>"
  have eub: "ExtendUndirectedBlock h fm k
      = Some (ok, if ok then ?h else h\<lparr>dataSectors := ds\<rparr>, fm')"
    using t run h(4) by (simp add: ExtendUndirectedBlock_def Let_def n_def)
  have xs: "set xs \<subseteq> {0..<1024}"
    using bm.alloc_run_spec [OF assms(2) al(1)] assms(3) by simp
  have "direct_blocks ?h (bl @ xs)" if ok
  proof -
    have "list_all is_int32 ds"
      by (rule splice_int32 [OF _ al(3) h(2) xs]) (use al' that in simp)
    moreover have "is_int32 ?t" "is_int32 (numBytes h + k * 4)"
      using t t0 assms(4,5) h(3) by (simp_all add: is_int32_def)
    moreover have "length xs = n" using al' that by simp
    moreover have "bl @ xs = take (length bl + n) ds" using al' that h(5) by simp
    ultimately show ?thesis
      using assms(1,4) n t al(2) h(3)
      by (simp add: direct_blocks_def hdr_repr_def)
  qed
  moreover have "length xs \<le> 28" using cnt n t by linarith
  ultimately show ?thesis
    using eub al(1) full
    by (intro exI [of _ ok] exI [of _ "if ok then ?h else h\<lparr>dataSectors := ds\<rparr>"] exI [of _ xs] exI [of _ fm']) auto
qed

lemma take_overlay_end:
  "k + length ys \<le> length xs \<Longrightarrow> take (k + length ys) (overlay xs k ys) = take k xs @ ys"
  by (simp add: overlay_def min_absorb2)

lemma fill_undirected_spec:
  assumes "dev_wf v" "direct_blocks ih ibl" "distinct ibl" "set ibl \<subseteq> {0..<NumSectors}"
    "bitmap_wf fm" "numBytes ih = 4 * int (length pre + n)"
    "take (4 * length pre) (contents v ih ibl) = concat (map int_bytes pre)"
  shows "\<exists>ok xs fm' v'. fill_undirected n v \<lparr>hdr = ih, seekPosition = 4 * int (length pre)\<rparr> fm
        = Some (ok, fm', v')
    \<and> bm.alloc_run fm xs fm' \<and> dev_wf v' \<and> (\<forall>s. s \<notin> set ibl \<longrightarrow> sectors v' s = sectors v s)
    \<and> length xs \<le> n \<and> (\<not> ok \<longrightarrow> marked fm' = {0..<numBits fm})
    \<and> (ok \<longrightarrow> length xs = n \<and> contents v' ih ibl = concat (map int_bytes (pre @ xs)))"
  using assms
proof (induction n arbitrary: v fm pre)
  case 0
  have "length (contents v ih ibl) \<le> 4 * length pre"
    using 0 by (simp add: contents_def)
  then have "contents v ih ibl = concat (map int_bytes pre)" using 0(7) by simp
  with 0 show ?case
    by (intro exI [of _ True] exI [of _ "[]"] exI [of _ fm] exI [of _ v]) simp
next
  case (Suc n)
  let ?f = "\<lparr>hdr = ih, seekPosition = 4 * int (length pre)\<rparr>"
  from Suc.prems(5) show ?case
  proof (cases rule: Find_cases)
    case full
    with Suc.prems(1) show ?thesis
      by (intro exI [of _ False] exI [of _ "[]"] exI [of _ fm] exI [of _ v]) simp
  next
    case (hit k b')
    have k: "k \<noteq> - 1" using hit(2) by simp
    let ?p = "4 * int (length pre)"
    have mt: "maps_to v ih ibl {}" by (rule direct_blocks_maps_to) fact+
    have p: "0 \<le> ?p" "?p < numBytes ih" "min 4 (numBytes ih - ?p) = 4"
      using Suc.prems(6) by simp_all
    have lc: "length (contents v ih ibl) = 4 * length pre + 4 + 4 * n"
      using direct_blocks_nonneg [OF Suc.prems(2)] Suc.prems(1,6) by (simp add: contents_def)
    obtain v1 where v1: "WriteAt v ih (int_bytes k) 4 ?p = Some (4, v1)" "dev_wf v1"
      "\<And>s. s \<notin> set ibl \<Longrightarrow> sectors v1 s = sectors v s"
      "contents v1 ih ibl = overlay (contents v ih ibl) (nat ?p) (int_bytes k)"
      using WriteAt_spec [OF Suc.prems(1) mt p(1,2), of 4 "int_bytes k"] p(3) by auto
    have "nat ?p = 4 * length pre" by simp
    then have "take (4 * length (pre @ [k])) (contents v1 ih ibl) = concat (map int_bytes (pre @ [k]))"
      using take_overlay_end [of "4 * length pre" "int_bytes k" "contents v ih ibl"] lc v1(4)
        Suc.prems(7) by (simp add: add.commute)
    moreover have "numBytes ih = 4 * int (length (pre @ [k]) + n)" using Suc.prems(6) by simp
    ultimately obtain ok xs fm' v' where IH:
      "fill_undirected n v1 \<lparr>hdr = ih, seekPosition = 4 * int (length (pre @ [k]))\<rparr> b' = Some (ok, fm', v')"
      "bm.alloc_run b' xs fm'" "dev_wf v'" "\<forall>s. s \<notin> set ibl \<longrightarrow> sectors v' s = sectors v1 s"
      "length xs \<le> n" "\<not> ok \<longrightarrow> marked fm' = {0..<numBits b'}"
      "ok \<longrightarrow> length xs = n \<and> contents v' ih ibl = concat (map int_bytes ((pre @ [k]) @ xs))"
      using Suc.IH [OF v1(2) Suc.prems(2,3,4) hit(6)] by blast
    have "fill_undirected (Suc n) v ?f fm = Some (ok, fm', v')"
      using hit(1) k v1(1) IH(1) by (simp add: OpenFile_Write_def algebra_simps)
    moreover have "bm.alloc_run fm (k # xs) fm'" using hit(1) k IH(2) by auto
    ultimately show ?thesis using IH(3-7) v1(3) hit(7)
      by (intro exI [of _ ok] exI [of _ "k # xs"] exI [of _ fm'] exI [of _ v']) simp
  qed
qed

lemma extend_undirected_spec:
  assumes "dev_wf v" "direct_blocks ih ibl" "distinct (u # ibl)" "set (u # ibl) \<subseteq> {0..<NumSectors}"
    "set (u # ibl) \<subseteq> marked fm" "bitmap_wf fm" "numBits fm = 1024"
    "numBytes ih = 4 * int (length pre)" "contents v ih ibl = concat (map int_bytes pre)"
    "length pre + k \<le> 896" "dataSectors h ! 28 = u"
  shows "\<exists>ok xs ys fm' v'. extend_undirected v h ih fm (int k) = Some (ok, fm', v')
    \<and> bm.alloc_run fm (ys @ xs) fm' \<and> dev_wf v'
    \<and> (\<forall>s. s \<notin> set (u # ibl @ ys) \<longrightarrow> sectors v' s = sectors v s)
    \<and> length (ys @ xs) \<le> k + 28 \<and> (\<not> ok \<longrightarrow> marked fm' = {0..<numBits fm})
    \<and> (ok \<longrightarrow> length xs = k \<and> indirect_blocks v' u (pre @ xs) (ibl @ ys))"
proof -
  have "numBytes ih + int k * 4 \<le> 28 * 128" "0 \<le> int k" using assms(8,10) by linarith+
  from ExtendUndirectedBlock_spec [OF assms(2,6,7) this(2,1)] obtain ok ih' ys fm1 where
    eub: "ExtendUndirectedBlock ih fm (int k) = Some (ok, ih', fm1)" "bm.alloc_run fm ys fm1"
      "length ys \<le> 28" "\<not> ok \<longrightarrow> marked fm1 = {0..<numBits fm}"
      "ok \<longrightarrow> direct_blocks ih' (ibl @ ys) \<and> numBytes ih' = numBytes ih + int k * 4"
    by blast
  show ?thesis
  proof (cases ok)
    case False
    then have "extend_undirected v h ih fm (int k) = Some (False, fm1, v)"
      using eub(1) by (simp add: extend_undirected_def)
    with assms(1) eub(2-4) False show ?thesis
      by (intro exI [of _ False] exI [of _ "[]"] exI [of _ ys] exI [of _ fm1] exI [of _ v]) simp
  next
    case True
    note ih' = eub(5) [rule_format, OF True]
    let ?bl = "ibl @ ys"
    note run = bm.alloc_run_spec [OF assms(6) eub(2)]
    have bl: "distinct (u # ?bl)" "set (u # ?bl) \<subseteq> {0..<NumSectors}"
      using assms(3,4,5,7) run by auto
    have repr: "hdr_repr ih'" using ih' by (simp add: direct_blocks_def)
    define v1 where "v1 = v\<lparr>sectors := (sectors v)(u := encode_hdr ih')\<rparr>"
    have wb: "FileHeader_WriteBack v ih' u = Some v1"
      using bl(2) length_encode_hdr [OF repr] by (simp add: FileHeader_WriteBack_def WriteSector_def v1_def)
    have fetch: "FileHeader_FetchFrom v1 u = Some ih'"
      using bl(2) decode_encode_hdr [OF repr] by (simp add: FileHeader_FetchFrom_def ReadSector_def v1_def)
    have wf1: "dev_wf v1" using assms(1) length_encode_hdr [OF repr] by (simp add: dev_wf_def v1_def)
    have nb: "numBytes ih' = 4 * int (length pre + k)" using ih' assms(8) by simp
    have "raw_contents v1 ?bl = raw_contents v ibl @ raw_contents v ys"
      using bl(1) by (auto simp: raw_contents_def v1_def intro!: arg_cong [of _ _ concat])
    moreover have "4 * length pre \<le> nat (numBytes ih')" using nb by (simp add: le_nat_iff)
    ultimately have "take (4 * length pre) (contents v1 ih' ?bl)
        = take (4 * length pre) (raw_contents v ibl @ raw_contents v ys)"
      by (simp only: contents_def take_take min_absorb1)
    also have "\<dots> = contents v ih ibl"
      using direct_blocks_nonneg [OF assms(2)] assms(1,8) by (simp add: contents_def nat_mult_distrib)
    finally have pre: "take (4 * length pre) (contents v1 ih' ?bl) = concat (map int_bytes pre)"
      using assms(9) by simp
    from fill_undirected_spec [OF wf1 _ _ _ _ nb pre, of fm1] ih' bl run obtain ok' xs fm' v' where
      fill: "fill_undirected k v1 \<lparr>hdr = ih', seekPosition = 4 * int (length pre)\<rparr> fm1 = Some (ok', fm', v')"
        "bm.alloc_run fm1 xs fm'" "dev_wf v'" "\<forall>s. s \<notin> set ?bl \<longrightarrow> sectors v' s = sectors v1 s"
        "length xs \<le> k" "\<not> ok' \<longrightarrow> marked fm' = {0..<numBits fm1}"
        "ok' \<longrightarrow> length xs = k \<and> contents v' ih' ?bl = concat (map int_bytes (pre @ xs))"
      by auto
    have "extend_undirected v h ih fm (int k) = Some (ok', fm', v')"
      using eub(1) True wb fetch fill(1) nb assms(11)
      by (simp add: extend_undirected_def OpenFile_new_def OpenFile_Seek_def OpenFile_Length_def
          FileLength_def algebra_simps)
    moreover have "bm.alloc_run fm (ys @ xs) fm'" using eub(2) fill(2) bm.alloc_run_append by blast
    moreover have "indirect_blocks v' u (pre @ xs) ?bl" if ok'
    proof -
      have "sectors v' u = sectors v1 u" using fill(4) bl(1) by auto
      then have "FileHeader_FetchFrom v' u = Some ih'"
        using fetch by (simp add: FileHeader_FetchFrom_def ReadSector_def bind_Some_iff)
      then show ?thesis using fill(7) that ih' nb by (auto simp: indirect_blocks_def)
    qed
    ultimately show ?thesis using fill(3-7) run eub(3)
      by (intro exI [of _ ok'] exI [of _ xs] exI [of _ ys] exI [of _ fm'] exI [of _ v'])
        (auto simp: v1_def)
  qed
qed

lemma hdr_repr_update:
  "hdr_repr h \<Longrightarrow> length ds = 29 \<Longrightarrow> list_all is_int32 ds \<Longrightarrow> is_int32 nb \<Longrightarrow> is_int32 ns \<Longrightarrow>
    hdr_repr (h\<lparr>dataSectors := ds, numBytes := nb, numSectors := ns\<rparr>)"
  by (simp add: hdr_repr_def)

text \<open>
  The contract of \<open>Extend\<close>: \<open>ext_ok\<close> relates the state before to the result, for the new data
  sectors \<open>bl'\<close> and the new sectors \<open>ib'\<close> of the undirected block.
\<close>

definition ext_ok :: "dev \<Rightarrow> FileHeader \<Rightarrow> BitMap \<Rightarrow> int list \<Rightarrow> int list \<Rightarrow> int \<Rightarrow>
    bool \<times> FileHeader \<times> BitMap \<times> dev \<Rightarrow> int list \<Rightarrow> int list \<Rightarrow> bool" where
  "ext_ok v h fm bl ib sz r bl' ib' \<longleftrightarrow> (case r of (ok, h', fm', v') \<Rightarrow>
     bitmap_wf fm' \<and> numBits fm' = numBits fm \<and> dev_wf v'
     \<and> marked fm' = marked fm \<union> set (bl' @ ib') \<and> set (bl' @ ib') \<inter> marked fm = {}
     \<and> (\<forall>s \<in> marked fm - set ib. sectors v' s = sectors v s)
     \<and> int (length (bl' @ ib')) \<le> divRoundUp (numBytes h + sz) SectorSize - int (length bl) + 29
     \<and> (\<not> ok \<longrightarrow> marked fm' = {0..<numBits fm})
     \<and> (ok \<longrightarrow> file_blocks v' h' (bl @ bl') (ib @ ib') \<and> numBytes h' = numBytes h + sz
          \<and> ftype h' = ftype h))"

lemma ext_okI:
  assumes "bitmap_wf fm" "bm.alloc_run fm xs fm'" "set xs = set (bl' @ ib')" "dev_wf v'"
    "\<And>s. s \<in> marked fm \<Longrightarrow> s \<notin> set ib \<Longrightarrow> sectors v' s = sectors v s"
    "int (length (bl' @ ib')) \<le> divRoundUp (numBytes h + sz) SectorSize - int (length bl) + 29"
    "\<not> ok \<Longrightarrow> marked fm' = {0..<numBits fm}"
    "ok \<Longrightarrow> file_blocks v' h' (bl @ bl') (ib @ ib') \<and> numBytes h' = numBytes h + sz \<and> ftype h' = ftype h"
  shows "ext_ok v h fm bl ib sz (ok, h', fm', v') bl' ib'"
  using bm.alloc_run_spec [OF assms(1,2)] assms(3-) by (auto simp: ext_ok_def)

lemma Extend_old_undirected:
  assumes "dev_wf v" "file_blocks v h bl ib" "bitmap_wf fm" "numBits fm = 1024"
    "set (bl @ ib) \<subseteq> marked fm" "0 \<le> sz" "numBytes h + sz \<le> 924 * 128" "length bl > 28"
  shows "\<exists>r bl' ib'. FileHeader_Extend v h fm sz = Some r \<and> ext_ok v h fm bl ib sz r bl' ib'"
proof -
  let ?T = "divRoundUp (numBytes h + sz) 128" and ?u = "dataSectors h ! 28"
  have fb: "hdr_repr h" "numSectors h = int (length bl)" "0 \<le> numBytes h"
    "numSectors h = divRoundUp (numBytes h) 128" "distinct (bl @ ib)"
    "set (bl @ ib) \<subseteq> {0..<NumSectors}" "take 28 bl = take 28 (dataSectors h)"
    "indirect_blocks v ?u (drop 28 bl) (tl ib)"
    using assms(2,8) by (auto simp: file_blocks_def min_def)
  have ib: "ib = ?u # tl ib" and hd: "ib \<noteq> []" "hd ib = ?u"
    using assms(2,8) by (cases ib; auto simp: file_blocks_def)+
  have T: "int (length bl) \<le> ?T" "?T \<le> 924"
    using divRoundUp_mono [of "numBytes h" "numBytes h + sz"] fb assms(6)
      divRoundUp_le [of "numBytes h + sz" 924] assms(7) by auto
  let ?h = "h\<lparr>numBytes := numBytes h + sz, numSectors := ?T\<rparr>"
  have repr: "hdr_repr ?h"
    using fb(1,3) assms(6,7) T by (simp add: hdr_repr_def is_int32_def)
  define k where "k = nat (?T - int (length bl))"
  have k: "int k = ?T - int (length bl)" using T(1) by (simp add: k_def)
  show ?thesis
  proof (cases "k = 0")
    case True
    then have "FileHeader_Extend v h fm sz = Some (True, ?h, fm, v)"
      using k assms(8) fb(2) by (simp add: FileHeader_Extend_def Let_def)
    moreover have "file_blocks v ?h bl ib"
      using fb repr hd assms(6,8) k True by (simp add: file_blocks_def min_def)
    then have "ext_ok v h fm bl ib sz (True, ?h, fm, v) [] []"
      using assms(1,3) by (intro ext_okI [where xs = "[]"]) (use T in auto)
    ultimately show ?thesis by blast
  next
    case False
    from fb(8) obtain ih where ih: "FileHeader_FetchFrom v ?u = Some ih" "direct_blocks ih (tl ib)"
      "numBytes ih = 4 * int (length (drop 28 bl))"
      "contents v ih (tl ib) = concat (map int_bytes (drop 28 bl))"
      by (auto simp: indirect_blocks_def)
    have d: "distinct (?u # tl ib)" "set (?u # tl ib) \<subseteq> {0..<NumSectors}" "set (?u # tl ib) \<subseteq> marked fm"
      using fb(5,6) assms(5) ib by (metis distinct_append, metis set_append Un_subset_iff,
          metis set_append Un_subset_iff)
    have le: "length (drop 28 bl) + k \<le> 896" using k T(2) assms(8) by simp
    obtain ok xs ys fm' v' where eu: "extend_undirected v h ih fm (int k) = Some (ok, fm', v')"
      "bm.alloc_run fm (ys @ xs) fm'" "dev_wf v'"
      "\<forall>s. s \<notin> set (?u # tl ib @ ys) \<longrightarrow> sectors v' s = sectors v s"
      "length (ys @ xs) \<le> k + 28" "\<not> ok \<longrightarrow> marked fm' = {0..<numBits fm}"
      "ok \<longrightarrow> length xs = k \<and> indirect_blocks v' ?u (drop 28 bl @ xs) (tl ib @ ys)"
      using extend_undirected_spec [OF assms(1) ih(2) d assms(3,4) ih(3,4) le refl] by blast
    note run = bm.alloc_run_spec [OF assms(3) eu(2)]
    have ext: "FileHeader_Extend v h fm sz = Some (ok, if ok then ?h else h, fm', v')"
      using k False assms(8) fb(2) ih(1) eu(1) by (simp add: FileHeader_Extend_def Let_def)
    have "file_blocks v' ?h (bl @ xs) (ib @ ys)" if ok
    proof -
      have "distinct (bl @ xs @ ib @ ys)" "set (bl @ xs @ ib @ ys) \<subseteq> {0..<NumSectors}"
        using run fb(5,6) assms(4,5) by auto
      then show ?thesis
        using repr eu(7) that k fb(3,7) assms(6,8) hd by (simp add: file_blocks_def min_def)
    qed
    moreover have "sectors v' s = sectors v s" if "s \<in> marked fm" "s \<notin> set ib" for s
    proof -
      have "s \<notin> set (?u # tl ib)" using that(2) ib by metis
      then show ?thesis using eu(4) that(1) run by auto
    qed
    ultimately have "ext_ok v h fm bl ib sz (ok, if ok then ?h else h, fm', v') xs ys"
      by (intro ext_okI [OF assms(3) eu(2) _ eu(3)]) (use eu(5,6) k in auto)
    with ext show ?thesis by blast
  qed
qed

text \<open>The step from a file of 28 sectors listed in the header to one with an undirected block.\<close>

lemma Extend_new_undirected:
  assumes "dev_wf v" "bitmap_wf fm" "numBits fm = 1024" "set bl \<subseteq> marked fm"
    and bl: "length bl = 28" "distinct bl" "set bl \<subseteq> {0..<NumSectors}" "bl = take 28 ds"
    and ds: "length ds = 29" "list_all is_int32 ds" and n: "k \<le> 896" "0 < k"
    and u: "BitMap_Find fm = Some (u, fm1)" "u \<noteq> - 1"
  shows "\<exists>ok xs ys fm' v'. extend_undirected v (h\<lparr>dataSectors := ds[28 := u]\<rparr>)
        (Allocate_empty (FileHeader_new v)) fm1 (int k) = Some (ok, fm', v')
    \<and> bm.alloc_run fm (u # ys @ xs) fm' \<and> dev_wf v'
    \<and> (\<forall>s \<in> marked fm. sectors v' s = sectors v s)
    \<and> length (ys @ xs) \<le> k + 28 \<and> (\<not> ok \<longrightarrow> marked fm' = {0..<numBits fm})
    \<and> (ok \<longrightarrow> (\<forall>h'. hdr_repr h' \<longrightarrow> dataSectors h' = ds[28 := u] \<longrightarrow> 0 \<le> numBytes h' \<longrightarrow>
         numSectors h' = int (28 + k) \<longrightarrow> numSectors h' = divRoundUp (numBytes h') 128 \<longrightarrow>
         file_blocks v' h' (bl @ xs) (u # ys)))"
proof -
  let ?ih = "Allocate_empty (FileHeader_new v)"
  have "hdr_repr ?ih"
    using decode_hdr_repr [of "map (junk v) [0..<128]"]
    by (simp add: Allocate_empty_def FileHeader_new_def hdr_repr_def is_int32_def code_type_def)
  then have ih: "direct_blocks ?ih []" "numBytes ?ih = 0" "contents v ?ih [] = []"
    by (simp_all add: direct_blocks_def Allocate_empty_def divRoundUp_def contents_def raw_contents_def)
  note hit = bm.find_hit [OF assms(2) u]
  have fm1: "bitmap_wf fm1" "numBits fm1 = 1024" using hit assms(3) by auto
  have pre: "distinct [u]" "set [u] \<subseteq> {0..<NumSectors}" "set [u] \<subseteq> marked fm1"
    "numBytes ?ih = 4 * int (length ([] :: int list))"
    "contents v ?ih [] = concat (map int_bytes [])" "length ([] :: int list) + k \<le> 896"
    "dataSectors (h\<lparr>dataSectors := ds[28 := u]\<rparr>) ! 28 = u"
    using ih(2,3) n hit assms(3) ds(1) by simp_all
  obtain ok xs ys fm' v' where eu:
    "extend_undirected v (h\<lparr>dataSectors := ds[28 := u]\<rparr>) ?ih fm1 (int k) = Some (ok, fm', v')"
    "bm.alloc_run fm1 (ys @ xs) fm'" "dev_wf v'"
    "\<forall>s. s \<notin> set (u # [] @ ys) \<longrightarrow> sectors v' s = sectors v s"
    "length (ys @ xs) \<le> k + 28" "\<not> ok \<longrightarrow> marked fm' = {0..<numBits fm1}"
    "ok \<longrightarrow> length xs = k \<and> indirect_blocks v' u ([] @ xs) ([] @ ys)"
    using extend_undirected_spec [OF assms(1) ih(1) pre(1-3) fm1 pre(4-7)] by blast
  have "bm.alloc_run fm (u # ys @ xs) fm'" using u eu(2) by auto
  note run = this bm.alloc_run_spec [OF assms(2) this]
  have "file_blocks v' h' (bl @ xs) (u # ys)"
    if "ok" "hdr_repr h'" "dataSectors h' = ds[28 := u]" "0 \<le> numBytes h'"
      "numSectors h' = int (28 + k)" "numSectors h' = divRoundUp (numBytes h') 128" for h'
  proof -
    have "distinct (bl @ xs @ u # ys)" "set (bl @ xs @ u # ys) \<subseteq> {0..<NumSectors}"
      using run(2) bl assms(3,4) by auto
    then show ?thesis
      using that eu(7) bl(1,4) ds(1) n(2) by (simp add: file_blocks_def min_def take_list_update_ge)
  qed
  moreover have "\<forall>s \<in> marked fm. sectors v' s = sectors v s" using run(2) eu(4) by auto
  moreover have "\<not> ok \<longrightarrow> marked fm' = {0..<numBits fm}" using eu(6) hit by simp
  ultimately show ?thesis using eu(1,3,5) run(1) by blast
qed

lemma Extend_direct:
  assumes "dev_wf v" "file_blocks v h bl ib" "bitmap_wf fm" "numBits fm = 1024"
    "set (bl @ ib) \<subseteq> marked fm" "0 \<le> sz" "numBytes h + sz \<le> 924 * 128" "length bl \<le> 28"
  shows "\<exists>r bl' ib'. FileHeader_Extend v h fm sz = Some r \<and> ext_ok v h fm bl ib sz r bl' ib'"
proof -
  let ?T = "divRoundUp (numBytes h + sz) 128"
  have fb: "hdr_repr h" "numSectors h = int (length bl)" "0 \<le> numBytes h"
    "numSectors h = divRoundUp (numBytes h) 128" "distinct bl"
    "set bl \<subseteq> {0..<NumSectors}" "bl = take (length bl) (dataSectors h)" and ib: "ib = []"
    using assms(2,8) by (auto simp: file_blocks_def min_def split: if_splits)
  have ds: "length (dataSectors h) = 29" "list_all is_int32 (dataSectors h)"
    using fb(1) by (auto simp: hdr_repr_def)
  have T: "int (length bl) \<le> ?T" "?T \<le> 924"
    using divRoundUp_mono [of "numBytes h" "numBytes h + sz"] fb assms(6)
      divRoundUp_le [of "numBytes h + sz" 924] assms(7) by auto
  have i32: "is_int32 (numBytes h + sz)" "is_int32 ?T"
    using T fb(3) assms(6,7) by (auto simp: is_int32_def)
  define n where "n = nat (min ?T 28 - int (length bl))"
  have n: "int (length bl + n) = min ?T 28" using T(1) assms(8) by (simp add: n_def)
  then have "length bl + n \<le> 29" by linarith
  from alloc_sectors_spec [OF assms(3) this ds(1)] obtain ok ds1 xs fm1 where
    as: "alloc_sectors (int (length bl)) n h fm = Some (ok, h\<lparr>dataSectors := ds1\<rparr>, fm1)"
    and run: "bm.alloc_run fm xs fm1" and ds1: "length ds1 = 29"
      "drop (length bl + n) ds1 = drop (length bl + n) (dataSectors h)"
      and cnt: "length xs \<le> n" and full: "\<not> ok \<longrightarrow> marked fm1 = {0..<numBits fm}" and ds1': "ok \<longrightarrow> length xs = n \<and> take (length bl + n) ds1 = take (length bl) (dataSectors h) @ xs"
    by blast
  note rs = bm.alloc_run_spec [OF assms(3) run]
  have it: "nat (min ?T (29 - 1) - int (length bl)) = n" by (simp add: n_def)
  note ex = FileHeader_Extend_def [of v h fm sz, unfolded Let_def fb(2) it as]
  consider (fail) "\<not> ok" | (direct) ok "?T \<le> 28" | (indirect) ok "?T > 28" by linarith
  then show ?thesis
  proof cases
    case fail
    then have "FileHeader_Extend v h fm sz = Some (False, h\<lparr>dataSectors := ds1\<rparr>, fm1, v)"
      by (simp add: ex)
    moreover have "ext_ok v h fm bl ib sz (False, h\<lparr>dataSectors := ds1\<rparr>, fm1, v) xs []"
      by (rule ext_okI [OF assms(3) run]) (use assms(1) full fail cnt n in auto)
    ultimately show ?thesis by blast
  next
    case direct
    let ?h = "h\<lparr>dataSectors := ds1, numBytes := numBytes h + sz, numSectors := ?T\<rparr>"
    have "\<not> int (length bl) + int n < ?T" using n direct(2) by linarith
    then have e: "FileHeader_Extend v h fm sz = Some (True, ?h, fm1, v)"
      using direct(1) by (simp add: ex)
    have i: "list_all is_int32 ds1"
      by (rule splice_int32 [OF _ ds1(2) ds(2), of "length bl" xs]) (use ds1' direct(1) rs assms(4) in auto)
    have "length bl + n \<le> 28" using n direct(2) by linarith
    then have "file_blocks v ?h (bl @ xs) []"
      using hdr_repr_update [OF fb(1) ds1(1) i i32] ds1' direct n fb rs assms(4-6,8) T
      by (auto simp: file_blocks_def min_absorb2)
    then have "ext_ok v h fm bl ib sz (True, ?h, fm1, v) xs []"
      by (intro ext_okI [OF assms(3) run]) (use assms(1) ib cnt n in auto)
    with e show ?thesis by blast
  next
    case indirect
    have n28: "length bl + n = 28" using n indirect(2) by linarith
    have lt: "int (length bl) + int n < ?T" using n28 indirect(2) by linarith
    have blx: "length (bl @ xs) = 28" "bl @ xs = take 28 ds1" "distinct (bl @ xs)"
      "set (bl @ xs) \<subseteq> {0..<NumSectors}" "set (bl @ xs) \<subseteq> marked fm1"
      using ds1' indirect(1) n28 fb rs assms(4,5) by auto
    have i: "list_all is_int32 ds1"
      by (rule splice_int32 [OF _ ds1(2) ds(2), of "length bl" xs]) (use ds1' indirect(1) rs assms(4) in auto)
    have wf1: "bitmap_wf fm1" "numBits fm1 = 1024" using rs assms(4) by auto
    obtain u fm2 where u: "BitMap_Find fm1 = Some (u, fm2)" using bm.find_total [OF wf1(1)] by blast
    show ?thesis
    proof (cases "u = - 1")
      case True
      let ?h2 = "h\<lparr>dataSectors := ds1[28 := - 1]\<rparr>"
      have f2: "fm2 = fm1" "marked fm1 = {0..<numBits fm1}"
        using bm.find_full [OF wf1(1)] u True by blast+
      then have "FileHeader_Extend v h fm sz = Some (False, ?h2, fm1, v)"
        using indirect(1) lt u True assms(8) by (simp add: ex Let_def)
      moreover have "ext_ok v h fm bl ib sz (False, ?h2, fm1, v) xs []"
        by (rule ext_okI [OF assms(3) run]) (use assms(1) f2 rs cnt n in auto)
      ultimately show ?thesis by blast
    next
      case False
      define k where "k = nat (?T - 28)"
      have k: "int k = ?T - 28" "k \<le> 896" "0 < k" using indirect(2) T(2) by (simp_all add: k_def)
      let ?h2 = "h\<lparr>dataSectors := ds1[28 := u]\<rparr>"
      let ?h = "?h2\<lparr>numBytes := numBytes h + sz, numSectors := ?T\<rparr>"
      from Extend_new_undirected [OF assms(1) wf1 blx(5,1,3,4,2) ds1(1) i k(2,3) u False, of h]
      obtain ok' xs' ys fm' v' where eu:
        "extend_undirected v ?h2 (Allocate_empty (FileHeader_new v)) fm2 (int k) = Some (ok', fm', v')"
        "bm.alloc_run fm1 (u # ys @ xs') fm'" "dev_wf v'" "\<forall>s \<in> marked fm1. sectors v' s = sectors v s"
        "length (ys @ xs') \<le> k + 28" "\<not> ok' \<longrightarrow> marked fm' = {0..<numBits fm1}"
        "ok' \<longrightarrow> (\<forall>h'. hdr_repr h' \<longrightarrow> dataSectors h' = ds1[28 := u] \<longrightarrow> 0 \<le> numBytes h' \<longrightarrow>
           numSectors h' = int (28 + k) \<longrightarrow> numSectors h' = divRoundUp (numBytes h') 128 \<longrightarrow>
           file_blocks v' h' ((bl @ xs) @ xs') (u # ys))"
        by blast
      have "?T - int (length bl) - int n = int k" using k(1) n28 by linarith
      then have e: "FileHeader_Extend v h fm sz = Some (ok', if ok' then ?h else ?h2, fm', v')"
        using indirect(1) lt u False assms(8) eu(1) by (simp add: ex Let_def)
      have run': "bm.alloc_run fm (xs @ u # ys @ xs') fm'"
        using run eu(2) bm.alloc_run_append by blast
      have "0 \<le> u" "u < 1024" using bm.find_hit [OF wf1(1) u False] wf1(2) by auto
      then have "list_all is_int32 (ds1[28 := u])"
        using i by (auto simp: list_all_iff is_int32_def dest!: subsetD [OF set_update_subset_insert])
      then have "hdr_repr ?h"
        using hdr_repr_update [OF fb(1) _ _ i32, of "ds1[28 := u]"] ds1(1) by simp
      then have "file_blocks v' ?h (bl @ xs @ xs') (u # ys)" if ok'
        using eu(7) that k(1) fb(3) assms(6) by simp
      then have "ext_ok v h fm bl ib sz (ok', if ok' then ?h else ?h2, fm', v') (xs @ xs') (u # ys)"
        by (intro ext_okI [OF assms(3) run' _ eu(3)]) (use eu(4-6) ib rs cnt n k(1) indirect(2) in auto)
      with e show ?thesis by blast
    qed
  qed
qed

lemma Extend_spec:
  assumes "dev_wf v" "file_blocks v h bl ib" "bitmap_wf fm" "numBits fm = 1024"
    "set (bl @ ib) \<subseteq> marked fm" "0 \<le> sz" "numBytes h + sz \<le> 924 * 128"
  shows "\<exists>r bl' ib'. FileHeader_Extend v h fm sz = Some r \<and> ext_ok v h fm bl ib sz r bl' ib'"
  using Extend_direct [OF assms] Extend_old_undirected [OF assms]
  by (cases "length bl \<le> 28") auto

lemma Allocate_spec:
  assumes "dev_wf v" "hdr_repr h" "bitmap_wf fm" "numBits fm = 1024" "0 \<le> sz" "sz \<le> 924 * 128"
    "which \<in> {DATA_FILE, DIRECTORY, ROOT}"
  obtains ok h' fm' v' bl ib where "FileHeader_Allocate v h fm sz which = Some (ok, h', fm', v')"
    "bitmap_wf fm'" "numBits fm' = 1024" "dev_wf v'" "marked fm' = marked fm \<union> set (bl @ ib)"
    "set (bl @ ib) \<inter> marked fm = {}" "\<And>s. s \<in> marked fm \<Longrightarrow> sectors v' s = sectors v s"
    "int (length (bl @ ib)) \<le> divRoundUp sz SectorSize + 29"
    "\<not> ok \<Longrightarrow> marked fm' = {0..<1024}"
    "ok \<Longrightarrow> file_blocks v' h' bl ib \<and> numBytes h' = sz \<and> ftype h' = which"
proof -
  let ?h = "h\<lparr>numBytes := 0, ftype := which, numSectors := 0\<rparr>"
  have "file_blocks v ?h [] []"
    using assms(2,7) by (auto simp: file_blocks_def hdr_repr_def is_int32_def code_type_def divRoundUp_def)
  from Extend_spec [OF assms(1) this assms(3,4), of sz] obtain ok h' fm' v' bl' ib' where
    e: "FileHeader_Allocate v h fm sz which = Some (ok, h', fm', v')"
      "ext_ok v ?h fm [] [] sz (ok, h', fm', v') bl' ib'"
    using assms(5,6) by (auto simp: FileHeader_Allocate_def)
  show ?thesis
    by (rule that [OF e(1)]) (use e(2) assms(4) in \<open>auto simp: ext_ok_def\<close>)
qed

subsection \<open>Deallocation\<close>

lemma clear_sectors_spec:
  assumes "bitmap_wf fm" "distinct ss" "set ss \<subseteq> marked fm"
  shows "\<exists>fm'. clear_sectors ss fm = Some fm' \<and> bitmap_wf fm' \<and> numBits fm' = numBits fm
    \<and> marked fm' = marked fm - set ss"
  using assms
proof (induction ss arbitrary: fm)
  case Nil
  then show ?case by simp
next
  case (Cons s ss)
  have s: "0 \<le> s" "s < numBits fm" "s \<in> marked fm" using Cons.prems(3) marked_subset [of fm] by auto
  obtain b where b: "BitMap_Clear fm s = Some b" "bitmap_wf b" "numBits b = numBits fm"
    "marked b = marked fm - {s}"
    using Clear_spec [OF Cons.prems(1) s(1,2)] .
  then have "set ss \<subseteq> marked b" using Cons.prems(2,3) by auto
  from Cons.IH [OF b(2) _ this] obtain fm' where "clear_sectors ss b = Some fm'" "bitmap_wf fm'"
    "numBits fm' = numBits b" "marked fm' = marked b - set ss"
    using Cons.prems(2) by auto
  with b s show ?case by (intro exI [of _ fm']) (auto simp: op_simps)
qed

lemma clear_undirected_eq:
  assumes "dev_wf v" "maps_to v ih ibl ix" "contents v ih ibl = concat (map int_bytes rest)"
    "\<forall>x \<in> set rest. is_int32 x" "k + n = length rest"
  shows "clear_undirected n v \<lparr>hdr = ih, seekPosition = 4 * int k\<rparr> fm = clear_sectors (drop k rest) fm"
  using assms(5)
proof (induction n arbitrary: k fm)
  case 0
  then show ?case by simp
next
  case (Suc n)
  have k: "k < length rest" using Suc.prems by simp
  have rd: "ReadAt v ih 4 (4 * int k) = Some (int_bytes (rest ! k))"
    using ReadAt_spec [OF assms(1,2), of "4 * int k" 4] take_drop_int_bytes [OF k] assms(3)
    by (simp add: nat_mult_distrib)
  have bi: "bytes_int (int_bytes (rest ! k)) = rest ! k"
    using bytes_int_bytes [of "rest ! k" "[]"] assms(4) k by simp
  have step: "clear_undirected (Suc n) v \<lparr>hdr = ih, seekPosition = 4 * int k\<rparr> fm
      = clear_sectors [rest ! k] fm \<bind> clear_undirected n v \<lparr>hdr = ih, seekPosition = 4 * int (Suc k)\<rparr>"
    by (simp add: OpenFile_Read_def rd bi add.commute del: clear_sectors.simps)
  have "drop k rest = rest ! k # drop (Suc k) rest" using k by (simp add: Cons_nth_drop_Suc)
  moreover have "clear_undirected n v \<lparr>hdr = ih, seekPosition = 4 * int (Suc k)\<rparr> m
      = clear_sectors (drop (Suc k) rest) m" for m
    by (rule Suc.IH) (use Suc.prems in simp)
  ultimately show ?case unfolding step by (simp add: Option.bind_assoc)
qed

lemma clear_sectors_append:
  "clear_sectors (xs @ ys) fm = clear_sectors xs fm \<bind> clear_sectors ys"
proof (induction xs arbitrary: fm)
  case (Cons x xs)
  have "clear_sectors (xs @ ys) = (\<lambda>m. clear_sectors xs m \<bind> clear_sectors ys)"
    by (rule ext) (rule Cons.IH)
  then show ?case by (simp add: Option.bind_assoc)
qed simp

lemma Deallocate_spec:
  assumes "dev_wf v" "file_blocks v h bl ib" "bitmap_wf fm" "set (bl @ ib) \<subseteq> marked fm" "length bl \<noteq> 28"
  shows "\<exists>fm'. FileHeader_Deallocate v h fm = Some fm' \<and> bitmap_wf fm' \<and> numBits fm' = numBits fm
    \<and> marked fm' = marked fm - set (bl @ ib)"
proof -
  have d: "distinct (bl @ ib)" using assms(2) by (simp add: file_blocks_def)
  have "FileHeader_Deallocate v h fm = clear_sectors (bl @ ib) fm"
  proof (cases "length bl < 28")
    case True
    then have "numSectors h = int (length bl)" "take (length bl) (dataSectors h) = bl" "ib = []"
      using assms(2) by (auto simp: file_blocks_def min_def)
    then show ?thesis using True by (simp add: FileHeader_Deallocate_def min_def)
  next
    case False
    then have len: "28 < length bl" using assms(5) by simp
    let ?u = "dataSectors h ! 28"
    have ib: "ib = ?u # tl ib" using assms(2) len by (cases ib) (auto simp: file_blocks_def)
    have fb: "numSectors h = int (length bl)" "take 28 (dataSectors h) = take 28 bl"
      "indirect_blocks v ?u (drop 28 bl) (tl ib)" "set (bl @ ib) \<subseteq> {0..<NumSectors}"
      using assms(2) len by (auto simp: file_blocks_def min_def)
    from fb(3) obtain ih where ih: "FileHeader_FetchFrom v ?u = Some ih" "direct_blocks ih (tl ib)"
      "contents v ih (tl ib) = concat (map int_bytes (drop 28 bl))"
      by (auto simp: indirect_blocks_def)
    have sub: "distinct (tl ib)" "set (tl ib) \<subseteq> {0..<NumSectors}"
      using d fb(4) ib by (metis distinct.simps(2) distinct_append,
          metis Un_subset_iff insert_subset list.simps(15) set_append)
    have mt: "maps_to v ih (tl ib) {}" by (rule direct_blocks_maps_to) fact+
    have i32: "\<forall>x \<in> set (drop 28 bl). is_int32 x"
      using fb(4) by (force simp: is_int32_def dest: in_set_dropD)
    have cu: "clear_undirected (length bl - 28) v \<lparr>hdr = ih, seekPosition = 0\<rparr> m
        = clear_sectors (drop 28 bl) m" for m
      using clear_undirected_eq [OF assms(1) mt ih(3) i32, of 0 "length bl - 28"] by simp
    have du: "DeallocateUndirectedBlock ih m = clear_sectors (tl ib) m" for m
      using ih(2) by (simp add: DeallocateUndirectedBlock_def direct_blocks_def)
    have "nat (int (length bl) - 28) = length bl - 28" by simp
    then have "FileHeader_Deallocate v h fm = clear_sectors (take 28 bl) fm \<bind>
        (\<lambda>m. clear_sectors (drop 28 bl) m \<bind> (\<lambda>m. clear_sectors [?u] m \<bind> clear_sectors (tl ib)))"
      using len fb(1,2) ih(1)
      by (simp add: FileHeader_Deallocate_def min_def OpenFile_new_def cu du [abs_def] Let_def
          del: clear_sectors.simps)
    also have "\<dots> = clear_sectors ((take 28 bl @ drop 28 bl) @ [?u] @ tl ib) fm"
      by (simp only: clear_sectors_append [abs_def] Option.bind_assoc)
    finally show ?thesis using ib by simp
  qed
  with clear_sectors_spec [OF assms(3) d assms(4)] show ?thesis by simp
qed

subsection \<open>The free map survives the disk\<close>

lemma length_concat_le32 [simp]: "length (concat (map le32 ws)) = 4 * length ws"
  by (induction ws) simp_all

lemma decode_words_concat: "decode_words (length ws) (concat (map le32 ws) @ bs) = ws"
  by (induction ws) simp_all

lemma WriteBack_FetchFrom_map:
  assumes "dev_wf v" "maps_to v (hdr f) bl ix" "bitmap_wf b" "bitmap_wf c" "numBits c = numBits b"
    "0 < numBits b" "numWords b * 4 \<le> numBytes (hdr f)"
  shows "\<exists>v'. BitMap_WriteBack v f b = Some v' \<and> dev_wf v' \<and> maps_to v' (hdr f) bl ix
    \<and> (\<forall>s. s \<notin> set bl \<longrightarrow> sectors v' s = sectors v s) \<and> BitMap_FetchFrom v' f c = Some b"
proof -
  let ?d = "concat (map le32 (words b))" and ?n = "numWords b * 4"
  have w: "int (length (words b)) = numWords b" "length (words c) = length (words b)"
      "numWords c = numWords b" "0 \<le> numWords b"
    using assms(3-5) by (auto simp: bitmap_wf_def)
  have "0 < numWords b"
    using assms(3,6) div_less_divRoundUp [of 0 "numBits b"] by (simp add: bitmap_wf_def)
  then have n: "0 < ?n" "0 < numBytes (hdr f)" "min ?n (numBytes (hdr f) - 0) = ?n" "nat ?n = length ?d"
    using assms(7) w(1) by auto
  obtain v' where v': "WriteAt v (hdr f) ?d ?n 0 = Some (?n, v')" "dev_wf v'" "maps_to v' (hdr f) bl ix"
    "\<And>s. s \<notin> set bl \<Longrightarrow> sectors v' s = sectors v s"
    "contents v' (hdr f) bl = overlay (contents v (hdr f) bl) 0 ?d"
    using WriteAt_spec [OF assms(1,2) order_refl n(2,1), of ?d] n w by auto
  have "ReadAt v' (hdr f) ?n 0 = Some ?d"
    using ReadAt_spec [OF v'(2,3), of 0 ?n] v'(5) n(4) by (simp add: overlay_def)
  moreover have "overlay (concat (map le32 (words c))) 0 ?d = ?d"
    using w(2) by (simp add: overlay_def)
  ultimately have "BitMap_FetchFrom v' f c = Some (c\<lparr>words := words b\<rparr>)"
    using w decode_words_concat [of "words b" "[]"] by (simp add: BitMap_FetchFrom_def)
  moreover have "c\<lparr>words := words b\<rparr> = b" using w(3) assms(5) by (cases b, cases c) simp
  ultimately show ?thesis using v' by (auto simp: BitMap_WriteBack_def)
qed

subsection \<open>Properties\<close>



text \<open>
  Creating and deleting a file leaks no space: when \<open>Allocate\<close> of a size other than 28 sectors
  succeeds, \<open>Deallocate\<close> of the header it produced succeeds, on data sectors and undirected block
  alike, and the free map marks exactly the sectors it marked before.
\<close>

lemma Allocate_Deallocate:
  assumes "dev_wf v" "hdr_repr h" "bitmap_wf fm" "numBits fm = 1024" "0 \<le> sz" "sz \<le> 924 * 128"
    "divRoundUp sz SectorSize \<noteq> 28" "which \<in> {DATA_FILE, DIRECTORY, ROOT}"
  shows "\<exists>ok h' fm' v'. FileHeader_Allocate v h fm sz which = Some (ok, h', fm', v')
     \<and> (if ok then \<exists>fm''. FileHeader_Deallocate v' h' fm' = Some fm'' \<and> bitmap_wf fm''
            \<and> marked fm'' = marked fm
        else marked fm' = {0..<1024})"
proof -
  obtain ok h' fm' v' bl ib where a: "FileHeader_Allocate v h fm sz which = Some (ok, h', fm', v')"
    "bitmap_wf fm'" "dev_wf v'" "marked fm' = marked fm \<union> set (bl @ ib)"
    "set (bl @ ib) \<inter> marked fm = {}" "\<not> ok \<Longrightarrow> marked fm' = {0..<1024}"
    "ok \<Longrightarrow> file_blocks v' h' bl ib \<and> numBytes h' = sz \<and> ftype h' = which"
    using Allocate_spec [OF assms(1-6,8)] by metis
  have "\<exists>fm''. FileHeader_Deallocate v' h' fm' = Some fm'' \<and> bitmap_wf fm'' \<and> marked fm'' = marked fm"
    if ok
  proof -
    have fb: "file_blocks v' h' bl ib" "numBytes h' = sz" using a(7) [OF that] by auto
    then have "length bl \<noteq> 28" using assms(7) by (auto simp: file_blocks_def)
    moreover have "set (bl @ ib) \<subseteq> marked fm'" using a(4) by blast
    ultimately obtain fm'' where "FileHeader_Deallocate v' h' fm' = Some fm''" "bitmap_wf fm''"
      "marked fm'' = marked fm' - set (bl @ ib)"
      using Deallocate_spec [OF a(3) fb(1) a(2)] by blast
    moreover have "marked fm' - set (bl @ ib) = marked fm" using a(4,5) by blast
    ultimately show ?thesis by simp
  qed
  then show ?thesis using a(1,6) by simp
qed

text \<open>
  \<open>Deallocate\<close> takes a file of exactly 28 sectors for one with an undirected block (the test is
  \<open>numSectors >= NumDirect - 1\<close>, while \<open>Extend\<close> adds the block only beyond 28 sectors): such a
  well-formed file, whose last table entry is not the number of a sector, aborts the kernel when it is
  removed.
\<close>

lemma Deallocate_28_aborts:
  assumes "dev_wf v" "file_blocks v h bl ib" "bitmap_wf fm" "set bl \<subseteq> marked fm" "length bl = 28"
    "dataSectors h ! 28 \<notin> {0..<NumSectors}"
  shows "FileHeader_Deallocate v h fm = None"
proof -
  have "numSectors h = 28" "take 28 (dataSectors h) = bl" "distinct bl"
    using assms(2,5) by (auto simp: file_blocks_def)
  with clear_sectors_spec [OF assms(3) _ assms(4)] assms(6) show ?thesis
    by (auto simp: FileHeader_Deallocate_def FileHeader_FetchFrom_def ReadSector_def Let_def)
qed

text \<open>
  The free map survives a restart: a bit map written to its file with \<open>WriteBack\<close> and read into a
  fresh map of the same size with \<open>FetchFrom\<close> is the same map, and only the file's sectors change.
\<close>

lemma freemap_roundtrip:
  assumes "dev_wf v" "maps_to v (hdr f) bl ix" "bitmap_wf b" "bitmap_wf c" "numBits c = numBits b"
    "0 < numBits b" "numWords b * 4 \<le> numBytes (hdr f)"
  shows "\<exists>v'. BitMap_WriteBack v f b = Some v' \<and> BitMap_FetchFrom v' f c = Some b \<and> dev_wf v'
    \<and> maps_to v' (hdr f) bl ix \<and> (\<forall>s. s \<notin> set bl \<longrightarrow> sectors v' s = sectors v s)"
  using WriteBack_FetchFrom_map [OF assms] by blast

end
