(* ===== verification/Directory.thy ===== *)
theory Directory
  imports FileHdr
begin

text \<open>
  Directories: src/code/filesys/directory.h and directory.cc. A directory is a fixed table of entries
  stored as the contents of a file, 20 bytes per entry: the flag, three bytes of padding, the sector,
  ten bytes of name and two of padding.

  Names are byte strings without the terminating zero. Only the first nine bytes of a name count
  (\<open>strncmp\<close> and \<open>strncpy\<close> are called with \<open>FileNameMaxLen\<close>): \<open>key\<close> is that prefix. The table is a
  partial map from keys to sectors (\<open>view\<close>); the locale \<open>name_table\<close> states the operations over this map.
\<close>

type_synonym cname = "byte list"

abbreviation FileNameMaxLen :: nat where "FileNameMaxLen \<equiv> 9"

subsection \<open>C strings\<close>

fun hd0 :: "byte list \<Rightarrow> byte" where
  "hd0 [] = 0"
| "hd0 (c # cs) = c"

text \<open>\<open>!strncmp(a, b, n)\<close>; a byte string is followed by zeros.\<close>

fun strneq :: "nat \<Rightarrow> byte list \<Rightarrow> byte list \<Rightarrow> bool" where
  "strneq 0 a b \<longleftrightarrow> True"
| "strneq (Suc n) a b \<longleftrightarrow> hd0 a = hd0 b \<and> (hd0 a = 0 \<or> strneq n (tl a) (tl b))"

definition streq :: "byte list \<Rightarrow> byte list \<Rightarrow> bool" where
  "streq a b \<longleftrightarrow> strneq (Suc (length b)) a b"

definition c_str :: "byte list \<Rightarrow> byte list" where
  "c_str cs = takeWhile (\<lambda>c. c \<noteq> 0) cs"

definition strncpy :: "byte list \<Rightarrow> byte list \<Rightarrow> nat \<Rightarrow> byte list" where
  "strncpy dst from n = take n (c_str from @ replicate n 0) @ drop n dst"

abbreviation dot :: cname where "dot \<equiv> [46]"
abbreviation dotdot :: cname where "dotdot \<equiv> [46, 46]"

subsection \<open>Entries and tables\<close>

record DirectoryEntry =
  inUse :: bool
  sector :: int
  ename :: "byte list"
  padding :: "byte list"

record Directory =
  tableSize :: int
  table :: "DirectoryEntry list"

definition encode_entry :: "DirectoryEntry \<Rightarrow> byte list" where
  "encode_entry e = (if inUse e then 1 else 0) # take 3 (padding e) @ int_bytes (sector e)
     @ ename e @ drop 3 (padding e)"

definition decode_entry :: "byte list \<Rightarrow> DirectoryEntry" where
  "decode_entry bs = \<lparr>inUse = (bs ! 0 \<noteq> 0), sector = bytes_int (take 4 (drop 4 bs)),
     ename = take 10 (drop 8 bs), padding = take 3 (drop 1 bs) @ take 2 (drop 18 bs)\<rparr>"

fun decode_table :: "nat \<Rightarrow> byte list \<Rightarrow> DirectoryEntry list" where
  "decode_table 0 bs = []"
| "decode_table (Suc n) bs = decode_entry (take 20 bs) # decode_table n (drop 20 bs)"

definition Directory_new :: "dev \<Rightarrow> int \<Rightarrow> Directory" where
  "Directory_new v sz = \<lparr>tableSize = sz,
     table = map (\<lambda>e. e\<lparr>inUse := False\<rparr>) (decode_table (nat sz) (map (junk v) [0..<20 * nat sz]))\<rparr>"

definition Directory_FetchFrom :: "dev \<Rightarrow> OpenFile \<Rightarrow> Directory \<Rightarrow> Directory option" where
  "Directory_FetchFrom v f d = do {
     bs \<leftarrow> ReadAt v (hdr f) (tableSize d * 20) 0;
     Some (d\<lparr>table := decode_table (length (table d))
                        (overlay (concat (map encode_entry (table d))) 0 bs)\<rparr>)
   }"

definition Directory_WriteBack :: "dev \<Rightarrow> OpenFile \<Rightarrow> Directory \<Rightarrow> dev option" where
  "Directory_WriteBack v f d = do {
     (_, v') \<leftarrow> WriteAt v (hdr f) (concat (map encode_entry (table d))) (tableSize d * 20) 0;
     Some v'
   }"

subsection \<open>Operations\<close>

fun find_entry :: "(DirectoryEntry \<Rightarrow> bool) \<Rightarrow> DirectoryEntry list \<Rightarrow> int \<Rightarrow> int" where
  "find_entry p [] i = - 1"
| "find_entry p (e # es) i = (if p e then i else find_entry p es (i + 1))"

definition FindIndex :: "Directory \<Rightarrow> cname \<Rightarrow> int" where
  "FindIndex d nm = find_entry (\<lambda>e. inUse e \<and> strneq FileNameMaxLen (ename e) nm) (table d) 0"

definition Directory_Find :: "Directory \<Rightarrow> cname \<Rightarrow> int" where
  "Directory_Find d nm =
     (let i = FindIndex d nm in if i \<noteq> - 1 then sector (table d ! nat i) else - 1)"

definition Directory_Add :: "Directory \<Rightarrow> cname \<Rightarrow> int \<Rightarrow> bool \<times> Directory" where
  "Directory_Add d nm newSector =
     (if FindIndex d nm \<noteq> - 1 then (False, d)
      else let i = find_entry (\<lambda>e. \<not> inUse e) (table d) 0 in
        if i = - 1 then (False, d)
        else (True, d\<lparr>table := (table d)[nat i := (table d ! nat i)\<lparr>inUse := True,
                ename := strncpy (ename (table d ! nat i)) nm FileNameMaxLen, sector := newSector\<rparr>]\<rparr>))"

definition Directory_Remove :: "Directory \<Rightarrow> cname \<Rightarrow> bool \<times> Directory" where
  "Directory_Remove d nm =
     (let i = FindIndex d nm in
      if i = - 1 then (False, d)
      else (True, d\<lparr>table := (table d)[nat i := (table d ! nat i)\<lparr>inUse := False\<rparr>]\<rparr>))"

text \<open>\<open>Directory::List\<close>: the lines printed, as length, data file or directory, and name.\<close>

fun list_entries :: "dev \<Rightarrow> DirectoryEntry list \<Rightarrow> (int \<times> bool \<times> cname) list option" where
  "list_entries v [] = Some []"
| "list_entries v (e # es) =
     (if inUse e then do {
        fileHdr \<leftarrow> FileHeader_FetchFrom v (sector e);
        r \<leftarrow> list_entries v es;
        Some ((FileLength fileHdr, IsDataFile fileHdr, c_str (ename e)) # r)
      } else list_entries v es)"

definition Directory_List :: "dev \<Rightarrow> Directory \<Rightarrow> (int \<times> bool \<times> cname) list option" where
  "Directory_List v d = list_entries v (table d)"

definition Directory_IsEmpty :: "Directory \<Rightarrow> bool" where
  "Directory_IsEmpty d = list_all (\<lambda>e. inUse e \<longrightarrow> streq (ename e) dot \<or> streq (ename e) dotdot) (table d)"

subsection \<open>Names and keys\<close>

definition key :: "byte list \<Rightarrow> cname" where
  "key nm = c_str (take FileNameMaxLen nm)"

lemma c_str_Nil [simp]: "c_str [] = []"
  by (simp add: c_str_def)

lemma c_str_Cons [simp]: "c_str (c # cs) = (if c = 0 then [] else c # c_str cs)"
  by (simp add: c_str_def)

lemma strneq_key: "strneq n a b \<longleftrightarrow> c_str (take n a) = c_str (take n b)"
proof (induction n a b rule: strneq.induct)
  case (2 n a b)
  then show ?case by (cases a; cases b) auto
qed simp

lemma take_all_append: "length xs = n \<Longrightarrow> take n (xs @ ys) = xs"
  by simp

lemma key_strncpy: "key (strncpy dst nm 9) = key nm"
proof -
  have tw: "c_str (take n (c_str xs @ replicate n 0)) = c_str (take n xs)" for n xs
  proof (induction n arbitrary: xs)
    case (Suc n)
    have "take n (ys @ replicate (Suc n) 0) = take n (ys @ replicate n (0::byte))" for ys :: "byte list"
      by (simp add: min_def del: replicate_Suc)
    then show ?case using Suc by (cases xs) auto
  qed simp
  have "take 9 (strncpy dst nm 9) = take 9 (c_str nm @ replicate 9 0)"
    unfolding strncpy_def by (rule take_all_append) simp
  then show ?thesis using tw [of 9 nm] by (simp only: key_def)
qed

subsection \<open>The directory as a map\<close>

definition entry_wf :: "DirectoryEntry \<Rightarrow> bool" where
  "entry_wf e \<longleftrightarrow> length (ename e) = 10 \<and> length (padding e) = 5 \<and> is_int32 (sector e)"

definition used :: "Directory \<Rightarrow> (cname \<times> int) list" where
  "used d = map (\<lambda>e. (key (ename e), sector e)) (filter inUse (table d))"

definition view :: "Directory \<Rightarrow> (cname \<rightharpoonup> int)" where
  "view d = map_of (used d)"

definition dir_wf :: "Directory \<Rightarrow> bool" where
  "dir_wf d \<longleftrightarrow> tableSize d = int (length (table d)) \<and> list_all entry_wf (table d)
     \<and> distinct (map fst (used d))"

lemma find_entry_cases:
  obtains (none) "find_entry p es i = - 1" "\<forall>e \<in> set es. \<not> p e"
    | (some) xs e ys where "es = xs @ e # ys" "p e" "\<forall>x \<in> set xs. \<not> p x"
        "find_entry p es i = i + int (length xs)"
proof -
  have "(find_entry p es i = - 1 \<and> (\<forall>e \<in> set es. \<not> p e))
    \<or> (\<exists>xs e ys. es = xs @ e # ys \<and> p e \<and> (\<forall>x \<in> set xs. \<not> p x)
         \<and> find_entry p es i = i + int (length xs))"
  proof (induction p es i rule: find_entry.induct)
    case (2 p e es i)
    show ?case
    proof (cases "p e")
      case True
      then show ?thesis by (intro disjI2 exI [of _ "[]"] exI [of _ e] exI [of _ es]) simp
    next
      case False
      with 2 consider "find_entry p es (i + 1) = - 1" "\<forall>e \<in> set es. \<not> p e"
        | xs e' ys where "es = xs @ e' # ys" "p e'" "\<forall>x \<in> set xs. \<not> p x"
            "find_entry p es (i + 1) = i + 1 + int (length xs)"
        by blast
      then show ?thesis
      proof cases
        case 1
        then show ?thesis using False by simp
      next
        case 2
        then show ?thesis using False
          by (intro disjI2 exI [of _ "e # xs"] exI [of _ e'] exI [of _ ys]) simp
      qed
    qed
  qed simp
  then show ?thesis using none some by blast
qed

lemma find_entry_first: "es = xs @ e # ys \<Longrightarrow> p e \<Longrightarrow> \<forall>x \<in> set xs. \<not> p x \<Longrightarrow>
    find_entry p es i = i + int (length xs)"
  by (induction xs arbitrary: es i) auto

lemma used_split:
  "table d = xs @ e # ys \<Longrightarrow> used d = map (\<lambda>e. (key (ename e), sector e)) (filter inUse xs)
     @ (if inUse e then [(key (ename e), sector e)] else [])
     @ map (\<lambda>e. (key (ename e), sector e)) (filter inUse ys)"
  by (simp add: used_def)

lemma FindIndex_cases:
  assumes "dir_wf d"
  obtains (absent) "FindIndex d nm = - 1" "view d (key nm) = None"
    | (present) xs e ys where "table d = xs @ e # ys" "inUse e" "key (ename e) = key nm"
        "FindIndex d nm = int (length xs)" "view d (key nm) = Some (sector e)"
proof (cases rule: find_entry_cases [of "\<lambda>e. inUse e \<and> strneq 9 (ename e) nm" "table d" 0])
  case none
  have "key nm \<notin> fst ` set (used d)"
    using none(2) by (auto simp: used_def strneq_key key_def)
  then have "view d (key nm) = None" by (simp add: view_def map_of_eq_None_iff)
  with none(1) show ?thesis using absent by (simp add: FindIndex_def)
next
  case (some xs e ys)
  then have e: "inUse e" "key (ename e) = key nm" by (auto simp: strneq_key key_def)
  then have "(key nm, sector e) \<in> set (used d)"
    using some(1) by (auto simp: used_def intro!: image_eqI [of _ _ e])
  then have "view d (key nm) = Some (sector e)"
    using assms by (simp add: view_def dir_wf_def)
  with some(1,4) e show ?thesis using present by (simp add: FindIndex_def)
qed

lemma Find_view: "dir_wf d \<Longrightarrow>
    Directory_Find d nm = (case view d (key nm) of None \<Rightarrow> - 1 | Some s \<Rightarrow> s)"
  by (cases rule: FindIndex_cases [of d nm]) (auto simp: Directory_Find_def)

lemma map_of_insert_middle:
  "k \<notin> fst ` set A \<Longrightarrow> map_of (A @ (k, s) # B) = (map_of (A @ B))(k \<mapsto> s)"
  by (induction A) (auto simp: fun_upd_twist)

lemma length_strncpy: "length dst = 10 \<Longrightarrow> length (strncpy dst nm 9) = 10"
  by (simp add: strncpy_def)

lemma Add_spec:
  assumes "dir_wf d" "is_int32 s"
  shows "if view d (key nm) = None \<and> (\<exists>e \<in> set (table d). \<not> inUse e)
    then \<exists>d'. Directory_Add d nm s = (True, d') \<and> dir_wf d' \<and> tableSize d' = tableSize d
           \<and> view d' = (view d)(key nm \<mapsto> s) \<and> length (used d') = Suc (length (used d))
    else Directory_Add d nm s = (False, d)"
proof (cases "view d (key nm) = None")
  case False
  then have "FindIndex d nm \<noteq> - 1" by (cases rule: FindIndex_cases [OF assms(1), of nm]) auto
  then show ?thesis using False by (simp add: Directory_Add_def)
next
  case True
  then have fi: "FindIndex d nm = - 1" by (cases rule: FindIndex_cases [OF assms(1), of nm]) auto
  show ?thesis
  proof (cases rule: find_entry_cases [of "\<lambda>e. \<not> inUse e" "table d" 0])
    case none
    then show ?thesis using fi by (auto simp: Directory_Add_def Let_def)
  next
    case (some xs e ys)
    let ?e = "e\<lparr>inUse := True, ename := strncpy (ename e) nm 9, sector := s\<rparr>"
    let ?d = "d\<lparr>table := xs @ ?e # ys\<rparr>"
    have run: "Directory_Add d nm s = (True, ?d)"
      using fi some(1,4) by (simp add: Directory_Add_def Let_def)
    let ?f = "\<lambda>e. (key (ename e), sector e)"
    define A B where "A = map ?f (filter inUse xs)" and "B = map ?f (filter inUse ys)"
    have u: "used d = A @ B" "used ?d = A @ (key nm, s) # B"
      using some(1,2) by (simp_all add: used_def A_def B_def key_strncpy)
    have new: "key nm \<notin> fst ` set (A @ B)"
      using True by (auto simp: view_def u(1) map_of_eq_None_iff simp del: map_of_append)
    then have "dir_wf ?d"
      using assms some(1) u by (auto simp: dir_wf_def entry_wf_def length_strncpy)
    moreover have "view ?d = (view d)(key nm \<mapsto> s)"
      using new by (simp only: view_def u) (rule map_of_insert_middle, auto)
    moreover have "\<exists>e \<in> set (table d). \<not> inUse e" using some by auto
    ultimately show ?thesis using True run u by auto
  qed
qed

lemma Remove_spec:
  assumes "dir_wf d"
  shows "if view d (key nm) = None then Directory_Remove d nm = (False, d)
    else \<exists>d'. Directory_Remove d nm = (True, d') \<and> dir_wf d' \<and> tableSize d' = tableSize d
           \<and> view d' = (view d)(key nm := None) \<and> (\<exists>e \<in> set (table d'). \<not> inUse e)
           \<and> length (used d) = Suc (length (used d'))"
  using assms
proof (cases rule: FindIndex_cases [where nm = nm])
  case absent
  then show ?thesis by (simp add: Directory_Remove_def Let_def)
next
  case (present xs e ys)
  let ?d = "d\<lparr>table := xs @ e\<lparr>inUse := False\<rparr> # ys\<rparr>"
  have run: "Directory_Remove d nm = (True, ?d)"
    using present(1,4) by (simp add: Directory_Remove_def Let_def)
  let ?f = "\<lambda>e. (key (ename e), sector e)"
  define A B where "A = map ?f (filter inUse xs)" and "B = map ?f (filter inUse ys)"
  have u: "used ?d = A @ B" "used d = A @ (key nm, sector e) # B"
    using present(1-3) by (simp_all add: used_def A_def B_def)
  have dist: "distinct (map fst (A @ B))" "key nm \<notin> fst ` set (A @ B)"
    using assms u(2) by (auto simp: dir_wf_def)
  then have wf: "dir_wf ?d" using assms present(1) u(1) by (auto simp: dir_wf_def entry_wf_def)
  have "view d = (map_of (A @ B))(key nm \<mapsto> sector e)"
    using dist(2) by (simp only: view_def u) (rule map_of_insert_middle, auto)
  moreover have "map_of (A @ B) (key nm) = None"
    using dist(2) by (simp only: map_of_eq_None_iff) simp
  ultimately have "view ?d = (view d)(key nm := None)"
    by (simp only: view_def u(1) fun_upd_upd fun_upd_idem)
  with wf show ?thesis using run present(5) u by auto
qed

subsection \<open>The interface of a name table\<close>

text \<open>
  What the file system relies on: a bounded table of bindings. \<open>dir_op\<close> are the operations, \<open>spec_op\<close>
  their meaning on a map with at most \<open>cap\<close> bindings; \<open>run\<close> performs a sequence of operations on the
  table and collects the results.
\<close>

datatype 'n dir_op = DAdd 'n int | DRemove 'n

fun spec_op :: "('n \<Rightarrow> 'k) \<Rightarrow> int \<Rightarrow> 'n dir_op \<Rightarrow> ('k \<rightharpoonup> int) \<Rightarrow> bool \<times> ('k \<rightharpoonup> int)" where
  "spec_op k c (DAdd n s) m =
     (if m (k n) = None \<and> int (card (dom m)) < c then (True, m(k n \<mapsto> s)) else (False, m))"
| "spec_op k c (DRemove n) m = (if m (k n) = None then (False, m) else (True, m(k n := None)))"

fun spec_run :: "('n \<Rightarrow> 'k) \<Rightarrow> int \<Rightarrow> 'n dir_op list \<Rightarrow> ('k \<rightharpoonup> int) \<Rightarrow> bool list \<times> ('k \<rightharpoonup> int)" where
  "spec_run k c [] m = ([], m)"
| "spec_run k c (x # xs) m =
     (let (b, m') = spec_op k c x m; (bs, m'') = spec_run k c xs m' in (b # bs, m''))"

locale name_table =
  fixes inv :: "'d \<Rightarrow> bool"
    and cap :: "'d \<Rightarrow> int"
    and vw :: "'d \<Rightarrow> ('k \<rightharpoonup> int)"
    and nkey :: "'n \<Rightarrow> 'k"
    and find :: "'d \<Rightarrow> 'n \<Rightarrow> int"
    and add :: "'d \<Rightarrow> 'n \<Rightarrow> int \<Rightarrow> bool \<times> 'd"
    and remove :: "'d \<Rightarrow> 'n \<Rightarrow> bool \<times> 'd"
  assumes find_vw: "inv d \<Longrightarrow> find d n = (case vw d (nkey n) of None \<Rightarrow> - 1 | Some s \<Rightarrow> s)"
    and add_vw: "inv d \<Longrightarrow> is_int32 s \<Longrightarrow> add d n s = (b, d') \<Longrightarrow>
      inv d' \<and> cap d' = cap d \<and> (b, vw d') = spec_op nkey (cap d) (DAdd n s) (vw d)"
    and remove_vw: "inv d \<Longrightarrow> remove d n = (b, d') \<Longrightarrow>
      inv d' \<and> cap d' = cap d \<and> (b, vw d') = spec_op nkey (cap d) (DRemove n) (vw d)"
begin

fun perform :: "'n dir_op \<Rightarrow> 'd \<Rightarrow> bool \<times> 'd" where
  "perform (DAdd n s) d = add d n s"
| "perform (DRemove n) d = remove d n"

fun run :: "'n dir_op list \<Rightarrow> 'd \<Rightarrow> bool list \<times> 'd" where
  "run [] d = ([], d)"
| "run (x # xs) d = (let (b, d') = perform x d; (bs, d'') = run xs d' in (b # bs, d''))"

fun op_ok :: "'n dir_op \<Rightarrow> bool" where
  "op_ok (DAdd n s) = is_int32 s"
| "op_ok (DRemove n) = True"

lemma perform_refines:
  assumes "inv d" "op_ok x" "perform x d = (b, d')"
  shows "inv d' \<and> cap d' = cap d \<and> (b, vw d') = spec_op nkey (cap d) x (vw d)"
proof (cases x)
  case (DAdd n s)
  then show ?thesis using add_vw [of d s n b d'] assms by simp
next
  case (DRemove n)
  then show ?thesis using remove_vw [of d n b d'] assms by simp
qed

lemma run_refines:
  assumes "inv d" "list_all op_ok xs" "run xs d = (bs, d')"
  shows "inv d' \<and> cap d' = cap d \<and> (bs, vw d') = spec_run nkey (cap d) xs (vw d)"
  using assms
proof (induction xs arbitrary: d bs)
  case (Cons x xs)
  obtain b d1 where p: "perform x d = (b, d1)" by fastforce
  obtain bs1 where r: "run xs d1 = (bs1, d')" "bs = b # bs1"
    using Cons.prems(3) p by (auto simp: Let_def split: prod.splits)
  have x: "op_ok x" "list_all op_ok xs" using Cons.prems(2) by auto
  note step = perform_refines [OF Cons.prems(1) x(1) p]
  then have "inv d1" by simp
  from Cons.IH [OF this x(2) r(1)] step r(2) show ?case by (auto simp: Let_def split: prod.splits)
qed simp

lemma add_then_find:
  assumes "inv d" "is_int32 s" "add d n s = (True, d')"
  shows "find d' m = (if nkey m = nkey n then s else find d m)"
proof -
  note r = add_vw [OF assms]
  then have "inv d'" by simp
  then show ?thesis
    unfolding find_vw [OF \<open>inv d'\<close>] find_vw [OF assms(1)] using r by (auto split: if_splits)
qed

lemma remove_then_find:
  assumes "inv d" "remove d n = (True, d')"
  shows "find d' m = (if nkey m = nkey n then - 1 else find d m)"
proof -
  note r = remove_vw [OF assms]
  then have "inv d'" by simp
  then show ?thesis
    unfolding find_vw [OF \<open>inv d'\<close>] find_vw [OF assms(1)] using r by (auto split: if_splits)
qed

end

lemma card_dom_view: "dir_wf d \<Longrightarrow> card (dom (view d)) = length (used d)"
  by (simp add: view_def dom_map_of_conv_image_fst dir_wf_def distinct_card flip: set_map)

lemma free_slot_iff:
  assumes "dir_wf d"
  shows "(\<exists>e \<in> set (table d). \<not> inUse e) \<longleftrightarrow> int (card (dom (view d))) < tableSize d"
proof -
  have "length (filter inUse es) < length es \<longleftrightarrow> (\<exists>e \<in> set es. \<not> inUse e)" for es :: "DirectoryEntry list"
    by (metis filter_True length_filter_less linorder_neq_iff)
  then show ?thesis
    unfolding card_dom_view [OF assms] using assms by (simp add: used_def dir_wf_def)
qed

interpretation dir: name_table dir_wf tableSize view key Directory_Find Directory_Add Directory_Remove
proof (unfold_locales, goal_cases)
  case (1 d n)
  then show ?case by (rule Find_view)
next
  case (2 d s n b d')
  then show ?case
    using Add_spec [OF 2(1,2), of n] free_slot_iff [OF 2(1)] by (auto split: if_splits)
next
  case (3 d n b d')
  then show ?case using Remove_spec [OF 3(1), of n] by (auto split: if_splits)
qed

subsection \<open>Directories on disk\<close>

lemma length_encode_entry [simp]: "entry_wf e \<Longrightarrow> length (encode_entry e) = 20"
  by (simp add: encode_entry_def entry_wf_def)

lemma decode_encode_entry: "entry_wf e \<Longrightarrow> decode_entry (encode_entry e) = e"
proof -
  assume e: "entry_wf e"
  then have "length (take 3 (padding e)) = 3" "length (ename e) = 10" "length (drop 3 (padding e)) = 2"
    by (simp_all add: entry_wf_def)
  moreover have "take 3 (padding e) @ drop 3 (padding e) = padding e" by simp
  moreover have "bytes_int (int_bytes (sector e)) = sector e"
    using e bytes_int_bytes [of "sector e" "[]"] by (simp add: entry_wf_def)
  ultimately show ?thesis by (cases e) (simp add: decode_entry_def encode_entry_def)
qed

lemma decode_entry_wf: "length bs = 20 \<Longrightarrow> entry_wf (decode_entry bs)"
  by (simp add: decode_entry_def entry_wf_def bytes_int_range)

lemma length_concat_entries [simp]:
  "list_all entry_wf es \<Longrightarrow> length (concat (map encode_entry es)) = 20 * length es"
  by (induction es) simp_all

lemma decode_table_concat:
  "list_all entry_wf es \<Longrightarrow> decode_table (length es) (concat (map encode_entry es) @ bs) = es"
  by (induction es) (simp_all add: decode_encode_entry)

lemma length_decode_table [simp]: "length (decode_table n bs) = n"
  by (induction n bs rule: decode_table.induct) simp_all

lemma decode_table_wf: "20 * n \<le> length bs \<Longrightarrow> list_all entry_wf (decode_table n bs)"
  by (induction n bs rule: decode_table.induct) (simp_all add: decode_entry_wf)

lemma Directory_new_wf [wf_intros]:
  assumes "0 \<le> n"
  shows "dir_wf (Directory_new v n)" and "view (Directory_new v n) = Map.empty"
    and "tableSize (Directory_new v n) = n"
proof -
  let ?t = "decode_table (nat n) (map (junk v) [0..<20 * nat n])"
  have u: "used (Directory_new v n) = []" by (simp add: used_def Directory_new_def filter_empty_conv)
  have "list_all entry_wf ?t" by (rule decode_table_wf) simp
  then have "list_all entry_wf (map (\<lambda>e. e\<lparr>inUse := False\<rparr>) ?t)"
    by (auto simp: list_all_iff entry_wf_def)
  then show "dir_wf (Directory_new v n)" using assms u by (simp add: dir_wf_def) (simp add: Directory_new_def)
  show "view (Directory_new v n) = Map.empty" using u by (simp add: view_def)
  show "tableSize (Directory_new v n) = n" by (simp add: Directory_new_def)
qed

lemma WriteBack_FetchFrom_dir:
  assumes "dev_wf v" "maps_to v (hdr f) bl ix" "dir_wf d" "dir_wf c" "tableSize c = tableSize d"
    "0 < tableSize d" "tableSize d * 20 \<le> numBytes (hdr f)"
  shows "\<exists>v'. Directory_WriteBack v f d = Some v' \<and> dev_wf v' \<and> maps_to v' (hdr f) bl ix
    \<and> junk v' = junk v \<and> (\<forall>s. s \<notin> set bl \<longrightarrow> sectors v' s = sectors v s)
    \<and> Directory_FetchFrom v' f c = Some d"
proof -
  let ?d = "concat (map encode_entry (table d))" and ?n = "tableSize d * 20"
  have w: "int (length (table d)) = tableSize d" "length (table c) = length (table d)"
      "list_all entry_wf (table d)" "list_all entry_wf (table c)"
    using assms(3-5) by (auto simp: dir_wf_def)
  then have n: "0 < ?n" "0 < numBytes (hdr f)" "min ?n (numBytes (hdr f) - 0) = ?n" "nat ?n = length ?d"
    using assms(6,7) by auto
  obtain v' where v': "WriteAt v (hdr f) ?d ?n 0 = Some (?n, v')" "dev_wf v'" "maps_to v' (hdr f) bl ix"
    "junk v' = junk v" "\<And>s. s \<notin> set bl \<Longrightarrow> sectors v' s = sectors v s"
    "contents v' (hdr f) bl = overlay (contents v (hdr f) bl) 0 ?d"
    using WriteAt_spec [OF assms(1,2) order_refl n(2,1), of ?d] n w by auto
  have "ReadAt v' (hdr f) ?n 0 = Some ?d"
    using ReadAt_spec [OF v'(2,3), of 0 ?n] v'(6) n(4) by (simp add: overlay_def)
  moreover have "overlay (concat (map encode_entry (table c))) 0 ?d = ?d"
    using w by (simp add: overlay_def)
  ultimately have "Directory_FetchFrom v' f c = Some (c\<lparr>table := table d\<rparr>)"
    using w assms(5) decode_table_concat [of "table d" "[]"] by (simp add: Directory_FetchFrom_def)
  moreover have "c\<lparr>table := table d\<rparr> = d" using assms(5) by (cases c, cases d) simp
  ultimately show ?thesis using v' by (auto simp: Directory_WriteBack_def)
qed

subsection \<open>Properties\<close>

fun Directory_ops :: "cname dir_op list \<Rightarrow> Directory \<Rightarrow> bool list \<times> Directory" where
  "Directory_ops [] d = ([], d)"
| "Directory_ops (DAdd nm s # ops) d = (let (b, d') = Directory_Add d nm s;
     (bs, d'') = Directory_ops ops d' in (b # bs, d''))"
| "Directory_ops (DRemove nm # ops) d = (let (b, d') = Directory_Remove d nm;
     (bs, d'') = Directory_ops ops d' in (b # bs, d''))"

lemma Directory_ops_run: "Directory_ops ops d = dir.run ops d"
  by (induction ops d rule: Directory_ops.induct) (auto split: prod.splits)

text \<open>
  C34. A directory is a bounded map from names (their first nine bytes) to sectors: any sequence of
  \<open>Add\<close> and \<open>Remove\<close> on a well-formed directory returns the same results as the operations on the
  map, where adding fails exactly when the name is bound or the table is full, leaves a well-formed
  directory, and \<open>Find\<close> then returns what the map binds, or \<open>-1\<close>.
\<close>

theorem directory_refines_map:
  assumes "dir_wf d" "\<forall>nm s. DAdd nm s \<in> set ops \<longrightarrow> is_int32 s" "Directory_ops ops d = (bs, d')"
    "spec_run key (tableSize d) ops (view d) = (bs', m)"
  shows "bs = bs' \<and> dir_wf d'
    \<and> (\<forall>nm. Directory_Find d' nm = (case m (key nm) of None \<Rightarrow> - 1 | Some s \<Rightarrow> s))"
proof -
  have "list_all dir.op_ok ops"
    unfolding list_all_iff
  proof
    fix x assume x: "x \<in> set ops"
    show "dir.op_ok x" by (cases x) (use x assms(2) in simp_all)
  qed
  from dir.run_refines [OF assms(1) this assms(3) [unfolded Directory_ops_run]]
  have "dir_wf d'" "bs = bs'" "view d' = m" unfolding assms(4) by simp_all
  then show ?thesis using Find_view by auto
qed

theorem directory_refines_map_witness:
  "let ops = [DAdd [97] 5, DAdd [98] 6, DAdd [97] 7, DRemove [97], DAdd [97] 8];
       (bs, d') = Directory_ops ops (Directory_new \<lparr>sectors = (\<lambda>_. []), junk = (\<lambda>_. 3)\<rparr> 2)
   in bs = [True, True, False, True, True] \<and> Directory_Find d' [97] = 8 \<and> Directory_Find d' [99] = - 1"
proof -
  let ?ops = "[DAdd [97] 5, DAdd [98] 6, DAdd [97] 7, DRemove [97], DAdd [97] 8] :: cname dir_op list"
  let ?d = "Directory_new \<lparr>sectors = (\<lambda>_. []), junk = (\<lambda>_. 3)\<rparr> 2"
  obtain bs d' where r: "Directory_ops ?ops ?d = (bs, d')" by fastforce
  have k: "key [97] = [97]" "key [98] = [98]" "key [99] = [99]" by (simp_all add: key_def)
  have "spec_run key (tableSize ?d) ?ops (view ?d)
      = ([True, True, False, True, True], [[98] \<mapsto> 6, [97] \<mapsto> 8])"
    by (auto simp: Directory_new_wf k Let_def insert_commute)
  from directory_refines_map [OF Directory_new_wf(1) _ r this]
  have "bs = [True, True, False, True, True] \<and> Directory_Find d' [97] = 8 \<and> Directory_Find d' [99] = - 1"
    by (auto simp: k is_int32_def)
  then show ?thesis unfolding Let_def r prod.case .
qed

text \<open>
  A directory survives the disk: written to its file with \<open>WriteBack\<close> and fetched into a fresh
  table of the same size it is the same directory, entry by entry.
\<close>

lemma directory_roundtrip:
  assumes "dev_wf v" "maps_to v (hdr f) bl ix" "dir_wf d" "dir_wf c" "tableSize c = tableSize d"
    "0 < tableSize d" "tableSize d * 20 \<le> numBytes (hdr f)"
  shows "\<exists>v'. Directory_WriteBack v f d = Some v' \<and> Directory_FetchFrom v' f c = Some d
    \<and> dev_wf v' \<and> (\<forall>s. s \<notin> set bl \<longrightarrow> sectors v' s = sectors v s)"
  using WriteBack_FetchFrom_dir [OF assms] by blast

end
