(* ===== verification/FileSys.thy ===== *)
theory FileSys
  imports FileAlloc Directory
begin

text \<open>
  The file system: src/code/filesys/filesys.h and filesys.cc.

  \<open>FileSystem\<close> is the object with the disk below it. A call is run by one thread: \<open>Acquire\<close> of a lock
  that is already held never returns (\<open>None\<close>), and \<open>Release\<close> asserts that the lock is held. The free
  map and the current directory are files; every operation fetches them into fresh objects, changes
  the copies and writes them back, so an early return leaves the versions on disk as they were.
\<close>

abbreviation FreeMapSector :: int where "FreeMapSector \<equiv> 0"
abbreviation RootSector :: int where "RootSector \<equiv> 1"
abbreviation FreeMapFileSize :: int where "FreeMapFileSize \<equiv> 128"
abbreviation NumDirEntries :: int where "NumDirEntries \<equiv> 10"
abbreviation DirectoryFileSize :: int where "DirectoryFileSize \<equiv> 200"
abbreviation MaxOpenedFiles :: int where "MaxOpenedFiles \<equiv> 10"

record UserFile =
  object :: OpenFile
  id :: int
  mutex :: bool

record FileSystem =
  disk :: dev
  freeMapFile :: OpenFile
  freeMapMutex :: bool
  directoryFile :: OpenFile
  directoryMutex :: bool
  DirectorySector :: int
  openedFileMap :: BitMap
  openedFileMutex :: bool
  openedFiles :: "UserFile option list"   \<comment> \<open>\<open>None\<close>: never assigned\<close>

subsection \<open>Locks\<close>

definition Acquire_directory :: "FileSystem \<Rightarrow> FileSystem option" where
  "Acquire_directory fs = do { ASSERT (\<not> directoryMutex fs); Some (fs\<lparr>directoryMutex := True\<rparr>) }"

definition Release_directory :: "FileSystem \<Rightarrow> FileSystem option" where
  "Release_directory fs = do { ASSERT (directoryMutex fs); Some (fs\<lparr>directoryMutex := False\<rparr>) }"

definition Acquire_freeMap :: "FileSystem \<Rightarrow> FileSystem option" where
  "Acquire_freeMap fs = do { ASSERT (\<not> freeMapMutex fs); Some (fs\<lparr>freeMapMutex := True\<rparr>) }"

definition Release_freeMap :: "FileSystem \<Rightarrow> FileSystem option" where
  "Release_freeMap fs = do { ASSERT (freeMapMutex fs); Some (fs\<lparr>freeMapMutex := False\<rparr>) }"

definition Acquire_opened :: "FileSystem \<Rightarrow> FileSystem option" where
  "Acquire_opened fs = do { ASSERT (\<not> openedFileMutex fs); Some (fs\<lparr>openedFileMutex := True\<rparr>) }"

definition Release_opened :: "FileSystem \<Rightarrow> FileSystem option" where
  "Release_opened fs = do { ASSERT (openedFileMutex fs); Some (fs\<lparr>openedFileMutex := False\<rparr>) }"

text \<open>\<open>openedFiles[index]\<close> of an open file, and its lock.\<close>

definition user_file :: "FileSystem \<Rightarrow> int \<Rightarrow> UserFile option" where
  "user_file fs index = do {
     ASSERT (0 \<le> index \<and> index < MaxOpenedFiles);
     openedFiles fs ! nat index
   }"

definition set_user_file :: "FileSystem \<Rightarrow> int \<Rightarrow> UserFile \<Rightarrow> FileSystem" where
  "set_user_file fs index u = fs\<lparr>openedFiles := (openedFiles fs)[nat index := Some u]\<rparr>"

definition Acquire_file :: "FileSystem \<Rightarrow> int \<Rightarrow> FileSystem option" where
  "Acquire_file fs index = do {
     u \<leftarrow> user_file fs index;
     ASSERT (\<not> mutex u);
     Some (set_user_file fs index (u\<lparr>mutex := True\<rparr>))
   }"

definition Release_file :: "FileSystem \<Rightarrow> int \<Rightarrow> FileSystem option" where
  "Release_file fs index = do {
     u \<leftarrow> user_file fs index;
     ASSERT (mutex u);
     Some (set_user_file fs index (u\<lparr>mutex := False\<rparr>))
   }"

subsection \<open>Fetching the free map and the directory\<close>

definition word_junk :: "dev \<Rightarrow> nat \<Rightarrow> u32" where
  "word_junk v i = unle32 (map (junk v) [4 * i..<4 * i + 4])"

definition fetch_directory :: "FileSystem \<Rightarrow> Directory option" where
  "fetch_directory fs =
     Directory_FetchFrom (disk fs) (directoryFile fs) (Directory_new (disk fs) NumDirEntries)"

definition fetch_freeMap :: "FileSystem \<Rightarrow> BitMap option" where
  "fetch_freeMap fs = do {
     b \<leftarrow> BitMap_new (word_junk (disk fs)) NumSectors;
     BitMap_FetchFrom (disk fs) (freeMapFile fs) b
   }"

subsection \<open>Initialisation\<close>

definition FileSystem_format :: "dev \<Rightarrow> (OpenFile \<times> OpenFile \<times> dev) option" where
  "FileSystem_format v = do {
     freeMap \<leftarrow> BitMap_new (word_junk v) NumSectors;
     let directory = Directory_new v NumDirEntries;
     freeMap \<leftarrow> BitMap_Mark freeMap FreeMapSector;
     freeMap \<leftarrow> BitMap_Mark freeMap RootSector;
     (ok, mapHdr, freeMap, v) \<leftarrow> FileHeader_Allocate v (FileHeader_new v) freeMap FreeMapFileSize DATA_FILE;
     ASSERT ok;
     (ok, dirHdr, freeMap, v) \<leftarrow> FileHeader_Allocate v (FileHeader_new v) freeMap DirectoryFileSize ROOT;
     ASSERT ok;
     v \<leftarrow> FileHeader_WriteBack v mapHdr FreeMapSector;
     v \<leftarrow> FileHeader_WriteBack v dirHdr RootSector;
     mapFile \<leftarrow> OpenFile_new v FreeMapSector;
     dirFile \<leftarrow> OpenFile_new v RootSector;
     v \<leftarrow> BitMap_WriteBack v mapFile freeMap;
     v \<leftarrow> Directory_WriteBack v dirFile directory;
     Some (mapFile, dirFile, v)
   }"

definition FileSystem_new :: "dev \<Rightarrow> bool \<Rightarrow> FileSystem option" where
  "FileSystem_new v format = do {
     opened \<leftarrow> BitMap_new (word_junk v) 10;
     (mapFile, dirFile, v) \<leftarrow>
       (if format then FileSystem_format v
        else do {
          mapFile \<leftarrow> OpenFile_new v FreeMapSector;
          dirFile \<leftarrow> OpenFile_new v RootSector;
          Some (mapFile, dirFile, v)
        });
     Some \<lparr>disk = v, freeMapFile = mapFile, freeMapMutex = False, directoryFile = dirFile,
       directoryMutex = False, DirectorySector = RootSector, openedFileMap = opened,
       openedFileMutex = False, openedFiles = replicate (nat MaxOpenedFiles) None\<rparr>
   }"

subsection \<open>Creating files and directories\<close>

definition protected_name :: "cname \<Rightarrow> bool" where
  "protected_name nm \<longleftrightarrow> streq nm dot \<or> streq nm dotdot"

definition Create :: "FileSystem \<Rightarrow> cname \<Rightarrow> int \<Rightarrow> (bool \<times> FileSystem) option" where
  "Create fs nm initialSize =
     (if protected_name nm then Some (False, fs)
      else do {
        fs \<leftarrow> Acquire_directory fs;
        directory \<leftarrow> fetch_directory fs;
        if Directory_Find directory nm \<noteq> - 1 then do {
          fs \<leftarrow> Release_directory fs;
          Some (False, fs)
        } else do {
          fs \<leftarrow> Acquire_freeMap fs;
          freeMap \<leftarrow> fetch_freeMap fs;
          (sec, freeMap) \<leftarrow> BitMap_Find freeMap;
          if sec = - 1 then do {
            fs \<leftarrow> Release_freeMap fs;
            fs \<leftarrow> Release_directory fs;
            Some (False, fs)
          } else do {
            let (added, directory) = Directory_Add directory nm sec;
            if \<not> added then do {
              fs \<leftarrow> Release_freeMap fs;
              fs \<leftarrow> Release_directory fs;
              Some (False, fs)
            } else do {
              (ok, h, freeMap, v) \<leftarrow> FileHeader_Allocate (disk fs) (FileHeader_new (disk fs)) freeMap
                                       initialSize DATA_FILE;
              let fs = fs\<lparr>disk := v\<rparr>;
              if \<not> ok then do {
                fs \<leftarrow> Release_freeMap fs;
                fs \<leftarrow> Release_directory fs;
                Some (False, fs)
              } else do {
                v \<leftarrow> FileHeader_WriteBack (disk fs) h sec;
                v \<leftarrow> Directory_WriteBack v (directoryFile fs) directory;
                v \<leftarrow> BitMap_WriteBack v (freeMapFile fs) freeMap;
                let fs = fs\<lparr>disk := v\<rparr>;
                fs \<leftarrow> Release_freeMap fs;
                fs \<leftarrow> Release_directory fs;
                Some (True, fs)
              }
            }
          }
        }
      })"

definition CreateDir :: "FileSystem \<Rightarrow> cname \<Rightarrow> (bool \<times> FileSystem) option" where
  "CreateDir fs nm =
     (if protected_name nm then Some (False, fs)
      else do {
        fs \<leftarrow> Acquire_directory fs;
        directory \<leftarrow> fetch_directory fs;
        if Directory_Find directory nm \<noteq> - 1 then do {
          fs \<leftarrow> Release_directory fs;
          Some (False, fs)
        } else do {
          fs \<leftarrow> Acquire_freeMap fs;
          freeMap \<leftarrow> fetch_freeMap fs;
          (sec, freeMap) \<leftarrow> BitMap_Find freeMap;
          if sec = - 1 then do {
            fs \<leftarrow> Release_freeMap fs;
            fs \<leftarrow> Release_directory fs;
            Some (False, fs)
          } else do {
            (ok, dirHdr, freeMap, v) \<leftarrow> FileHeader_Allocate (disk fs) (FileHeader_new (disk fs)) freeMap
                                           DirectoryFileSize DIRECTORY;
            let fs = fs\<lparr>disk := v\<rparr>;
            if \<not> ok then do {
              fs \<leftarrow> Release_freeMap fs;
              fs \<leftarrow> Release_directory fs;
              Some (False, fs)
            } else do {
              let (added, directory) = Directory_Add directory nm sec;
              if \<not> added then do {
                fs \<leftarrow> Release_freeMap fs;
                fs \<leftarrow> Release_directory fs;
                Some (False, fs)
              } else do {
                let newDirectory = Directory_new (disk fs) NumDirEntries;
                v \<leftarrow> FileHeader_WriteBack (disk fs) dirHdr sec;
                v \<leftarrow> BitMap_WriteBack v (freeMapFile fs) freeMap;
                v \<leftarrow> Directory_WriteBack v (directoryFile fs) directory;
                newDirectoryFile \<leftarrow> OpenFile_new v sec;
                let newDirectory = snd (Directory_Add newDirectory dot sec);
                let newDirectory = snd (Directory_Add newDirectory dotdot (DirectorySector fs));
                v \<leftarrow> Directory_WriteBack v newDirectoryFile newDirectory;
                let fs = fs\<lparr>disk := v\<rparr>;
                fs \<leftarrow> Release_freeMap fs;
                fs \<leftarrow> Release_directory fs;
                Some (True, fs)
              }
            }
          }
        }
      })"

subsection \<open>Opening and closing\<close>

definition Open :: "FileSystem \<Rightarrow> cname \<Rightarrow> (OpenFile option \<times> FileSystem) option" where
  "Open fs nm = do {
     fs \<leftarrow> Acquire_directory fs;
     directory \<leftarrow> fetch_directory fs;
     let sec = Directory_Find directory nm;
     openFile \<leftarrow> (if sec \<ge> 0 then do { f \<leftarrow> OpenFile_new (disk fs) sec; Some (Some f) } else Some None);
     fs \<leftarrow> Release_directory fs;
     Some (openFile, fs)
   }"

text \<open>The loop of \<open>OpenUser\<close> and \<open>Remove\<close> that looks for \<open>sector\<close> among the open files.\<close>

fun is_opened :: "FileSystem \<Rightarrow> int \<Rightarrow> nat \<Rightarrow> bool option" where
  "is_opened fs sec 0 = Some False"
| "is_opened fs sec (Suc n) = do {
     let i = MaxOpenedFiles - int (Suc n);
     t \<leftarrow> BitMap_Test (openedFileMap fs) i;
     hit \<leftarrow> (if t then do { u \<leftarrow> user_file fs i; Some (id u = sec) } else Some False);
     if hit then Some True else is_opened fs sec n
   }"

definition OpenUser :: "FileSystem \<Rightarrow> cname \<Rightarrow> (int \<times> FileSystem) option" where
  "OpenUser fs nm = do {
     fs \<leftarrow> Acquire_directory fs;
     directory \<leftarrow> fetch_directory fs;
     let sec = Directory_Find directory nm;
     if sec < 0 then do {
       fs \<leftarrow> Release_directory fs;
       Some (- 1, fs)
     } else do {
       openFile \<leftarrow> OpenFile_new (disk fs) sec;
       fs \<leftarrow> Release_directory fs;
       fileHdr \<leftarrow> FileHeader_FetchFrom (disk fs) sec;
       if \<not> IsDataFile fileHdr then Some (- 1, fs)
       else do {
         fs \<leftarrow> Acquire_opened fs;
         dup \<leftarrow> is_opened fs sec (nat MaxOpenedFiles);
         if dup then do {
           fs \<leftarrow> Release_opened fs;
           Some (- 1, fs)
         } else do {
           (index, m) \<leftarrow> BitMap_Find (openedFileMap fs);
           let fs = fs\<lparr>openedFileMap := m\<rparr>;
           if index = - 1 then do {
             fs \<leftarrow> Release_opened fs;
             Some (- 1, fs)
           } else do {
             let fs = set_user_file fs index \<lparr>object = openFile, id = sec, mutex = False\<rparr>;
             fs \<leftarrow> Release_opened fs;
             Some (index, fs)
           }
         }
       }
     }
   }"

definition CloseUser :: "FileSystem \<Rightarrow> int \<Rightarrow> (int \<times> FileSystem) option" where
  "CloseUser fs index = do {
     fs \<leftarrow> Acquire_opened fs;
     isopen \<leftarrow> (if index < MaxOpenedFiles then BitMap_Test (openedFileMap fs) index else Some False);
     if isopen then do {
       fs \<leftarrow> Acquire_file fs index;
       m \<leftarrow> BitMap_Clear (openedFileMap fs) index;
       let fs = fs\<lparr>openedFileMap := m\<rparr>;
       fs \<leftarrow> Release_file fs index;
       fs \<leftarrow> Release_opened fs;
       Some (0, fs)
     } else do {
       fs \<leftarrow> Release_opened fs;
       Some (- 1, fs)
     }
   }"

subsection \<open>Reading, writing, seeking\<close>

definition WriteUser :: "FileSystem \<Rightarrow> byte list \<Rightarrow> int \<Rightarrow> int \<Rightarrow> (int \<times> FileSystem) option" where
  "WriteUser fs buffer sz index =
     (if index \<ge> MaxOpenedFiles then Some (- 1, fs)
      else do {
        isopen \<leftarrow> BitMap_Test (openedFileMap fs) index;
        if \<not> isopen then Some (- 1, fs)
        else do {
          fs \<leftarrow> Acquire_file fs index;
          fs \<leftarrow> Acquire_freeMap fs;
          freeMap \<leftarrow> fetch_freeMap fs;
          u \<leftarrow> user_file fs index;
          fileHdr \<leftarrow> FileHeader_FetchFrom (disk fs) (id u);
          let sizeToExtend = GetSeek (object u) + sz - GetNumBytes fileHdr;
          (ok, fileHdr, freeMap, v) \<leftarrow>
            (if sizeToExtend > 0 then FileHeader_Extend (disk fs) fileHdr freeMap sizeToExtend
             else Some (True, fileHdr, freeMap, disk fs));
          let fs = fs\<lparr>disk := v\<rparr>;
          if \<not> ok then do {
            fs \<leftarrow> Release_freeMap fs;
            fs \<leftarrow> Release_file fs index;
            Some (- 1, fs)
          } else do {
            v \<leftarrow> BitMap_WriteBack (disk fs) (freeMapFile fs) freeMap;
            v \<leftarrow> FileHeader_WriteBack v fileHdr (id u);
            let fs = fs\<lparr>disk := v\<rparr>;
            fs \<leftarrow> Release_freeMap fs;
            f \<leftarrow> OpenFile_new (disk fs) (id u);
            let f = OpenFile_Seek f (GetSeek (object u));
            (val, f, v) \<leftarrow> OpenFile_Write (disk fs) f buffer sz;
            let fs = set_user_file (fs\<lparr>disk := v\<rparr>) index (u\<lparr>object := f\<rparr>);
            fs \<leftarrow> Release_file fs index;
            Some (val, fs)
          }
        }
      })"

text \<open>\<open>ReadUser\<close>: the returned value and the bytes copied to the buffer.\<close>

definition ReadUser :: "FileSystem \<Rightarrow> int \<Rightarrow> int \<Rightarrow> (int \<times> byte list \<times> FileSystem) option" where
  "ReadUser fs sz index =
     (if index \<ge> MaxOpenedFiles then Some (- 1, [], fs)
      else do {
        isopen \<leftarrow> BitMap_Test (openedFileMap fs) index;
        if \<not> isopen then Some (- 1, [], fs)
        else do {
          fs \<leftarrow> Acquire_file fs index;
          u \<leftarrow> user_file fs index;
          (bs, f) \<leftarrow> OpenFile_Read (disk fs) (object u) sz;
          let fs = set_user_file fs index (u\<lparr>object := f\<rparr>);
          fs \<leftarrow> Release_file fs index;
          Some (int (length bs), bs, fs)
        }
      })"

definition SeekUser :: "FileSystem \<Rightarrow> int \<Rightarrow> int \<Rightarrow> (int \<times> FileSystem) option" where
  "SeekUser fs index nbBytes =
     (if index \<ge> MaxOpenedFiles then Some (- 1, fs)
      else do {
        isopen \<leftarrow> BitMap_Test (openedFileMap fs) index;
        if \<not> isopen then Some (- 1, fs)
        else do {
          fs \<leftarrow> Acquire_file fs index;
          u \<leftarrow> user_file fs index;
          ASSERT (OpenFile_Length (object u) \<noteq> 0);
          let f = OpenFile_Seek (object u) (nbBytes smod OpenFile_Length (object u));
          let fs = set_user_file fs index (u\<lparr>object := f\<rparr>);
          fs \<leftarrow> Release_file fs index;
          Some (0, fs)
        }
      })"

subsection \<open>Removing\<close>

definition Remove :: "FileSystem \<Rightarrow> cname \<Rightarrow> (bool \<times> FileSystem) option" where
  "Remove fs nm = do {
     fs \<leftarrow> Acquire_directory fs;
     directory \<leftarrow> fetch_directory fs;
     let sec = Directory_Find directory nm;
     if sec = - 1 then do {
       fs \<leftarrow> Release_directory fs;
       Some (False, fs)
     } else do {
       fileHdr \<leftarrow> FileHeader_FetchFrom (disk fs) sec;
       if \<not> IsDataFile fileHdr then do {
         fs \<leftarrow> Release_directory fs;
         Some (False, fs)
       } else do {
         fs \<leftarrow> Acquire_opened fs;
         busy \<leftarrow> is_opened fs sec (nat MaxOpenedFiles);
         if busy then do {
           fs \<leftarrow> Release_opened fs;
           fs \<leftarrow> Release_directory fs;
           Some (False, fs)
         } else do {
           fs \<leftarrow> Release_opened fs;
           fs \<leftarrow> Acquire_freeMap fs;
           freeMap \<leftarrow> fetch_freeMap fs;
           freeMap \<leftarrow> FileHeader_Deallocate (disk fs) fileHdr freeMap;
           freeMap \<leftarrow> BitMap_Clear freeMap sec;
           let directory = snd (Directory_Remove directory nm);
           v \<leftarrow> BitMap_WriteBack (disk fs) (freeMapFile fs) freeMap;
           v \<leftarrow> Directory_WriteBack v (directoryFile fs) directory;
           let fs = fs\<lparr>disk := v\<rparr>;
           fs \<leftarrow> Release_freeMap fs;
           fs \<leftarrow> Release_directory fs;
           Some (True, fs)
         }
       }
     }
   }"

definition RemoveDir :: "FileSystem \<Rightarrow> cname \<Rightarrow> (bool \<times> FileSystem) option" where
  "RemoveDir fs nm = do {
     fs \<leftarrow> Acquire_directory fs;
     directory \<leftarrow> fetch_directory fs;
     let sec = Directory_Find directory nm;
     if sec = - 1 then do {
       fs \<leftarrow> Release_directory fs;
       Some (False, fs)
     } else do {
       fileHdr \<leftarrow> FileHeader_FetchFrom (disk fs) sec;
       if \<not> IsDirectory fileHdr \<or> IsRoot fileHdr then do {
         fs \<leftarrow> Release_directory fs;
         Some (False, fs)
       } else do {
         toDeleteFile \<leftarrow> OpenFile_new (disk fs) sec;
         toDelete \<leftarrow> Directory_FetchFrom (disk fs) toDeleteFile (Directory_new (disk fs) NumDirEntries);
         if \<not> Directory_IsEmpty toDelete then do {
           fs \<leftarrow> Release_directory fs;
           Some (False, fs)
         } else do {
           fs \<leftarrow> Acquire_freeMap fs;
           freeMap \<leftarrow> fetch_freeMap fs;
           freeMap \<leftarrow> FileHeader_Deallocate (disk fs) fileHdr freeMap;
           freeMap \<leftarrow> BitMap_Clear freeMap sec;
           let directory = snd (Directory_Remove directory nm);
           v \<leftarrow> BitMap_WriteBack (disk fs) (freeMapFile fs) freeMap;
           v \<leftarrow> Directory_WriteBack v (directoryFile fs) directory;
           let fs = fs\<lparr>disk := v\<rparr>;
           fs \<leftarrow> Release_freeMap fs;
           fs \<leftarrow> Release_directory fs;
           Some (True, fs)
         }
       }
     }
   }"

subsection \<open>Paths and the current directory\<close>

abbreviation slash :: byte where "slash \<equiv> 47"

text \<open>The words that successive calls of \<open>strtok\<close> return: maximal runs without a slash.\<close>

fun strtok_words :: "byte list \<Rightarrow> byte list \<Rightarrow> cname list" where
  "strtok_words [] cur = (if cur = [] then [] else [rev cur])"
| "strtok_words (c # cs) cur =
     (if c = slash then (if cur = [] then strtok_words cs [] else rev cur # strtok_words cs [])
      else strtok_words cs (c # cur))"

text \<open>\<open>path\<close> has \<open>nbWord\<close> slots; storing more words would write outside it.\<close>

definition ParsePath :: "byte list \<Rightarrow> cname list option option" where
  "ParsePath pathName = (
     let nm = c_str pathName;
         nbWord = 1 + length (filter (\<lambda>c. c = slash) nm);
         path = strtok_words nm []
     in if nm = [] then Some None
        else do { ASSERT (length path \<le> nbWord); Some (Some path) })"

fun ChangeDirRec :: "FileSystem \<Rightarrow> OpenFile \<Rightarrow> cname list \<Rightarrow> (bool \<times> FileSystem) option" where
  "ChangeDirRec fs from [] = do {
     directory \<leftarrow> Directory_FetchFrom (disk fs) from (Directory_new (disk fs) NumDirEntries);
     Some (True, fs)
   }"
| "ChangeDirRec fs from (p # paths) = do {
     directory \<leftarrow> Directory_FetchFrom (disk fs) from (Directory_new (disk fs) NumDirEntries);
     let sec = Directory_Find directory p;
     if sec < 0 then Some (False, fs)
     else do {
       h \<leftarrow> FileHeader_FetchFrom (disk fs) sec;
       if \<not> IsDirectory h \<and> \<not> IsRoot h then Some (False, fs)
       else do {
         newDirectoryFile \<leftarrow> OpenFile_new (disk fs) sec;
         ChangeDirRec (fs\<lparr>directoryFile := newDirectoryFile, DirectorySector := sec\<rparr>)
           newDirectoryFile paths
       }
     }
   }"

definition ChangeDir :: "FileSystem \<Rightarrow> byte list \<Rightarrow> (bool \<times> FileSystem) option" where
  "ChangeDir fs nm = do {
     parsed \<leftarrow> ParsePath nm;
     case parsed of None \<Rightarrow> Some (False, fs)
     | Some path \<Rightarrow> do {
         fs \<leftarrow> Acquire_directory fs;
         tmpFile \<leftarrow> OpenFile_new (disk fs) (DirectorySector fs);
         let tmpSector = DirectorySector fs;
         (success, fs) \<leftarrow> ChangeDirRec fs (directoryFile fs) path;
         let fs = (if success then fs else fs\<lparr>directoryFile := tmpFile, DirectorySector := tmpSector\<rparr>);
         fs \<leftarrow> Release_directory fs;
         Some (success, fs)
       }
   }"

subsection \<open>Queries\<close>

definition FileExists :: "FileSystem \<Rightarrow> cname \<Rightarrow> (bool \<times> FileSystem) option" where
  "FileExists fs nm = do {
     fs \<leftarrow> Acquire_directory fs;
     directory \<leftarrow> fetch_directory fs;
     let sec = Directory_Find directory nm;
     fs \<leftarrow> Release_directory fs;
     Some (sec \<noteq> - 1, fs)
   }"

definition GetFileSize :: "FileSystem \<Rightarrow> cname \<Rightarrow> (int \<times> FileSystem) option" where
  "GetFileSize fs nm = do {
     fs \<leftarrow> Acquire_directory fs;
     directory \<leftarrow> fetch_directory fs;
     let sec = Directory_Find directory nm;
     if sec = - 1 then do {
       fs \<leftarrow> Release_directory fs;
       Some (- 1, fs)
     } else do {
       h \<leftarrow> FileHeader_FetchFrom (disk fs) sec;
       let sz = FileLength h;
       fs \<leftarrow> Release_directory fs;
       Some (sz, fs)
     }
   }"

definition FileSystem_IsDataFile :: "FileSystem \<Rightarrow> cname \<Rightarrow> (bool \<times> FileSystem) option" where
  "FileSystem_IsDataFile fs nm = do {
     fs \<leftarrow> Acquire_directory fs;
     directory \<leftarrow> fetch_directory fs;
     let sec = Directory_Find directory nm;
     if sec = - 1 then do {
       fs \<leftarrow> Release_directory fs;
       Some (False, fs)
     } else do {
       h \<leftarrow> FileHeader_FetchFrom (disk fs) sec;
       let isData = IsDataFile h;
       fs \<leftarrow> Release_directory fs;
       Some (isData, fs)
     }
   }"

definition FileSystem_List :: "FileSystem \<Rightarrow> ((int \<times> bool \<times> cname) list \<times> FileSystem) option" where
  "FileSystem_List fs = do {
     fs \<leftarrow> Acquire_directory fs;
     directory \<leftarrow> fetch_directory fs;
     out \<leftarrow> Directory_List (disk fs) directory;
     fs \<leftarrow> Release_directory fs;
     Some (out, fs)
   }"

subsection \<open>Locks are released and open files are distinct\<close>

definition unlocked :: "FileSystem \<Rightarrow> bool" where
  "unlocked fs \<longleftrightarrow> \<not> directoryMutex fs \<and> \<not> freeMapMutex fs \<and> \<not> openedFileMutex fs"

text \<open>\<open>slots\<close> is the table of open files as a map; no two slots hold the same file.\<close>

definition slots :: "FileSystem \<Rightarrow> int \<Rightarrow> UserFile option" where
  "slots fs i = (if i \<in> marked (openedFileMap fs) then openedFiles fs ! nat i else None)"

definition table_wf :: "FileSystem \<Rightarrow> bool" where
  "table_wf fs \<longleftrightarrow> bitmap_wf (openedFileMap fs) \<and> numBits (openedFileMap fs) = MaxOpenedFiles
     \<and> length (openedFiles fs) = nat MaxOpenedFiles \<and> dom (slots fs) = marked (openedFileMap fs)"

definition slots_ok :: "(int \<rightharpoonup> UserFile) \<Rightarrow> bool" where
  "slots_ok s \<longleftrightarrow> (\<forall>i u. s i = Some u \<longrightarrow> \<not> mutex u)
     \<and> (\<forall>i j u w. s i = Some u \<longrightarrow> s j = Some w \<longrightarrow> id u = id w \<longrightarrow> i = j)"

definition open_table :: "FileSystem \<Rightarrow> bool" where
  "open_table fs \<longleftrightarrow> table_wf fs \<and> slots_ok (slots fs)"

text \<open>The open-file state of an operation that only uses the disk and the current directory.\<close>

definition same_open :: "FileSystem \<Rightarrow> FileSystem \<Rightarrow> bool" where
  "same_open fs fs' \<longleftrightarrow> openedFileMap fs' = openedFileMap fs \<and> openedFiles fs' = openedFiles fs"

lemmas lock_defs = Acquire_directory_def Release_directory_def Acquire_freeMap_def Release_freeMap_def
  Acquire_opened_def Release_opened_def

lemma lock_simps [simp]:
  "Acquire_directory fs = Some fs' \<longleftrightarrow> \<not> directoryMutex fs \<and> fs' = fs\<lparr>directoryMutex := True\<rparr>"
  "Release_directory fs = Some fs' \<longleftrightarrow> directoryMutex fs \<and> fs' = fs\<lparr>directoryMutex := False\<rparr>"
  "Acquire_freeMap fs = Some fs' \<longleftrightarrow> \<not> freeMapMutex fs \<and> fs' = fs\<lparr>freeMapMutex := True\<rparr>"
  "Release_freeMap fs = Some fs' \<longleftrightarrow> freeMapMutex fs \<and> fs' = fs\<lparr>freeMapMutex := False\<rparr>"
  "Acquire_opened fs = Some fs' \<longleftrightarrow> \<not> openedFileMutex fs \<and> fs' = fs\<lparr>openedFileMutex := True\<rparr>"
  "Release_opened fs = Some fs' \<longleftrightarrow> openedFileMutex fs \<and> fs' = fs\<lparr>openedFileMutex := False\<rparr>"
  by (auto simp: lock_defs)

lemma Create_frame:
  "unlocked fs \<Longrightarrow> post (Create fs nm n) (\<lambda>(b, fs'). unlocked fs' \<and> same_open fs fs')"
  unfolding Create_def by (intro vcg; simp add: unlocked_def same_open_def)

lemma CreateDir_frame:
  "unlocked fs \<Longrightarrow> post (CreateDir fs nm) (\<lambda>(b, fs'). unlocked fs' \<and> same_open fs fs')"
  unfolding CreateDir_def by (intro vcg; simp add: unlocked_def same_open_def)

lemma Open_frame: "unlocked fs \<Longrightarrow> post (Open fs nm) (\<lambda>(b, fs'). fs' = fs)"
  unfolding Open_def by (intro vcg; simp add: unlocked_def)

lemma Remove_frame:
  "unlocked fs \<Longrightarrow> post (Remove fs nm) (\<lambda>(b, fs'). unlocked fs' \<and> same_open fs fs')"
  unfolding Remove_def by (intro vcg; simp add: unlocked_def same_open_def)

lemma RemoveDir_frame:
  "unlocked fs \<Longrightarrow> post (RemoveDir fs nm) (\<lambda>(b, fs'). unlocked fs' \<and> same_open fs fs')"
  unfolding RemoveDir_def by (intro vcg; simp add: unlocked_def same_open_def)

lemma ChangeDirRec_frame:
  "post (ChangeDirRec fs f ps) (\<lambda>(b, fs'). directoryMutex fs' = directoryMutex fs
     \<and> freeMapMutex fs' = freeMapMutex fs \<and> openedFileMutex fs' = openedFileMutex fs
     \<and> same_open fs fs' \<and> disk fs' = disk fs)"
proof (induction ps arbitrary: fs f)
  case Nil
  show ?case unfolding ChangeDirRec.simps by (intro vcg; simp add: same_open_def)
next
  case (Cons p ps)
  show ?case unfolding ChangeDirRec.simps
    by (intro vcg; use Cons.IH in \<open>fastforce simp: same_open_def post_def\<close>)
qed

lemma ChangeDir_frame:
  "unlocked fs \<Longrightarrow> post (ChangeDir fs nm) (\<lambda>(b, fs'). unlocked fs' \<and> same_open fs fs' \<and> disk fs' = disk fs)"
  unfolding ChangeDir_def
  by (intro vcg; (drule postD [OF ChangeDirRec_frame])?; auto simp: unlocked_def same_open_def)

lemma query_frames:
  assumes "unlocked fs"
  shows FileExists_frame: "post (FileExists fs nm) (\<lambda>(b, fs'). fs' = fs)"
    and GetFileSize_frame: "post (GetFileSize fs nm) (\<lambda>(n, fs'). fs' = fs)"
    and IsDataFile_frame: "post (FileSystem_IsDataFile fs nm) (\<lambda>(b, fs'). fs' = fs)"
    and List_frame: "post (FileSystem_List fs) (\<lambda>(out, fs'). fs' = fs)"
  unfolding FileExists_def GetFileSize_def FileSystem_IsDataFile_def FileSystem_List_def
  using assms by (intro vcg; simp add: unlocked_def)+

lemma user_file_Some [simp]:
  "user_file fs i = Some u \<longleftrightarrow> 0 \<le> i \<and> i < MaxOpenedFiles \<and> openedFiles fs ! nat i = Some u"
  by (auto simp: user_file_def)

lemma file_lock_simps [simp]:
  "Acquire_file fs i = Some fs' \<longleftrightarrow> (\<exists>u. user_file fs i = Some u \<and> \<not> mutex u
     \<and> fs' = set_user_file fs i (u\<lparr>mutex := True\<rparr>))"
  "Release_file fs i = Some fs' \<longleftrightarrow> (\<exists>u. user_file fs i = Some u \<and> mutex u
     \<and> fs' = set_user_file fs i (u\<lparr>mutex := False\<rparr>))"
  by (auto simp: Acquire_file_def Release_file_def bind_Some_iff)

lemma slots_range: "table_wf fs \<Longrightarrow> slots fs i = Some u \<Longrightarrow> 0 \<le> i \<and> i < 10"
  using marked_subset [of "openedFileMap fs"] by (auto simp: table_wf_def slots_def split: if_splits)

lemma slots_user_file: "table_wf fs \<Longrightarrow> slots fs i = Some u \<Longrightarrow> user_file fs i = Some u"
  using slots_range [of fs i u] by (auto simp: slots_def split: if_splits)

lemma Test_slots: "table_wf fs \<Longrightarrow> BitMap_Test (openedFileMap fs) i = Some b \<Longrightarrow> b \<longleftrightarrow> i \<in> dom (slots fs)"
  by (cases "0 \<le> i \<and> i < 10") (auto simp: table_wf_def op_simps Test_None)

lemma slots_set:
  assumes "table_wf fs" "i \<in> dom (slots fs)"
  shows "slots (set_user_file fs i u) = (slots fs)(i \<mapsto> u)" "table_wf (set_user_file fs i u)"
proof -
  have i: "i \<in> marked (openedFileMap fs)" using assms by (simp add: table_wf_def)
  have rng: "0 \<le> j \<and> j < 10" if "j \<in> marked (openedFileMap fs)" for j
    using assms(1) that marked_subset [of "openedFileMap fs"] by (auto simp: table_wf_def)
  show sl: "slots (set_user_file fs i u) = (slots fs)(i \<mapsto> u)"
  proof
    fix j
    show "slots (set_user_file fs i u) j = ((slots fs)(i \<mapsto> u)) j"
      using assms(1) i rng [OF i] rng [of j]
      by (auto simp: slots_def set_user_file_def table_wf_def nth_list_update eq_nat_nat_iff)
  qed
  show "table_wf (set_user_file fs i u)"
    using assms i unfolding table_wf_def sl by (auto simp: set_user_file_def)
qed

lemma slots_alloc:
  assumes "table_wf fs" "BitMap_Find (openedFileMap fs) = Some (k, m)" "k \<noteq> - 1"
  shows "slots (set_user_file (fs\<lparr>openedFileMap := m\<rparr>) k u) = (slots fs)(k \<mapsto> u)"
    "table_wf (set_user_file (fs\<lparr>openedFileMap := m\<rparr>) k u)" "slots fs k = None"
proof -
  have wf: "bitmap_wf (openedFileMap fs)" using assms(1) by (simp add: table_wf_def)
  note hit = bm.find_hit [OF wf assms(2,3)]
  have rng: "0 \<le> j \<and> j < 10" if "j \<in> marked (openedFileMap fs)" for j
    using assms(1) that marked_subset [of "openedFileMap fs"] by (auto simp: table_wf_def)
  show sl: "slots (set_user_file (fs\<lparr>openedFileMap := m\<rparr>) k u) = (slots fs)(k \<mapsto> u)"
  proof
    fix j
    show "slots (set_user_file (fs\<lparr>openedFileMap := m\<rparr>) k u) j = ((slots fs)(k \<mapsto> u)) j"
      using assms(1) hit rng [of j]
      by (auto simp: slots_def set_user_file_def table_wf_def nth_list_update eq_nat_nat_iff)
  qed
  show "table_wf (set_user_file (fs\<lparr>openedFileMap := m\<rparr>) k u)"
    using assms(1) hit unfolding table_wf_def sl by (auto simp: set_user_file_def)
  show "slots fs k = None" using hit by (simp add: slots_def)
qed

lemma slots_clear:
  assumes "table_wf fs" "BitMap_Clear (openedFileMap fs) i = Some m"
  shows "slots (fs\<lparr>openedFileMap := m\<rparr>) = (slots fs)(i := None)" "table_wf (fs\<lparr>openedFileMap := m\<rparr>)"
proof -
  have "bitmap_wf (openedFileMap fs)" using assms(1) by (simp add: table_wf_def)
  moreover have "0 \<le> i" "i < numBits (openedFileMap fs)" using assms(2) by (auto simp: BitMap_Clear_def)
  ultimately have m: "bitmap_wf m" "numBits m = numBits (openedFileMap fs)"
    "marked m = marked (openedFileMap fs) - {i}"
    using Clear_spec [of "openedFileMap fs" i] assms(2) by (metis option.inject)+
  show sl: "slots (fs\<lparr>openedFileMap := m\<rparr>) = (slots fs)(i := None)"
    by (rule ext) (simp add: slots_def m(3))
  show "table_wf (fs\<lparr>openedFileMap := m\<rparr>)"
    using assms(1) m unfolding table_wf_def sl by auto
qed

lemma slots_cong: "same_open fs fs' \<Longrightarrow> slots fs' = slots fs \<and> table_wf fs' = table_wf fs"
proof -
  assume s: "same_open fs fs'"
  then have "slots fs' = slots fs" by (intro ext) (simp add: slots_def same_open_def)
  then show ?thesis using s by (simp add: table_wf_def same_open_def)
qed

lemma open_table_cong: "open_table fs \<Longrightarrow> same_open fs fs' \<Longrightarrow> open_table fs'"
  using slots_cong [of fs fs'] by (simp add: open_table_def)

lemma is_opened_spec:
  assumes "table_wf fs" "n \<le> 10"
  shows "is_opened fs sec n = Some (\<exists>i u. slots fs i = Some u \<and> 10 - int n \<le> i \<and> id u = sec)"
  using assms(2)
proof (induction n)
  case 0
  then show ?case using slots_range [OF assms(1)] by fastforce
next
  case (Suc n)
  let ?i = "10 - int (Suc n)"
  have i: "0 \<le> ?i" "?i < 10" using Suc.prems by linarith+
  have t: "BitMap_Test (openedFileMap fs) ?i = Some (?i \<in> dom (slots fs))"
    using i assms(1) by (simp add: Test_eq table_wf_def)
  have split: "?i \<le> j \<longleftrightarrow> j = ?i \<or> 10 - int n \<le> j" for j by linarith
  show ?case
  proof (cases "slots fs ?i")
    case None
    then have "is_opened fs sec (Suc n) = is_opened fs sec n"
      using t by (auto simp: Let_def dom_def simp del: of_nat_Suc)
    with Suc None show ?thesis unfolding split by (auto simp del: of_nat_Suc)
  next
    case (Some u)
    then have "is_opened fs sec (Suc n) = (if id u = sec then Some True else is_opened fs sec n)"
      using t slots_user_file [OF assms(1) Some] by (auto simp: Let_def dom_def simp del: of_nat_Suc user_file_Some)
    with Suc Some show ?thesis unfolding split by (auto simp del: of_nat_Suc)
  qed
qed

lemma is_opened_all:
  "table_wf fs \<Longrightarrow> is_opened fs sec 10 = Some (\<exists>i u. slots fs i = Some u \<and> id u = sec)"
  using is_opened_spec [of fs 10 sec] slots_range [of fs] by auto

lemma slots_fields [simp]:
  "slots (fs\<lparr>disk := v\<rparr>) = slots fs" "slots (fs\<lparr>freeMapMutex := b\<rparr>) = slots fs"
  "slots (fs\<lparr>directoryMutex := b\<rparr>) = slots fs" "slots (fs\<lparr>openedFileMutex := b\<rparr>) = slots fs"
  "table_wf (fs\<lparr>disk := v\<rparr>) = table_wf fs" "table_wf (fs\<lparr>freeMapMutex := b\<rparr>) = table_wf fs"
  "table_wf (fs\<lparr>directoryMutex := b\<rparr>) = table_wf fs" "table_wf (fs\<lparr>openedFileMutex := b\<rparr>) = table_wf fs"
  using slots_cong [of fs "fs\<lparr>disk := v\<rparr>"] slots_cong [of fs "fs\<lparr>freeMapMutex := b\<rparr>"]
    slots_cong [of fs "fs\<lparr>directoryMutex := b\<rparr>"] slots_cong [of fs "fs\<lparr>openedFileMutex := b\<rparr>"]
  by (simp_all add: same_open_def)

lemma set_user_file_fields [simp]:
  "disk (set_user_file fs i u) = disk fs" "directoryMutex (set_user_file fs i u) = directoryMutex fs"
  "freeMapMutex (set_user_file fs i u) = freeMapMutex fs"
  "openedFileMutex (set_user_file fs i u) = openedFileMutex fs"
  "openedFileMap (set_user_file fs i u) = openedFileMap fs"
  "freeMapFile (set_user_file fs i u) = freeMapFile fs"
  "directoryFile (set_user_file fs i u) = directoryFile fs"
  "DirectorySector (set_user_file fs i u) = DirectorySector fs"
  "openedFiles (set_user_file fs i u) = (openedFiles fs)[nat i := Some u]"
  by (simp_all add: set_user_file_def)

lemma user_file_set [simp]:
  "0 \<le> i \<Longrightarrow> i < 10 \<Longrightarrow> length (openedFiles fs) = 10 \<Longrightarrow> (openedFiles fs)[nat i := Some u] ! nat i = Some u"
  by simp

lemma slots_ok_insert: "slots_ok s \<Longrightarrow> \<not> mutex u \<Longrightarrow>
    (\<And>j w. s j = Some w \<Longrightarrow> id w = id u \<Longrightarrow> j = i) \<Longrightarrow> slots_ok (s(i \<mapsto> u))"
  unfolding slots_ok_def by (auto split: if_splits)

lemma slots_ok_delete: "slots_ok s \<Longrightarrow> slots_ok (s(i := None))"
  unfolding slots_ok_def by (auto split: if_splits)

lemma OpenUser_frame:
  assumes "unlocked fs" "open_table fs"
  shows "post (OpenUser fs nm) (\<lambda>(n, fs'). unlocked fs' \<and> open_table fs' \<and> disk fs' = disk fs)"
proof -
  have tw: "table_wf fs" "slots_ok (slots fs)" using assms(2) by (auto simp: open_table_def)
  have new: "open_table fs'"
    if "\<forall>i u. slots fs i = Some u \<longrightarrow> id u \<noteq> sec" "BitMap_Find (openedFileMap fs) = Some (k, m)" "k \<noteq> - 1"
      "openedFileMap fs' = m" "openedFiles fs' = (openedFiles fs)[nat k := Some \<lparr>object = f, id = sec, mutex = False\<rparr>]"
    for sec k m f fs'
  proof -
    let ?fs = "set_user_file (fs\<lparr>openedFileMap := m\<rparr>) k \<lparr>object = f, id = sec, mutex = False\<rparr>"
    have "slots_ok ((slots fs)(k \<mapsto> \<lparr>object = f, id = sec, mutex = False\<rparr>))"
      using tw(2) that(1) by (intro slots_ok_insert) auto
    then have "open_table ?fs" using slots_alloc [OF tw(1) that(2,3)] by (simp add: open_table_def)
    then show ?thesis by (rule open_table_cong) (simp add: same_open_def that(4,5))
  qed
  have old: "open_table fs'" if "openedFileMap fs' = openedFileMap fs" "openedFiles fs' = openedFiles fs" for fs'
    using open_table_cong [OF assms(2), of fs'] that by (simp add: same_open_def)
  have io: "is_opened fs' sec 10 = Some (\<exists>i u. slots fs i = Some u \<and> id u = sec)"
    if "openedFileMap fs' = openedFileMap fs" "openedFiles fs' = openedFiles fs" for fs' sec
    using is_opened_all [of fs' sec] tw(1) slots_cong [of fs fs'] that by (simp add: same_open_def)
  have full: "m = openedFileMap fs" if "BitMap_Find (openedFileMap fs) = Some (- 1, m)" for m
    using bm.find_full [OF _ that] tw(1) by (simp add: table_wf_def)
  show ?thesis
    unfolding OpenUser_def
    by (intro vcg; insert assms(1);
        clarsimp simp: unlocked_def io; (rule old, (simp, erule full | simp), simp | rule new, assumption+, simp_all))
qed

lemma lock_unlock_file:
  assumes "table_wf fs" "slots fs i = Some u" "\<not> mutex u"
  shows "Acquire_file fs i = Some (set_user_file fs i (u\<lparr>mutex := True\<rparr>))"
    "user_file (set_user_file fs i w) i = Some w"
    "(set_user_file (set_user_file fs i w) i w') = set_user_file fs i w'"
  using assms slots_range [OF assms(1,2)] slots_user_file [OF assms(1,2)]
  by (simp_all add: table_wf_def set_user_file_def)

lemma table_wf_frame: "openedFileMap fs' = openedFileMap fs \<Longrightarrow> openedFiles fs' = openedFiles fs \<Longrightarrow>
    slots fs' = slots fs \<and> table_wf fs' = table_wf fs"
  using slots_cong [of fs fs'] by (simp add: same_open_def)

lemma CloseUser_spec:
  assumes "unlocked fs" "open_table fs" "0 \<le> i"
  shows "\<exists>fs'. CloseUser fs i = Some (if i \<in> dom (slots fs) then 0 else - 1, fs')
    \<and> unlocked fs' \<and> open_table fs' \<and> disk fs' = disk fs \<and> slots fs' = (slots fs)(i := None)"
proof (cases "slots fs i")
  case None
  have "table_wf fs" using assms(2) by (simp add: open_table_def)
  then have "(if i < 10 then BitMap_Test (openedFileMap fs) i else Some False) = Some False"
    using None assms(3) by (auto simp: table_wf_def op_simps domIff)
  then have "CloseUser fs i = Some (- 1, fs\<lparr>openedFileMutex := False\<rparr>)"
    using assms(1) by (simp add: CloseUser_def unlocked_def lock_defs split: if_splits)
  then show ?thesis using None assms(1,2)
    by (auto simp: unlocked_def open_table_def domIff fun_upd_idem)
next
  case (Some u)
  have tw: "table_wf fs" "slots_ok (slots fs)" using assms(2) by (auto simp: open_table_def)
  have u: "\<not> mutex u" using tw(2) Some by (auto simp: slots_ok_def)
  note rng = slots_range [OF tw(1) Some]
  have t: "BitMap_Test (openedFileMap fs) i = Some True"
    using tw(1) rng Some by (auto simp: table_wf_def op_simps)
  have "bitmap_wf (openedFileMap fs)" "i < numBits (openedFileMap fs)"
    using tw(1) rng by (auto simp: table_wf_def)
  then obtain m where m: "BitMap_Clear (openedFileMap fs) i = Some m"
    using Clear_spec [of "openedFileMap fs" i] rng by blast
  let ?fs = "(set_user_file fs i (u\<lparr>mutex := False\<rparr>))\<lparr>openedFileMap := m\<rparr>"
  have "CloseUser fs i = Some (0, ?fs\<lparr>openedFileMutex := False\<rparr>)"
    using assms(1,3) t m rng u slots_user_file [OF tw(1) Some] tw(1)
    by (simp add: CloseUser_def unlocked_def lock_defs Acquire_file_def Release_file_def
        user_file_def table_wf_def set_user_file_def)
  moreover have dom: "i \<in> dom (slots fs)" using Some by auto
  note s1 = slots_set [OF tw(1) dom, of "u\<lparr>mutex := False\<rparr>"]
  have "BitMap_Clear (openedFileMap (set_user_file fs i (u\<lparr>mutex := False\<rparr>))) i = Some m" using m by simp
  note s2 = slots_clear [OF s1(2) this]
  have sl: "slots ?fs = (slots fs)(i := None)" using s2(1) s1(1) by simp
  then have "open_table ?fs" using s2(2) slots_ok_delete [OF tw(2)] by (simp add: open_table_def)
  ultimately show ?thesis
    using assms(1) dom s2(2) s1(1) sl
    by (intro exI [of _ "?fs\<lparr>openedFileMutex := False\<rparr>"]) (simp add: unlocked_def open_table_def)
qed

lemma open_table_user:
  assumes "open_table fs" "slots fs i = Some u" "id u' = id u" "\<not> mutex u'"
    "openedFileMap fs' = openedFileMap fs" "openedFiles fs' = (openedFiles fs)[nat i := Some u']"
  shows "open_table fs'" "slots fs' = (slots fs)(i \<mapsto> u')"
proof -
  have tw: "table_wf fs" "slots_ok (slots fs)" using assms(1) by (auto simp: open_table_def)
  have "slots_ok ((slots fs)(i \<mapsto> u'))"
    by (rule slots_ok_insert [OF tw(2) assms(4)]) (use tw(2) assms(2,3) in \<open>auto simp: slots_ok_def\<close>)
  moreover have "i \<in> dom (slots fs)" using assms(2) by auto
  note set = slots_set [OF tw(1) this, of u']
  ultimately have "open_table (set_user_file fs i u')" by (simp add: open_table_def)
  then show "open_table fs'" by (rule open_table_cong) (simp add: same_open_def assms(5,6))
  show "slots fs' = (slots fs)(i \<mapsto> u')"
    using table_wf_frame [of fs' "set_user_file fs i u'"] set(1) assms(5,6) by simp
qed

text \<open>The effect of an operation on one open file: its slot may change position and header.\<close>

definition file_step :: "FileSystem \<Rightarrow> int \<Rightarrow> FileSystem \<Rightarrow> bool" where
  "file_step fs i fs' \<longleftrightarrow> unlocked fs' \<and> open_table fs' \<and> dom (slots fs') = dom (slots fs)
     \<and> map_option id \<circ> slots fs' = map_option id \<circ> slots fs
     \<and> (\<forall>j. j \<noteq> i \<longrightarrow> slots fs' j = slots fs j)"

lemma file_stepI:
  assumes "open_table fs" "slots fs i = Some u" "id u' = id u" "\<not> mutex u'" "unlocked fs'"
    "openedFileMap fs' = openedFileMap fs" "openedFiles fs' = (openedFiles fs)[nat i := Some u']"
  shows "file_step fs i fs'"
  using open_table_user [OF assms(1-4,6,7)] assms(2,3,5)
  by (auto simp: file_step_def fun_eq_iff split: if_splits)

lemma file_step_refl: "unlocked fs \<Longrightarrow> open_table fs \<Longrightarrow> file_step fs i fs"
  by (simp add: file_step_def)

lemma slots_of_Test:
  "open_table fs \<Longrightarrow> BitMap_Test (openedFileMap fs) i = Some True \<Longrightarrow> user_file fs i = Some u \<Longrightarrow>
    slots fs i = Some u"
  using Test_slots [of fs i True] by (auto simp: open_table_def slots_def split: if_splits)

lemma open_table_length: "open_table fs \<Longrightarrow> length (openedFiles fs) = 10"
  by (simp add: open_table_def table_wf_def)

lemma ReadUser_frame:
  assumes "unlocked fs" "open_table fs"
  shows "post (ReadUser fs n i) (\<lambda>(r, bs, fs'). file_step fs i fs' \<and> disk fs' = disk fs)"
  unfolding ReadUser_def
  by (intro vcg; insert assms open_table_length [OF assms(2)]; (simp add: file_step_refl; fail)?;
      clarsimp; rule file_stepI [OF _ slots_of_Test]; simp add: unlocked_def)

lemma SeekUser_frame:
  assumes "unlocked fs" "open_table fs"
  shows "post (SeekUser fs i n) (\<lambda>(r, fs'). file_step fs i fs' \<and> disk fs' = disk fs)"
  unfolding SeekUser_def
  by (intro vcg; insert assms open_table_length [OF assms(2)]; (simp add: file_step_refl; fail)?;
      clarsimp; rule file_stepI [OF _ slots_of_Test]; simp add: unlocked_def)

lemma WriteUser_frame:
  assumes "unlocked fs" "open_table fs"
  shows "post (WriteUser fs buf n i) (\<lambda>(r, fs'). file_step fs i fs')"
  unfolding WriteUser_def
  by (intro vcg; insert assms open_table_length [OF assms(2)]; (simp add: file_step_refl; fail)?;
      clarsimp; rule file_stepI [OF _ slots_of_Test]; simp add: unlocked_def)

subsection \<open>Sequences of calls\<close>

text \<open>Any call of the public interface that returns, with any arguments.\<close>

inductive fs_call :: "FileSystem \<Rightarrow> FileSystem \<Rightarrow> bool" where
  create: "Create fs nm n = Some (b, fs') \<Longrightarrow> fs_call fs fs'"
| create_dir: "CreateDir fs nm = Some (b, fs') \<Longrightarrow> fs_call fs fs'"
| open_kernel: "Open fs nm = Some (f, fs') \<Longrightarrow> fs_call fs fs'"
| open_user: "OpenUser fs nm = Some (n, fs') \<Longrightarrow> fs_call fs fs'"
| close_user: "CloseUser fs i = Some (n, fs') \<Longrightarrow> fs_call fs fs'"
| write_user: "WriteUser fs buf n i = Some (r, fs') \<Longrightarrow> fs_call fs fs'"
| read_user: "ReadUser fs n i = Some (r, bs, fs') \<Longrightarrow> fs_call fs fs'"
| seek_user: "SeekUser fs i n = Some (r, fs') \<Longrightarrow> fs_call fs fs'"
| remove: "Remove fs nm = Some (b, fs') \<Longrightarrow> fs_call fs fs'"
| remove_dir: "RemoveDir fs nm = Some (b, fs') \<Longrightarrow> fs_call fs fs'"
| change_dir: "ChangeDir fs nm = Some (b, fs') \<Longrightarrow> fs_call fs fs'"
| file_exists: "FileExists fs nm = Some (b, fs') \<Longrightarrow> fs_call fs fs'"
| get_size: "GetFileSize fs nm = Some (n, fs') \<Longrightarrow> fs_call fs fs'"
| is_data: "FileSystem_IsDataFile fs nm = Some (b, fs') \<Longrightarrow> fs_call fs fs'"
| listing: "FileSystem_List fs = Some (out, fs') \<Longrightarrow> fs_call fs fs'"

inductive fs_reachable :: "dev \<Rightarrow> bool \<Rightarrow> FileSystem \<Rightarrow> bool" for v format where
  boot: "FileSystem_new v format = Some fs \<Longrightarrow> fs_reachable v format fs"
| call: "fs_reachable v format fs \<Longrightarrow> fs_call fs fs' \<Longrightarrow> fs_reachable v format fs'"

lemma new_frame: "post (FileSystem_new v format) (\<lambda>fs. unlocked fs \<and> open_table fs \<and> slots fs = Map.empty)"
proof -
  have "marked b = {} \<and> bitmap_wf b \<and> numBits b = 10" if "BitMap_new h 10 = Some b" for h b
    using new_spec [of 10 h] that by auto
  then show ?thesis
    unfolding FileSystem_new_def
    by (intro vcg; force simp: unlocked_def open_table_def table_wf_def slots_ok_def slots_def)
qed

lemma CloseUser_frame:
  assumes "unlocked fs" "open_table fs"
  shows "post (CloseUser fs i) (\<lambda>(n, fs'). unlocked fs' \<and> open_table fs')"
proof (cases "0 \<le> i")
  case True
  then show ?thesis using CloseUser_spec [OF assms True] by (auto simp: post_def)
next
  case False
  then have "CloseUser fs i = None"
    using assms(1) by (simp add: CloseUser_def unlocked_def lock_defs Test_None)
  then show ?thesis by (simp add: post_def)
qed

lemma fs_call_inv:
  assumes "fs_call fs fs'" "unlocked fs" "open_table fs"
  shows "unlocked fs' \<and> open_table fs'"
  using assms
proof (induction rule: fs_call.induct)
  case (create fs)
  then show ?case using postD [OF Create_frame [OF create(2)] create(1)] open_table_cong [OF create(3)] by simp
next
  case (create_dir fs)
  then show ?case using postD [OF CreateDir_frame [OF create_dir(2)] create_dir(1)] open_table_cong [OF create_dir(3)] by simp
next
  case (remove fs)
  then show ?case using postD [OF Remove_frame [OF remove(2)] remove(1)] open_table_cong [OF remove(3)] by simp
next
  case (remove_dir fs)
  then show ?case using postD [OF RemoveDir_frame [OF remove_dir(2)] remove_dir(1)] open_table_cong [OF remove_dir(3)] by simp
next
  case (change_dir fs)
  then show ?case using postD [OF ChangeDir_frame [OF change_dir(2)] change_dir(1)] open_table_cong [OF change_dir(3)] by simp
next
  case (open_user fs)
  then show ?case using postD [OF OpenUser_frame [OF open_user(2,3)] open_user(1)] by (simp add: file_step_def)
next
  case (close_user fs)
  then show ?case using postD [OF CloseUser_frame [OF close_user(2,3)] close_user(1)] by (simp add: file_step_def)
next
  case (write_user fs)
  then show ?case using postD [OF WriteUser_frame [OF write_user(2,3)] write_user(1)] by (simp add: file_step_def)
next
  case (read_user fs)
  then show ?case using postD [OF ReadUser_frame [OF read_user(2,3)] read_user(1)] by (simp add: file_step_def)
next
  case (seek_user fs)
  then show ?case using postD [OF SeekUser_frame [OF seek_user(2,3)] seek_user(1)] by (simp add: file_step_def)
next
  case (open_kernel fs)
  then show ?case using postD [OF Open_frame [OF open_kernel(2)] open_kernel(1)] by simp
next
  case (file_exists fs)
  then show ?case using postD [OF FileExists_frame [OF file_exists(2)] file_exists(1)] by simp
next
  case (get_size fs)
  then show ?case using postD [OF GetFileSize_frame [OF get_size(2)] get_size(1)] by simp
next
  case (is_data fs)
  then show ?case using postD [OF IsDataFile_frame [OF is_data(2)] is_data(1)] by simp
next
  case (listing fs)
  then show ?case using postD [OF List_frame [OF listing(2)] listing(1)] by simp
qed

lemma fs_reachable_inv: "fs_reachable v format fs \<Longrightarrow> unlocked fs \<and> open_table fs"
proof (induction rule: fs_reachable.induct)
  case boot then show ?case using postD [OF new_frame] by blast
next
  case call then show ?case using fs_call_inv by blast
qed

subsection \<open>Paths\<close>

lemma strtok_words_count:
  "length (strtok_words cs cur) \<le> length (filter (\<lambda>c. c = slash) cs) + 1"
  by (induction cs cur rule: strtok_words.induct) auto

lemma strtok_words_clean:
  "slash \<notin> set cur \<Longrightarrow> w \<in> set (strtok_words cs cur) \<Longrightarrow> w \<noteq> [] \<and> slash \<notin> set w"
  by (induction cs cur rule: strtok_words.induct) (auto split: if_splits)

fun join_path :: "cname list \<Rightarrow> byte list" where
  "join_path [] = []"
| "join_path [w] = w"
| "join_path (w # ws) = w @ slash # join_path ws"

lemma strtok_words_append:
  "slash \<notin> set w \<Longrightarrow> strtok_words (w @ cs) cur = strtok_words cs (rev w @ cur)"
  by (induction w arbitrary: cur) auto

lemma strtok_words_join:
  "\<forall>w \<in> set ws. w \<noteq> [] \<and> slash \<notin> set w \<Longrightarrow> strtok_words (join_path ws) [] = ws"
  by (induction ws rule: join_path.induct)
     (use strtok_words_append [where cs = "[]"] in \<open>auto simp: strtok_words_append\<close>)

lemma c_str_id: "0 \<notin> set cs \<Longrightarrow> c_str cs = cs"
  by (auto simp: c_str_def takeWhile_eq_all_conv)

lemma join_path_no_zero: "\<forall>w \<in> set ws. 0 \<notin> set w \<Longrightarrow> 0 \<notin> set (join_path ws)"
  by (induction ws rule: join_path.induct) auto

text \<open>
  \<open>ParsePath\<close> inverts joining names with slashes: it never stores more words than the array it
  allocated holds, every word it returns is non-empty and free of slashes, and the path made of such
  words parses back to exactly these words.
\<close>

lemma ParsePath_words:
  assumes "\<forall>w \<in> set ws. w \<noteq> [] \<and> slash \<notin> set w \<and> 0 \<notin> set w"
  shows "(\<exists>r. ParsePath pathName = Some r
       \<and> (\<forall>path. r = Some path \<longrightarrow> (\<forall>w \<in> set path. w \<noteq> [] \<and> slash \<notin> set w)))
    \<and> ParsePath (join_path ws) = Some (if ws = [] then None else Some ws)"
proof
  let ?n = "c_str pathName"
  have "length (strtok_words ?n []) \<le> 1 + length (filter (\<lambda>c. c = slash) ?n)"
    using strtok_words_count [of ?n "[]"] by simp
  moreover have "\<forall>w \<in> set (strtok_words ?n []). w \<noteq> [] \<and> slash \<notin> set w"
    using strtok_words_clean [of "[]"] by auto
  ultimately show "\<exists>r. ParsePath pathName = Some r
       \<and> (\<forall>path. r = Some path \<longrightarrow> (\<forall>w \<in> set path. w \<noteq> [] \<and> slash \<notin> set w))"
    by (auto simp: ParsePath_def Let_def ASSERT_def)
  have c: "c_str (join_path ws) = join_path ws"
    using join_path_no_zero [of ws] assms by (intro c_str_id) auto
  have w: "strtok_words (join_path ws) [] = ws" using assms by (intro strtok_words_join) auto
  have "join_path ws = [] \<longleftrightarrow> ws = []" using assms by (cases ws rule: join_path.cases) auto
  then show "ParsePath (join_path ws) = Some (if ws = [] then None else Some ws)"
    using strtok_words_count [of "join_path ws" "[]"] c w by (simp add: ParsePath_def Let_def)
qed

subsection \<open>Properties of the interface\<close>

text \<open>
  Whatever sequence of file system calls is made, from a fresh or a formatted disk and with any
  arguments, between calls every lock is free (each call releases what it acquired on every path that
  returns) and no file is open in two slots of the table.
\<close>

lemma fs_calls_safe:
  assumes "fs_reachable v format fs"
  shows "\<not> directoryMutex fs \<and> \<not> freeMapMutex fs \<and> \<not> openedFileMutex fs
    \<and> (\<forall>i u. slots fs i = Some u \<longrightarrow> \<not> mutex u)
    \<and> (\<forall>i j u w. slots fs i = Some u \<longrightarrow> slots fs j = Some w \<longrightarrow> id u = id w \<longrightarrow> i = j)"
  using fs_reachable_inv [OF assms] unfolding unlocked_def open_table_def slots_ok_def by blast

text \<open>
  A descriptor that is not open is refused: for an index that is not negative, reading, writing,
  seeking and closing return \<open>-1\<close> and leave the disk and the table of open files as they were.
\<close>

theorem bad_descriptor:
  assumes "unlocked fs" "open_table fs" "0 \<le> i" "slots fs i = None"
  shows "WriteUser fs buf n i = Some (- 1, fs) \<and> ReadUser fs n i = Some (- 1, [], fs)
    \<and> SeekUser fs i n = Some (- 1, fs)
    \<and> (\<exists>fs'. CloseUser fs i = Some (- 1, fs') \<and> disk fs' = disk fs \<and> slots fs' = slots fs)"
proof -
  have t: "BitMap_Test (openedFileMap fs) i = Some False" if "i < 10"
    using assms(2-4) that by (auto simp: open_table_def table_wf_def op_simps domIff)
  moreover have "\<exists>fs'. CloseUser fs i = Some (- 1, fs') \<and> disk fs' = disk fs \<and> slots fs' = slots fs"
    using CloseUser_spec [OF assms(1-3)] assms(4) by (fastforce simp: domIff fun_upd_idem)
  ultimately show ?thesis
    by (cases "i < 10") (simp_all add: WriteUser_def ReadUser_def SeekUser_def)
qed

text \<open>
  A negative descriptor is not refused but stops the kernel: only the upper bound is checked, and
  the assertion of \<open>BitMap::Test\<close> then fails, in all four calls.
\<close>

theorem negative_descriptor_aborts:
  assumes "i < 0"
  shows "WriteUser fs buf n i = None \<and> ReadUser fs n i = None \<and> SeekUser fs i n = None
    \<and> CloseUser fs i = None"
  using assms by (simp add: WriteUser_def ReadUser_def SeekUser_def CloseUser_def Test_None
      lock_defs ASSERT_def)

text \<open>
  Seeking in an empty file stops the kernel: the position is taken modulo the length of the file,
  which is 0 for every file just created with size 0.
\<close>

theorem seek_empty_aborts:
  assumes "unlocked fs" "open_table fs" "slots fs i = Some u" "OpenFile_Length (object u) = 0"
  shows "SeekUser fs i n = None"
proof -
  have tw: "table_wf fs" "slots_ok (slots fs)" using assms(2) by (auto simp: open_table_def)
  note rng = slots_range [OF tw(1) assms(3)]
  have t: "BitMap_Test (openedFileMap fs) i = Some True"
    using tw(1) rng assms(3) by (auto simp: table_wf_def op_simps)
  have "\<not> mutex u" using tw(2) assms(3) by (auto simp: slots_ok_def)
  note lk = lock_unlock_file [OF tw(1) assms(3) this]
  show ?thesis using rng t lk(1) lk(2) [of "u\<lparr>mutex := True\<rparr>"] assms(4)
    by (simp add: SeekUser_def del: user_file_Some file_lock_simps)
qed

text \<open>
  A failed change of directory leaves the file system as it was: also when the first components of
  the path were found, the current directory is restored, provided the file kept open for it is in step
  with the disk.
\<close>

lemma ChangeDir_failure_restores:
  assumes "unlocked fs" "OpenFile_new (disk fs) (DirectorySector fs) = Some (directoryFile fs)"
    "ChangeDir fs nm = Some (False, fs')"
  shows "fs' = fs"
proof -
  have rec: "post (ChangeDirRec fs f ps) (\<lambda>(b, fs').
      fs'\<lparr>directoryFile := g, DirectorySector := s\<rparr> = fs\<lparr>directoryFile := g, DirectorySector := s\<rparr>)"
    for fs f ps g s
  proof (induction ps arbitrary: fs f)
    case Nil
    show ?case unfolding ChangeDirRec.simps by (intro vcg) simp
  next
    case (Cons p ps)
    show ?case unfolding ChangeDirRec.simps
      by (intro vcg; use Cons.IH in \<open>fastforce simp: post_def\<close>)
  qed
  have "post (ChangeDir fs nm) (\<lambda>(b, fs'). \<not> b \<longrightarrow> fs' = fs)"
    unfolding ChangeDir_def
    by (intro vcg; (drule postD [OF rec [where g = "directoryFile fs" and s = "DirectorySector fs"]])?;
        insert assms(1,2); auto simp: unlocked_def)
  with assms(3) show ?thesis by (auto simp: post_def)
qed

lemma fetch_empty_directory:
  assumes "numBytes (hdr f) \<le> 0"
  shows "Directory_FetchFrom v f (Directory_new v' 10) = Some (Directory_new v' 10)"
proof -
  have "list_all entry_wf (table (Directory_new v' 10))"
    using Directory_new_wf(1) [of 10 v'] by (simp add: dir_wf_def)
  then show ?thesis
    using assms decode_table_concat [of "table (Directory_new v' 10)" "[]"]
    by (simp add: Directory_FetchFrom_def ReadAt_def ReadAt_via_def FileLength_def overlay_def)
qed

end
