(* ===== verification/FsSpace.thy ===== *)
theory FsSpace
  imports FileSys
begin

text \<open>
  Consistency of the file system on disk, over src/code/filesys/filesys.cc.

  \<open>objs\<close> lists the files and directories on the disk: it maps the sector of each header to the data
  sectors and the sectors of the undirected block. \<open>space_inv\<close> says that these sectors are disjoint and
  that the free map marks exactly the sectors in use, so no sector is shared and none is lost.
  \<open>fs_inv\<close> adds that the free map \<open>fm\<close> and the current directory \<open>D\<close> are what the two files kept open
  hold. Formatting establishes \<open>fs_inv\<close>; \<open>Create\<close>, \<open>Remove\<close> and \<open>WriteUser\<close> preserve it.
\<close>

datatype blocks = Blocks (data_bl: "int list") (index_bl: "int list")

type_synonym objects = "int \<rightharpoonup> blocks"

definition owned :: "int \<Rightarrow> blocks \<Rightarrow> int set" where
  "owned s x = insert s (set (data_bl x) \<union> set (index_bl x))"

definition obj_ok :: "dev \<Rightarrow> int \<Rightarrow> blocks \<Rightarrow> bool" where
  "obj_ok v s x \<longleftrightarrow> s \<in> {0..<NumSectors} \<and> s \<notin> set (data_bl x) \<union> set (index_bl x)
     \<and> file_blocks v (decode_hdr (sectors v s)) (data_bl x) (index_bl x)"

definition disjoint_objs :: "objects \<Rightarrow> bool" where
  "disjoint_objs objs \<longleftrightarrow> (\<forall>s t x y. objs s = Some x \<longrightarrow> objs t = Some y \<longrightarrow> s \<noteq> t \<longrightarrow>
     owned s x \<inter> owned t y = {})"

definition in_use :: "objects \<Rightarrow> int set" where
  "in_use objs = {a. \<exists>s x. objs s = Some x \<and> a \<in> owned s x}"

definition space_inv :: "dev \<Rightarrow> BitMap \<Rightarrow> objects \<Rightarrow> bool" where
  "space_inv v fm objs \<longleftrightarrow> dev_wf v \<and> bitmap_wf fm \<and> numBits fm = NumSectors
     \<and> (\<forall>s x. objs s = Some x \<longrightarrow> obj_ok v s x) \<and> disjoint_objs objs \<and> marked fm = in_use objs"

definition map_stored :: "dev \<Rightarrow> OpenFile \<Rightarrow> BitMap \<Rightarrow> bool" where
  "map_stored v f fm \<longleftrightarrow> (\<forall>c. bitmap_wf c \<longrightarrow> numBits c = NumSectors \<longrightarrow> BitMap_FetchFrom v f c = Some fm)"

definition dir_stored :: "dev \<Rightarrow> OpenFile \<Rightarrow> Directory \<Rightarrow> bool" where
  "dir_stored v f D \<longleftrightarrow> (\<forall>c. dir_wf c \<longrightarrow> tableSize c = NumDirEntries \<longrightarrow> Directory_FetchFrom v f c = Some D)"

definition fs_inv :: "FileSystem \<Rightarrow> objects \<Rightarrow> BitMap \<Rightarrow> Directory \<Rightarrow> bool" where
  "fs_inv fs objs fm D \<longleftrightarrow> space_inv (disk fs) fm objs \<and> unlocked fs
     \<and> (\<exists>bm. objs 0 = Some (Blocks bm [])) \<and> hdr (freeMapFile fs) = decode_hdr (sectors (disk fs) 0)
     \<and> numBytes (hdr (freeMapFile fs)) = 128 \<and> map_stored (disk fs) (freeMapFile fs) fm
     \<and> DirectorySector fs \<noteq> 0 \<and> (\<exists>bd. objs (DirectorySector fs) = Some (Blocks bd []))
     \<and> hdr (directoryFile fs) = decode_hdr (sectors (disk fs) (DirectorySector fs))
     \<and> IsDirectory (hdr (directoryFile fs))
     \<and> numBytes (hdr (directoryFile fs)) = 200 \<and> dir_stored (disk fs) (directoryFile fs) D
     \<and> dir_wf D \<and> tableSize D = NumDirEntries
     \<and> ran (view D) \<subseteq> dom objs - {0} \<and> inj_on (view D) (dom (view D))"

subsection \<open>What depends on which sectors\<close>

lemma FetchFrom_sector:
  "0 \<le> s \<Longrightarrow> s < NumSectors \<Longrightarrow> FileHeader_FetchFrom v s = Some (decode_hdr (sectors v s))"
  by (simp add: FileHeader_FetchFrom_def ReadSector_def)

lemma raw_contents_cong:
  "(\<And>s. s \<in> set bl \<Longrightarrow> sectors v' s = sectors v s) \<Longrightarrow> raw_contents v' bl = raw_contents v bl"
  by (auto simp: raw_contents_def intro!: arg_cong [of _ _ concat])

lemma indirect_blocks_cong:
  assumes "\<And>s. s \<in> insert u (set ibl) \<Longrightarrow> sectors v' s = sectors v s"
  shows "indirect_blocks v' u rest ibl = indirect_blocks v u rest ibl"
  using assms raw_contents_cong [of ibl v' v]
  by (simp add: indirect_blocks_def contents_def FileHeader_FetchFrom_def ReadSector_def bind_Some_iff)

lemma file_blocks_cong:
  assumes "\<And>s. s \<in> set ib \<Longrightarrow> sectors v' s = sectors v s"
  shows "file_blocks v' h bl ib = file_blocks v h bl ib"
proof -
  have "indirect_blocks v' (hd ib) (drop 28 bl) (tl ib) = indirect_blocks v (hd ib) (drop 28 bl) (tl ib)"
    if "ib \<noteq> []"
    by (rule indirect_blocks_cong) (use assms that in \<open>cases ib; auto\<close>)
  then show ?thesis unfolding file_blocks_def by (auto split: if_splits)
qed

lemma obj_ok_cong:
  assumes "\<And>t. t \<in> insert s (set (index_bl x)) \<Longrightarrow> sectors v' t = sectors v t"
  shows "obj_ok v' s x = obj_ok v s x"
  using file_blocks_cong [of "index_bl x" v' v] assms by (simp add: obj_ok_def)

lemma ReadAt_cong:
  assumes "dev_wf v" "dev_wf v'" "maps_to v h bl ix" "0 \<le> p"
    "\<And>s. s \<in> set bl \<union> ix \<Longrightarrow> sectors v' s = sectors v s"
  shows "ReadAt v' h n p = ReadAt v h n p"
proof -
  have "maps_to v' h bl ix" using assms(3) by (rule maps_to_cong) (use assms(5) in auto)
  moreover have "contents v' h bl = contents v h bl"
    using raw_contents_cong [of bl v' v] assms(5) by (simp add: contents_def)
  ultimately show ?thesis
    using ReadAt_spec [OF assms(2)] ReadAt_spec [OF assms(1,3)] assms(4) by metis
qed

lemma map_stored_cong:
  assumes "dev_wf v" "dev_wf v'" "maps_to v (hdr f) bl ix" "map_stored v f fm"
    "\<And>s. s \<in> set bl \<union> ix \<Longrightarrow> sectors v' s = sectors v s"
  shows "map_stored v' f fm"
  using assms(4) ReadAt_cong [OF assms(1-3) order_refl assms(5)]
  by (simp add: map_stored_def BitMap_FetchFrom_def)

lemma dir_stored_cong:
  assumes "dev_wf v" "dev_wf v'" "maps_to v (hdr f) bl ix" "dir_stored v f D"
    "\<And>s. s \<in> set bl \<union> ix \<Longrightarrow> sectors v' s = sectors v s"
  shows "dir_stored v' f D"
  using assms(4) ReadAt_cong [OF assms(1-3) order_refl assms(5)]
  by (simp add: dir_stored_def Directory_FetchFrom_def)

lemma WriteBack_map:
  assumes "dev_wf v" "maps_to v (hdr f) bl ix" "bitmap_wf fm" "numBits fm = NumSectors"
    "numBytes (hdr f) = 128"
  obtains v' where "BitMap_WriteBack v f fm = Some v'" "dev_wf v'" "map_stored v' f fm"
    "\<And>s. s \<notin> set bl \<Longrightarrow> sectors v' s = sectors v s"
proof -
  have n: "numWords fm * 4 \<le> numBytes (hdr f)"
    using assms(3-5) by (simp add: bitmap_wf_def divRoundUp_pos)
  obtain v' where v': "BitMap_WriteBack v f fm = Some v'" "dev_wf v'"
    "\<forall>s. s \<notin> set bl \<longrightarrow> sectors v' s = sectors v s"
    using WriteBack_FetchFrom_map [OF assms(1-3,3) refl _ n] assms(4) by auto
  have "BitMap_FetchFrom v' f c = Some fm" if "bitmap_wf c" "numBits c = NumSectors" for c
    using WriteBack_FetchFrom_map [OF assms(1-3) that(1) _ _ n] assms(4) that(2) v'(1) by auto
  then show ?thesis using that v' by (simp add: map_stored_def)
qed

lemma WriteBack_dir:
  assumes "dev_wf v" "maps_to v (hdr f) bl ix" "dir_wf D" "tableSize D = NumDirEntries"
    "numBytes (hdr f) = 200"
  obtains v' where "Directory_WriteBack v f D = Some v'" "dev_wf v'" "dir_stored v' f D"
    "\<And>s. s \<notin> set bl \<Longrightarrow> sectors v' s = sectors v s"
proof -
  have n: "tableSize D * 20 \<le> numBytes (hdr f)" using assms(4,5) by simp
  obtain v' where v': "Directory_WriteBack v f D = Some v'" "dev_wf v'"
    "\<forall>s. s \<notin> set bl \<longrightarrow> sectors v' s = sectors v s"
    using WriteBack_FetchFrom_dir [OF assms(1-3,3) refl _ n] assms(4) by auto
  have "Directory_FetchFrom v' f c = Some D" if "dir_wf c" "tableSize c = NumDirEntries" for c
    using WriteBack_FetchFrom_dir [OF assms(1-3) that(1) _ _ n] assms(4) that(2) v'(1) by auto
  then show ?thesis using that v' by (simp add: dir_stored_def)
qed

subsection \<open>Writing the free map and the directory\<close>

text \<open>
  \<open>sys_files\<close>: the two files every operation uses, with data sectors \<open>bm\<close> and \<open>bd\<close>. Writing inside
  their data sectors disturbs no file of \<open>objs\<close>.
\<close>

definition sys_files :: "dev \<Rightarrow> objects \<Rightarrow> OpenFile \<Rightarrow> int list \<Rightarrow> int \<Rightarrow> OpenFile \<Rightarrow> int list \<Rightarrow> bool" where
  "sys_files v objs mf bm d df bd \<longleftrightarrow> dev_wf v \<and> (\<forall>s x. objs s = Some x \<longrightarrow> obj_ok v s x) \<and> disjoint_objs objs
     \<and> objs 0 = Some (Blocks bm []) \<and> hdr mf = decode_hdr (sectors v 0) \<and> numBytes (hdr mf) = 128
     \<and> d \<noteq> 0 \<and> objs d = Some (Blocks bd []) \<and> hdr df = decode_hdr (sectors v d) \<and> numBytes (hdr df) = 200"

lemma owned_unique:
  "disjoint_objs objs \<Longrightarrow> objs s = Some x \<Longrightarrow> objs t = Some y \<Longrightarrow> a \<in> owned s x \<Longrightarrow> a \<in> owned t y \<Longrightarrow> s = t"
  unfolding disjoint_objs_def by blast

lemma sys_files_blocks:
  assumes "sys_files v objs mf bm d df bd"
  shows "maps_to v (hdr mf) bm {}" "maps_to v (hdr df) bd {}" "set bm \<inter> set bd = {}"
    "objs s = Some x \<Longrightarrow> t \<in> insert s (set (index_bl x)) \<Longrightarrow> t \<notin> set bm \<union> set bd"
proof -
  note sf = assms [unfolded sys_files_def]
  have ok: "obj_ok v 0 (Blocks bm [])" "obj_ok v d (Blocks bd [])" using sf by auto
  have dj: "disjoint_objs objs" using sf by simp
  show "maps_to v (hdr mf) bm {}"
    using file_blocks_maps_to [of v "hdr mf" bm "[]"] ok(1) sf by (simp add: obj_ok_def)
  show "maps_to v (hdr df) bd {}"
    using file_blocks_maps_to [of v "hdr df" bd "[]"] ok(2) sf by (simp add: obj_ok_def)
  show "set bm \<inter> set bd = {}"
    using owned_unique [OF dj, of 0 "(Blocks bm [])" d "(Blocks bd [])"] sf by (auto simp: owned_def)
  assume x: "objs s = Some x" "t \<in> insert s (set (index_bl x))"
  show "t \<notin> set bm \<union> set bd"
  proof
    assume t: "t \<in> set bm \<union> set bd"
    have "obj_ok v s x" using sf x(1) by blast
    then have s: "s \<notin> set (data_bl x)" "s \<notin> set (index_bl x)" "distinct (data_bl x @ index_bl x)"
      by (auto simp: obj_ok_def file_blocks_def)
    have tx: "t \<in> owned s x" using x(2) by (auto simp: owned_def)
    from t consider "t \<in> set bm" | "t \<in> set bd" by blast
    then show False
    proof cases
      case 1
      then have "s = 0" using owned_unique [OF dj x(1) _ tx, of 0 "(Blocks bm [])"] sf by (auto simp: owned_def)
      then show False using 1 x sf s by auto
    next
      case 2
      then have "s = d" using owned_unique [OF dj x(1) _ tx, of d "(Blocks bd [])"] sf by (auto simp: owned_def)
      then show False using 2 x sf s by auto
    qed
  qed
qed

lemma sys_files_write:
  assumes "sys_files v objs mf bm d df bd" "dev_wf v'"
    "\<And>s. s \<notin> set bm \<union> set bd \<Longrightarrow> sectors v' s = sectors v s"
  shows "sys_files v' objs mf bm d df bd"
proof -
  note sf = assms(1) [unfolded sys_files_def]
  have "obj_ok v' s x" if "objs s = Some x" for s x
    using obj_ok_cong [of s x v' v] sys_files_blocks(4) [OF assms(1) that] assms(3) sf that by blast
  moreover have "sectors v' 0 = sectors v 0" "sectors v' d = sectors v d"
    using sys_files_blocks(4) [OF assms(1), of 0] sys_files_blocks(4) [OF assms(1), of d] sf assms(3) by auto
  ultimately show ?thesis using sf assms(2) unfolding sys_files_def by metis
qed

lemma fs_inv_sys_files:
  assumes "fs_inv fs objs fm D"
  obtains bm bd where "sys_files (disk fs) objs (freeMapFile fs) bm (DirectorySector fs) (directoryFile fs) bd"
  using assms unfolding fs_inv_def space_inv_def sys_files_def by blast

text \<open>Writing both files back, in either order, makes the new free map and directory the stored ones.\<close>

lemma write_back_both:
  assumes sf: "sys_files v objs mf bm d df bd" and fm: "bitmap_wf fm" "numBits fm = NumSectors"
    and D: "dir_wf D" "tableSize D = NumDirEntries"
  shows "\<exists>v1 v2. BitMap_WriteBack v mf fm = Some v1 \<and> Directory_WriteBack v1 df D = Some v2
      \<and> sys_files v2 objs mf bm d df bd \<and> map_stored v2 mf fm \<and> dir_stored v2 df D
      \<and> (\<forall>s. s \<notin> set bm \<union> set bd \<longrightarrow> sectors v2 s = sectors v s)"
    and "\<exists>v1 v2. Directory_WriteBack v df D = Some v1 \<and> BitMap_WriteBack v1 mf fm = Some v2
      \<and> sys_files v2 objs mf bm d df bd \<and> map_stored v2 mf fm \<and> dir_stored v2 df D
      \<and> (\<forall>s. s \<notin> set bm \<union> set bd \<longrightarrow> sectors v2 s = sectors v s)"
proof -
  have wf: "dev_wf v" and nb: "numBytes (hdr mf) = 128" "numBytes (hdr df) = 200"
    using sf by (auto simp: sys_files_def)
  note b = sys_files_blocks [OF sf]
  obtain v1 where v1: "BitMap_WriteBack v mf fm = Some v1" "dev_wf v1" "map_stored v1 mf fm"
    "\<And>s. s \<notin> set bm \<Longrightarrow> sectors v1 s = sectors v s"
    using WriteBack_map [OF wf b(1) fm nb(1)] by blast
  have sf1: "sys_files v1 objs mf bm d df bd" by (rule sys_files_write [OF sf v1(2)]) (use v1(4) in auto)
  note b1 = sys_files_blocks [OF sf1]
  obtain v2 where v2: "Directory_WriteBack v1 df D = Some v2" "dev_wf v2" "dir_stored v2 df D"
    "\<And>s. s \<notin> set bd \<Longrightarrow> sectors v2 s = sectors v1 s"
    using WriteBack_dir [OF v1(2) b1(2) D nb(2)] by blast
  have "sys_files v2 objs mf bm d df bd" by (rule sys_files_write [OF sf1 v2(2)]) (use v2(4) in auto)
  moreover have "map_stored v2 mf fm"
    by (rule map_stored_cong [OF v1(2) v2(2) b1(1) v1(3)]) (use v2(4) b(3) in auto)
  ultimately show "\<exists>v1 v2. BitMap_WriteBack v mf fm = Some v1 \<and> Directory_WriteBack v1 df D = Some v2
      \<and> sys_files v2 objs mf bm d df bd \<and> map_stored v2 mf fm \<and> dir_stored v2 df D
      \<and> (\<forall>s. s \<notin> set bm \<union> set bd \<longrightarrow> sectors v2 s = sectors v s)"
    using v1(1,4) v2(1,3,4) by auto
  obtain w1 where w1: "Directory_WriteBack v df D = Some w1" "dev_wf w1" "dir_stored w1 df D"
    "\<And>s. s \<notin> set bd \<Longrightarrow> sectors w1 s = sectors v s"
    using WriteBack_dir [OF wf b(2) D nb(2)] by blast
  have sf1: "sys_files w1 objs mf bm d df bd" by (rule sys_files_write [OF sf w1(2)]) (use w1(4) in auto)
  note b1 = sys_files_blocks [OF sf1]
  obtain w2 where w2: "BitMap_WriteBack w1 mf fm = Some w2" "dev_wf w2" "map_stored w2 mf fm"
    "\<And>s. s \<notin> set bm \<Longrightarrow> sectors w2 s = sectors w1 s"
    using WriteBack_map [OF w1(2) b1(1) fm nb(1)] by blast
  have "sys_files w2 objs mf bm d df bd" by (rule sys_files_write [OF sf1 w2(2)]) (use w2(4) in auto)
  moreover have "dir_stored w2 df D"
    by (rule dir_stored_cong [OF w1(2) w2(2) b1(2) w1(3)]) (use w2(4) b(3) in auto)
  ultimately show "\<exists>v1 v2. Directory_WriteBack v df D = Some v1 \<and> BitMap_WriteBack v1 mf fm = Some v2
      \<and> sys_files v2 objs mf bm d df bd \<and> map_stored v2 mf fm \<and> dir_stored v2 df D
      \<and> (\<forall>s. s \<notin> set bm \<union> set bd \<longrightarrow> sectors v2 s = sectors v s)"
    using w1(1,4) w2(1,3,4) by auto
qed

subsection \<open>Adding and removing a file\<close>

lemma in_use_insert: "objs s = None \<Longrightarrow> in_use (objs(s \<mapsto> x)) = in_use objs \<union> owned s x"
  by (auto simp: in_use_def split: if_splits) (metis option.distinct(1))

lemma in_use_empty: "in_use Map.empty = {}"
  by (simp add: in_use_def)

lemma disjoint_insert:
  assumes "disjoint_objs objs" "owned s x \<inter> in_use objs = {}"
  shows "disjoint_objs (objs(s \<mapsto> x))"
proof -
  have "owned s x \<inter> owned t y = {}" if "objs t = Some y" for t y
    using assms(2) that by (fastforce simp: in_use_def)
  then show ?thesis using assms(1) unfolding disjoint_objs_def by (auto split: if_splits)
qed

lemma owned_in_use: "objs s = Some x \<Longrightarrow> owned s x \<subseteq> in_use objs"
  by (auto simp: in_use_def)

lemma in_use_delete:
  assumes "disjoint_objs objs" "objs s = Some x"
  shows "in_use (objs(s := None)) = in_use objs - owned s x"
proof -
  have "owned t y \<inter> owned s x = {}" if "objs t = Some y" "t \<noteq> s" for t y
    using assms that unfolding disjoint_objs_def by blast
  moreover have "a \<in> in_use (objs(s := None)) \<longleftrightarrow> (\<exists>t y. t \<noteq> s \<and> objs t = Some y \<and> a \<in> owned t y)" for a
    unfolding in_use_def mem_Collect_eq fun_upd_apply by (metis option.distinct(1))
  moreover have "a \<in> in_use objs \<longleftrightarrow> a \<in> owned s x \<or> (\<exists>t y. t \<noteq> s \<and> objs t = Some y \<and> a \<in> owned t y)" for a
    unfolding in_use_def mem_Collect_eq using assms(2) by (metis option.inject)
  ultimately show ?thesis by blast
qed

lemma disjoint_delete: "disjoint_objs objs \<Longrightarrow> disjoint_objs (objs(s := None))"
  unfolding disjoint_objs_def by (auto split: if_splits)

text \<open>A new header in a free sector with blocks in free sectors gives a new file.\<close>

lemma sys_files_insert:
  assumes sf: "sys_files v objs mf bm d df bd" and h: "file_blocks v h bl ib" "dev_wf v"
    and s: "s \<in> {0..<NumSectors}" "s \<notin> set bl \<union> set ib" "owned s (Blocks bl ib) \<inter> in_use objs = {}"
  defines "v' \<equiv> v\<lparr>sectors := (sectors v)(s := encode_hdr h)\<rparr>"
  shows "FileHeader_WriteBack v h s = Some v'" "dev_wf v'"
    "sys_files v' (objs(s \<mapsto> (Blocks bl ib))) mf bm d df bd" "decode_hdr (sectors v' s) = h"
proof -
  have repr: "hdr_repr h" using h(1) by (simp add: file_blocks_def)
  note enc = length_encode_hdr [OF repr] decode_encode_hdr [OF repr]
  show "FileHeader_WriteBack v h s = Some v'"
    using s(1) enc by (simp add: FileHeader_WriteBack_def WriteSector_def v'_def)
  show wf: "dev_wf v'" using h(2) enc by (simp add: dev_wf_def v'_def)
  show dec: "decode_hdr (sectors v' s) = h" using enc by (simp add: v'_def)
  note sfd = sf [unfolded sys_files_def]
  have ns: "t \<noteq> s" if "objs t' = Some y" "t \<in> owned t' y" for t t' y
    using owned_in_use [of objs t'] that s(3) by (auto simp: owned_def)
  have same: "sectors v' t = sectors v t" if "t \<noteq> s" for t using that by (simp add: v'_def)
  have "file_blocks v' h bl ib = file_blocks v h bl ib"
    by (rule file_blocks_cong) (use s(2) in \<open>auto intro: same\<close>)
  then have new: "obj_ok v' s (Blocks bl ib)"
    using s(1,2) h(1) dec by (auto simp: obj_ok_def)
  have old: "obj_ok v' t y" if "objs t = Some y" for t y
  proof -
    have "obj_ok v' t y = obj_ok v t y"
      by (rule obj_ok_cong) (use same ns [OF that] in \<open>auto simp: owned_def\<close>)
    then show ?thesis using sfd that by blast
  qed
  have "objs s = None" using ns [of s _ s] by (cases "objs s") (auto simp: owned_def)
  then have "s \<noteq> 0" "s \<noteq> d" using sfd by auto
  then show "sys_files v' (objs(s \<mapsto> (Blocks bl ib))) mf bm d df bd"
    using sfd wf new old disjoint_insert [OF _ s(3)] same by (simp add: sys_files_def) (metis)
qed

subsection \<open>Creating a file\<close>

lemma fs_inv_fetch:
  assumes "fs_inv fs objs fm D" "disk fs' = disk fs"
  shows "directoryFile fs' = directoryFile fs \<Longrightarrow> fetch_directory fs' = Some D"
    and "freeMapFile fs' = freeMapFile fs \<Longrightarrow> fetch_freeMap fs' = Some fm"
proof -
  show "fetch_directory fs' = Some D" if "directoryFile fs' = directoryFile fs"
    using assms that Directory_new_wf [of 10 "disk fs"]
    by (simp add: fs_inv_def dir_stored_def fetch_directory_def)
  show "fetch_freeMap fs' = Some fm" if "freeMapFile fs' = freeMapFile fs"
  proof -
    obtain b where "BitMap_new (word_junk (disk fs)) 1024 = Some b" "bitmap_wf b" "numBits b = 1024"
      using new_spec [of 1024 "word_junk (disk fs)"] by auto
    then show ?thesis using assms that by (simp add: fs_inv_def map_stored_def fetch_freeMap_def)
  qed
qed

lemma fs_invI:
  assumes "sys_files (disk fs) objs (freeMapFile fs) bm (DirectorySector fs) (directoryFile fs) bd"
    "unlocked fs" "map_stored (disk fs) (freeMapFile fs) fm" "dir_stored (disk fs) (directoryFile fs) D"
    "IsDirectory (hdr (directoryFile fs))" "dir_wf D" "tableSize D = NumDirEntries"
    "bitmap_wf fm" "numBits fm = NumSectors" "marked fm = in_use objs"
    "ran (view D) \<subseteq> dom objs - {0}" "inj_on (view D) (dom (view D))"
  shows "fs_inv fs objs fm D"
  using assms unfolding fs_inv_def space_inv_def sys_files_def by blast

lemma fs_invD:
  assumes "fs_inv fs objs fm D"
  shows "dev_wf (disk fs)" "unlocked fs" "map_stored (disk fs) (freeMapFile fs) fm"
    "dir_stored (disk fs) (directoryFile fs) D" "IsDirectory (hdr (directoryFile fs))" "dir_wf D"
    "tableSize D = NumDirEntries" "bitmap_wf fm" "numBits fm = NumSectors" "marked fm = in_use objs"
    "ran (view D) \<subseteq> dom objs - {0}" "inj_on (view D) (dom (view D))" "disjoint_objs objs"
    "objs s = Some x \<Longrightarrow> obj_ok (disk fs) s x"
  using assms unfolding fs_inv_def space_inv_def by blast+

lemma sys_files_disk:
  assumes "sys_files v objs mf bm d df bd" "dev_wf v'"
    "\<And>s. s \<in> in_use objs \<Longrightarrow> sectors v' s = sectors v s"
  shows "sys_files v' objs mf bm d df bd"
proof -
  note sfd = assms(1) [unfolded sys_files_def]
  have own: "sectors v' t = sectors v t" if "objs s = Some x" "t \<in> owned s x" for s t x
    using assms(3) owned_in_use [of objs s x] that by blast
  have "obj_ok v' s x" if "objs s = Some x" for s x
  proof -
    have "obj_ok v' s x = obj_ok v s x"
      by (rule obj_ok_cong) (use own [OF that] in \<open>auto simp: owned_def\<close>)
    then show ?thesis using sfd that by blast
  qed
  moreover have "sectors v' 0 = sectors v 0" "sectors v' d = sectors v d"
    using own sfd by (auto simp: owned_def)
  ultimately show ?thesis using sfd assms(2) unfolding sys_files_def by metis
qed

lemma fs_inv_disk:
  assumes inv: "fs_inv fs objs fm D" and v: "dev_wf (disk fs')"
      "\<And>s. s \<in> in_use objs \<Longrightarrow> sectors (disk fs') s = sectors (disk fs) s"
    and fs': "freeMapFile fs' = freeMapFile fs" "directoryFile fs' = directoryFile fs"
      "DirectorySector fs' = DirectorySector fs" "unlocked fs'"
  shows "fs_inv fs' objs fm D"
proof -
  obtain bm bd where sf: "sys_files (disk fs) objs (freeMapFile fs) bm (DirectorySector fs) (directoryFile fs) bd"
    using fs_inv_sys_files [OF inv] .
  note sfd = sf [unfolded sys_files_def] and b = sys_files_blocks [OF sf]
  have bl: "set bm \<subseteq> in_use objs" "set bd \<subseteq> in_use objs"
    using owned_in_use [of objs 0] owned_in_use [of objs "DirectorySector fs"] sfd by (auto simp: owned_def)
  have "map_stored (disk fs') (freeMapFile fs) fm"
    by (rule map_stored_cong [OF _ v(1) b(1)]) (use inv sfd v(2) bl in \<open>auto simp: fs_inv_def\<close>)
  moreover have "dir_stored (disk fs') (directoryFile fs) D"
    by (rule dir_stored_cong [OF _ v(1) b(2)]) (use inv sfd v(2) bl in \<open>auto simp: fs_inv_def\<close>)
  ultimately show ?thesis
    using sys_files_disk [OF sf v] fs' fs_invD [OF inv]
    by (intro fs_invI [where bm = bm and bd = bd]) simp_all
qed

lemma Find_fs:
  assumes "fs_inv fs objs fm D"
  shows "Directory_Find D nm = - 1 \<longleftrightarrow> view D (key nm) = None"
    and "view D (key nm) = Some s \<Longrightarrow> Directory_Find D nm = s \<and> 0 < s \<and> s < NumSectors \<and> s \<in> dom objs"
proof -
  note d = fs_invD [OF assms]
  have some: "0 < s \<and> s < 1024 \<and> s \<in> dom objs" if "view D (key nm) = Some s" for s
  proof -
    have "s \<in> ran (view D)" using that by (auto simp: ran_def)
    then obtain x where x: "objs s = Some x" "s \<noteq> 0" using d(11) by auto
    then show ?thesis using d(14) [of s x] by (auto simp: obj_ok_def)
  qed
  show "Directory_Find D nm = - 1 \<longleftrightarrow> view D (key nm) = None"
    using Find_view [OF d(6), of nm] some by (cases "view D (key nm)") fastforce+
  show "Directory_Find D nm = s \<and> 0 < s \<and> s < NumSectors \<and> s \<in> dom objs" if "view D (key nm) = Some s"
    using Find_view [OF d(6), of nm] some [OF that] that by simp
qed

text \<open>The state when the two files have been written back and the locks released.\<close>

lemma fs_inv_commit:
  assumes inv: "fs_inv fs objs fm D"
    and sf: "sys_files v objs' (freeMapFile fs) bm (DirectorySector fs) (directoryFile fs) bd"
    and st: "map_stored v (freeMapFile fs) fm'" "dir_stored v (directoryFile fs) D'"
    and fm': "bitmap_wf fm'" "numBits fm' = NumSectors" "marked fm' = in_use objs'"
    and D': "dir_wf D'" "tableSize D' = NumDirEntries" "ran (view D') \<subseteq> dom objs' - {0}"
      "inj_on (view D') (dom (view D'))"
    and fs': "freeMapFile fs' = freeMapFile fs" "directoryFile fs' = directoryFile fs"
      "DirectorySector fs' = DirectorySector fs" "unlocked fs'" "disk fs' = v"
  shows "fs_inv fs' objs' fm' D'"
  using fs_invD(5) [OF inv] assms(2-)
  by (intro fs_invI [where bm = bm and bd = bd]) simp_all

definition created :: "FileSystem \<Rightarrow> objects \<Rightarrow> Directory \<Rightarrow> cname \<Rightarrow> int \<Rightarrow> FileSystem \<Rightarrow> bool" where
  "created fs objs D nm n fs' \<longleftrightarrow> (\<exists>s bl ib fm' D'. objs s = None
     \<and> fs_inv fs' (objs(s \<mapsto> Blocks bl ib)) fm' D' \<and> view D' = (view D)(key nm \<mapsto> s)
     \<and> numBytes (decode_hdr (sectors (disk fs') s)) = n
     \<and> IsDataFile (decode_hdr (sectors (disk fs') s)))"

definition others_same :: "FileSystem \<Rightarrow> objects \<Rightarrow> FileSystem \<Rightarrow> bool" where
  "others_same fs objs fs' \<longleftrightarrow> (\<forall>s x. objs s = Some x \<longrightarrow> s \<noteq> 0 \<longrightarrow> s \<noteq> DirectorySector fs \<longrightarrow>
     (\<forall>t \<in> owned s x. sectors (disk fs') t = sectors (disk fs) t))"

lemma inj_on_view_upd:
  "inj_on m (dom m) \<Longrightarrow> s \<notin> ran m \<Longrightarrow> inj_on (m(k \<mapsto> s)) (dom (m(k \<mapsto> s)))"
  by (auto simp: inj_on_def ran_def dom_def split: if_splits)

lemma Create_commit:
  assumes inv: "fs_inv fs objs fm D" and sec: "0 \<le> sec" "sec < NumSectors" "sec \<notin> in_use objs"
    and add: "dir_wf D'" "tableSize D' = NumDirEntries" "view D' = (view D)(key nm \<mapsto> sec)"
    and a: "bitmap_wf fm'" "numBits fm' = 1024" "dev_wf v1" "marked fm' = insert sec (marked fm) \<union> set (bl @ ib)"
      "set (bl @ ib) \<inter> insert sec (marked fm) = {}"
      "\<And>s. s \<in> insert sec (marked fm) \<Longrightarrow> sectors v1 s = sectors (disk fs) s"
      "file_blocks v1 h bl ib" "numBytes h = n" "ftype h = DATA_FILE"
  obtains v2 v3 v4 where "FileHeader_WriteBack v1 h sec = Some v2"
    "Directory_WriteBack v2 (directoryFile fs) D' = Some v3"
    "BitMap_WriteBack v3 (freeMapFile fs) fm' = Some v4"
    "\<And>fs'. freeMapFile fs' = freeMapFile fs \<Longrightarrow> directoryFile fs' = directoryFile fs \<Longrightarrow>
       DirectorySector fs' = DirectorySector fs \<Longrightarrow> unlocked fs' \<Longrightarrow> disk fs' = v4 \<Longrightarrow>
       created fs objs D nm n fs' \<and> others_same fs objs fs'"
proof -
  note d = fs_invD [OF inv]
  obtain bm bd where sf: "sys_files (disk fs) objs (freeMapFile fs) bm (DirectorySector fs) (directoryFile fs) bd"
    using fs_inv_sys_files [OF inv] .
  have sf1: "sys_files v1 objs (freeMapFile fs) bm (DirectorySector fs) (directoryFile fs) bd"
    by (rule sys_files_disk [OF sf a(3)]) (use a(6) d(10) in auto)
  let ?x = "Blocks bl ib" and ?objs = "objs(sec \<mapsto> Blocks bl ib)"
  have own: "owned sec ?x \<inter> in_use objs = {}" using sec(3) a(5) d(10) by (auto simp: owned_def)
  have sb: "sec \<in> {0..<NumSectors}" "sec \<notin> set bl \<union> set ib" using sec a(5) by auto
  define v2 where "v2 = v1\<lparr>sectors := (sectors v1)(sec := encode_hdr h)\<rparr>"
  note ins = sys_files_insert [OF sf1 a(7,3) sb own, folded v2_def]
  obtain v3 v4 where w: "Directory_WriteBack v2 (directoryFile fs) D' = Some v3"
    "BitMap_WriteBack v3 (freeMapFile fs) fm' = Some v4"
    "sys_files v4 ?objs (freeMapFile fs) bm (DirectorySector fs) (directoryFile fs) bd"
    "map_stored v4 (freeMapFile fs) fm'" "dir_stored v4 (directoryFile fs) D'"
    "\<forall>s. s \<notin> set bm \<union> set bd \<longrightarrow> sectors v4 s = sectors v2 s"
    using write_back_both(2) [OF ins(3) a(1,2) add(1,2)] by blast
  have none: "objs sec = None" using sec(3) owned_in_use [of objs sec] by (cases "objs sec") (auto simp: owned_def)
  have use: "marked fm' = in_use ?objs"
    using a(4) d(10) in_use_insert [of objs sec ?x] none by (auto simp: owned_def)
  have "sec \<notin> ran (view D)" using d(11) none by auto
  then have vw: "ran (view D') \<subseteq> dom ?objs - {0}" "inj_on (view D') (dom (view D'))"
    using d(11,12) inj_on_view_upd [OF d(12), of sec "key nm"] add(3) none
      sf [unfolded sys_files_def] by (auto simp: ran_def split: if_splits)
  have dec: "decode_hdr (sectors v4 sec) = h"
    using w(6) sys_files_blocks(4) [OF ins(3), of sec ?x sec] ins(4) by simp
  have fin: "created fs objs D nm n fs' \<and> others_same fs objs fs'"
    if fs': "freeMapFile fs' = freeMapFile fs" "directoryFile fs' = directoryFile fs"
       "DirectorySector fs' = DirectorySector fs" "unlocked fs'" "disk fs' = v4" for fs'
  proof
    have "fs_inv fs' ?objs fm' D'"
      by (rule fs_inv_commit [OF inv w(3-5) a(1,2) use add(1,2) vw fs'])
    then show "created fs objs D nm n fs'"
      unfolding created_def using none add(3) dec fs'(5) a(8,9)
      by (intro exI [of _ sec] exI [of _ bl] exI [of _ ib] exI [of _ fm'] exI [of _ D'])
        (simp add: IsDataFile_def)
    show "others_same fs objs fs'"
      unfolding others_same_def
    proof (intro allI impI ballI)
      fix s x t assume x: "objs s = Some x" "s \<noteq> 0" "s \<noteq> DirectorySector fs" "t \<in> owned s x"
      have t: "t \<in> in_use objs" using owned_in_use [of objs s x] x(1,4) by blast
      have "t \<notin> set bm \<union> set bd"
        using owned_unique [OF d(13) x(1) _ x(4)] x(2,3) sf [unfolded sys_files_def]
        by (metis UnCI UnE blocks.sel(1) insertCI owned_def)
      then have "sectors v4 t = sectors v2 t" using w(6) by blast
      also have "\<dots> = sectors v1 t" using t sec(3) by (auto simp: v2_def)
      also have "\<dots> = sectors (disk fs) t" using a(6) t d(10) by blast
      finally show "sectors (disk fs') t = sectors (disk fs) t" using fs'(5) by simp
    qed
  qed
  show ?thesis using that [OF ins(1) w(1,2) fin] by blast
qed

lemma Create_spec:
  assumes inv: "fs_inv fs objs fm D" and n: "0 \<le> n" "n \<le> 924 * 128"
  shows "\<exists>b fs'. Create fs nm n = Some (b, fs') \<and> others_same fs objs fs'
    \<and> (if b then created fs objs D nm n fs' else fs_inv fs' objs fm D)
    \<and> (b \<longrightarrow> \<not> protected_name nm \<and> view D (key nm) = None \<and> card (dom (view D)) < 10)
    \<and> (\<not> b \<longrightarrow> protected_name nm \<or> view D (key nm) \<noteq> None \<or> card (dom (view D)) \<ge> 10
         \<or> 1024 \<le> int (card (marked fm)) + divRoundUp n 128 + 30)"
proof -
  note d = fs_invD [OF inv]
  have un: "\<not> directoryMutex fs" "\<not> freeMapMutex fs" "\<not> openedFileMutex fs" using d(2) by (auto simp: unlocked_def)
  let ?fs1 = "fs\<lparr>directoryMutex := True\<rparr>" and ?fs2 = "fs\<lparr>directoryMutex := True, freeMapMutex := True\<rparr>"
  let ?done = "\<lambda>v. fs\<lparr>directoryMutex := False, freeMapMutex := False, disk := v\<rparr>"
  have fd: "fetch_directory ?fs1 = Some D" by (rule fs_inv_fetch(1) [OF inv]) simp_all
  have ff: "fetch_freeMap ?fs2 = Some fm" by (rule fs_inv_fetch(2) [OF inv]) simp_all
  note C = Create_def [of fs nm n]
  have same: "fs_inv fs' objs fm D \<and> others_same fs objs fs'"
    if "freeMapFile fs' = freeMapFile fs" "directoryFile fs' = directoryFile fs"
      "DirectorySector fs' = DirectorySector fs" "unlocked fs'" "dev_wf (disk fs')"
      "\<And>s. s \<in> in_use objs \<Longrightarrow> sectors (disk fs') s = sectors (disk fs) s" for fs'
    using fs_inv_disk [OF inv that(5,6,1-4)] that(6) owned_in_use [of objs] by (fastforce simp: others_same_def)
  have fail: ?thesis
    if "Create fs nm n = Some (False, fs')" "fs_inv fs' objs fm D \<and> others_same fs objs fs'"
      "protected_name nm \<or> view D (key nm) \<noteq> None \<or> card (dom (view D)) \<ge> 10
         \<or> 1024 \<le> int (card (marked fm)) + divRoundUp n 128 + 30" for fs'
    using that by (intro exI [of _ False] exI [of _ fs']) simp
  consider (prot) "protected_name nm" | (dup) s where "\<not> protected_name nm" "view D (key nm) = Some s"
    | (new) "\<not> protected_name nm" "view D (key nm) = None" by fastforce
  then show ?thesis
  proof cases
    case prot
    then show ?thesis using same [of fs] d(1,2) by (intro fail [of fs]) (simp_all add: C)
  next
    case dup
    then have "Create fs nm n = Some (False, fs\<lparr>directoryMutex := False\<rparr>)"
      using un fd Find_fs(1) [OF inv, of nm] by (simp add: C lock_defs)
    then show ?thesis
      using same [of "fs\<lparr>directoryMutex := False\<rparr>"] d(1) un dup by (intro fail) (simp_all add: unlocked_def)
  next
    case new
    have nf: "Directory_Find D nm = - 1" using Find_fs(1) [OF inv, of nm] new(2) by simp
    from d(8) show ?thesis
    proof (cases rule: Find_cases)
      case full
      then have "Create fs nm n = Some (False, fs\<lparr>directoryMutex := False, freeMapMutex := False\<rparr>)"
        using un fd ff nf new by (simp add: C lock_defs)
      moreover have "card (marked fm) = 1024" using full d(9) by simp
      ultimately show ?thesis
        using same [of "fs\<lparr>directoryMutex := False, freeMapMutex := False\<rparr>"] d(1) un n
        by (intro fail) (simp_all add: unlocked_def)
    next
      case (hit sec fm1)
      have sec: "0 \<le> sec" "sec < 1024" "sec \<notin> in_use objs" "is_int32 sec" "sec \<noteq> - 1"
        using hit d(9,10) by (auto simp: is_int32_def)
      have free: "(\<exists>e \<in> set (table D). \<not> inUse e) \<longleftrightarrow> card (dom (view D)) < 10"
        using free_slot_iff [OF d(6)] d(7) by simp
      show ?thesis
      proof (cases "card (dom (view D)) < 10")
        case False
        then have "Directory_Add D nm sec = (False, D)"
          using Add_spec [OF d(6) sec(4), of nm] free by simp
        then have "Create fs nm n = Some (False, fs\<lparr>directoryMutex := False, freeMapMutex := False\<rparr>)"
          using un fd ff nf new hit(1) sec(5) by (simp add: C lock_defs)
        then show ?thesis
          using same [of "fs\<lparr>directoryMutex := False, freeMapMutex := False\<rparr>"] d(1) un False
          by (intro fail) (simp_all add: unlocked_def)
      next
        case True
        obtain D' where D': "Directory_Add D nm sec = (True, D')" "dir_wf D'" "tableSize D' = 10"
          "view D' = (view D)(key nm \<mapsto> sec)"
          using Add_spec [OF d(6) sec(4), of nm] free new(2) True d(7) by auto
        have repr: "hdr_repr (FileHeader_new (disk fs))" by (simp add: FileHeader_new_def decode_hdr_repr)
        have fm1: "bitmap_wf fm1" "numBits fm1 = 1024" "marked fm1 = insert sec (marked fm)"
          using hit d(9) by auto
        obtain ok h fm' v1 bl ib where a:
          "FileHeader_Allocate (disk fs) (FileHeader_new (disk fs)) fm1 n DATA_FILE = Some (ok, h, fm', v1)"
          "bitmap_wf fm'" "numBits fm' = 1024" "dev_wf v1" "marked fm' = insert sec (marked fm) \<union> set (bl @ ib)"
          "set (bl @ ib) \<inter> insert sec (marked fm) = {}"
          "\<And>s. s \<in> insert sec (marked fm) \<Longrightarrow> sectors v1 s = sectors (disk fs) s"
          "int (length (bl @ ib)) \<le> divRoundUp n 128 + 29" "\<not> ok \<Longrightarrow> marked fm' = {0..<1024}"
          "ok \<Longrightarrow> file_blocks v1 h bl ib \<and> numBytes h = n \<and> ftype h = DATA_FILE"
          by (rule Allocate_spec [OF d(1) repr fm1(1,2) n, of DATA_FILE, unfolded fm1(3)]) auto
        show ?thesis
        proof (cases ok)
          case False
          then have e: "Create fs nm n = Some (False, ?done v1)"
            using un fd ff nf new hit(1) sec(5) D'(1) a(1) by (simp add: C lock_defs Let_def)
          have "1024 \<le> int (card (marked fm)) + divRoundUp n 128 + 30"
          proof -
            have "card {0..<1024::int} \<le> card (insert sec (marked fm)) + card (set (bl @ ib))"
              using a(5) a(9) [OF False] card_Un_le [of "insert sec (marked fm)" "set (bl @ ib)"] by simp
            also have "\<dots> \<le> Suc (card (marked fm)) + length (bl @ ib)"
              by (intro add_mono card_length card_insert_le_m1) simp_all
            finally show ?thesis using a(8) by simp
          qed
          then show ?thesis
            using same [of "?done v1"] un a(4,7) d(10) by (intro fail [OF e]) (simp_all add: unlocked_def)
        next
          case ok: True
          from Create_commit [OF inv sec(1-3) D'(2-4) a(2-7)] a(10) [OF ok] obtain v2 v3 v4 where
            w: "FileHeader_WriteBack v1 h sec = Some v2"
              "Directory_WriteBack v2 (directoryFile fs) D' = Some v3"
              "BitMap_WriteBack v3 (freeMapFile fs) fm' = Some v4"
              "\<And>fs'. freeMapFile fs' = freeMapFile fs \<Longrightarrow> directoryFile fs' = directoryFile fs \<Longrightarrow>
                 DirectorySector fs' = DirectorySector fs \<Longrightarrow> unlocked fs' \<Longrightarrow> disk fs' = v4 \<Longrightarrow>
                 created fs objs D nm n fs' \<and> others_same fs objs fs'"
            by blast
          have "Create fs nm n = Some (True, ?done v4)"
            using un fd ff nf new hit(1) sec(5) D'(1) a(1) ok w(1-3) by (simp add: C lock_defs Let_def)
          then show ?thesis using w(4) [of "?done v4"] un new True
            by (intro exI [of _ True] exI [of _ "?done v4"]) (simp add: unlocked_def)
        qed
      qed
    qed
  qed
qed

subsection \<open>Removing a file\<close>

lemma relock [simp]:
  "\<not> directoryMutex fs \<Longrightarrow> fs\<lparr>directoryMutex := False\<rparr> = fs"
  "\<not> openedFileMutex fs \<Longrightarrow> fs\<lparr>openedFileMutex := False\<rparr> = fs"
  "\<not> freeMapMutex fs \<Longrightarrow> fs\<lparr>freeMapMutex := False\<rparr> = fs"
  by (cases fs; simp)+

lemma sys_files_delete:
  "sys_files v objs mf bm d df bd \<Longrightarrow> s \<noteq> 0 \<Longrightarrow> s \<noteq> d \<Longrightarrow> sys_files v (objs(s := None)) mf bm d df bd"
  using disjoint_delete [of objs s] by (auto simp: sys_files_def)

definition removed :: "objects \<Rightarrow> Directory \<Rightarrow> cname \<Rightarrow> int \<Rightarrow> FileSystem \<Rightarrow> bool" where
  "removed objs D nm s fs' \<longleftrightarrow> (\<exists>fm' D'. fs_inv fs' (objs(s := None)) fm' D'
     \<and> view D' = (view D)(key nm := None))"

lemma inj_on_view_del: "inj_on m (dom m) \<Longrightarrow> inj_on (m(k := None)) (dom (m(k := None)))"
  by (auto simp: inj_on_def dom_def split: if_splits)

lemma Remove_commit:
  assumes inv: "fs_inv fs objs fm D" and s: "view D (key nm) = Some s" "objs s = Some (Blocks bl ib)"
      "s \<noteq> DirectorySector fs" "length bl \<noteq> 28"
  obtains fm1 fm2 D' v1 v2 where
    "FileHeader_Deallocate (disk fs) (decode_hdr (sectors (disk fs) s)) fm = Some fm1"
    "BitMap_Clear fm1 s = Some fm2" "Directory_Remove D nm = (True, D')"
    "BitMap_WriteBack (disk fs) (freeMapFile fs) fm2 = Some v1"
    "Directory_WriteBack v1 (directoryFile fs) D' = Some v2"
    "\<And>fs'. freeMapFile fs' = freeMapFile fs \<Longrightarrow> directoryFile fs' = directoryFile fs \<Longrightarrow>
       DirectorySector fs' = DirectorySector fs \<Longrightarrow> unlocked fs' \<Longrightarrow> disk fs' = v2 \<Longrightarrow>
       removed objs D nm s fs' \<and> others_same fs objs fs'"
proof -
  note d = fs_invD [OF inv]
  obtain bm bd where sf: "sys_files (disk fs) objs (freeMapFile fs) bm (DirectorySector fs) (directoryFile fs) bd"
    using fs_inv_sys_files [OF inv] .
  note sfd = sf [unfolded sys_files_def]
  have s0: "s \<noteq> 0" using d(11) s(1) by (auto simp: ran_def)
  have ok: "obj_ok (disk fs) s (Blocks bl ib)" using d(14) s(2) by blast
  have sub: "set (bl @ ib) \<subseteq> marked fm" "s \<in> marked fm" "s \<notin> set (bl @ ib)"
    using owned_in_use [of objs s "Blocks bl ib"] s(2) d(10) ok by (auto simp: owned_def obj_ok_def)
  obtain fm1 where fm1: "FileHeader_Deallocate (disk fs) (decode_hdr (sectors (disk fs) s)) fm = Some fm1"
    "bitmap_wf fm1" "numBits fm1 = 1024" "marked fm1 = marked fm - set (bl @ ib)"
    using Deallocate_spec [OF d(1) _ d(8) sub(1) s(4)] ok d(9) by (auto simp: obj_ok_def)
  obtain fm2 where fm2: "BitMap_Clear fm1 s = Some fm2" "bitmap_wf fm2" "numBits fm2 = 1024"
    "marked fm2 = marked fm1 - {s}"
    using Clear_spec [OF fm1(2), of s] fm1(3) ok by (auto simp: obj_ok_def)
  obtain D' where D': "Directory_Remove D nm = (True, D')" "dir_wf D'" "tableSize D' = 10"
    "view D' = (view D)(key nm := None)"
    using Remove_spec [OF d(6), of nm] s(1) d(7) by auto
  let ?objs = "objs(s := None)"
  have sf1: "sys_files (disk fs) ?objs (freeMapFile fs) bm (DirectorySector fs) (directoryFile fs) bd"
    using sys_files_delete [OF sf s0 s(3)] .
  obtain v1 v2 where w: "BitMap_WriteBack (disk fs) (freeMapFile fs) fm2 = Some v1"
    "Directory_WriteBack v1 (directoryFile fs) D' = Some v2"
    "sys_files v2 ?objs (freeMapFile fs) bm (DirectorySector fs) (directoryFile fs) bd"
    "map_stored v2 (freeMapFile fs) fm2" "dir_stored v2 (directoryFile fs) D'"
    "\<forall>t. t \<notin> set bm \<union> set bd \<longrightarrow> sectors v2 t = sectors (disk fs) t"
    using write_back_both(1) [OF sf1 fm2(2,3) D'(2,3)] by blast
  have use: "marked fm2 = in_use ?objs"
    using in_use_delete [OF d(13) s(2)] fm1(4) fm2(4) d(10) by (auto simp: owned_def)
  have "s \<notin> ran (view D')"
    using d(12) s(1) D'(4) by (auto simp: ran_def inj_on_def dom_def split: if_splits)
  moreover have "ran (view D') \<subseteq> ran (view D)" using D'(4) by (auto simp: ran_def split: if_splits)
  ultimately have vw: "ran (view D') \<subseteq> dom ?objs - {0}" "inj_on (view D') (dom (view D'))"
    using d(11) inj_on_view_del [OF d(12)] D'(4) by auto
  have fin: "removed objs D nm s fs' \<and> others_same fs objs fs'"
    if fs': "freeMapFile fs' = freeMapFile fs" "directoryFile fs' = directoryFile fs"
       "DirectorySector fs' = DirectorySector fs" "unlocked fs'" "disk fs' = v2" for fs'
  proof
    have "fs_inv fs' ?objs fm2 D'"
      by (rule fs_inv_commit [OF inv w(3-5) fm2(2,3) use D'(2,3) vw fs'])
    then show "removed objs D nm s fs'" using D'(4) by (auto simp: removed_def)
    show "others_same fs objs fs'"
      unfolding others_same_def
    proof (intro allI impI ballI)
      fix r x t assume x: "objs r = Some x" "r \<noteq> 0" "r \<noteq> DirectorySector fs" "t \<in> owned r x"
      have "t \<notin> set bm \<union> set bd"
        using owned_unique [OF d(13) x(1) _ x(4)] x(2,3) sfd
        by (metis UnCI UnE blocks.sel(1) insertCI owned_def)
      then show "sectors (disk fs') t = sectors (disk fs) t" using w(6) fs'(5) by simp
    qed
  qed
  show ?thesis using that [OF fm1(1) fm2(1) D'(1) w(1,2) fin] by blast
qed

lemma Remove_spec_fs:
  assumes inv: "fs_inv fs objs fm D" and ot: "open_table fs"
  shows "case view D (key nm) of None \<Rightarrow> Remove fs nm = Some (False, fs)
    | Some s \<Rightarrow> if IsDataFile (decode_hdr (sectors (disk fs) s)) \<and> (\<forall>i u. slots fs i = Some u \<longrightarrow> id u \<noteq> s)
        then length (data_bl (the (objs s))) \<noteq> 28 \<longrightarrow>
          (\<exists>fs'. Remove fs nm = Some (True, fs') \<and> removed objs D nm s fs' \<and> others_same fs objs fs')
        else Remove fs nm = Some (False, fs)"
proof -
  note d = fs_invD [OF inv]
  have un: "\<not> directoryMutex fs" "\<not> freeMapMutex fs" "\<not> openedFileMutex fs" using d(2) by (auto simp: unlocked_def)
  let ?fs1 = "fs\<lparr>directoryMutex := True\<rparr>"
  have fd: "fetch_directory ?fs1 = Some D" by (rule fs_inv_fetch(1) [OF inv]) simp_all
  note R = Remove_def [of fs nm]
  show ?thesis
  proof (cases "view D (key nm)")
    case None
    then show ?thesis using un fd Find_fs(1) [OF inv, of nm] by (simp add: R lock_defs)
  next
    case (Some s)
    have s: "Directory_Find D nm = s" "0 < s" "s < 1024" using Find_fs(2) [OF inv Some] by auto
    obtain bl ib where x: "objs s = Some (Blocks bl ib)" using Find_fs(2) [OF inv Some]
      by (metis blocks.collapse domD)
    have hd: "FileHeader_FetchFrom (disk fs) s = Some (decode_hdr (sectors (disk fs) s))"
      using s by (simp add: FetchFrom_sector)
    have io: "is_opened (?fs1\<lparr>openedFileMutex := True\<rparr>) s 10
        = Some (\<exists>i u. slots fs i = Some u \<and> id u = s)"
      using is_opened_all [of "?fs1\<lparr>openedFileMutex := True\<rparr>" s] ot by (simp add: open_table_def)
    have ff: "fetch_freeMap (fs\<lparr>directoryMutex := True, openedFileMutex := False, freeMapMutex := True\<rparr>) = Some fm"
      by (rule fs_inv_fetch(2) [OF inv]) simp_all
    show ?thesis
    proof (cases "IsDataFile (decode_hdr (sectors (disk fs) s)) \<and> (\<forall>i u. slots fs i = Some u \<longrightarrow> id u \<noteq> s)")
      case False
      then have "Remove fs nm = Some (False, fs)"
        using un fd s hd io by (auto simp: R lock_defs Let_def)
      then show ?thesis using False Some by auto
    next
      case True
      then have "s \<noteq> DirectorySector fs"
        using inv by (auto simp: fs_inv_def IsDirectory_def IsDataFile_def)
      have "\<exists>fs'. Remove fs nm = Some (True, fs') \<and> removed objs D nm s fs' \<and> others_same fs objs fs'"
        if l28: "length bl \<noteq> 28"
      proof -
        obtain fm1 fm2 D' v1 v2 where w:
          "FileHeader_Deallocate (disk fs) (decode_hdr (sectors (disk fs) s)) fm = Some fm1"
          "BitMap_Clear fm1 s = Some fm2" "Directory_Remove D nm = (True, D')"
          "BitMap_WriteBack (disk fs) (freeMapFile fs) fm2 = Some v1"
          "Directory_WriteBack v1 (directoryFile fs) D' = Some v2"
          "\<And>fs'. freeMapFile fs' = freeMapFile fs \<Longrightarrow> directoryFile fs' = directoryFile fs \<Longrightarrow>
             DirectorySector fs' = DirectorySector fs \<Longrightarrow> unlocked fs' \<Longrightarrow> disk fs' = v2 \<Longrightarrow>
             removed objs D nm s fs' \<and> others_same fs objs fs'"
          using Remove_commit [OF inv Some x \<open>s \<noteq> DirectorySector fs\<close> l28] by blast
        let ?fs = "fs\<lparr>directoryMutex := False, openedFileMutex := False, freeMapMutex := False, disk := v2\<rparr>"
        have "Remove fs nm = Some (True, ?fs)"
          using un fd s hd io ff True w(1-5) by (simp add: R lock_defs Let_def)
        then show ?thesis using w(6) [of ?fs] un by (auto simp: unlocked_def)
      qed
      then show ?thesis using Some True x by simp
    qed
  qed
qed

subsection \<open>Writing to a file\<close>

lemma meta_not_data:
  assumes "disjoint_objs objs" "\<forall>s x. objs s = Some x \<longrightarrow> obj_ok v s x" "objs s = Some x" "objs t = Some y"
    "r \<in> insert s (set (index_bl x))"
  shows "r \<notin> set (data_bl y)"
proof
  assume r: "r \<in> set (data_bl y)"
  then have "s = t" using owned_unique [OF assms(1,3,4), of r] assms(5) by (auto simp: owned_def)
  then have "obj_ok v s x" "y = x" using assms(2-4) by auto
  then show False using r assms(5) by (auto simp: obj_ok_def file_blocks_def)
qed

lemma sys_files_data:
  assumes sf: "sys_files v objs mf bm d df bd" and s: "objs s = Some x" "s \<noteq> 0" "s \<noteq> d"
    and v': "dev_wf v'" "\<And>t. t \<notin> set (data_bl x) \<Longrightarrow> sectors v' t = sectors v t"
  shows "sys_files v' objs mf bm d df bd" "map_stored v mf fm \<Longrightarrow> map_stored v' mf fm"
    "dir_stored v df D \<Longrightarrow> dir_stored v' df D"
proof -
  note sfd = sf [unfolded sys_files_def] and b = sys_files_blocks [OF sf]
  have ok: "\<forall>s x. objs s = Some x \<longrightarrow> obj_ok v s x" and dj: "disjoint_objs objs" using sfd by blast+
  have meta: "sectors v' r = sectors v r" if "objs t = Some y" "r \<in> insert t (set (index_bl y))" for t y r
    using meta_not_data [OF dj ok that(1) s(1) that(2)] v'(2) by blast
  have "obj_ok v' t y" if "objs t = Some y" for t y
    using obj_ok_cong [of t y v' v] meta [OF that] ok that by blast
  moreover have "sectors v' 0 = sectors v 0" "sectors v' d = sectors v d"
    using meta [of 0] meta [of d] sfd by auto
  ultimately show "sys_files v' objs mf bm d df bd" using sfd v'(1) unfolding sys_files_def by metis
  have sysd: "set (data_bl x) \<inter> set bm = {}" "set (data_bl x) \<inter> set bd = {}"
    using owned_unique [OF dj s(1), of 0 "Blocks bm []"] owned_unique [OF dj s(1), of d "Blocks bd []"] s sfd
    by (auto simp: owned_def)
  have wf: "dev_wf v" using sfd by simp
  show "map_stored v' mf fm" if "map_stored v mf fm"
    by (rule map_stored_cong [OF wf v'(1) b(1) that]) (use sysd v'(2) in auto)
  show "dir_stored v' df D" if "dir_stored v df D"
    by (rule dir_stored_cong [OF wf v'(1) b(2) that]) (use sysd v'(2) in auto)
qed

text \<open>Replacing the blocks and the header of a file after it was extended.\<close>

lemma Extend_commit:
  assumes inv: "fs_inv fs objs fm D" and s: "objs s = Some (Blocks bl ib)" "s \<noteq> 0" "s \<noteq> DirectorySector fs"
    and v: "dev_wf v" "\<And>t. t \<in> marked fm - set ib \<Longrightarrow> sectors v t = sectors (disk fs) t"
    and h: "file_blocks v h (bl @ bl') (ib @ ib')"
    and fm': "bitmap_wf fm'" "numBits fm' = 1024" "marked fm' = marked fm \<union> set (bl' @ ib')"
      "set (bl' @ ib') \<inter> marked fm = {}"
  obtains v1 v2 bm bd where "BitMap_WriteBack v (freeMapFile fs) fm' = Some v1"
    "FileHeader_WriteBack v1 h s = Some v2" "dev_wf v2" "decode_hdr (sectors v2 s) = h"
    "sys_files v2 (objs(s \<mapsto> Blocks (bl @ bl') (ib @ ib'))) (freeMapFile fs) bm (DirectorySector fs) (directoryFile fs) bd"
    "map_stored v2 (freeMapFile fs) fm'" "dir_stored v2 (directoryFile fs) D"
    "\<And>t. t \<notin> insert s (set bm) \<Longrightarrow> sectors v2 t = sectors v t"
    "marked fm' = in_use (objs(s \<mapsto> Blocks (bl @ bl') (ib @ ib')))"
    "set bm \<inter> owned s (Blocks (bl @ bl') (ib @ ib')) = {}"
proof -
  note d = fs_invD [OF inv]
  obtain bm bd where sf: "sys_files (disk fs) objs (freeMapFile fs) bm (DirectorySector fs) (directoryFile fs) bd"
    using fs_inv_sys_files [OF inv] .
  let ?x = "Blocks bl ib" and ?y = "Blocks (bl @ bl') (ib @ ib')" and ?o = "objs(s := None)"
  have use: "in_use ?o = marked fm - owned s ?x" using in_use_delete [OF d(13) s(1)] d(10) by simp
  have sf0: "sys_files v ?o (freeMapFile fs) bm (DirectorySector fs) (directoryFile fs) bd"
    by (rule sys_files_disk [OF sys_files_delete [OF sf s(2,3)] v(1)])
      (use use v(2) in \<open>auto simp: owned_def\<close>)
  note b0 = sys_files_blocks [OF sf0] and sfd0 = sf0 [unfolded sys_files_def]
  have stored: "dir_stored v (directoryFile fs) D"
  proof (rule dir_stored_cong [OF d(1) v(1) sys_files_blocks(2) [OF sf] d(4)])
    fix t assume "t \<in> set bd \<union> {}"
    then have "t \<in> in_use ?o" using sfd0 owned_in_use [of ?o "DirectorySector fs"] by (auto simp: owned_def)
    then show "sectors v t = sectors (disk fs) t" using use v(2) by (auto simp: owned_def)
  qed
  have fits: "numBytes (hdr (freeMapFile fs)) = 128" using sfd0 by blast
  obtain v1 where v1: "BitMap_WriteBack v (freeMapFile fs) fm' = Some v1" "dev_wf v1"
    "map_stored v1 (freeMapFile fs) fm'" "\<And>t. t \<notin> set bm \<Longrightarrow> sectors v1 t = sectors v t"
    using WriteBack_map [OF v(1) b0(1) fm'(1,2) fits] by blast
  have sf1: "sys_files v1 ?o (freeMapFile fs) bm (DirectorySector fs) (directoryFile fs) bd"
    by (rule sys_files_write [OF sf0 v1(2)]) (use v1(4) in auto)
  have own_s: "owned s ?x \<subseteq> marked fm" using owned_in_use [of objs s ?x] s(1) d(10) by simp
  have bm: "set bm \<subseteq> in_use ?o" using sfd0 owned_in_use [of ?o 0] by (auto simp: owned_def)
  have dj: "owned s ?y \<inter> in_use ?o = {}"
    using use fm'(4) by (auto simp: owned_def)
  have "file_blocks v1 h (bl @ bl') (ib @ ib') = file_blocks v h (bl @ bl') (ib @ ib')"
  proof (rule file_blocks_cong)
    fix t assume "t \<in> set (ib @ ib')"
    then have "t \<notin> set bm" using bm dj by (auto simp: owned_def)
    then show "sectors v1 t = sectors v t" by (rule v1(4))
  qed
  then have fb1: "file_blocks v1 h (bl @ bl') (ib @ ib')" using h by simp
  have ok: "obj_ok (disk fs) s ?x" using d(14) s(1) by blast
  have sb: "s \<in> {0..<NumSectors}" "s \<notin> set (bl @ bl') \<union> set (ib @ ib')"
    using ok own_s fm'(4) by (auto simp: obj_ok_def owned_def)
  define v2 where "v2 = v1\<lparr>sectors := (sectors v1)(s := encode_hdr h)\<rparr>"
  note ins = sys_files_insert [OF sf1 fb1 v1(2) sb dj, folded v2_def]
  have sfr: "sys_files v2 (objs(s \<mapsto> ?y)) (freeMapFile fs) bm (DirectorySector fs) (directoryFile fs) bd"
    using ins(3) by simp
  have same2: "sectors v2 t = sectors v1 t" if "t \<noteq> s" for t using that by (simp add: v2_def)
  have sbm: "s \<notin> set bm \<union> set bd"
    using sys_files_blocks(4) [OF sfr, of s ?y s] by simp
  have "map_stored v2 (freeMapFile fs) fm'"
  proof (rule map_stored_cong [OF v1(2) ins(2) sys_files_blocks(1) [OF sf1] v1(3)])
    fix t assume "t \<in> set bm \<union> {}"
    then have "t \<noteq> s" using sbm by auto
    then show "sectors v2 t = sectors v1 t" by (rule same2)
  qed
  moreover have "dir_stored v2 (directoryFile fs) D"
  proof (rule dir_stored_cong [OF v(1) ins(2) b0(2) stored])
    fix t assume "t \<in> set bd \<union> {}"
    then have "t \<noteq> s" "t \<notin> set bm" using sbm b0(3) by auto
    then show "sectors v2 t = sectors v t" using same2 v1(4) by simp
  qed
  moreover have "marked fm' = in_use (objs(s \<mapsto> ?y))"
    using in_use_insert [of ?o s ?y] use fm'(3) own_s by (auto simp: owned_def)
  moreover have "set bm \<inter> owned s ?y = {}" using bm dj by blast
  ultimately show ?thesis
    using that [OF v1(1) ins(1,2,4) sfr] same2 v1(4) by simp
qed

text \<open>
  \<open>written\<close>: the state after \<open>data\<close> was written at position \<open>p\<close> of the file with header in \<open>s\<close>; the
  file has become longer where needed and keeps its other bytes.
\<close>

definition written :: "FileSystem \<Rightarrow> objects \<Rightarrow> Directory \<Rightarrow> int \<Rightarrow> byte list \<Rightarrow> nat \<Rightarrow> byte list \<Rightarrow> FileSystem \<Rightarrow> bool" where
  "written fs objs D s old p data fs' \<longleftrightarrow> (\<exists>bl ib fm'. fs_inv fs' (objs(s \<mapsto> Blocks bl ib)) fm' D
     \<and> contents (disk fs') (decode_hdr (sectors (disk fs') s)) bl = take p old @ data @ drop (p + length data) old)"

lemma contents_extend:
  assumes "dev_wf v" "raw_contents v bl = raw_contents v0 bl" "numBytes h \<le> 128 * int (length bl)"
    "numBytes h \<le> numBytes h'"
  shows "take (nat (numBytes h)) (contents v h' (bl @ bl')) = contents v0 h bl"
proof -
  have "nat (numBytes h) \<le> length (raw_contents v bl)" using assms(1,3) by simp
  then show ?thesis
    using assms(2,4) by (simp add: contents_def min_def raw_contents_def)
qed

lemma overlay_beyond:
  assumes "p \<le> m" "take m c = old" "length old = m" "length c = max m (p + length d)"
  shows "overlay c p d = take p old @ d @ drop (p + length d) old"
proof (cases "p + length d \<le> m")
  case True
  then have "c = old" using assms by simp
  then show ?thesis by (simp add: overlay_def)
next
  case False
  then show ?thesis using assms by (auto simp: overlay_def min_def)
qed

lemma WriteUser_commit:
  assumes inv: "fs_inv fs objs fm D" and s: "objs s = Some (Blocks bl ib)" "s \<noteq> 0" "s \<noteq> DirectorySector fs"
    and v: "dev_wf v" "\<And>t. t \<in> marked fm - set ib \<Longrightarrow> sectors v t = sectors (disk fs) t"
    and h: "file_blocks v h' (bl @ bl') (ib @ ib')" "h = decode_hdr (sectors (disk fs) s)"
      "numBytes h' = max (numBytes h) (p + int (length data))"
    and fm': "bitmap_wf fm'" "numBits fm' = 1024" "marked fm' = marked fm \<union> set (bl' @ ib')"
      "set (bl' @ ib') \<inter> marked fm = {}"
    and p: "0 \<le> p" "p \<le> numBytes h" "data \<noteq> []"
  obtains v1 v2 v3 where "BitMap_WriteBack v (freeMapFile fs) fm' = Some v1"
    "FileHeader_WriteBack v1 h' s = Some v2" "OpenFile_new v2 s = Some \<lparr>hdr = h', seekPosition = 0\<rparr>"
    "WriteAt v2 h' data (int (length data)) p = Some (int (length data), v3)"
    "\<And>fs'. freeMapFile fs' = freeMapFile fs \<Longrightarrow> directoryFile fs' = directoryFile fs \<Longrightarrow>
       DirectorySector fs' = DirectorySector fs \<Longrightarrow> unlocked fs' \<Longrightarrow> disk fs' = v3 \<Longrightarrow>
       written fs objs D s (contents (disk fs) h bl) (nat p) data fs' \<and> decode_hdr (sectors v3 s) = h'"
proof -
  note d = fs_invD [OF inv]
  let ?y = "Blocks (bl @ bl') (ib @ ib')" and ?objs = "objs(s \<mapsto> Blocks (bl @ bl') (ib @ ib'))"
  obtain v1 v2 bm bd where c: "BitMap_WriteBack v (freeMapFile fs) fm' = Some v1"
    "FileHeader_WriteBack v1 h' s = Some v2" "dev_wf v2" "decode_hdr (sectors v2 s) = h'"
    "sys_files v2 ?objs (freeMapFile fs) bm (DirectorySector fs) (directoryFile fs) bd"
    "map_stored v2 (freeMapFile fs) fm'" "dir_stored v2 (directoryFile fs) D"
    "\<And>t. t \<notin> insert s (set bm) \<Longrightarrow> sectors v2 t = sectors v t" "marked fm' = in_use ?objs"
    "set bm \<inter> owned s ?y = {}"
    using Extend_commit [OF inv s v h(1) fm'] by blast
  have ok: "obj_ok (disk fs) s (Blocks bl ib)" and ok2: "obj_ok v2 s ?y"
    using d(14) s(1) c(5) by (auto simp: sys_files_def)
  have rng: "0 \<le> s" "s < 1024" "s \<notin> set (bl @ bl')" using ok2 by (auto simp: obj_ok_def)
  have op: "OpenFile_new v2 s = Some \<lparr>hdr = h', seekPosition = 0\<rparr>"
    using rng c(4) by (simp add: OpenFile_new_def FetchFrom_sector)
  have mt: "maps_to v2 h' (bl @ bl') (set (ib @ ib'))"
    using file_blocks_maps_to [OF c(3), of h' "bl @ bl'" "ib @ ib'"] ok2 c(4) by (simp add: obj_ok_def)
  have len: "0 < int (length data)" "p < numBytes h'" using p h(3) by (auto simp: less_max_iff_disj)
  have "min (int (length data)) (numBytes h' - p) = int (length data)" using h(3) by auto
  then obtain v3 where w: "WriteAt v2 h' data (int (length data)) p = Some (int (length data), v3)" "dev_wf v3"
    "\<And>t. t \<notin> set (bl @ bl') \<Longrightarrow> sectors v3 t = sectors v2 t"
    "contents v3 h' (bl @ bl') = overlay (contents v2 h' (bl @ bl')) (nat p) data"
    using WriteAt_spec [OF c(3) mt p(1) len(2,1), of data] by auto
  have sx: "?objs s = Some ?y" by simp
  note wr = sys_files_data [OF c(5) sx s(2,3) w(2)]
  have w3: "\<And>t. t \<notin> set (data_bl ?y) \<Longrightarrow> sectors v3 t = sectors v2 t" using w(3) by simp
  note sf3 = wr(1) [OF w3] and ms3 = wr(2) [OF w3 c(6)] and ds3 = wr(3) [OF w3 c(7)]
  have dec3: "decode_hdr (sectors v3 s) = h'" using w(3) rng(3) c(4) by simp
  have fb: "file_blocks (disk fs) h bl ib" using ok h(2) by (simp add: obj_ok_def)
  have nb: "0 \<le> numBytes h" "numBytes h \<le> 128 * int (length bl)"
    using fb divRoundUp_ge [of "numBytes h"] by (auto simp: file_blocks_def)
  have own: "set bl \<subseteq> marked fm" "set bl \<inter> set ib = {}"
    using owned_in_use [of objs s "Blocks bl ib"] s(1) d(10) fb by (auto simp: owned_def file_blocks_def)
  have raw: "raw_contents v2 bl = raw_contents (disk fs) bl"
  proof (rule raw_contents_cong)
    fix t assume t: "t \<in> set bl"
    then have "t \<notin> insert s (set bm)" using c(10) rng(3) by (auto simp: owned_def)
    then have "sectors v2 t = sectors v t" by (rule c(8))
    also have "\<dots> = sectors (disk fs) t" using v(2) t own by blast
    finally show "sectors v2 t = sectors (disk fs) t" .
  qed
  have nb': "numBytes h' \<le> 128 * int (length (bl @ bl'))" using mt by (simp add: maps_to_def)
  have cont: "contents v3 h' (bl @ bl') = take (nat p) (contents (disk fs) h bl) @ data
      @ drop (nat p + length data) (contents (disk fs) h bl)"
    unfolding w(4)
  proof (rule overlay_beyond [where m = "nat (numBytes h)"])
    show "nat p \<le> nat (numBytes h)" using p by simp
    show "take (nat (numBytes h)) (contents v2 h' (bl @ bl')) = contents (disk fs) h bl"
      by (rule contents_extend [OF c(3) raw nb(2)]) (simp add: h(3))
    show "length (contents (disk fs) h bl) = nat (numBytes h)"
      using nb d(1) by (simp add: contents_def)
    show "length (contents v2 h' (bl @ bl')) = max (nat (numBytes h)) (nat p + length data)"
      using nb' c(3) h(3) p(1) nb(1) by (simp add: contents_def) linarith
  qed
  have vw: "ran (view D) \<subseteq> dom ?objs - {0}" using d(11) by auto
  have "written fs objs D s (contents (disk fs) h bl) (nat p) data fs' \<and> decode_hdr (sectors v3 s) = h'"
    if fs': "freeMapFile fs' = freeMapFile fs" "directoryFile fs' = directoryFile fs"
       "DirectorySector fs' = DirectorySector fs" "unlocked fs'" "disk fs' = v3" for fs'
  proof -
    have "fs_inv fs' ?objs fm' D"
      by (rule fs_inv_commit [OF inv sf3 ms3 ds3 fm'(1,2) c(9) d(6,7) vw d(12) fs'])
    then show ?thesis unfolding written_def using cont dec3 fs'(5) by metis
  qed
  then show ?thesis using that [OF c(1,2) op w(1)] by blast
qed

text \<open>
  A write through a descriptor: either all bytes are written at the seek position, which advances, or
  the disk has not enough free sectors and \<open>-1\<close> is returned.
\<close>

lemma WriteUser_spec:
  assumes inv: "fs_inv fs objs fm D" and ot: "open_table fs" "slots fs i = Some u"
    and s: "objs (id u) = Some (Blocks bl ib)" "id u \<noteq> 0" "id u \<noteq> DirectorySector fs"
    and p: "0 \<le> seekPosition (object u)" "seekPosition (object u) \<le> numBytes h" "data \<noteq> []"
      "seekPosition (object u) + int (length data) \<le> 924 * 128"
    and h: "h = decode_hdr (sectors (disk fs) (id u))"
  shows "(\<exists>fs' u'. WriteUser fs data (int (length data)) i = Some (int (length data), fs')
        \<and> written fs objs D (id u) (contents (disk fs) h bl) (nat (seekPosition (object u))) data fs'
        \<and> slots fs' = (slots fs)(i \<mapsto> u') \<and> open_table fs' \<and> id u' = id u
        \<and> hdr (object u') = decode_hdr (sectors (disk fs') (id u)) \<and> ftype (hdr (object u')) = ftype h
        \<and> seekPosition (object u') = seekPosition (object u) + int (length data))
    \<or> (\<exists>fs'. WriteUser fs data (int (length data)) i = Some (- 1, fs') \<and> numBytes h < seekPosition (object u) + int (length data)
        \<and> 1024 \<le> int (card (marked fm)) + divRoundUp (seekPosition (object u) + int (length data)) 128
             - int (length bl) + 29 \<and> slots fs' = slots fs \<and> open_table fs' \<and> (ib = [] \<longrightarrow> fs_inv fs' objs fm D))"
proof -
  note d = fs_invD [OF inv]
  let ?n = "int (length data)" and ?p = "seekPosition (object u)"
  let ?fs1 = "set_user_file fs i (u\<lparr>mutex := True\<rparr>)"
  have tw: "table_wf fs" using ot(1) by (simp add: open_table_def)
  have rng: "0 \<le> i" "i < 10" "\<not> mutex u" "i \<in> marked (openedFileMap fs)"
    using slots_range [OF tw ot(2)] ot by (auto simp: open_table_def slots_ok_def slots_def split: if_splits)
  have test: "BitMap_Test (openedFileMap fs) i = Some True"
    using tw rng by (auto simp: table_wf_def op_simps)
  have uf: "user_file fs i = Some u" by (rule slots_user_file [OF tw ot(2)])
  have len: "length (openedFiles fs) = 10" by (rule open_table_length [OF ot(1)])
  have un: "\<not> directoryMutex fs" "\<not> freeMapMutex fs" "\<not> openedFileMutex fs" using d(2) by (auto simp: unlocked_def)
  have ff: "fetch_freeMap (?fs1\<lparr>freeMapMutex := True\<rparr>) = Some fm"
    by (rule fs_inv_fetch(2) [OF inv]) (simp_all add: set_user_file_def)
  have ok: "obj_ok (disk fs) (id u) (Blocks bl ib)" using d(14) s(1) by blast
  then have idr: "0 \<le> id u" "id u < 1024" and fb: "file_blocks (disk fs) h bl ib"
    by (auto simp: obj_ok_def h)
  have hd: "FileHeader_FetchFrom (disk fs) (id u) = Some h" using idr by (simp add: FetchFrom_sector h)
  have sub: "set (bl @ ib) \<subseteq> marked fm"
    using owned_in_use [of objs "id u" "Blocks bl ib"] s(1) d(10) by (auto simp: owned_def)
  define ext where "ext = ?p + ?n - numBytes h"
  have fb0: "0 \<le> numBytes h" using fb by (simp add: file_blocks_def)
  obtain okb h' fm' v bl' ib' where e:
    "(if 0 < ext then FileHeader_Extend (disk fs) h fm ext else Some (True, h, fm, disk fs)) = Some (okb, h', fm', v)"
    "ext_ok (disk fs) h fm bl ib (max 0 ext) (okb, h', fm', v) bl' ib'" "\<not> okb \<Longrightarrow> 0 < ext"
  proof (cases "0 < ext")
    case True
    then show ?thesis
      using Extend_spec [OF d(1) fb d(8,9) sub, of ext] p(4) that by (fastforce simp: ext_def max_def)
  next
    case False
    have "ext_ok (disk fs) h fm bl ib 0 (True, h, fm, disk fs) [] []"
      using d(1,8,9) fb by (auto simp: ext_ok_def file_blocks_def)
    then show ?thesis using False that [of True h fm "disk fs" "[]" "[]"] by (simp add: max_def)
  qed
  note x = e(2) [unfolded ext_ok_def, simplified]
  note W = WriteUser_def [of fs data ?n i]
  have pre: "openedFiles fs ! nat i = Some u" "u\<lparr>mutex := False\<rparr> = u" using uf rng(3) by (cases u, simp_all)
  note run = user_file_def set_user_file_def lock_defs Acquire_file_def Release_file_def
    GetSeek_def GetNumBytes_def OpenFile_Seek_def OpenFile_Write_def Let_def
  show ?thesis
  proof (cases okb)
    case False
    let ?fs = "fs\<lparr>disk := v\<rparr>"
    have "WriteUser fs data ?n i = Some (- 1, fs\<lparr>openedFiles := (openedFiles fs)[nat i := Some u], disk := v\<rparr>)"
      using test pre ff hd e(1) False rng len un
      by (cases "0 < ext") (simp_all add: W run ext_def pre(2))
    moreover have "(openedFiles fs)[nat i := Some u] = openedFiles fs" using pre(1) by (metis list_update_id)
    ultimately have "WriteUser fs data ?n i = Some (- 1, ?fs)" by simp
    moreover have "ib = [] \<longrightarrow> fs_inv ?fs objs fm D"
      using fs_inv_disk [OF inv, of ?fs] x d(10) un by (auto simp: unlocked_def)
    moreover have "open_table ?fs \<and> slots ?fs = slots fs"
      using open_table_cong [OF ot(1), of ?fs] by (simp add: same_open_def)
    moreover have "1024 \<le> int (card (marked fm)) + divRoundUp (?p + ?n) 128 - int (length bl) + 29"
    proof -
      have "marked fm \<union> set (bl' @ ib') = {0..<1024}" using x False d(9) by auto
      then have "card {0..<1024::int} \<le> card (marked fm) + card (set (bl' @ ib'))"
        using card_Un_le [of "marked fm" "set (bl' @ ib')"] by metis
      also have "\<dots> \<le> card (marked fm) + length (bl' @ ib')" by (intro add_mono card_length) simp
      finally show ?thesis using x e(3) [OF False] by (simp add: ext_def max_def)
    qed
    ultimately show ?thesis using e(3) [OF False] by (intro disjI2 exI [of _ ?fs]) (auto simp: ext_def)
  next
    case True
    have nb: "numBytes h' = max (numBytes h) (?p + ?n)" using x True by (auto simp: ext_def max_def)
    from x True have c: "dev_wf v" "\<And>t. t \<in> marked fm - set ib \<Longrightarrow> sectors v t = sectors (disk fs) t"
      "file_blocks v h' (bl @ bl') (ib @ ib')" "bitmap_wf fm'" "numBits fm' = 1024"
      "marked fm' = marked fm \<union> set (bl' @ ib')" "set (bl' @ ib') \<inter> marked fm = {}"
      using d(9) by auto
    obtain v1 v2 v3 where w: "BitMap_WriteBack v (freeMapFile fs) fm' = Some v1"
      "FileHeader_WriteBack v1 h' (id u) = Some v2" "OpenFile_new v2 (id u) = Some \<lparr>hdr = h', seekPosition = 0\<rparr>"
      "WriteAt v2 h' data ?n ?p = Some (?n, v3)"
      "\<And>fs'. freeMapFile fs' = freeMapFile fs \<Longrightarrow> directoryFile fs' = directoryFile fs \<Longrightarrow>
         DirectorySector fs' = DirectorySector fs \<Longrightarrow> unlocked fs' \<Longrightarrow> disk fs' = v3 \<Longrightarrow>
         written fs objs D (id u) (contents (disk fs) h bl) (nat ?p) data fs'
         \<and> decode_hdr (sectors v3 (id u)) = h'"
      using WriteUser_commit [OF inv s c(1-3) h nb c(4-7) p(1-3)] by blast
    let ?u = "u\<lparr>object := \<lparr>hdr = h', seekPosition = ?p + ?n\<rparr>, mutex := False\<rparr>"
    let ?fs = "fs\<lparr>openedFiles := (openedFiles fs)[nat i := Some ?u], freeMapMutex := False, disk := v3\<rparr>"
    have "WriteUser fs data ?n i = Some (?n, ?fs)"
      using test pre ff hd e(1) True rng len un w(1-4)
      by (cases "0 < ext") (simp_all add: W run ext_def)
    moreover have "open_table ?fs \<and> slots ?fs = (slots fs)(i \<mapsto> ?u)"
      using open_table_user [OF ot, of ?u ?fs] by simp
    moreover have "written fs objs D (id u) (contents (disk fs) h bl) (nat ?p) data ?fs"
      "decode_hdr (sectors v3 (id u)) = h'"
      using w(5) [of ?fs] un by (simp_all add: unlocked_def)
    moreover have "ftype h' = ftype h" using x True by auto
    ultimately show ?thesis
      by (intro disjI1 exI [of _ ?fs] exI [of _ ?u]) simp
  qed
qed

subsection \<open>Formatting\<close>

lemma Allocate_small:
  assumes "dev_wf v" "hdr_repr h" "bitmap_wf fm" "numBits fm = 1024" "0 \<le> sz" "sz \<le> 28 * 128"
    "which \<in> {DATA_FILE, DIRECTORY, ROOT}" "card (marked fm) \<le> 900"
  obtains h' fm' v' bl where "FileHeader_Allocate v h fm sz which = Some (True, h', fm', v')"
    "bitmap_wf fm'" "numBits fm' = 1024" "dev_wf v'" "marked fm' = marked fm \<union> set bl"
    "set bl \<inter> marked fm = {}" "file_blocks v' h' bl []" "numBytes h' = sz" "ftype h' = which"
    "int (length bl) = divRoundUp sz 128"
proof -
  have dr: "divRoundUp sz 128 \<le> 28" using divRoundUp_le [OF assms(5), of 28] assms(6) by simp
  have "sz \<le> 924 * 128" using assms(6) by simp
  from Allocate_spec [OF assms(1-5) this assms(7)] obtain ok h' fm' v' bl ib where
    a: "FileHeader_Allocate v h fm sz which = Some (ok, h', fm', v')"
      "bitmap_wf fm'" "numBits fm' = 1024" "dev_wf v'" "marked fm' = marked fm \<union> set (bl @ ib)"
      "set (bl @ ib) \<inter> marked fm = {}" "int (length (bl @ ib)) \<le> divRoundUp sz 128 + 29"
      "\<not> ok \<Longrightarrow> marked fm' = {0..<1024}"
      "ok \<Longrightarrow> file_blocks v' h' bl ib \<and> numBytes h' = sz \<and> ftype h' = which"
    by metis
  have ok: ok
  proof (rule ccontr)
    assume "\<not> ok"
    then have "marked fm \<union> set (bl @ ib) = {0..<1024}" using a(5,8) by simp
    then have "card {0..<1024::int} \<le> card (marked fm) + card (set (bl @ ib))"
      using card_Un_le [of "marked fm" "set (bl @ ib)"] by metis
    also have "\<dots> \<le> 900 + length (bl @ ib)" by (intro add_mono card_length assms)
    finally show False using a(7) dr by simp
  qed
  note f = a(9) [OF ok]
  have "int (length bl) = divRoundUp sz 128" using f by (auto simp: file_blocks_def)
  moreover have "ib = []" using f dr by (auto simp: file_blocks_def split: if_splits)
  ultimately show ?thesis using that a ok f by auto
qed

lemma format_spec:
  assumes "dev_wf v"
  obtains fs objs fm where "FileSystem_new v True = Some fs" "fs_inv fs objs fm (Directory_new v 10)"
    "dom objs = {0, 1}" "marked fm = {0, 1} \<union> set (data_bl (the (objs 0))) \<union> set (data_bl (the (objs 1)))"
    "card (marked fm) = 5" "DirectorySector fs = 1"
proof -
  obtain op where op: "BitMap_new (word_junk v) 10 = Some op" "bitmap_wf op" "numBits op = 10" "marked op = {}"
    using new_spec [of 10 "word_junk v"] by auto
  obtain f0 where f0: "BitMap_new (word_junk v) 1024 = Some f0" "bitmap_wf f0" "numBits f0 = 1024" "marked f0 = {}"
    using new_spec [of 1024 "word_junk v"] by auto
  obtain f1 where f1: "BitMap_Mark f0 0 = Some f1" "bitmap_wf f1" "numBits f1 = 1024" "marked f1 = {0}"
    using Mark_spec [OF f0(2), of 0] f0(3,4) by auto
  obtain f2 where f2: "BitMap_Mark f1 1 = Some f2" "bitmap_wf f2" "numBits f2 = 1024" "marked f2 = {0, 1}"
    using Mark_spec [OF f1(2), of 1] f1(3,4) by (auto simp: insert_commute)
  have repr: "hdr_repr (FileHeader_new x)" for x by (simp add: FileHeader_new_def decode_hdr_repr)
  obtain mh f3 v1 bm where a: "FileHeader_Allocate v (FileHeader_new v) f2 128 DATA_FILE = Some (True, mh, f3, v1)"
    "bitmap_wf f3" "numBits f3 = 1024" "dev_wf v1" "marked f3 = {0, 1} \<union> set bm" "set bm \<inter> {0, 1} = {}"
    "file_blocks v1 mh bm []" "numBytes mh = 128" "ftype mh = DATA_FILE" "int (length bm) = divRoundUp 128 128"
    by (rule Allocate_small [OF assms repr [of v] f2(2,3), of 128 DATA_FILE, unfolded f2(4)]) auto
  have lm: "length bm = 1" using a(10) by (simp add: divRoundUp_pos)
  have cm: "card (marked f3) = 3"
  proof -
    have "marked f3 = insert 0 (insert 1 (set bm))" "distinct (0 # 1 # bm)"
      using a(5-7) by (auto simp: file_blocks_def)
    then show ?thesis using distinct_card [of "0 # 1 # bm"] lm by simp
  qed
  obtain dh f4 v2 bd where b: "FileHeader_Allocate v1 (FileHeader_new v1) f3 200 ROOT = Some (True, dh, f4, v2)"
    "bitmap_wf f4" "numBits f4 = 1024" "dev_wf v2" "marked f4 = marked f3 \<union> set bd" "set bd \<inter> marked f3 = {}"
    "file_blocks v2 dh bd []" "numBytes dh = 200" "ftype dh = ROOT" "int (length bd) = divRoundUp 200 128"
    by (rule Allocate_small [OF a(4) repr [of v1] a(2,3), of 200 ROOT]) (use cm in auto)
  have ld: "length bd = 2" using b(10) by (simp add: divRoundUp_pos)
  have reprs: "hdr_repr mh" "hdr_repr dh" using a(7) b(7) by (auto simp: file_blocks_def)
  note enc = length_encode_hdr [OF reprs(1)] length_encode_hdr [OF reprs(2)]
    decode_encode_hdr [OF reprs(1)] decode_encode_hdr [OF reprs(2)]
  define v3 where "v3 = v2\<lparr>sectors := (sectors v2)(0 := encode_hdr mh)\<rparr>"
  define v4 where "v4 = v3\<lparr>sectors := (sectors v3)(1 := encode_hdr dh)\<rparr>"
  have w: "FileHeader_WriteBack v2 mh 0 = Some v3" "FileHeader_WriteBack v3 dh 1 = Some v4"
    using enc by (simp_all add: FileHeader_WriteBack_def WriteSector_def v3_def v4_def)
  have dec: "decode_hdr (sectors v4 0) = mh" "decode_hdr (sectors v4 1) = dh"
    using enc by (simp_all add: v3_def v4_def)
  have wf4: "dev_wf v4" using b(4) enc by (simp add: dev_wf_def v3_def v4_def)
  let ?mf = "\<lparr>hdr = mh, seekPosition = 0\<rparr>" and ?df = "\<lparr>hdr = dh, seekPosition = 0\<rparr>"
  have opn: "OpenFile_new v4 0 = Some ?mf" "OpenFile_new v4 1 = Some ?df"
    using dec by (simp_all add: OpenFile_new_def FetchFrom_sector)
  define objs where "objs = [0 \<mapsto> Blocks bm [], (1::int) \<mapsto> Blocks bd []]"
  have fb: "file_blocks v4 mh bm []" "file_blocks v4 dh bd []"
    using a(7) b(7) file_blocks_cong [of "[]" v4 v1] file_blocks_cong [of "[]" v4 v2] by simp_all
  have sf: "sys_files v4 objs ?mf bm 1 ?df bd"
    using wf4 fb dec a(5,6,8) b(5,6,8)
    by (auto simp: sys_files_def objs_def obj_ok_def disjoint_objs_def owned_def split: if_splits)
  obtain v5 v6 where c: "BitMap_WriteBack v4 ?mf f4 = Some v5" "Directory_WriteBack v5 ?df (Directory_new v 10) = Some v6"
    "sys_files v6 objs ?mf bm 1 ?df bd" "map_stored v6 ?mf f4" "dir_stored v6 ?df (Directory_new v 10)"
    using write_back_both(1) [OF sf b(2,3), of "Directory_new v 10"] Directory_new_wf [of 10 v] by auto
  let ?fs = "\<lparr>disk = v6, freeMapFile = ?mf, freeMapMutex = False, directoryFile = ?df,
       directoryMutex = False, DirectorySector = 1, openedFileMap = op,
       openedFileMutex = False, openedFiles = replicate 10 None\<rparr>"
  have "FileSystem_new v True = Some ?fs"
    using op(1) f0(1) f1(1) f2(1) a(1) b(1) w opn c(1,2) by (simp add: FileSystem_new_def FileSystem_format_def)
  moreover have use: "marked f4 = in_use objs"
    using a(5) b(5) by (simp add: objs_def in_use_insert in_use_empty owned_def Un_ac insert_commute)
  have "fs_inv ?fs objs f4 (Directory_new v 10)"
    by (rule fs_invI [where bm = bm and bd = bd])
      (use c use b(2,3,9) Directory_new_wf [of 10 v] in \<open>simp_all add: unlocked_def IsDirectory_def\<close>)
  moreover have "card (marked f4) = 5"
  proof -
    have "distinct bd" using b(7) by (simp add: file_blocks_def)
    then show ?thesis
      using cm b(5,6) ld card_Un_disjoint [of "marked f3" "set bd"] distinct_card [of bd] by (simp add: Int_commute)
  qed
  moreover have "dom objs = {0, 1}" by (auto simp: objs_def)
  ultimately show ?thesis using that [of ?fs objs f4] a(5) b(5) by (simp add: objs_def)
qed

subsection \<open>Descriptors\<close>

lemma open_slot:
  assumes "open_table fs" "slots fs i = Some u"
  shows "0 \<le> i" "i < 10" "\<not> mutex u" "BitMap_Test (openedFileMap fs) i = Some True"
    "openedFiles fs ! nat i = Some u" "length (openedFiles fs) = 10"
proof -
  have tw: "table_wf fs" using assms(1) by (simp add: open_table_def)
  show rng: "0 \<le> i" "i < 10" using slots_range [OF tw assms(2)] by simp_all
  show "\<not> mutex u" using assms by (auto simp: open_table_def slots_ok_def)
  show "openedFiles fs ! nat i = Some u" using slots_user_file [OF tw assms(2)] by simp
  show "BitMap_Test (openedFileMap fs) i = Some True"
    using tw rng assms(2) by (auto simp: table_wf_def op_simps slots_def split: if_splits)
  show "length (openedFiles fs) = 10" by (rule open_table_length [OF assms(1)])
qed

lemma fs_inv_same:
  assumes "fs_inv fs objs fm D" "disk fs' = disk fs" "freeMapFile fs' = freeMapFile fs"
    "directoryFile fs' = directoryFile fs" "DirectorySector fs' = DirectorySector fs" "unlocked fs'"
  shows "fs_inv fs' objs fm D"
  by (rule fs_inv_disk [OF assms(1) _ _ assms(3-6)]) (use assms(2) fs_invD(1) [OF assms(1)] in simp_all)

lemma OpenUser_spec:
  assumes inv: "fs_inv fs objs fm D" and ot: "open_table fs" and s: "view D (key nm) = Some s"
    and h: "h = decode_hdr (sectors (disk fs) s)" "IsDataFile h" "\<forall>i u. slots fs i = Some u \<longrightarrow> id u \<noteq> s"
    and free: "dom (slots fs) \<noteq> {0..<10}"
  shows "\<exists>i fs'. OpenUser fs nm = Some (i, fs') \<and> slots fs i = None
    \<and> slots fs' = (slots fs)(i \<mapsto> \<lparr>object = \<lparr>hdr = h, seekPosition = 0\<rparr>, id = s, mutex = False\<rparr>)
    \<and> fs_inv fs' objs fm D \<and> open_table fs' \<and> disk fs' = disk fs \<and> DirectorySector fs' = DirectorySector fs"
proof -
  note d = fs_invD [OF inv]
  have un: "\<not> directoryMutex fs" "\<not> freeMapMutex fs" "\<not> openedFileMutex fs" using d(2) by (auto simp: unlocked_def)
  have tw: "table_wf fs" "slots_ok (slots fs)" using ot by (auto simp: open_table_def)
  have fd: "fetch_directory (fs\<lparr>directoryMutex := True\<rparr>) = Some D" by (rule fs_inv_fetch(1) [OF inv]) simp_all
  have sec: "Directory_Find D nm = s" "0 < s" "s < 1024" using Find_fs(2) [OF inv s] by auto
  have hd: "FileHeader_FetchFrom (disk fs) s = Some h" using sec by (simp add: FetchFrom_sector h)
  have io: "is_opened (fs\<lparr>directoryMutex := False, openedFileMutex := True\<rparr>) s 10 = Some False"
    using is_opened_all [of "fs\<lparr>directoryMutex := False, openedFileMutex := True\<rparr>" s] tw(1) h(3) by auto
  have wfm: "bitmap_wf (openedFileMap fs)" "numBits (openedFileMap fs) = 10"
    using tw(1) by (auto simp: table_wf_def)
  from wfm(1) obtain k m where f: "BitMap_Find (openedFileMap fs) = Some (k, m)" "k \<noteq> - 1"
  proof (cases rule: Find_cases)
    case full
    then have "dom (slots fs) = {0..<10}" using tw(1) wfm(2) by (simp add: table_wf_def)
    then show ?thesis using free by simp
  qed (use that in auto)
  let ?u = "\<lparr>object = \<lparr>hdr = h, seekPosition = 0\<rparr>, id = s, mutex = False\<rparr>"
  let ?fs = "set_user_file (fs\<lparr>openedFileMap := m\<rparr>) k ?u"
  have run: "OpenUser fs nm = Some (k, ?fs)"
    using un fd sec hd h(2) io f
    by (simp add: OpenUser_def lock_defs OpenFile_new_def set_user_file_def Let_def)
  note sl = slots_alloc(1,2) [OF tw(1) f, of ?u] slots_alloc(3) [OF tw(1) f]
  have "open_table ?fs"
    using sl slots_ok_insert [OF tw(2), of ?u k] h(3) by (auto simp: open_table_def)
  moreover have "fs_inv ?fs objs fm D"
    by (rule fs_inv_same [OF inv]) (use un in \<open>simp_all add: unlocked_def\<close>)
  ultimately show ?thesis using run sl by (intro exI [of _ k] exI [of _ ?fs]) simp
qed

lemma ReadUser_spec:
  fixes n :: int
  assumes inv: "fs_inv fs objs fm D" and ot: "open_table fs" "slots fs i = Some u"
    and s: "objs (id u) = Some (Blocks bl ib)" and h: "hdr (object u) = decode_hdr (sectors (disk fs) (id u))"
    and p: "0 \<le> seekPosition (object u)"
  defines "bs \<equiv> take (nat n) (drop (nat (seekPosition (object u))) (contents (disk fs) (hdr (object u)) bl))"
  shows "\<exists>fs' u'. ReadUser fs n i = Some (int (length bs), bs, fs') \<and> fs_inv fs' objs fm D \<and> disk fs' = disk fs
    \<and> open_table fs' \<and> slots fs' = (slots fs)(i \<mapsto> u') \<and> id u' = id u \<and> hdr (object u') = hdr (object u)
    \<and> seekPosition (object u') = seekPosition (object u) + int (length bs)"
proof -
  note d = fs_invD [OF inv] and o = open_slot [OF ot]
  have "file_blocks (disk fs) (hdr (object u)) bl ib" using d(14) [OF s] h by (simp add: obj_ok_def)
  then have mt: "maps_to (disk fs) (hdr (object u)) bl (set ib)" by (rule file_blocks_maps_to [OF d(1)])
  have rd: "ReadAt (disk fs) (hdr (object u)) n (seekPosition (object u)) = Some bs"
    unfolding bs_def by (rule ReadAt_spec [OF d(1) mt p])
  let ?u = "u\<lparr>object := (object u)\<lparr>seekPosition := seekPosition (object u) + int (length bs)\<rparr>, mutex := False\<rparr>"
  let ?fs = "fs\<lparr>openedFiles := (openedFiles fs)[nat i := Some ?u]\<rparr>"
  have "ReadUser fs n i = Some (int (length bs), bs, ?fs)"
    using o rd by (simp add: ReadUser_def Acquire_file_def Release_file_def user_file_def set_user_file_def
        OpenFile_Read_def Let_def)
  moreover have "open_table ?fs \<and> slots ?fs = (slots fs)(i \<mapsto> ?u)"
    using open_table_user [OF ot, of ?u ?fs] by simp
  moreover have "fs_inv ?fs objs fm D"
    by (rule fs_inv_same [OF inv]) (use d(2) in \<open>simp_all add: unlocked_def\<close>)
  ultimately show ?thesis by (intro exI [of _ ?fs] exI [of _ ?u]) simp
qed

lemma SeekUser_spec:
  assumes inv: "fs_inv fs objs fm D" and ot: "open_table fs" "slots fs i = Some u"
    and p: "0 \<le> p" "p < numBytes (hdr (object u))"
  shows "\<exists>fs' u'. SeekUser fs i p = Some (0, fs') \<and> fs_inv fs' objs fm D \<and> disk fs' = disk fs
    \<and> open_table fs' \<and> slots fs' = (slots fs)(i \<mapsto> u') \<and> id u' = id u \<and> hdr (object u') = hdr (object u)
    \<and> seekPosition (object u') = p"
proof -
  note d = fs_invD [OF inv] and o = open_slot [OF ot]
  have sm: "p smod numBytes (hdr (object u)) = p"
    using p by (auto simp: signed_modulo_int_def signed_divide_int_def sgn_if)
  let ?u = "u\<lparr>object := (object u)\<lparr>seekPosition := p\<rparr>, mutex := False\<rparr>"
  let ?fs = "fs\<lparr>openedFiles := (openedFiles fs)[nat i := Some ?u]\<rparr>"
  have "SeekUser fs i p = Some (0, ?fs)"
    using o p sm by (simp add: SeekUser_def Acquire_file_def Release_file_def user_file_def set_user_file_def
        OpenFile_Seek_def OpenFile_Length_def FileLength_def Let_def)
  moreover have "open_table ?fs \<and> slots ?fs = (slots fs)(i \<mapsto> ?u)"
    using open_table_user [OF ot, of ?u ?fs] by simp
  moreover have "fs_inv ?fs objs fm D"
    by (rule fs_inv_same [OF inv]) (use d(2) in \<open>simp_all add: unlocked_def\<close>)
  ultimately show ?thesis by (intro exI [of _ ?fs] exI [of _ ?u]) simp
qed

subsection \<open>Properties\<close>

abbreviation blank_disk :: dev where
  "blank_disk \<equiv> \<lparr>sectors = (\<lambda>_. replicate 128 0), junk = (\<lambda>_. 85)\<rparr>"

lemma blank_wf: "dev_wf blank_disk"
  by (simp add: dev_wf_def)

lemma format_open:
  assumes "dev_wf v"
  shows "\<exists>fs objs fm. FileSystem_new v True = Some fs \<and> fs_inv fs objs fm (Directory_new v 10)
    \<and> dom objs = {0, 1} \<and> card (marked fm) = 5 \<and> DirectorySector fs = 1 \<and> open_table fs
    \<and> slots fs = Map.empty \<and> view (Directory_new v 10) = Map.empty"
proof -
  obtain fs objs fm where f: "FileSystem_new v True = Some fs" "fs_inv fs objs fm (Directory_new v 10)"
    "dom objs = {0, 1}" "card (marked fm) = 5" "DirectorySector fs = 1"
    by (rule format_spec [OF assms], rule that, assumption+)
  then show ?thesis using postD [OF new_frame f(1)] Directory_new_wf [of 10 v] by auto
qed

text \<open>
  Formatting any disk gives a consistent file system: the free map on disk marks exactly the sectors
  in use, which are the two headers in sectors 0 and 1, one data sector of the free map and two data
  sectors of the root directory; the root directory is empty and no file is open.
\<close>

lemma format_consistent:
  assumes "dev_wf v"
  shows "\<exists>fs objs fm D. FileSystem_new v True = Some fs \<and> fs_inv fs objs fm D \<and> dom objs = {0, 1}
    \<and> card (marked fm) = 5 \<and> view D = Map.empty \<and> slots fs = Map.empty"
  using format_open [OF assms] by blast

text \<open>
  C14. \<open>Create\<close> on a consistent file system never aborts and leaves it consistent. It succeeds only for a
  name that is not \<open>.\<close> or \<open>..\<close>, is not in the directory and with a free directory entry; then the name
  denotes a new data file of the requested size in sectors that were free. It fails only for one of
  these reasons or because the disk is (nearly) full, and then the free map, the directory and all files
  are as before. No sector of another file changes in any case.
\<close>

theorem create_consistent:
  assumes "fs_inv fs objs fm D" "0 \<le> n" "n \<le> 924 * 128"
  shows "\<exists>b fs'. Create fs nm n = Some (b, fs') \<and> others_same fs objs fs'
    \<and> (if b then created fs objs D nm n fs' else fs_inv fs' objs fm D)
    \<and> (b \<longrightarrow> \<not> protected_name nm \<and> view D (key nm) = None \<and> card (dom (view D)) < 10)
    \<and> (\<not> b \<longrightarrow> protected_name nm \<or> view D (key nm) \<noteq> None \<or> card (dom (view D)) \<ge> 10
         \<or> 1024 \<le> int (card (marked fm)) + divRoundUp n 128 + 30)"
  by (rule Create_spec [OF assms])

theorem create_consistent_witness:
  "\<exists>fs fs'. FileSystem_new blank_disk True = Some fs \<and> Create fs [97] 1000 = Some (True, fs')"
proof -
  obtain fs objs fm where f: "FileSystem_new blank_disk True = Some fs"
    "fs_inv fs objs fm (Directory_new blank_disk 10)" "card (marked fm) = 5"
    "view (Directory_new blank_disk 10) = Map.empty"
    using format_open [OF blank_wf] by blast
  have "divRoundUp 1000 128 = 8" "\<not> protected_name [97]"
    by (simp_all add: divRoundUp_pos protected_name_def streq_def)
  then show ?thesis using create_consistent [OF f(2), of 1000 "[97]"] f(1,3,4) by fastforce
qed



lemma created_blocks:
  assumes "fs_inv fs' (objs(s \<mapsto> Blocks bl ib)) fm' D'" "numBytes (decode_hdr (sectors (disk fs') s)) = n"
  shows "int (length bl) = divRoundUp n 128" "length bl \<le> 28 \<Longrightarrow> ib = []"
proof -
  have "obj_ok (disk fs') s (Blocks bl ib)" using fs_invD(14) [OF assms(1), of s] by simp
  then show "int (length bl) = divRoundUp n 128" "length bl \<le> 28 \<Longrightarrow> ib = []"
    using assms(2) by (auto simp: obj_ok_def file_blocks_def)
qed

text \<open>
  Creating a file and removing it again leaks nothing: when \<open>Create\<close> succeeds (for a size that does
  not need exactly 28 sectors), a following \<open>Remove\<close> of the same name succeeds, and afterwards the same
  sectors are in use and the same names are in the directory as before both calls.
\<close>

lemma create_remove_no_leak:
  assumes inv: "fs_inv fs objs fm D" and ot: "open_table fs" "\<forall>i u. slots fs i = Some u \<longrightarrow> id u \<in> dom objs"
    and c: "Create fs nm n = Some (True, fs1)" and n: "0 \<le> n" "n \<le> 924 * 128" "divRoundUp n 128 \<noteq> 28"
  shows "\<exists>fs2 fm2 D2. Remove fs1 nm = Some (True, fs2) \<and> fs_inv fs2 objs fm2 D2
    \<and> marked fm2 = marked fm \<and> view D2 = view D"
proof -
  have "created fs objs D nm n fs1" and new: "view D (key nm) = None"
    using Create_spec [OF inv n(1,2), of nm] c by auto
  then obtain s bl ib fm1 D1 where s: "objs s = None" "fs_inv fs1 (objs(s \<mapsto> Blocks bl ib)) fm1 D1"
    "view D1 = (view D)(key nm \<mapsto> s)" "numBytes (decode_hdr (sectors (disk fs1) s)) = n"
    "IsDataFile (decode_hdr (sectors (disk fs1) s))"
    by (auto simp: created_def)
  have so: "same_open fs fs1" using postD [OF Create_frame [OF fs_invD(2) [OF inv]] c] by simp
  then have ot1: "open_table fs1" "slots fs1 = slots fs" using open_table_cong [OF ot(1)] slots_cong by blast+
  have "length bl \<noteq> 28" using created_blocks(1) [OF s(2,4)] n(3) by simp
  moreover have "\<forall>i u. slots fs1 i = Some u \<longrightarrow> id u \<noteq> s" using ot1(2) ot(2) s(1) by auto
  ultimately obtain fs2 where r: "Remove fs1 nm = Some (True, fs2)" "removed (objs(s \<mapsto> Blocks bl ib)) D1 nm s fs2"
    using Remove_spec_fs [OF s(2) ot1(1), of nm] s(3,5) by auto
  then obtain fm2 D2 where f: "fs_inv fs2 objs fm2 D2" "view D2 = view D"
    using s(1,3) new by (auto simp: removed_def fun_upd_idem)
  moreover have "marked fm2 = marked fm" using fs_invD(10) [OF f(1)] fs_invD(10) [OF inv] by simp
  ultimately show ?thesis using r(1) by blast
qed

lemma contents_length:
  assumes "fs_inv fs (objs(s \<mapsto> Blocks bl ib)) fm D"
  shows "numBytes (decode_hdr (sectors (disk fs) s))
    = int (length (contents (disk fs) (decode_hdr (sectors (disk fs) s)) bl))"
proof -
  have "obj_ok (disk fs) s (Blocks bl ib)" using fs_invD(14) [OF assms, of s] by simp
  then have "0 \<le> numBytes (decode_hdr (sectors (disk fs) s))"
    "numBytes (decode_hdr (sectors (disk fs) s)) \<le> 128 * int (length bl)"
    using divRoundUp_ge [of "numBytes (decode_hdr (sectors (disk fs) s))"]
    by (auto simp: obj_ok_def file_blocks_def)
  then show ?thesis using fs_invD(1) [OF assms] by (simp add: contents_def)
qed

text \<open>
  The calls of a user program that creates an empty file and opens it, from a formatted disk; the
  descriptor, the state and the consistency facts the next calls rely on.
\<close>

lemma create_open:
  assumes v: "dev_wf v" and nm: "\<not> protected_name nm"
  shows "\<exists>fs fs1 fs2 i s objs fm D. FileSystem_new v True = Some fs \<and> Create fs nm 0 = Some (True, fs1)
    \<and> OpenUser fs1 nm = Some (i, fs2) \<and> fs_inv fs2 objs fm D \<and> open_table fs2
    \<and> slots fs2 i = Some \<lparr>object = \<lparr>hdr = decode_hdr (sectors (disk fs2) s), seekPosition = 0\<rparr>, id = s, mutex = False\<rparr>
    \<and> objs s = Some (Blocks [] []) \<and> s \<noteq> 0 \<and> s \<noteq> DirectorySector fs2 \<and> card (marked fm) = 6
    \<and> numBytes (decode_hdr (sectors (disk fs2) s)) = 0 \<and> view D (key nm) = Some s
    \<and> IsDataFile (decode_hdr (sectors (disk fs2) s)) \<and> dom (slots fs2) = {i}"
proof -
  obtain fs objs fm where f: "FileSystem_new v True = Some fs" "fs_inv fs objs fm (Directory_new v 10)"
    "dom objs = {0, 1}" "card (marked fm) = 5" "DirectorySector fs = 1" "open_table fs" "slots fs = Map.empty"
    "view (Directory_new v 10) = Map.empty"
    using format_open [OF v] by blast
  obtain fs1 where c: "Create fs nm 0 = Some (True, fs1)" "created fs objs (Directory_new v 10) nm 0 fs1"
    using Create_spec [OF f(2), of 0 nm] f(4,8) nm by (fastforce simp: divRoundUp_pos)
  from c(2) obtain s bl ib fm1 D1 where s: "objs s = None" "fs_inv fs1 (objs(s \<mapsto> Blocks bl ib)) fm1 D1"
    "view D1 = [key nm \<mapsto> s]" "numBytes (decode_hdr (sectors (disk fs1) s)) = 0"
    "IsDataFile (decode_hdr (sectors (disk fs1) s))"
    using f(8) by (auto simp: created_def)
  have bl: "bl = []" "ib = []" using created_blocks [OF s(2,4)] by (simp_all add: divRoundUp_pos)
  have so: "same_open fs fs1" using postD [OF Create_frame [OF fs_invD(2) [OF f(2)]] c(1)] by simp
  then have ot1: "open_table fs1" "slots fs1 = Map.empty" using open_table_cong [OF f(6)] slots_cong f(7) by metis+
  have sd: "s \<notin> {0, 1}" using s(1) f(3) by auto
  have "marked fm1 = insert s (marked fm)"
    using fs_invD(10) [OF s(2)] fs_invD(10) [OF f(2)] in_use_insert [of objs s "Blocks bl ib"] s(1) bl
    by (simp add: owned_def)
  moreover have "s \<notin> marked fm"
  proof
    assume "s \<in> marked fm"
    then obtain t x where t: "objs t = Some x" "s \<in> owned t x"
      using fs_invD(10) [OF f(2)] by (auto simp: in_use_def)
    have "t \<noteq> s" using t(1) s(1) by auto
    moreover have "(objs(s \<mapsto> Blocks bl ib)) t = Some x" using t(1) \<open>t \<noteq> s\<close> by simp
    moreover have "(objs(s \<mapsto> Blocks bl ib)) s = Some (Blocks bl ib)" "s \<in> owned s (Blocks bl ib)"
      by (simp_all add: owned_def)
    ultimately show False using owned_unique [OF fs_invD(13) [OF s(2)], of t x s] t(2) by blast
  qed
  ultimately have card: "card (marked fm1) = 6" using f(4) by simp
  have ds: "DirectorySector fs1 \<noteq> s"
  proof
    assume "DirectorySector fs1 = s"
    then have "hdr (directoryFile fs1) = decode_hdr (sectors (disk fs1) s)" "IsDirectory (hdr (directoryFile fs1))"
      using s(2) by (auto simp: fs_inv_def)
    then show False using s(5) by (auto simp: IsDirectory_def IsDataFile_def)
  qed
  have "dom (slots fs1) \<noteq> {0..<10}" using ot1(2) by simp
  from OpenUser_spec [OF s(2) ot1(1) _ refl s(5) _ this, of nm] ot1(2) s(3)
  obtain i fs2 where o: "OpenUser fs1 nm = Some (i, fs2)" "disk fs2 = disk fs1" "open_table fs2"
    "DirectorySector fs2 = DirectorySector fs1" "fs_inv fs2 (objs(s \<mapsto> Blocks [] [])) fm1 D1"
    "slots fs2 i = Some \<lparr>object = \<lparr>hdr = decode_hdr (sectors (disk fs1) s), seekPosition = 0\<rparr>, id = s, mutex = False\<rparr>"
    "dom (slots fs2) = {i}"
    using bl by auto
  show ?thesis
    by (intro exI [of _ fs] exI [of _ fs1] exI [of _ fs2] exI [of _ i] exI [of _ s]
        exI [of _ "objs(s \<mapsto> Blocks [] [])"] exI [of _ fm1] exI [of _ D1])
      (use f(1) c(1) o s(3,4,5) sd ds card in simp)
qed



lemma user_file_cycle:
  assumes v: "dev_wf v" and nm: "\<not> protected_name nm"
    and data: "data \<noteq> []" "length data \<le> 924 * 128"
  shows "\<exists>fs fs1 fs2 fs3 fs4 fs5 i. FileSystem_new v True = Some fs \<and> Create fs nm 0 = Some (True, fs1)
    \<and> OpenUser fs1 nm = Some (i, fs2) \<and> WriteUser fs2 data (int (length data)) i = Some (int (length data), fs3)
    \<and> SeekUser fs3 i 0 = Some (0, fs4) \<and> ReadUser fs4 (int (length data)) i = Some (int (length data), data, fs5)
    \<and> 0 \<le> i \<and> i < 10"
proof -
  from create_open [OF v nm] obtain fs fs1 fs2 i s objs fm D where
    c: "FileSystem_new v True = Some fs" "Create fs nm 0 = Some (True, fs1)" "OpenUser fs1 nm = Some (i, fs2)"
    and f: "fs_inv fs2 objs fm D" "open_table fs2"
      "slots fs2 i = Some \<lparr>object = \<lparr>hdr = decode_hdr (sectors (disk fs2) s), seekPosition = 0\<rparr>, id = s, mutex = False\<rparr>"
      "objs s = Some (Blocks [] [])" "s \<noteq> 0" "s \<noteq> DirectorySector fs2" "card (marked fm) = 6"
      "numBytes (decode_hdr (sectors (disk fs2) s)) = 0"
    by blast
  let ?n = "int (length data)"
  have "divRoundUp ?n 128 \<le> 924" by (rule divRoundUp_le) (use data(2) in auto)
  then obtain fs3 u where w: "WriteUser fs2 data ?n i = Some (?n, fs3)" "written fs2 objs D s [] 0 data fs3"
    "slots fs3 = (slots fs2)(i \<mapsto> u)" "open_table fs3" "id u = s" "hdr (object u) = decode_hdr (sectors (disk fs3) s)"
    using WriteUser_spec [OF f(1-3), of "[]" "[]" "decode_hdr (sectors (disk fs2) s)" data] f(4-8) data
    by (auto simp: contents_def raw_contents_def)
  then obtain bl ib fm3 where i3: "fs_inv fs3 (objs(s \<mapsto> Blocks bl ib)) fm3 D"
    "contents (disk fs3) (decode_hdr (sectors (disk fs3) s)) bl = data"
    by (auto simp: written_def)
  have u3: "slots fs3 i = Some u" using w(3) by simp
  have nb: "numBytes (hdr (object u)) = ?n"
    using contents_length [OF i3(1)] i3(2) w(6) by simp
  from SeekUser_spec [OF i3(1) w(4) u3, of 0] nb data(1) obtain fs4 u4 where
    k: "SeekUser fs3 i 0 = Some (0, fs4)" "fs_inv fs4 (objs(s \<mapsto> Blocks bl ib)) fm3 D" "disk fs4 = disk fs3"
      "open_table fs4" "slots fs4 i = Some u4" "id u4 = s" "hdr (object u4) = hdr (object u)" "seekPosition (object u4) = 0"
    using w(5) by auto
  have "\<exists>fs5. ReadUser fs4 ?n i = Some (?n, data, fs5)"
    using ReadUser_spec [OF k(2,4,5), of bl ib ?n] k(3,6-8) w(6) i3(2) by auto
  moreover have "0 \<le> i \<and> i < 10" using slots_range [OF _ u3] w(4) by (simp add: open_table_def)
  ultimately show ?thesis using c w(1) k(1) by blast
qed

text \<open>
  C11. What a user program stores it gets back: on a freshly formatted disk, creating an empty file,
  opening it, writing any bytes (up to 118272, 924 sectors), seeking back to the start and reading as
  many bytes returns exactly the bytes written, and each of the calls succeeds.
\<close>

theorem user_file_roundtrip:
  assumes v: "dev_wf v" and nm: "\<not> protected_name nm"
    and data: "data \<noteq> []" "length data \<le> 924 * 128"
  shows "\<exists>fs fs1 fs2 fs3 fs4 fs5 i. FileSystem_new v True = Some fs \<and> Create fs nm 0 = Some (True, fs1)
    \<and> OpenUser fs1 nm = Some (i, fs2) \<and> WriteUser fs2 data (int (length data)) i = Some (int (length data), fs3)
    \<and> SeekUser fs3 i 0 = Some (0, fs4) \<and> ReadUser fs4 (int (length data)) i = Some (int (length data), data, fs5)"
  using user_file_cycle [OF assms] by blast

theorem user_file_roundtrip_witness:
  "\<exists>fs fs1 fs2 fs3 fs4 fs5 i. FileSystem_new blank_disk True = Some fs \<and> Create fs [97] 0 = Some (True, fs1)
    \<and> OpenUser fs1 [97] = Some (i, fs2) \<and> WriteUser fs2 [7, 8, 9] 3 i = Some (3, fs3)
    \<and> SeekUser fs3 i 0 = Some (0, fs4) \<and> ReadUser fs4 3 i = Some (3, [7, 8, 9], fs5)"
proof -
  have "\<not> protected_name [97]" by (simp add: protected_name_def streq_def)
  then show ?thesis using user_file_roundtrip [OF blank_wf, of "[97]" "[7, 8, 9]"] by simp
qed

end
