(* ===== verification/Machine.thy ===== *)
theory Machine
  imports Prelude
begin

text \<open>
  The simulated machine seen by user programs: registers, physical memory and address translation
  (src/code/machine/machine.cc, machine.h, translate.cc, translate.h).

  A register is a 32-bit word; \<open>sint\<close> reads it as the \<open>int\<close> it is in the source, and additions wrap. Physical
  memory is a function on addresses; every access outside \<open>0..<MemorySize\<close> is \<open>None\<close>, as is every failed
  \<open>ASSERT\<close>. The page table and the TLB are optional lists of entries (\<open>None\<close> is the null pointer).
  Traps enter the kernel through \<open>ExceptionHandler\<close>, a function argument \<open>eh\<close> of the routines that can
  trap: it receives the cause and the machine, and returns the machine when the kernel returns to user
  mode. Lemmas state what they need of it.
\<close>

abbreviation PageSize :: nat where "PageSize \<equiv> 128"
abbreviation NumPhysPages :: nat where "NumPhysPages \<equiv> 2096"
abbreviation MemorySize :: nat where "MemorySize \<equiv> 268288"
abbreviation TLBSize :: nat where "TLBSize \<equiv> 4"
abbreviation NumTotalRegs :: nat where "NumTotalRegs \<equiv> 40"

abbreviation StackReg :: nat where "StackReg \<equiv> 29"
abbreviation R31 :: nat where "R31 \<equiv> 31"
abbreviation HiReg :: nat where "HiReg \<equiv> 32"
abbreviation LoReg :: nat where "LoReg \<equiv> 33"
abbreviation PCReg :: nat where "PCReg \<equiv> 34"
abbreviation NextPCReg :: nat where "NextPCReg \<equiv> 35"
abbreviation PrevPCReg :: nat where "PrevPCReg \<equiv> 36"
abbreviation LoadReg :: nat where "LoadReg \<equiv> 37"
abbreviation LoadValueReg :: nat where "LoadValueReg \<equiv> 38"
abbreviation BadVAddrReg :: nat where "BadVAddrReg \<equiv> 39"

datatype ExceptionType = NoException | SyscallException | PageFaultException | ReadOnlyException
  | BusErrorException | AddressErrorException | OverflowException | IllegalInstrException

datatype MachineStatus = IdleMode | SystemMode | UserMode

record TranslationEntry =
  virtualPage :: u32
  physicalPage :: u32
  valid :: bool
  readOnly :: bool
  use :: bool
  dirty :: bool

record Machine =
  mainMemory :: "nat \<Rightarrow> byte"
  registers :: "u32 list"
  tlb :: "TranslationEntry list option"
  pageTable :: "TranslationEntry list option"
  pageTableSize :: u32
  singleStep :: bool
  status :: MachineStatus

type_synonym handler = "ExceptionType \<Rightarrow> Machine \<Rightarrow> Machine option"

subsection \<open>Registers and traps (machine.cc)\<close>

text \<open>The constructor leaves \<open>pageTableSize\<close> unset: it keeps the value \<open>junk\<close> that was there.\<close>

definition Machine_new :: "u32 \<Rightarrow> bool \<Rightarrow> Machine" where
  "Machine_new junk debug = \<lparr>mainMemory = (\<lambda>_. 0), registers = replicate NumTotalRegs 0, tlb = None,
     pageTable = None, pageTableSize = junk, singleStep = debug, status = SystemMode\<rparr>"

definition ReadRegister :: "Machine \<Rightarrow> int \<Rightarrow> u32 option" where
  "ReadRegister m num = do {
     ASSERT (num \<ge> 0 \<and> num < int NumTotalRegs);
     Some (registers m ! nat num)
   }"

definition WriteRegister :: "Machine \<Rightarrow> int \<Rightarrow> u32 \<Rightarrow> Machine option" where
  "WriteRegister m num val = do {
     ASSERT (num \<ge> 0 \<and> num < int NumTotalRegs);
     Some (m\<lparr>registers := (registers m)[nat num := val]\<rparr>)
   }"

abbreviation reg :: "Machine \<Rightarrow> nat \<Rightarrow> u32" where
  "reg m k \<equiv> registers m ! k"

definition set_reg :: "Machine \<Rightarrow> nat \<Rightarrow> u32 \<Rightarrow> Machine" where
  "set_reg m k x = m\<lparr>registers := (registers m)[k := x]\<rparr>"

text \<open>
  \<open>DelayedLoad\<close> (mipssim.cc) stores through the register number in \<open>LoadReg\<close>, which is any word when the
  kernel has written it.
\<close>

definition DelayedLoad :: "Machine \<Rightarrow> u32 \<Rightarrow> u32 \<Rightarrow> Machine option" where
  "DelayedLoad m nextReg nextValue = do {
     ASSERT (sint (reg m LoadReg) \<ge> 0 \<and> sint (reg m LoadReg) < int NumTotalRegs);
     let m = set_reg m (unat (reg m LoadReg)) (reg m LoadValueReg);
     let m = set_reg m LoadReg nextReg;
     let m = set_reg m LoadValueReg nextValue;
     Some (set_reg m 0 0)
   }"

definition RaiseException :: "handler \<Rightarrow> Machine \<Rightarrow> ExceptionType \<Rightarrow> u32 \<Rightarrow> Machine option" where
  "RaiseException eh m which badVAddr = do {
     let m = set_reg m BadVAddrReg badVAddr;
     m \<leftarrow> DelayedLoad m 0 0;
     m \<leftarrow> eh which (m\<lparr>status := SystemMode\<rparr>);
     Some (m\<lparr>status := UserMode\<rparr>)
   }"

subsection \<open>Address translation (translate.cc)\<close>

text \<open>The host is little endian.\<close>

definition WordToHost :: "u32 \<Rightarrow> u32" where "WordToHost w = w"
definition ShortToHost :: "16 word \<Rightarrow> 16 word" where "ShortToHost w = w"
definition WordToMachine :: "u32 \<Rightarrow> u32" where "WordToMachine w = WordToHost w"
definition ShortToMachine :: "16 word \<Rightarrow> 16 word" where "ShortToMachine w = ShortToHost w"

fun tlb_search :: "TranslationEntry list \<Rightarrow> u32 \<Rightarrow> nat \<Rightarrow> nat option" where
  "tlb_search [] vpn i = None"
| "tlb_search (e # es) vpn i = (if valid e \<and> virtualPage e = vpn then Some i else tlb_search es vpn (Suc i))"

text \<open>
  The entry for a virtual page: its index, or the exception. An index beyond the page table itself, when
  \<open>pageTableSize\<close> claims more entries than there are, is an access outside the array.
\<close>

definition lookup_entry :: "Machine \<Rightarrow> u32 \<Rightarrow> (ExceptionType + nat \<times> TranslationEntry) option" where
  "lookup_entry m vpn =
     (case tlb m of
        None \<Rightarrow> do {
          pt \<leftarrow> pageTable m;
          if vpn \<ge> pageTableSize m then Some (Inl AddressErrorException)
          else do {
            ASSERT (unat vpn < length pt);
            if \<not> valid (pt ! unat vpn) then Some (Inl PageFaultException)
            else Some (Inr (unat vpn, pt ! unat vpn))
          }
        }
      | Some es \<Rightarrow> do {
          ASSERT (length es = TLBSize);
          case tlb_search es vpn 0 of
            None \<Rightarrow> Some (Inl PageFaultException)
          | Some i \<Rightarrow> Some (Inr (i, es ! i))
        })"

definition store_entry :: "Machine \<Rightarrow> nat \<Rightarrow> TranslationEntry \<Rightarrow> Machine" where
  "store_entry m i e =
     (case tlb m of None \<Rightarrow> m\<lparr>pageTable := map_option (\<lambda>pt. pt[i := e]) (pageTable m)\<rparr>
      | Some es \<Rightarrow> m\<lparr>tlb := Some (es[i := e])\<rparr>)"

text \<open>\<open>Translate\<close> returns \<open>Inr\<close> of the physical address for \<open>NoException\<close>.\<close>

definition Translate :: "Machine \<Rightarrow> u32 \<Rightarrow> int \<Rightarrow> bool \<Rightarrow> ((ExceptionType + nat) \<times> Machine) option" where
  "Translate m virtAddr sz writing =
     (if (sz = 4 \<and> virtAddr AND 3 \<noteq> 0) \<or> (sz = 2 \<and> virtAddr AND 1 \<noteq> 0) then Some (Inl AddressErrorException, m)
      else do {
        ASSERT (tlb m = None \<or> pageTable m = None);
        ASSERT (tlb m \<noteq> None \<or> pageTable m \<noteq> None);
        let vpn = virtAddr div 128;
        let offset = virtAddr mod 128;
        r \<leftarrow> lookup_entry m vpn;
        case r of
          Inl e \<Rightarrow> Some (Inl e, m)
        | Inr (i, entry) \<Rightarrow>
            if readOnly entry \<and> writing then Some (Inl ReadOnlyException, m)
            else if physicalPage entry \<ge> 2096 then Some (Inl BusErrorException, m)
            else do {
              let entry = entry\<lparr>use := True\<rparr>;
              let entry = (if writing then entry\<lparr>dirty := True\<rparr> else entry);
              let m = store_entry m i entry;
              let physAddr = sint (physicalPage entry * 128 + offset);
              ASSERT (physAddr \<ge> 0 \<and> physAddr + sz \<le> int MemorySize);
              Some (Inr (nat physAddr), m)
            }
      })"

text \<open>\<open>ReadMem\<close> returns \<open>Some\<close> of the value, or \<open>None\<close> (\<open>FALSE\<close>) after a trap. Bytes are signed chars.\<close>

definition load_bytes :: "Machine \<Rightarrow> nat \<Rightarrow> int \<Rightarrow> u32 option" where
  "load_bytes m a sz =
     (if sz = 1 then Some (scast (mainMemory m a))
      else if sz = 2 then
        Some (ucast (ShortToHost (ucast (mainMemory m a) OR push_bit 8 (ucast (mainMemory m (a + 1))))))
      else if sz = 4 then
        Some (WordToHost (unle32 [mainMemory m a, mainMemory m (a + 1), mainMemory m (a + 2), mainMemory m (a + 3)]))
      else None)"

definition ReadMem :: "handler \<Rightarrow> Machine \<Rightarrow> u32 \<Rightarrow> int \<Rightarrow> (u32 option \<times> Machine) option" where
  "ReadMem eh m addr sz = do {
     (r, m) \<leftarrow> Translate m addr sz False;
     case r of
       Inl exception \<Rightarrow> do {
         m \<leftarrow> RaiseException eh m exception addr;
         Some (None, m)
       }
     | Inr physicalAddress \<Rightarrow> do {
         val \<leftarrow> load_bytes m physicalAddress sz;
         Some (Some val, m)
       }
   }"

definition poke :: "(nat \<Rightarrow> byte) \<Rightarrow> nat \<Rightarrow> byte list \<Rightarrow> nat \<Rightarrow> byte" where
  "poke mem a bs = (\<lambda>x. if a \<le> x \<and> x < a + length bs then bs ! (x - a) else mem x)"

definition store_bytes :: "u32 \<Rightarrow> int \<Rightarrow> byte list option" where
  "store_bytes val sz =
     (if sz = 1 then Some [ucast (val AND 0xff)]
      else if sz = 2 then
        (let s = ShortToMachine (ucast (val AND 0xffff)) in Some [ucast s, ucast (drop_bit 8 s)])
      else if sz = 4 then Some (le32 (WordToMachine val))
      else None)"

definition WriteMem :: "handler \<Rightarrow> Machine \<Rightarrow> u32 \<Rightarrow> int \<Rightarrow> u32 \<Rightarrow> (bool \<times> Machine) option" where
  "WriteMem eh m addr sz val = do {
     (r, m) \<leftarrow> Translate m addr sz True;
     case r of
       Inl exception \<Rightarrow> do {
         m \<leftarrow> RaiseException eh m exception addr;
         Some (False, m)
       }
     | Inr physicalAddress \<Rightarrow> do {
         bs \<leftarrow> store_bytes val sz;
         Some (True, m\<lparr>mainMemory := poke (mainMemory m) physicalAddress bs\<rparr>)
       }
   }"

subsection \<open>Translation as a partial function\<close>

definition table_ok :: "Machine \<Rightarrow> bool" where
  "table_ok m \<longleftrightarrow> (case tlb m of
       None \<Rightarrow> (case pageTable m of None \<Rightarrow> False | Some pt \<Rightarrow> unat (pageTableSize m) \<le> length pt)
     | Some es \<Rightarrow> pageTable m = None \<and> length es = TLBSize)"

text \<open>\<open>vmap\<close>: the frame of a virtual page for reading or writing, if there is one.\<close>

definition vmap :: "Machine \<Rightarrow> bool \<Rightarrow> u32 \<Rightarrow> nat option" where
  "vmap m writing vpn =
     (case lookup_entry m vpn of
        Some (Inr (i, e)) \<Rightarrow> if (readOnly e \<and> writing) \<or> physicalPage e \<ge> 2096 then None
                            else Some (unat (physicalPage e))
      | _ \<Rightarrow> None)"

definition aligned :: "u32 \<Rightarrow> int \<Rightarrow> bool" where
  "aligned a sz \<longleftrightarrow> int (unat a) mod sz = 0"

definition phys :: "nat \<Rightarrow> u32 \<Rightarrow> nat" where
  "phys f a = f * PageSize + unat a mod PageSize"

lemma aligned_simps:
  "(a AND 3 = 0) = aligned a 4" "(a AND 1 = 0) = aligned a 2" "aligned a 1"
proof -
  have "a AND 3 = a mod 4" "a AND 1 = a mod 2"
    using take_bit_eq_mask [of 2 a] take_bit_eq_mask [of 1 a]
    by (simp_all add: take_bit_eq_mod mask_eq_exp_minus_1)
  then show "(a AND 3 = 0) = aligned a 4" "(a AND 1 = 0) = aligned a 2"
    by (simp_all add: aligned_def uint_0_iff [symmetric] uint_mod del: uint_0_iff)
qed (simp add: aligned_def)

text \<open>The use and dirty bits play no part in translation.\<close>

definition core :: "TranslationEntry \<Rightarrow> TranslationEntry" where
  "core e = e\<lparr>use := False, dirty := False\<rparr>"

lemma core_eqD: "core e = core e' \<Longrightarrow> valid e = valid e' \<and> virtualPage e = virtualPage e'
    \<and> readOnly e = readOnly e' \<and> physicalPage e = physicalPage e'"
  by (cases e; cases e') (simp add: core_def)

lemma core_upd [simp]: "core (e\<lparr>use := b\<rparr>) = core e" "core (e\<lparr>dirty := b\<rparr>) = core e"
  by (simp_all add: core_def)

lemma tlb_search_core: "map core es = map core es' \<Longrightarrow> tlb_search es vpn i = tlb_search es' vpn i"
proof (induction es arbitrary: es' i)
  case (Cons e es)
  then obtain e' es'' where "es' = e' # es''" by (cases es') auto
  then show ?case using Cons core_eqD [of e e'] by simp
qed simp

lemma tlb_search_lt: "tlb_search es vpn i = Some j \<Longrightarrow> j < i + length es"
  by (induction es arbitrary: i) (fastforce split: if_splits)+

definition same_core :: "Machine \<Rightarrow> Machine \<Rightarrow> bool" where
  "same_core m m' \<longleftrightarrow> map_option (map core) (tlb m') = map_option (map core) (tlb m)
     \<and> map_option (map core) (pageTable m') = map_option (map core) (pageTable m)
     \<and> pageTableSize m' = pageTableSize m"

lemma map_core_nth: "map core xs = map core ys \<Longrightarrow> i < length xs \<Longrightarrow> core (xs ! i) = core (ys ! i)"
  by (metis length_map nth_map)

lemma map_core_length: "map core xs = map core ys \<Longrightarrow> length xs = length ys"
  by (metis length_map)

lemma same_core_table_ok: "same_core m m' \<Longrightarrow> table_ok m \<Longrightarrow> table_ok m'"
  by (auto simp: same_core_def table_ok_def split: option.splits dest: map_core_length)

text \<open>A lookup on well-formed tables returns; a hit is an index into the table that is in use.\<close>

definition tables :: "Machine \<Rightarrow> TranslationEntry list" where
  "tables m = (case tlb m of None \<Rightarrow> the (pageTable m) | Some es \<Rightarrow> es)"

lemma lookup_pt:
  assumes "tlb m = None" "pageTable m = Some pt" "unat (pageTableSize m) \<le> length pt"
  shows "lookup_entry m vpn = (if pageTableSize m \<le> vpn then Some (Inl AddressErrorException)
    else if \<not> valid (pt ! unat vpn) then Some (Inl PageFaultException) else Some (Inr (unat vpn, pt ! unat vpn)))"
  using assms by (auto simp: lookup_entry_def ASSERT_def not_le word_less_nat_alt word_le_nat_alt)

lemma lookup_tlb:
  assumes "tlb m = Some es" "length es = TLBSize"
  shows "lookup_entry m vpn = (case tlb_search es vpn 0 of None \<Rightarrow> Some (Inl PageFaultException)
    | Some i \<Rightarrow> Some (Inr (i, es ! i)))"
  using assms by (simp add: lookup_entry_def)

lemma table_cases:
  assumes "table_ok m"
  obtains (pt) pt where "tlb m = None" "pageTable m = Some pt" "unat (pageTableSize m) \<le> length pt" "tables m = pt"
  | (tlb) es where "tlb m = Some es" "pageTable m = None" "length es = TLBSize" "tables m = es"
  using assms by (auto simp: table_ok_def tables_def split: option.splits)

lemma lookup_entry_total:
  assumes "table_ok m"
  obtains (miss) e where "lookup_entry m vpn = Some (Inl e)" "e \<in> {AddressErrorException, PageFaultException}"
  | (hit) i where "lookup_entry m vpn = Some (Inr (i, tables m ! i))" "i < length (tables m)"
  using assms
proof (cases rule: table_cases)
  case (pt pt)
  have "unat vpn < length pt" if "\<not> pageTableSize m \<le> vpn"
    using that pt(3) by (simp add: not_le word_less_nat_alt)
  then show ?thesis
    using that lookup_pt [OF pt(1-3), of vpn] pt(4) by (auto split: if_splits)
next
  case (tlb es)
  then show ?thesis
    using that lookup_tlb [OF tlb(1,3), of vpn] tlb_search_lt [of es vpn 0]
    by (cases "tlb_search es vpn 0") auto
qed

lemma tables_core:
  assumes "table_ok m" "same_core m m'"
  shows "map core (tables m') = map core (tables m)"
  using assms by (auto simp: same_core_def tables_def table_ok_def split: option.splits)

lemma lookup_core:
  assumes "table_ok m" "same_core m m'"
  shows "lookup_entry m' vpn = map_option (map_sum (\<lambda>e. e) (\<lambda>(i, e). (i, tables m' ! i))) (lookup_entry m vpn)"
  using assms(1)
proof (cases rule: table_cases)
  case (pt pt)
  then obtain pt' where pt': "tlb m' = None" "pageTable m' = Some pt'" "map core pt' = map core pt"
      "pageTableSize m' = pageTableSize m"
    using assms(2) by (auto simp: same_core_def)
  have len: "unat (pageTableSize m') \<le> length pt'" using pt'(4) map_core_length [OF pt'(3)] pt(3) by simp
  have "valid (pt' ! unat vpn) = valid (pt ! unat vpn)" if "\<not> pageTableSize m \<le> vpn"
  proof -
    have "unat vpn < length pt'" using that len pt'(4) by (simp add: not_le word_less_nat_alt)
    then show ?thesis using map_core_nth [OF pt'(3)] core_eqD by blast
  qed
  then show ?thesis
    using pt' by (simp add: lookup_pt [OF pt(1-3)] lookup_pt [OF pt'(1,2) len] tables_def)
next
  case (tlb es)
  then obtain es' where es': "tlb m' = Some es'" "map core es' = map core es"
    using assms(2) by (auto simp: same_core_def)
  have len: "length es' = TLBSize" using map_core_length [OF es'(2)] tlb(3) by simp
  show ?thesis
    using es'(1) tlb_search_core [OF es'(2), of vpn 0]
    by (simp add: lookup_tlb [OF tlb(1,3)] lookup_tlb [OF es'(1) len] tables_def split: option.split)
qed

lemma vmap_core:
  assumes "table_ok m" "same_core m m'"
  shows "vmap m' = vmap m"
proof (intro ext)
  fix w vpn
  from assms(1) show "vmap m' w vpn = vmap m w vpn"
  proof (cases rule: lookup_entry_total [where vpn = vpn])
    case (miss e)
    then have "lookup_entry m' vpn = Some (Inl e)" using lookup_core [OF assms, of vpn] by simp
    then show ?thesis using miss by (simp add: vmap_def)
  next
    case (hit i)
    have l': "lookup_entry m' vpn = Some (Inr (i, tables m' ! i))" using hit lookup_core [OF assms, of vpn] by simp
    have "core (tables m' ! i) = core (tables m ! i)"
      using hit map_core_nth [OF tables_core [OF assms], of i] map_core_length [OF tables_core [OF assms]] by simp
    then show ?thesis using hit(1) l' core_eqD [of "tables m' ! i"] by (simp add: vmap_def)
  qed
qed

lemma store_entry_core:
  assumes "table_ok m" "i < length (tables m)" "core e = core (tables m ! i)"
  shows "same_core m (store_entry m i e)"
    "mainMemory (store_entry m i e) = mainMemory m" "registers (store_entry m i e) = registers m"
    "status (store_entry m i e) = status m" "singleStep (store_entry m i e) = singleStep m"
  using assms
  by (auto simp: same_core_def store_entry_def tables_def table_ok_def map_update list_update_same_conv
      split: option.splits)

subsection \<open>Translate, ReadMem and WriteMem\<close>

lemma sint_small: "unat (w :: u32) < 2 ^ 31 \<Longrightarrow> sint w = int (unat w)"
proof -
  assume "unat w < 2 ^ 31"
  then have "uint w < 2 ^ 31" by (metis of_nat_less_iff of_nat_numeral of_nat_power uint_nat)
  then have "signed_take_bit 31 (uint w) = uint w" by (intro signed_take_bit_int_eq_self order_trans [OF _ uint_ge_0]) simp_all
  then show ?thesis by (simp add: sint_uint)
qed

lemma page_address:
  assumes "(p :: u32) < 2096"
  shows "sint (p * 128 + a mod 128) = int (phys (unat p) a)"
proof -
  have p: "unat p < 2096" using assms by (simp add: word_less_nat_alt)
  have "unat (a mod 128) = unat a mod 128" by (simp add: unat_mod)
  moreover have "unat (p * 128) = unat p * 128" using p by (subst unat_mult_lem [THEN iffD1]) auto
  moreover have "unat a mod 128 < 128" by simp
  ultimately have "unat (p * 128 + a mod 128) = unat p * 128 + unat a mod 128"
    using p by (subst unat_add_lem [THEN iffD1]) auto
  moreover have "unat p * 128 + unat a mod 128 < 2 ^ 31" using p pos_mod_bound by simp
  ultimately show ?thesis by (simp add: sint_small phys_def)
qed

lemma aligned_in_page:
  assumes "aligned a sz" "sz \<in> {1, 2, 4}"
  shows "int (unat a mod 128) + sz \<le> 128"
  using assms by (auto simp: aligned_def zmod_int) presburger+

lemma phys_bound: "int (unat a mod 128) + sz \<le> 128 \<Longrightarrow> f < 2096 \<Longrightarrow> int (phys f a) + sz \<le> int MemorySize"
  by (simp add: phys_def)

lemma Translate_spec:
  assumes ok: "table_ok m" and sz: "sz \<in> {1, 2, 4}"
  shows "case (if aligned a sz then vmap m w (a div 128) else None) of
      None \<Rightarrow> (\<exists>e. Translate m a sz w = Some (Inl e, m) \<and> e \<noteq> NoException)
    | Some f \<Rightarrow> (\<exists>m'. Translate m a sz w = Some (Inr (phys f a), m') \<and> same_core m m'
        \<and> mainMemory m' = mainMemory m \<and> registers m' = registers m
        \<and> f < NumPhysPages \<and> int (phys f a) + sz \<le> int MemorySize)"
proof (cases "aligned a sz")
  case False
  then show ?thesis using sz by (auto simp: Translate_def aligned_simps)
next
  case al: True
  have guard: "tlb m = None \<or> pageTable m = None" "tlb m \<noteq> None \<or> pageTable m \<noteq> None"
    using ok by (auto simp: table_ok_def split: option.splits)
  have eq: "Translate m a sz w = do {
      r \<leftarrow> lookup_entry m (a div 128);
      case r of Inl e \<Rightarrow> Some (Inl e, m)
      | Inr (i, e) \<Rightarrow>
          if readOnly e \<and> w then Some (Inl ReadOnlyException, m)
          else if physicalPage e \<ge> 2096 then Some (Inl BusErrorException, m)
          else do {
            ASSERT (int (phys (unat (physicalPage e)) a) + sz \<le> int MemorySize);
            Some (Inr (phys (unat (physicalPage e)) a),
              store_entry m i (if w then e\<lparr>use := True, dirty := True\<rparr> else e\<lparr>use := True\<rparr>))
          } }"
    using al sz guard
    by (auto simp: Translate_def aligned_simps Let_def page_address not_le intro!: bind_option_cong
        split: sum.split)
  from ok show ?thesis
  proof (cases rule: lookup_entry_total [where vpn = "a div 128"])
    case (miss e)
    then have "vmap m w (a div 128) = None" by (simp add: vmap_def)
    then show ?thesis using miss eq by auto
  next
    case (hit i)
    let ?e = "tables m ! i"
    show ?thesis
    proof (cases "(readOnly ?e \<and> w) \<or> physicalPage ?e \<ge> 2096")
      case True
      then show ?thesis using hit eq al by (auto simp: vmap_def)
    next
      case False
      then have f: "vmap m w (a div 128) = Some (unat (physicalPage ?e))" using hit by (simp add: vmap_def)
      have "unat (physicalPage ?e) < 2096" using False by (simp add: word_le_nat_alt)
      moreover have "int (phys (unat (physicalPage ?e)) a) + sz \<le> int MemorySize"
        using aligned_in_page [OF al sz] calculation by (rule phys_bound)
      moreover note store_entry_core [OF ok hit(2),
          of "if w then ?e\<lparr>use := True, dirty := True\<rparr> else ?e\<lparr>use := True\<rparr>"]
      ultimately show ?thesis using f eq hit False al by (simp add: core_def)
    qed
  qed
qed

text \<open>
  \<open>access m w a sz\<close>: the physical address of a legal access, from the tables alone.
\<close>

definition access :: "Machine \<Rightarrow> bool \<Rightarrow> u32 \<Rightarrow> int \<Rightarrow> nat option" where
  "access m w a sz = (if aligned a sz then map_option (\<lambda>f. phys f a) (vmap m w (a div 128)) else None)"

lemma access_core: "table_ok m \<Longrightarrow> same_core m m' \<Longrightarrow> access m' = access m"
  by (intro ext) (simp add: access_def vmap_core)

lemma Translate_access:
  assumes "table_ok m" "sz \<in> {1, 2, 4}"
  shows "case access m w a sz of
      None \<Rightarrow> (\<exists>e. Translate m a sz w = Some (Inl e, m) \<and> e \<noteq> NoException)
    | Some p \<Rightarrow> (\<exists>m'. Translate m a sz w = Some (Inr p, m') \<and> same_core m m'
        \<and> mainMemory m' = mainMemory m \<and> registers m' = registers m)"
  using Translate_spec [OF assms, of a w]
  by (cases "aligned a sz"; cases "vmap m w (a div 128)") (auto simp: access_def)

lemma load_bytes_total: "sz \<in> {1, 2, 4} \<Longrightarrow> \<exists>x. load_bytes m p sz = Some x"
  by (auto simp: load_bytes_def)

lemma store_bytes_total: "sz \<in> {1, 2, 4} \<Longrightarrow> \<exists>bs. store_bytes x sz = Some bs \<and> int (length bs) = sz"
  by (auto simp: store_bytes_def Let_def)

lemma ReadMem_ok:
  assumes "table_ok m" "sz \<in> {1, 2, 4}" "access m False a sz = Some p"
  shows "\<exists>x m'. ReadMem eh m a sz = Some (Some x, m') \<and> load_bytes m p sz = Some x \<and> same_core m m'
    \<and> mainMemory m' = mainMemory m \<and> registers m' = registers m"
proof -
  obtain m' where m': "Translate m a sz False = Some (Inr p, m')" "same_core m m'"
    "mainMemory m' = mainMemory m" "registers m' = registers m"
    using Translate_access [OF assms(1,2), of a False] assms(3) by auto
  moreover obtain x where "load_bytes m' p sz = Some x" using load_bytes_total [OF assms(2)] by blast
  moreover have "load_bytes m' p sz = load_bytes m p sz" using m'(3) by (simp add: load_bytes_def)
  ultimately show ?thesis by (auto simp: ReadMem_def)
qed

lemma ReadMem_trap:
  assumes "table_ok m" "sz \<in> {1, 2, 4}" "access m False a sz = None"
  shows "\<exists>e. e \<noteq> NoException \<and> ReadMem eh m a sz = do { m' \<leftarrow> RaiseException eh m e a; Some (None, m') }"
  using Translate_access [OF assms(1,2), of a False] assms(3)
  by (auto simp: ReadMem_def)

lemma WriteMem_ok:
  assumes "table_ok m" "sz \<in> {1, 2, 4}" "access m True a sz = Some p"
  shows "\<exists>bs m'. WriteMem eh m a sz x = Some (True, m') \<and> store_bytes x sz = Some bs \<and> same_core m m'
    \<and> mainMemory m' = poke (mainMemory m) p bs \<and> registers m' = registers m"
proof -
  obtain m' where m': "Translate m a sz True = Some (Inr p, m')" "same_core m m'"
    "mainMemory m' = mainMemory m" "registers m' = registers m"
    using Translate_access [OF assms(1,2), of a True] assms(3) by auto
  moreover obtain bs where "store_bytes x sz = Some bs" using store_bytes_total [OF assms(2)] by blast
  ultimately show ?thesis by (auto simp: WriteMem_def same_core_def)
qed

lemma WriteMem_trap:
  assumes "table_ok m" "sz \<in> {1, 2, 4}" "access m True a sz = None"
  shows "\<exists>e. e \<noteq> NoException \<and> WriteMem eh m a sz x = do { m' \<leftarrow> RaiseException eh m e a; Some (False, m') }"
  using Translate_access [OF assms(1,2), of a True] assms(3)
  by (auto simp: WriteMem_def)

text \<open>Storing bytes and loading them back.\<close>

lemma poke_same [simp]: "i < length bs \<Longrightarrow> poke mem a bs (a + i) = bs ! i"
  by (simp add: poke_def)

lemma poke_other: "x < a \<or> a + length bs \<le> x \<Longrightarrow> poke mem a bs x = mem x"
  by (auto simp: poke_def)

definition truncated :: "u32 \<Rightarrow> int \<Rightarrow> u32" where
  "truncated x sz = (if sz = 1 then scast (ucast x :: byte) else if sz = 2 then x AND 0xffff else x)"

lemma load_store:
  assumes "sz \<in> {1, 2, 4}" "store_bytes x sz = Some bs" "mainMemory m = poke mem p bs"
  shows "load_bytes m p sz = Some (truncated x sz)"
proof -
  have mask: "(0xff :: u32) = mask 8" "(0xffff :: u32) = mask 16" by (simp_all add: mask_eq_exp_minus_1)
  have b0: "(ucast (x AND 0xff) :: byte) = ucast x" by (rule bit_word_eqI) (auto simp: mask bit_simps)
  have b1: "(ucast (ucast (ucast (x AND 0xffff) :: 16 word) :: byte) :: 16 word)
      OR push_bit 8 (ucast (ucast (drop_bit 8 (ucast (x AND 0xffff) :: 16 word)) :: byte))
    = ucast (x AND 0xffff)"
    by (rule bit_word_eqI) (auto simp: bit_simps)
  have b2: "(ucast (ucast (x AND 0xffff) :: 16 word) :: u32) = x AND 0xffff"
    by (rule bit_word_eqI) (auto simp: mask bit_simps)
  note d = load_bytes_def store_bytes_def truncated_def ShortToMachine_def ShortToHost_def WordToMachine_def
    WordToHost_def Let_def
  from assms(1) consider "sz = 1" | "sz = 2" | "sz = 4" by auto
  then show ?thesis
  proof cases
    case 1
    then show ?thesis using assms b0 by (auto simp: d poke_def)
  next
    case 2
    then show ?thesis using assms b1 b2 by (auto simp: d poke_def)
  next
    case 3
    then have "bs = le32 x" using assms by (simp add: d)
    then have "mainMemory m (p + i) = le32 x ! i" if "i < 4" for i using assms(3) that by simp
    from this [of 0] this [of 1] this [of 2] this [of 3] show ?thesis
      using 3 unle32_le32 [of x "[]"] by (simp add: d le32_def)
  qed
qed

text \<open>An access stays inside the frame of its page.\<close>

lemma access_frame:
  assumes "access m w a sz = Some p" "sz \<in> {1, 2, 4}"
  obtains f where "vmap m w (a div 128) = Some f" "\<And>i. int i < sz \<Longrightarrow> (p + i) div PageSize = f"
proof -
  obtain f where f: "aligned a sz" "vmap m w (a div 128) = Some f" "p = phys f a"
    using assms(1) by (auto simp: access_def split: if_splits)
  have "(p + i) div PageSize = f" if "int i < sz" for i
  proof -
    have "unat a mod 128 + i < 128" using aligned_in_page [OF f(1) assms(2)] that by linarith
    then show ?thesis by (simp add: f(3) phys_def add.assoc)
  qed
  then show ?thesis using that f(2) by blast
qed

lemma load_bytes_cong:
  assumes "\<And>i. int i < sz \<Longrightarrow> mainMemory m' (p + i) = mainMemory m (p + i)"
  shows "load_bytes m' p sz = load_bytes m p sz"
  using assms [of 0] assms [of 1] assms [of 2] assms [of 3] by (auto simp: load_bytes_def)

lemma vmap_write_read: "vmap m True v = Some f \<Longrightarrow> vmap m False v = Some f"
  by (auto simp: vmap_def split: option.splits sum.splits if_splits)

lemma access_write_read: "access m True a sz = Some p \<Longrightarrow> access m False a sz = Some p"
  using vmap_write_read [of m "a div 128"] by (auto simp: access_def split: if_splits)

subsection \<open>Properties\<close>

text \<open>
  Address translation. With a page table that has at least \<open>pageTableSize\<close> entries (or a TLB of four
  entries) and an access of 1, 2 or 4 bytes, \<open>Translate\<close> always returns: its assertions hold. It gives a
  physical address exactly when the address is aligned and the page is mapped to an existing frame with
  the right permission; the address is then the page's frame plus the page offset, the access lies
  inside physical memory, and nothing but use and dirty bits changes. Otherwise it reports an exception
  and changes nothing.
\<close>

lemma translate_correct:
  assumes "table_ok m" "sz \<in> {1, 2, 4}"
  shows "case (if aligned a sz then vmap m w (a div 128) else None) of
      None \<Rightarrow> (\<exists>e. Translate m a sz w = Some (Inl e, m) \<and> e \<noteq> NoException)
    | Some f \<Rightarrow> (\<exists>m'. Translate m a sz w = Some (Inr (phys f a), m') \<and> same_core m m'
        \<and> mainMemory m' = mainMemory m \<and> registers m' = registers m
        \<and> f < NumPhysPages \<and> int (phys f a) + sz \<le> int MemorySize)"
  using assms by (rule Translate_spec)

abbreviation demo_entry :: "u32 \<Rightarrow> u32 \<Rightarrow> TranslationEntry" where
  "demo_entry v p \<equiv> \<lparr>virtualPage = v, physicalPage = p, valid = True, readOnly = False, use = False, dirty = False\<rparr>"

abbreviation demo_machine :: "u32 \<Rightarrow> Machine" where
  "demo_machine p \<equiv> (Machine_new 2 False)\<lparr>pageTable := Some [demo_entry 0 p, demo_entry 1 (p + 1)]\<rparr>"

lemma demo_vmap: "table_ok (demo_machine p)"
  "p < 2095 \<Longrightarrow> vmap (demo_machine p) w v = (if v = 0 then Some (unat p) else if v = 1 then Some (unat (p + 1)) else None)"
proof -
  show ok: "table_ok (demo_machine p)" by (simp add: table_ok_def Machine_new_def)
  assume p: "p < 2095"
  have p1: "p < 2096" "p + 1 < 2096" using p unat_add_lem [of p 1] by (auto simp: word_less_nat_alt)
  have "v = 0 \<or> v = 1 \<or> 2 \<le> v"
    by (cases "unat v = 0 \<or> unat v = 1") (auto simp: word_unat_eq_iff word_le_nat_alt)
  then show "vmap (demo_machine p) w v = (if v = 0 then Some (unat p) else if v = 1 then Some (unat (p + 1)) else None)"
  proof -
    have lk: "lookup_entry (demo_machine p) v = (if 2 \<le> v then Some (Inl AddressErrorException)
        else if \<not> valid ([demo_entry 0 p, demo_entry 1 (p + 1)] ! unat v) then Some (Inl PageFaultException)
        else Some (Inr (unat v, [demo_entry 0 p, demo_entry 1 (p + 1)] ! unat v)))"
      using lookup_pt [of "demo_machine p" "[demo_entry 0 p, demo_entry 1 (p + 1)]" v] by (simp add: Machine_new_def)
    assume "v = 0 \<or> v = 1 \<or> 2 \<le> v"
    then show ?thesis
      by (elim disjE) (use p1 lk word_le_nat_alt [of 2 v] in \<open>auto simp: vmap_def not_le\<close>)
  qed
qed

text \<open>
  Memory: a store that is permitted returns true without trapping, and a following load of the same
  size at the same address returns the stored value cut to that size (a byte is sign-extended, a half
  word zero-extended).
\<close>

lemma write_read_memory:
  assumes "table_ok m" "sz \<in> {1, 2, 4}" "access m True a sz \<noteq> None"
  shows "\<exists>m' m''. WriteMem eh m a sz x = Some (True, m') \<and> ReadMem eh m' a sz = Some (Some (truncated x sz), m'')"
proof -
  obtain p where p: "access m True a sz = Some p" using assms(3) by blast
  obtain bs m' where w: "WriteMem eh m a sz x = Some (True, m')" "store_bytes x sz = Some bs" "same_core m m'"
    "mainMemory m' = poke (mainMemory m) p bs"
    using WriteMem_ok [OF assms(1,2) p] by blast
  have "access m' False a sz = Some p"
    using access_core [OF assms(1) w(3)] access_write_read [OF p] by simp
  then show ?thesis
    using ReadMem_ok [OF same_core_table_ok [OF w(3) assms(1)] assms(2), of a p eh]
      load_store [OF assms(2) w(2,4)] w(1) by auto
qed

text \<open>
  Isolation of address spaces. Two page tables are used over the same physical memory, and no frame
  that the first can write is readable through the second. Then no store through the first changes the
  outcome of any load through the second.
\<close>

lemma address_spaces_isolated:
  assumes m: "table_ok m" and n: "table_ok n" "mainMemory n = mainMemory m"
    and dj: "\<forall>v w f. vmap m True v = Some f \<longrightarrow> vmap n False w \<noteq> Some f"
    and w: "WriteMem eh m a sz x = Some (True, m')" "sz \<in> {1, 2, 4}" "access m True a sz \<noteq> None"
    and r: "ReadMem eh n b sz' = Some (Some y, n')" "sz' \<in> {1, 2, 4}" "access n False b sz' \<noteq> None"
  shows "\<exists>n''. ReadMem eh (n\<lparr>mainMemory := mainMemory m'\<rparr>) b sz' = Some (Some y, n'')"
proof -
  obtain p q where p: "access m True a sz = Some p" and q: "access n False b sz' = Some q" using w(3) r(3) by blast
  obtain bs where bs: "store_bytes x sz = Some bs" "mainMemory m' = poke (mainMemory m) p bs"
    using WriteMem_ok [OF m w(2) p, of eh x] w(1) by auto
  have len: "int (length bs) = sz" using store_bytes_total [OF w(2), of x] bs(1) by simp
  obtain f where f: "vmap m True (a div 128) = Some f" "\<And>i. int i < sz \<Longrightarrow> (p + i) div PageSize = f"
    using access_frame [OF p w(2)] by blast
  obtain g where g: "vmap n False (b div 128) = Some g" "\<And>i. int i < sz' \<Longrightarrow> (q + i) div PageSize = g"
    using access_frame [OF q r(2)] by blast
  have fg: "f \<noteq> g" using dj f(1) g(1) by auto
  let ?n = "n\<lparr>mainMemory := mainMemory m'\<rparr>"
  have sc: "same_core n ?n" by (simp add: same_core_def)
  have "load_bytes ?n q sz' = load_bytes n q sz'"
  proof (rule load_bytes_cong)
    fix j assume j: "int j < sz'"
    have "\<not> (p \<le> q + j \<and> q + j < p + length bs)"
    proof
      assume "p \<le> q + j \<and> q + j < p + length bs"
      then have "int (q + j - p) < sz" "p + (q + j - p) = q + j" using len by auto
      then have "(q + j) div PageSize = f" using f(2) by metis
      then show False using g(2) [OF j] fg by simp
    qed
    then show "mainMemory ?n (q + j) = mainMemory n (q + j)" using bs(2) n(2) by (auto simp: poke_def)
  qed
  moreover have "load_bytes n q sz' = Some y" using ReadMem_ok [OF n(1) r(2) q, of eh] r(1) by auto
  moreover have "access ?n False b sz' = Some q" using access_core [OF n(1) sc] q by simp
  ultimately show ?thesis
    using ReadMem_ok [OF same_core_table_ok [OF sc n(1)] r(2), of b q eh] by auto
qed

end
