(* ===== verification/Mips.thy ===== *)
theory Mips
  imports Machine
begin

text \<open>
  The MIPS processor simulator (src/code/machine/mipssim.cc, mipssim.h): instruction decoding, the
  multiplication routine and \<open>Machine::OneInstruction\<close>.

  Registers are 32-bit words, so the additions of the source wrap, which is what its overflow tests rely
  on; \<open>>>\<close> on an \<open>int\<close> is the arithmetic shift. The cases of the switch in \<open>OneInstruction\<close> are grouped in
  the order of the source, one definition per group; a case that falls through performs both parts in
  sequence. The host stops (\<open>None\<close>) at a failed assertion and at the signed division of the least
  integer by \<open>-1\<close>.
\<close>

subsection \<open>Instruction tables (mipssim.h)\<close>

datatype OpCode = OP_ADD | OP_ADDI | OP_ADDIU | OP_ADDU | OP_AND | OP_ANDI | OP_BEQ | OP_BGEZ
  | OP_BGEZAL | OP_BGTZ | OP_BLEZ | OP_BLTZ | OP_BLTZAL | OP_BNE | OP_DIV | OP_DIVU
  | OP_J | OP_JAL | OP_JALR | OP_JR | OP_LB | OP_LBU | OP_LH | OP_LHU
  | OP_LUI | OP_LW | OP_LWL | OP_LWR | OP_MFHI | OP_MFLO | OP_MTHI | OP_MTLO
  | OP_MULT | OP_MULTU | OP_NOR | OP_OR | OP_ORI | OP_RFE | OP_SB | OP_SH
  | OP_SLL | OP_SLLV | OP_SLT | OP_SLTI | OP_SLTIU | OP_SLTU | OP_SRA | OP_SRAV
  | OP_SRL | OP_SRLV | OP_SUB | OP_SUBU | OP_SW | OP_SWL | OP_SWR | OP_XOR
  | OP_XORI | OP_SYSCALL | OP_UNIMP | OP_RES
  | SPECIAL | BCOND

datatype Format = IFMT | JFMT | RFMT

definition opTable :: "(OpCode \<times> Format) list" where
  "opTable = [
     (SPECIAL, RFMT), (BCOND, IFMT), (OP_J, JFMT), (OP_JAL, JFMT),
     (OP_BEQ, IFMT), (OP_BNE, IFMT), (OP_BLEZ, IFMT), (OP_BGTZ, IFMT),
     (OP_ADDI, IFMT), (OP_ADDIU, IFMT), (OP_SLTI, IFMT), (OP_SLTIU, IFMT),
     (OP_ANDI, IFMT), (OP_ORI, IFMT), (OP_XORI, IFMT), (OP_LUI, IFMT),
     (OP_UNIMP, IFMT), (OP_UNIMP, IFMT), (OP_UNIMP, IFMT), (OP_UNIMP, IFMT),
     (OP_RES, IFMT), (OP_RES, IFMT), (OP_RES, IFMT), (OP_RES, IFMT),
     (OP_RES, IFMT), (OP_RES, IFMT), (OP_RES, IFMT), (OP_RES, IFMT),
     (OP_RES, IFMT), (OP_RES, IFMT), (OP_RES, IFMT), (OP_RES, IFMT),
     (OP_LB, IFMT), (OP_LH, IFMT), (OP_LWL, IFMT), (OP_LW, IFMT),
     (OP_LBU, IFMT), (OP_LHU, IFMT), (OP_LWR, IFMT), (OP_RES, IFMT),
     (OP_SB, IFMT), (OP_SH, IFMT), (OP_SWL, IFMT), (OP_SW, IFMT),
     (OP_RES, IFMT), (OP_RES, IFMT), (OP_SWR, IFMT), (OP_RES, IFMT),
     (OP_UNIMP, IFMT), (OP_UNIMP, IFMT), (OP_UNIMP, IFMT), (OP_UNIMP, IFMT),
     (OP_RES, IFMT), (OP_RES, IFMT), (OP_RES, IFMT), (OP_RES, IFMT),
     (OP_UNIMP, IFMT), (OP_UNIMP, IFMT), (OP_UNIMP, IFMT), (OP_UNIMP, IFMT),
     (OP_RES, IFMT), (OP_RES, IFMT), (OP_RES, IFMT), (OP_RES, IFMT)]"

definition specialTable :: "OpCode list" where
  "specialTable = [
     OP_SLL, OP_RES, OP_SRL, OP_SRA, OP_SLLV, OP_RES, OP_SRLV, OP_SRAV,
     OP_JR, OP_JALR, OP_RES, OP_RES, OP_SYSCALL, OP_UNIMP, OP_RES, OP_RES,
     OP_MFHI, OP_MTHI, OP_MFLO, OP_MTLO, OP_RES, OP_RES, OP_RES, OP_RES,
     OP_MULT, OP_MULTU, OP_DIV, OP_DIVU, OP_RES, OP_RES, OP_RES, OP_RES,
     OP_ADD, OP_ADDU, OP_SUB, OP_SUBU, OP_AND, OP_OR, OP_XOR, OP_NOR,
     OP_RES, OP_RES, OP_SLT, OP_SLTU, OP_RES, OP_RES, OP_RES, OP_RES,
     OP_RES, OP_RES, OP_RES, OP_RES, OP_RES, OP_RES, OP_RES, OP_RES,
     OP_RES, OP_RES, OP_RES, OP_RES, OP_RES, OP_RES, OP_RES, OP_RES]"

subsection \<open>Decoding\<close>

record Instruction =
  ivalue :: u32
  opCode :: OpCode
  rs :: byte
  rt :: byte
  rd :: byte
  extra :: u32

definition Decode :: "Instruction \<Rightarrow> Instruction" where
  "Decode i = (let
     v = ivalue i;
     (op, fmt) = opTable ! unat (drop_bit 26 v AND 0x3f);
     ex = (if fmt = IFMT then
             (let e = v AND 0xffff in if e AND 0x8000 \<noteq> 0 then e OR 0xffff0000 else e)
           else if fmt = RFMT then drop_bit 6 v AND 0x1f
           else v AND 0x3ffffff);
     op = (if op = SPECIAL then specialTable ! unat (v AND 0x3f)
           else if op = BCOND then
             (let k = v AND 0x1f0000 in
              if k = 0 then OP_BLTZ else if k = 0x10000 then OP_BGEZ
              else if k = 0x100000 then OP_BLTZAL else if k = 0x110000 then OP_BGEZAL else OP_UNIMP)
           else op)
   in i\<lparr>opCode := op, rs := ucast (drop_bit 21 v AND 0x1f), rt := ucast (drop_bit 16 v AND 0x1f),
        rd := ucast (drop_bit 11 v AND 0x1f), extra := ex\<rparr>)"

subsection \<open>Multiplication\<close>

text \<open>The loop runs for \<open>n\<close> more iterations; \<open>a >>= 1\<close> is an arithmetic shift.\<close>

fun mult_loop :: "nat \<Rightarrow> u32 \<Rightarrow> u32 \<Rightarrow> u32 \<Rightarrow> u32 \<Rightarrow> u32 \<Rightarrow> u32 \<times> u32" where
  "mult_loop 0 a bHi bLo hi lo = (hi, lo)"
| "mult_loop (Suc n) a bHi bLo hi lo =
     (let lo' = (if a AND 1 \<noteq> 0 then lo + bLo else lo);
          hi' = (if a AND 1 \<noteq> 0 then (if lo' < bLo then hi + 1 else hi) + bHi else hi)
      in if a AND 1 \<noteq> 0 \<and> a AND 0xfffffffe = 0 then (hi', lo')
         else mult_loop n (signed_drop_bit 1 a)
                (if bLo AND 0x80000000 \<noteq> 0 then push_bit 1 bHi OR 1 else push_bit 1 bHi) (push_bit 1 bLo) hi' lo')"

definition Mult :: "u32 \<Rightarrow> u32 \<Rightarrow> bool \<Rightarrow> u32 \<times> u32" where
  "Mult a b signedArith =
     (if a = 0 \<or> b = 0 then (0, 0)
      else let
        negA = (signedArith \<and> sint a < 0);
        negB = (signedArith \<and> sint b < 0);
        negative = (negA \<noteq> negB);
        (hi, lo) = mult_loop 32 (if negA then - a else a) 0 (if negB then - b else b) 0 0
      in if negative then
           let hi = NOT hi; lo = NOT lo + 1 in (if lo = 0 then hi + 1 else hi, lo)
         else (hi, lo))"

subsection \<open>Execution\<close>

text \<open>
  \<open>Returned\<close>: the routine returned after a trap. \<open>Completed m pcAfter nextLoadReg nextLoadValue\<close>: the
  instruction was executed, with the locals of that name.
\<close>

datatype outcome = Returned Machine | Completed Machine u32 u32 u32

abbreviation SIGN_BIT :: u32 where "SIGN_BIT \<equiv> 0x80000000"

definition IndexToAddr :: "u32 \<Rightarrow> u32" where
  "IndexToAddr x = push_bit 2 x"

abbreviation rS :: "Instruction \<Rightarrow> Machine \<Rightarrow> u32" where "rS i m \<equiv> reg m (unat (rs i))"
abbreviation rT :: "Instruction \<Rightarrow> Machine \<Rightarrow> u32" where "rT i m \<equiv> reg m (unat (rt i))"
abbreviation set_rd :: "Instruction \<Rightarrow> Machine \<Rightarrow> u32 \<Rightarrow> Machine" where "set_rd i m \<equiv> set_reg m (unat (rd i))"
abbreviation set_rt :: "Instruction \<Rightarrow> Machine \<Rightarrow> u32 \<Rightarrow> Machine" where "set_rt i m \<equiv> set_reg m (unat (rt i))"

definition trap :: "handler \<Rightarrow> Machine \<Rightarrow> ExceptionType \<Rightarrow> u32 \<Rightarrow> outcome option" where
  "trap eh m e a = do { m \<leftarrow> RaiseException eh m e a; Some (Returned m) }"

abbreviation completed :: "Machine \<Rightarrow> u32 \<Rightarrow> outcome option" where
  "completed m pc \<equiv> Some (Completed m pc 0 0)"

definition exec_add :: "handler \<Rightarrow> Instruction \<Rightarrow> Machine \<Rightarrow> u32 \<Rightarrow> outcome option" where
  "exec_add eh i m pc = (case opCode i of
     OP_ADD \<Rightarrow>
       (let sum = rS i m + rT i m in
        if (rS i m XOR rT i m) AND SIGN_BIT = 0 \<and> (rS i m XOR sum) AND SIGN_BIT \<noteq> 0
        then trap eh m OverflowException 0
        else completed (set_rd i m sum) pc)
   | OP_ADDI \<Rightarrow>
       (let sum = rS i m + extra i in
        if (rS i m XOR extra i) AND SIGN_BIT = 0 \<and> (extra i XOR sum) AND SIGN_BIT \<noteq> 0
        then trap eh m OverflowException 0
        else completed (set_rt i m sum) pc)
   | OP_ADDIU \<Rightarrow> completed (set_rt i m (rS i m + extra i)) pc
   | OP_ADDU \<Rightarrow> completed (set_rd i m (rS i m + rT i m)) pc
   | OP_AND \<Rightarrow> completed (set_rd i m (rS i m AND rT i m)) pc
   | OP_ANDI \<Rightarrow> completed (set_rt i m (rS i m AND (extra i AND 0xffff))) pc
   | _ \<Rightarrow> None)"

definition branch_if :: "bool \<Rightarrow> Instruction \<Rightarrow> Machine \<Rightarrow> u32 \<Rightarrow> outcome option" where
  "branch_if c i m pc = completed m (if c then reg m NextPCReg + IndexToAddr (extra i) else pc)"

definition exec_branch :: "Instruction \<Rightarrow> Machine \<Rightarrow> u32 \<Rightarrow> outcome option" where
  "exec_branch i m pc = (case opCode i of
     OP_BEQ \<Rightarrow> branch_if (rS i m = rT i m) i m pc
   | OP_BGEZAL \<Rightarrow> (let m = set_reg m R31 (reg m NextPCReg + 4) in branch_if (rS i m AND SIGN_BIT = 0) i m pc)
   | OP_BGEZ \<Rightarrow> branch_if (rS i m AND SIGN_BIT = 0) i m pc
   | OP_BGTZ \<Rightarrow> branch_if (sint (rS i m) > 0) i m pc
   | OP_BLEZ \<Rightarrow> branch_if (sint (rS i m) \<le> 0) i m pc
   | OP_BLTZAL \<Rightarrow> (let m = set_reg m R31 (reg m NextPCReg + 4) in branch_if (rS i m AND SIGN_BIT \<noteq> 0) i m pc)
   | OP_BLTZ \<Rightarrow> branch_if (rS i m AND SIGN_BIT \<noteq> 0) i m pc
   | OP_BNE \<Rightarrow> branch_if (rS i m \<noteq> rT i m) i m pc
   | _ \<Rightarrow> None)"

text \<open>The host division of the least integer by \<open>-1\<close> raises a signal.\<close>

definition exec_div :: "Instruction \<Rightarrow> Machine \<Rightarrow> u32 \<Rightarrow> outcome option" where
  "exec_div i m pc = (case opCode i of
     OP_DIV \<Rightarrow>
       (if rT i m = 0 then completed (set_reg (set_reg m LoReg 0) HiReg 0) pc
        else do {
          ASSERT (\<not> (rS i m = SIGN_BIT \<and> rT i m = - 1));
          let m1 = set_reg m LoReg (word_of_int (sint (rS i m) sdiv sint (rT i m)));
          completed (set_reg m1 HiReg (word_of_int (sint (rS i m1) smod sint (rT i m1)))) pc
        })
   | OP_DIVU \<Rightarrow>
       (if rT i m = 0 then completed (set_reg (set_reg m LoReg 0) HiReg 0) pc
        else completed (set_reg (set_reg m LoReg (rS i m div rT i m)) HiReg (rS i m mod rT i m)) pc)
   | _ \<Rightarrow> None)"

definition exec_jump :: "Instruction \<Rightarrow> Machine \<Rightarrow> u32 \<Rightarrow> outcome option" where
  "exec_jump i m pc = (case opCode i of
     OP_JAL \<Rightarrow> completed (set_reg m R31 (reg m NextPCReg + 4)) ((pc AND 0xf0000000) OR IndexToAddr (extra i))
   | OP_J \<Rightarrow> completed m ((pc AND 0xf0000000) OR IndexToAddr (extra i))
   | OP_JALR \<Rightarrow> (let m = set_rd i m (reg m NextPCReg + 4) in completed m (rS i m))
   | OP_JR \<Rightarrow> completed m (rS i m)
   | _ \<Rightarrow> None)"

text \<open>Loads deliver their value one instruction later; they continue with \<open>k\<close> unless the access trapped.\<close>

definition with_read :: "handler \<Rightarrow> Machine \<Rightarrow> u32 \<Rightarrow> int \<Rightarrow> (u32 \<Rightarrow> Machine \<Rightarrow> outcome option) \<Rightarrow> outcome option" where
  "with_read eh m a sz k = do {
     (r, m) \<leftarrow> ReadMem eh m a sz;
     case r of None \<Rightarrow> Some (Returned m) | Some x \<Rightarrow> k x m
   }"

definition with_write :: "handler \<Rightarrow> Machine \<Rightarrow> u32 \<Rightarrow> int \<Rightarrow> u32 \<Rightarrow> u32 \<Rightarrow> outcome option" where
  "with_write eh m a sz x pc = do {
     (ok, m) \<leftarrow> WriteMem eh m a sz x;
     if ok then completed m pc else Some (Returned m)
   }"

definition lwl_merge :: "u32 \<Rightarrow> u32 \<Rightarrow> u32 \<Rightarrow> u32" where
  "lwl_merge k old x =
     (if k = 0 then x else if k = 1 then (old AND 0xff) OR push_bit 8 x
      else if k = 2 then (old AND 0xffff) OR push_bit 16 x else (old AND 0xffffff) OR push_bit 24 x)"

definition lwr_merge :: "u32 \<Rightarrow> u32 \<Rightarrow> u32 \<Rightarrow> u32" where
  "lwr_merge k old x =
     (if k = 0 then (old AND 0xffffff00) OR (signed_drop_bit 24 x AND 0xff)
      else if k = 1 then (old AND 0xffff0000) OR (signed_drop_bit 16 x AND 0xffff)
      else if k = 2 then (old AND 0xff000000) OR (signed_drop_bit 8 x AND 0xffffff) else x)"

text \<open>The value a register will have once a pending load into it is done.\<close>

definition pending :: "Instruction \<Rightarrow> Machine \<Rightarrow> u32" where
  "pending i m = (if reg m LoadReg = ucast (rt i) then reg m LoadValueReg else rT i m)"

definition exec_load :: "handler \<Rightarrow> Instruction \<Rightarrow> Machine \<Rightarrow> u32 \<Rightarrow> outcome option" where
  "exec_load eh i m pc = (let tmp = rS i m + extra i; dest = ucast (rt i) in case opCode i of
     OP_LB \<Rightarrow> with_read eh m tmp 1 (\<lambda>x m. Some (Completed m pc dest
                (if x AND 0x80 \<noteq> 0 then x OR 0xffffff00 else x AND 0xff)))
   | OP_LBU \<Rightarrow> with_read eh m tmp 1 (\<lambda>x m. Some (Completed m pc dest (x AND 0xff)))
   | OP_LH \<Rightarrow>
       if tmp AND 1 \<noteq> 0 then trap eh m AddressErrorException tmp
       else with_read eh m tmp 2 (\<lambda>x m. Some (Completed m pc dest
              (if x AND 0x8000 \<noteq> 0 then x OR 0xffff0000 else x AND 0xffff)))
   | OP_LHU \<Rightarrow>
       if tmp AND 1 \<noteq> 0 then trap eh m AddressErrorException tmp
       else with_read eh m tmp 2 (\<lambda>x m. Some (Completed m pc dest (x AND 0xffff)))
   | OP_LUI \<Rightarrow> completed (set_rt i m (push_bit 16 (extra i))) pc
   | OP_LW \<Rightarrow>
       if tmp AND 3 \<noteq> 0 then trap eh m AddressErrorException tmp
       else with_read eh m tmp 4 (\<lambda>x m. Some (Completed m pc dest x))
   | OP_LWL \<Rightarrow> do {
       ASSERT (tmp AND 3 = 0);
       with_read eh m tmp 4 (\<lambda>x m. Some (Completed m pc dest (lwl_merge (tmp AND 3) (pending i m) x)))
     }
   | OP_LWR \<Rightarrow> do {
       ASSERT (tmp AND 3 = 0);
       with_read eh m tmp 4 (\<lambda>x m. Some (Completed m pc dest (lwr_merge (tmp AND 3) (pending i m) x)))
     }
   | _ \<Rightarrow> None)"

definition exec_hilo :: "Instruction \<Rightarrow> Machine \<Rightarrow> u32 \<Rightarrow> outcome option" where
  "exec_hilo i m pc = (case opCode i of
     OP_MFHI \<Rightarrow> completed (set_rd i m (reg m HiReg)) pc
   | OP_MFLO \<Rightarrow> completed (set_rd i m (reg m LoReg)) pc
   | OP_MTHI \<Rightarrow> completed (set_reg m HiReg (rS i m)) pc
   | OP_MTLO \<Rightarrow> completed (set_reg m LoReg (rS i m)) pc
   | OP_MULT \<Rightarrow> (let (hi, lo) = Mult (rS i m) (rT i m) True in completed (set_reg (set_reg m HiReg hi) LoReg lo) pc)
   | OP_MULTU \<Rightarrow> (let (hi, lo) = Mult (rS i m) (rT i m) False in completed (set_reg (set_reg m HiReg hi) LoReg lo) pc)
   | OP_NOR \<Rightarrow> completed (set_rd i m (NOT (rS i m OR rT i m))) pc
   | OP_OR \<Rightarrow> completed (set_rd i m (rS i m OR rT i m)) pc
   | OP_ORI \<Rightarrow> completed (set_rt i m (rS i m OR (extra i AND 0xffff))) pc
   | _ \<Rightarrow> None)"

definition exec_shift :: "handler \<Rightarrow> Instruction \<Rightarrow> Machine \<Rightarrow> u32 \<Rightarrow> outcome option" where
  "exec_shift eh i m pc = (case opCode i of
     OP_SB \<Rightarrow> with_write eh m (rS i m + extra i) 1 (rT i m) pc
   | OP_SH \<Rightarrow> with_write eh m (rS i m + extra i) 2 (rT i m) pc
   | OP_SLL \<Rightarrow> completed (set_rd i m (push_bit (unat (extra i)) (rT i m))) pc
   | OP_SLLV \<Rightarrow> completed (set_rd i m (push_bit (unat (rS i m AND 0x1f)) (rT i m))) pc
   | OP_SLT \<Rightarrow> completed (set_rd i m (if sint (rS i m) < sint (rT i m) then 1 else 0)) pc
   | OP_SLTI \<Rightarrow> completed (set_rt i m (if sint (rS i m) < sint (extra i) then 1 else 0)) pc
   | OP_SLTIU \<Rightarrow> completed (set_rt i m (if rS i m < extra i then 1 else 0)) pc
   | OP_SLTU \<Rightarrow> completed (set_rd i m (if rS i m < rT i m then 1 else 0)) pc
   | OP_SRA \<Rightarrow> completed (set_rd i m (signed_drop_bit (unat (extra i)) (rT i m))) pc
   | OP_SRAV \<Rightarrow> completed (set_rd i m (signed_drop_bit (unat (rS i m AND 0x1f)) (rT i m))) pc
   | OP_SRL \<Rightarrow> completed (set_rd i m (drop_bit (unat (extra i)) (rT i m))) pc
   | OP_SRLV \<Rightarrow> completed (set_rd i m (drop_bit (unat (rS i m AND 0x1f)) (rT i m))) pc
   | _ \<Rightarrow> None)"

definition swl_merge :: "u32 \<Rightarrow> u32 \<Rightarrow> u32 \<Rightarrow> u32" where
  "swl_merge k x r =
     (if k = 0 then r else if k = 1 then (x AND 0xff000000) OR (signed_drop_bit 8 r AND 0xffffff)
      else if k = 2 then (x AND 0xffff0000) OR (signed_drop_bit 16 r AND 0xffff)
      else (x AND 0xffffff00) OR (signed_drop_bit 24 r AND 0xff))"

definition swr_merge :: "u32 \<Rightarrow> u32 \<Rightarrow> u32 \<Rightarrow> u32" where
  "swr_merge k x r =
     (if k = 0 then (x AND 0xffffff) OR push_bit 24 r else if k = 1 then (x AND 0xffff) OR push_bit 16 r
      else if k = 2 then (x AND 0xff) OR push_bit 8 r else r)"

definition exec_store :: "handler \<Rightarrow> Instruction \<Rightarrow> Machine \<Rightarrow> u32 \<Rightarrow> outcome option" where
  "exec_store eh i m pc = (let tmp = rS i m + extra i in case opCode i of
     OP_SUB \<Rightarrow>
       (let diff = rS i m - rT i m in
        if (rS i m XOR rT i m) AND SIGN_BIT \<noteq> 0 \<and> (rS i m XOR diff) AND SIGN_BIT \<noteq> 0
        then trap eh m OverflowException 0
        else completed (set_rd i m diff) pc)
   | OP_SUBU \<Rightarrow> completed (set_rd i m (rS i m - rT i m)) pc
   | OP_SW \<Rightarrow> with_write eh m tmp 4 (rT i m) pc
   | OP_SWL \<Rightarrow> do {
       ASSERT (tmp AND 3 = 0);
       with_read eh m (tmp AND NOT 3) 4 (\<lambda>x m.
         with_write eh m (tmp AND NOT 3) 4 (swl_merge (tmp AND 3) x (rT i m)) pc)
     }
   | OP_SWR \<Rightarrow> do {
       ASSERT (tmp AND 3 = 0);
       with_read eh m (tmp AND NOT 3) 4 (\<lambda>x m.
         with_write eh m (tmp AND NOT 3) 4 (swr_merge (tmp AND 3) x (rT i m)) pc)
     }
   | _ \<Rightarrow> None)"

definition exec_rest :: "handler \<Rightarrow> Instruction \<Rightarrow> Machine \<Rightarrow> u32 \<Rightarrow> outcome option" where
  "exec_rest eh i m pc = (case opCode i of
     OP_SYSCALL \<Rightarrow> trap eh m SyscallException 0
   | OP_XOR \<Rightarrow> completed (set_rd i m (rS i m XOR rT i m)) pc
   | OP_XORI \<Rightarrow> completed (set_rt i m (rS i m XOR (extra i AND 0xffff))) pc
   | OP_RES \<Rightarrow> trap eh m IllegalInstrException 0
   | OP_UNIMP \<Rightarrow> trap eh m IllegalInstrException 0
   | _ \<Rightarrow> None)"

text \<open>The switch; its default case is \<open>ASSERT(FALSE)\<close>.\<close>

definition exec :: "handler \<Rightarrow> Instruction \<Rightarrow> Machine \<Rightarrow> u32 \<Rightarrow> outcome option" where
  "exec eh i m pc =
     (if opCode i \<in> {OP_ADD, OP_ADDI, OP_ADDIU, OP_ADDU, OP_AND, OP_ANDI} then exec_add eh i m pc
      else if opCode i \<in> {OP_BEQ, OP_BGEZAL, OP_BGEZ, OP_BGTZ, OP_BLEZ, OP_BLTZAL, OP_BLTZ, OP_BNE} then exec_branch i m pc
      else if opCode i \<in> {OP_DIV, OP_DIVU} then exec_div i m pc
      else if opCode i \<in> {OP_JAL, OP_J, OP_JALR, OP_JR} then exec_jump i m pc
      else if opCode i \<in> {OP_LB, OP_LBU, OP_LH, OP_LHU, OP_LUI, OP_LW, OP_LWL, OP_LWR} then exec_load eh i m pc
      else if opCode i \<in> {OP_MFHI, OP_MFLO, OP_MTHI, OP_MTLO, OP_MULT, OP_MULTU, OP_NOR, OP_OR, OP_ORI} then exec_hilo i m pc
      else if opCode i \<in> {OP_SB, OP_SH, OP_SLL, OP_SLLV, OP_SLT, OP_SLTI, OP_SLTIU, OP_SLTU, OP_SRA, OP_SRAV, OP_SRL, OP_SRLV}
        then exec_shift eh i m pc
      else if opCode i \<in> {OP_SUB, OP_SUBU, OP_SW, OP_SWL, OP_SWR} then exec_store eh i m pc
      else exec_rest eh i m pc)"

definition OneInstruction :: "handler \<Rightarrow> Instruction \<Rightarrow> Machine \<Rightarrow> (Instruction \<times> Machine) option" where
  "OneInstruction eh instr m = do {
     (raw, m) \<leftarrow> ReadMem eh m (reg m PCReg) 4;
     case raw of
       None \<Rightarrow> Some (instr, m)
     | Some raw \<Rightarrow> do {
         let instr = Decode (instr\<lparr>ivalue := raw\<rparr>);
         let pcAfter = reg m NextPCReg + 4;
         r \<leftarrow> exec eh instr m pcAfter;
         case r of
           Returned m \<Rightarrow> Some (instr, m)
         | Completed m pcAfter nextLoadReg nextLoadValue \<Rightarrow> do {
             m \<leftarrow> DelayedLoad m nextLoadReg nextLoadValue;
             let m = set_reg m PrevPCReg (reg m PCReg);
             let m = set_reg m PCReg (reg m NextPCReg);
             Some (instr, set_reg m NextPCReg pcAfter)
           }
       }
   }"

subsection \<open>Multiplication is exact\<close>

definition dword :: "u32 \<Rightarrow> u32 \<Rightarrow> 64 word" where
  "dword hi lo = word_of_int (uint hi * 2 ^ 32 + uint lo)"

lemma dword_eqI: "(uint hi * 2 ^ 32 + uint lo) mod 2 ^ 64 = x mod 2 ^ 64 \<Longrightarrow> dword hi lo = word_of_int x"
  by (simp only: dword_def word_of_int_eq_iff take_bit_eq_mod) simp

lemma dword_hi_cong:
  assumes "hi mod 2 ^ 32 = hi' mod 2 ^ 32"
  shows "(hi * 2 ^ 32 + lo) mod 2 ^ 64 = (hi' * 2 ^ 32 + lo) mod (2 ^ 64 :: int)"
proof -
  have "(hi * 2 ^ 32) mod (2 ^ 32 * 2 ^ 32) = (hi' * 2 ^ 32) mod (2 ^ 32 * (2 ^ 32 :: int))"
    by (simp only: mod_mult_mult2 assms)
  then have "(hi * 2 ^ 32) mod 2 ^ 64 = (hi' * 2 ^ 32) mod (2 ^ 64 :: int)" by simp
  then show ?thesis by (rule mod_add_cong) simp
qed

text \<open>Adding two double words with the carry test of the source.\<close>

lemma carry_iff: "(lo + b < b) = (2 ^ 32 \<le> uint lo + uint (b :: u32))"
proof -
  have "uint (lo + b) = (if uint lo + uint b < 2 ^ 32 then uint lo + uint b else uint lo + uint b - 2 ^ 32)"
    by (simp add: uint_plus_if')
  then show ?thesis using uint_lt2p [of lo] uint_lt2p [of b] by (simp add: word_less_alt)
qed

lemma dword_add:
  "dword ((if lo + bLo < bLo then hi + 1 else hi) + bHi) (lo + bLo) = dword hi lo + dword bHi bLo"
proof -
  let ?c = "if lo + bLo < bLo then 1 else 0 :: int"
  have lo: "uint (lo + bLo) = uint lo + uint bLo - ?c * 2 ^ 32"
    using uint_plus_if' [of lo bLo] carry_iff [of lo bLo] by simp
  have "uint ((if lo + bLo < bLo then hi + 1 else hi) + bHi) mod 2 ^ 32 = (uint hi + uint bHi + ?c) mod 2 ^ 32"
    by (simp add: uint_word_ariths ac_simps mod_simps)
  from dword_hi_cong [OF this, of "uint (lo + bLo)"]
  have "dword ((if lo + bLo < bLo then hi + 1 else hi) + bHi) (lo + bLo)
      = word_of_int ((uint hi + uint bHi + ?c) * 2 ^ 32 + uint (lo + bLo))" by (rule dword_eqI)
  also have "(uint hi + uint bHi + ?c) * 2 ^ 32 + uint (lo + bLo)
      = (uint hi * 2 ^ 32 + uint lo) + (uint bHi * 2 ^ 32 + uint bLo)"
    unfolding lo by (simp add: algebra_simps)
  finally show ?thesis by (simp only: dword_def wi_hom_add)
qed

text \<open>The sign bit of a word.\<close>

lemma sint_cases: "sint (w :: u32) = (if uint w < 2 ^ 31 then uint w else uint w - 2 ^ 32)"
proof -
  have "sint w = (uint w + 2 ^ 31) mod 2 ^ 32 - 2 ^ 31"
    using signed_take_bit_eq_take_bit_shift [of 31 "uint w"] by (simp add: sint_uint take_bit_eq_mod)
  moreover have "(uint w + 2 ^ 31) mod 2 ^ 32 = (if uint w < 2 ^ 31 then uint w + 2 ^ 31 else uint w - 2 ^ 31)"
    using uint_lt2p [of w] mod_pos_pos_trivial [of "uint w - 2 ^ 31" "2 ^ 32"]
      mod_add_self2 [of "uint w - 2 ^ 31" "2 ^ 32"] by (auto simp: mod_pos_pos_trivial add.commute)
  ultimately show ?thesis by simp
qed

lemma sign_bit: "(w AND SIGN_BIT = 0) = (0 \<le> sint w)"
proof -
  have "(w AND 2 ^ 31 = 0) = (\<not> bit w 31)" by (simp only: and_exp_eq_0_iff_not_bit)
  moreover have "bit w 31 = (sint w < 0)" using bit_last_iff [of w] by simp
  ultimately show ?thesis by (simp add: not_less)
qed

lemma double_carry: "(b AND SIGN_BIT \<noteq> 0) = (b + b < b)"
  unfolding carry_iff using sint_cases [of b] uint_lt2p [of b] by (auto simp: sign_bit)

lemma dword_double:
  "dword (if bLo AND SIGN_BIT \<noteq> 0 then push_bit 1 bHi OR 1 else push_bit 1 bHi) (push_bit 1 bLo)
    = 2 * dword bHi bLo"
proof -
  have d: "push_bit 1 x = x + x" for x :: u32 by (simp add: push_bit_eq_mult)
  have "push_bit 1 bHi OR 1 = push_bit 1 bHi + 1"
    by (rule disjunctive_add [symmetric]) (auto simp: bit_simps simp del: push_bit_Suc)
  then show ?thesis
    using dword_add [of bLo bLo bHi bHi] by (simp add: d double_carry ac_simps split: if_splits)
qed

lemma take_bit_step:
  assumes "n < 32"
  shows "(ucast (take_bit (Suc n) a) :: 64 word)
    = (if a AND 1 \<noteq> 0 then 1 else 0) + 2 * ucast (take_bit n (signed_drop_bit 1 (a :: u32)))"
proof -
  have "(ucast (take_bit (Suc n) a) :: 64 word)
      = (if bit a 0 then 1 else 0) OR push_bit 1 (ucast (take_bit n (signed_drop_bit 1 a)))"
  proof (rule bit_word_eqI)
    fix k assume "k < LENGTH(64)"
    then show "bit (ucast (take_bit (Suc n) a) :: 64 word) k
        = bit ((if bit a 0 then 1 else 0) OR push_bit 1 (ucast (take_bit n (signed_drop_bit 1 a))) :: 64 word) k"
      using assms by (cases k) (auto simp: bit_simps bit_1_iff simp del: push_bit_Suc dest: bit_imp_le_length)
  qed
  also have "\<dots> = (if bit a 0 then 1 else 0) + push_bit 1 (ucast (take_bit n (signed_drop_bit 1 a)))"
    by (rule disjunctive_add [symmetric]) (auto simp: bit_simps simp del: push_bit_Suc)
  also have "bit a 0 = (a AND 1 \<noteq> 0)"
    using and_exp_eq_0_iff_not_bit [of a 0] by simp
  finally show ?thesis by (simp add: push_bit_eq_mult)
qed

lemma mult_loop_correct:
  assumes "n \<le> 32" "mult_loop n a bHi bLo hi lo = (hi', lo')"
  shows "dword hi' lo' = dword hi lo + ucast (take_bit n a) * dword bHi bLo"
  using assms
proof (induction n arbitrary: a bHi bLo hi lo)
  case (Suc n)
  let ?lo = "if a AND 1 \<noteq> 0 then lo + bLo else lo"
  let ?hi = "if a AND 1 \<noteq> 0 then (if ?lo < bLo then hi + 1 else hi) + bHi else hi"
  have add: "dword ?hi ?lo = dword hi lo + (if a AND 1 \<noteq> 0 then 1 else 0) * dword bHi bLo"
    by (simp add: dword_add)
  show ?case
  proof (cases "a AND 1 \<noteq> 0 \<and> a AND 0xfffffffe = 0")
    case True
    have "(1 :: u32) OR 0xfffffffe = - 1" by simp
    then have "a = a AND (1 OR 0xfffffffe)" by (simp only: bit.conj_one_right)
    also have "\<dots> = (a AND 1) OR (a AND 0xfffffffe)" by (simp only: bit.conj_disj_distrib)
    also have "\<dots> = 1" using True by (auto simp: and_one_eq split: if_splits)
    finally have "a = 1" .
    then show ?thesis using Suc.prems(2) add True by (auto simp: Let_def)
  next
    case False
    then have "mult_loop n (signed_drop_bit 1 a)
        (if bLo AND SIGN_BIT \<noteq> 0 then push_bit 1 bHi OR 1 else push_bit 1 bHi) (push_bit 1 bLo) ?hi ?lo = (hi', lo')"
      using Suc.prems(2) by (auto simp: Let_def)
    from Suc.IH [OF _ this] Suc.prems(1) show ?thesis
      unfolding dword_double add take_bit_step [of n a, OF Suc_le_lessD [OF Suc.prems(1)]]
      by (simp add: algebra_simps)
  qed
qed simp

lemma uint_NOT: "uint (NOT (w :: u32)) = 2 ^ 32 - 1 - uint w"
proof -
  have m1: "uint (- 1 :: u32) = 2 ^ 32 - 1" by (simp add: unsigned_minus_1_eq_mask mask_eq_exp_minus_1)
  then have "uint w \<le> uint (- 1 :: u32)" using uint_lt2p [of w] by simp
  then have "uint (- 1 - w) = uint (- 1 :: u32) - uint w" by (rule uint_sub_lem [THEN iffD1])
  moreover have "NOT w = - 1 - w" by (simp add: not_eq_complement)
  ultimately show ?thesis using m1 by simp
qed

lemma dword_negate:
  "dword (if NOT lo + 1 = 0 then NOT hi + 1 else NOT hi) (NOT lo + 1) = - dword hi lo"
proof -
  have "(NOT lo + 1 < 1) = (NOT lo + 1 = 0)" by (simp add: word_less_1)
  then have "dword (if NOT lo + 1 = 0 then NOT hi + 1 else NOT hi) (NOT lo + 1)
      = dword (NOT hi) (NOT lo) + dword 0 1"
    using dword_add [of "NOT lo" 1 "NOT hi" 0] by simp
  moreover have "dword (NOT hi) (NOT lo) = word_of_int (- (uint hi * 2 ^ 32 + uint lo) - 1)"
  proof (rule dword_eqI)
    have "uint (NOT hi) * 2 ^ 32 + uint (NOT lo) = - (uint hi * 2 ^ 32 + uint lo) - 1 + 2 ^ 64"
      by (simp add: uint_NOT)
    then show "(uint (NOT hi) * 2 ^ 32 + uint (NOT lo)) mod 2 ^ 64 = (- (uint hi * 2 ^ 32 + uint lo) - 1) mod 2 ^ 64"
      by (simp only: mod_add_self2)
  qed
  ultimately show ?thesis by (simp add: dword_def)
qed

lemma dword_single: "dword 0 b = ucast b"
  by (simp only: dword_def ucast_eq unsigned_0 mult_zero_left add_0)

lemma scast_abs: "(scast (w :: u32) :: 64 word) = (if sint w < 0 then - ucast (- w) else ucast w)"
proof (cases "sint w < 0")
  case True
  then have u: "uint w \<ge> 2 ^ 31" "sint w = uint w - 2 ^ 32" using sint_cases [of w] uint_ge_0 [of w] by (auto split: if_splits)
  have "uint (- w) = 2 ^ 32 - uint w"
  proof -
    have "uint (- w) = (2 ^ 32 - uint w) mod 2 ^ 32" by (simp add: uint_word_ariths)
    also have "\<dots> = 2 ^ 32 - uint w"
      by (rule mod_pos_pos_trivial) (use u(1) uint_lt2p [of w] in simp_all)
    finally show ?thesis .
  qed
  moreover have "(word_of_int (uint w - 2 ^ 32) :: 64 word) = - word_of_int (2 ^ 32 - uint w)" by simp
  ultimately show ?thesis using True u(2) by (simp only: scast_eq ucast_eq if_True)
next
  case False
  then have "sint w = uint w" using sint_cases [of w] uint_lt2p [of w] by (auto split: if_splits)
  then show ?thesis using False by (simp only: scast_eq ucast_eq if_False)
qed

lemma Mult_exact:
  assumes "Mult a b signedArith = (hi, lo)"
  shows "dword hi lo = (if signedArith then scast a * scast b else ucast a * ucast b)"
proof (cases "a = 0 \<or> b = 0")
  case True
  then show ?thesis using assms by (auto simp: Mult_def dword_def)
next
  case False
  define na where "na = (signedArith \<and> sint a < 0)"
  define nb where "nb = (signedArith \<and> sint b < 0)"
  obtain h l where l: "mult_loop 32 (if na then - a else a) 0 (if nb then - b else b) 0 0 = (h, l)"
    by fastforce
  have "dword h l = dword 0 0 + ucast (take_bit 32 (if na then - a else a)) * dword 0 (if nb then - b else b)"
    by (rule mult_loop_correct [OF order_refl l])
  also have "take_bit 32 (if na then - a else a) = (if na then - a else a)" by (rule take_bit_word_eq_self) simp
  finally have "dword h l = ucast (if na then - a else a) * ucast (if nb then - b else b)"
    by (simp add: dword_single)
  moreover have "dword hi lo = (if na \<noteq> nb then - dword h l else dword h l)"
    using assms False l dword_negate [of l h] by (auto simp: Mult_def na_def nb_def Let_def split: if_splits)
  ultimately show ?thesis by (auto simp: na_def nb_def scast_abs)
qed

subsection \<open>Overflow detection\<close>

lemma xor_sign: "((a XOR b) AND SIGN_BIT = 0) = ((sint a < 0) = (sint b < 0))"
proof -
  have b: "(w AND SIGN_BIT = 0) = (\<not> bit w 31)" for w :: u32
    using sign_bit [of w] bit_last_iff [of w] by (simp add: not_less)
  have n: "bit w 31 = (sint w < 0)" for w :: u32 using bit_last_iff [of w] by simp
  have "bit (a XOR b) 31 = (bit a 31 \<noteq> bit b 31)" by (rule bit_xor_iff)
  then show ?thesis unfolding b n by simp
qed

lemma sint_add:
  "sint (a + b :: u32) = (if is_int32 (sint a + sint b) then sint a + sint b
     else if sint a < 0 then sint a + sint b + 2 ^ 32 else sint a + sint b - 2 ^ 32)"
proof -
  obtain x y where xy: "uint a = x" "uint b = y" by blast
  then have "0 \<le> x" "x < 2 ^ 32" "0 \<le> y" "y < 2 ^ 32" using uint_lt2p [of a] uint_lt2p [of b] by auto
  then show ?thesis unfolding sint_cases uint_plus_if' xy is_int32_def by auto
qed

lemma sint_sub:
  "sint (a - b :: u32) = (if is_int32 (sint a - sint b) then sint a - sint b
     else if sint a < 0 then sint a - sint b + 2 ^ 32 else sint a - sint b - 2 ^ 32)"
proof -
  obtain x y where xy: "uint a = x" "uint b = y" by blast
  then have "0 \<le> x" "x < 2 ^ 32" "0 \<le> y" "y < 2 ^ 32" using uint_lt2p [of a] uint_lt2p [of b] by auto
  then show ?thesis unfolding sint_cases uint_sub_if' xy is_int32_def by auto
qed

lemma sint_range32: "- (2 ^ 31) \<le> sint (w :: u32)" "sint (w :: u32) < 2 ^ 31"
  using sint_ge [of w] sint_lt [of w] by simp_all

lemma add_overflow:
  "((a XOR b) AND SIGN_BIT = 0 \<and> (a XOR (a + b)) AND SIGN_BIT \<noteq> 0) = (\<not> is_int32 (sint a + sint b))"
  unfolding xor_sign using sint_add [of a b] sint_range32 [of a] sint_range32 [of b]
  by (auto simp: is_int32_def split: if_splits)

lemma addi_overflow:
  "((a XOR b) AND SIGN_BIT = 0 \<and> (b XOR (a + b)) AND SIGN_BIT \<noteq> 0) = (\<not> is_int32 (sint a + sint b))"
  unfolding xor_sign using sint_add [of a b] sint_range32 [of a] sint_range32 [of b]
  by (auto simp: is_int32_def split: if_splits)

lemma sub_overflow:
  "((a XOR b) AND SIGN_BIT \<noteq> 0 \<and> (a XOR (a - b)) AND SIGN_BIT \<noteq> 0) = (\<not> is_int32 (sint a - sint b))"
  unfolding xor_sign using sint_sub [of a b] sint_range32 [of a] sint_range32 [of b]
  by (auto simp: is_int32_def split: if_splits)

subsection \<open>Decoding\<close>

lemma opTable_fact: "list_all (\<lambda>(op, fmt). op \<noteq> OP_RFE \<and> (op = SPECIAL \<longrightarrow> fmt = RFMT)) opTable" "length opTable = 64"
  by (simp_all add: opTable_def)

lemma specialTable_fact: "list_all (\<lambda>op. op \<notin> {OP_RFE, SPECIAL, BCOND}) specialTable" "length specialTable = 64"
  by (simp_all add: specialTable_def)

lemma and_mask_less: "unat (w AND 0x3f) < 64" "unat (w AND 0x1f) < 32" for w :: u32
proof -
  have "w AND 0x3f = take_bit 6 w" "w AND 0x1f = take_bit 5 w"
    by (simp_all add: take_bit_eq_mask mask_eq_exp_minus_1)
  moreover have "unat (take_bit 6 w) < 2 ^ 6" "unat (take_bit 5 w) < 2 ^ 5"
    unfolding unsigned_take_bit_eq by (rule take_bit_nat_less_exp)+
  ultimately show "unat (w AND 0x3f) < 64" "unat (w AND 0x1f) < 32" by simp_all
qed

lemma unat_field: "unat (ucast (drop_bit n v AND 0x1f :: u32) :: byte) < 32"
proof -
  have "unat (ucast (drop_bit n v AND 0x1f :: u32) :: byte) \<le> unat (drop_bit n v AND 0x1f :: u32)"
    by (simp add: unsigned_ucast_eq take_bit_nat_less_eq_self)
  then show ?thesis using and_mask_less(2) [of "drop_bit n v"] by simp
qed

text \<open>A decoded instruction: register numbers are below 32, and no table entry is left undecoded.\<close>

definition decoded :: "Instruction \<Rightarrow> bool" where
  "decoded i \<longleftrightarrow> unat (rs i) < 32 \<and> unat (rt i) < 32 \<and> unat (rd i) < 32
     \<and> opCode i \<notin> {OP_RFE, SPECIAL, BCOND}"

lemma Decode_decoded: "decoded (Decode i)"
proof -
  let ?v = "ivalue i"
  obtain op fmt where t: "opTable ! unat (drop_bit 26 ?v AND 0x3f) = (op, fmt)" by fastforce
  have "op \<noteq> OP_RFE"
    using opTable_fact and_mask_less(1) [of "drop_bit 26 ?v"] t by (auto simp: list_all_length)
  moreover have "specialTable ! unat (?v AND 0x3f) \<notin> {OP_RFE, SPECIAL, BCOND}"
    using specialTable_fact and_mask_less(1) [of ?v] by (auto simp: list_all_length)
  ultimately show ?thesis by (simp add: decoded_def Decode_def t Let_def unat_field)
qed

subsection \<open>The machine invariant\<close>

text \<open>
  \<open>mid_wf\<close> holds during an instruction, \<open>mach_wf\<close> between instructions, where register 0 is zero again.
\<close>

definition mid_wf :: "Machine \<Rightarrow> bool" where
  "mid_wf m \<longleftrightarrow> length (registers m) = NumTotalRegs \<and> unat (reg m LoadReg) < 32 \<and> table_ok m"

definition mach_wf :: "Machine \<Rightarrow> bool" where
  "mach_wf m \<longleftrightarrow> mid_wf m \<and> reg m 0 = 0"

definition handler_ok :: "handler \<Rightarrow> bool" where
  "handler_ok eh \<longleftrightarrow> (\<forall>e m. mach_wf m \<longrightarrow> (\<exists>m'. eh e m = Some m' \<and> mach_wf m'))"

lemma table_ok_upd [simp]:
  "table_ok (m\<lparr>registers := r\<rparr>) = table_ok m" "table_ok (m\<lparr>status := s\<rparr>) = table_ok m"
  by (cases "tlb m"; cases "pageTable m"; simp add: table_ok_def)+

lemma set_reg_simps [simp]:
  "registers (set_reg m k x) = (registers m)[k := x]" "mainMemory (set_reg m k x) = mainMemory m"
  "table_ok (set_reg m k x) = table_ok m" "status (set_reg m k x) = status m"
  by (simp_all add: set_reg_def)

lemma mid_wf_set_reg: "mid_wf m \<Longrightarrow> k \<noteq> LoadReg \<Longrightarrow> mid_wf (set_reg m k x)"
  by (auto simp: mid_wf_def)

lemma mid_wf_status [simp]: "mid_wf (m\<lparr>status := s\<rparr>) = mid_wf m" "mach_wf (m\<lparr>status := s\<rparr>) = mach_wf m"
  by (simp_all add: mid_wf_def mach_wf_def)

lemma mid_wf_core:
  assumes "mid_wf m" "same_core m m'" "registers m' = registers m"
  shows "mid_wf m'"
  using assms same_core_table_ok [OF assms(2)] by (simp add: mid_wf_def)

lemma DelayedLoad_ok:
  assumes "mid_wf m" "unat r < 32"
  shows "\<exists>m'. DelayedLoad m r x = Some m' \<and> mach_wf m'"
proof -
  have "sint (reg m LoadReg) = int (unat (reg m LoadReg))"
    using assms(1) by (intro sint_small) (simp add: mid_wf_def)
  then have "sint (reg m LoadReg) \<ge> 0" "sint (reg m LoadReg) < 40" using assms(1) by (auto simp: mid_wf_def simp del: of_nat_unat)
  then show ?thesis using assms by (auto simp: DelayedLoad_def mach_wf_def mid_wf_def Let_def)
qed

lemma RaiseException_ok:
  assumes "handler_ok eh" "mid_wf m"
  shows "\<exists>m'. RaiseException eh m e a = Some m' \<and> mach_wf m'"
proof -
  have "mid_wf (set_reg m BadVAddrReg a)" using assms(2) by (simp add: mid_wf_set_reg)
  then obtain m1 where "DelayedLoad (set_reg m BadVAddrReg a) 0 0 = Some m1" "mach_wf m1"
    using DelayedLoad_ok [of _ 0 0] by fastforce
  moreover have "mach_wf (m1\<lparr>status := SystemMode\<rparr>)" using calculation(2) by simp
  then obtain m2 where "eh e (m1\<lparr>status := SystemMode\<rparr>) = Some m2" "mach_wf m2"
    using assms(1) unfolding handler_ok_def by blast
  ultimately show ?thesis by (simp add: RaiseException_def Let_def)
qed

fun outcome_ok :: "outcome \<Rightarrow> bool" where
  "outcome_ok (Returned m) = mach_wf m"
| "outcome_ok (Completed m pc r x) = (mid_wf m \<and> unat r < 32)"

abbreviation ok_run :: "outcome option \<Rightarrow> bool" where
  "ok_run res \<equiv> \<exists>r. res = Some r \<and> outcome_ok r"

lemma trap_ok: "handler_ok eh \<Longrightarrow> mid_wf m \<Longrightarrow> ok_run (trap eh m e a)"
  using RaiseException_ok [of eh m e a] by (auto simp: trap_def)

lemma with_read_ok:
  assumes "handler_ok eh" "mid_wf m" "sz \<in> {1, 2, 4}"
    "\<And>x m'. mid_wf m' \<Longrightarrow> registers m' = registers m \<Longrightarrow> ok_run (k x m')"
  shows "ok_run (with_read eh m a sz k)"
proof (cases "access m False a sz")
  case None
  have "table_ok m" using assms(2) by (simp add: mid_wf_def)
  then obtain e where e: "ReadMem eh m a sz = do { m' \<leftarrow> RaiseException eh m e a; Some (None, m') }"
    using ReadMem_trap [OF _ assms(3) None, of eh] by blast
  then show ?thesis using RaiseException_ok [OF assms(1,2), of e a] by (auto simp: with_read_def)
next
  case (Some p)
  have "table_ok m" using assms(2) by (simp add: mid_wf_def)
  then obtain x m' where "ReadMem eh m a sz = Some (Some x, m')" "same_core m m'" "registers m' = registers m"
    using ReadMem_ok [OF _ assms(3) Some, of eh] by blast
  then show ?thesis using assms(4) [OF mid_wf_core [OF assms(2)]] by (simp add: with_read_def)
qed

lemma with_write_ok:
  assumes "handler_ok eh" "mid_wf m" "sz \<in> {1, 2, 4}"
  shows "ok_run (with_write eh m a sz x pc)"
proof (cases "access m True a sz")
  case None
  have "table_ok m" using assms(2) by (simp add: mid_wf_def)
  then obtain e where e: "WriteMem eh m a sz x = do { m' \<leftarrow> RaiseException eh m e a; Some (False, m') }"
    using WriteMem_trap [OF _ assms(3) None, of eh x] by blast
  then show ?thesis using RaiseException_ok [OF assms(1,2), of e a] by (auto simp: with_write_def)
next
  case (Some p)
  have "table_ok m" using assms(2) by (simp add: mid_wf_def)
  then obtain m' where "WriteMem eh m a sz x = Some (True, m')" "same_core m m'" "registers m' = registers m"
    using WriteMem_ok [OF _ assms(3) Some, of eh x] by blast
  then show ?thesis using mid_wf_core [OF assms(2)] by (simp add: with_write_def)
qed

text \<open>The instructions at which the simulator itself can stop: the assertions of the unaligned loads and
  stores, and the division that the host cannot do.\<close>

definition host_safe :: "Instruction \<Rightarrow> Machine \<Rightarrow> bool" where
  "host_safe i m \<longleftrightarrow> (opCode i = OP_DIV \<longrightarrow> \<not> (rS i m = SIGN_BIT \<and> rT i m = - 1))
     \<and> (opCode i \<in> {OP_LWL, OP_LWR, OP_SWL, OP_SWR} \<longrightarrow> (rS i m + extra i) AND 3 = 0)"

lemma byte_dest: "unat (ucast (b :: byte) :: u32) = unat b"
proof -
  have "unat b < 2 ^ 32" using unsigned_less [of b, where ?'a = nat] by simp
  then show ?thesis by (simp add: unsigned_ucast_eq take_bit_nat_eq_self_iff)
qed

lemma ok_if: "(c \<Longrightarrow> ok_run a) \<Longrightarrow> (\<not> c \<Longrightarrow> ok_run b) \<Longrightarrow> ok_run (if c then a else b)"
  by simp

lemma exec_add_ok:
  assumes "handler_ok eh" "mid_wf m" "decoded i" "opCode i \<in> {OP_ADD, OP_ADDI, OP_ADDIU, OP_ADDU, OP_AND, OP_ANDI}"
  shows "ok_run (exec_add eh i m pc)"
  using assms(4) trap_ok [OF assms(1,2)] assms(2,3)
  by (auto simp: exec_add_def Let_def mid_wf_set_reg decoded_def)

lemma exec_branch_ok:
  assumes "mid_wf m" "opCode i \<in> {OP_BEQ, OP_BGEZAL, OP_BGEZ, OP_BGTZ, OP_BLEZ, OP_BLTZAL, OP_BLTZ, OP_BNE}"
  shows "ok_run (exec_branch i m pc)"
  using assms by (auto simp: exec_branch_def branch_if_def Let_def mid_wf_set_reg)

lemma exec_div_ok:
  assumes "mid_wf m" "host_safe i m" "opCode i \<in> {OP_DIV, OP_DIVU}"
  shows "ok_run (exec_div i m pc)"
  using assms by (auto simp: exec_div_def host_safe_def Let_def mid_wf_set_reg)

lemma exec_jump_ok:
  assumes "mid_wf m" "decoded i" "opCode i \<in> {OP_JAL, OP_J, OP_JALR, OP_JR}"
  shows "ok_run (exec_jump i m pc)"
  using assms by (auto simp: exec_jump_def Let_def mid_wf_set_reg decoded_def)

lemma exec_load_ok:
  assumes "handler_ok eh" "mid_wf m" "decoded i" "host_safe i m"
    "opCode i \<in> {OP_LB, OP_LBU, OP_LH, OP_LHU, OP_LUI, OP_LW, OP_LWL, OP_LWR}"
  shows "ok_run (exec_load eh i m pc)"
proof -
  have "ok_run (with_read eh m a sz (\<lambda>x m. Some (Completed m pc (ucast (rt i)) (f x m))))"
    if "sz \<in> {1, 2, 4}" for a sz f
    by (rule with_read_ok [OF assms(1,2) that]) (use assms(3) in \<open>simp add: decoded_def byte_dest\<close>)
  from this [of 1] this [of 2] this [of 4] assms(5) trap_ok [OF assms(1,2)] assms(2-4) show ?thesis
    by (elim insertE emptyE) (simp_all add: exec_load_def Let_def mid_wf_set_reg decoded_def host_safe_def)
qed

lemma exec_hilo_ok:
  assumes "mid_wf m" "decoded i"
    "opCode i \<in> {OP_MFHI, OP_MFLO, OP_MTHI, OP_MTLO, OP_MULT, OP_MULTU, OP_NOR, OP_OR, OP_ORI}"
  shows "ok_run (exec_hilo i m pc)"
  using assms by (auto simp: exec_hilo_def Let_def mid_wf_set_reg decoded_def split: prod.split)

lemma exec_shift_ok:
  assumes "handler_ok eh" "mid_wf m" "decoded i"
    "opCode i \<in> {OP_SB, OP_SH, OP_SLL, OP_SLLV, OP_SLT, OP_SLTI, OP_SLTIU, OP_SLTU, OP_SRA, OP_SRAV, OP_SRL, OP_SRLV}"
  shows "ok_run (exec_shift eh i m pc)"
  using assms(4) with_write_ok [OF assms(1,2)] assms(2,3)
  by (auto simp: exec_shift_def Let_def mid_wf_set_reg decoded_def)

lemma exec_store_ok:
  assumes "handler_ok eh" "mid_wf m" "decoded i" "host_safe i m"
    "opCode i \<in> {OP_SUB, OP_SUBU, OP_SW, OP_SWL, OP_SWR}"
  shows "ok_run (exec_store eh i m pc)"
  using assms(5) trap_ok [OF assms(1,2)] with_write_ok [OF assms(1,2)] assms(2-4)
  by (auto simp: exec_store_def Let_def mid_wf_set_reg decoded_def host_safe_def
      intro!: with_read_ok [OF assms(1,2)] with_write_ok [OF assms(1)])

lemma exec_rest_ok:
  assumes "handler_ok eh" "mid_wf m" "decoded i" "opCode i \<in> {OP_SYSCALL, OP_XOR, OP_XORI, OP_RES, OP_UNIMP}"
  shows "ok_run (exec_rest eh i m pc)"
  using assms(4) trap_ok [OF assms(1,2)] assms(2,3)
  by (auto simp: exec_rest_def mid_wf_set_reg decoded_def)

lemma exec_ok:
  assumes "handler_ok eh" "mid_wf m" "decoded i" "host_safe i m"
  shows "ok_run (exec eh i m pc)"
proof -
  note groups = exec_add_ok [OF assms(1-3)] exec_branch_ok [OF assms(2)] exec_div_ok [OF assms(2,4)]
    exec_jump_ok [OF assms(2,3)] exec_load_ok [OF assms(1-4)] exec_hilo_ok [OF assms(2,3)]
    exec_shift_ok [OF assms(1-3)] exec_store_ok [OF assms(1-4)] exec_rest_ok [OF assms(1-3)]
  have last: "opCode i \<in> {OP_SYSCALL, OP_XOR, OP_XORI, OP_RES, OP_UNIMP}"
    if "opCode i \<notin> {OP_ADD, OP_ADDI, OP_ADDIU, OP_ADDU, OP_AND, OP_ANDI}"
      "opCode i \<notin> {OP_BEQ, OP_BGEZAL, OP_BGEZ, OP_BGTZ, OP_BLEZ, OP_BLTZAL, OP_BLTZ, OP_BNE}"
      "opCode i \<notin> {OP_DIV, OP_DIVU}" "opCode i \<notin> {OP_JAL, OP_J, OP_JALR, OP_JR}"
      "opCode i \<notin> {OP_LB, OP_LBU, OP_LH, OP_LHU, OP_LUI, OP_LW, OP_LWL, OP_LWR}"
      "opCode i \<notin> {OP_MFHI, OP_MFLO, OP_MTHI, OP_MTLO, OP_MULT, OP_MULTU, OP_NOR, OP_OR, OP_ORI}"
      "opCode i \<notin> {OP_SB, OP_SH, OP_SLL, OP_SLLV, OP_SLT, OP_SLTI, OP_SLTIU, OP_SLTU, OP_SRA, OP_SRAV, OP_SRL, OP_SRLV}"
      "opCode i \<notin> {OP_SUB, OP_SUBU, OP_SW, OP_SWL, OP_SWR}"
    using assms(3) that by (cases "opCode i") (simp_all add: decoded_def)
  show ?thesis unfolding exec_def
    by (rule ok_if, erule groups(1), rule ok_if, erule groups(2), rule ok_if, erule groups(3),
        rule ok_if, erule groups(4), rule ok_if, erule groups(5), rule ok_if, erule groups(6),
        rule ok_if, erule groups(7), rule ok_if, erule groups(8), rule groups(9), rule last)
qed

lemma step_fetch:
  assumes "mach_wf m" "access m False (reg m PCReg) 4 = Some p"
  obtains x m' where "ReadMem eh m (reg m PCReg) 4 = Some (Some x, m')" "load_bytes m p 4 = Some x"
    "mach_wf m'" "registers m' = registers m" "mainMemory m' = mainMemory m"
proof -
  have wf: "mid_wf m" "table_ok m" using assms(1) by (simp_all add: mach_wf_def mid_wf_def)
  obtain x m' where r: "ReadMem eh m (reg m PCReg) 4 = Some (Some x, m')" "load_bytes m p 4 = Some x"
    "same_core m m'" "registers m' = registers m" "mainMemory m' = mainMemory m"
    using ReadMem_ok [OF wf(2) _ assms(2), of eh] by auto
  then have "mach_wf m'" using mid_wf_core [OF wf(1)] assms(1) by (simp add: mach_wf_def)
  then show ?thesis using that r by blast
qed

text \<open>The instruction at the program counter, when it can be fetched.\<close>

definition current :: "Machine \<Rightarrow> Instruction \<Rightarrow> Instruction option" where
  "current m instr = (case access m False (reg m PCReg) 4 of None \<Rightarrow> None
     | Some p \<Rightarrow> map_option (\<lambda>x. Decode (instr\<lparr>ivalue := x\<rparr>)) (load_bytes m p 4))"

lemma OneInstruction_ok:
  assumes "handler_ok eh" "mach_wf m" "\<And>i. current m instr = Some i \<Longrightarrow> host_safe i m"
  shows "\<exists>i m'. OneInstruction eh instr m = Some (i, m') \<and> mach_wf m'"
proof (cases "access m False (reg m PCReg) 4")
  case None
  have wf: "mid_wf m" "table_ok m" using assms(2) by (simp_all add: mach_wf_def mid_wf_def)
  obtain e where "ReadMem eh m (reg m PCReg) 4 = do { m' \<leftarrow> RaiseException eh m e (reg m PCReg); Some (None, m') }"
    using ReadMem_trap [OF wf(2) _ None, of eh] by auto
  then show ?thesis
    using RaiseException_ok [OF assms(1) wf(1), of e "reg m PCReg"] by (auto simp: OneInstruction_def)
next
  case (Some p)
  obtain x m1 where f: "ReadMem eh m (reg m PCReg) 4 = Some (Some x, m1)" "load_bytes m p 4 = Some x"
    "mach_wf m1" "registers m1 = registers m"
    using step_fetch [OF assms(2) Some, of eh] by blast
  let ?i = "Decode (instr\<lparr>ivalue := x\<rparr>)"
  have "current m instr = Some ?i" using Some f(2) by (simp add: current_def)
  from assms(3) [OF this] have "host_safe ?i m1" using f(4) by (simp add: host_safe_def)
  then obtain r where r: "exec eh ?i m1 (reg m1 NextPCReg + 4) = Some r" "outcome_ok r"
    using exec_ok [OF assms(1) _ Decode_decoded, of m1] f(3) by (auto simp: mach_wf_def)
  show ?thesis
  proof (cases r)
    case (Returned m2)
    then show ?thesis using f(1) r by (simp add: OneInstruction_def Let_def)
  next
    case (Completed m2 pc l v)
    then obtain m3 where m3: "DelayedLoad m2 l v = Some m3" "mach_wf m3" using DelayedLoad_ok r(2) by fastforce
    then have "mach_wf (set_reg (set_reg (set_reg m3 PrevPCReg a) PCReg b) NextPCReg c)" for a b c
      by (auto simp: mach_wf_def mid_wf_set_reg)
    then show ?thesis using f(1) r(1) Completed m3(1) by (simp add: OneInstruction_def Let_def)
  qed
qed

subsection \<open>Instructions only write through the page table\<close>

definition writable :: "Machine \<Rightarrow> nat \<Rightarrow> bool" where
  "writable m x \<longleftrightarrow> (\<exists>v. vmap m True v = Some (x div PageSize))"

text \<open>A handler that leaves user memory alone, to separate the stores of the program from those of the kernel.\<close>

definition quiet :: "handler \<Rightarrow> bool" where
  "quiet eh \<longleftrightarrow> (\<forall>e m m'. eh e m = Some m' \<longrightarrow> mainMemory m' = mainMemory m)"

fun confined :: "Machine \<Rightarrow> outcome \<Rightarrow> bool" where
  "confined m (Returned m') = (\<forall>a. mainMemory m' a = mainMemory m a \<or> writable m a)"
| "confined m (Completed m' pc r x) = (\<forall>a. mainMemory m' a = mainMemory m a \<or> writable m a)"

lemma confined_same: "mainMemory m' = mainMemory m \<Longrightarrow> confined m (Completed m' pc r x)"
  by simp

lemma RaiseException_quiet:
  assumes "quiet eh" "RaiseException eh m e a = Some m'"
  shows "mainMemory m' = mainMemory m"
  using assms by (auto simp: RaiseException_def DelayedLoad_def quiet_def bind_Some_iff Let_def)

lemma trap_confined: "quiet eh \<Longrightarrow> post (trap eh m e a) (confined m)"
  unfolding trap_def by (intro vcg) (simp add: RaiseException_quiet)

lemma WriteMem_confined:
  assumes "quiet eh" "table_ok m" "sz \<in> {1, 2, 4}" "WriteMem eh m a sz x = Some (ok, m')"
  shows "mainMemory m' b = mainMemory m b \<or> writable m b"
proof (cases "access m True a sz")
  case None
  then obtain e where "WriteMem eh m a sz x = do { m' \<leftarrow> RaiseException eh m e a; Some (False, m') }"
    using WriteMem_trap [OF assms(2,3) None, of eh x] by blast
  then have "RaiseException eh m e a = Some m'" using assms(4) by (cases "RaiseException eh m e a") auto
  from RaiseException_quiet [OF assms(1) this] show ?thesis by simp
next
  case (Some p)
  obtain bs where bs: "store_bytes x sz = Some bs" "mainMemory m' = poke (mainMemory m) p bs"
    using WriteMem_ok [OF assms(2,3) Some, of eh x] assms(4) by auto
  have len: "int (length bs) = sz" using store_bytes_total [OF assms(3), of x] bs(1) by simp
  obtain f where f: "vmap m True (a div 128) = Some f" "\<And>i. int i < sz \<Longrightarrow> (p + i) div PageSize = f"
    using access_frame [OF Some assms(3)] by blast
  show ?thesis
  proof (cases "p \<le> b \<and> b < p + length bs")
    case True
    then have "(p + (b - p)) div PageSize = f" using len by (intro f(2)) linarith
    then show ?thesis using f(1) True by (auto simp: writable_def)
  qed (use bs(2) in \<open>auto simp: poke_def\<close>)
qed

lemma with_write_confined:
  assumes "quiet eh" "table_ok m" "sz \<in> {1, 2, 4}"
  shows "post (with_write eh m a sz x pc) (confined m)"
  unfolding with_write_def by (intro vcg) (use WriteMem_confined [OF assms] in auto)

lemma with_read_confined:
  assumes "quiet eh" "table_ok m" "sz \<in> {1, 2, 4}"
    "\<And>x m'. same_core m m' \<Longrightarrow> mainMemory m' = mainMemory m \<Longrightarrow> post (k x m') (confined m)"
  shows "post (with_read eh m a sz k) (confined m)"
proof (cases "access m False a sz")
  case None
  then obtain e where "ReadMem eh m a sz = do { m' \<leftarrow> RaiseException eh m e a; Some (None, m') }"
    using ReadMem_trap [OF assms(2,3) None, of eh] by blast
  then show ?thesis
    using RaiseException_quiet [OF assms(1), of m e a]
    by (cases "RaiseException eh m e a") (auto simp: with_read_def post_def)
next
  case (Some p)
  obtain x m' where "ReadMem eh m a sz = Some (Some x, m')" "same_core m m'" "mainMemory m' = mainMemory m"
    using ReadMem_ok [OF assms(2,3) Some, of eh] by blast
  then show ?thesis using assms(4) by (simp add: with_read_def)
qed

lemma confined_core:
  assumes "table_ok m" "same_core m m'" "mainMemory m' = mainMemory m" "confined m' r"
  shows "confined m r"
  using assms vmap_core [OF assms(1,2)] by (cases r) (auto simp: writable_def)

lemma post_SomeI: "(\<And>x. r = Some x \<Longrightarrow> Q x) \<Longrightarrow> post r Q"
  by (simp add: post_def)

lemma exec_confined:
  assumes q: "quiet eh" and ok: "table_ok m"
  shows "post (exec eh i m pc) (confined m)"
proof -
  note w = with_write_confined [OF q ok] and t = trap_confined [OF q, of m]
  have rd: "post (with_read eh m a sz (\<lambda>x m. Some (Completed m pc r (f x m)))) (confined m)"
    if "sz \<in> {1, 2, 4}" for a sz r f
    by (rule with_read_confined [OF q ok that]) (simp add: post_def)
  have rw: "post (with_read eh m a 4 (\<lambda>x m. with_write eh m b 4 (f x m) pc)) (confined m)" for a b f
    by (rule with_read_confined [OF q ok])
      (auto intro!: post_SomeI confined_core [OF ok]
        dest!: postD [OF with_write_confined [OF q same_core_table_ok [OF _ ok]], rotated -1])
  have "post (exec_add eh i m pc) (confined m)"
    by (cases "opCode i") (use t in \<open>simp_all add: exec_add_def Let_def post_def\<close>)
  moreover have "post (exec_branch i m pc) (confined m)"
    by (cases "opCode i") (simp_all add: exec_branch_def branch_if_def Let_def post_def)
  moreover have "post (exec_div i m pc) (confined m)"
    by (cases "opCode i") (simp_all add: exec_div_def ASSERT_def Let_def post_def)
  moreover have "post (exec_jump i m pc) (confined m)"
    by (cases "opCode i") (simp_all add: exec_jump_def Let_def post_def)
  moreover have "post (exec_hilo i m pc) (confined m)"
    by (cases "opCode i") (simp_all add: exec_hilo_def Let_def post_def split: prod.split)
  moreover have "post (exec_shift eh i m pc) (confined m)"
    by (cases "opCode i") (use w in \<open>simp_all add: exec_shift_def post_Some post_None\<close>)
  moreover have "post (exec_rest eh i m pc) (confined m)"
    by (cases "opCode i") (use t in \<open>simp_all add: exec_rest_def post_Some post_None\<close>)
  moreover have "post (exec_load eh i m pc) (confined m)"
    by (cases "opCode i") (use t rd in \<open>simp_all add: exec_load_def ASSERT_def Let_def post_Some post_None\<close>)
  moreover have "post (exec_store eh i m pc) (confined m)"
    by (cases "opCode i") (use t w rw in \<open>simp_all add: exec_store_def ASSERT_def Let_def post_Some post_None\<close>)
  ultimately show ?thesis unfolding exec_def by simp
qed

lemma OneInstruction_confined:
  assumes "quiet eh" "table_ok m" "OneInstruction eh instr m = Some (i, m')"
  shows "mainMemory m' a = mainMemory m a \<or> writable m a"
proof (cases "access m False (reg m PCReg) 4")
  case None
  then obtain e where "ReadMem eh m (reg m PCReg) 4 = do { m' \<leftarrow> RaiseException eh m e (reg m PCReg); Some (None, m') }"
    using ReadMem_trap [OF assms(2) _ None, of eh] by auto
  then have "RaiseException eh m e (reg m PCReg) = Some m'"
    using assms(3) by (cases "RaiseException eh m e (reg m PCReg)") (auto simp: OneInstruction_def)
  from RaiseException_quiet [OF assms(1) this] show ?thesis by simp
next
  case (Some p)
  obtain x m1 where f: "ReadMem eh m (reg m PCReg) 4 = Some (Some x, m1)" "same_core m m1"
    "mainMemory m1 = mainMemory m"
    using ReadMem_ok [OF assms(2) _ Some, of eh] by auto
  let ?i = "Decode (instr\<lparr>ivalue := x\<rparr>)"
  obtain r where r: "exec eh ?i m1 (reg m1 NextPCReg + 4) = Some r"
    using assms(3) f(1) by (auto simp: OneInstruction_def Let_def bind_Some_iff)
  then have m': "mainMemory m' = (case r of Returned m2 \<Rightarrow> mainMemory m2 | Completed m2 _ _ _ \<Rightarrow> mainMemory m2)"
    using assms(3) f(1)
    by (cases r) (auto simp: OneInstruction_def DelayedLoad_def Let_def bind_Some_iff)
  have "confined m r"
    by (rule confined_core [OF assms(2) f(2,3)])
      (rule postD [OF exec_confined [OF assms(1) same_core_table_ok [OF f(2) assms(2)]] r])
  then show ?thesis using m' by (cases r) auto
qed

subsection \<open>Properties\<close>

text \<open>
  The multiplication loop computes the exact 64-bit product: the two result words of \<open>Mult\<close> form the
  product of the operands as signed integers for MULT and as unsigned integers for MULTU, for all
  operands, including the least negative integer.
\<close>

lemma multiply_exact:
  "case Mult a b signedArith of (hi, lo) \<Rightarrow>
     dword hi lo = (if signedArith then scast a * scast b else ucast a * ucast b)"
  using Mult_exact [of a b signedArith] by (auto split: prod.split)

text \<open>
  Decoding is total and stays in range: whatever the instruction word, the register numbers are below
  32, the operation is one the switch of \<open>OneInstruction\<close> handles (never a table marker or RFE), and the
  amount of a constant shift is below 32.
\<close>

lemma decode_in_range:
  "decoded (Decode i) \<and> (opCode (Decode i) \<in> {OP_SLL, OP_SRL, OP_SRA} \<longrightarrow> unat (extra (Decode i)) < 32)"
proof (intro conjI impI)
  let ?v = "ivalue i"
  obtain op fmt where t: "opTable ! unat (drop_bit 26 ?v AND 0x3f) = (op, fmt)" by fastforce
  have l: "unat (drop_bit 26 ?v AND 0x3f) < 64" by (rule and_mask_less)
  have "list_all (\<lambda>(op, fmt). op \<notin> {OP_SLL, OP_SRL, OP_SRA} \<and> (op = SPECIAL \<longrightarrow> fmt = RFMT)) opTable"
    by (simp add: opTable_def)
  then have op: "op \<notin> {OP_SLL, OP_SRL, OP_SRA}" "op = SPECIAL \<Longrightarrow> fmt = RFMT"
    using opTable_fact(2) l t by (auto simp: list_all_length)
  assume "opCode (Decode i) \<in> {OP_SLL, OP_SRL, OP_SRA}"
  then have "op = SPECIAL" using op(1) by (auto simp: Decode_def t Let_def split: if_splits)
  then have "extra (Decode i) = drop_bit 6 ?v AND 0x1f" using op(2) by (simp add: Decode_def t Let_def)
  then show "unat (extra (Decode i)) < 32" using and_mask_less(2) [of "drop_bit 6 ?v"] by simp
qed (rule Decode_decoded)

text \<open>
  Signed addition and subtraction trap exactly on overflow: ADD, ADDI and SUB store the exact sum or
  difference when it fits in 32 bits, and otherwise raise an overflow exception without changing a
  destination register.
\<close>

lemma overflow_traps:
  assumes "opCode i \<in> {OP_ADD, OP_ADDI, OP_SUB}"
  shows "let x = sint (rS i m);
      exact = (if opCode i = OP_ADD then x + sint (rT i m)
               else if opCode i = OP_ADDI then x + sint (extra i) else x - sint (rT i m));
      dest = (if opCode i = OP_ADDI then unat (rt i) else unat (rd i))
    in exec eh i m pc = (if is_int32 exact then Some (Completed (set_reg m dest (word_of_int exact)) pc 0 0)
         else trap eh m OverflowException 0)"
  using assms
  by (elim insertE emptyE)
    (simp_all add: exec_def exec_add_def exec_store_def Let_def add_overflow addi_overflow sub_overflow
      del: word_of_int_minus)

abbreviation demo_instr :: "OpCode \<Rightarrow> Instruction" where
  "demo_instr op \<equiv> \<lparr>ivalue = 0, opCode = op, rs = 1, rt = 2, rd = 3, extra = 0\<rparr>"


lemma demo_wf: "mach_wf (demo_machine 7)"
  using demo_vmap(1) [of 7] by (simp add: mach_wf_def mid_wf_def) (simp add: Machine_new_def)

lemma demo_current: "current (demo_machine 7) i = Some (Decode (i\<lparr>ivalue := 0\<rparr>))"
proof -
  have "access (demo_machine 7) False 0 4 = Some 896"
    using demo_vmap(2) [of 7 False 0] by (simp add: access_def aligned_def phys_def)
  moreover have "reg (demo_machine 7) PCReg = 0" by (simp add: Machine_new_def)
  moreover have "load_bytes (demo_machine 7) 896 4 = Some 0"
    by (simp add: load_bytes_def Machine_new_def WordToHost_def unle32_def)
  ultimately show ?thesis by (simp add: current_def)
qed


text \<open>
  A user program can stop the whole simulator: an LWL, LWR, SWL or SWR whose address is not a multiple
  of four fails an assertion, and DIV of the least integer by \<open>-1\<close> makes the host division trap, instead
  of raising an exception to the kernel.
\<close>

lemma unsafe_instruction_stops:
  assumes "decoded i" "\<not> host_safe i m"
  shows "exec eh i m pc = None"
proof -
  from assms(2) consider "opCode i = OP_DIV" "rS i m = SIGN_BIT" "rT i m = - 1"
    | "opCode i \<in> {OP_LWL, OP_LWR, OP_SWL, OP_SWR}" "(rS i m + extra i) AND 3 \<noteq> 0"
    by (auto simp: host_safe_def)
  then show ?thesis
  proof cases
    case 1
    then show ?thesis by (simp add: exec_def exec_div_def)
  next
    case 2
    then show ?thesis by (elim insertE emptyE) (simp_all add: exec_def exec_load_def exec_store_def Let_def)
  qed
qed

text \<open>
  A user program writes physical memory only through its own page table: apart from what the kernel's
  handler does on a trap, one instruction changes no byte of memory outside the frames that the current
  table maps writable. Bytes of other programs and of the kernel's free frames are out of reach.
\<close>

lemma stores_confined:
  assumes "quiet eh" "table_ok m" "OneInstruction eh instr m = Some (i, m')"
  shows "mainMemory m' a = mainMemory m a \<or> (\<exists>v. vmap m True v = Some (a div PageSize))"
  using OneInstruction_confined [OF assms, of a] by (simp add: writable_def)

end
