(* ===== verification/LinkedList.thy ===== *)
theory LinkedList
  imports Prelude
begin

text \<open>
  The singly linked list of src/code/threads/list.h and list.cc, which the scheduler, the semaphores,
  the condition variables and the interrupt simulation are built on.

  A list is two pointers into a heap of \<open>ListElement\<close>s that all lists share. The address that \<open>new\<close>
  returns is an argument \<open>p\<close> of the operations that allocate; it is any address that is not \<open>NULL\<close> and
  not in use. A dangling or null pointer that is dereferenced gives \<open>None\<close>. Loops over pointers are
  \<open>partial_function\<close>s, \<open>None\<close> on a cyclic list.

  \<open>list_rep h l as\<close> says that \<open>l\<close> is a well-formed list whose elements are at the addresses \<open>as\<close>, and
  \<open>entries h as\<close> are the pairs of an item and its key. Each operation is shown to return on a well-formed
  list, to have the effect of a function on \<open>entries\<close>, and to leave the cells of all other lists alone.
  The locale \<open>list_impl\<close> states this contract; the lemmas proved in it (first in, first out; sorted
  insertion; other lists untouched) hold for every implementation of it.
\<close>

section \<open>Model\<close>

type_synonym addr = nat

abbreviation NULL :: addr where "NULL \<equiv> 0"

record 'a ListElement =
  next_elt :: addr
  key :: int
  item :: 'a

type_synonym 'a heap = "addr \<rightharpoonup> 'a ListElement"

record NList =
  first_elt :: addr
  last_elt :: addr

definition ListElement_new :: "'a heap \<Rightarrow> addr \<Rightarrow> 'a \<Rightarrow> int \<Rightarrow> 'a heap" where
  "ListElement_new h p itemPtr sortKey = h(p \<mapsto> \<lparr>next_elt = NULL, key = sortKey, item = itemPtr\<rparr>)"

definition List_new :: NList where
  "List_new = \<lparr>first_elt = NULL, last_elt = NULL\<rparr>"

definition IsEmpty :: "NList \<Rightarrow> bool" where
  "IsEmpty l \<longleftrightarrow> first_elt l = NULL"

text \<open>The assignment \<open>p->next = q\<close>.\<close>

definition set_next :: "'a heap \<Rightarrow> addr \<Rightarrow> addr \<Rightarrow> 'a heap option" where
  "set_next h p q = do { e \<leftarrow> h p; Some (h(p \<mapsto> e\<lparr>next_elt := q\<rparr>)) }"

definition Append :: "'a heap \<Rightarrow> NList \<Rightarrow> addr \<Rightarrow> 'a \<Rightarrow> ('a heap \<times> NList) option" where
  "Append h l p x = do {
     let h = ListElement_new h p x 0;
     if IsEmpty l then Some (h, \<lparr>first_elt = p, last_elt = p\<rparr>)
     else do {
       h \<leftarrow> set_next h (last_elt l) p;
       Some (h, l\<lparr>last_elt := p\<rparr>)
     }
   }"

definition Prepend :: "'a heap \<Rightarrow> NList \<Rightarrow> addr \<Rightarrow> 'a \<Rightarrow> ('a heap \<times> NList) option" where
  "Prepend h l p x = do {
     let h = ListElement_new h p x 0;
     if IsEmpty l then Some (h, \<lparr>first_elt = p, last_elt = p\<rparr>)
     else do {
       h \<leftarrow> set_next h p (first_elt l);
       Some (h, l\<lparr>first_elt := p\<rparr>)
     }
   }"

text \<open>
  The loop of \<open>SortedInsert\<close> from \<open>ptr\<close> on: \<open>Some (Some h)\<close> when it returned after linking the
  element \<open>p\<close> in, \<open>Some None\<close> when it ended at the last element.
\<close>

partial_function (option) insert_loop :: "'a heap \<Rightarrow> addr \<Rightarrow> int \<Rightarrow> addr \<Rightarrow> 'a heap option option" where
  "insert_loop h p sortKey ptr = do {
     e \<leftarrow> h ptr;
     if next_elt e = NULL then Some None
     else do {
       n \<leftarrow> h (next_elt e);
       if sortKey < key n then do {
         h \<leftarrow> set_next h p (next_elt e);
         h \<leftarrow> set_next h ptr p;
         Some (Some h)
       } else insert_loop h p sortKey (next_elt e)
     }
   }"

definition SortedInsert :: "'a heap \<Rightarrow> NList \<Rightarrow> addr \<Rightarrow> 'a \<Rightarrow> int \<Rightarrow> ('a heap \<times> NList) option" where
  "SortedInsert h l p x sortKey = do {
     let h = ListElement_new h p x sortKey;
     if IsEmpty l then Some (h, \<lparr>first_elt = p, last_elt = p\<rparr>)
     else do {
       f \<leftarrow> h (first_elt l);
       if sortKey < key f then do {
         h \<leftarrow> set_next h p (first_elt l);
         Some (h, l\<lparr>first_elt := p\<rparr>)
       } else do {
         r \<leftarrow> insert_loop h p sortKey (first_elt l);
         case r of Some h \<Rightarrow> Some (h, l)
         | None \<Rightarrow> do {
             h \<leftarrow> set_next h (last_elt l) p;
             Some (h, l\<lparr>last_elt := p\<rparr>)
           }
       }
     }
   }"

text \<open>\<open>SortedRemove\<close>: the removed item with its key, or \<open>None\<close> for the null pointer, and the new list.\<close>

definition SortedRemove :: "'a heap \<Rightarrow> NList \<Rightarrow> (('a \<times> int) option \<times> 'a heap \<times> NList) option" where
  "SortedRemove h l =
     (if IsEmpty l then Some (None, h, l)
      else do {
        e \<leftarrow> h (first_elt l);
        let l' = (if first_elt l = last_elt l then \<lparr>first_elt = NULL, last_elt = NULL\<rparr>
                  else l\<lparr>first_elt := next_elt e\<rparr>);
        Some (Some (item e, key e), h(first_elt l := None), l')
      })"

definition Remove_elt :: "'a heap \<Rightarrow> NList \<Rightarrow> ('a option \<times> 'a heap \<times> NList) option" where
  "Remove_elt h l = do { (r, h, l) \<leftarrow> SortedRemove h l; Some (map_option fst r, h, l) }"

text \<open>\<open>Mapcar\<close>: the items the function is called on, in order.\<close>

partial_function (option) mapcar_loop :: "'a heap \<Rightarrow> addr \<Rightarrow> 'a list option" where
  "mapcar_loop h ptr =
     (if ptr = NULL then Some []
      else do { e \<leftarrow> h ptr; xs \<leftarrow> mapcar_loop h (next_elt e); Some (item e # xs) })"

definition Mapcar :: "'a heap \<Rightarrow> NList \<Rightarrow> 'a list option" where
  "Mapcar h l = mapcar_loop h (first_elt l)"

text \<open>The destructor removes elements until the list is empty (no item is a null pointer).\<close>

partial_function (option) List_delete :: "'a heap \<Rightarrow> NList \<Rightarrow> 'a heap option" where
  "List_delete h l = do {
     (r, h, l) \<leftarrow> Remove_elt h l;
     (case r of None \<Rightarrow> Some h | Some x \<Rightarrow> List_delete h l)
   }"

section \<open>Well-formed lists\<close>

text \<open>The elements from \<open>p\<close> up to, and not including, \<open>q\<close> are at the addresses \<open>as\<close>.\<close>

fun path :: "'a heap \<Rightarrow> addr \<Rightarrow> addr list \<Rightarrow> addr \<Rightarrow> bool" where
  "path h p [] q \<longleftrightarrow> p = q"
| "path h p (a # as) q \<longleftrightarrow> p = a \<and> a \<noteq> NULL \<and> (case h a of None \<Rightarrow> False | Some e \<Rightarrow> path h (next_elt e) as q)"

definition list_rep :: "'a heap \<Rightarrow> NList \<Rightarrow> addr list \<Rightarrow> bool" where
  "list_rep h l as \<longleftrightarrow> path h (first_elt l) as NULL \<and> distinct as \<and>
     last_elt l = (if as = [] then NULL else last as)"

definition entries :: "'a heap \<Rightarrow> addr list \<Rightarrow> ('a \<times> int) list" where
  "entries h as = map (\<lambda>a. (item (the (h a)), key (the (h a)))) as"

lemma path_append: "path h p (as @ bs) q \<longleftrightarrow> (\<exists>r. path h p as r \<and> path h r bs q)"
  by (induction as arbitrary: p) (auto split: option.splits)

lemma path_upd [simp]: "u \<notin> set as \<Longrightarrow> path (h(u := v)) p as q = path h p as q"
  by (induction as arbitrary: p) (auto split: option.splits)

lemma path_dom: "path h p as q \<Longrightarrow> a \<in> set as \<Longrightarrow> a \<noteq> NULL \<and> (\<exists>e. h a = Some e)"
  by (induction as arbitrary: p) (auto split: option.splits)

lemma path_Null_first: "path h p as NULL \<Longrightarrow> p = NULL \<longleftrightarrow> as = []"
  by (cases as) (auto split: option.splits)

lemma entries_simps [simp]:
  "entries h [] = []" "entries h (as @ bs) = entries h as @ entries h bs" "length (entries h as) = length as"
  "entries h (a # as) = (item (the (h a)), key (the (h a))) # entries h as"
  by (simp_all add: entries_def)

lemma entries_upd [simp]: "u \<notin> set as \<Longrightarrow> entries (h(u := v)) as = entries h as"
  by (auto simp: entries_def)

lemma entries_set_next: "h u = Some e \<Longrightarrow> entries (h(u \<mapsto> e\<lparr>next_elt := q\<rparr>)) as = entries h as"
  by (auto simp: entries_def)

lemma entries_fresh:
  "path h p as q \<Longrightarrow> h u = None \<Longrightarrow> entries (ListElement_new h u x k) as = entries h as"
  by (rule arg_cong [where f = id, simplified], unfold ListElement_new_def, rule entries_upd)
     (auto dest: path_dom)

lemma rep_empty: "list_rep h l as \<Longrightarrow> IsEmpty l \<longleftrightarrow> as = []"
  by (auto simp: list_rep_def IsEmpty_def dest: path_Null_first)

lemma rep_new: "list_rep h List_new []"
  by (simp add: list_rep_def List_new_def)

lemma rep_single: "p \<noteq> NULL \<Longrightarrow> list_rep (ListElement_new h p x k) \<lparr>first_elt = p, last_elt = p\<rparr> [p]"
  by (simp add: list_rep_def ListElement_new_def)

section \<open>The operations on well-formed lists\<close>

text \<open>All cells outside \<open>A\<close> are as before.\<close>

definition frame :: "'a heap \<Rightarrow> 'a heap \<Rightarrow> addr set \<Rightarrow> bool" where
  "frame h h' A \<longleftrightarrow> (\<forall>a. a \<notin> A \<longrightarrow> h' a = h a)"

text \<open>What \<open>SortedInsert\<close> does to the sequence of entries: it goes before the first larger key.\<close>

fun insert_entry :: "'a \<Rightarrow> int \<Rightarrow> ('a \<times> int) list \<Rightarrow> ('a \<times> int) list" where
  "insert_entry x k [] = [(x, k)]"
| "insert_entry x k (e # es) = (if k < snd e then (x, k) # e # es else e # insert_entry x k es)"

text \<open>\<open>h'\<close> and \<open>l'\<close> hold the list \<open>l\<close> of \<open>h\<close> with the new cell \<open>p\<close>, its entries now \<open>xs\<close>.\<close>

definition inserted :: "'a heap \<Rightarrow> addr list \<Rightarrow> addr \<Rightarrow> ('a \<times> int) list \<Rightarrow> ('a heap \<times> NList) option \<Rightarrow> bool" where
  "inserted h as p xs r \<longleftrightarrow> (\<exists>h' l' as'. r = Some (h', l') \<and> list_rep h' l' as' \<and> set as' = insert p (set as) \<and>
     entries h' as' = xs \<and> frame h h' (insert p (set as)))"

lemma insertedI:
  "r = Some (h', l') \<Longrightarrow> list_rep h' l' as' \<Longrightarrow> set as' = insert p (set as) \<Longrightarrow>
   entries h' as' = xs \<Longrightarrow> frame h h' (insert p (set as)) \<Longrightarrow> inserted h as p xs r"
  unfolding inserted_def by blast

lemma insertedE:
  assumes "inserted h as p xs r"
  obtains h' l' as' where "r = Some (h', l')" "list_rep h' l' as'" "set as' = insert p (set as)"
    "entries h' as' = xs" "frame h h' (insert p (set as))"
  using assms unfolding inserted_def by blast

lemma fresh_notin: "list_rep h l as \<Longrightarrow> h p = None \<Longrightarrow> p \<notin> set as"
  by (auto simp: list_rep_def dest: path_dom)

lemma path_relink:
  assumes "path h f (us @ [u]) q" "h u = Some e" "u \<notin> set us"
  shows "path (h(u \<mapsto> e\<lparr>next_elt := r\<rparr>)) f (us @ [u]) r"
  using assms by (auto simp: path_append split: option.splits)

lemma insert_empty:
  assumes "list_rep h l []" "p \<noteq> NULL"
  shows "inserted h [] p [(x, k)] (Some (ListElement_new h p x k, \<lparr>first_elt = p, last_elt = p\<rparr>))"
  using assms by (intro insertedI [OF refl rep_single]) (auto simp: ListElement_new_def frame_def)

lemma insert_front:
  assumes rep: "list_rep h l (a # as)" and p: "h p = None" "p \<noteq> NULL"
    and e: "e = \<lparr>next_elt = NULL, key = k, item = x\<rparr>"
  shows "inserted h (a # as) p ((x, k) # entries h (a # as))
    (do { h \<leftarrow> set_next (ListElement_new h p x k) p (first_elt l); Some (h, l\<lparr>first_elt := p\<rparr>) })"
proof (rule insertedI)
  let ?h = "h(p \<mapsto> e\<lparr>next_elt := first_elt l\<rparr>)"
  have np: "p \<notin> set (a # as)" using fresh_notin [OF rep p(1)] .
  show "do { h \<leftarrow> set_next (ListElement_new h p x k) p (first_elt l); Some (h, l\<lparr>first_elt := p\<rparr>) } =
      Some (?h, l\<lparr>first_elt := p\<rparr>)"
    by (simp add: set_next_def ListElement_new_def e)
  show "list_rep ?h (l\<lparr>first_elt := p\<rparr>) (p # a # as)"
    using rep p np by (auto simp: list_rep_def split: option.splits)
  show "entries ?h (p # a # as) = (x, k) # entries h (a # as)"
    using np by (simp add: e)
qed (auto simp: frame_def)

lemma insert_after:
  assumes rep: "list_rep h l (us @ u # cs)" and p: "h p = None" "p \<noteq> NULL"
    and u: "h u = Some eu" and e: "e = \<lparr>next_elt = (if cs = [] then NULL else hd cs), key = k, item = x\<rparr>"
  shows "list_rep (h(p \<mapsto> e, u \<mapsto> eu\<lparr>next_elt := p\<rparr>)) (if cs = [] then l\<lparr>last_elt := p\<rparr> else l) (us @ u # p # cs)"
    and "entries (h(p \<mapsto> e, u \<mapsto> eu\<lparr>next_elt := p\<rparr>)) (us @ u # p # cs) =
      entries h (us @ [u]) @ (x, k) # entries h cs"
proof -
  have np: "p \<notin> set (us @ u # cs)" using fresh_notin [OF rep p(1)] .
  have d: "distinct (us @ u # cs)" and f: "path h (first_elt l) ((us @ [u]) @ cs) NULL"
    and la: "last_elt l = last (us @ u # cs)"
    using rep by (simp_all add: list_rep_def)
  obtain r where r: "path h (first_elt l) (us @ [u]) r" "path h r cs NULL"
    using f unfolding path_append [of _ _ "us @ [u]"] by blast
  have rhd: "r = (if cs = [] then NULL else hd cs)"
    using r(2) by (cases cs) auto
  let ?h = "h(p \<mapsto> e, u \<mapsto> eu\<lparr>next_elt := p\<rparr>)"
  have "path (h(p \<mapsto> e)) (first_elt l) (us @ [u]) r"
    using r(1) np by (simp del: path.simps)
  then have 1: "path ?h (first_elt l) (us @ [u]) p"
    using d np u by (intro path_relink) auto
  have 2: "path ?h p (p # cs) NULL"
    using r(2) rhd p np d by (auto simp: e)
  have "path ?h (first_elt l) ((us @ [u]) @ (p # cs)) NULL"
    unfolding path_append [of _ _ "us @ [u]"] using 1 2 by blast
  then show "list_rep ?h (if cs = [] then l\<lparr>last_elt := p\<rparr> else l) (us @ u # p # cs)"
    using d np la by (auto simp: list_rep_def)
  show "entries ?h (us @ u # p # cs) = entries h (us @ [u]) @ (x, k) # entries h cs"
    using d np u by (simp add: e entries_def)
qed

lemma rep_split_last:
  assumes "list_rep h l as" "as \<noteq> []"
  obtains us eu where "as = us @ [last_elt l]" "h (last_elt l) = Some eu"
proof -
  from assms have l: "last_elt l = last as" and p: "path h (first_elt l) as NULL" by (simp_all add: list_rep_def)
  moreover have "last as \<in> set as" using assms(2) by simp
  ultimately obtain eu where "h (last_elt l) = Some eu" using path_dom by metis
  then show thesis using that [of "butlast as"] l assms(2) by simp
qed

lemma insert_last:
  assumes rep: "list_rep h l as" "as \<noteq> []" and p: "h p = None" "p \<noteq> NULL"
  shows "inserted h as p (entries h as @ [(x, k)])
    (do { h \<leftarrow> set_next (ListElement_new h p x k) (last_elt l) p; Some (h, l\<lparr>last_elt := p\<rparr>) })"
proof -
  obtain us eu where as: "as = us @ [last_elt l]" and u: "h (last_elt l) = Some eu"
    using rep by (rule rep_split_last)
  have ne: "p \<noteq> last_elt l" using u p(1) by auto
  note after = insert_after [where cs = "[]", OF rep(1) [unfolded as] p u refl, of k x, simplified]
  show ?thesis
    by (rule insertedI [OF _ after(1)])
       (use after(2) ne u in \<open>simp_all add: as set_next_def ListElement_new_def frame_def insert_commute\<close>)
qed

theorem Append_ok:
  assumes "list_rep h l as" "h p = None" "p \<noteq> NULL"
  shows "inserted h as p (entries h as @ [(x, 0)]) (Append h l p x)"
proof (cases "as = []")
  case True
  then show ?thesis
    using assms insert_empty [of h l p x 0] by (simp add: Append_def rep_empty [OF assms(1)])
next
  case False
  then show ?thesis
    using insert_last [OF assms(1) False assms(2,3), of x 0] by (simp add: Append_def rep_empty [OF assms(1)])
qed

theorem Prepend_ok:
  assumes "list_rep h l as" "h p = None" "p \<noteq> NULL"
  shows "inserted h as p ((x, 0) # entries h as) (Prepend h l p x)"
proof (cases as)
  case Nil
  then show ?thesis
    using assms insert_empty [of h l p x 0] by (simp add: Prepend_def rep_empty [OF assms(1)])
next
  case (Cons a bs)
  then show ?thesis
    using insert_front [OF assms(1) [unfolded Cons] assms(2,3) refl, of x 0]
    by (simp add: Prepend_def rep_empty [OF assms(1)])
qed

text \<open>The queue discipline of a sorted list: ascending keys, equal keys in the order of insertion.\<close>

lemma insert_entry_stable:
  "sorted (map snd xs) \<Longrightarrow>
   insert_entry x k xs = filter (\<lambda>e. snd e \<le> k) xs @ (x, k) # filter (\<lambda>e. k < snd e) xs"
proof (induction xs)
  case (Cons e es)
  show ?case
  proof (cases "k < snd e")
    case True
    then have "\<forall>y\<in>set es. k < snd y" using Cons.prems by auto
    then show ?thesis using True by (auto simp: filter_empty_conv not_le intro!: filter_True [symmetric])
  qed (use Cons in auto)
qed simp

lemma set_insert_entry [simp]: "set (insert_entry x k xs) = insert (x, k) (set xs)"
  by (induction xs) auto

lemma insert_entry_sorted: "sorted (map snd xs) \<Longrightarrow> sorted (map snd (insert_entry x k xs))"
  by (induction xs) auto

lemma length_insert_entry [simp]: "length (insert_entry x k xs) = Suc (length xs)"
  by (induction xs) auto

text \<open>
  The search of \<open>SortedInsert\<close> splits the elements after \<open>a\<close> into those that are passed and the rest.
\<close>

lemma insert_loop_eq:
  assumes "path h a (a # as) NULL" "h p = Some ep" "p \<notin> set (a # as)" "distinct (a # as)"
    and "bs = takeWhile (\<lambda>b. key (the (h b)) \<le> k) as" "cs = dropWhile (\<lambda>b. key (the (h b)) \<le> k) as"
  shows "insert_loop h p k a = Some (if cs = [] then None
     else Some (h(p \<mapsto> ep\<lparr>next_elt := hd cs\<rparr>, last (a # bs) \<mapsto> (the (h (last (a # bs))))\<lparr>next_elt := p\<rparr>)))"
  using assms
proof (induction as arbitrary: a bs cs)
  case Nil
  then show ?case by (subst insert_loop.simps) (auto split: option.splits)
next
  case (Cons b as)
  obtain ea where a: "h a = Some ea" "next_elt ea = b" and b: "b \<noteq> NULL" "path h b (b # as) NULL"
    using Cons.prems(1) by (auto split: option.splits)
  then obtain eb where eb: "h b = Some eb" by (auto split: option.splits)
  show ?case
  proof (cases "k < key eb")
    case True
    have "p \<noteq> a" using Cons.prems(3) by simp
    then show ?thesis
      using True Cons.prems(2,5,6) a b(1) eb
      by (subst insert_loop.simps) (simp add: set_next_def)
  next
    case False
    have IH: "insert_loop h p k b = Some (if cs = [] then None
        else Some (h(p \<mapsto> ep\<lparr>next_elt := hd cs\<rparr>,
          last (b # takeWhile (\<lambda>b. key (the (h b)) \<le> k) as) \<mapsto>
            (the (h (last (b # takeWhile (\<lambda>b. key (the (h b)) \<le> k) as))))\<lparr>next_elt := p\<rparr>)))"
      using Cons.prems b False eb by (intro Cons.IH) auto
    show ?thesis
      using IH False Cons.prems(5) a b(1) eb by (subst insert_loop.simps) simp
  qed
qed

lemma insert_entry_split:
  "insert_entry x k xs = takeWhile (\<lambda>e. snd e \<le> k) xs @ (x, k) # dropWhile (\<lambda>e. snd e \<le> k) xs"
  by (induction xs) auto

lemma entries_split:
  "entries h (takeWhile (\<lambda>b. key (the (h b)) \<le> k) as) = takeWhile (\<lambda>e. snd e \<le> k) (entries h as)"
  "entries h (dropWhile (\<lambda>b. key (the (h b)) \<le> k) as) = dropWhile (\<lambda>e. snd e \<le> k) (entries h as)"
  by (induction as) auto

lemma insert_middle:
  assumes rep: "list_rep h l (a # as)" and p: "h p = None" "p \<noteq> NULL"
    and k: "key (the (h a)) \<le> k"
  shows "inserted h (a # as) p (insert_entry x k (entries h (a # as)))
    (do { r \<leftarrow> insert_loop (ListElement_new h p x k) p k (first_elt l);
          case r of Some h \<Rightarrow> Some (h, l)
          | None \<Rightarrow> do { h \<leftarrow> set_next (ListElement_new h p x k) (last_elt l) p; Some (h, l\<lparr>last_elt := p\<rparr>) } })"
    (is "inserted _ _ _ ?xs ?r")
proof -
  let ?e = "\<lparr>next_elt = NULL, key = k, item = x\<rparr>" and ?h = "ListElement_new h p x k"
  define bs where "bs = takeWhile (\<lambda>b. key (the (h b)) \<le> k) as"
  define cs where "cs = dropWhile (\<lambda>b. key (the (h b)) \<le> k) as"
  have np: "p \<notin> set (a # as)" using fresh_notin [OF rep p(1)] .
  then have same: "takeWhile (\<lambda>b. key (the (?h b)) \<le> k) as = bs" "dropWhile (\<lambda>b. key (the (?h b)) \<le> k) as = cs"
    unfolding bs_def cs_def ListElement_new_def by (auto intro!: takeWhile_cong dropWhile_cong)
  have split: "as = bs @ cs" by (simp add: bs_def cs_def)
  have fa: "first_elt l = a" and ph: "path h a (a # as) NULL" and d: "distinct (a # as)"
    using rep by (auto simp: list_rep_def)
  have loop: "insert_loop ?h p k a = Some (if cs = [] then None
      else Some (?h(p \<mapsto> ?e\<lparr>next_elt := hd cs\<rparr>, last (a # bs) \<mapsto> (the (?h (last (a # bs))))\<lparr>next_elt := p\<rparr>)))"
  proof (rule insert_loop_eq [OF _ _ np d same [symmetric]])
    show "path ?h a (a # as) NULL" "?h p = Some ?e"
      using np ph by (simp_all add: ListElement_new_def del: path.simps)
  qed
  have xs: "?xs = entries h (a # bs) @ (x, k) # entries h cs"
    using k by (simp add: insert_entry_split bs_def cs_def entries_split)
  show ?thesis
  proof (cases "cs = []")
    case True
    then show ?thesis
      unfolding xs using insert_last [OF rep _ p, of x k] loop split by (simp add: fa)
  next
    case False
    define u where "u = last (a # bs)"
    have au: "a # as = butlast (a # bs) @ u # cs"
      using append_butlast_last_id [of "a # bs"] by (simp add: u_def split)
    have "u \<in> set (a # as)" unfolding au by simp
    then have "u \<noteq> p" and "\<exists>eu. h u = Some eu" using np path_dom [OF ph] by blast+
    then obtain eu where eu: "h u = Some eu" and up: "u \<noteq> p" by blast
    note after = insert_after [OF rep [unfolded au] p eu refl, of k x]
    have r: "?r = Some (h(p \<mapsto> ?e\<lparr>next_elt := hd cs\<rparr>, u \<mapsto> eu\<lparr>next_elt := p\<rparr>), l)"
      using loop [folded u_def] False up eu by (simp add: fa ListElement_new_def)
    show ?thesis
    proof (rule insertedI [OF r])
      show "list_rep (h(p \<mapsto> ?e\<lparr>next_elt := hd cs\<rparr>, u \<mapsto> eu\<lparr>next_elt := p\<rparr>)) l (butlast (a # bs) @ u # p # cs)"
        using after(1) False by simp
      show "set (butlast (a # bs) @ u # p # cs) = insert p (set (a # as))"
        unfolding au by auto
      have "entries h (a # bs) = entries h (butlast (a # bs) @ [u])"
        by (simp only: u_def append_butlast_last_id list.distinct simp_thms not_Cons_self)
      then show "entries (h(p \<mapsto> ?e\<lparr>next_elt := hd cs\<rparr>, u \<mapsto> eu\<lparr>next_elt := p\<rparr>)) (butlast (a # bs) @ u # p # cs) = ?xs"
        using after(2) False xs by simp
      show "frame h (h(p \<mapsto> ?e\<lparr>next_elt := hd cs\<rparr>, u \<mapsto> eu\<lparr>next_elt := p\<rparr>)) (insert p (set (a # as)))"
        unfolding frame_def au by auto
    qed
  qed
qed

theorem SortedInsert_ok:
  assumes rep: "list_rep h l as" and p: "h p = None" "p \<noteq> NULL"
  shows "inserted h as p (insert_entry x k (entries h as)) (SortedInsert h l p x k)"
proof (cases as)
  case Nil
  then show ?thesis
    using assms insert_empty [of h l p x k] by (simp add: SortedInsert_def rep_empty [OF rep])
next
  case (Cons a bs)
  note rep' = rep [unfolded Cons]
  have fa: "first_elt l = a" and "\<exists>e. h a = Some e" "a \<noteq> p"
    using rep' p by (auto simp: list_rep_def split: option.splits)
  then obtain e where e: "ListElement_new h p x k a = Some e" "h a = Some e"
    by (auto simp: ListElement_new_def)
  show ?thesis
    using insert_front [OF rep' p refl, of x k] insert_middle [OF rep' p, of k x] e
    by (cases "k < key e") (simp_all add: SortedInsert_def rep_empty [OF rep] Cons fa Let_def)
qed

text \<open>\<open>Remove\<close> frees the first element; \<open>removed\<close> is the contract of both removals.\<close>

definition removed :: "'a heap \<Rightarrow> addr list \<Rightarrow> (('a \<times> int) option \<times> 'a heap \<times> NList) option \<Rightarrow> bool" where
  "removed h as r \<longleftrightarrow> (case as of [] \<Rightarrow> \<exists>l'. r = Some (None, h, l') \<and> list_rep h l' []
     | a # as' \<Rightarrow> \<exists>h' l'. r = Some (Some (hd (entries h as)), h', l') \<and> list_rep h' l' as' \<and>
         entries h' as' = tl (entries h as) \<and> frame h h' {a} \<and> h' a = None)"

theorem SortedRemove_ok:
  assumes rep: "list_rep h l as"
  shows "removed h as (SortedRemove h l)"
proof (cases as)
  case Nil
  then show ?thesis using rep by (simp add: removed_def SortedRemove_def rep_empty [OF rep])
next
  case (Cons a bs)
  obtain e where e: "h a = Some e" "path h (next_elt e) bs NULL" and d: "a \<notin> set bs" "distinct bs"
    and f: "first_elt l = a" and la: "last_elt l = last (a # bs)"
    using rep by (auto simp: list_rep_def Cons split: option.splits)
  have one: "a = last (a # bs) \<longleftrightarrow> bs = []"
    using d by (cases bs rule: rev_cases) auto
  show ?thesis
    using e d one
    by (cases "bs = []")
       (auto simp: removed_def Cons SortedRemove_def rep_empty [OF rep] f la list_rep_def frame_def)
qed

lemma Mapcar_ok: "list_rep h l as \<Longrightarrow> Mapcar h l = Some (map fst (entries h as))"
proof -
  have "path h p as NULL \<Longrightarrow> mapcar_loop h p = Some (map fst (entries h as))" for p
  proof (induction as arbitrary: p)
    case Nil
    then show ?case by (subst mapcar_loop.simps) simp
  next
    case (Cons a as)
    then show ?case by (subst mapcar_loop.simps) (auto split: option.splits)
  qed
  then show "list_rep h l as \<Longrightarrow> ?thesis" by (simp add: Mapcar_def list_rep_def)
qed

lemma List_delete_ok:
  "list_rep h l as \<Longrightarrow> \<exists>h'. List_delete h l = Some h' \<and> frame h h' (set as) \<and> (\<forall>a\<in>set as. h' a = None)"
proof (induction as arbitrary: h l)
  case Nil
  then show ?case
    using SortedRemove_ok [OF Nil]
    by (subst List_delete.simps) (auto simp: removed_def Remove_elt_def frame_def)
next
  case (Cons a as)
  obtain h' l' where r: "SortedRemove h l = Some (Some (hd (entries h (a # as))), h', l')"
    and rep: "list_rep h' l' as" and fr: "frame h h' {a}" "h' a = None"
    using SortedRemove_ok [OF Cons.prems] by (auto simp: removed_def)
  obtain h'' where "List_delete h' l' = Some h''" "frame h' h'' (set as)" "\<forall>a\<in>set as. h'' a = None"
    using Cons.IH [OF rep] by blast
  then show ?case
    using r fr by (subst List_delete.simps) (auto simp: Remove_elt_def frame_def)
qed

section \<open>Several lists on one heap\<close>

text \<open>
  The contract of a list implementation, and what follows for the kernel, where many lists live on one
  heap: operations on one of them are operations on its entries and leave the entries of the others.
\<close>

datatype 'a list_op = OpAppend 'a | OpPrepend 'a | OpSortedInsert 'a int | OpRemove

fun spec_list_op :: "'a list_op \<Rightarrow> ('a \<times> int) list \<Rightarrow> ('a \<times> int) option \<times> ('a \<times> int) list" where
  "spec_list_op (OpAppend x) xs = (None, xs @ [(x, 0)])"
| "spec_list_op (OpPrepend x) xs = (None, (x, 0) # xs)"
| "spec_list_op (OpSortedInsert x k) xs = (None, insert_entry x k xs)"
| "spec_list_op OpRemove xs = (if xs = [] then (None, []) else (Some (hd xs), tl xs))"

fun spec_lists :: "(nat \<times> 'a list_op) list \<Rightarrow> (nat \<Rightarrow> ('a \<times> int) list) \<Rightarrow>
    ('a \<times> int) option list \<times> (nat \<Rightarrow> ('a \<times> int) list)" where
  "spec_lists [] X = ([], X)"
| "spec_lists ((i, opn) # ops) X =
     (let (r, xs) = spec_list_op opn (X i); (rs, X') = spec_lists ops (X(i := xs)) in (r # rs, X'))"

text \<open>The cells of the lists \<open>L i\<close> are at the addresses \<open>A i\<close>, and no cell belongs to two lists.\<close>

definition heap_lists :: "'a heap \<Rightarrow> (nat \<Rightarrow> NList) \<Rightarrow> (nat \<Rightarrow> addr list) \<Rightarrow> bool" where
  "heap_lists h L A \<longleftrightarrow> (\<forall>i. list_rep h (L i) (A i)) \<and> (\<forall>i j. i \<noteq> j \<longrightarrow> set (A i) \<inter> set (A j) = {})"

definition allocator :: "('a heap \<Rightarrow> addr) \<Rightarrow> bool" where
  "allocator new \<longleftrightarrow> (\<forall>h. finite (dom h) \<longrightarrow> h (new h) = None \<and> new h \<noteq> NULL)"

lemma entries_cong: "(\<And>a. a \<in> set as \<Longrightarrow> h a = h' a) \<Longrightarrow> entries h as = entries h' as"
  by (simp add: entries_def)

lemma path_cong: "(\<And>a. a \<in> set as \<Longrightarrow> h a = h' a) \<Longrightarrow> path h p as q = path h' p as q"
  by (induction as arbitrary: p) (auto split: option.splits)

lemma frame_list:
  assumes "frame h h' B" "set as \<inter> B = {}"
  shows "list_rep h' l as = list_rep h l as" "entries h' as = entries h as"
  using assms path_cong [of as h h'] entries_cong [of as h h'] by (fastforce simp: list_rep_def frame_def)+

lemma frame_lists:
  assumes H: "heap_lists h L A" and fr: "frame h h' B"
    and rep: "list_rep h' l' as'" "set as' \<subseteq> B" and B: "\<And>j. j \<noteq> i \<Longrightarrow> set (A j) \<inter> B = {}"
  shows "heap_lists h' (L(i := l')) (A(i := as'))"
    and "(\<lambda>j. entries h' ((A(i := as')) j)) = (\<lambda>j. entries h (A j))(i := entries h' as')"
proof -
  have others: "list_rep h' (L j) (A j)" "entries h' (A j) = entries h (A j)" if "j \<noteq> i" for j
    using H frame_list [OF fr B [OF that]] unfolding heap_lists_def by simp_all
  have "set (A j) \<inter> set as' = {}" if "j \<noteq> i" for j using B [OF that] rep(2) by blast
  then show "heap_lists h' (L(i := l')) (A(i := as'))"
    using H others(1) rep(1) unfolding heap_lists_def by (simp add: Int_commute)
  show "(\<lambda>j. entries h' ((A(i := as')) j)) = (\<lambda>j. entries h (A j))(i := entries h' as')"
    using others(2) by (simp add: fun_eq_iff)
qed

locale list_impl =
  fixes append :: "'a heap \<Rightarrow> NList \<Rightarrow> addr \<Rightarrow> 'a \<Rightarrow> ('a heap \<times> NList) option"
    and prepend :: "'a heap \<Rightarrow> NList \<Rightarrow> addr \<Rightarrow> 'a \<Rightarrow> ('a heap \<times> NList) option"
    and sorted_insert :: "'a heap \<Rightarrow> NList \<Rightarrow> addr \<Rightarrow> 'a \<Rightarrow> int \<Rightarrow> ('a heap \<times> NList) option"
    and remove :: "'a heap \<Rightarrow> NList \<Rightarrow> (('a \<times> int) option \<times> 'a heap \<times> NList) option"
  assumes append_ok: "list_rep h l as \<Longrightarrow> h p = None \<Longrightarrow> p \<noteq> NULL \<Longrightarrow>
      inserted h as p (entries h as @ [(x, 0)]) (append h l p x)"
    and prepend_ok: "list_rep h l as \<Longrightarrow> h p = None \<Longrightarrow> p \<noteq> NULL \<Longrightarrow>
      inserted h as p ((x, 0) # entries h as) (prepend h l p x)"
    and sorted_insert_ok: "list_rep h l as \<Longrightarrow> h p = None \<Longrightarrow> p \<noteq> NULL \<Longrightarrow>
      inserted h as p (insert_entry x k (entries h as)) (sorted_insert h l p x k)"
    and remove_ok: "list_rep h l as \<Longrightarrow> removed h as (remove h l)"
begin

fun apply_op :: "('a heap \<Rightarrow> addr) \<Rightarrow> 'a list_op \<Rightarrow> 'a heap \<Rightarrow> NList \<Rightarrow>
    (('a \<times> int) option \<times> 'a heap \<times> NList) option" where
  "apply_op new (OpAppend x) h l = do { (h', l') \<leftarrow> append h l (new h) x; Some (None, h', l') }"
| "apply_op new (OpPrepend x) h l = do { (h', l') \<leftarrow> prepend h l (new h) x; Some (None, h', l') }"
| "apply_op new (OpSortedInsert x k) h l = do { (h', l') \<leftarrow> sorted_insert h l (new h) x k; Some (None, h', l') }"
| "apply_op new OpRemove h l = remove h l"

fun apply_ops :: "('a heap \<Rightarrow> addr) \<Rightarrow> (nat \<times> 'a list_op) list \<Rightarrow> 'a heap \<Rightarrow> (nat \<Rightarrow> NList) \<Rightarrow>
    (('a \<times> int) option list \<times> 'a heap \<times> (nat \<Rightarrow> NList)) option" where
  "apply_ops new [] h L = Some ([], h, L)"
| "apply_ops new ((i, opn) # ops) h L = do {
     (r, h, l) \<leftarrow> apply_op new opn h (L i);
     (rs, h, L) \<leftarrow> apply_ops new ops h (L(i := l));
     Some (r # rs, h, L)
   }"

lemma apply_op_ok:
  assumes rep: "list_rep h l as" and new: "h (new h) = None" "new h \<noteq> NULL"
  shows "\<exists>r h' l' as'. apply_op new opn h l = Some (r, h', l') \<and> list_rep h' l' as' \<and>
     spec_list_op opn (entries h as) = (r, entries h' as') \<and>
     set as' \<subseteq> insert (new h) (set as) \<and> frame h h' (insert (new h) (set as))"
proof (cases opn)
  case (OpAppend x)
  from append_ok [OF rep new, of x] show ?thesis by (rule insertedE) (auto simp: OpAppend)
next
  case (OpPrepend x)
  from prepend_ok [OF rep new, of x] show ?thesis by (rule insertedE) (auto simp: OpPrepend)
next
  case (OpSortedInsert x k)
  from sorted_insert_ok [OF rep new, of x k] show ?thesis by (rule insertedE) (auto simp: OpSortedInsert)
next
  case OpRemove
  show ?thesis
    using remove_ok [OF rep] by (cases as) (fastforce simp: OpRemove removed_def frame_def)+
qed

lemma frame_finite:
  assumes "frame h h' B" "finite B" "finite (dom h)"
  shows "finite (dom h')"
proof (rule finite_subset)
  show "dom h' \<subseteq> dom h \<union> B"
  proof
    fix a assume "a \<in> dom h'"
    then show "a \<in> dom h \<union> B" using assms(1) by (cases "a \<in> B") (auto simp: frame_def)
  qed
qed (use assms in simp)

lemma apply_ops_refine:
  assumes "heap_lists h L A" "finite (dom h)" "allocator new"
  shows "\<exists>h' L' A' rs. apply_ops new ops h L = Some (rs, h', L') \<and> heap_lists h' L' A' \<and>
     spec_lists ops (\<lambda>i. entries h (A i)) = (rs, \<lambda>i. entries h' (A' i))"
  using assms(1,2)
proof (induction ops arbitrary: h L A)
  case (Cons iop ops)
  obtain i opn where io: "iop = (i, opn)" by (cases iop)
  have new: "h (new h) = None" "new h \<noteq> NULL" using assms(3) Cons.prems(2) by (simp_all add: allocator_def)
  have H: "list_rep h (L i) (A i)" "\<And>j. list_rep h (L j) (A j)" "\<And>j. j \<noteq> i \<Longrightarrow> set (A j) \<inter> set (A i) = {}"
    using Cons.prems(1) by (auto simp: heap_lists_def)
  obtain r h1 l1 as1 where 1: "apply_op new opn h (L i) = Some (r, h1, l1)" "list_rep h1 l1 as1"
    "spec_list_op opn (entries h (A i)) = (r, entries h1 as1)"
    "set as1 \<subseteq> insert (new h) (set (A i))" "frame h h1 (insert (new h) (set (A i)))"
    using apply_op_ok [of h "L i" "A i" new opn, OF H(1) new] by blast
  have B: "set (A j) \<inter> insert (new h) (set (A i)) = {}" if "j \<noteq> i" for j
    using H(3) [OF that] fresh_notin [where as = "A j", OF H(2) new(1)] by blast
  note fl = frame_lists [OF Cons.prems(1) 1(5,2,4) B]
  obtain h' L' A' rs where "apply_ops new ops h1 (L(i := l1)) = Some (rs, h', L')" "heap_lists h' L' A'"
    "spec_lists ops (\<lambda>j. entries h1 ((A(i := as1)) j)) = (rs, \<lambda>j. entries h' (A' j))"
    using Cons.IH [OF fl(1)] frame_finite [OF 1(5) _ Cons.prems(2)] by blast
  then show ?case using 1(1,3) by (auto simp: io fl(2) simp del: fun_upd_apply)
qed auto

end

interpretation nachos_list: list_impl Append Prepend SortedInsert SortedRemove
  by unfold_locales (fact Append_ok Prepend_ok SortedInsert_ok SortedRemove_ok)+

text \<open>The same sequences of operations, written over the operations of list.cc.\<close>

fun NList_op :: "('a heap \<Rightarrow> addr) \<Rightarrow> 'a list_op \<Rightarrow> 'a heap \<Rightarrow> NList \<Rightarrow>
    (('a \<times> int) option \<times> 'a heap \<times> NList) option" where
  "NList_op new (OpAppend x) h l = do { (h', l') \<leftarrow> Append h l (new h) x; Some (None, h', l') }"
| "NList_op new (OpPrepend x) h l = do { (h', l') \<leftarrow> Prepend h l (new h) x; Some (None, h', l') }"
| "NList_op new (OpSortedInsert x k) h l = do { (h', l') \<leftarrow> SortedInsert h l (new h) x k; Some (None, h', l') }"
| "NList_op new OpRemove h l = SortedRemove h l"

fun NList_ops :: "('a heap \<Rightarrow> addr) \<Rightarrow> (nat \<times> 'a list_op) list \<Rightarrow> 'a heap \<Rightarrow> (nat \<Rightarrow> NList) \<Rightarrow>
    (('a \<times> int) option list \<times> 'a heap \<times> (nat \<Rightarrow> NList)) option" where
  "NList_ops new [] h L = Some ([], h, L)"
| "NList_ops new ((i, opn) # ops) h L = do {
     (r, h, l) \<leftarrow> NList_op new opn h (L i);
     (rs, h, L) \<leftarrow> NList_ops new ops h (L(i := l));
     Some (r # rs, h, L)
   }"

lemma NList_op_eq: "NList_op new opn h l = nachos_list.apply_op new opn h l"
  by (cases opn) simp_all

lemma NList_ops_eq: "NList_ops new ops h L = nachos_list.apply_ops new ops h L"
  by (induction ops arbitrary: h L) (auto simp: NList_op_eq)

section \<open>Properties\<close>

text \<open>
  C29. Linked lists refine sequences. On a heap that holds any number of disjoint well-formed lists, every
  sequence of \<open>Append\<close>, \<open>Prepend\<close>, \<open>SortedInsert\<close> and \<open>SortedRemove\<close> calls on them returns, whatever free
  addresses \<open>new\<close> picks, keeps the lists well formed and disjoint, and gives the results and the contents
  of the same calls on plain sequences, one per list.
\<close>

theorem linked_lists_refine:
  assumes "heap_lists h L A" "finite (dom h)" "allocator new"
  shows "\<exists>h' L' A' rs. NList_ops new ops h L = Some (rs, h', L') \<and> heap_lists h' L' A' \<and>
     spec_lists ops (\<lambda>i. entries h (A i)) = (rs, \<lambda>i. entries h' (A' i))"
  using nachos_list.apply_ops_refine [OF assms] by (simp add: NList_ops_eq)

text \<open>An allocator that hands out the first address above all cells in use.\<close>

definition next_addr :: "'a heap \<Rightarrow> addr" where
  "next_addr h = Suc (Max (insert 0 (dom h)))"

lemma next_addr_ok: "allocator (next_addr :: 'b heap \<Rightarrow> addr)"
proof -
  have "h (Suc (Max (insert 0 (dom h)))) = None" if "finite (dom h)" for h :: "'b heap"
  proof (rule ccontr)
    assume "\<not> ?thesis"
    then have "Suc (Max (insert 0 (dom h))) \<in> dom h" by blast
    then have "Suc (Max (insert 0 (dom h))) \<le> Max (insert 0 (dom h))"
      using that by (intro Max_ge) simp_all
    then show False by simp
  qed
  then show ?thesis by (simp add: allocator_def next_addr_def)
qed

lemma empty_lists: "heap_lists Map.empty (\<lambda>_. List_new) (\<lambda>_. [])"
  by (simp add: heap_lists_def rep_new)

theorem linked_lists_refine_witness:
  "\<exists>h' L' A'. NList_ops next_addr [(0, OpAppend (7::int)), (1, OpSortedInsert 5 9), (0, OpAppend 8), (1, OpSortedInsert 6 3),
       (0, OpRemove), (1, OpRemove)] Map.empty (\<lambda>_. List_new) =
       Some ([None, None, None, None, Some (7, 0), Some (6, 3)], h', L') \<and> heap_lists h' L' A' \<and>
     entries h' (A' 0) = [(8, 0)] \<and> entries h' (A' 1) = [(5, 9)]"
proof -
  let ?ops = "[(0::nat, OpAppend (7::int)), (1, OpSortedInsert 5 9), (0, OpAppend 8), (1, OpSortedInsert 6 3),
       (0, OpRemove), (1, OpRemove)]"
  obtain h' L' A' rs where 1: "NList_ops next_addr ?ops Map.empty (\<lambda>_. List_new) = Some (rs, h', L')"
      "heap_lists h' L' A'"
    and 2: "spec_lists ?ops (\<lambda>i. entries Map.empty ([]::addr list)) = (rs, \<lambda>i. entries h' (A' i))"
    using linked_lists_refine [OF empty_lists _ next_addr_ok, of ?ops] by auto
  then have "rs = [None, None, None, None, Some (7, 0), Some (6, 3)]"
      "(\<lambda>i. entries h' (A' i)) = (\<lambda>i. [])(0 := [(8, 0)], 1 := [(5, 9)])"
    by auto
  moreover from this(2) have "entries h' (A' 0) = [(8, 0)]" "entries h' (A' 1) = [(5, 9)]"
    by (auto dest: fun_cong [of _ _ 0] fun_cong [of _ _ 1])
  ultimately show ?thesis using 1 by auto
qed

text \<open>
  Sorted lists are stable priority queues. If the keys of a well-formed list ascend, \<open>SortedInsert\<close>
  returns a list whose keys ascend again, in which the new item stands behind all old entries with keys
  up to its own and before all larger ones, in unchanged order. The next \<open>SortedRemove\<close> returns its first
  entry, which has the least key.
\<close>

lemma sorted_insert_stable:
  assumes "list_rep h l as" "h p = None" "p \<noteq> NULL" "sorted (map snd (entries h as))"
  shows "\<exists>h' l' as'. SortedInsert h l p x k = Some (h', l') \<and> list_rep h' l' as' \<and>
     entries h' as' = filter (\<lambda>e. snd e \<le> k) (entries h as) @ (x, k) # filter (\<lambda>e. k < snd e) (entries h as) \<and>
     sorted (map snd (entries h' as')) \<and>
     (\<exists>h'' l''. SortedRemove h' l' = Some (Some (hd (entries h' as')), h'', l'') \<and>
        (\<forall>e\<in>set (entries h' as'). snd (hd (entries h' as')) \<le> snd e))"
proof -
  obtain h' l' as' where 1: "SortedInsert h l p x k = Some (h', l')" "list_rep h' l' as'"
    "entries h' as' = insert_entry x k (entries h as)"
    using SortedInsert_ok [OF assms(1-3), of x k] by (rule insertedE) blast
  have s: "sorted (map snd (entries h' as'))"
    using insert_entry_sorted [OF assms(4)] 1(3) by simp
  have "as' \<noteq> []" using 1(3) by (cases as') (auto dest: arg_cong [where f = length])
  then obtain a bs where as': "as' = a # bs" by (cases as') auto
  have "\<exists>h'' l''. SortedRemove h' l' = Some (Some (hd (entries h' as')), h'', l'')"
    using SortedRemove_ok [OF 1(2)] by (auto simp: removed_def as')
  moreover have "\<forall>e\<in>set (entries h' as'). snd (hd (entries h' as')) \<le> snd e"
    using s by (auto simp: as')
  moreover have "entries h' as' = filter (\<lambda>e. snd e \<le> k) (entries h as) @ (x, k) # filter (\<lambda>e. k < snd e) (entries h as)"
    using 1(3) insert_entry_stable [OF assms(4), of x k] by simp
  ultimately show ?thesis using 1(1,2) s by blast
qed

end
