(* ===== verification/Interrupt.thy ===== *)
theory Interrupt
  imports LinkedList Machine
begin

text \<open>
  The simulated clock and the interrupts of the hardware devices: src/code/machine/interrupt.cc,
  interrupt.h, stats.h and timer.cc.

  The list of pending interrupts is kept as the sequence of its entries, the view of the linked list that
  \<open>LinkedList\<close> justifies: \<open>SortedInsert\<close> is \<^const>\<open>insert_entry\<close>, \<open>SortedRemove\<close> takes the first entry.
  Handlers are functions of the whole kernel state, called through a parameter \<open>call\<close> that gives the
  meaning of a \<open>VoidFunctionPtr\<close>; the context switch at the end of \<open>OneTick\<close> (\<open>currentThread->Yield()\<close>) is
  the parameter \<open>yield\<close>. The field \<open>world\<close> holds the devices and the rest of the kernel.

  The locale \<open>interrupt_handlers\<close> states what the simulation needs of the handlers: they run with
  interrupts disabled and return, they do not move the clock, and what they schedule is in the future.
  Under this contract the dispatch loop ends and fires the interrupts that are due, each once, in the
  order of their times. \<open>Devices\<close> discharges the contract for the handlers of all devices.
\<close>

section \<open>Model\<close>

datatype IntStatus = IntOff | IntOn

datatype IntType = TimerInt | DiskInt | ConsoleWriteInt | ConsoleReadInt | NetworkSendInt | NetworkRecvInt

abbreviation UserTick :: int where "UserTick \<equiv> 1"
abbreviation SystemTick :: int where "SystemTick \<equiv> 10"
abbreviation TimerTicks :: int where "TimerTicks \<equiv> 100"

text \<open>The counters of the disk are kept with the disk (\<open>Disk\<close>).\<close>

record Statistics =
  totalTicks :: int
  idleTicks :: int
  systemTicks :: int
  userTicks :: int
  numConsoleCharsRead :: int
  numConsoleCharsWritten :: int
  numPageFaults :: int
  numPacketsSent :: int
  numPacketsRecvd :: int

definition Statistics_new :: Statistics where
  "Statistics_new = \<lparr>totalTicks = 0, idleTicks = 0, systemTicks = 0, userTicks = 0, numConsoleCharsRead = 0,
     numConsoleCharsWritten = 0, numPageFaults = 0, numPacketsSent = 0, numPacketsRecvd = 0\<rparr>"

record 'f PendingInterrupt =
  handler_fn :: 'f
  handler_arg :: int
  due_at :: int
  int_type :: IntType

record ('f, 'w) Kernel =
  stats :: Statistics
  level :: IntStatus
  pending_ints :: "('f PendingInterrupt \<times> int) list"
  inHandler :: bool
  yieldOnReturn :: bool
  mode :: MachineStatus
  machine :: "Machine option"
  world :: 'w

type_synonym ('f, 'w) call = "'f \<Rightarrow> int \<Rightarrow> ('f, 'w) Kernel \<Rightarrow> ('f, 'w) Kernel option"

abbreviation now :: "('f, 'w) Kernel \<Rightarrow> int" where "now k \<equiv> totalTicks (stats k)"

definition Interrupt_new :: "Machine option \<Rightarrow> 'w \<Rightarrow> ('f, 'w) Kernel" where
  "Interrupt_new m w = \<lparr>stats = Statistics_new, level = IntOff, pending_ints = [], inHandler = False,
     yieldOnReturn = False, mode = SystemMode, machine = m, world = w\<rparr>"

definition ChangeLevel :: "IntStatus \<Rightarrow> ('f, 'w) Kernel \<Rightarrow> ('f, 'w) Kernel" where
  "ChangeLevel new k = k\<lparr>level := new\<rparr>"

definition Schedule :: "'f \<Rightarrow> int \<Rightarrow> int \<Rightarrow> IntType \<Rightarrow> ('f, 'w) Kernel \<Rightarrow> ('f, 'w) Kernel option" where
  "Schedule f a fromNow type k = do {
     let when = now k + fromNow;
     ASSERT (fromNow > 0);
     Some (k\<lparr>pending_ints := insert_entry \<lparr>handler_fn = f, handler_arg = a, due_at = when, int_type = type\<rparr> when
            (pending_ints k)\<rparr>)
   }"

text \<open>
  The end of \<open>CheckIfDue\<close>, from the test of \<open>machine\<close> on: the handler runs in kernel mode, after a pending
  delayed load of an interrupted user program has been done.
\<close>

definition fire :: "('f, 'w) call \<Rightarrow> 'f PendingInterrupt \<Rightarrow> ('f, 'w) Kernel \<Rightarrow> ('f, 'w) Kernel option" where
  "fire call toOccur k = do {
     let old = mode k;
     k \<leftarrow> (case machine k of
            Some m \<Rightarrow> if mode k = UserMode then do { m \<leftarrow> DelayedLoad m 0 0; Some (k\<lparr>machine := Some m\<rparr>) } else Some k
          | None \<Rightarrow> Some k);
     k \<leftarrow> call (handler_fn toOccur) (handler_arg toOccur) (k\<lparr>inHandler := True, mode := SystemMode\<rparr>);
     Some (k\<lparr>mode := old, inHandler := False\<rparr>)
   }"

definition CheckIfDue :: "('f, 'w) call \<Rightarrow> bool \<Rightarrow> ('f, 'w) Kernel \<Rightarrow> (bool \<times> ('f, 'w) Kernel) option" where
  "CheckIfDue call advanceClock k = do {
     ASSERT (level k = IntOff);
     case pending_ints k of
       [] \<Rightarrow> Some (False, k)
     | (toOccur, when) # rest \<Rightarrow>
         let k' = k\<lparr>pending_ints := rest\<rparr> in
         if when > now k \<and> \<not> advanceClock then
           Some (False, k'\<lparr>pending_ints := insert_entry toOccur when rest\<rparr>)
         else
           let k' = (if when > now k then
                       k'\<lparr>stats := (stats k)\<lparr>idleTicks := idleTicks (stats k) + (when - now k), totalTicks := when\<rparr>\<rparr>
                     else k') in
           if mode k' = IdleMode \<and> int_type toOccur = TimerInt \<and> rest = [] then
             Some (False, k'\<lparr>pending_ints := insert_entry toOccur when rest\<rparr>)
           else do { k' \<leftarrow> fire call toOccur k'; Some (True, k') }
   }"

text \<open>\<open>while (CheckIfDue(FALSE)) ;\<close>\<close>

partial_function (option) check_loop :: "('f, 'w) call \<Rightarrow> ('f, 'w) Kernel \<Rightarrow> ('f, 'w) Kernel option" where
  "check_loop call k = do {
     (fired, k) \<leftarrow> CheckIfDue call False k;
     if fired then check_loop call k else Some k
   }"

definition advance :: "('f, 'w) Kernel \<Rightarrow> ('f, 'w) Kernel" where
  "advance k =
     (if mode k = SystemMode then
        k\<lparr>stats := (stats k)\<lparr>totalTicks := now k + SystemTick, systemTicks := systemTicks (stats k) + SystemTick\<rparr>\<rparr>
      else k\<lparr>stats := (stats k)\<lparr>totalTicks := now k + UserTick, userTicks := userTicks (stats k) + UserTick\<rparr>\<rparr>)"

definition OneTick :: "('f, 'w) call \<Rightarrow> (('f, 'w) Kernel \<Rightarrow> ('f, 'w) Kernel option) \<Rightarrow> ('f, 'w) Kernel \<Rightarrow> ('f, 'w) Kernel option" where
  "OneTick call yield k = do {
     let old = mode k;
     let k = advance k;
     let k = ChangeLevel IntOff k;
     k \<leftarrow> check_loop call k;
     let k = ChangeLevel IntOn k;
     if yieldOnReturn k then do {
       k \<leftarrow> yield (k\<lparr>yieldOnReturn := False, mode := SystemMode\<rparr>);
       Some (k\<lparr>mode := old\<rparr>)
     } else Some k
   }"

definition SetLevel ::
  "('f, 'w) call \<Rightarrow> (('f, 'w) Kernel \<Rightarrow> ('f, 'w) Kernel option) \<Rightarrow> IntStatus \<Rightarrow> ('f, 'w) Kernel \<Rightarrow> (IntStatus \<times> ('f, 'w) Kernel) option" where
  "SetLevel call yield new k = do {
     let old = level k;
     ASSERT (new = IntOff \<or> \<not> inHandler k);
     let k = ChangeLevel new k;
     k \<leftarrow> (if new = IntOn \<and> old = IntOff then OneTick call yield k else Some k);
     Some (old, k)
   }"

definition Enable :: "('f, 'w) call \<Rightarrow> (('f, 'w) Kernel \<Rightarrow> ('f, 'w) Kernel option) \<Rightarrow> ('f, 'w) Kernel \<Rightarrow> ('f, 'w) Kernel option" where
  "Enable call yield k = map_option snd (SetLevel call yield IntOn k)"

definition YieldOnReturn :: "('f, 'w) Kernel \<Rightarrow> ('f, 'w) Kernel option" where
  "YieldOnReturn k = do { ASSERT (inHandler k); Some (k\<lparr>yieldOnReturn := True\<rparr>) }"

text \<open>\<open>Idle\<close> returns to its caller or halts the machine for good.\<close>

datatype 'k idle_outcome = Returns 'k | Halts 'k

definition Idle :: "('f, 'w) call \<Rightarrow> ('f, 'w) Kernel \<Rightarrow> ('f, 'w) Kernel idle_outcome option" where
  "Idle call k = do {
     let k = k\<lparr>mode := IdleMode\<rparr>;
     (fired, k) \<leftarrow> CheckIfDue call True k;
     if fired then do {
       k \<leftarrow> check_loop call k;
       Some (Returns (k\<lparr>yieldOnReturn := False, mode := SystemMode\<rparr>))
     } else Some (Halts k)
   }"

text \<open>\<open>DumpState\<close>: the time and the pending interrupts it prints.\<close>

definition DumpState :: "('f, 'w) Kernel \<Rightarrow> int \<times> IntStatus \<times> (IntType \<times> int) list" where
  "DumpState k = (now k, level k, map (\<lambda>(p, _). (int_type p, due_at p)) (pending_ints k))"

subsection \<open>The timer (timer.cc)\<close>

text \<open>The value of \<open>Random()\<close>, the host's \<open>rand\<close>, is the argument \<open>r\<close>.\<close>

record 'f Timer =
  randomize :: bool
  timer_handler :: 'f
  timer_arg :: int

definition TimeOfNextInterrupt :: "'f Timer \<Rightarrow> int \<Rightarrow> int" where
  "TimeOfNextInterrupt t r = (if randomize t then 1 + r smod (TimerTicks * 2) else TimerTicks)"

definition Timer_new :: "'f \<Rightarrow> 'f \<Rightarrow> int \<Rightarrow> bool \<Rightarrow> int \<Rightarrow> ('f, 'w) Kernel \<Rightarrow> ('f Timer \<times> ('f, 'w) Kernel) option" where
  "Timer_new expired timerHandler callArg doRandom r k = do {
     let t = \<lparr>randomize = doRandom, timer_handler = timerHandler, timer_arg = callArg\<rparr>;
     k \<leftarrow> Schedule expired 0 (TimeOfNextInterrupt t r) TimerInt k;
     Some (t, k)
   }"

definition TimerExpired :: "('f, 'w) call \<Rightarrow> 'f \<Rightarrow> 'f Timer \<Rightarrow> int \<Rightarrow> ('f, 'w) Kernel \<Rightarrow> ('f, 'w) Kernel option" where
  "TimerExpired call expired t r k = do {
     k \<leftarrow> Schedule expired 0 (TimeOfNextInterrupt t r) TimerInt k;
     call (timer_handler t) (timer_arg t) k
   }"

text \<open>\<open>TimerInterruptHandler\<close> of threads/system.cc.\<close>

definition TimerInterruptHandler :: "('f, 'w) Kernel \<Rightarrow> ('f, 'w) Kernel option" where
  "TimerInterruptHandler k = (if mode k \<noteq> IdleMode then YieldOnReturn k else Some k)"

section \<open>Invariants\<close>

definition irq_wf :: "('f, 'w) Kernel \<Rightarrow> bool" where
  "irq_wf k \<longleftrightarrow> sorted (map snd (pending_ints k)) \<and> (\<forall>(p, w)\<in>set (pending_ints k). due_at p = w)"

text \<open>The pending interrupts whose time has come, in the order they are kept.\<close>

definition due :: "('f, 'w) Kernel \<Rightarrow> ('f PendingInterrupt \<times> int) list" where
  "due k = filter (\<lambda>(p, w). w \<le> now k) (pending_ints k)"

definition ticks_ok :: "Statistics \<Rightarrow> bool" where
  "ticks_ok s \<longleftrightarrow> totalTicks s = idleTicks s + systemTicks s + userTicks s"

definition same_clock :: "Statistics \<Rightarrow> Statistics \<Rightarrow> bool" where
  "same_clock s s' \<longleftrightarrow> totalTicks s' = totalTicks s \<and> idleTicks s' = idleTicks s \<and>
     systemTicks s' = systemTicks s \<and> userTicks s' = userTicks s"

definition machine_ok :: "Machine option \<Rightarrow> bool" where
  "machine_ok mo \<longleftrightarrow> (\<forall>m. mo = Some m \<longrightarrow> length (registers m) = NumTotalRegs \<and> unat (reg m LoadReg) < NumTotalRegs)"

text \<open>What a handler may do, called with interrupts off in the state \<open>k\<close>.\<close>

definition handled :: "('w \<Rightarrow> bool) \<Rightarrow> ('f, 'w) Kernel \<Rightarrow> ('f, 'w) Kernel \<Rightarrow> bool" where
  "handled good k k' \<longleftrightarrow> irq_wf k' \<and> same_clock (stats k) (stats k') \<and> level k' = level k \<and>
     due k' = due k \<and> machine k' = machine k \<and> good (world k')"

lemma same_clock_refl [simp]: "same_clock s s"
  by (simp add: same_clock_def)

lemma same_clock_trans: "same_clock s s' \<Longrightarrow> same_clock s' s'' \<Longrightarrow> same_clock s s''"
  by (simp add: same_clock_def)

lemma same_clock_ticks: "same_clock s s' \<Longrightarrow> ticks_ok s' = ticks_ok s"
  by (simp add: same_clock_def ticks_ok_def)

lemma irq_simps [simp]:
  "irq_wf (k\<lparr>stats := s\<rparr>) = irq_wf k" "irq_wf (k\<lparr>inHandler := b\<rparr>) = irq_wf k" "irq_wf (k\<lparr>mode := st\<rparr>) = irq_wf k"
  "irq_wf (k\<lparr>level := lv\<rparr>) = irq_wf k" "irq_wf (k\<lparr>machine := m\<rparr>) = irq_wf k" "irq_wf (k\<lparr>yieldOnReturn := b\<rparr>) = irq_wf k"
  "irq_wf (k\<lparr>world := w\<rparr>) = irq_wf k"
  "due (k\<lparr>inHandler := b\<rparr>) = due k" "due (k\<lparr>mode := st\<rparr>) = due k" "due (k\<lparr>level := lv\<rparr>) = due k"
  "due (k\<lparr>machine := m\<rparr>) = due k" "due (k\<lparr>yieldOnReturn := b\<rparr>) = due k" "due (k\<lparr>world := w\<rparr>) = due k"
  by (simp_all add: irq_wf_def due_def)

lemma irq_wf_insert:
  "irq_wf k \<Longrightarrow> due_at p = w \<Longrightarrow> irq_wf (k\<lparr>pending_ints := insert_entry p w (pending_ints k)\<rparr>)"
  by (auto simp: irq_wf_def insert_entry_sorted)

lemma irq_wf_tl: "irq_wf k \<Longrightarrow> pending_ints k = e # es \<Longrightarrow> irq_wf (k\<lparr>pending_ints := es\<rparr>)"
  by (auto simp: irq_wf_def)

lemma filter_insert_entry:
  "\<not> P (x, k) \<Longrightarrow> filter P (insert_entry x k xs) = filter P xs"
  by (induction xs) auto

lemma Schedule_ok:
  assumes "irq_wf k" "fromNow > 0"
  shows "\<exists>k'. Schedule f a fromNow ty k = Some k' \<and> irq_wf k' \<and> due k' = due k \<and>
     k' = k\<lparr>pending_ints := pending_ints k'\<rparr>"
  using assms by (simp add: Schedule_def irq_wf_insert due_def filter_insert_entry Let_def)

lemma due_Cons:
  assumes "irq_wf k" "pending_ints k = (p, w) # rest"
  shows "w \<le> now k \<Longrightarrow> due k = (p, w) # due (k\<lparr>pending_ints := rest\<rparr>)"
    and "w > now k \<Longrightarrow> due k = []"
  using assms by (auto simp: due_def irq_wf_def filter_empty_conv)

lemma machine_ok_DelayedLoad:
  assumes "machine_ok (Some m)"
  shows "\<exists>m'. DelayedLoad m 0 0 = Some m' \<and> machine_ok (Some m')"
proof -
  have l: "length (registers m) = 40" and r: "unat (reg m LoadReg) < 40"
    using assms by (simp_all add: machine_ok_def)
  have "sint (reg m LoadReg) = int (unat (reg m LoadReg))"
    using r by (intro sint_small) simp
  then have "sint (reg m LoadReg) \<ge> 0" "sint (reg m LoadReg) < 40" using r by (auto simp del: of_nat_unat)
  then show ?thesis
    using l by (simp add: DelayedLoad_def machine_ok_def set_reg_def Let_def)
qed

section \<open>Dispatching interrupts\<close>

text \<open>The straight-line dispatch of a sequence of interrupts, each the head of the list when its turn comes.\<close>

fun fire_seq :: "('f, 'w) call \<Rightarrow> 'f PendingInterrupt list \<Rightarrow> ('f, 'w) Kernel \<Rightarrow> ('f, 'w) Kernel option" where
  "fire_seq call [] k = Some k"
| "fire_seq call (p # ps) k = do { k \<leftarrow> fire call p (k\<lparr>pending_ints := tl (pending_ints k)\<rparr>); fire_seq call ps k }"

text \<open>An interrupt that is not due is taken off the list and inserted again, behind others of the same time.\<close>

definition requeue :: "('f, 'w) Kernel \<Rightarrow> ('f, 'w) Kernel" where
  "requeue k = k\<lparr>pending_ints := (case pending_ints k of [] \<Rightarrow> [] | (p, w) # rest \<Rightarrow> insert_entry p w rest)\<rparr>"

definition dispatchable :: "('w \<Rightarrow> bool) \<Rightarrow> ('f, 'w) Kernel \<Rightarrow> bool" where
  "dispatchable good k \<longleftrightarrow> level k = IntOff \<and> irq_wf k \<and> good (world k) \<and> machine_ok (machine k)"

lemma requeue_ok:
  assumes "dispatchable good k"
  shows "dispatchable good (requeue k)" "due k = [] \<Longrightarrow> due (requeue k) = []" "stats (requeue k) = stats k"
    "mode (requeue k) = mode k" "length (pending_ints (requeue k)) = length (pending_ints k)"
    "set (pending_ints (requeue k)) = set (pending_ints k)"
  using assms
  by (cases "pending_ints k"; auto simp: dispatchable_def requeue_def irq_wf_def due_def insert_entry_sorted
      filter_empty_conv)+

lemma CheckIfDue_quiet:
  assumes "dispatchable good k" "due k = []"
  shows "CheckIfDue call False k = Some (False, requeue k)"
proof (cases "pending_ints k")
  case Nil
  then show ?thesis using assms by (simp add: CheckIfDue_def dispatchable_def requeue_def)
next
  case (Cons e rest)
  then have "snd e > now k" using assms(2) by (auto simp: due_def split: prod.splits if_splits)
  then show ?thesis
    using assms(1) Cons by (cases e) (simp add: CheckIfDue_def dispatchable_def requeue_def)
qed

locale interrupt_handlers =
  fixes call :: "('f, 'w) call" and good :: "'w \<Rightarrow> bool"
  assumes handler_returns:
    "level k = IntOff \<Longrightarrow> inHandler k \<Longrightarrow> mode k = SystemMode \<Longrightarrow> irq_wf k \<Longrightarrow> good (world k) \<Longrightarrow>
     \<exists>k'. call f a k = Some k' \<and> handled good k k'"
begin

lemma fire_ok:
  assumes "dispatchable good k"
  shows "\<exists>k'. fire call p k = Some k' \<and> dispatchable good k' \<and> due k' = due k \<and>
     same_clock (stats k) (stats k') \<and> mode k' = mode k \<and> \<not> inHandler k'"
proof -
  obtain m1 where load: "(case machine k of
      Some m \<Rightarrow> if mode k = UserMode then do { m \<leftarrow> DelayedLoad m 0 0; Some (k\<lparr>machine := Some m\<rparr>) } else Some k
    | None \<Rightarrow> Some k) = Some (k\<lparr>machine := m1\<rparr>)" and m1: "machine_ok m1"
  proof (cases "machine k")
    case None
    then show thesis using that [of None] assms by (simp add: machine_ok_def)
  next
    case (Some m)
    then obtain m' where "DelayedLoad m 0 0 = Some m'" "machine_ok (Some m')"
      using assms machine_ok_DelayedLoad by (auto simp: dispatchable_def)
    then show thesis
      using that [of "Some m'"] that [of "Some m"] Some assms
      by (cases "mode k = UserMode") (simp_all add: dispatchable_def)
  qed
  let ?k = "k\<lparr>machine := m1, inHandler := True, mode := SystemMode\<rparr>"
  obtain k2 where "call (handler_fn p) (handler_arg p) ?k = Some k2" "handled good ?k k2"
    using handler_returns [of ?k "handler_fn p" "handler_arg p"] assms by (auto simp: dispatchable_def)
  then show ?thesis
    using load m1 assms by (auto simp: fire_def handled_def dispatchable_def)
qed

lemma head_due:
  assumes "dispatchable good k" "due k = (p, w) # ds"
  obtains rest where "pending_ints k = (p, w) # rest" "due (k\<lparr>pending_ints := rest\<rparr>) = ds" "w \<le> now k"
    "dispatchable good (k\<lparr>pending_ints := rest\<rparr>)"
proof (cases "pending_ints k")
  case Nil
  then show thesis using assms(2) by (simp add: due_def)
next
  case (Cons e rest)
  obtain p' w' where e: "e = (p', w')" by (cases e)
  have wf: "irq_wf k" using assms(1) by (simp add: dispatchable_def)
  have "w' \<le> now k" using due_Cons(2) [OF wf Cons [unfolded e]] assms(2) by fastforce
  moreover from this have "(p', w') = (p, w)" "due (k\<lparr>pending_ints := rest\<rparr>) = ds"
    using due_Cons(1) [OF wf Cons [unfolded e]] assms(2) by simp_all
  ultimately show thesis
    using that [of rest] Cons e assms(1) irq_wf_tl [OF wf Cons] by (simp add: dispatchable_def)
qed

text \<open>The loop fires what is due, and nothing else.\<close>

lemma check_loop_fires:
  assumes "dispatchable good k" "mode k \<noteq> IdleMode"
  shows "\<exists>k'. fire_seq call (map fst (due k)) k = Some k' \<and> check_loop call k = Some (requeue k') \<and>
     dispatchable good k' \<and> due k' = [] \<and> same_clock (stats k) (stats k') \<and> mode k' = mode k"
  using assms
proof (induction "due k" arbitrary: k)
  case Nil
  then show ?case
    by (subst check_loop.simps) (use Nil CheckIfDue_quiet [of good k call] in auto)
next
  case (Cons pw ds)
  obtain p w where pw: "pw = (p, w)" by (cases pw)
  note d = Cons.hyps(2) [symmetric, unfolded pw]
  obtain rest where rest: "pending_ints k = (p, w) # rest" "due (k\<lparr>pending_ints := rest\<rparr>) = ds" "w \<le> now k"
      "dispatchable good (k\<lparr>pending_ints := rest\<rparr>)"
    using Cons.prems(1) d by (rule head_due)
  obtain k1 where k1: "fire call p (k\<lparr>pending_ints := rest\<rparr>) = Some k1" "dispatchable good k1" "due k1 = ds"
      "same_clock (stats k) (stats k1)" "mode k1 = mode k"
    using fire_ok [OF rest(4), of p] rest(2) by auto
  have check: "CheckIfDue call False k = Some (True, k1)"
    using rest k1(1) Cons.prems by (simp add: CheckIfDue_def dispatchable_def)
  obtain k' where "fire_seq call (map fst ds) k1 = Some k'" "check_loop call k1 = Some (requeue k')"
      "dispatchable good k'" "due k' = []" "same_clock (stats k1) (stats k')" "mode k' = mode k"
    using Cons.hyps(1) [of k1] k1 Cons.prems(2) by auto
  then show ?case
    using check k1 rest(1) d same_clock_trans by (subst check_loop.simps) fastforce
qed

text \<open>While the machine idles, a timer interrupt that is the only one left is not fired, due or not.\<close>

lemma check_loop_returns:
  assumes "dispatchable good k"
  shows "\<exists>k'. check_loop call k = Some k' \<and> dispatchable good k' \<and> same_clock (stats k) (stats k') \<and> mode k' = mode k \<and>
     (due k' = [] \<or> mode k = IdleMode \<and> (\<exists>p w. pending_ints k' = [(p, w)] \<and> int_type p = TimerInt))"
  using assms
proof (induction "due k" arbitrary: k)
  case Nil
  then show ?case
    using requeue_ok [OF Nil.prems] CheckIfDue_quiet [of good k call] by (subst check_loop.simps) auto
next
  case (Cons pw ds)
  obtain p w where pw: "pw = (p, w)" by (cases pw)
  note d = Cons.hyps(2) [symmetric, unfolded pw]
  obtain rest where rest: "pending_ints k = (p, w) # rest" "due (k\<lparr>pending_ints := rest\<rparr>) = ds" "w \<le> now k"
      "dispatchable good (k\<lparr>pending_ints := rest\<rparr>)"
    using Cons.prems(1) d by (rule head_due)
  show ?case
  proof (cases "mode k = IdleMode \<and> int_type p = TimerInt \<and> rest = []")
    case True
    then have "CheckIfDue call False k = Some (False, k)"
      using rest Cons.prems by (simp add: CheckIfDue_def dispatchable_def)
    then show ?thesis
      using True rest Cons.prems by (subst check_loop.simps) auto
  next
    case False
    obtain k1 where k1: "fire call p (k\<lparr>pending_ints := rest\<rparr>) = Some k1" "dispatchable good k1" "due k1 = ds"
        "same_clock (stats k) (stats k1)" "mode k1 = mode k"
      using fire_ok [OF rest(4), of p] rest(2) by auto
    have check: "CheckIfDue call False k = Some (True, k1)"
      using rest k1(1) Cons.prems False by (auto simp: CheckIfDue_def dispatchable_def Let_def)
    obtain k' where "check_loop call k1 = Some k'" "dispatchable good k'" "same_clock (stats k1) (stats k')"
        "mode k' = mode k"
        "due k' = [] \<or> mode k1 = IdleMode \<and> (\<exists>p w. pending_ints k' = [(p, w)] \<and> int_type p = TimerInt)"
      using Cons.hyps(1) [of k1] k1 by auto
    then show ?thesis
      using check k1 same_clock_trans by (subst check_loop.simps) auto
  qed
qed

lemma OneTick_eq:
  assumes "irq_wf k" "good (world k)" "machine_ok (machine k)" "mode k \<noteq> IdleMode"
  shows "\<exists>k1. fire_seq call (map fst (due (advance k))) (ChangeLevel IntOff (advance k)) = Some k1 \<and>
     due k1 = [] \<and> same_clock (stats (advance k)) (stats k1) \<and> dispatchable good k1 \<and>
     OneTick call yield k =
       (let k2 = (requeue k1)\<lparr>level := IntOn\<rparr> in
        if yieldOnReturn k1
        then map_option (\<lambda>k'. k'\<lparr>mode := mode k\<rparr>) (yield (k2\<lparr>yieldOnReturn := False, mode := SystemMode\<rparr>))
        else Some k2)"
proof -
  have 1: "dispatchable good (ChangeLevel IntOff (advance k))" "mode (ChangeLevel IntOff (advance k)) \<noteq> IdleMode"
    "due (ChangeLevel IntOff (advance k)) = due (advance k)"
    using assms by (auto simp: dispatchable_def ChangeLevel_def advance_def)
  obtain k1 where k1: "fire_seq call (map fst (due (advance k))) (ChangeLevel IntOff (advance k)) = Some k1"
      "check_loop call (ChangeLevel IntOff (advance k)) = Some (requeue k1)" "dispatchable good k1" "due k1 = []"
      "same_clock (stats (advance k)) (stats k1)"
    using check_loop_fires [OF 1(1,2)] unfolding 1(3) by (auto simp: ChangeLevel_def)
  have "yieldOnReturn (requeue k1) = yieldOnReturn k1" by (simp add: requeue_def)
  then have "OneTick call yield k =
       (let k2 = (requeue k1)\<lparr>level := IntOn\<rparr> in
        if yieldOnReturn k1
        then map_option (\<lambda>k'. k'\<lparr>mode := mode k\<rparr>) (yield (k2\<lparr>yieldOnReturn := False, mode := SystemMode\<rparr>))
        else Some k2)"
    using k1(2) by (simp add: OneTick_def ChangeLevel_def Let_def map_conv_bind_option comp_def)
  then show ?thesis using k1 by blast
qed

lemma Idle_returns:
  assumes "level k = IntOff" "irq_wf k" "good (world k)" "machine_ok (machine k)"
    and p: "pending_ints k = (p, w) # rest" "\<not> (int_type p = TimerInt \<and> rest = [])"
  shows "\<exists>k'. Idle call k = Some (Returns k') \<and> now k' = max (now k) w \<and>
     idleTicks (stats k') = idleTicks (stats k) + (now k' - now k) \<and>
     systemTicks (stats k') = systemTicks (stats k) \<and> userTicks (stats k') = userTicks (stats k) \<and>
     irq_wf k' \<and> good (world k') \<and> level k' = IntOff \<and>
     (due k' = [] \<or> (\<exists>p w. pending_ints k' = [(p, w)] \<and> int_type p = TimerInt))"
proof -
  define s1 where "s1 = (if w > now k then (stats k)\<lparr>idleTicks := idleTicks (stats k) + (w - now k), totalTicks := w\<rparr> else stats k)"
  define k1 where "k1 = k\<lparr>mode := IdleMode, pending_ints := rest, stats := s1\<rparr>"
  have wf: "irq_wf (k\<lparr>pending_ints := rest\<rparr>)" using irq_wf_tl [OF assms(2) p(1)] .
  have d1: "dispatchable good k1"
    using assms wf by (simp add: k1_def dispatchable_def irq_wf_def)
  obtain k2 where k2: "fire call p k1 = Some k2" "dispatchable good k2" "same_clock (stats k1) (stats k2)" "mode k2 = mode k1"
    using fire_ok [OF d1, of p] by blast
  have "CheckIfDue call True (k\<lparr>mode := IdleMode\<rparr>) = Some (True, k2)"
  proof -
    have "(if w > now k then k\<lparr>mode := IdleMode, pending_ints := rest,
        stats := (stats k)\<lparr>idleTicks := idleTicks (stats k) + (w - now k), totalTicks := w\<rparr>\<rparr>
        else k\<lparr>mode := IdleMode, pending_ints := rest\<rparr>) = k1"
      by (simp add: k1_def s1_def)
    then show ?thesis
      using k2(1) assms(1) p by (auto simp: CheckIfDue_def Let_def k1_def s1_def split: if_splits)
  qed
  moreover obtain k' where k': "check_loop call k2 = Some k'" "dispatchable good k'" "same_clock (stats k2) (stats k')"
      "due k' = [] \<or> mode k2 = IdleMode \<and> (\<exists>p w. pending_ints k' = [(p, w)] \<and> int_type p = TimerInt)"
    using check_loop_returns [OF k2(2)] by blast
  ultimately have "Idle call k = Some (Returns (k'\<lparr>yieldOnReturn := False, mode := SystemMode\<rparr>))"
    by (simp add: Idle_def)
  moreover have "same_clock s1 (stats k')"
    using same_clock_trans [OF k2(3) k'(3)] by (simp add: k1_def)
  ultimately show ?thesis
    using k'(2,4) by (auto simp: same_clock_def s1_def dispatchable_def split: if_splits)
qed

end

text \<open>The machine halts when nothing, or only the time slice, is left to wait for.\<close>

lemma Idle_halts:
  assumes "level k = IntOff" "pending_ints k = [] \<or> (\<exists>p w. pending_ints k = [(p, w)] \<and> int_type p = TimerInt)"
  shows "\<exists>k'. Idle call k = Some (Halts k') \<and> pending_ints k' = pending_ints k"
  using assms by (auto simp: Idle_def CheckIfDue_def Let_def)

lemma Schedule_handled:
  assumes "irq_wf k" "good (world k)" "fromNow > 0"
  obtains k' where "Schedule f a fromNow ty k = Some k'" "handled good k k'" "k' = k\<lparr>pending_ints := pending_ints k'\<rparr>"
proof -
  obtain k' where k': "Schedule f a fromNow ty k = Some k'" "irq_wf k'" "due k' = due k"
      "k' = k\<lparr>pending_ints := pending_ints k'\<rparr>"
    using Schedule_ok [OF assms(1,3), of f a ty] by blast
  have "stats k' = stats k" "level k' = level k" "machine k' = machine k" "world k' = world k"
    by (subst k'(4), simp)+
  then show thesis using that k' assms(2) by (simp add: handled_def)
qed

lemma handled_trans: "handled good k k' \<Longrightarrow> handled good k' k'' \<Longrightarrow> handled good k k''"
  unfolding handled_def using same_clock_trans by auto

lemma TimeOfNextInterrupt_pos: "0 \<le> r \<Longrightarrow> TimeOfNextInterrupt t r \<in> {1..200}"
  by (auto simp: TimeOfNextInterrupt_def)

end
