(* ===== verification/Devices.thy ===== *)
theory Devices
  imports Complex_Main Interrupt Disk
begin

text \<open>
  The devices behind the interrupts: the console (src/code/machine/console.cc), the network
  (network.cc, network.h), the completion of a disk request (disk.cc) and the timer (timer.cc, with
  \<open>TimerInterruptHandler\<close> of threads/system.cc).

  The host is the record \<open>Host\<close>: what the keyboard, the socket and \<open>rand\<close> will deliver, one element per
  call, and what was written to the display and to the sockets of other machines. The kernel's own
  handlers, which the devices call when a request is done, are semaphore operations of \<open>SynchConsole\<close>,
  \<open>PostOffice\<close> and \<open>SynchDisk\<close>: a parameter \<open>notify\<close> that acts on the rest \<open>'r\<close> of the kernel.

  \<open>device_call\<close> gives every \<open>VoidFunctionPtr\<close> its meaning; its interpretation of
  \<open>interrupt_handlers\<close> shows that all device handlers keep the contract of the interrupt simulation, so
  that ticks and idling behave as described in \<open>Interrupt\<close> for the whole set of devices.
\<close>

section \<open>Model\<close>

abbreviation ConsoleTime :: int where "ConsoleTime \<equiv> 100"
abbreviation NetworkTime :: int where "NetworkTime \<equiv> 100"
abbreviation MaxWireSize :: nat where "MaxWireSize \<equiv> 64"
abbreviation MaxPacketSize :: nat where "MaxPacketSize \<equiv> 52"

text \<open>A \<open>char\<close> that is compared with \<open>EOF\<close> (\<open>-1\<close>).\<close>

abbreviation EOF :: byte where "EOF \<equiv> 255"

datatype VoidFunctionPtr = TimerHandler | DiskDone | ConsoleReadPoll | ConsoleWriteDone | NetworkReadPoll | NetworkSendDone
  | KernelTimerHandler

datatype callback = ReadAvail | WriteDone | PacketAvail | PacketSent | RequestDone

text \<open>One answer of the keyboard: nothing to read, end of file (\<open>read\<close> returns 0), or a character.\<close>

datatype key_event = NoKey | EndOfInput | Key byte

record Host =
  keys :: "key_event list"
  packets :: "byte list option list"
  randoms :: "int list"
  junk_bytes :: "nat \<Rightarrow> byte"
  display :: "byte list"
  wire :: "(int \<times> byte list) list"

record Console =
  putBusy :: bool
  incoming :: byte

record PacketHeader =
  to_machine :: int
  from_machine :: int
  pkt_length :: nat

record Network =
  ident :: int
  chanceToWork :: real
  sendBusy :: bool
  inHdr :: PacketHeader
  inbox :: "byte list"

record 'r World =
  console :: Console
  network :: Network
  hard_disk :: RawDisk
  timer :: "VoidFunctionPtr Timer"
  host :: Host
  others :: 'r

type_synonym 'r K = "(VoidFunctionPtr, 'r World) Kernel"

text \<open>\<open>Random()\<close>: the next value of \<open>rand\<close>.\<close>

definition Random :: "'r K \<Rightarrow> int \<times> 'r K" where
  "Random k = (case randoms (host (world k)) of [] \<Rightarrow> (0, k)
     | r # rs \<Rightarrow> (r, k\<lparr>world := (world k)\<lparr>host := (host (world k))\<lparr>randoms := rs\<rparr>\<rparr>\<rparr>))"

definition notify_kernel :: "(callback \<Rightarrow> 'r \<Rightarrow> 'r) \<Rightarrow> callback \<Rightarrow> 'r K \<Rightarrow> 'r K" where
  "notify_kernel notify c k = k\<lparr>world := (world k)\<lparr>others := notify c (others (world k))\<rparr>\<rparr>"

definition set_console :: "Console \<Rightarrow> 'r K \<Rightarrow> 'r K" where
  "set_console c k = k\<lparr>world := (world k)\<lparr>console := c\<rparr>\<rparr>"

definition set_network :: "Network \<Rightarrow> 'r K \<Rightarrow> 'r K" where
  "set_network n k = k\<lparr>world := (world k)\<lparr>network := n\<rparr>\<rparr>"

definition set_host :: "Host \<Rightarrow> 'r K \<Rightarrow> 'r K" where
  "set_host h k = k\<lparr>world := (world k)\<lparr>host := h\<rparr>\<rparr>"

subsection \<open>Console\<close>

definition Console_new :: "'r K \<Rightarrow> 'r K option" where
  "Console_new k = do {
     let k = set_console \<lparr>putBusy = False, incoming = EOF\<rparr> k;
     Schedule ConsoleReadPoll 0 ConsoleTime ConsoleReadInt k
   }"

definition CheckCharAvail :: "(callback \<Rightarrow> 'r \<Rightarrow> 'r) \<Rightarrow> 'r K \<Rightarrow> 'r K option" where
  "CheckCharAvail notify k = do {
     k \<leftarrow> Schedule ConsoleReadPoll 0 ConsoleTime ConsoleReadInt k;
     let c = console (world k);
     if incoming c \<noteq> EOF then Some k
     else (case keys (host (world k)) of
         [] \<Rightarrow> Some k
       | NoKey # ks \<Rightarrow> Some (set_host ((host (world k))\<lparr>keys := ks\<rparr>) k)
       | ev # ks \<Rightarrow>
           let k = set_host ((host (world k))\<lparr>keys := ks\<rparr>) k;
               k = set_console (c\<lparr>incoming := (case ev of Key ch \<Rightarrow> ch | _ \<Rightarrow> EOF)\<rparr>) k;
               k = k\<lparr>stats := (stats k)\<lparr>numConsoleCharsRead := numConsoleCharsRead (stats k) + 1\<rparr>\<rparr>
           in Some (notify_kernel notify ReadAvail k))
   }"

definition Console_WriteDone :: "(callback \<Rightarrow> 'r \<Rightarrow> 'r) \<Rightarrow> 'r K \<Rightarrow> 'r K option" where
  "Console_WriteDone notify k =
     (let k = set_console ((console (world k))\<lparr>putBusy := False\<rparr>) k;
          k = k\<lparr>stats := (stats k)\<lparr>numConsoleCharsWritten := numConsoleCharsWritten (stats k) + 1\<rparr>\<rparr>
      in Some (notify_kernel notify WriteDone k))"

definition GetChar :: "'r K \<Rightarrow> byte \<times> 'r K" where
  "GetChar k = (incoming (console (world k)), set_console ((console (world k))\<lparr>incoming := EOF\<rparr>) k)"

definition PutChar :: "byte \<Rightarrow> 'r K \<Rightarrow> 'r K option" where
  "PutChar ch k = do {
     ASSERT (\<not> putBusy (console (world k)));
     let k = set_host ((host (world k))\<lparr>display := display (host (world k)) @ [ch]\<rparr>) k;
     let k = set_console ((console (world k))\<lparr>putBusy := True\<rparr>) k;
     Schedule ConsoleWriteDone 0 ConsoleTime ConsoleWriteInt k
   }"

subsection \<open>Network\<close>

definition Network_new :: "int \<Rightarrow> real \<Rightarrow> 'r K \<Rightarrow> 'r K option" where
  "Network_new addr reliability k = do {
     let chance = (if reliability < 0 then 0 else if reliability > 1 then 1 else reliability);
     let n = network (world k);
     let k = set_network (n\<lparr>ident := addr, chanceToWork := chance, sendBusy := False,
               inHdr := (inHdr n)\<lparr>pkt_length := 0\<rparr>\<rparr>) k;
     Schedule NetworkReadPoll 0 NetworkTime NetworkRecvInt k
   }"

text \<open>The header as it lies at the front of the wire buffer: three 32-bit fields.\<close>

definition encode_packet :: "PacketHeader \<Rightarrow> byte list" where
  "encode_packet h = int_bytes (to_machine h) @ int_bytes (from_machine h) @ le32 (of_nat (pkt_length h))"

definition decode_packet :: "byte list \<Rightarrow> PacketHeader" where
  "decode_packet bs = \<lparr>to_machine = bytes_int bs, from_machine = bytes_int (drop 4 bs),
     pkt_length = unat (unle32 (drop 8 bs))\<rparr>"

definition CheckPktAvail :: "(callback \<Rightarrow> 'r \<Rightarrow> 'r) \<Rightarrow> 'r K \<Rightarrow> 'r K option" where
  "CheckPktAvail notify k = do {
     k \<leftarrow> Schedule NetworkReadPoll 0 NetworkTime NetworkRecvInt k;
     let n = network (world k);
     if pkt_length (inHdr n) \<noteq> 0 then Some k
     else (case packets (host (world k)) of
         [] \<Rightarrow> Some k
       | None # ps \<Rightarrow> Some (set_host ((host (world k))\<lparr>packets := ps\<rparr>) k)
       | Some buffer # ps \<Rightarrow> do {
           let k = set_host ((host (world k))\<lparr>packets := ps\<rparr>) k;
           let hdr = decode_packet buffer;
           ASSERT (to_machine hdr = ident n \<and> pkt_length hdr \<le> MaxPacketSize);
           let data = take (pkt_length hdr) (drop 12 buffer);
           let k = set_network (n\<lparr>inHdr := hdr, inbox := data @ drop (pkt_length hdr) (inbox n)\<rparr>) k;
           let k = k\<lparr>stats := (stats k)\<lparr>numPacketsRecvd := numPacketsRecvd (stats k) + 1\<rparr>\<rparr>;
           Some (notify_kernel notify PacketAvail k)
         })
   }"

definition SendDone :: "(callback \<Rightarrow> 'r \<Rightarrow> 'r) \<Rightarrow> 'r K \<Rightarrow> 'r K option" where
  "SendDone notify k =
     (let k = set_network ((network (world k))\<lparr>sendBusy := False\<rparr>) k;
          k = k\<lparr>stats := (stats k)\<lparr>numPacketsSent := numPacketsSent (stats k) + 1\<rparr>\<rparr>
      in Some (notify_kernel notify PacketSent k))"

text \<open>\<open>Network::Send\<close>. The source never sets \<open>sendBusy\<close>.\<close>

definition Send :: "PacketHeader \<Rightarrow> byte list \<Rightarrow> 'r K \<Rightarrow> 'r K option" where
  "Send hdr data k = do {
     let n = network (world k);
     ASSERT (\<not> sendBusy n);
     ASSERT (pkt_length hdr > 0);
     ASSERT (pkt_length hdr \<le> MaxPacketSize);
     ASSERT (from_machine hdr = ident n);
     k \<leftarrow> Schedule NetworkSendDone 0 NetworkTime NetworkSendInt k;
     let (r, k) = Random k;
     if of_int (r smod 100) \<ge> chanceToWork n * 100 then Some k
     else do {
       ASSERT (pkt_length hdr \<le> length data);
       let buffer = encode_packet hdr @ take (pkt_length hdr) data
                     @ map (junk_bytes (host (world k))) [12 + pkt_length hdr..<MaxWireSize];
       Some (set_host ((host (world k))\<lparr>wire := wire (host (world k)) @ [(to_machine hdr, buffer)]\<rparr>) k)
     }
   }"

definition Receive :: "'r K \<Rightarrow> PacketHeader \<times> byte list \<times> 'r K" where
  "Receive k =
     (let n = network (world k); hdr = inHdr n
      in (hdr, take (pkt_length hdr) (inbox n), set_network (n\<lparr>inHdr := hdr\<lparr>pkt_length := 0\<rparr>\<rparr>) k))"

subsection \<open>All handlers\<close>

definition Disk_HandleInterrupt :: "(callback \<Rightarrow> 'r \<Rightarrow> 'r) \<Rightarrow> 'r K \<Rightarrow> 'r K option" where
  "Disk_HandleInterrupt notify k =
     Some (notify_kernel notify RequestDone (k\<lparr>world := (world k)\<lparr>hard_disk := HandleInterrupt (hard_disk (world k))\<rparr>\<rparr>))"

fun kernel_timer :: "(VoidFunctionPtr, 'r World) call" where
  "kernel_timer KernelTimerHandler a k = TimerInterruptHandler k"
| "kernel_timer _ a k = None"

definition Timer_interrupt :: "'r K \<Rightarrow> 'r K option" where
  "Timer_interrupt k =
     (let t = timer (world k); (r, k) = (if randomize t then Random k else (0, k))
      in TimerExpired kernel_timer TimerHandler t r k)"

fun device_call :: "(callback \<Rightarrow> 'r \<Rightarrow> 'r) \<Rightarrow> (VoidFunctionPtr, 'r World) call" where
  "device_call notify TimerHandler a k = Timer_interrupt k"
| "device_call notify DiskDone a k = Disk_HandleInterrupt notify k"
| "device_call notify ConsoleReadPoll a k = CheckCharAvail notify k"
| "device_call notify ConsoleWriteDone a k = Console_WriteDone notify k"
| "device_call notify NetworkReadPoll a k = CheckPktAvail notify k"
| "device_call notify NetworkSendDone a k = SendDone notify k"
| "device_call notify KernelTimerHandler a k = TimerInterruptHandler k"

section \<open>The handlers keep the contract of the interrupt simulation\<close>

definition packet_ok :: "int \<Rightarrow> byte list \<Rightarrow> bool" where
  "packet_ok self buffer \<longleftrightarrow> length buffer = MaxWireSize \<and> to_machine (decode_packet buffer) = self \<and>
     pkt_length (decode_packet buffer) \<le> MaxPacketSize"

text \<open>
  What is assumed of the host: \<open>rand\<close> is not negative, and only packets addressed to this machine, of
  at most the maximal length, arrive at its socket.
\<close>

definition devices_ok :: "'r World \<Rightarrow> bool" where
  "devices_ok w \<longleftrightarrow> (\<forall>r\<in>set (randoms (host w)). 0 \<le> r) \<and> timer_handler (timer w) = KernelTimerHandler \<and>
     (\<forall>b. Some b \<in> set (packets (host w)) \<longrightarrow> packet_ok (ident (network w)) b)"

named_theorems dev_defs \<open>updates of one part of the world\<close>

lemmas [dev_defs] = set_console_def set_network_def set_host_def notify_kernel_def

lemma handledI: "irq_wf k \<Longrightarrow> devices_ok w \<Longrightarrow> handled devices_ok k (k\<lparr>world := w\<rparr>)"
  by (simp add: handled_def)

lemma clock_counters [simp]:
  "same_clock s (s\<lparr>numConsoleCharsRead := n\<rparr>)" "same_clock s (s\<lparr>numConsoleCharsWritten := n\<rparr>)"
  "same_clock s (s\<lparr>numPacketsRecvd := n\<rparr>)" "same_clock s (s\<lparr>numPacketsSent := n\<rparr>)"
  by (simp_all add: same_clock_def)

lemma Random_ok:
  assumes "devices_ok (world k)"
  shows "\<exists>r w. Random k = (r, k\<lparr>world := w\<rparr>) \<and> 0 \<le> r \<and> devices_ok w"
proof (cases "randoms (host (world k))")
  case Nil
  then show ?thesis using assms by (auto simp: Random_def intro: exI [of _ "world k"])
next
  case (Cons r rs)
  then show ?thesis using assms by (auto simp: Random_def devices_ok_def)
qed

lemmas Schedule_dev = Schedule_handled [where good = devices_ok]

lemma Timer_interrupt_ok:
  assumes "irq_wf k" "devices_ok (world k)" "inHandler k"
  shows "\<exists>k'. Timer_interrupt k = Some k' \<and> handled devices_ok k k'"
proof -
  let ?t = "timer (world k)"
  obtain r w where rk: "(if randomize ?t then Random k else (0, k)) = (r, k\<lparr>world := w\<rparr>)"
      and r: "0 \<le> r" "devices_ok w"
  proof (cases "randomize ?t")
    case True
    then show thesis using Random_ok [OF assms(2)] that by auto
  next
    case False
    then show thesis using that [of 0 "world k"] assms(2) by simp
  qed
  define k1 where "k1 = k\<lparr>world := w\<rparr>"
  have k1: "irq_wf k1" "inHandler k1" "handled devices_ok k k1" "devices_ok (world k1)"
    using assms handledI [OF assms(1) r(2)] r(2) by (simp_all add: k1_def)
  have t: "timer_handler ?t = KernelTimerHandler" using assms(2) by (simp add: devices_ok_def)
  have pos: "0 < TimeOfNextInterrupt ?t r" using TimeOfNextInterrupt_pos [OF r(1), of ?t] by simp
  obtain k2 where k2: "Schedule TimerHandler 0 (TimeOfNextInterrupt ?t r) TimerInt k1 = Some k2"
      "handled devices_ok k1 k2" "k2 = k1\<lparr>pending_ints := pending_ints k2\<rparr>"
    by (rule Schedule_dev [OF k1(1,4) pos])
  have in2: "inHandler k2" using k1(2) by (subst k2(3)) simp
  have h: "handled devices_ok k k2" using handled_trans [OF k1(3) k2(2)] .
  then have "\<exists>k'. TimerInterruptHandler k2 = Some k' \<and> handled devices_ok k k'"
    using in2 by (auto simp: TimerInterruptHandler_def YieldOnReturn_def handled_def)
  then show ?thesis
    using k2(1) rk t by (simp add: Timer_interrupt_def TimerExpired_def k1_def)
qed

lemma CheckCharAvail_ok:
  assumes "irq_wf k" "devices_ok (world k)"
  shows "\<exists>k'. CheckCharAvail notify k = Some k' \<and> handled devices_ok k k'"
proof -
  obtain k1 where k1: "Schedule ConsoleReadPoll 0 ConsoleTime ConsoleReadInt k = Some k1" "handled devices_ok k k1"
    by (rule Schedule_dev [OF assms, of 100 ConsoleReadPoll 0 ConsoleReadInt]) simp_all
  have wf: "irq_wf k1" "devices_ok (world k1)" using k1(2) by (simp_all add: handled_def)
  have "\<exists>k'. CheckCharAvail notify k = Some k' \<and> handled devices_ok k1 k'"
    using k1(1) wf
    by (auto simp: CheckCharAvail_def dev_defs Let_def handled_def devices_ok_def due_def
        split: list.splits key_event.splits)
  then show ?thesis using handled_trans [OF k1(2)] by blast
qed

lemma CheckPktAvail_ok:
  assumes "irq_wf k" "devices_ok (world k)"
  shows "\<exists>k'. CheckPktAvail notify k = Some k' \<and> handled devices_ok k k'"
proof -
  obtain k1 where k1: "Schedule NetworkReadPoll 0 NetworkTime NetworkRecvInt k = Some k1" "handled devices_ok k k1"
    by (rule Schedule_dev [OF assms, of 100 NetworkReadPoll 0 NetworkRecvInt]) simp_all
  have wf: "irq_wf k1" "devices_ok (world k1)" using k1(2) by (simp_all add: handled_def)
  have "\<exists>k'. CheckPktAvail notify k = Some k' \<and> handled devices_ok k1 k'"
    using k1(1) wf
    by (auto simp: CheckPktAvail_def dev_defs Let_def handled_def devices_ok_def packet_ok_def due_def ASSERT_def
        split: list.splits option.splits)
  then show ?thesis using handled_trans [OF k1(2)] by blast
qed

lemma device_call_ok:
  assumes "irq_wf k" "devices_ok (world k)" "inHandler k"
  shows "\<exists>k'. device_call notify f a k = Some k' \<and> handled devices_ok k k'"
proof (cases f)
  case TimerHandler
  then show ?thesis using Timer_interrupt_ok [OF assms] by simp
next
  case ConsoleReadPoll
  then show ?thesis using CheckCharAvail_ok [OF assms(1,2)] by simp
next
  case NetworkReadPoll
  then show ?thesis using CheckPktAvail_ok [OF assms(1,2)] by simp
qed (use assms in \<open>auto simp: Disk_HandleInterrupt_def Console_WriteDone_def SendDone_def TimerInterruptHandler_def
       YieldOnReturn_def dev_defs handled_def devices_ok_def due_def Let_def\<close>)

interpretation devices: interrupt_handlers "device_call notify" devices_ok
  for notify :: "callback \<Rightarrow> 'r \<Rightarrow> 'r"
  by unfold_locales (rule device_call_ok)

section \<open>Properties\<close>

text \<open>A machine with a given number, before anything is scheduled.\<close>

definition idle_host :: Host where
  "idle_host = \<lparr>keys = [], packets = [], randoms = [], junk_bytes = (\<lambda>_. 0), display = [], wire = []\<rparr>"

definition quiet_world :: "int \<Rightarrow> nat World" where
  "quiet_world addr = \<lparr>console = \<lparr>putBusy = False, incoming = EOF\<rparr>,
     network = \<lparr>ident = addr, chanceToWork = 1, sendBusy = False,
       inHdr = \<lparr>to_machine = 0, from_machine = 0, pkt_length = 0\<rparr>, inbox = replicate MaxPacketSize 0\<rparr>,
     hard_disk = Disk_new (\<lambda>_. []), timer = \<lparr>randomize = True, timer_handler = KernelTimerHandler, timer_arg = 0\<rparr>,
     host = idle_host, others = 0\<rparr>"

definition quiet_kernel :: "int \<Rightarrow> nat K" where
  "quiet_kernel addr = Interrupt_new None (quiet_world addr)"

lemma quiet_kernel_ok [simp]:
  "irq_wf (quiet_kernel a)" "devices_ok (world (quiet_kernel a))" "machine_ok (machine (quiet_kernel a))"
  "mode (quiet_kernel a) = SystemMode" "level (quiet_kernel a) = IntOff" "pending_ints (quiet_kernel a) = []"
  "now (quiet_kernel a) = 0" "machine (quiet_kernel a) = None" "world (quiet_kernel a) = quiet_world a"
  "devices_ok (quiet_world a)"
  by (simp_all add: quiet_kernel_def Interrupt_new_def irq_wf_def quiet_world_def idle_host_def devices_ok_def
      machine_ok_def Statistics_new_def)

lemma machine_ok_None [simp]: "machine_ok None"
  by (simp add: machine_ok_def)

lemma advance_simps:
  "now (advance k) = now k + (if mode k = SystemMode then SystemTick else UserTick)"
  "ticks_ok (stats (advance k)) = ticks_ok (stats k)" "mode (advance k) = mode k"
  by (auto simp: advance_def ticks_ok_def)

text \<open>
  C30. A tick fires what is due. \<open>OneTick\<close>, called outside of idle mode with the timer, the disk, the console
  and the network behind the interrupts, returns: it advances the clock by 10 ticks in kernel mode and by 1
  otherwise, fires exactly the interrupts whose time has come by then, each once and in the order of their
  times, and leaves none that is due; time stays fully accounted for. An interrupt that is not due goes back
  into the list, and a context switch follows if and only if a handler asked for it.
\<close>

theorem tick_fires_due:
  fixes notify :: "callback \<Rightarrow> 'r \<Rightarrow> 'r"
  assumes "irq_wf k" "devices_ok (world k)" "machine_ok (machine k)" "mode k \<noteq> IdleMode"
  shows "\<exists>k1. fire_seq (device_call notify) (map fst (due (advance k))) (ChangeLevel IntOff (advance k)) = Some k1 \<and>
     due k1 = [] \<and> irq_wf k1 \<and> now k1 = now k + (if mode k = SystemMode then SystemTick else UserTick) \<and>
     ticks_ok (stats k1) = ticks_ok (stats k) \<and>
     OneTick (device_call notify) yield k =
       (let k2 = (requeue k1)\<lparr>level := IntOn\<rparr> in
        if yieldOnReturn k1
        then map_option (\<lambda>k'. k'\<lparr>mode := mode k\<rparr>) (yield (k2\<lparr>yieldOnReturn := False, mode := SystemMode\<rparr>))
        else Some k2)"
proof -
  obtain k1 where k1: "fire_seq (device_call notify) (map fst (due (advance k))) (ChangeLevel IntOff (advance k)) = Some k1"
    "due k1 = []" "same_clock (stats (advance k)) (stats k1)" "dispatchable devices_ok k1"
    "OneTick (device_call notify) yield k =
       (let k2 = (requeue k1)\<lparr>level := IntOn\<rparr> in
        if yieldOnReturn k1
        then map_option (\<lambda>k'. k'\<lparr>mode := mode k\<rparr>) (yield (k2\<lparr>yieldOnReturn := False, mode := SystemMode\<rparr>))
        else Some k2)"
    using devices.OneTick_eq [where yield = yield, OF assms] by blast
  moreover have "now k1 = now k + (if mode k = SystemMode then SystemTick else UserTick)" "irq_wf k1"
    "ticks_ok (stats k1) = ticks_ok (stats k)"
    using k1(3,4) same_clock_ticks [OF k1(3)] by (simp_all add: same_clock_def dispatchable_def advance_simps)
  ultimately show ?thesis by blast
qed

theorem tick_fires_due_witness:
  "\<exists>k1. fire_seq (device_call (\<lambda>_. Suc)) [\<lparr>handler_fn = ConsoleReadPoll, handler_arg = 0, due_at = 10, int_type = ConsoleReadInt\<rparr>]
       (ChangeLevel IntOff (advance ((quiet_kernel 1)\<lparr>pending_ints :=
          [(\<lparr>handler_fn = ConsoleReadPoll, handler_arg = 0, due_at = 10, int_type = ConsoleReadInt\<rparr>, 10)]\<rparr>))) = Some k1 \<and>
     due k1 = [] \<and> now k1 = 10"
proof -
  let ?p = "\<lparr>handler_fn = ConsoleReadPoll, handler_arg = 0, due_at = 10, int_type = ConsoleReadInt\<rparr>"
  let ?k = "(quiet_kernel 1)\<lparr>pending_ints := [(?p, 10)]\<rparr>"
  have "irq_wf ?k" by (simp add: irq_wf_def)
  moreover have "map fst (due (advance ?k)) = [?p]" by (simp add: due_def advance_def)
  ultimately show ?thesis
    using tick_fires_due [of ?k "\<lambda>_. Suc" Some] by auto
qed

text \<open>
  Idling waits for the next interrupt. \<open>Idle\<close>, called with interrupts off when no thread is ready, always
  comes to an end. If anything but a lone timer interrupt is pending, it moves the clock to the time of the
  earliest interrupt (never back), charges the difference to the idle time only, fires it and returns, with
  no interrupt left that is due, except for a lone timer interrupt. Otherwise it halts the machine.
\<close>

lemma idle_waits_for_next:
  fixes notify :: "callback \<Rightarrow> 'r \<Rightarrow> 'r"
  assumes "level k = IntOff" "irq_wf k" "devices_ok (world k)" "machine_ok (machine k)"
  shows "if pending_ints k = [] \<or> (\<exists>p w. pending_ints k = [(p, w)] \<and> int_type p = TimerInt)
     then \<exists>k'. Interrupt.Idle (device_call notify) k = Some (Halts k')
     else \<exists>k'. Interrupt.Idle (device_call notify) k = Some (Returns k') \<and> now k' = max (now k) (snd (hd (pending_ints k))) \<and>
       idleTicks (stats k') = idleTicks (stats k) + (now k' - now k) \<and>
       systemTicks (stats k') = systemTicks (stats k) \<and> userTicks (stats k') = userTicks (stats k) \<and>
       irq_wf k' \<and> devices_ok (world k') \<and>
       (due k' = [] \<or> (\<exists>p w. pending_ints k' = [(p, w)] \<and> int_type p = TimerInt))"
proof (cases "pending_ints k = [] \<or> (\<exists>p w. pending_ints k = [(p, w)] \<and> int_type p = TimerInt)")
  case True
  then show ?thesis using Idle_halts [OF assms(1), of "device_call notify"] by auto
next
  case False
  then obtain p w rest where p: "pending_ints k = (p, w) # rest" "\<not> (int_type p = TimerInt \<and> rest = [])"
    by (metis (full_types) list.exhaust surj_pair)
  have "\<exists>k'. Interrupt.Idle (device_call notify) k = Some (Returns k') \<and> now k' = max (now k) w \<and>
     idleTicks (stats k') = idleTicks (stats k) + (now k' - now k) \<and>
     systemTicks (stats k') = systemTicks (stats k) \<and> userTicks (stats k') = userTicks (stats k) \<and>
     irq_wf k' \<and> devices_ok (world k') \<and>
     (due k' = [] \<or> (\<exists>p w. pending_ints k' = [(p, w)] \<and> int_type p = TimerInt))"
    using devices.Idle_returns [OF assms p] by blast
  then show ?thesis unfolding if_not_P [OF False] by (simp add: p(1))
qed

lemma decode_encode_packet:
  assumes "is_int32 (to_machine h)" "is_int32 (from_machine h)" "pkt_length h \<le> MaxPacketSize"
  shows "decode_packet (encode_packet h @ bs) = h"
proof -
  have "unat (of_nat (pkt_length h) :: u32) = pkt_length h"
    using assms(3) by (simp add: unat_of_nat take_bit_nat_eq_self)
  then show ?thesis
    using assms bytes_int_bytes [of "to_machine h"] bytes_int_bytes [of "from_machine h"]
    by (simp add: decode_packet_def encode_packet_def drop_append)
qed

lemma length_encode_packet [simp]: "length (encode_packet h) = 12"
  by (simp add: encode_packet_def)

text \<open>
  Packets arrive as they were sent. If \<open>Send\<close> is called with a header of this machine and 1 to 52 bytes of
  data, and the network does not drop the packet, one buffer of 64 bytes goes to the addressed machine's
  socket; when that machine, with an empty inbox, polls the buffer from its socket, \<open>CheckPktAvail\<close> accepts it
  and \<open>Receive\<close> then returns the header and exactly the data sent, and empties the inbox.
\<close>

lemma packet_roundtrip:
  fixes k :: "'r K" and notify :: "callback \<Rightarrow> 's \<Rightarrow> 's" and q :: "'s K"
  assumes "\<not> sendBusy (network (world k))" "from_machine hdr = ident (network (world k))"
    and len: "0 < pkt_length hdr" "pkt_length hdr \<le> MaxPacketSize" "pkt_length hdr \<le> length data"
    and i32: "is_int32 (to_machine hdr)" "is_int32 (from_machine hdr)"
    and kept: "of_int (fst (Random k) smod 100) < chanceToWork (network (world k)) * 100"
    and q: "ident (network (world q)) = to_machine hdr" "pkt_length (inHdr (network (world q))) = 0"
  shows "\<exists>k' buffer. Send hdr data k = Some k' \<and>
     wire (host (world k')) = wire (host (world k)) @ [(to_machine hdr, buffer)] \<and> packet_ok (to_machine hdr) buffer \<and>
     (packets (host (world q)) = Some buffer # ps \<longrightarrow>
       (\<exists>q' q''. CheckPktAvail notify q = Some q' \<and> Receive q' = (hdr, take (pkt_length hdr) data, q'') \<and>
          pkt_length (inHdr (network (world q''))) = 0 \<and> packets (host (world q'')) = ps))"
proof -
  define buffer where "buffer = encode_packet hdr @ take (pkt_length hdr) data
      @ map (junk_bytes (host (world k))) [12 + pkt_length hdr..<MaxWireSize]"
  have dec: "decode_packet buffer = hdr"
    unfolding buffer_def using i32 len(2) by (rule decode_encode_packet)
  have dat: "take (pkt_length hdr) (drop 12 buffer) = take (pkt_length hdr) data"
    using len(3) by (simp add: buffer_def)
  have lb: "length buffer = MaxWireSize" using len by (simp add: buffer_def)
  have send: "\<exists>k'. Send hdr data k = Some k' \<and>
      wire (host (world k')) = wire (host (world k)) @ [(to_machine hdr, buffer)]"
    using assms(1-5) kept
    by (auto simp: Send_def Schedule_def Random_def Let_def set_host_def buffer_def split: list.splits)
  have recv: "\<exists>q' q''. CheckPktAvail notify q = Some q' \<and> Receive q' = (hdr, take (pkt_length hdr) data, q'') \<and>
          pkt_length (inHdr (network (world q''))) = 0 \<and> packets (host (world q'')) = ps"
    if "packets (host (world q)) = Some buffer # ps"
    using that q len dec dat
    by (simp add: CheckPktAvail_def Receive_def Schedule_def Let_def dev_defs)
  have "packet_ok (to_machine hdr) buffer" using dec lb len(2) by (simp add: packet_ok_def)
  then show ?thesis using send recv by blast
qed

text \<open>A packet that is not for this machine, or claims to be too long, stops the kernel of the receiver.\<close>

lemma bad_packet_aborts:
  assumes "packets (host (world k)) = Some buffer # ps" "pkt_length (inHdr (network (world k))) = 0"
    and "\<not> packet_ok (ident (network (world k))) buffer" "length buffer = MaxWireSize"
  shows "CheckPktAvail notify k = None"
  using assms by (auto simp: CheckPktAvail_def Schedule_def Let_def set_host_def packet_ok_def)

text \<open>A handler never sees idle mode, so that the test of \<open>TimerInterruptHandler\<close> always asks for a context switch.\<close>

lemma timer_always_yields:
  "fire (device_call notify) p k = Some k' \<Longrightarrow> handler_fn p = KernelTimerHandler \<Longrightarrow> yieldOnReturn k'"
  by (auto simp: fire_def TimerInterruptHandler_def YieldOnReturn_def bind_Some_iff split: option.splits if_splits)

text \<open>Putting an interrupt back that is not due moves it behind others of the same time.\<close>

lemma put_back_reorders:
  assumes "level k = IntOff" "pending_ints k = [(p, w), (p', w)]" "w > now k"
  shows "\<exists>k'. CheckIfDue call False k = Some (False, k') \<and> pending_ints k' = [(p', w), (p, w)]"
  using assms by (simp add: CheckIfDue_def)

end
