(* ===== verification/Threads.thy ===== *)
theory Threads
  imports Bitmap
begin

text \<open>
  Kernel threads, the scheduler and the synchronization primitives: src/code/threads/thread.cc, thread.h,
  scheduler.cc, synch.cc and synch.h.

  The kernel runs on one processor and disables interrupts inside every primitive, so that a primitive
  runs until it returns or gives up the processor in \<open>Thread::Sleep\<close> or \<open>Thread::Yield\<close>. A thread that
  has given up the processor inside a primitive continues there when it is dispatched again; what it has
  left to do is its stack of \<open>frame\<close>s, and \<open>resume\<close> executes it. \<open>In_P i\<close> is the top of the loop of
  \<open>Semaphore::P\<close>, \<open>In_Acquire l\<close> the rest of \<open>Lock::Acquire\<close> after \<open>P\<close>, \<open>In_Wait c l\<close> the rest of
  \<open>Condition::Wait\<close> after \<open>Sleep\<close>. An empty stack means that the thread runs its own code.

  The lists of threads (ready list, queues) are kept as sequences, the view of the linked list that
  \<open>LinkedList\<close> justifies. A thread that sleeps while no other is ready leaves the kernel idling, until the
  handler of an interrupt makes a thread ready. Stacks, the assembly routine \<open>SWITCH\<close> and the user
  registers of a thread are not part of this theory.
\<close>

section \<open>Model\<close>

datatype ThreadStatus = JUST_CREATED | RUNNING | READY | BLOCKED

text \<open>Every lock has a semaphore of its own.\<close>

datatype semid = Sem nat | LockSem nat

datatype frame = In_P semid | In_Acquire nat | In_Wait nat nat

record Thread =
  threadId :: int
  tstatus :: ThreadStatus
  frames :: "frame list"

record Semaphore =
  sem_value :: int
  sem_queue :: "nat list"

record Sys =
  currentThread :: nat
  idling :: bool
  threads :: "nat \<rightharpoonup> Thread"
  readyList :: "nat list"
  sems :: "semid \<Rightarrow> Semaphore"
  lockOwner :: "nat \<Rightarrow> int"
  waitQueue :: "nat \<Rightarrow> nat list"
  threadToBeDestroyed :: "nat option"
  tidMap :: BitMap
  lastId :: int

definition upd_thread :: "nat \<Rightarrow> (Thread \<Rightarrow> Thread) \<Rightarrow> Sys \<Rightarrow> Sys" where
  "upd_thread t f s = s\<lparr>threads := (threads s)(t := map_option f (threads s t))\<rparr>"

definition setStatus :: "nat \<Rightarrow> ThreadStatus \<Rightarrow> Sys \<Rightarrow> Sys" where
  "setStatus t st s = upd_thread t (\<lambda>th. th\<lparr>tstatus := st\<rparr>) s"

definition set_frames :: "frame list \<Rightarrow> Sys \<Rightarrow> Sys" where
  "set_frames fs s = upd_thread (currentThread s) (\<lambda>th. th\<lparr>frames := fs\<rparr>) s"

definition frames_of :: "Sys \<Rightarrow> nat \<Rightarrow> frame list" where
  "frames_of s t = (case threads s t of None \<Rightarrow> [] | Some th \<Rightarrow> frames th)"

definition GetThreadId :: "Sys \<Rightarrow> nat \<Rightarrow> int option" where
  "GetThreadId s t = map_option threadId (threads s t)"

definition set_sem :: "semid \<Rightarrow> Semaphore \<Rightarrow> Sys \<Rightarrow> Sys" where
  "set_sem i x s = s\<lparr>sems := (sems s)(i := x)\<rparr>"

subsection \<open>Scheduler\<close>

definition ReadyToRun :: "nat \<Rightarrow> Sys \<Rightarrow> Sys" where
  "ReadyToRun t s = (let s = setStatus t READY s in s\<lparr>readyList := readyList s @ [t]\<rparr>)"

definition FindNextToRun :: "Sys \<Rightarrow> nat option \<times> Sys" where
  "FindNextToRun s = (case readyList s of [] \<Rightarrow> (None, s) | t # ts \<Rightarrow> (Some t, s\<lparr>readyList := ts\<rparr>))"

text \<open>\<open>Scheduler::Run\<close>, including what the next thread does first: it deletes a finished thread.\<close>

definition Run :: "nat \<Rightarrow> Sys \<Rightarrow> Sys option" where
  "Run nextThread s = do {
     let s = setStatus nextThread RUNNING (s\<lparr>currentThread := nextThread, idling := False\<rparr>);
     case threadToBeDestroyed s of
       None \<Rightarrow> Some s
     | Some d \<Rightarrow> do {
         ASSERT (d \<noteq> currentThread s);
         Some (s\<lparr>threads := (threads s)(d := None), threadToBeDestroyed := None\<rparr>)
       }
   }"

subsection \<open>Thread\<close>

definition GetNewThreadId :: "Sys \<Rightarrow> (int \<times> Sys) option" where
  "GetNewThreadId s = do {
     (tid, m) \<leftarrow> BitMap_FindStart (tidMap s) (lastId s);
     Some (tid, s\<lparr>tidMap := m, lastId := tid + 1\<rparr>)
   }"

text \<open>The constructor; the address \<open>t\<close> of the new object is the one that \<open>new\<close> returned.\<close>

definition Thread_new :: "nat \<Rightarrow> Sys \<Rightarrow> Sys option" where
  "Thread_new t s = do {
     (tid, s) \<leftarrow> GetNewThreadId s;
     Some (s\<lparr>threads := (threads s)(t \<mapsto> \<lparr>threadId = tid, tstatus = JUST_CREATED, frames = []\<rparr>)\<rparr>)
   }"

definition Fork :: "nat \<Rightarrow> Sys \<Rightarrow> Sys" where
  "Fork t s = ReadyToRun t s"

text \<open>The loop of \<open>Sleep\<close> and the switch: without a ready thread the kernel idles.\<close>

definition dispatch :: "Sys \<Rightarrow> Sys option" where
  "dispatch s = (case FindNextToRun s of (None, s) \<Rightarrow> Some (s\<lparr>idling := True\<rparr>) | (Some n, s) \<Rightarrow> Run n s)"

definition Sleep :: "Sys \<Rightarrow> Sys option" where
  "Sleep s = dispatch (setStatus (currentThread s) BLOCKED s)"

definition Yield :: "Sys \<Rightarrow> Sys option" where
  "Yield s = (case FindNextToRun s of
       (None, s) \<Rightarrow> Some s
     | (Some n, s) \<Rightarrow> Run n (ReadyToRun (currentThread s) s))"

definition Finish :: "Sys \<Rightarrow> Sys option" where
  "Finish s = do {
     ASSERT (threadToBeDestroyed s = None);
     Sleep (s\<lparr>threadToBeDestroyed := Some (currentThread s)\<rparr>)
   }"

subsection \<open>Continuing inside a primitive\<close>

definition enqueue_sem :: "semid \<Rightarrow> Sys \<Rightarrow> Sys" where
  "enqueue_sem i s = set_sem i ((sems s i)\<lparr>sem_queue := sem_queue (sems s i) @ [currentThread s]\<rparr>) s"

definition take_sem :: "semid \<Rightarrow> Sys \<Rightarrow> Sys" where
  "take_sem i s = set_sem i ((sems s i)\<lparr>sem_value := sem_value (sems s i) - 1\<rparr>) s"

fun frame_weight :: "frame list \<Rightarrow> nat" where
  "frame_weight [] = 0"
| "frame_weight (In_Wait c l # fs) = 3 + frame_weight fs"
| "frame_weight (_ # fs) = 1 + frame_weight fs"

lemma set_frames_simps [simp]:
  "readyList (set_frames fs s) = readyList s" "idling (set_frames fs s) = idling s"
  "currentThread (set_frames fs s) = currentThread s" "sems (set_frames fs s) = sems s"
  "lockOwner (set_frames fs s) = lockOwner s" "waitQueue (set_frames fs s) = waitQueue s"
  "threadToBeDestroyed (set_frames fs s) = threadToBeDestroyed s"
  by (simp_all add: set_frames_def upd_thread_def)

lemma sem_upd_simps [simp]:
  "readyList (set_sem i x s) = readyList s" "idling (set_sem i x s) = idling s"
  "currentThread (set_sem i x s) = currentThread s" "threads (set_sem i x s) = threads s"
  "lockOwner (set_sem i x s) = lockOwner s" "waitQueue (set_sem i x s) = waitQueue s"
  "threadToBeDestroyed (set_sem i x s) = threadToBeDestroyed s" "sems (set_sem i x s) = (sems s)(i := x)"
  "tidMap (set_sem i x s) = tidMap s" "lastId (set_sem i x s) = lastId s"
  by (simp_all add: set_sem_def)

lemma frames_of_set_frames [simp]:
  "frames_of (set_frames fs s) (currentThread s) = (if threads s (currentThread s) = None then [] else fs)"
  by (auto simp: frames_of_def set_frames_def upd_thread_def)

lemma dispatch_ready:
  assumes "dispatch s = Some s'"
  shows "readyList s = [] \<and> idling s' \<and> readyList s' = [] \<or>
    (\<exists>t ts. readyList s = t # ts \<and> readyList s' = ts \<and> \<not> idling s' \<and> currentThread s' = t)"
  using assms
  by (auto simp: dispatch_def FindNextToRun_def Run_def setStatus_def upd_thread_def Let_def
      split: list.splits option.splits)

lemma setStatus_simps [simp]:
  "readyList (setStatus t st s) = readyList s" "idling (setStatus t st s) = idling s"
  "currentThread (setStatus t st s) = currentThread s" "sems (setStatus t st s) = sems s"
  "lockOwner (setStatus t st s) = lockOwner s" "waitQueue (setStatus t st s) = waitQueue s"
  "threadToBeDestroyed (setStatus t st s) = threadToBeDestroyed s"
  by (simp_all add: setStatus_def upd_thread_def)

function resume :: "Sys \<Rightarrow> Sys option" where
  "resume s =
     (if idling s then Some s
      else case frames_of s (currentThread s) of
        [] \<Rightarrow> Some s
      | In_P i # fs \<Rightarrow>
          if sem_value (sems s i) = 0 then do { s' \<leftarrow> Sleep (enqueue_sem i s); resume s' }
          else resume (set_frames fs (take_sem i s))
      | In_Acquire l # fs \<Rightarrow> do {
          tid \<leftarrow> GetThreadId s (currentThread s);
          resume (set_frames fs (s\<lparr>lockOwner := (lockOwner s)(l := tid)\<rparr>))
        }
      | In_Wait c l # fs \<Rightarrow> resume (set_frames (In_P (LockSem l) # In_Acquire l # fs) s))"
  by pat_completeness auto

termination
proof (relation "measures [\<lambda>s. length (readyList s) + (if idling s then 0 else 1),
    \<lambda>s. frame_weight (frames_of s (currentThread s))]", goal_cases)
  case (2 s f fs i s')
  then show ?case
    using dispatch_ready [of "setStatus (currentThread s) BLOCKED (enqueue_sem i s)" s']
    by (auto simp: Sleep_def enqueue_sem_def)
next
  case (3 s f fs i)
  then show ?case
    by (auto simp: take_sem_def frames_of_def set_frames_def upd_thread_def split: option.splits)
next
  case (4 s f fs l tid)
  then show ?case by (auto simp: frames_of_def set_frames_def upd_thread_def split: option.splits)
next
  case (5 s f fs c l)
  then show ?case by (auto simp: frames_of_def set_frames_def upd_thread_def split: option.splits)
qed auto

declare resume.simps [simp del]

subsection \<open>Semaphores, locks and conditions\<close>

definition push :: "frame list \<Rightarrow> Sys \<Rightarrow> Sys" where
  "push fs s = set_frames (fs @ frames_of s (currentThread s)) s"

definition Semaphore_new :: "int \<Rightarrow> Semaphore" where
  "Semaphore_new initialValue = \<lparr>sem_value = initialValue, sem_queue = []\<rparr>"

definition P :: "semid \<Rightarrow> Sys \<Rightarrow> Sys option" where
  "P i s = resume (push [In_P i] s)"

definition V :: "semid \<Rightarrow> Sys \<Rightarrow> Sys" where
  "V i s = (case sem_queue (sems s i) of
       [] \<Rightarrow> set_sem i ((sems s i)\<lparr>sem_value := sem_value (sems s i) + 1\<rparr>) s
     | t # ts \<Rightarrow> ReadyToRun t (set_sem i \<lparr>sem_value = sem_value (sems s i) + 1, sem_queue = ts\<rparr> s))"

definition Acquire :: "nat \<Rightarrow> Sys \<Rightarrow> Sys option" where
  "Acquire l s = resume (push [In_P (LockSem l), In_Acquire l] s)"

definition isHeldByCurrentThread :: "nat \<Rightarrow> Sys \<Rightarrow> bool" where
  "isHeldByCurrentThread l s \<longleftrightarrow> GetThreadId s (currentThread s) = Some (lockOwner s l)"

definition Release :: "nat \<Rightarrow> Sys \<Rightarrow> Sys option" where
  "Release l s = do {
     ASSERT (isHeldByCurrentThread l s);
     Some (V (LockSem l) (s\<lparr>lockOwner := (lockOwner s)(l := - 1)\<rparr>))
   }"

definition Wait :: "nat \<Rightarrow> nat \<Rightarrow> Sys \<Rightarrow> Sys option" where
  "Wait c conditionLock s = do {
     ASSERT (isHeldByCurrentThread conditionLock s);
     let s = s\<lparr>waitQueue := (waitQueue s)(c := waitQueue s c @ [currentThread s])\<rparr>;
     s \<leftarrow> Release conditionLock s;
     s \<leftarrow> Sleep (push [In_Wait c conditionLock] s);
     resume s
   }"

definition Signal :: "nat \<Rightarrow> nat \<Rightarrow> Sys \<Rightarrow> Sys option" where
  "Signal c conditionLock s = do {
     ASSERT (isHeldByCurrentThread conditionLock s);
     Some (case waitQueue s c of [] \<Rightarrow> s
       | t # ts \<Rightarrow> ReadyToRun t (s\<lparr>waitQueue := (waitQueue s)(c := ts)\<rparr>))
   }"

fun wake_all :: "nat list \<Rightarrow> Sys \<Rightarrow> Sys" where
  "wake_all [] s = s"
| "wake_all (t # ts) s = wake_all ts (ReadyToRun t s)"

definition Broadcast :: "nat \<Rightarrow> nat \<Rightarrow> Sys \<Rightarrow> Sys option" where
  "Broadcast c conditionLock s = do {
     ASSERT (isHeldByCurrentThread conditionLock s);
     Some (wake_all (waitQueue s c) (s\<lparr>waitQueue := (waitQueue s)(c := [])\<rparr>))
   }"

subsection \<open>Runs of the kernel\<close>

text \<open>
  What can happen: the running thread calls a primitive (\<open>by_thread\<close>), or the handler of a device calls
  \<open>V\<close>, while a thread is running or while the kernel idles inside \<open>Sleep\<close>. Semaphores of locks are used
  by locks only. A thread is created at an address that is free.
\<close>

datatype kcall = Call_P nat | Call_V nat | Call_Acquire nat | Call_Release nat | Call_Wait nat nat | Call_Signal nat nat
  | Call_Broadcast nat nat | Call_Yield | Call_Fork nat | Call_Finish

fun kernel_call :: "kcall \<Rightarrow> Sys \<Rightarrow> Sys option" where
  "kernel_call (Call_P n) s = P (Sem n) s"
| "kernel_call (Call_V n) s = Some (V (Sem n) s)"
| "kernel_call (Call_Acquire l) s = Acquire l s"
| "kernel_call (Call_Release l) s = Release l s"
| "kernel_call (Call_Wait c l) s = Wait c l s"
| "kernel_call (Call_Signal c l) s = Signal c l s"
| "kernel_call (Call_Broadcast c l) s = Broadcast c l s"
| "kernel_call Call_Yield s = do { s \<leftarrow> Yield s; resume s }"
| "kernel_call (Call_Fork t) s = do { s \<leftarrow> Thread_new t s; Some (Fork t s) }"
| "kernel_call Call_Finish s = do { s \<leftarrow> Finish s; resume s }"

definition interrupt_V :: "nat \<Rightarrow> Sys \<Rightarrow> Sys option" where
  "interrupt_V n s = (let s = V (Sem n) s in if idling s then do { s \<leftarrow> dispatch s; resume s } else Some s)"

fun call_ok :: "kcall \<Rightarrow> Sys \<Rightarrow> bool" where
  "call_ok (Call_Fork t) s \<longleftrightarrow> threads s t = None \<and> marked (tidMap s) \<noteq> {0..<numBits (tidMap s)}"
| "call_ok (Call_Release l) s \<longleftrightarrow> isHeldByCurrentThread l s"
| "call_ok (Call_Wait c l) s \<longleftrightarrow> isHeldByCurrentThread l s"
| "call_ok (Call_Signal c l) s \<longleftrightarrow> isHeldByCurrentThread l s"
| "call_ok (Call_Broadcast c l) s \<longleftrightarrow> isHeldByCurrentThread l s"
| "call_ok _ s \<longleftrightarrow> True"

inductive kstep :: "Sys \<Rightarrow> Sys \<Rightarrow> bool" where
  by_thread: "\<not> idling s \<Longrightarrow> call_ok c s \<Longrightarrow> kernel_call c s = Some s' \<Longrightarrow> kstep s s'"
| by_interrupt: "interrupt_V n s = Some s' \<Longrightarrow> kstep s s'"

text \<open>
  The kernel after \<open>Initialize\<close>: the main thread has drawn the first id and runs. The initial values of the
  semaphores are \<open>init\<close>.
\<close>

definition boot :: "(nat \<Rightarrow> u32) \<Rightarrow> nat \<Rightarrow> (nat \<Rightarrow> int) \<Rightarrow> nat \<Rightarrow> Sys option" where
  "boot heap maxThreads init main = do {
     m \<leftarrow> BitMap_new heap (int maxThreads);
     s \<leftarrow> Thread_new main \<lparr>currentThread = main, idling = False, threads = Map.empty, readyList = [],
        sems = (\<lambda>i. Semaphore_new (case i of Sem n \<Rightarrow> init n | LockSem l \<Rightarrow> 1)), lockOwner = (\<lambda>l. - 1),
        waitQueue = (\<lambda>c. []), threadToBeDestroyed = None, tidMap = m, lastId = 0\<rparr>;
     Some (setStatus main RUNNING s)
   }"

inductive kreachable :: "Sys \<Rightarrow> Sys \<Rightarrow> bool" where
  start: "kreachable s s"
| step: "kreachable s s' \<Longrightarrow> kstep s' s'' \<Longrightarrow> kreachable s s''"

section \<open>The invariant of the threads\<close>

definition status_of :: "Sys \<Rightarrow> nat \<Rightarrow> ThreadStatus option" where
  "status_of s t = map_option tstatus (threads s t)"

text \<open>The stacks that occur: a thread is suspended inside at most one primitive.\<close>

fun shape :: "frame list \<Rightarrow> bool" where
  "shape [] \<longleftrightarrow> True"
| "shape [In_P (Sem n)] \<longleftrightarrow> True"
| "shape [In_P (LockSem l), In_Acquire l'] \<longleftrightarrow> l = l'"
| "shape [In_Acquire l] \<longleftrightarrow> True"
| "shape [In_Wait c l] \<longleftrightarrow> True"
| "shape _ \<longleftrightarrow> False"

text \<open>The semaphore, and the condition, that a suspended thread waits for.\<close>

fun head_P :: "frame list \<Rightarrow> semid option" where
  "head_P (In_P i # fs) = Some i"
| "head_P _ = None"

fun head_W :: "frame list \<Rightarrow> nat option" where
  "head_W (In_Wait c l # fs) = Some c"
| "head_W _ = None"

definition ids_ok :: "Sys \<Rightarrow> bool" where
  "ids_ok s \<longleftrightarrow> bitmap_wf (tidMap s) \<and> 0 < numBits (tidMap s) \<and> 0 \<le> lastId s \<and>
     (\<forall>t i. GetThreadId s t = Some i \<longrightarrow> i \<in> marked (tidMap s)) \<and>
     (\<forall>t t' i. GetThreadId s t = Some i \<longrightarrow> GetThreadId s t' = Some i \<longrightarrow> t = t')"

text \<open>
  Every thread is in exactly one place: the ready list when it is ready, the queue of the semaphore or
  condition it waits for when it is blocked; a thread that is blocked and waits for nothing has finished
  and is the one to be destroyed. \<open>r\<close> is the running thread, if any.
\<close>

definition tinv :: "nat option \<Rightarrow> Sys \<Rightarrow> bool" where
  "tinv r s \<longleftrightarrow>
     (\<forall>t. t \<in> set (readyList s) \<longleftrightarrow> status_of s t = Some READY) \<and> distinct (readyList s) \<and>
     (\<forall>i t. t \<in> set (sem_queue (sems s i)) \<longleftrightarrow> status_of s t = Some BLOCKED \<and> head_P (frames_of s t) = Some i) \<and>
     (\<forall>i. distinct (sem_queue (sems s i))) \<and>
     (\<forall>c t. t \<in> set (waitQueue s c) \<longleftrightarrow> status_of s t = Some BLOCKED \<and> head_W (frames_of s t) = Some c) \<and>
     (\<forall>c. distinct (waitQueue s c)) \<and>
     (\<forall>t. threadToBeDestroyed s = Some t \<longleftrightarrow> status_of s t = Some BLOCKED \<and> frames_of s t = []) \<and>
     (\<forall>t. status_of s t = Some RUNNING \<longleftrightarrow> r = Some t) \<and> (\<forall>t. status_of s t \<noteq> Some JUST_CREATED) \<and>
     (\<forall>t. shape (frames_of s t)) \<and> (\<forall>t l. frames_of s t = [In_Acquire l] \<longrightarrow> r = Some t)"

subsection \<open>Effect of the updates on status and stack\<close>

lemma status_upd [simp]:
  "status_of (setStatus t st s) t' = (if t' = t \<and> status_of s t \<noteq> None then Some st else status_of s t')"
  "status_of (set_frames fs s) t' = status_of s t'" "status_of (set_sem i x s) t' = status_of s t'"
  "status_of (s\<lparr>readyList := rl\<rparr>) t' = status_of s t'" "status_of (s\<lparr>waitQueue := wq\<rparr>) t' = status_of s t'"
  "status_of (s\<lparr>lockOwner := lo\<rparr>) t' = status_of s t'" "status_of (s\<lparr>currentThread := c\<rparr>) t' = status_of s t'"
  "status_of (s\<lparr>idling := b\<rparr>) t' = status_of s t'" "status_of (s\<lparr>threadToBeDestroyed := d\<rparr>) t' = status_of s t'"
  by (auto simp: status_of_def setStatus_def set_frames_def upd_thread_def set_sem_def option.map_comp comp_def)

lemma frames_upd [simp]:
  "frames_of (setStatus t st s) t' = frames_of s t'" "frames_of (set_sem i x s) t' = frames_of s t'"
  "frames_of (set_frames fs s) t' =
     (if t' = currentThread s \<and> status_of s (currentThread s) \<noteq> None then fs else frames_of s t')"
  "frames_of (s\<lparr>readyList := rl\<rparr>) t' = frames_of s t'" "frames_of (s\<lparr>waitQueue := wq\<rparr>) t' = frames_of s t'"
  "frames_of (s\<lparr>lockOwner := lo\<rparr>) t' = frames_of s t'" "frames_of (s\<lparr>currentThread := c\<rparr>) t' = frames_of s t'"
  "frames_of (s\<lparr>idling := b\<rparr>) t' = frames_of s t'" "frames_of (s\<lparr>threadToBeDestroyed := d\<rparr>) t' = frames_of s t'"
  by (auto simp: frames_of_def status_of_def setStatus_def set_frames_def upd_thread_def set_sem_def
      split: option.splits)

lemma id_upd [simp]:
  "GetThreadId (setStatus t st s) t' = GetThreadId s t'" "GetThreadId (set_sem i x s) t' = GetThreadId s t'"
  "GetThreadId (set_frames fs s) t' = GetThreadId s t'" "GetThreadId (s\<lparr>readyList := rl\<rparr>) t' = GetThreadId s t'"
  "GetThreadId (s\<lparr>waitQueue := wq\<rparr>) t' = GetThreadId s t'" "GetThreadId (s\<lparr>lockOwner := lo\<rparr>) t' = GetThreadId s t'"
  "GetThreadId (s\<lparr>currentThread := c\<rparr>) t' = GetThreadId s t'" "GetThreadId (s\<lparr>idling := b\<rparr>) t' = GetThreadId s t'"
  "GetThreadId (s\<lparr>threadToBeDestroyed := d\<rparr>) t' = GetThreadId s t'"
  by (auto simp: GetThreadId_def setStatus_def set_frames_def upd_thread_def set_sem_def option.map_comp comp_def)

lemma ids_upd [simp]:
  "tidMap (setStatus t st s) = tidMap s" "lastId (setStatus t st s) = lastId s"
  "tidMap (set_frames fs s) = tidMap s" "lastId (set_frames fs s) = lastId s"
  by (simp_all add: setStatus_def set_frames_def upd_thread_def)

lemma ReadyToRun_simps [simp]:
  "readyList (ReadyToRun t s) = readyList s @ [t]" "idling (ReadyToRun t s) = idling s"
  "currentThread (ReadyToRun t s) = currentThread s" "sems (ReadyToRun t s) = sems s"
  "lockOwner (ReadyToRun t s) = lockOwner s" "waitQueue (ReadyToRun t s) = waitQueue s"
  "threadToBeDestroyed (ReadyToRun t s) = threadToBeDestroyed s" "tidMap (ReadyToRun t s) = tidMap s"
  "lastId (ReadyToRun t s) = lastId s" "frames_of (ReadyToRun t s) t' = frames_of s t'"
  "status_of (ReadyToRun t s) t' = (if t' = t \<and> status_of s t \<noteq> None then Some READY else status_of s t')"
  "GetThreadId (ReadyToRun t s) t' = GetThreadId s t'"
  by (auto simp: ReadyToRun_def Let_def)

lemma frames_dead: "status_of s t = None \<Longrightarrow> frames_of s t = []"
  by (auto simp: status_of_def frames_of_def)

lemma status_id: "GetThreadId s t = None \<longleftrightarrow> status_of s t = None"
  by (simp add: GetThreadId_def status_of_def)

lemma V_cases:
  obtains (none) "sem_queue (sems s i) = []" "V i s = set_sem i ((sems s i)\<lparr>sem_value := sem_value (sems s i) + 1\<rparr>) s"
  | (wake) t ts where "sem_queue (sems s i) = t # ts"
      "V i s = ReadyToRun t (set_sem i \<lparr>sem_value = sem_value (sems s i) + 1, sem_queue = ts\<rparr> s)"
  by (cases "sem_queue (sems s i)") (auto simp: V_def)

subsection \<open>Blocking and waking keep the invariant\<close>

lemma tinvD:
  assumes "tinv r s"
  shows "t \<in> set (readyList s) \<longleftrightarrow> status_of s t = Some READY" "distinct (readyList s)"
    "t \<in> set (sem_queue (sems s i)) \<longleftrightarrow> status_of s t = Some BLOCKED \<and> head_P (frames_of s t) = Some i"
    "distinct (sem_queue (sems s i))"
    "t \<in> set (waitQueue s c) \<longleftrightarrow> status_of s t = Some BLOCKED \<and> head_W (frames_of s t) = Some c"
    "distinct (waitQueue s c)"
    "threadToBeDestroyed s = Some t \<longleftrightarrow> status_of s t = Some BLOCKED \<and> frames_of s t = []"
    "status_of s t = Some RUNNING \<longleftrightarrow> r = Some t" "status_of s t \<noteq> Some JUST_CREATED"
    "shape (frames_of s t)" "frames_of s t = [In_Acquire l] \<Longrightarrow> r = Some t"
  using assms by (simp_all add: tinv_def)

lemma head_excl:
  "head_P fs = Some i \<Longrightarrow> head_W fs = None \<and> fs \<noteq> [] \<and> fs \<noteq> [In_Acquire l]"
  "head_W fs = Some c \<Longrightarrow> head_P fs = None \<and> fs \<noteq> [] \<and> fs \<noteq> [In_Acquire l]"
  by (cases fs rule: head_P.cases; simp)+

text \<open>A blocked thread that is taken off its queue and made ready.\<close>

lemma V_tinv:
  assumes inv: "tinv r s"
  shows "tinv r (V i s)"
proof (cases rule: V_cases [of s i])
  case none
  have "\<not> (status_of s t = Some BLOCKED \<and> head_P (frames_of s t) = Some i)" for t
    using tinvD(3) [OF inv, of t i] none(1) by simp
  then show ?thesis using inv none(1) by (simp add: none(2) tinv_def)
next
  case (wake t ts)
  note D = tinvD [OF inv]
  have ts: "t \<notin> set ts" "distinct ts" "x \<in> set ts \<longleftrightarrow> x \<noteq> t \<and> x \<in> set (sem_queue (sems s i))" for x
    using D(4) [of i] by (auto simp: wake(1))
  have t: "status_of s t = Some BLOCKED" "head_P (frames_of s t) = Some i" "r \<noteq> Some t"
    using D(3) [of t i] D(8) [of t] by (auto simp: wake(1))
  show ?thesis
    unfolding wake(2) tinv_def using t ts head_excl(1) [OF t(2)]
    by (intro conjI allI) (auto simp: D(1-10) dest: D(11))
qed

lemma signal_tinv:
  assumes inv: "tinv r s" and q: "waitQueue s c = t # ts"
  shows "tinv r (ReadyToRun t (s\<lparr>waitQueue := (waitQueue s)(c := ts)\<rparr>))"
proof -
  note D = tinvD [OF inv]
  have ts: "t \<notin> set ts" "distinct ts" "x \<in> set ts \<longleftrightarrow> x \<noteq> t \<and> x \<in> set (waitQueue s c)" for x
    using D(6) [of c] by (auto simp: q)
  have t: "status_of s t = Some BLOCKED" "head_W (frames_of s t) = Some c" "r \<noteq> Some t"
    using D(5) [of t c] D(8) [of t] by (auto simp: q)
  show ?thesis
    unfolding tinv_def using t ts head_excl(2) [OF t(2)]
    by (intro conjI allI) (auto simp: D(1-10) dest: D(11))
qed

text \<open>The running thread goes to sleep on a semaphore, on a condition, for good, or becomes ready.\<close>

lemma block_tinv:
  assumes inv: "tinv (Some (currentThread s)) s" and h: "head_P (frames_of s (currentThread s)) = Some i"
  shows "tinv None (setStatus (currentThread s) BLOCKED (enqueue_sem i s))"
proof -
  note D = tinvD [OF inv]
  have c: "status_of s (currentThread s) = Some RUNNING" by (simp add: D(8))
  show ?thesis
    unfolding tinv_def enqueue_sem_def using c h head_excl(1) [OF h] D(11)
    by (intro conjI allI) (auto simp: c D(1-10))
qed

lemma wait_tinv:
  assumes inv: "tinv (Some (currentThread s)) s" and h: "frames_of s (currentThread s) = []"
  shows "tinv None (setStatus (currentThread s) BLOCKED (set_frames [In_Wait c l]
     (s\<lparr>waitQueue := (waitQueue s)(c := waitQueue s c @ [currentThread s])\<rparr>)))"
proof -
  note D = tinvD [OF inv]
  have c: "status_of s (currentThread s) = Some RUNNING" by (simp add: D(8))
  show ?thesis
    unfolding tinv_def using c h D(11)
    by (intro conjI allI) (auto simp: c D(1-10))
qed

lemma finish_tinv:
  assumes inv: "tinv (Some (currentThread s)) s" and h: "frames_of s (currentThread s) = []" "threadToBeDestroyed s = None"
  shows "tinv None (setStatus (currentThread s) BLOCKED (s\<lparr>threadToBeDestroyed := Some (currentThread s)\<rparr>))"
proof -
  note D = tinvD [OF inv]
  have c: "status_of s (currentThread s) = Some RUNNING" by (simp add: D(8))
  have n: "\<not> (status_of s t = Some BLOCKED \<and> frames_of s t = [])" for t using D(7) [of t] h(2) by simp
  show ?thesis
    unfolding tinv_def using c h n D(11)
    by (intro conjI allI) (auto simp: c D(1-6) D(8-10))
qed

lemma yield_tinv:
  assumes inv: "tinv (Some (currentThread s)) s" and h: "frames_of s (currentThread s) = []"
  shows "tinv None (ReadyToRun (currentThread s) s)"
proof -
  note D = tinvD [OF inv]
  have c: "status_of s (currentThread s) = Some RUNNING" by (simp add: D(8))
  show ?thesis
    unfolding tinv_def using c h D(11)
    by (intro conjI allI) (auto simp: c D(1-10))
qed

lemma push_tinv:
  assumes inv: "tinv (Some (currentThread s)) s" and h: "shape fs"
  shows "tinv (Some (currentThread s)) (set_frames fs s)"
proof -
  note D = tinvD [OF inv]
  have c: "status_of s (currentThread s) = Some RUNNING" by (simp add: D(8))
  show ?thesis
    unfolding tinv_def using c h D(11)
    by (intro conjI allI) (auto simp: c D(1-10))
qed

definition running :: "Sys \<Rightarrow> nat option" where
  "running s = (if idling s then None else Some (currentThread s))"

lemma status_destroy [simp]:
  "status_of (s\<lparr>threads := (threads s)(d := None)\<rparr>) t = (if t = d then None else status_of s t)"
  "frames_of (s\<lparr>threads := (threads s)(d := None)\<rparr>) t = (if t = d then [] else frames_of s t)"
  "GetThreadId (s\<lparr>threads := (threads s)(d := None)\<rparr>) t = (if t = d then None else GetThreadId s t)"
  by (simp_all add: status_of_def frames_of_def GetThreadId_def)

text \<open>Dispatching when no thread runs: the first ready thread runs next, or the kernel idles.\<close>

lemma dispatch_ok:
  assumes inv: "tinv None s"
  obtains s' where "dispatch s = Some s'" "tinv (running s') s'" "sems s' = sems s" "lockOwner s' = lockOwner s"
    "\<forall>t. frames_of s' t = frames_of s t" "tidMap s' = tidMap s" "lastId s' = lastId s"
    "\<forall>t i. GetThreadId s' t = Some i \<longrightarrow> GetThreadId s t = Some i"
    "readyList s = [] \<and> running s' = None \<and> readyList s' = [] \<or>
     (\<exists>t. readyList s = t # readyList s' \<and> running s' = Some t \<and> threadToBeDestroyed s' = None)"
proof (cases "readyList s")
  case Nil
  then have d: "dispatch s = Some (s\<lparr>idling := True\<rparr>)" by (simp add: dispatch_def FindNextToRun_def)
  show thesis by (rule that [OF d]) (use inv Nil in \<open>simp_all add: running_def tinv_def\<close>)
next
  case (Cons t ts)
  note D = tinvD [OF inv]
  have t: "status_of s t = Some READY" "t \<notin> set ts" "distinct ts" "x \<in> set ts \<longleftrightarrow> x \<noteq> t \<and> x \<in> set (readyList s)" for x
    using D(1) [of t] D(2) by (auto simp: Cons)
  define s1 where "s1 = setStatus t RUNNING (s\<lparr>readyList := ts, currentThread := t, idling := False\<rparr>)"
  have s1: "readyList s1 = ts" "idling s1 = False" "currentThread s1 = t" "sems s1 = sems s" "lockOwner s1 = lockOwner s"
      "waitQueue s1 = waitQueue s" "threadToBeDestroyed s1 = threadToBeDestroyed s" "tidMap s1 = tidMap s" "lastId s1 = lastId s"
      "frames_of s1 x = frames_of s x" "GetThreadId s1 x = GetThreadId s x"
      "status_of s1 x = (if x = t then Some RUNNING else status_of s x)" for x
    using t(1) by (simp_all add: s1_def)
  show thesis
  proof (cases "threadToBeDestroyed s")
    case None
    then have n: "\<not> (status_of s x = Some BLOCKED \<and> frames_of s x = [])" for x using D(7) [of x] by simp
    have d: "dispatch s = Some s1"
      using Cons None by (simp add: dispatch_def FindNextToRun_def Run_def s1_def Let_def)
    have "tinv (Some t) s1"
      unfolding tinv_def using t n None D(11) by (intro conjI allI) (auto simp: s1 D(1-6) D(8-10))
    then show thesis by (intro that [OF d]) (use Cons None in \<open>simp_all add: running_def s1\<close>)
  next
    case (Some x)
    have x: "status_of s x = Some BLOCKED" "frames_of s x = []" "x \<noteq> t"
      using D(7) [of x] Some t(1) by auto
    have n: "status_of s y = Some BLOCKED \<Longrightarrow> frames_of s y = [] \<Longrightarrow> y = x" for y
      using D(7) [of y] Some by auto
    define s2 where "s2 = s1\<lparr>threads := (threads s1)(x := None), threadToBeDestroyed := None\<rparr>"
    have d: "dispatch s = Some s2"
      using Cons Some x(3) by (simp add: dispatch_def FindNextToRun_def Run_def s1_def s2_def Let_def)
    have s2: "readyList s2 = ts" "idling s2 = False" "currentThread s2 = t" "sems s2 = sems s" "lockOwner s2 = lockOwner s"
        "waitQueue s2 = waitQueue s" "threadToBeDestroyed s2 = None" "tidMap s2 = tidMap s" "lastId s2 = lastId s"
        "frames_of s2 y = frames_of s y" "GetThreadId s2 y = (if y = x then None else GetThreadId s y)"
        "status_of s2 y = (if y = x then None else if y = t then Some RUNNING else status_of s y)" for y
      using x by (simp_all add: s2_def s1)
    have "tinv (Some t) s2"
      unfolding tinv_def
    proof (intro conjI allI)
      show "(threadToBeDestroyed s2 = Some y) = (status_of s2 y = Some BLOCKED \<and> frames_of s2 y = [])" for y
        using n [of y] t(1) by (auto simp: s2)
    qed (use t x in \<open>auto simp: s2 D(1-6) D(8-10) dest: D(11)\<close>)
    then show thesis
      by (intro that [OF d]) (use Cons x in \<open>auto simp: running_def s2 split: if_splits\<close>)
  qed
qed

subsection \<open>Semaphore values and locks\<close>

text \<open>How many threads that have been woken up are about to test semaphore \<open>i\<close> again.\<close>

definition woken :: "nat option \<Rightarrow> Sys \<Rightarrow> semid \<Rightarrow> nat" where
  "woken r s i = length (filter (\<lambda>t. head_P (frames_of s t) = Some i) (readyList s)) +
     (if \<exists>t. r = Some t \<and> head_P (frames_of s t) = Some i then 1 else 0)"

definition cinv :: "nat option \<Rightarrow> Sys \<Rightarrow> bool" where
  "cinv r s \<longleftrightarrow> (\<forall>i. 0 \<le> sem_value (sems s i) \<and>
     (sem_queue (sems s i) \<noteq> [] \<longrightarrow> sem_value (sems s i) \<le> int (woken r s i)))"

definition acquiring :: "nat option \<Rightarrow> Sys \<Rightarrow> nat \<Rightarrow> bool" where
  "acquiring r s l \<longleftrightarrow> (\<exists>t. r = Some t \<and> frames_of s t = [In_Acquire l])"

definition linv :: "nat option \<Rightarrow> Sys \<Rightarrow> bool" where
  "linv r s \<longleftrightarrow> (\<forall>l. sem_value (sems s (LockSem l)) = (if lockOwner s l = - 1 \<and> \<not> acquiring r s l then 1 else 0) \<and>
     (acquiring r s l \<longrightarrow> lockOwner s l = - 1))"

definition kinv :: "nat option \<Rightarrow> Sys \<Rightarrow> bool" where
  "kinv r s \<longleftrightarrow> tinv r s \<and> cinv r s \<and> linv r s \<and> ids_ok s"

lemma acquiring_None [simp]: "\<not> acquiring None s l"
  by (simp add: acquiring_def)

lemma dispatch_inv:
  assumes "kinv None s"
  shows "\<exists>s'. dispatch s = Some s' \<and> kinv (running s') s' \<and> lockOwner s' = lockOwner s \<and>
    (idling s' \<longrightarrow> readyList s' = []) \<and> (\<not> idling s' \<longrightarrow> threadToBeDestroyed s' = None)"
proof -
  have ti: "tinv None s" and i: "cinv None s" "linv None s" "ids_ok s" using assms by (simp_all add: kinv_def)
  obtain s' where s': "dispatch s = Some s'" "tinv (running s') s'" "sems s' = sems s" "lockOwner s' = lockOwner s"
    "\<forall>t. frames_of s' t = frames_of s t" "tidMap s' = tidMap s" "lastId s' = lastId s"
    "\<forall>t i. GetThreadId s' t = Some i \<longrightarrow> GetThreadId s t = Some i"
    "readyList s = [] \<and> running s' = None \<and> readyList s' = [] \<or>
     (\<exists>t. readyList s = t # readyList s' \<and> running s' = Some t \<and> threadToBeDestroyed s' = None)"
    by (rule dispatch_ok [OF ti], rule that)
  have "woken (running s') s' i = woken None s i" for i
    using s'(9) by (auto simp: woken_def s'(5) [rule_format])
  then have "cinv (running s') s'" using i(1) by (simp add: cinv_def s'(3))
  moreover have "\<not> acquiring (running s') s' l" for l
    using tinvD(11) [OF ti] by (fastforce simp: acquiring_def s'(5) [rule_format])
  then have "linv (running s') s'" using i(2) by (simp add: linv_def s'(3,4))
  moreover have "ids_ok s'" using i(3) s'(8) by (fastforce simp: ids_ok_def s'(6,7))
  ultimately show ?thesis using s' by (auto simp: kinv_def running_def split: if_splits)
qed

lemma V_simps [simp]:
  "lockOwner (V i s) = lockOwner s" "frames_of (V i s) t = frames_of s t" "currentThread (V i s) = currentThread s"
  "idling (V i s) = idling s" "GetThreadId (V i s) t = GetThreadId s t" "tidMap (V i s) = tidMap s"
  "lastId (V i s) = lastId s" "waitQueue (V i s) = waitQueue s" "threadToBeDestroyed (V i s) = threadToBeDestroyed s"
  "sem_value (sems (V i s) j) = sem_value (sems s j) + (if j = i then 1 else 0)"
  "running (V i s) = running s"
  by (cases rule: V_cases [of s i]; simp add: running_def)+

lemma V_cinv:
  assumes "tinv r s" "cinv r s"
  shows "cinv r (V i s)"
proof (cases rule: V_cases [of s i])
  case none
  then show ?thesis using assms(2) by (simp add: none(2) cinv_def woken_def)
next
  case (wake t ts)
  have "head_P (frames_of s t) = Some i" using tinvD(3) [OF assms(1), of t i] by (simp add: wake(1))
  then have "woken r (V i s) j = woken r s j + (if j = i then 1 else 0)" for j
    by (simp add: wake(2) woken_def)
  then show ?thesis using assms(2) wake(1) by (auto simp: cinv_def wake(2) simp del: V_simps)
qed

lemma ids_ok_V [simp]: "ids_ok (V i s) = ids_ok s"
  by (simp add: ids_ok_def)

text \<open>Between two primitives.\<close>

definition ginv :: "Sys \<Rightarrow> bool" where
  "ginv s \<longleftrightarrow> kinv (running s) s \<and> (idling s \<longrightarrow> readyList s = []) \<and> (\<not> idling s \<longrightarrow> threadToBeDestroyed s = None)"

lemma ginv_running: "ginv s \<Longrightarrow> \<not> idling s \<Longrightarrow> kinv (Some (currentThread s)) s \<and> threadToBeDestroyed s = None"
  by (simp add: ginv_def running_def)

lemma tinv_value: "tinv r (set_sem i ((sems s i)\<lparr>sem_value := v\<rparr>) s) = tinv r s"
proof -
  have "sem_queue (sems (set_sem i ((sems s i)\<lparr>sem_value := v\<rparr>) s) j) = sem_queue (sems s j)" for j
    by simp
  then show ?thesis by (simp add: tinv_def del: sem_upd_simps(8))
qed

lemma resume_block:
  assumes g: "ginv s" "\<not> idling s" and h: "head_P (frames_of s (currentThread s)) = Some i" and v: "sem_value (sems s i) = 0"
  shows "\<exists>s'. Sleep (enqueue_sem i s) = Some s' \<and> ginv s' \<and> lockOwner s' = lockOwner s"
proof -
  let ?s = "setStatus (currentThread s) BLOCKED (enqueue_sem i s)"
  have i: "tinv (Some (currentThread s)) s" "cinv (Some (currentThread s)) s" "linv (Some (currentThread s)) s" "ids_ok s"
    using ginv_running [OF g] by (simp_all add: kinv_def)
  have "woken None ?s j = woken (Some (currentThread s)) s j" if "j \<noteq> i" for j
    using that h by (simp add: woken_def enqueue_sem_def)
  then have "cinv None ?s" using i(2) v by (auto simp: cinv_def enqueue_sem_def)
  moreover have "\<not> acquiring (Some (currentThread s)) s l" for l
    using head_excl(1) [OF h] by (simp add: acquiring_def)
  then have "linv None ?s" using i(3) v by (auto simp: linv_def enqueue_sem_def)
  moreover have "ids_ok ?s" using i(4) by (simp add: ids_ok_def enqueue_sem_def)
  ultimately have "kinv None ?s" using block_tinv [OF i(1) h] by (simp add: kinv_def)
  from dispatch_inv [OF this] show ?thesis by (auto simp: Sleep_def ginv_def enqueue_sem_def)
qed

lemma ginv_set_frames:
  assumes i: "tinv (Some (currentThread s)) s" "cinv (Some (currentThread s)) (set_frames fs s)"
      "linv (Some (currentThread s)) (set_frames fs s)" "ids_ok s"
    and "shape fs" "\<not> idling s" "threadToBeDestroyed s = None"
  shows "ginv (set_frames fs s)"
  using assms push_tinv [OF i(1), of fs] by (simp add: ginv_def kinv_def running_def ids_ok_def)

lemma resume_take:
  assumes g: "ginv s" "\<not> idling s" and h: "frames_of s (currentThread s) = In_P i # fs" and v: "sem_value (sems s i) \<noteq> 0"
  shows "ginv (set_frames fs (take_sem i s))"
proof -
  let ?c = "currentThread s" and ?s = "take_sem i s"
  have i: "tinv (Some ?c) s" "cinv (Some ?c) s" "linv (Some ?c) s" "ids_ok s" "threadToBeDestroyed s = None"
    using ginv_running [OF g] by (simp_all add: kinv_def)
  have live: "status_of s ?c = Some RUNNING" using tinvD(8) [OF i(1), of ?c] by simp
  have sh: "shape (In_P i # fs)" using tinvD(10) [OF i(1), of ?c] h by simp
  then have fs: "fs = [] \<and> (\<forall>l. i \<noteq> LockSem l) \<or> (\<exists>l. i = LockSem l \<and> fs = [In_Acquire l])"
    by (cases "In_P i # fs" rule: shape.cases) auto
  have c: "currentThread ?s = ?c" "idling ?s = idling s" by (simp_all add: take_sem_def)
  have w: "woken (Some ?c) (set_frames fs ?s) j = woken (Some ?c) s j - (if j = i then 1 else 0)" for j
  proof -
    have "?c \<notin> set (readyList s)" using tinvD(1) [OF i(1), of ?c] live by simp
    then have "filter (\<lambda>t. head_P (frames_of (set_frames fs ?s) t) = Some j) (readyList s) =
        filter (\<lambda>t. head_P (frames_of s t) = Some j) (readyList s)"
      by (intro filter_cong) (auto simp: take_sem_def)
    then show ?thesis using h fs live by (auto simp: woken_def take_sem_def)
  qed
  have pos: "sem_value (sems s i) \<ge> 1" using i(2) v by (auto simp: cinv_def) (smt (verit))
  have wi: "woken (Some ?c) s i \<ge> 1" using h by (simp add: woken_def)
  have "cinv (Some ?c) (set_frames fs ?s)"
    unfolding cinv_def
  proof
    fix j
    have "0 \<le> sem_value (sems s j)" "sem_queue (sems s j) \<noteq> [] \<longrightarrow> sem_value (sems s j) \<le> int (woken (Some ?c) s j)"
      using i(2) by (simp_all add: cinv_def)
    moreover have "sem_value (sems (set_frames fs ?s) j) = sem_value (sems s j) - (if j = i then 1 else 0)"
        "sem_queue (sems (set_frames fs ?s) j) = sem_queue (sems s j)"
      by (simp_all add: take_sem_def)
    ultimately show "0 \<le> sem_value (sems (set_frames fs ?s) j) \<and> (sem_queue (sems (set_frames fs ?s) j) \<noteq> [] \<longrightarrow>
        sem_value (sems (set_frames fs ?s) j) \<le> int (woken (Some ?c) (set_frames fs ?s) j))"
      using pos wi by (cases "j = i") (auto simp: w)
  qed
  moreover have "linv (Some ?c) (set_frames fs ?s)"
  proof -
    have "\<not> acquiring (Some ?c) s l" for l using h by (simp add: acquiring_def)
    moreover have "acquiring (Some ?c) (set_frames fs ?s) l \<longleftrightarrow> i = LockSem l" for l
      using fs live by (auto simp: acquiring_def take_sem_def)
    ultimately show ?thesis using i(3) pos by (auto simp: linv_def take_sem_def split: if_splits)
  qed
  moreover have "tinv (Some (currentThread ?s)) ?s" using i(1) by (simp add: take_sem_def tinv_value)
  moreover have "shape fs" using fs by auto
  ultimately show ?thesis
    using i(4,5) g(2) by (intro ginv_set_frames) (simp_all add: take_sem_def ids_ok_def)
qed

lemma resume_acquire:
  assumes g: "ginv s" "\<not> idling s" and h: "frames_of s (currentThread s) = In_Acquire l # fs"
    and id: "GetThreadId s (currentThread s) = Some tid"
  shows "ginv (set_frames fs (s\<lparr>lockOwner := (lockOwner s)(l := tid)\<rparr>)) \<and> lockOwner s l = - 1"
proof -
  let ?c = "currentThread s" and ?s = "s\<lparr>lockOwner := (lockOwner s)(l := tid)\<rparr>"
  have i: "tinv (Some ?c) s" "cinv (Some ?c) s" "linv (Some ?c) s" "ids_ok s" "threadToBeDestroyed s = None"
    using ginv_running [OF g] by (simp_all add: kinv_def)
  have "shape (In_Acquire l # fs)" using tinvD(10) [OF i(1), of ?c] h by simp
  then have fs: "fs = []" by (cases "In_Acquire l # fs" rule: shape.cases) auto
  have live: "status_of s ?c \<noteq> None" using id by (simp flip: status_id)
  have tid: "tid \<noteq> - 1" using i(4) id marked_subset [of "tidMap s"] by (fastforce simp: ids_ok_def)
  have acq: "acquiring (Some ?c) s l' \<longleftrightarrow> l' = l" for l' using h fs by (auto simp: acquiring_def)
  then have own: "lockOwner s l = - 1" using i(3) by (simp add: linv_def)
  have "woken (Some ?c) (set_frames [] ?s) j = woken (Some ?c) s j" for j
  proof -
    have "?c \<notin> set (readyList s)" using tinvD(1,8) [OF i(1), of ?c] by auto
    then have "filter (\<lambda>t. head_P (frames_of (set_frames [] ?s) t) = Some j) (readyList s) =
        filter (\<lambda>t. head_P (frames_of s t) = Some j) (readyList s)"
      by (intro filter_cong) auto
    then show ?thesis using h by (auto simp: woken_def)
  qed
  then have "cinv (Some ?c) (set_frames [] ?s)" using i(2) by (simp add: cinv_def)
  moreover have "\<not> acquiring (Some ?c) (set_frames [] ?s) l'" for l' using live by (auto simp: acquiring_def)
  then have "linv (Some ?c) (set_frames [] ?s)" using i(3) acq tid by (auto simp: linv_def)
  moreover have "tinv (Some (currentThread ?s)) ?s" using i(1) by (simp add: tinv_def)
  ultimately show ?thesis
    using i(4,5) g(2) own fs by (auto intro!: ginv_set_frames simp: ids_ok_def)
qed

text \<open>The running thread enters a primitive, from its own code or from the end of \<open>Wait\<close>.\<close>

lemma ginv_enter:
  assumes g: "ginv s" "\<not> idling s"
    and h: "head_P (frames_of s (currentThread s)) = None" "\<And>l. frames_of s (currentThread s) \<noteq> [In_Acquire l]"
    and fs: "shape fs" "\<And>l. fs \<noteq> [In_Acquire l]"
  shows "ginv (set_frames fs s)"
proof -
  let ?c = "currentThread s"
  have i: "tinv (Some ?c) s" "cinv (Some ?c) s" "linv (Some ?c) s" "ids_ok s" "threadToBeDestroyed s = None"
    using ginv_running [OF g] by (simp_all add: kinv_def)
  have "woken (Some ?c) s j \<le> woken (Some ?c) (set_frames fs s) j" for j
  proof -
    have "?c \<notin> set (readyList s)" using tinvD(1,8) [OF i(1), of ?c] by auto
    then have "filter (\<lambda>t. head_P (frames_of (set_frames fs s) t) = Some j) (readyList s) =
        filter (\<lambda>t. head_P (frames_of s t) = Some j) (readyList s)"
      by (intro filter_cong) auto
    then show ?thesis using h(1) by (auto simp: woken_def)
  qed
  then have "cinv (Some ?c) (set_frames fs s)"
    using i(2) by (fastforce simp: cinv_def intro: order_trans)
  moreover have "acquiring (Some ?c) (set_frames fs s) l' = acquiring (Some ?c) s l'" for l'
    using h(2) fs(2) by (auto simp: acquiring_def)
  then have "linv (Some ?c) (set_frames fs s)" using i(3) by (simp add: linv_def)
  ultimately show ?thesis
    using i(1,4,5) g(2) fs(1) by (intro ginv_set_frames) auto
qed

lemma resume_wait:
  assumes g: "ginv s" "\<not> idling s" and h: "frames_of s (currentThread s) = In_Wait c l # fs"
  shows "ginv (set_frames (In_P (LockSem l) # In_Acquire l # fs) s)"
proof (rule ginv_enter [OF g])
  have "tinv (Some (currentThread s)) s" using ginv_running [OF g] by (simp add: kinv_def)
  then have "shape (In_Wait c l # fs)" using tinvD(10) [of _ s "currentThread s"] h by force
  then have "fs = []" by (cases "In_Wait c l # fs" rule: shape.cases) auto
  then show "shape (In_P (LockSem l) # In_Acquire l # fs)" by simp
qed (use h in simp_all)

text \<open>Continuing a thread always ends, with a thread that runs its own code or with an idle kernel.\<close>

definition at_rest :: "Sys \<Rightarrow> bool" where
  "at_rest s \<longleftrightarrow> ginv s \<and> (\<not> idling s \<longrightarrow> frames_of s (currentThread s) = [])"

lemma resume_ok:
  "ginv s \<Longrightarrow> \<exists>s'. resume s = Some s' \<and> at_rest s' \<and> (\<forall>l. lockOwner s l \<noteq> - 1 \<longrightarrow> lockOwner s' l = lockOwner s l)"
proof (induction s rule: resume.induct)
  case (1 s)
  consider (idle) "idling s" | (own) "\<not> idling s" "frames_of s (currentThread s) = []"
    | (P) i fs where "\<not> idling s" "frames_of s (currentThread s) = In_P i # fs"
    | (Acq) l fs where "\<not> idling s" "frames_of s (currentThread s) = In_Acquire l # fs"
    | (Wait) c l fs where "\<not> idling s" "frames_of s (currentThread s) = In_Wait c l # fs"
    by (cases "frames_of s (currentThread s)" rule: frame_weight.cases) auto
  then show ?case
  proof cases
    case idle
    then show ?thesis using 1(5) by (auto simp: resume.simps [of s] at_rest_def)
  next
    case own
    then show ?thesis using 1(5) by (auto simp: resume.simps [of s] at_rest_def)
  next
    case (P i fs)
    show ?thesis
    proof (cases "sem_value (sems s i) = 0")
      case True
      obtain s1 where s1: "Sleep (enqueue_sem i s) = Some s1" "ginv s1" "lockOwner s1 = lockOwner s"
        using resume_block [OF 1(5) P(1) _ True] P(2) by auto
      then show ?thesis using 1(1) [OF P refl True s1(1)] P True by (simp add: resume.simps [of s])
    next
      case False
      show ?thesis
        using 1(2) [OF P refl False resume_take [OF 1(5) P False]] P False
        by (simp add: resume.simps [of s] take_sem_def)
    qed
  next
    case (Acq l fs)
    have "tinv (Some (currentThread s)) s" using ginv_running [OF 1(5) Acq(1)] by (simp add: kinv_def)
    then have "status_of s (currentThread s) = Some RUNNING" by (simp add: tinvD(8))
    then obtain tid where tid: "GetThreadId s (currentThread s) = Some tid"
      using status_id [of s "currentThread s"] by auto
    note ra = resume_acquire [OF 1(5) Acq tid]
    show ?thesis
      using 1(3) [OF Acq refl tid] ra Acq tid by (auto simp: resume.simps [of s] split: if_splits)
  next
    case (Wait c l fs)
    show ?thesis
      using 1(4) [OF Wait refl resume_wait [OF 1(5) Wait]] Wait by (simp add: resume.simps [of s])
  qed
qed

subsection \<open>The primitives\<close>

lemma at_restD:
  assumes "at_rest s" "\<not> idling s"
  shows "ginv s" "frames_of s (currentThread s) = []" "tinv (Some (currentThread s)) s" "cinv (Some (currentThread s)) s"
    "linv (Some (currentThread s)) s" "ids_ok s" "threadToBeDestroyed s = None"
    "status_of s (currentThread s) = Some RUNNING" "\<not> acquiring (Some (currentThread s)) s l"
  using assms ginv_running [of s] tinvD(8) [of "Some (currentThread s)" s "currentThread s"]
  by (auto simp: at_rest_def kinv_def acquiring_def)

text \<open>The owner of a lock changes only when the owner itself calls a primitive.\<close>

definition owners_kept :: "Sys \<Rightarrow> Sys \<Rightarrow> bool" where
  "owners_kept s s' \<longleftrightarrow> (\<forall>l. lockOwner s l \<noteq> - 1 \<longrightarrow> lockOwner s' l = lockOwner s l)"

lemma enter_ok:
  assumes r: "at_rest s" "\<not> idling s" and fs: "shape fs" "\<And>l. fs \<noteq> [In_Acquire l]"
  shows "\<exists>s'. resume (push fs s) = Some s' \<and> at_rest s' \<and> owners_kept s s'"
proof -
  note D = at_restD [OF r]
  have "ginv (push fs s)"
    unfolding push_def D(2) append_Nil2 using D(1,2) r(2) fs by (intro ginv_enter) simp_all
  from resume_ok [OF this] show ?thesis by (simp add: push_def owners_kept_def)
qed

lemma V_inv: "kinv r s \<Longrightarrow> kinv r (V (Sem n) s)"
  using V_tinv [of r s] V_cinv [of r s] by (simp add: kinv_def linv_def acquiring_def)

lemma V_at_rest: "at_rest s \<Longrightarrow> \<not> idling s \<Longrightarrow> at_rest (V (Sem n) s)"
  using V_inv [of "running s" s] by (simp add: at_rest_def ginv_def)

lemma release_inv:
  assumes r: "at_rest s" "\<not> idling s" and h: "isHeldByCurrentThread l s"
  shows "at_rest (V (LockSem l) (s\<lparr>lockOwner := (lockOwner s)(l := - 1)\<rparr>))"
proof -
  let ?s = "s\<lparr>lockOwner := (lockOwner s)(l := - 1)\<rparr>" and ?r = "Some (currentThread s)"
  note D = at_restD [OF r]
  have "lockOwner s l \<noteq> - 1"
    using D(6) h marked_subset [of "tidMap s"] by (fastforce simp: ids_ok_def isHeldByCurrentThread_def)
  then have v: "sem_value (sems s (LockSem l)) = 0" using D(5) by (simp add: linv_def)
  have s: "tinv ?r ?s" "cinv ?r ?s" "ids_ok ?s" using D by (simp_all add: tinv_def cinv_def woken_def ids_ok_def)
  have "linv ?r (V (LockSem l) ?s)"
    using D(5) D(9) v by (auto simp: linv_def acquiring_def)
  then show ?thesis
    using V_tinv [OF s(1)] V_cinv [OF s(1,2)] s(3) D(2,7) r(2)
    by (simp add: at_rest_def ginv_def kinv_def running_def)
qed

lemma signal_at_rest:
  assumes r: "at_rest s" "\<not> idling s" and q: "waitQueue s c = t # ts"
  shows "at_rest (ReadyToRun t (s\<lparr>waitQueue := (waitQueue s)(c := ts)\<rparr>))"
proof -
  note D = at_restD [OF r]
  have "head_P (frames_of s t) = None" using tinvD(5) [OF D(3), of t c] head_excl(2) by (auto simp: q)
  then have "cinv (Some (currentThread s)) (ReadyToRun t (s\<lparr>waitQueue := (waitQueue s)(c := ts)\<rparr>))"
    using D(4) by (simp add: cinv_def woken_def)
  then show ?thesis
    using signal_tinv [OF D(3) q] D r(2)
    by (simp add: at_rest_def ginv_def kinv_def running_def linv_def acquiring_def ids_ok_def)
qed

lemma ReadyToRun_waitQueue: "ReadyToRun t (s\<lparr>waitQueue := w\<rparr>) = (ReadyToRun t s)\<lparr>waitQueue := w\<rparr>"
  by (simp add: ReadyToRun_def setStatus_def upd_thread_def Let_def)

lemma broadcast_at_rest:
  assumes "at_rest s" "\<not> idling s" "waitQueue s c = ts"
  shows "at_rest (wake_all ts (s\<lparr>waitQueue := (waitQueue s)(c := [])\<rparr>)) \<and>
    lockOwner (wake_all ts (s\<lparr>waitQueue := (waitQueue s)(c := [])\<rparr>)) = lockOwner s"
  using assms
proof (induction ts arbitrary: s)
  case Nil
  then have "s\<lparr>waitQueue := (waitQueue s)(c := [])\<rparr> = s" by (simp add: fun_upd_idem)
  then show ?case using Nil by (simp only: wake_all.simps)
next
  case (Cons t ts)
  let ?s = "ReadyToRun t (s\<lparr>waitQueue := (waitQueue s)(c := ts)\<rparr>)"
  have e: "wake_all (t # ts) (s\<lparr>waitQueue := (waitQueue s)(c := [])\<rparr>) = wake_all ts (?s\<lparr>waitQueue := (waitQueue ?s)(c := [])\<rparr>)"
    by (simp add: ReadyToRun_waitQueue)
  have "at_rest ?s" "\<not> idling ?s" "waitQueue ?s c = ts" "lockOwner ?s = lockOwner s"
    using signal_at_rest [OF Cons.prems] Cons.prems(2) by simp_all
  then show ?case unfolding e using Cons.IH [of ?s] by metis
qed

lemma Sleep_ginv:
  assumes "kinv None (setStatus (currentThread s) BLOCKED s)"
  shows "\<exists>s1. Sleep s = Some s1 \<and> ginv s1 \<and> lockOwner s1 = lockOwner s"
  using dispatch_inv [OF assms] by (auto simp: Sleep_def ginv_def)

lemma Sleep_ok:
  assumes "kinv None (setStatus (currentThread s) BLOCKED s)"
  shows "\<exists>s1 s'. Sleep s = Some s1 \<and> resume s1 = Some s' \<and> at_rest s' \<and> owners_kept s s'"
  using Sleep_ginv [OF assms] resume_ok by (fastforce simp: owners_kept_def)

lemma wait_kinv:
  fixes c :: nat
  assumes r: "at_rest s" "\<not> idling s" and h: "isHeldByCurrentThread l s"
  defines "s1 \<equiv> V (LockSem l) (s\<lparr>lockOwner := (lockOwner s)(l := - 1)\<rparr>)"
  defines "s2 \<equiv> s1\<lparr>waitQueue := (waitQueue s1)(c := waitQueue s1 c @ [currentThread s1])\<rparr>"
  shows "Release l (s\<lparr>waitQueue := (waitQueue s)(c := waitQueue s c @ [currentThread s])\<rparr>) = Some s2"
    and "kinv None (setStatus (currentThread s2) BLOCKED (push [In_Wait c l] s2))"
proof -
  have r1: "at_rest s1" "\<not> idling s1" using release_inv [OF r h] r(2) by (simp_all add: s1_def)
  note D = at_restD [OF r1]
  have V_wq: "V i (s\<lparr>waitQueue := w\<rparr>) = (V i s)\<lparr>waitQueue := w\<rparr>" for i w s
    by (simp add: V_def set_sem_def ReadyToRun_waitQueue split: list.split) (simp add: ReadyToRun_def setStatus_def upd_thread_def Let_def)
  show "Release l (s\<lparr>waitQueue := (waitQueue s)(c := waitQueue s c @ [currentThread s])\<rparr>) = Some s2"
  proof -
    have sw: "s\<lparr>waitQueue := w, lockOwner := lo\<rparr> = s\<lparr>lockOwner := lo, waitQueue := w\<rparr>" for w lo by simp
    have "V i (s\<lparr>waitQueue := w, lockOwner := lo\<rparr>) = (V i (s\<lparr>lockOwner := lo\<rparr>))\<lparr>waitQueue := w\<rparr>" for i w lo
      unfolding sw by (rule V_wq)
    then show ?thesis using h by (simp add: Release_def isHeldByCurrentThread_def s2_def s1_def)
  qed
  let ?s = "setStatus (currentThread s2) BLOCKED (push [In_Wait c l] s2)"
  have f2: "frames_of s2 (currentThread s2) = []" "currentThread s2 = currentThread s1" using D(2) by (simp_all add: s2_def)
  have s3: "?s = setStatus (currentThread s1) BLOCKED (set_frames [In_Wait c l] s2)"
    using f2 by (simp add: push_def)
  have "tinv None ?s" using wait_tinv [OF D(3,2), of c l] unfolding s3 by (simp only: s2_def)
  moreover have F: "frames_of ?s x = (if x = currentThread s1 then [In_Wait c l] else frames_of s1 x)"
      "readyList ?s = readyList s1" "sems ?s = sems s1" "lockOwner ?s = lockOwner s1" "tidMap ?s = tidMap s1"
      "lastId ?s = lastId s1" "GetThreadId ?s x = GetThreadId s1 x" for x
    unfolding s3 using D(8) by (simp_all add: s2_def)
  have nr: "currentThread s1 \<notin> set (readyList s1)" using tinvD(1) [OF D(3), of "currentThread s1"] D(8) by simp
  have "filter (\<lambda>t. head_P (frames_of ?s t) = Some j) (readyList s1) = filter (\<lambda>t. head_P (frames_of s1 t) = Some j) (readyList s1)" for j
    using nr by (intro filter_cong) (auto simp only: F split: if_splits)
  then have "woken None ?s j = woken (Some (currentThread s1)) s1 j" for j
    using D(2) by (simp only: woken_def F) simp
  then have "cinv None ?s" using D(4) by (simp only: cinv_def F) simp
  moreover have "linv None ?s" using D(5,9) by (simp only: linv_def F) simp
  moreover have "ids_ok ?s" using D(6) by (simp only: ids_ok_def F) simp
  ultimately show "kinv None ?s" by (simp add: kinv_def)
qed

lemma wait_ginv:
  fixes c :: nat
  assumes r: "at_rest s" "\<not> idling s" and h: "isHeldByCurrentThread l s"
  defines "s1 \<equiv> V (LockSem l) (s\<lparr>lockOwner := (lockOwner s)(l := - 1)\<rparr>)"
  defines "s2 \<equiv> s1\<lparr>waitQueue := (waitQueue s1)(c := waitQueue s1 c @ [currentThread s1])\<rparr>"
  shows "\<exists>s4. Sleep (push [In_Wait c l] s2) = Some s4 \<and> ginv s4 \<and> lockOwner s4 = (lockOwner s)(l := - 1)
    \<and> Wait c l s = resume s4"
proof -
  note w = wait_kinv [OF r h, of c, folded s1_def, folded s2_def]
  obtain s4 where "Sleep (push [In_Wait c l] s2) = Some s4" "ginv s4" "lockOwner s4 = lockOwner (push [In_Wait c l] s2)"
    using Sleep_ginv [of "push [In_Wait c l] s2"] w(2) by (auto simp: push_def)
  then show ?thesis
    using h w(1) by (auto simp: Wait_def Let_def push_def s2_def s1_def)
qed

lemma wait_ok:
  assumes r: "at_rest s" "\<not> idling s" and h: "isHeldByCurrentThread l s"
  shows "\<exists>s'. Wait c l s = Some s' \<and> at_rest s' \<and> (\<forall>l'. l' \<noteq> l \<longrightarrow> lockOwner s l' \<noteq> - 1 \<longrightarrow> lockOwner s' l' = lockOwner s l')"
  using wait_ginv [OF r h, of c] resume_ok by fastforce

lemma inv_ready:
  assumes r: "at_rest s" "\<not> idling s"
  shows "kinv None (ReadyToRun (currentThread s) s)"
proof -
  note D = at_restD [OF r]
  have "cinv None (ReadyToRun (currentThread s) s)" using D(2,4) by (simp add: cinv_def woken_def)
  moreover have "linv None (ReadyToRun (currentThread s) s)" using D(5,9) by (simp add: linv_def)
  ultimately show ?thesis using yield_tinv [OF D(3,2)] D(6) by (simp add: kinv_def ids_ok_def)
qed

lemma yield_ginv:
  assumes r: "at_rest s" "\<not> idling s"
  shows "\<exists>s1. Yield s = Some s1 \<and> ginv s1 \<and> (s1 = s \<or> dispatch (ReadyToRun (currentThread s) s) = Some s1)"
proof (cases "readyList s")
  case Nil
  then have y: "Yield s = Some s" by (simp add: Yield_def FindNextToRun_def)
  then show ?thesis using at_restD(1) [OF r] by simp
next
  case (Cons n ts)
  have "ReadyToRun c (s\<lparr>readyList := ts\<rparr>) = (ReadyToRun c s)\<lparr>readyList := ts @ [c]\<rparr>" for c
    by (simp add: ReadyToRun_def setStatus_def upd_thread_def Let_def)
  then have "Yield s = dispatch (ReadyToRun (currentThread s) s)"
    using Cons by (simp add: Yield_def dispatch_def FindNextToRun_def)
  moreover obtain s1 where "dispatch (ReadyToRun (currentThread s) s) = Some s1" "ginv s1" "lockOwner s1 = lockOwner s"
    using dispatch_inv [OF inv_ready [OF r]] by (auto simp: ginv_def)
  ultimately show ?thesis by auto
qed

lemma yield_ok:
  assumes r: "at_rest s" "\<not> idling s"
  shows "\<exists>s1 s'. Yield s = Some s1 \<and> resume s1 = Some s' \<and> at_rest s' \<and> owners_kept s s'"
proof -
  obtain s1 where s1: "Yield s = Some s1" "ginv s1" "s1 = s \<or> dispatch (ReadyToRun (currentThread s) s) = Some s1"
    using yield_ginv [OF r] by blast
  have "lockOwner s1 = lockOwner s"
    using s1(3) dispatch_inv [OF inv_ready [OF r]] by auto
  then show ?thesis using s1 resume_ok [OF s1(2)] by (auto simp: owners_kept_def)
qed

lemma finish_ginv:
  assumes r: "at_rest s" "\<not> idling s"
  shows "\<exists>s1. Finish s = Some s1 \<and> ginv s1 \<and> lockOwner s1 = lockOwner s
    \<and> Sleep (s\<lparr>threadToBeDestroyed := Some (currentThread s)\<rparr>) = Some s1"
proof -
  note D = at_restD [OF r]
  let ?s = "s\<lparr>threadToBeDestroyed := Some (currentThread s)\<rparr>"
  have "cinv None (setStatus (currentThread s) BLOCKED ?s)" using D(2,4) by (simp add: cinv_def woken_def)
  moreover have "linv None (setStatus (currentThread s) BLOCKED ?s)" using D(5,9) by (simp add: linv_def)
  ultimately have "kinv None (setStatus (currentThread ?s) BLOCKED ?s)"
    using finish_tinv [OF D(3,2,7)] D(6) by (simp add: kinv_def ids_ok_def)
  from Sleep_ginv [OF this] show ?thesis using D(7) by (auto simp: Finish_def)
qed

lemma finish_ok:
  assumes r: "at_rest s" "\<not> idling s"
  shows "\<exists>s1 s'. Finish s = Some s1 \<and> resume s1 = Some s' \<and> at_rest s' \<and> owners_kept s s'"
  using finish_ginv [OF r] resume_ok by (fastforce simp: owners_kept_def)

lemma new_thread_upd [simp]:
  "status_of (s\<lparr>threads := (threads s)(t \<mapsto> th)\<rparr>) t' = (if t' = t then Some (tstatus th) else status_of s t')"
  "frames_of (s\<lparr>threads := (threads s)(t \<mapsto> th)\<rparr>) t' = (if t' = t then frames th else frames_of s t')"
  "GetThreadId (s\<lparr>threads := (threads s)(t \<mapsto> th)\<rparr>) t' = (if t' = t then Some (threadId th) else GetThreadId s t')"
  "status_of (s\<lparr>tidMap := m\<rparr>) t' = status_of s t'" "frames_of (s\<lparr>tidMap := m\<rparr>) t' = frames_of s t'"
  "GetThreadId (s\<lparr>tidMap := m\<rparr>) t' = GetThreadId s t'"
  "status_of (s\<lparr>lastId := n\<rparr>) t' = status_of s t'" "frames_of (s\<lparr>lastId := n\<rparr>) t' = frames_of s t'"
  "GetThreadId (s\<lparr>lastId := n\<rparr>) t' = GetThreadId s t'"
  by (simp_all add: status_of_def frames_of_def GetThreadId_def)

lemma GetNewThreadId_ok:
  assumes "bitmap_wf (tidMap s)" "0 \<le> lastId s" "0 < numBits (tidMap s)" "marked (tidMap s) \<noteq> {0..<numBits (tidMap s)}"
  obtains tid m where "GetNewThreadId s = Some (tid, s\<lparr>tidMap := m, lastId := tid + 1\<rparr>)" "0 \<le> tid" "tid \<notin> marked (tidMap s)"
    "bitmap_wf m" "numBits m = numBits (tidMap s)" "marked m = insert tid (marked (tidMap s))"
proof -
  obtain k m where m: "BitMap_FindStart (tidMap s) (lastId s) = Some (k, m)" "bitmap_wf m" "numBits m = numBits (tidMap s)"
      "\<exists>j. k = (lastId s + j) mod numBits (tidMap s) \<and> k \<notin> marked (tidMap s) \<and> marked m = insert k (marked (tidMap s))"
    using FindStart_spec [OF assms(1-3)] assms(4) by blast
  have "0 \<le> k" using m(4) assms(3) by auto
  then show thesis using that [of k m] m by (auto simp: GetNewThreadId_def)
qed

lemma fork_ok:
  assumes r: "at_rest s" "\<not> idling s" and ok: "call_ok (Call_Fork t) s"
  shows "\<exists>s'. kernel_call (Call_Fork t) s = Some s' \<and> at_rest s' \<and> lockOwner s' = lockOwner s"
proof -
  note D = at_restD [OF r]
  have t: "threads s t = None" "marked (tidMap s) \<noteq> {0..<numBits (tidMap s)}" using ok by simp_all
  obtain tid m where m: "GetNewThreadId s = Some (tid, s\<lparr>tidMap := m, lastId := tid + 1\<rparr>)" "0 \<le> tid" "tid \<notin> marked (tidMap s)"
      "bitmap_wf m" "numBits m = numBits (tidMap s)" "marked m = insert tid (marked (tidMap s))"
    by (rule GetNewThreadId_ok [of s]) (use D(6) t(2) in \<open>simp_all add: ids_ok_def\<close>)
  define s1 where "s1 = s\<lparr>tidMap := m, lastId := tid + 1,
      threads := (threads s)(t \<mapsto> \<lparr>threadId = tid, tstatus = JUST_CREATED, frames = []\<rparr>)\<rparr>"
  define s2 where "s2 = ReadyToRun t s1"
  have call: "kernel_call (Call_Fork t) s = Some s2"
    using m(1) by (simp add: Thread_new_def Fork_def s2_def s1_def)
  have dead: "status_of s t = None" "frames_of s t = []" "GetThreadId s t = None"
    using t(1) by (simp_all add: status_of_def frames_of_def GetThreadId_def)
  have F: "status_of s2 x = (if x = t then Some READY else status_of s x)" "frames_of s2 x = frames_of s x"
      "GetThreadId s2 x = (if x = t then Some tid else GetThreadId s x)" for x
  proof -
    have "status_of s1 x = (if x = t then Some JUST_CREATED else status_of s x)" "frames_of s1 x = frames_of s x"
      "GetThreadId s1 x = (if x = t then Some tid else GetThreadId s x)" for x
      using dead by (simp_all add: s1_def status_of_def frames_of_def GetThreadId_def)
    then show "status_of s2 x = (if x = t then Some READY else status_of s x)" "frames_of s2 x = frames_of s x"
      "GetThreadId s2 x = (if x = t then Some tid else GetThreadId s x)"
      by (simp_all add: s2_def)
  qed
  have G: "readyList s2 = readyList s @ [t]" "sems s2 = sems s" "waitQueue s2 = waitQueue s" "lockOwner s2 = lockOwner s"
      "threadToBeDestroyed s2 = threadToBeDestroyed s" "currentThread s2 = currentThread s" "idling s2 = idling s"
      "tidMap s2 = m" "lastId s2 = tid + 1"
    by (simp_all add: s2_def s1_def)
  note T = tinvD [OF D(3)]
  have ct: "currentThread s \<noteq> t" using D(8) dead(1) by auto
  have "tinv (Some (currentThread s)) s2"
    unfolding tinv_def using dead ct T(11) by (intro conjI allI) (auto simp: F G T(1-10))
  moreover have "cinv (Some (currentThread s)) s2" using D(4) dead(2) by (simp add: cinv_def woken_def F G)
  moreover have "linv (Some (currentThread s)) s2" using D(5) by (simp add: linv_def acquiring_def F G)
  moreover have "ids_ok s2"
    using D(6) m by (auto simp: ids_ok_def F G split: if_splits)
  ultimately have "at_rest s2" using D(2,7) r(2) by (simp add: at_rest_def ginv_def kinv_def running_def F G)
  then show ?thesis using call G(4) by blast
qed

lemma interrupt_ok:
  assumes "at_rest s"
  shows "\<exists>s'. interrupt_V n s = Some s' \<and> at_rest s' \<and> owners_kept s s'"
proof (cases "idling s")
  case False
  then show ?thesis
    using V_at_rest [OF assms False, of n] by (simp add: interrupt_V_def owners_kept_def)
next
  case True
  have "kinv None (V (Sem n) s)"
    using V_inv [of None s n] assms True by (simp add: at_rest_def ginv_def running_def)
  then obtain s1 where s1: "dispatch (V (Sem n) s) = Some s1" "ginv s1" "lockOwner s1 = lockOwner s"
    using dispatch_inv [of "V (Sem n) s"] by (auto simp: ginv_def)
  then show ?thesis
    using resume_ok [OF s1(2)] True by (auto simp: interrupt_V_def Let_def owners_kept_def)
qed

text \<open>Every call that the running thread may make returns and keeps the invariant.\<close>

lemma kernel_call_ok:
  assumes r: "at_rest s" "\<not> idling s" and ok: "call_ok c s"
  shows "\<exists>s'. kernel_call c s = Some s' \<and> at_rest s' \<and>
    (\<forall>l. lockOwner s l \<noteq> - 1 \<longrightarrow> lockOwner s' l \<noteq> lockOwner s l \<longrightarrow>
      isHeldByCurrentThread l s \<and> (c = Call_Release l \<or> (\<exists>cd. c = Call_Wait cd l)))"
proof (cases c)
  case (Call_P n)
  then show ?thesis using enter_ok [OF r, of "[In_P (Sem n)]"] by (auto simp: P_def owners_kept_def)
next
  case (Call_V n)
  then show ?thesis using V_at_rest [OF r, of n] by simp
next
  case (Call_Acquire l)
  then show ?thesis
    using enter_ok [OF r, of "[In_P (LockSem l), In_Acquire l]"] by (auto simp: Acquire_def owners_kept_def)
next
  case (Call_Release l)
  then show ?thesis using release_inv [OF r] ok by (simp add: Release_def)
next
  case (Call_Wait cd l)
  then show ?thesis using wait_ok [OF r, of l cd] ok by auto
next
  case (Call_Signal cd l)
  then show ?thesis
    using r ok signal_at_rest [OF r, of cd] by (cases "waitQueue s cd") (simp_all add: Signal_def)
next
  case (Call_Broadcast cd l)
  then show ?thesis
    using ok broadcast_at_rest [OF r refl, of cd] by (simp add: Broadcast_def)
next
  case Call_Yield
  then show ?thesis using yield_ok [OF r] by (auto simp: owners_kept_def)
next
  case (Call_Fork t)
  obtain s' where "kernel_call c s = Some s'" "at_rest s'" "lockOwner s' = lockOwner s"
    using fork_ok [OF r, of t] ok by (auto simp only: Call_Fork)
  then show ?thesis by simp
next
  case Call_Finish
  then show ?thesis using finish_ok [OF r] by (auto simp: owners_kept_def)
qed

inductive_cases kstepE: "kstep s s'"

lemma kstep_at_rest:
  assumes "kstep s s'" "at_rest s"
  shows "at_rest s'"
  using assms(1)
proof (rule kstepE)
  fix c assume "\<not> idling s" "call_ok c s" "kernel_call c s = Some s'"
  then show ?thesis using kernel_call_ok [OF assms(2)] by fastforce
next
  fix n assume "interrupt_V n s = Some s'"
  then show ?thesis using interrupt_ok [OF assms(2), of n] by auto
qed

lemma kreachable_at_rest: "kreachable s s' \<Longrightarrow> at_rest s \<Longrightarrow> at_rest s'"
  by (induction rule: kreachable.induct) (auto intro: kstep_at_rest)

lemma boot_at_rest:
  assumes "0 < maxThreads" "\<forall>n. 0 \<le> init n"
  shows "\<exists>s. boot heap maxThreads init main = Some s \<and> at_rest s"
proof -
  obtain m where m: "BitMap_new heap (int maxThreads) = Some m" "bitmap_wf m" "numBits m = int maxThreads" "marked m = {}"
    by (rule new_spec [of "int maxThreads" heap]) simp_all
  define s0 where "s0 = \<lparr>currentThread = main, idling = False, threads = Map.empty, readyList = [],
        sems = (\<lambda>i. Semaphore_new (case i of Sem n \<Rightarrow> init n | LockSem l \<Rightarrow> 1)), lockOwner = (\<lambda>l. - 1),
        waitQueue = (\<lambda>c. []), threadToBeDestroyed = None, tidMap = m, lastId = 0\<rparr>"
  have ne: "marked m \<noteq> {0..<numBits m}" using m(3,4) assms(1) by auto
  obtain tid m' where m': "GetNewThreadId s0 = Some (tid, s0\<lparr>tidMap := m', lastId := tid + 1\<rparr>)" "0 \<le> tid"
      "bitmap_wf m'" "numBits m' = numBits m" "marked m' = insert tid (marked m)"
    by (rule GetNewThreadId_ok [of s0]) (use m assms(1) ne in \<open>simp_all add: s0_def\<close>)
  define s1 where "s1 = setStatus main RUNNING (s0\<lparr>tidMap := m', lastId := tid + 1,
      threads := [main \<mapsto> \<lparr>threadId = tid, tstatus = JUST_CREATED, frames = []\<rparr>]\<rparr>)"
  have b: "boot heap maxThreads init main = Some s1"
    using m(1) m'(1) by (simp add: boot_def Thread_new_def s1_def flip: s0_def) (simp add: s0_def)
  have F: "status_of s1 t = (if t = main then Some RUNNING else None)" "frames_of s1 t = []"
      "GetThreadId s1 t = (if t = main then Some tid else None)" for t
    by (simp_all add: s1_def s0_def status_of_def frames_of_def GetThreadId_def setStatus_def upd_thread_def)
  have G: "currentThread s1 = main" "idling s1 = False" "readyList s1 = []" "lockOwner s1 l = - 1" "waitQueue s1 c = []"
      "threadToBeDestroyed s1 = None" "tidMap s1 = m'" "lastId s1 = tid + 1"
      "sems s1 i = \<lparr>sem_value = (case i of Sem n \<Rightarrow> init n | LockSem l \<Rightarrow> 1), sem_queue = []\<rparr>" for l c i
    by (simp_all add: s1_def s0_def setStatus_def upd_thread_def Semaphore_new_def)
  have "tinv (Some main) s1" by (auto simp: tinv_def F G)
  moreover have "cinv (Some main) s1" "linv (Some main) s1"
    using assms(2) by (auto simp: cinv_def linv_def acquiring_def F G split: semid.splits)
  moreover have "ids_ok s1" using m' m(3) assms(1) by (auto simp: ids_ok_def F G)
  ultimately have "at_rest s1" by (simp add: at_rest_def ginv_def kinv_def running_def F G)
  then show ?thesis using b by blast
qed

lemma reachable_at_rest:
  assumes "boot heap maxThreads init main = Some s0" "0 < maxThreads" "\<forall>n. 0 \<le> init n" "kreachable s0 s"
  shows "at_rest s"
  using boot_at_rest [OF assms(2,3), of heap main] assms(1,4) kreachable_at_rest by auto

section \<open>Properties\<close>



text \<open>
  C13. Locks exclude. In every reachable state the semaphore of a lock is 1 if the lock is free and 0 if a thread
  owns it; and while a thread owns a lock, no step of the kernel changes the owner, unless that thread
  itself is running and releases the lock or waits on a condition with it.
\<close>

theorem locks_exclude:
  assumes "boot heap maxThreads init main = Some s0" "0 < maxThreads" "\<forall>n. 0 \<le> init n" "kreachable s0 s"
  shows "sem_value (sems s (LockSem l)) = (if lockOwner s l = - 1 then 1 else 0) \<and>
     (kstep s s' \<and> lockOwner s l \<noteq> - 1 \<and> lockOwner s' l \<noteq> lockOwner s l \<longrightarrow> \<not> idling s \<and> isHeldByCurrentThread l s)"
proof
  have r: "at_rest s" using reachable_at_rest [OF assms] .
  have "\<not> acquiring (running s) s l"
    using at_restD(9) [OF r] by (cases "idling s") (simp_all add: running_def)
  then show "sem_value (sems s (LockSem l)) = (if lockOwner s l = - 1 then 1 else 0)"
    using r by (simp add: at_rest_def ginv_def kinv_def linv_def)
  show "kstep s s' \<and> lockOwner s l \<noteq> - 1 \<and> lockOwner s' l \<noteq> lockOwner s l \<longrightarrow> \<not> idling s \<and> isHeldByCurrentThread l s"
  proof (intro impI, elim conjE)
    assume st: "kstep s s'" and o: "lockOwner s l \<noteq> - 1" "lockOwner s' l \<noteq> lockOwner s l"
    from st show "\<not> idling s \<and> isHeldByCurrentThread l s"
    proof (rule kstepE)
      fix c assume "\<not> idling s" "call_ok c s" "kernel_call c s = Some s'"
      then show ?thesis using kernel_call_ok [OF r, of c] o by auto
    next
      fix n assume "interrupt_V n s = Some s'"
      then show ?thesis using interrupt_ok [OF r, of n] o by (auto simp: owners_kept_def)
    qed
  qed
qed

theorem locks_exclude_witness:
  "\<exists>s0. boot (\<lambda>_. 0) 4 (\<lambda>_. 1) 7 = Some s0 \<and> sem_value (sems s0 (LockSem 2)) = (if lockOwner s0 2 = - 1 then 1 else 0)"
proof -
  obtain s0 where b: "boot (\<lambda>_. 0) 4 (\<lambda>_. 1) 7 = Some s0" using boot_at_rest [of 4 "\<lambda>_. 1" "\<lambda>_. 0" 7] by auto
  show ?thesis using b locks_exclude [OF b _ _ kreachable.start, of 2] by auto
qed

text \<open>
  C19. No wakeup is lost. In every reachable state the value of a semaphore is not negative, and when threads
  wait for it, at least as many threads as its value have been woken up and are ready to take it. So when
  the kernel idles, every semaphore that a thread waits for is 0.
\<close>

theorem no_lost_wakeup:
  assumes "boot heap maxThreads init main = Some s0" "0 < maxThreads" "\<forall>n. 0 \<le> init n" "kreachable s0 s"
  shows "0 \<le> sem_value (sems s i) \<and>
     (sem_queue (sems s i) \<noteq> [] \<longrightarrow>
        sem_value (sems s i) \<le> int (length (filter (\<lambda>t. head_P (frames_of s t) = Some i) (readyList s)))) \<and>
     (idling s \<longrightarrow> readyList s = [] \<and> (sem_queue (sems s i) \<noteq> [] \<longrightarrow> sem_value (sems s i) = 0))"
proof -
  have r: "at_rest s" using reachable_at_rest [OF assms] .
  have c: "cinv (running s) s" "idling s \<longrightarrow> readyList s = []" using r by (simp_all add: at_rest_def ginv_def kinv_def)
  have "woken (running s) s i = length (filter (\<lambda>t. head_P (frames_of s t) = Some i) (readyList s))"
    using at_restD(2) [OF r] by (cases "idling s") (auto simp: woken_def running_def)
  then have "0 \<le> sem_value (sems s i)" "sem_queue (sems s i) \<noteq> [] \<longrightarrow>
      sem_value (sems s i) \<le> int (length (filter (\<lambda>t. head_P (frames_of s t) = Some i) (readyList s)))"
    using c(1) [unfolded cinv_def, THEN spec, of i] by simp_all
  then show ?thesis using c(2) by auto
qed

theorem no_lost_wakeup_witness:
  "\<exists>s0. boot (\<lambda>_. 0) 4 (\<lambda>_. 1) 7 = Some s0 \<and> 0 \<le> sem_value (sems s0 (Sem 3))"
proof -
  obtain s0 where b: "boot (\<lambda>_. 0) 4 (\<lambda>_. 1) 7 = Some s0" using boot_at_rest [of 4 "\<lambda>_. 1" "\<lambda>_. 0" 7] by auto
  show ?thesis using b no_lost_wakeup [OF b _ _ kreachable.start, of "Sem 3"] by auto
qed

text \<open>
  C31. The primitives return control. In every reachable state, each call that the running thread may make ends,
  with no assertion of the thread system violated: afterwards the kernel idles or some thread runs its own
  code. The same holds for a semaphore signalled by an interrupt. A thread must hold the lock it releases,
  waits with or signals with, and an id must be free for a new thread.
\<close>

theorem primitives_return:
  assumes "boot heap maxThreads init main = Some s0" "0 < maxThreads" "\<forall>n. 0 \<le> init n" "kreachable s0 s"
  shows "(\<not> idling s \<and> call_ok c s \<longrightarrow>
       (\<exists>s'. kernel_call c s = Some s' \<and> (idling s' \<or> frames_of s' (currentThread s') = []))) \<and>
     (\<exists>s'. interrupt_V n s = Some s' \<and> (idling s' \<or> frames_of s' (currentThread s') = []))"
proof -
  have r: "at_rest s" using reachable_at_rest [OF assms] .
  show ?thesis
    using kernel_call_ok [OF r, of c] interrupt_ok [OF r, of n] by (fastforce simp: at_rest_def)
qed

theorem primitives_return_witness:
  "\<exists>s0 s'. boot (\<lambda>_. 0) 4 (\<lambda>_. 1) 7 = Some s0 \<and> interrupt_V 5 s0 = Some s'"
proof -
  obtain s0 where b: "boot (\<lambda>_. 0) 4 (\<lambda>_. 1) 7 = Some s0" using boot_at_rest [of 4 "\<lambda>_. 1" "\<lambda>_. 0" 7] by auto
  show ?thesis using b primitives_return [OF b _ _ kreachable.start, of Call_Yield 5] by auto
qed

text \<open>
  When the thread ids are exhausted, a new thread gets the id \<open>-1\<close>, which also marks a free lock: that thread may
  release a lock that nobody holds, and its semaphore becomes 2.
\<close>

lemma missing_id_breaks_lock:
  assumes "GetThreadId s (currentThread s) = Some (- 1)" "lockOwner s l = - 1"
    and "sem_value (sems s (LockSem l)) = 1" "sem_queue (sems s (LockSem l)) = []"
  shows "\<exists>s'. Release l s = Some s' \<and> sem_value (sems s' (LockSem l)) = 2"
  using assms by (simp add: Release_def isHeldByCurrentThread_def)

end
