(* ===== verification/AddrSpace.thy ===== *)
theory AddrSpace
  imports Bitmap FileHdr Machine
begin

text \<open>
  Page frames and the address spaces of user processes: src/code/userprog/frameprovider.cc,
  frameprovider.h, addrspace.cc, addrspace.h and src/code/bin/noff.h.

  \<open>Procs\<close> is the kernel state these files share: the machine, the frame provider, the table of processes
  by pid and the address spaces, objects at addresses (a pid is given back before its space is deleted,
  so that a pid does not identify a space). The code between \<open>AcquireFpLock\<close> and \<open>ReleaseFpLock\<close> does not
  give up the processor, and is one step here; so are \<open>ReleaseFrames\<close> and \<open>GetNewPid\<close>. The machine works
  on the array of entries of the installed space; only use and dirty bits change there, which the
  kernel never reads. The conditions on which threads join a process belong to \<open>Threads\<close>.

  \<open>heap k\<close> and \<open>stale k\<close> are what the \<open>k\<close>-th allocation of an operation finds in its memory.
\<close>

section \<open>Model\<close>

subsection \<open>Frame provider\<close>

record FrameProvider =
  frameMap :: BitMap
  nAvailFrame :: int

definition FrameProvider_new :: "(nat \<Rightarrow> u32) \<Rightarrow> FrameProvider option" where
  "FrameProvider_new heap = do {
     b \<leftarrow> BitMap_new heap (int NumPhysPages);
     Some \<lparr>frameMap = b, nAvailFrame = int NumPhysPages\<rparr>
   }"

definition FindFreeFrame :: "FrameProvider \<Rightarrow> (int \<times> FrameProvider) option" where
  "FindFreeFrame fp = do {
     (idx, b) \<leftarrow> BitMap_Find (frameMap fp);
     Some (idx, fp\<lparr>frameMap := b\<rparr>)
   }"

definition GetEmptyFrame :: "FrameProvider \<Rightarrow> Machine \<Rightarrow> (int \<times> FrameProvider \<times> Machine) option" where
  "GetEmptyFrame fp m = do {
     (idx, fp) \<leftarrow> FindFreeFrame fp;
     if idx \<noteq> - 1
     then Some (idx, fp\<lparr>nAvailFrame := nAvailFrame fp - 1\<rparr>,
            m\<lparr>mainMemory := poke (mainMemory m) (PageSize * nat idx) (replicate PageSize 0)\<rparr>)
     else Some (idx, fp, m)
   }"

definition ReleaseFrame :: "FrameProvider \<Rightarrow> int \<Rightarrow> FrameProvider option" where
  "ReleaseFrame fp frame = do {
     b \<leftarrow> BitMap_Clear (frameMap fp) frame;
     Some (fp\<lparr>frameMap := b, nAvailFrame := nAvailFrame fp + 1\<rparr>)
   }"

definition NumAvailFrame :: "FrameProvider \<Rightarrow> int" where
  "NumAvailFrame fp = nAvailFrame fp"

subsection \<open>Address spaces\<close>

abbreviation UserStackSize :: int where "UserStackSize \<equiv> 2048"
abbreviation ThreadStackSize :: int where "ThreadStackSize \<equiv> 256"
abbreviation MaxThreadsPerProcess :: nat where "MaxThreadsPerProcess \<equiv> 7"
abbreviation MaxProcesses :: int where "MaxProcesses \<equiv> 2096"
abbreviation MaxThreads :: int where "MaxThreads \<equiv> 14672"
abbreviation MAX_SEM :: int where "MAX_SEM \<equiv> 128"

record thread_info =
  addrspace_idx :: int
  userthread_id :: u32
  thread_id :: int

record AddrSpace =
  pid :: int
  as_pageTable :: "TranslationEntry list"
  numPages :: u32
  brk :: u32
  nThreads :: int
  nextUserThreadid :: u32
  threadsBitmap :: BitMap
  localThreadsInfos :: "thread_info option list"
  stackStartAddrs :: "int list"
  semBitmap :: BitMap

record Procs =
  mach :: Machine
  fprov :: FrameProvider
  pidMap :: BitMap
  lastPid :: int
  addrspaces :: "int \<rightharpoonup> nat"
  spaces :: "nat \<rightharpoonup> AddrSpace"
  threadsInfos :: "int \<rightharpoonup> thread_info"

definition GetNewPid :: "Procs \<Rightarrow> (int \<times> Procs) option" where
  "GetNewPid ps = do {
     (p, b) \<leftarrow> BitMap_FindStart (pidMap ps) (lastPid ps);
     Some (p, ps\<lparr>pidMap := b, lastPid := p + 1\<rparr>)
   }"

text \<open>The loop over the page table of both constructors and of \<open>do_Sbrk\<close>: entries \<open>i, i + 1, \<dots>\<close>.\<close>

definition new_entry :: "nat \<Rightarrow> int \<Rightarrow> TranslationEntry" where
  "new_entry i f = \<lparr>virtualPage = of_nat i, physicalPage = of_int f, valid = True, readOnly = False,
     use = False, dirty = False\<rparr>"

fun fill_table :: "nat \<Rightarrow> nat \<Rightarrow> FrameProvider \<Rightarrow> Machine
    \<Rightarrow> (TranslationEntry list \<times> FrameProvider \<times> Machine) option" where
  "fill_table i 0 fp m = Some ([], fp, m)"
| "fill_table i (Suc n) fp m = do {
     (f, fp, m) \<leftarrow> GetEmptyFrame fp m;
     (pt, fp, m) \<leftarrow> fill_table (Suc i) n fp m;
     Some (new_entry i f # pt, fp, m)
   }"

text \<open>The section under the lock of the frame provider, with its assertions.\<close>

definition build_table :: "u32 \<Rightarrow> Procs \<Rightarrow> (TranslationEntry list \<times> Procs) option" where
  "build_table nPages ps = do {
     ASSERT (nPages \<le> of_int (NumAvailFrame (fprov ps)));
     ASSERT (nPages \<le> 2096);
     (pt, fp, m) \<leftarrow> fill_table 0 (unat nPages) (fprov ps) (mach ps);
     Some (pt, ps\<lparr>fprov := fp, mach := m\<rparr>)
   }"

definition GetSize :: "AddrSpace \<Rightarrow> int" where
  "GetSize sp = sint (numPages sp * 128)"

fun stack_loop :: "nat \<Rightarrow> int \<Rightarrow> int list" where
  "stack_loop 0 curr_addr = []"
| "stack_loop (Suc n) curr_addr = curr_addr # stack_loop n (curr_addr - ThreadStackSize)"

definition InitializeThreadData :: "(nat \<Rightarrow> u32) \<Rightarrow> AddrSpace \<Rightarrow> AddrSpace option" where
  "InitializeThreadData heap sp = do {
     b \<leftarrow> BitMap_new heap (int MaxThreadsPerProcess);
     Some (sp\<lparr>threadsBitmap := b, localThreadsInfos := replicate MaxThreadsPerProcess None,
       stackStartAddrs := stack_loop MaxThreadsPerProcess (GetSize sp - 16 - ThreadStackSize)\<rparr>)
   }"

text \<open>
  What both constructors do last. \<open>blank\<close> is the fresh object: its bit maps are set by
  \<open>InitializeThreadData\<close> and by \<open>new BitMap(MAX_SEM)\<close>.
\<close>

definition blank :: "int \<Rightarrow> TranslationEntry list \<Rightarrow> u32 \<Rightarrow> int \<Rightarrow> AddrSpace" where
  "blank p pt n nt = \<lparr>pid = p, as_pageTable = pt, numPages = n, brk = n * 128, nThreads = nt,
     nextUserThreadid = 1, threadsBitmap = \<lparr>numBits = 0, numWords = 0, words = []\<rparr>, localThreadsInfos = [],
     stackStartAddrs = [], semBitmap = \<lparr>numBits = 0, numWords = 0, words = []\<rparr>\<rparr>"

definition finish_space :: "(nat \<Rightarrow> nat \<Rightarrow> u32) \<Rightarrow> nat \<Rightarrow> AddrSpace \<Rightarrow> Procs \<Rightarrow> Procs option" where
  "finish_space heap a sp ps = do {
     sp \<leftarrow> InitializeThreadData (heap 0) sp;
     b \<leftarrow> BitMap_new (heap 1) MAX_SEM;
     Some (ps\<lparr>spaces := (spaces ps)(a \<mapsto> sp\<lparr>semBitmap := b\<rparr>)\<rparr>)
   }"

text \<open>The pid and the store into \<open>addrspaces\<close>, whose index must be in range.\<close>

definition new_process :: "nat \<Rightarrow> Procs \<Rightarrow> (int \<times> Procs) option" where
  "new_process a ps = do {
     (p, ps) \<leftarrow> GetNewPid ps;
     ASSERT (0 \<le> p \<and> p < MaxProcesses);
     Some (p, ps\<lparr>addrspaces := (addrspaces ps)(p \<mapsto> a)\<rparr>)
   }"

text \<open>
  \<open>AddrSpace(unsigned)\<close>, the space of a process that arrives over the network; \<open>a\<close> is the address of the
  object. It does not set \<open>nThreads\<close>, which keeps the value \<open>nt\<close> found in memory.
\<close>

definition AddrSpace_empty :: "(nat \<Rightarrow> nat \<Rightarrow> u32) \<Rightarrow> int \<Rightarrow> nat \<Rightarrow> u32 \<Rightarrow> Procs \<Rightarrow> Procs option" where
  "AddrSpace_empty heap nt a nPages ps = do {
     (p, ps) \<leftarrow> new_process a ps;
     (pt, ps) \<leftarrow> build_table nPages ps;
     finish_space heap a (blank p pt nPages nt) ps
   }"

subsection \<open>Loading a program\<close>

abbreviation NOFFMAGIC :: u32 where "NOFFMAGIC \<equiv> 0xbadfad"

record Segment =
  virtualAddr :: u32
  inFileAddr :: u32
  seg_size :: u32

record NoffHeader =
  noffMagic :: u32
  code :: Segment
  initData :: Segment
  uninitData :: Segment

definition noff_segment :: "byte list \<Rightarrow> nat \<Rightarrow> Segment" where
  "noff_segment bs k = \<lparr>virtualAddr = unle32 (drop k bs), inFileAddr = unle32 (drop (k + 4) bs),
     seg_size = unle32 (drop (k + 8) bs)\<rparr>"

definition noff_header :: "byte list \<Rightarrow> NoffHeader" where
  "noff_header bs = \<lparr>noffMagic = unle32 bs, code = noff_segment bs 4, initData = noff_segment bs 16,
     uninitData = noff_segment bs 28\<rparr>"

definition swap_segment :: "Segment \<Rightarrow> Segment" where
  "swap_segment s = \<lparr>virtualAddr = WordToHost (virtualAddr s), inFileAddr = WordToHost (inFileAddr s),
     seg_size = WordToHost (seg_size s)\<rparr>"

definition SwapHeader :: "NoffHeader \<Rightarrow> NoffHeader" where
  "SwapHeader h = \<lparr>noffMagic = WordToHost (noffMagic h), code = swap_segment (code h),
     initData = swap_segment (initData h), uninitData = swap_segment (uninitData h)\<rparr>"

fun copy_in :: "handler \<Rightarrow> Machine \<Rightarrow> u32 \<Rightarrow> byte list \<Rightarrow> Machine option" where
  "copy_in eh m va [] = Some m"
| "copy_in eh m va (b # bs) = do {
     (_, m) \<leftarrow> WriteMem eh m va 1 (scast b);
     copy_in eh m (va + 1) bs
   }"

text \<open>
  \<open>ReadAtVirtual\<close> returns the page table too: it is the array the machine has worked on. The buffer is
  \<open>numBytes\<close> long; what \<open>ReadAt\<close> does not fill of it is stale.
\<close>

definition ReadAtVirtual :: "handler \<Rightarrow> (nat \<Rightarrow> byte) \<Rightarrow> dev \<Rightarrow> OpenFile \<Rightarrow> Segment \<Rightarrow> TranslationEntry list
    \<Rightarrow> u32 \<Rightarrow> Machine \<Rightarrow> (TranslationEntry list \<times> Machine) option" where
  "ReadAtVirtual eh stale v executable s pt nPages m = do {
     let numBytes = sint (seg_size s);
     let m = m\<lparr>pageTable := Some pt, pageTableSize := nPages\<rparr>;
     bs \<leftarrow> ReadAt v (hdr executable) numBytes (sint (inFileAddr s));
     let into = overlay (map stale [0..<nat numBytes]) 0 bs;
     m \<leftarrow> copy_in eh m (virtualAddr s) into;
     pt \<leftarrow> pageTable m;
     Some (pt, m)
   }"

definition load_segment :: "handler \<Rightarrow> (nat \<Rightarrow> byte) \<Rightarrow> dev \<Rightarrow> OpenFile \<Rightarrow> Segment \<Rightarrow> TranslationEntry list
    \<Rightarrow> u32 \<Rightarrow> Machine \<Rightarrow> (TranslationEntry list \<times> Machine) option" where
  "load_segment eh stale v executable s pt nPages m =
     (if sint (seg_size s) > 0 then ReadAtVirtual eh stale v executable s pt nPages m else Some (pt, m))"

definition read_header :: "(nat \<Rightarrow> byte) \<Rightarrow> dev \<Rightarrow> OpenFile \<Rightarrow> NoffHeader option" where
  "read_header stale v executable = do {
     bs \<leftarrow> ReadAt v (hdr executable) 40 0;
     let noffH = noff_header (overlay (map stale [0..<40]) 0 bs);
     let noffH = (if noffMagic noffH \<noteq> NOFFMAGIC \<and> WordToHost (noffMagic noffH) = NOFFMAGIC
                  then SwapHeader noffH else noffH);
     ASSERT (noffMagic noffH = NOFFMAGIC);
     Some noffH
   }"

definition space_pages :: "NoffHeader \<Rightarrow> u32" where
  "space_pages h =
     (let size = seg_size (code h) + seg_size (initData h) + seg_size (uninitData h) + of_int UserStackSize
      in size div 128 + (if size mod 128 > 0 then 1 else 0))"

definition AddrSpace_load :: "(nat \<Rightarrow> nat \<Rightarrow> u32) \<Rightarrow> (nat \<Rightarrow> nat \<Rightarrow> byte) \<Rightarrow> handler \<Rightarrow> dev \<Rightarrow> OpenFile \<Rightarrow> nat
    \<Rightarrow> Procs \<Rightarrow> Procs option" where
  "AddrSpace_load heap stale eh v executable a ps = do {
     (p, ps) \<leftarrow> new_process a ps;
     noffH \<leftarrow> read_header (stale 0) v executable;
     let nPages = space_pages noffH;
     (pt, ps) \<leftarrow> build_table nPages ps;
     (pt, m) \<leftarrow> load_segment eh (stale 1) v executable (code noffH) pt nPages (mach ps);
     (pt, m) \<leftarrow> load_segment eh (stale 2) v executable (initData noffH) pt nPages m;
     finish_space heap a (blank p pt nPages 0) (ps\<lparr>mach := m\<rparr>)
   }"

subsection \<open>The other operations of an address space\<close>

fun release_frames :: "TranslationEntry list \<Rightarrow> FrameProvider \<Rightarrow> FrameProvider option" where
  "release_frames [] fp = Some fp"
| "release_frames (e # es) fp = do {
     fp \<leftarrow> ReleaseFrame fp (sint (physicalPage e));
     release_frames es fp
   }"

definition ReleaseFrames :: "AddrSpace \<Rightarrow> FrameProvider \<Rightarrow> FrameProvider option" where
  "ReleaseFrames sp fp = do {
     ASSERT (unat (numPages sp) \<le> length (as_pageTable sp));
     release_frames (take (unat (numPages sp)) (as_pageTable sp)) fp
   }"

text \<open>
  The end of a process gives its pid back (\<open>synchThreadsMainExit\<close>) and, once its threads have ended,
  releases the frames and deletes the space (\<open>endProcess\<close>).
\<close>

definition clear_pid :: "nat \<Rightarrow> Procs \<Rightarrow> Procs option" where
  "clear_pid a ps = do {
     sp \<leftarrow> spaces ps a;
     b \<leftarrow> BitMap_Clear (pidMap ps) (pid sp);
     Some (ps\<lparr>pidMap := b\<rparr>)
   }"

definition delete_space :: "nat \<Rightarrow> Procs \<Rightarrow> Procs option" where
  "delete_space a ps = do {
     sp \<leftarrow> spaces ps a;
     fp \<leftarrow> ReleaseFrames sp (fprov ps);
     Some (ps\<lparr>fprov := fp, spaces := (spaces ps)(a := None)\<rparr>)
   }"

text \<open>\<open>InitRegisters\<close>: the loop over the registers, then the program counters and the stack pointer.\<close>

fun zero_registers :: "nat \<Rightarrow> nat \<Rightarrow> Machine \<Rightarrow> Machine option" where
  "zero_registers i 0 m = Some m"
| "zero_registers i (Suc n) m = do {
     m \<leftarrow> WriteRegister m (int i) 0;
     zero_registers (Suc i) n m
   }"

definition InitRegisters :: "AddrSpace \<Rightarrow> Machine \<Rightarrow> Machine option" where
  "InitRegisters sp m = do {
     m \<leftarrow> zero_registers 0 NumTotalRegs m;
     m \<leftarrow> WriteRegister m (int PCReg) 0;
     m \<leftarrow> WriteRegister m (int NextPCReg) 4;
     WriteRegister m (int StackReg) (numPages sp * 128 - 16)
   }"

definition SaveState :: "AddrSpace \<Rightarrow> Machine \<Rightarrow> Machine" where
  "SaveState sp m = m"

definition RestoreState :: "AddrSpace \<Rightarrow> Machine \<Rightarrow> Machine" where
  "RestoreState sp m = m\<lparr>pageTable := Some (as_pageTable sp), pageTableSize := numPages sp\<rparr>"

definition do_Sbrk :: "nat \<Rightarrow> u32 \<Rightarrow> Procs \<Rightarrow> (u32 \<times> Procs) option" where
  "do_Sbrk a n ps = do {
     sp \<leftarrow> spaces ps a;
     let oldBrk = brk sp;
     if n \<le> of_int (NumAvailFrame (fprov ps)) then do {
       ASSERT (unat (numPages sp) \<le> length (as_pageTable sp));
       let old = take (unat (numPages sp)) (as_pageTable sp);
       (new, fp, m) \<leftarrow> fill_table (unat (numPages sp)) (unat (numPages sp + n) - unat (numPages sp)) (fprov ps) (mach ps);
       let sp = sp\<lparr>as_pageTable := old @ new, numPages := numPages sp + n, brk := (numPages sp + n) * 128\<rparr>;
       Some (oldBrk, ps\<lparr>fprov := fp, mach := RestoreState sp m, spaces := (spaces ps)(a \<mapsto> sp)\<rparr>)
     } else Some (0, ps)
   }"

subsection \<open>Threads of a space\<close>

text \<open>
  \<open>tids\<close> is the global map of thread ids. A \<open>thread_info\<close> is written once, when it is created, so that the
  copy in \<open>localThreadsInfos\<close> and the one in \<open>threadsInfos\<close>, one object in the source, stay equal.
\<close>

definition GetThreadInfoFromTid :: "BitMap \<Rightarrow> Procs \<Rightarrow> int \<Rightarrow> thread_info option option" where
  "GetThreadInfoFromTid tids ps tid =
     (if tid > 0 \<and> tid \<le> MaxThreads then do {
        t \<leftarrow> BitMap_Test tids tid;
        if t then do { ASSERT (tid < MaxThreads); Some (threadsInfos ps tid) } else Some None
      } else Some None)"

definition AllocateThreadData :: "nat \<Rightarrow> int \<Rightarrow> Procs \<Rightarrow> (int \<times> Procs) option" where
  "AllocateThreadData a tid ps = do {
     sp \<leftarrow> spaces ps a;
     (free_idx, b) \<leftarrow> BitMap_Find (threadsBitmap sp);
     let sp = sp\<lparr>threadsBitmap := b\<rparr>;
     if free_idx \<noteq> - 1 then do {
       ASSERT (0 \<le> tid \<and> tid < MaxThreads);
       ASSERT (nat free_idx < length (localThreadsInfos sp));
       let info = \<lparr>addrspace_idx = free_idx, userthread_id = nextUserThreadid sp, thread_id = tid\<rparr>;
       let sp = sp\<lparr>localThreadsInfos := (localThreadsInfos sp)[nat free_idx := Some info],
         nextUserThreadid := nextUserThreadid sp + 1\<rparr>;
       Some (free_idx, ps\<lparr>threadsInfos := (threadsInfos ps)(tid \<mapsto> info), spaces := (spaces ps)(a \<mapsto> sp)\<rparr>)
     } else Some (free_idx, ps\<lparr>spaces := (spaces ps)(a \<mapsto> sp)\<rparr>)
   }"

fun find_userthread :: "AddrSpace \<Rightarrow> u32 \<Rightarrow> nat \<Rightarrow> nat \<Rightarrow> thread_info option option" where
  "find_userthread sp utid i 0 = Some None"
| "find_userthread sp utid i (Suc n) = do {
     t \<leftarrow> BitMap_Test (threadsBitmap sp) (int i);
     if t then do {
       info \<leftarrow> localThreadsInfos sp ! i;
       if userthread_id info = utid then Some (Some info) else find_userthread sp utid (Suc i) n
     } else find_userthread sp utid (Suc i) n
   }"

definition GetThreadInfoFromUserthreadId :: "AddrSpace \<Rightarrow> u32 \<Rightarrow> thread_info option option" where
  "GetThreadInfoFromUserthreadId sp utid = find_userthread sp utid 0 MaxThreadsPerProcess"

definition DeleteThreadData :: "nat \<Rightarrow> int \<Rightarrow> BitMap \<Rightarrow> Procs \<Rightarrow> (BitMap \<times> Procs) option" where
  "DeleteThreadData a tid tids ps = do {
     sp \<leftarrow> spaces ps a;
     t \<leftarrow> BitMap_Test tids tid;
     ASSERT t;
     info \<leftarrow> threadsInfos ps tid;
     t \<leftarrow> BitMap_Test (threadsBitmap sp) (addrspace_idx info);
     ASSERT t;
     b \<leftarrow> BitMap_Clear (threadsBitmap sp) (addrspace_idx info);
     let sp = sp\<lparr>threadsBitmap := b, localThreadsInfos := (localThreadsInfos sp)[nat (addrspace_idx info) := None]\<rparr>;
     tids \<leftarrow> BitMap_Clear tids tid;
     Some (tids, ps\<lparr>spaces := (spaces ps)(a \<mapsto> sp)\<rparr>)
   }"

definition GetStackStartAddr :: "AddrSpace \<Rightarrow> int \<Rightarrow> int option" where
  "GetStackStartAddr sp index = do {
     ASSERT (0 \<le> index \<and> index < int (length (stackStartAddrs sp)));
     Some (stackStartAddrs sp ! nat index)
   }"

section \<open>Frames\<close>

text \<open>The frames in use, and the invariant of the provider: its counter counts the free frames.\<close>

definition taken :: "FrameProvider \<Rightarrow> nat set" where
  "taken fp = {f. int f \<in> marked (frameMap fp)}"

definition fp_ok :: "FrameProvider \<Rightarrow> bool" where
  "fp_ok fp \<longleftrightarrow> bitmap_wf (frameMap fp) \<and> numBits (frameMap fp) = int NumPhysPages
     \<and> nAvailFrame fp = int NumPhysPages - int (card (taken fp))"

lemma taken_range: "fp_ok fp \<Longrightarrow> taken fp \<subseteq> {0..<NumPhysPages}"
  using marked_subset [of "frameMap fp"] by (fastforce simp: taken_def fp_ok_def)

lemma finite_taken: "fp_ok fp \<Longrightarrow> finite (taken fp)"
  using taken_range finite_subset by blast

lemma GetEmptyFrame_spec:
  assumes "fp_ok fp" "0 < nAvailFrame fp"
  obtains f fp' where "GetEmptyFrame fp m
      = Some (int f, fp', m\<lparr>mainMemory := poke (mainMemory m) (PageSize * f) (replicate PageSize 0)\<rparr>)"
    "f < NumPhysPages" "f \<notin> taken fp" "taken fp' = insert f (taken fp)" "fp_ok fp'"
    "nAvailFrame fp' = nAvailFrame fp - 1"
proof -
  have wf: "bitmap_wf (frameMap fp)" "numBits (frameMap fp) = 2096" using assms(1) by (simp_all add: fp_ok_def)
  obtain k b where k: "BitMap_Find (frameMap fp) = Some (k, b)" using bm.find_total [OF wf(1)] by blast
  have "k \<noteq> - 1"
  proof
    assume "k = - 1"
    then have "marked (frameMap fp) = {0..<2096}" using bm.find_full [OF wf(1)] k wf(2) by simp
    then have "taken fp = {0..<2096}" by (auto simp: taken_def)
    then show False using assms by (simp add: fp_ok_def)
  qed
  note hit = bm.find_hit [OF wf(1) k this]
  define f where "f = nat k"
  define fp' where "fp' = fp\<lparr>frameMap := b, nAvailFrame := nAvailFrame fp - 1\<rparr>"
  have f: "k = int f" "f < 2096" "f \<notin> taken fp" using hit wf(2) by (auto simp: f_def taken_def)
  have t': "taken fp' = insert f (taken fp)" using hit f(1) by (auto simp: taken_def fp'_def)
  have "fp_ok fp'"
    using hit wf assms(1) f(3) finite_taken [OF assms(1)] by (simp add: fp_ok_def t' card_insert_if) (simp add: fp'_def)
  moreover have "GetEmptyFrame fp m
      = Some (int f, fp', m\<lparr>mainMemory := poke (mainMemory m) (PageSize * f) (replicate PageSize 0)\<rparr>)"
    using k \<open>k \<noteq> - 1\<close> f(1) by (simp add: GetEmptyFrame_def FindFreeFrame_def fp'_def)
  ultimately show ?thesis using that f(2,3) t' by (simp add: fp'_def)
qed

lemma ReleaseFrame_spec:
  assumes "fp_ok fp" "f \<in> taken fp"
  obtains fp' where "ReleaseFrame fp (int f) = Some fp'" "fp_ok fp'" "taken fp' = taken fp - {f}"
    "nAvailFrame fp' = nAvailFrame fp + 1"
proof -
  have wf: "bitmap_wf (frameMap fp)" "numBits (frameMap fp) = 2096" using assms(1) by (simp_all add: fp_ok_def)
  have "f < 2096" using assms taken_range by fastforce
  then obtain b where b: "BitMap_Clear (frameMap fp) (int f) = Some b" "bitmap_wf b" "numBits b = 2096"
      "marked b = marked (frameMap fp) - {int f}"
    using bm.clear_used [OF wf(1), of "int f"] wf(2) by auto
  define fp' where "fp' = fp\<lparr>frameMap := b, nAvailFrame := nAvailFrame fp + 1\<rparr>"
  have t': "taken fp' = taken fp - {f}" using b(4) by (auto simp: taken_def fp'_def)
  have "card (taken fp) > 0" using assms finite_taken card_gt_0_iff by blast
  then have "fp_ok fp'"
    using assms b finite_taken [OF assms(1)] by (simp add: fp_ok_def t' card_Diff_singleton) (simp add: fp'_def)
  then show ?thesis using that b(1) t' by (simp add: ReleaseFrame_def fp'_def)
qed

subsection \<open>Page tables\<close>

abbreviation frame :: "TranslationEntry \<Rightarrow> nat" where
  "frame e \<equiv> unat (physicalPage e)"

abbreviation frames_in :: "TranslationEntry list \<Rightarrow> nat set" where
  "frames_in pt \<equiv> frame ` set pt"

text \<open>Entry \<open>j\<close> of a table maps page \<open>k + j\<close> to an existing frame, and no frame is mapped twice.\<close>

definition entry_ok :: "nat \<Rightarrow> TranslationEntry \<Rightarrow> bool" where
  "entry_ok i e \<longleftrightarrow> virtualPage e = of_nat i \<and> valid e \<and> \<not> readOnly e \<and> physicalPage e < 2096"

definition table_wf :: "nat \<Rightarrow> TranslationEntry list \<Rightarrow> bool" where
  "table_wf k pt \<longleftrightarrow> (\<forall>j<length pt. entry_ok (k + j) (pt ! j)) \<and> distinct (map frame pt)"

lemma frame_new_entry: "f < 2096 \<Longrightarrow> frame (new_entry i (int f)) = f"
  by (simp add: new_entry_def unsigned_of_nat take_bit_nat_eq_self)

lemma entry_ok_new: "f < 2096 \<Longrightarrow> entry_ok i (new_entry i (int f))"
  using frame_new_entry [of f i] by (simp add: entry_ok_def word_less_nat_alt) (simp add: new_entry_def)

lemma table_wf_Cons: "table_wf k (e # es) \<longleftrightarrow> entry_ok k e \<and> frame e \<notin> frames_in es \<and> table_wf (Suc k) es"
  by (auto simp: table_wf_def nth_Cons split: nat.splits)

lemma table_wf_Nil [simp]: "table_wf k []"
  by (simp add: table_wf_def)

lemma table_wf_append:
  "table_wf k (xs @ ys) \<longleftrightarrow> table_wf k xs \<and> table_wf (k + length xs) ys \<and> frames_in xs \<inter> frames_in ys = {}"
  by (induction xs arbitrary: k) (auto simp: table_wf_Cons)

lemma table_wf_frames: "table_wf k pt \<Longrightarrow> frames_in pt \<subseteq> {0..<NumPhysPages}"
  by (induction pt arbitrary: k) (auto simp: table_wf_Cons entry_ok_def word_less_nat_alt)

lemma table_wf_card: "table_wf k pt \<Longrightarrow> card (frames_in pt) = length pt"
  by (induction pt arbitrary: k) (auto simp: table_wf_Cons)

lemma poke_zero: "poke mem (PageSize * f) (replicate PageSize 0) p = (if p div PageSize = f then 0 else mem p)"
proof -
  have "p div 128 = f \<longleftrightarrow> 128 * f \<le> p \<and> p < 128 * f + 128" by auto
  then show ?thesis by (auto simp: poke_def)
qed

lemma fill_table_spec:
  assumes "fp_ok fp" "int n \<le> nAvailFrame fp"
  shows "\<exists>pt fp' m'. fill_table i n fp m = Some (pt, fp', m') \<and> length pt = n \<and> table_wf i pt
    \<and> frames_in pt \<inter> taken fp = {} \<and> taken fp' = taken fp \<union> frames_in pt \<and> fp_ok fp'
    \<and> nAvailFrame fp' = nAvailFrame fp - int n
    \<and> m' = m\<lparr>mainMemory := (\<lambda>p. if p div PageSize \<in> frames_in pt then 0 else mainMemory m p)\<rparr>"
  using assms
proof (induction n arbitrary: i fp m)
  case 0
  then show ?case by simp
next
  case (Suc n)
  then have "0 < nAvailFrame fp" by simp
  with Suc.prems(1) obtain f fp1 where f: "GetEmptyFrame fp m
      = Some (int f, fp1, m\<lparr>mainMemory := poke (mainMemory m) (PageSize * f) (replicate PageSize 0)\<rparr>)"
    "f < NumPhysPages" "f \<notin> taken fp" "taken fp1 = insert f (taken fp)" "fp_ok fp1"
    "nAvailFrame fp1 = nAvailFrame fp - 1"
    by (rule GetEmptyFrame_spec)
  define m1 where "m1 = m\<lparr>mainMemory := poke (mainMemory m) (PageSize * f) (replicate PageSize 0)\<rparr>"
  have m1: "mainMemory m1 p = (if p div PageSize = f then 0 else mainMemory m p)"
    "m1\<lparr>mainMemory := g\<rparr> = m\<lparr>mainMemory := g\<rparr>" for p g
    by (simp_all add: m1_def poke_zero)
  have "int n \<le> nAvailFrame fp1" using Suc.prems(2) f(6) by simp
  from Suc.IH [OF f(5) this, of "Suc i" m1] obtain pt fp' m' where r: "fill_table (Suc i) n fp1 m1 = Some (pt, fp', m')"
    "length pt = n" "table_wf (Suc i) pt" "frames_in pt \<inter> taken fp1 = {}"
    "taken fp' = taken fp1 \<union> frames_in pt" "fp_ok fp'" "nAvailFrame fp' = nAvailFrame fp1 - int n"
    and m': "m' = m1\<lparr>mainMemory := (\<lambda>p. if p div PageSize \<in> frames_in pt then 0 else mainMemory m1 p)\<rparr>"
    by blast
  have e: "frame (new_entry i (int f)) = f" "entry_ok i (new_entry i (int f))"
    using f(2) by (simp_all add: frame_new_entry entry_ok_new)
  have "f \<notin> frames_in pt" using r(4) f(4) by auto
  then have "table_wf i (new_entry i (int f) # pt)" using r(3) e by (simp add: table_wf_Cons)
  moreover have "m' = m\<lparr>mainMemory := (\<lambda>p. if p div PageSize \<in> frames_in (new_entry i (int f) # pt) then 0
      else mainMemory m p)\<rparr>"
    unfolding m' m1(2) by (rule arg_cong [of _ _ "\<lambda>g. m\<lparr>mainMemory := g\<rparr>"]) (auto simp: m1(1) e)
  moreover have "fill_table i (Suc n) fp m = Some (new_entry i (int f) # pt, fp', m')"
    using f(1) r(1) by (simp add: m1_def)
  ultimately show ?case using r(2,4-7) f(3,4,6)
    by (intro exI [of _ "new_entry i (int f) # pt"] exI [of _ fp'] exI [of _ m']) (auto simp: e(1))
qed

lemma fill_table_wf:
  assumes "fp_ok fp" "int n \<le> nAvailFrame fp" "fill_table i n fp m = Some (pt, fp', m')"
  shows "length pt = n" "table_wf i pt" "frames_in pt \<inter> taken fp = {}" "taken fp' = taken fp \<union> frames_in pt"
    "fp_ok fp'" "nAvailFrame fp' = nAvailFrame fp - int n"
    "m' = m\<lparr>mainMemory := (\<lambda>p. if p div PageSize \<in> frames_in pt then 0 else mainMemory m p)\<rparr>"
  using fill_table_spec [OF assms(1,2), of i m] assms(3) by auto

lemma release_frames_spec:
  assumes "fp_ok fp" "table_wf k pt" "frames_in pt \<subseteq> taken fp"
  shows "\<exists>fp'. release_frames pt fp = Some fp' \<and> fp_ok fp' \<and> taken fp' = taken fp - frames_in pt
    \<and> nAvailFrame fp' = nAvailFrame fp + int (length pt)"
  using assms
proof (induction pt arbitrary: fp k)
  case Nil
  then show ?case by simp
next
  case (Cons e es)
  have e: "physicalPage e < 2096" "frame e \<notin> frames_in es" "table_wf (Suc k) es"
    using Cons.prems(2) by (auto simp: table_wf_Cons entry_ok_def)
  have "frame e < 2 ^ 31" using e(1) by (simp add: word_less_nat_alt)
  then have s: "sint (physicalPage e) = int (frame e)" by (rule sint_small)
  have "frame e \<in> taken fp" using Cons.prems(3) by simp
  with Cons.prems(1) obtain fp1 where fp1: "ReleaseFrame fp (int (frame e)) = Some fp1" "fp_ok fp1"
      "taken fp1 = taken fp - {frame e}" "nAvailFrame fp1 = nAvailFrame fp + 1"
    by (rule ReleaseFrame_spec)
  have "frames_in es \<subseteq> taken fp1" using Cons.prems(3) e(2) by (simp add: fp1(3) subset_Diff_insert)
  from Cons.IH [OF fp1(2) e(3) this] obtain fp' where "release_frames es fp1 = Some fp'" "fp_ok fp'"
      "taken fp' = taken fp1 - frames_in es" "nAvailFrame fp' = nAvailFrame fp1 + int (length es)"
    by blast
  then show ?case using fp1 s by auto
qed

section \<open>What a process sees\<close>

text \<open>
  \<open>view pt mem\<close>: the memory of the process, byte by byte, as the table \<open>pt\<close> shows it. \<open>installed m pt\<close>: the
  machine translates through \<open>pt\<close>.
\<close>

definition view :: "TranslationEntry list \<Rightarrow> (nat \<Rightarrow> byte) \<Rightarrow> byte list" where
  "view pt mem = map (\<lambda>x. mem (frame (pt ! (x div PageSize)) * PageSize + x mod PageSize)) [0..<PageSize * length pt]"

abbreviation user_memory :: "AddrSpace \<Rightarrow> (nat \<Rightarrow> byte) \<Rightarrow> byte list" where
  "user_memory sp mem \<equiv> view (as_pageTable sp) mem"

definition installed :: "Machine \<Rightarrow> TranslationEntry list \<Rightarrow> bool" where
  "installed m pt \<longleftrightarrow> tlb m = None \<and> pageTable m = Some pt \<and> unat (pageTableSize m) = length pt \<and> table_wf 0 pt"

lemma length_view [simp]: "length (view pt mem) = PageSize * length pt"
  by (simp add: view_def)

lemma nth_view: "x < PageSize * length pt \<Longrightarrow>
    view pt mem ! x = mem (frame (pt ! (x div PageSize)) * PageSize + x mod PageSize)"
  by (simp add: view_def)

lemma table_wf_length: "table_wf k pt \<Longrightarrow> length pt \<le> NumPhysPages"
  using card_mono [OF _ table_wf_frames, of k pt] table_wf_card [of k pt] by simp

lemma frame_core [simp]: "physicalPage (core e) = physicalPage e"
  by (simp add: core_def)

lemma core_frames: "map core pt' = map core pt \<Longrightarrow> map frame pt' = map frame pt"
proof -
  assume "map core pt' = map core pt"
  moreover have "map frame xs = map frame (map core xs)" for xs by simp
  ultimately show ?thesis by metis
qed

lemma core_table_wf: "map core pt' = map core pt \<Longrightarrow> table_wf k pt' = table_wf k pt"
proof -
  assume "map core pt' = map core pt"
  moreover have "table_wf k xs = table_wf k (map core xs)" for xs
    by (simp add: table_wf_def entry_ok_def comp_def) (simp add: core_def)
  ultimately show ?thesis by metis
qed

lemma core_frames_in: "map core pt' = map core pt \<Longrightarrow> frames_in pt' = frames_in pt"
  using core_frames [of pt' pt] by (metis set_map)

lemma core_view: "map core pt' = map core pt \<Longrightarrow> view pt' mem = view pt mem"
proof -
  assume c: "map core pt' = map core pt"
  have l: "length pt' = length pt" using map_core_length [OF c] .
  have "frame (pt' ! i) = frame (pt ! i)" if "i < length pt" for i
    using arg_cong [OF core_frames [OF c], of "\<lambda>xs. xs ! i"] that l by simp
  moreover have "x div PageSize < length pt" if "x < PageSize * length pt" for x using that by auto
  ultimately show ?thesis using l by (auto simp: view_def)
qed

lemma installed_ok: "installed m pt \<Longrightarrow> table_ok m"
  by (simp add: installed_def table_ok_def)

lemma installed_vmap:
  assumes "installed m pt"
  shows "vmap m w v = (if unat v < length pt then Some (frame (pt ! unat v)) else None)"
proof -
  have i: "tlb m = None" "pageTable m = Some pt" "unat (pageTableSize m) = length pt" "table_wf 0 pt"
    using assms by (simp_all add: installed_def)
  have lk: "lookup_entry m v = (if pageTableSize m \<le> v then Some (Inl AddressErrorException)
    else if \<not> valid (pt ! unat v) then Some (Inl PageFaultException) else Some (Inr (unat v, pt ! unat v)))"
    using lookup_pt [OF i(1,2), of v] i(3) by simp
  show ?thesis
  proof (cases "unat v < length pt")
    case True
    then have "entry_ok (unat v) (pt ! unat v)" using i(4) by (simp add: table_wf_def)
    then show ?thesis using True lk i(3) by (simp add: vmap_def entry_ok_def word_le_nat_alt word_less_nat_alt)
  next
    case False
    then show ?thesis using lk i(3) by (simp add: vmap_def word_le_nat_alt)
  qed
qed

lemma installed_access:
  assumes "installed m pt" "sz \<in> {1, 2, 4}"
  shows "access m w a sz = (if aligned a sz \<and> unat a div PageSize < length pt
    then Some (frame (pt ! (unat a div PageSize)) * PageSize + unat a mod PageSize) else None)"
  using assms(1) by (simp add: access_def installed_vmap unat_div phys_def)

lemma same_core_installed:
  assumes "installed m pt" "same_core m m'"
  obtains pt' where "installed m' pt'" "map core pt' = map core pt"
proof -
  obtain pt' where pt': "tlb m' = None" "pageTable m' = Some pt'" "map core pt' = map core pt"
      "pageTableSize m' = pageTableSize m"
    using assms by (auto simp: installed_def same_core_def)
  then have "installed m' pt'"
    using assms(1) map_core_length [OF pt'(3)] core_table_wf [OF pt'(3)] by (simp add: installed_def)
  then show ?thesis using that pt'(3) by blast
qed

text \<open>Distinct addresses of a process are distinct bytes of memory.\<close>

lemma view_slot_inj:
  assumes "table_wf 0 pt" "x < PageSize * length pt" "y < PageSize * length pt"
    "frame (pt ! (x div PageSize)) * PageSize + x mod PageSize = frame (pt ! (y div PageSize)) * PageSize + y mod PageSize"
  shows "x = y"
proof -
  let ?p = "\<lambda>x. frame (pt ! (x div PageSize)) * PageSize + x mod PageSize"
  have "?p x div PageSize = frame (pt ! (x div PageSize))" "?p x mod PageSize = x mod PageSize" for x by simp_all
  then have "frame (pt ! (x div PageSize)) = frame (pt ! (y div PageSize))" "x mod PageSize = y mod PageSize"
    using assms(4) by metis+
  moreover have "x div PageSize < length pt" "y div PageSize < length pt" using assms(2,3) by auto
  ultimately have "x div PageSize = y div PageSize"
    using assms(1) distinct_nth_inj [of "map frame pt" "x div PageSize" "y div PageSize"] by (simp add: table_wf_def)
  with \<open>x mod PageSize = y mod PageSize\<close> show "x = y" by (metis div_mult_mod_eq)
qed

lemma view_poke:
  assumes "table_wf 0 pt" "x mod PageSize + length bs \<le> PageSize" "x + length bs \<le> PageSize * length pt" "x < PageSize * length pt"
  shows "view pt (poke mem (frame (pt ! (x div PageSize)) * PageSize + x mod PageSize) bs) = overlay (view pt mem) x bs"
    (is "view pt (poke mem (?slot x) bs) = _")
proof (rule nth_equalityI)
  show "length (view pt (poke mem (?slot x) bs)) = length (overlay (view pt mem) x bs)" using assms(3) by simp
next
  fix y assume "y < length (view pt (poke mem (?slot x) bs))"
  then have y: "y < PageSize * length pt" by simp
  have shift: "?slot (x + i) = ?slot x + i" if "i < length bs" for i
  proof -
    have page: "(PageSize * q + r) div PageSize = q" "(PageSize * q + r) mod PageSize = r" if "r < PageSize" for q r
      using that by simp_all
    have e: "PageSize * (x div PageSize) + (x mod PageSize + i) = x + i" by simp
    have "x mod PageSize + i < PageSize" using that assms(2) by simp
    from page [OF this, of "x div PageSize", unfolded e] show ?thesis by simp
  qed
  show "view pt (poke mem (?slot x) bs) ! y = overlay (view pt mem) x bs ! y"
  proof (cases "x \<le> y \<and> y < x + length bs")
    case True
    then have i: "y - x < length bs" "x + (y - x) = y" by linarith+
    then have "?slot y = ?slot x + (y - x)" using shift [of "y - x"] by simp
    then have "poke mem (?slot x) bs (?slot y) = bs ! (y - x)" using poke_same [OF i(1), of mem "?slot x"] by simp
    then show ?thesis using True y assms(3) by (simp add: nth_view nth_overlay)
  next
    case False
    have "\<not> (?slot x \<le> ?slot y \<and> ?slot y < ?slot x + length bs)"
    proof
      assume c: "?slot x \<le> ?slot y \<and> ?slot y < ?slot x + length bs"
      define i where "i = ?slot y - ?slot x"
      have i: "i < length bs" "?slot y = ?slot x + i" using c unfolding i_def by linarith+
      then have "?slot y = ?slot (x + i)" using shift by simp
      then have "y = x + i" using view_slot_inj [OF assms(1) y, of "x + i"] i(1) assms(3) by simp
      then show False using False i(1) by simp
    qed
    then show ?thesis using False y assms(3) by (auto simp: nth_view nth_overlay poke_def)
  qed
qed

lemma poke_outside:
  assumes "x mod PageSize + length bs \<le> PageSize" "p div PageSize \<noteq> f"
  shows "poke mem (f * PageSize + x mod PageSize) bs p = mem p"
proof -
  have "p div PageSize = f" if c: "f * PageSize + x mod PageSize \<le> p" "p < f * PageSize + x mod PageSize + length bs"
  proof -
    have "f * PageSize \<le> p" "p < f * PageSize + PageSize" using c assms(1) by linarith+
    then show ?thesis by (simp add: div_nat_eqI)
  qed
  then show ?thesis using assms(2) by (auto simp: poke_def)
qed

text \<open>
  Any store through an installed table, that is not a trap, overwrites a part of what the process sees and
  leaves the frames of others alone.
\<close>

lemma store_spec:
  assumes m: "installed m pt" and sz: "sz \<in> {1, 2, 4}" and a: "aligned a sz" "unat a < PageSize * length pt"
  obtains bs m' pt' where "WriteMem eh m a sz x = Some (True, m')" "store_bytes x sz = Some bs"
    "installed m' pt'" "map core pt' = map core pt"
    "view pt' (mainMemory m') = overlay (view pt (mainMemory m)) (unat a) bs"
    "\<And>p. p div PageSize \<notin> frames_in pt \<Longrightarrow> mainMemory m' p = mainMemory m p" "registers m' = registers m"
proof -
  let ?p = "frame (pt ! (unat a div PageSize)) * PageSize + unat a mod PageSize"
  have i: "unat a div PageSize < length pt" using a(2) by auto
  then have acc: "access m True a sz = Some ?p" using installed_access [OF m sz, of True a] a(1) by simp
  obtain bs m' where w: "WriteMem eh m a sz x = Some (True, m')" "store_bytes x sz = Some bs" "same_core m m'"
      "mainMemory m' = poke (mainMemory m) ?p bs" "registers m' = registers m"
    using WriteMem_ok [OF installed_ok [OF m] sz acc] by blast
  have len: "int (length bs) = sz" using store_bytes_total [OF sz, of x] w(2) by simp
  then have pg: "unat a mod PageSize + length bs \<le> PageSize" using aligned_in_page [OF a(1) sz] by simp
  have "unat a div PageSize * PageSize + PageSize \<le> length pt * PageSize"
    using i by (metis Suc_leI add.commute mult_Suc mult_le_mono1)
  then have "unat a + length bs \<le> PageSize * length pt"
    using pg div_mult_mod_eq [of "unat a" PageSize] by linarith
  moreover have wf: "table_wf 0 pt" using m by (simp add: installed_def)
  ultimately have v: "view pt (mainMemory m') = overlay (view pt (mainMemory m)) (unat a) bs"
    using view_poke [OF wf pg _ a(2)] w(4) by simp
  have out: "mainMemory m' p = mainMemory m p" if "p div PageSize \<notin> frames_in pt" for p
  proof -
    have "p div PageSize \<noteq> frame (pt ! (unat a div PageSize))" using that i by auto
    then show ?thesis using poke_outside [OF pg] w(4) by simp
  qed
  obtain pt' where pt': "installed m' pt'" "map core pt' = map core pt" using same_core_installed [OF m w(3)] .
  show ?thesis using that [OF w(1,2) pt'] v core_view [OF pt'(2)] out w(5) by simp
qed

lemma store_byte: "store_bytes (scast (b :: byte)) 1 = Some [b]"
proof -
  have mask: "(0xff :: u32) = mask 8" by (simp add: mask_eq_exp_minus_1)
  have "(ucast (scast b AND 0xff :: u32) :: byte) = b"
    by (rule bit_word_eqI) (auto simp: mask bit_simps)
  then show ?thesis by (simp add: store_bytes_def)
qed

lemma overlay_step: "k + length (b # bs) \<le> length xs \<Longrightarrow> overlay (overlay xs k [b]) (Suc k) bs = overlay xs k (b # bs)"
  by (simp add: overlay_def min_def add.commute)

lemma copy_in_spec:
  assumes "installed m pt" "unat va + length bs \<le> PageSize * length pt"
  shows "\<exists>m' pt'. copy_in eh m va bs = Some m' \<and> installed m' pt' \<and> map core pt' = map core pt
    \<and> view pt' (mainMemory m') = overlay (view pt (mainMemory m)) (unat va) bs
    \<and> (\<forall>p. p div PageSize \<notin> frames_in pt \<longrightarrow> mainMemory m' p = mainMemory m p)"
  using assms
proof (induction bs arbitrary: m pt va)
  case Nil
  then show ?case by (intro exI [of _ m] exI [of _ pt]) (simp add: overlay_def)
next
  case (Cons b bs)
  have "unat va < PageSize * length pt" using Cons.prems(2) by simp
  then obtain bs1 m1 pt1 where s: "WriteMem eh m va 1 (scast b) = Some (True, m1)"
      "store_bytes (scast b) 1 = Some bs1" "installed m1 pt1" "map core pt1 = map core pt"
      "view pt1 (mainMemory m1) = overlay (view pt (mainMemory m)) (unat va) bs1"
      "\<And>p. p div PageSize \<notin> frames_in pt \<Longrightarrow> mainMemory m1 p = mainMemory m p"
    using store_spec [OF Cons.prems(1), of 1 va eh "scast b"] by (metis aligned_simps(3) insertI1)
  have "length pt \<le> NumPhysPages" using Cons.prems(1) table_wf_length by (auto simp: installed_def)
  then have "unat va + 1 < 2 ^ 32" using Cons.prems(2) by simp
  then have va: "unat (va + 1) = Suc (unat va)" using unat_add_lem [of va 1] by simp
  have len: "length pt1 = length pt" using map_core_length [OF s(4)] .
  then have "unat (va + 1) + length bs \<le> PageSize * length pt1" using Cons.prems(2) va by simp
  from Cons.IH [OF s(3) this] obtain m' pt' where r: "copy_in eh m1 (va + 1) bs = Some m'" "installed m' pt'"
      "map core pt' = map core pt1" "view pt' (mainMemory m') = overlay (view pt1 (mainMemory m1)) (unat (va + 1)) bs"
      "\<forall>p. p div PageSize \<notin> frames_in pt1 \<longrightarrow> mainMemory m' p = mainMemory m1 p"
    by blast
  have "bs1 = [b]" using s(2) store_byte by simp
  then have "view pt' (mainMemory m') = overlay (view pt (mainMemory m)) (unat va) (b # bs)"
    using r(4) s(5) va overlay_step [of "unat va" b bs "view pt (mainMemory m)"] Cons.prems(2) by simp
  moreover have "copy_in eh m va (b # bs) = Some m'" using s(1) r(1) by simp
  moreover have "\<forall>p. p div PageSize \<notin> frames_in pt \<longrightarrow> mainMemory m' p = mainMemory m p"
    using r(5) s(6) core_frames_in [OF s(4)] by simp
  ultimately show ?case using r(2,3) s(4) by (intro exI [of _ m'] exI [of _ pt']) simp
qed

end
