(* ===== verification/Processes.thy ===== *)
theory Processes
  imports AddrSpace
begin

text \<open>
  Correctness of the address spaces of \<open>AddrSpace\<close> over the life of the system. \<open>procs_ok\<close> is the invariant:
  the frame provider marks exactly the frames that the live spaces own, no frame is owned twice, and the
  count of free frames is right. Each operation is specified by its effect on what the processes see
  (\<open>user_memory\<close>); \<open>pstep\<close> is the step relation of everything that happens to address spaces, including
  the stores of user code.
\<close>

section \<open>The invariant of the processes\<close>

definition space_ok :: "AddrSpace \<Rightarrow> bool" where
  "space_ok sp \<longleftrightarrow> table_wf 0 (as_pageTable sp) \<and> length (as_pageTable sp) = unat (numPages sp)
     \<and> brk sp = numPages sp * 128 \<and> 0 \<le> pid sp \<and> pid sp < MaxProcesses"

definition owned :: "Procs \<Rightarrow> nat \<Rightarrow> nat set" where
  "owned ps a = (case spaces ps a of None \<Rightarrow> {} | Some sp \<Rightarrow> frames_in (as_pageTable sp))"

definition procs_ok :: "Procs \<Rightarrow> bool" where
  "procs_ok ps \<longleftrightarrow> fp_ok (fprov ps) \<and> tlb (mach ps) = None
     \<and> bitmap_wf (pidMap ps) \<and> numBits (pidMap ps) = MaxProcesses \<and> 0 \<le> lastPid ps
     \<and> (\<forall>a sp. spaces ps a = Some sp \<longrightarrow> space_ok sp)
     \<and> (\<forall>a b. a \<noteq> b \<longrightarrow> owned ps a \<inter> owned ps b = {}) \<and> taken (fprov ps) = (\<Union>a. owned ps a)"

lemma procs_okD:
  assumes "procs_ok ps"
  shows "fp_ok (fprov ps)" "tlb (mach ps) = None" "bitmap_wf (pidMap ps)" "numBits (pidMap ps) = MaxProcesses"
    "0 \<le> lastPid ps" "spaces ps a = Some sp \<Longrightarrow> space_ok sp" "b \<noteq> c \<Longrightarrow> owned ps b \<inter> owned ps c = {}"
    "taken (fprov ps) = (\<Union>a. owned ps a)"
  using assms by (auto simp: procs_ok_def)

lemma owned_Some: "spaces ps a = Some sp \<Longrightarrow> owned ps a = frames_in (as_pageTable sp)"
  by (simp add: owned_def)

text \<open>
  An operation that replaces the space at \<open>a\<close>, keeps the others, and makes the provider mark exactly what the
  spaces then own, keeps the invariant.
\<close>

lemma procs_ok_update:
  assumes ps: "procs_ok ps"
    and ps': "spaces ps' = (spaces ps)(a := x)" "fp_ok (fprov ps')" "tlb (mach ps') = None"
      "bitmap_wf (pidMap ps')" "numBits (pidMap ps') = MaxProcesses" "0 \<le> lastPid ps'"
    and sp: "\<And>sp. x = Some sp \<Longrightarrow> space_ok sp"
    and t: "taken (fprov ps') = (taken (fprov ps) - owned ps a) \<union> owned ps' a"
    and fresh: "owned ps' a \<inter> (taken (fprov ps) - owned ps a) = {}"
  shows "procs_ok ps'"
proof -
  have other: "owned ps' b = owned ps b" if "b \<noteq> a" for b using ps'(1) that by (simp add: owned_def)
  have tk: "taken (fprov ps) - owned ps a = (\<Union>b\<in>- {a}. owned ps b)"
    using procs_okD(7) [OF ps, of _ a] unfolding procs_okD(8) [OF ps] by (auto simp: disjoint_iff)
  have "(\<Union>b\<in>- {a}. owned ps b) = (\<Union>b\<in>- {a}. owned ps' b)" using other by simp
  moreover have "(\<Union>b. owned ps' b) = owned ps' a \<union> (\<Union>b\<in>- {a}. owned ps' b)"
    using UN_insert [of "owned ps'" a "- {a}"] by (simp add: Compl_insert insert_UNIV [symmetric])
  ultimately have "taken (fprov ps') = (\<Union>b. owned ps' b)" unfolding t tk by (simp only: Un_commute)
  moreover have "owned ps' b \<inter> owned ps' c = {}" if "b \<noteq> c" for b c
  proof -
    have "owned ps' a \<inter> owned ps d = {}" if "d \<noteq> a" for d using fresh that unfolding tk by blast
    then show ?thesis using other procs_okD(7) [OF ps that] that by (cases "b = a"; cases "c = a") auto
  qed
  moreover have "space_ok sq" if "spaces ps' b = Some sq" for b sq
    using that ps'(1) sp procs_okD(6) [OF ps] by (auto split: if_splits)
  ultimately show ?thesis using ps' by (simp add: procs_ok_def)
qed

subsection \<open>Creating spaces\<close>

lemma new_process_spec:
  assumes "procs_ok ps" "marked (pidMap ps) \<noteq> {0..<MaxProcesses}"
  obtains p b where "new_process a ps = Some (p, ps\<lparr>pidMap := b, lastPid := p + 1,
      addrspaces := (addrspaces ps)(p \<mapsto> a)\<rparr>)" "0 \<le> p" "p < MaxProcesses" "p \<notin> marked (pidMap ps)"
    "bitmap_wf b" "numBits b = MaxProcesses" "marked b = insert p (marked (pidMap ps))"
proof -
  note d = procs_okD [OF assms(1)]
  obtain p b where "BitMap_FindStart (pidMap ps) (lastPid ps) = Some (p, b)" "bitmap_wf b"
      "numBits b = MaxProcesses" "0 \<le> p" "p < MaxProcesses" "p \<notin> marked (pidMap ps)"
      "marked b = insert p (marked (pidMap ps))"
    using FindStart_spec [OF d(3,5)] d(4) assms(2) by fastforce
  then show ?thesis using that by (simp add: new_process_def GetNewPid_def)
qed

lemma avail_word: "fp_ok fp \<Longrightarrow> (n :: u32) \<le> of_int (nAvailFrame fp) \<longleftrightarrow> int (unat n) \<le> nAvailFrame fp"
proof -
  assume ok: "fp_ok fp"
  then have c: "card (taken fp) \<le> 2096" using card_mono [OF _ taken_range [OF ok]] by simp
  define k where "k = 2096 - card (taken fp)"
  have k: "nAvailFrame fp = int k" "k \<le> 2096" using ok c by (simp_all add: fp_ok_def k_def of_nat_diff)
  then have "unat (of_int (nAvailFrame fp) :: u32) = k" by (simp add: unsigned_of_nat take_bit_nat_eq_self)
  then show ?thesis using k(1) unfolding word_le_nat_alt by linarith
qed

lemma avail_range: "fp_ok fp \<Longrightarrow> nAvailFrame fp \<le> int NumPhysPages"
  by (simp add: fp_ok_def)

lemma build_table_spec:
  assumes "fp_ok (fprov ps)" "int (unat n) \<le> nAvailFrame (fprov ps)"
  obtains pt fp m where "build_table n ps = Some (pt, ps\<lparr>fprov := fp, mach := m\<rparr>)" "length pt = unat n" "table_wf 0 pt"
    "frames_in pt \<inter> taken (fprov ps) = {}" "taken fp = taken (fprov ps) \<union> frames_in pt" "fp_ok fp"
    "nAvailFrame fp = nAvailFrame (fprov ps) - int (unat n)"
    "m = (mach ps)\<lparr>mainMemory := (\<lambda>p. if p div PageSize \<in> frames_in pt then 0 else mainMemory (mach ps) p)\<rparr>"
proof -
  have "unat n \<le> 2096" using assms(2) avail_range [OF assms(1)] by linarith
  then have "n \<le> 2096" by (simp add: word_le_nat_alt)
  moreover have "n \<le> of_int (NumAvailFrame (fprov ps))" using avail_word [OF assms(1)] assms(2) by (simp add: NumAvailFrame_def)
  moreover from fill_table_spec [OF assms, of 0 "mach ps"] obtain pt fp m where
      "fill_table 0 (unat n) (fprov ps) (mach ps) = Some (pt, fp, m)" "length pt = unat n" "table_wf 0 pt"
    "frames_in pt \<inter> taken (fprov ps) = {}" "taken fp = taken (fprov ps) \<union> frames_in pt" "fp_ok fp"
    "nAvailFrame fp = nAvailFrame (fprov ps) - int (unat n)"
    "m = (mach ps)\<lparr>mainMemory := (\<lambda>p. if p div PageSize \<in> frames_in pt then 0 else mainMemory (mach ps) p)\<rparr>"
    by blast
  ultimately show ?thesis by (intro that [of pt m fp]) (simp_all add: build_table_def)
qed

lemma finish_space_spec:
  obtains sp' where "finish_space heap a sp ps = Some (ps\<lparr>spaces := (spaces ps)(a \<mapsto> sp')\<rparr>)"
    "as_pageTable sp' = as_pageTable sp" "numPages sp' = numPages sp" "brk sp' = brk sp" "pid sp' = pid sp"
    "nThreads sp' = nThreads sp" "nextUserThreadid sp' = nextUserThreadid sp"
    "marked (threadsBitmap sp') = {}" "bitmap_wf (threadsBitmap sp')" "numBits (threadsBitmap sp') = 7"
    "localThreadsInfos sp' = replicate 7 None"
    "stackStartAddrs sp' = stack_loop 7 (GetSize sp - 16 - ThreadStackSize)"
proof -
  obtain b where b: "BitMap_new (heap 0) 7 = Some b" "bitmap_wf b" "numBits b = 7" "marked b = {}"
    using new_spec [of 7 "heap 0"] by auto
  obtain c where "BitMap_new (heap 1) MAX_SEM = Some c" using new_spec [of MAX_SEM "heap 1"] by auto
  with b show ?thesis
    by (intro that [of "sp\<lparr>threadsBitmap := b, localThreadsInfos := replicate 7 None,
        stackStartAddrs := stack_loop 7 (GetSize sp - 16 - ThreadStackSize), semBitmap := c\<rparr>"])
      (simp_all add: finish_space_def InitializeThreadData_def)
qed

lemma view_cong:
  assumes "\<And>p. p div PageSize \<in> frames_in pt \<Longrightarrow> mem' p = mem p"
  shows "view pt mem' = view pt mem"
proof (rule nth_equalityI)
  fix x assume "x < length (view pt mem')"
  then have x: "x < PageSize * length pt" by simp
  then have "x div PageSize < length pt" by auto
  then have "frame (pt ! (x div PageSize)) \<in> frames_in pt" by simp
  then show "view pt mem' ! x = view pt mem ! x" using assms x by (simp add: nth_view)
qed simp

lemma view_zero: "(\<And>p. p div PageSize \<in> frames_in pt \<Longrightarrow> mem p = 0) \<Longrightarrow> view pt mem = replicate (PageSize * length pt) 0"
  using view_cong [of pt mem "\<lambda>_. 0"] by (simp add: view_def map_replicate_const)

text \<open>
  Every space but the one at \<open>a\<close> keeps its memory when only frames outside the other spaces change.
\<close>

lemma others_keep_memory:
  assumes "procs_ok ps" "\<And>p. p div PageSize \<in> taken (fprov ps) - owned ps a \<Longrightarrow> mem' p = mainMemory (mach ps) p"
    "b \<noteq> a" "spaces ps b = Some sq"
  shows "user_memory sq mem' = user_memory sq (mainMemory (mach ps))"
proof (rule view_cong)
  fix p assume "p div PageSize \<in> frames_in (as_pageTable sq)"
  then have "p div PageSize \<in> owned ps b" using owned_Some [OF assms(4)] by simp
  then have "p div PageSize \<in> taken (fprov ps) - owned ps a"
    using procs_okD(7,8) [OF assms(1)] assms(3) by (metis Diff_iff UN_I UNIV_I disjoint_iff)
  then show "mem' p = mainMemory (mach ps) p" by (rule assms(2))
qed

text \<open>What both constructors have in common: \<open>pt\<close> is a table of fresh frames, \<open>m\<close> the machine at the end.\<close>

definition add_space :: "nat \<Rightarrow> int \<Rightarrow> BitMap \<Rightarrow> FrameProvider \<Rightarrow> Machine \<Rightarrow> AddrSpace \<Rightarrow> Procs \<Rightarrow> Procs" where
  "add_space a p b fp m sp ps = ps\<lparr>pidMap := b, lastPid := p + 1, addrspaces := (addrspaces ps)(p \<mapsto> a),
     fprov := fp, mach := m, spaces := (spaces ps)(a \<mapsto> sp)\<rparr>"

lemma add_space_simps [simp]:
  "spaces (add_space a p b fp m sp ps) = (spaces ps)(a \<mapsto> sp)" "fprov (add_space a p b fp m sp ps) = fp"
  "mach (add_space a p b fp m sp ps) = m" "pidMap (add_space a p b fp m sp ps) = b"
  "lastPid (add_space a p b fp m sp ps) = p + 1" "owned (add_space a p b fp m sp ps) a = frames_in (as_pageTable sp)"
  by (simp_all add: add_space_def owned_def)

lemma space_added:
  assumes ps: "procs_ok ps" "spaces ps a = None"
    and p: "0 \<le> p" "p < MaxProcesses" "bitmap_wf b" "numBits b = MaxProcesses"
    and t: "length pt = unat n" "table_wf 0 pt" "frames_in pt \<inter> taken (fprov ps) = {}"
      "taken fp = taken (fprov ps) \<union> frames_in pt" "fp_ok fp" "tlb m = None"
  obtains sp where "finish_space heap a (blank p pt n nt) (ps\<lparr>pidMap := b, lastPid := p + 1,
      addrspaces := (addrspaces ps)(p \<mapsto> a), fprov := fp, mach := m\<rparr>) = Some (add_space a p b fp m sp ps)"
    "procs_ok (add_space a p b fp m sp ps)" "as_pageTable sp = pt" "numPages sp = n" "pid sp = p"
    "nThreads sp = nt" "nextUserThreadid sp = 1"
proof -
  let ?ps = "ps\<lparr>pidMap := b, lastPid := p + 1, addrspaces := (addrspaces ps)(p \<mapsto> a), fprov := fp, mach := m\<rparr>"
  obtain sp where sp: "finish_space heap a (blank p pt n nt) ?ps = Some (?ps\<lparr>spaces := (spaces ?ps)(a \<mapsto> sp)\<rparr>)"
    "as_pageTable sp = pt" "numPages sp = n" "brk sp = n * 128" "pid sp = p" "nThreads sp = nt" "nextUserThreadid sp = 1"
    using finish_space_spec [of heap a "blank p pt n nt" ?ps] by (auto simp: blank_def)
  have "procs_ok (add_space a p b fp m sp ps)"
    by (rule procs_ok_update [OF ps(1), where a = a and x = "Some sp"])
      (use ps(2) p t sp in \<open>auto simp: space_ok_def owned_def [of ps]\<close>)
  then show ?thesis using that sp by (simp add: add_space_def)
qed

lemma AddrSpace_empty_spec:
  assumes ps: "procs_ok ps" "marked (pidMap ps) \<noteq> {0..<MaxProcesses}" "spaces ps a = None"
    and n: "int (unat n) \<le> nAvailFrame (fprov ps)"
  shows "\<exists>p b fp m sp. AddrSpace_empty heap nt a n ps = Some (add_space a p b fp m sp ps)
    \<and> procs_ok (add_space a p b fp m sp ps) \<and> pid sp \<notin> marked (pidMap ps)
    \<and> numPages sp = n \<and> user_memory sp (mainMemory m) = replicate (PageSize * unat n) 0
    \<and> frames_in (as_pageTable sp) \<inter> taken (fprov ps) = {}
    \<and> (\<forall>x. x div PageSize \<notin> frames_in (as_pageTable sp) \<longrightarrow> mainMemory m x = mainMemory (mach ps) x)
    \<and> marked b = insert p (marked (pidMap ps)) \<and> nAvailFrame fp = nAvailFrame (fprov ps) - int (unat n)"
proof -
  obtain p b where p: "new_process a ps = Some (p, ps\<lparr>pidMap := b, lastPid := p + 1,
      addrspaces := (addrspaces ps)(p \<mapsto> a)\<rparr>)" "0 \<le> p" "p < MaxProcesses" "p \<notin> marked (pidMap ps)"
    "bitmap_wf b" "numBits b = MaxProcesses" "marked b = insert p (marked (pidMap ps))"
    using new_process_spec [OF ps(1,2)] .
  let ?ps1 = "ps\<lparr>pidMap := b, lastPid := p + 1, addrspaces := (addrspaces ps)(p \<mapsto> a)\<rparr>"
  have "fp_ok (fprov ?ps1)" "int (unat n) \<le> nAvailFrame (fprov ?ps1)" using procs_okD(1) [OF ps(1)] n by simp_all
  then obtain pt fp m where t: "build_table n ?ps1 = Some (pt, ?ps1\<lparr>fprov := fp, mach := m\<rparr>)" "length pt = unat n"
    "table_wf 0 pt" "frames_in pt \<inter> taken (fprov ?ps1) = {}" "taken fp = taken (fprov ?ps1) \<union> frames_in pt" "fp_ok fp"
    "nAvailFrame fp = nAvailFrame (fprov ?ps1) - int (unat n)"
    "m = (mach ?ps1)\<lparr>mainMemory := (\<lambda>p. if p div PageSize \<in> frames_in pt then 0 else mainMemory (mach ?ps1) p)\<rparr>"
    by (rule build_table_spec)
  have m: "tlb m = None" "view pt (mainMemory m) = replicate (PageSize * unat n) 0"
    "\<And>x. x div PageSize \<notin> frames_in pt \<Longrightarrow> mainMemory m x = mainMemory (mach ps) x"
    using t(2,8) procs_okD(2) [OF ps(1)] view_zero [of pt "mainMemory m"] by simp_all
  obtain sp where sp: "finish_space heap a (blank p pt n nt) (?ps1\<lparr>fprov := fp, mach := m\<rparr>)
        = Some (add_space a p b fp m sp ps)"
    "procs_ok (add_space a p b fp m sp ps)" "as_pageTable sp = pt" "numPages sp = n" "pid sp = p"
    using space_added [OF ps(1,3) p(2,3,5,6) t(2,3), of fp m heap nt] t(4-6) m(1) by auto
  have "AddrSpace_empty heap nt a n ps = Some (add_space a p b fp m sp ps)"
    using p(1) t(1) sp(1) by (simp add: AddrSpace_empty_def)
  then show ?thesis using sp(2-5) p(4,7) t(4,7) m(2,3)
    by (intro exI [of _ p] exI [of _ b] exI [of _ fp] exI [of _ m] exI [of _ sp]) simp
qed

subsection \<open>Loading\<close>

definition segment :: "byte list \<Rightarrow> Segment \<Rightarrow> byte list" where
  "segment c s = take (nat (sint (seg_size s))) (drop (nat (sint (inFileAddr s))) c)"

definition seg_ok :: "byte list \<Rightarrow> u32 \<Rightarrow> Segment \<Rightarrow> bool" where
  "seg_ok c np s \<longleftrightarrow> 0 \<le> sint (seg_size s) \<and> (0 < sint (seg_size s) \<longrightarrow> 0 \<le> sint (inFileAddr s)
     \<and> sint (inFileAddr s) + sint (seg_size s) \<le> int (length c)
     \<and> int (unat (virtualAddr s)) + sint (seg_size s) \<le> int PageSize * int (unat np))"

text \<open>
  \<open>loadable c\<close>: the bytes \<open>c\<close> are an object file whose code and data lie in the file and in the address
  space; \<open>image c\<close> is the memory the program expects.
\<close>

abbreviation header_of :: "byte list \<Rightarrow> NoffHeader" where
  "header_of c \<equiv> noff_header (take 40 c)"

definition loadable :: "byte list \<Rightarrow> bool" where
  "loadable c \<longleftrightarrow> 40 \<le> length c \<and> noffMagic (header_of c) = NOFFMAGIC
     \<and> seg_ok c (space_pages (header_of c)) (code (header_of c))
     \<and> seg_ok c (space_pages (header_of c)) (initData (header_of c))"

definition image :: "byte list \<Rightarrow> byte list" where
  "image c = (let h = header_of c in
     overlay (overlay (replicate (PageSize * unat (space_pages h)) 0) (unat (virtualAddr (code h))) (segment c (code h)))
       (unat (virtualAddr (initData h))) (segment c (initData h)))"

lemma load_segment_spec:
  assumes "tlb m = None" "table_wf 0 pt" "length pt = unat np" "dev_wf v" "maps_to v (hdr f) bl ix"
    "seg_ok (contents v (hdr f) bl) np s"
  shows "\<exists>pt' m'. load_segment eh stale v f s pt np m = Some (pt', m') \<and> tlb m' = None \<and> map core pt' = map core pt
    \<and> view pt' (mainMemory m') = overlay (view pt (mainMemory m)) (unat (virtualAddr s)) (segment (contents v (hdr f) bl) s)
    \<and> (\<forall>p. p div PageSize \<notin> frames_in pt \<longrightarrow> mainMemory m' p = mainMemory m p)"
proof (cases "sint (seg_size s) > 0")
  case False
  then show ?thesis using assms(1) by (simp add: load_segment_def segment_def overlay_def)
next
  case True
  let ?c = "contents v (hdr f) bl" and ?m = "m\<lparr>pageTable := Some pt, pageTableSize := np\<rparr>"
  have seg: "0 \<le> sint (inFileAddr s)" "sint (inFileAddr s) + sint (seg_size s) \<le> int (length ?c)"
      "int (unat (virtualAddr s)) + sint (seg_size s) \<le> int PageSize * int (unat np)"
    using assms(6) True by (simp_all add: seg_ok_def)
  have rd: "ReadAt v (hdr f) (sint (seg_size s)) (sint (inFileAddr s)) = Some (segment ?c s)"
    using ReadAt_spec [OF assms(4,5)] seg True by (simp add: segment_def)
  have len: "length (segment ?c s) = nat (sint (seg_size s))"
    unfolding segment_def length_take length_drop using seg True by linarith
  then have into: "overlay (map stale [0..<nat (sint (seg_size s))]) 0 (segment ?c s) = segment ?c s"
    by (simp add: overlay_def)
  have "installed ?m pt" using assms(1-3) by (simp add: installed_def)
  moreover have "unat (virtualAddr s) + length (segment ?c s) \<le> PageSize * length pt"
  proof -
    have "int (unat (virtualAddr s) + length (segment ?c s)) \<le> int (PageSize * length pt)"
      using seg len True assms(3) by (simp only: of_nat_add of_nat_mult)
    then show ?thesis by linarith
  qed
  ultimately obtain m' pt' where "copy_in eh ?m (virtualAddr s) (segment ?c s) = Some m'" "installed m' pt'"
      "map core pt' = map core pt"
      "view pt' (mainMemory m') = overlay (view pt (mainMemory m)) (unat (virtualAddr s)) (segment ?c s)"
      "\<forall>p. p div PageSize \<notin> frames_in pt \<longrightarrow> mainMemory m' p = mainMemory m p"
    using copy_in_spec [of ?m pt "virtualAddr s" "segment ?c s" eh] by auto
  then show ?thesis
    using True rd into by (auto simp: load_segment_def ReadAtVirtual_def installed_def Let_def)
qed

lemma read_header_spec:
  assumes "dev_wf v" "maps_to v (hdr f) bl ix" "40 \<le> length (contents v (hdr f) bl)"
    "noffMagic (header_of (contents v (hdr f) bl)) = NOFFMAGIC"
  shows "read_header stale v f = Some (header_of (contents v (hdr f) bl))"
  using ReadAt_spec [OF assms(1,2), of 0 40] assms(3,4) by (simp add: read_header_def overlay_def Let_def)

lemma AddrSpace_load_spec:
  assumes ps: "procs_ok ps" "marked (pidMap ps) \<noteq> {0..<MaxProcesses}" "spaces ps a = None"
    and exe: "dev_wf v" "maps_to v (hdr f) bl ix" "loadable (contents v (hdr f) bl)"
    and n: "int (unat (space_pages (header_of (contents v (hdr f) bl)))) \<le> nAvailFrame (fprov ps)"
  shows "\<exists>p b fp m sp. AddrSpace_load heap stale eh v f a ps = Some (add_space a p b fp m sp ps)
    \<and> procs_ok (add_space a p b fp m sp ps) \<and> pid sp \<notin> marked (pidMap ps)
    \<and> numPages sp = space_pages (header_of (contents v (hdr f) bl)) \<and> nThreads sp = 0 \<and> nextUserThreadid sp = 1
    \<and> user_memory sp (mainMemory m) = image (contents v (hdr f) bl)
    \<and> frames_in (as_pageTable sp) \<inter> taken (fprov ps) = {}
    \<and> (\<forall>x. x div PageSize \<notin> frames_in (as_pageTable sp) \<longrightarrow> mainMemory m x = mainMemory (mach ps) x)"
proof -
  define c h where "c = contents v (hdr f) bl" and "h = header_of c"
  define n where "n = space_pages h"
  have l: "40 \<le> length c" "noffMagic h = NOFFMAGIC" "seg_ok c n (code h)" "seg_ok c n (initData h)"
    using exe(3) by (simp_all add: loadable_def c_def h_def n_def)
  obtain p b where p: "new_process a ps = Some (p, ps\<lparr>pidMap := b, lastPid := p + 1,
      addrspaces := (addrspaces ps)(p \<mapsto> a)\<rparr>)" "0 \<le> p" "p < MaxProcesses" "p \<notin> marked (pidMap ps)"
    "bitmap_wf b" "numBits b = MaxProcesses"
    using new_process_spec [OF ps(1,2)] .
  let ?ps1 = "ps\<lparr>pidMap := b, lastPid := p + 1, addrspaces := (addrspaces ps)(p \<mapsto> a)\<rparr>"
  have "fp_ok (fprov ?ps1)" "int (unat n) \<le> nAvailFrame (fprov ?ps1)"
    using procs_okD(1) [OF ps(1)] assms(7) by (simp_all add: n_def h_def c_def)
  then obtain pt fp m where t: "build_table n ?ps1 = Some (pt, ?ps1\<lparr>fprov := fp, mach := m\<rparr>)" "length pt = unat n"
    "table_wf 0 pt" "frames_in pt \<inter> taken (fprov ?ps1) = {}" "taken fp = taken (fprov ?ps1) \<union> frames_in pt" "fp_ok fp"
    "m = (mach ?ps1)\<lparr>mainMemory := (\<lambda>p. if p div PageSize \<in> frames_in pt then 0 else mainMemory (mach ?ps1) p)\<rparr>"
    by (rule build_table_spec)
  have m: "tlb m = None" "view pt (mainMemory m) = replicate (PageSize * unat n) 0"
    "\<And>x. x div PageSize \<notin> frames_in pt \<Longrightarrow> mainMemory m x = mainMemory (mach ps) x"
    using t(2,7) procs_okD(2) [OF ps(1)] view_zero [of pt "mainMemory m"] by simp_all
  obtain pt1 m1 where s1: "load_segment eh (stale 1) v f (code h) pt n m = Some (pt1, m1)" "tlb m1 = None"
      "map core pt1 = map core pt"
      "view pt1 (mainMemory m1) = overlay (view pt (mainMemory m)) (unat (virtualAddr (code h))) (segment c (code h))"
      "\<forall>p. p div PageSize \<notin> frames_in pt \<longrightarrow> mainMemory m1 p = mainMemory m p"
    using load_segment_spec [OF m(1) t(3,2) exe(1,2), of "code h"] l(3) unfolding c_def by blast
  have c1: "table_wf 0 pt1" "length pt1 = unat n" "frames_in pt1 = frames_in pt"
    using core_table_wf [OF s1(3)] map_core_length [OF s1(3)] core_frames_in [OF s1(3)] t(2,3) by simp_all
  obtain pt2 m2 where s2: "load_segment eh (stale 2) v f (initData h) pt1 n m1 = Some (pt2, m2)" "tlb m2 = None"
      "map core pt2 = map core pt1"
      "view pt2 (mainMemory m2) = overlay (view pt1 (mainMemory m1)) (unat (virtualAddr (initData h))) (segment c (initData h))"
      "\<forall>p. p div PageSize \<notin> frames_in pt1 \<longrightarrow> mainMemory m2 p = mainMemory m1 p"
    using load_segment_spec [OF s1(2) c1(1,2) exe(1,2), of "initData h"] l(4) unfolding c_def by blast
  have c2: "length pt2 = unat n" "table_wf 0 pt2" "frames_in pt2 = frames_in pt"
    using core_table_wf [OF s2(3)] map_core_length [OF s2(3)] core_frames_in [OF s2(3)] c1 by simp_all
  obtain sp where sp: "finish_space heap a (blank p pt2 n 0) (?ps1\<lparr>fprov := fp, mach := m2\<rparr>)
        = Some (add_space a p b fp m2 sp ps)"
    "procs_ok (add_space a p b fp m2 sp ps)" "as_pageTable sp = pt2" "numPages sp = n" "pid sp = p"
    "nThreads sp = 0" "nextUserThreadid sp = 1"
    using space_added [OF ps(1,3) p(2,3,5,6) c2(1,2), of fp m2 heap 0] t(4-6) c2(3) s2(2) by auto
  have "read_header (stale 0) v f = Some h"
    unfolding h_def c_def by (rule read_header_spec [OF exe(1,2)]) (use l in \<open>simp_all add: c_def h_def\<close>)
  then have "AddrSpace_load heap stale eh v f a ps = Some (add_space a p b fp m2 sp ps)"
    using p(1) t(1) s1(1) s2(1) sp(1) by (simp add: AddrSpace_load_def n_def)
  moreover have "user_memory sp (mainMemory m2) = image c"
    using s2(4) s1(4) m(2) sp(3) by (simp add: image_def h_def [symmetric] n_def [symmetric])
  moreover have "\<forall>x. x div PageSize \<notin> frames_in pt2 \<longrightarrow> mainMemory m2 x = mainMemory (mach ps) x"
    using s2(5) s1(5) m(3) c1(3) c2(3) by simp
  ultimately show ?thesis
    using sp p(4) t(4) c2(3) unfolding c_def [symmetric] h_def [symmetric] n_def [symmetric]
    by (intro exI [of _ p] exI [of _ b] exI [of _ fp] exI [of _ m2] exI [of _ sp]) simp
qed

text \<open>Conversely, a constructor that returns had a pid and enough frames.\<close>

lemma new_process_pid:
  assumes "procs_ok ps" "new_process a ps = Some (p, ps1)"
  shows "marked (pidMap ps) \<noteq> {0..<MaxProcesses}" "fprov ps1 = fprov ps"
proof -
  note d = procs_okD [OF assms(1)]
  obtain b where b: "BitMap_FindStart (pidMap ps) (lastPid ps) = Some (p, b)" "0 \<le> p" "p < MaxProcesses" "fprov ps1 = fprov ps"
    using assms(2) by (auto simp: new_process_def GetNewPid_def bind_Some_iff)
  then show "fprov ps1 = fprov ps" by simp
  have "p \<notin> marked (pidMap ps)" using FindStart_spec [OF d(3,5)] d(4) b by auto
  then show "marked (pidMap ps) \<noteq> {0..<MaxProcesses}" using b(2,3) by auto
qed

lemma build_table_avail: "fp_ok (fprov ps) \<Longrightarrow> build_table n ps = Some r \<Longrightarrow> int (unat n) \<le> nAvailFrame (fprov ps)"
  using avail_word [of "fprov ps" n] by (simp add: build_table_def NumAvailFrame_def)

lemma AddrSpace_empty_inv:
  assumes "procs_ok ps" "AddrSpace_empty heap nt a n ps = Some ps'"
  shows "marked (pidMap ps) \<noteq> {0..<MaxProcesses}" "int (unat n) \<le> nAvailFrame (fprov ps)"
proof -
  obtain p ps1 r where r: "new_process a ps = Some (p, ps1)" "build_table n ps1 = Some r"
    using assms(2) by (auto simp: AddrSpace_empty_def bind_Some_iff)
  note np = new_process_pid [OF assms(1) r(1)]
  show "marked (pidMap ps) \<noteq> {0..<MaxProcesses}" by (rule np(1))
  show "int (unat n) \<le> nAvailFrame (fprov ps)"
    using build_table_avail [OF _ r(2)] np(2) procs_okD(1) [OF assms(1)] by simp
qed

lemma AddrSpace_load_inv:
  assumes "procs_ok ps" "AddrSpace_load heap stale eh v f a ps = Some ps'"
  obtains h where "read_header (stale 0) v f = Some h" "int (unat (space_pages h)) \<le> nAvailFrame (fprov ps)"
    "marked (pidMap ps) \<noteq> {0..<MaxProcesses}"
proof -
  obtain p ps1 h r where r: "new_process a ps = Some (p, ps1)" "read_header (stale 0) v f = Some h"
      "build_table (space_pages h) ps1 = Some r"
    using assms(2) by (auto simp: AddrSpace_load_def bind_Some_iff Let_def)
  note np = new_process_pid [OF assms(1) r(1)]
  show ?thesis using that [OF r(2)] np(1) build_table_avail [OF _ r(3)] np(2) procs_okD(1) [OF assms(1)] by simp
qed

subsection \<open>Growing and deleting spaces\<close>

lemma view_append: "view (xs @ ys) mem = view xs mem @ view ys mem"
proof (rule nth_equalityI)
  fix x assume "x < length (view (xs @ ys) mem)"
  then have x: "x < PageSize * length (xs @ ys)" by simp
  show "view (xs @ ys) mem ! x = (view xs mem @ view ys mem) ! x"
  proof (cases "x < PageSize * length xs")
    case True
    then have "x div PageSize < length xs" by auto
    then show ?thesis using True x by (simp add: nth_view nth_append)
  next
    case False
    define y where "y = x - PageSize * length xs"
    have "x = y + PageSize * length xs" using False by (simp add: y_def)
    then have "x div PageSize = length xs + y div PageSize" "x mod PageSize = y mod PageSize" by simp_all
    then show ?thesis using False x by (simp add: nth_view nth_append y_def [symmetric]) (simp add: y_def nth_view)
  qed
qed simp

lemma space_size:
  assumes "procs_ok ps" "spaces ps a = Some sp"
  shows "int (unat (numPages sp)) + nAvailFrame (fprov ps) \<le> int NumPhysPages"
proof -
  have sp: "table_wf 0 (as_pageTable sp)" "length (as_pageTable sp) = unat (numPages sp)"
    using procs_okD(6) [OF assms] by (simp_all add: space_ok_def)
  have "owned ps a \<subseteq> taken (fprov ps)" using procs_okD(8) [OF assms(1)] by auto
  then have "card (owned ps a) \<le> card (taken (fprov ps))"
    using finite_taken [OF procs_okD(1) [OF assms(1)]] card_mono by blast
  then have "unat (numPages sp) \<le> card (taken (fprov ps))"
    using table_wf_card [OF sp(1)] sp(2) owned_Some [OF assms(2)] by simp
  moreover have "nAvailFrame (fprov ps) = int NumPhysPages - int (card (taken (fprov ps)))"
    using procs_okD(1) [OF assms(1)] by (simp add: fp_ok_def)
  ultimately show ?thesis by linarith
qed

lemma do_Sbrk_spec:
  assumes ps: "procs_ok ps" "spaces ps a = Some sp" and n: "int (unat n) \<le> nAvailFrame (fprov ps)"
  shows "\<exists>ps' sp'. do_Sbrk a n ps = Some (brk sp, ps') \<and> spaces ps' = (spaces ps)(a \<mapsto> sp') \<and> procs_ok ps'
    \<and> unat (numPages sp') = unat (numPages sp) + unat n \<and> installed (mach ps') (as_pageTable sp')
    \<and> user_memory sp' (mainMemory (mach ps')) = user_memory sp (mainMemory (mach ps)) @ replicate (PageSize * unat n) 0
    \<and> (\<forall>x. x div PageSize \<in> taken (fprov ps) \<longrightarrow> mainMemory (mach ps') x = mainMemory (mach ps) x)
    \<and> nAvailFrame (fprov ps') = nAvailFrame (fprov ps) - int (unat n) \<and> pidMap ps' = pidMap ps"
proof -
  note d = procs_okD [OF ps(1)]
  have sp: "table_wf 0 (as_pageTable sp)" "length (as_pageTable sp) = unat (numPages sp)"
    "0 \<le> pid sp" "pid sp < MaxProcesses"
    using d(6) [OF ps(2)] by (simp_all add: space_ok_def)
  have "unat (numPages sp) + unat n \<le> NumPhysPages" using space_size [OF ps] n by linarith
  then have sum: "unat (numPages sp + n) = unat (numPages sp) + unat n" using unat_add_lem [of "numPages sp" n] by simp
  obtain new fp m where t: "fill_table (unat (numPages sp)) (unat n) (fprov ps) (mach ps) = Some (new, fp, m)"
      "length new = unat n" "table_wf (unat (numPages sp)) new" "frames_in new \<inter> taken (fprov ps) = {}"
      "taken fp = taken (fprov ps) \<union> frames_in new" "fp_ok fp" "nAvailFrame fp = nAvailFrame (fprov ps) - int (unat n)"
      "m = (mach ps)\<lparr>mainMemory := (\<lambda>p. if p div PageSize \<in> frames_in new then 0 else mainMemory (mach ps) p)\<rparr>"
    using fill_table_spec [OF d(1) n] by blast
  define pt where "pt = as_pageTable sp @ new"
  define sp' where "sp' = sp\<lparr>as_pageTable := pt, numPages := numPages sp + n, brk := (numPages sp + n) * 128\<rparr>"
  define ps' where "ps' = ps\<lparr>fprov := fp, mach := RestoreState sp' m, spaces := (spaces ps)(a \<mapsto> sp')\<rparr>"
  have ps': "spaces ps' = (spaces ps)(a \<mapsto> sp')" "fprov ps' = fp" "mach ps' = RestoreState sp' m"
      "pidMap ps' = pidMap ps" "lastPid ps' = lastPid ps" by (simp_all add: ps'_def)
  have r: "do_Sbrk a n ps = Some (brk sp, ps')"
    using ps(2) n t(1) sp(2) avail_word [OF d(1), of n] sum
    by (simp add: do_Sbrk_def NumAvailFrame_def ps'_def sp'_def pt_def Let_def)
  have own: "owned ps a = frames_in (as_pageTable sp)" "owned ps a \<subseteq> taken (fprov ps)"
      "owned ps' a = owned ps a \<union> frames_in new"
    using owned_Some [OF ps(2)] d(8) ps'(1) by (auto simp: owned_def sp'_def pt_def)
  have wf: "table_wf 0 pt" using sp(1,2) t(3,4) own(1,2) by (auto simp: pt_def table_wf_append)
  have ok: "space_ok sp'" using wf sp t(2) sum by (simp add: space_ok_def sp'_def) (simp add: pt_def)
  have "procs_ok ps'"
    by (rule procs_ok_update [OF ps(1) ps'(1)])
      (use d t(4-6) own ok t(8) in \<open>auto simp: ps' RestoreState_def\<close>)
  moreover have "installed (mach ps') pt"
    using wf t(2,8) sp(2) sum d(2) by (simp add: installed_def ps' RestoreState_def sp'_def) (simp add: pt_def)
  moreover have fresh: "x \<notin> frames_in new" if "x \<in> taken (fprov ps)" for x using t(4) that by (metis disjoint_iff)
  moreover have mem: "mainMemory (mach ps') x = (if x div PageSize \<in> frames_in new then 0 else mainMemory (mach ps) x)" for x
    using t(8) by (simp add: ps' RestoreState_def)
  moreover have "user_memory sp' (mainMemory (mach ps'))
      = user_memory sp (mainMemory (mach ps)) @ replicate (PageSize * unat n) 0"
  proof -
    have "view (as_pageTable sp) (mainMemory (mach ps')) = view (as_pageTable sp) (mainMemory (mach ps))"
    proof (rule view_cong)
      fix x assume "x div PageSize \<in> frames_in (as_pageTable sp)"
      then have "x div PageSize \<in> taken (fprov ps)" using own(1,2) by blast
      then show "mainMemory (mach ps') x = mainMemory (mach ps) x" using mem fresh by simp
    qed
    moreover have "view new (mainMemory (mach ps')) = replicate (PageSize * length new) 0"
      using mem by (intro view_zero) simp
    ultimately show ?thesis using t(2) by (simp add: sp'_def pt_def view_append)
  qed
  moreover have "\<forall>x. x div PageSize \<in> taken (fprov ps) \<longrightarrow> mainMemory (mach ps') x = mainMemory (mach ps) x"
    using mem fresh by simp
  ultimately show ?thesis using r ps' t(7) sum by (intro exI [of _ ps'] exI [of _ sp']) (simp add: sp'_def)
qed

lemma do_Sbrk_full: "procs_ok ps \<Longrightarrow> spaces ps a = Some sp \<Longrightarrow> nAvailFrame (fprov ps) < int (unat n) \<Longrightarrow>
    do_Sbrk a n ps = Some (0, ps)"
  using avail_word [OF procs_okD(1), of ps n] by (simp add: do_Sbrk_def NumAvailFrame_def Let_def)

lemma delete_space_spec:
  assumes ps: "procs_ok ps" "spaces ps a = Some sp"
  shows "\<exists>fp. delete_space a ps = Some (ps\<lparr>fprov := fp, spaces := (spaces ps)(a := None)\<rparr>)
    \<and> procs_ok (ps\<lparr>fprov := fp, spaces := (spaces ps)(a := None)\<rparr>)
    \<and> taken fp = taken (fprov ps) - owned ps a \<and> nAvailFrame fp = nAvailFrame (fprov ps) + int (unat (numPages sp))"
proof -
  note d = procs_okD [OF ps(1)]
  have sp: "table_wf 0 (as_pageTable sp)" "length (as_pageTable sp) = unat (numPages sp)"
    using d(6) [OF ps(2)] by (simp_all add: space_ok_def)
  have own: "owned ps a = frames_in (as_pageTable sp)" "owned ps a \<subseteq> taken (fprov ps)"
    using owned_Some [OF ps(2)] d(8) by auto
  then obtain fp where fp: "release_frames (as_pageTable sp) (fprov ps) = Some fp" "fp_ok fp"
      "taken fp = taken (fprov ps) - owned ps a" "nAvailFrame fp = nAvailFrame (fprov ps) + int (unat (numPages sp))"
    using release_frames_spec [OF d(1) sp(1)] sp(2) by auto
  let ?ps = "ps\<lparr>fprov := fp, spaces := (spaces ps)(a := None)\<rparr>"
  have "procs_ok ?ps"
    by (rule procs_ok_update [OF ps(1), where a = a and x = None]) (use d fp in \<open>auto simp: owned_def [of ?ps]\<close>)
  then show ?thesis using ps(2) fp sp(2) by (intro exI [of _ fp]) (simp add: delete_space_def ReleaseFrames_def)
qed

section \<open>Runs\<close>

text \<open>
  What happens to the address spaces over time: processes are created and loaded at free addresses, grow,
  give back their pid, are deleted; threads come and go; and user code stores into its memory, through
  the table of its space, which the machine then holds (\<open>store\<close>).
\<close>

inductive pstep :: "Procs \<Rightarrow> Procs \<Rightarrow> bool" where
  create: "spaces ps a = None \<Longrightarrow> AddrSpace_empty heap nt a n ps = Some ps' \<Longrightarrow> pstep ps ps'"
| load: "spaces ps a = None \<Longrightarrow> dev_wf v \<Longrightarrow> maps_to v (hdr f) bl ix \<Longrightarrow> loadable (contents v (hdr f) bl) \<Longrightarrow>
    AddrSpace_load heap stale eh v f a ps = Some ps' \<Longrightarrow> pstep ps ps'"
| sbrk: "do_Sbrk a n ps = Some (r, ps') \<Longrightarrow> pstep ps ps'"
| exit: "clear_pid a ps = Some ps' \<Longrightarrow> pstep ps ps'"
| delete: "delete_space a ps = Some ps' \<Longrightarrow> pstep ps ps'"
| new_thread: "AllocateThreadData a tid ps = Some (i, ps') \<Longrightarrow> pstep ps ps'"
| end_thread: "DeleteThreadData a tid tids ps = Some (tids', ps') \<Longrightarrow> pstep ps ps'"
| store: "spaces ps a = Some sp \<Longrightarrow> sz \<in> {1, 2, 4} \<Longrightarrow> aligned addr sz \<Longrightarrow> unat addr < PageSize * unat (numPages sp) \<Longrightarrow>
    WriteMem eh (RestoreState sp (mach ps)) addr sz x = Some (True, m) \<Longrightarrow> pageTable m = Some pt \<Longrightarrow>
    pstep ps (ps\<lparr>mach := m, spaces := (spaces ps)(a \<mapsto> sp\<lparr>as_pageTable := pt\<rparr>)\<rparr>)"

text \<open>The state that \<open>Initialize\<close> and the first \<open>GetInstance\<close> leave.\<close>

definition procs_boot :: "(nat \<Rightarrow> nat \<Rightarrow> u32) \<Rightarrow> u32 \<Rightarrow> bool \<Rightarrow> Procs option" where
  "procs_boot heap size0 debug = do {
     fp \<leftarrow> FrameProvider_new (heap 0);
     b \<leftarrow> BitMap_new (heap 1) MaxProcesses;
     Some \<lparr>mach = Machine_new size0 debug, fprov = fp, pidMap = b, lastPid = 0, addrspaces = Map.empty,
       spaces = Map.empty, threadsInfos = Map.empty\<rparr>
   }"

inductive preachable :: "Procs \<Rightarrow> Procs \<Rightarrow> bool" where
  start: "preachable ps ps"
| step: "preachable ps ps' \<Longrightarrow> pstep ps' ps'' \<Longrightarrow> preachable ps ps''"

lemma boot_ok:
  obtains ps where "procs_boot heap size0 debug = Some ps" "procs_ok ps" "spaces ps = Map.empty" "marked (pidMap ps) = {}"
proof -
  obtain fb where fb: "BitMap_new (heap 0) 2096 = Some fb" "bitmap_wf fb" "numBits fb = 2096" "marked fb = {}"
    using new_spec [of 2096 "heap 0"] by auto
  obtain b where b: "BitMap_new (heap 1) MaxProcesses = Some b" "bitmap_wf b" "numBits b = MaxProcesses" "marked b = {}"
    using new_spec [of MaxProcesses "heap 1"] by auto
  show ?thesis
    by (rule that) (use fb b in \<open>auto simp: procs_boot_def FrameProvider_new_def procs_ok_def fp_ok_def taken_def
        owned_def Machine_new_def\<close>)
qed

lemma store_step:
  assumes ps: "procs_ok ps" "spaces ps a = Some sp"
    and st: "sz \<in> {1, 2, 4}" "aligned addr sz" "unat addr < PageSize * unat (numPages sp)"
      "WriteMem eh (RestoreState sp (mach ps)) addr sz x = Some (True, m)" "pageTable m = Some pt"
  shows "procs_ok (ps\<lparr>mach := m, spaces := (spaces ps)(a \<mapsto> sp\<lparr>as_pageTable := pt\<rparr>)\<rparr>)"
    "frames_in pt = owned ps a"
    "\<exists>bs. store_bytes x sz = Some bs \<and> view pt (mainMemory m) = overlay (user_memory sp (mainMemory (mach ps))) (unat addr) bs"
    "\<And>p. p div PageSize \<notin> owned ps a \<Longrightarrow> mainMemory m p = mainMemory (mach ps) p"
proof -
  note d = procs_okD [OF ps(1)]
  have sp: "table_wf 0 (as_pageTable sp)" "length (as_pageTable sp) = unat (numPages sp)" "space_ok sp"
    using d(6) [OF ps(2)] by (simp_all add: space_ok_def)
  have i: "installed (RestoreState sp (mach ps)) (as_pageTable sp)"
    using sp d(2) by (simp add: installed_def RestoreState_def)
  have "unat addr < PageSize * length (as_pageTable sp)" using st(3) sp(2) by simp
  then obtain bs m' pt' where r: "WriteMem eh (RestoreState sp (mach ps)) addr sz x = Some (True, m')"
      "store_bytes x sz = Some bs" "installed m' pt'" "map core pt' = map core (as_pageTable sp)"
      "view pt' (mainMemory m') = overlay (user_memory sp (mainMemory (RestoreState sp (mach ps)))) (unat addr) bs"
      "\<And>p. p div PageSize \<notin> frames_in (as_pageTable sp) \<Longrightarrow> mainMemory m' p = mainMemory (RestoreState sp (mach ps)) p"
    using store_spec [OF i st(1,2)] by metis
  have e: "m' = m" "pt' = pt" using r(1,3) st(4,5) by (auto simp: installed_def)
  note r = r [unfolded e]
  show fr: "frames_in pt = owned ps a" using core_frames_in [OF r(4)] owned_Some [OF ps(2)] by simp
  have "space_ok (sp\<lparr>as_pageTable := pt\<rparr>)"
    using sp(3) core_table_wf [OF r(4)] map_core_length [OF r(4)] by (simp add: space_ok_def)
  moreover have "owned ps a \<subseteq> taken (fprov ps)" using d(8) by auto
  ultimately show "procs_ok (ps\<lparr>mach := m, spaces := (spaces ps)(a \<mapsto> sp\<lparr>as_pageTable := pt\<rparr>)\<rparr>)"
    by (intro procs_ok_update [OF ps(1), where a = a and x = "Some (sp\<lparr>as_pageTable := pt\<rparr>)"])
      (use d r(3) fr in \<open>auto simp: owned_def [of "ps\<lparr>mach := m, spaces := _\<rparr>"] installed_def\<close>)
  show "\<exists>bs. store_bytes x sz = Some bs \<and> view pt (mainMemory m) = overlay (user_memory sp (mainMemory (mach ps))) (unat addr) bs"
    using r(2,5) by (simp add: RestoreState_def)
  show "mainMemory m p = mainMemory (mach ps) p" if "p div PageSize \<notin> owned ps a" for p
    using r(6) that owned_Some [OF ps(2)] by (simp add: RestoreState_def)
qed

text \<open>
  One step: the invariant is kept, and all spaces but one keep their memory.
\<close>

definition keeps_others :: "Procs \<Rightarrow> nat \<Rightarrow> Procs \<Rightarrow> bool" where
  "keeps_others ps a ps' \<longleftrightarrow> (\<forall>b sq. b \<noteq> a \<longrightarrow> spaces ps b = Some sq \<longrightarrow>
     spaces ps' b = Some sq \<and> user_memory sq (mainMemory (mach ps')) = user_memory sq (mainMemory (mach ps)))"

lemma keeps_othersI:
  assumes "procs_ok ps" "spaces ps' = (spaces ps)(a := x)"
    "\<And>p. p div PageSize \<in> taken (fprov ps) - owned ps a \<Longrightarrow> mainMemory (mach ps') p = mainMemory (mach ps) p"
  shows "keeps_others ps a ps'"
  unfolding keeps_others_def using others_keep_memory [OF assms(1), of a "mainMemory (mach ps')"] assms(2,3) by auto

lemma added_keeps:
  assumes "procs_ok ps" "frames_in (as_pageTable sp) \<inter> taken (fprov ps) = {}"
    "\<forall>x. x div PageSize \<notin> frames_in (as_pageTable sp) \<longrightarrow> mainMemory m x = mainMemory (mach ps) x"
  shows "keeps_others ps a (add_space a p b fp m sp ps)"
proof (rule keeps_othersI [OF assms(1) add_space_simps(1)])
  fix x assume "x div PageSize \<in> taken (fprov ps) - owned ps a"
  then have "x div PageSize \<notin> frames_in (as_pageTable sp)" using assms(2) by (metis DiffD1 disjoint_iff)
  then show "mainMemory (mach (add_space a p b fp m sp ps)) x = mainMemory (mach ps) x" using assms(3) by simp
qed

text \<open>Steps that touch only what a space keeps of its threads.\<close>

lemma thread_step:
  assumes ps: "procs_ok ps" "spaces ps a = Some sp" "spaces ps' = (spaces ps)(a \<mapsto> sp')"
    and same: "fprov ps' = fprov ps" "mach ps' = mach ps" "pidMap ps' = pidMap ps" "lastPid ps' = lastPid ps"
      "as_pageTable sp' = as_pageTable sp" "numPages sp' = numPages sp" "brk sp' = brk sp" "pid sp' = pid sp"
  shows "procs_ok ps' \<and> keeps_others ps a ps'"
proof
  note d = procs_okD [OF ps(1)]
  have "space_ok sp'" using d(6) [OF ps(2)] same by (simp add: space_ok_def)
  moreover have "owned ps' a = owned ps a" using ps same by (simp add: owned_def)
  moreover have "owned ps a \<subseteq> taken (fprov ps)" using d(8) by auto
  ultimately show "procs_ok ps'"
    by (intro procs_ok_update [OF ps(1,3)]) (use d(1-5) same in auto)
  show "keeps_others ps a ps'" using keeps_othersI [OF ps(1,3)] same by simp
qed

lemma step_create:
  assumes "procs_ok ps" "spaces ps a = None" "AddrSpace_empty heap nt a n ps = Some ps'"
  shows "procs_ok ps' \<and> keeps_others ps a ps'"
  using AddrSpace_empty_spec [OF assms(1) AddrSpace_empty_inv(1) [OF assms(1,3)] assms(2)
      AddrSpace_empty_inv(2) [OF assms(1,3)], of heap nt] assms(1,3) added_keeps by auto

lemma step_load:
  assumes "procs_ok ps" "spaces ps a = None" "dev_wf v" "maps_to v (hdr f) bl ix" "loadable (contents v (hdr f) bl)"
    "AddrSpace_load heap stale eh v f a ps = Some ps'"
  shows "procs_ok ps' \<and> keeps_others ps a ps'"
proof -
  obtain h where h: "read_header (stale 0) v f = Some h" "int (unat (space_pages h)) \<le> nAvailFrame (fprov ps)"
    "marked (pidMap ps) \<noteq> {0..<MaxProcesses}"
    using AddrSpace_load_inv [OF assms(1,6)] .
  have "h = header_of (contents v (hdr f) bl)"
    using h(1) read_header_spec [OF assms(3,4)] assms(5) by (simp add: loadable_def)
  then show ?thesis
    using AddrSpace_load_spec [OF assms(1) h(3) assms(2-5), of heap stale eh] h(2) assms(1,6) added_keeps by auto
qed

lemma step_sbrk:
  assumes "procs_ok ps" "do_Sbrk a n ps = Some (r, ps')"
  shows "procs_ok ps' \<and> keeps_others ps a ps'"
proof -
  obtain sp where sp: "spaces ps a = Some sp" using assms(2) by (auto simp: do_Sbrk_def bind_Some_iff)
  show ?thesis
  proof (cases "int (unat n) \<le> nAvailFrame (fprov ps)")
    case True
    from do_Sbrk_spec [OF assms(1) sp this] assms(2) obtain sp' where "spaces ps' = (spaces ps)(a \<mapsto> sp')" "procs_ok ps'"
        "\<forall>x. x div PageSize \<in> taken (fprov ps) \<longrightarrow> mainMemory (mach ps') x = mainMemory (mach ps) x"
      by auto
    then show ?thesis using keeps_othersI [OF assms(1)] by auto
  next
    case False
    then have "ps' = ps" using do_Sbrk_full [OF assms(1) sp, of n] assms(2) by simp
    then show ?thesis using assms(1) by (simp add: keeps_others_def)
  qed
qed

lemma step_exit:
  assumes "procs_ok ps" "clear_pid a ps = Some ps'"
  shows "procs_ok ps' \<and> keeps_others ps a ps'"
proof -
  obtain sp b where b: "spaces ps a = Some sp" "BitMap_Clear (pidMap ps) (pid sp) = Some b" "ps' = ps\<lparr>pidMap := b\<rparr>"
    using assms(2) by (auto simp: clear_pid_def bind_Some_iff)
  note d = procs_okD [OF assms(1)]
  have "0 \<le> pid sp" "pid sp < numBits (pidMap ps)" using d(6) [OF b(1)] d(4) by (simp_all add: space_ok_def)
  then have "bitmap_wf b" "numBits b = MaxProcesses" using bm.clear_used [OF d(3), of "pid sp"] b(2) d(4) by auto
  then show ?thesis using assms(1) b(3) by (simp add: procs_ok_def keeps_others_def owned_def)
qed

lemma step_delete:
  assumes "procs_ok ps" "delete_space a ps = Some ps'"
  shows "procs_ok ps' \<and> keeps_others ps a ps'"
proof -
  obtain sp where sp: "spaces ps a = Some sp" using assms(2) by (auto simp: delete_space_def bind_Some_iff)
  from delete_space_spec [OF assms(1) this] assms(2) show ?thesis
    using keeps_othersI [OF assms(1), of _ a None] by auto
qed

lemma step_new_thread:
  assumes "procs_ok ps" "AllocateThreadData a tid ps = Some (i, ps')"
  shows "procs_ok ps' \<and> keeps_others ps a ps'"
proof -
  obtain sp idx b where sp: "spaces ps a = Some sp" "BitMap_Find (threadsBitmap sp) = Some (idx, b)"
    using assms(2) by (auto simp: AllocateThreadData_def bind_Some_iff)
  show ?thesis
  proof (cases "idx = - 1")
    case True
    with assms(2) sp have "ps' = ps\<lparr>spaces := (spaces ps)(a \<mapsto> sp\<lparr>threadsBitmap := b\<rparr>)\<rparr>"
      by (simp add: AllocateThreadData_def)
    then show ?thesis by (intro thread_step [OF assms(1) sp(1), where sp' = "sp\<lparr>threadsBitmap := b\<rparr>"]) simp_all
  next
    case False
    define info where "info = \<lparr>addrspace_idx = idx, userthread_id = nextUserThreadid sp, thread_id = tid\<rparr>"
    define sp' where "sp' = sp\<lparr>threadsBitmap := b, localThreadsInfos := (localThreadsInfos sp)[nat idx := Some info],
        nextUserThreadid := nextUserThreadid sp + 1\<rparr>"
    have "ps' = ps\<lparr>threadsInfos := (threadsInfos ps)(tid \<mapsto> info), spaces := (spaces ps)(a \<mapsto> sp')\<rparr>"
      using assms(2) sp False by (auto simp: AllocateThreadData_def info_def sp'_def Let_def)
    then show ?thesis by (intro thread_step [OF assms(1) sp(1), where sp' = sp']) (simp_all add: sp'_def)
  qed
qed

lemma step_end_thread:
  assumes "procs_ok ps" "DeleteThreadData a tid tids ps = Some (tids', ps')"
  shows "procs_ok ps' \<and> keeps_others ps a ps'"
proof -
  obtain sp info b where sp: "spaces ps a = Some sp" "threadsInfos ps tid = Some info"
      "BitMap_Clear (threadsBitmap sp) (addrspace_idx info) = Some b"
    using assms(2) by (auto simp: DeleteThreadData_def bind_Some_iff)
  define sp' where "sp' = sp\<lparr>threadsBitmap := b, localThreadsInfos := (localThreadsInfos sp)[nat (addrspace_idx info) := None]\<rparr>"
  have e: "ps' = ps\<lparr>spaces := (spaces ps)(a \<mapsto> sp')\<rparr>"
    using assms(2) sp by (auto simp: DeleteThreadData_def bind_Some_iff sp'_def Let_def)
  show ?thesis by (rule thread_step [OF assms(1) sp(1), where sp' = sp']) (simp_all add: e sp'_def)
qed

lemma step_store:
  assumes "procs_ok ps" "spaces ps a = Some sp" "sz \<in> {1, 2, 4}" "aligned addr sz" "unat addr < PageSize * unat (numPages sp)"
    "WriteMem eh (RestoreState sp (mach ps)) addr sz x = Some (True, m)" "pageTable m = Some pt"
  shows "procs_ok (ps\<lparr>mach := m, spaces := (spaces ps)(a \<mapsto> sp\<lparr>as_pageTable := pt\<rparr>)\<rparr>)
    \<and> keeps_others ps a (ps\<lparr>mach := m, spaces := (spaces ps)(a \<mapsto> sp\<lparr>as_pageTable := pt\<rparr>)\<rparr>)"
  using store_step(1,4) [OF assms] by (intro conjI keeps_othersI [OF assms(1)]) auto

lemma pstep_ok:
  assumes "pstep ps ps'" "procs_ok ps"
  shows "\<exists>a. procs_ok ps' \<and> keeps_others ps a ps'"
  using assms
proof (induction rule: pstep.induct)
  case create then show ?case using step_create by blast
next
  case load then show ?case using step_load by blast
next
  case sbrk then show ?case using step_sbrk by blast
next
  case exit then show ?case using step_exit by blast
next
  case delete then show ?case using step_delete by blast
next
  case new_thread then show ?case using step_new_thread by blast
next
  case end_thread then show ?case using step_end_thread by blast
next
  case store then show ?case using step_store by blast
qed

lemma preachable_ok: "preachable ps ps' \<Longrightarrow> procs_ok ps \<Longrightarrow> procs_ok ps'"
  by (induction rule: preachable.induct) (use pstep_ok in blast)+

section \<open>Threads of a process\<close>

text \<open>
  Slot \<open>i\<close> of a space is in use exactly when it holds the \<open>thread_info\<close> of a thread; the ids that user code
  sees are distinct and below the next one.
\<close>

definition threads_ok :: "AddrSpace \<Rightarrow> bool" where
  "threads_ok sp \<longleftrightarrow> bitmap_wf (threadsBitmap sp) \<and> numBits (threadsBitmap sp) = 7
     \<and> length (localThreadsInfos sp) = 7
     \<and> (\<forall>i<7. int i \<in> marked (threadsBitmap sp) \<longleftrightarrow> localThreadsInfos sp ! i \<noteq> None)
     \<and> (\<forall>i<7. \<forall>x. localThreadsInfos sp ! i = Some x \<longrightarrow> addrspace_idx x = int i \<and> userthread_id x < nextUserThreadid sp)
     \<and> (\<forall>i<7. \<forall>j<7. \<forall>x y. localThreadsInfos sp ! i = Some x \<longrightarrow> localThreadsInfos sp ! j = Some y \<longrightarrow>
          userthread_id x = userthread_id y \<longrightarrow> i = j)"

lemma find_userthread_hit:
  assumes "threads_ok sp" "localThreadsInfos sp ! j = Some x" "i \<le> j" "j < i + n" "i + n \<le> 7"
  shows "find_userthread sp (userthread_id x) i n = Some (Some x)"
  using assms(3-5)
proof (induction n arbitrary: i)
  case (Suc n)
  have t: "BitMap_Test (threadsBitmap sp) (int i) = Some (localThreadsInfos sp ! i \<noteq> None)"
    using assms(1) Suc.prems(3) Test_eq [of "int i" "threadsBitmap sp"] by (simp add: threads_ok_def)
  show ?case
  proof (cases "i = j")
    case True
    then show ?thesis using t assms(2) by simp
  next
    case False
    then have "find_userthread sp (userthread_id x) (Suc i) n = Some (Some x)" using Suc by simp
    moreover have "userthread_id y \<noteq> userthread_id x" if "localThreadsInfos sp ! i = Some y" for y
    proof -
      have "i < 7" "j < 7" using Suc.prems by simp_all
      then show ?thesis using assms(1,2) that False unfolding threads_ok_def by metis
    qed
    ultimately show ?thesis using t by (cases "localThreadsInfos sp ! i") auto
  qed
qed simp

lemma found_userthread:
  assumes "threads_ok sp" "find_userthread sp u i n = Some (Some x)" "i + n \<le> 7"
  shows "userthread_id x = u \<and> (\<exists>j<7. localThreadsInfos sp ! j = Some x)"
  using assms(2,3)
proof (induction n arbitrary: i)
  case (Suc n)
  have t: "BitMap_Test (threadsBitmap sp) (int i) = Some (localThreadsInfos sp ! i \<noteq> None)"
    using assms(1) Suc.prems(2) Test_eq [of "int i" "threadsBitmap sp"] by (simp add: threads_ok_def)
  have "i < 7" using Suc.prems(2) by simp
  then show ?case using Suc t by (cases "localThreadsInfos sp ! i") (auto split: if_splits intro: exI [of _ i])
qed simp

definition info_of :: "AddrSpace \<Rightarrow> int \<Rightarrow> nat \<Rightarrow> thread_info" where
  "info_of sp tid i = \<lparr>addrspace_idx = int i, userthread_id = nextUserThreadid sp, thread_id = tid\<rparr>"

definition with_thread :: "AddrSpace \<Rightarrow> int \<Rightarrow> nat \<Rightarrow> BitMap \<Rightarrow> AddrSpace" where
  "with_thread sp tid i b = sp\<lparr>threadsBitmap := b,
     localThreadsInfos := (localThreadsInfos sp)[i := Some (info_of sp tid i)], nextUserThreadid := nextUserThreadid sp + 1\<rparr>"

lemma AllocateThreadData_spec:
  assumes "spaces ps a = Some sp" "threads_ok sp" "0 \<le> tid" "tid < MaxThreads"
  obtains (full) "marked (threadsBitmap sp) = {0..<7}" "AllocateThreadData a tid ps = Some (- 1, ps)"
  | (slot) i b where "i < 7" "int i \<notin> marked (threadsBitmap sp)" "bitmap_wf b" "numBits b = 7"
      "marked b = insert (int i) (marked (threadsBitmap sp))"
      "AllocateThreadData a tid ps = Some (int i, ps\<lparr>threadsInfos := (threadsInfos ps)(tid \<mapsto> info_of sp tid i),
         spaces := (spaces ps)(a \<mapsto> with_thread sp tid i b)\<rparr>)"
proof -
  have wf: "bitmap_wf (threadsBitmap sp)" "numBits (threadsBitmap sp) = 7" "length (localThreadsInfos sp) = 7"
    using assms(2) by (simp_all add: threads_ok_def)
  obtain k b where k: "BitMap_Find (threadsBitmap sp) = Some (k, b)" using bm.find_total [OF wf(1)] by blast
  show ?thesis
  proof (cases "k = - 1")
    case True
    then have "b = threadsBitmap sp" "marked (threadsBitmap sp) = {0..<7}" using bm.find_full [OF wf(1)] k wf(2) by auto
    then show ?thesis using full assms(1) k True by (simp add: AllocateThreadData_def fun_upd_idem)
  next
    case False
    note hit = bm.find_hit [OF wf(1) k False]
    define i where "i = nat k"
    have i: "k = int i" "i < 7" using hit wf(2) by (auto simp: i_def)
    have "AllocateThreadData a tid ps = Some (int i, ps\<lparr>threadsInfos := (threadsInfos ps)(tid \<mapsto> info_of sp tid i),
         spaces := (spaces ps)(a \<mapsto> with_thread sp tid i b)\<rparr>)"
      using assms k False i wf(3) by (simp add: AllocateThreadData_def info_of_def with_thread_def Let_def)
    then show ?thesis using slot [of i b] hit i wf(2) by simp
  qed
qed

lemma with_thread_ok:
  assumes "threads_ok sp" "i < 7" "int i \<notin> marked (threadsBitmap sp)" "bitmap_wf b" "numBits b = 7"
    "marked b = insert (int i) (marked (threadsBitmap sp))" "unat (nextUserThreadid sp) + 1 < 2 ^ 32"
  shows "threads_ok (with_thread sp tid i b)"
proof -
  let ?l = "localThreadsInfos sp" and ?l' = "(localThreadsInfos sp)[i := Some (info_of sp tid i)]"
  note t = assms(1) [unfolded threads_ok_def]
  have free: "?l ! i = None" using t assms(2,3) by auto
  have u: "unat (nextUserThreadid sp + 1) = unat (nextUserThreadid sp) + 1"
    using assms(7) unat_add_lem [of "nextUserThreadid sp" 1] by simp
  then have next': "nextUserThreadid sp < nextUserThreadid sp + 1"
      "\<And>x. x < nextUserThreadid sp \<Longrightarrow> x < nextUserThreadid sp + 1"
    by (simp_all add: word_less_nat_alt)
  have l: "?l' ! j = (if j = i then Some (info_of sp tid i) else ?l ! j)" if "j < 7" for j
    using that t assms(2) by (simp add: nth_list_update)
  have "\<forall>j<7. int j \<in> marked b \<longleftrightarrow> ?l' ! j \<noteq> None" using t assms(6) l by auto
  moreover have "\<forall>j<7. \<forall>x. ?l' ! j = Some x \<longrightarrow> addrspace_idx x = int j \<and> userthread_id x < nextUserThreadid sp + 1"
    using t l next' by (auto simp: info_of_def)
  moreover have "\<forall>j<7. \<forall>k<7. \<forall>x y. ?l' ! j = Some x \<longrightarrow> ?l' ! k = Some y \<longrightarrow> userthread_id x = userthread_id y \<longrightarrow> j = k"
  proof (intro allI impI)
    fix j k x y
    assume j: "j < 7" "k < 7" "?l' ! j = Some x" "?l' ! k = Some y" "userthread_id x = userthread_id y"
    have old: "userthread_id z \<noteq> nextUserThreadid sp" if "?l ! q = Some z" "q < 7" for q z
      using t that by fastforce
    have new: "userthread_id z = nextUserThreadid sp" if "?l' ! q = Some z" "q < 7" "q = i" for q z
      using that l by (auto simp: info_of_def)
    have keep: "?l ! q = Some z" if "?l' ! q = Some z" "q < 7" "q \<noteq> i" for q z using that l by simp
    show "j = k"
    proof (cases "j = i \<or> k = i")
      case True
      then show ?thesis using j new keep old by metis
    next
      case False
      then show ?thesis using j keep t by metis
    qed
  qed
  ultimately show ?thesis using t assms(4,5) by (simp add: threads_ok_def with_thread_def)
qed

lemma DeleteThreadData_spec:
  assumes sp: "spaces ps a = Some sp" "threads_ok sp" "i < 7" "localThreadsInfos sp ! i = Some info"
    and tid: "threadsInfos ps tid = Some info" "bitmap_wf tids" "tid \<in> marked tids"
  shows "\<exists>tids' b. DeleteThreadData a tid tids ps = Some (tids', ps\<lparr>spaces := (spaces ps)(a \<mapsto>
        sp\<lparr>threadsBitmap := b, localThreadsInfos := (localThreadsInfos sp)[i := None]\<rparr>)\<rparr>)
    \<and> marked tids' = marked tids - {tid} \<and> marked b = marked (threadsBitmap sp) - {int i}
    \<and> threads_ok (sp\<lparr>threadsBitmap := b, localThreadsInfos := (localThreadsInfos sp)[i := None]\<rparr>)"
proof -
  note t = sp(2) [unfolded threads_ok_def]
  have idx: "addrspace_idx info = int i" "int i \<in> marked (threadsBitmap sp)" using t sp(3,4) by auto
  have m: "0 \<le> tid" "tid < numBits tids" using tid(3) marked_subset [of tids] by auto
  obtain tids' where tids': "BitMap_Clear tids tid = Some tids'" "marked tids' = marked tids - {tid}"
    using bm.clear_used [OF tid(2) m] by blast
  have "\<exists>b. BitMap_Clear (threadsBitmap sp) (int i) = Some b \<and> bitmap_wf b \<and> numBits b = numBits (threadsBitmap sp)
      \<and> marked b = marked (threadsBitmap sp) - {int i}"
    using bm.clear_used [of "threadsBitmap sp" "int i"] t sp(3) by simp
  then obtain b where b: "BitMap_Clear (threadsBitmap sp) (int i) = Some b" "bitmap_wf b" "numBits b = 7"
      "marked b = marked (threadsBitmap sp) - {int i}"
    using t by auto
  let ?sp = "sp\<lparr>threadsBitmap := b, localThreadsInfos := (localThreadsInfos sp)[i := None]\<rparr>"
  have "DeleteThreadData a tid tids ps = Some (tids', ps\<lparr>spaces := (spaces ps)(a \<mapsto> ?sp)\<rparr>)"
    using sp(1) tid(1) idx b(1) tids'(1) m t sp(3) tid(3) Test_eq [of tid tids] Test_eq [of "int i" "threadsBitmap sp"]
    by (simp add: DeleteThreadData_def Let_def)
  moreover have "threads_ok ?sp"
  proof -
    have l: "(localThreadsInfos sp)[i := None] ! j = (if j = i then None else localThreadsInfos sp ! j)" if "j < 7" for j
      using that t sp(3) by (simp add: nth_list_update)
    show ?thesis using t b l by (auto simp: threads_ok_def)
  qed
  ultimately show ?thesis using tids'(2) b(4) by blast
qed

section \<open>Properties\<close>

text \<open>
  C2. Frames have one owner. In every state that the kernel reaches by creating, loading, growing, exiting and
  deleting processes, starting and ending threads, and running user stores: each page table maps its pages
  to distinct existing frames, no two live spaces share a frame, the frame provider marks exactly the frames
  of the live spaces, and its counter is the number of free frames.
\<close>

theorem spaces_own_frames:
  assumes "procs_boot heap size0 debug = Some ps0" "preachable ps0 ps"
  shows "(\<forall>a sp. spaces ps a = Some sp \<longrightarrow> distinct (map frame (as_pageTable sp))
      \<and> frames_in (as_pageTable sp) \<subseteq> {0..<NumPhysPages} \<and> length (as_pageTable sp) = unat (numPages sp))
    \<and> (\<forall>a b sp sq. a \<noteq> b \<longrightarrow> spaces ps a = Some sp \<longrightarrow> spaces ps b = Some sq \<longrightarrow>
         frames_in (as_pageTable sp) \<inter> frames_in (as_pageTable sq) = {})
    \<and> taken (fprov ps) = (\<Union>a. owned ps a)
    \<and> nAvailFrame (fprov ps) = int NumPhysPages - int (card (taken (fprov ps)))"
proof -
  have "procs_ok ps0" using assms(1) boot_ok [of heap size0 debug] by (metis option.inject)
  then have ok: "procs_ok ps" using preachable_ok [OF assms(2)] by blast
  note d = procs_okD [OF ok]
  show ?thesis
  proof (intro conjI allI impI)
    fix a sp assume sp: "spaces ps a = Some sp"
    then have t: "table_wf 0 (as_pageTable sp)" using d(6) by (simp add: space_ok_def)
    show "distinct (map frame (as_pageTable sp))" using t by (simp add: table_wf_def)
    show "frames_in (as_pageTable sp) \<subseteq> {0..<NumPhysPages}" using t by (rule table_wf_frames)
    show "length (as_pageTable sp) = unat (numPages sp)" using d(6) [OF sp] by (simp add: space_ok_def)
  next
    fix a b sp sq assume "a \<noteq> b" "spaces ps a = Some sp" "spaces ps b = Some sq"
    then show "frames_in (as_pageTable sp) \<inter> frames_in (as_pageTable sq) = {}"
      using d(7) [of a b] owned_Some [of ps] by simp
  next
    show "taken (fprov ps) = (\<Union>a. owned ps a)" by (rule d(8))
    show "nAvailFrame (fprov ps) = int NumPhysPages - int (card (taken (fprov ps)))" using d(1) by (simp add: fp_ok_def)
  qed
qed

text \<open>Two empty processes of three and two pages, in a system that has just started.\<close>

lemma two_spaces:
  obtains ps0 ps1 ps2 where "procs_boot (\<lambda>_ _. 0) 0 False = Some ps0" "procs_ok ps0"
    "AddrSpace_empty (\<lambda>_ _. 0) 0 10 3 ps0 = Some ps1" "AddrSpace_empty (\<lambda>_ _. 0) 0 20 2 ps1 = Some ps2" "preachable ps0 ps1"
    "preachable ps0 ps2" "procs_ok ps2" "spaces ps2 10 \<noteq> None" "spaces ps2 20 \<noteq> None" "nAvailFrame (fprov ps2) = 2091"
    "spaces ps1 20 = None"
proof -
  let ?h = "\<lambda>_ _. 0 :: u32"
  obtain ps0 where ps0: "procs_boot ?h 0 False = Some ps0" "procs_ok ps0" "spaces ps0 = Map.empty" "marked (pidMap ps0) = {}"
    by (rule boot_ok)
  have t0: "taken (fprov ps0) = {}" using procs_okD(8) [OF ps0(2)] ps0(3) by (simp add: owned_def)
  then have n0: "nAvailFrame (fprov ps0) = 2096" using procs_okD(1) [OF ps0(2)] by (simp add: fp_ok_def)
  have e: "{0..<MaxProcesses} \<noteq> {}" by simp
  obtain p b fp m sp where c: "AddrSpace_empty ?h 0 10 3 ps0 = Some (add_space 10 p b fp m sp ps0)"
      "procs_ok (add_space 10 p b fp m sp ps0)" "marked b = {p}" "nAvailFrame fp = 2093"
    using AddrSpace_empty_spec [OF ps0(2), of 10 3 ?h 0] ps0(3,4) n0 e by auto
  define ps1 where "ps1 = add_space 10 p b fp m sp ps0"
  have ps1: "procs_ok ps1" "spaces ps1 = [10 \<mapsto> sp]" "fprov ps1 = fp" "pidMap ps1 = b"
    using c(2) ps0(3) by (simp_all add: ps1_def)
  have "(0 :: int) \<in> {0..<MaxProcesses}" "(1 :: int) \<in> {0..<MaxProcesses}" by simp_all
  then have free: "marked (pidMap ps1) \<noteq> {0..<MaxProcesses}" using c(3) ps1(4) by (metis singletonD zero_neq_one)
  obtain q b' fp' m' sq where d: "AddrSpace_empty ?h 0 20 2 ps1 = Some (add_space 20 q b' fp' m' sq ps1)"
      "procs_ok (add_space 20 q b' fp' m' sq ps1)" "nAvailFrame fp' = 2091"
    using AddrSpace_empty_spec [OF ps1(1) free, of 20 2 ?h 0] ps1(2,3) c(4) by auto
  have r1: "preachable ps0 ps1"
    using preachable.step [OF preachable.start pstep.create, of ps0 10 ?h 0 3 ps1] c(1) ps0(3) by (simp add: ps1_def)
  then have "preachable ps0 (add_space 20 q b' fp' m' sq ps1)"
    using preachable.step [OF r1 pstep.create, of 20 ?h 0 2] d(1) ps1(2) by simp
  then show ?thesis using that [OF ps0(1,2) _ d(1) r1] c(1) d ps0(3) ps1 by (simp add: ps1_def)
qed

theorem spaces_own_frames_witness:
  "\<exists>ps0 ps1 ps2 sp sq. procs_boot (\<lambda>_ _. 0) 0 False = Some ps0 \<and> AddrSpace_empty (\<lambda>_ _. 0) 0 10 3 ps0 = Some ps1
     \<and> AddrSpace_empty (\<lambda>_ _. 0) 0 20 2 ps1 = Some ps2 \<and> spaces ps2 10 = Some sp \<and> spaces ps2 20 = Some sq
     \<and> frames_in (as_pageTable sp) \<inter> frames_in (as_pageTable sq) = {}"
proof -
  obtain ps0 ps1 ps2 where w: "procs_boot (\<lambda>_ _. 0) 0 False = Some ps0" "AddrSpace_empty (\<lambda>_ _. 0) 0 10 3 ps0 = Some ps1"
      "AddrSpace_empty (\<lambda>_ _. 0) 0 20 2 ps1 = Some ps2" "preachable ps0 ps2" "spaces ps2 10 \<noteq> None" "spaces ps2 20 \<noteq> None"
    using two_spaces by metis
  then obtain sp sq where sp: "spaces ps2 10 = Some sp" "spaces ps2 20 = Some sq" by blast
  have "(10 :: nat) \<noteq> 20" by simp
  from spaces_own_frames [OF w(1,4), THEN conjunct2, THEN conjunct1, rule_format, OF this sp]
  show ?thesis using w(1-3) sp by (intro exI conjI)
qed



text \<open>
  C21. Loading a program. When the file is an object file whose segments lie in the file and in the address space, and
  a pid and enough frames are free, the constructor of \<open>AddrSpace\<close> returns: the new process has a fresh pid and
  sees in its memory the code and the initialised data of the file at their addresses and zeros everywhere
  else, its frames were free before, and every other process keeps its memory. When there are too few frames
  or no pid is left, it does not return.
\<close>

theorem load_program:
  assumes "procs_ok ps" "spaces ps a = None" "dev_wf v" "maps_to v (hdr f) bl ix" "loadable (contents v (hdr f) bl)"
  shows "if marked (pidMap ps) \<noteq> {0..<MaxProcesses}
      \<and> int (unat (space_pages (header_of (contents v (hdr f) bl)))) \<le> nAvailFrame (fprov ps)
    then \<exists>ps' sp. AddrSpace_load heap stale eh v f a ps = Some ps' \<and> procs_ok ps' \<and> spaces ps' = (spaces ps)(a \<mapsto> sp)
      \<and> pid sp \<notin> marked (pidMap ps) \<and> user_memory sp (mainMemory (mach ps')) = image (contents v (hdr f) bl)
      \<and> frames_in (as_pageTable sp) \<inter> taken (fprov ps) = {}
      \<and> (\<forall>b sq. b \<noteq> a \<longrightarrow> spaces ps b = Some sq \<longrightarrow>
           user_memory sq (mainMemory (mach ps')) = user_memory sq (mainMemory (mach ps)))
    else AddrSpace_load heap stale eh v f a ps = None"
proof (cases "marked (pidMap ps) \<noteq> {0..<MaxProcesses}
      \<and> int (unat (space_pages (header_of (contents v (hdr f) bl)))) \<le> nAvailFrame (fprov ps)")
  case True
  from AddrSpace_load_spec [OF assms(1) conjunct1 [OF True] assms(2-5) conjunct2 [OF True], of heap stale eh]
  obtain p b fp m sp where r: "AddrSpace_load heap stale eh v f a ps = Some (add_space a p b fp m sp ps)"
      "procs_ok (add_space a p b fp m sp ps)" "pid sp \<notin> marked (pidMap ps)"
      "user_memory sp (mainMemory m) = image (contents v (hdr f) bl)" "frames_in (as_pageTable sp) \<inter> taken (fprov ps) = {}"
      "\<forall>x. x div PageSize \<notin> frames_in (as_pageTable sp) \<longrightarrow> mainMemory m x = mainMemory (mach ps) x"
    by blast
  have "keeps_others ps a (add_space a p b fp m sp ps)" by (rule added_keeps [OF assms(1) r(5,6)])
  then have k: "\<forall>b sq. b \<noteq> a \<longrightarrow> spaces ps b = Some sq \<longrightarrow> user_memory sq (mainMemory m) = user_memory sq (mainMemory (mach ps))"
    by (simp add: keeps_others_def)
  show ?thesis using True r(1-5) k by (simp only: if_True simp_thms) (intro exI [of _ "add_space a p b fp m sp ps"] exI [of _ sp], simp)
next
  case False
  have "AddrSpace_load heap stale eh v f a ps = None"
  proof (rule ccontr)
    assume "AddrSpace_load heap stale eh v f a ps \<noteq> None"
    then obtain ps' where "AddrSpace_load heap stale eh v f a ps = Some ps'" by blast
    then obtain h where h: "read_header (stale 0) v f = Some h" "int (unat (space_pages h)) \<le> nAvailFrame (fprov ps)"
        "marked (pidMap ps) \<noteq> {0..<MaxProcesses}"
      using AddrSpace_load_inv [OF assms(1)] by blast
    have "h = header_of (contents v (hdr f) bl)"
      using h(1) read_header_spec [OF assms(3,4)] assms(5) by (simp add: loadable_def)
    then show False using h False by blast
  qed
  then show ?thesis using False by simp
qed

text \<open>A program of four bytes, at the beginning of its address space, in sector 5 of a disk.\<close>

abbreviation demo_program :: "byte list" where
  "demo_program \<equiv> le32 NOFFMAGIC @ (le32 0 @ le32 40 @ le32 4) @ (le32 0 @ le32 0 @ le32 0) @ (le32 0 @ le32 0 @ le32 0)
     @ [1, 2, 3, 4]"

abbreviation demo_dev :: dev where
  "demo_dev \<equiv> \<lparr>sectors = (\<lambda>_. demo_program @ replicate 84 0), junk = (\<lambda>_. 0)\<rparr>"

abbreviation demo_file :: OpenFile where
  "demo_file \<equiv> \<lparr>hdr = \<lparr>ftype = DATA_FILE, numBytes = 44, numSectors = 1, dataSectors = 5 # replicate 28 0\<rparr>, seekPosition = 0\<rparr>"

lemma demo_header: "header_of demo_program = \<lparr>noffMagic = NOFFMAGIC,
    code = \<lparr>virtualAddr = 0, inFileAddr = 40, seg_size = 4\<rparr>, initData = \<lparr>virtualAddr = 0, inFileAddr = 0, seg_size = 0\<rparr>,
    uninitData = \<lparr>virtualAddr = 0, inFileAddr = 0, seg_size = 0\<rparr>\<rparr>"
  using unle32_le32 [of 0 "[]"] by (simp add: noff_header_def noff_segment_def)

lemma demo_program_ok:
  "loadable demo_program" "space_pages (header_of demo_program) = 17" "image demo_program = [1, 2, 3, 4] @ replicate 2172 0"
proof -
  show sz: "space_pages (header_of demo_program) = 17" unfolding demo_header by (simp add: space_pages_def)
  show "loadable demo_program" unfolding loadable_def sz unfolding demo_header by (simp add: seg_ok_def)
  have "replicate 2176 (0 :: byte) = replicate 4 0 @ replicate 2172 0" by (simp add: replicate_add [symmetric])
  then show "image demo_program = [1, 2, 3, 4] @ replicate 2172 0"
    unfolding image_def Let_def sz unfolding demo_header by (simp add: segment_def overlay_def)
qed

theorem load_program_witness:
  "\<exists>ps0 ps1 sp. procs_boot (\<lambda>_ _. 0) 0 False = Some ps0
     \<and> AddrSpace_load (\<lambda>_ _. 0) (\<lambda>_ _. 0) (\<lambda>_. Some) demo_dev demo_file 10 ps0 = Some ps1
     \<and> spaces ps1 10 = Some sp \<and> user_memory sp (mainMemory (mach ps1)) = [1, 2, 3, 4] @ replicate 2172 0"
proof -
  obtain ps0 where ps0: "procs_boot (\<lambda>_ _. 0) 0 False = Some ps0" "procs_ok ps0" "spaces ps0 = Map.empty" "marked (pidMap ps0) = {}"
    by (rule boot_ok)
  have "taken (fprov ps0) = {}" using procs_okD(8) [OF ps0(2)] ps0(3) by (simp add: owned_def)
  then have n: "nAvailFrame (fprov ps0) = 2096" using procs_okD(1) [OF ps0(2)] by (simp add: fp_ok_def)
  have wf: "dev_wf demo_dev" by (simp add: dev_wf_def)
  have mt: "maps_to demo_dev (hdr demo_file) [5] {}" by (rule direct_maps_to [of _ 1]) simp_all
  have c: "contents demo_dev (hdr demo_file) [5] = demo_program" by (simp add: contents_def raw_contents_def)
  have e: "{0..<MaxProcesses} \<noteq> {}" by simp
  have ld: "loadable (contents demo_dev (hdr demo_file) [5])" unfolding c by (rule demo_program_ok(1))
  have "marked (pidMap ps0) \<noteq> {0..<MaxProcesses} \<and> int (unat (17 :: u32)) \<le> nAvailFrame (fprov ps0)"
    using ps0(4) n e by simp
  then obtain ps1 sp where "AddrSpace_load (\<lambda>_ _. 0) (\<lambda>_ _. 0) (\<lambda>_. Some) demo_dev demo_file 10 ps0 = Some ps1"
      "spaces ps1 = (spaces ps0)(10 \<mapsto> sp)" "user_memory sp (mainMemory (mach ps1)) = image demo_program"
    using load_program [OF ps0(2) _ wf mt ld, of 10 "\<lambda>_ _. 0" "\<lambda>_ _. 0" "\<lambda>_. Some"] ps0(3)
    unfolding c demo_program_ok(2) by auto
  then show ?thesis using ps0(1) demo_program_ok(3) by (intro exI [of _ ps0] exI [of _ ps1] exI [of _ sp]) simp
qed

text \<open>
  Growing the heap. \<open>do_Sbrk\<close> on a live process appends \<open>n\<close> zeroed pages to its memory, keeps what it had, returns
  the old break, installs the new table in the machine, and leaves the memory of all other processes alone; if
  fewer than \<open>n\<close> frames are free it returns 0 and changes nothing.
\<close>

lemma sbrk_grows:
  assumes "procs_ok ps" "spaces ps a = Some sp"
  shows "if int (unat n) \<le> nAvailFrame (fprov ps)
    then \<exists>ps' sp'. do_Sbrk a n ps = Some (brk sp, ps') \<and> procs_ok ps' \<and> spaces ps' = (spaces ps)(a \<mapsto> sp')
      \<and> unat (numPages sp') = unat (numPages sp) + unat n \<and> installed (mach ps') (as_pageTable sp')
      \<and> user_memory sp' (mainMemory (mach ps')) = user_memory sp (mainMemory (mach ps)) @ replicate (PageSize * unat n) 0
      \<and> (\<forall>b sq. b \<noteq> a \<longrightarrow> spaces ps b = Some sq \<longrightarrow>
           user_memory sq (mainMemory (mach ps')) = user_memory sq (mainMemory (mach ps)))
    else do_Sbrk a n ps = Some (0, ps)"
proof (cases "int (unat n) \<le> nAvailFrame (fprov ps)")
  case True
  then obtain ps' sp' where r: "do_Sbrk a n ps = Some (brk sp, ps')" "procs_ok ps'" "spaces ps' = (spaces ps)(a \<mapsto> sp')"
      "unat (numPages sp') = unat (numPages sp) + unat n" "installed (mach ps') (as_pageTable sp')"
      "user_memory sp' (mainMemory (mach ps')) = user_memory sp (mainMemory (mach ps)) @ replicate (PageSize * unat n) 0"
    using do_Sbrk_spec [OF assms] by blast
  then show ?thesis using True step_sbrk [OF assms(1) r(1)] unfolding keeps_others_def by auto
next
  case False
  then show ?thesis using do_Sbrk_full [OF assms, of n] by simp
qed

definition stack_area :: "AddrSpace \<Rightarrow> int \<Rightarrow> int set" where
  "stack_area sp i = (case GetStackStartAddr sp i of None \<Rightarrow> {} | Some a \<Rightarrow> {a - ThreadStackSize..<a})"

definition main_stack :: "AddrSpace \<Rightarrow> int set" where
  "main_stack sp = {GetSize sp - 16 - ThreadStackSize..<GetSize sp - 16}"

lemma nth_stack_loop: "i < n \<Longrightarrow> stack_loop n c ! i = c - ThreadStackSize * int i"
  by (induction n arbitrary: c i) (auto simp: nth_Cons split: nat.split)

lemma length_stack_loop [simp]: "length (stack_loop n c) = n"
  by (induction n arbitrary: c) simp_all

lemma stack_area_eq:
  assumes "InitializeThreadData heap sp = Some sp'" "0 \<le> i" "i < 7"
  shows "stack_area sp' i = {GetSize sp - 16 - ThreadStackSize * (i + 2)..<GetSize sp - 16 - ThreadStackSize * (i + 1)}"
proof -
  have "stackStartAddrs sp' = stack_loop 7 (GetSize sp - 16 - ThreadStackSize)"
    using assms(1) by (auto simp: InitializeThreadData_def bind_Some_iff)
  then have "GetStackStartAddr sp' i = Some (GetSize sp - 16 - ThreadStackSize * (i + 1))"
    using assms(2,3) nth_stack_loop [of "nat i" 7] by (simp add: GetStackStartAddr_def)
  then show ?thesis by (simp add: stack_area_def algebra_simps)
qed

text \<open>
  The stacks of the threads of a process, as \<open>InitializeThreadData\<close> places them: the stack of each of the seven
  threads and that of the main thread are disjoint. They are meant to lie in the \<open>UserStackSize\<close> bytes at the
  end of the address space; all but that of the last slot do. The last one begins 16 bytes below, in the
  memory of the program's data.
\<close>

lemma thread_stacks:
  assumes "InitializeThreadData heap sp = Some sp'"
  shows "(\<forall>i j. 0 \<le> i \<longrightarrow> i < j \<longrightarrow> j < 7 \<longrightarrow> stack_area sp' i \<inter> stack_area sp' j = {})
    \<and> (\<forall>i. 0 \<le> i \<longrightarrow> i < 7 \<longrightarrow> stack_area sp' i \<inter> main_stack sp = {}
         \<and> (stack_area sp' i \<subseteq> {GetSize sp - UserStackSize..<GetSize sp} \<longleftrightarrow> i \<noteq> 6))
    \<and> stack_area sp' 6 \<inter> {..<GetSize sp - UserStackSize} = {GetSize sp - UserStackSize - 16..<GetSize sp - UserStackSize}"
proof -
  have e: "stack_area sp' i = {GetSize sp - 16 - ThreadStackSize * (i + 2)..<GetSize sp - 16 - ThreadStackSize * (i + 1)}"
    if "0 \<le> i" "i < 7" for i
    using stack_area_eq [OF assms that] .
  show ?thesis
  proof (intro conjI allI impI)
    fix i j :: int assume "0 \<le> i" "i < j" "j < 7"
    then show "stack_area sp' i \<inter> stack_area sp' j = {}" using e [of i] e [of j] by auto
  next
    fix i :: int assume i: "0 \<le> i" "i < 7"
    show "stack_area sp' i \<inter> main_stack sp = {}" using i e [of i] by (auto simp: main_stack_def)
    show "stack_area sp' i \<subseteq> {GetSize sp - UserStackSize..<GetSize sp} \<longleftrightarrow> i \<noteq> 6"
      unfolding e [OF i] ivl_subset using i by (cases "i = 6") simp_all
  next
    show "stack_area sp' 6 \<inter> {..<GetSize sp - UserStackSize} = {GetSize sp - UserStackSize - 16..<GetSize sp - UserStackSize}"
      by (subst e) auto
  qed
qed

text \<open>
  Threads of a process. \<open>AllocateThreadData\<close> returns -1 and changes nothing when all seven slots are taken; otherwise
  it takes a free slot, so that the new thread is found under its user id, all threads found before are
  still found, and \<open>DeleteThreadData\<close> gives back exactly that slot and the thread id.
\<close>

lemma thread_data_roundtrip:
  assumes sp: "spaces ps a = Some sp" "threads_ok sp" and tid: "0 \<le> tid" "tid < MaxThreads"
    and wrap: "unat (nextUserThreadid sp) + 1 < 2 ^ 32" and tids: "bitmap_wf tids" "tid \<in> marked tids"
  shows "if marked (threadsBitmap sp) = {0..<7} then AllocateThreadData a tid ps = Some (- 1, ps)
    else \<exists>i ps1 sp1 info tids' ps2 sp2. AllocateThreadData a tid ps = Some (i, ps1) \<and> i \<in> {0..<7} - marked (threadsBitmap sp)
      \<and> spaces ps1 a = Some sp1 \<and> threads_ok sp1 \<and> marked (threadsBitmap sp1) = insert i (marked (threadsBitmap sp))
      \<and> GetThreadInfoFromUserthreadId sp1 (nextUserThreadid sp) = Some (Some info)
      \<and> thread_id info = tid \<and> addrspace_idx info = i
      \<and> (\<forall>u x. GetThreadInfoFromUserthreadId sp u = Some (Some x) \<longrightarrow> GetThreadInfoFromUserthreadId sp1 u = Some (Some x))
      \<and> DeleteThreadData a tid tids ps1 = Some (tids', ps2) \<and> spaces ps2 a = Some sp2 \<and> threads_ok sp2
      \<and> marked tids' = marked tids - {tid} \<and> marked (threadsBitmap sp2) = marked (threadsBitmap sp)
      \<and> localThreadsInfos sp2 = localThreadsInfos sp"
  using sp tid
proof (cases rule: AllocateThreadData_spec)
  case full
  then show ?thesis by simp
next
  case (slot i b)
  define sp1 ps1 where "sp1 = with_thread sp tid i b" and "ps1 = ps\<lparr>threadsInfos := (threadsInfos ps)(tid \<mapsto> info_of sp tid i),
    spaces := (spaces ps)(a \<mapsto> sp1)\<rparr>"
  note t = sp(2) [unfolded threads_ok_def]
  have ok: "threads_ok sp1" unfolding sp1_def by (rule with_thread_ok [OF sp(2) slot(1-5) wrap])
  have l: "localThreadsInfos sp1 = (localThreadsInfos sp)[i := Some (info_of sp tid i)]" "threadsBitmap sp1 = b"
    by (simp_all add: sp1_def with_thread_def)
  have li: "localThreadsInfos sp1 ! i = Some (info_of sp tid i)" "localThreadsInfos sp ! i = None"
    using t slot(1,2) l(1) by auto
  have found: "GetThreadInfoFromUserthreadId sp1 (userthread_id x) = Some (Some x)"
    if "localThreadsInfos sp1 ! j = Some x" "j < 7" for j x
    unfolding GetThreadInfoFromUserthreadId_def using find_userthread_hit [OF ok that(1)] that(2) by simp
  have old: "GetThreadInfoFromUserthreadId sp1 u = Some (Some x)" if g: "GetThreadInfoFromUserthreadId sp u = Some (Some x)" for u x
  proof -
    obtain j where j: "userthread_id x = u" "j < 7" "localThreadsInfos sp ! j = Some x"
      using found_userthread [OF sp(2), of u 0 7 x] g by (auto simp: GetThreadInfoFromUserthreadId_def)
    then have "j \<noteq> i" using li(2) by auto
    then have "localThreadsInfos sp1 ! j = Some x" using j(3) l(1) by simp
    then show ?thesis using found j by blast
  qed
  have ps1: "spaces ps1 a = Some sp1" "threadsInfos ps1 tid = Some (info_of sp tid i)" by (simp_all add: ps1_def)
  define sp2 where "sp2 b = sp1\<lparr>threadsBitmap := b, localThreadsInfos := (localThreadsInfos sp1)[i := None]\<rparr>" for b
  obtain tids' b2 where d: "DeleteThreadData a tid tids ps1 = Some (tids', ps1\<lparr>spaces := (spaces ps1)(a \<mapsto> sp2 b2)\<rparr>)"
      "marked tids' = marked tids - {tid}" "marked b2 = marked (threadsBitmap sp1) - {int i}" "threads_ok (sp2 b2)"
    using DeleteThreadData_spec [OF ps1(1) ok slot(1) li(1) ps1(2) tids] unfolding sp2_def by blast
  have sp2: "spaces (ps1\<lparr>spaces := (spaces ps1)(a \<mapsto> sp2 b2)\<rparr>) a = Some (sp2 b2)" by simp
  have loc: "localThreadsInfos (sp2 b2) = localThreadsInfos sp"
    unfolding sp2_def using l(1) li(2) by simp (metis list_update_id)
  have mk: "marked (threadsBitmap (sp2 b2)) = marked (threadsBitmap sp)" "marked (threadsBitmap sp1) = insert (int i) (marked (threadsBitmap sp))"
    using d(3) l(2) slot(2,5) by (simp_all add: sp2_def)
  have i: "int i \<in> {0..<7} - marked (threadsBitmap sp)" "thread_id (info_of sp tid i) = tid" "addrspace_idx (info_of sp tid i) = int i"
    using slot(1,2) by (simp_all add: info_of_def)
  have g: "GetThreadInfoFromUserthreadId sp1 (nextUserThreadid sp) = Some (Some (info_of sp tid i))"
    using found [OF li(1) slot(1)] by (simp add: info_of_def)
  have al: "AllocateThreadData a tid ps = Some (int i, ps1)" using slot(6) by (simp add: ps1_def sp1_def)
  have "marked (threadsBitmap sp) \<noteq> {0..<7}" using i(1) by blast
  then show ?thesis using al i ps1(1) ok mk g old d(1,2,4) sp2 loc by (simp only: if_False) blast
qed

end
