(* ===== verification/PostOffice.thy ===== *)
theory PostOffice
  imports Devices Bitmap
begin

text \<open>
  The post office: src/code/network/post.cc and post.h. Messages are cut into segments of 32 bytes, each sent in
  one packet with a mail header and acknowledged by the receiving post office; a segment is sent again until
  its acknowledgement arrives, 50 times at most.

  One iteration of the postal worker's loop is \<open>postal_delivery\<close>, which returns the acknowledgement to send. The
  sending thread, \<open>SendPayload\<close> with \<open>ReliableSendSegment\<close>, is a state machine (\<open>Sender\<close>): it emits and then
  waits on the condition of its box. It holds \<open>ackLock\<close> from before the packet is sent until it waits, so that
  emitting and waiting is one step for the postal worker; it is woken by an acknowledgement or by the timer.
  Mail boxes are the sequences that \<open>SynchList\<close> keeps; taking from an empty one blocks. \<open>Link\<close> joins the
  post offices of two machines and a sending thread over a network that may lose, delay, reorder and
  duplicate packets.
\<close>

section \<open>Model\<close>

abbreviation LISTEN_BOX :: int where "LISTEN_BOX \<equiv> 0"
abbreviation MAXREEMISSIONS :: int where "MAXREEMISSIONS \<equiv> 50"
abbreviation TEMPO :: int where "TEMPO \<equiv> 10000000"
abbreviation DISCONNECT_TEMPO :: int where "DISCONNECT_TEMPO \<equiv> 40000000"
abbreviation MaxSegmentSize :: nat where "MaxSegmentSize \<equiv> 32"
abbreviation MailHeaderSize :: nat where "MailHeaderSize \<equiv> 20"

text \<open>\<open>Other\<close> is a value outside the enumeration, which a packet can hold.\<close>

datatype MessageType = ACK | DATA | CONN | FIN | Other int

record MailHeader =
  to_box :: int
  from_box :: int
  mail_length :: u32
  messageType :: MessageType
  messageId :: int

record Payload =
  msgSize :: int
  nbSegments :: int
  remainder :: int
  pktHdr :: PacketHeader
  mailHdr :: MailHeader

record Mail =
  mail_pktHdr :: PacketHeader
  mail_mailHdr :: MailHeader
  mail_data :: "byte list"

record MailBox =
  messages :: "Mail list"
  waitedId :: int
  ackId :: int

record ConnReminder =
  netFrom :: int
  netTo :: int
  mailFrom :: int
  mailTo :: int
  connTimestamp :: int

record PostOffice =
  netAddr :: int
  numBoxes :: int
  boxes :: "MailBox list"
  usedBoxes :: BitMap
  connections :: "ConnReminder list"

record Connection =
  pIn :: Payload
  pOut :: Payload

subsection \<open>Headers in memory\<close>

fun message_code :: "MessageType \<Rightarrow> int" where
  "message_code ACK = 0"
| "message_code DATA = 1"
| "message_code CONN = 2"
| "message_code FIN = 3"
| "message_code (Other n) = n"

definition code_message :: "int \<Rightarrow> MessageType" where
  "code_message n = (if n = 0 then ACK else if n = 1 then DATA else if n = 2 then CONN else if n = 3 then FIN else Other n)"

definition encode_mail :: "MailHeader \<Rightarrow> byte list" where
  "encode_mail h = int_bytes (to_box h) @ int_bytes (from_box h) @ le32 (mail_length h) @ int_bytes (message_code (messageType h))
     @ int_bytes (messageId h)"

definition decode_mail :: "byte list \<Rightarrow> MailHeader" where
  "decode_mail bs = \<lparr>to_box = bytes_int bs, from_box = bytes_int (drop 4 bs), mail_length = unle32 (drop 8 bs),
     messageType = code_message (bytes_int (drop 12 bs)), messageId = bytes_int (drop 16 bs)\<rparr>"

subsection \<open>Payload\<close>

definition Payload_new :: Payload where
  "Payload_new = \<lparr>msgSize = 0, nbSegments = 0, remainder = 0, pktHdr = \<lparr>to_machine = 0, from_machine = 0, pkt_length = 0\<rparr>,
     mailHdr = \<lparr>to_box = 0, from_box = 0, mail_length = 0, messageType = DATA, messageId = 0\<rparr>\<rparr>"

definition UpdatePayload :: "int \<Rightarrow> int \<Rightarrow> int \<Rightarrow> int \<Rightarrow> u32 \<Rightarrow> MessageType \<Rightarrow> Payload \<Rightarrow> Payload" where
  "UpdatePayload nf nt mf mt length' ty p =
     (let rem = unat length' mod MaxSegmentSize;
          n = unat length' div MaxSegmentSize + (if rem = 0 then 0 else 1)
      in \<lparr>msgSize = sint length', nbSegments = int n, remainder = int rem,
          pktHdr = \<lparr>to_machine = nt, from_machine = nf, pkt_length = MaxSegmentSize + MailHeaderSize\<rparr>,
          mailHdr = (mailHdr p)\<lparr>to_box := mt, from_box := mf, mail_length := length', messageType := ty\<rparr>\<rparr>)"

definition UpdatePayloadSize :: "u32 \<Rightarrow> Payload \<Rightarrow> Payload" where
  "UpdatePayloadSize length' p = UpdatePayload (from_machine (pktHdr p)) (to_machine (pktHdr p)) (from_box (mailHdr p))
     (to_box (mailHdr p)) length' DATA p"

text \<open>The other constructors; \<open>old\<close> is the memory of the new object, of which \<open>messageId\<close> stays.\<close>

definition Payload_make :: "int \<Rightarrow> int \<Rightarrow> int \<Rightarrow> int \<Rightarrow> u32 \<Rightarrow> MessageType \<Rightarrow> Payload \<Rightarrow> Payload" where
  "Payload_make nf nt mf mt length' ty old = UpdatePayload nf nt mf mt length' ty old"

subsection \<open>Mail boxes\<close>

definition MailBox_new :: MailBox where
  "MailBox_new = \<lparr>messages = [], waitedId = 0, ackId = - 1\<rparr>"

definition Mail_new :: "Payload \<Rightarrow> byte list \<Rightarrow> Mail" where
  "Mail_new p msgData = \<lparr>mail_pktHdr = pktHdr p, mail_mailHdr = mailHdr p, mail_data = take MaxSegmentSize msgData\<rparr>"

definition MailBox_Put :: "Payload \<Rightarrow> byte list \<Rightarrow> MailBox \<Rightarrow> MailBox" where
  "MailBox_Put p d box = box\<lparr>messages := messages box @ [Mail_new p d]\<rparr>"

text \<open>
  \<open>MailBox::Get\<close> after \<open>Remove\<close> has returned \<open>mail\<close> (never the null pointer): the new payload and the bytes that
  are copied to the caller's buffer.
\<close>

definition MailBox_Get :: "Mail \<Rightarrow> int \<Rightarrow> Payload \<Rightarrow> Payload \<times> byte list" where
  "MailBox_Get mail segmentIndex p =
     (let ph = mail_pktHdr mail; mh = mail_mailHdr mail;
          p = UpdatePayload (from_machine ph) (to_machine ph) (from_box mh) (to_box mh) (mail_length mh) (messageType mh) p;
          p = p\<lparr>mailHdr := (mailHdr p)\<lparr>messageId := messageId mh\<rparr>\<rparr>
      in (p, if segmentIndex = nbSegments p - 1 then take (nat (remainder p)) (mail_data mail) else mail_data mail))"

definition upd_box :: "int \<Rightarrow> (MailBox \<Rightarrow> MailBox) \<Rightarrow> PostOffice \<Rightarrow> PostOffice" where
  "upd_box i f po = po\<lparr>boxes := (boxes po)[nat i := f (boxes po ! nat i)]\<rparr>"

abbreviation box :: "PostOffice \<Rightarrow> int \<Rightarrow> MailBox" where
  "box po i \<equiv> boxes po ! nat i"

subsection \<open>Post office\<close>

definition PostOffice_new :: "(nat \<Rightarrow> u32) \<Rightarrow> int \<Rightarrow> int \<Rightarrow> PostOffice option" where
  "PostOffice_new heap addr nBoxes = do {
     b \<leftarrow> BitMap_new heap nBoxes;
     b \<leftarrow> BitMap_Mark b LISTEN_BOX;
     Some \<lparr>netAddr = addr, numBoxes = nBoxes, boxes = replicate (nat nBoxes) MailBox_new, usedBoxes = b, connections = []\<rparr>
   }"

definition same_conn :: "ConnReminder \<Rightarrow> ConnReminder \<Rightarrow> bool" where
  "same_conn existing conn \<longleftrightarrow> netFrom existing = netFrom conn \<and> netTo existing = netTo conn \<and> mailFrom existing = mailFrom conn
     \<and> mailTo existing = mailTo conn \<and> connTimestamp existing \<ge> connTimestamp conn"

definition ValidConn :: "ConnReminder \<Rightarrow> PostOffice \<Rightarrow> bool \<times> PostOffice" where
  "ValidConn conn po =
     (if \<exists>c \<in> set (connections po). same_conn c conn then (False, po)
      else (True, po\<lparr>connections := connections po @ [conn]\<rparr>))"

type_synonym packet = "PacketHeader \<times> byte list"

definition ack_packet :: "PacketHeader \<Rightarrow> MailHeader \<Rightarrow> packet" where
  "ack_packet ph mh = (\<lparr>to_machine = from_machine ph, from_machine = to_machine ph, pkt_length = MailHeaderSize\<rparr>,
     encode_mail \<lparr>to_box = from_box mh, from_box = to_box mh, mail_length = 0, messageType = ACK, messageId = messageId mh\<rparr>)"

text \<open>
  \<open>PostalDelivery\<close>, one iteration: a packet with its header and data. \<open>time_t\<close> is 32 bits wide. The result is the
  post office and the acknowledgement, if one is sent.
\<close>

definition postal_delivery :: "packet \<Rightarrow> PostOffice \<Rightarrow> (PostOffice \<times> packet option) option" where
  "postal_delivery pkt po = do {
     let (ph, buffer) = pkt;
     let mh = decode_mail buffer;
     ASSERT (0 \<le> to_box mh \<and> to_box mh < numBoxes po);
     let p = Payload_make (from_machine ph) (to_machine ph) (from_box mh) (to_box mh) (mail_length mh) (messageType mh) Payload_new;
     let p = p\<lparr>mailHdr := (mailHdr p)\<lparr>messageId := messageId mh\<rparr>\<rparr>;
     let po =
       (if messageType mh = CONN \<and> to_box mh = LISTEN_BOX then
          (let (valid, po) = ValidConn \<lparr>netFrom = from_machine ph, netTo = to_machine ph, mailFrom = from_box mh,
                 mailTo = to_box mh, connTimestamp = bytes_int (drop MailHeaderSize buffer)\<rparr> po
           in if valid then upd_box (to_box mh) (MailBox_Put p (drop MailHeaderSize buffer)) po else po)
        else if messageType mh = DATA \<and> messageId mh = waitedId (box po (to_box mh)) then
          upd_box (to_box mh) (\<lambda>b. (MailBox_Put p (drop MailHeaderSize buffer) b)\<lparr>waitedId := waitedId b + 1\<rparr>) po
        else if messageType mh = ACK then upd_box (to_box mh) (\<lambda>b. b\<lparr>ackId := messageId mh\<rparr>) po
        else po);
     Some (po, if messageType mh \<noteq> ACK then Some (ack_packet ph mh) else None)
   }"

text \<open>\<open>NetworkSendWaitHandler\<close>: whether it wakes the senders, and whether it signals \<open>disconnectCond\<close>.\<close>

definition NetworkSendWaitHandler :: "int \<Rightarrow> int \<times> int \<Rightarrow> (bool \<times> bool) \<times> int \<times> int" where
  "NetworkSendWaitHandler currTick lastTicks =
     (let (lastTEMPO, lastDISCONNECT) = lastTicks; b = currTick - lastTEMPO > TEMPO; d = currTick - lastDISCONNECT > DISCONNECT_TEMPO
      in ((b, d), (if b then currTick else lastTEMPO, if d then currTick else lastDISCONNECT)))"

subsection \<open>Sending\<close>

datatype SendPhase = Emit | Waiting | Finished bool

record Sender =
  s_payload :: Payload
  s_data :: "byte list"
  segIndex :: int
  nReemissions :: int
  phase :: SendPhase

text \<open>The buffer of one segment. The source reads \<open>data\<close> up to the end of what it copies.\<close>

definition segment_buffer :: "Payload \<Rightarrow> byte list \<Rightarrow> int \<Rightarrow> byte list option" where
  "segment_buffer p d i = do {
     let n = (if i = nbSegments p - 1 then nat (remainder p) else MaxSegmentSize);
     ASSERT (nat i * MaxSegmentSize + n \<le> length d);
     let buffer = encode_mail (mailHdr p) @ take n (drop (nat i * MaxSegmentSize) d);
     Some (buffer @ replicate (MaxPacketSize - length buffer) 0)
   }"

text \<open>\<open>SendPayload\<close> up to its loop, and the steps of the loop.\<close>

definition SendPayload :: "PostOffice \<Rightarrow> Payload \<Rightarrow> byte list \<Rightarrow> Sender option" where
  "SendPayload po p d = do {
     ASSERT (0 \<le> to_box (mailHdr p) \<and> to_box (mailHdr p) < numBoxes po);
     ASSERT (from_machine (pktHdr p) = netAddr po);
     ASSERT (pkt_length (pktHdr p) = MaxSegmentSize + MailHeaderSize);
     Some \<lparr>s_payload = p, s_data = d, segIndex = 0, nReemissions = 0,
       phase = (if 0 < nbSegments p then Emit else Finished True)\<rparr>
   }"

definition emit_segment :: "Sender \<Rightarrow> (packet option \<times> Sender) option" where
  "emit_segment s =
     (if nReemissions s < MAXREEMISSIONS then do {
        buffer \<leftarrow> segment_buffer (s_payload s) (s_data s) (segIndex s);
        Some (Some (pktHdr (s_payload s), buffer), s\<lparr>phase := Waiting\<rparr>)
      } else Some (None, s\<lparr>phase := Finished False\<rparr>))"

definition wake_sender :: "PostOffice \<Rightarrow> Sender \<Rightarrow> Sender" where
  "wake_sender po s =
     (let p = s_payload s; h = mailHdr p in
      if ackId (box po (from_box h)) = messageId h then
        s\<lparr>s_payload := p\<lparr>mailHdr := h\<lparr>messageId := messageId h + 1\<rparr>\<rparr>, segIndex := segIndex s + 1, nReemissions := 0,
          phase := (if segIndex s + 1 < nbSegments p then Emit else Finished True)\<rparr>
      else s\<lparr>nReemissions := nReemissions s + 1, phase := Emit\<rparr>)"

subsection \<open>Receiving\<close>

text \<open>
  \<open>ReceivePayload\<close> on the messages of its box and the caller's buffer; \<open>None\<close> also stands for a thread that
  waits for a message. \<open>bzero\<close> goes up to the first zero byte.
\<close>

definition clear_string :: "byte list \<Rightarrow> byte list option" where
  "clear_string d = do {
     ASSERT (0 \<in> set d);
     let n = length (takeWhile (\<lambda>c. c \<noteq> 0) d) + 1;
     Some (replicate n 0 @ drop n d)
   }"

definition store_segment :: "byte list \<Rightarrow> nat \<Rightarrow> byte list \<Rightarrow> byte list option" where
  "store_segment d off bs = do {
     ASSERT (off + length bs \<le> length d);
     Some (take off d @ bs @ drop (off + length bs) d)
   }"

function receive_loop :: "Mail list \<Rightarrow> int \<Rightarrow> Payload \<Rightarrow> byte list \<Rightarrow> (Mail list \<times> Payload \<times> byte list) option" where
  "receive_loop ms i p d =
     (if i < nbSegments p then
        (case ms of [] \<Rightarrow> None
         | m # ms' \<Rightarrow> do {
             let (p, bs) = MailBox_Get m i p;
             d \<leftarrow> store_segment d (nat i * MaxSegmentSize) bs;
             receive_loop ms' (i + 1) p d
           })
      else Some (ms, p, d))"
  by pat_completeness auto
termination
  by (relation "measure (\<lambda>(ms, i, p, d). length ms)") auto

declare receive_loop.simps [simp del]

definition ReceivePayload :: "int \<Rightarrow> Payload \<Rightarrow> byte list \<Rightarrow> PostOffice \<Rightarrow> (PostOffice \<times> Payload \<times> byte list) option" where
  "ReceivePayload i p d po = do {
     ASSERT (0 \<le> i \<and> i < numBoxes po);
     d \<leftarrow> clear_string d;
     case messages (box po i) of [] \<Rightarrow> None
     | m # ms \<Rightarrow> do {
         let (p, bs) = MailBox_Get m 0 p;
         d \<leftarrow> store_segment d 0 bs;
         (ms, p, d) \<leftarrow> receive_loop ms 1 p d;
         Some (upd_box i (\<lambda>b. b\<lparr>messages := ms\<rparr>) po, p, d)
       }
   }"

text \<open>
  \<open>DisconnectPayload\<close>: it empties the box, waits twice for the timer and then empties what has arrived until,
  after a wait, nothing has; \<open>arrivals\<close> are the messages that arrive during the waits.
\<close>

fun drain :: "Mail list \<Rightarrow> Mail list list \<Rightarrow> Mail list option" where
  "drain ms [] = None"
| "drain ms (new # later) = (case ms @ new of [] \<Rightarrow> Some [] | m # ms' \<Rightarrow> drain ms' later)"

definition DisconnectPayload :: "Payload \<Rightarrow> Mail list \<Rightarrow> Mail list list \<Rightarrow> PostOffice \<Rightarrow> PostOffice option" where
  "DisconnectPayload inP first arrivals po = do {
     let i = to_box (mailHdr inP);
     ms \<leftarrow> drain first arrivals;
     b \<leftarrow> BitMap_Clear (usedBoxes po) i;
     Some ((upd_box i (\<lambda>b. b\<lparr>messages := ms, waitedId := 0\<rparr>) po)\<lparr>usedBoxes := b\<rparr>)
   }"

subsection \<open>Connections\<close>

text \<open>
  \<open>Connect\<close> in the parts between its blocking calls: before \<open>SendPayload\<close> of the time stamp, and after
  \<open>ReceivePayload\<close> of the answer. The result of \<open>SendPayload\<close> is not used.
\<close>

definition Connect_open :: "int \<Rightarrow> PostOffice \<Rightarrow> (Connection option \<times> PostOffice) option" where
  "Connect_open addr po =
     (if addr = netAddr po then Some (None, po)
      else do {
        (i, b) \<leftarrow> BitMap_Find (usedBoxes po);
        let po = po\<lparr>usedBoxes := b\<rparr>;
        if i = - 1 then Some (None, po)
        else Some (Some \<lparr>pIn = Payload_new, pOut = UpdatePayload (netAddr po) addr i LISTEN_BOX 4 CONN Payload_new\<rparr>,
               upd_box i (\<lambda>b. b\<lparr>waitedId := 0\<rparr>) po)
      })"

definition Connect_done :: "int \<Rightarrow> byte list \<Rightarrow> PostOffice \<Rightarrow> Connection \<Rightarrow> Connection option" where
  "Connect_done addr answer po c = do {
     ASSERT (take 2 answer = [67, 0]);
     Some (c\<lparr>pOut := UpdatePayload (netAddr po) addr (from_box (mailHdr (pOut c))) (from_box (mailHdr (pIn c))) 0 DATA (pOut c)\<rparr>)
   }"

definition Listen_open :: "PostOffice \<Rightarrow> ((int \<times> Connection) option \<times> PostOffice) option" where
  "Listen_open po = do {
     (i, b) \<leftarrow> BitMap_Find (usedBoxes po);
     let po = po\<lparr>usedBoxes := b\<rparr>;
     if i = - 1 then Some (None, po)
     else Some (Some (i, \<lparr>pIn = Payload_new, pOut = Payload_new\<rparr>), upd_box i (\<lambda>b. b\<lparr>waitedId := 1\<rparr>) po)
   }"

text \<open>After \<open>ReceivePayload\<close> on \<open>LISTEN_BOX\<close>; the answer \<open>"C"\<close> is then sent with \<open>pOut\<close>.\<close>

definition Listen_answer :: "int \<Rightarrow> PostOffice \<Rightarrow> Connection \<Rightarrow> Connection option" where
  "Listen_answer i po c = do {
     ASSERT (messageType (mailHdr (pIn c)) = CONN);
     Some (c\<lparr>pOut := UpdatePayload (netAddr po) (from_machine (pktHdr (pIn c))) i (from_box (mailHdr (pIn c))) 2 DATA (pOut c)\<rparr>)
   }"

text \<open>A null connection: \<open>Send\<close> and \<open>Receive\<close> return false, \<open>Disconnect\<close> does nothing.\<close>

definition PostOffice_Send :: "PostOffice \<Rightarrow> Connection option \<Rightarrow> byte list \<Rightarrow> (Connection \<times> Sender) option option" where
  "PostOffice_Send po conn d = (case conn of None \<Rightarrow> Some None | Some c \<Rightarrow> do {
     let p = UpdatePayloadSize (of_nat (length d)) (pOut c);
     s \<leftarrow> SendPayload po p d;
     Some (Some (c\<lparr>pOut := p\<rparr>, s))
   })"

definition PostOffice_Receive :: "Connection option \<Rightarrow> byte list \<Rightarrow> PostOffice \<Rightarrow> (PostOffice \<times> Connection option \<times> byte list \<times> bool) option" where
  "PostOffice_Receive conn d po = (case conn of None \<Rightarrow> Some (po, None, d, False) | Some c \<Rightarrow> do {
     (po, p, d) \<leftarrow> ReceivePayload (from_box (mailHdr (pOut c))) (pIn c) d po;
     Some (po, Some (c\<lparr>pIn := p\<rparr>), d, True)
   })"

definition PostOffice_Disconnect :: "Connection option \<Rightarrow> Mail list \<Rightarrow> Mail list list \<Rightarrow> PostOffice \<Rightarrow> PostOffice option" where
  "PostOffice_Disconnect conn new arrivals po = (case conn of None \<Rightarrow> Some po | Some c \<Rightarrow> DisconnectPayload (pIn c) new arrivals po)"

subsection \<open>Two machines\<close>

text \<open>
  A sending thread on one machine, its post office, the post office of the other machine and the network between
  them, for one message. \<open>in_flight\<close> holds every packet ever sent: the network may deliver a packet late, more
  than once or not at all. \<open>received\<close> are the messages that the receiver has removed from its box. Other threads and
  other packets may change both post offices, as long as they leave alone the acknowledgements of the sender's
  box and the data of the receiver's box.
\<close>

record Link =
  near :: PostOffice
  far :: PostOffice
  sender :: Sender
  in_flight :: "packet set"
  received :: "Mail list"
  emissions :: nat

definition near_rely :: "int \<Rightarrow> PostOffice \<Rightarrow> PostOffice \<Rightarrow> bool" where
  "near_rely i po po' \<longleftrightarrow> netAddr po' = netAddr po \<and> numBoxes po' = numBoxes po \<and> length (boxes po') = length (boxes po)
     \<and> ackId (box po' i) = ackId (box po i)"

definition far_rely :: "int \<Rightarrow> PostOffice \<Rightarrow> PostOffice \<Rightarrow> bool" where
  "far_rely i po po' \<longleftrightarrow> netAddr po' = netAddr po \<and> numBoxes po' = numBoxes po \<and> length (boxes po') = length (boxes po)
     \<and> messages (box po' i) = messages (box po i) \<and> waitedId (box po' i) = waitedId (box po i)"

inductive link_step :: "Link \<Rightarrow> Link \<Rightarrow> bool" where
  emit: "phase (sender l) = Emit \<Longrightarrow> emit_segment (sender l) = Some (Some pkt, s) \<Longrightarrow>
    link_step l (l\<lparr>sender := s, in_flight := insert pkt (in_flight l), emissions := Suc (emissions l)\<rparr>)"
| give_up: "phase (sender l) = Emit \<Longrightarrow> emit_segment (sender l) = Some (None, s) \<Longrightarrow> link_step l (l\<lparr>sender := s\<rparr>)"
| wake: "phase (sender l) = Waiting \<Longrightarrow> link_step l (l\<lparr>sender := wake_sender (near l) (sender l)\<rparr>)"
| to_far: "pkt \<in> in_flight l \<Longrightarrow> to_machine (fst pkt) = netAddr (far l) \<Longrightarrow> postal_delivery pkt (far l) = Some (po, reply) \<Longrightarrow>
    link_step l (l\<lparr>far := po, in_flight := in_flight l \<union> set_option reply\<rparr>)"
| to_near: "pkt \<in> in_flight l \<Longrightarrow> to_machine (fst pkt) = netAddr (near l) \<Longrightarrow> postal_delivery pkt (near l) = Some (po, reply) \<Longrightarrow>
    link_step l (l\<lparr>near := po, in_flight := in_flight l \<union> set_option reply\<rparr>)"
| get: "i = to_box (mailHdr (s_payload (sender l))) \<Longrightarrow> messages (box (far l) i) = m # ms \<Longrightarrow>
    link_step l (l\<lparr>far := upd_box i (\<lambda>b. b\<lparr>messages := ms\<rparr>) (far l), received := received l @ [m]\<rparr>)"
| others_near: "near_rely (from_box (mailHdr (s_payload (sender l)))) (near l) po \<Longrightarrow> link_step l (l\<lparr>near := po\<rparr>)"
| others_far: "far_rely (to_box (mailHdr (s_payload (sender l)))) (far l) po \<Longrightarrow> link_step l (l\<lparr>far := po\<rparr>)"

section \<open>Headers and segments\<close>

lemma MailHeader_roundtrip:
  assumes "is_int32 (to_box h)" "is_int32 (from_box h)" "is_int32 (message_code (messageType h))" "is_int32 (messageId h)"
    and "\<And>n. messageType h = Other n \<Longrightarrow> n \<notin> {0..3}"
  shows "decode_mail (encode_mail h @ bs) = h" and "length (encode_mail h) = MailHeaderSize"
proof -
  have "code_message (message_code (messageType h)) = messageType h"
    using assms(5) by (cases "messageType h") (auto simp: code_message_def)
  then show "decode_mail (encode_mail h @ bs) = h"
    using assms(1-4) by (simp add: decode_mail_def encode_mail_def bytes_int_bytes)
qed (simp add: encode_mail_def)

definition mail_ok :: "MailHeader \<Rightarrow> bool" where
  "mail_ok h \<longleftrightarrow> is_int32 (to_box h) \<and> is_int32 (from_box h) \<and> is_int32 (messageId h) \<and> (\<forall>n. messageType h \<noteq> Other n)"

lemma mail_ok_decode [simp]: "mail_ok h \<Longrightarrow> decode_mail (encode_mail h @ bs) = h"
  by (rule MailHeader_roundtrip) (cases "messageType h"; auto simp: mail_ok_def is_int32_def)+

lemma length_encode_mail [simp]: "length (encode_mail h) = MailHeaderSize"
  by (simp add: encode_mail_def)

lemma mail_ok_decode_mail: "(\<forall>n. messageType (decode_mail bs) \<noteq> Other n) \<Longrightarrow> mail_ok (decode_mail bs)"
  by (simp add: mail_ok_def decode_mail_def bytes_int_range)


text \<open>
  The bytes that are sent for segment \<open>i\<close> of a message, and the same as they arrive, in a full segment. The
  payload of a message (\<open>carries\<close>) is what \<open>UpdatePayload\<close> computes for its length.
\<close>

definition seg_bytes :: "Payload \<Rightarrow> byte list \<Rightarrow> nat \<Rightarrow> byte list" where
  "seg_bytes p d i = take (if int i = nbSegments p - 1 then nat (remainder p) else MaxSegmentSize) (drop (i * MaxSegmentSize) d)"

definition padded :: "byte list \<Rightarrow> byte list" where
  "padded bs = bs @ replicate (MaxSegmentSize - length bs) 0"

definition numbered :: "Payload \<Rightarrow> nat \<Rightarrow> Payload" where
  "numbered p i = p\<lparr>mailHdr := (mailHdr p)\<lparr>messageId := messageId (mailHdr p) + int i\<rparr>\<rparr>"

definition data_packet :: "Payload \<Rightarrow> byte list \<Rightarrow> nat \<Rightarrow> packet" where
  "data_packet p d i = (pktHdr p, encode_mail (mailHdr (numbered p i)) @ padded (seg_bytes p d i))"

definition carries :: "Payload \<Rightarrow> byte list \<Rightarrow> bool" where
  "carries p d \<longleftrightarrow> length d < 2 ^ 31 \<and> nbSegments p = int ((length d + 31) div MaxSegmentSize)
     \<and> remainder p = int (length d mod MaxSegmentSize) \<and> mail_length (mailHdr p) = of_nat (length d)
     \<and> pkt_length (pktHdr p) = MaxSegmentSize + MailHeaderSize"

definition segment_mail :: "Payload \<Rightarrow> byte list \<Rightarrow> nat \<Rightarrow> Mail" where
  "segment_mail p d i = \<lparr>mail_pktHdr = pktHdr p, mail_mailHdr = mailHdr (numbered p i), mail_data = padded (seg_bytes p d i)\<rparr>"

lemma numbered_simps [simp]:
  "pktHdr (numbered p i) = pktHdr p" "to_box (mailHdr (numbered p i)) = to_box (mailHdr p)"
  "from_box (mailHdr (numbered p i)) = from_box (mailHdr p)" "mail_length (mailHdr (numbered p i)) = mail_length (mailHdr p)"
  "messageType (mailHdr (numbered p i)) = messageType (mailHdr p)"
  "messageId (mailHdr (numbered p i)) = messageId (mailHdr p) + int i" "numbered p 0 = p"
  "nbSegments (numbered p i) = nbSegments p" "remainder (numbered p i) = remainder p"
  by (simp_all add: numbered_def)

lemma numbered_Suc: "(numbered p i)\<lparr>mailHdr := (mailHdr (numbered p i))\<lparr>messageId := messageId (mailHdr p) + int i + 1\<rparr>\<rparr>
   = numbered p (Suc i)"
  by (simp add: numbered_def)

lemma segment_count: "(n + 31) div 32 = n div 32 + (if n mod 32 = 0 then 0 else (1 :: nat))"
proof -
  define q r where "q = n div 32" and "r = n mod 32"
  have "n = 32 * q + r" "r < 32"
    by (simp_all add: q_def r_def)
  then show ?thesis
    unfolding q_def [symmetric] r_def [symmetric] by (intro div_nat_eqI) auto
qed

lemma UpdatePayload_carries:
  assumes "length d < 2 ^ 31"
  shows "carries (UpdatePayload nf nt mf mt (of_nat (length d)) ty p) d"
proof -
  have u: "unat (of_nat (length d) :: u32) = length d"
    using assms by (simp add: unat_of_nat take_bit_nat_eq_self)
  show ?thesis
    using assms segment_count [of "length d"] by (simp add: carries_def UpdatePayload_def Let_def u)
qed

lemma carries_remainder: "carries p d \<Longrightarrow> 0 \<le> remainder p \<and> remainder p < 32"
  by (auto simp: carries_def)

lemma length_segment: "carries p d \<Longrightarrow> length (seg_bytes p d i) \<le> MaxSegmentSize"
  using carries_remainder [of p d] by (auto simp: seg_bytes_def)

lemma length_padded [simp]: "length bs \<le> MaxSegmentSize \<Longrightarrow> length (padded bs) = MaxSegmentSize"
  by (simp add: padded_def)

text \<open>Emitting segment \<open>i\<close> never reads beyond the message.\<close>

lemma segment_buffer_data:
  assumes "carries p d" "int i < nbSegments p"
  shows "segment_buffer (numbered p i) d (int i) = Some (snd (data_packet p d i))"
proof -
  have "i + 1 = (length d + 31) div 32 \<Longrightarrow> i * 32 + length d mod 32 \<le> length d"
    and "i + 1 < (length d + 31) div 32 \<Longrightarrow> i * 32 + 32 \<le> length d"
    using segment_count [of "length d"] div_mult_mod_eq [of "length d" 32] by (auto split: if_splits)
  then have "i * 32 + (if int i = nbSegments p - 1 then nat (remainder p) else 32) \<le> length d"
    using assms by (auto simp: carries_def)
  then show ?thesis
    by (auto simp: segment_buffer_def data_packet_def seg_bytes_def padded_def Let_def)
qed

section \<open>Delivery\<close>

lemma box_upd_box:
  "0 \<le> i \<Longrightarrow> nat i < length (boxes po) \<Longrightarrow> 0 \<le> j \<Longrightarrow> box (upd_box i f po) j = (if i = j then f (box po i) else box po j)"
  by (auto simp: upd_box_def nth_list_update)

lemma upd_box_simps [simp]:
  "netAddr (upd_box i f po) = netAddr po" "numBoxes (upd_box i f po) = numBoxes po"
  "length (boxes (upd_box i f po)) = length (boxes po)" "usedBoxes (upd_box i f po) = usedBoxes po"
  "connections (upd_box i f po) = connections po"
  by (simp_all add: upd_box_def)

lemma deliver_ack:
  assumes "messageType (decode_mail buffer) = ACK" "0 \<le> to_box (decode_mail buffer)" "to_box (decode_mail buffer) < numBoxes po"
  shows "postal_delivery (ph, buffer) po
    = Some (upd_box (to_box (decode_mail buffer)) (\<lambda>b. b\<lparr>ackId := messageId (decode_mail buffer)\<rparr>) po, None)"
  using assms by (simp add: postal_delivery_def Let_def)

lemma deliver_data_old:
  assumes "messageType (decode_mail buffer) = DATA" "0 \<le> to_box (decode_mail buffer)" "to_box (decode_mail buffer) < numBoxes po"
    and "messageId (decode_mail buffer) \<noteq> waitedId (box po (to_box (decode_mail buffer)))"
  shows "postal_delivery (ph, buffer) po = Some (po, Some (ack_packet ph (decode_mail buffer)))"
  using assms by (simp add: postal_delivery_def)

lemma deliver_data_new:
  assumes h: "decode_mail buffer = mh" and "messageType mh = DATA" "0 \<le> to_box mh" "to_box mh < numBoxes po"
    and "messageId mh = waitedId (box po (to_box mh))" and "pkt_length ph = MaxSegmentSize + MailHeaderSize"
  shows "postal_delivery (ph, buffer) po = Some (upd_box (to_box mh) (\<lambda>b. b\<lparr>messages := messages b @
      [\<lparr>mail_pktHdr = ph, mail_mailHdr = mh, mail_data = take MaxSegmentSize (drop MailHeaderSize buffer)\<rparr>],
      waitedId := messageId mh + 1\<rparr>) po, Some (ack_packet ph mh))"
proof -
  define b where "b = box po (to_box mh)"
  have i: "messageId mh = waitedId b"
    using assms(5) by (simp add: b_def)
  have e: "\<lparr>to_machine = to_machine ph, from_machine = from_machine ph, pkt_length = 52\<rparr> = ph"
    and e': "\<lparr>to_box = to_box mh, from_box = from_box mh, mail_length = mail_length mh, messageType = DATA, messageId = waitedId b\<rparr> = mh"
    using assms(2,6) i [symmetric] by simp_all
  show ?thesis
    using assms(2,3,4,6) i unfolding postal_delivery_def
    by (simp add: h upd_box_def MailBox_Put_def Mail_new_def Payload_make_def UpdatePayload_def Let_def
        Payload_new_def e e' flip: b_def)
qed

lemma decode_ack:
  assumes "mail_ok mh"
  shows "decode_mail (snd (ack_packet ph mh)) = \<lparr>to_box = from_box mh, from_box = to_box mh, mail_length = 0,
    messageType = ACK, messageId = messageId mh\<rparr>"
proof -
  have "mail_ok \<lparr>to_box = from_box mh, from_box = to_box mh, mail_length = 0, messageType = ACK, messageId = messageId mh\<rparr>"
    using assms by (simp add: mail_ok_def)
  from mail_ok_decode [OF this, of "[]"] show ?thesis
    by (simp add: ack_packet_def)
qed

lemma ack_packet_machines [simp]:
  "to_machine (fst (ack_packet ph mh)) = from_machine ph" "from_machine (fst (ack_packet ph mh)) = to_machine ph"
  by (simp_all add: ack_packet_def)


section \<open>Reliable transfer\<close>

text \<open>
  The state of a transfer of \<open>d\<close> with the payload \<open>p\<close>: the sender works on segment \<open>k\<close>, \<open>m\<close> segments have been put
  into the receiver's box (\<open>old\<close> were there before), and a packet of the connection is a segment up to \<open>k\<close>, an
  acknowledgement below \<open>m\<close>, or left over from an earlier message.
\<close>

definition ack_below :: "Payload \<Rightarrow> nat \<Rightarrow> packet \<Rightarrow> bool" where
  "ack_below p m pkt \<longleftrightarrow> (let h = decode_mail (snd pkt) in to_machine (fst pkt) = from_machine (pktHdr p) \<and> messageType h = ACK
     \<and> to_box h = from_box (mailHdr p) \<and> messageId h < messageId (mailHdr p) + int m)"

definition stale_data :: "Payload \<Rightarrow> packet \<Rightarrow> bool" where
  "stale_data p pkt \<longleftrightarrow> (let h = decode_mail (snd pkt) in to_machine (fst pkt) = to_machine (pktHdr p)
     \<and> from_machine (fst pkt) = from_machine (pktHdr p) \<and> messageType h = DATA \<and> to_box h = to_box (mailHdr p)
     \<and> from_box h = from_box (mailHdr p) \<and> messageId h < messageId (mailHdr p))"

definition conn_packet :: "Payload \<Rightarrow> byte list \<Rightarrow> nat \<Rightarrow> nat \<Rightarrow> packet \<Rightarrow> bool" where
  "conn_packet p d k m pkt \<longleftrightarrow> (\<exists>i \<le> k. int i < nbSegments p \<and> pkt = data_packet p d i) \<or> ack_below p m pkt \<or> stale_data p pkt"

definition sender_at :: "Payload \<Rightarrow> byte list \<Rightarrow> nat \<Rightarrow> Sender \<Rightarrow> bool" where
  "sender_at p d k s \<longleftrightarrow> s_payload s = numbered p k \<and> s_data s = d \<and> segIndex s = int k \<and> 0 \<le> nReemissions s
     \<and> int k \<le> nbSegments p \<and> (phase s = Finished True \<longleftrightarrow> int k = nbSegments p)
     \<and> (phase s = Waiting \<longrightarrow> nReemissions s < MAXREEMISSIONS) \<and> nReemissions s \<le> MAXREEMISSIONS
     \<and> (phase s = Finished True \<longrightarrow> nReemissions s = 0)"

definition spent :: "Sender \<Rightarrow> int" where
  "spent s = MAXREEMISSIONS * segIndex s + nReemissions s + (if phase s = Waiting then 1 else 0)"

definition transfer_ok :: "Payload \<Rightarrow> byte list \<Rightarrow> bool" where
  "transfer_ok p d \<longleftrightarrow> carries p d \<and> mail_ok (mailHdr p) \<and> messageType (mailHdr p) = DATA
     \<and> to_machine (pktHdr p) \<noteq> from_machine (pktHdr p) \<and> 0 \<le> to_box (mailHdr p) \<and> 0 \<le> from_box (mailHdr p)
     \<and> messageId (mailHdr p) + nbSegments p < 2 ^ 31"

definition offices_ok :: "Payload \<Rightarrow> PostOffice \<Rightarrow> PostOffice \<Rightarrow> bool" where
  "offices_ok p po po' \<longleftrightarrow> netAddr po = from_machine (pktHdr p) \<and> netAddr po' = to_machine (pktHdr p)
     \<and> from_box (mailHdr p) < numBoxes po \<and> to_box (mailHdr p) < numBoxes po'
     \<and> int (length (boxes po)) = numBoxes po \<and> int (length (boxes po')) = numBoxes po'"

definition link_inv :: "Payload \<Rightarrow> byte list \<Rightarrow> Mail list \<Rightarrow> nat \<Rightarrow> nat \<Rightarrow> Link \<Rightarrow> bool" where
  "link_inv p d old k m l \<longleftrightarrow> sender_at p d k (sender l) \<and> offices_ok p (near l) (far l)
     \<and> k \<le> m \<and> m \<le> k + 1 \<and> int m \<le> nbSegments p
     \<and> ackId (box (near l) (from_box (mailHdr p))) < messageId (mailHdr p) + int m
     \<and> waitedId (box (far l) (to_box (mailHdr p))) = messageId (mailHdr p) + int m
     \<and> received l @ messages (box (far l) (to_box (mailHdr p))) = old @ map (segment_mail p d) [0..<m]
     \<and> (\<forall>pkt \<in> in_flight l. conn_packet p d k m pkt) \<and> int (emissions l) \<le> spent (sender l)"

text \<open>A message is being sent: the state when \<open>SendPayload\<close> reaches its loop.\<close>

definition link_start :: "Payload \<Rightarrow> byte list \<Rightarrow> Link \<Rightarrow> bool" where
  "link_start p d l \<longleftrightarrow> SendPayload (near l) p d = Some (sender l) \<and> offices_ok p (near l) (far l)
     \<and> ackId (box (near l) (from_box (mailHdr p))) < messageId (mailHdr p)
     \<and> waitedId (box (far l) (to_box (mailHdr p))) = messageId (mailHdr p) \<and> received l = [] \<and> emissions l = 0
     \<and> (\<forall>pkt \<in> in_flight l. ack_below p 0 pkt \<or> stale_data p pkt)"

lemma SendPayload_at:
  assumes "carries p d" "SendPayload po p d = Some s"
  shows "sender_at p d 0 s" and "spent s = 0"
  using assms by (auto simp: SendPayload_def sender_at_def spent_def carries_def split: if_splits)

lemma link_start_inv:
  assumes "transfer_ok p d" "link_start p d l"
  shows "link_inv p d (messages (box (far l) (to_box (mailHdr p)))) 0 0 l"
  using assms SendPayload_at [of p d "near l" "sender l"]
  by (auto simp: link_start_def link_inv_def transfer_ok_def conn_packet_def carries_def)

subsection \<open>Steps of the sender\<close>

lemma emit_at:
  assumes "carries p d" "sender_at p d k s" "phase s = Emit" "emit_segment s = Some (pkt, s')"
  shows "sender_at p d k s'" and "spent s' = spent s + (case pkt of None \<Rightarrow> 0 | Some _ \<Rightarrow> 1)"
    and "\<And>x. pkt = Some x \<Longrightarrow> x = data_packet p d k \<and> int k < nbSegments p"
proof -
  have k: "int k < nbSegments p"
    using assms(2,3) by (auto simp: sender_at_def)
  from segment_buffer_data [OF assms(1) k] have "segment_buffer (s_payload s) (s_data s) (segIndex s) = Some (snd (data_packet p d k))"
    using assms(2) by (simp add: sender_at_def)
  with assms(2-4) k have *: "sender_at p d k s' \<and> spent s' = spent s + (case pkt of None \<Rightarrow> 0 | Some _ \<Rightarrow> 1)
      \<and> (\<forall>x. pkt = Some x \<longrightarrow> x = data_packet p d k)"
    by (auto simp: emit_segment_def sender_at_def spent_def data_packet_def split: if_splits)
  then show "sender_at p d k s'" and "spent s' = spent s + (case pkt of None \<Rightarrow> 0 | Some _ \<Rightarrow> 1)"
    and "\<And>x. pkt = Some x \<Longrightarrow> x = data_packet p d k \<and> int k < nbSegments p"
    using k by blast+
qed

text \<open>A sender that is woken moves on if its acknowledgement has come, and else emits again.\<close>

lemma wake_at:
  assumes "sender_at p d k s" "phase s = Waiting"
  shows "spent s \<le> spent (wake_sender po s)"
    and "ackId (box po (from_box (mailHdr p))) = messageId (mailHdr p) + int k \<Longrightarrow> sender_at p d (Suc k) (wake_sender po s)"
    and "ackId (box po (from_box (mailHdr p))) \<noteq> messageId (mailHdr p) + int k \<Longrightarrow> sender_at p d k (wake_sender po s)"
  using assms numbered_Suc [of p k]
  by (auto simp: wake_sender_def sender_at_def spent_def Let_def)

subsection \<open>Packets that arrive\<close>

lemma conn_packet_mono: "conn_packet p d k m pkt \<Longrightarrow> k \<le> k' \<Longrightarrow> m \<le> m' \<Longrightarrow> conn_packet p d k' m' pkt"
  by (auto simp: conn_packet_def ack_below_def Let_def intro: le_trans)

lemma decode_data_packet:
  assumes "transfer_ok p d" "int i < nbSegments p"
  shows "mail_ok (mailHdr (numbered p i))" and "decode_mail (snd (data_packet p d i)) = mailHdr (numbered p i)"
proof -
  show "mail_ok (mailHdr (numbered p i))"
    using assms by (auto simp: transfer_ok_def mail_ok_def is_int32_def)
  from mail_ok_decode [OF this] show "decode_mail (snd (data_packet p d i)) = mailHdr (numbered p i)"
    by (simp add: data_packet_def)
qed

lemma ack_of_data:
  assumes "transfer_ok p d" "mail_ok mh" "from_box mh = from_box (mailHdr p)" "messageId mh < messageId (mailHdr p) + int m"
    and "from_machine ph = from_machine (pktHdr p)"
  shows "conn_packet p d k m (ack_packet ph mh)"
  using assms by (simp add: conn_packet_def ack_below_def decode_ack)

text \<open>A segment that has already been put into the box is acknowledged again and changes nothing.\<close>

lemma link_inv_old_data:
  assumes tr: "transfer_ok p d" and inv: "link_inv p d old k m l"
    and mh: "decode_mail buffer = mh" "mail_ok mh" "messageType mh = DATA" "to_box mh = to_box (mailHdr p)"
      "from_box mh = from_box (mailHdr p)" "messageId mh < messageId (mailHdr p) + int m"
    and ph: "from_machine ph = from_machine (pktHdr p)"
  shows "postal_delivery (ph, buffer) (far l) = Some (far l, Some (ack_packet ph mh))"
    and "link_inv p d old k m (l\<lparr>in_flight := in_flight l \<union> {ack_packet ph mh}\<rparr>)"
proof -
  show "postal_delivery (ph, buffer) (far l) = Some (far l, Some (ack_packet ph mh))"
    using deliver_data_old [of buffer "far l" ph] tr inv mh by (auto simp: transfer_ok_def link_inv_def offices_ok_def)
  show "link_inv p d old k m (l\<lparr>in_flight := in_flight l \<union> {ack_packet ph mh}\<rparr>)"
    using ack_of_data [OF tr mh(2,5,6) ph, of k] inv by (auto simp: link_inv_def)
qed

lemma link_inv_new_data:
  assumes tr: "transfer_ok p d" and inv: "link_inv p d old k m l" and m: "m \<le> k" "int m < nbSegments p"
  shows "\<exists>po a. postal_delivery (data_packet p d m) (far l) = Some (po, Some a)
    \<and> link_inv p d old k (Suc m) (l\<lparr>far := po, in_flight := in_flight l \<union> {a}\<rparr>)"
proof -
  define mh where "mh = mailHdr (numbered p m)"
  define f :: "MailBox \<Rightarrow> MailBox" where "f = (\<lambda>b. b\<lparr>messages := messages b @ [segment_mail p d m], waitedId := messageId mh + 1\<rparr>)"
  define po where "po = upd_box (to_box mh) f (far l)"
  define i where "i = to_box (mailHdr p)"
  have mh: "mail_ok mh" "to_box mh = i" "from_box mh = from_box (mailHdr p)" "messageId mh = messageId (mailHdr p) + int m"
    using decode_data_packet(1) [OF tr m(2)] by (simp_all add: mh_def i_def)
  have dec: "decode_mail (snd (data_packet p d m)) = mh"
    using decode_data_packet(2) [OF tr m(2)] by (simp add: mh_def)
  have i: "0 \<le> i" "i < numBoxes (far l)" "nat i < length (boxes (far l))" "0 \<le> i"
    using tr inv by (auto simp: i_def transfer_ok_def link_inv_def offices_ok_def)
  have w: "messageId mh = waitedId (box (far l) i)"
    using inv by (simp add: mh link_inv_def i_def)
  have "take 32 (drop 20 (snd (data_packet p d m))) = padded (seg_bytes p d m)"
    using tr length_padded [OF length_segment, of p d m] by (simp add: data_packet_def transfer_ok_def)
  with deliver_data_new [OF dec, of "far l" "pktHdr p"] tr i w mh
  have del: "postal_delivery (data_packet p d m) (far l) = Some (po, Some (ack_packet (pktHdr p) mh))"
    by (simp add: po_def f_def transfer_ok_def carries_def segment_mail_def data_packet_def mh_def)
  have b: "box po i = f (box (far l) i)"
    using i by (simp add: po_def mh box_upd_box)
  have "conn_packet p d k (Suc m) (ack_packet (pktHdr p) mh)"
    using ack_of_data [OF tr mh(1,3), of "Suc m" "pktHdr p" k] by (simp add: mh)
  with inv conn_packet_mono [of p d k m] b m
  have "link_inv p d old k (Suc m) (l\<lparr>far := po, in_flight := in_flight l \<union> {ack_packet (pktHdr p) mh}\<rparr>)"
    unfolding link_inv_def i_def [symmetric] by (auto simp: f_def mh offices_ok_def po_def)
  with del show ?thesis
    by blast
qed

lemma link_inv_ack:
  assumes tr: "transfer_ok p d" and inv: "link_inv p d old k m l" and a: "ack_below p m (ph, buffer)"
  shows "\<exists>po. postal_delivery (ph, buffer) (near l) = Some (po, None) \<and> link_inv p d old k m (l\<lparr>near := po\<rparr>)"
proof -
  define h where "h = decode_mail buffer"
  define po where "po = upd_box (to_box h) (\<lambda>b. b\<lparr>ackId := messageId h\<rparr>) (near l)"
  define i where "i = from_box (mailHdr p)"
  have h: "messageType h = ACK" "to_box h = i" "messageId h < messageId (mailHdr p) + int m"
    using a by (simp_all add: ack_below_def h_def i_def Let_def)
  have i: "0 \<le> i" "i < numBoxes (near l)" "nat i < length (boxes (near l))"
    using tr inv by (auto simp: i_def transfer_ok_def link_inv_def offices_ok_def)
  have "box po i = (box (near l) i)\<lparr>ackId := messageId h\<rparr>"
    using i by (simp add: po_def h box_upd_box)
  with inv h have "link_inv p d old k m (l\<lparr>near := po\<rparr>)"
    unfolding link_inv_def i_def [symmetric] by (auto simp: offices_ok_def po_def)
  moreover have "postal_delivery (ph, buffer) (near l) = Some (po, None)"
    using deliver_ack [of buffer "near l" ph] h i by (simp add: po_def h_def)
  ultimately show ?thesis
    by blast
qed


lemma link_inv_to_far:
  assumes tr: "transfer_ok p d" and inv: "link_inv p d old k m l" and pkt: "pkt \<in> in_flight l" "to_machine (fst pkt) = netAddr (far l)"
  shows "\<exists>po a m'. postal_delivery pkt (far l) = Some (po, Some a)
    \<and> link_inv p d old k m' (l\<lparr>far := po, in_flight := in_flight l \<union> {a}\<rparr>)"
proof -
  have "to_machine (fst pkt) \<noteq> from_machine (pktHdr p)"
    using tr inv pkt(2) by (auto simp: transfer_ok_def link_inv_def offices_ok_def)
  then consider i where "i \<le> k" "int i < nbSegments p" "pkt = data_packet p d i" | "stale_data p pkt"
    using inv pkt(1) by (auto simp: link_inv_def conn_packet_def ack_below_def Let_def)
  then show ?thesis
  proof cases
    case 1
    show ?thesis
    proof (cases "i = m")
      case True
      with link_inv_new_data [OF tr inv] 1 show ?thesis
        by blast
    next
      case False
      then have "i < m"
        using 1(1) inv by (simp add: link_inv_def)
      then show ?thesis
        using link_inv_old_data [OF tr inv, of "snd pkt" "mailHdr (numbered p i)" "fst pkt"] decode_data_packet [OF tr 1(2)] 1(3) tr
        by (auto simp: transfer_ok_def data_packet_def intro!: exI [of _ m])
    qed
  next
    case 2
    define mh where "mh = decode_mail (snd pkt)"
    have "mail_ok mh" "messageType mh = DATA" "to_box mh = to_box (mailHdr p)" "from_box mh = from_box (mailHdr p)"
      "messageId mh < messageId (mailHdr p) + int m" "from_machine (fst pkt) = from_machine (pktHdr p)"
      using 2 mail_ok_decode_mail [of "snd pkt"] by (auto simp: stale_data_def mh_def Let_def)
    from link_inv_old_data [OF tr inv mh_def [symmetric] this] show ?thesis
      by (auto intro!: exI [of _ m])
  qed
qed

lemma link_inv_to_near:
  assumes tr: "transfer_ok p d" and inv: "link_inv p d old k m l" and pkt: "pkt \<in> in_flight l" "to_machine (fst pkt) = netAddr (near l)"
  shows "\<exists>po. postal_delivery pkt (near l) = Some (po, None) \<and> link_inv p d old k m (l\<lparr>near := po\<rparr>)"
proof -
  have "to_machine (fst pkt) \<noteq> to_machine (pktHdr p)"
    using tr inv pkt(2) by (auto simp: transfer_ok_def link_inv_def offices_ok_def)
  then have "ack_below p m pkt"
    using inv pkt(1) by (auto simp: link_inv_def conn_packet_def stale_data_def data_packet_def Let_def)
  with link_inv_ack [OF tr inv, of "fst pkt" "snd pkt"] show ?thesis
    by simp
qed

text \<open>Every step keeps the state of the transfer.\<close>

lemma link_inv_step:
  assumes tr: "transfer_ok p d" and inv: "link_inv p d old k m l" and step: "link_step l l'"
  shows "\<exists>k' m'. link_inv p d old k' m' l'"
proof -
  have c: "carries p d"
    using tr by (simp add: transfer_ok_def)
  have at: "sender_at p d k (sender l)"
    using inv by (simp add: link_inv_def)
  have hdr: "to_box (mailHdr (s_payload (sender l))) = to_box (mailHdr p)" "from_box (mailHdr (s_payload (sender l))) = from_box (mailHdr p)"
    using at by (simp_all add: sender_at_def)
  from step show ?thesis
  proof cases
    case (emit pkt s)
    from emit_at [OF c at emit(2,3)] have "sender_at p d k s" "spent s = spent (sender l) + 1" "conn_packet p d k m pkt"
      by (auto simp: conn_packet_def)
    with inv have "link_inv p d old k m l'"
      by (auto simp: link_inv_def emit(1))
    then show ?thesis
      by blast
  next
    case (give_up s)
    from emit_at [OF c at give_up(2,3)] inv have "link_inv p d old k m l'"
      by (auto simp: link_inv_def give_up(1))
    then show ?thesis
      by blast
  next
    case wake
    show ?thesis
    proof (cases "ackId (box (near l) (from_box (mailHdr p))) = messageId (mailHdr p) + int k")
      case True
      then have "k < m" "sender_at p d (Suc k) (wake_sender (near l) (sender l))"
        using inv wake_at(2) [OF at wake(2)] by (auto simp: link_inv_def)
      with inv wake_at(1) [OF at wake(2), of "near l"] conn_packet_mono [of p d k m _ "Suc k" m]
      have "link_inv p d old (Suc k) m l'"
        by (auto simp: link_inv_def wake(1))
      then show ?thesis
        by blast
    next
      case False
      with inv wake_at(1,3) [OF at wake(2), of "near l"] have "link_inv p d old k m l'"
        by (auto simp: link_inv_def wake(1))
      then show ?thesis
        by blast
    qed
  next
    case (to_far pkt po reply)
    with link_inv_to_far [OF tr inv to_far(2,3)] show ?thesis
      by auto blast
  next
    case (to_near pkt po reply)
    with link_inv_to_near [OF tr inv to_near(2,3)] show ?thesis
      by auto
  next
    case (get i x xs)
    have "0 \<le> i" "nat i < length (boxes (far l))"
      using tr inv by (auto simp: get(2) hdr transfer_ok_def link_inv_def offices_ok_def)
    then have "link_inv p d old k m l'"
      using inv get(3) unfolding link_inv_def get(1) by (auto simp: get(2) hdr box_upd_box offices_ok_def)
    then show ?thesis
      by blast
  next
    case (others_near po)
    with inv have "link_inv p d old k m l'"
      by (auto simp: link_inv_def near_rely_def hdr offices_ok_def)
    then show ?thesis
      by blast
  next
    case (others_far po)
    with inv have "link_inv p d old k m l'"
      by (auto simp: link_inv_def far_rely_def hdr offices_ok_def)
    then show ?thesis
      by blast
  qed
qed

lemma link_inv_reachable:
  assumes "transfer_ok p d" "link_start p d l0" "link_step\<^sup>*\<^sup>* l0 l"
  shows "\<exists>k m. link_inv p d (messages (box (far l0) (to_box (mailHdr p)))) k m l"
  using assms(3)
proof (induction rule: rtranclp_induct)
  case base
  from link_start_inv [OF assms(1,2)] show ?case
    by blast
next
  case (step l l')
  with link_inv_step [OF assms(1)] show ?case
    by blast
qed


subsection \<open>Other packets and other threads\<close>

text \<open>
  Packets of other connections, and data for the sender's own box, are steps of \<open>near_rely\<close>; acknowledgements
  and data for other boxes are steps of \<open>far_rely\<close>. So is receiving.
\<close>

lemma ValidConn_boxes: "ValidConn c po = (v, po') \<Longrightarrow> netAddr po' = netAddr po \<and> numBoxes po' = numBoxes po \<and> boxes po' = boxes po"
  by (auto simp: ValidConn_def split: if_splits)

lemma near_rely_delivery:
  assumes "postal_delivery (ph, buffer) po = Some (po', reply)" "numBoxes po = int (length (boxes po))" "0 \<le> i"
    and "messageType (decode_mail buffer) = ACK \<Longrightarrow> to_box (decode_mail buffer) \<noteq> i"
  shows "near_rely i po po'"
  using assms
  by (auto simp: postal_delivery_def near_rely_def box_upd_box MailBox_Put_def Let_def dest!: ValidConn_boxes
      split: if_splits prod.splits)

lemma far_rely_delivery:
  assumes "postal_delivery (ph, buffer) po = Some (po', reply)" "numBoxes po = int (length (boxes po))" "0 \<le> i"
    and "messageType (decode_mail buffer) \<noteq> ACK \<Longrightarrow> to_box (decode_mail buffer) \<noteq> i"
  shows "far_rely i po po'"
  using assms
  by (auto simp: postal_delivery_def far_rely_def box_upd_box MailBox_Put_def Let_def dest!: ValidConn_boxes
      split: if_splits prod.splits)

lemma rely_receive:
  assumes "ReceivePayload j q D po = Some (po', q', D')" "numBoxes po = int (length (boxes po))" "0 \<le> i"
  shows "near_rely i po po'" and "i \<noteq> j \<Longrightarrow> far_rely i po po'"
  using assms
  by (auto simp: ReceivePayload_def near_rely_def far_rely_def box_upd_box Let_def split: if_splits list.splits prod.splits bind_splits)

text \<open>
  \<open>DisconnectPayload\<close> gives a box back with its old \<open>ackId\<close>. A sender that finds its own number there moves on when
  the timer wakes it, without an acknowledgement: hence the condition on \<open>ackId\<close> in \<open>link_start\<close>.
\<close>

lemma stale_ackId:
  assumes "ackId (box po (from_box (mailHdr (s_payload s)))) = messageId (mailHdr (s_payload s))" "phase s = Waiting"
    "segIndex s + 1 = nbSegments (s_payload s)"
  shows "phase (wake_sender po s) = Finished True"
  using assms by (simp add: wake_sender_def Let_def)

lemma Disconnect_keeps_ackId:
  assumes "DisconnectPayload p new arrivals po = Some po'" "0 \<le> to_box (mailHdr p)" "nat (to_box (mailHdr p)) < length (boxes po)"
  shows "ackId (box po' (to_box (mailHdr p))) = ackId (box po (to_box (mailHdr p)))" and "waitedId (box po' (to_box (mailHdr p))) = 0"
    and "messages (box po' (to_box (mailHdr p))) = []"
proof -
  have "drain ms later = Some x \<Longrightarrow> x = []" for ms later x
    by (induction ms later rule: drain.induct) (auto split: list.splits)
  then show "ackId (box po' (to_box (mailHdr p))) = ackId (box po (to_box (mailHdr p)))" and "waitedId (box po' (to_box (mailHdr p))) = 0"
    and "messages (box po' (to_box (mailHdr p))) = []"
    using assms by (auto simp: DisconnectPayload_def upd_box_def Let_def split: bind_splits)
qed

text \<open>A connection request that is delivered again is not put into the box again.\<close>

lemma ValidConn_once: "ValidConn c po = (v, po') \<Longrightarrow> ValidConn c po' = (False, po')"
  by (auto simp: ValidConn_def same_conn_def split: if_splits)

subsection \<open>A network that delivers\<close>

text \<open>If every packet arrives, each segment is emitted once.\<close>

lemma segment_goes_through:
  assumes tr: "transfer_ok p d" and inv: "link_inv p d old k k l" and s: "phase (sender l) = Emit" "nReemissions (sender l) = 0"
  shows "\<exists>l'. link_step\<^sup>*\<^sup>* l l' \<and> link_inv p d old (Suc k) (Suc k) l' \<and> nReemissions (sender l') = 0
    \<and> emissions l' = Suc (emissions l) \<and> received l' = received l \<and> phase (sender l') \<in> {Emit, Finished True}"
proof -
  have at: "sender_at p d k (sender l)" and k: "int k < nbSegments p" and c: "carries p d"
    using inv s(1) tr by (auto simp: link_inv_def sender_at_def transfer_ok_def)
  define l1 where "l1 = l\<lparr>sender := (sender l)\<lparr>phase := Waiting\<rparr>, in_flight := insert (data_packet p d k) (in_flight l),
    emissions := Suc (emissions l)\<rparr>"
  have em: "emit_segment (sender l) = Some (Some (data_packet p d k), (sender l)\<lparr>phase := Waiting\<rparr>)"
    using segment_buffer_data [OF c k] at s(2) by (simp add: emit_segment_def sender_at_def data_packet_def)
  then have s1: "link_step l l1"
    unfolding l1_def by (rule link_step.emit [OF s(1)])
  from emit_at [OF c at s(1) em] inv have i1: "link_inv p d old k k l1"
    by (auto simp: l1_def link_inv_def conn_packet_def)
  from link_inv_new_data [OF tr i1 order_refl k] obtain po a where
    del: "postal_delivery (data_packet p d k) (far l1) = Some (po, Some a)" and
    i2: "link_inv p d old k (Suc k) (l1\<lparr>far := po, in_flight := in_flight l1 \<union> {a}\<rparr>)"
    by blast
  have "to_machine (fst (data_packet p d k)) = netAddr (far l1)"
    using i1 by (simp add: data_packet_def link_inv_def offices_ok_def)
  with del have s2: "link_step l1 (l1\<lparr>far := po, in_flight := in_flight l1 \<union> {a}\<rparr>)"
    using link_step.to_far [of "data_packet p d k" l1 po "Some a"] by (simp add: l1_def)
  define l2 where "l2 = l1\<lparr>far := po, in_flight := in_flight l1 \<union> {a}\<rparr>"
  have a: "a = ack_packet (pktHdr p) (mailHdr (numbered p k))"
    using del decode_data_packet(2) [OF tr k] tr
    by (auto simp: postal_delivery_def data_packet_def transfer_ok_def Let_def split: if_splits)
  have dec: "decode_mail (snd a) = \<lparr>to_box = from_box (mailHdr p), from_box = to_box (mailHdr p), mail_length = 0,
      messageType = ACK, messageId = messageId (mailHdr p) + int k\<rparr>"
    using decode_ack [OF decode_data_packet(1) [OF tr k]] by (simp add: a)
  have fb: "0 \<le> from_box (mailHdr p)" "from_box (mailHdr p) < numBoxes (near l2)" "nat (from_box (mailHdr p)) < length (boxes (near l2))"
    using tr i2 by (auto simp: l2_def transfer_ok_def link_inv_def offices_ok_def)
  define po' where "po' = upd_box (from_box (mailHdr p)) (\<lambda>b. b\<lparr>ackId := messageId (mailHdr p) + int k\<rparr>) (near l2)"
  have del': "postal_delivery a (near l2) = Some (po', None)"
    using deliver_ack [of "snd a" "near l2" "fst a"] fb by (simp add: dec po'_def)
  have tm: "to_machine (fst a) = netAddr (near l2)"
    using i2 by (simp add: a l2_def link_inv_def offices_ok_def)
  define l3 where "l3 = l2\<lparr>near := po'\<rparr>"
  have "a \<in> in_flight l2" and e: "l2\<lparr>near := po', in_flight := in_flight l2 \<union> set_option None\<rparr> = l3"
    by (simp add: l2_def) (cases l2, simp add: l3_def)
  from link_step.to_near [OF this(1) tm del'] have s3: "link_step l2 l3"
    by (simp only: e)
  have i3: "link_inv p d old k (Suc k) l3"
    using link_inv_to_near [OF tr i2 [folded l2_def] _ tm] del' by (auto simp: l3_def l2_def)
  define l4 where "l4 = l3\<lparr>sender := wake_sender (near l3) (sender l3)\<rparr>"
  have w: "phase (sender l3) = Waiting" "sender_at p d k (sender l3)"
    "ackId (box (near l3) (from_box (mailHdr p))) = messageId (mailHdr p) + int k"
    using i3 fb by (auto simp: l3_def l2_def l1_def link_inv_def po'_def box_upd_box)
  have s4: "link_step l3 l4"
    unfolding l4_def by (rule link_step.wake [OF w(1)])
  have i4: "link_inv p d old (Suc k) (Suc k) l4"
    using i3 wake_at(1,2) [OF w(2,1), of "near l3"] w(3) conn_packet_mono [of p d k "Suc k" _ "Suc k" "Suc k"]
    by (auto simp: l4_def link_inv_def)
  have "nReemissions (sender l4) = 0" "phase (sender l4) \<in> {Emit, Finished True}"
    using w by (auto simp: l4_def wake_sender_def sender_at_def Let_def)
  moreover have "emissions l4 = Suc (emissions l)" "received l4 = received l"
    by (simp_all add: l4_def l3_def l2_def l1_def)
  moreover have "link_step\<^sup>*\<^sup>* l l4"
    by (rule converse_rtranclp_into_rtranclp [where r = link_step, OF s1], rule converse_rtranclp_into_rtranclp [where r = link_step, OF s2 [folded l2_def]],
        rule converse_rtranclp_into_rtranclp [where r = link_step, OF s3], rule r_into_rtranclp [where r = link_step, OF s4])
  ultimately show ?thesis
    using i4 by blast
qed

lemma transfer_goes_through:
  assumes tr: "transfer_ok p d"
  shows "link_inv p d old k k l \<Longrightarrow> phase (sender l) \<in> {Emit, Finished True} \<Longrightarrow> nReemissions (sender l) = 0 \<Longrightarrow>
    \<exists>l'. link_step\<^sup>*\<^sup>* l l' \<and> phase (sender l') = Finished True \<and> received l' = received l
      \<and> int (emissions l') = int (emissions l) + (nbSegments p - int k)"
proof (induction "nat (nbSegments p) - k" arbitrary: k l)
  case 0
  then have "int k = nbSegments p" "phase (sender l) = Finished True"
    by (auto simp: link_inv_def sender_at_def)
  then show ?case
    by auto
next
  case (Suc x)
  then have "phase (sender l) = Emit"
    by (auto simp: link_inv_def sender_at_def)
  from segment_goes_through [OF tr Suc.prems(1) this Suc.prems(3)] obtain l1 where
    l1: "link_step\<^sup>*\<^sup>* l l1" "link_inv p d old (Suc k) (Suc k) l1" "nReemissions (sender l1) = 0" "emissions l1 = Suc (emissions l)"
      "phase (sender l1) \<in> {Emit, Finished True}" "received l1 = received l"
    by blast
  from Suc.hyps(2) have "x = nat (nbSegments p) - Suc k"
    by simp
  from Suc.hyps(1) [OF this l1(2,5,3)] obtain l' where
    "link_step\<^sup>*\<^sup>* l1 l'" "phase (sender l') = Finished True" "received l' = received l1" "int (emissions l') = int (emissions l1) + (nbSegments p - int (Suc k))"
    by auto
  with l1 show ?case
    by (intro exI [of _ l']) auto
qed


section \<open>Receiving a message\<close>

lemma length_segment_last:
  assumes "carries p d" "int i < nbSegments p"
  shows "length (seg_bytes p d i) = (if int i = nbSegments p - 1 then nat (remainder p) else MaxSegmentSize)"
proof -
  have "segment_buffer (numbered p i) d (int i) \<noteq> None"
    using segment_buffer_data [OF assms] by simp
  then show ?thesis
    by (auto simp: segment_buffer_def seg_bytes_def Let_def split: if_splits)
qed

text \<open>What \<open>Get\<close> takes out of the mail of segment \<open>i\<close> is what was sent for it.\<close>

lemma Get_segment:
  assumes "carries p d" "int i < nbSegments p"
  shows "\<exists>q'. MailBox_Get (segment_mail p d i) (int i) q = (q', seg_bytes p d i) \<and> nbSegments q' = nbSegments p
    \<and> pktHdr q' = pktHdr p \<and> mailHdr q' = mailHdr (numbered p i)"
proof -
  define q' where "q' = UpdatePayload (from_machine (pktHdr p)) (to_machine (pktHdr p)) (from_box (mailHdr p)) (to_box (mailHdr p))
    (mail_length (mailHdr p)) (messageType (mailHdr p)) q"
  have "carries q' d"
    using assms(1) UpdatePayload_carries [of d] by (simp add: q'_def carries_def)
  then have n: "nbSegments q' = nbSegments p" "remainder q' = remainder p"
    using assms(1) by (simp_all add: carries_def)
  have "take (nat (remainder p)) (padded (seg_bytes p d i)) = seg_bytes p d i" if "int i = nbSegments p - 1"
    using length_segment_last [OF assms] that by (simp add: padded_def)
  moreover have "padded (seg_bytes p d i) = seg_bytes p d i" if "int i \<noteq> nbSegments p - 1"
    using length_segment_last [OF assms] that by (simp add: padded_def)
  moreover have "pktHdr q' = pktHdr p"
    using assms(1) by (simp add: q'_def UpdatePayload_def carries_def Let_def)
  moreover have "(mailHdr q')\<lparr>messageId := messageId (mailHdr p) + int i\<rparr> = mailHdr (numbered p i)"
    by (simp add: q'_def UpdatePayload_def numbered_def Let_def)
  ultimately show ?thesis
    using n by (auto simp: MailBox_Get_def segment_mail_def Let_def q'_def [symmetric])
qed

text \<open>The part of a message that is sent and received; all of it unless its length is a multiple of 32.\<close>

definition sent_length :: "byte list \<Rightarrow> nat" where
  "sent_length d = (if length d mod MaxSegmentSize = 0 then length d - MaxSegmentSize else length d)"

lemma segment_ends:
  assumes "carries p d" "int i < nbSegments p"
  shows "i * 32 + length (seg_bytes p d i) = (if int i = nbSegments p - 1 then sent_length d else (i + 1) * 32)"
    and "i * 32 + length (seg_bytes p d i) \<le> sent_length d"
    and "take (i * 32) d @ seg_bytes p d i = take (i * 32 + length (seg_bytes p d i)) d"
proof -
  define q r where "q = length d div 32" and "r = length d mod 32"
  have d: "length d = 32 * q + r" "r < 32"
    by (simp_all add: q_def r_def)
  have sl: "sent_length d = (if r = 0 then 32 * q - 32 else length d)"
    unfolding sent_length_def r_def [symmetric] using d(1) by simp
  have n: "nbSegments p = int (q + (if r = 0 then 0 else 1))" "remainder p = int r"
    using assms(1) segment_count [of "length d"] by (simp_all add: carries_def q_def r_def)
  have l: "length (seg_bytes p d i) = (if int i = nbSegments p - 1 then r else 32)"
    using length_segment_last [OF assms] n by simp
  show *: "i * 32 + length (seg_bytes p d i) = (if int i = nbSegments p - 1 then sent_length d else (i + 1) * 32)"
    using l assms(2) n d sl by (auto split: if_splits)
  have "int i \<noteq> nbSegments p - 1 \<Longrightarrow> (i + 1) * 32 \<le> sent_length d"
    using assms(2) n d sl by (auto split: if_splits)
  with * show "i * 32 + length (seg_bytes p d i) \<le> sent_length d"
    by (auto split: if_splits)
  have "seg_bytes p d i = take (length (seg_bytes p d i)) (drop (i * 32) d)"
    unfolding l by (simp add: seg_bytes_def n)
  then show "take (i * 32) d @ seg_bytes p d i = take (i * 32 + length (seg_bytes p d i)) d"
    by (simp add: take_add)
qed

lemma store_segment_next:
  assumes "carries p d" "int i < nbSegments p" "sent_length d \<le> length D"
  shows "store_segment (take (i * 32) d @ drop (i * 32) D) (i * 32) (seg_bytes p d i)
    = Some (take (i * 32 + length (seg_bytes p d i)) d @ drop (i * 32 + length (seg_bytes p d i)) D)"
proof -
  have "i * 32 \<le> length d"
    using segment_ends(2) [OF assms(1,2)] by (auto simp: sent_length_def split: if_splits)
  then show ?thesis
    using segment_ends(2,3) [OF assms(1,2)] assms(3) by (simp add: store_segment_def add.commute flip: append_assoc)
qed


lemma receive_loop_segments:
  assumes c: "carries p d" and D: "sent_length d \<le> length D"
  shows "int i < nbSegments p \<Longrightarrow> nbSegments q = nbSegments p \<Longrightarrow> mailHdr q = mailHdr (numbered p (i - 1)) \<Longrightarrow> 0 < i \<Longrightarrow>
    \<exists>q'. receive_loop (map (segment_mail p d) [i..<nat (nbSegments p)] @ rest) (int i) q (take (i * 32) d @ drop (i * 32) D)
      = Some (rest, q', take (sent_length d) d @ drop (sent_length d) D) \<and> mailHdr q' = mailHdr (numbered p (nat (nbSegments p) - 1))"
proof (induction "nat (nbSegments p) - Suc i" arbitrary: i q)
  case 0
  obtain q' where get: "MailBox_Get (segment_mail p d i) (int i) q = (q', seg_bytes p d i)" "nbSegments q' = nbSegments p"
    "mailHdr q' = mailHdr (numbered p i)"
    using Get_segment [OF c 0(2), of q] by blast
  have i: "nat (nbSegments p) = Suc i" "int i = nbSegments p - 1" "nat (nbSegments p - 1) = i"
    using 0(1,2) by simp_all
  have "receive_loop rest (int i + 1) q' D' = Some (rest, q', D')" for D'
    using get(2) i by (subst receive_loop.simps) simp
  then show ?case
    using store_segment_next [OF c 0(2) D] segment_ends(1) [OF c 0(2)] get i 0(3)
    by (subst receive_loop.simps) (simp add: i(1) mult.commute)
next
  case (Suc x)
  obtain q' where get: "MailBox_Get (segment_mail p d i) (int i) q = (q', seg_bytes p d i)" "nbSegments q' = nbSegments p"
    "mailHdr q' = mailHdr (numbered p i)"
    using Get_segment [OF c Suc.prems(1), of q] by blast
  have i: "int (Suc i) < nbSegments p" "i < nat (nbSegments p)"
    using Suc.hyps(2) by simp_all
  have "x = nat (nbSegments p) - Suc (Suc i)"
    using Suc.hyps(2) by simp
  from Suc.hyps(1) [OF this i(1) get(2)] get(3) obtain q'' where
    "receive_loop (map (segment_mail p d) [Suc i..<nat (nbSegments p)] @ rest) (int (Suc i)) q' (take (Suc i * 32) d @ drop (Suc i * 32) D)
      = Some (rest, q'', take (sent_length d) d @ drop (sent_length d) D)" "mailHdr q'' = mailHdr (numbered p (nat (nbSegments p) - 1))"
    by auto
  moreover have "i * 32 + length (seg_bytes p d i) = Suc i * 32"
    using segment_ends(1) [OF c Suc.prems(1)] i(1) by simp
  moreover have "[i..<nat (nbSegments p)] = i # [Suc i..<nat (nbSegments p)]"
    using i(2) by (rule upt_conv_Cons)
  ultimately show ?case
    using store_segment_next [OF c Suc.prems(1) D] get Suc.prems(2) i
    by (subst receive_loop.simps) (simp add: mult.commute add.commute)
qed


lemma length_string: "0 \<in> set D \<Longrightarrow> length (takeWhile (\<lambda>c. c \<noteq> (0 :: byte)) D) < length D"
  by (induction D) auto

lemma clear_string_length: "clear_string D = Some D' \<Longrightarrow> length D' = length D"
  using length_string [of D] by (auto simp: clear_string_def Let_def split: if_splits)

text \<open>\<open>ReceivePayload\<close> on a box whose first mails are the segments of a message.\<close>

lemma ReceivePayload_segments:
  assumes c: "carries p d" and d: "d \<noteq> []" and i: "0 \<le> i" "i < numBoxes po"
    and ms: "messages (box po i) = map (segment_mail p d) [0..<nat (nbSegments p)] @ rest"
    and D: "clear_string D = Some D'" "sent_length d \<le> length D"
  shows "\<exists>q'. ReceivePayload i q D po = Some (upd_box i (\<lambda>b. b\<lparr>messages := rest\<rparr>) po, q', take (sent_length d) d @ drop (sent_length d) D')
    \<and> mailHdr q' = mailHdr (numbered p (nat (nbSegments p) - 1))"
proof -
  have n: "int 0 < nbSegments p"
    using c d by (cases d) (auto simp: carries_def)
  then have ms': "messages (box po i) = segment_mail p d 0 # map (segment_mail p d) [1..<nat (nbSegments p)] @ rest"
    using ms upt_conv_Cons [of 0 "nat (nbSegments p)"] by simp
  obtain q1 where q1: "MailBox_Get (segment_mail p d 0) 0 q = (q1, seg_bytes p d 0)" "nbSegments q1 = nbSegments p"
    "mailHdr q1 = mailHdr (numbered p 0)"
    using Get_segment [OF c n, of q] by auto
  have D': "sent_length d \<le> length D'"
    using D clear_string_length by simp
  have st: "store_segment D' 0 (seg_bytes p d 0) = Some (take (length (seg_bytes p d 0)) d @ drop (length (seg_bytes p d 0)) D')"
    using store_segment_next [OF c n D'] by simp
  show ?thesis
  proof (cases "nbSegments p = 1")
    case True
    then have "length (seg_bytes p d 0) = sent_length d"
      using segment_ends(1) [OF c n] by simp
    moreover have "receive_loop rest 1 q1 E = Some (rest, q1, E)" for E
      using q1(2) True by (subst receive_loop.simps) simp
    ultimately show ?thesis
      using i ms' D q1 st True by (simp add: ReceivePayload_def)
  next
    case False
    then have k: "int 1 < nbSegments p"
      using n by simp
    have "length (seg_bytes p d 0) = 32"
      using segment_ends(1) [OF c n] False by (simp split: if_splits)
    with receive_loop_segments [OF c D' k q1(2), of rest] q1(3) i ms' D q1(1) st show ?thesis
      by (auto simp: ReceivePayload_def)
  qed
qed


lemma receive_finished:
  assumes tr: "transfer_ok p d" and l: "link_start p d l\<^sub>0" "link_step\<^sup>*\<^sup>* l\<^sub>0 l" "phase (sender l) = Finished True"
    and box: "messages (box (far l\<^sub>0) (to_box (mailHdr p))) = []" "received l = []"
    and D: "clear_string D = Some D'" "length d \<le> length D" and d: "d \<noteq> []"
  shows "\<exists>q' po. ReceivePayload (to_box (mailHdr p)) q D (far l) = Some (po, q', take (sent_length d) d @ drop (sent_length d) D')
    \<and> mailHdr q' = mailHdr (numbered p (nat (nbSegments p) - 1)) \<and> messages (box po (to_box (mailHdr p))) = []"
proof -
  from link_inv_reachable [OF tr l(1,2)] box(1) obtain k m where inv: "link_inv p d [] k m l"
    by auto
  have i: "0 \<le> to_box (mailHdr p)" "to_box (mailHdr p) < numBoxes (far l)" "nat (to_box (mailHdr p)) < length (boxes (far l))"
    using tr inv by (auto simp: transfer_ok_def link_inv_def offices_ok_def)
  have "messages (box (far l) (to_box (mailHdr p))) = map (segment_mail p d) [0..<m]" "int m = nbSegments p"
    using inv l(3) box(2) by (auto simp: link_inv_def sender_at_def)
  then have ms: "messages (box (far l) (to_box (mailHdr p))) = map (segment_mail p d) [0..<nat (nbSegments p)] @ []"
    by (simp flip: \<open>int m = nbSegments p\<close>)
  have sl: "sent_length d \<le> length D"
    using D(2) by (auto simp: sent_length_def)
  have "carries p d"
    using tr by (simp add: transfer_ok_def)
  from ReceivePayload_segments [OF this d i(1,2) ms D(1) sl, of q] show ?thesis
    using i by (auto simp: box_upd_box)
qed

section \<open>Properties\<close>

text \<open>A message from box 1 of machine 1 to box 1 of machine 2.\<close>

definition sample_office :: "int \<Rightarrow> PostOffice" where
  "sample_office addr = \<lparr>netAddr = addr, numBoxes = 2, boxes = [MailBox_new, MailBox_new],
     usedBoxes = \<lparr>numBits = 2, numWords = 1, words = [3]\<rparr>, connections = []\<rparr>"

definition sample_payload :: "byte list \<Rightarrow> Payload" where
  "sample_payload d = UpdatePayload 1 2 1 1 (of_nat (length d)) DATA Payload_new"

definition sample_link :: "byte list \<Rightarrow> Link" where
  "sample_link d = \<lparr>near = sample_office 1, far = sample_office 2,
     sender = \<lparr>s_payload = sample_payload d, s_data = d, segIndex = 0, nReemissions = 0, phase = Emit\<rparr>,
     in_flight = {}, received = [], emissions = 0\<rparr>"

lemma sample_payload [simp]:
  "pktHdr (sample_payload d) = \<lparr>to_machine = 2, from_machine = 1, pkt_length = 52\<rparr>"
  "mailHdr (sample_payload d) = \<lparr>to_box = 1, from_box = 1, mail_length = of_nat (length d), messageType = DATA, messageId = 0\<rparr>"
  by (simp_all add: sample_payload_def UpdatePayload_def Payload_new_def Let_def)

lemma sample_transfer:
  assumes "d \<noteq> []" "length d < 2 ^ 30"
  shows "transfer_ok (sample_payload d) d" and "link_start (sample_payload d) d (sample_link d)"
    and "nbSegments (sample_payload d) = int ((length d + 31) div 32)"
proof -
  have c: "carries (sample_payload d) d"
    unfolding sample_payload_def using assms(2) by (intro UpdatePayload_carries) simp
  then show n: "nbSegments (sample_payload d) = int ((length d + 31) div 32)"
    by (simp add: carries_def)
  with c assms(2) show "transfer_ok (sample_payload d) d"
    by (simp add: transfer_ok_def mail_ok_def is_int32_def)
  show "link_start (sample_payload d) d (sample_link d)"
    using n assms(1) by (cases d) (simp_all add: link_start_def sample_link_def SendPayload_def offices_ok_def sample_office_def MailBox_new_def)
qed

lemma sample_link_box [simp]: "messages (boxes (far (sample_link d)) ! Suc 0) = []" "phase (sender (sample_link d)) = Emit"
  "emissions (sample_link d) = 0"
  by (simp_all add: sample_link_def sample_office_def MailBox_new_def)

lemma sample_finishes:
  assumes "d \<noteq> []" "length d < 2 ^ 30"
  shows "\<exists>l. link_step\<^sup>*\<^sup>* (sample_link d) l \<and> phase (sender l) = Finished True \<and> received l = []"
  using transfer_goes_through [OF sample_transfer(1) link_start_inv [OF sample_transfer(1,2)], OF assms assms assms]
  by (auto simp: sample_link_def)



text \<open>
  A message of \<open>n\<close> segments takes at most 50 * \<open>n\<close> emissions, whatever the network does, and as long as
  \<open>SendPayload\<close> has not returned its thread can go on, to emit or when the timer wakes it.
\<close>

lemma emissions_bounded:
  assumes "transfer_ok p d" "link_start p d l\<^sub>0" "link_step\<^sup>*\<^sup>* l\<^sub>0 l"
  shows "int (emissions l) \<le> MAXREEMISSIONS * nbSegments p
    \<and> ((\<exists>b. phase (sender l) = Finished b) \<or> (\<exists>l'. link_step l l' \<and> sender l' \<noteq> sender l))"
proof -
  from link_inv_reachable [OF assms] obtain old k m where inv: "link_inv p d old k m l"
    by blast
  then have at: "sender_at p d k (sender l)" and e: "int (emissions l) \<le> spent (sender l)"
    by (simp_all add: link_inv_def)
  have c: "carries p d"
    using assms(1) by (simp add: transfer_ok_def)
  have "spent (sender l) \<le> 50 * nbSegments p"
    using at by (cases "phase (sender l) = Finished True") (auto simp: sender_at_def spent_def)
  moreover have "\<exists>l'. link_step l l' \<and> sender l' \<noteq> sender l" if w: "phase (sender l) = Waiting"
  proof -
    have "wake_sender (near l) (sender l) \<noteq> sender l"
      using w by (auto simp: wake_sender_def Let_def dest: arg_cong [where f = phase])
    with link_step.wake [OF w] show ?thesis
      by force
  qed
  moreover have "\<exists>l'. link_step l l' \<and> sender l' \<noteq> sender l" if w: "phase (sender l) = Emit"
  proof -
    have k: "int k < nbSegments p"
      using at w by (auto simp: sender_at_def)
    from segment_buffer_data [OF c k] at obtain pkt s where s: "emit_segment (sender l) = Some (pkt, s)" "phase s \<noteq> Emit"
      by (cases "nReemissions (sender l) < 50") (auto simp: emit_segment_def sender_at_def)
    then have "s \<noteq> sender l"
      using w by auto
    with s link_step.emit [OF w] link_step.give_up [OF w] show ?thesis
      by (cases pkt) force+
  qed
  ultimately show ?thesis
    using e by (cases "phase (sender l)") auto
qed





text \<open>
  A message whose length is a multiple of 32 loses its last 32 bytes: \<open>SendPayload\<close> returns true, but
  \<open>ReceivePayload\<close> leaves the end of the buffer as it was.
\<close>

lemma aligned_message_lost:
  assumes tr: "transfer_ok p d" and l: "link_start p d l\<^sub>0" "link_step\<^sup>*\<^sup>* l\<^sub>0 l" "phase (sender l) = Finished True"
    and box: "messages (box (far l\<^sub>0) (to_box (mailHdr p))) = []" "received l = []"
    and D: "clear_string D = Some D'" "length d \<le> length D" and n: "length d mod 32 = 0" "d \<noteq> []"
  shows "\<exists>q' po. ReceivePayload (to_box (mailHdr p)) q D (far l)
    = Some (po, q', take (length d - 32) d @ drop (length d - 32) D')"
proof -
  have "sent_length d = length d - 32"
    using n(1) by (simp add: sent_length_def)
  with receive_finished [OF tr l box D n(2), of q] show ?thesis
    by auto
qed

end
