(* ===== verification/Monitors.thy ===== *)
theory Monitors
  imports Threads
begin

text \<open>
  Locks and conditions as the code of a monitor uses them.

  A monitor is a lock that threads hold while they run the code of the monitor, and give up only to wait on a
  condition. This theory shows for the thread system of \<open>Threads\<close> what such code relies on: a thread that has
  called \<open>Acquire\<close> or \<open>Wait\<close> owns the lock when it runs again, whatever the other threads, the scheduler and
  the interrupts do; and what a call of the kernel changes of stacks, owners and queues.
\<close>

section \<open>Owning a lock\<close>

text \<open>
  A thread is entitled to a lock if it owns it or is suspended in \<open>Acquire\<close> or \<open>Wait\<close>, which it leaves as owner.
\<close>

definition claims :: "nat \<Rightarrow> frame list \<Rightarrow> bool" where
  "claims l fs \<longleftrightarrow> In_Acquire l \<in> set fs \<or> (\<exists>c. In_Wait c l \<in> set fs)"

definition entitled :: "Sys \<Rightarrow> nat \<Rightarrow> nat \<Rightarrow> bool" where
  "entitled s l t \<longleftrightarrow> GetThreadId s t = Some (lockOwner s l) \<or> claims l (frames_of s t)"

lemma claims_simps [simp]:
  "\<not> claims l []" "claims l (In_P i # fs) \<longleftrightarrow> claims l fs" "claims l (In_Acquire l' # fs) \<longleftrightarrow> l = l' \<or> claims l fs"
  "claims l (In_Wait c l' # fs) \<longleftrightarrow> l = l' \<or> claims l fs"
  by (auto simp: claims_def)

lemma id_not_free: "ids_ok s \<Longrightarrow> GetThreadId s t \<noteq> Some (- 1)"
  using marked_subset [of "tidMap s"] by (fastforce simp: ids_ok_def)

text \<open>What \<open>dispatch\<close> changes: a thread that has finished may disappear.\<close>

definition same_claims :: "Sys \<Rightarrow> Sys \<Rightarrow> bool" where
  "same_claims s s' \<longleftrightarrow> lockOwner s' = lockOwner s \<and> (\<forall>t. GetThreadId s' t \<noteq> None \<longrightarrow>
     GetThreadId s' t = GetThreadId s t \<and> frames_of s' t = frames_of s t)"

lemma same_claims_refl: "same_claims s s"
  by (simp add: same_claims_def)

lemma same_claims_trans: "same_claims s s' \<Longrightarrow> same_claims s' s'' \<Longrightarrow> same_claims s s''"
  by (auto simp: same_claims_def)

lemma same_claims_entitled: "same_claims s s' \<Longrightarrow> GetThreadId s' t \<noteq> None \<Longrightarrow> entitled s' l t = entitled s l t"
  by (auto simp: same_claims_def entitled_def)

lemma dispatch_same_claims: "dispatch s = Some s' \<Longrightarrow> same_claims s s'"
  by (auto simp: dispatch_def FindNextToRun_def Run_def Let_def same_claims_def GetThreadId_def frames_of_def setStatus_def
      upd_thread_def split: list.splits option.splits if_splits)

lemma Sleep_same_claims: "Sleep s = Some s' \<Longrightarrow> same_claims s s'"
  using dispatch_same_claims [of "setStatus (currentThread s) BLOCKED s" s'] by (auto simp: Sleep_def same_claims_def)

lemma resume_cases:
  obtains (idle) "idling s" | (own) "\<not> idling s" "frames_of s (currentThread s) = []"
    | (P) i fs where "\<not> idling s" "frames_of s (currentThread s) = In_P i # fs"
    | (Acq) k fs where "\<not> idling s" "frames_of s (currentThread s) = In_Acquire k # fs"
    | (Wait) c k fs where "\<not> idling s" "frames_of s (currentThread s) = In_Wait c k # fs"
  by (cases "frames_of s (currentThread s)" rule: frame_weight.cases) auto

lemma resume_ids: "resume s = Some s' \<Longrightarrow> GetThreadId s' t \<noteq> None \<Longrightarrow> GetThreadId s t = GetThreadId s' t"
proof (induction s rule: resume.induct)
  case (1 s)
  show ?case
  proof (cases rule: resume_cases [of s])
    case (P i fs)
    show ?thesis
    proof (cases "sem_value (sems s i) = 0")
      case True
      with 1(5) P obtain s1 where s1: "Sleep (enqueue_sem i s) = Some s1" "resume s1 = Some s'"
        by (auto simp: resume.simps [of s] split: bind_splits)
      from Sleep_same_claims [OF s1(1)] show ?thesis
        using 1(1) [OF P refl True s1(1,2)] 1(6) by (auto simp: same_claims_def enqueue_sem_def)
    next
      case False
      then show ?thesis
        using 1(2) [OF P refl False] 1(5,6) P by (simp add: resume.simps [of s] take_sem_def)
    qed
  next
    case (Acq k fs)
    with 1(5) obtain tid where tid: "GetThreadId s (currentThread s) = Some tid"
      by (auto simp: resume.simps [of s] split: bind_splits)
    show ?thesis
      using 1(3) [OF Acq refl tid] 1(5,6) Acq tid by (simp add: resume.simps [of s])
  next
    case (Wait c k fs)
    then show ?thesis
      using 1(4) [OF Wait refl] 1(5,6) by (simp add: resume.simps [of s])
  qed (use 1(5) in \<open>simp_all add: resume.simps [of s]\<close>)
qed

text \<open>
  Continuing suspended threads keeps what every thread is entitled to: a thread leaves \<open>In_Acquire l\<close> as the
  owner of \<open>l\<close>, and only when the lock has no owner.
\<close>

lemma resume_entitled:
  "ginv s \<Longrightarrow> resume s = Some s' \<Longrightarrow> entitled s l t \<Longrightarrow> GetThreadId s' t \<noteq> None \<Longrightarrow> entitled s' l t"
proof (induction s rule: resume.induct)
  case (1 s)
  let ?c = "currentThread s"
  have live: "\<not> idling s \<Longrightarrow> status_of s ?c = Some RUNNING"
    using ginv_running [OF 1(5)] tinvD(8) [of "Some ?c" s ?c] by (simp add: kinv_def)
  show ?case
  proof (cases rule: resume_cases [of s])
    case (P i fs)
    show ?thesis
    proof (cases "sem_value (sems s i) = 0")
      case True
      obtain s1 where s1: "Sleep (enqueue_sem i s) = Some s1" "ginv s1"
        using resume_block [OF 1(5) P(1) _ True] P(2) by auto
      have r: "resume s1 = Some s'"
        using 1(6) s1(1) P True by (simp add: resume.simps [of s])
      have c: "same_claims s s1"
        using Sleep_same_claims [OF s1(1)] by (simp add: same_claims_def enqueue_sem_def)
      show ?thesis
        using 1(1) [OF P refl True s1(1) s1(2) r] 1(7,8) same_claims_entitled [OF c] resume_ids [OF r 1(8)] by simp
    next
      case False
      have "entitled (set_frames fs (take_sem i s)) l t"
        using 1(7) P(2) live [OF P(1)] by (auto simp: entitled_def take_sem_def)
      then show ?thesis
        using 1(2) [OF P refl False resume_take [OF 1(5) P False]] 1(6,8) P False by (simp add: resume.simps [of s])
    qed
  next
    case (Acq k fs)
    obtain tid where tid: "GetThreadId s ?c = Some tid"
      using live [OF Acq(1)] status_id [of s ?c] by auto
    note ra = resume_acquire [OF 1(5) Acq tid]
    have "GetThreadId s t \<noteq> Some (- 1)"
      using ginv_running [OF 1(5) Acq(1)] id_not_free [of s t] by (simp add: kinv_def)
    then have "entitled (set_frames fs (s\<lparr>lockOwner := (lockOwner s)(k := tid)\<rparr>)) l t"
      using 1(7) Acq(2) live [OF Acq(1)] ra tid by (auto simp: entitled_def)
    then show ?thesis
      using 1(3) [OF Acq refl tid] ra 1(6,8) Acq tid by (simp add: resume.simps [of s])
  next
    case (Wait c k fs)
    have "entitled (set_frames (In_P (LockSem k) # In_Acquire k # fs) s) l t"
      using 1(7) Wait(2) live [OF Wait(1)] by (auto simp: entitled_def)
    then show ?thesis
      using 1(4) [OF Wait refl resume_wait [OF 1(5) Wait]] 1(6,8) Wait by (simp add: resume.simps [of s])
  qed (use 1(6,7) in \<open>simp_all add: resume.simps [of s]\<close>)
qed

text \<open>
  How the other parts of the state change: no queue of a condition, a lock passes only to a thread that claims
  it, stacks are only worked off, and only a thread that has finished disappears.
\<close>

definition worked_off :: "frame list \<Rightarrow> frame list \<Rightarrow> bool" where
  "worked_off fs fs' \<longleftrightarrow> fs' = fs \<or> fs' = [] \<or> (\<exists>l. fs' = [In_Acquire l] \<and> claims l fs)
     \<or> (\<exists>c l. fs = [In_Wait c l] \<and> fs' = [In_P (LockSem l), In_Acquire l])"

definition evolves :: "Sys \<Rightarrow> Sys \<Rightarrow> bool" where
  "evolves s s' \<longleftrightarrow> waitQueue s' = waitQueue s
     \<and> (\<forall>l. lockOwner s' l \<noteq> lockOwner s l \<longrightarrow> (\<exists>u. claims l (frames_of s u) \<and> GetThreadId s' u = Some (lockOwner s' l)
          \<and> threadToBeDestroyed s' \<noteq> Some u \<and> frames_of s' u = []))
     \<and> (\<forall>t. GetThreadId s' t \<noteq> None \<longrightarrow> worked_off (frames_of s t) (frames_of s' t) \<and> GetThreadId s' t = GetThreadId s t)
     \<and> (\<forall>t. GetThreadId s t \<noteq> None \<longrightarrow> threadToBeDestroyed s \<noteq> Some t \<longrightarrow> GetThreadId s' t \<noteq> None \<and> threadToBeDestroyed s' \<noteq> Some t)"

lemma worked_off_simps [simp]:
  "worked_off fs fs" "worked_off [] fs \<longleftrightarrow> fs = []" "worked_off [In_Acquire l] fs \<longleftrightarrow> fs = [In_Acquire l] \<or> fs = []"
  "worked_off [In_P i, In_Acquire l] fs \<longleftrightarrow> fs = [In_P i, In_Acquire l] \<or> fs = [In_Acquire l] \<or> fs = []"
  "worked_off fs []"
  by (auto simp: worked_off_def)

lemma worked_off_claims: "worked_off fs fs' \<Longrightarrow> claims l fs' \<Longrightarrow> claims l fs"
  by (auto simp: worked_off_def)

lemma worked_off_trans:
  assumes "worked_off fs fs'" "worked_off fs' fs''"
  shows "worked_off fs fs''"
proof -
  consider "fs' = fs" | "fs' = []" | l where "fs' = [In_Acquire l]" "claims l fs"
    | c l where "fs = [In_Wait c l]" "fs' = [In_P (LockSem l), In_Acquire l]"
    using assms(1) unfolding worked_off_def by blast
  then show ?thesis
  proof cases
    case 3
    then show ?thesis
      using assms(2) by (auto simp: worked_off_def [of fs])
  next
    case 4
    then show ?thesis
      using assms(2) by (auto simp: worked_off_def [of "[In_Wait c l]"])
  qed (use assms(2) in auto)
qed

lemma evolvesD:
  assumes "evolves s s'"
  shows "waitQueue s' = waitQueue s"
    and "lockOwner s' l \<noteq> lockOwner s l \<Longrightarrow> \<exists>u. claims l (frames_of s u) \<and> GetThreadId s' u = Some (lockOwner s' l) \<and> threadToBeDestroyed s' \<noteq> Some u
      \<and> frames_of s' u = []"
    and "GetThreadId s' t \<noteq> None \<Longrightarrow> worked_off (frames_of s t) (frames_of s' t) \<and> GetThreadId s' t = GetThreadId s t"
    and "GetThreadId s t \<noteq> None \<Longrightarrow> threadToBeDestroyed s \<noteq> Some t \<Longrightarrow> GetThreadId s' t \<noteq> None \<and> threadToBeDestroyed s' \<noteq> Some t"
  using assms unfolding evolves_def by blast+

lemma evolves_trans:
  assumes 1: "evolves s s'" and 2: "evolves s' s''"
  shows "evolves s s''"
  unfolding evolves_def
proof (intro conjI allI impI)
  show "waitQueue s'' = waitQueue s"
    using evolvesD(1) [OF 1] evolvesD(1) [OF 2] by simp
next
  fix l assume ne: "lockOwner s'' l \<noteq> lockOwner s l"
  show "\<exists>u. claims l (frames_of s u) \<and> GetThreadId s'' u = Some (lockOwner s'' l) \<and> threadToBeDestroyed s'' \<noteq> Some u
      \<and> frames_of s'' u = []"
  proof (cases "lockOwner s'' l = lockOwner s' l")
    case True
    then obtain u where u: "claims l (frames_of s u)" "GetThreadId s' u = Some (lockOwner s' l)" "threadToBeDestroyed s' \<noteq> Some u"
        "frames_of s' u = []"
      using evolvesD(2) [OF 1, of l] ne by auto
    then show ?thesis
      using evolvesD(3,4) [OF 2, of u] True by auto
  next
    case False
    then obtain u where u: "claims l (frames_of s' u)" "GetThreadId s'' u = Some (lockOwner s'' l)" "threadToBeDestroyed s'' \<noteq> Some u"
        "frames_of s'' u = []"
      using evolvesD(2) [OF 2, of l] by auto
    then show ?thesis
      using evolvesD(3) [OF 2, of u] evolvesD(3) [OF 1, of u] worked_off_claims by fastforce
  qed
next
  fix t assume "GetThreadId s'' t \<noteq> None"
  then show "worked_off (frames_of s t) (frames_of s'' t)" "GetThreadId s'' t = GetThreadId s t"
    using evolvesD(3) [OF 1, of t] evolvesD(3) [OF 2, of t] worked_off_trans by auto
next
  fix t assume "GetThreadId s t \<noteq> None" "threadToBeDestroyed s \<noteq> Some t"
  then show "GetThreadId s'' t \<noteq> None" "threadToBeDestroyed s'' \<noteq> Some t"
    using evolvesD(4) [OF 1, of t] evolvesD(4) [OF 2, of t] by auto
qed

lemma dispatch_alive:
  assumes "dispatch s = Some s'"
  shows "waitQueue s' = waitQueue s"
    and "GetThreadId s t \<noteq> None \<Longrightarrow> threadToBeDestroyed s \<noteq> Some t \<Longrightarrow> GetThreadId s' t \<noteq> None \<and> threadToBeDestroyed s' \<noteq> Some t"
  using assms
  by (auto simp: dispatch_def FindNextToRun_def Run_def Let_def GetThreadId_def setStatus_def upd_thread_def
      split: list.splits option.splits if_splits)

lemma dispatch_evolves: "dispatch s = Some s' \<Longrightarrow> evolves s s'"
  using dispatch_same_claims [of s s'] dispatch_alive [of s s'] unfolding evolves_def same_claims_def
  by (metis worked_off_simps(1))

lemma evolves_cong:
  assumes "evolves s s'" "waitQueue s0 = waitQueue s" "lockOwner s0 = lockOwner s" "\<And>t. frames_of s0 t = frames_of s t"
    "\<And>t. GetThreadId s0 t = GetThreadId s t" "threadToBeDestroyed s0 = threadToBeDestroyed s"
  shows "evolves s0 s'"
  using assms(1) unfolding evolves_def assms(2-) .

lemma Sleep_evolves: "Sleep s = Some s' \<Longrightarrow> evolves s s'"
  by (rule evolves_cong [OF dispatch_evolves [of "setStatus (currentThread s) BLOCKED s" s']]) (simp_all add: Sleep_def)

lemma resume_evolves: "ginv s \<Longrightarrow> resume s = Some s' \<Longrightarrow> evolves s s'"
proof (induction s rule: resume.induct)
  case (1 s)
  let ?c = "currentThread s"
  have live: "\<not> idling s \<Longrightarrow> status_of s ?c = Some RUNNING \<and> threadToBeDestroyed s = None \<and> shape (frames_of s ?c)"
    using ginv_running [OF 1(5)] tinvD(8,10) [of "Some ?c" s ?c] by (simp add: kinv_def)
  show ?case
  proof (cases rule: resume_cases [of s])
    case (P i fs)
    show ?thesis
    proof (cases "sem_value (sems s i) = 0")
      case True
      obtain s1 where s1: "Sleep (enqueue_sem i s) = Some s1" "ginv s1"
        using resume_block [OF 1(5) P(1) _ True] P(2) by auto
      have r: "resume s1 = Some s'"
        using 1(6) s1(1) P True by (simp add: resume.simps [of s])
      have "evolves s s1"
        by (rule evolves_cong [OF Sleep_evolves [OF s1(1)]]) (simp_all add: enqueue_sem_def)
      then show ?thesis
        using 1(1) [OF P refl True s1(1) s1(2) r] evolves_trans by blast
    next
      case False
      have "fs = [] \<or> (\<exists>l. fs = [In_Acquire l])"
        using live [OF P(1)] P(2) by (cases "In_P i # fs" rule: shape.cases) auto
      then have "evolves s (set_frames fs (take_sem i s))"
        using live [OF P(1)] P(2) by (auto simp: evolves_def take_sem_def)
      then show ?thesis
        using 1(2) [OF P refl False resume_take [OF 1(5) P False]] 1(6) P False evolves_trans by (auto simp: resume.simps [of s])
    qed
  next
    case (Acq k fs)
    obtain tid where tid: "GetThreadId s ?c = Some tid"
      using live [OF Acq(1)] status_id [of s ?c] by auto
    note ra = resume_acquire [OF 1(5) Acq tid]
    have "fs = []"
      using live [OF Acq(1)] Acq(2) by (cases "In_Acquire k # fs" rule: shape.cases) auto
    then have "evolves s (set_frames fs (s\<lparr>lockOwner := (lockOwner s)(k := tid)\<rparr>))"
      using live [OF Acq(1)] Acq(2) tid by (auto simp: evolves_def intro!: exI [of _ ?c])
    then show ?thesis
      using 1(3) [OF Acq refl tid] ra 1(6) Acq tid evolves_trans by (auto simp: resume.simps [of s])
  next
    case (Wait c k fs)
    have "fs = []"
      using live [OF Wait(1)] Wait(2) by (cases "In_Wait c k # fs" rule: shape.cases) auto
    then have "evolves s (set_frames (In_P (LockSem k) # In_Acquire k # fs) s)"
      using live [OF Wait(1)] Wait(2) by (auto simp: evolves_def worked_off_def)
    then show ?thesis
      using 1(4) [OF Wait refl resume_wait [OF 1(5) Wait]] 1(6) Wait evolves_trans by (auto simp: resume.simps [of s])
  qed (use 1(6) in \<open>simp_all add: resume.simps [of s] evolves_def\<close>)
qed

subsection \<open>Calls\<close>

text \<open>What a call takes from, and gives to, the thread that makes it.\<close>

fun gives_up :: "kcall \<Rightarrow> nat \<Rightarrow> bool" where
  "gives_up (Call_Release k) l \<longleftrightarrow> k = l"
| "gives_up _ l \<longleftrightarrow> False"

fun gains :: "kcall \<Rightarrow> nat \<Rightarrow> bool" where
  "gains (Call_Acquire k) l \<longleftrightarrow> k = l"
| "gains (Call_Wait c k) l \<longleftrightarrow> k = l"
| "gains _ l \<longleftrightarrow> False"

lemma enter_entitled:
  assumes r: "at_rest s" "\<not> idling s" and fs: "shape fs" "\<And>l. fs \<noteq> [In_Acquire l]" and s': "resume (push fs s) = Some s'"
    and t: "GetThreadId s' t \<noteq> None" "entitled s l t \<or> t = currentThread s \<and> claims l fs"
  shows "entitled s' l t"
proof -
  note D = at_restD [OF r]
  have "ginv (push fs s)"
    unfolding push_def D(2) append_Nil2 using D(1,2) r(2) fs by (intro ginv_enter) simp_all
  moreover have "entitled (push fs s) l t"
    using t(2) D(2,8) by (auto simp: entitled_def push_def)
  ultimately show ?thesis
    using resume_entitled [OF _ s' _ t(1)] by blast
qed


lemma owner_unique:
  assumes "at_rest s" "\<not> idling s" "isHeldByCurrentThread l s" "GetThreadId s t = Some (lockOwner s l)"
  shows "t = currentThread s"
  using assms at_restD(6) [OF assms(1,2)] by (auto simp: ids_ok_def isHeldByCurrentThread_def)

lemma Sleep_resume_entitled:
  assumes "Sleep s = Some s1" "ginv s1" "resume s1 = Some s'" "GetThreadId s' t \<noteq> None" "entitled s l t"
  shows "entitled s' l t"
  using resume_entitled [OF assms(2,3) _ assms(4)] same_claims_entitled [OF Sleep_same_claims [OF assms(1)], of t l]
    resume_ids [OF assms(3,4)] assms(4,5) by simp

lemma wait_entitled:
  assumes r: "at_rest s" "\<not> idling s" and h: "isHeldByCurrentThread k s" and w: "Wait c k s = Some s'"
    and t: "GetThreadId s' t \<noteq> None" "entitled s l t \<or> t = currentThread s \<and> l = k"
  shows "entitled s' l t"
proof -
  define s1 where "s1 = V (LockSem k) (s\<lparr>lockOwner := (lockOwner s)(k := - 1)\<rparr>)"
  define s2 where "s2 = s1\<lparr>waitQueue := (waitQueue s1)(c := waitQueue s1 c @ [currentThread s1])\<rparr>"
  obtain s4 where s4: "Sleep (push [In_Wait c k] s2) = Some s4" "ginv s4" "Wait c k s = resume s4"
    using wait_ginv [OF r h, of c] unfolding s1_def s2_def by blast
  note D = at_restD [OF r]
  have F: "frames_of (push [In_Wait c k] s2) x = (if x = currentThread s then [In_Wait c k] else frames_of s x)"
    "GetThreadId (push [In_Wait c k] s2) x = GetThreadId s x" "lockOwner (push [In_Wait c k] s2) = (lockOwner s)(k := - 1)" for x
  proof -
    have "frames_of s2 (currentThread s) = []" "status_of s2 (currentThread s) \<noteq> None"
      using D(2,8) status_id [of s2 "currentThread s"] status_id [of s "currentThread s"] by (simp_all add: s2_def s1_def)
    then show "frames_of (push [In_Wait c k] s2) x = (if x = currentThread s then [In_Wait c k] else frames_of s x)"
      by (auto simp: push_def s2_def s1_def)
  qed (simp_all add: push_def s2_def s1_def)
  have "entitled (push [In_Wait c k] s2) l t"
    using t(2) owner_unique [OF r h, of t] D(2) by (auto simp: entitled_def F)
  then show ?thesis
    using Sleep_resume_entitled [OF s4(1,2)] w t(1) s4(3) by simp
qed

lemma wake_all_simps [simp]:
  "frames_of (wake_all ts s) t = frames_of s t" "GetThreadId (wake_all ts s) t = GetThreadId s t"
  "lockOwner (wake_all ts s) = lockOwner s"
  by (induction ts arbitrary: s) simp_all

lemma kernel_call_entitled:
  assumes r: "at_rest s" "\<not> idling s" and ok: "call_ok c s" and s': "kernel_call c s = Some s'" and t: "GetThreadId s' t \<noteq> None"
    and e: "entitled s l t \<and> \<not> (t = currentThread s \<and> gives_up c l) \<or> t = currentThread s \<and> gains c l"
  shows "entitled s' l t"
proof (cases c)
  case (Call_P n)
  then show ?thesis
    using enter_entitled [OF r, of "[In_P (Sem n)]"] s' t e by (simp add: P_def)
next
  case (Call_V n)
  then show ?thesis
    using s' e by (auto simp: entitled_def)
next
  case (Call_Acquire k)
  then show ?thesis
    using enter_entitled [OF r, of "[In_P (LockSem k), In_Acquire k]"] s' t e by (auto simp: Acquire_def)
next
  case (Call_Release k)
  then show ?thesis
    using s' e ok owner_unique [OF r, of k t] at_restD(2) [OF r] by (auto simp: Release_def entitled_def)
next
  case (Call_Wait cd k)
  then show ?thesis
    using wait_entitled [OF r, of k cd] s' e ok t by auto
next
  case (Call_Signal cd k)
  then show ?thesis
    using s' e by (auto simp: Signal_def entitled_def split: if_splits list.splits)
next
  case (Call_Broadcast cd k)
  then show ?thesis
    using s' e by (auto simp: Broadcast_def entitled_def split: if_splits)
next
  case Call_Yield
  obtain s1 where s1: "Yield s = Some s1" "ginv s1" "s1 = s \<or> dispatch (ReadyToRun (currentThread s) s) = Some s1"
    using yield_ginv [OF r] by blast
  have r1: "resume s1 = Some s'"
    using s' s1(1) Call_Yield by simp
  have "same_claims s s1"
    using s1(3) dispatch_same_claims [of "ReadyToRun (currentThread s) s" s1] by (auto simp: same_claims_def)
  then show ?thesis
    using resume_entitled [OF s1(2) r1 _ t] e Call_Yield same_claims_entitled [of s s1 t l] resume_ids [OF r1 t] t by simp
next
  case (Call_Fork t')
  then have s: "threads s t' = None" "frames_of s t' = []" "GetThreadId s t' = None"
    using ok by (simp_all add: frames_of_def GetThreadId_def)
  then have "t \<noteq> t'" "entitled s l t"
    using e Call_Fork by (auto simp: entitled_def)
  moreover obtain tid m where "s' = ReadyToRun t' (s\<lparr>tidMap := m, lastId := tid + 1,
      threads := (threads s)(t' \<mapsto> \<lparr>threadId = tid, tstatus = JUST_CREATED, frames = []\<rparr>)\<rparr>)"
    using s' Call_Fork by (auto simp: Thread_new_def Fork_def GetNewThreadId_def split: bind_splits)
  ultimately show ?thesis
    by (simp add: entitled_def) (simp add: frames_of_def GetThreadId_def)
next
  case Call_Finish
  obtain s1 where s1: "Finish s = Some s1" "ginv s1" "Sleep (s\<lparr>threadToBeDestroyed := Some (currentThread s)\<rparr>) = Some s1"
    using finish_ginv [OF r] by blast
  have "entitled (s\<lparr>threadToBeDestroyed := Some (currentThread s)\<rparr>) l t"
    using e Call_Finish by (simp add: entitled_def)
  then show ?thesis
    using Sleep_resume_entitled [OF s1(3,2) _ t] s' s1(1) Call_Finish by simp
qed

lemma interrupt_entitled:
  assumes r: "at_rest s" and s': "interrupt_V n s = Some s'" and t: "GetThreadId s' t \<noteq> None" "entitled s l t"
  shows "entitled s' l t"
proof (cases "idling s")
  case False
  then show ?thesis
    using s' t by (auto simp: interrupt_V_def entitled_def)
next
  case True
  have "kinv None (V (Sem n) s)"
    using V_inv [of None s n] r True by (simp add: at_rest_def ginv_def running_def)
  then obtain s1 where s1: "dispatch (V (Sem n) s) = Some s1" "ginv s1"
    using dispatch_inv [of "V (Sem n) s"] by (auto simp: ginv_def)
  have r1: "resume s1 = Some s'"
    using s' s1(1) True by (simp add: interrupt_V_def Let_def)
  have "entitled (V (Sem n) s) l t"
    using t(2) by (auto simp: entitled_def)
  then show ?thesis
    using resume_entitled [OF s1(2) r1 _ t(1)] same_claims_entitled [OF dispatch_same_claims [OF s1(1)], of t l]
      resume_ids [OF r1 t(1)] t(1) by simp
qed

text \<open>The thread that runs its own code owns every lock it is entitled to.\<close>

lemma entitled_running:
  assumes "at_rest s" "\<not> idling s" "entitled s l (currentThread s)"
  shows "isHeldByCurrentThread l s"
  using assms at_restD(2) [OF assms(1,2)] by (simp add: entitled_def isHeldByCurrentThread_def)


text \<open>
  A call has an immediate effect, after which the kernel runs until a thread is back in its own code: the stack
  that the caller enters, the locks that it gives up, the queues, and the thread it creates or that ends.
\<close>

fun entry :: "kcall \<Rightarrow> frame list" where
  "entry (Call_P n) = [In_P (Sem n)]"
| "entry (Call_Acquire k) = [In_P (LockSem k), In_Acquire k]"
| "entry (Call_Wait c k) = [In_Wait c k]"
| "entry _ = []"

fun owners_after :: "kcall \<Rightarrow> (nat \<Rightarrow> int) \<Rightarrow> nat \<Rightarrow> int" where
  "owners_after (Call_Release k) ow = ow(k := - 1)"
| "owners_after (Call_Wait c k) ow = ow(k := - 1)"
| "owners_after _ ow = ow"

fun queues_after :: "kcall \<Rightarrow> nat \<Rightarrow> (nat \<Rightarrow> nat list) \<Rightarrow> nat \<Rightarrow> nat list" where
  "queues_after (Call_Wait c k) t q = q(c := q c @ [t])"
| "queues_after (Call_Signal c k) t q = q(c := tl (q c))"
| "queues_after (Call_Broadcast c k) t q = q(c := [])"
| "queues_after _ t q = q"

definition immediate :: "kcall \<Rightarrow> Sys \<Rightarrow> Sys \<Rightarrow> bool" where
  "immediate c s s1 \<longleftrightarrow> (\<forall>t. frames_of s1 t = (if t = currentThread s then entry c else frames_of s t))
     \<and> lockOwner s1 = owners_after c (lockOwner s) \<and> waitQueue s1 = queues_after c (currentThread s) (waitQueue s)
     \<and> (\<forall>t. c \<noteq> Call_Fork t \<longrightarrow> GetThreadId s1 t = GetThreadId s t)
     \<and> threadToBeDestroyed s1 = (if c = Call_Finish then Some (currentThread s) else None)"

lemma immediateD:
  assumes "immediate c s s1"
  shows "frames_of s1 t = (if t = currentThread s then entry c else frames_of s t)"
    "lockOwner s1 = owners_after c (lockOwner s)" "waitQueue s1 = queues_after c (currentThread s) (waitQueue s)"
    "c \<noteq> Call_Fork t \<Longrightarrow> GetThreadId s1 t = GetThreadId s t"
    "threadToBeDestroyed s1 = (if c = Call_Finish then Some (currentThread s) else None)"
  using assms unfolding immediate_def by blast+

lemma kernel_call_effect:
  assumes r: "at_rest s" "\<not> idling s" and ok: "call_ok c s" and s': "kernel_call c s = Some s'"
  shows "\<exists>s1. immediate c s s1 \<and> evolves s1 s'"
proof -
  note D = at_restD [OF r]
  have push: "\<exists>s1. immediate c s s1 \<and> evolves s1 s'"
    if "resume (push (entry c) s) = Some s'" "shape (entry c)" "\<And>l. entry c \<noteq> [In_Acquire l]" "owners_after c (lockOwner s) = lockOwner s"
      "queues_after c (currentThread s) (waitQueue s) = waitQueue s" "c \<noteq> Call_Finish"
  proof (intro exI conjI)
    show "immediate c s (push (entry c) s)"
      using that D(2,7,8) by (auto simp: immediate_def push_def)
    have "ginv (push (entry c) s)"
      unfolding push_def D(2) append_Nil2 using D(1,2) r(2) that(2,3) by (intro ginv_enter) simp_all
    then show "evolves (push (entry c) s) s'"
      using that(1) by (rule resume_evolves)
  qed
  have now: "\<exists>s1. immediate c s s1 \<and> evolves s1 s'" if "immediate c s s'"
    using that by (auto simp: evolves_def)
  show ?thesis
  proof (cases c)
    case (Call_P n)
    then show ?thesis
      using push s' by (simp add: P_def)
  next
    case (Call_V n)
    then show ?thesis
      using s' D(2,7) by (intro now) (auto simp: immediate_def)
  next
    case (Call_Acquire k)
    then show ?thesis
      using push s' by (simp add: Acquire_def)
  next
    case (Call_Release k)
    then show ?thesis
      using s' ok D(2,7) by (intro now) (auto simp: immediate_def Release_def)
  next
    case (Call_Wait cd k)
    define s1 where "s1 = V (LockSem k) (s\<lparr>lockOwner := (lockOwner s)(k := - 1)\<rparr>)"
    define s2 where "s2 = s1\<lparr>waitQueue := (waitQueue s1)(cd := waitQueue s1 cd @ [currentThread s1])\<rparr>"
    obtain s4 where s4: "Sleep (push [In_Wait cd k] s2) = Some s4" "ginv s4" "Wait cd k s = resume s4"
      using wait_ginv [OF r, of k cd] ok Call_Wait unfolding s1_def s2_def by auto
    have "frames_of s2 (currentThread s) = []" "status_of s2 (currentThread s) \<noteq> None"
      using D(2,8) status_id [of s2 "currentThread s"] status_id [of s "currentThread s"] by (simp_all add: s2_def s1_def)
    then have "immediate c s (push [In_Wait cd k] s2)"
      using D(7) by (auto simp: immediate_def Call_Wait push_def s2_def s1_def)
    then show ?thesis
      using evolves_trans [OF Sleep_evolves [OF s4(1)] resume_evolves [OF s4(2)]] s4(3) s' Call_Wait by auto
  next
    case (Call_Signal cd k)
    then show ?thesis
      using s' ok D(2,7) by (intro now) (cases "waitQueue s cd"; auto simp: immediate_def Signal_def fun_upd_idem)
  next
    case (Call_Broadcast cd k)
    have "threadToBeDestroyed (wake_all ts x) = threadToBeDestroyed x \<and> waitQueue (wake_all ts x) = waitQueue x" for ts x
      by (induction ts arbitrary: x) simp_all
    with Call_Broadcast show ?thesis
      using s' ok D(2,7) by (intro now) (auto simp: immediate_def Broadcast_def)
  next
    case Call_Yield
    obtain s1 where s1: "Yield s = Some s1" "ginv s1" "s1 = s \<or> dispatch (ReadyToRun (currentThread s) s) = Some s1"
      using yield_ginv [OF r] by blast
    have "evolves s s1"
      using s1(3) evolves_cong [OF dispatch_evolves [of "ReadyToRun (currentThread s) s" s1], of s] by (auto simp: evolves_def [of s s])
    then have "evolves s s'"
      using evolves_trans resume_evolves [OF s1(2)] s' s1(1) Call_Yield by auto
    moreover have "immediate c s s"
      using D(2,7) by (auto simp: immediate_def Call_Yield)
    ultimately show ?thesis
      by blast
  next
    case (Call_Fork t')
    then obtain tid m where s'': "s' = ReadyToRun t' (s\<lparr>tidMap := m, lastId := tid + 1,
        threads := (threads s)(t' \<mapsto> \<lparr>threadId = tid, tstatus = JUST_CREATED, frames = []\<rparr>)\<rparr>)"
      using s' by (auto simp: Thread_new_def Fork_def GetNewThreadId_def split: bind_splits)
    have "frames_of s' t = frames_of s t" "t \<noteq> t' \<Longrightarrow> GetThreadId s' t = GetThreadId s t" for t
      using ok Call_Fork unfolding s'' by (simp_all) (auto simp: frames_of_def GetThreadId_def)
    then show ?thesis
      using D(2,7) Call_Fork by (intro now) (auto simp: immediate_def s'')
  next
    case Call_Finish
    obtain s1 where s1: "Finish s = Some s1" "ginv s1" "Sleep (s\<lparr>threadToBeDestroyed := Some (currentThread s)\<rparr>) = Some s1"
      using finish_ginv [OF r] by blast
    have "immediate c s (s\<lparr>threadToBeDestroyed := Some (currentThread s)\<rparr>)"
      using D(2) by (auto simp: immediate_def Call_Finish)
    then show ?thesis
      using evolves_trans [OF Sleep_evolves [OF s1(3)] resume_evolves [OF s1(2)]] s1(1) s' Call_Finish by auto
  qed
qed

lemma interrupt_evolves:
  assumes r: "at_rest s" and s': "interrupt_V n s = Some s'"
  shows "evolves s s'"
proof (cases "idling s")
  case False
  then show ?thesis
    using s' by (auto simp: interrupt_V_def evolves_def)
next
  case True
  have "kinv None (V (Sem n) s)"
    using V_inv [of None s n] r True by (simp add: at_rest_def ginv_def running_def)
  then obtain s1 where s1: "dispatch (V (Sem n) s) = Some s1" "ginv s1"
    using dispatch_inv [of "V (Sem n) s"] by (auto simp: ginv_def)
  have "evolves s s1"
    by (rule evolves_cong [OF dispatch_evolves [OF s1(1)]]) simp_all
  then show ?thesis
    using evolves_trans resume_evolves [OF s1(2)] s' s1(1) True by (auto simp: interrupt_V_def Let_def)
qed

lemma kernel_call_ids:
  assumes "at_rest s" "\<not> idling s" "call_ok c s" "kernel_call c s = Some s'" "GetThreadId s' t \<noteq> None"
  shows "GetThreadId s' t = GetThreadId s t \<or> c = Call_Fork t"
  using kernel_call_effect [OF assms(1-4)] evolvesD(3) [of _ s' t] immediateD(4) [of c s _ t] assms(5) by metis

text \<open>The owner of a lock stays its owner until it releases it or waits.\<close>

lemma kernel_call_owner:
  assumes r: "at_rest s" "\<not> idling s" and ok: "call_ok c s" and s': "kernel_call c s = Some s'" and t: "GetThreadId s' t \<noteq> None"
    and o: "GetThreadId s t = Some (lockOwner s l)" "\<not> (t = currentThread s \<and> (c = Call_Release l \<or> (\<exists>cd. c = Call_Wait cd l)))"
  shows "GetThreadId s' t = Some (lockOwner s' l)"
proof -
  have "lockOwner s l \<noteq> - 1"
    using id_not_free [OF at_restD(6) [OF r], of t] o(1) by auto
  then have "lockOwner s' l = lockOwner s l"
    using kernel_call_ok [OF r ok] s' o owner_unique [OF r _ o(1)] by auto
  moreover have "c \<noteq> Call_Fork t"
    using o(1) ok by (auto simp: GetThreadId_def)
  ultimately show ?thesis
    using kernel_call_ids [OF r ok s' t] o(1) by simp
qed

lemma interrupt_owner:
  assumes r: "at_rest s" and s': "interrupt_V n s = Some s'" and t: "GetThreadId s' t \<noteq> None" and o: "GetThreadId s t = Some (lockOwner s l)"
  shows "GetThreadId s' t = Some (lockOwner s' l)"
proof -
  have "GetThreadId s' t = GetThreadId s t"
    using evolvesD(3) [OF interrupt_evolves [OF r s']] t by simp
  moreover have "ids_ok s"
    using r by (simp add: at_rest_def ginv_def kinv_def)
  then have "lockOwner s' l = lockOwner s l"
    using interrupt_ok [OF r, of n] s' id_not_free [of s t] o by (auto simp: owners_kept_def)
  ultimately show ?thesis
    using o by simp
qed

end
