(* ===== verification/SynchList.thy ===== *)
theory SynchList
  imports Monitors
begin

text \<open>
  The synchronized list: src/code/threads/synchlist.cc and synchlist.h. Its operations are cut into the statements
  between which a thread can lose the processor, and run by any number of threads of the kernel of
  \<open>Threads\<close>. The list itself is the sequence that \<open>LinkedList\<close> implements.
\<close>

section \<open>Model\<close>

text \<open>
  An operation of the list begins with \<open>Acquire\<close>; \<open>pc\<close> says which statement a thread executes next. \<open>Entered op\<close>
  is the first one after \<open>Acquire\<close>, for \<open>Remove\<close> the test of the loop, \<open>Taking\<close> is \<open>list->Remove()\<close> with the assertion
  after it, \<open>To_signal\<close> is \<open>Signal\<close>, and \<open>Leaving a\<close> is \<open>Release\<close>, after which the operation returns \<open>a\<close> (the items that
  \<open>Mapcar\<close> has applied its function to are its \<open>a\<close>). A thread is at \<open>Outside\<close> when it runs other code.
  \<open>appended\<close> and \<open>removed\<close> record what has been put into and taken out of the list.
\<close>

datatype 'a list_call = SL_Append 'a | SL_Remove | SL_RemoveNoWaiting | SL_IsEmpty | SL_Mapcar

datatype 'a answer = Void | Item 'a | NULL_item | Flag bool | Applied_to "'a list"

datatype 'a position = Outside | Entered "'a list_call" | Taking | To_signal | Leaving "'a answer"

record 'a SynchList =
  sys :: Sys
  items :: "'a list"
  lock :: nat
  listEmpty :: nat
  pc :: "nat \<Rightarrow> 'a position"
  appended :: "'a list"
  removed :: "'a list"

definition goto :: "'a position \<Rightarrow> 'a SynchList \<Rightarrow> 'a SynchList" where
  "goto q m = m\<lparr>pc := (pc m)(currentThread (sys m) := q)\<rparr>"

text \<open>A call of the kernel, after which the thread that has made it continues at \<open>q\<close>.\<close>

definition sl_kernel :: "kcall \<Rightarrow> 'a position \<Rightarrow> 'a SynchList \<Rightarrow> 'a SynchList option" where
  "sl_kernel c q m = do { s \<leftarrow> kernel_call c (sys m); Some ((goto q m)\<lparr>sys := s\<rparr>) }"

definition sl_enter :: "'a list_call \<Rightarrow> 'a SynchList \<Rightarrow> 'a SynchList option" where
  "sl_enter op m = sl_kernel (Call_Acquire (lock m)) (Entered op) m"

definition sl_take :: "'a SynchList \<Rightarrow> 'a SynchList option" where
  "sl_take m = (case items m of [] \<Rightarrow> None | x # xs \<Rightarrow> Some (goto (Leaving (Item x)) (m\<lparr>items := xs, removed := removed m @ [x]\<rparr>)))"

text \<open>The next statement of the running thread.\<close>

definition sl_statement :: "'a SynchList \<Rightarrow> 'a SynchList option" where
  "sl_statement m = (case pc m (currentThread (sys m)) of
       Outside \<Rightarrow> None
     | Entered (SL_Append x) \<Rightarrow> Some (goto To_signal (m\<lparr>items := items m @ [x], appended := appended m @ [x]\<rparr>))
     | Entered SL_Remove \<Rightarrow> if items m = [] then sl_kernel (Call_Wait (listEmpty m) (lock m)) (Entered SL_Remove) m
         else Some (goto Taking m)
     | Entered SL_RemoveNoWaiting \<Rightarrow> if items m = [] then Some (goto (Leaving NULL_item) m) else sl_take m
     | Entered SL_IsEmpty \<Rightarrow> Some (goto (Leaving (Flag (items m = []))) m)
     | Entered SL_Mapcar \<Rightarrow> Some (goto (Leaving (Applied_to (items m))) m)
     | Taking \<Rightarrow> sl_take m
     | To_signal \<Rightarrow> sl_kernel (Call_Signal (listEmpty m) (lock m)) (Leaving Void) m
     | Leaving a \<Rightarrow> sl_kernel (Call_Release (lock m)) Outside m)"

text \<open>
  Other code uses neither the lock nor the condition of the list; any thread may lose the processor to another
  one (\<open>Yield\<close>, from the timer), and devices signal their semaphores.
\<close>

fun foreign :: "nat \<Rightarrow> nat \<Rightarrow> kcall \<Rightarrow> bool" where
  "foreign l d (Call_Acquire k) \<longleftrightarrow> k \<noteq> l"
| "foreign l d (Call_Release k) \<longleftrightarrow> k \<noteq> l"
| "foreign l d (Call_Wait c k) \<longleftrightarrow> k \<noteq> l \<and> c \<noteq> d"
| "foreign l d (Call_Signal c k) \<longleftrightarrow> k \<noteq> l \<and> c \<noteq> d"
| "foreign l d (Call_Broadcast c k) \<longleftrightarrow> k \<noteq> l \<and> c \<noteq> d"
| "foreign l d _ \<longleftrightarrow> True"

inductive sl_step :: "'a SynchList \<Rightarrow> 'a SynchList \<Rightarrow> bool" where
  enter: "\<not> idling (sys m) \<Longrightarrow> pc m (currentThread (sys m)) = Outside \<Longrightarrow> sl_enter op m = Some m' \<Longrightarrow> sl_step m m'"
| statement: "\<not> idling (sys m) \<Longrightarrow> sl_statement m = Some m' \<Longrightarrow> sl_step m m'"
| other: "\<not> idling (sys m) \<Longrightarrow> pc m (currentThread (sys m)) = Outside \<Longrightarrow> foreign (lock m) (listEmpty m) c \<Longrightarrow> call_ok c (sys m) \<Longrightarrow>
    kernel_call c (sys m) = Some s \<Longrightarrow> sl_step m (m\<lparr>sys := s\<rparr>)"
| preempt: "\<not> idling (sys m) \<Longrightarrow> kernel_call Call_Yield (sys m) = Some s \<Longrightarrow> sl_step m (m\<lparr>sys := s\<rparr>)"
| device: "interrupt_V n (sys m) = Some s \<Longrightarrow> sl_step m (m\<lparr>sys := s\<rparr>)"

definition SynchList_new :: "Sys \<Rightarrow> nat \<Rightarrow> nat \<Rightarrow> 'a SynchList" where
  "SynchList_new s l c = \<lparr>sys = s, items = [], lock = l, listEmpty = c, pc = (\<lambda>t. Outside), appended = [], removed = []\<rparr>"


subsection \<open>Who is inside\<close>

text \<open>
  The threads inside an operation and the lock: a thread inside owns the lock, or waits for it, or waits on the
  condition; the owner is inside; threads outside have nothing to do with either.
\<close>

definition inside_ok :: "Sys \<Rightarrow> nat \<Rightarrow> nat \<Rightarrow> 'a position \<Rightarrow> nat \<Rightarrow> bool" where
  "inside_ok s l c q t \<longleftrightarrow> GetThreadId s t \<noteq> None \<and> threadToBeDestroyed s \<noteq> Some t
     \<and> (frames_of s t = [] \<and> GetThreadId s t = Some (lockOwner s l)
        \<or> GetThreadId s t \<noteq> Some (lockOwner s l) \<and> (frames_of s t = [In_P (LockSem l), In_Acquire l] \<and> (\<exists>op. q = Entered op)
          \<or> frames_of s t = [In_Wait c l] \<and> q = Entered SL_Remove))"

definition touches :: "nat \<Rightarrow> nat \<Rightarrow> frame list \<Rightarrow> bool" where
  "touches l c fs \<longleftrightarrow> claims l fs \<or> (\<exists>k. In_Wait c k \<in> set fs)"

definition monitor :: "Sys \<Rightarrow> nat \<Rightarrow> nat \<Rightarrow> (nat \<Rightarrow> 'a position) \<Rightarrow> bool" where
  "monitor s l c p \<longleftrightarrow> at_rest s \<and> (\<forall>t. if p t = Outside then \<not> touches l c (frames_of s t) else inside_ok s l c (p t) t)
     \<and> (lockOwner s l \<noteq> - 1 \<longrightarrow> (\<exists>u. p u \<noteq> Outside \<and> GetThreadId s u = Some (lockOwner s l)))"

lemma touches_simps [simp]:
  "\<not> touches l c []" "touches l c (In_P i # fs) \<longleftrightarrow> touches l c fs" "touches l c (In_Acquire k # fs) \<longleftrightarrow> l = k \<or> touches l c fs"
  "touches l c (In_Wait d k # fs) \<longleftrightarrow> l = k \<or> c = d \<or> touches l c fs"
  by (auto simp: touches_def)

lemma touches_claims: "claims l fs \<Longrightarrow> touches l c fs"
  by (simp add: touches_def)

lemma worked_off_touches: "worked_off fs fs' \<Longrightarrow> touches l c fs' \<Longrightarrow> touches l c fs"
  by (auto simp: worked_off_def intro: touches_claims)

lemma monitorD:
  assumes "monitor s l c p"
  shows "at_rest s" "p t = Outside \<Longrightarrow> \<not> touches l c (frames_of s t)" "p t \<noteq> Outside \<Longrightarrow> inside_ok s l c (p t) t"
    "lockOwner s l \<noteq> - 1 \<Longrightarrow> \<exists>u. p u \<noteq> Outside \<and> GetThreadId s u = Some (lockOwner s l)"
  using assms unfolding monitor_def by (auto dest: spec [of _ t] split: if_splits)

lemma at_rest_acquire: "at_rest s \<Longrightarrow> frames_of s t \<noteq> [In_Acquire l]"
  using tinvD(11) [of "running s" s t l] by (auto simp: at_rest_def ginv_def kinv_def running_def split: if_splits)

lemma at_rest_ids: "at_rest s \<Longrightarrow> GetThreadId s t = Some i \<Longrightarrow> GetThreadId s u = Some i \<Longrightarrow> t = u"
  unfolding at_rest_def ginv_def kinv_def ids_ok_def by blast

lemma inside_settles:
  assumes ev: "evolves s1 s'" and r: "at_rest s'" and t: "GetThreadId s1 t \<noteq> None" "threadToBeDestroyed s1 \<noteq> Some t"
    and fs: "frames_of s1 t = [] \<or> frames_of s1 t = [In_P (LockSem l), In_Acquire l] \<and> (\<exists>op. q = Entered op)
      \<or> frames_of s1 t = [In_Wait c l] \<and> q = Entered SL_Remove"
    and e: "GetThreadId s' t \<noteq> None \<Longrightarrow> entitled s' l t"
    and no: "frames_of s1 t \<noteq> [] \<Longrightarrow> GetThreadId s1 t \<noteq> Some (lockOwner s1 l)"
  shows "inside_ok s' l c q t"
proof -
  have a: "GetThreadId s' t \<noteq> None" "threadToBeDestroyed s' \<noteq> Some t" "worked_off (frames_of s1 t) (frames_of s' t)"
    using evolvesD(4) [OF ev t] evolvesD(3) [OF ev, of t] by blast+
  have "frames_of s' t = [] \<or> frames_of s' t = [In_P (LockSem l), In_Acquire l] \<and> (\<exists>op. q = Entered op)
      \<or> frames_of s' t = [In_Wait c l] \<and> q = Entered SL_Remove"
    using fs a(3) at_rest_acquire [OF r, of t] by (auto simp: worked_off_def [of "[In_Wait c l]"])
  moreover have "frames_of s' t = []" if own: "GetThreadId s' t = Some (lockOwner s' l)"
  proof (cases "lockOwner s' l = lockOwner s1 l")
    case True
    then show ?thesis
      using no own evolvesD(3) [OF ev a(1)] a(3) by (cases "frames_of s1 t = []") auto
  next
    case False
    then obtain u where "GetThreadId s' u = Some (lockOwner s' l)" "frames_of s' u = []"
      using evolvesD(2) [OF ev] by blast
    then show ?thesis
      using at_rest_ids [OF r own, of u] by simp
  qed
  ultimately show ?thesis
    using a e by (auto simp: inside_ok_def entitled_def)
qed

lemma inside_entitled: "inside_ok s l c q t \<Longrightarrow> entitled s l t"
  by (auto simp: inside_ok_def entitled_def)

lemma monitor_running:
  assumes "monitor s l c p" "\<not> idling s" "p (currentThread s) \<noteq> Outside"
  shows "isHeldByCurrentThread l s" "call_ok (Call_Signal c l) s" "call_ok (Call_Wait c l) s" "call_ok (Call_Release l) s"
  using entitled_running [OF monitorD(1) [OF assms(1)] assms(2) inside_entitled [OF monitorD(3) [OF assms(1,3)]]] by simp_all

text \<open>A call of the running thread, which is then at \<open>q\<close>.\<close>

lemma monitor_call:
  fixes s s' :: Sys
  defines "t \<equiv> currentThread s"
  assumes m: "monitor s l c p" and i: "\<not> idling s" and ok: "call_ok k s" and s': "kernel_call k s = Some s'"
    and fin: "k = Call_Finish \<Longrightarrow> q = Outside"
    and inside: "q \<noteq> Outside \<Longrightarrow> (p t \<noteq> Outside \<and> \<not> gives_up k l \<or> gains k l)
      \<and> (entry k = [] \<or> entry k = [In_P (LockSem l), In_Acquire l] \<and> p t = Outside \<and> (\<exists>op. q = Entered op) \<or> entry k = [In_Wait c l] \<and> q = Entered SL_Remove)"
    and outside: "q = Outside \<Longrightarrow> \<not> touches l c (entry k) \<and> (p t = Outside \<or> k = Call_Release l)"
  shows "monitor s' l c (p(t := q))"
proof -
  have r: "at_rest s"
    using monitorD(1) [OF m] .
  have r': "at_rest s'"
    using kernel_call_ok [OF r i ok] s' by auto
  obtain s1 where im: "immediate k s s1" and ev: "evolves s1 s'"
    using kernel_call_effect [OF r i ok s'] by blast
  note I = immediateD [OF im, folded t_def]
  have live: "GetThreadId s t \<noteq> None"
    using at_restD(8) [OF r i] status_id [of s t] by (simp add: t_def)
  have others: "GetThreadId s1 u = GetThreadId s u \<and> threadToBeDestroyed s1 \<noteq> Some u"
    if "GetThreadId s u \<noteq> None" "u = t \<longrightarrow> k \<noteq> Call_Finish" for u
  proof -
    have "k \<noteq> Call_Fork u"
      using that(1) ok by (auto simp: GetThreadId_def)
    then show ?thesis
      using I(4) [of u] I(5) that(2) by auto
  qed
  have pos: "if (p(t := q)) u = Outside then \<not> touches l c (frames_of s' u) else inside_ok s' l c ((p(t := q)) u) u" for u
  proof (cases "(p(t := q)) u = Outside")
    case True
    then have "\<not> touches l c (frames_of s1 u)"
      using I(1) [of u] outside monitorD(2) [OF m, of u] by (auto split: if_splits)
    then have "\<not> touches l c (frames_of s' u)"
      using evolvesD(3) [OF ev, of u] worked_off_touches frames_dead [of s' u] status_id [of s' u] by (metis touches_simps(1))
    with True show ?thesis
      by simp
  next
    case False
    have "inside_ok s' l c ((p(t := q)) u) u"
    proof (rule inside_settles [OF ev r'])
      have in_u: "u \<noteq> t \<Longrightarrow> inside_ok s l c (p u) u"
        using False monitorD(3) [OF m, of u] by simp
      have l_u: "GetThreadId s u \<noteq> None"
        using live in_u by (cases "u = t") (auto simp: inside_ok_def)
      then show "GetThreadId s1 u \<noteq> None" "threadToBeDestroyed s1 \<noteq> Some u"
        using others [of u] fin False by (auto split: if_splits)
      show "frames_of s1 u = [] \<or> frames_of s1 u = [In_P (LockSem l), In_Acquire l] \<and> (\<exists>op. (p(t := q)) u = Entered op)
          \<or> frames_of s1 u = [In_Wait c l] \<and> (p(t := q)) u = Entered SL_Remove"
        using I(1) [of u] inside in_u False by (cases "u = t") (auto simp: inside_ok_def)
      assume l': "GetThreadId s' u \<noteq> None"
      have "entitled s l u \<and> \<not> (u = currentThread s \<and> gives_up k l) \<or> u = currentThread s \<and> gains k l"
        using inside False in_u inside_entitled [of s l c _ u] monitorD(3) [OF m, of t] by (cases "u = t") (auto simp: t_def)
      then show "entitled s' l u"
        by (rule kernel_call_entitled [OF r i ok s' l'])
    next
      assume fr: "frames_of s1 u \<noteq> []"
      have "GetThreadId s1 u = GetThreadId s u"
        using fr I(1,4) [of u] I(4) [of u] monitorD(3) [OF m, of u] False live others [of u] fin by (cases "u = t") (auto simp: inside_ok_def split: if_splits)
      moreover have "GetThreadId s u \<noteq> Some (- 1)"
        using id_not_free [OF at_restD(6) [OF r i]] .
      moreover have "GetThreadId s u \<noteq> Some (lockOwner s l)" if nw: "lockOwner s1 l = lockOwner s l"
      proof (cases "u = t")
        case True
        then consider "p t = Outside" | "entry k = [In_Wait c l]"
          using inside False fr I(1) [of u] by auto
        then show ?thesis
        proof cases
          case 1
          show ?thesis
          proof
            assume own: "GetThreadId s u = Some (lockOwner s l)"
            then have "lockOwner s l \<noteq> - 1"
              using id_not_free [OF at_restD(6) [OF r i], of u] by auto
            then obtain v where "p v \<noteq> Outside" "GetThreadId s v = Some (lockOwner s l)"
              using monitorD(4) [OF m] by blast
            then show False
              using at_rest_ids [OF r own, of v] True 1 by simp
          qed
        next
          case 2
          then have "lockOwner s1 l = - 1"
            using I(2) by (cases k) auto
          then show ?thesis
            using nw id_not_free [OF at_restD(6) [OF r i], of u] by auto
        qed
      next
        case ne: False
        then show ?thesis
          using fr I(1) [of u] monitorD(3) [OF m, of u] False by (auto simp: inside_ok_def)
      qed
      moreover have "lockOwner s1 l = lockOwner s l \<or> lockOwner s1 l = - 1"
        using I(2) by (cases k) auto
      ultimately show "GetThreadId s1 u \<noteq> Some (lockOwner s1 l)"
        by auto
    qed
    with False show ?thesis
      by simp
  qed
  have "\<exists>u. (p(t := q)) u \<noteq> Outside \<and> GetThreadId s' u = Some (lockOwner s' l)" if ne: "lockOwner s' l \<noteq> - 1"
  proof (cases "lockOwner s' l = lockOwner s1 l")
    case True
    then have "lockOwner s1 l = lockOwner s l" and nr: "k \<noteq> Call_Release l"
      using ne I(2) by (cases k; auto split: if_splits)+
    then obtain u where u: "p u \<noteq> Outside" "GetThreadId s u = Some (lockOwner s' l)"
      using monitorD(4) [OF m] ne True by auto
    then have "u = t \<Longrightarrow> q \<noteq> Outside"
      using outside nr by auto
    moreover have "GetThreadId s' u = GetThreadId s u"
    proof -
      have "u = t \<longrightarrow> k \<noteq> Call_Finish"
        using \<open>u = t \<Longrightarrow> q \<noteq> Outside\<close> fin by auto
      then show ?thesis
        using others [of u] u(2) evolvesD(3,4) [OF ev, of u] by auto
    qed
    ultimately show ?thesis
      using u by (intro exI [of _ u]) auto
  next
    case False
    then obtain u where u: "claims l (frames_of s1 u)" "GetThreadId s' u = Some (lockOwner s' l)"
      using evolvesD(2) [OF ev] by blast
    have "(p(t := q)) u \<noteq> Outside"
      using u(1) I(1) [of u] outside monitorD(2) [OF m, of u] touches_claims [of l _ c] by (auto split: if_splits)
    with u(2) show ?thesis
      by blast
  qed
  then show ?thesis
    unfolding monitor_def using r' pos by blast
qed


lemma monitor_interrupt:
  assumes m: "monitor s l c p" and s': "interrupt_V n s = Some s'"
  shows "monitor s' l c p"
proof -
  have r: "at_rest s"
    using monitorD(1) [OF m] .
  have r': "at_rest s'"
    using interrupt_ok [OF r, of n] s' by auto
  have ev: "evolves s s'"
    using interrupt_evolves [OF r s'] .
  have "if p u = Outside then \<not> touches l c (frames_of s' u) else inside_ok s' l c (p u) u" for u
  proof (cases "p u = Outside")
    case True
    then show ?thesis
      using monitorD(2) [OF m True] evolvesD(3) [OF ev, of u] worked_off_touches frames_dead [of s' u] status_id [of s' u]
      by (metis touches_simps(1))
  next
    case False
    have "inside_ok s' l c (p u) u"
      using monitorD(3) [OF m False] interrupt_entitled [OF r s', of u l] inside_entitled [of s l c "p u" u]
      by (intro inside_settles [OF ev r']) (auto simp: inside_ok_def)
    with False show ?thesis
      by simp
  qed
  moreover have "\<exists>u. p u \<noteq> Outside \<and> GetThreadId s' u = Some (lockOwner s' l)" if ne: "lockOwner s' l \<noteq> - 1"
  proof (cases "lockOwner s' l = lockOwner s l")
    case True
    then obtain u where u: "p u \<noteq> Outside" "GetThreadId s u = Some (lockOwner s' l)"
      using monitorD(4) [OF m] ne by auto
    have "threadToBeDestroyed s \<noteq> Some u"
      using monitorD(3) [OF m u(1)] by (simp add: inside_ok_def)
    then have "GetThreadId s' u = GetThreadId s u"
      using evolvesD(3,4) [OF ev, of u] u(2) by auto
    with u show ?thesis
      by auto
  next
    case False
    then obtain u where u: "claims l (frames_of s u)" "GetThreadId s' u = Some (lockOwner s' l)"
      using evolvesD(2) [OF ev] by blast
    have "p u \<noteq> Outside"
      using monitorD(2) [OF m, of u] touches_claims [OF u(1), of c] by auto
    with u(2) show ?thesis
      by blast
  qed
  ultimately show ?thesis
    unfolding monitor_def using r' by blast
qed

text \<open>A statement that makes no call: the running thread owns the lock and stays inside.\<close>

lemma monitor_goto:
  assumes m: "monitor s l c p" and i: "\<not> idling s" and q: "p (currentThread s) \<noteq> Outside" "q \<noteq> Outside"
  shows "monitor s l c (p(currentThread s := q))"
proof -
  let ?t = "currentThread s"
  have "frames_of s ?t = []"
    using at_restD(2) [OF monitorD(1) [OF m] i] .
  then have "inside_ok s l c q ?t"
    using monitorD(3) [OF m q(1)] by (auto simp: inside_ok_def)
  then have "if (p(?t := q)) u = Outside then \<not> touches l c (frames_of s u) else inside_ok s l c ((p(?t := q)) u) u" for u
    using monitorD(2,3) [OF m, of u] q(2) by auto
  moreover have "lockOwner s l \<noteq> - 1 \<Longrightarrow> \<exists>u. (p(?t := q)) u \<noteq> Outside \<and> GetThreadId s u = Some (lockOwner s l)"
    using monitorD(4) [OF m] q(2) by (metis fun_upd_def)
  ultimately show ?thesis
    using monitorD(1) [OF m] unfolding monitor_def by blast
qed

text \<open>
  When the kernel idles, every thread inside waits on the condition: nobody owns the lock or waits for it.
\<close>

lemma monitor_idle:
  assumes m: "monitor s l c p" and i: "idling s" and t: "p t \<noteq> Outside"
  shows "t \<in> set (waitQueue s c)"
proof -
  have r: "at_rest s"
    using monitorD(1) [OF m] .
  then have ti: "tinv None s" and ci: "cinv None s" and li: "linv None s" and rl: "readyList s = []"
    using i by (simp_all add: at_rest_def ginv_def kinv_def running_def)
  have blocked: "status_of s u = Some BLOCKED" if "GetThreadId s u \<noteq> None" for u
  proof -
    obtain st where st: "status_of s u = Some st"
      using status_id [of s u] \<open>GetThreadId s u \<noteq> None\<close> by auto
    then show ?thesis
      using tinvD(1,8,9) [OF ti, of u] rl by (cases st) auto
  qed
  have no_owner: "frames_of s u \<noteq> [] \<or> GetThreadId s u = None \<or> threadToBeDestroyed s = Some u" for u
    using tinvD(7) [OF ti, of u] blocked [of u] by auto
  have free: "lockOwner s l = - 1"
  proof (rule ccontr)
    assume ne: "lockOwner s l \<noteq> - 1"
    then obtain u where u: "p u \<noteq> Outside" "GetThreadId s u = Some (lockOwner s l)"
      using monitorD(4) [OF m] by blast
    have "threadToBeDestroyed s \<noteq> Some u" "frames_of s u = []"
      using monitorD(3) [OF m u(1)] u(2) by (auto simp: inside_ok_def)
    with no_owner [of u] u(2) show False
      by auto
  qed
  have ok: "inside_ok s l c (p t) t"
    using monitorD(3) [OF m t] .
  have b: "status_of s t = Some BLOCKED"
    using blocked [of t] ok by (simp add: inside_ok_def)
  have "frames_of s t \<noteq> [In_P (LockSem l), In_Acquire l]"
  proof
    assume f: "frames_of s t = [In_P (LockSem l), In_Acquire l]"
    then have "t \<in> set (sem_queue (sems s (LockSem l)))"
      using tinvD(3) [OF ti, of t "LockSem l"] b by simp
    moreover have "woken None s (LockSem l) = 0"
      using rl by (simp add: woken_def)
    moreover have "sem_value (sems s (LockSem l)) = 1"
      using li free by (simp add: linv_def)
    ultimately show False
      using ci unfolding cinv_def by (auto dest!: spec [of _ "LockSem l"])
  qed
  moreover have "frames_of s t \<noteq> []"
    using no_owner [of t] ok by (auto simp: inside_ok_def)
  ultimately have "frames_of s t = [In_Wait c l]"
    using ok by (auto simp: inside_ok_def)
  then show ?thesis
    using tinvD(5) [OF ti, of t c] b by simp
qed


lemma monitor_unique:
  assumes m: "monitor s l c p" and i: "\<not> idling s" and t0: "p (currentThread s) \<noteq> Outside" and t: "p t \<noteq> Outside" "\<And>op. p t \<noteq> Entered op"
  shows "t = currentThread s"
proof -
  have "GetThreadId s t = Some (lockOwner s l)"
    using monitorD(3) [OF m t(1)] t(2) by (auto simp: inside_ok_def)
  moreover have "GetThreadId s (currentThread s) = Some (lockOwner s l)"
    using monitor_running(1) [OF m i t0] by (simp add: isHeldByCurrentThread_def)
  ultimately show ?thesis
    using at_rest_ids [OF monitorD(1) [OF m]] by blast
qed

lemma monitor_waiter:
  assumes m: "monitor s l c p" and t: "t \<in> set (waitQueue s c)"
  shows "p t = Entered SL_Remove"
proof -
  have "tinv (running s) s"
    using monitorD(1) [OF m] by (simp add: at_rest_def ginv_def kinv_def)
  then have w: "head_W (frames_of s t) = Some c"
    using t by (simp add: tinvD(5))
  then obtain k fs where fs: "frames_of s t = In_Wait c k # fs"
    by (cases "frames_of s t" rule: head_W.cases) auto
  then have "p t \<noteq> Outside"
    using monitorD(2) [OF m, of t] by auto
  then show ?thesis
    using monitorD(3) [OF m, of t] fs by (auto simp: inside_ok_def)
qed

lemma running_not_waiting:
  assumes "at_rest s" "\<not> idling s"
  shows "currentThread s \<notin> set (waitQueue s c)"
  using at_restD(3,8) [OF assms] tinvD(5) [of "Some (currentThread s)" s "currentThread s" c] by auto

subsection \<open>The invariant of the list\<close>

text \<open>
  The threads that will see to an item: those about to signal or to take one, and the \<open>Remove\<close> calls that are not
  waiting. While threads wait there are at least as many of them as items.
\<close>

definition helpers :: "'a SynchList \<Rightarrow> nat set" where
  "helpers m = {t. pc m t = To_signal \<or> pc m t = Taking \<or> pc m t = Entered SL_Remove \<and> t \<notin> set (waitQueue (sys m) (listEmpty m))}"

definition sl_inv :: "'a SynchList \<Rightarrow> bool" where
  "sl_inv m \<longleftrightarrow> monitor (sys m) (lock m) (listEmpty m) (pc m) \<and> (\<forall>t. pc m t = Taking \<longrightarrow> items m \<noteq> [])
     \<and> removed m @ items m = appended m \<and> finite {t. pc m t \<noteq> Outside}
     \<and> (waitQueue (sys m) (listEmpty m) \<noteq> [] \<longrightarrow> length (items m) \<le> card (helpers m))"

lemma sl_invD:
  assumes "sl_inv m"
  shows "monitor (sys m) (lock m) (listEmpty m) (pc m)" "pc m t = Taking \<Longrightarrow> items m \<noteq> []" "removed m @ items m = appended m"
    "finite {t. pc m t \<noteq> Outside}" "waitQueue (sys m) (listEmpty m) \<noteq> [] \<Longrightarrow> length (items m) \<le> card (helpers m)"
  using assms by (auto simp: sl_inv_def)

lemma finite_helpers: "finite {t. pc m t \<noteq> Outside} \<Longrightarrow> finite (helpers m)"
  by (rule finite_subset) (auto simp: helpers_def)

lemma finite_moved: "finite {t. p t \<noteq> Outside} \<Longrightarrow> finite {t. (p(x := q)) t \<noteq> Outside}"
  by (rule finite_subset [of _ "insert x {t. p t \<noteq> Outside}"]) auto

text \<open>Statements without a call.\<close>

lemma sl_goto_inv:
  assumes inv: "sl_inv m" and i: "\<not> idling (sys m)" and q: "pc m (currentThread (sys m)) \<noteq> Outside" "q \<noteq> Outside"
    and xs: "\<And>t. pc m t = Taking \<Longrightarrow> t \<noteq> currentThread (sys m) \<Longrightarrow> xs \<noteq> []" "q = Taking \<Longrightarrow> xs \<noteq> []" "rs @ xs = as"
    and h: "length (items m) \<le> card (helpers m) \<Longrightarrow> length xs \<le> card (helpers (goto q m))"
  shows "sl_inv (goto q (m\<lparr>items := xs, appended := as, removed := rs\<rparr>))"
proof -
  have "monitor (sys m) (lock m) (listEmpty m) ((pc m)(currentThread (sys m) := q))"
    using monitor_goto [OF sl_invD(1) [OF inv] i q] .
  moreover have "helpers (goto q (m\<lparr>items := xs, appended := as, removed := rs\<rparr>)) = helpers (goto q m)"
    by (simp add: helpers_def goto_def)
  ultimately show ?thesis
    using inv xs h finite_moved [OF sl_invD(4) [OF inv], of "currentThread (sys m)" q] by (auto simp: sl_inv_def goto_def)
qed

lemma helpers_goto:
  assumes "\<not> idling (sys m)" "at_rest (sys m)"
  shows "helpers (goto q m) = (if q = To_signal \<or> q = Taking \<or> q = Entered SL_Remove then insert (currentThread (sys m)) (helpers m)
    else helpers m - {currentThread (sys m)})"
  using running_not_waiting [OF assms(2,1)] by (auto simp: helpers_def goto_def)

lemma sl_take_inv:
  assumes inv: "sl_inv m" and i: "\<not> idling (sys m)" and q: "pc m (currentThread (sys m)) \<noteq> Outside" and x: "items m = x # xs"
  shows "sl_inv (goto (Leaving a) (m\<lparr>items := xs, removed := removed m @ [x]\<rparr>))"
proof -
  have r: "at_rest (sys m)"
    using monitorD(1) [OF sl_invD(1) [OF inv]] .
  have "sl_inv (goto (Leaving a) (m\<lparr>items := xs, appended := appended m, removed := removed m @ [x]\<rparr>))"
  proof (rule sl_goto_inv [OF inv i q])
    show "xs \<noteq> []" if "pc m t = Taking" "t \<noteq> currentThread (sys m)" for t
      using monitor_unique [OF sl_invD(1) [OF inv] i q, of t] that by auto
    show "(removed m @ [x]) @ xs = appended m"
      using sl_invD(3) [OF inv] x by simp
    show "length xs \<le> card (helpers (goto (Leaving a) m))" if "length (items m) \<le> card (helpers m)"
    proof -
      have "card (helpers m) - 1 \<le> card (helpers m - {currentThread (sys m)})"
        by (simp add: card_Diff_singleton_if)
      then show ?thesis
        using that x by (simp add: helpers_goto [OF i r])
    qed
  qed simp_all
  then show ?thesis
    by simp
qed

text \<open>Calls.\<close>

lemma sl_kernel_inv:
  fixes m :: "'a SynchList"
  defines "t \<equiv> currentThread (sys m)"
  assumes inv: "sl_inv m" and i: "\<not> idling (sys m)" and ok: "call_ok k (sys m)" and s': "kernel_call k (sys m) = Some s'"
    and mon: "monitor s' (lock m) (listEmpty m) ((pc m)(t := q))" and q: "q = Taking \<Longrightarrow> pc m t = Taking"
    and h: "queues_after k t (waitQueue (sys m)) (listEmpty m) \<noteq> [] \<Longrightarrow>
      length (items m) \<le> card (helpers (m\<lparr>pc := (pc m)(t := q), sys := s'\<rparr>))"
  shows "sl_inv (m\<lparr>pc := (pc m)(t := q), sys := s'\<rparr>)"
proof -
  obtain s1 where "immediate k (sys m) s1" "evolves s1 s'"
    using kernel_call_effect [OF monitorD(1) [OF sl_invD(1) [OF inv]] i ok s'] by blast
  then have "waitQueue s' = queues_after k t (waitQueue (sys m))"
    using evolvesD(1) immediateD(3) unfolding t_def by metis
  then show ?thesis
    using mon inv q h finite_moved [OF sl_invD(4) [OF inv], of t q] by (auto simp: sl_inv_def)
qed


lemma sl_enter_inv:
  assumes inv: "sl_inv m" and i: "\<not> idling (sys m)" and o: "pc m (currentThread (sys m)) = Outside" and m': "sl_enter op m = Some m'"
  shows "sl_inv m'"
proof -
  let ?t = "currentThread (sys m)"
  obtain s' where s': "kernel_call (Call_Acquire (lock m)) (sys m) = Some s'" and m: "m' = m\<lparr>pc := (pc m)(?t := Entered op), sys := s'\<rparr>"
    using m' by (auto simp: sl_enter_def sl_kernel_def goto_def split: bind_splits)
  have mon: "monitor s' (lock m) (listEmpty m) ((pc m)(?t := Entered op))"
    using o by (intro monitor_call [OF sl_invD(1) [OF inv] i _ s']) simp_all
  obtain s1 where "immediate (Call_Acquire (lock m)) (sys m) s1" "evolves s1 s'"
    using kernel_call_effect [OF monitorD(1) [OF sl_invD(1) [OF inv]] i _ s'] by auto
  then have wq: "waitQueue s' = waitQueue (sys m)"
    using evolvesD(1) immediateD(3) by fastforce
  show ?thesis
    unfolding m
  proof (rule sl_kernel_inv [OF inv i _ s' mon])
    assume "queues_after (Call_Acquire (lock m)) ?t (waitQueue (sys m)) (listEmpty m) \<noteq> []"
    then have len: "length (items m) \<le> card (helpers m)"
      using sl_invD(5) [OF inv] by simp
    have "helpers m \<subseteq> helpers (m\<lparr>pc := (pc m)(?t := Entered op), sys := s'\<rparr>)"
      using o by (auto simp: helpers_def wq)
    moreover have "finite (helpers (m\<lparr>pc := (pc m)(?t := Entered op), sys := s'\<rparr>))"
      using finite_moved [OF sl_invD(4) [OF inv], of ?t "Entered op"] by (intro finite_helpers) simp
    ultimately show "length (items m) \<le> card (helpers (m\<lparr>pc := (pc m)(?t := Entered op), sys := s'\<rparr>))"
      using len card_mono order_trans by blast
  qed simp_all
qed

lemma sl_signal_inv:
  assumes inv: "sl_inv m" and i: "\<not> idling (sys m)" and o: "pc m (currentThread (sys m)) = To_signal"
    and s': "kernel_call (Call_Signal (listEmpty m) (lock m)) (sys m) = Some s'"
  shows "sl_inv (m\<lparr>pc := (pc m)(currentThread (sys m) := Leaving Void), sys := s'\<rparr>)"
proof -
  let ?t = "currentThread (sys m)" and ?m = "m\<lparr>pc := (pc m)(currentThread (sys m) := Leaving Void), sys := s'\<rparr>"
  note M = sl_invD(1) [OF inv]
  have ok: "call_ok (Call_Signal (listEmpty m) (lock m)) (sys m)"
    using monitor_running(2) [OF M i] o by simp
  have mon: "monitor s' (lock m) (listEmpty m) ((pc m)(?t := Leaving Void))"
    using o by (intro monitor_call [OF M i ok s']) simp_all
  show ?thesis
  proof (rule sl_kernel_inv [OF inv i ok s' mon])
    assume ne: "queues_after (Call_Signal (listEmpty m) (lock m)) ?t (waitQueue (sys m)) (listEmpty m) \<noteq> []"
    then obtain u us where q: "waitQueue (sys m) (listEmpty m) = u # us"
      by (cases "waitQueue (sys m) (listEmpty m)") auto
    have d: "distinct (waitQueue (sys m) (listEmpty m))"
      using at_restD(3) [OF monitorD(1) [OF M] i] by (rule tinvD(6))
    have u: "pc m u = Entered SL_Remove"
      using monitor_waiter [OF M, of u] q by simp
    have wq: "waitQueue s' (listEmpty m) = us"
      using s' ok q by (auto simp: Signal_def)
    have "insert u (helpers m - {?t}) \<subseteq> helpers ?m"
      using u o d q by (auto simp: helpers_def wq)
    moreover have fin: "finite (helpers m)" "finite (helpers ?m)"
      using finite_helpers [OF sl_invD(4) [OF inv]] finite_moved [OF sl_invD(4) [OF inv], of ?t "Leaving Void"]
      by (auto intro: finite_helpers)
    moreover have "card (helpers m) = card (insert u (helpers m - {?t}))"
    proof -
      have "?t \<in> helpers m" "u \<notin> helpers m"
        using o u q by (auto simp: helpers_def)
      then show ?thesis
        using fin(1) card_Suc_Diff1 [of "helpers m" ?t] by (subst card_insert_disjoint) auto
    qed
    moreover have "length (items m) \<le> card (helpers m)"
      using sl_invD(5) [OF inv] q by simp
    ultimately show "length (items m) \<le> card (helpers ?m)"
      using card_mono [OF fin(2), of "insert u (helpers m - {?t})"] by linarith
  qed simp_all
qed


lemma sl_statement_inv:
  assumes inv: "sl_inv m" and i: "\<not> idling (sys m)" and m': "sl_statement m = Some m'"
  shows "sl_inv m'"
proof -
  let ?t = "currentThread (sys m)"
  note M = sl_invD(1) [OF inv]
  have r: "at_rest (sys m)"
    using monitorD(1) [OF M] .
  have p: "pc m ?t \<noteq> Outside"
    using m' by (auto simp: sl_statement_def)
  have move: "sl_inv (goto q m)" if "q \<noteq> Outside" "q = Taking \<Longrightarrow> items m \<noteq> []"
    "length (items m) \<le> card (helpers m) \<Longrightarrow> length (items m) \<le> card (helpers (goto q m))" for q
    using sl_goto_inv [OF inv i p that(1), of "items m" "removed m" "appended m"] that(2,3) sl_invD(2,3) [OF inv] by simp
  show ?thesis
  proof (cases "pc m ?t")
    case (Entered op)
    show ?thesis
    proof (cases op)
      case (SL_Append x)
      have "?t \<notin> helpers m" "finite (helpers m)"
        using Entered SL_Append finite_helpers [OF sl_invD(4) [OF inv]] by (simp_all add: helpers_def)
      then have "sl_inv (goto To_signal (m\<lparr>items := items m @ [x], appended := appended m @ [x], removed := removed m\<rparr>))"
        using sl_invD(3) [OF inv] by (intro sl_goto_inv [OF inv i p]) (simp_all add: helpers_goto [OF i r])
      then show ?thesis
        using m' Entered SL_Append by (simp add: sl_statement_def)
    next
      case SL_Remove
      show ?thesis
      proof (cases "items m = []")
        case True
        have ok: "call_ok (Call_Wait (listEmpty m) (lock m)) (sys m)"
          using monitor_running(3) [OF M i p] .
        obtain s' where s': "kernel_call (Call_Wait (listEmpty m) (lock m)) (sys m) = Some s'"
          and m: "m' = m\<lparr>pc := (pc m)(?t := Entered SL_Remove), sys := s'\<rparr>"
          using m' Entered SL_Remove True by (auto simp: sl_statement_def sl_kernel_def goto_def split: bind_splits)
        have "monitor s' (lock m) (listEmpty m) ((pc m)(?t := Entered SL_Remove))"
          using p by (intro monitor_call [OF M i ok s']) simp_all
        then show ?thesis
          unfolding m using True by (intro sl_kernel_inv [OF inv i ok s']) simp_all
      next
        case False
        have "?t \<in> helpers m"
          using Entered SL_Remove running_not_waiting [OF r i] by (simp add: helpers_def)
        then have "sl_inv (goto Taking m)"
          using False by (intro move) (simp_all add: helpers_goto [OF i r] insert_absorb)
        then show ?thesis
          using m' Entered SL_Remove False by (simp add: sl_statement_def)
      qed
    next
      case SL_RemoveNoWaiting
      have "sl_inv (goto (Leaving NULL_item) m)" if "items m = []"
        using that by (intro move) simp_all
      then show ?thesis
        using m' Entered SL_RemoveNoWaiting sl_take_inv [OF inv i p]
        by (auto simp: sl_statement_def sl_take_def split: if_splits list.splits)
    next
      case SL_IsEmpty
      then have "?t \<notin> helpers m"
        using Entered by (simp add: helpers_def)
      then have "sl_inv (goto (Leaving (Flag (items m = []))) m)"
        by (intro move) (simp_all add: helpers_goto [OF i r])
      then show ?thesis
        using m' Entered SL_IsEmpty by (simp add: sl_statement_def)
    next
      case SL_Mapcar
      then have "?t \<notin> helpers m"
        using Entered by (simp add: helpers_def)
      then have "sl_inv (goto (Leaving (Applied_to (items m))) m)"
        by (intro move) (simp_all add: helpers_goto [OF i r])
      then show ?thesis
        using m' Entered SL_Mapcar by (simp add: sl_statement_def)
    qed
  next
    case Taking
    then show ?thesis
      using m' sl_take_inv [OF inv i p] by (auto simp: sl_statement_def sl_take_def split: list.splits)
  next
    case To_signal
    then show ?thesis
      using m' sl_signal_inv [OF inv i] by (auto simp: sl_statement_def sl_kernel_def goto_def split: bind_splits)
  next
    case (Leaving a)
    have ok: "call_ok (Call_Release (lock m)) (sys m)"
      using monitor_running(4) [OF M i p] .
    obtain s' where s': "kernel_call (Call_Release (lock m)) (sys m) = Some s'" and m: "m' = m\<lparr>pc := (pc m)(?t := Outside), sys := s'\<rparr>"
      using m' Leaving by (auto simp: sl_statement_def sl_kernel_def goto_def split: bind_splits)
    have "monitor s' (lock m) (listEmpty m) ((pc m)(?t := Outside))"
      by (intro monitor_call [OF M i ok s']) simp_all
    moreover have "helpers (m\<lparr>pc := (pc m)(?t := Outside), sys := s'\<rparr>) = helpers m"
      using Leaving s' ok by (auto simp: helpers_def Release_def)
    ultimately show ?thesis
      unfolding m using sl_invD(5) [OF inv] by (intro sl_kernel_inv [OF inv i ok s']) simp_all
  qed (use p in simp)
qed

lemma sl_step_inv:
  assumes step: "sl_step m m'" and inv: "sl_inv m"
  shows "sl_inv m'"
  using step
proof cases
  case (enter op)
  then show ?thesis
    using sl_enter_inv [OF inv] by blast
next
  case statement
  then show ?thesis
    using sl_statement_inv [OF inv] by blast
next
  case (other k s')
  let ?t = "currentThread (sys m)"
  have "\<not> touches (lock m) (listEmpty m) (entry k)"
    using other(4) by (cases k) auto
  then have mon: "monitor s' (lock m) (listEmpty m) ((pc m)(?t := Outside))"
    using other(3) by (intro monitor_call [OF sl_invD(1) [OF inv] other(2,5,6)]) auto
  have e: "(pc m)(?t := Outside) = pc m"
    using other(3) by auto
  obtain s1 where "immediate k (sys m) s1" "evolves s1 s'"
    using kernel_call_effect [OF monitorD(1) [OF sl_invD(1) [OF inv]] other(2,5,6)] by blast
  then have "waitQueue s' = queues_after k ?t (waitQueue (sys m))"
    using evolvesD(1) immediateD(3) by metis
  moreover have "queues_after k ?t (waitQueue (sys m)) (listEmpty m) = waitQueue (sys m) (listEmpty m)"
    using other(4) by (cases k) auto
  ultimately show ?thesis
    using inv mon unfolding other(1) e by (auto simp: sl_inv_def helpers_def)
next
  case (preempt s')
  let ?t = "currentThread (sys m)"
  have e: "(pc m)(?t := pc m ?t) = pc m"
    by simp
  have "monitor s' (lock m) (listEmpty m) ((pc m)(?t := pc m ?t))"
    by (intro monitor_call [OF sl_invD(1) [OF inv] preempt(2) _ preempt(3)]) simp_all
  moreover obtain s1 where "immediate Call_Yield (sys m) s1" "evolves s1 s'"
    using kernel_call_effect [OF monitorD(1) [OF sl_invD(1) [OF inv]] preempt(2) _ preempt(3)] by auto
  then have "waitQueue s' = waitQueue (sys m)"
    using evolvesD(1) immediateD(3) by fastforce
  ultimately show ?thesis
    using inv unfolding preempt(1) e by (auto simp: sl_inv_def helpers_def)
next
  case (device n s')
  then show ?thesis
    using inv monitor_interrupt [OF sl_invD(1) [OF inv]] evolvesD(1) [OF interrupt_evolves [OF monitorD(1) [OF sl_invD(1) [OF inv]]]]
    by (auto simp: sl_inv_def helpers_def)
qed


subsection \<open>Properties\<close>

lemma SynchList_new_inv:
  assumes b: "boot heap maxThreads init main = Some s" "0 < maxThreads" "\<forall>n. 0 \<le> init n"
  shows "sl_inv (SynchList_new s l c)"
proof -
  have r: "at_rest s"
    using reachable_at_rest [OF b kreachable.start] .
  have "frames_of s t = []" "lockOwner s l = - 1" "waitQueue s c = []" for t
    using b(1) by (auto simp: boot_def Thread_new_def GetNewThreadId_def frames_of_def setStatus_def upd_thread_def split: bind_splits)
  with r show ?thesis
    by (simp add: sl_inv_def SynchList_new_def monitor_def)
qed

lemma sl_reachable_inv: "sl_step\<^sup>*\<^sup>* m m' \<Longrightarrow> sl_inv m \<Longrightarrow> sl_inv m'"
  by (induction rule: rtranclp_induct) (auto intro: sl_step_inv)

text \<open>One thread that calls \<open>Remove\<close> on the empty list.\<close>

lemma one_remover:
  "\<exists>s m. boot (\<lambda>_. 0) 4 (\<lambda>_. 1) 7 = Some s \<and> sl_step\<^sup>*\<^sup>* (SynchList_new s 0 0 :: nat SynchList) m
    \<and> idling (sys m) \<and> pc m 7 = Entered SL_Remove"
proof -
  obtain s where b: "boot (\<lambda>_. 0) 4 (\<lambda>_. 1) 7 = Some s"
    using boot_at_rest [of 4 "\<lambda>_. 1" "\<lambda>_. 0" 7] by auto
  then obtain tid where s: "currentThread s = 7" "\<not> idling s" "threads s = [7 \<mapsto> \<lparr>threadId = tid, tstatus = RUNNING, frames = []\<rparr>]"
      "readyList s = []" "sems s (LockSem 0) = Semaphore_new 1" "threadToBeDestroyed s = None"
    by (auto simp: boot_def Thread_new_def GetNewThreadId_def setStatus_def upd_thread_def split: bind_splits)
  define s1 where "s1 = s\<lparr>sems := (sems s)(LockSem 0 := \<lparr>sem_value = 0, sem_queue = []\<rparr>), lockOwner := (lockOwner s)(0 := tid)\<rparr>"
  have acq: "kernel_call (Call_Acquire 0) s = Some s1"
    using s by (simp add: s1_def Acquire_def push_def set_frames_def upd_thread_def frames_of_def resume.simps take_sem_def set_sem_def
        Semaphore_new_def GetThreadId_def)
  have s1: "currentThread s1 = 7" "\<not> idling s1" "threads s1 = [7 \<mapsto> \<lparr>threadId = tid, tstatus = RUNNING, frames = []\<rparr>]"
      "readyList s1 = []" "sems s1 (LockSem 0) = \<lparr>sem_value = 0, sem_queue = []\<rparr>" "lockOwner s1 0 = tid"
    using s by (simp_all add: s1_def)
  obtain s2 where wait: "kernel_call (Call_Wait 0 0) s1 = Some s2" "idling s2"
    using s1 by (simp add: Wait_def Release_def isHeldByCurrentThread_def GetThreadId_def V_def set_sem_def push_def set_frames_def
        upd_thread_def frames_of_def Sleep_def dispatch_def FindNextToRun_def setStatus_def resume.simps Let_def)
  define m1 :: "nat SynchList" where "m1 = (SynchList_new s 0 0)\<lparr>pc := (\<lambda>t. Outside)(7 := Entered SL_Remove), sys := s1\<rparr>"
  have "sl_step (SynchList_new s 0 0) m1"
    using s acq by (intro sl_step.enter [of _ SL_Remove]) (simp_all add: SynchList_new_def sl_enter_def sl_kernel_def goto_def m1_def)
  moreover have "sl_step m1 (m1\<lparr>sys := s2\<rparr>)"
    using s1 wait by (intro sl_step.statement) (simp_all add: sl_statement_def sl_kernel_def goto_def m1_def SynchList_new_def fun_upd_idem)
  ultimately have "sl_step\<^sup>*\<^sup>* (SynchList_new s 0 0) (m1\<lparr>sys := s2\<rparr>)"
    by auto
  then show ?thesis
    using b wait(2) by (intro exI [of _ s] exI [of _ "m1\<lparr>sys := s2\<rparr>"]) (simp add: m1_def)
qed

text \<open>
  C10. The synchronized list is a queue. In every run of the kernel, with any number of threads that append and
  remove, are preempted and use other locks, what has been removed followed by what is in the list is what
  has been appended; the thread that runs can always execute its next statement: the item that \<open>Remove\<close> takes
  is there, and the lock is its own when it signals, waits or releases.
\<close>

theorem synchlist_fifo:
  assumes "boot heap maxThreads init main = Some s" "0 < maxThreads" "\<forall>n. 0 \<le> init n"
    and "sl_step\<^sup>*\<^sup>* (SynchList_new s l c) m"
  shows "removed m @ items m = appended m
    \<and> (\<not> idling (sys m) \<longrightarrow> pc m (currentThread (sys m)) \<noteq> Outside \<longrightarrow> sl_statement m \<noteq> None)"
proof -
  have inv: "sl_inv m"
    using sl_reachable_inv [OF assms(4) SynchList_new_inv [OF assms(1-3)]] .
  note M = sl_invD(1) [OF inv]
  have "sl_statement m \<noteq> None" if i: "\<not> idling (sys m)" and p: "pc m (currentThread (sys m)) \<noteq> Outside"
  proof -
    note ok = monitor_running(2-4) [OF M i p, THEN kernel_call_ok [OF monitorD(1) [OF M] i]]
    have "pc m (currentThread (sys m)) = Taking \<Longrightarrow> items m \<noteq> []"
      using sl_invD(2) [OF inv] .
    then show ?thesis
      using ok p by (auto simp: sl_statement_def sl_kernel_def sl_take_def split: position.split list_call.split list.split)
  qed
  then show ?thesis
    using sl_invD(3) [OF inv] by blast
qed

theorem synchlist_fifo_witness:
  "\<exists>s m. boot (\<lambda>_. 0) 4 (\<lambda>_. 1) 7 = Some s \<and> sl_step\<^sup>*\<^sup>* (SynchList_new s 0 0 :: nat SynchList) m \<and> removed m @ items m = appended m"
proof -
  obtain s m where m: "boot (\<lambda>_. 0) 4 (\<lambda>_. 1) 7 = Some s" "sl_step\<^sup>*\<^sup>* (SynchList_new s 0 0 :: nat SynchList) m"
    using one_remover by blast
  then show ?thesis
    using synchlist_fifo [OF m(1) _ _ m(2)] by auto
qed

text \<open>
  C23. No removal waits in vain. When the kernel idles, because no thread can run before the next interrupt, every
  thread that is inside an operation of the list is a \<open>Remove\<close> that waits on \<open>listEmpty\<close>, and if there is one the
  list is empty.
\<close>

theorem synchlist_wakes:
  assumes "boot heap maxThreads init main = Some s" "0 < maxThreads" "\<forall>n. 0 \<le> init n"
    and "sl_step\<^sup>*\<^sup>* (SynchList_new s l c) m" "idling (sys m)" "pc m t \<noteq> Outside"
  shows "pc m t = Entered SL_Remove \<and> t \<in> set (waitQueue (sys m) (listEmpty m)) \<and> items m = []"
proof -
  have inv: "sl_inv m"
    using sl_reachable_inv [OF assms(4) SynchList_new_inv [OF assms(1-3)]] .
  note M = sl_invD(1) [OF inv]
  have w: "pc m u = Entered SL_Remove \<and> u \<in> set (waitQueue (sys m) (listEmpty m))" if "pc m u \<noteq> Outside" for u
    using monitor_idle [OF M assms(5) that] monitor_waiter [OF M] by blast
  have "u \<notin> helpers m" for u
    using w [of u] by (cases "pc m u") (auto simp: helpers_def)
  then have "helpers m = {}"
    by blast
  moreover have "waitQueue (sys m) (listEmpty m) \<noteq> []"
    using w [OF assms(6)] by auto
  ultimately show ?thesis
    using w [OF assms(6)] sl_invD(5) [OF inv] by simp
qed


theorem synchlist_wakes_witness:
  "\<exists>s m. boot (\<lambda>_. 0) 4 (\<lambda>_. 1) 7 = Some s \<and> sl_step\<^sup>*\<^sup>* (SynchList_new s 0 0 :: nat SynchList) m
    \<and> 7 \<in> set (waitQueue (sys m) (listEmpty m)) \<and> items m = []"
proof -
  obtain s m where m: "boot (\<lambda>_. 0) 4 (\<lambda>_. 1) 7 = Some s" "sl_step\<^sup>*\<^sup>* (SynchList_new s 0 0 :: nat SynchList) m"
      "idling (sys m)" "pc m 7 = Entered SL_Remove"
    using one_remover by blast
  then show ?thesis
    using synchlist_wakes [OF m(1) _ _ m(2,3), of 7] by auto
qed

end
