(* ===== verification/UserThreads.thy ===== *)
theory UserThreads
  imports Processes
begin

text \<open>
  User threads and processes: src/code/userprog/userthread.cc, with \<open>StartProcess\<close> (progtest.cc) and the end of
  threads and processes (exception.cc). Every routine runs under the lock \<open>threadsLock\<close>; a definition is such a
  section as a whole, up to the wait on a condition or the release of the lock, and \<open>ustep\<close> interleaves them. That
  the lock excludes other threads is shown in \<open>Threads\<close>.
\<close>

section \<open>Model\<close>

text \<open>
  The conditions that threads wait on, each with its queue: one for each thread (\<open>thread_info::threadCond\<close>) and two
  for each space.
\<close>

datatype ucond = Thread_cond int | NThreads_cond nat | ProcessJoin_cond nat

text \<open>
  What a thread does next. \<open>Starting\<close>: \<open>StartUserThread\<close>; \<open>In_user\<close>: user code; \<open>Creating n\<close>: \<open>do_UserThreadCreate\<close> has released the
  lock and returns the id of the thread \<open>n\<close>; \<open>Joining u i\<close>: in the loop of \<open>do_UserThreadJoin\<close>, with \<open>tinfo\<close> the object \<open>i\<close>;
  \<open>Joining_process p a\<close>: in that of \<open>do_ProcessJoin\<close>; \<open>Main_exiting\<close>: in that of \<open>synchThreadsMainExit\<close>; \<open>Ending\<close>: before \<open>endProcess\<close>;
  \<open>Forking n\<close>, \<open>Awaiting n\<close>: in \<open>do_ForkExec\<close>, before its second section and before \<open>semFORK->P()\<close>. A thread that
  \<open>do_ForkExec\<close> makes is \<open>Counted\<close>, then \<open>Forked\<close> (\<open>run_ForkExec\<close>), and \<open>Ending\<close> when its file cannot be opened. \<open>Finished\<close>: in
  \<open>Finish\<close>.
\<close>

datatype upos = In_user | Starting | Creating nat | Joining u32 thread_info | Joining_process int nat | Main_exiting | Ending
  | Forking nat | Awaiting nat | Counted | Forked | Finished

record uthread =
  ut_tid :: int
  ut_space :: "nat option"
  isMain :: bool
  upos :: upos
  ut_args :: "u32 \<times> u32 \<times> u32"

record UserSys =
  procs :: Procs
  tids :: BitMap
  lastTid :: int
  nUsedAddrSpace :: int
  uthreads :: "nat \<rightharpoonup> uthread"
  conds :: "ucond \<Rightarrow> nat list"
  semFORK :: int
  semList :: "nat \<Rightarrow> int \<rightharpoonup> nat"
  semObjects :: "nat \<rightharpoonup> int"
  halted :: bool

definition set_pos :: "nat \<Rightarrow> upos \<Rightarrow> UserSys \<Rightarrow> UserSys" where
  "set_pos t q us = us\<lparr>uthreads := (uthreads us)(t := map_option (\<lambda>th. th\<lparr>upos := q\<rparr>) (uthreads us t))\<rparr>"

definition set_space :: "nat \<Rightarrow> nat option \<Rightarrow> UserSys \<Rightarrow> UserSys" where
  "set_space t a us = us\<lparr>uthreads := (uthreads us)(t := map_option (\<lambda>th. th\<lparr>ut_space := a\<rparr>) (uthreads us t))\<rparr>"

text \<open>Conditions; the lock is released and acquired again around a wait.\<close>

definition cond_wait :: "ucond \<Rightarrow> nat \<Rightarrow> UserSys \<Rightarrow> UserSys" where
  "cond_wait c t us = us\<lparr>conds := (conds us)(c := conds us c @ [t])\<rparr>"

definition cond_signal :: "ucond \<Rightarrow> UserSys \<Rightarrow> UserSys" where
  "cond_signal c us = us\<lparr>conds := (conds us)(c := tl (conds us c))\<rparr>"

definition cond_broadcast :: "ucond \<Rightarrow> UserSys \<Rightarrow> UserSys" where
  "cond_broadcast c us = us\<lparr>conds := (conds us)(c := [])\<rparr>"

text \<open>A thread that waits in a loop is \<open>waiting\<close> until it is taken from the queue.\<close>

fun waits_on :: "upos \<Rightarrow> nat option \<Rightarrow> ucond option" where
  "waits_on (Joining u i) s = Some (Thread_cond (thread_id i))"
| "waits_on (Joining_process p a) s = Some (ProcessJoin_cond a)"
| "waits_on Main_exiting s = map_option NThreads_cond s"
| "waits_on _ s = None"

definition waiting :: "UserSys \<Rightarrow> nat \<Rightarrow> bool" where
  "waiting us t = (case uthreads us t of None \<Rightarrow> False
     | Some th \<Rightarrow> (case waits_on (upos th) (ut_space th) of None \<Rightarrow> False | Some c \<Rightarrow> t \<in> set (conds us c)))"

subsection \<open>Threads\<close>

text \<open>\<open>GetNewThreadId\<close>, in the constructor of \<open>Thread\<close>.\<close>

definition new_tid :: "UserSys \<Rightarrow> (int \<times> UserSys) option" where
  "new_tid us = do {
     (tid, b) \<leftarrow> BitMap_FindStart (tids us) (lastTid us);
     Some (tid, us\<lparr>tids := b, lastTid := tid + 1\<rparr>)
   }"

definition GetUserThreadId :: "int \<Rightarrow> UserSys \<Rightarrow> int option" where
  "GetUserThreadId tid us = do {
     i \<leftarrow> GetThreadInfoFromTid (tids us) (procs us) tid;
     Some (case i of None \<Rightarrow> - 1 | Some info \<Rightarrow> sint (userthread_id info))
   }"

definition StartUserThread :: "nat \<Rightarrow> UserSys \<Rightarrow> UserSys option" where
  "StartUserThread t us = do {
     th \<leftarrow> uthreads us t;
     a \<leftarrow> ut_space th;
     sp \<leftarrow> spaces (procs us) a;
     i \<leftarrow> GetThreadInfoFromTid (tids us) (procs us) (ut_tid th);
     t_info \<leftarrow> i;
     newSP \<leftarrow> GetStackStartAddr sp (addrspace_idx t_info);
     m \<leftarrow> InitRegisters sp (mach (procs us));
     let m = RestoreState sp m;
     let (f_wrapper, f, arg) = ut_args th;
     m \<leftarrow> WriteRegister m (int PCReg) f_wrapper;
     m \<leftarrow> WriteRegister m (int NextPCReg) (f_wrapper + 4);
     m \<leftarrow> WriteRegister m (int StackReg) (of_int newSP);
     m \<leftarrow> WriteRegister m 4 arg;
     m \<leftarrow> WriteRegister m 5 f;
     Some (set_pos t In_user (us\<lparr>procs := (procs us)\<lparr>mach := m\<rparr>\<rparr>))
   }"

text \<open>
  \<open>do_UserThreadCreate\<close> for the caller \<open>t\<close>; \<open>n\<close> is the address of the new object. When there is no room the object
  and its id are lost.
\<close>

definition do_UserThreadCreate :: "nat \<Rightarrow> nat \<Rightarrow> u32 \<Rightarrow> u32 \<Rightarrow> u32 \<Rightarrow> UserSys \<Rightarrow> (int \<times> UserSys) option" where
  "do_UserThreadCreate t n f_wrapper f arg us = do {
     th \<leftarrow> uthreads us t;
     a \<leftarrow> ut_space th;
     (tid, us) \<leftarrow> new_tid us;
     (idx, ps) \<leftarrow> AllocateThreadData a tid (procs us);
     if idx = - 1 \<or> tid = - 1 then Some (- 1, us\<lparr>procs := ps\<rparr>)
     else do {
       sp \<leftarrow> spaces ps a;
       let ps = ps\<lparr>spaces := (spaces ps)(a \<mapsto> sp\<lparr>nThreads := nThreads sp + 1\<rparr>)\<rparr>;
       let us = us\<lparr>procs := ps, uthreads := (uthreads us)(n \<mapsto> \<lparr>ut_tid = tid, ut_space = Some a, isMain = False,
         upos = Starting, ut_args = (f_wrapper, f, arg)\<rparr>)\<rparr>;
       Some (0, set_pos t (Creating n) us)
     }
   }"

text \<open>Its last line, which reads the object without the lock.\<close>

definition UserThreadCreate_result :: "nat \<Rightarrow> UserSys \<Rightarrow> (int \<times> UserSys) option" where
  "UserThreadCreate_result t us = do {
     th \<leftarrow> uthreads us t;
     newThread \<leftarrow> (case upos th of Creating n \<Rightarrow> uthreads us n | _ \<Rightarrow> None);
     r \<leftarrow> GetUserThreadId (ut_tid newThread) us;
     Some (r, set_pos t In_user us)
   }"

definition do_UserThreadExit :: "nat \<Rightarrow> UserSys \<Rightarrow> UserSys option" where
  "do_UserThreadExit t us = do {
     th \<leftarrow> uthreads us t;
     a \<leftarrow> ut_space th;
     tinfo \<leftarrow> GetThreadInfoFromTid (tids us) (procs us) (ut_tid th);
     ASSERT (tinfo \<noteq> None);
     let us = cond_broadcast (Thread_cond (ut_tid th)) us;
     (b, ps) \<leftarrow> DeleteThreadData a (ut_tid th) (tids us) (procs us);
     sp \<leftarrow> spaces ps a;
     let sp = sp\<lparr>nThreads := nThreads sp - 1\<rparr>;
     let us = us\<lparr>tids := b, procs := ps\<lparr>spaces := (spaces ps)(a \<mapsto> sp)\<rparr>\<rparr>;
     let us = (if nThreads sp = 0 then cond_signal (NThreads_cond a) us else us);
     Some (set_pos t Finished us)
   }"

text \<open>The loop of \<open>do_UserThreadJoin\<close>, up to the next wait.\<close>

definition join_loop :: "nat \<Rightarrow> u32 \<Rightarrow> thread_info option \<Rightarrow> UserSys \<Rightarrow> UserSys option" where
  "join_loop t u tinfo us = (case tinfo of
       None \<Rightarrow> Some (set_pos t In_user us)
     | Some i \<Rightarrow> if thread_id i < MaxThreads then do {
         b \<leftarrow> BitMap_Test (tids us) (thread_id i);
         if b then do {
           th \<leftarrow> uthreads us t;
           a \<leftarrow> ut_space th;
           sp \<leftarrow> spaces (procs us) a;
           tinfo \<leftarrow> GetThreadInfoFromUserthreadId sp u;
           i \<leftarrow> tinfo;
           Some (cond_wait (Thread_cond (thread_id i)) t (set_pos t (Joining u i) us))
         } else Some (set_pos t In_user us)
       } else Some (set_pos t In_user us))"

definition do_UserThreadJoin :: "nat \<Rightarrow> u32 \<Rightarrow> UserSys \<Rightarrow> UserSys option" where
  "do_UserThreadJoin t u us = do {
     th \<leftarrow> uthreads us t;
     a \<leftarrow> ut_space th;
     sp \<leftarrow> spaces (procs us) a;
     tinfo \<leftarrow> GetThreadInfoFromUserthreadId sp u;
     join_loop t u tinfo us
   }"

subsection \<open>Processes\<close>

text \<open>\<open>do_ForkExec\<close>, in its three parts: counting the process, forking, and the result once \<open>semFORK\<close> is signalled.\<close>

definition ForkExec_count :: "nat \<Rightarrow> nat \<Rightarrow> UserSys \<Rightarrow> (int \<times> UserSys) option" where
  "ForkExec_count t n us = do {
     (tid, us) \<leftarrow> new_tid us;
     if nUsedAddrSpace us \<ge> MaxProcesses then Some (- 1, us)
     else Some (0, set_pos t (Forking n) (us\<lparr>nUsedAddrSpace := nUsedAddrSpace us + 1,
       uthreads := (uthreads us)(n \<mapsto> \<lparr>ut_tid = tid, ut_space = None, isMain = True, upos = Counted, ut_args = (0, 0, 0)\<rparr>)\<rparr>))
   }"

text \<open>The new \<open>thread_info\<close> keeps what the memory held (\<open>stale\<close>).\<close>

definition ForkExec_fork :: "nat \<Rightarrow> thread_info \<Rightarrow> UserSys \<Rightarrow> UserSys option" where
  "ForkExec_fork t stale us = do {
     th \<leftarrow> uthreads us t;
     n \<leftarrow> (case upos th of Forking n \<Rightarrow> Some n | _ \<Rightarrow> None);
     newThread \<leftarrow> uthreads us n;
     ASSERT (0 \<le> ut_tid newThread \<and> ut_tid newThread < MaxThreads);
     let ps = (procs us)\<lparr>threadsInfos := (threadsInfos (procs us))(ut_tid newThread \<mapsto> stale)\<rparr>;
     Some (set_pos t (Awaiting n) (set_pos n Forked (set_space n (ut_space th) (us\<lparr>procs := ps\<rparr>))))
   }"

definition ForkExec_result :: "nat \<Rightarrow> UserSys \<Rightarrow> (int \<times> UserSys) option" where
  "ForkExec_result t us = do {
     th \<leftarrow> uthreads us t;
     newThread \<leftarrow> (case upos th of Awaiting n \<Rightarrow> uthreads us n | _ \<Rightarrow> None);
     let us = set_pos t In_user (us\<lparr>semFORK := semFORK us - 1\<rparr>);
     case ut_space newThread of None \<Rightarrow> Some (- 1, us)
     | Some a \<Rightarrow> do { sp \<leftarrow> spaces (procs us) a; Some (pid sp, us) }
   }"

text \<open>
  \<open>StartProcess\<close>, with the executable that \<open>Open\<close> has found, and when it has found none. It ends in user code, or returns
  to \<open>run_ForkExec\<close>, which calls \<open>endProcess\<close>.
\<close>

definition StartProcess :: "(nat \<Rightarrow> nat \<Rightarrow> u32) \<Rightarrow> (nat \<Rightarrow> nat \<Rightarrow> byte) \<Rightarrow> handler \<Rightarrow> dev \<Rightarrow> OpenFile \<Rightarrow> nat \<Rightarrow> nat \<Rightarrow> UserSys \<Rightarrow> UserSys option" where
  "StartProcess heap stale eh v executable a t us = do {
     ps \<leftarrow> AddrSpace_load heap stale eh v executable a (procs us);
     sp \<leftarrow> spaces ps a;
     m \<leftarrow> InitRegisters sp (mach ps);
     let us = us\<lparr>procs := ps\<lparr>mach := RestoreState sp m\<rparr>, semFORK := semFORK us + 1\<rparr>;
     Some (set_pos t In_user (set_space t (Some a) us))
   }"

definition StartProcess_fails :: "nat \<Rightarrow> UserSys \<Rightarrow> UserSys" where
  "StartProcess_fails t us = set_pos t Ending (set_space t None (us\<lparr>semFORK := semFORK us + 1\<rparr>))"

definition main_loop :: "nat \<Rightarrow> nat \<Rightarrow> UserSys \<Rightarrow> UserSys option" where
  "main_loop t a us = do {
     sp \<leftarrow> spaces (procs us) a;
     if nThreads sp \<noteq> 0 then Some (cond_wait (NThreads_cond a) t (set_pos t Main_exiting us))
     else Some (set_pos t Ending us)
   }"

definition synchThreadsMainExit :: "nat \<Rightarrow> UserSys \<Rightarrow> UserSys option" where
  "synchThreadsMainExit t us = do {
     th \<leftarrow> uthreads us t;
     a \<leftarrow> ut_space th;
     ps \<leftarrow> clear_pid a (procs us);
     main_loop t a (cond_broadcast (ProcessJoin_cond a) (us\<lparr>procs := ps\<rparr>))
   }"

definition endProcess :: "nat \<Rightarrow> UserSys \<Rightarrow> UserSys option" where
  "endProcess t us = do {
     th \<leftarrow> uthreads us t;
     ps \<leftarrow> (case ut_space th of None \<Rightarrow> Some (procs us) | Some a \<Rightarrow> delete_space a (procs us));
     t_info \<leftarrow> GetThreadInfoFromTid (tids us) (procs us) (ut_tid th);
     let us = us\<lparr>procs := ps\<rparr>;
     if nUsedAddrSpace us = 0 then Some (us\<lparr>halted := True\<rparr>)
     else do {
       us \<leftarrow> (if t_info = None then Some us else do {
         b \<leftarrow> BitMap_Clear (tids us) (ut_tid th);
         Some (cond_broadcast (Thread_cond (ut_tid th)) (us\<lparr>tids := b\<rparr>))
       });
       Some (set_pos t Finished (us\<lparr>nUsedAddrSpace := nUsedAddrSpace us - 1\<rparr>))
     }
   }"

text \<open>The loop of \<open>do_ProcessJoin\<close>; \<open>space\<close> is the pointer that \<open>addrspaces\<close> held at the start.\<close>

definition process_loop :: "nat \<Rightarrow> int \<Rightarrow> nat option \<Rightarrow> UserSys \<Rightarrow> UserSys option" where
  "process_loop t p space us = (case space of
       None \<Rightarrow> Some (set_pos t In_user us)
     | Some a \<Rightarrow> do {
         b \<leftarrow> BitMap_Test (pidMap (procs us)) p;
         if b then do {
           ASSERT (spaces (procs us) a \<noteq> None);
           Some (cond_wait (ProcessJoin_cond a) t (set_pos t (Joining_process p a) us))
         } else Some (set_pos t In_user us)
       })"

definition do_ProcessJoin :: "nat \<Rightarrow> int \<Rightarrow> UserSys \<Rightarrow> UserSys option" where
  "do_ProcessJoin t p us =
     (if p < 0 \<or> p > MaxProcesses then Some us
      else do { ASSERT (p < MaxProcesses); process_loop t p (addrspaces (procs us) p) us })"

subsection \<open>Semaphores of user programs\<close>

text \<open>
  \<open>semList\<close> holds the address of the kernel semaphore behind each id, \<open>semObjects\<close> the live ones with the value they
  were made with; \<open>k\<close> is the address that \<open>new Semaphore\<close> returns. Posting and waiting yield the semaphore to call \<open>V\<close> or
  \<open>P\<close> on, if any.
\<close>

definition do_SemInit :: "nat \<Rightarrow> int \<Rightarrow> nat \<Rightarrow> UserSys \<Rightarrow> (int \<times> UserSys) option" where
  "do_SemInit a initValue k us = do {
     sp \<leftarrow> spaces (procs us) a;
     (semId, b) \<leftarrow> BitMap_Find (semBitmap sp);
     let us = us\<lparr>procs := (procs us)\<lparr>spaces := (spaces (procs us))(a \<mapsto> sp\<lparr>semBitmap := b\<rparr>)\<rparr>\<rparr>;
     if semId \<noteq> - 1 then Some (semId, us\<lparr>semList := (semList us)(a := (semList us a)(semId \<mapsto> k)), semObjects := (semObjects us)(k \<mapsto> initValue)\<rparr>)
     else Some (semId, us)
   }"

definition sem_target :: "nat \<Rightarrow> int \<Rightarrow> UserSys \<Rightarrow> nat option option" where
  "sem_target a semId us = do {
     sp \<leftarrow> spaces (procs us) a;
     if semId < MAX_SEM then do {
       b \<leftarrow> BitMap_Test (semBitmap sp) semId;
       Some (if b then semList us a semId else None)
     } else Some None
   }"

definition do_SemPost :: "nat \<Rightarrow> int \<Rightarrow> UserSys \<Rightarrow> nat option option" where
  "do_SemPost a semId us = sem_target a semId us"

definition do_SemWait :: "nat \<Rightarrow> int \<Rightarrow> UserSys \<Rightarrow> nat option option" where
  "do_SemWait a semId us = sem_target a semId us"

definition do_SemDestroy :: "nat \<Rightarrow> int \<Rightarrow> UserSys \<Rightarrow> UserSys option" where
  "do_SemDestroy a semId us = do {
     k \<leftarrow> sem_target a semId us;
     case k of None \<Rightarrow> Some us
     | Some k \<Rightarrow> do {
       sp \<leftarrow> spaces (procs us) a;
       b \<leftarrow> BitMap_Clear (semBitmap sp) semId;
       Some (us\<lparr>procs := (procs us)\<lparr>spaces := (spaces (procs us))(a \<mapsto> sp\<lparr>semBitmap := b\<rparr>)\<rparr>,
         semList := (semList us)(a := (semList us a)(semId := None)), semObjects := (semObjects us)(k := None)\<rparr>)
     }
   }"

section \<open>Runs\<close>

text \<open>
  The steps of the system. The ids that a process gives its threads do not wrap around (the process would have to
  create four billion threads), executables are loadable, and the first program, started from \<open>main\<close>, can be opened.
\<close>

abbreviation at :: "UserSys \<Rightarrow> nat \<Rightarrow> upos \<Rightarrow> uthread \<Rightarrow> bool" where
  "at us t q th \<equiv> \<not> halted us \<and> uthreads us t = Some th \<and> upos th = q"

definition room_for_id :: "UserSys \<Rightarrow> uthread \<Rightarrow> bool" where
  "room_for_id us th = (case ut_space th of None \<Rightarrow> True | Some a \<Rightarrow>
     (case spaces (procs us) a of None \<Rightarrow> True | Some sp \<Rightarrow> unat (nextUserThreadid sp) + 1 < 2 ^ 32))"

inductive ustep :: "UserSys \<Rightarrow> UserSys \<Rightarrow> bool" where
  create: "at us t In_user th \<Longrightarrow> uthreads us n = None \<Longrightarrow> room_for_id us th \<Longrightarrow>
    do_UserThreadCreate t n fw f arg us = Some (r, us') \<Longrightarrow> ustep us us'"
| created: "at us t (Creating n) th \<Longrightarrow> UserThreadCreate_result t us = Some (r, us') \<Longrightarrow> ustep us us'"
| start: "at us t Starting th \<Longrightarrow> StartUserThread t us = Some us' \<Longrightarrow> ustep us us'"
| exit: "at us t In_user th \<Longrightarrow> \<not> isMain th \<Longrightarrow> do_UserThreadExit t us = Some us' \<Longrightarrow> ustep us us'"
| join: "at us t In_user th \<Longrightarrow> do_UserThreadJoin t u us = Some us' \<Longrightarrow> ustep us us'"
| join_again: "at us t (Joining u i) th \<Longrightarrow> \<not> waiting us t \<Longrightarrow> join_loop t u (Some i) us = Some us' \<Longrightarrow> ustep us us'"
| main_exit: "at us t In_user th \<Longrightarrow> isMain th \<Longrightarrow> synchThreadsMainExit t us = Some us' \<Longrightarrow> ustep us us'"
| main_again: "at us t Main_exiting th \<Longrightarrow> \<not> waiting us t \<Longrightarrow> ut_space th = Some a \<Longrightarrow> main_loop t a us = Some us' \<Longrightarrow> ustep us us'"
| end_process: "at us t Ending th \<Longrightarrow> endProcess t us = Some us' \<Longrightarrow> ustep us us'"
| count: "at us t In_user th \<Longrightarrow> uthreads us n = None \<Longrightarrow> ForkExec_count t n us = Some (r, us') \<Longrightarrow> ustep us us'"
| fork: "at us t (Forking n) th \<Longrightarrow> ForkExec_fork t stale us = Some us' \<Longrightarrow> ustep us us'"
| result: "at us t (Awaiting n) th \<Longrightarrow> semFORK us \<noteq> 0 \<Longrightarrow> ForkExec_result t us = Some (r, us') \<Longrightarrow> ustep us us'"
| load: "at us t Forked th \<Longrightarrow> spaces (procs us) a = None \<Longrightarrow> dev_wf v \<Longrightarrow> maps_to v (hdr f) bl ix \<Longrightarrow>
    loadable (contents v (hdr f) bl) \<Longrightarrow> StartProcess heap stale_bytes eh v f a t us = Some us' \<Longrightarrow> ustep us us'"
| fail: "at us t Forked th \<Longrightarrow> ut_tid th \<noteq> 0 \<Longrightarrow> ustep us (StartProcess_fails t us)"
| process_join: "at us t In_user th \<Longrightarrow> do_ProcessJoin t p us = Some us' \<Longrightarrow> ustep us us'"
| process_again: "at us t (Joining_process p a) th \<Longrightarrow> \<not> waiting us t \<Longrightarrow> process_loop t p (Some a) us = Some us' \<Longrightarrow> ustep us us'"
| sbrk: "at us t In_user th \<Longrightarrow> ut_space th = Some a \<Longrightarrow> do_Sbrk a m (procs us) = Some (k, ps) \<Longrightarrow> ustep us (us\<lparr>procs := ps\<rparr>)"
| sem_init: "at us t In_user th \<Longrightarrow> ut_space th = Some a \<Longrightarrow> do_SemInit a v k us = Some (r, us') \<Longrightarrow> ustep us us'"
| sem_destroy: "at us t In_user th \<Longrightarrow> ut_space th = Some a \<Longrightarrow> do_SemDestroy a s us = Some us' \<Longrightarrow> ustep us us'"
| reap: "at us t Finished th \<Longrightarrow> ustep us (us\<lparr>uthreads := (uthreads us)(t := None)\<rparr>)"

text \<open>The state in which the first thread, which has id 0, is about to start the first program.\<close>

definition us_boot :: "(nat \<Rightarrow> nat \<Rightarrow> u32) \<Rightarrow> u32 \<Rightarrow> bool \<Rightarrow> nat \<Rightarrow> UserSys option" where
  "us_boot heap size0 debug t = do {
     ps \<leftarrow> procs_boot heap size0 debug;
     b \<leftarrow> BitMap_new (heap 2) MaxThreads;
     (tid, us) \<leftarrow> new_tid \<lparr>procs = ps, tids = b, lastTid = 0, nUsedAddrSpace = 0, uthreads = Map.empty, conds = (\<lambda>c. []),
       semFORK = - 1, semList = (\<lambda>a. Map.empty), semObjects = Map.empty, halted = False\<rparr>;
     Some (us\<lparr>uthreads := [t \<mapsto> \<lparr>ut_tid = tid, ut_space = None, isMain = True, upos = Forked, ut_args = (0, 0, 0)\<rparr>]\<rparr>)
   }"

end
