(* ===== verification/UserRuns.thy ===== *)
theory UserRuns
  imports UserThreads
begin

text \<open>
  Correctness of the user threads and processes of \<open>UserThreads\<close>: an invariant of every run, which relates the threads,
  the slots and counters of the address spaces, the maps of ids and the queues of the conditions. What follows for the
  life of threads and processes is in \<open>UserLife\<close>.
\<close>

section \<open>The invariant\<close>

text \<open>
  Of a thread the invariant only sees its id, its space and the stage of its life: it runs a program (\<open>Run\<close>), is a main
  thread in \<open>synchThreadsMainExit\<close> (\<open>Exiting\<close>) or after it (\<open>Last\<close>), has been made by \<open>do_ForkExec\<close> (\<open>New\<close>, then \<open>Launched\<close>), or has
  ended (\<open>Gone\<close>).
\<close>

datatype stage = Run | Exiting | Last | New | Launched | Gone

fun stage_of :: "upos \<Rightarrow> stage" where
  "stage_of Main_exiting = Exiting"
| "stage_of Ending = Last"
| "stage_of Counted = New"
| "stage_of Forked = Launched"
| "stage_of Finished = Gone"
| "stage_of _ = Run"

record member =
  m_tid :: int
  m_space :: "nat option"
  m_main :: bool
  m_stage :: stage

definition member_of :: "uthread \<Rightarrow> member" where
  "member_of th = \<lparr>m_tid = ut_tid th, m_space = ut_space th, m_main = isMain th, m_stage = stage_of (upos th)\<rparr>"

definition members :: "UserSys \<Rightarrow> nat \<rightharpoonup> member" where
  "members us = (\<lambda>t. map_option member_of (uthreads us t))"

definition user_in :: "nat \<Rightarrow> member \<Rightarrow> bool" where
  "user_in a m \<longleftrightarrow> \<not> m_main m \<and> m_stage m \<noteq> Gone \<and> m_space m = Some a"

definition main_in :: "nat \<Rightarrow> member \<Rightarrow> bool" where
  "main_in a m \<longleftrightarrow> m_main m \<and> m_stage m \<in> {Run, Exiting, Last} \<and> m_space m = Some a"

text \<open>
  A space is in order when its counter is the number of slots in use, each of them belongs to a user thread of its own
  that has not ended, and it has a main thread.
\<close>

definition space_wf :: "(nat \<rightharpoonup> member) \<Rightarrow> nat \<Rightarrow> AddrSpace \<Rightarrow> bool" where
  "space_wf V a sp \<longleftrightarrow> threads_ok sp \<and> nThreads sp = int (card (marked (threadsBitmap sp)))
     \<and> (\<forall>i<7. \<forall>x. localThreadsInfos sp ! i = Some x \<longrightarrow> (\<exists>t m. V t = Some m \<and> user_in a m \<and> m_tid m = thread_id x))
     \<and> (\<forall>i<7. \<forall>j<7. \<forall>x y. localThreadsInfos sp ! i = Some x \<longrightarrow> localThreadsInfos sp ! j = Some y \<longrightarrow> thread_id x = thread_id y \<longrightarrow> i = j)
     \<and> (\<exists>t m. V t = Some m \<and> main_in a m)"

definition registered :: "Procs \<Rightarrow> nat \<Rightarrow> int \<Rightarrow> bool" where
  "registered ps a tid \<longleftrightarrow> 0 < tid \<and> (\<exists>sp i x. spaces ps a = Some sp \<and> i < 7 \<and> localThreadsInfos sp ! i = Some x
     \<and> threadsInfos ps tid = Some x \<and> thread_id x = tid)"

definition user_ok :: "Procs \<Rightarrow> member \<Rightarrow> bool" where
  "user_ok ps m \<longleftrightarrow> m_stage m = Run \<and> (\<exists>a. m_space m = Some a \<and> registered ps a (m_tid m))"

definition main_ok :: "Procs \<Rightarrow> member \<Rightarrow> bool" where
  "main_ok ps m \<longleftrightarrow> (m_stage m \<in> {Run, Exiting} \<longrightarrow> m_space m \<noteq> None)
     \<and> (\<forall>a. main_in a m \<longrightarrow> (\<exists>sp. spaces ps a = Some sp \<and> (m_stage m = Last \<longrightarrow> nThreads sp = 0)
          \<and> (m_stage m = Run \<longrightarrow> pid sp \<in> marked (pidMap ps) \<and> addrspaces ps (pid sp) = Some a)))"

definition table_ok :: "Procs \<Rightarrow> (nat \<rightharpoonup> member) \<Rightarrow> bool" where
  "table_ok ps V \<longleftrightarrow> (\<forall>a sp. spaces ps a = Some sp \<longrightarrow> space_wf V a sp)
     \<and> (\<forall>t m. V t = Some m \<longrightarrow> m_stage m \<noteq> Gone \<longrightarrow> (if m_main m then main_ok ps m else user_ok ps m))
     \<and> (\<forall>t u m n a. V t = Some m \<longrightarrow> V u = Some n \<longrightarrow> main_in a m \<longrightarrow> main_in a n \<longrightarrow> t = u)
     \<and> (\<forall>p\<in>marked (pidMap ps). \<exists>a sp t m. addrspaces ps p = Some a \<and> spaces ps a = Some sp \<and> pid sp = p
          \<and> V t = Some m \<and> main_in a m \<and> m_stage m = Run)"

text \<open>Ids: every thread that has not ended has one of its own; a process that found none never gets to run.\<close>

definition tids_ok :: "BitMap \<Rightarrow> int \<Rightarrow> (nat \<rightharpoonup> member) \<Rightarrow> bool" where
  "tids_ok b k V \<longleftrightarrow> bitmap_wf b \<and> numBits b = MaxThreads \<and> 0 \<le> k \<and> 0 \<in> marked b
     \<and> (\<forall>t m. V t = Some m \<longrightarrow> m_stage m \<noteq> Gone \<longrightarrow> m_tid m \<in> marked b \<or> m_stage m = New \<and> m_tid m = - 1)
     \<and> (\<forall>t u m n. V t = Some m \<longrightarrow> V u = Some n \<longrightarrow> m_stage m \<noteq> Gone \<longrightarrow> m_stage n \<noteq> Gone \<longrightarrow> m_tid m = m_tid n \<longrightarrow>
          m_tid m \<noteq> - 1 \<longrightarrow> t = u)"

definition mains :: "(nat \<rightharpoonup> member) \<Rightarrow> nat set" where
  "mains V = {t. \<exists>m. V t = Some m \<and> m_main m \<and> m_stage m \<noteq> Gone}"

definition count_ok :: "int \<Rightarrow> (nat \<rightharpoonup> member) \<Rightarrow> bool" where
  "count_ok k V \<longleftrightarrow> finite (dom V) \<and> k + 1 = int (card (mains V))"

text \<open>
  Queues: who waits on a condition waits for something that is still to come: a thread that has not ended, the other
  threads of its process, a process that has not exited (unless its pid has been given to another one).
\<close>

definition wait_ok :: "Procs \<Rightarrow> uthread \<Rightarrow> bool" where
  "wait_ok ps th = (case upos th of
       Joining u x \<Rightarrow> \<exists>a sp i. ut_space th = Some a \<and> spaces ps a = Some sp \<and> i < 7 \<and> localThreadsInfos sp ! i = Some x \<and> userthread_id x = u
     | Main_exiting \<Rightarrow> \<exists>a sp. ut_space th = Some a \<and> spaces ps a = Some sp \<and> nThreads sp \<noteq> 0
     | Joining_process p a \<Rightarrow> addrspaces ps p = Some a \<longrightarrow> p \<in> marked (pidMap ps)
     | _ \<Rightarrow> False)"

definition queues_ok :: "UserSys \<Rightarrow> bool" where
  "queues_ok us \<longleftrightarrow> (\<forall>c. distinct (conds us c)) \<and> (\<forall>c. \<forall>t\<in>set (conds us c). \<exists>th. uthreads us t = Some th
     \<and> waits_on (upos th) (ut_space th) = Some c \<and> wait_ok (procs us) th)"

definition uinv :: "UserSys \<Rightarrow> bool" where
  "uinv us \<longleftrightarrow> procs_ok (procs us) \<and> table_ok (procs us) (members us) \<and> tids_ok (tids us) (lastTid us) (members us)
     \<and> count_ok (nUsedAddrSpace us) (members us) \<and> queues_ok us"

lemma uinvD:
  assumes "uinv us"
  shows "procs_ok (procs us)" "table_ok (procs us) (members us)" "tids_ok (tids us) (lastTid us) (members us)"
    "count_ok (nUsedAddrSpace us) (members us)" "queues_ok us"
  using assms by (simp_all add: uinv_def)

subsection \<open>Reading the parts\<close>

lemma member_of_simps [simp]:
  "m_tid (member_of th) = ut_tid th" "m_space (member_of th) = ut_space th" "m_main (member_of th) = isMain th"
  "m_stage (member_of th) = stage_of (upos th)"
  by (simp_all add: member_of_def)

lemma stage_Gone [simp]: "stage_of q = Gone \<longleftrightarrow> q = Finished"
  by (cases q) simp_all

lemma members_thread: "uthreads us t = Some th \<Longrightarrow> members us t = Some (member_of th)"
  by (simp add: members_def)

lemma members_Some: "members us t = Some m \<longleftrightarrow> (\<exists>th. uthreads us t = Some th \<and> m = member_of th)"
  by (auto simp: members_def)

lemma members_updates [simp]:
  "members (us\<lparr>procs := ps\<rparr>) = members us" "members (us\<lparr>tids := b\<rparr>) = members us" "members (us\<lparr>lastTid := k\<rparr>) = members us"
  "members (us\<lparr>nUsedAddrSpace := k\<rparr>) = members us" "members (us\<lparr>conds := q\<rparr>) = members us" "members (us\<lparr>semFORK := k\<rparr>) = members us"
  "members (us\<lparr>semList := sl\<rparr>) = members us" "members (us\<lparr>semObjects := so\<rparr>) = members us" "members (us\<lparr>halted := h\<rparr>) = members us"
  "members (us\<lparr>uthreads := f\<rparr>) = (\<lambda>t. map_option member_of (f t))"
  by (simp_all add: members_def)

lemma members_set_pos: "uthreads us t = Some th \<Longrightarrow> members (set_pos t q us) = (members us)(t \<mapsto> (member_of th)\<lparr>m_stage := stage_of q\<rparr>)"
  by (auto simp: set_pos_def members_def member_of_def fun_eq_iff)

lemma set_pos_simps [simp]:
  "procs (set_pos t q us) = procs us" "tids (set_pos t q us) = tids us" "lastTid (set_pos t q us) = lastTid us"
  "nUsedAddrSpace (set_pos t q us) = nUsedAddrSpace us" "conds (set_pos t q us) = conds us" "semFORK (set_pos t q us) = semFORK us"
  "halted (set_pos t q us) = halted us"
  "uthreads (set_pos t q us) = (uthreads us)(t := map_option (\<lambda>th. th\<lparr>upos := q\<rparr>) (uthreads us t))"
  by (simp_all add: set_pos_def)

lemma set_space_simps [simp]:
  "procs (set_space t a us) = procs us" "tids (set_space t a us) = tids us" "lastTid (set_space t a us) = lastTid us"
  "nUsedAddrSpace (set_space t a us) = nUsedAddrSpace us" "conds (set_space t a us) = conds us" "semFORK (set_space t a us) = semFORK us"
  "halted (set_space t a us) = halted us"
  "uthreads (set_space t a us) = (uthreads us)(t := map_option (\<lambda>th. th\<lparr>ut_space := a\<rparr>) (uthreads us t))"
  by (simp_all add: set_space_def)

lemma cond_simps [simp]:
  "procs (cond_wait c t us) = procs us" "tids (cond_wait c t us) = tids us" "lastTid (cond_wait c t us) = lastTid us"
  "nUsedAddrSpace (cond_wait c t us) = nUsedAddrSpace us" "uthreads (cond_wait c t us) = uthreads us" "halted (cond_wait c t us) = halted us"
  "procs (cond_signal c us) = procs us" "tids (cond_signal c us) = tids us" "lastTid (cond_signal c us) = lastTid us"
  "nUsedAddrSpace (cond_signal c us) = nUsedAddrSpace us" "uthreads (cond_signal c us) = uthreads us" "halted (cond_signal c us) = halted us"
  "procs (cond_broadcast c us) = procs us" "tids (cond_broadcast c us) = tids us" "lastTid (cond_broadcast c us) = lastTid us"
  "nUsedAddrSpace (cond_broadcast c us) = nUsedAddrSpace us" "uthreads (cond_broadcast c us) = uthreads us" "halted (cond_broadcast c us) = halted us"
  "members (cond_wait c t us) = members us" "members (cond_signal c us) = members us" "members (cond_broadcast c us) = members us"
  by (simp_all add: cond_wait_def cond_signal_def cond_broadcast_def members_def)

lemma conds_simps [simp]:
  "conds (cond_wait c t us) = (conds us)(c := conds us c @ [t])" "conds (cond_signal c us) = (conds us)(c := tl (conds us c))"
  "conds (cond_broadcast c us) = (conds us)(c := [])"
  by (simp_all add: cond_wait_def cond_signal_def cond_broadcast_def)

lemma table_okD:
  assumes "table_ok ps V"
  shows "spaces ps a = Some sp \<Longrightarrow> space_wf V a sp"
    "V t = Some m \<Longrightarrow> m_stage m \<noteq> Gone \<Longrightarrow> m_main m \<Longrightarrow> main_ok ps m"
    "V t = Some m \<Longrightarrow> m_stage m \<noteq> Gone \<Longrightarrow> \<not> m_main m \<Longrightarrow> user_ok ps m"
    "V t = Some m \<Longrightarrow> V u = Some n \<Longrightarrow> main_in a m \<Longrightarrow> main_in a n \<Longrightarrow> t = u"
    "p \<in> marked (pidMap ps) \<Longrightarrow> \<exists>a sp t m. addrspaces ps p = Some a \<and> spaces ps a = Some sp \<and> pid sp = p
      \<and> V t = Some m \<and> main_in a m \<and> m_stage m = Run"
  using assms unfolding table_ok_def by (auto split: if_splits)

lemma space_wfD:
  assumes "space_wf V a sp"
  shows "threads_ok sp" "nThreads sp = int (card (marked (threadsBitmap sp)))"
    "i < 7 \<Longrightarrow> localThreadsInfos sp ! i = Some x \<Longrightarrow> \<exists>t m. V t = Some m \<and> user_in a m \<and> m_tid m = thread_id x"
    "i < 7 \<Longrightarrow> j < 7 \<Longrightarrow> localThreadsInfos sp ! i = Some x \<Longrightarrow> localThreadsInfos sp ! j = Some y \<Longrightarrow> thread_id x = thread_id y \<Longrightarrow> i = j"
    "\<exists>t m. V t = Some m \<and> main_in a m"
    "i < 7 \<Longrightarrow> localThreadsInfos sp ! i = Some x \<Longrightarrow> nThreads sp \<noteq> 0"
proof -
  show "nThreads sp \<noteq> 0" if "i < 7" "localThreadsInfos sp ! i = Some x"
  proof -
    have "int i \<in> marked (threadsBitmap sp)" using assms that by (simp add: space_wf_def threads_ok_def)
    then show ?thesis using assms by (auto simp: space_wf_def)
  qed
qed (use assms in \<open>unfold space_wf_def, blast+\<close>)

lemma tids_okD:
  assumes "tids_ok b k V"
  shows "bitmap_wf b" "numBits b = MaxThreads" "0 \<le> k" "0 \<in> marked b"
    "V t = Some m \<Longrightarrow> m_stage m \<noteq> Gone \<Longrightarrow> m_tid m \<in> marked b \<or> m_stage m = New \<and> m_tid m = - 1"
    "V t = Some m \<Longrightarrow> V u = Some n \<Longrightarrow> m_stage m \<noteq> Gone \<Longrightarrow> m_stage n \<noteq> Gone \<Longrightarrow> m_tid m = m_tid n \<Longrightarrow> m_tid m \<noteq> - 1 \<Longrightarrow> t = u"
  using assms unfolding tids_ok_def by blast+

lemma queues_okD:
  assumes "queues_ok us" "t \<in> set (conds us c)"
  obtains th where "uthreads us t = Some th" "waits_on (upos th) (ut_space th) = Some c" "wait_ok (procs us) th"
  using assms unfolding queues_ok_def by blast

lemma not_queued: "queues_ok us \<Longrightarrow> \<not> waiting us t \<Longrightarrow> t \<notin> set (conds us c)"
  by (auto elim!: queues_okD simp: waiting_def)

lemma not_waiting: "uthreads us t = Some th \<Longrightarrow> waits_on (upos th) (ut_space th) = None \<Longrightarrow> \<not> waiting us t"
  by (simp add: waiting_def)

text \<open>
  A step that only moves thread \<open>t\<close>, which is not queued, may leave queues and add \<open>t\<close> to one.
\<close>

lemma queues_step:
  assumes q: "queues_ok us"
    and c: "\<And>c. distinct (conds us' c)" "\<And>c u. u \<in> set (conds us' c) \<Longrightarrow> u \<noteq> t \<Longrightarrow> u \<in> set (conds us c)"
    and th: "\<And>c u. u \<noteq> t \<Longrightarrow> u \<in> set (conds us' c) \<Longrightarrow> uthreads us' u = uthreads us u"
    and w: "\<And>c u th. u \<noteq> t \<Longrightarrow> u \<in> set (conds us' c) \<Longrightarrow> uthreads us u = Some th \<Longrightarrow> waits_on (upos th) (ut_space th) = Some c \<Longrightarrow>
      wait_ok (procs us) th \<Longrightarrow> wait_ok (procs us') th"
    and t: "\<And>c. t \<in> set (conds us' c) \<Longrightarrow> \<exists>th. uthreads us' t = Some th \<and> waits_on (upos th) (ut_space th) = Some c \<and> wait_ok (procs us') th"
  shows "queues_ok us'"
  unfolding queues_ok_def
proof (intro conjI allI ballI)
  fix c u assume u: "u \<in> set (conds us' c)"
  show "\<exists>th. uthreads us' u = Some th \<and> waits_on (upos th) (ut_space th) = Some c \<and> wait_ok (procs us') th"
  proof (cases "u = t")
    case True
    with t u show ?thesis by blast
  next
    case False
    then show ?thesis
      using queues_okD [OF q c(2) [OF u False]] th [OF False u] w [OF False u] by metis
  qed
qed (rule c(1))

section \<open>Steps that keep threads and slots\<close>

definition alike :: "AddrSpace \<Rightarrow> AddrSpace \<Rightarrow> bool" where
  "alike sp sp' \<longleftrightarrow> threadsBitmap sp' = threadsBitmap sp \<and> localThreadsInfos sp' = localThreadsInfos sp \<and> nThreads sp' = nThreads sp
     \<and> nextUserThreadid sp' = nextUserThreadid sp \<and> pid sp' = pid sp"

definition procs_alike :: "Procs \<Rightarrow> Procs \<Rightarrow> bool" where
  "procs_alike ps ps' \<longleftrightarrow> threadsInfos ps' = threadsInfos ps \<and> pidMap ps' = pidMap ps \<and> addrspaces ps' = addrspaces ps
     \<and> (\<forall>a. rel_option alike (spaces ps a) (spaces ps' a))"

lemma alike_refl [simp]: "alike sp sp" "procs_alike ps ps"
  by (simp_all add: alike_def procs_alike_def option.rel_refl)

lemma procs_alikeD:
  assumes "procs_alike ps ps'"
  shows "threadsInfos ps' = threadsInfos ps" "pidMap ps' = pidMap ps" "addrspaces ps' = addrspaces ps"
    "spaces ps a = Some sp \<Longrightarrow> \<exists>sp'. spaces ps' a = Some sp' \<and> alike sp sp'"
    "spaces ps' a = Some sp' \<Longrightarrow> \<exists>sp. spaces ps a = Some sp \<and> alike sp sp'"
proof -
  have r: "rel_option alike (spaces ps a) (spaces ps' a)" using assms by (simp add: procs_alike_def)
  show "spaces ps a = Some sp \<Longrightarrow> \<exists>sp'. spaces ps' a = Some sp' \<and> alike sp sp'" using r by (auto simp: option_rel_Some1)
  show "spaces ps' a = Some sp' \<Longrightarrow> \<exists>sp. spaces ps a = Some sp \<and> alike sp sp'" using r by (auto simp: option_rel_Some2)
qed (use assms in \<open>simp_all add: procs_alike_def\<close>)

lemma alike_space:
  assumes "spaces ps a = Some sp" "alike sp sp'" "spaces ps' = (spaces ps)(a \<mapsto> sp')" "threadsInfos ps' = threadsInfos ps"
    "pidMap ps' = pidMap ps" "addrspaces ps' = addrspaces ps"
  shows "procs_alike ps ps'"
  using assms by (auto simp: procs_alike_def intro: option.rel_refl)

lemma space_wf_alike:
  assumes "alike sp sp'" "space_wf V a sp"
  shows "space_wf V a sp'"
proof -
  have e: "threadsBitmap sp' = threadsBitmap sp" "localThreadsInfos sp' = localThreadsInfos sp" "nThreads sp' = nThreads sp"
      "nextUserThreadid sp' = nextUserThreadid sp"
    using assms(1) by (simp_all add: alike_def)
  show ?thesis using assms(2) unfolding space_wf_def threads_ok_def e .
qed

lemma registered_alike: "procs_alike ps ps' \<Longrightarrow> registered ps a tid \<Longrightarrow> registered ps' a tid"
  using procs_alikeD(4) [of ps ps' a] by (fastforce simp: registered_def procs_alikeD(1) alike_def)

lemma main_ok_alike: "procs_alike ps ps' \<Longrightarrow> main_ok ps m \<Longrightarrow> main_ok ps' m"
  using procs_alikeD(4) [of ps ps'] by (fastforce simp: main_ok_def procs_alikeD(2,3) alike_def)

lemma table_ok_alike:
  assumes "procs_alike ps ps'" "table_ok ps V"
  shows "table_ok ps' V"
proof -
  have "\<exists>a sp t m. addrspaces ps' p = Some a \<and> spaces ps' a = Some sp \<and> pid sp = p \<and> V t = Some m \<and> main_in a m \<and> m_stage m = Run"
    if "p \<in> marked (pidMap ps')" for p
    using table_okD(5) [OF assms(2), of p] that procs_alikeD(2-4) [OF assms(1)] by (fastforce simp: alike_def)
  moreover have "space_wf V a sp" if "spaces ps' a = Some sp" for a sp
    using procs_alikeD(5) [OF assms(1) that] table_okD(1) [OF assms(2)] space_wf_alike by blast
  moreover have "if m_main m then main_ok ps' m else user_ok ps' m" if "V t = Some m" "m_stage m \<noteq> Gone" for t m
    using table_okD(2,3) [OF assms(2) that] main_ok_alike [OF assms(1)] registered_alike [OF assms(1)] by (auto simp: user_ok_def)
  ultimately show ?thesis using table_okD(4) [OF assms(2)] unfolding table_ok_def by blast
qed

lemma wait_ok_alike: "procs_alike ps ps' \<Longrightarrow> wait_ok ps th \<Longrightarrow> wait_ok ps' th"
  using procs_alikeD(4) [of ps ps'] by (fastforce simp: wait_ok_def procs_alikeD(2,3) alike_def split: upos.splits)

text \<open>A thread moves on within its stage, and may begin to wait.\<close>

lemma uinv_move:
  assumes inv: "uinv us" and t: "uthreads us t = Some th" "\<not> waiting us t" "stage_of q = stage_of (upos th)"
    and us': "procs_ok (procs us')" "procs_alike (procs us) (procs us')" "tids us' = tids us" "lastTid us' = lastTid us"
      "nUsedAddrSpace us' = nUsedAddrSpace us" "uthreads us' = (uthreads us)(t \<mapsto> th\<lparr>upos := q\<rparr>)"
    and c: "conds us' = conds us \<or> (\<exists>c. conds us' = (conds us)(c := conds us c @ [t]) \<and> waits_on q (ut_space th) = Some c
      \<and> wait_ok (procs us') (th\<lparr>upos := q\<rparr>))"
  shows "uinv us'"
proof -
  note I = uinvD [OF inv]
  have m: "members us' = members us"
    using t us'(6) by (auto simp: members_def member_of_def)
  have nq: "t \<notin> set (conds us c)" for c
    using not_queued [OF I(5) t(2)] .
  have "queues_ok us'"
  proof (rule queues_step [OF I(5), where t = t])
    show "distinct (conds us' d)" for d
      using c nq I(5) by (auto simp: queues_ok_def)
    show "u \<in> set (conds us' d) \<Longrightarrow> u \<noteq> t \<Longrightarrow> u \<in> set (conds us d)" for d u
      using c by (auto split: if_splits)
    show "t \<in> set (conds us' d) \<Longrightarrow> \<exists>th. uthreads us' t = Some th \<and> waits_on (upos th) (ut_space th) = Some d \<and> wait_ok (procs us') th" for d
      using c nq us'(6) by (auto split: if_splits)
  qed (use us'(6) wait_ok_alike [OF us'(2)] in auto)
  then show ?thesis
    using us' m I table_ok_alike [OF us'(2)] by (simp add: uinv_def)
qed

text \<open>Nothing but the processes changes.\<close>

lemma uinv_procs:
  assumes inv: "uinv us" and ps: "procs_ok ps" "procs_alike (procs us) ps"
  shows "uinv (us\<lparr>procs := ps, semList := sl, semObjects := so\<rparr>)"
  using assms table_ok_alike [OF ps(2)] wait_ok_alike [OF ps(2)] unfolding uinv_def queues_ok_def by fastforce

lemma like_same_spaces: "spaces ps' = spaces ps \<Longrightarrow> threadsInfos ps' = threadsInfos ps \<Longrightarrow> pidMap ps' = pidMap ps \<Longrightarrow>
  addrspaces ps' = addrspaces ps \<Longrightarrow> procs_alike ps ps'"
  by (simp add: procs_alike_def option.rel_refl)

lemma procs_ok_mach: "procs_ok ps \<Longrightarrow> tlb m = None \<Longrightarrow> procs_ok (ps\<lparr>mach := m\<rparr>)"
  by (simp add: procs_ok_def owned_def)

lemma WriteRegister_tlb: "WriteRegister m r v = Some m' \<Longrightarrow> tlb m' = tlb m"
  by (auto simp: WriteRegister_def set_reg_def)

lemma zero_registers_tlb: "zero_registers i n m = Some m' \<Longrightarrow> tlb m' = tlb m"
  by (induction n arbitrary: i m) (auto simp: bind_Some_iff dest: WriteRegister_tlb)

lemma InitRegisters_tlb: "InitRegisters sp m = Some m' \<Longrightarrow> tlb m' = tlb m"
  by (auto simp: InitRegisters_def bind_Some_iff dest!: WriteRegister_tlb zero_registers_tlb)

lemma step_start:
  assumes inv: "uinv us" and t: "at us t Starting th" and s: "StartUserThread t us = Some us'"
  shows "uinv us'"
proof -
  obtain m where m: "us' = set_pos t In_user (us\<lparr>procs := (procs us)\<lparr>mach := m\<rparr>\<rparr>)" "tlb m = tlb (mach (procs us))"
    using s by (cases "ut_args th" rule: prod_cases3)
      (auto simp: StartUserThread_def bind_Some_iff Let_def RestoreState_def t dest!: WriteRegister_tlb InitRegisters_tlb)
  have "tlb m = None" using m(2) procs_okD(2) [OF uinvD(1) [OF inv]] by simp
  then show ?thesis
    using t m(1) uinvD(1) [OF inv]
    by (intro uinv_move [OF inv, where th = th and q = In_user]) (auto simp: procs_ok_mach not_waiting intro: like_same_spaces)
qed

lemma step_created:
  assumes inv: "uinv us" and t: "at us t (Creating n) th" and s: "UserThreadCreate_result t us = Some (r, us')"
  shows "uinv us'"
  using t s uinvD(1) [OF inv] by (intro uinv_move [OF inv, where th = th and q = In_user])
    (auto simp: UserThreadCreate_result_def bind_Some_iff not_waiting)

lemma step_result:
  assumes inv: "uinv us" and t: "at us t (Awaiting n) th" and s: "ForkExec_result t us = Some (r, us')"
  shows "uinv us'"
proof -
  have "us' = set_pos t In_user (us\<lparr>semFORK := semFORK us - 1\<rparr>)"
    using s by (auto simp: ForkExec_result_def bind_Some_iff Let_def split: option.splits)
  then show ?thesis
    using t uinvD(1) [OF inv] by (intro uinv_move [OF inv, where th = th and q = In_user]) (simp_all add: not_waiting)
qed

lemma Test_Some: "BitMap_Test b i = Some x \<Longrightarrow> 0 \<le> i \<and> i < numBits b \<and> x = (i \<in> marked b)"
  using Test_eq [of i b] Test_None [of i b] by (cases "0 \<le> i \<and> i < numBits b") auto

lemma step_process_loop:
  assumes inv: "uinv us" and t: "uthreads us t = Some th" "\<not> waiting us t" "stage_of (upos th) = Run"
    and s: "process_loop t p space us = Some us'"
  shows "uinv us'"
proof -
  consider (leave) "us' = set_pos t In_user us"
    | (again) a where "space = Some a" "p \<in> marked (pidMap (procs us))" "spaces (procs us) a \<noteq> None"
        "us' = cond_wait (ProcessJoin_cond a) t (set_pos t (Joining_process p a) us)"
    using s by (auto simp: process_loop_def bind_Some_iff dest!: Test_Some split: option.splits if_splits)
  then show ?thesis
  proof cases
    case leave
    then show ?thesis
      using t uinvD(1) [OF inv] by (intro uinv_move [OF inv t(1,2), where q = In_user]) simp_all
  next
    case again
    then show ?thesis
      using t uinvD(1) [OF inv]
      by (intro uinv_move [OF inv t(1,2), where q = "Joining_process p a"]) (auto simp: wait_ok_def)
  qed
qed

lemma step_process_join:
  assumes inv: "uinv us" and t: "at us t In_user th" and s: "do_ProcessJoin t p us = Some us'"
  shows "uinv us'"
proof (cases "us' = us")
  case False
  then have "process_loop t p (addrspaces (procs us) p) us = Some us'"
    using s by (auto simp: do_ProcessJoin_def split: if_splits)
  then show ?thesis
    using t by (intro step_process_loop [OF inv]) (auto simp: not_waiting)
qed (use inv in simp)

lemma found_info:
  assumes "threads_ok sp" "GetThreadInfoFromUserthreadId sp u = Some (Some x)"
  shows "userthread_id x = u \<and> (\<exists>j<7. localThreadsInfos sp ! j = Some x)"
  using found_userthread [OF assms(1), of u 0 7 x] assms(2) by (simp add: GetThreadInfoFromUserthreadId_def)

lemma step_join_loop:
  assumes inv: "uinv us" and t: "uthreads us t = Some th" "\<not> waiting us t" "stage_of (upos th) = Run"
    and s: "join_loop t u tinfo us = Some us'"
  shows "uinv us'"
proof -
  consider (leave) "us' = set_pos t In_user us"
    | (again) a sp x where "ut_space th = Some a" "spaces (procs us) a = Some sp" "GetThreadInfoFromUserthreadId sp u = Some (Some x)"
        "us' = cond_wait (Thread_cond (thread_id x)) t (set_pos t (Joining u x) us)"
    using s t(1) by (auto simp: join_loop_def bind_Some_iff split: option.splits if_splits)
  then show ?thesis
  proof cases
    case leave
    then show ?thesis
      using t uinvD(1) [OF inv] by (intro uinv_move [OF inv t(1,2), where q = In_user]) simp_all
  next
    case again
    have "threads_ok sp"
      using table_okD(1) [OF uinvD(2) [OF inv] again(2)] by (simp add: space_wf_def)
    then have "wait_ok (procs us) (th\<lparr>upos := Joining u x\<rparr>)"
      using found_info [OF _ again(3)] again(1,2) by (auto simp: wait_ok_def)
    then show ?thesis
      using t uinvD(1) [OF inv] again(4) by (intro uinv_move [OF inv t(1,2), where q = "Joining u x"]) auto
  qed
qed

lemma step_join:
  assumes inv: "uinv us" and t: "at us t In_user th" and s: "do_UserThreadJoin t u us = Some us'"
  shows "uinv us'"
proof -
  obtain tinfo where "join_loop t u tinfo us = Some us'"
    using s by (auto simp: do_UserThreadJoin_def bind_Some_iff)
  then show ?thesis
    using t by (intro step_join_loop [OF inv]) (auto simp: not_waiting)
qed

lemma step_uses_memory:
  assumes inv: "uinv us" and s: "do_Sbrk a m (procs us) = Some (k, ps)"
  shows "uinv (us\<lparr>procs := ps\<rparr>)"
proof -
  obtain sp where sp: "spaces (procs us) a = Some sp"
    using s by (auto simp: do_Sbrk_def bind_Some_iff)
  have "procs_alike (procs us) ps"
    using s sp by (auto simp: do_Sbrk_def bind_Some_iff Let_def split: if_splits intro!: alike_space [of _ a sp]) (simp_all add: alike_def)
  then show ?thesis
    using uinv_procs [OF inv, where sl = "semList us" and so = "semObjects us"] step_sbrk [OF uinvD(1) [OF inv] s] by simp
qed

lemma step_sem:
  assumes inv: "uinv us" and sp: "spaces (procs us) a = Some sp"
  shows "uinv (us\<lparr>procs := (procs us)\<lparr>spaces := (spaces (procs us))(a \<mapsto> sp\<lparr>semBitmap := b\<rparr>)\<rparr>, semList := sl, semObjects := so\<rparr>)"
proof (rule uinv_procs [OF inv])
  let ?sp = "sp\<lparr>semBitmap := b\<rparr>"
  show "procs_ok ((procs us)\<lparr>spaces := (spaces (procs us))(a \<mapsto> ?sp)\<rparr>)"
    using thread_step [OF uinvD(1) [OF inv] sp, of "(procs us)\<lparr>spaces := (spaces (procs us))(a \<mapsto> ?sp)\<rparr>" ?sp] by simp
  show "procs_alike (procs us) ((procs us)\<lparr>spaces := (spaces (procs us))(a \<mapsto> ?sp)\<rparr>)"
    by (rule alike_space [OF sp, of ?sp]) (simp_all add: alike_def)
qed

lemma step_sem_init:
  assumes inv: "uinv us" and s: "do_SemInit a v k us = Some (r, us')"
  shows "uinv us'"
proof -
  obtain sp i b where sp: "spaces (procs us) a = Some sp" "BitMap_Find (semBitmap sp) = Some (i, b)"
    using s by (auto simp: do_SemInit_def bind_Some_iff)
  then show ?thesis
    using s step_sem [OF inv sp(1), where b = b and sl = "semList us" and so = "semObjects us"] step_sem [OF inv sp(1)]
    by (auto simp: do_SemInit_def Let_def split: if_splits)
qed

lemma step_sem_destroy:
  assumes inv: "uinv us" and s: "do_SemDestroy a i us = Some us'"
  shows "uinv us'"
proof (cases "us' = us")
  case False
  then obtain sp b k where sp: "spaces (procs us) a = Some sp" "BitMap_Clear (semBitmap sp) i = Some b"
      "us' = us\<lparr>procs := (procs us)\<lparr>spaces := (spaces (procs us))(a \<mapsto> sp\<lparr>semBitmap := b\<rparr>)\<rparr>,
         semList := (semList us)(a := (semList us a)(i := None)), semObjects := (semObjects us)(k := None)\<rparr>"
    using s by (auto simp: do_SemDestroy_def bind_Some_iff split: option.splits)
  then show ?thesis
    using step_sem [OF inv sp(1), where b = b] by simp
qed (use inv in simp)

section \<open>Threads come and go\<close>

text \<open>A thread that runs keeps its space: it has a slot there, or is its main thread and has not exited.\<close>

lemma runner_space:
  assumes T: "table_ok ps V" and t: "V t = Some m" "m_stage m = Run" "m_space m = Some a"
  obtains sp where "spaces ps a = Some sp" "\<And>u n. V u = Some n \<Longrightarrow> main_in a n \<Longrightarrow> m_stage n \<noteq> Last"
proof (cases "m_main m")
  case True
  then have m: "main_in a m" using t by (simp add: main_in_def)
  then obtain sp where "spaces ps a = Some sp"
    using table_okD(2) [OF T t(1)] t(2) True by (auto simp: main_ok_def)
  moreover have "m_stage n \<noteq> Last" if "V u = Some n" "main_in a n" for u n
    using table_okD(4) [OF T t(1) that(1) m that(2)] t that(1) by auto
  ultimately show ?thesis using that by blast
next
  case False
  then obtain sp i x where sp: "spaces ps a = Some sp" "i < 7" "localThreadsInfos sp ! i = Some x"
    using table_okD(3) [OF T t(1)] t(2,3) by (auto simp: user_ok_def registered_def)
  have "m_stage n \<noteq> Last" if n: "V u = Some n" "main_in a n" for u n
  proof
    assume "m_stage n = Last"
    then have "nThreads sp = 0" using table_okD(2) [OF T n(1)] n(2) sp(1) by (auto simp: main_ok_def main_in_def)
    then show False using space_wfD(6) [OF table_okD(1) [OF T sp(1)] sp(2,3)] by simp
  qed
  then show ?thesis using that sp(1) by blast
qed

text \<open>A change of the slots of one space and of one of its user threads.\<close>

lemma table_slot:
  assumes T: "table_ok ps V" and sp: "spaces ps a = Some sp"
    and ps': "spaces ps' = (spaces ps)(a \<mapsto> sp')" "pid sp' = pid sp" "pidMap ps' = pidMap ps" "addrspaces ps' = addrspaces ps"
    and V': "V' = V(n \<mapsto> y)" "\<And>m. V n = Some m \<Longrightarrow> \<not> m_main m \<and> m_space m = Some a" "\<not> m_main y"
    and wf: "space_wf V' a sp'"
    and users: "\<And>u m. V' u = Some m \<Longrightarrow> m_stage m \<noteq> Gone \<Longrightarrow> \<not> m_main m \<Longrightarrow> user_ok ps' m"
    and last: "\<And>u m. V u = Some m \<Longrightarrow> main_in a m \<Longrightarrow> m_stage m = Last \<Longrightarrow> nThreads sp' = 0"
  shows "table_ok ps' V'"
proof -
  have main: "V' u = Some m \<longleftrightarrow> V u = Some m" if "m_main m" for u m
    using that V' by (auto split: if_splits)
  have user: "V' u = Some m" if "V u = Some m" "user_in b m" "b \<noteq> a" for u m b
    using that V' by (auto simp: user_in_def)
  have "space_wf V' b sq" if b: "spaces ps' b = Some sq" for b sq
  proof (cases "b = a")
    case True
    then show ?thesis using wf b ps'(1) by simp
  next
    case False
    then have W: "space_wf V b sq" using table_okD(1) [OF T] b ps'(1) by simp
    have "\<exists>t m. V' t = Some m \<and> user_in b m \<and> m_tid m = thread_id x" if "i < 7" "localThreadsInfos sq ! i = Some x" for i x
      using space_wfD(3) [OF W that] user False by blast
    moreover have "\<exists>t m. V' t = Some m \<and> main_in b m" using space_wfD(5) [OF W] main by (auto simp: main_in_def)
    ultimately show ?thesis using W unfolding space_wf_def by blast
  qed
  moreover have "main_ok ps' m" if "V' u = Some m" "m_stage m \<noteq> Gone" "m_main m" for u m
  proof -
    have V: "V u = Some m" using main that by blast
    then have ok: "main_ok ps m" using table_okD(2) [OF T] that by blast
    show ?thesis
      unfolding main_ok_def
    proof (intro conjI allI impI)
      fix b assume b: "main_in b m"
      then obtain sq where sq: "spaces ps b = Some sq" "m_stage m = Last \<longrightarrow> nThreads sq = 0"
          "m_stage m = Run \<longrightarrow> pid sq \<in> marked (pidMap ps) \<and> addrspaces ps (pid sq) = Some b"
        using ok by (auto simp: main_ok_def)
      show "\<exists>sp. spaces ps' b = Some sp \<and> (m_stage m = Last \<longrightarrow> nThreads sp = 0)
          \<and> (m_stage m = Run \<longrightarrow> pid sp \<in> marked (pidMap ps') \<and> addrspaces ps' (pid sp) = Some b)"
        using sq sp ps' last [OF V] b by (cases "b = a") auto
    qed (use ok in \<open>simp add: main_ok_def\<close>)
  qed
  moreover have "t = u" if "V' t = Some m" "V' u = Some m'" "main_in b m" "main_in b m'" for t u m m' b
  proof -
    have "V t = Some m" "V u = Some m'" using that main by (auto simp: main_in_def)
    then show ?thesis using table_okD(4) [OF T] that(3,4) by blast
  qed
  moreover have "\<exists>b sq t m. addrspaces ps' p = Some b \<and> spaces ps' b = Some sq \<and> pid sq = p \<and> V' t = Some m \<and> main_in b m \<and> m_stage m = Run"
    if p: "p \<in> marked (pidMap ps')" for p
  proof -
    obtain b sq t m where b: "addrspaces ps p = Some b" "spaces ps b = Some sq" "pid sq = p" "V t = Some m" "main_in b m" "m_stage m = Run"
      using table_okD(5) [OF T, of p] p ps'(3) by auto
    have "V' t = Some m" using b(4,5) main by (simp add: main_in_def)
    then show ?thesis using b sp ps' by (intro exI [of _ b] exI [of _ "if b = a then sp' else sq"] exI [of _ t] exI [of _ m]) auto
  qed
  ultimately show ?thesis using users unfolding table_ok_def by (simp split: if_splits)
qed


lemma new_tid_spec:
  assumes "tids_ok (tids us) (lastTid us) V" "new_tid us = Some (tid, us1)"
  obtains b where "us1 = us\<lparr>tids := b, lastTid := tid + 1\<rparr>" "bitmap_wf b" "numBits b = MaxThreads" "marked (tids us) \<subseteq> marked b" "- 1 \<le> tid"
    "tid \<noteq> - 1 \<Longrightarrow> 0 < tid \<and> tid < MaxThreads \<and> tid \<notin> marked (tids us) \<and> tid \<in> marked b"
proof -
  note d = tids_okD [OF assms(1)]
  obtain b where b: "BitMap_FindStart (tids us) (lastTid us) = Some (tid, b)" "us1 = us\<lparr>tids := b, lastTid := tid + 1\<rparr>"
    using assms(2) by (auto simp: new_tid_def bind_Some_iff)
  have "tid \<noteq> 0" if "tid \<notin> marked (tids us)" using d(4) that by auto
  then show ?thesis
    using that [of b] b FindStart_spec [OF d(1,3)] d(2) by fastforce
qed

lemma tids_more:
  assumes T: "tids_ok b k V" and b': "bitmap_wf b'" "numBits b' = MaxThreads" "marked b \<subseteq> marked b'" "0 \<le> k'"
    and V': "\<And>u m. V' u = Some m \<Longrightarrow> m_stage m \<noteq> Gone \<Longrightarrow> (\<exists>m0. V u = Some m0 \<and> m_stage m0 \<noteq> Gone \<and> m_tid m0 = m_tid m
        \<and> (m_stage m0 = New \<longrightarrow> m_stage m = New \<or> m_tid m \<noteq> - 1))
      \<or> u = n \<and> V n = None \<and> (m_tid m = - 1 \<and> m_stage m = New \<or> m_tid m \<in> marked b' - marked b)"
  shows "tids_ok b' k' V'"
proof -
  note d = tids_okD [OF T]
  have "m_tid m \<in> marked b' \<or> m_stage m = New \<and> m_tid m = - 1" if "V' u = Some m" "m_stage m \<noteq> Gone" for u m
    using V' [OF that] d(5) b'(3) by fastforce
  moreover have "u = v" if u: "V' u = Some m" "m_stage m \<noteq> Gone" and v: "V' v = Some m'" "m_stage m' \<noteq> Gone"
    and e: "m_tid m = m_tid m'" "m_tid m \<noteq> - 1" for u v m m'
    using V' [OF u] V' [OF v]
  proof (elim disjE exE conjE)
    fix m0 m1
    assume "V u = Some m0" "m_stage m0 \<noteq> Gone" "m_tid m0 = m_tid m" "V v = Some m1" "m_stage m1 \<noteq> Gone" "m_tid m1 = m_tid m'"
    then show ?thesis using d(6) [of u m0 v m1] e by simp
  next
    fix m0 assume "V u = Some m0" "m_stage m0 \<noteq> Gone" "m_tid m0 = m_tid m" "m_tid m' \<in> marked b' - marked b"
    then show ?thesis using d(5) [of u m0] e by simp
  next
    fix m0 assume "V v = Some m0" "m_stage m0 \<noteq> Gone" "m_tid m0 = m_tid m'" "m_tid m \<in> marked b' - marked b"
    then show ?thesis using d(5) [of v m0] e by simp
  qed (use e in simp_all)
  moreover have "0 \<in> marked b'" using d(4) b'(3) by blast
  ultimately show ?thesis using b' unfolding tids_ok_def by blast
qed

lemma tids_less:
  assumes T: "tids_ok b k V" and t: "V t = Some m" "m_stage m \<noteq> Gone" "0 < m_tid m"
    and b': "bitmap_wf b'" "numBits b' = MaxThreads" "marked b' = marked b - {m_tid m}"
    and V': "V' = V(t \<mapsto> m')" "m_stage m' = Gone"
  shows "tids_ok b' k V'"
proof -
  note d = tids_okD [OF T]
  have A: "m_tid n \<in> marked b' \<or> m_stage n = New \<and> m_tid n = - 1" if "V' u = Some n" "m_stage n \<noteq> Gone" for u n
  proof -
    have u: "u \<noteq> t" "V u = Some n" using that V' by (auto split: if_splits)
    then have "m_tid n \<noteq> m_tid m" using d(6) [OF t(1) u(2) t(2) that(2)] t(3) by auto
    then show ?thesis using d(5) [OF u(2) that(2)] b'(3) by simp
  qed
  have B: "u = v" if "V' u = Some n" "V' v = Some n'" "m_stage n \<noteq> Gone" "m_stage n' \<noteq> Gone" "m_tid n = m_tid n'" "m_tid n \<noteq> - 1"
    for u v n n'
    using d(6) [of u n v n'] that V' by (simp split: if_splits)
  have "0 \<in> marked b'" using d(4) t(3) b'(3) by simp
  then show ?thesis
    unfolding tids_ok_def using d(3) b'(1,2) by (intro conjI allI impI A) (assumption+, rule B)
qed

lemma mains_upd: "mains (V(n \<mapsto> m)) = (if m_main m \<and> m_stage m \<noteq> Gone then insert n (mains V) else mains V - {n})"
  by (auto simp: mains_def)

lemma mains_same: "V n = Some m0 \<Longrightarrow> m_main m = m_main m0 \<Longrightarrow> (m_stage m = Gone) = (m_stage m0 = Gone) \<Longrightarrow> mains (V(n \<mapsto> m)) = mains V"
  by (auto simp: mains_def)

lemma finite_mains: "finite (dom V) \<Longrightarrow> finite (mains V)"
  by (rule finite_subset) (auto simp: mains_def)

lemma uinv_new_tid:
  assumes inv: "uinv us" and s: "new_tid us = Some (tid, us1)"
  shows "uinv us1"
proof -
  note I = uinvD [OF inv]
  obtain b where b: "us1 = us\<lparr>tids := b, lastTid := tid + 1\<rparr>" "bitmap_wf b" "numBits b = MaxThreads" "marked (tids us) \<subseteq> marked b" "- 1 \<le> tid"
    using new_tid_spec [OF I(3) s] by metis
  have "tids_ok b (tid + 1) (members us)" by (rule tids_more [OF I(3) b(2-4)]) (use b(5) in auto)
  then show ?thesis using I b(1) by (simp add: uinv_def queues_ok_def)
qed

text \<open>A new thread takes a slot.\<close>

lemma table_create:
  assumes T: "table_ok ps V" and D: "tids_ok b0 k V" and t: "V t = Some m" "m_stage m = Run" "m_space m = Some a"
    and sp: "spaces ps a = Some sp" "unat (nextUserThreadid sp) + 1 < 2 ^ 32" and n: "V n = None"
    and i: "i < 7" "int i \<notin> marked (threadsBitmap sp)" "bitmap_wf b" "numBits b = 7" "marked b = insert (int i) (marked (threadsBitmap sp))"
    and tid: "0 < tid" "tid \<notin> marked b0"
    and ps': "spaces ps' = (spaces ps)(a \<mapsto> (with_thread sp tid i b)\<lparr>nThreads := nThreads sp + 1\<rparr>)" "pidMap ps' = pidMap ps" "addrspaces ps' = addrspaces ps"
      "threadsInfos ps' = (threadsInfos ps)(tid \<mapsto> info_of sp tid i)"
    and V': "V' = V(n \<mapsto> \<lparr>m_tid = tid, m_space = Some a, m_main = False, m_stage = Run\<rparr>)"
  shows "table_ok ps' V'"
proof -
  define sp' where "sp' = (with_thread sp tid i b)\<lparr>nThreads := nThreads sp + 1\<rparr>"
  have W: "space_wf V a sp" using table_okD(1) [OF T sp(1)] .
  note w = space_wfD [OF W]
  have len: "length (localThreadsInfos sp) = 7" "localThreadsInfos sp ! i = None"
    using w(1) i(1,2) by (auto simp: threads_ok_def)
  have l: "localThreadsInfos sp' ! j = (if j = i then Some (info_of sp tid i) else localThreadsInfos sp ! j)" if "j < 7" for j
    using that len(1) i(1) by (simp add: sp'_def with_thread_def nth_list_update)
  have other: "thread_id y \<noteq> tid" if "j < 7" "localThreadsInfos sp ! j = Some y" for j y
    using w(3) [OF that] tids_okD(5) [OF D] tid by (fastforce simp: user_in_def)
  have ok: "threads_ok sp'"
    using with_thread_ok [OF w(1) i sp(2), of tid] by (simp add: sp'_def threads_ok_def)
  have wf: "space_wf V' a sp'"
    unfolding space_wf_def
  proof (intro conjI allI impI ok)
    have "card (insert (int i) (marked (threadsBitmap sp))) = Suc (card (marked (threadsBitmap sp)))" using i(2) by simp
    then show "nThreads sp' = int (card (marked (threadsBitmap sp')))" using w(2) i(5) by (simp add: sp'_def with_thread_def)
    show "\<exists>t m. V' t = Some m \<and> user_in a m \<and> m_tid m = thread_id x" if j: "j < 7" "localThreadsInfos sp' ! j = Some x" for j x
    proof (cases "j = i")
      case True
      then show ?thesis using j l V' by (auto simp: info_of_def user_in_def)
    next
      case False
      then show ?thesis using w(3) [of j x] j l n V' by (metis fun_upd_apply option.distinct(1))
    qed
    show "j = j'" if j: "j < 7" "j' < 7" "localThreadsInfos sp' ! j = Some x" "localThreadsInfos sp' ! j' = Some y" "thread_id x = thread_id y" for j j' x y
      using j l w(4) [of j j' x y] other [of j x] other [of j' y] by (auto simp: info_of_def split: if_splits)
    show "\<exists>t m. V' t = Some m \<and> main_in a m" using w(5) n V' by (metis fun_upd_apply option.distinct(1))
  qed
  show ?thesis
  proof (rule table_slot [OF T sp(1) _ _ ps'(2,3) V' _ _ wf])
    show "spaces ps' = (spaces ps)(a \<mapsto> sp')" using ps'(1) by (simp add: sp'_def)
    show "user_ok ps' q" if q: "V' u = Some q" "m_stage q \<noteq> Gone" "\<not> m_main q" for u q
    proof (cases "u = n")
      case True
      then show ?thesis using q l [OF i(1)] i(1) tid(1) ps' V' by (auto simp: user_ok_def registered_def sp'_def [symmetric] info_of_def)
    next
      case False
      then have V: "V u = Some q" using q(1) V' by simp
      then obtain c sq j x where c: "m_stage q = Run" "m_space q = Some c" "0 < m_tid q" "spaces ps c = Some sq" "j < 7"
          "localThreadsInfos sq ! j = Some x" "threadsInfos ps (m_tid q) = Some x" "thread_id x = m_tid q"
        using table_okD(3) [OF T V q(2,3)] by (auto simp: user_ok_def registered_def)
      have "m_tid q \<noteq> tid" using tids_okD(5) [OF D V q(2)] tid c(1) by auto
      moreover have "c = a \<Longrightarrow> j \<noteq> i" using c(4,6) sp(1) len(2) by auto
      ultimately show ?thesis
        using c l [of j] sp(1) ps'(1,4) by (auto simp: user_ok_def registered_def sp'_def [symmetric])
    qed
    show "nThreads sp' = 0" if "V u = Some q" "main_in a q" "m_stage q = Last" for u q
      using runner_space [OF T t] that by metis
  qed (use n in \<open>simp_all add: sp'_def with_thread_def\<close>)
qed

text \<open>An ended thread leaves its slot.\<close>

lemma table_exit:
  assumes T: "table_ok ps V" and D: "tids_ok b0 k V" and t: "V t = Some m" "m_stage m \<noteq> Gone" "\<not> m_main m" "m_space m = Some a"
    and sp: "spaces ps a = Some sp" "i < 7" "localThreadsInfos sp ! i = Some x" "thread_id x = m_tid m" "0 < m_tid m"
    and ok: "threads_ok sp'" "localThreadsInfos sp' = (localThreadsInfos sp)[i := None]" "marked (threadsBitmap sp') = marked (threadsBitmap sp) - {int i}"
      "nThreads sp' = nThreads sp - 1" "pid sp' = pid sp"
    and ps': "spaces ps' = (spaces ps)(a \<mapsto> sp')" "pidMap ps' = pidMap ps" "addrspaces ps' = addrspaces ps" "threadsInfos ps' = threadsInfos ps"
    and V': "V' = V(t \<mapsto> m\<lparr>m_stage := Gone\<rparr>)"
  shows "table_ok ps' V'"
proof -
  have W: "space_wf V a sp" using table_okD(1) [OF T sp(1)] .
  note w = space_wfD [OF W]
  have i: "int i \<in> marked (threadsBitmap sp)" "length (localThreadsInfos sp) = 7" using w(1) sp(2,3) by (simp_all add: threads_ok_def)
  have l: "localThreadsInfos sp' ! j = (if j = i then None else localThreadsInfos sp ! j)" if "j < 7" for j
    using that ok(2) i(2) sp(2) by (simp add: nth_list_update)
  have wf: "space_wf V' a sp'"
    unfolding space_wf_def
  proof (intro conjI allI impI ok(1))
    have "card (marked (threadsBitmap sp)) = Suc (card (marked (threadsBitmap sp) - {int i}))" by (rule card_Suc_Diff1 [OF finite_marked i(1), symmetric])
    then show "nThreads sp' = int (card (marked (threadsBitmap sp')))" using w(2) ok(3,4) by simp
    show "\<exists>t m. V' t = Some m \<and> user_in a m \<and> m_tid m = thread_id y" if j: "j < 7" "localThreadsInfos sp' ! j = Some y" for j y
    proof -
      have y: "j \<noteq> i" "localThreadsInfos sp ! j = Some y" using j l [of j] by (auto split: if_splits)
      then have "thread_id y \<noteq> m_tid m" using w(4) [OF j(1) sp(2) y(2) sp(3)] sp(4) by auto
      then show ?thesis using w(3) [OF j(1) y(2)] t(1) V' by (metis fun_upd_apply option.inject)
    qed
    show "j = j'" if "j < 7" "j' < 7" "localThreadsInfos sp' ! j = Some y" "localThreadsInfos sp' ! j' = Some z" "thread_id y = thread_id z" for j j' y z
      using that l w(4) [of j j' y z] by (auto split: if_splits)
    show "\<exists>t m. V' t = Some m \<and> main_in a m" using w(5) t V' by (metis fun_upd_apply main_in_def option.inject)
  qed
  show ?thesis
  proof (rule table_slot [OF T sp(1) ps'(1) ok(5) ps'(2,3) V' _ _ wf])
    show "user_ok ps' q" if q: "V' u = Some q" "m_stage q \<noteq> Gone" "\<not> m_main q" for u q
    proof -
      have u: "u \<noteq> t" and V: "V u = Some q" using q V' by (auto split: if_splits)
      obtain c sq j y where c: "m_stage q = Run" "m_space q = Some c" "0 < m_tid q" "spaces ps c = Some sq" "j < 7"
          "localThreadsInfos sq ! j = Some y" "threadsInfos ps (m_tid q) = Some y" "thread_id y = m_tid q"
        using table_okD(3) [OF T V q(2,3)] by (auto simp: user_ok_def registered_def)
      have "m_tid q \<noteq> m_tid m" using tids_okD(6) [OF D V t(1) q(2) t(2)] u sp(5) by auto
      then have "c = a \<Longrightarrow> j \<noteq> i" using c(4,6,8) sp by auto
      then show ?thesis using c l [of j] sp(1) ps'(1,4) by (auto simp: user_ok_def registered_def)
    qed
    show "nThreads sp' = 0" if q: "V u = Some q" "main_in a q" "m_stage q = Last" for u q
    proof -
      have "nThreads sp = 0" using table_okD(2) [OF T q(1)] q(2,3) sp(1) by (auto simp: main_ok_def main_in_def)
      then show ?thesis using w(6) [OF sp(2,3)] by simp
    qed
  qed (use t in simp_all)
qed

lemma not_running_queued: "uthreads us t = Some th \<Longrightarrow> waits_on (upos th) (ut_space th) = None \<Longrightarrow> queues_ok us \<Longrightarrow> t \<notin> set (conds us c)"
  using not_queued not_waiting by blast

lemma AllocateThreadData_full:
  assumes "threads_ok sp" "spaces ps a = Some sp" "AllocateThreadData a tid ps = Some (- 1, ps')"
  shows "ps' = ps"
proof -
  obtain k b where k: "BitMap_Find (threadsBitmap sp) = Some (k, b)"
    using assms(2,3) by (auto simp: AllocateThreadData_def bind_Some_iff)
  then have "k = - 1"
    using assms(2,3) by (auto simp: AllocateThreadData_def Let_def split: if_splits)
  then show ?thesis
    using assms k bm.find_full [of "threadsBitmap sp" b] by (simp add: AllocateThreadData_def threads_ok_def Let_def fun_upd_idem)
qed

lemma wait_ok_more:
  assumes sp: "spaces ps a = Some sp" and ps': "spaces ps' = (spaces ps)(a \<mapsto> sp')" "pidMap ps' = pidMap ps" "addrspaces ps' = addrspaces ps"
    and more: "\<And>j x. j < 7 \<Longrightarrow> localThreadsInfos sp ! j = Some x \<Longrightarrow> \<exists>j<7. localThreadsInfos sp' ! j = Some x" "nThreads sp \<noteq> 0 \<Longrightarrow> nThreads sp' \<noteq> 0"
    and w: "wait_ok ps h"
  shows "wait_ok ps' h"
proof (cases "upos h")
  case (Joining v y)
  then obtain c sq j where c: "ut_space h = Some c" "spaces ps c = Some sq" "j < 7" "localThreadsInfos sq ! j = Some y" "userthread_id y = v"
    using w by (auto simp: wait_ok_def)
  then show ?thesis
    using Joining sp ps'(1) more(1) [of j y] by (cases "c = a") (auto simp: wait_ok_def)
next
  case Main_exiting
  then show ?thesis
    using w sp ps'(1) more(2) by (auto simp: wait_ok_def)
qed (use w ps' in \<open>auto simp: wait_ok_def\<close>)

lemma create_inv:
  assumes inv: "uinv us" and t: "at us t In_user th" and n: "uthreads us n = None" and room: "room_for_id us th"
    and s: "do_UserThreadCreate t n fw f arg us = Some (r, us')"
  shows "uinv us'"
proof -
  obtain a tid us1 idx ps1 where a: "ut_space th = Some a" "new_tid us = Some (tid, us1)" "AllocateThreadData a tid (procs us1) = Some (idx, ps1)"
    and s': "(if idx = - 1 \<or> tid = - 1 then Some (- 1, us1\<lparr>procs := ps1\<rparr>)
     else do {
       sp \<leftarrow> spaces ps1 a;
       let ps = ps1\<lparr>spaces := (spaces ps1)(a \<mapsto> sp\<lparr>nThreads := nThreads sp + 1\<rparr>)\<rparr>;
       let us = us1\<lparr>procs := ps, uthreads := (uthreads us1)(n \<mapsto> \<lparr>ut_tid = tid, ut_space = Some a, isMain = False,
         upos = Starting, ut_args = (fw, f, arg)\<rparr>)\<rparr>;
       Some (0, set_pos t (Creating n) us)
     }) = Some (r, us')"
    using s t by (auto simp: do_UserThreadCreate_def bind_Some_iff split: prod.splits)
  note I = uinvD [OF inv] and inv1 = uinv_new_tid [OF inv a(2)]
  obtain b where b: "us1 = us\<lparr>tids := b, lastTid := tid + 1\<rparr>" "tid \<noteq> - 1 \<Longrightarrow> 0 < tid \<and> tid < MaxThreads \<and> tid \<notin> marked (tids us) \<and> tid \<in> marked b"
      "bitmap_wf b" "numBits b = MaxThreads" "marked (tids us) \<subseteq> marked b" "- 1 \<le> tid"
    using new_tid_spec [OF I(3) a(2)] by metis
  have V: "members us t = Some (member_of th)" "m_stage (member_of th) = Run" "m_space (member_of th) = Some a"
    using t a(1) by (simp_all add: members_thread)
  obtain sp where sp: "spaces (procs us) a = Some sp"
    using runner_space [OF I(2) V] by metis
  have thr: "threads_ok sp" using space_wfD(1) [OF table_okD(1) [OF I(2) sp]] .
  show ?thesis
  proof (cases "idx = - 1")
    case True
    have "ps1 = procs us"
      using AllocateThreadData_full [OF thr, of "procs us1" a tid ps1] sp a(3) True b(1) by simp
    then have "us' = us1" using s' True b(1) by simp
    then show ?thesis using inv1 by simp
  next
    case False
    have "tid \<noteq> - 1" using a(3) False by (auto simp: AllocateThreadData_def bind_Some_iff Let_def split: if_splits)
    then have tid: "0 < tid" "tid < MaxThreads" "tid \<notin> marked (tids us)" "tid \<in> marked b" using b(2) by auto
    obtain i c where i: "i < 7" "int i \<notin> marked (threadsBitmap sp)" "bitmap_wf c" "numBits c = 7" "marked c = insert (int i) (marked (threadsBitmap sp))"
        "ps1 = (procs us)\<lparr>threadsInfos := (threadsInfos (procs us))(tid \<mapsto> info_of sp tid i), spaces := (spaces (procs us))(a \<mapsto> with_thread sp tid i c)\<rparr>"
      using tid a(3) False b(1) by (cases rule: AllocateThreadData_spec [OF sp thr, of tid]) auto
    define sp' where "sp' = (with_thread sp tid i c)\<lparr>nThreads := nThreads sp + 1\<rparr>"
    define ps2 where "ps2 = ps1\<lparr>spaces := (spaces ps1)(a \<mapsto> sp')\<rparr>"
    define nth where "nth = \<lparr>ut_tid = tid, ut_space = Some a, isMain = False, upos = Starting, ut_args = (fw, f, arg)\<rparr>"
    have us': "us' = set_pos t (Creating n) (us1\<lparr>procs := ps2, uthreads := (uthreads us1)(n \<mapsto> nth)\<rparr>)"
      using s' False \<open>tid \<noteq> - 1\<close> i(6) by (simp add: ps2_def sp'_def nth_def with_thread_def)
    have tn: "t \<noteq> n" using t n by auto
    have V': "members us' = (members us)(n \<mapsto> \<lparr>m_tid = tid, m_space = Some a, m_main = False, m_stage = Run\<rparr>)"
      using us' b(1) t tn by (auto simp: members_def member_of_def nth_def fun_eq_iff)
    have Vn: "members us n = None" using n by (simp add: members_def)
    have ps2: "spaces ps2 = (spaces (procs us))(a \<mapsto> sp')" "pidMap ps2 = pidMap (procs us)" "addrspaces ps2 = addrspaces (procs us)"
        "threadsInfos ps2 = (threadsInfos (procs us))(tid \<mapsto> info_of sp tid i)" "fprov ps2 = fprov (procs us)" "mach ps2 = mach (procs us)"
        "lastPid ps2 = lastPid (procs us)"
      using i(6) by (simp_all add: ps2_def)
    have "procs_ok ps2"
      using thread_step [OF I(1) sp ps2(1)] ps2 by (simp add: sp'_def with_thread_def)
    moreover have "table_ok ps2 (members us')"
      using room t a(1) sp by (intro table_create [OF I(2,3) V sp _ Vn i(1-5) tid(1,3) ps2(1) [unfolded sp'_def] ps2(2-4) V']) (simp add: room_for_id_def)
    moreover have "tids_ok b (tid + 1) (members us')"
      by (rule tids_more [OF I(3) b(3-5), where n = n]) (use V' Vn tid in \<open>auto split: if_splits\<close>)
    moreover have "count_ok (nUsedAddrSpace us) (members us')"
      using I(4) Vn unfolding V' by (simp add: count_ok_def mains_upd) (simp add: mains_def)
    moreover have "queues_ok us'"
    proof (rule queues_step [OF I(5), where t = t])
      have nq: "t \<notin> set (conds us c)" "n \<notin> set (conds us c)" for c
        using not_running_queued [OF _ _ I(5), of t] t n queues_okD [OF I(5), of n c] by auto
      show "distinct (conds us' d)" for d using us' b(1) I(5) by (simp add: queues_ok_def)
      show "u \<in> set (conds us' d) \<Longrightarrow> u \<in> set (conds us d)" for d u using us' b(1) by simp
      show "u \<noteq> t \<Longrightarrow> u \<in> set (conds us' d) \<Longrightarrow> uthreads us' u = uthreads us u" for d u using us' b(1) nq by auto
      show "t \<in> set (conds us' d) \<Longrightarrow> \<exists>th. uthreads us' t = Some th \<and> waits_on (upos th) (ut_space th) = Some d \<and> wait_ok (procs us') th" for d
        using us' b(1) nq by simp
      show "wait_ok (procs us') q" if "wait_ok (procs us) q" for q
      proof -
        have "\<exists>j<7. localThreadsInfos sp' ! j = Some x" if "j < 7" "localThreadsInfos sp ! j = Some x" for j x
        proof -
          have "length (localThreadsInfos sp) = 7" "localThreadsInfos sp ! i = None" using thr i(1,2) by (simp_all add: threads_ok_def)
          then show ?thesis using that by (intro exI [of _ j]) (cases "j = i"; simp add: sp'_def with_thread_def)
        qed
        moreover have "nThreads sp' \<noteq> 0" if "nThreads sp \<noteq> 0"
          using that space_wfD(2) [OF table_okD(1) [OF I(2) sp]] by (simp add: sp'_def with_thread_def)
        ultimately show ?thesis
          using wait_ok_more [OF sp ps2(1-3) _ _ that] us' by simp
      qed
    qed
    ultimately show ?thesis
      using us' b(1) by (simp add: uinv_def)
  qed
qed

lemma must_be_main:
  assumes T: "table_ok ps (members us)" and t: "uthreads us t = Some th" "stage_of (upos th) \<noteq> Run" "upos th \<noteq> Finished"
  shows "isMain th"
proof (rule ccontr)
  assume "\<not> isMain th"
  then have "user_ok ps (member_of th)" using table_okD(3) [OF T members_thread [OF t(1)]] t(3) by simp
  then show False using t(2) by (simp add: user_ok_def)
qed

text \<open>Only main threads wait for the other threads of their process.\<close>

lemma main_waits:
  assumes T: "table_ok ps (members us)" and t: "uthreads us t = Some th" "upos th = Main_exiting" "ut_space th = Some a"
  shows "main_in a (member_of th)"
proof -
  have "isMain th" using must_be_main [OF T t(1)] t(2) by simp
  then show ?thesis using t by (simp add: main_in_def)
qed

lemma exit_inv:
  assumes inv: "uinv us" and t: "at us t In_user th" "\<not> isMain th" and s: "do_UserThreadExit t us = Some us'"
  shows "uinv us'"
proof -
  note I = uinvD [OF inv]
  let ?tid = "ut_tid th"
  have V: "members us t = Some (member_of th)" "m_stage (member_of th) \<noteq> Gone" "\<not> m_main (member_of th)"
    using t by (simp_all add: members_thread)
  obtain a sp i x where a: "m_space (member_of th) = Some a" "0 < m_tid (member_of th)" "spaces (procs us) a = Some sp" "i < 7"
      "localThreadsInfos sp ! i = Some x" "threadsInfos (procs us) ?tid = Some x" "thread_id x = m_tid (member_of th)"
    using table_okD(3) [OF I(2) V] by (auto simp: user_ok_def registered_def)
  have thr: "threads_ok sp" using space_wfD(1) [OF table_okD(1) [OF I(2) a(3)]] .
  have mk: "?tid \<in> marked (tids us)" using tids_okD(5) [OF I(3) V(1,2)] a(2) by auto
  obtain tids' b where del: "DeleteThreadData a ?tid (tids us) (procs us) = Some (tids', (procs us)\<lparr>spaces := (spaces (procs us))(a \<mapsto>
        sp\<lparr>threadsBitmap := b, localThreadsInfos := (localThreadsInfos sp)[i := None]\<rparr>)\<rparr>)"
      "marked tids' = marked (tids us) - {?tid}" "marked b = marked (threadsBitmap sp) - {int i}"
      "threads_ok (sp\<lparr>threadsBitmap := b, localThreadsInfos := (localThreadsInfos sp)[i := None]\<rparr>)"
    using DeleteThreadData_spec [OF a(3) thr a(4,5,6) tids_okD(1) [OF I(3)] mk] by blast
  have "BitMap_Clear (tids us) ?tid = Some tids'" using del(1) by (auto simp: DeleteThreadData_def bind_Some_iff)
  moreover have "0 \<le> ?tid" "?tid < numBits (tids us)" using mk marked_subset [of "tids us"] by auto
  ultimately have tids': "bitmap_wf tids'" "numBits tids' = MaxThreads"
    using bm.clear_used [OF tids_okD(1) [OF I(3)], of ?tid] tids_okD(2) [OF I(3)] by auto
  define sp' where "sp' = sp\<lparr>threadsBitmap := b, localThreadsInfos := (localThreadsInfos sp)[i := None], nThreads := nThreads sp - 1\<rparr>"
  define ps where "ps = (procs us)\<lparr>spaces := (spaces (procs us))(a \<mapsto> sp')\<rparr>"
  define q where "q = (conds us)(Thread_cond ?tid := [])"
  define q' where "q' = (if nThreads sp' = 0 then q(NThreads_cond a := tl (q (NThreads_cond a))) else q)"
  have us': "procs us' = ps" "tids us' = tids'" "lastTid us' = lastTid us" "nUsedAddrSpace us' = nUsedAddrSpace us"
      "uthreads us' = (uthreads us)(t \<mapsto> th\<lparr>upos := Finished\<rparr>)" "conds us' = q'"
    using s t a(1) del(1)
    by (auto simp: do_UserThreadExit_def bind_Some_iff Let_def ps_def sp'_def q'_def q_def split: if_splits)
  have V': "members us' = (members us)(t \<mapsto> (member_of th)\<lparr>m_stage := Gone\<rparr>)"
    using us'(5) by (auto simp: members_def member_of_def fun_eq_iff)
  have ok': "threads_ok sp'" using del(4) by (simp add: sp'_def threads_ok_def)
  have "procs_ok ps"
    using thread_step [OF I(1) a(3), of ps sp'] by (simp add: ps_def sp'_def)
  moreover have T': "table_ok ps (members us')"
    by (rule table_exit [OF I(2,3) V a(1,3,4,5,7,2) ok' _ _ _ _ _ _ _ _ V']) (simp_all add: sp'_def ps_def del(3))
  moreover have "tids_ok tids' (lastTid us) (members us')"
    using tids_less [OF I(3) V(1,2) a(2) tids' _ V'] del(2) by simp
  moreover have "count_ok (nUsedAddrSpace us) (members us')"
    using I(4) V unfolding V' by (simp add: count_ok_def mains_upd) (simp add: mains_def)
  moreover have "queues_ok us'"
  proof (rule queues_step [OF I(5), where t = t])
    have nq: "t \<notin> set (conds us c)" for c
      using not_running_queued [OF _ _ I(5), of t] t by auto
    have sub: "set (q' c) \<subseteq> set (conds us c)" for c
      using list.set_sel(2) [of "q c"] by (cases "q c") (auto simp: q'_def q_def split: if_splits)
    show "distinct (conds us' d)" for d using us'(6) I(5) by (simp add: q'_def q_def queues_ok_def distinct_tl)
    show "u \<in> set (conds us' d) \<Longrightarrow> u \<in> set (conds us d)" for d u using us'(6) sub by auto
    show "t \<in> set (conds us' d) \<Longrightarrow> \<exists>th. uthreads us' t = Some th \<and> waits_on (upos th) (ut_space th) = Some d \<and> wait_ok (procs us') th" for d
      using us'(6) sub nq by blast
    show "wait_ok (procs us') h" if u: "u \<noteq> t" "u \<in> set (conds us' d)" "uthreads us u = Some h" "waits_on (upos h) (ut_space h) = Some d" "wait_ok (procs us) h"
      for d u h
    proof (cases "upos h")
      case (Joining v y)
      then obtain c sq j where c: "ut_space h = Some c" "spaces (procs us) c = Some sq" "j < 7" "localThreadsInfos sq ! j = Some y" "userthread_id y = v"
        using u(5) by (auto simp: wait_ok_def)
      have "thread_id y \<noteq> ?tid" using u(2,4) Joining us'(6) by (auto simp: q'_def q_def split: if_splits)
      then have "c = a \<Longrightarrow> j \<noteq> i" using c(2,4) a(3,5,7) by auto
      then show ?thesis using c a(3) Joining us'(1) by (auto simp: wait_ok_def ps_def sp'_def)
    next
      case Main_exiting
      then obtain c sq where c: "ut_space h = Some c" "spaces (procs us) c = Some sq" "nThreads sq \<noteq> 0" "d = NThreads_cond c"
        using u(4,5) by (auto simp: wait_ok_def)
      have "nThreads sp' \<noteq> 0" if ca: "c = a"
      proof
        assume z: "nThreads sp' = 0"
        have all: "v = u" if v: "v \<in> set (conds us (NThreads_cond a))" for v
        proof -
          obtain g where g: "uthreads us v = Some g" "waits_on (upos g) (ut_space g) = Some (NThreads_cond a)" "wait_ok (procs us) g"
            using queues_okD [OF I(5) v] .
          then have "upos g = Main_exiting" "ut_space g = Some a" by (cases "upos g"; auto)+
          then have "main_in a (member_of g)" using main_waits [OF I(2) g(1)] by blast
          moreover have "main_in a (member_of h)" using main_waits [OF I(2) u(3) Main_exiting] c(1) ca by simp
          ultimately show ?thesis using table_okD(4) [OF I(2) members_thread [OF g(1)] members_thread [OF u(3)]] by blast
        qed
        have "distinct (conds us (NThreads_cond a))" using I(5) by (simp add: queues_ok_def)
        then have "u \<notin> set (tl (conds us (NThreads_cond a)))"
          using all by (cases "conds us (NThreads_cond a)") (auto simp: list.set_sel)
        then show False using u(2) c(4) ca us'(6) z by (simp add: q'_def q_def)
      qed
      then show ?thesis using c a(3) Main_exiting us'(1) by (auto simp: wait_ok_def ps_def)
    qed (use u(5) us'(1) in \<open>auto simp: wait_ok_def ps_def\<close>)
  qed (use us'(5) in auto)
  ultimately show ?thesis
    using us' by (simp add: uinv_def)
qed

section \<open>Processes come and go\<close>

text \<open>A main thread begins to exit, or has seen the last of its threads end.\<close>

lemma table_main:
  assumes T: "table_ok ps V" and t: "V t = Some m" "main_in a m" "m_stage m \<noteq> Last" and sp: "spaces ps a = Some sp"
    and s: "st = Exiting \<or> st = Last \<and> nThreads sp = 0"
    and ps': "spaces ps' = spaces ps" "addrspaces ps' = addrspaces ps" "threadsInfos ps' = threadsInfos ps"
      "marked (pidMap ps') = (if m_stage m = Run then marked (pidMap ps) - {pid sp} else marked (pidMap ps))"
    and V': "V' = V(t \<mapsto> m\<lparr>m_stage := st\<rparr>)"
  shows "table_ok ps' V'"
proof -
  have mm: "m_main m" "m_space m = Some a" using t(2) by (simp_all add: main_in_def)
  have new: "main_in b (m\<lparr>m_stage := st\<rparr>) \<longleftrightarrow> b = a" for b using mm s by (auto simp: main_in_def)
  have old: "main_in b m \<longleftrightarrow> b = a" for b using t(2) by (auto simp: main_in_def)
  have user: "V' u = Some n" if "V u = Some n" "\<not> m_main n" for u n using that t mm V' by auto
  have sole: "u = t" if "V u = Some n" "main_in a n" for u n using table_okD(4) [OF T that(1) t(1) that(2) t(2)] .
  have gone: "pid sq \<in> marked (pidMap ps')" if "V u = Some n" "main_in b n" "m_stage n = Run" "u \<noteq> t" "spaces ps b = Some sq" for u n b sq
  proof -
    have ok: "pid sq \<in> marked (pidMap ps)" "addrspaces ps (pid sq) = Some b"
      using table_okD(2) [OF T that(1)] that(2,3,5) by (auto simp: main_ok_def main_in_def)
    have "b \<noteq> a" using sole [OF that(1)] that(2,4) by auto
    moreover have "addrspaces ps (pid sp) = Some a" if "m_stage m = Run"
      using table_okD(2) [OF T t(1)] t(2) sp that by (auto simp: main_ok_def main_in_def)
    ultimately show ?thesis using ok ps'(4) by auto
  qed
  have "space_wf V' b sq" if "spaces ps' b = Some sq" for b sq
  proof -
    have W: "space_wf V b sq" using table_okD(1) [OF T] that ps'(1) by simp
    have "\<exists>t m. V' t = Some m \<and> user_in b m \<and> m_tid m = thread_id x" if "i < 7" "localThreadsInfos sq ! i = Some x" for i x
      using space_wfD(3) [OF W that] user by (auto simp: user_in_def)
    moreover have "\<exists>t m. V' t = Some m \<and> main_in b m"
      using space_wfD(5) [OF W] t(1) new old V' by (metis fun_upd_apply option.inject)
    ultimately show ?thesis using W unfolding space_wf_def by blast
  qed
  moreover have "if m_main n then main_ok ps' n else user_ok ps' n" if n: "V' u = Some n" "m_stage n \<noteq> Gone" for u n
  proof (cases "u = t")
    case True
    then show ?thesis using n V' mm s sp ps'(1) new by (auto simp: main_ok_def)
  next
    case False
    then have V: "V u = Some n" using n V' by simp
    have "main_ok ps' n" if "m_main n"
      using table_okD(2) [OF T V n(2) that] gone [OF V _ _ False] ps'(1,2) unfolding main_ok_def by metis
    then show ?thesis
      using table_okD(3) [OF T V n(2)] ps'(1,3) by (simp add: user_ok_def registered_def)
  qed
  moreover have "u = v" if "V' u = Some n" "V' v = Some n'" "main_in b n" "main_in b n'" for u v n n' b
  proof -
    have "\<exists>n. V u = Some n \<and> main_in b n" "\<exists>n. V v = Some n \<and> main_in b n" using that t(1) new old V' by (auto split: if_splits)
    then show ?thesis using table_okD(4) [OF T] by blast
  qed
  moreover have "\<exists>b sq u n. addrspaces ps' p = Some b \<and> spaces ps' b = Some sq \<and> pid sq = p \<and> V' u = Some n \<and> main_in b n \<and> m_stage n = Run"
    if p: "p \<in> marked (pidMap ps')" for p
  proof -
    obtain b sq u n where b: "addrspaces ps p = Some b" "spaces ps b = Some sq" "pid sq = p" "V u = Some n" "main_in b n" "m_stage n = Run"
      using table_okD(5) [OF T, of p] p ps'(4) by (auto split: if_splits)
    have "u \<noteq> t"
    proof
      assume "u = t"
      then have "b = a" "m_stage m = Run" using b(4-6) t(1) old by auto
      then show False using p ps'(4) b(2,3) sp by auto
    qed
    then show ?thesis using b ps'(1,2) V' by (intro exI [of _ b] exI [of _ sq] exI [of _ u] exI [of _ n]) simp
  qed
  ultimately show ?thesis unfolding table_ok_def by blast
qed

lemma main_loop_inv:
  assumes inv: "uinv us" and t: "uthreads us t = Some th" "\<not> waiting us t" "main_in a (member_of th)" "stage_of (upos th) \<noteq> Last"
    and sp: "spaces (procs us) a = Some sp"
    and us1: "procs_ok (procs us1)" "spaces (procs us1) = spaces (procs us)" "addrspaces (procs us1) = addrspaces (procs us)"
      "threadsInfos (procs us1) = threadsInfos (procs us)"
      "marked (pidMap (procs us1)) = (if stage_of (upos th) = Run then marked (pidMap (procs us)) - {pid sp} else marked (pidMap (procs us)))"
      "tids us1 = tids us" "lastTid us1 = lastTid us" "nUsedAddrSpace us1 = nUsedAddrSpace us" "uthreads us1 = uthreads us"
      "conds us1 = (if stage_of (upos th) = Run then (conds us)(ProcessJoin_cond a := []) else conds us)"
    and s: "main_loop t a us1 = Some us'"
  shows "uinv us'"
proof -
  note I = uinvD [OF inv]
  define q where "q = (if nThreads sp \<noteq> 0 then Main_exiting else Ending)"
  have us': "procs us' = procs us1" "tids us' = tids us" "lastTid us' = lastTid us" "nUsedAddrSpace us' = nUsedAddrSpace us"
      "uthreads us' = (uthreads us)(t \<mapsto> th\<lparr>upos := q\<rparr>)"
      "conds us' = (if nThreads sp \<noteq> 0 then (conds us1)(NThreads_cond a := conds us1 (NThreads_cond a) @ [t]) else conds us1)"
    using s sp t(1) us1(2,6-9) by (auto simp: main_loop_def q_def split: if_splits)
  have V: "members us t = Some (member_of th)" using t(1) by (simp add: members_thread)
  have V': "members us' = (members us)(t \<mapsto> (member_of th)\<lparr>m_stage := stage_of q\<rparr>)"
    using us'(5) by (auto simp: members_def member_of_def fun_eq_iff)
  have mm: "isMain th" "stage_of (upos th) \<noteq> Gone" "ut_space th = Some a" using t(3) by (auto simp: main_in_def)
  have T': "table_ok (procs us1) (members us')"
    using t(4) by (intro table_main [OF I(2) V t(3) _ sp _ us1(2-4) _ V']) (auto simp: q_def us1(5))
  have pa: "addrspaces (procs us) (pid sp) = Some a" if "stage_of (upos th) = Run"
    using table_okD(2) [OF I(2) V] t(3) mm that sp by (auto simp: main_ok_def)
  have nq: "t \<notin> set (conds us c)" for c using not_queued [OF I(5) t(2)] .
  have sub: "set (conds us1 c) \<subseteq> set (conds us c)" "distinct (conds us1 c)" for c
    using us1(10) I(5) by (auto simp: queues_ok_def)
  have "queues_ok us'"
  proof (rule queues_step [OF I(5), where t = t])
    show "distinct (conds us' d)" for d using us'(6) sub nq by auto
    show "u \<in> set (conds us' d) \<Longrightarrow> u \<noteq> t \<Longrightarrow> u \<in> set (conds us d)" for d u using us'(6) sub(1) by (auto split: if_splits)
    show "t \<in> set (conds us' d) \<Longrightarrow> \<exists>th. uthreads us' t = Some th \<and> waits_on (upos th) (ut_space th) = Some d \<and> wait_ok (procs us') th" for d
      using us' sub(1) nq sp mm us1(2) by (auto simp: q_def wait_ok_def split: if_splits)
    show "wait_ok (procs us') h" if u: "u \<noteq> t" "u \<in> set (conds us' d)" "waits_on (upos h) (ut_space h) = Some d" "wait_ok (procs us) h" for d u h
    proof (cases "upos h")
      case (Joining_process p c)
      have "p \<noteq> pid sp" if "addrspaces (procs us) p = Some c" "stage_of (upos th) = Run"
        using u(2,3) Joining_process pa [OF that(2)] that us'(6) us1(10) by (auto split: if_splits)
      then show ?thesis using u(4) Joining_process us'(1) us1(3,5) by (auto simp: wait_ok_def)
    qed (use u(4) us'(1) us1(2) in \<open>auto simp: wait_ok_def\<close>)
  qed (use us'(5) in auto)
  moreover have "tids_ok (tids us) (lastTid us) (members us')"
    by (rule tids_more [OF I(3)]) (use tids_okD(1-3) [OF I(3)] V V' mm(2) t(3) in \<open>auto simp: main_in_def split: if_splits\<close>)
  moreover have "count_ok (nUsedAddrSpace us) (members us')"
    using I(4) mains_same [where V = "members us" and n = t, OF V, of "(member_of th)\<lparr>m_stage := stage_of q\<rparr>"] mm(2) V' by (simp add: count_ok_def q_def)
  ultimately show ?thesis
    using us' us1(1) T' by (simp add: uinv_def)
qed

lemma main_exit_inv:
  assumes inv: "uinv us" and t: "at us t In_user th" "isMain th" and s: "synchThreadsMainExit t us = Some us'"
  shows "uinv us'"
proof -
  note I = uinvD [OF inv]
  obtain a sp b where a: "ut_space th = Some a" "spaces (procs us) a = Some sp" "BitMap_Clear (pidMap (procs us)) (pid sp) = Some b"
    and l: "main_loop t a (cond_broadcast (ProcessJoin_cond a) (us\<lparr>procs := (procs us)\<lparr>pidMap := b\<rparr>\<rparr>)) = Some us'"
    using s t by (auto simp: synchThreadsMainExit_def clear_pid_def bind_Some_iff)
  have "0 \<le> pid sp" "pid sp < numBits (pidMap (procs us))"
    using procs_okD(4,6) [OF I(1)] a(2) by (auto simp: space_ok_def)
  then have b: "marked b = marked (pidMap (procs us)) - {pid sp}"
    using bm.clear_used [OF procs_okD(3) [OF I(1)], of "pid sp"] a(3) by auto
  have ok: "procs_ok ((procs us)\<lparr>pidMap := b\<rparr>)"
    using step_exit [OF I(1), of a] a by (simp add: clear_pid_def)
  show ?thesis
    by (rule main_loop_inv [OF inv _ _ _ _ a(2) _ _ _ _ _ _ _ _ _ _ l, where th = th])
      (use t a(1) ok b in \<open>simp_all add: not_waiting main_in_def\<close>)
qed

lemma main_again_inv:
  assumes inv: "uinv us" and t: "at us t Main_exiting th" "\<not> waiting us t" "ut_space th = Some a" and s: "main_loop t a us = Some us'"
  shows "uinv us'"
proof -
  note I = uinvD [OF inv]
  obtain sp where sp: "spaces (procs us) a = Some sp" using s by (auto simp: main_loop_def bind_Some_iff)
  have "main_in a (member_of th)" using main_waits [OF I(2)] t by blast
  then show ?thesis
    by (intro main_loop_inv [OF inv _ t(2) _ _ sp _ _ _ _ _ _ _ _ _ _ s, where th = th]) (use t I(1) in simp_all)
qed

text \<open>A process ends: its main thread goes, with the space if it has one.\<close>

lemma table_end:
  assumes T: "table_ok ps V" and t: "V t = Some m" "m_main m" "m_stage m = Last"
    and ps': "spaces ps' = (case m_space m of None \<Rightarrow> spaces ps | Some a \<Rightarrow> (spaces ps)(a := None))" "addrspaces ps' = addrspaces ps"
      "threadsInfos ps' = threadsInfos ps" "pidMap ps' = pidMap ps"
    and V': "V' = V(t \<mapsto> m\<lparr>m_stage := Gone\<rparr>)"
  shows "table_ok ps' V'"
proof -
  have mt: "main_in a m \<longleftrightarrow> m_space m = Some a" for a using t(2,3) by (simp add: main_in_def)
  have sole: "u = t" if "V u = Some n" "main_in a n" "m_space m = Some a" for u n a
    using table_okD(4) [OF T that(1) t(1) that(2)] mt that(3) by blast
  have nouser: "m_space m \<noteq> Some a" if u: "V u = Some n" "user_in a n" for u n a
  proof
    assume ma: "m_space m = Some a"
    then obtain sp where sp: "spaces ps a = Some sp" "nThreads sp = 0"
      using table_okD(2) [OF T t(1)] t(2,3) mt by (auto simp: main_ok_def)
    obtain sq i x where "spaces ps a = Some sq" "i < 7" "localThreadsInfos sq ! i = Some x"
      using table_okD(3) [OF T u(1)] u(2) by (auto simp: user_in_def user_ok_def registered_def)
    then show False using space_wfD(6) [OF table_okD(1) [OF T sp(1)]] sp by auto
  qed
  have keep: "spaces ps' b = (if m_space m = Some b then None else spaces ps b)" for b using ps'(1) by (auto split: option.splits)
  have V: "V' u = Some n \<longleftrightarrow> V u = Some n" if "u \<noteq> t" for u n using that V' by simp
  have "space_wf V' b sq" if b: "spaces ps' b = Some sq" for b sq
  proof -
    have W: "space_wf V b sq" and nb: "m_space m \<noteq> Some b" using table_okD(1) [OF T] b keep [of b] by (auto split: if_splits)
    have "\<exists>t m. V' t = Some m \<and> user_in b m \<and> m_tid m = thread_id x" if "i < 7" "localThreadsInfos sq ! i = Some x" for i x
      using space_wfD(3) [OF W that] t V by (metis option.inject user_in_def)
    moreover have "\<exists>t m. V' t = Some m \<and> main_in b m"
      using space_wfD(5) [OF W] t(1) V nb by (metis mt option.inject)
    ultimately show ?thesis using W unfolding space_wf_def by blast
  qed
  moreover have "if m_main n then main_ok ps' n else user_ok ps' n" if n: "V' u = Some n" "m_stage n \<noteq> Gone" for u n
  proof -
    have ut: "u \<noteq> t" using n V' by auto
    then have Vu: "V u = Some n" using n V by simp
    have "main_ok ps' n" if "m_main n"
    proof -
      have "m_space m \<noteq> Some a" if "main_in a n" for a using sole [OF Vu that] ut by blast
      then show ?thesis using table_okD(2) [OF T Vu n(2) that] ps'(2,4) keep unfolding main_ok_def by metis
    qed
    moreover have "user_ok ps' n" if "\<not> m_main n"
      using table_okD(3) [OF T Vu n(2) that] nouser [OF Vu] that n(2) ps'(3) keep by (auto simp: user_ok_def registered_def user_in_def)
    ultimately show ?thesis by simp
  qed
  moreover have "u = v" if "V' u = Some n" "V' v = Some n'" "main_in b n" "main_in b n'" for u v n n' b
  proof -
    have "u \<noteq> t" "v \<noteq> t" using that V' by (auto simp: main_in_def)
    then show ?thesis using table_okD(4) [OF T] V that by blast
  qed
  moreover have "\<exists>b sq u n. addrspaces ps' p = Some b \<and> spaces ps' b = Some sq \<and> pid sq = p \<and> V' u = Some n \<and> main_in b n \<and> m_stage n = Run"
    if p: "p \<in> marked (pidMap ps')" for p
  proof -
    obtain b sq u n where b: "addrspaces ps p = Some b" "spaces ps b = Some sq" "pid sq = p" "V u = Some n" "main_in b n" "m_stage n = Run"
      using table_okD(5) [OF T, of p] p ps'(4) by auto
    have ut: "u \<noteq> t" using b(4,6) t(1,3) by auto
    then have "m_space m \<noteq> Some b" using sole [OF b(4,5)] by blast
    then show ?thesis using b ps'(2) keep V [OF ut] by (intro exI [of _ b] exI [of _ sq] exI [of _ u] exI [of _ n]) simp
  qed
  ultimately show ?thesis unfolding table_ok_def by blast
qed

text \<open>Threads that run no program yet, or none any more, do not matter to the spaces.\<close>

definition idle :: "member \<Rightarrow> bool" where
  "idle m \<longleftrightarrow> m_stage m = Gone \<or> m_main m \<and> (m_stage m = New \<or> m_stage m = Launched \<or> m_stage m = Last \<and> m_space m = None)"

lemma table_idle:
  assumes T: "table_ok ps V" and V': "V' = V(n := x)" "\<And>m. V n = Some m \<Longrightarrow> idle m" "\<And>m. x = Some m \<Longrightarrow> idle m"
    and ps': "spaces ps' = spaces ps" "addrspaces ps' = addrspaces ps" "pidMap ps' = pidMap ps"
      "\<And>u m. V u = Some m \<Longrightarrow> m_stage m \<noteq> Gone \<Longrightarrow> \<not> m_main m \<Longrightarrow> threadsInfos ps' (m_tid m) = threadsInfos ps (m_tid m)"
  shows "table_ok ps' V'"
proof -
  have i: "\<not> main_in a m \<and> \<not> user_in a m" if "idle m" for a m using that by (auto simp: idle_def main_in_def user_in_def)
  have main: "V' u = Some m \<longleftrightarrow> V u = Some m" if "main_in a m" for u m a using i that V' by (auto split: if_splits)
  have user: "V' u = Some m" if "V u = Some m" "user_in a m" for u m a using i that V' by (auto split: if_splits)
  have "space_wf V' b sq" if "spaces ps' b = Some sq" for b sq
  proof -
    have W: "space_wf V b sq" using table_okD(1) [OF T] that ps'(1) by simp
    have "\<exists>t m. V' t = Some m \<and> user_in b m \<and> m_tid m = thread_id x" if "i < 7" "localThreadsInfos sq ! i = Some x" for i x
      using space_wfD(3) [OF W that] user by blast
    moreover have "\<exists>t m. V' t = Some m \<and> main_in b m" using space_wfD(5) [OF W] main by blast
    ultimately show ?thesis using W unfolding space_wf_def by blast
  qed
  moreover have "if m_main m then main_ok ps' m else user_ok ps' m" if m: "V' u = Some m" "m_stage m \<noteq> Gone" for u m
  proof (cases "idle m")
    case True
    then show ?thesis using i [OF True] m(2) by (auto simp: idle_def main_ok_def)
  next
    case False
    then have Vu: "V u = Some m" using m(1) V' by (auto split: if_splits)
    show ?thesis
      using table_okD(2,3) [OF T Vu m(2)] ps' Vu m(2) by (auto simp: main_ok_def user_ok_def registered_def)
  qed
  moreover have "u = v" if "V' u = Some m" "V' v = Some m'" "main_in b m" "main_in b m'" for u v m m' b
    using table_okD(4) [OF T] main that by blast
  moreover have "\<exists>b sq u m. addrspaces ps' p = Some b \<and> spaces ps' b = Some sq \<and> pid sq = p \<and> V' u = Some m \<and> main_in b m \<and> m_stage m = Run"
    if "p \<in> marked (pidMap ps')" for p
    using table_okD(5) [OF T, of p] that ps'(1-3) main by metis
  ultimately show ?thesis unfolding table_ok_def by blast
qed


lemma waiter_space:
  assumes T: "table_ok (procs us) (members us)" and t: "uthreads us t = Some th" "isMain th" "upos th = Ending" "ut_space th = Some a"
    and u: "u \<noteq> t" "uthreads us u = Some h" "upos h = Joining v y \<or> upos h = Main_exiting"
  shows "ut_space h \<noteq> Some a"
proof
  assume a: "ut_space h = Some a"
  have m: "main_in a (member_of th)" using t by (simp add: main_in_def)
  show False
    using u(3)
  proof
    assume "upos h = Joining v y"
    then show False
      using runner_space [OF T members_thread [OF u(2)], of a] a m members_thread [OF t(1)] t(3) by (metis member_of_simps(2,4) stage_of.simps(2,9))
  next
    assume "upos h = Main_exiting"
    then have "main_in a (member_of h)" using main_waits [OF T u(2)] a by blast
    then show False using table_okD(4) [OF T members_thread [OF u(2)] members_thread [OF t(1)]] m u(1) by blast
  qed
qed

lemma end_inv:
  assumes inv: "uinv us" and t: "at us t Ending th" and s: "endProcess t us = Some us'" "\<not> halted us'"
  shows "uinv us'"
proof -
  note I = uinvD [OF inv]
  have V: "members us t = Some (member_of th)" "m_stage (member_of th) = Last" using t by (simp_all add: members_thread)
  have mm: "isMain th" using must_be_main [OF I(2), of t th] t by simp
  obtain ps t_info where ps: "(case ut_space th of None \<Rightarrow> Some (procs us) | Some a \<Rightarrow> delete_space a (procs us)) = Some ps"
      "GetThreadInfoFromTid (tids us) (procs us) (ut_tid th) = Some t_info"
    using s(1) t by (simp add: endProcess_def bind_Some_iff) blast
  have nz: "nUsedAddrSpace us \<noteq> 0"
    using s t by (auto simp: endProcess_def bind_Some_iff Let_def)
  have p: "procs_ok ps" "spaces ps = (case m_space (member_of th) of None \<Rightarrow> spaces (procs us) | Some a \<Rightarrow> (spaces (procs us))(a := None))"
      "addrspaces ps = addrspaces (procs us)" "threadsInfos ps = threadsInfos (procs us)" "pidMap ps = pidMap (procs us)"
    using ps(1) I(1) step_delete [OF I(1)] by (auto simp: delete_space_def bind_Some_iff split: option.splits)
  define b where "b = (if t_info = None then tids us else the (BitMap_Clear (tids us) (ut_tid th)))"
  have tid: "t_info \<noteq> None \<Longrightarrow> 0 < ut_tid th \<and> ut_tid th \<in> marked (tids us)"
    using ps(2) by (auto simp: GetThreadInfoFromTid_def bind_Some_iff dest!: Test_Some split: if_splits)
  have clr: "BitMap_Clear (tids us) (ut_tid th) = Some b" "bitmap_wf b" "numBits b = MaxThreads" "marked b = marked (tids us) - {ut_tid th}"
    if "t_info \<noteq> None"
  proof -
    have "0 \<le> ut_tid th" "ut_tid th < numBits (tids us)" using tid [OF that] marked_subset [of "tids us"] by auto
    then obtain b' where "BitMap_Clear (tids us) (ut_tid th) = Some b'" "bitmap_wf b'" "numBits b' = MaxThreads" "marked b' = marked (tids us) - {ut_tid th}"
      using bm.clear_used [OF tids_okD(1) [OF I(3)], of "ut_tid th"] tids_okD(2) [OF I(3)] by auto
    then show "BitMap_Clear (tids us) (ut_tid th) = Some b" "bitmap_wf b" "numBits b = MaxThreads" "marked b = marked (tids us) - {ut_tid th}"
      using that by (auto simp: b_def)
  qed
  have e: "us' = set_pos t Finished ((if t_info = None then us\<lparr>procs := ps\<rparr>
      else cond_broadcast (Thread_cond (ut_tid th)) (us\<lparr>procs := ps, tids := b\<rparr>))\<lparr>nUsedAddrSpace := nUsedAddrSpace us - 1\<rparr>)"
    using s(1) t ps nz clr(1) by (cases t_info) (simp_all add: endProcess_def Let_def)
  have us': "procs us' = ps" "tids us' = b" "lastTid us' = lastTid us" "nUsedAddrSpace us' = nUsedAddrSpace us - 1"
      "uthreads us' = (uthreads us)(t \<mapsto> th\<lparr>upos := Finished\<rparr>)"
      "conds us' = (if t_info = None then conds us else (conds us)(Thread_cond (ut_tid th) := []))"
    using t by (simp_all add: e b_def)
  have V': "members us' = (members us)(t \<mapsto> (member_of th)\<lparr>m_stage := Gone\<rparr>)"
    using us'(5) by (auto simp: members_def member_of_def fun_eq_iff)
  have "table_ok ps (members us')"
    using table_end [OF I(2) V(1) _ V(2) p(2-5) V'] mm by simp
  moreover have "tids_ok b (lastTid us) (members us')"
  proof (cases "t_info = None")
    case True
    then show ?thesis
      using tids_okD(1-3) [OF I(3)] V' by (intro tids_more [OF I(3)]) (auto simp: b_def split: if_splits)
  next
    case False
    then show ?thesis
      using tid [OF False] V(2) by (intro tids_less [OF I(3) V(1) _ _ clr(2,3) [OF False] _ V']) (simp_all add: clr(4))
  qed
  moreover have "count_ok (nUsedAddrSpace us - 1) (members us')"
  proof -
    have "t \<in> mains (members us)" using V mm by (simp add: mains_def)
    then have "card (mains (members us)) = Suc (card (mains (members us) - {t}))"
      using I(4) finite_mains [of "members us"] by (subst card_Suc_Diff1) (auto simp: count_ok_def)
    then show ?thesis using I(4) unfolding V' by (simp add: count_ok_def mains_upd)
  qed
  moreover have "queues_ok us'"
  proof (rule queues_step [OF I(5), where t = t])
    have nq: "t \<notin> set (conds us c)" for c using not_running_queued [OF _ _ I(5), of t] t by auto
    show "distinct (conds us' d)" for d using us'(6) I(5) by (simp add: queues_ok_def)
    show "u \<in> set (conds us' d) \<Longrightarrow> u \<in> set (conds us d)" for d u using us'(6) by (auto split: if_splits)
    show "t \<in> set (conds us' d) \<Longrightarrow> \<exists>th. uthreads us' t = Some th \<and> waits_on (upos th) (ut_space th) = Some d \<and> wait_ok (procs us') th" for d
      using us'(6) nq by (auto split: if_splits)
    show "wait_ok (procs us') h" if u: "u \<noteq> t" "uthreads us u = Some h" "wait_ok (procs us) h" for u h
    proof -
      have ne: "ut_space th = Some a \<Longrightarrow> ut_space h \<noteq> Some a" if "upos h = Joining v y \<or> upos h = Main_exiting" for a v y
        using waiter_space [OF I(2) _ mm _ _ u(1,2) that] t by blast
      have "spaces ps c = spaces (procs us) c" if "upos h = Joining v y \<or> upos h = Main_exiting" "ut_space h = Some c" for c v y
        using ne [OF that(1), of c] that(2) p(2) by (auto split: option.splits)
      then show ?thesis
        using u(3) p us'(1) by (cases "upos h") (auto simp: wait_ok_def)
    qed
  qed (use us'(5) in auto)
  ultimately show ?thesis
    using us' p(1) by (simp add: uinv_def)
qed

text \<open>The steps of \<open>do_ForkExec\<close> and of threads without a program.\<close>

lemma count_inv:
  assumes inv: "uinv us" and t: "at us t In_user th" and n: "uthreads us n = None" and s: "ForkExec_count t n us = Some (r, us')"
  shows "uinv us'"
proof -
  obtain tid us1 where a: "new_tid us = Some (tid, us1)"
    and s': "(if nUsedAddrSpace us1 \<ge> MaxProcesses then Some (- 1, us1)
      else Some (0, set_pos t (Forking n) (us1\<lparr>nUsedAddrSpace := nUsedAddrSpace us1 + 1,
       uthreads := (uthreads us1)(n \<mapsto> \<lparr>ut_tid = tid, ut_space = None, isMain = True, upos = Counted, ut_args = (0, 0, 0)\<rparr>)\<rparr>))) = Some (r, us')"
    using s by (auto simp: ForkExec_count_def bind_Some_iff split: prod.splits)
  note I = uinvD [OF inv]
  show ?thesis
  proof (cases "nUsedAddrSpace us1 \<ge> MaxProcesses")
    case True
    then show ?thesis using s' uinv_new_tid [OF inv a] by simp
  next
    case False
    obtain b where b: "us1 = us\<lparr>tids := b, lastTid := tid + 1\<rparr>" "tid \<noteq> - 1 \<Longrightarrow> 0 < tid \<and> tid < MaxThreads \<and> tid \<notin> marked (tids us) \<and> tid \<in> marked b"
        "bitmap_wf b" "numBits b = MaxThreads" "marked (tids us) \<subseteq> marked b" "- 1 \<le> tid"
      using new_tid_spec [OF I(3) a] by metis
    define h where "h = \<lparr>ut_tid = tid, ut_space = None, isMain = True, upos = Counted, ut_args = (0, 0, 0)\<rparr>"
    have us': "us' = set_pos t (Forking n) (us1\<lparr>nUsedAddrSpace := nUsedAddrSpace us1 + 1, uthreads := (uthreads us1)(n \<mapsto> h)\<rparr>)"
      using s' False by (simp add: h_def)
    have tn: "t \<noteq> n" using t n by auto
    have V': "members us' = (members us)(n \<mapsto> member_of h)"
      using us' b(1) t tn by (auto simp: members_def member_of_def fun_eq_iff)
    have Vn: "members us n = None" using n by (simp add: members_def)
    have "table_ok (procs us) (members us')"
      using Vn by (intro table_idle [OF I(2), of _ n "Some (member_of h)"]) (auto simp: V' idle_def h_def)
    moreover have "tids_ok b (tid + 1) (members us')"
      using b by (cases "tid = - 1"; intro tids_more [OF I(3) b(3-5), where n = n]) (auto simp: V' Vn h_def split: if_splits)
    moreover have "count_ok (nUsedAddrSpace us + 1) (members us')"
    proof -
      have "n \<notin> mains (members us)" using Vn by (simp add: mains_def)
      then show ?thesis
        using I(4) finite_mains [of "members us"] unfolding V' by (simp add: count_ok_def mains_upd h_def)
    qed
    moreover have "queues_ok us'"
    proof (rule queues_step [OF I(5), where t = t])
      have nq: "t \<notin> set (conds us c)" "n \<notin> set (conds us c)" for c
        using not_running_queued [OF _ _ I(5), of t] t n queues_okD [OF I(5), of n c] by auto
      show "distinct (conds us' d)" for d using us' b(1) I(5) by (simp add: queues_ok_def)
      show "u \<in> set (conds us' d) \<Longrightarrow> u \<in> set (conds us d)" for d u using us' b(1) by simp
      show "u \<noteq> t \<Longrightarrow> u \<in> set (conds us' d) \<Longrightarrow> uthreads us' u = uthreads us u" for d u using us' b(1) nq by auto
      show "t \<in> set (conds us' d) \<Longrightarrow> \<exists>th. uthreads us' t = Some th \<and> waits_on (upos th) (ut_space th) = Some d \<and> wait_ok (procs us') th" for d
        using us' b(1) nq by simp
      show "wait_ok (procs us) q \<Longrightarrow> wait_ok (procs us') q" for q using us' b(1) by simp
    qed
    ultimately show ?thesis
      using us' b(1) I(1) by (simp add: uinv_def)
  qed
qed

lemma unqueued: "queues_ok us \<Longrightarrow> uthreads us t = Some th \<Longrightarrow> upos th \<in> {Counted, Forked, Finished} \<Longrightarrow> t \<notin> set (conds us c)"
  by (rule not_running_queued [where th = th]) auto

text \<open>Such a thread changes while the one at \<open>t\<close>, if any, moves on in user code.\<close>

lemma idle_inv:
  assumes inv: "uinv us" and n: "uthreads us n = Some h" "idle (member_of h)" "upos h \<in> {Counted, Forked, Finished}"
    and x: "\<And>g. x = Some g \<Longrightarrow> idle (member_of g) \<and> ut_tid g = ut_tid h \<and> isMain g = isMain h \<and> (upos g = Finished \<longleftrightarrow> upos h = Finished)
      \<and> (upos h = Counted \<longrightarrow> ut_tid h \<noteq> - 1)" "x = None \<Longrightarrow> upos h = Finished"
    and us': "procs_ok (procs us')" "spaces (procs us') = spaces (procs us)" "addrspaces (procs us') = addrspaces (procs us)"
      "pidMap (procs us') = pidMap (procs us)" "threadsInfos (procs us') = threadsInfos (procs us) \<or>
        upos h \<noteq> Finished \<and> isMain h \<and> ut_tid h \<noteq> - 1 \<and> (\<exists>y. threadsInfos (procs us') = (threadsInfos (procs us))(ut_tid h \<mapsto> y))"
      "tids us' = tids us" "lastTid us' = lastTid us" "nUsedAddrSpace us' = nUsedAddrSpace us" "conds us' = conds us"
      "uthreads us' = (uthreads us)(n := x) \<or> (\<exists>t th q. t \<noteq> n \<and> uthreads us t = Some th \<and> \<not> waiting us t
        \<and> stage_of q = stage_of (upos th) \<and> waits_on q (ut_space th) = None \<and> uthreads us' = (uthreads us)(n := x, t \<mapsto> th\<lparr>upos := q\<rparr>))"
  shows "uinv us'"
proof -
  note I = uinvD [OF inv]
  have Vn: "members us n = Some (member_of h)" using n by (simp add: members_thread)
  have V': "members us' = (members us)(n := map_option member_of x)"
    using us'(10) by (auto simp: members_def member_of_def fun_eq_iff)
  have "table_ok (procs us') (members us')"
  proof (rule table_idle [OF I(2) V'])
    show "threadsInfos (procs us') (m_tid m) = threadsInfos (procs us) (m_tid m)"
      if m: "members us u = Some m" "m_stage m \<noteq> Gone" "\<not> m_main m" for u m
    proof -
      have "m_tid m \<noteq> ut_tid h" if g: "upos h \<noteq> Finished" "isMain h" "ut_tid h \<noteq> - 1"
      proof
        assume e: "m_tid m = ut_tid h"
        have "stage_of (upos h) \<noteq> Gone" using n(3) g(1) by auto
        then have "u = n" using tids_okD(6) [OF I(3) m(1) Vn m(2)] e g(3) by simp
        then show False using m(1,3) Vn g(2) by auto
      qed
      then show ?thesis using us'(5) by auto
    qed
  qed (use Vn n(2) x(1) us' in auto)
  moreover have "tids_ok (tids us) (lastTid us) (members us')"
  proof (rule tids_more [OF I(3)])
    fix u m assume m: "members us' u = Some m" "m_stage m \<noteq> Gone"
    show "(\<exists>m0. members us u = Some m0 \<and> m_stage m0 \<noteq> Gone \<and> m_tid m0 = m_tid m \<and> (m_stage m0 = New \<longrightarrow> m_stage m = New \<or> m_tid m \<noteq> - 1))
      \<or> u = n \<and> members us n = None \<and> (m_tid m = - 1 \<and> m_stage m = New \<or> m_tid m \<in> marked (tids us) - marked (tids us))"
    proof (cases "u = n")
      case True
      then obtain g where g: "x = Some g" "m = member_of g" using m(1) V' by auto
      then have "upos h \<noteq> Finished" using x(1) [OF g(1)] m(2) by auto
      then have "stage_of (upos h) \<noteq> Gone" using n(3) by auto
      then show ?thesis using x(1) [OF g(1)] g Vn True n(3) by auto
    qed (use m V' in auto)
  qed (use tids_okD(1-3) [OF I(3)] in auto)
  moreover have "count_ok (nUsedAddrSpace us') (members us')"
  proof -
    have "mains (members us') = mains (members us)"
      using V' Vn x n(3) by (cases x) (auto simp: mains_def split: if_splits)
    moreover have "finite (dom (members us'))"
      using I(4) V' by (auto simp: count_ok_def intro: finite_subset [of _ "insert n (dom (members us))"])
    ultimately show ?thesis using I(4) us'(8) by (simp add: count_ok_def)
  qed
  moreover have "queues_ok us'"
    unfolding queues_ok_def
  proof (intro conjI allI ballI)
    show "distinct (conds us' c)" for c using us'(9) I(5) by (simp add: queues_ok_def)
    fix c u assume u: "u \<in> set (conds us' c)"
    then have uc: "u \<in> set (conds us c)" using us'(9) by simp
    obtain g where g: "uthreads us u = Some g" "waits_on (upos g) (ut_space g) = Some c" "wait_ok (procs us) g" using queues_okD [OF I(5) uc] .
    have "u \<noteq> n" using unqueued [OF I(5) n(1,3)] uc by blast
    then have "uthreads us' u = Some g" using us'(10) g(1) not_queued [OF I(5), of _ c] uc by (auto split: if_splits)
    moreover have "wait_ok (procs us') g" using g(3) us'(2-4) by (simp add: wait_ok_def split: upos.splits)
    ultimately show "\<exists>th. uthreads us' u = Some th \<and> waits_on (upos th) (ut_space th) = Some c \<and> wait_ok (procs us') th" using g(2) by blast
  qed
  ultimately show ?thesis using us' by (simp add: uinv_def)
qed

lemma main_stage:
  assumes T: "table_ok ps (members us)" and t: "uthreads us t = Some th" "upos th \<in> {Counted, Forked}"
  shows "isMain th" "idle (member_of th)"
  using must_be_main [OF T t(1)] t(2) by (auto simp: idle_def)

lemma fork_inv:
  assumes inv: "uinv us" and t: "at us t (Forking n) th" and s: "ForkExec_fork t stale us = Some us'" and c: "\<And>h. uthreads us n = Some h \<Longrightarrow> upos h = Counted"
  shows "uinv us'"
proof -
  note I = uinvD [OF inv]
  obtain h where h: "uthreads us n = Some h" "0 \<le> ut_tid h" "ut_tid h < MaxThreads"
    and us': "us' = set_pos t (Awaiting n) (set_pos n Forked (set_space n (ut_space th)
      (us\<lparr>procs := (procs us)\<lparr>threadsInfos := (threadsInfos (procs us))(ut_tid h \<mapsto> stale)\<rparr>\<rparr>)))"
    using s t by (auto simp: ForkExec_fork_def bind_Some_iff)
  have u: "upos h = Counted" using c h(1) by blast
  have tn: "t \<noteq> n" using u h(1) t by auto
  have nw: "\<not> waiting us t" using not_waiting [of us t th] t by simp
  note mh = main_stage [OF I(2) h(1)]
  have "procs_ok ((procs us)\<lparr>threadsInfos := (threadsInfos (procs us))(ut_tid h \<mapsto> stale)\<rparr>)"
    using I(1) by (simp add: procs_ok_def owned_def)
  then show ?thesis
  proof (intro idle_inv [OF inv h(1), where x = "Some (h\<lparr>upos := Forked, ut_space := ut_space th\<rparr>)"])
    show "uthreads us' = (uthreads us)(n \<mapsto> h\<lparr>upos := Forked, ut_space := ut_space th\<rparr>) \<or> (\<exists>t th' q. t \<noteq> n \<and> uthreads us t = Some th' \<and> \<not> waiting us t
        \<and> stage_of q = stage_of (upos th') \<and> waits_on q (ut_space th') = None
        \<and> uthreads us' = (uthreads us)(n \<mapsto> h\<lparr>upos := Forked, ut_space := ut_space th\<rparr>, t \<mapsto> th'\<lparr>upos := q\<rparr>))"
      using us' tn t h(1) nw by (intro disjI2 exI [of _ t] exI [of _ th] exI [of _ "Awaiting n"]) auto
  qed (use us' u mh h t in \<open>auto simp: idle_def\<close>)
qed

lemma fail_inv:
  assumes inv: "uinv us" and t: "at us t Forked th"
  shows "uinv (StartProcess_fails t us)"
  using t uinvD(1) [OF inv] main_stage [OF uinvD(2) [OF inv], of t th]
  by (intro idle_inv [OF inv, of t th "Some (th\<lparr>upos := Ending, ut_space := None\<rparr>)"]) (auto simp: StartProcess_fails_def idle_def)

lemma reap_inv:
  assumes inv: "uinv us" and t: "at us t Finished th"
  shows "uinv (us\<lparr>uthreads := (uthreads us)(t := None)\<rparr>)"
  using t uinvD(1) [OF inv] by (intro idle_inv [OF inv, of t th None]) (auto simp: idle_def)

text \<open>A program is loaded.\<close>

lemma AddrSpace_load_threads:
  assumes ok: "procs_ok ps" and s: "AddrSpace_load heap stale eh v f a ps = Some ps'"
  obtains sp where "spaces ps' = (spaces ps)(a \<mapsto> sp)" "threads_ok sp" "nThreads sp = 0" "marked (threadsBitmap sp) = {}"
    "localThreadsInfos sp = replicate 7 None" "nextUserThreadid sp = 1" "threadsInfos ps' = threadsInfos ps"
    "pid sp \<notin> marked (pidMap ps)" "marked (pidMap ps') = insert (pid sp) (marked (pidMap ps))"
    "addrspaces ps' = (addrspaces ps)(pid sp \<mapsto> a)"
proof -
  obtain p ps1 noffH pt ps2 pt1 m1 pt2 m2 where r: "new_process a ps = Some (p, ps1)" "build_table (space_pages noffH) ps1 = Some (pt, ps2)"
      "finish_space heap a (blank p pt2 (space_pages noffH) 0) (ps2\<lparr>mach := m2\<rparr>) = Some ps'"
    using s by (auto simp: AddrSpace_load_def bind_Some_iff Let_def)
  obtain b where b: "ps1 = ps\<lparr>pidMap := b, lastPid := p + 1, addrspaces := (addrspaces ps)(p \<mapsto> a)\<rparr>" "p \<notin> marked (pidMap ps)"
      "marked b = insert p (marked (pidMap ps))"
    using new_process_spec [OF ok new_process_pid(1) [OF ok r(1)], of a] r(1) by (metis option.inject prod.inject)
  have ps2: "spaces ps2 = spaces ps" "pidMap ps2 = b" "addrspaces ps2 = (addrspaces ps)(p \<mapsto> a)" "threadsInfos ps2 = threadsInfos ps"
    using r(2) b(1) by (auto simp: build_table_def bind_Some_iff)
  obtain sp where sp: "ps' = ps2\<lparr>mach := m2, spaces := (spaces ps2)(a \<mapsto> sp)\<rparr>" "pid sp = p" "nThreads sp = 0" "nextUserThreadid sp = 1"
      "marked (threadsBitmap sp) = {}" "bitmap_wf (threadsBitmap sp)" "numBits (threadsBitmap sp) = 7" "localThreadsInfos sp = replicate 7 None"
    using finish_space_spec [of heap a "blank p pt2 (space_pages noffH) 0" "ps2\<lparr>mach := m2\<rparr>"] r(3) by (auto simp: blank_def)
  have "threads_ok sp" using sp by (simp add: threads_ok_def)
  then show ?thesis using that [of sp] sp ps2 b by simp
qed

lemma table_load:
  assumes T: "table_ok ps V" and t: "V t = Some m" "m_main m" "m_stage m = Launched" and a: "spaces ps a = None"
    and sp: "threads_ok sp" "nThreads sp = 0" "marked (threadsBitmap sp) = {}" "localThreadsInfos sp = replicate 7 None" "pid sp \<notin> marked (pidMap ps)"
    and ps': "spaces ps' = (spaces ps)(a \<mapsto> sp)" "threadsInfos ps' = threadsInfos ps" "marked (pidMap ps') = insert (pid sp) (marked (pidMap ps))"
      "addrspaces ps' = (addrspaces ps)(pid sp \<mapsto> a)"
    and V': "V' = V(t \<mapsto> m\<lparr>m_stage := Run, m_space := Some a\<rparr>)"
  shows "table_ok ps' V'"
proof -
  have new: "main_in b (m\<lparr>m_stage := Run, m_space := Some a\<rparr>) \<longleftrightarrow> b = a" for b using t(2) by (auto simp: main_in_def)
  have nb: "b \<noteq> a" if "V u = Some n" "m_stage n \<noteq> Gone" "main_in b n \<or> user_in b n" for u n b
    using table_okD(2,3) [OF T that(1,2)] that(3) a by (auto simp: main_ok_def user_ok_def registered_def main_in_def user_in_def)
  have V: "V' u = Some n" if "V u = Some n" "main_in b n \<or> user_in b n" for u n b
    using that t V' by (auto simp: main_in_def user_in_def)
  have "space_wf V' b sq" if b: "spaces ps' b = Some sq" for b sq
  proof (cases "b = a")
    case True
    then show ?thesis using b ps'(1) sp new V' by (auto simp: space_wf_def intro!: exI [of _ t])
  next
    case False
    then have W: "space_wf V b sq" using table_okD(1) [OF T] b ps'(1) by simp
    have "\<exists>t m. V' t = Some m \<and> user_in b m \<and> m_tid m = thread_id x" if "i < 7" "localThreadsInfos sq ! i = Some x" for i x
      using space_wfD(3) [OF W that] V by blast
    moreover have "\<exists>t m. V' t = Some m \<and> main_in b m" using space_wfD(5) [OF W] V by blast
    ultimately show ?thesis using W unfolding space_wf_def by blast
  qed
  moreover have "if m_main n then main_ok ps' n else user_ok ps' n" if n: "V' u = Some n" "m_stage n \<noteq> Gone" for u n
  proof (cases "u = t")
    case True
    then show ?thesis using n V' t(2) ps' new by (auto simp: main_ok_def)
  next
    case False
    then have Vu: "V u = Some n" using n V' by simp
    have "main_ok ps' n" if "m_main n"
    proof -
      have "\<exists>sq. spaces ps' b = Some sq \<and> (m_stage n = Last \<longrightarrow> nThreads sq = 0)
          \<and> (m_stage n = Run \<longrightarrow> pid sq \<in> marked (pidMap ps') \<and> addrspaces ps' (pid sq) = Some b)" if b: "main_in b n" for b
      proof -
        obtain sq where sq: "spaces ps b = Some sq" "m_stage n = Last \<longrightarrow> nThreads sq = 0"
            "m_stage n = Run \<longrightarrow> pid sq \<in> marked (pidMap ps) \<and> addrspaces ps (pid sq) = Some b"
          using table_okD(2) [OF T Vu n(2) \<open>m_main n\<close>] b unfolding main_ok_def by blast
        have "b \<noteq> a" using nb [OF Vu n(2)] b by blast
        then show ?thesis using sq ps' sp(5) by (intro exI [of _ sq]) auto
      qed
      then show ?thesis using table_okD(2) [OF T Vu n(2) that] by (simp add: main_ok_def)
    qed
    moreover have "user_ok ps' n" if "\<not> m_main n"
      using table_okD(3) [OF T Vu n(2) that] nb [OF Vu n(2)] that n(2) ps'(1,2) by (auto simp: user_ok_def registered_def user_in_def)
    ultimately show ?thesis by simp
  qed
  moreover have "u = v" if "V' u = Some n" "V' v = Some n'" "main_in b n" "main_in b n'" for u v n n' b
    using that V' new nb [of u n b] nb [of v n' b] table_okD(4) [OF T, of u n v n' b] by (auto simp: main_in_def split: if_splits)
  moreover have "\<exists>b sq u n. addrspaces ps' p = Some b \<and> spaces ps' b = Some sq \<and> pid sq = p \<and> V' u = Some n \<and> main_in b n \<and> m_stage n = Run"
    if p: "p \<in> marked (pidMap ps')" for p
  proof (cases "p = pid sp")
    case True
    then show ?thesis using ps' V' new by (intro exI [of _ a] exI [of _ sp] exI [of _ t]) auto
  next
    case False
    then obtain b sq u n where b: "addrspaces ps p = Some b" "spaces ps b = Some sq" "pid sq = p" "V u = Some n" "main_in b n" "m_stage n = Run"
      using table_okD(5) [OF T, of p] p ps'(3) by auto
    then show ?thesis using ps' False V [of u n b] a by (intro exI [of _ b] exI [of _ sq] exI [of _ u] exI [of _ n]) auto
  qed
  ultimately show ?thesis unfolding table_ok_def by blast
qed

lemma load_inv:
  assumes inv: "uinv us" and t: "at us t Forked th" and a: "spaces (procs us) a = None"
    and exe: "dev_wf v" "maps_to v (hdr f) bl ix" "loadable (contents v (hdr f) bl)"
    and s: "StartProcess heap stale eh v f a t us = Some us'"
  shows "uinv us'"
proof -
  note I = uinvD [OF inv]
  obtain ps sp0 m where s': "AddrSpace_load heap stale eh v f a (procs us) = Some ps" "spaces ps a = Some sp0" "InitRegisters sp0 (mach ps) = Some m"
    and e: "us' = set_pos t In_user (set_space t (Some a) (us\<lparr>procs := ps\<lparr>mach := RestoreState sp0 m\<rparr>, semFORK := semFORK us + 1\<rparr>))"
    using s by (auto simp: StartProcess_def bind_Some_iff Let_def)
  have ok: "procs_ok ps" using step_load [OF I(1) a exe s'(1)] by simp
  have ok': "procs_ok (ps\<lparr>mach := RestoreState sp0 m\<rparr>)"
    using procs_ok_mach [OF ok] InitRegisters_tlb [OF s'(3)] procs_okD(2) [OF ok] by (simp add: RestoreState_def)
  obtain sp where sp: "spaces ps = (spaces (procs us))(a \<mapsto> sp)" "threads_ok sp" "nThreads sp = 0" "marked (threadsBitmap sp) = {}"
      "localThreadsInfos sp = replicate 7 None" "threadsInfos ps = threadsInfos (procs us)"
      "pid sp \<notin> marked (pidMap (procs us))" "marked (pidMap ps) = insert (pid sp) (marked (pidMap (procs us)))"
      "addrspaces ps = (addrspaces (procs us))(pid sp \<mapsto> a)"
    using AddrSpace_load_threads [OF I(1) s'(1)] by metis
  let ?th = "th\<lparr>ut_space := Some a, upos := In_user\<rparr>"
  have us': "procs us' = ps\<lparr>mach := RestoreState sp0 m\<rparr>" "tids us' = tids us" "lastTid us' = lastTid us" "nUsedAddrSpace us' = nUsedAddrSpace us"
      "uthreads us' = (uthreads us)(t \<mapsto> ?th)" "conds us' = conds us"
    using t by (simp_all add: e)
  have V: "members us t = Some (member_of th)" "m_main (member_of th)" "m_stage (member_of th) = Launched"
    using t main_stage(1) [OF I(2), of t th] by (simp_all add: members_thread)
  have V': "members us' = (members us)(t \<mapsto> (member_of th)\<lparr>m_stage := Run, m_space := Some a\<rparr>)"
    using us'(5) by (auto simp: members_def member_of_def fun_eq_iff)
  have "table_ok (procs us') (members us')"
    by (rule table_load [OF I(2) V a sp(2-5,7) _ _ _ _ V']) (use sp us'(1) in simp_all)
  moreover have "tids_ok (tids us) (lastTid us) (members us')"
    using V by (intro tids_more [OF I(3)]) (use tids_okD(1-3) [OF I(3)] V' in \<open>auto split: if_splits\<close>)
  moreover have "count_ok (nUsedAddrSpace us) (members us')"
    using I(4) mains_same [where V = "members us" and n = t, OF V(1), of "(member_of th)\<lparr>m_stage := Run, m_space := Some a\<rparr>"] V V' t
    by (simp add: count_ok_def)
  moreover have "queues_ok us'"
    unfolding queues_ok_def
  proof (intro conjI allI ballI)
    show "distinct (conds us' c)" for c using us'(6) I(5) by (simp add: queues_ok_def)
    fix c u assume u: "u \<in> set (conds us' c)"
    then have uc: "u \<in> set (conds us c)" using us'(6) by simp
    obtain g where g: "uthreads us u = Some g" "waits_on (upos g) (ut_space g) = Some c" "wait_ok (procs us) g" using queues_okD [OF I(5) uc] .
    have "u \<noteq> t" using unqueued [OF I(5), of t th] t uc by blast
    then have "uthreads us' u = Some g" using us'(5) g(1) by simp
    moreover have "wait_ok (procs us') g"
    proof -
      have "spaces (procs us') c = Some sq" if "spaces (procs us) c = Some sq" for c sq using that us'(1) sp(1) a by auto
      moreover have "p \<in> marked (pidMap (procs us'))" if "p \<in> marked (pidMap (procs us)) \<or> p = pid sp" for p using that us'(1) sp(8) by auto
      moreover have "addrspaces (procs us') p = addrspaces (procs us) p" if "p \<noteq> pid sp" for p using that us'(1) sp(9) by simp
      ultimately show ?thesis using g(3) by (cases "upos g") (fastforce simp: wait_ok_def)+
    qed
    ultimately show "\<exists>th. uthreads us' u = Some th \<and> waits_on (upos th) (ut_space th) = Some c \<and> wait_ok (procs us') th" using g(2) by blast
  qed
  ultimately show ?thesis using us' ok' by (simp add: uinv_def)
qed

section \<open>Every run keeps the invariant\<close>

text \<open>
  Between the first two parts of \<open>do_ForkExec\<close> the new thread is the caller's alone, and no other step touches it.
\<close>

definition forks_ok :: "(nat \<rightharpoonup> uthread) \<Rightarrow> bool" where
  "forks_ok T \<longleftrightarrow> (\<forall>t th n. T t = Some th \<longrightarrow> upos th = Forking n \<longrightarrow> (\<exists>h. T n = Some h \<and> upos h = Counted)
     \<and> (\<forall>u g. T u = Some g \<longrightarrow> upos g = Forking n \<longrightarrow> u = t))"

definition calm :: "(nat \<rightharpoonup> uthread) \<Rightarrow> (nat \<rightharpoonup> uthread) \<Rightarrow> bool" where
  "calm T T' \<longleftrightarrow> (\<forall>u g n. T' u = Some g \<longrightarrow> upos g = Forking n \<longrightarrow> T u = Some g) \<and> (\<forall>u g. T u = Some g \<longrightarrow> upos g = Counted \<longrightarrow> T' u = Some g)"

lemma calm_forks: "forks_ok T \<Longrightarrow> calm T T' \<Longrightarrow> forks_ok T'"
  unfolding forks_ok_def calm_def by metis

lemma calm_refl [simp]: "calm T T"
  by (simp add: calm_def)

lemma calm_step: "T t = Some th \<Longrightarrow> upos th \<noteq> Counted \<Longrightarrow> (\<And>n. upos g \<noteq> Forking n) \<Longrightarrow> calm T (T(t \<mapsto> g))"
  by (auto simp: calm_def)

lemma calm_new: "T n = None \<Longrightarrow> upos h = Starting \<Longrightarrow> T t = Some th \<Longrightarrow> upos th \<noteq> Counted \<Longrightarrow> (\<And>n. upos g \<noteq> Forking n) \<Longrightarrow> calm T (T(n \<mapsto> h, t \<mapsto> g))"
  by (auto simp: calm_def)

lemma calm_gone: "T t = Some th \<Longrightarrow> upos th = Finished \<Longrightarrow> calm T (T(t := None))"
  by (auto simp: calm_def)

lemma forks_okD:
  assumes "forks_ok T" "T t = Some th" "upos th = Forking n"
  shows "\<exists>h. T n = Some h \<and> upos h = Counted" "T u = Some g \<Longrightarrow> upos g = Forking n \<Longrightarrow> u = t"
  using assms unfolding forks_ok_def by blast+

lemma forks_count:
  assumes F: "forks_ok T" and t: "T t = Some th" "upos th = In_user" "T n = None" and h: "upos h = Counted"
  shows "forks_ok (T(n \<mapsto> h, t \<mapsto> th\<lparr>upos := Forking n\<rparr>))" (is "forks_ok ?T")
proof -
  have nt: "n \<noteq> t" using t by auto
  have old: "u = t \<and> k = n \<or> T u = Some g \<and> k \<noteq> n \<and> k \<noteq> t" if u: "?T u = Some g" "upos g = Forking k" for u g k
  proof (cases "u = t")
    case False
    then have Tu: "T u = Some g" using u h by (auto split: if_splits)
    then show ?thesis using forks_okD(1) [OF F Tu u(2)] t by auto
  qed (use u in auto)
  have "\<exists>h. ?T k = Some h \<and> upos h = Counted" if u: "?T u = Some g" "upos g = Forking k" for u g k
    using old [OF u] h nt forks_okD(1) [OF F _ u(2)] by auto
  moreover have "v = u" if u: "?T u = Some g" "upos g = Forking k" and v: "?T v = Some g'" "upos g' = Forking k" for u v g g' k
    using old [OF u] old [OF v] forks_okD(2) [OF F _ u(2) _ v(2)] by blast
  ultimately show ?thesis unfolding forks_ok_def by blast
qed

lemma forks_fork:
  assumes F: "forks_ok T" and t: "T t = Some th" "upos th = Forking n" and h: "T n = Some h" "upos h' = Forked"
  shows "forks_ok (T(n \<mapsto> h', t \<mapsto> th\<lparr>upos := Awaiting n\<rparr>))" (is "forks_ok ?T")
proof -
  have old: "T u = Some g \<and> k \<noteq> n \<and> k \<noteq> t" if u: "?T u = Some g" "upos g = Forking k" for u g k
  proof -
    have Tu: "T u = Some g" "u \<noteq> t" using u h(2) by (auto split: if_splits)
    then show ?thesis using forks_okD(1) [OF F Tu(1) u(2)] forks_okD(2) [OF F t Tu(1)] u(2) t by auto
  qed
  have "\<exists>h. ?T k = Some h \<and> upos h = Counted" if u: "?T u = Some g" "upos g = Forking k" for u g k
    using old [OF u] forks_okD(1) [OF F _ u(2)] by auto
  moreover have "v = u" if u: "?T u = Some g" "upos g = Forking k" and v: "?T v = Some g'" "upos g' = Forking k" for u v g g' k
    using old [OF u] old [OF v] forks_okD(2) [OF F _ u(2) _ v(2)] by blast
  ultimately show ?thesis unfolding forks_ok_def by blast
qed

text \<open>What each routine does to the table of threads.\<close>

lemma loops_calm:
  assumes t: "uthreads us t = Some th" "upos th \<noteq> Counted"
  shows "join_loop t u x us = Some us' \<Longrightarrow> calm (uthreads us) (uthreads us')"
    "process_loop t p y us = Some us' \<Longrightarrow> calm (uthreads us) (uthreads us')"
    "main_loop t a us = Some us' \<Longrightarrow> calm (uthreads us) (uthreads us')"
  using t by (auto simp: join_loop_def process_loop_def main_loop_def bind_Some_iff split: option.splits if_splits intro!: calm_step)

lemma steps_calm:
  assumes t: "uthreads us t = Some th" "upos th \<noteq> Counted"
  shows "UserThreadCreate_result t us = Some (r, us') \<Longrightarrow> calm (uthreads us) (uthreads us')"
    "StartUserThread t us = Some us' \<Longrightarrow> calm (uthreads us) (uthreads us')"
    "do_UserThreadExit t us = Some us' \<Longrightarrow> calm (uthreads us) (uthreads us')"
    "do_UserThreadJoin t u us = Some us' \<Longrightarrow> calm (uthreads us) (uthreads us')"
    "synchThreadsMainExit t us = Some us' \<Longrightarrow> calm (uthreads us) (uthreads us')"
    "endProcess t us = Some us' \<Longrightarrow> calm (uthreads us) (uthreads us')"
    "ForkExec_result t us = Some (r, us') \<Longrightarrow> calm (uthreads us) (uthreads us')"
    "StartProcess heap stale eh v f a t us = Some us' \<Longrightarrow> calm (uthreads us) (uthreads us')"
    "calm (uthreads us) (uthreads (StartProcess_fails t us))"
    "do_ProcessJoin t p us = Some us' \<Longrightarrow> calm (uthreads us) (uthreads us')"
    "do_SemInit a i k us = Some (r, us') \<Longrightarrow> calm (uthreads us) (uthreads us')"
    "do_SemDestroy a i us = Some us' \<Longrightarrow> calm (uthreads us) (uthreads us')"
proof -
  show "UserThreadCreate_result t us = Some (r, us') \<Longrightarrow> calm (uthreads us) (uthreads us')"
    using t by (auto simp: UserThreadCreate_result_def bind_Some_iff intro!: calm_step)
  show "StartUserThread t us = Some us' \<Longrightarrow> calm (uthreads us) (uthreads us')"
    using t by (cases "ut_args th" rule: prod_cases3) (auto simp: StartUserThread_def bind_Some_iff Let_def intro!: calm_step)
  show "do_UserThreadExit t us = Some us' \<Longrightarrow> calm (uthreads us) (uthreads us')"
    using t by (auto simp: do_UserThreadExit_def bind_Some_iff Let_def intro!: calm_step)
  show "do_UserThreadJoin t u us = Some us' \<Longrightarrow> calm (uthreads us) (uthreads us')"
    using loops_calm(1) [OF t] by (auto simp: do_UserThreadJoin_def bind_Some_iff)
  show "synchThreadsMainExit t us = Some us' \<Longrightarrow> calm (uthreads us) (uthreads us')"
  proof -
    assume s: "synchThreadsMainExit t us = Some us'"
    obtain a ps where "main_loop t a (cond_broadcast (ProcessJoin_cond a) (us\<lparr>procs := ps\<rparr>)) = Some us'"
      using s by (auto simp: synchThreadsMainExit_def bind_Some_iff)
    then show ?thesis using loops_calm(3) [of "cond_broadcast (ProcessJoin_cond a) (us\<lparr>procs := ps\<rparr>)" t th a us'] t by simp
  qed
  show "endProcess t us = Some us' \<Longrightarrow> calm (uthreads us) (uthreads us')"
    using t by (auto simp: endProcess_def bind_Some_iff Let_def split: if_splits intro!: calm_step)
  show "ForkExec_result t us = Some (r, us') \<Longrightarrow> calm (uthreads us) (uthreads us')"
    using t by (auto simp: ForkExec_result_def bind_Some_iff Let_def split: option.splits intro!: calm_step [of "uthreads us" t th])
  show "StartProcess heap stale eh v f a t us = Some us' \<Longrightarrow> calm (uthreads us) (uthreads us')"
    using t by (auto simp: StartProcess_def bind_Some_iff Let_def intro!: calm_step)
  show "calm (uthreads us) (uthreads (StartProcess_fails t us))"
    using t by (auto simp: StartProcess_fails_def intro!: calm_step)
  show "do_ProcessJoin t p us = Some us' \<Longrightarrow> calm (uthreads us) (uthreads us')"
    using loops_calm(2) [OF t] by (auto simp: do_ProcessJoin_def split: if_splits)
  show "do_SemInit a i k us = Some (r, us') \<Longrightarrow> calm (uthreads us) (uthreads us')"
    by (auto simp: do_SemInit_def bind_Some_iff Let_def split: if_splits)
  show "do_SemDestroy a i us = Some us' \<Longrightarrow> calm (uthreads us) (uthreads us')"
    by (auto simp: do_SemDestroy_def bind_Some_iff split: option.splits)
qed

lemma ustep_ok:
  assumes step: "ustep us us'" and inv: "uinv us" "forks_ok (uthreads us)"
  shows "halted us' \<or> uinv us' \<and> forks_ok (uthreads us')"
  using step
proof cases
  case (create t th n fw f arg r)
  have "calm (uthreads us) (uthreads us') \<or> forks_ok (uthreads us')"
  proof -
    have tn: "t \<noteq> n" using create by auto
    obtain tid us1 where t1: "new_tid us = Some (tid, us1)" using create(4) by (auto simp: do_UserThreadCreate_def bind_Some_iff)
    have "uthreads us1 = uthreads us" using t1 by (auto simp: new_tid_def bind_Some_iff)
    then show ?thesis
      using create tn t1 by (auto simp: do_UserThreadCreate_def bind_Some_iff Let_def split: if_splits intro!: calm_new)
  qed
  then show ?thesis using create_inv [OF inv(1) create] calm_forks [OF inv(2)] by blast
next
  case (created t n th r)
  then show ?thesis using step_created [OF inv(1)] calm_forks [OF inv(2) steps_calm(1)] by auto
next
  case (start t th)
  then show ?thesis using step_start [OF inv(1)] calm_forks [OF inv(2) steps_calm(2)] by auto
next
  case (exit t th)
  then show ?thesis using exit_inv [OF inv(1)] calm_forks [OF inv(2) steps_calm(3)] by auto
next
  case (join t th u)
  then show ?thesis using step_join [OF inv(1)] calm_forks [OF inv(2) steps_calm(4)] by auto
next
  case (join_again t u i th)
  then show ?thesis using step_join_loop [OF inv(1), of t th] calm_forks [OF inv(2) loops_calm(1)] by auto
next
  case (main_exit t th)
  then show ?thesis using main_exit_inv [OF inv(1)] calm_forks [OF inv(2) steps_calm(5)] by auto
next
  case (main_again t th a)
  then show ?thesis using main_again_inv [OF inv(1)] calm_forks [OF inv(2) loops_calm(3)] by auto
next
  case (end_process t th)
  then show ?thesis using end_inv [OF inv(1)] calm_forks [OF inv(2) steps_calm(6)] by auto
next
  case (count t th n r)
  obtain tid us1 where t1: "new_tid us = Some (tid, us1)" "uthreads us1 = uthreads us"
    using count(3) by (auto simp: ForkExec_count_def new_tid_def bind_Some_iff)
  have tn: "t \<noteq> n" using count by auto
  have "forks_ok (uthreads us')"
    using count t1 tn inv(2) forks_count [OF inv(2), of t th n "\<lparr>ut_tid = tid, ut_space = None, isMain = True, upos = Counted, ut_args = (0, 0, 0)\<rparr>"]
    by (auto simp: ForkExec_count_def split: if_splits)
  then show ?thesis using count_inv [OF inv(1) count] by blast
next
  case (fork t n th stale)
  have c: "\<And>h. uthreads us n = Some h \<Longrightarrow> upos h = Counted" using forks_okD(1) [OF inv(2), of t th n] fork(1) by auto
  obtain h where h: "uthreads us n = Some h" using fork by (auto simp: ForkExec_fork_def bind_Some_iff)
  then have "t \<noteq> n" using c [OF h] fork(1) by auto
  then have "uthreads us' = (uthreads us)(n \<mapsto> h\<lparr>upos := Forked, ut_space := ut_space th\<rparr>, t \<mapsto> th\<lparr>upos := Awaiting n\<rparr>)"
    using fork h by (auto simp: ForkExec_fork_def bind_Some_iff)
  then have "forks_ok (uthreads us')" using forks_fork [OF inv(2), of t th n h] fork(1) h by simp
  then show ?thesis using fork_inv [OF inv(1) fork c] by blast
next
  case (result t n th r)
  then show ?thesis using step_result [OF inv(1)] calm_forks [OF inv(2) steps_calm(7)] by auto
next
  case (load t th a v f bl ix heap stale eh)
  then show ?thesis using load_inv [OF inv(1) load] calm_forks [OF inv(2) steps_calm(8)] by auto
next
  case (fail t th)
  then show ?thesis using fail_inv [OF inv(1)] calm_forks [OF inv(2) steps_calm(9)] by auto
next
  case (process_join t th p)
  then show ?thesis using step_process_join [OF inv(1)] calm_forks [OF inv(2) steps_calm(10)] by auto
next
  case (process_again t p a th)
  then show ?thesis using step_process_loop [OF inv(1), of t th] calm_forks [OF inv(2) loops_calm(2)] by auto
next
  case (sbrk t th a m k ps)
  then show ?thesis using step_uses_memory [OF inv(1)] inv(2) by simp
next
  case (sem_init t th a v k r)
  then show ?thesis using step_sem_init [OF inv(1)] calm_forks [OF inv(2) steps_calm(11)] by auto
next
  case (sem_destroy t th a s)
  then show ?thesis using step_sem_destroy [OF inv(1)] calm_forks [OF inv(2) steps_calm(12)] by auto
next
  case (reap t th)
  then show ?thesis using reap_inv [OF inv(1)] calm_forks [OF inv(2) calm_gone] by auto
qed

lemma ustep_halted: "ustep us us' \<Longrightarrow> \<not> halted us"
  by (cases rule: ustep.cases) auto

lemma usteps_ok:
  assumes "ustep\<^sup>*\<^sup>* us us'" "uinv us" "forks_ok (uthreads us)" "\<not> halted us'"
  shows "uinv us' \<and> forks_ok (uthreads us')"
  using assms(1,4)
proof (induction rule: rtranclp_induct)
  case base
  then show ?case using assms(2,3) by simp
next
  case (step y z)
  then show ?case using ustep_ok [OF step(2)] ustep_halted [OF step(2)] by blast
qed

lemma us_boot_ok:
  obtains us where "us_boot heap size0 debug t = Some us" "uinv us" "forks_ok (uthreads us)" "\<not> halted us"
    "uthreads us = [t \<mapsto> \<lparr>ut_tid = 0, ut_space = None, isMain = True, upos = Forked, ut_args = (0, 0, 0)\<rparr>]"
    "spaces (procs us) = Map.empty" "marked (pidMap (procs us)) = {}"
proof -
  obtain ps where ps: "procs_boot heap size0 debug = Some ps" "procs_ok ps" "spaces ps = Map.empty" "marked (pidMap ps) = {}" using boot_ok .
  obtain b where b: "BitMap_new (heap 2) MaxThreads = Some b" "bitmap_wf b" "numBits b = MaxThreads" "marked b = {}"
    using new_spec [of MaxThreads "heap 2"] by auto
  obtain tid c where c: "BitMap_FindStart b 0 = Some (tid, c)" "bitmap_wf c" "numBits c = MaxThreads"
      "tid = - 1 \<and> marked b = {0..<MaxThreads} \<or> (\<exists>j. 0 \<le> j \<and> j < MaxThreads \<and> tid = j mod MaxThreads \<and> (\<forall>j'. 0 \<le> j' \<and> j' < j \<longrightarrow> j' mod MaxThreads \<in> marked b)
        \<and> marked c = insert tid (marked b))"
    using FindStart_spec [OF b(2), of 0] b(3) by auto
  have tid: "tid = 0" "marked c = {0}"
  proof -
    obtain j where j: "0 \<le> j" "tid = j mod MaxThreads" "\<forall>j'. 0 \<le> j' \<and> j' < j \<longrightarrow> j' mod MaxThreads \<in> marked b" "marked c = insert tid (marked b)"
      using c(4) b(4) by (auto simp: atLeastLessThan_empty_iff)
    have "j = 0" using j(1,3) b(4) by (cases "j = 0") auto
    then show "tid = 0" "marked c = {0}" using j b(4) by auto
  qed
  define us where "us = \<lparr>procs = ps, tids = c, lastTid = 1, nUsedAddrSpace = 0, uthreads = [t \<mapsto> \<lparr>ut_tid = 0, ut_space = None, isMain = True,
      upos = Forked, ut_args = (0, 0, 0)\<rparr>], conds = (\<lambda>c. []), semFORK = - 1, semList = (\<lambda>a. Map.empty), semObjects = Map.empty, halted = False\<rparr>"
  have r: "us_boot heap size0 debug t = Some us"
    using ps(1) b(1) c(1) tid(1) by (simp add: us_boot_def new_tid_def us_def)
  have V: "members us = [t \<mapsto> \<lparr>m_tid = 0, m_space = None, m_main = True, m_stage = Launched\<rparr>]"
    by (simp add: us_def members_def member_of_def fun_eq_iff)
  have "table_ok ps (members us)" using ps(3,4) by (auto simp: V table_ok_def main_ok_def main_in_def)
  moreover have "tids_ok c 1 (members us)" using c(2,3) tid(2) by (auto simp: V tids_ok_def split: if_splits)
  moreover have "count_ok 0 (members us)"
  proof -
    have "mains (members us) = {t}" by (auto simp: V mains_def)
    then show ?thesis by (simp add: count_ok_def V)
  qed
  ultimately have "uinv us" using ps(2) by (simp add: uinv_def us_def queues_ok_def)
  then show ?thesis using that [OF r] ps(3,4) by (simp add: us_def forks_ok_def)
qed

end
