(* ===== verification/UserLife.thy ===== *)
theory UserLife
  imports UserRuns
begin

text \<open>
  The life of user threads and processes, from the invariant of \<open>UserRuns\<close>: a process keeps its space as long as its
  threads run, nobody waits in vain, threads are created and joined as asked, and the machine halts with the last process.
\<close>

section \<open>Properties\<close>

text \<open>The user threads of a space that have not ended.\<close>

definition user_threads :: "UserSys \<Rightarrow> nat \<Rightarrow> nat set" where
  "user_threads us a = {t. \<exists>th. uthreads us t = Some th \<and> \<not> isMain th \<and> upos th \<noteq> Finished \<and> ut_space th = Some a}"

lemma user_threads_iff: "t \<in> user_threads us a \<longleftrightarrow> (\<exists>m. members us t = Some m \<and> user_in a m)"
  by (auto simp: user_threads_def user_in_def members_Some)

lemma user_thread_slot:
  assumes inv: "uinv us" and t: "uthreads us t = Some th" "\<not> isMain th" "upos th \<noteq> Finished"
  obtains a sp i x where "ut_space th = Some a" "spaces (procs us) a = Some sp" "i < 7" "localThreadsInfos sp ! i = Some x"
    "threadsInfos (procs us) (ut_tid th) = Some x" "thread_id x = ut_tid th" "0 < ut_tid th" "ut_tid th \<in> marked (tids us)" "addrspace_idx x = int i"
proof -
  note V = members_thread [OF t(1)]
  obtain a sp i x where a: "ut_space th = Some a" "spaces (procs us) a = Some sp" "i < 7" "localThreadsInfos sp ! i = Some x"
      "threadsInfos (procs us) (ut_tid th) = Some x" "thread_id x = ut_tid th" "0 < ut_tid th"
    using table_okD(3) [OF uinvD(2) [OF inv] V] t(2,3) by (auto simp: user_ok_def registered_def)
  moreover have "ut_tid th \<in> marked (tids us)" using tids_okD(5) [OF uinvD(3) [OF inv] V] t(3) a(7) by auto
  moreover have "addrspace_idx x = int i"
    using space_wfD(1) [OF table_okD(1) [OF uinvD(2) [OF inv] a(2)]] a(3,4) by (simp add: threads_ok_def)
  ultimately show ?thesis using that by blast
qed

lemma nThreads_counts:
  assumes inv: "uinv us" and sp: "spaces (procs us) a = Some sp"
  shows "nThreads sp = int (card (user_threads us a))"
proof -
  note I = uinvD [OF inv]
  have W: "space_wf (members us) a sp" using table_okD(1) [OF I(2) sp] .
  have thr: "threads_ok sp" using space_wfD(1) [OF W] .
  define g where "g t = addrspace_idx (the (threadsInfos (procs us) (ut_tid (the (uthreads us t)))))" for t
  have slot: "\<exists>i x. i < 7 \<and> localThreadsInfos sp ! i = Some x \<and> thread_id x = ut_tid (the (uthreads us t)) \<and> g t = int i" if t: "t \<in> user_threads us a" for t
  proof -
    obtain th where th: "uthreads us t = Some th" "\<not> isMain th" "upos th \<noteq> Finished" "ut_space th = Some a" using t by (auto simp: user_threads_def)
    obtain b sq i x where "ut_space th = Some b" "spaces (procs us) b = Some sq" "i < 7" "localThreadsInfos sq ! i = Some x"
        "threadsInfos (procs us) (ut_tid th) = Some x" "thread_id x = ut_tid th" "addrspace_idx x = int i"
      using user_thread_slot [OF inv th(1-3)] by metis
    then show ?thesis using th(1,4) sp by (intro exI [of _ i] exI [of _ x]) (simp add: g_def)
  qed
  have "bij_betw g (user_threads us a) (marked (threadsBitmap sp))"
  proof (rule bij_betw_imageI)
    show "inj_on g (user_threads us a)"
    proof (rule inj_onI)
      fix t u assume tu: "t \<in> user_threads us a" "u \<in> user_threads us a" "g t = g u"
      obtain th uh where h: "uthreads us t = Some th" "upos th \<noteq> Finished" "uthreads us u = Some uh" "upos uh \<noteq> Finished" "\<not> isMain th"
        using tu by (auto simp: user_threads_def)
      have "ut_tid th = ut_tid uh" using slot [OF tu(1)] slot [OF tu(2)] tu(3) h by auto
      moreover have "ut_tid th \<noteq> - 1" using user_thread_slot [OF inv h(1,5,2)] by (metis neg_0_less_iff_less not_one_less_zero)
      ultimately show "t = u" using tids_okD(6) [OF I(3) members_thread [OF h(1)] members_thread [OF h(3)]] h(2,4) by simp
    qed
    show "g ` user_threads us a = marked (threadsBitmap sp)"
    proof (intro set_eqI iffI)
      fix k assume "k \<in> g ` user_threads us a"
      then obtain t where t: "t \<in> user_threads us a" "k = g t" by blast
      then show "k \<in> marked (threadsBitmap sp)" using slot [OF t(1)] thr by (auto simp: threads_ok_def)
    next
      fix k assume k: "k \<in> marked (threadsBitmap sp)"
      then have "0 \<le> k" "k < 7" using marked_subset [of "threadsBitmap sp"] thr by (auto simp: threads_ok_def)
      define i where "i = nat k"
      have i: "i < 7" "k = int i" using \<open>0 \<le> k\<close> \<open>k < 7\<close> by (simp_all add: i_def)
      then obtain x where x: "localThreadsInfos sp ! i = Some x" using k thr by (auto simp: threads_ok_def)
      obtain t m where t: "members us t = Some m" "user_in a m" "m_tid m = thread_id x" using space_wfD(3) [OF W i(1) x] by blast
      then have tu: "t \<in> user_threads us a" by (auto simp: user_threads_iff)
      have "g t = int i"
        using slot [OF tu] t space_wfD(4) [OF W _ i(1) _ x] by (auto simp: members_Some)
      then show "k \<in> g ` user_threads us a" using tu i(2) by (metis imageI)
    qed
  qed
  then show ?thesis using bij_betw_same_card space_wfD(2) [OF W] by metis
qed

lemma reachable_uinv:
  assumes "us_boot heap size0 debug t0 = Some us0" "ustep\<^sup>*\<^sup>* us0 us" "\<not> halted us"
  shows "uinv us"
proof -
  obtain us1 where "us_boot heap size0 debug t0 = Some us1" "uinv us1" "forks_ok (uthreads us1)" using us_boot_ok [of heap size0 debug t0] by metis
  then show ?thesis using assms usteps_ok [OF assms(2)] by simp
qed

subsection \<open>Creating and joining\<close>

text \<open>What \<open>do_UserThreadCreate\<close> does to the space, when an id is left.\<close>

lemma create_spec:
  assumes inv: "uinv us" and t: "at us t In_user th" and n: "uthreads us n = None" and ids: "marked (tids us) \<noteq> {0..<MaxThreads}"
    and a: "ut_space th = Some a" "spaces (procs us) a = Some sp"
  obtains (full) us' where "do_UserThreadCreate t n fw f arg us = Some (- 1, us')" "nThreads sp = 7" "procs us' = procs us" "uthreads us' = uthreads us"
  | (created) us' h x i where "do_UserThreadCreate t n fw f arg us = Some (0, us')" "nThreads sp < 7" "i < 7"
      "uthreads us' = (uthreads us)(n \<mapsto> h, t \<mapsto> th\<lparr>upos := Creating n\<rparr>)" "h = \<lparr>ut_tid = thread_id x, ut_space = Some a, isMain = False, upos = Starting, ut_args = (fw, f, arg)\<rparr>"
      "localThreadsInfos sp ! i = None" "x = \<lparr>addrspace_idx = int i, userthread_id = nextUserThreadid sp, thread_id = thread_id x\<rparr>"
      "thread_id x \<notin> marked (tids us)" "0 < thread_id x" "thread_id x < MaxThreads" "thread_id x \<in> marked (tids us')"
      "threadsInfos (procs us') (thread_id x) = Some x" "\<And>b. b \<noteq> a \<Longrightarrow> spaces (procs us') b = spaces (procs us) b"
      "\<exists>sp'. spaces (procs us') a = Some sp' \<and> nThreads sp' = nThreads sp + 1 \<and> localThreadsInfos sp' = (localThreadsInfos sp)[i := Some x]"
      "conds us' = conds us" "halted us' = halted us"
proof -
  note I = uinvD [OF inv]
  have W: "space_wf (members us) a sp" using table_okD(1) [OF I(2) a(2)] .
  note w = space_wfD [OF W]
  obtain tid b where b: "new_tid us = Some (tid, us\<lparr>tids := b, lastTid := tid + 1\<rparr>)" "0 < tid" "tid < MaxThreads" "tid \<notin> marked (tids us)" "tid \<in> marked b"
  proof -
    obtain k c where k: "BitMap_FindStart (tids us) (lastTid us) = Some (k, c)" "k \<notin> marked (tids us)" "k \<in> marked c" "0 \<le> k" "k < MaxThreads"
    proof -
      obtain k c where k: "BitMap_FindStart (tids us) (lastTid us) = Some (k, c)"
          "k = - 1 \<and> c = tids us \<and> marked (tids us) = {0..<MaxThreads} \<or> (\<exists>j. k = (lastTid us + j) mod MaxThreads \<and> k \<notin> marked (tids us)
            \<and> marked c = insert k (marked (tids us)))"
        using FindStart_spec [OF tids_okD(1,3) [OF I(3)]] tids_okD(2) [OF I(3)] by auto
      have "\<exists>j. k = (lastTid us + j) mod MaxThreads \<and> k \<notin> marked (tids us) \<and> marked c = insert k (marked (tids us))"
        using k(2) ids by blast
      then show ?thesis using k(1) by (intro that [of k c]) auto
    qed
    then have "k \<noteq> 0" using tids_okD(4) [OF I(3)] by auto
    then show ?thesis using that [of k c] k by (simp add: new_tid_def)
  qed
  have m7: "marked (threadsBitmap sp) \<subseteq> {0..<7}" using marked_subset [of "threadsBitmap sp"] w(1) by (simp add: threads_ok_def)
  show ?thesis
  proof (cases rule: AllocateThreadData_spec [OF a(2) w(1) order.strict_implies_order [OF b(2)] b(3), case_names no_slot slot])
    case no_slot
    have "nThreads sp = 7" using w(2) no_slot(1) by simp
    then show ?thesis using that(1) t a(1) b(1) no_slot(2) by (simp add: do_UserThreadCreate_def)
  next
    case (slot i c)
    have "card (marked (threadsBitmap sp)) < card {0..<7::int}"
      using m7 slot(1,2) by (intro psubset_card_mono) auto
    then have lt: "nThreads sp < 7" using w(2) by simp
    have free: "localThreadsInfos sp ! i = None" using w(1) slot(1,2) by (simp add: threads_ok_def)
    have tn: "t \<noteq> n" using t n by auto
    define x where "x = info_of sp tid i"
    define h where "h = \<lparr>ut_tid = tid, ut_space = Some a, isMain = False, upos = Starting, ut_args = (fw, f, arg)\<rparr>"
    define sp' where "sp' = (with_thread sp tid i c)\<lparr>nThreads := nThreads sp + 1\<rparr>"
    define us' where "us' = set_pos t (Creating n) (us\<lparr>tids := b, lastTid := tid + 1, procs := (procs us)\<lparr>threadsInfos := (threadsInfos (procs us))(tid \<mapsto> x),
      spaces := (spaces (procs us))(a \<mapsto> sp')\<rparr>, uthreads := (uthreads us)(n \<mapsto> h)\<rparr>)"
    have x: "thread_id x = tid" "x = \<lparr>addrspace_idx = int i, userthread_id = nextUserThreadid sp, thread_id = tid\<rparr>" by (simp_all add: x_def info_of_def)
    have r: "do_UserThreadCreate t n fw f arg us = Some (0, us')"
      using t a(1) b slot(6) by (simp add: do_UserThreadCreate_def us'_def sp'_def h_def x_def with_thread_def)
    show ?thesis
      by (rule that(2) [OF r lt slot(1), of h x]) (use t b tn free x in \<open>simp_all add: us'_def h_def sp'_def with_thread_def x_def\<close>)
  qed
qed

text \<open>What \<open>do_UserThreadJoin\<close> finds.\<close>

lemma set_pos_same: "uthreads us t = Some th \<Longrightarrow> upos th = q \<Longrightarrow> set_pos t q us = us"
  by (cases th) (simp add: set_pos_def fun_upd_idem)

lemma find_userthread_none:
  assumes "threads_ok sp" "i + n \<le> 7" "\<And>j x. j < 7 \<Longrightarrow> localThreadsInfos sp ! j = Some x \<Longrightarrow> userthread_id x \<noteq> u"
  shows "find_userthread sp u i n = Some None"
  using assms(2)
proof (induction n arbitrary: i)
  case (Suc n)
  have t: "BitMap_Test (threadsBitmap sp) (int i) = Some (localThreadsInfos sp ! i \<noteq> None)"
    using assms(1) Suc.prems Test_eq [of "int i" "threadsBitmap sp"] by (simp add: threads_ok_def)
  show ?case using t Suc assms(3) [of i] by (cases "localThreadsInfos sp ! i") auto
qed simp

lemma join_spec:
  assumes inv: "uinv us" and t: "at us t In_user th" and a: "ut_space th = Some a" "spaces (procs us) a = Some sp"
  obtains (live) v h i x where "uthreads us v = Some h" "\<not> isMain h" "upos h \<noteq> Finished" "ut_space h = Some a" "ut_tid h = thread_id x"
      "i < 7" "localThreadsInfos sp ! i = Some x" "userthread_id x = u"
      "do_UserThreadJoin t u us = Some (cond_wait (Thread_cond (thread_id x)) t (set_pos t (Joining u x) us))"
  | (none) "\<And>j x. j < 7 \<Longrightarrow> localThreadsInfos sp ! j = Some x \<Longrightarrow> userthread_id x \<noteq> u" "do_UserThreadJoin t u us = Some (set_pos t In_user us)"
proof -
  note I = uinvD [OF inv]
  have W: "space_wf (members us) a sp" using table_okD(1) [OF I(2) a(2)] .
  note w = space_wfD [OF W]
  show ?thesis
  proof (cases "\<exists>j x. j < 7 \<and> localThreadsInfos sp ! j = Some x \<and> userthread_id x = u")
    case True
    then obtain j x where j: "j < 7" "localThreadsInfos sp ! j = Some x" "userthread_id x = u" by blast
    obtain v m where v: "members us v = Some m" "user_in a m" "m_tid m = thread_id x" using w(3) [OF j(1,2)] by blast
    then obtain h where h: "uthreads us v = Some h" "\<not> isMain h" "upos h \<noteq> Finished" "ut_space h = Some a" "ut_tid h = thread_id x"
      by (auto simp: members_Some user_in_def)
    have mk: "thread_id x \<in> marked (tids us)" using user_thread_slot [OF inv h(1-3)] h(5) by metis
    then have r: "0 \<le> thread_id x" "thread_id x < MaxThreads" using marked_subset [of "tids us"] tids_okD(2) [OF I(3)] by auto
    have "BitMap_Test (tids us) (thread_id x) = Some True" using mk r Test_eq [of "thread_id x" "tids us"] tids_okD(2) [OF I(3)] by simp
    moreover have "GetThreadInfoFromUserthreadId sp u = Some (Some x)"
      using find_userthread_hit [OF w(1) j(2), of 0 7] j by (simp add: GetThreadInfoFromUserthreadId_def)
    ultimately show ?thesis using that(1) [OF h j] t a r by (simp add: do_UserThreadJoin_def join_loop_def)
  next
    case False
    have "GetThreadInfoFromUserthreadId sp u = Some None"
      unfolding GetThreadInfoFromUserthreadId_def by (rule find_userthread_none [OF w(1)]) (use False in auto)
    then show ?thesis using that(2) False t a by (auto simp: do_UserThreadJoin_def join_loop_def)
  qed
qed

lemma us_boot_fields:
  assumes "us_boot heap size0 debug t = Some us"
  shows "marked (tids us) = {0}" "nUsedAddrSpace us = 0"
proof -
  obtain us1 where "us_boot heap size0 debug t = Some us1" "uinv us1" "uthreads us1 = [t \<mapsto> \<lparr>ut_tid = 0, ut_space = None, isMain = True, upos = Forked, ut_args = (0, 0, 0)\<rparr>]"
    using us_boot_ok [of heap size0 debug t] by metis
  note us = this [unfolded assms, simplified]
  obtain b c where b: "BitMap_new (heap 2) MaxThreads = Some b" "BitMap_FindStart b 0 = Some (0, c)" "tids us = c" "nUsedAddrSpace us = 0"
    using assms us by (auto simp: us_boot_def new_tid_def bind_Some_iff dest!: map_upd_eqD1)
  obtain b' where "BitMap_new (heap 2) MaxThreads = Some b'" "bitmap_wf b'" "numBits b' = MaxThreads" "marked b' = {}"
    using new_spec [of MaxThreads "heap 2"] by auto
  then have "marked c = {0}" using FindStart_spec [of b 0] b(1,2) by auto
  then show "marked (tids us) = {0}" "nUsedAddrSpace us = 0" using b by simp_all
qed

subsection \<open>A run\<close>

text \<open>The first program is loaded, creates a thread and joins it.\<close>

lemma InitRegisters_total: "\<exists>m'. InitRegisters sp m = Some m'"
proof -
  have "\<exists>m'. zero_registers i n m = Some m'" if "i + n \<le> NumTotalRegs" for i n m
    using that by (induction n arbitrary: i m) (auto simp: WriteRegister_def)
  from this [of 0 NumTotalRegs m] obtain m' where "zero_registers 0 NumTotalRegs m = Some m'" by auto
  then show ?thesis by (simp add: InitRegisters_def WriteRegister_def)
qed

lemma demo_loaded:
  obtains us0 us1 th sp where "us_boot (\<lambda>_ _. 0) 0 False 7 = Some us0" "ustep us0 us1" "at us1 7 In_user th" "isMain th" "ut_space th = Some 10"
    "spaces (procs us1) 10 = Some sp" "nThreads sp = 0" "nextUserThreadid sp = 1" "localThreadsInfos sp = replicate 7 None" "uthreads us1 8 = None"
    "marked (tids us1) \<noteq> {0..<MaxThreads}" "\<And>u. uthreads us1 u \<noteq> None \<Longrightarrow> u = 7" "nUsedAddrSpace us1 = 0"
proof -
  obtain us0 where us0: "us_boot (\<lambda>_ _. 0) 0 False 7 = Some us0" "uinv us0" "\<not> halted us0"
      "uthreads us0 = [7 \<mapsto> \<lparr>ut_tid = 0, ut_space = None, isMain = True, upos = Forked, ut_args = (0, 0, 0)\<rparr>]"
      "spaces (procs us0) = Map.empty" "marked (pidMap (procs us0)) = {}"
    using us_boot_ok [of "\<lambda>_ _. 0" 0 False 7] by metis
  have tids0: "marked (tids us0) = {0}" "nUsedAddrSpace us0 = 0" using us_boot_fields [OF us0(1)] by simp_all
  note ok = uinvD(1) [OF us0(2)]
  have "taken (fprov (procs us0)) = {}" using procs_okD(8) [OF ok] us0(5) by (simp add: owned_def)
  then have n: "nAvailFrame (fprov (procs us0)) = 2096" using procs_okD(1) [OF ok] by (simp add: fp_ok_def)
  have wf: "dev_wf demo_dev" by (simp add: dev_wf_def)
  have mt: "maps_to demo_dev (hdr demo_file) [5] {}" by (rule direct_maps_to [of _ 1]) simp_all
  have c: "contents demo_dev (hdr demo_file) [5] = demo_program" by (simp add: contents_def raw_contents_def)
  have ld: "loadable (contents demo_dev (hdr demo_file) [5])" unfolding c by (rule demo_program_ok(1))
  have pid: "marked (pidMap (procs us0)) \<noteq> {0..<MaxProcesses}" using us0(6) by simp
  obtain ps where ps: "AddrSpace_load (\<lambda>_ _. 0) (\<lambda>_ _. 0) (\<lambda>_. Some) demo_dev demo_file 10 (procs us0) = Some ps"
    using AddrSpace_load_spec [OF ok pid _ wf mt ld, of 10 "\<lambda>_ _. 0" "\<lambda>_ _. 0" "\<lambda>_. Some"] us0(5) n
    unfolding c demo_program_ok(2) by auto
  obtain sp where sp: "spaces ps = (spaces (procs us0))(10 \<mapsto> sp)" "nThreads sp = 0" "nextUserThreadid sp = 1" "localThreadsInfos sp = replicate 7 None"
    using AddrSpace_load_threads [OF ok ps] by metis
  obtain m where m: "InitRegisters sp (mach ps) = Some m" using InitRegisters_total by blast
  define us1 where "us1 = set_pos 7 In_user (set_space 7 (Some 10) (us0\<lparr>procs := ps\<lparr>mach := RestoreState sp m\<rparr>, semFORK := semFORK us0 + 1\<rparr>))"
  have s: "StartProcess (\<lambda>_ _. 0) (\<lambda>_ _. 0) (\<lambda>_. Some) demo_dev demo_file 10 7 us0 = Some us1"
    using ps sp(1) m by (simp add: StartProcess_def us1_def)
  have "ustep us0 us1"
    by (rule ustep.load [OF _ _ wf mt ld s, of "\<lparr>ut_tid = 0, ut_space = None, isMain = True, upos = Forked, ut_args = (0, 0, 0)\<rparr>"]) (use us0 in simp_all)
  moreover have "marked (tids us1) \<noteq> {0..<MaxThreads}"
  proof
    assume "marked (tids us1) = {0..<MaxThreads}"
    then have "(1 :: int) \<in> marked (tids us1)" by simp
    then show False using tids0(1) by (simp add: us1_def)
  qed
  moreover have "uthreads us1 = [7 \<mapsto> \<lparr>ut_tid = 0, ut_space = Some 10, isMain = True, upos = In_user, ut_args = (0, 0, 0)\<rparr>]"
      "spaces (procs us1) 10 = Some sp" "nUsedAddrSpace us1 = 0" "\<not> halted us1"
    using us0 sp tids0 by (simp_all add: us1_def)
  ultimately show ?thesis
    using sp(2-4) by (intro that [OF us0(1), of us1 "\<lparr>ut_tid = 0, ut_space = Some 10, isMain = True, upos = In_user, ut_args = (0, 0, 0)\<rparr>" sp])
      (simp_all split: if_splits)
qed

lemma demo_created:
  obtains us0 us2 th h sp i x where "us_boot (\<lambda>_ _. 0) 0 False 7 = Some us0" "ustep\<^sup>*\<^sup>* us0 us2" "at us2 7 In_user th" "isMain th" "ut_space th = Some 10"
    "uthreads us2 8 = Some h" "\<not> isMain h" "upos h = Starting" "ut_space h = Some 10" "spaces (procs us2) 10 = Some sp" "nThreads sp = 1"
    "localThreadsInfos sp = (replicate 7 None)[i := Some x]" "i < 7" "userthread_id x = 1"
proof -
  obtain us0 us1 th sp where l: "us_boot (\<lambda>_ _. 0) 0 False 7 = Some us0" "ustep us0 us1" "at us1 7 In_user th" "isMain th" "ut_space th = Some 10"
      "spaces (procs us1) 10 = Some sp" "nThreads sp = 0" "nextUserThreadid sp = 1" "localThreadsInfos sp = replicate 7 None" "uthreads us1 8 = None"
      "marked (tids us1) \<noteq> {0..<MaxThreads}"
    using demo_loaded by metis
  have inv: "uinv us1" using reachable_uinv [OF l(1) r_into_rtranclp [of ustep, OF l(2)]] l(3) by simp
  obtain us' h x i where c: "do_UserThreadCreate 7 8 0 0 0 us1 = Some (0, us')" "i < 7"
      "uthreads us' = (uthreads us1)(8 \<mapsto> h, 7 \<mapsto> th\<lparr>upos := Creating 8\<rparr>)" "h = \<lparr>ut_tid = thread_id x, ut_space = Some 10, isMain = False, upos = Starting, ut_args = (0, 0, 0)\<rparr>"
      "x = \<lparr>addrspace_idx = int i, userthread_id = nextUserThreadid sp, thread_id = thread_id x\<rparr>" "0 < thread_id x" "thread_id x < MaxThreads" "thread_id x \<in> marked (tids us')"
      "threadsInfos (procs us') (thread_id x) = Some x" "halted us' = halted us1"
      "\<exists>sp'. spaces (procs us') 10 = Some sp' \<and> nThreads sp' = nThreads sp + 1 \<and> localThreadsInfos sp' = (localThreadsInfos sp)[i := Some x]"
    by (rule create_spec [OF inv l(3,10,11,5,6), of 0 0 0]) (use l(7) in auto)
  have s1: "ustep us1 us'" by (rule ustep.create [OF l(3,10) _ c(1)]) (use l in \<open>simp add: room_for_id_def\<close>)
  have inv': "uinv us'" using reachable_uinv [OF l(1), of us'] l(2,3) s1 c(10) by (meson converse_rtranclp_into_rtranclp rtranclp.rtrancl_refl)
  have "GetUserThreadId (thread_id x) us' = Some (sint (userthread_id x))"
    using c(6-9) Test_eq [of "thread_id x" "tids us'"] tids_okD(2) [OF uinvD(3) [OF inv']] by (simp add: GetUserThreadId_def GetThreadInfoFromTid_def)
  then have r: "UserThreadCreate_result 7 us' = Some (sint (userthread_id x), set_pos 7 In_user us')"
    using c(3,4) by (simp add: UserThreadCreate_result_def)
  have s2: "ustep us' (set_pos 7 In_user us')"
    by (rule ustep.created [OF _ r, where n = 8 and th = "th\<lparr>upos := Creating 8\<rparr>"]) (use c l(3) in simp)
  have "ustep\<^sup>*\<^sup>* us0 (set_pos 7 In_user us')" using l(2) s1 s2 by (meson converse_rtranclp_into_rtranclp rtranclp.rtrancl_refl)
  moreover have "userthread_id x = 1" using c(5) l(8) by (metis thread_info.select_convs(2))
  ultimately show ?thesis
    using that [of us0 "set_pos 7 In_user us'" "th\<lparr>upos := In_user\<rparr>" h _ i x] l c by (auto simp: l(9))
qed

subsection \<open>What holds in every run\<close>

text \<open>
  C8. A process keeps its address space as long as it has threads. In every run of any number of processes that
  create and join threads, start each other, grow and exit: a user thread that has not ended has its space, with a
  slot (and so a stack) of its own there; \<open>nThreads\<close> of a space is the number of its user threads; and every space
  has a main thread that has not ended.
\<close>

theorem space_outlives_threads:
  assumes "us_boot heap size0 debug t0 = Some us0" "ustep\<^sup>*\<^sup>* us0 us" "\<not> halted us"
  shows "(\<forall>t th. uthreads us t = Some th \<longrightarrow> \<not> isMain th \<longrightarrow> upos th \<noteq> Finished \<longrightarrow>
      (\<exists>a sp i x. ut_space th = Some a \<and> spaces (procs us) a = Some sp \<and> i < 7 \<and> localThreadsInfos sp ! i = Some x \<and> thread_id x = ut_tid th))
    \<and> (\<forall>a sp. spaces (procs us) a = Some sp \<longrightarrow> nThreads sp = int (card (user_threads us a))
      \<and> (\<exists>t th. uthreads us t = Some th \<and> isMain th \<and> ut_space th = Some a \<and> upos th \<noteq> Finished))"
proof -
  have inv: "uinv us" using reachable_uinv [OF assms] .
  have "\<exists>t th. uthreads us t = Some th \<and> isMain th \<and> ut_space th = Some a \<and> upos th \<noteq> Finished" if "spaces (procs us) a = Some sp" for a sp
    using space_wfD(5) [OF table_okD(1) [OF uinvD(2) [OF inv] that]] by (fastforce simp: members_Some main_in_def)
  moreover have "\<exists>a sp i x. ut_space th = Some a \<and> spaces (procs us) a = Some sp \<and> i < 7 \<and> localThreadsInfos sp ! i = Some x \<and> thread_id x = ut_tid th"
    if "uthreads us t = Some th" "\<not> isMain th" "upos th \<noteq> Finished" for t th
    using user_thread_slot [OF inv that] by metis
  ultimately show ?thesis using nThreads_counts [OF inv] by blast
qed

theorem space_outlives_threads_witness:
  "\<exists>us0 us h sp. us_boot (\<lambda>_ _. 0) 0 False 7 = Some us0 \<and> ustep\<^sup>*\<^sup>* us0 us \<and> uthreads us 8 = Some h \<and> \<not> isMain h
    \<and> spaces (procs us) 10 = Some sp \<and> nThreads sp = 1 \<and> card (user_threads us 10) = 1"
proof -
  obtain us0 us th h sp where r: "us_boot (\<lambda>_ _. 0) 0 False 7 = Some us0" "ustep\<^sup>*\<^sup>* us0 us" "at us 7 In_user th"
      "uthreads us 8 = Some h" "\<not> isMain h" "spaces (procs us) 10 = Some sp" "nThreads sp = 1"
    using demo_created by metis
  have "nThreads sp = int (card (user_threads us 10))" using space_outlives_threads [OF r(1,2)] r(3,6) by blast
  then show ?thesis using r by (intro exI [of _ us0] exI [of _ us] exI [of _ h] exI [of _ sp]) simp
qed


text \<open>The main thread of the run above joins its thread.\<close>

lemma demo_joined:
  obtains us0 us th x where "us_boot (\<lambda>_ _. 0) 0 False 7 = Some us0" "ustep\<^sup>*\<^sup>* us0 us" "\<not> halted us" "uthreads us 7 = Some th" "upos th = Joining 1 x" "waiting us 7"
proof -
  obtain us0 us2 th h sp i x where r: "us_boot (\<lambda>_ _. 0) 0 False 7 = Some us0" "ustep\<^sup>*\<^sup>* us0 us2" "at us2 7 In_user th" "ut_space th = Some 10"
      "spaces (procs us2) 10 = Some sp" "localThreadsInfos sp = (replicate 7 None)[i := Some x]" "i < 7" "userthread_id x = 1"
    using demo_created by metis
  have inv: "uinv us2" using reachable_uinv [OF r(1,2)] r(3) by simp
  obtain y where j: "do_UserThreadJoin 7 1 us2 = Some (cond_wait (Thread_cond (thread_id y)) 7 (set_pos 7 (Joining 1 y) us2))"
    by (rule join_spec [OF inv r(3-5), of 1]) (use r(6-8) in auto)
  let ?us = "cond_wait (Thread_cond (thread_id y)) 7 (set_pos 7 (Joining 1 y) us2)"
  have "ustep us2 ?us" by (rule ustep.join [OF r(3) j])
  then have "ustep\<^sup>*\<^sup>* us0 ?us" using r(2) by simp
  then show ?thesis
    using r(1,3) by (intro that [of us0 ?us "th\<lparr>upos := Joining 1 y\<rparr>" y]) (simp_all add: waiting_def)
qed


text \<open>
  C22. The machine halts with the last process. When a main thread reaches \<open>endProcess\<close>, in any run, the call halts the
  machine if and only if every other thread, of every process, has ended.
\<close>

theorem halts_with_last_process:
  assumes "us_boot heap size0 debug t0 = Some us0" "ustep\<^sup>*\<^sup>* us0 us" "at us t Ending th" "endProcess t us = Some us'"
  shows "halted us' \<longleftrightarrow> (\<forall>v h. v \<noteq> t \<longrightarrow> uthreads us v = Some h \<longrightarrow> upos h = Finished)"
proof -
  have inv: "uinv us" using reachable_uinv [OF assms(1,2)] assms(3) by simp
  note I = uinvD [OF inv]
  have V: "members us t = Some (member_of th)" "m_stage (member_of th) = Last" using assms(3) by (simp_all add: members_thread)
  have mm: "isMain th" using must_be_main [OF I(2), of t th] assms(3) by simp
  have tm: "t \<in> mains (members us)" using V mm assms(3) by (simp add: mains_def)
  have fin: "finite (mains (members us))" "nUsedAddrSpace us + 1 = int (card (mains (members us)))"
    using I(4) finite_mains by (auto simp: count_ok_def)
  have "halted us' \<longleftrightarrow> nUsedAddrSpace us = 0"
    using assms(3,4) by (cases "nUsedAddrSpace us = 0") (auto simp: endProcess_def bind_Some_iff Let_def split: if_splits)
  also have "\<dots> \<longleftrightarrow> mains (members us) = {t}"
    using fin tm by (metis (no_types, lifting) add.commute add_left_cancel card_1_singletonE group_cancel.rule0 is_singleton_altdef is_singleton_def of_nat_1 of_nat_eq_1_iff singletonD)
  also have "\<dots> \<longleftrightarrow> (\<forall>v h. v \<noteq> t \<longrightarrow> uthreads us v = Some h \<longrightarrow> upos h = Finished)"
  proof (intro iffI allI impI)
    fix v h assume m: "mains (members us) = {t}" and v: "v \<noteq> t" "uthreads us v = Some h"
    show "upos h = Finished"
    proof (rule ccontr)
      assume nf: "upos h \<noteq> Finished"
      have nm: "\<not> isMain h" using m v nf by (auto simp: mains_def members_Some)
      obtain a sp i x where a: "ut_space h = Some a" "spaces (procs us) a = Some sp" "i < 7" "localThreadsInfos sp ! i = Some x"
        using user_thread_slot [OF inv v(2) nm nf] by metis
      have W: "space_wf (members us) a sp" using table_okD(1) [OF I(2) a(2)] .
      obtain u n where u: "members us u = Some n" "main_in a n" using space_wfD(5) [OF W] by blast
      then have "u \<in> mains (members us)" by (auto simp: mains_def main_in_def)
      then have "n = member_of th" using m u(1) V(1) by auto
      then have "nThreads sp = 0" using table_okD(2) [OF I(2) V(1)] V(2) u(2) a(2) mm assms(3) by (auto simp: main_ok_def)
      then show False using space_wfD(6) [OF W a(3,4)] by simp
    qed
  next
    assume "\<forall>v h. v \<noteq> t \<longrightarrow> uthreads us v = Some h \<longrightarrow> upos h = Finished"
    then show "mains (members us) = {t}" using tm by (auto simp: mains_def members_Some)
  qed
  finally show ?thesis .
qed

text \<open>The only process of the system exits.\<close>

lemma demo_ending:
  obtains us0 us th us' where "us_boot (\<lambda>_ _. 0) 0 False 7 = Some us0" "ustep\<^sup>*\<^sup>* us0 us" "at us 7 Ending th" "endProcess 7 us = Some us'"
    "\<And>u. uthreads us u \<noteq> None \<Longrightarrow> u = 7"
proof -
  obtain us0 us1 th sp where l: "us_boot (\<lambda>_ _. 0) 0 False 7 = Some us0" "ustep us0 us1" "at us1 7 In_user th" "isMain th" "ut_space th = Some 10"
      "spaces (procs us1) 10 = Some sp" "nThreads sp = 0" "\<And>u. uthreads us1 u \<noteq> None \<Longrightarrow> u = 7" "nUsedAddrSpace us1 = 0"
    using demo_loaded by metis
  have inv: "uinv us1" using reachable_uinv [OF l(1) r_into_rtranclp [of ustep, OF l(2)]] l(3) by simp
  note ok = uinvD(1) [OF inv]
  have "0 \<le> pid sp" "pid sp < numBits (pidMap (procs us1))" using procs_okD(4,6) [OF ok] l(6) by (auto simp: space_ok_def)
  then obtain b where b: "BitMap_Clear (pidMap (procs us1)) (pid sp) = Some b" using bm.clear_used [OF procs_okD(3) [OF ok], of "pid sp"] by blast
  define us2 where "us2 = set_pos 7 Ending (cond_broadcast (ProcessJoin_cond 10) (us1\<lparr>procs := (procs us1)\<lparr>pidMap := b\<rparr>\<rparr>))"
  have "synchThreadsMainExit 7 us1 = Some us2"
    using l(3,5,6,7) b by (simp add: synchThreadsMainExit_def clear_pid_def main_loop_def us2_def)
  then have s: "ustep us1 us2" using ustep.main_exit [OF l(3,4)] by blast
  have r2: "ustep\<^sup>*\<^sup>* us0 us2" using l(2) s by (meson converse_rtranclp_into_rtranclp rtranclp.rtrancl_refl)
  have t2: "at us2 7 Ending (th\<lparr>upos := Ending\<rparr>)" "ut_space (th\<lparr>upos := Ending\<rparr>) = Some 10" "spaces (procs us2) 10 = Some sp" "nUsedAddrSpace us2 = 0"
    using l by (simp_all add: us2_def)
  have inv2: "uinv us2" using reachable_uinv [OF l(1) r2] t2(1) by simp
  obtain ps where ps: "delete_space 10 (procs us2) = Some ps" using delete_space_spec [OF uinvD(1) [OF inv2] t2(3)] by blast
  have "ut_tid th \<in> marked (tids us2)"
    using tids_okD(5) [OF uinvD(3) [OF inv2] members_thread [of us2 7 "th\<lparr>upos := Ending\<rparr>"]] t2(1) by simp
  then have rng: "0 \<le> ut_tid th" "ut_tid th < numBits (tids us2)" "numBits (tids us2) = MaxThreads"
    using marked_subset [of "tids us2"] tids_okD(2) [OF uinvD(3) [OF inv2]] by auto
  then have "GetThreadInfoFromTid (tids us2) (procs us2) (ut_tid th) \<noteq> None"
    using Test_eq [OF rng(1,2)] by (simp add: GetThreadInfoFromTid_def)
  then obtain i where i: "GetThreadInfoFromTid (tids us2) (procs us2) (ut_tid th) = Some i" by blast
  have "endProcess 7 us2 = Some (us2\<lparr>procs := ps, halted := True\<rparr>)"
    using t2 ps i by (simp add: endProcess_def)
  moreover have "u = 7" if "uthreads us2 u \<noteq> None" for u
  proof (rule l(8))
    show "uthreads us1 u \<noteq> None" using that by (cases "u = 7") (simp_all add: us2_def)
  qed
  ultimately show ?thesis using that [OF l(1) r2 t2(1)] by blast
qed

theorem halts_with_last_process_witness:
  "\<exists>us0 us th us'. us_boot (\<lambda>_ _. 0) 0 False 7 = Some us0 \<and> ustep\<^sup>*\<^sup>* us0 us \<and> at us 7 Ending th \<and> endProcess 7 us = Some us' \<and> halted us'"
proof -
  obtain us0 us th us' where r: "us_boot (\<lambda>_ _. 0) 0 False 7 = Some us0" "ustep\<^sup>*\<^sup>* us0 us" "at us 7 Ending th" "endProcess 7 us = Some us'"
    "\<And>u. uthreads us u \<noteq> None \<Longrightarrow> u = 7"
    using demo_ending by metis
  have "halted us'" using halts_with_last_process [OF r(1-4)] r(5) by blast
  then show ?thesis using r(1-4) by blast
qed



end
