(* ===== verification/SynchConsole.thy ===== *)
theory SynchConsole
  imports Devices Directory
begin

text \<open>
  The synchronous console: src/code/userprog/synchconsole.cc and synchconsole.h, run by any number of threads over
  the console device of \<open>Devices\<close>. Output of one operation is never mixed with that of another, input is handed
  out in the order in which it was typed, and the device is always found idle.
\<close>

section \<open>Model\<close>

text \<open>
  The three semaphores of synchconsole.cc, and for each thread the statement it executes next. \<open>Before c\<close> is
  \<open>semThreads->P()\<close> of the operation \<open>c\<close>. Inside, \<open>To_put\<close> and \<open>To_get\<close> are the loops, or the single call of \<open>doSynchPutChar\<close>
  or \<open>doSynchGetChar\<close>; \<open>Put_issued\<close> is \<open>writeDone->P()\<close>, \<open>To_fetch\<close> is \<open>console->GetChar()\<close> and \<open>To_leave\<close> is \<open>semThreads->V()\<close>. A
  stage has the characters that the operation has written, or read, so far, and one that writes those to come.
  The operations that have returned are in \<open>history\<close>, each with the characters it has written or read.
\<close>

datatype console_call = SynchPutChar byte | SynchGetChar | SynchPutString "byte list" | SynchGetString int

datatype stage = To_put "byte list" "byte list" | Put_issued "byte list" "byte list" | To_get "byte list"
  | To_fetch "byte list" | To_leave "byte list"

datatype sc_pos = Away | Before console_call | Inside console_call stage

record SynchConsole =
  readAvail :: nat
  writeDone :: nat
  semThreads :: nat
  pos :: "nat \<Rightarrow> sc_pos"
  history :: "(console_call \<times> byte list) list"

type_synonym KC = "SynchConsole K"

abbreviation newline :: byte where "newline \<equiv> 10"

abbreviation sc :: "KC \<Rightarrow> SynchConsole" where "sc k \<equiv> others (world k)"

definition set_sc :: "SynchConsole \<Rightarrow> KC \<Rightarrow> KC" where
  "set_sc r k = k\<lparr>world := (world k)\<lparr>others := r\<rparr>\<rparr>"

definition goto :: "nat \<Rightarrow> sc_pos \<Rightarrow> SynchConsole \<Rightarrow> SynchConsole" where
  "goto t q r = r\<lparr>pos := (pos r)(t := q)\<rparr>"

text \<open>The two routines that the constructor hands to the device.\<close>

fun sc_notify :: "callback \<Rightarrow> SynchConsole \<Rightarrow> SynchConsole" where
  "sc_notify ReadAvail r = r\<lparr>readAvail := readAvail r + 1\<rparr>"
| "sc_notify WriteDone r = r\<lparr>writeDone := writeDone r + 1\<rparr>"
| "sc_notify _ r = r"

definition SynchConsole_new :: "KC \<Rightarrow> KC option" where
  "SynchConsole_new k =
     Console_new (set_sc \<lparr>readAvail = 0, writeDone = 0, semThreads = 1, pos = (\<lambda>t. Away), history = []\<rparr> k)"

text \<open>The loops: what comes first, and what comes after the character \<open>c\<close> has been read.\<close>

fun begin_call :: "console_call \<Rightarrow> stage" where
  "begin_call (SynchPutChar ch) = To_put [] [ch]"
| "begin_call (SynchPutString s) = To_put [] (c_str s)"
| "begin_call SynchGetChar = To_get []"
| "begin_call (SynchGetString n) = (if 0 < n then To_get [] else To_leave [])"

fun after_char :: "console_call \<Rightarrow> byte list \<Rightarrow> byte \<Rightarrow> stage" where
  "after_char (SynchGetString n) got c =
     (if c = EOF then To_leave got
      else if c = newline \<or> \<not> int (length (got @ [c])) < n then To_leave (got @ [c])
      else To_get (got @ [c]))"
| "after_char _ got c = To_leave (got @ [c])"

text \<open>
  The next statement of the thread \<open>t\<close>. \<open>None\<close>: the thread waits in \<open>P\<close>, or the assertion of \<open>PutChar\<close> fails, which
  \<open>console_ready\<close> tells apart.
\<close>

fun sc_inside :: "nat \<Rightarrow> console_call \<Rightarrow> stage \<Rightarrow> KC \<Rightarrow> KC option" where
  "sc_inside t c (To_put put []) k = Some (set_sc (goto t (Inside c (To_leave put)) (sc k)) k)"
| "sc_inside t c (To_put put (ch # rest)) k = do {
     k \<leftarrow> PutChar ch k;
     Some (set_sc (goto t (Inside c (Put_issued (put @ [ch]) rest)) (sc k)) k)
   }"
| "sc_inside t c (Put_issued put rest) k =
     (if writeDone (sc k) = 0 then None
      else Some (set_sc (goto t (Inside c (To_put put rest)) ((sc k)\<lparr>writeDone := writeDone (sc k) - 1\<rparr>)) k))"
| "sc_inside t c (To_get got) k =
     (if readAvail (sc k) = 0 then None
      else Some (set_sc (goto t (Inside c (To_fetch got)) ((sc k)\<lparr>readAvail := readAvail (sc k) - 1\<rparr>)) k))"
| "sc_inside t c (To_fetch got) k =
     (let (ch, k) = GetChar k in Some (set_sc (goto t (Inside c (after_char c got ch)) (sc k)) k))"
| "sc_inside t c (To_leave done_chars) k =
     Some (set_sc (goto t Away ((sc k)\<lparr>semThreads := semThreads (sc k) + 1, history := history (sc k) @ [(c, done_chars)]\<rparr>)) k)"

definition sc_statement :: "nat \<Rightarrow> KC \<Rightarrow> KC option" where
  "sc_statement t k = (case pos (sc k) t of
       Away \<Rightarrow> None
     | Before c \<Rightarrow> if semThreads (sc k) = 0 then None
         else Some (set_sc (goto t (Inside c (begin_call c)) ((sc k)\<lparr>semThreads := semThreads (sc k) - 1\<rparr>)) k)
     | Inside c st \<Rightarrow> sc_inside t c st k)"

text \<open>
  A pending interrupt may occur at any moment, whatever its time; other code of the kernel leaves the devices and
  the pending interrupts of the console alone.
\<close>

inductive sc_step :: "KC \<Rightarrow> KC \<Rightarrow> bool" where
  call: "pos (sc k) t = Away \<Longrightarrow> sc_step k (set_sc (goto t (Before c) (sc k)) k)"
| statement: "sc_statement t k = Some k' \<Longrightarrow> sc_step k k'"
| interrupt: "pending_ints k = before @ (i, w) # after \<Longrightarrow>
    fire (device_call sc_notify) i (k\<lparr>pending_ints := before @ after\<rparr>) = Some k' \<Longrightarrow> sc_step k k'"
| elsewhere: "world k' = world k \<Longrightarrow> pending_ints k' = pending_ints k \<Longrightarrow> sc_step k k'"

inductive sc_runs :: "KC \<Rightarrow> KC \<Rightarrow> bool" for k0 where
  start: "sc_runs k0 k0"
| step: "sc_runs k0 k \<Longrightarrow> sc_step k k' \<Longrightarrow> sc_runs k0 k'"


section \<open>What holds in every state\<close>

fun output_of :: "console_call \<Rightarrow> byte list option" where
  "output_of (SynchPutChar ch) = Some [ch]"
| "output_of (SynchPutString s) = Some (c_str s)"
| "output_of _ = None"

text \<open>Characters that an operation may return, and that it may have read when it goes on reading.\<close>

fun answer_ok :: "console_call \<Rightarrow> byte list \<Rightarrow> bool" where
  "answer_ok SynchGetChar cs \<longleftrightarrow> length cs = 1"
| "answer_ok (SynchGetString n) cs \<longleftrightarrow> int (length cs) \<le> max 0 n \<and> EOF \<notin> set cs \<and> newline \<notin> set (butlast cs)"
| "answer_ok c cs \<longleftrightarrow> output_of c = Some cs"

fun partial_ok :: "console_call \<Rightarrow> byte list \<Rightarrow> bool" where
  "partial_ok SynchGetChar cs \<longleftrightarrow> cs = []"
| "partial_ok (SynchGetString n) cs \<longleftrightarrow> int (length cs) < n \<and> EOF \<notin> set cs \<and> newline \<notin> set cs"
| "partial_ok _ cs \<longleftrightarrow> False"

fun stage_ok :: "console_call \<Rightarrow> stage \<Rightarrow> bool" where
  "stage_ok c (To_put put rest) \<longleftrightarrow> output_of c = Some (put @ rest)"
| "stage_ok c (Put_issued put rest) \<longleftrightarrow> output_of c = Some (put @ rest)"
| "stage_ok c (To_get got) \<longleftrightarrow> partial_ok c got"
| "stage_ok c (To_fetch got) \<longleftrightarrow> partial_ok c got"
| "stage_ok c (To_leave cs) \<longleftrightarrow> answer_ok c cs"

fun so_far :: "stage \<Rightarrow> byte list" where
  "so_far (To_put put rest) = put"
| "so_far (Put_issued put rest) = put"
| "so_far (To_get got) = got"
| "so_far (To_fetch got) = got"
| "so_far (To_leave cs) = cs"

definition put_by :: "console_call \<times> byte list \<Rightarrow> byte list" where
  "put_by e = (if output_of (fst e) = None then [] else snd e)"

definition got_by :: "console_call \<times> byte list \<Rightarrow> byte list" where
  "got_by e = (if output_of (fst e) = None then filter (\<lambda>c. c \<noteq> EOF) (snd e) else [])"

text \<open>The characters typed, without the one that cannot be told from the end of the file.\<close>

fun key_chars :: "key_event \<Rightarrow> byte list" where
  "key_chars (Key c) = (if c = EOF then [] else [c])"
| "key_chars _ = []"

abbreviation screen :: "KC \<Rightarrow> byte list" where "screen k \<equiv> display (host (world k))"
abbreviation typed :: "KC \<Rightarrow> key_event list" where "typed k \<equiv> keys (host (world k))"

abbreviation is_write :: "VoidFunctionPtr PendingInterrupt \<times> int \<Rightarrow> bool" where
  "is_write e \<equiv> handler_fn (fst e) = ConsoleWriteDone"

abbreviation pending_writes :: "KC \<Rightarrow> nat" where
  "pending_writes k \<equiv> length (filter is_write (pending_ints k))"

text \<open>
  \<open>h\<close> is the thread inside an operation, with that operation and its stage. The device is busy, or its interrupt
  has been counted in \<open>writeDone\<close>, only while that thread waits for it; a character waits in the device only
  when \<open>readAvail\<close> has been signalled for it.
\<close>

type_synonym holder = "(nat \<times> console_call \<times> stage) option"

definition agrees :: "(nat \<Rightarrow> sc_pos) \<Rightarrow> holder \<Rightarrow> bool" where
  "agrees p h \<longleftrightarrow> (\<forall>t c st. p t = Inside c st \<longleftrightarrow> h = Some (t, c, st))"

fun waits_write :: "holder \<Rightarrow> bool" where
  "waits_write (Some (t, c, Put_issued put rest)) \<longleftrightarrow> True"
| "waits_write _ \<longleftrightarrow> False"

fun fetching :: "holder \<Rightarrow> bool" where
  "fetching (Some (t, c, To_fetch got)) \<longleftrightarrow> True"
| "fetching _ \<longleftrightarrow> False"

fun current :: "holder \<Rightarrow> (console_call \<times> byte list) list" where
  "current None = []"
| "current (Some (t, c, st)) = [(c, so_far st)]"

definition held_ok :: "holder \<Rightarrow> SynchConsole \<Rightarrow> bool" where
  "held_ok h r \<longleftrightarrow> agrees (pos r) h \<and> semThreads r = (if h = None then 1 else 0)
     \<and> (\<forall>t c st. h = Some (t, c, st) \<longrightarrow> stage_ok c st) \<and> (\<forall>(c, cs) \<in> set (history r). answer_ok c cs)"

definition write_ok :: "holder \<Rightarrow> bool \<Rightarrow> nat \<Rightarrow> nat \<Rightarrow> bool" where
  "write_ok h busy pend wd \<longleftrightarrow> (if waits_write h then pend = (if busy then 1 else 0) \<and> wd = (if busy then 0 else 1)
     else \<not> busy \<and> pend = 0 \<and> wd = 0)"

definition shown_ok :: "byte list \<Rightarrow> holder \<Rightarrow> SynchConsole \<Rightarrow> byte list \<Rightarrow> bool" where
  "shown_ok D h r d \<longleftrightarrow> d = D @ concat (map put_by (history r @ current h))"

definition input_ok :: "key_event list \<Rightarrow> holder \<Rightarrow> SynchConsole \<Rightarrow> byte \<Rightarrow> key_event list \<Rightarrow> bool" where
  "input_ok ks0 h r inc ks \<longleftrightarrow> (inc \<noteq> EOF \<longrightarrow> 0 < readAvail r \<or> fetching h)
     \<and> (\<exists>used. ks0 = used @ ks \<and>
          concat (map key_chars used) = concat (map got_by (history r @ current h)) @ (if inc = EOF then [] else [inc]))"

definition sc_inv :: "byte list \<Rightarrow> key_event list \<Rightarrow> KC \<Rightarrow> holder \<Rightarrow> bool" where
  "sc_inv D ks0 k h \<longleftrightarrow> held_ok h (sc k) \<and> write_ok h (putBusy (console (world k))) (pending_writes k) (writeDone (sc k))
     \<and> shown_ok D h (sc k) (screen k) \<and> input_ok ks0 h (sc k) (incoming (console (world k))) (typed k)"


lemma sc_invI:
  assumes "held_ok h (sc k)" "write_ok h (putBusy (console (world k))) (pending_writes k) (writeDone (sc k))"
    "shown_ok D h (sc k) (screen k)" "input_ok ks0 h (sc k) (incoming (console (world k))) (typed k)"
  shows "sc_inv D ks0 k h"
  using assms by (simp add: sc_inv_def)

lemma sc_invD:
  assumes "sc_inv D ks0 k h"
  shows "held_ok h (sc k)" "write_ok h (putBusy (console (world k))) (pending_writes k) (writeDone (sc k))"
    "shown_ok D h (sc k) (screen k)" "input_ok ks0 h (sc k) (incoming (console (world k))) (typed k)"
  using assms by (simp_all add: sc_inv_def)

lemma sc_inv_same:
  assumes "sc_inv D ks0 k h" "world k' = world k" "pending_ints k' = pending_ints k"
  shows "sc_inv D ks0 k' h"
  using assms by (simp add: sc_inv_def)

lemma agrees_in: "agrees p None \<or> agrees p (Some (t, d, sd)) \<Longrightarrow> agrees (p(t := Inside c st)) (Some (t, c, st))"
  by (auto simp: agrees_def)

lemma agrees_away: "agrees p (Some (t, c, st)) \<Longrightarrow> agrees (p(t := Away)) None"
  by (auto simp: agrees_def)

lemma agrees_before: "agrees p h \<Longrightarrow> p t = Away \<Longrightarrow> agrees (p(t := Before c)) h"
  unfolding agrees_def by (metis fun_upd_apply sc_pos.distinct(3) sc_pos.distinct(5))

lemma set_sc_simps [simp]:
  "world (set_sc r k) = (world k)\<lparr>others := r\<rparr>" "pending_ints (set_sc r k) = pending_ints k"
  by (simp_all add: set_sc_def)

lemma goto_simps [simp]:
  "pos (goto t q r) = (pos r)(t := q)" "readAvail (goto t q r) = readAvail r" "writeDone (goto t q r) = writeDone r"
  "semThreads (goto t q r) = semThreads r" "history (goto t q r) = history r"
  by (simp_all add: goto_def)

lemma count_insert_entry: "length (filter P (insert_entry x w es)) = length (filter P es) + (if P (x, w) then 1 else 0)"
  by (induction es) auto

lemma Schedule_writes:
  "Schedule f a n ty k = Some k' \<Longrightarrow> world k' = world k \<and> pending_writes k' = pending_writes k + (if f = ConsoleWriteDone then 1 else 0)"
  by (auto simp: Schedule_def ASSERT_def Let_def count_insert_entry split: if_splits)


subsection \<open>Interrupts\<close>

text \<open>What the console and its clients can see of a state.\<close>

definition visible :: "KC \<Rightarrow> Console \<times> byte list \<times> key_event list \<times> SynchConsole \<times> nat" where
  "visible k = (console (world k), screen k, typed k, sc k, pending_writes k)"

lemma sc_inv_visible: "visible k' = visible k \<Longrightarrow> sc_inv D ks0 k' h = sc_inv D ks0 k h"
  by (simp add: visible_def sc_inv_def)

lemma Random_visible: "Random k = (r, k') \<Longrightarrow> visible k' = visible k"
  by (auto simp: Random_def visible_def split: list.splits)

lemma Timer_visible:
  assumes "Timer_interrupt k = Some k'"
  shows "visible k' = visible k"
proof -
  obtain r k1 where r: "(if randomize (timer (world k)) then Random k else (0, k)) = (r, k1)"
    by (meson surj_pair)
  have v1: "visible k1 = visible k"
    using r Random_visible [of k r k1] by (auto split: if_splits)
  obtain k2 where k2: "Schedule TimerHandler 0 (TimeOfNextInterrupt (timer (world k)) r) TimerInt k1 = Some k2"
      "kernel_timer (timer_handler (timer (world k))) (timer_arg (timer (world k))) k2 = Some k'"
    using assms r by (auto simp: Timer_interrupt_def TimerExpired_def Let_def split: Option.bind_splits)
  have "visible k2 = visible k1"
    using Schedule_writes [OF k2(1)] by (simp add: visible_def)
  moreover have "world k' = world k2 \<and> pending_ints k' = pending_ints k2"
    using k2(2) by (cases "timer_handler (timer (world k))")
      (auto simp: TimerInterruptHandler_def YieldOnReturn_def ASSERT_def split: if_splits)
  ultimately show ?thesis
    using v1 by (simp add: visible_def)
qed

lemma CheckPktAvail_visible:
  assumes "CheckPktAvail sc_notify k = Some k'"
  shows "visible k' = visible k"
proof -
  obtain k1 where k1: "Schedule NetworkReadPoll 0 NetworkTime NetworkRecvInt k = Some k1"
    using assms by (auto simp: CheckPktAvail_def split: Option.bind_splits)
  have "visible k' = visible k1"
    using assms k1 by (auto simp: CheckPktAvail_def visible_def dev_defs Let_def ASSERT_def
        split: if_splits list.splits option.splits)
  then show ?thesis
    using Schedule_writes [OF k1] by (simp add: visible_def)
qed

lemma device_visible:
  assumes "device_call sc_notify f a k = Some k'" "f \<noteq> ConsoleReadPoll" "f \<noteq> ConsoleWriteDone"
  shows "visible k' = visible k"
proof (cases f)
  case TimerHandler
  then show ?thesis using assms(1) Timer_visible by simp
next
  case NetworkReadPoll
  then show ?thesis using assms(1) CheckPktAvail_visible by simp
qed (use assms in \<open>auto simp: Disk_HandleInterrupt_def SendDone_def TimerInterruptHandler_def YieldOnReturn_def ASSERT_def
      visible_def dev_defs Let_def split: if_splits\<close>)

lemma fireE:
  assumes "fire call i k = Some k'"
  obtains k1 k2 where "world k1 = world k" "pending_ints k1 = pending_ints k"
    "call (handler_fn i) (handler_arg i) k1 = Some k2" "world k' = world k2" "pending_ints k' = pending_ints k2"
proof -
  obtain k0 where k0: "world k0 = world k" "pending_ints k0 = pending_ints k"
      "do { k \<leftarrow> call (handler_fn i) (handler_arg i) (k0\<lparr>inHandler := True, mode := SystemMode\<rparr>);
         Some (k\<lparr>mode := mode k0, inHandler := False\<rparr>) } = Some k'"
  proof (cases "machine k = None \<or> mode k \<noteq> UserMode")
    case True
    then show ?thesis
      using that [of k] assms by (auto simp: fire_def split: option.splits)
  next
    case False
    then obtain m where m: "machine k = Some m" "mode k = UserMode" by auto
    then obtain m' where "DelayedLoad m 0 0 = Some m'"
      using assms by (cases "DelayedLoad m 0 0") (auto simp: fire_def)
    with m show ?thesis
      using that [of "k\<lparr>machine := Some m'\<rparr>"] assms by (simp add: fire_def)
  qed
  then obtain k2 where "call (handler_fn i) (handler_arg i) (k0\<lparr>inHandler := True, mode := SystemMode\<rparr>) = Some k2"
      "k' = k2\<lparr>mode := mode k0, inHandler := False\<rparr>"
    by (auto split: Option.bind_splits)
  with k0(1,2) show ?thesis
    by (intro that [of "k0\<lparr>inHandler := True, mode := SystemMode\<rparr>" k2]) simp_all
qed

lemma write_interrupt:
  assumes "sc_inv D ks0 k h" "Console_WriteDone sc_notify k1 = Some k2" "world k1 = world k" "pending_writes k = Suc (pending_writes k1)"
  shows "sc_inv D ks0 k2 h"
proof (rule sc_invI)
  note I = sc_invD [OF assms(1)]
  have k2: "world k2 = (world k)\<lparr>console := (console (world k))\<lparr>putBusy := False\<rparr>, others := (sc k)\<lparr>writeDone := writeDone (sc k) + 1\<rparr>\<rparr>"
      "pending_ints k2 = pending_ints k1"
    using assms(2,3) by (auto simp: Console_WriteDone_def dev_defs Let_def)
  show "held_ok h (sc k2)" using I(1) k2 by (simp add: held_ok_def)
  show "write_ok h (putBusy (console (world k2))) (pending_writes k2) (writeDone (sc k2))"
    using I(2) k2 assms(4) by (auto simp: write_ok_def split: if_splits)
  show "shown_ok D h (sc k2) (screen k2)" using I(3) k2 by (simp add: shown_ok_def)
  show "input_ok ks0 h (sc k2) (incoming (console (world k2))) (typed k2)" using I(4) k2 by (simp add: input_ok_def)
qed

lemma read_interrupt:
  assumes "sc_inv D ks0 k h" "CheckCharAvail sc_notify k1 = Some k2" "world k1 = world k" "pending_writes k = pending_writes k1"
  shows "sc_inv D ks0 k2 h"
proof -
  note I = sc_invD [OF assms(1)]
  obtain k3 where k3: "Schedule ConsoleReadPoll 0 ConsoleTime ConsoleReadInt k1 = Some k3"
    using assms(2) by (auto simp: CheckCharAvail_def split: Option.bind_splits)
  have v3: "world k3 = world k" "pending_writes k3 = pending_writes k"
    using Schedule_writes [OF k3] assms(3,4) by simp_all
  let ?c = "console (world k)"
  consider "visible k2 = visible k"
    | ks where "incoming ?c = EOF" "typed k = NoKey # ks"
        "visible k2 = (?c, screen k, ks, sc k, pending_writes k)"
    | ev ks where "incoming ?c = EOF" "typed k = ev # ks" "ev \<noteq> NoKey"
        "visible k2 = (?c\<lparr>incoming := (case ev of Key ch \<Rightarrow> ch | _ \<Rightarrow> EOF)\<rparr>, screen k, ks,
           (sc k)\<lparr>readAvail := readAvail (sc k) + 1\<rparr>, pending_writes k)"
  proof (cases "incoming ?c \<noteq> EOF \<or> typed k = []")
    case True
    then have "visible k2 = visible k"
      using assms(2) k3 v3 by (auto simp: CheckCharAvail_def visible_def Let_def split: if_splits)
    then show ?thesis by (rule that(1))
  next
    case False
    then obtain ev ks where e: "incoming ?c = EOF" "typed k = ev # ks"
      by (cases "typed k") auto
    show ?thesis
    proof (cases "ev = NoKey")
      case True
      then show ?thesis
        using that(2) [OF e(1)] e assms(2) k3 v3 by (auto simp: CheckCharAvail_def visible_def dev_defs)
    next
      case False
      then show ?thesis
        using that(3) [OF e] e assms(2) k3 v3 by (cases ev) (auto simp: CheckCharAvail_def visible_def dev_defs)
    qed
  qed
  then show ?thesis
  proof cases
    case 1
    show ?thesis using assms(1) unfolding sc_inv_visible [OF 1] .
  next
    case (2 ks)
    obtain used where "ks0 = used @ typed k"
        "concat (map key_chars used) = concat (map got_by (history (sc k) @ current h))"
      using I(4) 2(1) by (auto simp: input_ok_def)
    then have "input_ok ks0 h (sc k) (incoming ?c) ks"
      unfolding input_ok_def using 2(1,2) by (auto intro!: exI [of _ "used @ [NoKey]"])
    then show ?thesis
      using I 2(3) by (simp add: visible_def sc_inv_def)
  next
    case (3 ev ks)
    obtain used where u: "ks0 = used @ typed k"
        "concat (map key_chars used) = concat (map got_by (history (sc k) @ current h))"
      using I(4) 3(1) by (auto simp: input_ok_def)
    have "input_ok ks0 h ((sc k)\<lparr>readAvail := readAvail (sc k) + 1\<rparr>) (case ev of Key ch \<Rightarrow> ch | _ \<Rightarrow> EOF) ks"
      unfolding input_ok_def using u 3(2,3) by (auto intro!: exI [of _ "used @ [ev]"] split: key_event.splits)
    then show ?thesis
      using I 3(4) by (simp add: visible_def sc_inv_def held_ok_def shown_ok_def)
  qed
qed

lemma interrupt_inv:
  assumes "sc_inv D ks0 k h" "pending_ints k = before @ (i, w) # after"
    "fire (device_call sc_notify) i (k\<lparr>pending_ints := before @ after\<rparr>) = Some k'"
  shows "sc_inv D ks0 k' h"
proof -
  obtain k1 k2 where k1: "world k1 = world k" "pending_ints k1 = before @ after"
      "device_call sc_notify (handler_fn i) (handler_arg i) k1 = Some k2" "world k' = world k2" "pending_ints k' = pending_ints k2"
    using fireE [OF assms(3)] by auto
  have w: "pending_writes k = pending_writes k1 + (if handler_fn i = ConsoleWriteDone then 1 else 0)"
    using assms(2) k1(2) by simp
  have "sc_inv D ks0 k2 h"
  proof (cases "handler_fn i = ConsoleWriteDone")
    case True
    then show ?thesis using write_interrupt [OF assms(1) _ k1(1)] k1(3) w by simp
  next
    case F: False
    show ?thesis
    proof (cases "handler_fn i = ConsoleReadPoll")
      case True
      then show ?thesis using read_interrupt [OF assms(1) _ k1(1)] k1(3) w by simp
    next
      case False
      then have "visible k2 = visible k1" using device_visible [OF k1(3)] F by simp
      then show ?thesis using assms(1) sc_inv_visible [of k2 k] k1(1) w F by (simp add: visible_def)
    qed
  qed
  then show ?thesis using sc_inv_same k1(4,5) by blast
qed


subsection \<open>Statements of the threads\<close>

lemma PutChar_effect:
  assumes "PutChar ch k = Some k'"
  shows "\<not> putBusy (console (world k))" "world k' = (world k)\<lparr>host := (host (world k))\<lparr>display := screen k @ [ch]\<rparr>,
      console := (console (world k))\<lparr>putBusy := True\<rparr>\<rparr>" "pending_writes k' = pending_writes k + 1"
proof -
  let ?k = "set_console ((console (world k))\<lparr>putBusy := True\<rparr>) (set_host ((host (world k))\<lparr>display := screen k @ [ch]\<rparr>) k)"
  have s: "\<not> putBusy (console (world k))" "Schedule ConsoleWriteDone 0 ConsoleTime ConsoleWriteInt ?k = Some k'"
    using assms by (auto simp: PutChar_def ASSERT_def set_host_def Let_def split: if_splits)
  then show "\<not> putBusy (console (world k))" by simp
  show "world k' = (world k)\<lparr>host := (host (world k))\<lparr>display := screen k @ [ch]\<rparr>, console := (console (world k))\<lparr>putBusy := True\<rparr>\<rparr>"
    "pending_writes k' = pending_writes k + 1"
    using Schedule_writes [OF s(2)] by (simp_all add: dev_defs)
qed

lemma PutChar_ready:
  assumes "\<not> putBusy (console (world k))"
  shows "\<exists>k'. PutChar ch k = Some k'"
  using assms by (simp add: PutChar_def Schedule_def Let_def)

lemma begin_call_ok: "stage_ok c (begin_call c)" "so_far (begin_call c) = []" "\<not> waits_write (Some (t, c, begin_call c))"
    "\<not> fetching (Some (t, c, begin_call c))"
  by (cases c; simp)+

lemma after_char_ok:
  assumes "partial_ok c got"
  shows "stage_ok c (after_char c got ch)" "output_of c = None"
    "filter (\<lambda>x. x \<noteq> EOF) (so_far (after_char c got ch)) = filter (\<lambda>x. x \<noteq> EOF) (got @ [ch])"
proof -
  have "stage_ok c (after_char c got ch) \<and> output_of c = None
    \<and> filter (\<lambda>x. x \<noteq> EOF) (so_far (after_char c got ch)) = filter (\<lambda>x. x \<noteq> EOF) (got @ [ch])"
  proof (cases c)
    case (SynchGetString n)
    then have p: "int (length got) < n" "EOF \<notin> set got" "newline \<notin> set got"
      using assms by simp_all
    have b: "newline \<notin> set (butlast got)"
      using p(3) by (meson in_set_butlastD)
    consider "ch = EOF" | "ch \<noteq> EOF" "ch = newline \<or> \<not> int (length (got @ [ch])) < n"
      | "ch \<noteq> EOF" "ch \<noteq> newline" "int (length (got @ [ch])) < n"
      by blast
    then show ?thesis
      by cases (use SynchGetString p b in simp_all)
  qed (use assms in simp_all)
  then show "stage_ok c (after_char c got ch)" "output_of c = None"
    "filter (\<lambda>x. x \<noteq> EOF) (so_far (after_char c got ch)) = filter (\<lambda>x. x \<noteq> EOF) (got @ [ch])"
    by blast+
qed

lemma after_char_quiet: "\<not> waits_write (Some (t, c, after_char c got ch))" "\<not> fetching (Some (t, c, after_char c got ch))"
  by (cases c; simp)+

lemma inside_inv:
  assumes inv: "sc_inv D ks0 k (Some (t, c, st))" and k': "sc_inside t c st k = Some k'"
  shows "\<exists>h'. sc_inv D ks0 k' h'"
proof -
  note I = sc_invD [OF inv]
  have ag: "agrees (pos (sc k)) (Some (t, c, st))" and st: "stage_ok c st" and hist: "\<forall>(c, cs) \<in> set (history (sc k)). answer_ok c cs"
      and sem: "semThreads (sc k) = 0"
    using I(1) by (auto simp: held_ok_def)
  note ag' = agrees_in [OF disjI2, OF ag]
  show ?thesis
  proof (cases st)
    case (To_put put rest)
    show ?thesis
    proof (cases rest)
      case Nil
      then have e: "k' = set_sc (goto t (Inside c (To_leave put)) (sc k)) k"
        using k' To_put by simp
      have a: "answer_ok c put"
        using st To_put Nil by (cases c) simp_all
      have "sc_inv D ks0 k' (Some (t, c, To_leave put))"
        using I ag' a hist sem unfolding e by (intro sc_invI) (simp_all add: held_ok_def write_ok_def shown_ok_def input_ok_def To_put)
      then show ?thesis ..
    next
      case (Cons ch cs)
      then obtain k1 where k1: "PutChar ch k = Some k1" "k' = set_sc (goto t (Inside c (Put_issued (put @ [ch]) cs)) (sc k1)) k1"
        using k' To_put by (auto split: Option.bind_splits)
      note E = PutChar_effect [OF k1(1)]
      have o: "output_of c = Some (put @ ch # cs)" "output_of c \<noteq> None"
        using st To_put Cons by simp_all
      have "sc_inv D ks0 k' (Some (t, c, Put_issued (put @ [ch]) cs))"
        unfolding k1(2) using I ag' o hist sem E
        by (intro sc_invI) (simp_all add: held_ok_def write_ok_def shown_ok_def input_ok_def To_put put_by_def got_by_def)
      then show ?thesis ..
    qed
  next
    case (Put_issued put rest)
    then have e: "writeDone (sc k) \<noteq> 0"
        "k' = set_sc (goto t (Inside c (To_put put rest)) ((sc k)\<lparr>writeDone := writeDone (sc k) - 1\<rparr>)) k"
      using k' by (auto split: if_splits)
    have "sc_inv D ks0 k' (Some (t, c, To_put put rest))"
      unfolding e(2) using I ag' st hist sem e(1)
      by (intro sc_invI) (auto simp: held_ok_def write_ok_def shown_ok_def input_ok_def Put_issued split: if_splits)
    then show ?thesis ..
  next
    case (To_get got)
    then have e: "k' = set_sc (goto t (Inside c (To_fetch got)) ((sc k)\<lparr>readAvail := readAvail (sc k) - 1\<rparr>)) k"
      using k' by (auto split: if_splits)
    have "sc_inv D ks0 k' (Some (t, c, To_fetch got))"
      unfolding e using I ag' st hist sem
      by (intro sc_invI) (auto simp: held_ok_def write_ok_def shown_ok_def input_ok_def To_get)
    then show ?thesis ..
  next
    case (To_fetch got)
    let ?ch = "incoming (console (world k))"
    have e: "world k' = (world k)\<lparr>console := (console (world k))\<lparr>incoming := EOF\<rparr>,
          others := goto t (Inside c (after_char c got ?ch)) (sc k)\<rparr>" "pending_ints k' = pending_ints k"
      using k' To_fetch by (auto simp: GetChar_def dev_defs set_sc_def)
    have p: "partial_ok c got" using st To_fetch by simp
    note A = after_char_ok [OF p]
    have g: "got_by (c, so_far (after_char c got ?ch)) = got_by (c, got) @ (if ?ch = EOF then [] else [?ch])"
      using A(2,3) by (simp add: got_by_def)
    have "sc_inv D ks0 k' (Some (t, c, after_char c got ?ch))"
    proof (rule sc_invI)
      show "held_ok (Some (t, c, after_char c got ?ch)) (sc k')"
        using ag' hist sem A(1) by (simp add: e held_ok_def)
      show "write_ok (Some (t, c, after_char c got ?ch)) (putBusy (console (world k'))) (pending_writes k') (writeDone (sc k'))"
        using I(2) after_char_quiet(1) by (simp add: e write_ok_def To_fetch)
      show "shown_ok D (Some (t, c, after_char c got ?ch)) (sc k') (screen k')"
        using I(3) A(2) by (simp add: e shown_ok_def To_fetch put_by_def)
      show "input_ok ks0 (Some (t, c, after_char c got ?ch)) (sc k') (incoming (console (world k'))) (typed k')"
        using I(4) g by (simp add: e input_ok_def To_fetch)
    qed
    then show ?thesis ..
  next
    case (To_leave cs)
    then have e: "k' = set_sc (goto t Away ((sc k)\<lparr>semThreads := semThreads (sc k) + 1, history := history (sc k) @ [(c, cs)]\<rparr>)) k"
      using k' by simp
    have "sc_inv D ks0 k' None"
      unfolding e using I agrees_away [OF ag] st hist sem
      by (intro sc_invI) (auto simp: held_ok_def write_ok_def shown_ok_def input_ok_def To_leave)
    then show ?thesis ..
  qed
qed

lemma sc_step_inv:
  assumes "sc_step k k'" "sc_inv D ks0 k h"
  shows "\<exists>h'. sc_inv D ks0 k' h'"
  using assms
proof (induction rule: sc_step.induct)
  case (call k t c)
  note I = sc_invD [OF call.prems]
  have "sc_inv D ks0 (set_sc (goto t (Before c) (sc k)) k) h"
    using I agrees_before [of "pos (sc k)" h t c] call.hyps by (intro sc_invI) (simp_all add: held_ok_def shown_ok_def input_ok_def)
  then show ?case ..
next
  case (statement t k k')
  note I = sc_invD [OF statement.prems]
  have ag: "agrees (pos (sc k)) h" using I(1) by (simp add: held_ok_def)
  show ?case
  proof (cases "pos (sc k) t")
    case Away
    then show ?thesis using statement.hyps by (simp add: sc_statement_def)
  next
    case (Before c)
    then have e: "semThreads (sc k) \<noteq> 0"
        "k' = set_sc (goto t (Inside c (begin_call c)) ((sc k)\<lparr>semThreads := semThreads (sc k) - 1\<rparr>)) k"
      using statement.hyps by (auto simp: sc_statement_def split: if_splits)
    have h: "h = None" using e(1) I(1) by (simp add: held_ok_def split: if_splits)
    have "sc_inv D ks0 k' (Some (t, c, begin_call c))"
      unfolding e(2) using I begin_call_ok [where c = c] agrees_in [OF disjI1, of "pos (sc k)" t] ag
      by (intro sc_invI) (auto simp: h held_ok_def write_ok_def shown_ok_def input_ok_def put_by_def got_by_def)
    then show ?thesis ..
  next
    case (Inside c st)
    then have "h = Some (t, c, st)" using ag by (simp add: agrees_def)
    then show ?thesis
      using inside_inv statement Inside by (simp add: sc_statement_def)
  qed
next
  case (interrupt k before i w after k')
  then show ?case using interrupt_inv by blast
next
  case (elsewhere k' k)
  then show ?case using sc_inv_same by blast
qed

lemma sc_runs_inv:
  assumes "sc_runs k0 k" "SynchConsole_new b = Some k0" "pending_writes b = 0"
  shows "\<exists>h. sc_inv (screen b) (typed b) k h"
  using assms
proof (induction rule: sc_runs.induct)
  case start
  let ?r = "\<lparr>readAvail = 0, writeDone = 0, semThreads = 1, pos = (\<lambda>t. Away), history = []\<rparr>"
  have s: "Schedule ConsoleReadPoll 0 ConsoleTime ConsoleReadInt (set_console \<lparr>putBusy = False, incoming = EOF\<rparr> (set_sc ?r b)) = Some k0"
    using start by (simp add: SynchConsole_new_def Console_new_def)
  have "sc_inv (screen b) (typed b) k0 None"
    using Schedule_writes [OF s] start(2)
    by (intro sc_invI) (simp_all add: dev_defs held_ok_def agrees_def write_ok_def shown_ok_def input_ok_def)
  then show ?case ..
next
  case (step k k')
  then show ?case using sc_step_inv by blast
qed


section \<open>Properties\<close>

subsection \<open>A small run\<close>

definition demo_host :: Host where
  "demo_host = \<lparr>keys = [Key 104, NoKey, Key newline, EndOfInput], packets = [], randoms = [], junk_bytes = (\<lambda>i. 0), display = [], wire = []\<rparr>"

definition demo_boot :: KC where
  "demo_boot = Interrupt_new None \<lparr>console = \<lparr>putBusy = False, incoming = EOF\<rparr>,
     network = \<lparr>ident = 0, chanceToWork = 1, sendBusy = False, inHdr = \<lparr>to_machine = 0, from_machine = 0, pkt_length = 0\<rparr>, inbox = []\<rparr>,
     hard_disk = Disk_new (\<lambda>_. []), timer = \<lparr>randomize = False, timer_handler = KernelTimerHandler, timer_arg = 0\<rparr>,
     host = demo_host, others = \<lparr>readAvail = 0, writeDone = 0, semThreads = 0, pos = (\<lambda>t. Away), history = []\<rparr>\<rparr>"

text \<open>Thread 1 prints a string and has put its first character; thread 2 waits to read.\<close>

lemma demo_output:
  obtains k0 k where "SynchConsole_new demo_boot = Some k0" "sc_runs k0 k" "screen k = [72]"
    "pos (sc k) 1 = Inside (SynchPutString [72, 73, 0]) (Put_issued [72] [73])" "pos (sc k) 2 = Before (SynchGetString 3)"
    "history (sc k) = []"
proof -
  obtain k0 where k0: "SynchConsole_new demo_boot = Some k0"
    by (simp add: SynchConsole_new_def Console_new_def Schedule_def Let_def)
  have r0: "sc k0 = \<lparr>readAvail = 0, writeDone = 0, semThreads = 1, pos = (\<lambda>t. Away), history = []\<rparr>" "screen k0 = []"
      "\<not> putBusy (console (world k0))"
    using k0 by (auto simp: SynchConsole_new_def Console_new_def Schedule_def Let_def dev_defs set_sc_def demo_boot_def demo_host_def Interrupt_new_def)
  define k1 where "k1 = set_sc (goto 1 (Before (SynchPutString [72, 73, 0])) (sc k0)) k0"
  define k2 where "k2 = set_sc (goto 2 (Before (SynchGetString 3)) (sc k1)) k1"
  define k3 where "k3 = set_sc (goto 1 (Inside (SynchPutString [72, 73, 0]) (To_put [] [72, 73])) ((sc k2)\<lparr>semThreads := 0\<rparr>)) k2"
  have b: "\<not> putBusy (console (world k3))"
    using r0(3) by (simp add: k1_def k2_def k3_def)
  then obtain k4 where k4: "PutChar 72 k3 = Some k4"
    using PutChar_ready by blast
  have "sc_runs k0 k1"
    unfolding k1_def by (rule sc_runs.step [OF sc_runs.start sc_step.call]) (simp add: r0)
  then have "sc_runs k0 k2"
    unfolding k2_def by (rule sc_runs.step [OF _ sc_step.call]) (simp add: r0 k1_def)
  moreover have "sc_statement 1 k2 = Some k3"
    by (simp add: sc_statement_def k3_def k2_def k1_def r0)
  ultimately have "sc_runs k0 k3"
    by (blast intro: sc_runs.step sc_step.statement)
  moreover have "sc_statement 1 k3 = Some (set_sc (goto 1 (Inside (SynchPutString [72, 73, 0]) (Put_issued [72] [73])) (sc k4)) k4)"
    using k4 by (simp add: sc_statement_def k3_def)
  ultimately have run: "sc_runs k0 (set_sc (goto 1 (Inside (SynchPutString [72, 73, 0]) (Put_issued [72] [73])) (sc k4)) k4)"
    by (blast intro: sc_runs.step sc_step.statement)
  show ?thesis
    using PutChar_effect [OF k4] r0 by (intro that [OF k0 run]) (simp_all add: k1_def k2_def k3_def)
qed

text \<open>Thread 2 reads, and has been given the first character typed.\<close>

lemma demo_input:
  obtains k0 k where "SynchConsole_new demo_boot = Some k0" "sc_runs k0 k" "typed k = [NoKey, Key newline, EndOfInput]"
    "pos (sc k) 2 = Inside (SynchGetString 3) (To_get [104])" "history (sc k) = []" "incoming (console (world k)) = EOF"
proof -
  obtain k0 where k0: "SynchConsole_new demo_boot = Some k0"
    by (simp add: SynchConsole_new_def Console_new_def Schedule_def Let_def)
  have r0: "sc k0 = \<lparr>readAvail = 0, writeDone = 0, semThreads = 1, pos = (\<lambda>t. Away), history = []\<rparr>" "host (world k0) = demo_host"
      "incoming (console (world k0)) = EOF" "machine k0 = None" "pending_ints k0 = [] @
         (\<lparr>handler_fn = ConsoleReadPoll, handler_arg = 0, due_at = 100, int_type = ConsoleReadInt\<rparr>, 100) # []"
    using k0 by (auto simp: SynchConsole_new_def Console_new_def Schedule_def Let_def dev_defs set_sc_def demo_boot_def demo_host_def Interrupt_new_def
        Statistics_new_def)
  define k1 where "k1 = set_sc (goto 2 (Before (SynchGetString 3)) (sc k0)) k0"
  define k2 where "k2 = set_sc (goto 2 (Inside (SynchGetString 3) (To_get [])) ((sc k1)\<lparr>semThreads := 0\<rparr>)) k1"
  have f2: "pending_ints k2 = pending_ints k0" "machine k2 = None"
      "world k2 = (world k0)\<lparr>others := \<lparr>readAvail = 0, writeDone = 0, semThreads = 0, pos = (\<lambda>t. Away)(2 := Inside (SynchGetString 3) (To_get [])), history = []\<rparr>\<rparr>"
    using r0 by (simp_all add: k1_def k2_def set_sc_def goto_def)
  have "sc_runs k0 k1"
    unfolding k1_def by (rule sc_runs.step [OF sc_runs.start sc_step.call]) (simp add: r0)
  moreover have "sc_statement 2 k1 = Some k2"
    by (simp add: sc_statement_def k2_def k1_def r0)
  ultimately have s2: "sc_runs k0 k2"
    by (blast intro: sc_runs.step sc_step.statement)
  obtain k3 where k3: "fire (device_call sc_notify) \<lparr>handler_fn = ConsoleReadPoll, handler_arg = 0, due_at = 100, int_type = ConsoleReadInt\<rparr>
      (k2\<lparr>pending_ints := [] @ []\<rparr>) = Some k3" "incoming (console (world k3)) = 104"
      "typed k3 = [NoKey, Key newline, EndOfInput]" "sc k3 = (sc k2)\<lparr>readAvail := 1\<rparr>"
    using r0(2,3) f2 by (simp add: fire_def CheckCharAvail_def Schedule_def Let_def demo_host_def dev_defs)
  have s3: "sc_runs k0 k3"
    using sc_runs.step [OF s2 sc_step.interrupt [OF _ k3(1)]] f2(1) r0(5) by simp
  define k4 where "k4 = set_sc (goto 2 (Inside (SynchGetString 3) (To_fetch [])) ((sc k3)\<lparr>readAvail := 0\<rparr>)) k3"
  have "sc_statement 2 k3 = Some k4"
    using k3(4) f2(3) by (simp add: sc_statement_def k4_def)
  then have s4: "sc_runs k0 k4"
    using s3 by (blast intro: sc_runs.step sc_step.statement)
  obtain k5 where k5: "sc_statement 2 k4 = Some k5" "typed k5 = typed k3" "incoming (console (world k5)) = EOF"
      "sc k5 = goto 2 (Inside (SynchGetString 3) (To_get [104])) (sc k4)"
    using k3(2) by (simp add: sc_statement_def k4_def GetChar_def dev_defs)
  then have "sc_runs k0 k5"
    using s4 by (blast intro: sc_runs.step sc_step.statement)
  then show ?thesis
    using k5 k3 f2 by (intro that [OF k0, of k5]) (simp_all add: k4_def)
qed


subsection \<open>Output\<close>

lemma console_output_parts:
  assumes "SynchConsole_new b = Some k0" "\<forall>e\<in>set (pending_ints b). \<not> is_write e" "sc_runs k0 k"
  shows "\<exists>cur. screen k = screen b @ concat (map put_by (history (sc k))) @ cur
      \<and> (cur = [] \<or> (\<exists>t c st rest. pos (sc k) t = Inside c st \<and> output_of c = Some (cur @ rest)))"
    and "\<forall>(c, cs)\<in>set (history (sc k)). output_of c = None \<or> output_of c = Some cs"
    and "\<forall>t c put ch rest. pos (sc k) t = Inside c (To_put put (ch # rest)) \<longrightarrow> (\<exists>k'. PutChar ch k = Some k')"
proof -
  obtain h where inv: "sc_inv (screen b) (typed b) k h"
    using sc_runs_inv [OF assms(3,1)] assms(2) by (auto simp: filter_empty_conv)
  note I = sc_invD [OF inv]
  have ag: "agrees (pos (sc k)) h" using I(1) by (simp add: held_ok_def)
  let ?cur = "concat (map put_by (current h))"
  have "?cur = [] \<or> (\<exists>t c st rest. pos (sc k) t = Inside c st \<and> output_of c = Some (?cur @ rest))"
  proof (cases h)
    case (Some x)
    obtain t c st where x: "x = (t, c, st)" by (cases x)
    have st: "stage_ok c st" "pos (sc k) t = Inside c st"
      using I(1) Some x by (simp_all add: held_ok_def agrees_def)
    show ?thesis
    proof (cases "output_of c")
      case None
      then show ?thesis using Some x by (simp add: put_by_def)
    next
      case o: (Some w)
      then have "\<exists>rest. w = so_far st @ rest"
        using st(1) by (cases c; cases st) auto
      then show ?thesis using o Some x st(2) by (auto simp: put_by_def)
    qed
  qed simp
  then show "\<exists>cur. screen k = screen b @ concat (map put_by (history (sc k))) @ cur
      \<and> (cur = [] \<or> (\<exists>t c st rest. pos (sc k) t = Inside c st \<and> output_of c = Some (cur @ rest)))"
    using I(3) by (intro exI [of _ ?cur]) (simp add: shown_ok_def)
  have "output_of c = None \<or> output_of c = Some cs" if "answer_ok c cs" for c cs
    using that by (cases c) auto
  then show "\<forall>(c, cs)\<in>set (history (sc k)). output_of c = None \<or> output_of c = Some cs"
    using I(1) by (fastforce simp: held_ok_def)
  show "\<forall>t c put ch rest. pos (sc k) t = Inside c (To_put put (ch # rest)) \<longrightarrow> (\<exists>k'. PutChar ch k = Some k')"
  proof (intro allI impI)
    fix t c put ch rest
    assume "pos (sc k) t = Inside c (To_put put (ch # rest))"
    then have "h = Some (t, c, To_put put (ch # rest))" using ag by (simp add: agrees_def)
    then show "\<exists>k'. PutChar ch k = Some k'"
      using I(2) by (intro PutChar_ready) (simp add: write_ok_def)
  qed
qed

text \<open>
  C7. Operations of any number of threads write to the screen one after the other: whatever the interleaving of
  threads and interrupts, the screen shows what the finished operations have written, each as a whole and in the
  order in which they have returned, followed by a part of what the operation under way is to write; and a thread
  that is to put a character finds the device idle, so that its assertion never fails.
\<close>

theorem console_output_whole:
  assumes "SynchConsole_new b = Some k0" "\<forall>e\<in>set (pending_ints b). \<not> is_write e" "sc_runs k0 k"
  shows "(\<exists>cur. screen k = screen b @ concat (map put_by (history (sc k))) @ cur
      \<and> (cur = [] \<or> (\<exists>t c st rest. pos (sc k) t = Inside c st \<and> output_of c = Some (cur @ rest))))
    \<and> (\<forall>(c, cs)\<in>set (history (sc k)). output_of c = None \<or> output_of c = Some cs)
    \<and> (\<forall>t c put ch rest. pos (sc k) t = Inside c (To_put put (ch # rest)) \<longrightarrow> (\<exists>k'. PutChar ch k = Some k'))"
  using console_output_parts [OF assms] by (intro conjI)

theorem console_output_whole_witness:
  "\<exists>k0 k. SynchConsole_new demo_boot = Some k0 \<and> sc_runs k0 k \<and> pos (sc k) 2 = Before (SynchGetString 3)
     \<and> (\<exists>cur. [72] = concat (map put_by (history (sc k))) @ cur
         \<and> (cur = [] \<or> (\<exists>t c st rest. pos (sc k) t = Inside c st \<and> output_of c = Some (cur @ rest))))"
proof -
  obtain k0 k where k: "SynchConsole_new demo_boot = Some k0" "sc_runs k0 k" "screen k = [72]" "pos (sc k) 2 = Before (SynchGetString 3)"
    by (rule demo_output)
  have e: "\<forall>e\<in>set (pending_ints demo_boot). \<not> is_write e"
    by (simp add: demo_boot_def Interrupt_new_def)
  have "screen demo_boot = []"
    by (simp add: demo_boot_def demo_host_def Interrupt_new_def)
  then have "\<exists>cur. [72] = concat (map put_by (history (sc k))) @ cur
      \<and> (cur = [] \<or> (\<exists>t c st rest. pos (sc k) t = Inside c st \<and> output_of c = Some (cur @ rest)))"
    using conjunct1 [OF console_output_whole [OF k(1) e k(2)]] unfolding k(3) by simp
  with k(1,2,4) show ?thesis by blast
qed


subsection \<open>Input\<close>

lemma console_input_parts:
  assumes "SynchConsole_new b = Some k0" "\<forall>e\<in>set (pending_ints b). \<not> is_write e" "sc_runs k0 k"
  shows "\<exists>used cur. typed b = used @ typed k
      \<and> concat (map key_chars used) = concat (map got_by (history (sc k))) @ cur @ filter (\<lambda>c. c \<noteq> EOF) [incoming (console (world k))]
      \<and> (cur = [] \<or> (\<exists>t c st. pos (sc k) t = Inside c st \<and> output_of c = None \<and> cur = filter (\<lambda>c. c \<noteq> EOF) (so_far st)))"
    and "\<forall>(c, cs)\<in>set (history (sc k)). \<forall>n. c = SynchGetString n \<longrightarrow>
      int (length cs) \<le> max 0 n \<and> EOF \<notin> set cs \<and> newline \<notin> set (butlast cs)"
proof -
  obtain h where inv: "sc_inv (screen b) (typed b) k h"
    using sc_runs_inv [OF assms(3,1)] assms(2) by (auto simp: filter_empty_conv)
  note I = sc_invD [OF inv]
  have ag: "agrees (pos (sc k)) h" using I(1) by (simp add: held_ok_def)
  let ?cur = "concat (map got_by (current h))"
  have "?cur = [] \<or> (\<exists>t c st. pos (sc k) t = Inside c st \<and> output_of c = None \<and> ?cur = filter (\<lambda>c. c \<noteq> EOF) (so_far st))"
    using ag by (cases h) (auto simp: got_by_def agrees_def)
  moreover obtain used where "typed b = used @ typed k" "concat (map key_chars used) =
      concat (map got_by (history (sc k))) @ ?cur @ filter (\<lambda>c. c \<noteq> EOF) [incoming (console (world k))]"
    using I(4) by (auto simp: input_ok_def split: if_splits)
  ultimately show "\<exists>used cur. typed b = used @ typed k
      \<and> concat (map key_chars used) = concat (map got_by (history (sc k))) @ cur @ filter (\<lambda>c. c \<noteq> EOF) [incoming (console (world k))]
      \<and> (cur = [] \<or> (\<exists>t c st. pos (sc k) t = Inside c st \<and> output_of c = None \<and> cur = filter (\<lambda>c. c \<noteq> EOF) (so_far st)))"
    by blast
  show "\<forall>(c, cs)\<in>set (history (sc k)). \<forall>n. c = SynchGetString n \<longrightarrow>
      int (length cs) \<le> max 0 n \<and> EOF \<notin> set cs \<and> newline \<notin> set (butlast cs)"
    using I(1) by (fastforce simp: held_ok_def)
qed

text \<open>
  C27. Characters reach the readers in the order in which they were typed, none is lost and none is delivered twice:
  those the device has taken from the keyboard are the ones the finished operations have returned, then those of
  the operation under way, then the one in the device. The character \<open>0xFF\<close> is left out, which the device cannot
  tell from the end of the file. \<open>SynchGetString(s, n)\<close> returns at most \<open>n\<close> characters, and none after a newline.
\<close>

theorem console_input_in_order:
  assumes "SynchConsole_new b = Some k0" "\<forall>e\<in>set (pending_ints b). \<not> is_write e" "sc_runs k0 k"
  shows "(\<exists>used cur. typed b = used @ typed k
      \<and> concat (map key_chars used) = concat (map got_by (history (sc k))) @ cur @ filter (\<lambda>c. c \<noteq> EOF) [incoming (console (world k))]
      \<and> (cur = [] \<or> (\<exists>t c st. pos (sc k) t = Inside c st \<and> output_of c = None \<and> cur = filter (\<lambda>c. c \<noteq> EOF) (so_far st))))
    \<and> (\<forall>(c, cs)\<in>set (history (sc k)). \<forall>n. c = SynchGetString n \<longrightarrow>
      int (length cs) \<le> max 0 n \<and> EOF \<notin> set cs \<and> newline \<notin> set (butlast cs))"
  using console_input_parts [OF assms] by (intro conjI)


theorem console_input_in_order_witness:
  "\<exists>k0 k. SynchConsole_new demo_boot = Some k0 \<and> sc_runs k0 k \<and> pos (sc k) 2 = Inside (SynchGetString 3) (To_get [104])
     \<and> (\<exists>used cur. typed demo_boot = used @ [NoKey, Key newline, EndOfInput] \<and> concat (map key_chars used) = cur
         \<and> (cur = [] \<or> (\<exists>t c st. pos (sc k) t = Inside c st \<and> output_of c = None \<and> cur = filter (\<lambda>c. c \<noteq> EOF) (so_far st))))"
proof -
  obtain k0 k where k: "SynchConsole_new demo_boot = Some k0" "sc_runs k0 k" "typed k = [NoKey, Key newline, EndOfInput]"
      "pos (sc k) 2 = Inside (SynchGetString 3) (To_get [104])" "history (sc k) = []" "incoming (console (world k)) = EOF"
    by (rule demo_input)
  have e: "\<forall>e\<in>set (pending_ints demo_boot). \<not> is_write e"
    by (simp add: demo_boot_def Interrupt_new_def)
  have "\<exists>used cur. typed demo_boot = used @ [NoKey, Key newline, EndOfInput] \<and> concat (map key_chars used) = cur
      \<and> (cur = [] \<or> (\<exists>t c st. pos (sc k) t = Inside c st \<and> output_of c = None \<and> cur = filter (\<lambda>c. c \<noteq> EOF) (so_far st)))"
    using conjunct1 [OF console_input_in_order [OF k(1) e k(2)]] unfolding k(3,5,6) by simp
  with k(1,2,4) show ?thesis by blast
qed


subsection \<open>Progress\<close>

text \<open>
  C26. The console is never stuck on its own semaphores: when nobody is inside, a thread that has called an
  operation can enter it; the thread inside can execute its next statement, unless it waits for the keyboard, or
  for a character to be displayed, and then the interrupt that ends this wait is pending and the thread can go on
  when it has occurred.
\<close>

theorem console_progress:
  assumes "SynchConsole_new b = Some k0" "\<forall>e\<in>set (pending_ints b). \<not> is_write e" "sc_runs k0 k" "pos (sc k) t \<noteq> Away"
  shows "(\<exists>k'. sc_statement t k = Some k')
    \<or> (\<exists>c u d st. pos (sc k) t = Before c \<and> pos (sc k) u = Inside d st)
    \<or> (\<exists>c got. pos (sc k) t = Inside c (To_get got) \<and> readAvail (sc k) = 0 \<and> incoming (console (world k)) = EOF)
    \<or> (\<exists>c put rest e k'. pos (sc k) t = Inside c (Put_issued put rest) \<and> e \<in> set (pending_ints k) \<and> is_write e
        \<and> Console_WriteDone sc_notify k = Some k' \<and> sc_statement t k' \<noteq> None)"
proof -
  obtain h where inv: "sc_inv (screen b) (typed b) k h"
    using sc_runs_inv [OF assms(3,1)] assms(2) by (auto simp: filter_empty_conv)
  note I = sc_invD [OF inv]
  have ag: "agrees (pos (sc k)) h" and sem: "semThreads (sc k) = (if h = None then 1 else 0)"
    using I(1) by (simp_all add: held_ok_def)
  show ?thesis
  proof (cases "pos (sc k) t")
    case Away
    then show ?thesis using assms(4) by simp
  next
    case (Before c)
    then show ?thesis
      using ag sem by (cases h) (auto simp: sc_statement_def agrees_def)
  next
    case (Inside c st)
    then have h: "h = Some (t, c, st)" using ag by (simp add: agrees_def)
    show ?thesis
    proof (cases st)
      case (To_put put rest)
      then show ?thesis
        using PutChar_ready [of k] I(2) Inside by (cases rest) (auto simp: sc_statement_def write_ok_def h split: Option.bind_splits)
    next
      case (To_get got)
      then show ?thesis
        using I(4) Inside by (auto simp: sc_statement_def input_ok_def h)
    next
      case (Put_issued put rest)
      then have w: "writeDone (sc k) = 0 \<Longrightarrow> pending_writes k = 1"
        using I(2) by (auto simp: write_ok_def h split: if_splits)
      show ?thesis
      proof (cases "writeDone (sc k) = 0")
        case True
        then have "filter is_write (pending_ints k) \<noteq> []"
          using w by auto
        then obtain e where "e \<in> set (pending_ints k)" "is_write e"
          unfolding filter_empty_conv by blast
        moreover obtain k' where "Console_WriteDone sc_notify k = Some k'" "sc_statement t k' \<noteq> None"
          using Inside Put_issued by (simp add: Console_WriteDone_def dev_defs sc_statement_def)
        ultimately show ?thesis using Inside Put_issued by blast
      qed (use Inside Put_issued in \<open>simp add: sc_statement_def\<close>)
    qed (use Inside in \<open>simp_all add: sc_statement_def GetChar_def\<close>)
  qed
qed

theorem console_progress_witness:
  "\<exists>k0 k. SynchConsole_new demo_boot = Some k0 \<and> sc_runs k0 k \<and> ((\<exists>k'. sc_statement 1 k = Some k')
     \<or> (\<exists>put rest e k'. pos (sc k) 1 = Inside (SynchPutString [72, 73, 0]) (Put_issued put rest) \<and> e \<in> set (pending_ints k) \<and> is_write e
        \<and> Console_WriteDone sc_notify k = Some k' \<and> sc_statement 1 k' \<noteq> None))"
proof -
  obtain k0 k where k: "SynchConsole_new demo_boot = Some k0" "sc_runs k0 k"
      "pos (sc k) 1 = Inside (SynchPutString [72, 73, 0]) (Put_issued [72] [73])"
    by (rule demo_output)
  have e: "\<forall>e\<in>set (pending_ints demo_boot). \<not> is_write e"
    by (simp add: demo_boot_def Interrupt_new_def)
  show ?thesis
    using console_progress [OF k(1) e k(2), of 1] k by (intro exI [of _ k0] exI [of _ k] conjI) simp_all
qed

end
