(* ===== verification/Syscalls.thy ===== *)
theory Syscalls
  imports SynchConsole AddrSpace Mips
begin

text \<open>
  System calls: \<open>ExceptionHandler\<close> of src/code/userprog/exception.cc, with \<open>UpdatePC\<close>, \<open>copyStringFromMachine\<close> and
  \<open>exitCode\<close>. A trap is a run that reads the registers and the memory of the user program, calls the routines
  of the kernel and puts their results back.
\<close>

section \<open>Model\<close>

subsection \<open>The program counter and nested traps\<close>

definition UpdatePC :: "Machine \<Rightarrow> Machine option" where
  "UpdatePC m = do {
     pc \<leftarrow> ReadRegister m (int PCReg);
     m \<leftarrow> WriteRegister m (int PrevPCReg) pc;
     pc \<leftarrow> ReadRegister m (int NextPCReg);
     m \<leftarrow> WriteRegister m (int PCReg) pc;
     WriteRegister m (int NextPCReg) (pc + 4)
   }"

text \<open>
  \<open>ExceptionHandler\<close> for anything but a system call: the instruction is skipped. \<open>ReadMem\<close> and \<open>WriteMem\<close> trap only
  with these exceptions, also when the kernel calls them.
\<close>

definition fault_handler :: handler where
  "fault_handler which m = do {
     ASSERT (which \<noteq> SyscallException);
     _ \<leftarrow> ReadRegister m 2;
     UpdatePC m
   }"

subsection \<open>Strings of the user program\<close>

abbreviation MAX_STRING_SIZE :: nat where "MAX_STRING_SIZE \<equiv> 256"

text \<open>\<open>ReadMem(.., (int *) (to + i))\<close> stores four bytes; a byte outside the array is an error of the program.\<close>

definition put_int :: "byte list \<Rightarrow> nat \<Rightarrow> u32 \<Rightarrow> byte list option" where
  "put_int to i val = do { ASSERT (i + 4 \<le> length to); Some (overlay to i (le32 val)) }"

fun copy_loop :: "nat \<Rightarrow> u32 \<Rightarrow> nat \<Rightarrow> byte list \<Rightarrow> Machine \<Rightarrow> (nat \<times> byte list \<times> Machine) option" where
  "copy_loop 0 from i to m = Some (i, to, m)"
| "copy_loop (Suc n) from i to m = do {
     (val, m) \<leftarrow> ReadMem fault_handler m (from + of_nat i) 1;
     to \<leftarrow> (case val of None \<Rightarrow> Some to | Some val \<Rightarrow> put_int to i val);
     ASSERT (i < length to);
     if to ! i = 0 then Some (i, to, m) else copy_loop n from (Suc i) to m
   }"

definition copyStringFromMachine :: "u32 \<Rightarrow> byte list \<Rightarrow> u32 \<Rightarrow> Machine \<Rightarrow> (byte list \<times> Machine) option" where
  "copyStringFromMachine from to sz m = do {
     (i, to, m) \<leftarrow> copy_loop (unat sz) from 0 to m;
     ASSERT (i < length to);
     Some (to[i := 0], m)
   }"

text \<open>The loops that copy a string to the user program; the string ends within the array.\<close>

fun write_loop :: "byte list \<Rightarrow> u32 \<Rightarrow> Machine \<Rightarrow> Machine option" where
  "write_loop [] addr m = None"
| "write_loop (c # cs) addr m = do {
     (_, m) \<leftarrow> WriteMem fault_handler m addr 1 (scast c);
     if c = 0 then Some m else write_loop cs (addr + 1) m
   }"

subsection \<open>Decimal numbers\<close>

text \<open>\<open>snprintf(.., "%d", ..)\<close> and \<open>sscanf(.., "%d", ..)\<close>, which leaves its argument alone when there is no number.\<close>

fun nat_digits :: "nat \<Rightarrow> byte list" where
  "nat_digits n = (if n < 10 then [of_nat (48 + n)] else nat_digits (n div 10) @ [of_nat (48 + n mod 10)])"

declare nat_digits.simps [simp del]

definition print_int :: "int \<Rightarrow> byte list" where
  "print_int i = (if i < 0 then 45 # nat_digits (nat (- i)) else nat_digits (nat i))"

definition is_digit :: "byte \<Rightarrow> bool" where
  "is_digit c \<longleftrightarrow> 48 \<le> c \<and> c \<le> 57"

definition is_space :: "byte \<Rightarrow> bool" where
  "is_space c \<longleftrightarrow> c = 32 \<or> (9 \<le> c \<and> c \<le> 13)"

definition digits_value :: "byte list \<Rightarrow> int" where
  "digits_value cs = foldl (\<lambda>v c. 10 * v + (int (unat c) - 48)) 0 cs"

text \<open>A number that is no \<open>int\<close> has no defined result.\<close>

definition scan_int :: "byte list \<Rightarrow> int option option" where
  "scan_int s = (let s = dropWhile is_space (c_str s); neg = (take 1 s = [45]);
       s = (if take 1 s = [45] \<or> take 1 s = [43] then drop 1 s else s); ds = takeWhile is_digit s;
       v = (if neg then - digits_value ds else digits_value ds)
     in if ds = [] then Some None else if is_int32 v then Some (Some v) else None)"

definition ascii :: "string \<Rightarrow> byte list" where
  "ascii s = map of_char s"

text \<open>\<open>exitCode\<close>: the string it prints.\<close>

definition exitCode :: "int \<Rightarrow> int \<Rightarrow> byte list" where
  "exitCode tid exit_code =
     (if exit_code = 0 then 10 # ascii ''Proper exit of thread '' @ print_int tid @ [10]
      else 10 # ascii ''Abnormal exit of thread '' @ print_int tid @ ascii '', exit code: '' @ print_int exit_code @ [10])"

subsection \<open>Runs\<close>

text \<open>
  The routines that \<open>ExceptionHandler\<close> calls, with their arguments, and what they give back: nothing, an integer (a
  \<open>bool\<close> is 0 or 1), the characters stored in the array \<open>get_str\<close>, or both. A run stops (\<open>Stuck\<close>: an assertion fails or an array is
  left), returns to the user program (\<open>Back\<close>), or calls a routine and goes on with its answer and the machine as it is
  then: the thread may have lost the processor in between.
\<close>

datatype request = Do_Halt | Do_SendProcess int | Do_ListenProcess
  | Do_synchThreadsMainExit | Do_UserThreadExit | Do_endProcess
  | Do_Create cname | Do_Remove cname | Do_OpenUser cname | Do_CloseUser int | Do_WriteUser "byte list" int int
  | Do_ReadUser int int | Do_SeekUser int int | Do_CreateDir cname | Do_RemoveDir cname | Do_List | Do_ChangeDir "byte list"
  | Do_console console_call
  | Do_UserThreadCreate u32 u32 u32 | Do_UserThreadJoin u32 | Do_ProcessJoin int | Do_ForkExec cname | Do_Sbrk u32
  | Do_SemInit int | Do_SemPost int | Do_SemWait int | Do_SemDestroy int
  | Do_startFTPserver | Do_FTPClientAction int char cname

datatype reply = No_reply | Num u32 | Chars "byte list" | Num_chars u32 "byte list"

datatype run = Stuck | Back Machine | Call request Machine "reply \<Rightarrow> Machine \<Rightarrow> run"

definition need :: "'a option \<Rightarrow> ('a \<Rightarrow> run) \<Rightarrow> run" where
  "need x f = (case x of None \<Rightarrow> Stuck | Some y \<Rightarrow> f y)"

text \<open>The automatic variables of \<open>ExceptionHandler\<close>, which are not initialised, and what it reads of \<open>currentThread\<close>.\<close>

record Locals =
  put_str :: "byte list"
  get_str :: "byte list"
  semId :: u32
  val :: u32
  cur_isMain :: bool
  cur_tid :: int

text \<open>The end of every case: \<open>UpdatePC\<close>.\<close>

definition finish :: "Machine \<Rightarrow> run" where
  "finish m = need (UpdatePC m) Back"

fun num :: "reply \<Rightarrow> u32 option" where
  "num (Num w) = Some w"
| "num _ = None"

text \<open>\<open>machine->WriteRegister(2, ..)\<close> with what a routine returns.\<close>

definition to_r2 :: "request \<Rightarrow> Machine \<Rightarrow> run" where
  "to_r2 r m = Call r m (\<lambda>a m. need (num a) (\<lambda>w. need (WriteRegister m 2 w) finish))"

definition no_result :: "request \<Rightarrow> Machine \<Rightarrow> run" where
  "no_result r m = Call r m (\<lambda>a m. finish m)"

text \<open>\<open>copyStringFromMachine\<close> of the string whose address is in the register \<open>r\<close>, up to \<open>MAX_STRING_SIZE\<close>.\<close>

definition with_string :: "Locals \<Rightarrow> int \<Rightarrow> Machine \<Rightarrow> (byte list \<Rightarrow> Machine \<Rightarrow> run) \<Rightarrow> run" where
  "with_string l r m f =
     need (ReadRegister m r) (\<lambda>start_addr. need (copyStringFromMachine start_addr (put_str l) 256 m) (\<lambda>(s, m). f s m))"

definition int_reg :: "Machine \<Rightarrow> int \<Rightarrow> int option" where
  "int_reg m r = map_option sint (ReadRegister m r)"

subsection \<open>The system calls\<close>

text \<open>\<open>SC_Exit\<close>, \<open>SC_Threadexit\<close> and, when it is to stop the process, \<open>SC_Sendprocess\<close>.\<close>

definition sys_exit :: "Locals \<Rightarrow> Machine \<Rightarrow> run" where
  "sys_exit l m =
     (if cur_isMain l then
        Call Do_synchThreadsMainExit m (\<lambda>_ m.
          need (int_reg m 4) (\<lambda>exit_code.
            Call (Do_console (SynchPutString (exitCode (cur_tid l) exit_code @ [0]))) m (\<lambda>_ m.
              Call Do_endProcess m (\<lambda>_ m. finish m))))
      else Call Do_UserThreadExit m (\<lambda>_ m. Stuck))"

definition sys_send_process :: "Locals \<Rightarrow> Machine \<Rightarrow> run" where
  "sys_send_process l m =
     need (UpdatePC m) (\<lambda>m. need (int_reg m 4) (\<lambda>net_addr. need (int_reg m 5) (\<lambda>shouldStop.
       Call (Do_SendProcess net_addr) m (\<lambda>sent m. need (num sent) (\<lambda>sent.
         if sent = 0 then need (WriteRegister m 2 (- 1)) Back
         else if shouldStop = 0 then need (WriteRegister m 2 0) Back
         else sys_exit l m)))))"

text \<open>\<open>SC_Create\<close> to \<open>SC_Seek\<close>, for \<open>SC_Create\<close>, \<open>SC_Remove\<close>, \<open>SC_Open\<close>, \<open>SC_Close\<close>, \<open>SC_Write\<close>, \<open>SC_Read\<close> and \<open>SC_Seek\<close>.\<close>

definition sys_write :: "Locals \<Rightarrow> Machine \<Rightarrow> run" where
  "sys_write l m =
     need (int_reg m 5) (\<lambda>sz. need (int_reg m 6) (\<lambda>fd. with_string l 4 m (\<lambda>s m. to_r2 (Do_WriteUser s sz fd) m)))"

definition sys_read :: "Locals \<Rightarrow> Machine \<Rightarrow> run" where
  "sys_read l m =
     need (ReadRegister m 4) (\<lambda>start_addr. need (int_reg m 5) (\<lambda>sz. need (int_reg m 6) (\<lambda>fd.
       Call (Do_ReadUser sz fd) m (\<lambda>a m. case a of
           Num_chars w bs \<Rightarrow>
             if length bs \<le> length (get_str l) then
               need (WriteRegister m 2 w) (\<lambda>m. need (write_loop (overlay (get_str l) 0 bs) start_addr m) finish)
             else Stuck
         | _ \<Rightarrow> Stuck))))"

definition sys_seek :: "Machine \<Rightarrow> run" where
  "sys_seek m = need (int_reg m 4) (\<lambda>fd. need (int_reg m 5) (\<lambda>v. no_result (Do_SeekUser fd v) m))"

text \<open>\<open>SC_Putstring\<close>, \<open>SC_Getstring\<close>, \<open>SC_Putint\<close> and \<open>SC_Getint\<close>.\<close>

definition sys_putstring :: "Locals \<Rightarrow> Machine \<Rightarrow> run" where
  "sys_putstring l m =
     need (ReadRegister m 4) (\<lambda>start_addr. need (ReadRegister m 5) (\<lambda>sz.
       need (copyStringFromMachine start_addr (put_str l) (if sint sz < 256 then sz else 255) m) (\<lambda>(s, m).
         no_result (Do_console (SynchPutString s)) m)))"

text \<open>\<open>SynchGetString\<close> stores the characters and a zero.\<close>

definition got_string :: "byte list \<Rightarrow> reply \<Rightarrow> byte list option" where
  "got_string to a = (case a of
       Chars bs \<Rightarrow> if length bs < length to then Some (overlay to 0 (bs @ [0])) else None
     | _ \<Rightarrow> None)"

definition sys_getchar :: "Machine \<Rightarrow> run" where
  "sys_getchar m = Call (Do_console SynchGetChar) m (\<lambda>a m. case a of
       Chars [ch] \<Rightarrow> need (WriteRegister m 2 (scast ch)) finish
     | _ \<Rightarrow> Stuck)"

definition sys_getstring :: "Locals \<Rightarrow> Machine \<Rightarrow> run" where
  "sys_getstring l m =
     need (ReadRegister m 4) (\<lambda>start_addr. need (int_reg m 5) (\<lambda>sz.
       Call (Do_console (SynchGetString sz)) m (\<lambda>a m. need (got_string (get_str l) a) (\<lambda>s.
         need (write_loop s start_addr m) finish))))"

definition sys_putint :: "Machine \<Rightarrow> run" where
  "sys_putint m = need (int_reg m 4) (\<lambda>v. no_result (Do_console (SynchPutString (print_int v @ [0]))) m)"

definition sys_getint :: "Locals \<Rightarrow> Machine \<Rightarrow> run" where
  "sys_getint l m =
     need (ReadRegister m 4) (\<lambda>start_addr.
       Call (Do_console (SynchGetString 256)) m (\<lambda>a m. need (got_string (get_str l) a) (\<lambda>s. need (scan_int s) (\<lambda>v.
         need (WriteMem fault_handler m start_addr 4 (case v of None \<Rightarrow> val l | Some i \<Rightarrow> of_int i)) (\<lambda>(_, m). finish m)))))"

text \<open>Threads and semaphores; a semaphore is known by the integer at the address the program passes.\<close>

definition sys_threadcreate :: "Machine \<Rightarrow> run" where
  "sys_threadcreate m =
     need (ReadRegister m 4) (\<lambda>f. need (ReadRegister m 5) (\<lambda>arg. need (ReadRegister m 6) (\<lambda>f_wrapper.
       to_r2 (Do_UserThreadCreate f_wrapper f arg) m)))"

definition sys_seminit :: "Machine \<Rightarrow> run" where
  "sys_seminit m =
     need (ReadRegister m 4) (\<lambda>semAddr. need (int_reg m 5) (\<lambda>v.
       Call (Do_SemInit v) m (\<lambda>a m. need (num a) (\<lambda>w.
         need (WriteMem fault_handler m semAddr 4 w) (\<lambda>(_, m). finish m)))))"

definition with_sem :: "Locals \<Rightarrow> Machine \<Rightarrow> (int \<Rightarrow> request) \<Rightarrow> run" where
  "with_sem l m f =
     need (ReadRegister m 4) (\<lambda>semAddr. need (ReadMem fault_handler m semAddr 4) (\<lambda>(v, m).
       no_result (f (sint (case v of None \<Rightarrow> semId l | Some w \<Rightarrow> w))) m))"

definition sys_ftp :: "Locals \<Rightarrow> char \<Rightarrow> Machine \<Rightarrow> run" where
  "sys_ftp l rw m =
     need (int_reg m 4) (\<lambda>net_addr. with_string l 5 m (\<lambda>s m. to_r2 (Do_FTPClientAction net_addr rw (c_str s)) m))"

text \<open>The codes are those of syscall.h.\<close>

definition sys_files :: "Locals \<Rightarrow> u32 \<Rightarrow> Machine \<Rightarrow> run option" where
  "sys_files l type m =
     (if type = 4 then Some (with_string l 4 m (\<lambda>s. to_r2 (Do_Create (c_str s))))
      else if type = 30 then Some (with_string l 4 m (\<lambda>s. to_r2 (Do_Remove (c_str s))))
      else if type = 5 then Some (with_string l 4 m (\<lambda>s. to_r2 (Do_OpenUser (c_str s))))
      else if type = 8 then Some (need (int_reg m 4) (\<lambda>fd. to_r2 (Do_CloseUser fd) m))
      else if type = 7 then Some (sys_write l m)
      else if type = 6 then Some (sys_read l m)
      else if type = 31 then Some (sys_seek m)
      else if type = 26 then Some (with_string l 4 m (\<lambda>s. to_r2 (Do_CreateDir (c_str s))))
      else if type = 27 then Some (with_string l 4 m (\<lambda>s. to_r2 (Do_RemoveDir (c_str s))))
      else if type = 28 then Some (no_result Do_List m)
      else if type = 29 then Some (with_string l 4 m (\<lambda>s. to_r2 (Do_ChangeDir (c_str s))))
      else None)"

definition sys_console :: "Locals \<Rightarrow> u32 \<Rightarrow> Machine \<Rightarrow> run option" where
  "sys_console l type m =
     (if type = 11 then Some (need (ReadRegister m 4) (\<lambda>ch. no_result (Do_console (SynchPutChar (ucast ch))) m))
      else if type = 12 then Some (sys_putstring l m)
      else if type = 13 then Some (sys_getchar m)
      else if type = 14 then Some (sys_getstring l m)
      else if type = 15 then Some (sys_putint m)
      else if type = 16 then Some (sys_getint l m)
      else None)"

definition sys_threads :: "Locals \<Rightarrow> u32 \<Rightarrow> Machine \<Rightarrow> run option" where
  "sys_threads l type m =
     (if type = 17 then Some (sys_threadcreate m)
      else if type = 19 then Some (need (ReadRegister m 4) (\<lambda>u. no_result (Do_UserThreadJoin u) m))
      else if type = 34 then Some (need (int_reg m 4) (\<lambda>pid. no_result (Do_ProcessJoin pid) m))
      else if type = 20 then Some (sys_seminit m)
      else if type = 21 then Some (with_sem l m Do_SemPost)
      else if type = 22 then Some (with_sem l m Do_SemWait)
      else if type = 23 then Some (with_sem l m Do_SemDestroy)
      else if type = 24 then Some (with_string l 4 m (\<lambda>s. to_r2 (Do_ForkExec (c_str s))))
      else if type = 25 then Some (need (ReadRegister m 4) (\<lambda>sz. to_r2 (Do_Sbrk sz) m))
      else None)"

definition sys_network :: "Locals \<Rightarrow> u32 \<Rightarrow> Machine \<Rightarrow> run option" where
  "sys_network l type m =
     (if type = 32 then Some (sys_send_process l m)
      else if type = 33 then Some (to_r2 Do_ListenProcess m)
      else if type = 37 then Some (no_result Do_startFTPserver m)
      else if type = 35 then Some (sys_ftp l CHR ''w'' m)
      else if type = 36 then Some (sys_ftp l CHR ''r'' m)
      else None)"

fun first_some :: "'a option list \<Rightarrow> 'a \<Rightarrow> 'a" where
  "first_some [] d = d"
| "first_some (Some x # xs) d = x"
| "first_some (None # xs) d = first_some xs d"

text \<open>A code that is none of these, among them \<open>SC_Exec\<close>, \<open>SC_Join\<close> and \<open>SC_Fork\<close>, does nothing.\<close>

definition ExceptionHandler :: "Locals \<Rightarrow> ExceptionType \<Rightarrow> Machine \<Rightarrow> run" where
  "ExceptionHandler l which m =
     need (ReadRegister m 2) (\<lambda>type.
       if which = SyscallException then
         (if type = 0 then no_result Do_Halt m
          else if type = 1 \<or> type = 18 then sys_exit l m
          else first_some [sys_files l type m, sys_console l type m, sys_threads l type m, sys_network l type m] (finish m))
       else finish m)"


section \<open>Strings in the memory of the program\<close>

text \<open>What the program would read at an address; \<open>string_at m a s\<close>: a string, with the zero after it.\<close>

definition byte_at :: "Machine \<Rightarrow> u32 \<Rightarrow> byte option" where
  "byte_at m a = map_option (mainMemory m) (access m False a 1)"

definition string_at :: "Machine \<Rightarrow> u32 \<Rightarrow> byte list \<Rightarrow> bool" where
  "string_at m a s \<longleftrightarrow> (\<forall>i\<le>length s. byte_at m (a + of_nat i) = Some ((s @ [0]) ! i)) \<and> 0 \<notin> set s"

text \<open>Reading leaves the registers, the memory and the translation alone.\<close>

definition kept :: "Machine \<Rightarrow> Machine \<Rightarrow> bool" where
  "kept m m' \<longleftrightarrow> same_core m m' \<and> registers m' = registers m \<and> mainMemory m' = mainMemory m"

lemma same_core_refl [simp]: "same_core m m"
  by (simp add: same_core_def)

lemma same_core_trans: "same_core m m' \<Longrightarrow> same_core m' m'' \<Longrightarrow> same_core m m''"
  by (auto simp: same_core_def)

lemma kept_refl [simp]: "kept m m"
  by (simp add: kept_def)

lemma kept_trans: "kept m m' \<Longrightarrow> kept m' m'' \<Longrightarrow> kept m m''"
  using same_core_trans by (auto simp: kept_def)

lemma kept_byte_at: "table_ok m \<Longrightarrow> kept m m' \<Longrightarrow> byte_at m' a = byte_at m a"
  using access_core [of m m'] by (simp add: kept_def byte_at_def)

lemma kept_table_ok: "table_ok m \<Longrightarrow> kept m m' \<Longrightarrow> table_ok m'"
  using same_core_table_ok by (auto simp: kept_def)

lemma registers_upd [simp]:
  "table_ok (m\<lparr>registers := regs\<rparr>) = table_ok m" "access (m\<lparr>registers := regs\<rparr>) = access m"
  by (auto simp: table_ok_def access_def vmap_def lookup_entry_def fun_eq_iff split: option.splits)

lemma read_byte:
  assumes "table_ok m" "byte_at m a = Some b"
  obtains m' where "ReadMem eh m a 1 = Some (Some (scast b), m')" "kept m m'"
proof -
  obtain p where p: "access m False a 1 = Some p" "b = mainMemory m p"
    using assms(2) by (auto simp: byte_at_def)
  show ?thesis
    using ReadMem_ok [OF assms(1) _ p(1), of eh] that p(2) by (auto simp: load_bytes_def kept_def)
qed

lemma le32_scast: "le32 (scast (b :: byte)) ! 0 = b"
proof -
  have "(ucast (scast b :: u32) :: byte) = b"
    by (rule bit_word_eqI) (auto simp: bit_simps)
  then show ?thesis by (simp add: le32_def)
qed

lemma length_put_int: "i + 4 \<le> length to \<Longrightarrow> length (overlay to i (le32 w)) = length to"
  by simp

lemma take_put_int: "i + 4 \<le> length to \<Longrightarrow> take (Suc i) (overlay to i (le32 (scast (b :: byte)))) = take i to @ [b]"
  using le32_scast [of b] by (simp add: overlay_def le32_def)

lemma put_int_nth: "i + 4 \<le> length to \<Longrightarrow> overlay to i (le32 (scast (b :: byte))) ! i = b"
  using le32_scast [of b] by (simp add: nth_overlay)

lemma copy_loop_string:
  assumes "table_ok m" "\<forall>j\<le>length s. byte_at m (from + of_nat (i + j)) = Some ((s @ [0]) ! j)" "0 \<notin> set s"
    "i + length s + 4 \<le> length to" "length s < n"
  shows "\<exists>to' m'. copy_loop n from i to m = Some (i + length s, to', m') \<and> take (i + length s) to' = take i to @ s
    \<and> length to' = length to \<and> kept m m'"
  using assms
proof (induction n arbitrary: s i to m)
  case 0
  then show ?case by simp
next
  case (Suc n)
  have "byte_at m (from + of_nat i) = Some ((s @ [0]) ! 0)"
    using Suc.prems(2) by (metis add_0_right le0)
  then obtain m1 where m1: "ReadMem fault_handler m (from + of_nat i) 1 = Some (Some (scast ((s @ [0]) ! 0)), m1)" "kept m m1"
    using read_byte [OF Suc.prems(1)] by blast
  have fit: "i + 4 \<le> length to" using Suc.prems(4) by simp
  define to1 where "to1 = overlay to i (le32 (scast ((s @ [0]) ! 0 :: byte)))"
  have to1: "put_int to i (scast ((s @ [0]) ! 0)) = Some to1" "to1 ! i = (s @ [0]) ! 0" "length to1 = length to"
      "take (Suc i) to1 = take i to @ [(s @ [0]) ! 0]"
    using fit put_int_nth [OF fit] take_put_int [OF fit] by (simp_all add: put_int_def to1_def)
  show ?case
  proof (cases s)
    case Nil
    have "take i to1 = take i to"
      using to1(4) fit by (metis append_eq_append_conv butlast_snoc butlast_take diff_Suc_1 to1(3) Suc_leI less_le_trans zero_less_numeral less_add_same_cancel1)
    then show ?thesis
      using m1 to1 fit Nil by (intro exI [of _ to1] exI [of _ m1]) simp
  next
    case (Cons b s')
    have b: "b \<noteq> 0" "0 \<notin> set s'" using Suc.prems(3) Cons by auto
    have t1: "table_ok m1" using kept_table_ok [OF Suc.prems(1) m1(2)] .
    have "byte_at m1 (from + of_nat (Suc i + j)) = Some ((s' @ [0]) ! j)" if "j \<le> length s'" for j
      using Suc.prems(2) [rule_format, of "Suc j"] that Cons kept_byte_at [OF Suc.prems(1) m1(2)] by (simp add: add.assoc)
    then obtain to' m' where r: "copy_loop n from (Suc i) to1 m1 = Some (Suc i + length s', to', m')"
        "take (Suc i + length s') to' = take (Suc i) to1 @ s'" "length to' = length to1" "kept m1 m'"
      using Suc.IH [OF t1, of s' "Suc i" to1] b(2) Suc.prems(4,5) Cons to1(3) by auto
    show ?thesis
      using m1 to1 fit Cons b(1) r kept_trans [OF m1(2) r(4)] by (intro exI [of _ to'] exI [of _ m']) simp
  qed
qed

lemma c_str_ends: "0 \<notin> set s \<Longrightarrow> c_str (s @ 0 # r) = s"
  by (induction s) auto

lemma copy_string:
  assumes "table_ok m" "string_at m from s" "length s + 4 \<le> length to" "length s < unat sz"
  shows "\<exists>to' m'. copyStringFromMachine from to sz m = Some (to', m') \<and> c_str to' = s
    \<and> take (length s + 1) to' = s @ [0] \<and> length to' = length to \<and> kept m m'"
proof -
  obtain to' m' where r: "copy_loop (unat sz) from 0 to m = Some (length s, to', m')" "take (length s) to' = s"
      "length to' = length to" "kept m m'"
    using copy_loop_string [OF assms(1), of s "from" 0 to "unat sz"] assms(2-4) by (auto simp: string_at_def)
  have l: "length s < length to'" using r(3) assms(3) by simp
  have t: "take (length s + 1) (to'[length s := 0]) = s @ [0]"
    using r(2) l by (simp add: take_Suc_conv_app_nth)
  have "c_str (to'[length s := 0]) = c_str ((s @ [0]) @ drop (length s + 1) (to'[length s := 0]))"
    using t by (metis append_take_drop_id)
  also have "\<dots> = s"
    using assms(2) c_str_ends [of s] by (simp add: string_at_def)
  finally show ?thesis
    using r l t by (simp add: copyStringFromMachine_def)
qed

lemma c_str_less: "0 \<in> set b \<Longrightarrow> length (c_str b) < length b"
  by (induction b) auto

text \<open>A copy that ends with its size.\<close>

lemma copy_loop_chars:
  assumes "table_ok m" "\<forall>j<length s. byte_at m (from + of_nat (i + j)) = Some (s ! j)" "0 \<notin> set s" "i + length s + 3 \<le> length to"
  shows "\<exists>to' m'. copy_loop (length s) from i to m = Some (i + length s, to', m') \<and> take (i + length s) to' = take i to @ s
    \<and> length to' = length to \<and> kept m m'"
  using assms
proof (induction s arbitrary: i to m)
  case Nil
  then show ?case by simp
next
  case (Cons b s)
  have "byte_at m (from + of_nat i) = Some b"
    using Cons.prems(2) by (metis add_0_right length_Cons nth_Cons_0 zero_less_Suc)
  then obtain m1 where m1: "ReadMem fault_handler m (from + of_nat i) 1 = Some (Some (scast b), m1)" "kept m m1"
    using read_byte [OF Cons.prems(1)] by blast
  have fit: "i + 4 \<le> length to" using Cons.prems(4) by simp
  define to1 where "to1 = overlay to i (le32 (scast b))"
  have to1: "put_int to i (scast b) = Some to1" "to1 ! i = b" "length to1 = length to" "take (Suc i) to1 = take i to @ [b]"
    using fit put_int_nth [OF fit] take_put_int [OF fit] by (simp_all add: put_int_def to1_def)
  have "byte_at m1 (from + of_nat (Suc i + j)) = Some (s ! j)" if "j < length s" for j
    using Cons.prems(2) [rule_format, of "Suc j"] that kept_byte_at [OF Cons.prems(1) m1(2)] by (simp add: add.assoc)
  then obtain to' m' where r: "copy_loop (length s) from (Suc i) to1 m1 = Some (Suc i + length s, to', m')"
      "take (Suc i + length s) to' = take (Suc i) to1 @ s" "length to' = length to1" "kept m1 m'"
    using Cons.IH [OF kept_table_ok [OF Cons.prems(1) m1(2)], of "Suc i" to1] Cons.prems(3,4) to1(3) by auto
  show ?case
    using m1 to1 fit Cons.prems(3) r kept_trans [OF m1(2) r(4)] by (intro exI [of _ to'] exI [of _ m']) simp
qed

text \<open>A string that does not end in time makes the copy leave the array.\<close>

lemma copy_loop_overflows:
  assumes "table_ok m" "\<forall>j. i + j + 3 \<le> length to \<longrightarrow> (\<exists>b. byte_at m (from + of_nat (i + j)) = Some b \<and> (i + j + 3 < length to \<longrightarrow> b \<noteq> 0))"
    "i + 3 \<le> length to" "length to < i + n + 3"
  shows "copy_loop n from i to m = None"
  using assms
proof (induction n arbitrary: i to m)
  case 0
  then show ?case by simp
next
  case (Suc n)
  obtain b where b: "byte_at m (from + of_nat i) = Some b" "i + 3 < length to \<longrightarrow> b \<noteq> 0"
    using Suc.prems(2) [rule_format, of 0] Suc.prems(3) by auto
  then obtain m1 where m1: "ReadMem fault_handler m (from + of_nat i) 1 = Some (Some (scast b), m1)" "kept m m1"
    using read_byte [OF Suc.prems(1)] by blast
  show ?case
  proof (cases "i + 4 \<le> length to")
    case False
    then show ?thesis using m1 by (simp add: put_int_def)
  next
    case True
    define to1 where "to1 = overlay to i (le32 (scast b))"
    have to1: "put_int to i (scast b) = Some to1" "to1 ! i = b" "length to1 = length to"
      using True put_int_nth [OF True] by (simp_all add: put_int_def to1_def)
    have "copy_loop n from (Suc i) to1 m1 = None"
    proof (rule Suc.IH)
      show "table_ok m1" using kept_table_ok [OF Suc.prems(1) m1(2)] .
      show "\<forall>j. Suc i + j + 3 \<le> length to1 \<longrightarrow>
          (\<exists>b. byte_at m1 (from + of_nat (Suc i + j)) = Some b \<and> (Suc i + j + 3 < length to1 \<longrightarrow> b \<noteq> 0))"
        using Suc.prems(2) [rule_format, of "Suc _"] kept_byte_at [OF Suc.prems(1) m1(2)] to1(3) by (simp add: add.assoc)
    qed (use Suc.prems True to1(3) in auto)
    then show ?thesis using m1 to1 b(2) True by simp
  qed
qed

subsection \<open>Copying to the program\<close>

text \<open>The addresses from \<open>a\<close> on that \<open>n\<close> characters are stored at can be written.\<close>

definition can_write :: "Machine \<Rightarrow> u32 \<Rightarrow> nat \<Rightarrow> bool" where
  "can_write m a n \<longleftrightarrow> (\<forall>i<n. access m True (a + of_nat i) 1 \<noteq> None)"

lemma can_write_core: "table_ok m \<Longrightarrow> same_core m m' \<Longrightarrow> can_write m' = can_write m"
  using access_core [of m m'] by (intro ext) (simp add: can_write_def)

lemma can_write_Suc: "can_write m a (Suc n) \<Longrightarrow> access m True a 1 \<noteq> None \<and> can_write m (a + 1) n"
proof -
  assume w: "can_write m a (Suc n)"
  have "access m True (a + of_nat 0) 1 \<noteq> None" using w unfolding can_write_def by blast
  moreover have "access m True (a + 1 + of_nat i) 1 \<noteq> None" if "i < n" for i
    using w that unfolding can_write_def by (metis Suc_less_eq add.assoc of_nat_Suc)
  ultimately show ?thesis by (simp add: can_write_def)
qed

lemma write_loop_ok:
  assumes "table_ok m" "0 \<in> set buf" "can_write m a (Suc (length (c_str buf)))"
  shows "\<exists>m'. write_loop buf a m = Some m' \<and> same_core m m' \<and> registers m' = registers m"
  using assms
proof (induction buf arbitrary: a m)
  case (Cons c cs)
  have "access m True a 1 \<noteq> None"
    using can_write_Suc [OF Cons.prems(3)] by blast
  then obtain p where "access m True a 1 = Some p" by blast
  then obtain m1 where m1: "WriteMem fault_handler m a 1 (scast c) = Some (True, m1)" "same_core m m1" "registers m1 = registers m"
    using WriteMem_ok [OF Cons.prems(1)] by (metis insertI1)
  show ?case
  proof (cases "c = 0")
    case True
    then show ?thesis using m1 by auto
  next
    case False
    then have "can_write m1 (a + 1) (Suc (length (c_str cs)))"
      using can_write_Suc [of m a "Suc (length (c_str cs))"] Cons.prems(1,3) can_write_core [OF _ m1(2)] by simp
    moreover have "table_ok m1" "0 \<in> set cs"
      using same_core_table_ok [OF m1(2) Cons.prems(1)] Cons.prems(2) False by auto
    ultimately obtain m' where "write_loop cs (a + 1) m1 = Some m'" "same_core m1 m'" "registers m' = registers m1"
      using Cons.IH by blast
    then show ?thesis using False m1 same_core_trans [OF m1(2)] by auto
  qed
qed simp


section \<open>The kernel routines as services\<close>

text \<open>
  \<open>drive sv\<close> carries out a run: \<open>sv\<close> serves its requests on the rest \<open>s\<close> of the kernel state, \<open>None\<close> when a routine does not
  return. What \<open>ExceptionHandler\<close> relies on: answers of the right kind, registers that are the same when the thread
  runs again, and memory that stays mapped.
\<close>

primrec drive :: "(request \<Rightarrow> Machine \<Rightarrow> 's \<Rightarrow> (reply \<times> Machine \<times> 's) option) \<Rightarrow> run \<Rightarrow> 's \<Rightarrow> (Machine \<times> 's) option" where
  "drive sv Stuck = (\<lambda>s. None)"
| "drive sv (Back m) = (\<lambda>s. Some (m, s))"
| "drive sv (Call r m k) = (\<lambda>s. case sv r m s of None \<Rightarrow> None | Some (a, m', s') \<Rightarrow> drive sv (k a m') s')"

fun silent :: "request \<Rightarrow> bool" where
  "silent Do_Halt = True"
| "silent Do_synchThreadsMainExit = True"
| "silent Do_UserThreadExit = True"
| "silent Do_endProcess = True"
| "silent (Do_SeekUser fd n) = True"
| "silent Do_List = True"
| "silent (Do_UserThreadJoin u) = True"
| "silent (Do_ProcessJoin p) = True"
| "silent (Do_SemPost i) = True"
| "silent (Do_SemWait i) = True"
| "silent (Do_SemDestroy i) = True"
| "silent Do_startFTPserver = True"
| "silent (Do_console c) = (output_of c \<noteq> None)"
| "silent _ = False"

definition fits :: "request \<Rightarrow> reply \<Rightarrow> bool" where
  "fits r a \<longleftrightarrow> (case r of
       Do_ReadUser sz fd \<Rightarrow> (case a of Num_chars w bs \<Rightarrow> int (length bs) \<le> max 0 sz | _ \<Rightarrow> False)
     | Do_console c \<Rightarrow> if output_of c = None then (case a of Chars bs \<Rightarrow> answer_ok c bs | _ \<Rightarrow> False) else a = No_reply
     | _ \<Rightarrow> if silent r then a = No_reply else (case a of Num w \<Rightarrow> True | _ \<Rightarrow> False))"

text \<open>What a system call leaves in register 2, which had the value \<open>old\<close>.\<close>

definition result_of :: "request \<Rightarrow> reply \<Rightarrow> u32 \<Rightarrow> u32" where
  "result_of r a old = (case a of
       No_reply \<Rightarrow> old
     | Num w \<Rightarrow> (case r of Do_SemInit v \<Rightarrow> old | _ \<Rightarrow> w)
     | Num_chars w bs \<Rightarrow> w
     | Chars bs \<Rightarrow> if r = Do_console SynchGetChar then scast (bs ! 0) else old)"

definition after_syscall :: "u32 list \<Rightarrow> u32 \<Rightarrow> u32 list" where
  "after_syscall regs x = regs[2 := x, PrevPCReg := regs ! PCReg, PCReg := regs ! NextPCReg, NextPCReg := regs ! NextPCReg + 4]"

definition completes :: "(request \<Rightarrow> Machine \<Rightarrow> 's \<Rightarrow> (reply \<times> Machine \<times> 's) option) \<Rightarrow> Machine \<Rightarrow> 's \<Rightarrow> run \<Rightarrow> bool" where
  "completes sv m s run = (case run of
       Stuck \<Rightarrow> False
     | Back m' \<Rightarrow> registers m' = after_syscall (registers m) (reg m 2)
     | Call r m1 k \<Rightarrow> (case sv r m1 s of
           None \<Rightarrow> True
         | Some (a, m2, s2) \<Rightarrow> \<exists>m'. drive sv (k a m2) s2 = Some (m', s2)
             \<and> registers m' = after_syscall (registers m) (result_of r a (reg m 2))))"

lemma ReadRegister_ok: "0 \<le> r \<Longrightarrow> r < 40 \<Longrightarrow> ReadRegister m r = Some (reg m (nat r))"
  by (simp add: ReadRegister_def)

lemma int_reg_ok: "0 \<le> r \<Longrightarrow> r < 40 \<Longrightarrow> int_reg m r = Some (sint (reg m (nat r)))"
  by (simp add: int_reg_def ReadRegister_ok)

lemma UpdatePC_eq: "length (registers m) = 40 \<Longrightarrow> UpdatePC m = Some (m\<lparr>registers := after_syscall (registers m) (reg m 2)\<rparr>)"
  by (simp add: UpdatePC_def ReadRegister_def WriteRegister_def after_syscall_def)

lemma need_Some [simp]: "need (Some x) f = f x"
  by (simp add: need_def)

lemma finish_eq: "length (registers m) = 40 \<Longrightarrow> finish m = Back (m\<lparr>registers := after_syscall (registers m) (reg m 2)\<rparr>)"
  by (simp add: finish_def UpdatePC_eq)

lemma after_r2: "after_syscall (regs[2 := x]) x = after_syscall regs x" "length regs = 40 \<Longrightarrow> after_syscall (regs[2 := x]) (regs[2 := x] ! 2) = after_syscall regs x"
  by (simp_all add: after_syscall_def)

lemma write_r2: "length (registers m) = 40 \<Longrightarrow>
    need (WriteRegister m 2 x) finish = Back (m\<lparr>registers := after_syscall (registers m) x\<rparr>)"
  by (simp add: WriteRegister_def finish_eq after_r2)

text \<open>The arguments of a system call: strings end within the array they are copied to, and addresses are mapped.\<close>

definition string_arg :: "Machine \<Rightarrow> u32 \<Rightarrow> bool" where
  "string_arg m a \<longleftrightarrow> (\<exists>s. string_at m a s \<and> length s \<le> 252)"

definition chars_arg :: "Machine \<Rightarrow> u32 \<Rightarrow> u32 \<Rightarrow> bool" where
  "chars_arg m a sz \<longleftrightarrow> 0 \<le> sint sz \<and> sint sz \<le> 252 \<and>
     (\<exists>s. string_at m a s \<and> length s < unat sz \<or> length s = unat sz \<and> 0 \<notin> set s \<and> (\<forall>i<length s. byte_at m (a + of_nat i) = Some (s ! i)))"

definition args_ok :: "Locals \<Rightarrow> Machine \<Rightarrow> bool" where
  "args_ok l m \<longleftrightarrow> length (put_str l) = 256 \<and> length (get_str l) = 256
     \<and> (reg m 2 \<in> {4, 5, 7, 24, 26, 27, 29, 30} \<longrightarrow> string_arg m (reg m 4))
     \<and> (reg m 2 \<in> {35, 36} \<longrightarrow> string_arg m (reg m 5))
     \<and> (reg m 2 = 6 \<longrightarrow> sint (reg m 5) < 256 \<and> 0 \<in> set (drop (nat (sint (reg m 5))) (get_str l)) \<and> can_write m (reg m 4) 256)
     \<and> (reg m 2 = 12 \<longrightarrow> chars_arg m (reg m 4) (reg m 5))
     \<and> (reg m 2 = 14 \<longrightarrow> sint (reg m 5) < 256 \<and> can_write m (reg m 4) (Suc (nat (sint (reg m 5)))))
     \<and> (reg m 2 = 20 \<longrightarrow> access m True (reg m 4) 4 \<noteq> None)
     \<and> (reg m 2 \<in> {21, 22, 23} \<longrightarrow> access m False (reg m 4) 4 \<noteq> None)"

lemma completes_Back: "completes sv m s (Back m') \<longleftrightarrow> registers m' = after_syscall (registers m) (reg m 2)"
  by (simp add: completes_def)

locale kernel_services =
  fixes sv :: "request \<Rightarrow> Machine \<Rightarrow> 's \<Rightarrow> (reply \<times> Machine \<times> 's) option"
  assumes sv_fits: "sv r m s = Some (a, m', s') \<Longrightarrow> fits r a"
    and sv_registers: "sv r m s = Some (a, m', s') \<Longrightarrow> registers m' = registers m"
    and sv_table: "table_ok m \<Longrightarrow> sv r m s = Some (a, m', s') \<Longrightarrow> table_ok m'"
    and sv_access: "table_ok m \<Longrightarrow> sv r m s = Some (a, m', s') \<Longrightarrow> access m w ad sz \<noteq> None \<Longrightarrow> access m' w ad sz \<noteq> None"
begin

lemma completes_Call:
  assumes "registers m1 = registers m" "\<And>a m2 s2. sv r m1 s = Some (a, m2, s2) \<Longrightarrow> fits r a \<Longrightarrow> registers m2 = registers m \<Longrightarrow>
      \<exists>m'. k a m2 = Back m' \<and> registers m' = after_syscall (registers m) (result_of r a (reg m 2))"
  shows "completes sv m s (Call r m1 k)"
proof (cases "sv r m1 s")
  case (Some x)
  then obtain a m2 s2 where x: "sv r m1 s = Some (a, m2, s2)" by (cases x) auto
  then obtain m' where "k a m2 = Back m'" "registers m' = after_syscall (registers m) (result_of r a (reg m 2))"
    using assms sv_fits [OF x] sv_registers [OF x] by metis
  then show ?thesis using x by (simp add: completes_def)
qed (simp add: completes_def)

lemma completes_to_r2:
  assumes "registers m1 = registers m" "length (registers m) = 40" "\<not> silent r" "\<And>sz fd. r \<noteq> Do_ReadUser sz fd"
    "\<And>c. r \<noteq> Do_console c" "\<And>v. r \<noteq> Do_SemInit v"
  shows "completes sv m s (to_r2 r m1)"
  unfolding to_r2_def
proof (rule completes_Call [OF assms(1)])
  fix a and m2 :: Machine
  assume a: "fits r a" "registers m2 = registers m"
  then obtain w where w: "a = Num w"
    using assms(3-5) by (cases r; cases a) (auto simp: fits_def)
  then have "result_of r a (reg m 2) = w"
    using assms(6) by (cases r) (auto simp: result_of_def)
  then show "\<exists>m'. need (num a) (\<lambda>w. need (WriteRegister m2 2 w) finish) = Back m'
      \<and> registers m' = after_syscall (registers m) (result_of r a (reg m 2))"
    using w a(2) assms(2) by (simp add: write_r2)
qed

lemma completes_no_result:
  assumes "registers m1 = registers m" "length (registers m) = 40" "silent r"
  shows "completes sv m s (no_result r m1)"
  unfolding no_result_def
proof (rule completes_Call [OF assms(1)])
  fix a and m2 :: Machine
  assume a: "fits r a" "registers m2 = registers m"
  then have "a = No_reply"
    using assms(3) by (cases r) (auto simp: fits_def)
  then have "result_of r a (reg m 2) = reg m 2"
    by (simp add: result_of_def)
  then show "\<exists>m'. finish m2 = Back m' \<and> registers m' = after_syscall (registers m) (result_of r a (reg m 2))"
    using a(2) assms(2) by (simp add: finish_eq)
qed


lemma completes_with_string:
  assumes "table_ok m" "string_arg m (reg m (nat r))" "length (put_str l) = 256" "0 \<le> r" "r < 40"
    "\<And>s1 m1. registers m1 = registers m \<Longrightarrow> completes sv m s (f s1 m1)"
  shows "completes sv m s (with_string l r m f)"
proof -
  obtain w where w: "string_at m (reg m (nat r)) w" "length w \<le> 252"
    using assms(2) by (auto simp: string_arg_def)
  then obtain to' m1 where "copyStringFromMachine (reg m (nat r)) (put_str l) 256 m = Some (to', m1)" "kept m m1"
    using copy_string [OF assms(1) w(1), of "put_str l" 256] assms(3) by auto
  then show ?thesis
    using assms(4-6) by (simp add: with_string_def ReadRegister_ok kept_def)
qed

lemma completes_read:
  assumes "table_ok m" "length (registers m) = 40" "length (get_str l) = 256" "sint (reg m 5) < 256"
    "0 \<in> set (drop (nat (sint (reg m 5))) (get_str l))" "can_write m (reg m 4) 256"
  shows "completes sv m s (sys_read l m)"
  unfolding sys_read_def
proof (simp add: ReadRegister_ok int_reg_ok, rule completes_Call [OF refl])
  fix a s2 and m2 :: Machine
  assume c: "sv (Do_ReadUser (sint (reg m 5)) (sint (reg m 6))) m s = Some (a, m2, s2)"
    and f: "fits (Do_ReadUser (sint (reg m 5)) (sint (reg m 6))) a" and r: "registers m2 = registers m"
  obtain w bs where a: "a = Num_chars w bs" "int (length bs) \<le> max 0 (sint (reg m 5))"
    using f by (cases a) (auto simp: fits_def)
  let ?m = "m2\<lparr>registers := (registers m)[2 := w]\<rparr>"
  let ?buf = "overlay (get_str l) 0 bs"
  have lb: "length bs \<le> nat (sint (reg m 5))" using a(2) by linarith
  have le: "length bs \<le> length (get_str l)" using lb assms(3,4) by linarith
  have t: "table_ok ?m"
    using sv_table [OF assms(1) c] by simp
  have z: "0 \<in> set ?buf"
    using assms(5) set_drop_subset_set_drop [OF lb, of "get_str l"] by (auto simp: overlay_def)
  have "length (c_str ?buf) < length ?buf"
    by (rule c_str_less [OF z])
  then have n: "Suc (length (c_str ?buf)) \<le> 256"
    using le assms(3) by simp
  have "can_write ?m (reg m 4) (Suc (length (c_str ?buf)))"
    using assms(6) n sv_access [OF assms(1) c] by (simp add: can_write_def)
  then obtain m3 where m3: "write_loop ?buf (reg m 4) ?m = Some m3" "registers m3 = (registers m)[2 := w]"
    using write_loop_ok [OF t z] by auto
  show "\<exists>m'. (case a of Num_chars w bs \<Rightarrow>
        if length bs \<le> length (get_str l)
        then need (WriteRegister m2 2 w) (\<lambda>m'. need (write_loop (overlay (get_str l) 0 bs) (reg m 4) m') finish) else Stuck
      | _ \<Rightarrow> Stuck) = Back m' \<and> registers m' = after_syscall (registers m) (result_of (Do_ReadUser (sint (reg m 5)) (sint (reg m 6))) a (reg m 2))"
    using a(1) le m3 r assms(2) by (simp add: WriteRegister_def finish_eq after_r2 result_of_def)
qed


lemma completes_getstring:
  assumes "table_ok m" "length (registers m) = 40" "length (get_str l) = 256" "sint (reg m 5) < 256"
    "can_write m (reg m 4) (Suc (nat (sint (reg m 5))))"
  shows "completes sv m s (sys_getstring l m)"
  unfolding sys_getstring_def
proof (simp add: ReadRegister_ok int_reg_ok, rule completes_Call [OF refl])
  fix a s2 and m2 :: Machine
  assume c: "sv (Do_console (SynchGetString (sint (reg m 5)))) m s = Some (a, m2, s2)"
    and f: "fits (Do_console (SynchGetString (sint (reg m 5)))) a" and r: "registers m2 = registers m"
  obtain bs where a: "a = Chars bs" "int (length bs) \<le> max 0 (sint (reg m 5))"
    using f by (cases a) (auto simp: fits_def)
  let ?buf = "overlay (get_str l) 0 (bs @ [0])"
  have lb: "length bs \<le> nat (sint (reg m 5))" using a(2) by linarith
  have le: "length bs < length (get_str l)" using lb assms(3,4) by linarith
  have z: "0 \<in> set ?buf" by (simp add: overlay_def)
  have "length (c_str ?buf) \<le> length bs"
    using length_takeWhile_le [of "\<lambda>x. x \<noteq> 0" bs] by (auto simp: overlay_def c_str_def takeWhile_append)
  then have "can_write m2 (reg m 4) (Suc (length (c_str ?buf)))"
    using assms(5) lb sv_access [OF assms(1) c] by (simp add: can_write_def)
  then obtain m3 where m3: "write_loop ?buf (reg m 4) m2 = Some m3" "registers m3 = registers m"
    using write_loop_ok [OF sv_table [OF assms(1) c] z] r by auto
  show "\<exists>m'. need (got_string (get_str l) a) (\<lambda>s. need (write_loop s (reg m 4) m2) finish) = Back m'
      \<and> registers m' = after_syscall (registers m) (result_of (Do_console (SynchGetString (sint (reg m 5)))) a (reg m 2))"
    using a(1) le m3 assms(2) by (simp add: got_string_def finish_eq result_of_def)
qed

lemma completes_getchar:
  assumes "length (registers m) = 40"
  shows "completes sv m s (sys_getchar m)"
  unfolding sys_getchar_def
proof (rule completes_Call [OF refl])
  fix a and m2 :: Machine
  assume f: "fits (Do_console SynchGetChar) a" and r: "registers m2 = registers m"
  then obtain ch where "a = Chars [ch]"
    by (cases a) (auto simp: fits_def length_Suc_conv)
  then show "\<exists>m'. (case a of Chars [ch] \<Rightarrow> need (WriteRegister m2 2 (scast ch)) finish | _ \<Rightarrow> Stuck) = Back m'
      \<and> registers m' = after_syscall (registers m) (result_of (Do_console SynchGetChar) a (reg m 2))"
    using r assms by (simp add: write_r2 result_of_def)
qed

lemma completes_seminit:
  assumes "table_ok m" "length (registers m) = 40" "access m True (reg m 4) 4 \<noteq> None"
  shows "completes sv m s (sys_seminit m)"
  unfolding sys_seminit_def
proof (simp add: ReadRegister_ok int_reg_ok, rule completes_Call [OF refl])
  fix a s2 and m2 :: Machine
  assume c: "sv (Do_SemInit (sint (reg m 5))) m s = Some (a, m2, s2)"
    and f: "fits (Do_SemInit (sint (reg m 5))) a" and r: "registers m2 = registers m"
  obtain w where a: "a = Num w" using f by (cases a) (auto simp: fits_def)
  obtain p where "access m2 True (reg m 4) 4 = Some p"
    using sv_access [OF assms(1) c assms(3)] by blast
  then obtain m3 where "WriteMem fault_handler m2 (reg m 4) 4 w = Some (True, m3)" "registers m3 = registers m"
    using WriteMem_ok [OF sv_table [OF assms(1) c], of 4 "reg m 4" p fault_handler w] r by auto
  then show "\<exists>m'. need (num a) (\<lambda>w. need (WriteMem fault_handler m2 (reg m 4) 4 w) (\<lambda>(_, m). finish m)) = Back m'
      \<and> registers m' = after_syscall (registers m) (result_of (Do_SemInit (sint (reg m 5))) a (reg m 2))"
    using a assms(2) by (simp add: finish_eq result_of_def)
qed

lemma completes_with_sem:
  assumes "table_ok m" "length (registers m) = 40" "access m False (reg m 4) 4 \<noteq> None" "\<And>i. silent (f i)"
  shows "completes sv m s (with_sem l m f)"
proof -
  obtain p where "access m False (reg m 4) 4 = Some p" using assms(3) by blast
  then obtain x m1 where "ReadMem fault_handler m (reg m 4) 4 = Some (Some x, m1)" "registers m1 = registers m"
    using ReadMem_ok [OF assms(1), of 4 "reg m 4" p fault_handler] by auto
  then show ?thesis
    using completes_no_result [of m1 m "f (sint x)" s] assms(2,4) by (simp add: with_sem_def ReadRegister_ok)
qed

lemma completes_putstring:
  assumes "table_ok m" "length (registers m) = 40" "length (put_str l) = 256" "chars_arg m (reg m 4) (reg m 5)"
  shows "completes sv m s (sys_putstring l m)"
proof -
  let ?sz = "reg m 5"
  have sz: "0 \<le> sint ?sz" "sint ?sz \<le> 252" using assms(4) by (simp_all add: chars_arg_def)
  have "unat ?sz = nat (sint ?sz)"
    using sz(1) sint_cases [of ?sz] uint_lt2p [of ?sz] by (auto split: if_splits)
  then have u: "unat ?sz \<le> 252" using sz by linarith
  obtain w where "string_at m (reg m 4) w \<and> length w < unat ?sz
      \<or> length w = unat ?sz \<and> 0 \<notin> set w \<and> (\<forall>i<length w. byte_at m (reg m 4 + of_nat i) = Some (w ! i))"
    using assms(4) by (auto simp: chars_arg_def)
  then have "\<exists>to' m1. copyStringFromMachine (reg m 4) (put_str l) ?sz m = Some (to', m1) \<and> kept m m1"
  proof
    assume "string_at m (reg m 4) w \<and> length w < unat ?sz"
    then show ?thesis using copy_string [OF assms(1), of "reg m 4" w "put_str l" ?sz] u assms(3) by auto
  next
    assume w: "length w = unat ?sz \<and> 0 \<notin> set w \<and> (\<forall>i<length w. byte_at m (reg m 4 + of_nat i) = Some (w ! i))"
    then obtain to' m' where "copy_loop (unat ?sz) (reg m 4) 0 (put_str l) m = Some (unat ?sz, to', m')" "length to' = 256" "kept m m'"
      using copy_loop_chars [OF assms(1), of w "reg m 4" 0 "put_str l"] u assms(3) by auto
    then show ?thesis using u by (simp add: copyStringFromMachine_def)
  qed
  then obtain to' m1 where "copyStringFromMachine (reg m 4) (put_str l) ?sz m = Some (to', m1)" "kept m m1"
    by blast
  then show ?thesis
    using completes_no_result [of m1 m "Do_console (SynchPutString to')" s] assms(2) sz
    by (simp add: sys_putstring_def ReadRegister_ok kept_def)
qed


lemma completes_files:
  assumes "table_ok m" "length (registers m) = 40" "args_ok l m" "sys_files l (reg m 2) m = Some r"
  shows "completes sv m s r"
proof -
  note A = assms(3) [unfolded args_ok_def]
  have st: "completes sv m s (with_string l 4 m (\<lambda>w. to_r2 (f w)))"
    if "reg m 2 \<in> {4, 5, 7, 24, 26, 27, 29, 30}"
      "\<And>w. \<not> silent (f w)" "\<And>w sz fd. f w \<noteq> Do_ReadUser sz fd" "\<And>w c. f w \<noteq> Do_console c" "\<And>w v. f w \<noteq> Do_SemInit v" for f
    by (rule completes_with_string [OF assms(1)]) (use A that completes_to_r2 [OF _ assms(2)] in auto)
  show ?thesis
    using assms(4) A st completes_read [OF assms(1,2)] completes_to_r2 [OF refl assms(2)] completes_no_result [OF refl assms(2)]
    by (auto simp: sys_files_def sys_write_def sys_seek_def int_reg_ok split: if_splits)
qed


lemma completes_console:
  assumes "table_ok m" "length (registers m) = 40" "args_ok l m" "reg m 2 \<noteq> 16" "sys_console l (reg m 2) m = Some r"
  shows "completes sv m s r"
  using assms(5) assms(3) [unfolded args_ok_def] assms(4) completes_putstring [OF assms(1,2)] completes_getchar [OF assms(2)]
    completes_getstring [OF assms(1,2)] completes_no_result [OF refl assms(2)]
  by (auto simp: sys_console_def sys_putint_def int_reg_ok ReadRegister_ok split: if_splits)

lemma completes_threads:
  assumes "table_ok m" "length (registers m) = 40" "args_ok l m" "sys_threads l (reg m 2) m = Some r"
  shows "completes sv m s r"
proof -
  note A = assms(3) [unfolded args_ok_def]
  have "completes sv m s (with_string l 4 m (\<lambda>w. to_r2 (Do_ForkExec (c_str w))))" if "reg m 2 = 24"
    by (rule completes_with_string [OF assms(1)]) (use A that completes_to_r2 [OF _ assms(2)] in auto)
  then show ?thesis
    using assms(4) A completes_to_r2 [OF refl assms(2)] completes_no_result [OF refl assms(2)] completes_seminit [OF assms(1,2)]
      completes_with_sem [OF assms(1,2)]
    by (auto simp: sys_threads_def sys_threadcreate_def int_reg_ok ReadRegister_ok split: if_splits)
qed

lemma completes_network:
  assumes "table_ok m" "length (registers m) = 40" "args_ok l m" "reg m 2 \<noteq> 32" "sys_network l (reg m 2) m = Some r"
  shows "completes sv m s r"
proof -
  note A = assms(3) [unfolded args_ok_def]
  have "completes sv m s (with_string l 5 m (\<lambda>w. to_r2 (Do_FTPClientAction (sint (reg m 4)) c (c_str w))))" if "reg m 2 \<in> {35, 36}" for c
    by (rule completes_with_string [OF assms(1)]) (use A that completes_to_r2 [OF _ assms(2)] in auto)
  then show ?thesis
    using assms(4,5) completes_to_r2 [OF refl assms(2)] completes_no_result [OF refl assms(2)]
    by (auto simp: sys_network_def sys_ftp_def int_reg_ok split: if_splits)
qed

lemma first_some_cases:
  "first_some xs d = d \<or> (\<exists>x. Some x \<in> set xs \<and> first_some xs d = x)"
  by (induction xs d rule: first_some.induct) auto

lemma syscall_contract:
  assumes "table_ok m" "length (registers m) = 40" "args_ok l m" "reg m 2 \<notin> {1, 16, 18, 32}"
  shows "completes sv m s (ExceptionHandler l SyscallException m)"
proof (cases "reg m 2 = 0")
  case True
  then show ?thesis
    using completes_no_result [OF refl assms(2), of Do_Halt] by (simp add: ExceptionHandler_def ReadRegister_ok)
next
  case False
  let ?xs = "[sys_files l (reg m 2) m, sys_console l (reg m 2) m, sys_threads l (reg m 2) m, sys_network l (reg m 2) m]"
  have e: "ExceptionHandler l SyscallException m = first_some ?xs (finish m)"
    using False assms(4) by (simp add: ExceptionHandler_def ReadRegister_ok)
  have "completes sv m s r" if "Some r \<in> set ?xs" for r
    using that assms(4) completes_files [OF assms(1-3)] completes_console [OF assms(1-3)] completes_threads [OF assms(1-3)]
      completes_network [OF assms(1-3)] by auto
  moreover have "completes sv m s (finish m)"
    using assms(2) by (simp add: finish_eq completes_Back)
  ultimately show ?thesis
    unfolding e using first_some_cases [of ?xs "finish m"] by metis
qed

end


section \<open>Decimal numbers\<close>

lemma digit_value: "d < 10 \<Longrightarrow> unat (of_nat (48 + d) :: byte) = 48 + d"
  by (simp add: unat_of_nat take_bit_eq_mod del: of_nat_add)

lemma is_digit_of: "d < 10 \<Longrightarrow> is_digit (of_nat (48 + d))"
  using digit_value [of d] by (simp add: is_digit_def word_le_nat_alt del: of_nat_add)

lemma digits_value_snoc: "digits_value (cs @ [c]) = 10 * digits_value cs + (int (unat c) - 48)"
  by (simp add: digits_value_def)

lemma nat_digits_ok: "digits_value (nat_digits n) = int n \<and> (\<forall>c\<in>set (nat_digits n). is_digit c) \<and> nat_digits n \<noteq> []"
proof (induction n rule: nat_digits.induct)
  case (1 n)
  show ?case
  proof (cases "n < 10")
    case True
    then have "nat_digits n = [of_nat (48 + n)]" by (simp add: nat_digits.simps)
    moreover have "digits_value [of_nat (48 + n)] = int n"
      using digits_value_snoc [of "[]" "of_nat (48 + n)"] unfolding digit_value [OF True] by (simp add: digits_value_def)
    ultimately show ?thesis
      using is_digit_of [OF True] by (simp del: of_nat_add)
  next
    case False
    then have e: "nat_digits n = nat_digits (n div 10) @ [of_nat (48 + n mod 10)]"
      by (subst nat_digits.simps) simp
    have m: "n mod 10 < 10" by simp
    have "digits_value (nat_digits n) = 10 * int (n div 10) + int (n mod 10)"
      unfolding e digits_value_snoc digit_value [OF m] using 1 False by simp
    also have "\<dots> = int n" by (simp add: zdiv_int zmod_int)
    finally show ?thesis
      using 1 False is_digit_of [OF m] unfolding e by auto
  qed
qed

lemma digit_chars: "is_digit c \<Longrightarrow> c \<noteq> 0 \<and> c \<noteq> 45 \<and> c \<noteq> 43 \<and> \<not> is_space c"
  by (auto simp: is_digit_def is_space_def word_le_nat_alt)


text \<open>
  A number that a program prints with \<open>PutInt\<close> reads back: \<open>sscanf(.., "%d", ..)\<close> of the characters that
  \<open>snprintf(.., "%d", ..)\<close> makes of an \<open>int\<close>, with the newline that ends a line of input, gives this \<open>int\<close>.
\<close>

lemma int_text_roundtrip:
  assumes "is_int32 v"
  shows "scan_int (print_int v @ [newline, 0]) = Some (Some v)" "0 \<notin> set (print_int v)" "newline \<notin> set (print_int v)"
proof -
  define ds where "ds = nat_digits (nat \<bar>v\<bar>)"
  have d: "digits_value ds = \<bar>v\<bar>" "\<forall>c\<in>set ds. is_digit c" "ds \<noteq> []"
    using nat_digits_ok [of "nat \<bar>v\<bar>"] by (simp_all add: ds_def)
  have p: "print_int v = (if v < 0 then 45 # ds else ds)"
    by (auto simp: print_int_def ds_def)
  have nl: "\<not> is_digit newline" "\<not> is_digit 0" "\<not> is_space 45"
    by (simp_all add: is_digit_def is_space_def)
  have z: "0 \<notin> set ds" "newline \<notin> set ds"
    using d(2) nl by auto
  then show "0 \<notin> set (print_int v)" "newline \<notin> set (print_int v)"
    by (auto simp: p)
  have c: "c_str (print_int v @ [newline, 0]) = print_int v @ [newline]"
    using c_str_ends [of "print_int v @ [newline]" "[]"] z by (simp add: p)
  have t: "takeWhile is_digit (ds @ [newline]) = ds"
    using d(2) nl(1) by (simp add: takeWhile_append)
  obtain c0 cs where cs: "ds = c0 # cs" "is_digit c0"
    using d(2,3) by (cases ds) auto
  have h: "\<not> is_space c0" "c0 \<noteq> 45" "c0 \<noteq> 43"
    using digit_chars [OF cs(2)] by simp_all
  show "scan_int (print_int v @ [newline, 0]) = Some (Some v)"
  proof (cases "v < 0")
    case True
    then show ?thesis
      using d(1,3) t nl(3) assms unfolding scan_int_def c by (simp add: p)
  next
    case False
    then show ?thesis
      using d(1) t h assms unfolding scan_int_def c by (simp add: p cs(1))
  qed
qed

section \<open>Bad arguments\<close>

lemma Translate_not_syscall: "Translate m a sz w = Some (Inl e, m') \<Longrightarrow> e \<noteq> SyscallException"
  by (auto simp: Translate_def lookup_entry_def ASSERT_def Let_def split: if_splits option.splits sum.splits Option.bind_splits)

lemma read_fault:
  assumes "table_ok m" "length (registers m) = 40" "reg m LoadReg = 0" "access m False a 1 = None"
  obtains m' where "ReadMem fault_handler m a 1 = Some (None, m')" "length (registers m') = 40"
    "reg m' 2 = reg m 2" "reg m' PCReg = reg m NextPCReg" "reg m' NextPCReg = reg m NextPCReg + 4"
proof -
  obtain e where e: "Translate m a 1 False = Some (Inl e, m)"
    using Translate_access [OF assms(1), where sz = 1 and w = False and a = a] assms(4) by auto
  define m1 where "m1 = m\<lparr>registers := (registers m)[BadVAddrReg := a, 0 := 0, LoadReg := 0, LoadValueReg := 0], status := SystemMode\<rparr>"
  have "DelayedLoad (set_reg m BadVAddrReg a) 0 0 = Some (m1\<lparr>status := status m\<rparr>)"
    using assms(2,3) by (simp add: DelayedLoad_def set_reg_def m1_def list_update_swap)
  then have "RaiseException fault_handler m e a = do { m \<leftarrow> fault_handler e m1; Some (m\<lparr>status := UserMode\<rparr>) }"
    by (simp add: RaiseException_def m1_def)
  moreover have "fault_handler e m1 = Some (m1\<lparr>registers := after_syscall (registers m1) (reg m1 2)\<rparr>)"
    using Translate_not_syscall [OF e] assms(2) by (simp add: fault_handler_def ReadRegister_ok UpdatePC_eq m1_def)
  ultimately have r: "ReadMem fault_handler m a 1 = Some (None, m1\<lparr>registers := after_syscall (registers m1) (reg m1 2), status := UserMode\<rparr>)"
    using e by (simp add: ReadMem_def)
  show ?thesis
    by (rule that [OF r]) (use assms(2) in \<open>simp_all add: after_syscall_def m1_def\<close>)
qed

lemma copy_first_fault:
  assumes "ReadMem fault_handler m from 1 = Some (None, m1)" "length to = 256" "to ! 0 = 0"
  shows "copyStringFromMachine from to 256 m = Some (to[0 := 0], m1)"
proof -
  have "copy_loop (Suc 255) from 0 to m = Some (0, to, m1)"
    unfolding copy_loop.simps using assms by (simp, cases to) simp_all
  then have "copy_loop (unat (256 :: u32)) from 0 to m = Some (0, to, m1)" by simp
  then show ?thesis unfolding copyStringFromMachine_def using assms(2) by (simp, cases to) simp_all
qed


text \<open>A machine with one page, as after the instruction \<open>syscall\<close> has trapped.\<close>

definition demo_user :: Machine where
  "demo_user = (Machine_new 1 False)\<lparr>pageTable := Some [new_entry 0 0], registers := (replicate 40 0)[2 := 4, 4 := 0x1000, PCReg := 16, NextPCReg := 20]\<rparr>"

definition demo_locals :: Locals where
  "demo_locals = \<lparr>put_str = replicate 256 0, get_str = replicate 256 0, semId = 0, val = 0, cur_isMain = True, cur_tid = 0\<rparr>"

definition refuse :: "request \<Rightarrow> Machine \<Rightarrow> unit \<Rightarrow> (reply \<times> Machine \<times> unit) option" where
  "refuse r m s = (case r of Do_Create nm \<Rightarrow> Some (Num 0, m, s) | _ \<Rightarrow> None)"

lemma refuse_services: "kernel_services refuse"
  by unfold_locales (auto simp: refuse_def fits_def split: request.splits)


text \<open>
  C39. A string argument that is too long makes the kernel write past its array \<open>put_str\<close>: each character is stored as
  an \<open>int\<close> of four bytes, so that already the 254th one is not inside the 256 bytes any more.
\<close>

theorem long_string_overflows:
  assumes "table_ok m" "length to = MAX_STRING_SIZE"
    and "\<forall>i<253. \<exists>b. byte_at m (from + of_nat i) = Some b \<and> b \<noteq> 0" "byte_at m (from + 253) \<noteq> None"
  shows "copyStringFromMachine from to 256 m = None"
proof -
  have "\<exists>b. byte_at m (from + of_nat j) = Some b \<and> (j + 3 < length to \<longrightarrow> b \<noteq> 0)" if "j + 3 \<le> length to" for j
  proof (cases "j = 253")
    case True
    then show ?thesis using assms(2,4) by auto
  next
    case False
    then show ?thesis using assms(2,3) that by auto
  qed
  then have "copy_loop 256 from 0 to m = None"
    using copy_loop_overflows [OF assms(1), of 0 to "from" 256] assms(2) by simp
  then show ?thesis by (simp add: copyStringFromMachine_def)
qed

definition demo_long :: Machine where
  "demo_long = demo_user\<lparr>pageTable := Some [new_entry 0 0, new_entry 1 1, new_entry 2 2], pageTableSize := 3, mainMemory := (\<lambda>_. 65)\<rparr>"

theorem long_string_overflows_witness: "copyStringFromMachine 0 (replicate 256 0) 256 demo_long = None"
proof (rule long_string_overflows)
  show "table_ok demo_long" by (simp add: table_ok_def demo_long_def demo_user_def Machine_new_def)
  have "installed demo_long [new_entry 0 0, new_entry 1 1, new_entry 2 2]"
    by (simp add: installed_def demo_long_def demo_user_def Machine_new_def table_wf_def entry_ok_def new_entry_def nth_Cons split: nat.splits)
  then have "byte_at demo_long a = Some 65" if "unat a < 384" for a
    using that installed_access [of demo_long _ 1 False a] by (auto simp: byte_at_def aligned_simps demo_long_def)
  moreover have "unat (0 + of_nat i :: u32) < 384" if "i < 254" for i
    using that by (simp add: unat_of_nat take_bit_eq_mod)
  ultimately have b: "byte_at demo_long (0 + of_nat i) = Some 65" if "i < 254" for i
    using that by blast
  then show "\<forall>i<253. \<exists>b. byte_at demo_long (0 + of_nat i) = Some b \<and> b \<noteq> 0" by auto
  show "byte_at demo_long (0 + 253) \<noteq> None" using b [of 253] by simp
qed simp

end
