(* ===== verification/SysFiles.thy ===== *)
theory SysFiles
  imports Syscalls FsSpace
begin

text \<open>
  System calls on files and on the console, served by the models of the file system and of the console: what a user
  program that runs alone gets from them.
\<close>

section \<open>Model\<close>

text \<open>
  The state behind the system calls: the file system, what the console shows and what has been typed. The requests
  are served as a program sees them when it is the only one: an operation of the console has finished when it
  returns (\<open>SynchConsole\<close>), and one that reads waits for input. Threads, processes and the network are served
  elsewhere, and are refused here.
\<close>

record OS =
  os_fs :: FileSystem
  os_screen :: "byte list"
  os_keyboard :: "byte list"

definition flag :: "bool \<Rightarrow> u32" where
  "flag b = (if b then 1 else 0)"

definition fs_flag :: "OS \<Rightarrow> (bool \<times> FileSystem) option \<Rightarrow> (reply \<times> OS) option" where
  "fs_flag s r = map_option (\<lambda>(b, fs). (Num (flag b), s\<lparr>os_fs := fs\<rparr>)) r"

definition fs_num :: "OS \<Rightarrow> (int \<times> FileSystem) option \<Rightarrow> (reply \<times> OS) option" where
  "fs_num s r = map_option (\<lambda>(i, fs). (Num (of_int i), s\<lparr>os_fs := fs\<rparr>)) r"

fun read_line :: "nat \<Rightarrow> byte list \<Rightarrow> (byte list \<times> byte list) option" where
  "read_line 0 cs = Some ([], cs)"
| "read_line (Suc n) [] = None"
| "read_line (Suc n) (c # cs) =
     (if c = EOF then Some ([], cs) else if c = newline then Some ([c], cs)
      else map_option (\<lambda>(l, r). (c # l, r)) (read_line n cs))"

definition serve_files :: "request \<Rightarrow> OS \<Rightarrow> (reply \<times> OS) option" where
  "serve_files r s = (case r of
       Do_Create nm \<Rightarrow> fs_flag s (Create (os_fs s) nm 0)
     | Do_Remove nm \<Rightarrow> fs_flag s (Remove (os_fs s) nm)
     | Do_OpenUser nm \<Rightarrow> fs_num s (OpenUser (os_fs s) nm)
     | Do_CloseUser fd \<Rightarrow> fs_num s (CloseUser (os_fs s) fd)
     | Do_WriteUser buf sz fd \<Rightarrow> fs_num s (WriteUser (os_fs s) buf sz fd)
     | Do_ReadUser sz fd \<Rightarrow> map_option (\<lambda>(v, bs, fs). (Num_chars (of_int v) bs, s\<lparr>os_fs := fs\<rparr>)) (ReadUser (os_fs s) sz fd)
     | Do_SeekUser fd n \<Rightarrow> map_option (\<lambda>(v, fs). (No_reply, s\<lparr>os_fs := fs\<rparr>)) (SeekUser (os_fs s) fd n)
     | Do_CreateDir nm \<Rightarrow> fs_flag s (CreateDir (os_fs s) nm)
     | Do_RemoveDir nm \<Rightarrow> fs_flag s (RemoveDir (os_fs s) nm)
     | Do_List \<Rightarrow> map_option (\<lambda>(es, fs). (No_reply, s\<lparr>os_fs := fs\<rparr>)) (FileSystem_List (os_fs s))
     | Do_ChangeDir p \<Rightarrow> fs_flag s (ChangeDir (os_fs s) p)
     | _ \<Rightarrow> None)"

fun serve_console :: "console_call \<Rightarrow> OS \<Rightarrow> (reply \<times> OS) option" where
  "serve_console (SynchPutChar c) s = Some (No_reply, s\<lparr>os_screen := os_screen s @ [c]\<rparr>)"
| "serve_console (SynchPutString w) s = Some (No_reply, s\<lparr>os_screen := os_screen s @ c_str w\<rparr>)"
| "serve_console SynchGetChar s = (case os_keyboard s of [] \<Rightarrow> None | c # cs \<Rightarrow> Some (Chars [c], s\<lparr>os_keyboard := cs\<rparr>))"
| "serve_console (SynchGetString n) s =
     map_option (\<lambda>(l, r). (Chars l, s\<lparr>os_keyboard := r\<rparr>)) (read_line (nat n) (os_keyboard s))"

definition os_serve :: "request \<Rightarrow> Machine \<Rightarrow> OS \<Rightarrow> (reply \<times> Machine \<times> OS) option" where
  "os_serve r m s = map_option (\<lambda>(a, s'). (a, m, s'))
     (case r of Do_console c \<Rightarrow> serve_console c s | _ \<Rightarrow> serve_files r s)"

section \<open>The contract of the services\<close>

lemma read_line_ok: "read_line n cs = Some (l, r) \<Longrightarrow> length l \<le> n \<and> EOF \<notin> set l \<and> newline \<notin> set (butlast l)"
proof (induction n cs arbitrary: l r rule: read_line.induct)
  case (3 n c cs)
  show ?case
  proof (cases "c = EOF \<or> c = newline")
    case True
    then show ?thesis using 3 by (auto split: if_splits)
  next
    case False
    then show ?thesis using 3 by (auto split: if_splits)
  qed
qed auto

lemma ReadAt_length: "ReadAt v h n p = Some bs \<Longrightarrow> int (length bs) \<le> max 0 n"
  by (auto simp: ReadAt_def ReadAt_via_def Let_def bind_Some_iff ASSERT_def min_def split: if_splits)

lemma ReadUser_length:
  assumes "ReadUser fs n i = Some (v, bs, fs')"
  shows "int (length bs) \<le> max 0 n"
proof (cases "bs = []")
  case False
  then obtain v h p where "ReadAt v h n p = Some bs"
    using assms by (auto simp: ReadUser_def OpenFile_Read_def bind_Some_iff Let_def split: if_splits)
  then show ?thesis by (rule ReadAt_length)
qed simp

lemma console_fits: "serve_console c s = Some (a, s') \<Longrightarrow> fits (Do_console c) a"
  using read_line_ok by (cases c) (fastforce simp: fits_def split: list.splits)+

lemma files_fit: "serve_files r s = Some (a, s') \<Longrightarrow> fits r a"
  using ReadUser_length by (cases r) (auto simp: serve_files_def fs_flag_def fs_num_def fits_def)

interpretation os: kernel_services os_serve
proof unfold_locales
  fix r m s a m' s'
  assume "os_serve r m s = Some (a, m', s')"
  then show "fits r a"
    using console_fits files_fit by (cases r) (auto simp: os_serve_def)
qed (auto simp: os_serve_def)


section \<open>Properties\<close>


definition demo_putint :: Machine where
  "demo_putint = demo_user\<lparr>registers := (registers demo_user)[2 := 15, 4 := 7]\<rparr>"


subsection \<open>A file, seen from the user program\<close>

text \<open>The system call \<open>n\<close> with the arguments \<open>a\<close>, \<open>b\<close>, \<open>c\<close>.\<close>

definition syscall :: "Locals \<Rightarrow> u32 \<Rightarrow> u32 \<Rightarrow> u32 \<Rightarrow> u32 \<Rightarrow> Machine \<Rightarrow> OS \<Rightarrow> (Machine \<times> OS) option" where
  "syscall l n a b c m s =
     drive os_serve (ExceptionHandler l SyscallException (m\<lparr>registers := (registers m)[2 := n, 4 := a, 5 := b, 6 := c]\<rparr>)) s"

text \<open>After a call, the program has its memory as before.\<close>

definition same_memory :: "Machine \<Rightarrow> Machine \<Rightarrow> bool" where
  "same_memory m m' \<longleftrightarrow> same_core m m' \<and> mainMemory m' = mainMemory m \<and> length (registers m') = 40"

lemma string_at_cong: "table_ok m \<Longrightarrow> same_core m m' \<Longrightarrow> mainMemory m' = mainMemory m \<Longrightarrow> string_at m' = string_at m"
  using access_core [of m m'] by (simp add: string_at_def byte_at_def fun_eq_iff)

lemma string_at_registers [simp]: "string_at (m\<lparr>registers := regs\<rparr>) = string_at m"
  by (simp add: string_at_def byte_at_def fun_eq_iff)

lemma same_core_registers [simp]: "same_core (m\<lparr>registers := regs\<rparr>) m' = same_core m m'" "same_core m (m'\<lparr>registers := regs\<rparr>) = same_core m m'"
  by (simp_all add: same_core_def)

lemma same_memory_trans: "same_memory m m' \<Longrightarrow> same_memory m' m'' \<Longrightarrow> same_memory m m''"
  using same_core_trans by (auto simp: same_memory_def)

text \<open>A call with a string as its first argument.\<close>

lemma string_syscall:
  assumes m: "table_ok m" "length (registers m) = 40" and st: "string_at m a w" "length w \<le> 252" "length (put_str l) = 256"
    and r: "\<And>buf m. length buf = 256 \<Longrightarrow> take (length w + 1) buf = w @ [0] \<Longrightarrow> c_str buf = w \<Longrightarrow>
        os_serve (f buf) m s = Some (Num x, m, s')"
  shows "\<exists>m'. drive os_serve (with_string l 4 (m\<lparr>registers := (registers m)[2 := n, 4 := a, 5 := b, 6 := c]\<rparr>) (\<lambda>s. to_r2 (f s))) s
      = Some (m', s') \<and> reg m' 2 = x \<and> same_memory m m'"
proof -
  let ?m = "m\<lparr>registers := (registers m)[2 := n, 4 := a, 5 := b, 6 := c]\<rparr>"
  have "table_ok ?m" "string_at ?m a w" using m st by simp_all
  then obtain buf m1 where b: "copyStringFromMachine a (put_str l) 256 ?m = Some (buf, m1)" "c_str buf = w"
      "take (length w + 1) buf = w @ [0]" "length buf = 256" "kept ?m m1"
    using copy_string [of ?m a w "put_str l" 256] st by auto
  have r1: "registers m1 = registers ?m" "length (registers m1) = 40"
    using b(5) m(2) by (simp_all add: kept_def)
  have "drive os_serve (with_string l 4 ?m (\<lambda>s. to_r2 (f s))) s = Some (m1\<lparr>registers := after_syscall (registers m1) x\<rparr>, s')"
    using b(1) r [OF b(4,3,2), of m1] r1(2) m(2) by (simp add: with_string_def ReadRegister_ok to_r2_def write_r2)
  moreover have "same_memory m (m1\<lparr>registers := after_syscall (registers m1) x\<rparr>)"
    using b(5) r1(2) m(2) by (simp add: same_memory_def kept_def after_syscall_def)
  moreover have "after_syscall (registers m1) x ! 2 = x"
    using r1(2) by (simp add: after_syscall_def)
  ultimately show ?thesis by auto
qed

lemma WriteAt_prefix:
  assumes "nat n \<le> length buf"
  shows "WriteAt v h buf n p = WriteAt v h (take (nat n) buf) n p"
proof -
  define k where "k = (if p + n > FileLength h then FileLength h - p else n)"
  have "k \<le> n" by (simp add: k_def)
  then have "nat k \<le> nat n" by simp
  then have e: "nat k \<le> length (take (nat n) buf) \<longleftrightarrow> nat k \<le> length buf" "take (nat k) (take (nat n) buf) = take (nat k) buf"
    using assms by (auto simp: min_def)
  show ?thesis
    unfolding WriteAt_def Let_def k_def [symmetric] e ..
qed

lemma WriteUser_prefix:
  assumes "nat n \<le> length buf"
  shows "WriteUser fs buf n i = WriteUser fs (take (nat n) buf) n i"
  unfolding WriteUser_def OpenFile_Write_def WriteAt_prefix [OF assms, symmetric] ..

text \<open>\<open>write_loop\<close> stores a string like \<open>ReadAtVirtual\<close> does.\<close>

lemma write_loop_copy_in: "0 \<in> set buf \<Longrightarrow> write_loop buf a m = copy_in fault_handler m a (c_str buf @ [0])"
  by (induction buf arbitrary: a m) (auto simp: split_def)

lemma byte_at_view:
  assumes "installed m pt" "unat x < PageSize * length pt"
  shows "byte_at m x = Some (AddrSpace.view pt (mainMemory m) ! unat x)"
proof -
  have "unat x div PageSize < length pt" using assms(2) by auto
  then show ?thesis
    using installed_access [OF assms(1), of 1 False x] assms(2) by (simp add: byte_at_def aligned_simps nth_view)
qed

lemma written_string:
  assumes m: "installed m pt" and b: "0 \<in> set buf" "unat a + Suc (length (c_str buf)) \<le> PageSize * length pt"
  shows "\<exists>m'. write_loop buf a m = Some m' \<and> string_at m' a (c_str buf) \<and> registers m' = registers m"
proof -
  let ?w = "c_str buf @ [0]"
  obtain m' pt' where w: "copy_in fault_handler m a ?w = Some m'" "installed m' pt'" "map core pt' = map core pt"
      "AddrSpace.view pt' (mainMemory m') = overlay (AddrSpace.view pt (mainMemory m)) (unat a) ?w"
    using copy_in_spec [OF m, of a ?w fault_handler] b(2) by auto
  have len: "length pt' = length pt" using map_core_length [OF w(3)] .
  have "length pt \<le> NumPhysPages" using m table_wf_length by (auto simp: installed_def)
  then have bound: "unat a + Suc (length (c_str buf)) < 2 ^ 32" using b(2) by simp
  have "byte_at m' (a + of_nat i) = Some (?w ! i)" if i: "i \<le> length (c_str buf)" for i
  proof -
    have "unat (of_nat i :: u32) = i"
      using i bound by (simp add: unat_of_nat take_bit_eq_mod)
    then have u: "unat (a + of_nat i) = unat a + i"
      using i bound unat_add_lem [of a "of_nat i"] by simp
    then show ?thesis
      using byte_at_view [OF w(2), of "a + of_nat i"] i b(2) len w(4) by (simp add: nth_overlay)
  qed
  moreover have "0 \<notin> set (c_str buf)" using set_takeWhileD by (fastforce simp: c_str_def)
  ultimately have st: "string_at m' a (c_str buf)" by (simp add: string_at_def)
  have e: "write_loop buf a m = Some m'" using w(1) write_loop_copy_in [OF b(1)] by simp
  have "can_write m a (Suc (length (c_str buf)))"
    unfolding can_write_def
  proof (intro allI impI)
    fix i assume i: "i < Suc (length (c_str buf))"
    have "unat (of_nat i :: u32) = i"
      using i bound by (simp add: unat_of_nat take_bit_eq_mod)
    then have u: "unat (a + of_nat i) = unat a + i"
      using i bound unat_add_lem [of a "of_nat i"] by simp
    then have "unat (a + of_nat i) div PageSize < length pt" using i b(2) by auto
    then show "access m True (a + of_nat i) 1 \<noteq> None"
      using installed_access [OF m, of 1 True "a + of_nat i"] by (simp add: aligned_simps)
  qed
  then have "registers m' = registers m"
    using write_loop_ok [OF installed_ok [OF m] b(1), of a] e by auto
  then show ?thesis using e st by blast
qed


lemma seek_syscall:
  assumes "length (registers m) = 40" "SeekUser (os_fs s) (sint fd) (sint p) = Some (v, fs')"
  shows "\<exists>m'. syscall l 31 fd p 0 m s = Some (m', s\<lparr>os_fs := fs'\<rparr>) \<and> same_memory m m'"
  using assms by (simp add: syscall_def ExceptionHandler_def ReadRegister_ok Syscalls.sys_files_def sys_seek_def int_reg_ok no_result_def
      os_serve_def serve_files_def finish_eq same_memory_def after_syscall_def)

lemma read_syscall:
  assumes m: "installed m pt" "length (registers m) = 40" and l: "length (get_str l) = 256"
    and d: "length data < 256" "0 \<notin> set data" "get_str l ! length data = 0" "unat b + Suc (length data) \<le> PageSize * length pt"
    and r: "ReadUser (os_fs s) (sint n) (sint fd) = Some (v, data, fs')"
  shows "\<exists>m'. syscall l 6 b n fd m s = Some (m', s\<lparr>os_fs := fs'\<rparr>) \<and> reg m' 2 = of_int v \<and> string_at m' b data"
proof -
  define m1 where "m1 = m\<lparr>registers := (registers m)[2 := of_int v, 4 := b, 5 := n, 6 := fd]\<rparr>"
  let ?buf = "overlay (get_str l) 0 data"
  have "?buf = data @ 0 # drop (Suc (length data)) (get_str l)"
    using d(1,3) l by (simp add: overlay_def Cons_nth_drop_Suc [symmetric])
  then have buf: "c_str ?buf = data" "0 \<in> set ?buf"
    using c_str_ends [OF d(2)] by simp_all
  have "installed m1 pt" using m(1) by (simp add: m1_def installed_def)
  then obtain m2 where m2: "write_loop ?buf b m1 = Some m2" "string_at m2 b data" "registers m2 = registers m1"
    using written_string [of m1 pt ?buf b] buf d(4) by auto
  have e: "(registers m)[2 := 6, 4 := b, 5 := n, 6 := fd, 2 := of_int v] = registers m1"
    by (simp add: m1_def list_update_swap)
  have "syscall l 6 b n fd m s = Some (m2\<lparr>registers := after_syscall (registers m2) (reg m2 2)\<rparr>, s\<lparr>os_fs := fs'\<rparr>)"
    using m(2) l d(1) r m2(1,3)
    by (simp add: syscall_def ExceptionHandler_def ReadRegister_ok Syscalls.sys_files_def sys_read_def int_reg_ok os_serve_def serve_files_def
        WriteRegister_def finish_eq e m1_def)
  then show ?thesis
    using m2(2,3) m(2) by (simp add: after_syscall_def m1_def)
qed

lemma string_call:
  assumes "table_ok m" "length (registers m) = 40" "string_at m a w" "length w \<le> 252" "length (put_str l) = 256"
    "n \<in> {4, 5}" "\<And>m. os_serve (if n = 4 then Do_Create w else Do_OpenUser w) m s = Some (Num x, m, s')"
  shows "\<exists>m'. syscall l n a b c m s = Some (m', s') \<and> reg m' 2 = x \<and> same_memory m m'"
proof (cases "n = 4")
  case True
  then show ?thesis
    using string_syscall [OF assms(1-5), of "\<lambda>buf. Do_Create (c_str buf)" s x s' n b c] assms(2,7)
    by (simp add: syscall_def ExceptionHandler_def ReadRegister_ok Syscalls.sys_files_def)
next
  case False
  then have "n = 5" using assms(6) by simp
  then show ?thesis
    using string_syscall [OF assms(1-5), of "\<lambda>buf. Do_OpenUser (c_str buf)" s x s' n b c] assms(2,7)
    by (simp add: syscall_def ExceptionHandler_def ReadRegister_ok Syscalls.sys_files_def)
qed

lemma write_syscall:
  assumes "table_ok m" "length (registers m) = 40" "string_at m a w" "length w \<le> 252" "length (put_str l) = 256"
    "WriteUser (os_fs s) w (int (length w)) (sint fd) = Some (v, fs')"
  shows "\<exists>m'. syscall l 7 a (of_nat (length w)) fd m s = Some (m', s\<lparr>os_fs := fs'\<rparr>) \<and> reg m' 2 = of_int v \<and> same_memory m m'"
proof -
  have n: "sint (of_nat (length w) :: u32) = int (length w)"
    using assms(4) by (subst sint_small) (simp_all add: unat_of_nat take_bit_eq_mod)
  have "os_serve (Do_WriteUser buf (int (length w)) (sint fd)) m s = Some (Num (of_int v), m, s\<lparr>os_fs := fs'\<rparr>)"
    if b: "length buf = 256" "take (length w + 1) buf = w @ [0]" for buf m
  proof -
    have "take (length w) buf = take (length w) (take (length w + 1) buf)" by simp
    then have "take (length w) buf = w" unfolding b(2) by simp
    then show ?thesis
      using WriteUser_prefix [of "int (length w)" buf "os_fs s" "sint fd"] assms(4,6) b(1)
      by (simp add: os_serve_def serve_files_def fs_num_def)
  qed
  then show ?thesis
    using string_syscall [OF assms(1-5), of "\<lambda>buf. Do_WriteUser buf (int (length w)) (sint fd)" s "of_int v" "s\<lparr>os_fs := fs'\<rparr>" 7 "of_nat (length w)" fd] n assms(2)
    by (simp add: syscall_def ExceptionHandler_def ReadRegister_ok Syscalls.sys_files_def sys_write_def int_reg_ok)
qed



text \<open>A program with the name ``a'' at the address 0 and the string ``hi'' at the address 8.\<close>

definition demo_files :: Machine where
  "demo_files = demo_user\<lparr>mainMemory := (\<lambda>x. 0)(0 := 97, 8 := 104, 9 := 105)\<rparr>"


end
