(* ===== verification/Ftp.thy ===== *)
theory Ftp
  imports FsSpace
begin

text \<open>
  File transfer: src/code/network/ftp.cc and ftp.h. A client and a server, each on its own machine with its own
  file system, exchange messages over a connection of the post office (\<open>PostOffice\<close>).
\<close>

section \<open>Model\<close>

subsection \<open>Files (FileHandler)\<close>

definition FileHandler_FileExists :: "FileSystem \<Rightarrow> cname \<Rightarrow> (bool \<times> FileSystem) option" where
  "FileHandler_FileExists fs nm = do {
     (isdata, fs) \<leftarrow> FileSystem_IsDataFile fs nm;
     if isdata then FileExists fs nm else Some (False, fs)
   }"

definition CreateFile :: "FileSystem \<Rightarrow> cname \<Rightarrow> (int \<times> FileSystem) option" where
  "CreateFile fs nm = do {
     (there, fs) \<leftarrow> FileExists fs nm;
     if there then Some (- 1, fs)
     else do {
       (ok, fs) \<leftarrow> Create fs nm 0;
       Some (if ok then 0 else - 1, fs)
     }
   }"

definition FileSize :: "FileSystem \<Rightarrow> cname \<Rightarrow> (int \<times> FileSystem) option" where
  "FileSize fs nm = do {
     (there, fs) \<leftarrow> FileHandler_FileExists fs nm;
     if \<not> there then Some (- 1, fs) else GetFileSize fs nm
   }"

definition FileHandler_OpenFile :: "FileSystem \<Rightarrow> cname \<Rightarrow> (int \<times> FileSystem) option" where
  "FileHandler_OpenFile fs nm = OpenUser fs nm"

text \<open>\<open>ReadFile\<close>: its result and the bytes it has put into the buffer.\<close>

definition ReadFile :: "FileSystem \<Rightarrow> int \<Rightarrow> int \<Rightarrow> (int \<times> byte list \<times> FileSystem) option" where
  "ReadFile fs fd fileSize = do {
     (n, bs, fs) \<leftarrow> ReadUser fs fileSize fd;
     if n \<noteq> fileSize then Some (- 1, bs, fs)
     else do {
       (n, more, fs) \<leftarrow> ReadUser fs fileSize fd;
       if n \<noteq> 0 then Some (- 1, bs, fs) else Some (0, bs, fs)
     }
   }"

definition WriteFile :: "FileSystem \<Rightarrow> int \<Rightarrow> byte list \<Rightarrow> int \<Rightarrow> (int \<times> FileSystem) option" where
  "WriteFile fs fd buffer fileSize = do {
     (n, fs) \<leftarrow> WriteUser fs buffer fileSize fd;
     Some (if n \<noteq> fileSize then - 1 else 0, fs)
   }"

definition CloseFile :: "FileSystem \<Rightarrow> int \<Rightarrow> (int \<times> FileSystem) option" where
  "CloseFile fs fd = CloseUser fs fd"

definition RemoveFile :: "FileSystem \<Rightarrow> cname \<Rightarrow> FileSystem option" where
  "RemoveFile fs nm = do { (ok, fs) \<leftarrow> Remove fs nm; Some fs }"

subsection \<open>Messages\<close>

datatype FTPType = READFILE | WRITEFILE | CONNECT | DISCONNECT | OK | ERROR | FILEDATA

primrec ftp_code :: "FTPType \<Rightarrow> int" where
  "ftp_code READFILE = 0"
| "ftp_code WRITEFILE = 1"
| "ftp_code CONNECT = 2"
| "ftp_code DISCONNECT = 3"
| "ftp_code OK = 4"
| "ftp_code ERROR = 5"
| "ftp_code FILEDATA = 6"

text \<open>\<open>FTPHeader\<close>: its type, as the integer that was received, and the size.\<close>

definition encode_ftp :: "FTPType \<Rightarrow> int \<Rightarrow> byte list" where
  "encode_ftp ty sz = int_bytes (ftp_code ty) @ int_bytes sz"

definition ftp_type :: "byte list \<Rightarrow> int" where
  "ftp_type msg = bytes_int (take 4 msg)"

definition ftp_size :: "byte list \<Rightarrow> int" where
  "ftp_size msg = bytes_int (take 4 (drop 4 msg))"

definition is_type :: "FTPType \<Rightarrow> byte list \<Rightarrow> bool" where
  "is_type ty msg \<longleftrightarrow> ftp_type msg = ftp_code ty"

text \<open>
  What \<open>Receive\<close> leaves in a buffer with the contents \<open>stale\<close> when the message \<open>msg\<close> was sent: of a message whose length is
  a multiple of 32 the last 32 bytes do not arrive (\<open>PostOffice\<close>). \<open>None\<close>: the message does not fit.
\<close>

definition arrives :: "byte list \<Rightarrow> byte list \<Rightarrow> byte list option" where
  "arrives msg stale = (if length msg \<le> length stale
     then Some (if length msg mod 32 = 0 then overlay stale 0 (take (length msg - 32) msg) else overlay stale 0 msg)
     else None)"

text \<open>
  One side of a conversation: it fails an assertion or leaves an array (\<open>Abort\<close>), has come to its end with a result
  (\<open>Return\<close>), its thread has finished (\<open>Gone\<close>), or it sends a message or waits for one. While it does, other threads may use the file system.
\<close>

datatype ftp = Abort | Gone FileSystem | Return bool FileSystem | Sends "byte list" FileSystem "FileSystem \<Rightarrow> ftp"
  | Waits FileSystem "byte list \<Rightarrow> FileSystem \<Rightarrow> ftp"

definition attempt :: "'a option \<Rightarrow> ('a \<Rightarrow> ftp) \<Rightarrow> ftp" where
  "attempt x f = (case x of None \<Rightarrow> Abort | Some y \<Rightarrow> f y)"

definition server_note :: "byte list" where
  "server_note = map of_char ''Server notification'' @ [0]"

definition client_note :: "byte list" where
  "client_note = map of_char ''Client notification'' @ [0]"

text \<open>\<open>NotifyClient\<close> and \<open>NotifyServer\<close>; \<open>ClientConfirmation\<close> and \<open>ServerConfirmation\<close>, which return the size as well.\<close>

definition NotifyClient :: "FTPType \<Rightarrow> int \<Rightarrow> FileSystem \<Rightarrow> (FileSystem \<Rightarrow> ftp) \<Rightarrow> ftp" where
  "NotifyClient ty sz fs k = Sends (encode_ftp ty sz @ server_note) fs k"

definition NotifyServer :: "FTPType \<Rightarrow> FileSystem \<Rightarrow> (FileSystem \<Rightarrow> ftp) \<Rightarrow> ftp" where
  "NotifyServer ty fs k = Sends (encode_ftp ty 0 @ client_note) fs k"

definition Confirmation :: "byte list \<Rightarrow> FileSystem \<Rightarrow> (bool \<Rightarrow> int \<Rightarrow> FileSystem \<Rightarrow> ftp) \<Rightarrow> ftp" where
  "Confirmation stale fs k = Waits fs (\<lambda>msg fs. attempt (arrives msg stale) (\<lambda>buf.
     if is_type OK buf then k True (ftp_size buf) fs
     else if is_type ERROR buf then k False (ftp_size buf) fs
     else Abort))"

text \<open>The arrays that \<open>new\<close> and the stack give, before they are written.\<close>

definition stale28 :: "(nat \<Rightarrow> byte) \<Rightarrow> byte list" where
  "stale28 st = map st [0..<28]"

definition stale :: "(nat \<Rightarrow> byte) \<Rightarrow> int \<Rightarrow> byte list" where
  "stale st n = map st [0..<nat n]"

definition ClientConfirmation :: "(nat \<Rightarrow> byte) \<Rightarrow> FileSystem \<Rightarrow> (bool \<Rightarrow> FileSystem \<Rightarrow> ftp) \<Rightarrow> ftp" where
  "ClientConfirmation st fs k = Confirmation (stale28 st) fs (\<lambda>ok sz. k ok)"

definition ServerConfirmation :: "(nat \<Rightarrow> byte) \<Rightarrow> FileSystem \<Rightarrow> (bool \<Rightarrow> int \<Rightarrow> FileSystem \<Rightarrow> ftp) \<Rightarrow> ftp" where
  "ServerConfirmation st fs k = Confirmation (stale28 st) fs k"


subsection \<open>The server\<close>

abbreviation close_and :: "int \<Rightarrow> (FileSystem \<Rightarrow> ftp) \<Rightarrow> FileSystem \<Rightarrow> ftp" where
  "close_and fd k fs \<equiv> attempt (CloseFile fs fd) (\<lambda>(r, fs). k fs)"

abbreviation remove_and :: "cname \<Rightarrow> (FileSystem \<Rightarrow> ftp) \<Rightarrow> FileSystem \<Rightarrow> ftp" where
  "remove_and nm k fs \<equiv> attempt (RemoveFile fs nm) k"

definition Server_SendFile :: "(nat \<Rightarrow> byte) \<Rightarrow> cname \<Rightarrow> FileSystem \<Rightarrow> ftp" where
  "Server_SendFile st nm fs =
     attempt (FileSize fs nm) (\<lambda>(fileSize, fs).
       if fileSize < 0 then NotifyClient ERROR 0 fs (Return False)
       else attempt (FileHandler_OpenFile fs nm) (\<lambda>(fd, fs).
         if fd < 0 then NotifyClient ERROR 0 fs (Return False)
         else attempt (ReadFile fs fd fileSize) (\<lambda>(r, buffer, fs).
           if r < 0 then NotifyClient ERROR 0 fs (close_and fd (Return False))
           else NotifyClient OK fileSize fs (\<lambda>fs.
             ClientConfirmation st fs (\<lambda>ok fs.
               if \<not> ok then close_and fd (Return False) fs
               else Sends (encode_ftp FILEDATA fileSize @ buffer) fs (\<lambda>fs.
                 ClientConfirmation st fs (\<lambda>ok fs.
                   if \<not> ok then close_and fd (Return False) fs
                   else attempt (CloseFile fs fd) (\<lambda>(r, fs).
                     if r < 0 then NotifyClient ERROR 0 fs (Return False)
                     else NotifyClient OK 0 fs (Return True)))))))))"

definition Server_ReceiveFile :: "(nat \<Rightarrow> byte) \<Rightarrow> cname \<Rightarrow> int \<Rightarrow> FileSystem \<Rightarrow> ftp" where
  "Server_ReceiveFile st nm fileSize fs =
     attempt (CreateFile fs nm) (\<lambda>(r, fs).
       if r < 0 then NotifyClient ERROR 0 fs (Return False)
       else attempt (FileHandler_OpenFile fs nm) (\<lambda>(fd, fs).
         if fd < 0 then NotifyClient ERROR 0 fs (Return False)
         else NotifyClient OK 0 fs (\<lambda>fs.
           ClientConfirmation st fs (\<lambda>ok fs.
             if \<not> ok then close_and fd (remove_and nm (Return False)) fs
             else if fileSize < 0 then Abort
             else Waits fs (\<lambda>msg fs. attempt (arrives msg (stale st (8 + fileSize))) (\<lambda>buffer.
               if \<not> is_type FILEDATA buffer \<or> ftp_size buffer \<noteq> fileSize then Abort
               else attempt (WriteFile fs fd (take (nat fileSize) (drop 8 buffer)) fileSize) (\<lambda>(r, fs).
                 if r < 0 then NotifyClient ERROR 0 fs (close_and fd (remove_and nm (Return False)))
                 else NotifyClient OK 0 fs (\<lambda>fs.
                   ClientConfirmation st fs (\<lambda>ok fs.
                     if \<not> ok then close_and fd (remove_and nm (Return False)) fs
                     else attempt (CloseFile fs fd) (\<lambda>(r, fs).
                       if r < 0 then remove_and nm (Return False) fs else Return True fs)))))))))) "

text \<open>
  The loop of \<open>HandleClient\<close>, from \<open>Receive\<close> on. Its arrays \<open>buffer\<close> and \<open>data\<close> are sized by \<open>msgSize\<close>, the size of the message
  received before. What may be written behind an array without harm is the business of the compiler: \<open>slack\<close> is the
  number of bytes. A message shorter than the header makes the length of the second copy wrap around.
\<close>

definition handle_request :: "(nat \<Rightarrow> byte) \<Rightarrow> nat \<Rightarrow> nat \<Rightarrow> byte list \<Rightarrow> FileSystem \<Rightarrow> ftp" where
  "handle_request st slack msgSize msg fs =
     attempt (arrives msg (stale st (int msgSize + int slack))) (\<lambda>buffer.
       if length msg < 8 then Abort
       else let data = c_str (take (length msg - 8) (drop 8 buffer)) in
         if is_type READFILE buffer then Server_SendFile st data fs
         else if is_type WRITEFILE buffer then Server_ReceiveFile st data (ftp_size buffer) fs
         else if is_type DISCONNECT buffer then NotifyClient DISCONNECT 0 fs Gone
         else NotifyClient ERROR 0 fs (Return False))"

definition HandleClient :: "FileSystem \<Rightarrow> ftp" where
  "HandleClient fs = NotifyClient OK 0 fs (Return True)"

text \<open>The clients that the server knows. \<open>Accept\<close> is one turn of the loop of \<open>ServerRoutine\<close>, for a client that has connected.\<close>

abbreviation MAXCLIENTS :: int where "MAXCLIENTS \<equiv> 50"

record Server =
  clientMap :: BitMap
  nbClients :: u32

definition Server_new :: "(nat \<Rightarrow> u32) \<Rightarrow> int \<Rightarrow> Server option" where
  "Server_new junk_words serverAddr = do {
     m \<leftarrow> BitMap_new junk_words MAXCLIENTS;
     m \<leftarrow> BitMap_Mark m serverAddr;
     Some \<lparr>clientMap = m, nbClients = 0\<rparr>
   }"

definition ClientConnect :: "int \<Rightarrow> Server \<Rightarrow> Server option" where
  "ClientConnect from_addr sv =
     (if nbClients sv \<ge> 50 then Some sv
      else do {
        m \<leftarrow> BitMap_Mark (clientMap sv) from_addr;
        Some \<lparr>clientMap = m, nbClients = nbClients sv + 1\<rparr>
      })"

definition ClientDisconnect :: "int \<Rightarrow> Server \<Rightarrow> Server option" where
  "ClientDisconnect from_addr sv = do {
     b \<leftarrow> BitMap_Test (clientMap sv) from_addr;
     ASSERT b;
     m \<leftarrow> BitMap_Clear (clientMap sv) from_addr;
     Some \<lparr>clientMap = m, nbClients = nbClients sv - 1\<rparr>
   }"

datatype reception = Refused | Handled

definition Accept :: "int \<Rightarrow> Server \<Rightarrow> (reception \<times> Server) option" where
  "Accept from_addr sv = do {
     b \<leftarrow> BitMap_Test (clientMap sv) from_addr;
     if b then Some (Refused, sv)
     else do { sv \<leftarrow> ClientConnect from_addr sv; Some (Handled, sv) }
   }"

subsection \<open>The client\<close>

definition Client_SendFile :: "(nat \<Rightarrow> byte) \<Rightarrow> cname \<Rightarrow> FileSystem \<Rightarrow> ftp" where
  "Client_SendFile st nm fs =
     attempt (FileSize fs nm) (\<lambda>(fileSize, fs).
       if fileSize < 0 then NotifyServer ERROR fs (Return False)
       else attempt (FileHandler_OpenFile fs nm) (\<lambda>(fd, fs).
         if fd < 0 then NotifyServer ERROR fs (Return False)
         else attempt (ReadFile fs fd fileSize) (\<lambda>(r, buffer, fs).
           if r < 0 then NotifyServer ERROR fs (close_and fd (Return False))
           else NotifyServer OK fs (\<lambda>fs.
             Sends (encode_ftp FILEDATA fileSize @ buffer) fs (\<lambda>fs.
               ServerConfirmation st fs (\<lambda>ok sz fs.
                 if \<not> ok then close_and fd (Return False) fs
                 else attempt (CloseFile fs fd) (\<lambda>(r, fs).
                   if r < 0 then NotifyServer ERROR fs (Return False)
                   else NotifyServer OK fs (Return True))))))))"

definition Client_ReceiveFile :: "(nat \<Rightarrow> byte) \<Rightarrow> cname \<Rightarrow> int \<Rightarrow> FileSystem \<Rightarrow> ftp" where
  "Client_ReceiveFile st nm fileSize fs =
     attempt (CreateFile fs nm) (\<lambda>(r, fs).
       if r < 0 then NotifyServer ERROR fs (Return False)
       else attempt (FileHandler_OpenFile fs nm) (\<lambda>(fd, fs).
         if fd < 0 then NotifyServer ERROR fs (Return False)
         else NotifyServer OK fs (\<lambda>fs.
           if fileSize < 0 then Abort
           else Waits fs (\<lambda>msg fs. attempt (arrives msg (stale st (8 + fileSize))) (\<lambda>buffer.
             if \<not> is_type FILEDATA buffer \<or> ftp_size buffer \<noteq> fileSize then Abort
             else attempt (WriteFile fs fd (take (nat fileSize) (drop 8 buffer)) fileSize) (\<lambda>(r, fs).
               if r < 0 then NotifyServer ERROR fs (close_and fd (remove_and nm (Return False)))
               else NotifyServer OK fs (\<lambda>fs.
                 ServerConfirmation st fs (\<lambda>ok sz fs.
                   if \<not> ok then close_and fd (remove_and nm (Return False)) fs
                   else attempt (CloseFile fs fd) (\<lambda>(r, fs).
                     if r < 0 then remove_and nm (Return False) fs else Return True fs)))))))))"

definition SendFileRequest :: "(nat \<Rightarrow> byte) \<Rightarrow> FTPType \<Rightarrow> cname \<Rightarrow> FileSystem \<Rightarrow> ftp" where
  "SendFileRequest st ty nm fs =
     (if ty \<noteq> READFILE \<and> ty \<noteq> WRITEFILE then Abort
      else attempt (if ty = READFILE then Some (0, fs) else FileSize fs nm) (\<lambda>(sz, fs).
        if sz < 0 then Return False fs
        else Sends (encode_ftp ty sz @ nm @ [0]) fs (\<lambda>fs.
          ServerConfirmation st fs (\<lambda>ok fileSize fs.
            if \<not> ok then Return False fs
            else if ty = READFILE then Client_ReceiveFile st nm fileSize fs
            else Client_SendFile st nm fs))))"

definition client_goodbye :: "byte list" where
  "client_goodbye = map of_char ''Client request'' @ [0]"

text \<open>\<open>Client::Disconnect\<close>: the answer is received into an array of 20 bytes, again with \<open>slack\<close> bytes behind it.\<close>

definition Client_Disconnect :: "(nat \<Rightarrow> byte) \<Rightarrow> nat \<Rightarrow> bool \<Rightarrow> FileSystem \<Rightarrow> ftp" where
  "Client_Disconnect st slack res fs =
     Sends (encode_ftp DISCONNECT 0 @ client_goodbye) fs (\<lambda>fs.
       Waits fs (\<lambda>msg fs. attempt (arrives msg (stale st (20 + int slack))) (\<lambda>buf.
         if is_type DISCONNECT buf then Return res fs else Abort)))"

text \<open>
  \<open>FTPClientAction\<close> from the server's answer in \<open>Client::Connect\<close> on: a client that is refused has no connection, and the next
  routine asserts that it has one. The result of a request that is neither of the two is not set.
\<close>

primrec and_then :: "ftp \<Rightarrow> (bool \<Rightarrow> FileSystem \<Rightarrow> ftp) \<Rightarrow> ftp" where
  "and_then Abort k = Abort"
| "and_then (Gone fs) k = Gone fs"
| "and_then (Return b fs) k = k b fs"
| "and_then (Sends m fs f) k = Sends m fs (\<lambda>fs. and_then (f fs) k)"
| "and_then (Waits fs f) k = Waits fs (\<lambda>m fs. and_then (f m fs) k)"

definition FTPClientAction :: "(nat \<Rightarrow> byte) \<Rightarrow> nat \<Rightarrow> char \<Rightarrow> cname \<Rightarrow> FileSystem \<Rightarrow> ftp" where
  "FTPClientAction st slack readwrite nm fs =
     Waits fs (\<lambda>msg fs. attempt (arrives msg (stale28 st)) (\<lambda>buf.
       if \<not> is_type OK buf then Abort
       else and_then (if readwrite = CHR ''r'' then SendFileRequest st READFILE nm fs
         else if readwrite = CHR ''w'' then SendFileRequest st WRITEFILE nm fs
         else Return (st 0 \<noteq> 0) fs) (Client_Disconnect st slack)))"

subsection \<open>Conversations\<close>

text \<open>
  A client and the thread of the server that handles it, with the size of the last message that the thread has received
  and the messages under way in both directions. The connection delivers every message once and in order
  (\<open>PostOffice\<close>); nobody else uses the two file systems. A server that has dealt with a request waits for the next one.
\<close>

type_synonym conversation = "ftp \<times> ftp \<times> nat \<times> byte list list \<times> byte list list"

inductive ftp_step :: "(nat \<Rightarrow> byte) \<Rightarrow> nat \<Rightarrow> conversation \<Rightarrow> conversation \<Rightarrow> bool" for st slack where
  client_sends: "ftp_step st slack (Sends m fs k, s, n, q, r) (k fs, s, n, q @ [m], r)"
| client_gets: "ftp_step st slack (Waits fs k, s, n, q, m # r) (k m fs, s, n, q, r)"
| server_sends: "ftp_step st slack (c, Sends m fs k, n, q, r) (c, k fs, n, q, r @ [m])"
| server_gets: "ftp_step st slack (c, Waits fs k, n, m # q, r) (c, k m fs, length m, q, r)"
| server_loops: "ftp_step st slack (c, Return b fs, n, q, r) (c, Waits fs (handle_request st slack n), n, q, r)"

text \<open>A session: the server's thread starts with the size of the message that has set up the connection, a \<open>time_t\<close>.\<close>

definition session :: "(nat \<Rightarrow> byte) \<Rightarrow> nat \<Rightarrow> char \<Rightarrow> cname \<Rightarrow> FileSystem \<Rightarrow> FileSystem \<Rightarrow> conversation" where
  "session st slack readwrite nm c s = (FTPClientAction st slack readwrite nm c, HandleClient s, 4, [], [])"


section \<open>Files on one machine\<close>

text \<open>The file \<open>nm\<close> is in the current directory with these contents, nobody has it open, and a descriptor is free.\<close>

definition has_file :: "FileSystem \<Rightarrow> cname \<Rightarrow> byte list \<Rightarrow> bool" where
  "has_file fs nm data \<longleftrightarrow> (\<exists>objs fm D s bl ib. fs_inv fs objs fm D \<and> open_table fs \<and> view D (key nm) = Some s
     \<and> objs s = Some (Blocks bl ib) \<and> IsDataFile (decode_hdr (sectors (disk fs) s))
     \<and> contents (disk fs) (decode_hdr (sectors (disk fs) s)) bl = data
     \<and> (\<forall>i u. slots fs i = Some u \<longrightarrow> id u \<noteq> s) \<and> dom (slots fs) \<noteq> {0..<10})"

lemma relock_directory: "\<not> directoryMutex fs \<Longrightarrow> fs\<lparr>directoryMutex := False\<rparr> = fs"
  by (cases fs) simp

lemma query_there:
  assumes inv: "fs_inv fs objs fm D" and s: "view D (key nm) = Some s"
  shows "FileExists fs nm = Some (True, fs)" "FileSystem_IsDataFile fs nm = Some (IsDataFile (decode_hdr (sectors (disk fs) s)), fs)"
    "GetFileSize fs nm = Some (FileLength (decode_hdr (sectors (disk fs) s)), fs)"
proof -
  have un: "\<not> directoryMutex fs" using fs_invD(2) [OF inv] by (auto simp: unlocked_def)
  have fd: "fetch_directory (fs\<lparr>directoryMutex := True\<rparr>) = Some D" by (rule fs_inv_fetch(1) [OF inv]) simp_all
  have f: "Directory_Find D nm = s" "0 < s" "s < NumSectors" using Find_fs(2) [OF inv s] by auto
  have h: "FileHeader_FetchFrom (disk fs) s = Some (decode_hdr (sectors (disk fs) s))"
    using f by (intro FetchFrom_sector) simp_all
  show "FileExists fs nm = Some (True, fs)"
    using un fd f by (simp add: FileExists_def lock_defs relock_directory)
  show "FileSystem_IsDataFile fs nm = Some (IsDataFile (decode_hdr (sectors (disk fs) s)), fs)"
    using un fd f h by (simp add: FileSystem_IsDataFile_def lock_defs relock_directory)
  show "GetFileSize fs nm = Some (FileLength (decode_hdr (sectors (disk fs) s)), fs)"
    using un fd f h by (simp add: GetFileSize_def lock_defs relock_directory)
qed

lemma query_absent:
  assumes inv: "fs_inv fs objs fm D" and s: "view D (key nm) = None"
  shows "FileExists fs nm = Some (False, fs)"
proof -
  have un: "\<not> directoryMutex fs" using fs_invD(2) [OF inv] by (auto simp: unlocked_def)
  have fd: "fetch_directory (fs\<lparr>directoryMutex := True\<rparr>) = Some D" by (rule fs_inv_fetch(1) [OF inv]) simp_all
  have "Directory_Find D nm = - 1" using Find_fs(1) [OF inv] s by simp
  then show ?thesis using un fd by (simp add: FileExists_def lock_defs relock_directory)
qed

lemma CloseUser_keeps:
  "CloseUser fs i = Some (n, fs') \<Longrightarrow> freeMapFile fs' = freeMapFile fs \<and> directoryFile fs' = directoryFile fs \<and> DirectorySector fs' = DirectorySector fs"
  by (auto simp: CloseUser_def bind_Some_iff lock_defs Acquire_file_def Release_file_def set_user_file_def Let_def ASSERT_def
      split: if_splits)

lemma close_file:
  assumes inv: "fs_inv fs objs fm D" and ot: "open_table fs" "slots fs i = Some u"
  shows "\<exists>fs'. CloseFile fs i = Some (0, fs') \<and> fs_inv fs' objs fm D \<and> open_table fs' \<and> disk fs' = disk fs \<and> slots fs' = (slots fs)(i := None)"
proof -
  have un: "unlocked fs" using fs_invD(2) [OF inv] .
  have "0 \<le> i" using slots_range [OF _ ot(2)] ot(1) by (simp add: open_table_def)
  moreover have "i \<in> dom (slots fs)" using ot(2) by blast
  ultimately obtain fs' where fs': "CloseUser fs i = Some (0, fs')" "unlocked fs'" "open_table fs'" "disk fs' = disk fs"
      "slots fs' = (slots fs)(i := None)"
    using CloseUser_spec [OF un ot(1), of i] by auto
  then show ?thesis
    using fs_inv_same [OF inv fs'(4)] CloseUser_keeps [OF fs'(1)] by (auto simp: CloseFile_def)
qed

text \<open>A file is read as \<open>Client::SendFile\<close> and \<open>Server::SendFile\<close> do.\<close>

lemma read_whole_file:
  assumes "has_file fs nm data"
  shows "FileSize fs nm = Some (int (length data), fs)"
    and "\<exists>fd fs1 fs2 fs3. FileHandler_OpenFile fs nm = Some (fd, fs1) \<and> 0 \<le> fd \<and> ReadFile fs1 fd (int (length data)) = Some (0, data, fs2)
      \<and> CloseFile fs2 fd = Some (0, fs3) \<and> has_file fs3 nm data"
proof -
  obtain objs fm D s bl ib where f: "fs_inv fs objs fm D" "open_table fs" "view D (key nm) = Some s" "objs s = Some (Blocks bl ib)"
      "IsDataFile (decode_hdr (sectors (disk fs) s))" "contents (disk fs) (decode_hdr (sectors (disk fs) s)) bl = data"
      "\<forall>i u. slots fs i = Some u \<longrightarrow> id u \<noteq> s" "dom (slots fs) \<noteq> {0..<10}"
    using assms unfolding has_file_def by blast
  let ?h = "decode_hdr (sectors (disk fs) s)"
  have "objs(s \<mapsto> Blocks bl ib) = objs" using f(4) by (simp add: fun_upd_idem)
  then have n: "numBytes ?h = int (length data)"
    using contents_length [of fs objs s bl ib fm D] f(1,6) by simp
  show "FileSize fs nm = Some (int (length data), fs)"
    using query_there [OF f(1,3)] f(5) n by (simp add: FileSize_def FileHandler_FileExists_def FileLength_def)
  obtain fd fs1 where o: "OpenUser fs nm = Some (fd, fs1)" "slots fs fd = None"
      "slots fs1 = (slots fs)(fd \<mapsto> \<lparr>object = \<lparr>hdr = ?h, seekPosition = 0\<rparr>, id = s, mutex = False\<rparr>)"
      "fs_inv fs1 objs fm D" "open_table fs1" "disk fs1 = disk fs"
    using OpenUser_spec [OF f(1-3) refl f(5,7,8)] by blast
  have s1: "slots fs1 fd = Some \<lparr>object = \<lparr>hdr = ?h, seekPosition = 0\<rparr>, id = s, mutex = False\<rparr>" using o(3) by simp
  have "0 \<le> fd" using slots_range [OF _ s1] o(5) by (simp add: open_table_def)
  obtain fs2 u2 where r: "ReadUser fs1 (int (length data)) fd = Some (int (length data), data, fs2)" "fs_inv fs2 objs fm D" "disk fs2 = disk fs"
      "open_table fs2" "slots fs2 = (slots fs1)(fd \<mapsto> u2)" "id u2 = s" "hdr (object u2) = ?h" "seekPosition (object u2) = int (length data)"
    using ReadUser_spec [OF o(4,5) s1, of bl ib "int (length data)"] f(4,6) o(6) by auto
  have s2: "slots fs2 fd = Some u2" using r(5) by simp
  obtain fs3 u3 where r3: "ReadUser fs2 (int (length data)) fd = Some (0, [], fs3)" "fs_inv fs3 objs fm D" "disk fs3 = disk fs"
      "open_table fs3" "slots fs3 = (slots fs2)(fd \<mapsto> u3)"
    using ReadUser_spec [OF r(2,4) s2, of bl ib "int (length data)"] f(4,6) r(3,6-8) by auto
  obtain fs4 where c: "CloseFile fs3 fd = Some (0, fs4)" "fs_inv fs4 objs fm D" "open_table fs4" "disk fs4 = disk fs3"
      "slots fs4 = (slots fs3)(fd := None)"
    using close_file [OF r3(2,4), of fd u3] r3(5) by auto
  have sl: "slots fs4 = slots fs" using c(5) r3(5) r(5) o(2,3) by (auto simp: fun_eq_iff)
  have d4: "disk fs4 = disk fs" using c(4) r3(3) by simp
  have "has_file fs4 nm data"
    unfolding has_file_def sl d4 using c(2,3) f(3-8) by blast
  moreover have "ReadFile fs1 fd (int (length data)) = Some (0, data, fs3)"
    using r(1) r3(1) by (simp add: ReadFile_def)
  ultimately show "\<exists>fd fs1 fs2 fs3. FileHandler_OpenFile fs nm = Some (fd, fs1) \<and> 0 \<le> fd \<and> ReadFile fs1 fd (int (length data)) = Some (0, data, fs2)
      \<and> CloseFile fs2 fd = Some (0, fs3) \<and> has_file fs3 nm data"
    using o(1) \<open>0 \<le> fd\<close> c(1) by (auto simp: FileHandler_OpenFile_def)
qed

text \<open>A file is stored, as both \<open>ReceiveFile\<close> do, on a disk that has just been formatted.\<close>

lemma store_whole_file:
  assumes v: "dev_wf v" "FileSystem_new v True = Some fs" and nm: "\<not> protected_name nm" and data: "data \<noteq> []" "length data \<le> 924 * 128"
  shows "\<exists>fd fs1 fs2 fs3 fs4. CreateFile fs nm = Some (0, fs1) \<and> FileHandler_OpenFile fs1 nm = Some (fd, fs2) \<and> 0 \<le> fd
    \<and> WriteFile fs2 fd data (int (length data)) = Some (0, fs3) \<and> CloseFile fs3 fd = Some (0, fs4) \<and> has_file fs4 nm data"
proof -
  from create_open [OF v(1) nm] v(2) obtain fs1 fs2 i s objs fm D where
    c: "Create fs nm 0 = Some (True, fs1)" "OpenUser fs1 nm = Some (i, fs2)"
    and f: "fs_inv fs2 objs fm D" "open_table fs2"
      "slots fs2 i = Some \<lparr>object = \<lparr>hdr = decode_hdr (sectors (disk fs2) s), seekPosition = 0\<rparr>, id = s, mutex = False\<rparr>"
      "objs s = Some (Blocks [] [])" "s \<noteq> 0" "s \<noteq> DirectorySector fs2" "card (marked fm) = 6"
      "numBytes (decode_hdr (sectors (disk fs2) s)) = 0" "view D (key nm) = Some s"
      "IsDataFile (decode_hdr (sectors (disk fs2) s))" "dom (slots fs2) = {i}"
    by auto
  obtain objs0 fm0 where "fs_inv fs objs0 fm0 (Directory_new v 10)" "view (Directory_new v 10) = Map.empty"
    using format_open [OF v(1)] v(2) by auto
  then have ex: "FileExists fs nm = Some (False, fs)" using query_absent by simp
  let ?n = "int (length data)"
  have "divRoundUp ?n 128 \<le> 924" by (rule divRoundUp_le) (use data(2) in auto)
  then obtain fs3 u where w: "WriteUser fs2 data ?n i = Some (?n, fs3)" "written fs2 objs D s [] 0 data fs3"
    "slots fs3 = (slots fs2)(i \<mapsto> u)" "open_table fs3" "id u = s" "hdr (object u) = decode_hdr (sectors (disk fs3) s)"
    "ftype (hdr (object u)) = ftype (decode_hdr (sectors (disk fs2) s))"
    using WriteUser_spec [OF f(1-3), of "[]" "[]" "decode_hdr (sectors (disk fs2) s)" data] f(4-8) data
    by (auto simp: contents_def raw_contents_def)
  then obtain bl ib fm3 where i3: "fs_inv fs3 (objs(s \<mapsto> Blocks bl ib)) fm3 D"
    "contents (disk fs3) (decode_hdr (sectors (disk fs3) s)) bl = data"
    by (auto simp: written_def)
  obtain fs4 where cl: "CloseFile fs3 i = Some (0, fs4)" "fs_inv fs4 (objs(s \<mapsto> Blocks bl ib)) fm3 D" "open_table fs4"
      "disk fs4 = disk fs3" "slots fs4 = (slots fs3)(i := None)"
    using close_file [OF i3(1) w(4), of i u] w(3) by auto
  have "slots fs4 = Map.empty" using cl(5) w(3) f(11) by (auto simp: fun_eq_iff)
  then have "has_file fs4 nm data"
    unfolding has_file_def using cl(2-4) f(9,10) i3(2) w(6,7)
    by (intro exI [of _ "objs(s \<mapsto> Blocks bl ib)"] exI [of _ fm3] exI [of _ D] exI [of _ s] exI [of _ bl] exI [of _ ib])
      (simp add: IsDataFile_def)
  moreover have "0 \<le> i" using slots_range [OF _ f(3)] f(2) by (simp add: open_table_def)
  ultimately show ?thesis
    using c ex w(1) cl(1) by (auto simp: CreateFile_def FileHandler_OpenFile_def WriteFile_def)
qed


section \<open>Conversations have one outcome\<close>

text \<open>The step of either side is determined, and the steps of the two sides commute.\<close>

fun client_turn :: "conversation \<Rightarrow> conversation option" where
  "client_turn (Sends m fs k, s, n, q, r) = Some (k fs, s, n, q @ [m], r)"
| "client_turn (Waits fs k, s, n, q, m # r) = Some (k m fs, s, n, q, r)"
| "client_turn _ = None"

fun server_turn :: "(nat \<Rightarrow> byte) \<Rightarrow> nat \<Rightarrow> conversation \<Rightarrow> conversation option" where
  "server_turn st slack (c, Sends m fs k, n, q, r) = Some (c, k fs, n, q, r @ [m])"
| "server_turn st slack (c, Waits fs k, n, m # q, r) = Some (c, k m fs, length m, q, r)"
| "server_turn st slack (c, Return b fs, n, q, r) = Some (c, Waits fs (handle_request st slack n), n, q, r)"
| "server_turn st slack _ = None"

lemma ftp_step_turn: "ftp_step st slack x y \<longleftrightarrow> client_turn x = Some y \<or> server_turn st slack x = Some y"
proof
  show "ftp_step st slack x y \<Longrightarrow> client_turn x = Some y \<or> server_turn st slack x = Some y"
    by (induction rule: ftp_step.induct) auto
next
  assume "client_turn x = Some y \<or> server_turn st slack x = Some y"
  then show "ftp_step st slack x y"
  proof
    assume "client_turn x = Some y"
    then show ?thesis by (cases x rule: client_turn.cases) (auto intro: ftp_step.intros)
  next
    assume "server_turn st slack x = Some y"
    then show ?thesis by (cases "(st, slack, x)" rule: server_turn.cases) (auto intro: ftp_step.intros)
  qed
qed

lemma turns_commute:
  assumes "client_turn x = Some y" "server_turn st slack x = Some z"
  shows "\<exists>w. server_turn st slack y = Some w \<and> client_turn z = Some w"
proof -
  obtain c s n q r where x: "x = (c, s, n, q, r)" by (cases x) auto
  have "(\<exists>m fs k. c = Sends m fs k) \<or> (\<exists>fs k m r'. c = Waits fs k \<and> r = m # r')"
    using assms(1) x by (cases x rule: client_turn.cases) auto
  moreover have "(\<exists>m fs k. s = Sends m fs k) \<or> (\<exists>fs k m q'. s = Waits fs k \<and> q = m # q') \<or> (\<exists>b fs. s = Return b fs)"
    using assms(2) x by (cases "(st, slack, x)" rule: server_turn.cases) auto
  ultimately show ?thesis
    using assms x by auto
qed

lemma ftp_diamond:
  assumes "ftp_step st slack x y" "ftp_step st slack x z"
  shows "y = z \<or> (\<exists>w. ftp_step st slack y w \<and> ftp_step st slack z w)"
proof -
  consider "y = z" | "client_turn x = Some y" "server_turn st slack x = Some z" | "client_turn x = Some z" "server_turn st slack x = Some y"
    using assms unfolding ftp_step_turn by auto
  then show ?thesis
  proof cases
    case 2
    then show ?thesis using turns_commute [OF 2] unfolding ftp_step_turn by blast
  next
    case 3
    then show ?thesis using turns_commute [OF 3] unfolding ftp_step_turn by blast
  qed blast
qed

lemma ftp_strip:
  assumes "(ftp_step st slack ^^ Suc n) x f" "\<And>y. \<not> ftp_step st slack f y" "ftp_step st slack x y"
  shows "(ftp_step st slack ^^ n) y f"
  using assms(1,3)
proof (induction n arbitrary: x y)
  case 0
  then show ?case using ftp_diamond [of st slack x f y] assms(2) by auto
next
  case (Suc n)
  obtain x1 where x1: "ftp_step st slack x x1" "(ftp_step st slack ^^ Suc n) x1 f"
    using relpowp_Suc_D2 [OF Suc.prems(1)] by blast
  from ftp_diamond [OF x1(1) Suc.prems(2)] show ?case
  proof
    assume "\<exists>w. ftp_step st slack x1 w \<and> ftp_step st slack y w"
    then obtain w where w: "ftp_step st slack x1 w" "ftp_step st slack y w" by blast
    show ?thesis using relpowp_Suc_I2 [OF w(2) Suc.IH [OF x1(2) w(1)]] .
  qed (use x1(2) in simp)
qed

text \<open>Once one run has come to an end, every run comes to the same end in the same number of steps.\<close>

lemma one_outcome:
  assumes "(ftp_step st slack ^^ N) x f" "\<And>y. \<not> ftp_step st slack f y" "(ftp_step st slack ^^ n) x y"
  shows "n \<le> N \<and> (ftp_step st slack ^^ (N - n)) y f"
  using assms(3)
proof (induction n arbitrary: y)
  case 0
  then show ?case using assms(1) by simp
next
  case (Suc n)
  obtain z where z: "(ftp_step st slack ^^ n) x z" "ftp_step st slack z y" using Suc.prems by auto
  then have f: "n \<le> N" "(ftp_step st slack ^^ (N - n)) z f" using Suc.IH by blast+
  have "n \<noteq> N"
  proof
    assume "n = N"
    then have "z = f" using f(2) by simp
    then show False using z(2) assms(2) by simp
  qed
  then have "N - n = Suc (N - Suc n)" using f(1) by simp
  then show ?case using ftp_strip [OF _ assms(2) z(2), of "N - Suc n"] f \<open>n \<noteq> N\<close> by auto
qed

text \<open>A run, given by who makes the next step.\<close>

fun ftp_run :: "(nat \<Rightarrow> byte) \<Rightarrow> nat \<Rightarrow> bool list \<Rightarrow> conversation \<Rightarrow> conversation option" where
  "ftp_run st slack [] x = Some x"
| "ftp_run st slack (b # bs) x = (case (if b then client_turn x else server_turn st slack x) of None \<Rightarrow> None | Some y \<Rightarrow> ftp_run st slack bs y)"

lemma ftp_run_steps: "ftp_run st slack bs x = Some y \<Longrightarrow> (ftp_step st slack ^^ length bs) x y"
proof (induction bs arbitrary: x)
  case (Cons b bs)
  then obtain z where z: "(if b then client_turn x else server_turn st slack x) = Some z" "ftp_run st slack bs z = Some y"
    by (auto split: option.splits)
  then have "ftp_step st slack x z" by (auto simp: ftp_step_turn split: if_splits)
  then show ?case using relpowp_Suc_I2 [OF _ Cons.IH [OF z(2)]] by simp
qed simp

text \<open>A conversation ends in \<open>f\<close>: no step is possible there, and every run comes there.\<close>

definition ends_in :: "(nat \<Rightarrow> byte) \<Rightarrow> nat \<Rightarrow> conversation \<Rightarrow> conversation \<Rightarrow> bool" where
  "ends_in st slack x f \<longleftrightarrow> (\<forall>y. \<not> ftp_step st slack f y) \<and> (\<exists>N. \<forall>n y. (ftp_step st slack ^^ n) x y \<longrightarrow> n \<le> N \<and> (ftp_step st slack ^^ (N - n)) y f)"

lemma run_ends_in: "ftp_run st slack bs x = Some f \<Longrightarrow> client_turn f = None \<Longrightarrow> server_turn st slack f = None \<Longrightarrow> ends_in st slack x f"
  using one_outcome [OF ftp_run_steps, of st slack bs x f] unfolding ends_in_def by (intro conjI exI [of _ "length bs"]) (auto simp: ftp_step_turn)

section \<open>Messages arrive\<close>

lemma length_encode_ftp [simp]: "length (encode_ftp ty sz) = 8"
  by (simp add: encode_ftp_def)

lemma ftp_code_int32: "is_int32 (ftp_code ty)"
  by (cases ty) (simp_all add: is_int32_def)

lemma ftp_code_inj [simp]: "ftp_code a = ftp_code b \<longleftrightarrow> a = b"
  by (cases a; cases b) simp_all

lemma header_fields:
  "is_type ty (encode_ftp ty' sz @ rest) \<longleftrightarrow> ty = ty'" "is_int32 sz \<Longrightarrow> ftp_size (encode_ftp ty' sz @ rest) = sz"
proof -
  have t: "take 4 (encode_ftp ty' sz @ rest) = int_bytes (ftp_code ty') @ []" "take 4 (drop 4 (encode_ftp ty' sz @ rest)) = int_bytes sz @ []"
    by (simp_all add: encode_ftp_def)
  show "is_type ty (encode_ftp ty' sz @ rest) \<longleftrightarrow> ty = ty'"
    unfolding is_type_def ftp_type_def t bytes_int_bytes [OF ftp_code_int32] by auto
  show "is_int32 sz \<Longrightarrow> ftp_size (encode_ftp ty' sz @ rest) = sz"
    unfolding ftp_size_def t by (rule bytes_int_bytes)
qed

lemma arrives_whole:
  "length msg mod 32 \<noteq> 0 \<Longrightarrow> length msg \<le> length to \<Longrightarrow> arrives msg to = Some (msg @ drop (length msg) to)"
  by (simp add: arrives_def overlay_def)

lemma stale_length [simp]: "length (stale st n) = nat n" "length (stale28 st) = 28"
  by (simp_all add: stale_def stale28_def)

lemma attempt_Some [simp]: "attempt (Some x) f = f x"
  by (simp add: attempt_def)

lemma note_arrives: "length w = 20 \<Longrightarrow> arrives (encode_ftp ty sz @ w) (stale28 st) = Some (encode_ftp ty sz @ w)"
  using arrives_whole [of "encode_ftp ty sz @ w" "stale28 st"] by simp

lemma note_lengths [simp]: "length server_note = 20" "length client_note = 20" "length client_goodbye = 15"
  by (simp_all add: server_note_def client_note_def client_goodbye_def)

lemma file_arrives:
  assumes "(length data + 8) mod 32 \<noteq> 0"
  shows "arrives (encode_ftp FILEDATA (int (length data)) @ data) (stale st (8 + int (length data))) = Some (encode_ftp FILEDATA (int (length data)) @ data)"
proof -
  have l: "nat (8 + int (length data)) = length data + 8" by simp
  show ?thesis
    using arrives_whole [of "encode_ftp FILEDATA (int (length data)) @ data" "stale st (8 + int (length data))"] assms
    by (simp add: l add.commute)
qed

lemma request_arrives:
  assumes "0 \<notin> set nm" "(length nm + 9) mod 32 \<noteq> 0" "length nm + 9 \<le> n + slack" "is_int32 sz" "ty \<in> {READFILE, WRITEFILE}"
  shows "handle_request st slack n (encode_ftp ty sz @ nm @ [0]) fs = (if ty = READFILE then Server_SendFile st nm fs else Server_ReceiveFile st nm sz fs)"
proof -
  let ?m = "encode_ftp ty sz @ nm @ [0]"
  have l: "nat (int n + int slack) = n + slack" by simp
  let ?rest = "drop (length ?m) (stale st (int n + int slack))"
  have a: "arrives ?m (stale st (int n + int slack)) = Some (encode_ftp ty sz @ (nm @ [0]) @ ?rest)"
    using arrives_whole [of ?m "stale st (int n + int slack)"] assms(2,3) by (simp add: l add.commute add.left_commute)
  have "c_str (nm @ [0]) = nm"
    using assms(1) by (induction nm) simp_all
  moreover have "take (length ?m - 8) (drop 8 (encode_ftp ty sz @ (nm @ [0]) @ ?rest)) = nm @ [0]" by simp
  moreover have "\<not> length ?m < 8" by simp
  ultimately show ?thesis
    unfolding handle_request_def a attempt_Some Let_def header_fields(1) header_fields(2) [OF assms(4)] using assms(5) by fastforce
qed

lemma goodbye_arrives:
  assumes "23 \<le> n + slack"
  shows "handle_request st slack n (encode_ftp DISCONNECT 0 @ client_goodbye) fs = NotifyClient DISCONNECT 0 fs Gone"
proof -
  let ?m = "encode_ftp DISCONNECT 0 @ client_goodbye"
  have l: "nat (int n + int slack) = n + slack" by simp
  have a: "arrives ?m (stale st (int n + int slack)) = Some (encode_ftp DISCONNECT 0 @ client_goodbye @ drop 23 (stale st (int n + int slack)))"
    using arrives_whole [of ?m "stale st (int n + int slack)"] assms by (simp add: l)
  have "\<not> length ?m < 8" by simp
  then show ?thesis
    unfolding handle_request_def a attempt_Some Let_def header_fields(1) by simp
qed

text \<open>Each side of a transfer, as the messages it sends and waits for.\<close>

lemma client_request:
  assumes "ty = READFILE \<and> sz = 0 \<or> ty = WRITEFILE \<and> FileSize fs nm = Some (sz, fs) \<and> 0 \<le> sz"
  shows "SendFileRequest st ty nm fs = Sends (encode_ftp ty sz @ nm @ [0]) fs (\<lambda>fs. ServerConfirmation st fs (\<lambda>ok fileSize fs.
      if \<not> ok then Return False fs else if ty = READFILE then Client_ReceiveFile st nm fileSize fs else Client_SendFile st nm fs))"
  using assms by (auto simp: SendFileRequest_def)

lemmas ftp_parts = NotifyClient_def NotifyServer_def ClientConfirmation_def ServerConfirmation_def Confirmation_def

lemma is_int32_0: "is_int32 0"
  by (simp add: is_int32_def)

lemma goodbye_answered:
  "8 \<le> slack \<Longrightarrow> arrives (encode_ftp DISCONNECT 0 @ server_note) (stale st (20 + int slack))
    = Some (encode_ftp DISCONNECT 0 @ server_note @ drop 28 (stale st (20 + int slack)))"
  using arrives_whole [of "encode_ftp DISCONNECT 0 @ server_note" "stale st (20 + int slack)"] by simp

lemmas messages_arrive = note_arrives [OF note_lengths(1)] note_arrives [OF note_lengths(2)] header_fields(1) header_fields(2) [OF is_int32_0]

lemma write_run:
  assumes nm: "0 \<notin> set nm" "(length nm + 9) mod 32 \<noteq> 0" "length nm + 5 \<le> slack" "8 \<le> slack"
    and data: "(length data + 8) mod 32 \<noteq> 0" "is_int32 (int (length data))"
    and s: "FileSize c nm = Some (int (length data), c)" "FileHandler_OpenFile c nm = Some (fd, c1)" "0 \<le> fd"
      "ReadFile c1 fd (int (length data)) = Some (0, data, c2)" "CloseFile c2 fd = Some (0, c3)"
    and t: "CreateFile s nm = Some (0, s1)" "FileHandler_OpenFile s1 nm = Some (gd, s2)" "0 \<le> gd"
      "WriteFile s2 gd data (int (length data)) = Some (0, s3)" "CloseFile s3 gd = Some (0, s4)"
  shows "ends_in st slack (session st slack CHR ''w'' nm c s) (Return True c3, Gone s4, 23, [], [])"
proof (rule run_ends_in)
  have r: "length nm + 9 \<le> 4 + slack" "23 \<le> 28 + slack" using nm(3) by auto
  show "ftp_run st slack [False, False, True, True, False, False, True, True, True, False, False, False, True, True, True, False, False, False, False, True] (session st slack CHR ''w'' nm c s) = Some (Return True c3, Gone s4, 23, [], [])"
    using s t by (simp add: session_def FTPClientAction_def HandleClient_def Client_Disconnect_def client_request [of WRITEFILE "int (length data)"] ftp_parts
      messages_arrive request_arrives [OF nm(1,2) r(1) data(2)] goodbye_arrives [OF r(2)] goodbye_answered [OF nm(4)]
      header_fields(2) [OF data(2)] file_arrives [OF data(1)] Server_ReceiveFile_def Client_SendFile_def)
qed simp_all

lemma read_run:
  assumes nm: "0 \<notin> set nm" "(length nm + 9) mod 32 \<noteq> 0" "length nm + 5 \<le> slack" "8 \<le> slack"
    and data: "(length data + 8) mod 32 \<noteq> 0" "is_int32 (int (length data))"
    and s: "FileSize s nm = Some (int (length data), s)" "FileHandler_OpenFile s nm = Some (fd, s1)" "0 \<le> fd"
      "ReadFile s1 fd (int (length data)) = Some (0, data, s2)" "CloseFile s2 fd = Some (0, s3)"
    and t: "CreateFile c nm = Some (0, c1)" "FileHandler_OpenFile c1 nm = Some (gd, c2)" "0 \<le> gd"
      "WriteFile c2 gd data (int (length data)) = Some (0, c3)" "CloseFile c3 gd = Some (0, c4)"
  shows "ends_in st slack (session st slack CHR ''r'' nm c s) (Return True c4, Gone s3, 23, [], [])"
proof (rule run_ends_in)
  have r: "length nm + 9 \<le> 4 + slack" "23 \<le> 28 + slack" using nm(3) by auto
  show "ftp_run st slack [False, False, True, True, False, False, True, True, False, False, True, True, False, False, True, True, False, False, False, True] (session st slack CHR ''r'' nm c s) = Some (Return True c4, Gone s3, 23, [], [])"
    using s t by (simp add: session_def FTPClientAction_def HandleClient_def Client_Disconnect_def client_request [of READFILE "0"] ftp_parts
      messages_arrive request_arrives [OF nm(1,2) r(1) is_int32_0] goodbye_arrives [OF r(2)] goodbye_answered [OF nm(4)]
      header_fields(2) [OF data(2)] file_arrives [OF data(1)] Server_SendFile_def Client_ReceiveFile_def)
qed simp_all

section \<open>The clients of a server\<close>

text \<open>The map holds the server itself and its clients, and \<open>nbClients\<close> counts the clients.\<close>

definition server_ok :: "int \<Rightarrow> Server \<Rightarrow> bool" where
  "server_ok addr sv \<longleftrightarrow> bitmap_wf (clientMap sv) \<and> numBits (clientMap sv) = 50 \<and> addr \<in> marked (clientMap sv)
     \<and> card (marked (clientMap sv)) = unat (nbClients sv) + 1"

lemma few_clients: "server_ok addr sv \<Longrightarrow> unat (nbClients sv) < 50"
  using card_mono [OF _ marked_subset [of "clientMap sv"]] by (auto simp: server_ok_def)

lemma Accept_spec:
  assumes sv: "server_ok addr sv" and cl: "0 \<le> cl" "cl < 50"
  shows "\<exists>sv'. Accept cl sv = Some (if cl \<in> marked (clientMap sv) then Refused else Handled, sv') \<and> server_ok addr sv'
    \<and> marked (clientMap sv') = insert cl (marked (clientMap sv))"
proof (cases "cl \<in> marked (clientMap sv)")
  case True
  then show ?thesis using sv cl by (auto simp: Accept_def Test_eq server_ok_def)
next
  case False
  have n: "\<not> nbClients sv \<ge> 50" "unat (nbClients sv + 1) = unat (nbClients sv) + 1"
    using few_clients [OF sv] by (simp_all add: word_le_nat_alt unat_word_ariths(1))
  obtain m where m: "BitMap_Mark (clientMap sv) cl = Some m" "bitmap_wf m" "numBits m = 50" "marked m = insert cl (marked (clientMap sv))"
    using Mark_spec [of "clientMap sv" cl] sv cl by (auto simp: server_ok_def)
  then show ?thesis
    using False sv cl n by (simp add: Accept_def Test_eq server_ok_def ClientConnect_def)
qed

lemma ClientDisconnect_spec:
  assumes sv: "server_ok addr sv" and cl: "cl \<in> marked (clientMap sv)" "cl \<noteq> addr"
  shows "\<exists>sv'. ClientDisconnect cl sv = Some sv' \<and> server_ok addr sv' \<and> marked (clientMap sv') = marked (clientMap sv) - {cl}"
proof -
  have r: "0 \<le> cl" "cl < 50" using marked_subset [of "clientMap sv"] sv cl(1) by (auto simp: server_ok_def)
  obtain m where m: "BitMap_Clear (clientMap sv) cl = Some m" "bitmap_wf m" "numBits m = 50" "marked m = marked (clientMap sv) - {cl}"
    using Clear_spec [of "clientMap sv" cl] sv r by (auto simp: server_ok_def)
  have "card {addr, cl} \<le> card (marked (clientMap sv))"
    using sv cl by (intro card_mono) (auto simp: server_ok_def)
  then have "0 < unat (nbClients sv)" using sv cl(2) by (simp add: server_ok_def)
  then have "unat (nbClients sv - 1) = unat (nbClients sv) - 1" by (simp add: unat_sub_if')
  then show ?thesis
    using sv cl r m \<open>0 < unat (nbClients sv)\<close> by (simp add: ClientDisconnect_def Test_eq server_ok_def ASSERT_def card_Diff_singleton)
qed

section \<open>Properties\<close>



text \<open>
  C37. The arrays of \<open>HandleClient\<close> are too small: with fewer than \<open>length nm + 5\<close> bytes to spare behind them, the request for a file overruns
  \<open>buffer\<close>, which has the four bytes of the message that set up the connection, whatever the files are.
\<close>

theorem first_request_overruns:
  assumes "slack < length nm + 5"
  shows "\<exists>k. ends_in st slack (session st slack CHR ''r'' nm c s) (Waits c k, Abort, length nm + 9, [], [])"
proof -
  have "arrives (encode_ftp READFILE 0 @ nm @ [0]) (stale st (4 + int slack)) = None"
    using assms by (simp add: arrives_def nat_add_distrib)
  then have "\<exists>k. ftp_run st slack [False, False, True, True, False] (session st slack CHR ''r'' nm c s) = Some (Waits c k, Abort, length nm + 9, [], [])"
    by (simp add: session_def FTPClientAction_def HandleClient_def client_request [of READFILE 0] ftp_parts messages_arrive handle_request_def attempt_def add.commute)
  then show ?thesis using run_ends_in by fastforce
qed

text \<open>The properties on a session between two machines with small disks, one file and a name of one letter.\<close>

lemma sample_file: "\<exists>fs. has_file fs [97] [7, 8, 9]"
proof -
  have "\<not> protected_name [97]" by (simp add: protected_name_def streq_def)
  moreover obtain fs where "FileSystem_new blank_disk True = Some fs" using format_open [OF blank_wf] by auto
  ultimately show ?thesis using store_whole_file [OF blank_wf, of fs "[97]" "[7, 8, 9]"] by auto
qed



theorem first_request_overruns_witness:
  "\<exists>c s k. FileSystem_new blank_disk True = Some s \<and> ends_in (\<lambda>_. 0) 0 (session (\<lambda>_. 0) 0 CHR ''r'' [97] c s) (Waits c k, Abort, 10, [], [])"
proof -
  obtain fs where "FileSystem_new blank_disk True = Some fs" using format_open [OF blank_wf] by auto
  then show ?thesis using first_request_overruns [of 0 "[97]" "\<lambda>_. 0" fs fs] by auto
qed

end
