(* ===== verification/FsTest.thy ===== *)
theory FsTest
  imports Ftp
begin

text \<open>
  The commands that \<open>main\<close> offers on the file system, src/code/filesys/fstest.cc: copying a file of the host, printing
  a file, the performance test and the small shell.
\<close>

section \<open>Model\<close>

subsection \<open>Copying and printing\<close>

abbreviation TransferSize :: nat where "TransferSize \<equiv> 100"

text \<open>The loops over the chunks that \<open>fread\<close> gives of the host's file, here what is left of it.\<close>

function write_chunks :: "int \<Rightarrow> byte list \<Rightarrow> FileSystem \<Rightarrow> FileSystem option" where
  "write_chunks openFile left fs =
     (if left = [] then Some fs
      else do {
        (_, fs) \<leftarrow> WriteUser fs (take TransferSize left) (int (length (take TransferSize left))) openFile;
        write_chunks openFile (drop TransferSize left) fs
      })"
  by pat_completeness auto
termination
  by (relation "measure (\<lambda>(f, left, fs). length left)") auto

function read_chunks :: "int \<Rightarrow> byte list \<Rightarrow> FileSystem \<Rightarrow> FileSystem option" where
  "read_chunks openFile left fs =
     (if left = [] then Some fs
      else do {
        (_, _, fs) \<leftarrow> ReadUser fs (int (length (take TransferSize left))) openFile;
        read_chunks openFile (drop TransferSize left) fs
      })"
  by pat_completeness auto
termination
  by (relation "measure (\<lambda>(f, left, fs). length left)") auto

declare write_chunks.simps [simp del] read_chunks.simps [simp del]

text \<open>\<open>from1\<close> and \<open>from2\<close>: what the host's file holds each time it is opened, \<open>None\<close> if it cannot be opened.\<close>

definition Copy :: "byte list option \<Rightarrow> byte list option \<Rightarrow> cname \<Rightarrow> FileSystem \<Rightarrow> FileSystem option" where
  "Copy from1 from2 to fs =
     (case from1 of
        None \<Rightarrow> Some fs
      | Some data \<Rightarrow> do {
          (ok, fs) \<leftarrow> Create fs to 0;
          if \<not> ok then Some fs
          else do {
            (openFile, fs) \<leftarrow> OpenUser fs to;
            ASSERT (openFile \<noteq> - 1);
            fs \<leftarrow> write_chunks openFile data fs;
            (_, fs) \<leftarrow> CloseUser fs openFile;
            case from2 of
              None \<Rightarrow> Some fs
            | Some data2 \<Rightarrow> do {
                (openFile, fs) \<leftarrow> OpenUser fs to;
                ASSERT (openFile \<noteq> - 1);
                fs \<leftarrow> read_chunks openFile data2 fs;
                (_, fs) \<leftarrow> CloseUser fs openFile;
                Some fs
              }
          }
        })"

text \<open>\<open>Print\<close>: what it prints of the file, \<open>None\<close> if there is none.\<close>

partial_function (option) print_loop :: "dev \<Rightarrow> OpenFile \<Rightarrow> byte list option" where
  "print_loop v f = do {
     (bs, f) \<leftarrow> OpenFile_Read v f (int TransferSize);
     if bs = [] then Some []
     else do {
       rest \<leftarrow> print_loop v f;
       Some (bs @ rest)
     }
   }"

definition Print :: "cname \<Rightarrow> FileSystem \<Rightarrow> (byte list option \<times> FileSystem) option" where
  "Print nm fs = do {
     (openFile, fs) \<leftarrow> Open fs nm;
     case openFile of
       None \<Rightarrow> Some (None, fs)
     | Some f \<Rightarrow> do {
         out \<leftarrow> print_loop (disk fs) f;
         Some (Some out, fs)
       }
   }"

subsection \<open>The performance test\<close>

definition perf_name :: cname where
  "perf_name = map of_char ''TestFile''"

definition perf_contents :: "byte list" where
  "perf_contents = map of_char ''1234567890''"

text \<open>The loops of 5000 steps; the result tells whether they have come to their end.\<close>

fun perf_write :: "nat \<Rightarrow> int \<Rightarrow> FileSystem \<Rightarrow> (bool \<times> FileSystem) option" where
  "perf_write 0 openFile fs = Some (True, fs)"
| "perf_write (Suc n) openFile fs = do {
     (numBytes, fs) \<leftarrow> WriteUser fs perf_contents 10 openFile;
     if numBytes < 10 then Some (False, fs) else perf_write n openFile fs
   }"

fun perf_read :: "nat \<Rightarrow> int \<Rightarrow> FileSystem \<Rightarrow> (bool \<times> FileSystem) option" where
  "perf_read 0 openFile fs = Some (True, fs)"
| "perf_read (Suc n) openFile fs = do {
     (numBytes, buffer, fs) \<leftarrow> ReadUser fs 10 openFile;
     if numBytes < 10 \<or> take 10 buffer \<noteq> perf_contents then Some (False, fs) else perf_read n openFile fs
   }"

definition FileWrite :: "FileSystem \<Rightarrow> (bool \<times> FileSystem) option" where
  "FileWrite fs = do {
     (ok, fs) \<leftarrow> Create fs perf_name 0;
     if \<not> ok then Some (False, fs)
     else do {
       (openFile, fs) \<leftarrow> OpenUser fs perf_name;
       if openFile = - 1 then Some (False, fs)
       else do {
         (ok, fs) \<leftarrow> perf_write 5000 openFile fs;
         (_, fs) \<leftarrow> CloseUser fs openFile;
         Some (ok, fs)
       }
     }
   }"

definition FileRead :: "FileSystem \<Rightarrow> (bool \<times> FileSystem) option" where
  "FileRead fs = do {
     (openFile, fs) \<leftarrow> OpenUser fs perf_name;
     if openFile = - 1 then Some (False, fs)
     else do {
       (ok, fs) \<leftarrow> perf_read 5000 openFile fs;
       (_, fs) \<leftarrow> CloseUser fs openFile;
       Some (ok, fs)
     }
   }"

definition PerformanceTest :: "FileSystem \<Rightarrow> ((bool \<times> bool \<times> bool) \<times> FileSystem) option" where
  "PerformanceTest fs = do {
     (written_ok, fs) \<leftarrow> FileWrite fs;
     (read_ok, fs) \<leftarrow> FileRead fs;
     (removed_ok, fs) \<leftarrow> Remove fs perf_name;
     Some ((written_ok, read_ok, removed_ok), fs)
   }"

subsection \<open>The shell\<close>

text \<open>
  One line of \<open>FileSystemTest\<close>. The array \<open>commandLine\<close> has an entry for each space of the line, and \<open>buffer\<close> has 100 bytes; again, \<open>slack\<close> entries or
  bytes behind an array may be written without harm. An argument that is not there is an uninitialised pointer. \<open>Leave\<close>: the loop has ended;
  \<open>Execute\<close>: \<open>do_ForkExec\<close> and \<open>do_ProcessJoin\<close> of the program follow. What \<open>printf\<close> shows is left out, the bytes are those put on the console.
\<close>

datatype shell = Prompt | Leave | Execute cname

fun words_of :: "byte list \<Rightarrow> byte list \<Rightarrow> cname list" where
  "words_of [] word = (if word = [] then [] else [word])"
| "words_of (c # cs) word = (if c = 32 \<or> c = 10 then (if word = [] then [] else [word]) @ words_of cs [] else words_of cs (word @ [c]))"

definition nth_word :: "nat \<Rightarrow> nat \<Rightarrow> cname list \<Rightarrow> cname option" where
  "nth_word nbWord k ws = do {
     ASSERT (nbWord > k);
     if k < length ws then Some (ws ! k) else None
   }"

partial_function (option) cat_loop :: "nat \<Rightarrow> int \<Rightarrow> FileSystem \<Rightarrow> (byte list \<times> FileSystem) option" where
  "cat_loop slack fd fs = do {
     (val, bs, fs) \<leftarrow> ReadUser fs 100 fd;
     if val > 0 then do {
       ASSERT (val < 100 + int slack);
       (out, fs) \<leftarrow> cat_loop slack fd fs;
       Some (c_str (bs @ [0]) @ out, fs)
     } else Some ([], fs)
   }"

definition shell_cat :: "nat \<Rightarrow> cname \<Rightarrow> FileSystem \<Rightarrow> (shell \<times> byte list \<times> FileSystem) option" where
  "shell_cat slack nm fs = do {
     (fd, fs) \<leftarrow> OpenUser fs nm;
     if fd = - 1 then Some (Leave, [], fs)
     else do {
       (out, fs) \<leftarrow> cat_loop slack fd fs;
       (_, fs) \<leftarrow> CloseUser fs fd;
       Some (Prompt, out @ [10], fs)
     }
   }"

definition shell_echo :: "cname \<Rightarrow> cname \<Rightarrow> FileSystem \<Rightarrow> (shell \<times> byte list \<times> FileSystem) option" where
  "shell_echo word nm fs = do {
     (fd, fs) \<leftarrow> OpenUser fs nm;
     if fd = - 1 then Some (Leave, [], fs)
     else do {
       (_, fs) \<leftarrow> WriteUser fs word (int (length word)) fd;
       (_, fs) \<leftarrow> CloseUser fs fd;
       Some (Prompt, [], fs)
     }
   }"

definition shell_test :: "FileSystem \<Rightarrow> (shell \<times> byte list \<times> FileSystem) option" where
  "shell_test fs = (let nm = map of_char ''Test'' in do {
     (ok, fs) \<leftarrow> Create fs nm 0;
     if \<not> ok then Some (Leave, [], fs)
     else do {
       (fd, fs) \<leftarrow> OpenUser fs nm;
       if fd = - 1 then Some (Leave, [], fs)
       else do {
         (val, fs) \<leftarrow> WriteUser fs (map of_char ''Hello, World!'' @ [0]) 14 fd;
         if val < 0 then Some (Leave, [], fs)
         else do {
           (_, fs) \<leftarrow> SeekUser fs fd 0;
           (val, _, fs) \<leftarrow> ReadUser fs 14 fd;
           if val < 0 then Some (Leave, [], fs)
           else do {
             (_, fs) \<leftarrow> CloseUser fs fd;
             Some (Prompt, [], fs)
           }
         }
       }
     }
   })"

definition quietly :: "(bool \<times> FileSystem) option \<Rightarrow> (shell \<times> byte list \<times> FileSystem) option" where
  "quietly x = do { (_, fs) \<leftarrow> x; Some (Prompt, [], fs) }"

definition is_command :: "cname list \<Rightarrow> string \<Rightarrow> bool" where
  "is_command ws s \<longleftrightarrow> ws \<noteq> [] \<and> hd ws = map of_char s"

definition shell_command :: "nat \<Rightarrow> byte list option \<Rightarrow> byte list option \<Rightarrow> nat \<Rightarrow> cname list \<Rightarrow> FileSystem
    \<Rightarrow> (shell \<times> byte list \<times> FileSystem) option" where
  "shell_command slack from1 from2 nbWord ws fs =
     (if ws = [] then None
      else if is_command ws ''ls'' then do { (_, fs) \<leftarrow> FileSystem_List fs; Some (Prompt, [], fs) }
      else if is_command ws ''cp'' then do { ASSERT (nbWord > 2); _ \<leftarrow> nth_word nbWord 1 ws; to \<leftarrow> nth_word nbWord 2 ws; fs \<leftarrow> Copy from1 from2 to fs; Some (Prompt, [], fs) }
      else if is_command ws ''rm'' then do { nm \<leftarrow> nth_word nbWord 1 ws; quietly (Remove fs nm) }
      else if is_command ws ''mkdir'' then do { nm \<leftarrow> nth_word nbWord 1 ws; quietly (CreateDir fs nm) }
      else if is_command ws ''rmdir'' then do { nm \<leftarrow> nth_word nbWord 1 ws; quietly (RemoveDir fs nm) }
      else if is_command ws ''cd'' then do { nm \<leftarrow> nth_word nbWord 1 ws; quietly (ChangeDir fs nm) }
      else if is_command ws ''p'' then Some (Prompt, [], fs)
      else if is_command ws ''touch'' then do { nm \<leftarrow> nth_word nbWord 1 ws; quietly (Create fs nm 0) }
      else if is_command ws ''cat'' then do { nm \<leftarrow> nth_word nbWord 1 ws; shell_cat slack nm fs }
      else if is_command ws ''echo'' then do { w \<leftarrow> nth_word nbWord 1 ws; nm \<leftarrow> nth_word nbWord 2 ws; shell_echo w nm fs }
      else if is_command ws ''test'' then shell_test fs
      else if is_command ws ''run'' then do { nm \<leftarrow> nth_word nbWord 1 ws; Some (Execute nm, [], fs) }
      else if is_command ws ''quit'' then Some (Leave, [], fs)
      else Some (Prompt, [], fs))"

definition shell_line :: "nat \<Rightarrow> byte list option \<Rightarrow> byte list option \<Rightarrow> byte list \<Rightarrow> FileSystem \<Rightarrow> (shell \<times> byte list \<times> FileSystem) option" where
  "shell_line slack from1 from2 line fs =
     (let nbWord = length (filter (\<lambda>c. c = 32) line); ws = words_of line [] in
      if line = [] then Some (Prompt, [], fs)
      else do {
        ASSERT (length ws \<le> nbWord + slack);
        shell_command slack from1 from2 (Suc nbWord) ws fs
      })"

section \<open>Filling a file\<close>

text \<open>The file with the header in sector \<open>s\<close> is the only open one, in slot \<open>i\<close>, and has been filled up to its end with \<open>w\<close>.\<close>

definition filling :: "objects \<Rightarrow> Directory \<Rightarrow> int \<Rightarrow> int \<Rightarrow> byte list \<Rightarrow> FileSystem \<Rightarrow> bool" where
  "filling objs D s i w fs \<longleftrightarrow> (\<exists>bl ib fm u. fs_inv fs (objs(s \<mapsto> Blocks bl ib)) fm D \<and> open_table fs \<and> slots fs = [i \<mapsto> u]
     \<and> id u = s \<and> hdr (object u) = decode_hdr (sectors (disk fs) s) \<and> IsDataFile (hdr (object u)) \<and> seekPosition (object u) = int (length w)
     \<and> contents (disk fs) (hdr (object u)) bl = w)"

lemma filling_space:
  assumes "fs_inv fs (objs(s \<mapsto> Blocks bl ib)) fm D" "finite (in_use objs)" "s \<in> in_use objs"
  shows "card (marked fm) \<le> card (in_use objs) + length bl + 29"
proof -
  have "space_inv (disk fs) fm (objs(s \<mapsto> Blocks bl ib))" using assms(1) by (simp add: fs_inv_def)
  then have sp: "marked fm = in_use (objs(s \<mapsto> Blocks bl ib))" "obj_ok (disk fs) s (Blocks bl ib)" by (simp_all add: space_inv_def)
  have "length ib \<le> 29"
    using sp(2) by (cases ib) (auto simp: obj_ok_def file_blocks_def indirect_blocks_def direct_blocks_def split: if_splits)
  have "in_use (objs(s \<mapsto> Blocks bl ib)) \<subseteq> in_use objs \<union> set (bl @ ib)"
    using assms(3) by (auto simp: in_use_def owned_def split: if_splits)
  then have "card (marked fm) \<le> card (in_use objs \<union> set (bl @ ib))"
    unfolding sp(1) using assms(2) by (intro card_mono) auto
  also have "\<dots> \<le> card (in_use objs) + card (set (bl @ ib))" by (rule card_Un_le)
  also have "\<dots> \<le> card (in_use objs) + (length bl + length ib)" using card_length [of "bl @ ib"] by simp
  finally show ?thesis using \<open>length ib \<le> 29\<close> by simp
qed

lemma data_not_directory:
  assumes "fs_inv fs objs fm D" "IsDataFile (decode_hdr (sectors (disk fs) s))"
  shows "s \<noteq> DirectorySector fs"
  using assms by (auto simp: fs_inv_def IsDataFile_def IsDirectory_def)

lemma fill_more:
  assumes f: "filling objs D s i w fs" and s: "s \<noteq> 0" "s \<in> in_use objs" "card (in_use objs) \<le> 6" "finite (in_use objs)"
    and data: "data \<noteq> []" "length w + length data \<le> 924 * 128"
  shows "\<exists>fs'. WriteUser fs data (int (length data)) i = Some (int (length data), fs') \<and> filling objs D s i (w @ data) fs'"
proof -
  obtain bl ib fm u where x: "fs_inv fs (objs(s \<mapsto> Blocks bl ib)) fm D" "open_table fs" "slots fs = [i \<mapsto> u]" "id u = s"
      "hdr (object u) = decode_hdr (sectors (disk fs) s)" "IsDataFile (hdr (object u))" "seekPosition (object u) = int (length w)"
      "contents (disk fs) (hdr (object u)) bl = w"
    using f unfolding filling_def by blast
  let ?h = "decode_hdr (sectors (disk fs) (id u))"
  have sl: "slots fs i = Some u" "(objs(s \<mapsto> Blocks bl ib)) (id u) = Some (Blocks bl ib)" using x(3,4) by simp_all
  have nb: "numBytes ?h = int (length w)" using contents_length [of fs objs s bl ib fm D] x(1,4,5,8) by simp
  have "divRoundUp (int (length w) + int (length data)) 128 \<le> 924" by (rule divRoundUp_le) (use data(2) in auto)
  moreover have "card (marked fm) \<le> 6 + length bl + 29" using filling_space [OF x(1) s(4,2)] s(3) by simp
  ultimately have room: "\<not> 1024 \<le> int (card (marked fm)) + divRoundUp (int (length w) + int (length data)) 128 - int (length bl) + 29" by simp
  have dd: "id u \<noteq> DirectorySector fs" using data_not_directory [OF x(1)] x(4-6) by simp
  have p: "id u \<noteq> 0" "0 \<le> seekPosition (object u)" "seekPosition (object u) \<le> numBytes ?h" "seekPosition (object u) + int (length data) \<le> 924 * 128"
      "\<not> 1024 \<le> int (card (marked fm)) + divRoundUp (seekPosition (object u) + int (length data)) 128 - int (length bl) + 29"
    using s(1) x(4,7) nb room data(2) by simp_all
  have W: "contents (disk fs) ?h bl = w" "nat (seekPosition (object u)) = length w" using x(4,5,7,8) by simp_all
  obtain fs' u' where w0: "WriteUser fs data (int (length data)) i = Some (int (length data), fs')"
      "written fs (objs(s \<mapsto> Blocks bl ib)) D (id u) (contents (disk fs) ?h bl) (nat (seekPosition (object u))) data fs'"
      "slots fs' = (slots fs)(i \<mapsto> u')" "open_table fs'" "id u' = id u" "hdr (object u') = decode_hdr (sectors (disk fs') (id u))"
      "ftype (hdr (object u')) = ftype ?h" "seekPosition (object u') = seekPosition (object u) + int (length data)"
    using WriteUser_spec [OF x(1,2) sl(1,2) p(1) dd p(2,3) data(1) p(4) refl] p(5) by blast
  note w = w0 [unfolded W(1), unfolded W(2) x(4,7)]
  from w(2) obtain bl' ib' fm' where w': "fs_inv fs' (objs(s \<mapsto> Blocks bl' ib')) fm' D" "contents (disk fs') (decode_hdr (sectors (disk fs') s)) bl' = w @ data"
    by (auto simp: written_def)
  have "filling objs D s i (w @ data) fs'"
    unfolding filling_def using w w' x(3-6)
    by (intro exI [of _ bl'] exI [of _ ib'] exI [of _ fm'] exI [of _ u']) (simp add: IsDataFile_def)
  with w(1) show ?thesis by blast
qed

lemma write_chunks_fill:
  assumes "filling objs D s i w fs" "s \<noteq> 0" "s \<in> in_use objs" "card (in_use objs) \<le> 6" "finite (in_use objs)" "length w + length data \<le> 924 * 128"
  shows "\<exists>fs'. write_chunks i data fs = Some fs' \<and> filling objs D s i (w @ data) fs'"
  using assms(1,6)
proof (induction "length data" arbitrary: data w fs rule: less_induct)
  case less
  show ?case
  proof (cases "data = []")
    case True
    then show ?thesis using less.prems by (simp add: write_chunks.simps)
  next
    case False
    let ?x = "take TransferSize data" and ?y = "drop TransferSize data"
    have l: "length w + length ?x \<le> 924 * 128" "?x \<noteq> []" "length ?y < length data" "length (w @ ?x) + length ?y \<le> 924 * 128" "(w @ ?x) @ ?y = w @ data"
      using less.prems(2) False by auto
    from fill_more [OF less.prems(1) assms(2-5) l(2,1)] obtain fs1 where
      w: "WriteUser fs ?x (int (length ?x)) i = Some (int (length ?x), fs1)" "filling objs D s i (w @ ?x) fs1"
      by blast
    from less.hyps [OF l(3) w(2) l(4)] obtain fs' where "write_chunks i ?y fs1 = Some fs'" "filling objs D s i (w @ data) fs'"
      unfolding l(5) by blast
    then show ?thesis using False w(1) by (simp add: write_chunks.simps [of i data fs])
  qed
qed

lemma perf_write_fill:
  assumes "filling objs D s i w fs" "s \<noteq> 0" "s \<in> in_use objs" "card (in_use objs) \<le> 6" "finite (in_use objs)" "length w + 10 * n \<le> 924 * 128"
  shows "\<exists>fs'. perf_write n i fs = Some (True, fs') \<and> filling objs D s i (w @ concat (replicate n perf_contents)) fs'"
  using assms(1,6)
proof (induction n arbitrary: w fs)
  case (Suc n)
  have c: "length perf_contents = 10" "perf_contents \<noteq> []" by (simp_all add: perf_contents_def)
  have "length w + length perf_contents \<le> 924 * 128" using Suc.prems(2) c(1) by simp
  from fill_more [OF Suc.prems(1) assms(2-5) c(2) this] obtain fs1 where
    w: "WriteUser fs perf_contents 10 i = Some (10, fs1)" "filling objs D s i (w @ perf_contents) fs1"
    using c(1) by auto
  have "length (w @ perf_contents) + 10 * n \<le> 924 * 128" using Suc.prems(2) c(1) by simp
  from Suc.IH [OF w(2) this] show ?case using w(1) by auto
qed simp

text \<open>A file that has just been created, and one that is closed after it has been filled.\<close>

lemma created_filling:
  assumes v: "dev_wf v" "FileSystem_new v True = Some fs" and nm: "\<not> protected_name nm"
  obtains fs1 fs2 i s objs D where "Create fs nm 0 = Some (True, fs1)" "OpenUser fs1 nm = Some (i, fs2)" "i \<noteq> - 1" "filling objs D s i [] fs2"
    "s \<noteq> 0" "s \<in> in_use objs" "card (in_use objs) \<le> 6" "finite (in_use objs)" "view D (key nm) = Some s"
proof -
  from create_open [OF v(1) nm] v(2) obtain fs1 fs2 i s objs fm D where
    c: "Create fs nm 0 = Some (True, fs1)" "OpenUser fs1 nm = Some (i, fs2)"
    and f: "fs_inv fs2 objs fm D" "open_table fs2"
      "slots fs2 i = Some \<lparr>object = \<lparr>hdr = decode_hdr (sectors (disk fs2) s), seekPosition = 0\<rparr>, id = s, mutex = False\<rparr>"
      "objs s = Some (Blocks [] [])" "s \<noteq> 0" "card (marked fm) = 6" "view D (key nm) = Some s"
      "IsDataFile (decode_hdr (sectors (disk fs2) s))" "dom (slots fs2) = {i}"
    by auto
  have sl: "slots fs2 = [i \<mapsto> \<lparr>object = \<lparr>hdr = decode_hdr (sectors (disk fs2) s), seekPosition = 0\<rparr>, id = s, mutex = False\<rparr>]"
    using f(3,9) by (auto simp: fun_eq_iff dom_def)
  have "objs(s \<mapsto> Blocks [] []) = objs" using f(4) by (simp add: fun_upd_idem)
  then have fl: "filling objs D s i [] fs2"
    unfolding filling_def using f(1,2,8) sl
    by (intro exI [of _ "[]"] exI [of _ fm] exI [of _ "\<lparr>object = \<lparr>hdr = decode_hdr (sectors (disk fs2) s), seekPosition = 0\<rparr>, id = s, mutex = False\<rparr>"])
      (simp add: contents_def raw_contents_def)
  have "space_inv (disk fs2) fm objs" using f(1) by (simp add: fs_inv_def)
  then have "in_use objs = marked fm" by (simp add: space_inv_def)
  then have "card (in_use objs) \<le> 6" "finite (in_use objs)" using f(6) by simp_all
  moreover have "s \<in> in_use objs" using f(4) by (auto simp: in_use_def owned_def)
  moreover have "i \<noteq> - 1" using slots_range [OF _ f(3)] f(2) by (auto simp: open_table_def)
  ultimately show ?thesis using that c fl f(5,7) by blast
qed

lemma filled_closed:
  assumes f: "filling objs D s i w fs" and nm: "view D (key nm) = Some s"
  shows "\<exists>fs'. CloseUser fs i = Some (0, fs') \<and> has_file fs' nm w \<and> slots fs' = Map.empty"
proof -
  obtain bl ib fm u where x: "fs_inv fs (objs(s \<mapsto> Blocks bl ib)) fm D" "open_table fs" "slots fs = [i \<mapsto> u]" "id u = s"
      "hdr (object u) = decode_hdr (sectors (disk fs) s)" "IsDataFile (hdr (object u))" "contents (disk fs) (hdr (object u)) bl = w"
    using f unfolding filling_def by blast
  obtain fs' where c: "CloseFile fs i = Some (0, fs')" "fs_inv fs' (objs(s \<mapsto> Blocks bl ib)) fm D" "open_table fs'" "disk fs' = disk fs"
      "slots fs' = (slots fs)(i := None)"
    using close_file [OF x(1,2), of i u] x(3) by auto
  have e: "slots fs' = Map.empty" using c(5) x(3) by auto
  have "has_file fs' nm w"
    unfolding has_file_def e c(4) using c(2,3) nm x(5-7)
    by (intro exI [of _ "objs(s \<mapsto> Blocks bl ib)"] exI [of _ fm] exI [of _ D] exI [of _ s] exI [of _ bl] exI [of _ ib]) simp
  then show ?thesis using c(1) e by (auto simp: CloseFile_def)
qed

section \<open>Reading a file\<close>

text \<open>The file \<open>nm\<close> with the contents \<open>data\<close> is open in slot \<open>i\<close>, at the position \<open>p\<close>.\<close>

definition opened :: "FileSystem \<Rightarrow> cname \<Rightarrow> byte list \<Rightarrow> int \<Rightarrow> nat \<Rightarrow> bool" where
  "opened fs nm data i p \<longleftrightarrow> (\<exists>objs fm D s bl ib u. fs_inv fs objs fm D \<and> open_table fs \<and> view D (key nm) = Some s
     \<and> objs s = Some (Blocks bl ib) \<and> IsDataFile (decode_hdr (sectors (disk fs) s)) \<and> slots fs i = Some u \<and> id u = s
     \<and> hdr (object u) = decode_hdr (sectors (disk fs) s) \<and> seekPosition (object u) = int p \<and> contents (disk fs) (hdr (object u)) bl = data
     \<and> (\<forall>j w. j \<noteq> i \<longrightarrow> slots fs j = Some w \<longrightarrow> id w \<noteq> s))"

lemma open_existing:
  assumes "has_file fs nm data"
  shows "\<exists>i fs'. OpenUser fs nm = Some (i, fs') \<and> i \<noteq> - 1 \<and> opened fs' nm data i 0 \<and> slots fs i = None \<and> dom (slots fs') = insert i (dom (slots fs))"
proof -
  obtain objs fm D s bl ib where f: "fs_inv fs objs fm D" "open_table fs" "view D (key nm) = Some s" "objs s = Some (Blocks bl ib)"
      "IsDataFile (decode_hdr (sectors (disk fs) s))" "contents (disk fs) (decode_hdr (sectors (disk fs) s)) bl = data"
      "\<forall>i u. slots fs i = Some u \<longrightarrow> id u \<noteq> s" "dom (slots fs) \<noteq> {0..<10}"
    using assms unfolding has_file_def by blast
  let ?u = "\<lparr>object = \<lparr>hdr = decode_hdr (sectors (disk fs) s), seekPosition = 0\<rparr>, id = s, mutex = False\<rparr>"
  obtain i fs' where o: "OpenUser fs nm = Some (i, fs')" "slots fs i = None" "slots fs' = (slots fs)(i \<mapsto> ?u)" "fs_inv fs' objs fm D" "open_table fs'" "disk fs' = disk fs"
    using OpenUser_spec [OF f(1-3) refl f(5,7,8)] by blast
  have "slots fs' i = Some ?u" using o(3) by simp
  then have "i \<noteq> - 1" using slots_range [of fs' i ?u] o(5) by (auto simp: open_table_def)
  moreover have "opened fs' nm data i 0"
    unfolding opened_def using o f(3-7) by (intro exI [of _ objs] exI [of _ fm] exI [of _ D] exI [of _ s] exI [of _ bl] exI [of _ ib] exI [of _ ?u]) auto
  ultimately show ?thesis using o(1-3) by auto
qed

lemma read_step:
  assumes "opened fs nm data i p"
  shows "\<exists>fs'. ReadUser fs n i = Some (int (length (take (nat n) (drop p data))), take (nat n) (drop p data), fs')
    \<and> opened fs' nm data i (p + length (take (nat n) (drop p data))) \<and> dom (slots fs') = dom (slots fs)"
proof -
  obtain objs fm D s bl ib u where x: "fs_inv fs objs fm D" "open_table fs" "view D (key nm) = Some s"
      "objs s = Some (Blocks bl ib)" "IsDataFile (decode_hdr (sectors (disk fs) s))" "slots fs i = Some u" "id u = s"
      "hdr (object u) = decode_hdr (sectors (disk fs) s)" "seekPosition (object u) = int p" "contents (disk fs) (hdr (object u)) bl = data"
      "\<forall>j w. j \<noteq> i \<longrightarrow> slots fs j = Some w \<longrightarrow> id w \<noteq> s"
    using assms unfolding opened_def by blast
  let ?bs = "take (nat n) (drop p data)"
  obtain fs' u' where r: "ReadUser fs n i = Some (int (length ?bs), ?bs, fs')" "fs_inv fs' objs fm D" "disk fs' = disk fs" "open_table fs'"
      "slots fs' = (slots fs)(i \<mapsto> u')" "id u' = s" "hdr (object u') = hdr (object u)" "seekPosition (object u') = int p + int (length ?bs)"
    using ReadUser_spec [OF x(1,2,6), of bl ib n] x(4,7-10) by auto
  have "opened fs' nm data i (p + length ?bs)"
    unfolding opened_def using r(2-8) x(3-5,8,10,11)
    by (intro exI [of _ objs] exI [of _ fm] exI [of _ D] exI [of _ s] exI [of _ bl] exI [of _ ib] exI [of _ u']) auto
  moreover have "dom (slots fs') = dom (slots fs)" using r(5) x(6) by auto
  ultimately show ?thesis using r(1) by blast
qed

lemma close_opened:
  assumes "opened fs nm data i p" "dom (slots fs) = {i}"
  shows "\<exists>fs'. CloseUser fs i = Some (0, fs') \<and> has_file fs' nm data \<and> slots fs' = Map.empty"
proof -
  obtain objs fm D s bl ib u where x: "fs_inv fs objs fm D" "open_table fs" "view D (key nm) = Some s"
      "objs s = Some (Blocks bl ib)" "IsDataFile (decode_hdr (sectors (disk fs) s))" "slots fs i = Some u"
      "hdr (object u) = decode_hdr (sectors (disk fs) s)" "contents (disk fs) (hdr (object u)) bl = data"
    using assms(1) unfolding opened_def by blast
  obtain fs' where c: "CloseFile fs i = Some (0, fs')" "fs_inv fs' objs fm D" "open_table fs'" "disk fs' = disk fs" "slots fs' = (slots fs)(i := None)"
    using close_file [OF x(1,2,6)] by blast
  have e: "slots fs' = Map.empty" using c(5) assms(2) by (auto simp: fun_eq_iff)
  have "has_file fs' nm data" unfolding has_file_def e c(4) using c(2,3) x(3-5,7,8)
    by (intro exI [of _ objs] exI [of _ fm] exI [of _ D] exI [of _ s] exI [of _ bl] exI [of _ ib]) auto
  then show ?thesis using c(1) e by (auto simp: CloseFile_def)
qed

lemma read_chunks_opened:
  assumes "opened fs nm data i p"
  shows "\<exists>fs' p'. read_chunks i left fs = Some fs' \<and> opened fs' nm data i p' \<and> dom (slots fs') = dom (slots fs)"
  using assms
proof (induction "length left" arbitrary: left fs p rule: less_induct)
  case less
  show ?case
  proof (cases "left = []")
    case True
    then show ?thesis using less.prems by (auto simp: read_chunks.simps)
  next
    case False
    obtain fs1 p1 where r: "ReadUser fs (int (length (take TransferSize left))) i
        = Some (int (length (take (nat (int (length (take TransferSize left)))) (drop p data))), take (nat (int (length (take TransferSize left)))) (drop p data), fs1)"
        "opened fs1 nm data i p1" "dom (slots fs1) = dom (slots fs)"
      using read_step [OF less.prems] by blast
    have "length (drop TransferSize left) < length left" using False by simp
    from less.hyps [OF this r(2)] show ?thesis using r(1,3) False by (auto simp: read_chunks.simps [of i left fs])
  qed
qed

lemma perf_read_opened:
  assumes "opened fs perf_name (w @ concat (replicate n perf_contents)) i (length w)"
  shows "\<exists>fs' p'. perf_read n i fs = Some (True, fs') \<and> opened fs' perf_name (w @ concat (replicate n perf_contents)) i p' \<and> dom (slots fs') = dom (slots fs)"
  using assms
proof (induction n arbitrary: w fs)
  case (Suc n)
  have c: "length perf_contents = 10" by (simp add: perf_contents_def)
  have d: "take (nat 10) (drop (length w) (w @ concat (replicate (Suc n) perf_contents))) = perf_contents" using c by simp
  obtain fs1 where r: "ReadUser fs 10 i = Some (10, perf_contents, fs1)" "opened fs1 perf_name (w @ concat (replicate (Suc n) perf_contents)) i (length w + 10)"
      "dom (slots fs1) = dom (slots fs)"
    using read_step [OF Suc.prems, of 10] unfolding d c by auto
  have a: "w @ concat (replicate (Suc n) perf_contents) = (w @ perf_contents) @ concat (replicate n perf_contents)" "length w + 10 = length (w @ perf_contents)"
    using c by simp_all
  show ?case using Suc.IH [of fs1 "w @ perf_contents"] r c unfolding a by auto
qed auto

lemma print_loop_all:
  assumes "\<And>p. 0 \<le> p \<Longrightarrow> ReadAt v h (int TransferSize) p = Some (take TransferSize (drop (nat p) data))"
  shows "print_loop v \<lparr>hdr = h, seekPosition = int p\<rparr> = Some (drop p data)"
proof (induction "length data - p" arbitrary: p rule: less_induct)
  case less
  let ?bs = "take TransferSize (drop p data)"
  have r: "OpenFile_Read v \<lparr>hdr = h, seekPosition = int p\<rparr> (int TransferSize) = Some (?bs, \<lparr>hdr = h, seekPosition = int (p + length ?bs)\<rparr>)"
    using assms [of "int p"] by (simp add: OpenFile_Read_def)
  show ?case
  proof (cases "?bs = []")
    case True
    then show ?thesis using r by (subst print_loop.simps) (auto simp: r)
  next
    case False
    then have "length data - (p + length ?bs) < length data - p" by auto
    from less [OF this] have "print_loop v \<lparr>hdr = h, seekPosition = int (p + length ?bs)\<rparr> = Some (drop (p + length ?bs) data)" .
    moreover have "?bs @ drop (p + length ?bs) data = drop p data"
      by (metis add.commute append_take_drop_id drop_drop length_take min.cobounded2 min_def take_all_iff drop_all nle_le)
    ultimately show ?thesis using False by (subst print_loop.simps) (simp only: r bind.bind_lunit prod.case if_False)
  qed
qed

lemma print_file:
  assumes "has_file fs nm data"
  shows "Print nm fs = Some (Some data, fs)"
proof -
  obtain objs fm D s bl ib where f: "fs_inv fs objs fm D" "view D (key nm) = Some s" "objs s = Some (Blocks bl ib)"
      "contents (disk fs) (decode_hdr (sectors (disk fs) s)) bl = data"
    using assms unfolding has_file_def by blast
  let ?h = "decode_hdr (sectors (disk fs) s)"
  note d = fs_invD [OF f(1)]
  have un: "\<not> directoryMutex fs" using d(2) by (auto simp: unlocked_def)
  have fd: "fetch_directory (fs\<lparr>directoryMutex := True\<rparr>) = Some D" by (rule fs_inv_fetch(1) [OF f(1)]) simp_all
  have s: "Directory_Find D nm = s" "0 < s" "s < NumSectors" using Find_fs(2) [OF f(1,2)] by auto
  have "file_blocks (disk fs) ?h bl ib" using d(14) [OF f(3)] by (simp add: obj_ok_def)
  then have mt: "maps_to (disk fs) ?h bl (set ib)" by (rule file_blocks_maps_to [OF d(1)])
  have "ReadAt (disk fs) ?h (int TransferSize) p = Some (take TransferSize (drop (nat p) data))" if "0 \<le> p" for p
    using ReadAt_spec [OF d(1) mt that, of "int TransferSize"] f(4) by simp
  then have "print_loop (disk fs) \<lparr>hdr = ?h, seekPosition = int 0\<rparr> = Some (drop 0 data)" by (rule print_loop_all)
  moreover have "OpenFile_new (disk fs) s = Some \<lparr>hdr = ?h, seekPosition = 0\<rparr>"
    using s FetchFrom_sector [of s "disk fs"] by (simp add: OpenFile_new_def)
  ultimately show ?thesis
    using un fd s by (simp add: Print_def Open_def lock_defs relock_directory)
qed

section \<open>Properties\<close>



text \<open>
  The performance test passes on a disk that has just been formatted: all 50000 bytes are written and read back,
  and the file is removed.
\<close>

lemma performance_test_passes:
  assumes "dev_wf v" "FileSystem_new v True = Some fs"
  shows "\<exists>fs'. PerformanceTest fs = Some ((True, True, True), fs') \<and> FileExists fs' perf_name = Some (False, fs')"
proof -
  let ?data = "concat (replicate 5000 perf_contents)"
  have nm: "\<not> protected_name perf_name" by (simp add: protected_name_def streq_def perf_name_def)
  have "length (concat (replicate n perf_contents)) = 10 * n" for n by (induction n) (simp_all add: perf_contents_def)
  from this [of 5000] have len: "length ?data = 50000" by simp
  obtain fs1 fs2 i s objs D where c: "Create fs perf_name 0 = Some (True, fs1)" "OpenUser fs1 perf_name = Some (i, fs2)" "i \<noteq> - 1" "filling objs D s i [] fs2"
    "s \<noteq> 0" "s \<in> in_use objs" "card (in_use objs) \<le> 6" "finite (in_use objs)" "view D (key perf_name) = Some s"
    using created_filling [OF assms nm] .
  obtain fs3 where w: "perf_write 5000 i fs2 = Some (True, fs3)" "filling objs D s i ?data fs3"
    using perf_write_fill [OF c(4-8), of 5000] by auto
  obtain fs4 where x: "CloseUser fs3 i = Some (0, fs4)" "has_file fs4 perf_name ?data" "slots fs4 = Map.empty"
    using filled_closed [OF w(2) c(9)] by blast
  obtain j fs5 where o: "OpenUser fs4 perf_name = Some (j, fs5)" "j \<noteq> - 1" "opened fs5 perf_name ?data j 0" "dom (slots fs5) = {j}"
    using open_existing [OF x(2)] x(3) by auto
  obtain fs6 p where r: "perf_read 5000 j fs5 = Some (True, fs6)" "opened fs6 perf_name ?data j p" "dom (slots fs6) = {j}"
    using perf_read_opened [of fs5 "[]" 5000 j] o(3,4) by auto
  obtain fs7 where y: "CloseUser fs6 j = Some (0, fs7)" "has_file fs7 perf_name ?data" "slots fs7 = Map.empty" using close_opened [OF r(2,3)] by blast
  obtain objs' fm D' s' bl ib where f: "fs_inv fs7 objs' fm D'" "open_table fs7" "view D' (key perf_name) = Some s'" "objs' s' = Some (Blocks bl ib)"
      "IsDataFile (decode_hdr (sectors (disk fs7) s'))" "contents (disk fs7) (decode_hdr (sectors (disk fs7) s')) bl = ?data"
    using y(2) unfolding has_file_def by blast
  have "length bl \<noteq> 28"
  proof -
    have "length (contents (disk fs7) (decode_hdr (sectors (disk fs7) s')) bl) \<le> 128 * length bl"
      using fs_invD(1) [OF f(1)] by (simp add: contents_def)
    then show ?thesis using f(6) len by simp
  qed
  then obtain fs' where "Remove fs7 perf_name = Some (True, fs')" "removed objs' D' perf_name s' fs'"
    using Remove_spec_fs [OF f(1,2), of perf_name] f(3-5) y(3) by auto
  moreover from this(2) have "FileExists fs' perf_name = Some (False, fs')"
    unfolding removed_def using query_absent by fastforce
  ultimately show ?thesis
    using c(1-3) w(1) x(1) o(1,2) r(1) y(1) by (simp add: PerformanceTest_def FileWrite_def FileRead_def)
qed

section \<open>The shell\<close>

text \<open>\<open>cat\<close> shows a file without zero bytes, if there is room for the zero behind a full buffer.\<close>

lemma c_str_text: "0 \<notin> set bs \<Longrightarrow> c_str (bs @ [0]) = bs"
  by (induction bs) simp_all

lemma cat_loop_all:
  assumes "opened fs nm data i p" "0 \<notin> set data" "0 < slack"
  shows "\<exists>fs' p'. cat_loop slack i fs = Some (drop p data, fs') \<and> opened fs' nm data i p' \<and> dom (slots fs') = dom (slots fs)"
  using assms(1)
proof (induction "length data - p" arbitrary: p fs rule: less_induct)
  case less
  let ?bs = "take 100 (drop p data)"
  obtain fs1 where r: "ReadUser fs 100 i = Some (int (length ?bs), ?bs, fs1)" "opened fs1 nm data i (p + length ?bs)" "dom (slots fs1) = dom (slots fs)"
    using read_step [OF less.prems, of 100] by auto
  show ?case
  proof (cases "?bs = []")
    case True
    then have "drop p data = []" by auto
    then show ?thesis using r by (subst cat_loop.simps) auto
  next
    case False
    then have "length data - (p + length ?bs) < length data - p" by auto
    from less.hyps [OF this r(2)] obtain fs' p' where h: "cat_loop slack i fs1 = Some (drop (p + length ?bs) data, fs')" "opened fs' nm data i p'"
        "dom (slots fs') = dom (slots fs)"
      using r(3) by auto
    have e: "?bs @ drop (p + length ?bs) data = drop p data"
      by (metis add.commute append_take_drop_id drop_drop length_take min.cobounded2 min_def take_all_iff drop_all nle_le)
    have "0 \<notin> set ?bs" using assms(2) by (meson in_set_dropD in_set_takeD)
    then have "c_str (?bs @ [0]) @ drop (p + length ?bs) data = drop p data" using c_str_text e by simp
    moreover have "0 < int (length ?bs)" "int (length ?bs) < 100 + int slack" using False assms(3) by auto
    ultimately have "cat_loop slack i fs = Some (drop p data, fs')"
      by (subst cat_loop.simps) (simp only: r(1) h(1) bind.bind_lunit prod.case if_True ASSERT_def)
    then show ?thesis using h(2,3) by blast
  qed
qed

lemma cat_shows:
  assumes "has_file fs nm data" "slots fs = Map.empty" "0 \<notin> set data" "0 < slack"
  shows "\<exists>fs'. shell_cat slack nm fs = Some (Prompt, data @ [10], fs') \<and> has_file fs' nm data \<and> slots fs' = Map.empty"
proof -
  obtain i fs1 where o: "OpenUser fs nm = Some (i, fs1)" "i \<noteq> - 1" "opened fs1 nm data i 0" "dom (slots fs1) = {i}"
    using open_existing [OF assms(1)] assms(2) by auto
  obtain fs2 p where c: "cat_loop slack i fs1 = Some (data, fs2)" "opened fs2 nm data i p" "dom (slots fs2) = {i}"
    using cat_loop_all [OF o(3) assms(3,4)] o(4) by auto
  obtain fs' where "CloseUser fs2 i = Some (0, fs')" "has_file fs' nm data" "slots fs' = Map.empty" using close_opened [OF c(2,3)] by blast
  then show ?thesis using o(1,2) c(1) by (auto simp: shell_cat_def)
qed

text \<open>
  Without that room the shell fails: on a file of at least 100 bytes, and already on every line whose words are
  separated by single spaces.
\<close>

lemma cat_overruns:
  assumes "has_file fs nm data" "100 \<le> length data"
  shows "shell_cat 0 nm fs = None"
proof -
  obtain i fs1 where o: "OpenUser fs nm = Some (i, fs1)" "i \<noteq> - 1" "opened fs1 nm data i 0" using open_existing [OF assms(1)] by auto
  obtain fs2 where "ReadUser fs1 100 i = Some (100, take 100 data, fs2)" using read_step [OF o(3), of 100] assms(2) by auto
  then have "cat_loop 0 i fs1 = None" by (subst cat_loop.simps) (simp add: ASSERT_def)
  then show ?thesis using o(1,2) by (simp add: shell_cat_def)
qed

lemma command_line_overruns:
  assumes "length (filter (\<lambda>c. c = 32) line) < length (words_of line [])"
  shows "shell_line 0 from1 from2 line fs = None"
proof -
  have "line \<noteq> []" using assms by auto
  then show ?thesis using assms by (simp add: shell_line_def ASSERT_def Let_def)
qed

end
