(* ===== verification/Migrate.thy ===== *)
theory Migrate
  imports UserThreads
begin

text \<open>
  Migration of processes: src/code/network/migrate.cc. \<open>SendProcess\<close> sends the memory, the registers, the semaphores and the
  threads of a process over a connection, every byte and every integer as a message of its own; \<open>ListenProcess\<close> builds
  a process from them on another machine.
\<close>

section \<open>Model\<close>

subsection \<open>Sending\<close>

abbreviation INT_MAX :: u32 where "INT_MAX \<equiv> 0x7fffffff"

text \<open>
  The state of the line: the number of calls of \<open>Send\<close> and the messages that have been sent. \<open>ok n\<close> is the result of call \<open>n\<close>;
  \<open>Send\<close> returns false when it has given up waiting for the acknowledgement.
\<close>

type_synonym line = "nat \<times> byte list list"

definition send_message :: "(nat \<Rightarrow> bool) \<Rightarrow> byte list \<Rightarrow> line \<Rightarrow> bool \<times> line" where
  "send_message ok msg l = (ok (fst l), Suc (fst l), if ok (fst l) then snd l @ [msg] else snd l)"

fun send_all :: "(nat \<Rightarrow> bool) \<Rightarrow> byte list list \<Rightarrow> line \<Rightarrow> bool \<times> line" where
  "send_all ok [] l = (True, l)"
| "send_all ok (msg # msgs) l = (case send_message ok msg l of (b, l) \<Rightarrow> if b then send_all ok msgs l else (False, l))"

text \<open>The loops over the pages and their bytes; \<open>stale\<close> is what \<open>value\<close> holds when \<open>ReadMem\<close> fails.\<close>

fun send_bytes :: "handler \<Rightarrow> (nat \<Rightarrow> bool) \<Rightarrow> byte \<Rightarrow> u32 \<Rightarrow> nat \<Rightarrow> line \<Rightarrow> Machine \<Rightarrow> (bool \<times> line \<times> Machine) option" where
  "send_bytes eh ok stale a 0 l m = Some (True, l, m)"
| "send_bytes eh ok stale a (Suc n) l m = do {
     (v, m) \<leftarrow> ReadMem eh m a 1;
     let (b, l) = send_message ok [case v of None \<Rightarrow> stale | Some v \<Rightarrow> ucast v] l;
     if b then send_bytes eh ok stale (a + 1) n l m else Some (False, l, m)
   }"

fun send_pages :: "handler \<Rightarrow> (nat \<Rightarrow> bool) \<Rightarrow> byte \<Rightarrow> nat \<Rightarrow> nat \<Rightarrow> line \<Rightarrow> Machine \<Rightarrow> (bool \<times> line \<times> Machine) option" where
  "send_pages eh ok stale nPage 0 l m = Some (True, l, m)"
| "send_pages eh ok stale nPage (Suc n) l m = do {
     (b, l, m) \<leftarrow> send_bytes eh ok stale (of_nat nPage * 128) PageSize l m;
     if b then send_pages eh ok stale (Suc nPage) n l m else Some (False, l, m)
   }"

text \<open>\<open>semValue i\<close> is \<open>semList[i]->value\<close>; \<open>thr t\<close> are the registers of the thread \<open>threads[t]\<close>, \<open>tm\<close> is \<open>tidMap\<close>.\<close>

definition sem_message :: "AddrSpace \<Rightarrow> (int \<Rightarrow> u32) \<Rightarrow> int \<Rightarrow> byte list option" where
  "sem_message sp semValue i = do {
     b \<leftarrow> BitMap_Test (semBitmap sp) i;
     Some (le32 (if b then semValue i else INT_MAX))
   }"

definition sent_thread :: "AddrSpace \<Rightarrow> BitMap \<Rightarrow> (int \<rightharpoonup> u32 list) \<Rightarrow> nat \<Rightarrow> (u32 \<times> u32 list) option option" where
  "sent_thread sp tm thr i =
     (case localThreadsInfos sp ! i of
        None \<Rightarrow> Some None
      | Some info \<Rightarrow>
          if thread_id info < MaxThreads \<and> thr (thread_id info) \<noteq> None then do {
            b \<leftarrow> BitMap_Test tm (thread_id info);
            Some (if b then Some (userthread_id info, the (thr (thread_id info))) else None)
          } else Some None)"

definition thread_messages :: "(u32 \<times> u32 list) option \<Rightarrow> byte list list" where
  "thread_messages x = (case x of None \<Rightarrow> [le32 INT_MAX] | Some (userthread, regs) \<Rightarrow> le32 userthread # map le32 regs)"

text \<open>\<open>SendProcess\<close> of the thread with the registers \<open>regs\<close>; without a connection it reads through a null pointer.\<close>

definition SendProcess :: "handler \<Rightarrow> (nat \<Rightarrow> bool) \<Rightarrow> byte \<Rightarrow> bool \<Rightarrow> AddrSpace \<Rightarrow> u32 list \<Rightarrow> (int \<Rightarrow> u32) \<Rightarrow> BitMap \<Rightarrow> (int \<rightharpoonup> u32 list)
    \<Rightarrow> Machine \<Rightarrow> (bool \<times> line \<times> Machine) option" where
  "SendProcess eh ok stale connected sp regs semValue tm thr m = do {
     ASSERT connected;
     let (_, l) = send_message ok (le32 (numPages sp)) (0, []);
     (b, l, m) \<leftarrow> send_pages eh ok stale 0 (unat (numPages sp)) l m;
     if \<not> b then Some (False, l, m)
     else do {
       let (b, l) = send_all ok (map le32 regs) l;
       if \<not> b then Some (False, l, m)
       else do {
         sems \<leftarrow> those (map (sem_message sp semValue) [0..MAX_SEM - 1]);
         let (b, l) = send_all ok sems l;
         if \<not> b then Some (False, l, m)
         else do {
           let (b, l) = send_message ok (le32 (of_int (nThreads sp))) l;
           if \<not> b then Some (False, l, m)
           else do {
             thrs \<leftarrow> those (map (sent_thread sp tm thr) [0..<MaxThreadsPerProcess]);
             let (b, l) = send_all ok (concat (map thread_messages thrs)) l;
             Some (b, l, m)
           }
         }
       }
     }
   }"

subsection \<open>Receiving\<close>

text \<open>
  \<open>Receive\<close> waits for a message, for ever if none comes; a message of another size than the variable it is received
  into, which \<open>SendProcess\<close> never sends, is not followed further.
\<close>

fun receive :: "nat \<Rightarrow> byte list list \<Rightarrow> (byte list \<times> byte list list) option" where
  "receive n [] = None"
| "receive n (msg # msgs) = (if length msg = n then Some (msg, msgs) else None)"

definition receive_int :: "byte list list \<Rightarrow> (u32 \<times> byte list list) option" where
  "receive_int msgs = do { (bs, msgs) \<leftarrow> receive 4 msgs; Some (unle32 bs, msgs) }"

fun receive_ints :: "nat \<Rightarrow> byte list list \<Rightarrow> (u32 list \<times> byte list list) option" where
  "receive_ints 0 msgs = Some ([], msgs)"
| "receive_ints (Suc n) msgs = do {
     (v, msgs) \<leftarrow> receive_int msgs;
     (vs, msgs) \<leftarrow> receive_ints n msgs;
     Some (v # vs, msgs)
   }"

fun receive_bytes :: "handler \<Rightarrow> u32 \<Rightarrow> nat \<Rightarrow> byte list list \<Rightarrow> Machine \<Rightarrow> (byte list list \<times> Machine) option" where
  "receive_bytes eh a 0 msgs m = Some (msgs, m)"
| "receive_bytes eh a (Suc n) msgs m = do {
     (bs, msgs) \<leftarrow> receive 1 msgs;
     (_, m) \<leftarrow> WriteMem eh m a 1 (scast (bs ! 0));
     receive_bytes eh (a + 1) n msgs m
   }"

fun receive_pages :: "handler \<Rightarrow> nat \<Rightarrow> nat \<Rightarrow> byte list list \<Rightarrow> Machine \<Rightarrow> (byte list list \<times> Machine) option" where
  "receive_pages eh nPage 0 msgs m = Some (msgs, m)"
| "receive_pages eh nPage (Suc n) msgs m = do {
     (msgs, m) \<leftarrow> receive_bytes eh (of_nat nPage * 128) PageSize msgs m;
     receive_pages eh (Suc nPage) n msgs m
   }"

text \<open>
  The state of \<open>ListenProcess\<close>: the system, the space that it fills and the registers of the threads it has made. \<open>ks i\<close> and \<open>ts i\<close>
  are the addresses of the semaphore and of the thread with the index \<open>i\<close>.
\<close>

record Arrival =
  sys :: UserSys
  newSpace :: AddrSpace
  sems :: "int \<rightharpoonup> nat"
  userRegisters :: "nat \<rightharpoonup> u32 list"

definition receive_sem :: "(int \<Rightarrow> nat) \<Rightarrow> int \<Rightarrow> byte list list \<times> Arrival \<Rightarrow> (byte list list \<times> Arrival) option" where
  "receive_sem ks i x = (case x of (msgs, ar) \<Rightarrow> do {
     (semValue, msgs) \<leftarrow> receive_int msgs;
     if semValue \<noteq> INT_MAX then do {
       b \<leftarrow> BitMap_Mark (semBitmap (newSpace ar)) i;
       Some (msgs, ar\<lparr>newSpace := (newSpace ar)\<lparr>semBitmap := b\<rparr>, sems := (sems ar)(i \<mapsto> ks i),
         sys := (sys ar)\<lparr>semObjects := (semObjects (sys ar))(ks i \<mapsto> sint semValue)\<rparr>\<rparr>)
     } else Some (msgs, ar)
   })"

text \<open>A thread of the process. An index of \<open>threadsInfos\<close> below zero, when the ids are used up, is outside the array.\<close>

definition receive_thread :: "(nat \<Rightarrow> nat) \<Rightarrow> nat \<Rightarrow> nat \<Rightarrow> byte list list \<times> Arrival \<Rightarrow> (byte list list \<times> Arrival) option" where
  "receive_thread ts a i x = (case x of (msgs, ar) \<Rightarrow> do {
     (userThreadid, msgs) \<leftarrow> receive_int msgs;
     if userThreadid \<noteq> INT_MAX then do {
       (ntid, us) \<leftarrow> new_tid (sys ar);
       let sp = newSpace ar;
       b \<leftarrow> BitMap_Mark (threadsBitmap sp) (int i);
       ASSERT (0 \<le> ntid);
       let info = \<lparr>addrspace_idx = int i, userthread_id = userThreadid, thread_id = ntid\<rparr>;
       let sp = sp\<lparr>threadsBitmap := b, localThreadsInfos := (localThreadsInfos sp)[i := Some info],
         nextUserThreadid := (if nextUserThreadid sp > userThreadid + 1 then nextUserThreadid sp else userThreadid + 1)\<rparr>;
       (regs, msgs) \<leftarrow> receive_ints NumTotalRegs msgs;
       Some (msgs, ar\<lparr>newSpace := sp, userRegisters := (userRegisters ar)(ts i \<mapsto> regs),
         sys := us\<lparr>procs := (procs us)\<lparr>threadsInfos := (threadsInfos (procs us))(ntid \<mapsto> info)\<rparr>,
           uthreads := (uthreads us)(ts i \<mapsto> \<lparr>ut_tid = ntid, ut_space = Some a, isMain = False, upos = In_user, ut_args = (0, 0, 0)\<rparr>)\<rparr>\<rparr>)
     } else Some (msgs, ar)
   })"

fun each :: "('a \<Rightarrow> 'b \<Rightarrow> 'b option) \<Rightarrow> 'a list \<Rightarrow> 'b \<Rightarrow> 'b option" where
  "each f [] x = Some x"
| "each f (i # is) x = do { x \<leftarrow> f i x; each f is x }"

text \<open>
  \<open>ListenProcess\<close> of the thread with the space \<open>tmp\<close>, once \<open>Listen\<close> has returned a connection: \<open>a\<close> and \<open>t0\<close> are the addresses of the
  new space and of its main thread, \<open>heap\<close> and \<open>nt\<close> what \<open>new\<close> finds in memory. The result is what the call returns, the system, the registers of
  the new threads and the messages that are left. When there is no room the connection is kept open.
\<close>

definition ListenProcess :: "handler \<Rightarrow> (nat \<Rightarrow> nat \<Rightarrow> u32) \<Rightarrow> int \<Rightarrow> nat \<Rightarrow> nat \<Rightarrow> (nat \<Rightarrow> nat) \<Rightarrow> (int \<Rightarrow> nat) \<Rightarrow> AddrSpace \<Rightarrow> byte list list
    \<Rightarrow> UserSys \<Rightarrow> (int \<times> UserSys \<times> (nat \<rightharpoonup> u32 list) \<times> byte list list) option" where
  "ListenProcess eh heap nt a t0 ts ks tmp msgs us =
     (if nUsedAddrSpace us \<ge> MaxProcesses then Some (- 1, us, Map.empty, msgs)
      else do {
        let us = us\<lparr>nUsedAddrSpace := nUsedAddrSpace us + 1\<rparr>;
        (nPages, msgs) \<leftarrow> receive_int msgs;
        ps \<leftarrow> AddrSpace_empty heap nt a nPages (procs us);
        sp \<leftarrow> spaces ps a;
        let m = RestoreState sp (mach ps);
        (msgs, m) \<leftarrow> receive_pages eh 0 (unat nPages) msgs m;
        pt \<leftarrow> pageTable m;
        let sp = sp\<lparr>as_pageTable := pt\<rparr>;
        let us = us\<lparr>procs := ps\<lparr>mach := m\<rparr>\<rparr>;
        (tid, us) \<leftarrow> new_tid us;
        (regs, msgs) \<leftarrow> receive_ints NumTotalRegs msgs;
        let regs = regs[2 := 1];
        (msgs, ar) \<leftarrow> each (receive_sem ks) [0..MAX_SEM - 1] (msgs, \<lparr>sys = us, newSpace = sp, sems = Map.empty, userRegisters = Map.empty\<rparr>);
        (nThr, msgs) \<leftarrow> receive_int msgs;
        let ar = ar\<lparr>newSpace := (newSpace ar)\<lparr>nThreads := sint nThr\<rparr>\<rparr>;
        (msgs, ar) \<leftarrow> each (receive_thread ts a) [0..<MaxThreadsPerProcess] (msgs, ar);
        let us = sys ar;
        Some (pid (newSpace ar), us\<lparr>procs := (procs us)\<lparr>spaces := (spaces (procs us))(a \<mapsto> newSpace ar), mach := RestoreState tmp (mach (procs us))\<rparr>,
            uthreads := (uthreads us)(t0 \<mapsto> \<lparr>ut_tid = tid, ut_space = Some a, isMain = True, upos = In_user, ut_args = (0, 0, 0)\<rparr>),
            semList := (semList us)(a := sems ar)\<rparr>,
          (userRegisters ar)(t0 \<mapsto> regs), msgs)
      })"

section \<open>What is sent\<close>

definition all_sent :: "(nat \<Rightarrow> bool) \<Rightarrow> bool" where
  "all_sent ok \<longleftrightarrow> (\<forall>n. ok n)"

lemma send_message_ok: "all_sent ok \<Longrightarrow> send_message ok msg (n, w) = (True, Suc n, w @ [msg])"
  by (simp add: send_message_def all_sent_def)

lemma send_all_ok: "all_sent ok \<Longrightarrow> send_all ok msgs (n, w) = (True, n + length msgs, w @ msgs)"
  by (induction msgs arbitrary: n w) (simp_all add: send_message_ok)

lemma load_byte:
  assumes "installed m pt" "unat a < PageSize * length pt"
  obtains m' pt' where "ReadMem eh m a 1 = Some (Some (scast (view pt (mainMemory m) ! unat a)), m')" "installed m' pt'" "map core pt' = map core pt"
    "mainMemory m' = mainMemory m"
proof -
  have "unat a div PageSize < length pt" using assms(2) by auto
  then have "access m False a 1 = Some (frame (pt ! (unat a div PageSize)) * PageSize + unat a mod PageSize)"
    using installed_access [OF assms(1), of 1 False a] by (simp add: aligned_simps(3))
  from ReadMem_ok [OF installed_ok [OF assms(1)] _ this, of eh] obtain x m' where
    "ReadMem eh m a 1 = Some (Some x, m')" "x = scast (view pt (mainMemory m) ! unat a)" "same_core m m'" "mainMemory m' = mainMemory m"
    using assms(2) by (auto simp: load_bytes_def nth_view)
  then show ?thesis using same_core_installed [OF assms(1)] that by metis
qed

lemma low_byte: "(ucast (scast (b :: byte) :: u32) :: byte) = b"
  by (rule bit_word_eqI) (auto simp: bit_simps)

lemma send_bytes_spec:
  assumes "all_sent ok" "installed m pt" "unat a + k \<le> PageSize * length pt"
  shows "\<exists>m' pt'. send_bytes eh ok stale a k (n, w) m = Some (True, (n + k, w @ map (\<lambda>x. [x]) (take k (drop (unat a) (view pt (mainMemory m))))), m')
    \<and> installed m' pt' \<and> map core pt' = map core pt \<and> mainMemory m' = mainMemory m"
  using assms(2,3)
proof (induction k arbitrary: a n w m pt)
  case 0
  then show ?case by auto
next
  case (Suc k)
  have lt: "unat a < PageSize * length pt" using Suc.prems(2) by simp
  obtain m1 pt1 where r: "ReadMem eh m a 1 = Some (Some (scast (view pt (mainMemory m) ! unat a)), m1)" "installed m1 pt1"
      "map core pt1 = map core pt" "mainMemory m1 = mainMemory m"
    using load_byte [OF Suc.prems(1) lt] .
  have "length pt \<le> NumPhysPages" using Suc.prems(1) table_wf_length by (auto simp: installed_def)
  then have "unat a + 1 < 2 ^ 32" using lt by simp
  then have a: "unat (a + 1) = Suc (unat a)" using unat_add_lem [of a 1] by simp
  have v: "view pt1 (mainMemory m1) = view pt (mainMemory m)" using core_view [OF r(3)] r(4) by simp
  have len: "length pt1 = length pt" using map_core_length [OF r(3)] .
  have d: "drop (unat a) (view pt (mainMemory m)) = view pt (mainMemory m) ! unat a # drop (Suc (unat a)) (view pt (mainMemory m))"
    using lt by (simp add: Cons_nth_drop_Suc)
  have "unat (a + 1) + k \<le> PageSize * length pt1" using Suc.prems(2) a len by simp
  from Suc.IH [OF r(2) this, of "Suc n" "w @ [[view pt (mainMemory m) ! unat a]]"] show ?case
    using r v a d by (auto simp: send_message_ok [OF assms(1)] low_byte)
qed

lemma send_pages_spec:
  assumes "all_sent ok" "installed m pt" "nPage + k \<le> length pt"
  shows "\<exists>n' m' pt'. send_pages eh ok stale nPage k (n, w) m
      = Some (True, (n', w @ map (\<lambda>x. [x]) (take (PageSize * k) (drop (PageSize * nPage) (view pt (mainMemory m))))), m')
    \<and> installed m' pt' \<and> map core pt' = map core pt \<and> mainMemory m' = mainMemory m"
  using assms(2,3)
proof (induction k arbitrary: nPage n w m pt)
  case 0
  then show ?case by auto
next
  case (Suc k)
  have l: "length pt \<le> NumPhysPages" using Suc.prems(1) table_wf_length by (auto simp: installed_def)
  have "unat (of_nat (PageSize * nPage) :: u32) = PageSize * nPage"
    unfolding unat_of_nat take_bit_eq_mod using l Suc.prems(2) by simp
  then have a: "unat (of_nat nPage * 128 :: u32) = PageSize * nPage" by (simp add: mult.commute)
  have "unat (of_nat nPage * 128 :: u32) + PageSize \<le> PageSize * length pt" using Suc.prems(2) a by simp
  from send_bytes_spec [OF assms(1) Suc.prems(1) this, of eh stale n w] obtain m1 pt1 where
    r: "send_bytes eh ok stale (of_nat nPage * 128) PageSize (n, w) m
        = Some (True, (n + PageSize, w @ map (\<lambda>x. [x]) (take PageSize (drop (PageSize * nPage) (view pt (mainMemory m))))), m1)"
      "installed m1 pt1" "map core pt1 = map core pt" "mainMemory m1 = mainMemory m"
    unfolding a by blast
  have v: "view pt1 (mainMemory m1) = view pt (mainMemory m)" using core_view [OF r(3)] r(4) by simp
  have "Suc nPage + k \<le> length pt1" using Suc.prems(2) map_core_length [OF r(3)] by simp
  from Suc.IH [OF r(2) this, of "n + PageSize" "w @ map (\<lambda>x. [x]) (take PageSize (drop (PageSize * nPage) (view pt (mainMemory m))))"]
  obtain n' m' pt' where t: "send_pages eh ok stale (Suc nPage) k (n + PageSize, w @ map (\<lambda>x. [x]) (take PageSize (drop (PageSize * nPage) (view pt (mainMemory m))))) m1
      = Some (True, (n', (w @ map (\<lambda>x. [x]) (take PageSize (drop (PageSize * nPage) (view pt (mainMemory m)))))
          @ map (\<lambda>x. [x]) (take (PageSize * k) (drop (PageSize * Suc nPage) (view pt1 (mainMemory m1))))), m')"
      "installed m' pt'" "map core pt' = map core pt1" "mainMemory m' = mainMemory m1"
    by blast
  have "take (PageSize * Suc k) (drop (PageSize * nPage) xs) = take PageSize (drop (PageSize * nPage) xs) @ take (PageSize * k) (drop (PageSize * Suc nPage) xs)" for xs :: "byte list"
    using take_add [of PageSize "PageSize * k" "drop (PageSize * nPage) xs"] by (simp add: add.commute)
  then show ?case using r t v by auto
qed

section \<open>What is received\<close>

lemma copy_in_append:
  "copy_in eh m a (xs @ ys) = do { m \<leftarrow> copy_in eh m a xs; copy_in eh m (a + of_nat (length xs)) ys }"
  by (induction xs arbitrary: m a) (auto simp: add.assoc bind_assoc split: Option.bind_splits)

lemma receive_bytes_copy:
  "receive_bytes eh a (length bs) (map (\<lambda>x. [x]) bs @ rest) m = map_option (Pair rest) (copy_in eh m a bs)"
  by (induction bs arbitrary: a m) (auto split: Option.bind_splits)

lemma receive_pages_copy:
  assumes "length bs = PageSize * k"
  shows "receive_pages eh nPage k (map (\<lambda>x. [x]) bs @ rest) m = map_option (Pair rest) (copy_in eh m (of_nat nPage * 128) bs)"
  using assms
proof (induction k arbitrary: nPage bs m)
  case (Suc k)
  let ?x = "take PageSize bs" and ?y = "drop PageSize bs"
  have l: "length ?x = PageSize" "length ?y = PageSize * k" using Suc.prems by simp_all
  have a: "of_nat nPage * 128 + of_nat PageSize = (of_nat (Suc nPage) * 128 :: u32)" by (simp add: distrib_right)
  have bs: "map (\<lambda>x. [x]) bs @ rest = map (\<lambda>x. [x]) ?x @ map (\<lambda>x. [x]) ?y @ rest"
    by (metis append.assoc append_take_drop_id map_append)
  have c: "copy_in eh m (of_nat nPage * 128) bs = do { m \<leftarrow> copy_in eh m (of_nat nPage * 128) ?x; copy_in eh m (of_nat (Suc nPage) * 128) ?y }"
    using copy_in_append [of eh m "of_nat nPage * 128" ?x ?y] unfolding l(1) a by simp
  show ?case
    unfolding bs c receive_pages.simps using receive_bytes_copy [of eh "of_nat nPage * 128" ?x] Suc.IH [OF l(2)] l(1)
    by (auto split: Option.bind_splits)
qed simp

lemma receive_int_cons [simp]: "receive_int (le32 v # msgs) = Some (v, msgs)"
  using unle32_le32 [of v "[]"] by (simp add: receive_int_def)

lemma receive_ints_map: "receive_ints (length vs) (map le32 vs @ msgs) = Some (vs, msgs)"
  by (induction vs) simp_all

subsection \<open>Semaphores\<close>

text \<open>What the loop over the semaphores does, for semaphores \<open>i\<close> with \<open>P i\<close> that exist and have the values \<open>sv i\<close>.\<close>

lemma receive_sem_step:
  assumes "bitmap_wf (semBitmap (newSpace ar))" "0 \<le> i" "i < numBits (semBitmap (newSpace ar))" "P i \<longrightarrow> sv i \<noteq> INT_MAX"
  obtains b where "receive_sem ks i (le32 (if P i then sv i else INT_MAX) # msgs, ar)
      = Some (msgs, ar\<lparr>newSpace := (newSpace ar)\<lparr>semBitmap := b\<rparr>, sems := (if P i then (sems ar)(i \<mapsto> ks i) else sems ar),
          sys := (sys ar)\<lparr>semObjects := (if P i then (semObjects (sys ar))(ks i \<mapsto> sint (sv i)) else semObjects (sys ar))\<rparr>\<rparr>)"
    "bitmap_wf b" "numBits b = numBits (semBitmap (newSpace ar))" "marked b = marked (semBitmap (newSpace ar)) \<union> {j. j = i \<and> P j}"
proof (cases "P i")
  case True
  obtain b where "BitMap_Mark (semBitmap (newSpace ar)) i = Some b" "bitmap_wf b" "numBits b = numBits (semBitmap (newSpace ar))"
      "marked b = insert i (marked (semBitmap (newSpace ar)))"
    using Mark_spec [OF assms(1-3)] .
  then show ?thesis using that [of b] True assms(4) by (auto simp: receive_sem_def)
next
  case False
  then show ?thesis using that [of "semBitmap (newSpace ar)"] assms(1) by (auto simp: receive_sem_def)
qed

lemma receive_sems:
  assumes "bitmap_wf (semBitmap (newSpace ar))" "\<forall>i\<in>set is. 0 \<le> i \<and> i < numBits (semBitmap (newSpace ar)) \<and> (P i \<longrightarrow> sv i \<noteq> INT_MAX)"
    "distinct is" "inj_on ks (set is)"
  shows "\<exists>b S V. each (receive_sem ks) is (map (\<lambda>i. le32 (if P i then sv i else INT_MAX)) is @ rest, ar)
      = Some (rest, ar\<lparr>newSpace := (newSpace ar)\<lparr>semBitmap := b\<rparr>, sems := S, sys := (sys ar)\<lparr>semObjects := V\<rparr>\<rparr>)
    \<and> marked b = marked (semBitmap (newSpace ar)) \<union> {i \<in> set is. P i} \<and> bitmap_wf b \<and> numBits b = numBits (semBitmap (newSpace ar))
    \<and> (\<forall>i. S i = (if i \<in> set is \<and> P i then Some (ks i) else sems ar i)) \<and> (\<forall>i\<in>set is. P i \<longrightarrow> V (ks i) = Some (sint (sv i)))
    \<and> (\<forall>k. k \<notin> ks ` set is \<longrightarrow> V k = semObjects (sys ar) k)"
  using assms
proof (induction "is" arbitrary: ar)
  case Nil
  show ?case
    by (intro exI [of _ "semBitmap (newSpace ar)"] exI [of _ "sems ar"] exI [of _ "semObjects (sys ar)"]) (simp add: Nil.prems(1))
next
  case (Cons i "is")
  obtain b where b: "receive_sem ks i (le32 (if P i then sv i else INT_MAX) # map (\<lambda>i. le32 (if P i then sv i else INT_MAX)) is @ rest, ar)
      = Some (map (\<lambda>i. le32 (if P i then sv i else INT_MAX)) is @ rest, ar\<lparr>newSpace := (newSpace ar)\<lparr>semBitmap := b\<rparr>,
          sems := (if P i then (sems ar)(i \<mapsto> ks i) else sems ar),
          sys := (sys ar)\<lparr>semObjects := (if P i then (semObjects (sys ar))(ks i \<mapsto> sint (sv i)) else semObjects (sys ar))\<rparr>\<rparr>)"
    "bitmap_wf b" "numBits b = numBits (semBitmap (newSpace ar))" "marked b = marked (semBitmap (newSpace ar)) \<union> {j. j = i \<and> P j}"
    by (rule receive_sem_step [OF Cons.prems(1), of i P sv ks "map (\<lambda>i. le32 (if P i then sv i else INT_MAX)) is @ rest"]) (use Cons.prems(2) in auto)
  define ar1 where "ar1 = ar\<lparr>newSpace := (newSpace ar)\<lparr>semBitmap := b\<rparr>, sems := (if P i then (sems ar)(i \<mapsto> ks i) else sems ar),
          sys := (sys ar)\<lparr>semObjects := (if P i then (semObjects (sys ar))(ks i \<mapsto> sint (sv i)) else semObjects (sys ar))\<rparr>\<rparr>"
  have f: "semBitmap (newSpace ar1) = b" "sems ar1 = (if P i then (sems ar)(i \<mapsto> ks i) else sems ar)"
      "semObjects (sys ar1) = (if P i then (semObjects (sys ar))(ks i \<mapsto> sint (sv i)) else semObjects (sys ar))"
    by (simp_all add: ar1_def)
  have u: "ar1\<lparr>newSpace := (newSpace ar1)\<lparr>semBitmap := c\<rparr>, sems := S, sys := (sys ar1)\<lparr>semObjects := V\<rparr>\<rparr>
      = ar\<lparr>newSpace := (newSpace ar)\<lparr>semBitmap := c\<rparr>, sems := S, sys := (sys ar)\<lparr>semObjects := V\<rparr>\<rparr>" for c S V
    by (simp add: ar1_def)
  have new: "ks i \<notin> ks ` set is" "i \<notin> set is" using Cons.prems(3,4) by auto
  have "\<forall>j\<in>set is. 0 \<le> j \<and> j < numBits (semBitmap (newSpace ar1)) \<and> (P j \<longrightarrow> sv j \<noteq> INT_MAX)" using Cons.prems(2) b(3) f(1) by auto
  from Cons.IH [of ar1, OF _ this] obtain c S V where
    c: "each (receive_sem ks) is (map (\<lambda>i. le32 (if P i then sv i else INT_MAX)) is @ rest, ar1)
      = Some (rest, ar1\<lparr>newSpace := (newSpace ar1)\<lparr>semBitmap := c\<rparr>, sems := S, sys := (sys ar1)\<lparr>semObjects := V\<rparr>\<rparr>)"
     "marked c = marked b \<union> {i \<in> set is. P i}" "bitmap_wf c" "numBits c = numBits b"
     "\<forall>j. S j = (if j \<in> set is \<and> P j then Some (ks j) else sems ar1 j)" "\<forall>j\<in>set is. P j \<longrightarrow> V (ks j) = Some (sint (sv j))"
     "\<forall>k. k \<notin> ks ` set is \<longrightarrow> V k = semObjects (sys ar1) k"
    using Cons.prems(3,4) b(2) f(1) by (auto simp: inj_on_def)
  have "each (receive_sem ks) (i # is) (map (\<lambda>i. le32 (if P i then sv i else INT_MAX)) (i # is) @ rest, ar)
      = Some (rest, ar\<lparr>newSpace := (newSpace ar)\<lparr>semBitmap := c\<rparr>, sems := S, sys := (sys ar)\<lparr>semObjects := V\<rparr>\<rparr>)"
    using b(1) c(1) unfolding ar1_def [symmetric] u by simp
  moreover have "marked c = marked (semBitmap (newSpace ar)) \<union> {j \<in> set (i # is). P j}" using c(2) b(4) by auto
  moreover have "\<forall>j. S j = (if j \<in> set (i # is) \<and> P j then Some (ks j) else sems ar j)" using c(5) f(2) by auto
  moreover have "\<forall>j\<in>set (i # is). P j \<longrightarrow> V (ks j) = Some (sint (sv j))" using c(6,7) f(3) new(1) by auto
  moreover have "\<forall>k. k \<notin> ks ` set (i # is) \<longrightarrow> V k = semObjects (sys ar) k" using c(7) f(3) by auto
  moreover have "numBits c = numBits (semBitmap (newSpace ar))" using c(4) b(3) by simp
  ultimately show ?case using c(3) by blast
qed

subsection \<open>Threads\<close>

definition room_for :: "nat \<Rightarrow> UserSys \<Rightarrow> bool" where
  "room_for n us \<longleftrightarrow> bitmap_wf (tids us) \<and> 0 < numBits (tids us) \<and> 0 \<le> lastTid us \<and> card (marked (tids us)) + n \<le> nat (numBits (tids us))"

lemma new_tid_room:
  assumes "room_for (Suc n) us"
  obtains tid b where "new_tid us = Some (tid, us\<lparr>tids := b, lastTid := tid + 1\<rparr>)" "0 \<le> tid" "tid \<notin> marked (tids us)"
    "marked b = insert tid (marked (tids us))" "room_for n (us\<lparr>tids := b, lastTid := tid + 1\<rparr>)"
proof -
  have r: "bitmap_wf (tids us)" "0 < numBits (tids us)" "0 \<le> lastTid us" "card (marked (tids us)) + Suc n \<le> nat (numBits (tids us))"
    using assms by (auto simp: room_for_def)
  then have "marked (tids us) \<noteq> {0..<numBits (tids us)}" by auto
  then obtain k b where k: "BitMap_FindStart (tids us) (lastTid us) = Some (k, b)" "bitmap_wf b" "numBits b = numBits (tids us)"
      "\<exists>j. k = (lastTid us + j) mod numBits (tids us)" "k \<notin> marked (tids us)" "marked b = insert k (marked (tids us))"
    using FindStart_spec [OF r(1,3,2)] by blast
  have "0 \<le> k" using k(4) r(2) by auto
  moreover have "room_for n (us\<lparr>tids := b, lastTid := k + 1\<rparr>)"
    using k r \<open>0 \<le> k\<close> by (simp add: room_for_def)
  ultimately show ?thesis using that [of k b] k by (simp add: new_tid_def)
qed

text \<open>
  The thread with the index \<open>i\<close> has arrived: the tables of the space and of the kernel have the same entry for it, and
  the thread has the registers.
\<close>

definition has_thread :: "AddrSpace \<Rightarrow> UserSys \<Rightarrow> (nat \<rightharpoonup> u32 list) \<Rightarrow> nat \<Rightarrow> nat \<Rightarrow> nat \<Rightarrow> (u32 \<times> u32 list) \<Rightarrow> bool" where
  "has_thread sp us R a t i x \<longleftrightarrow> (\<exists>tid. localThreadsInfos sp ! i = Some \<lparr>addrspace_idx = int i, userthread_id = fst x, thread_id = tid\<rparr>
     \<and> threadsInfos (procs us) tid = localThreadsInfos sp ! i \<and> tid \<in> marked (tids us)
     \<and> uthreads us t = Some \<lparr>ut_tid = tid, ut_space = Some a, isMain = False, upos = In_user, ut_args = (0, 0, 0)\<rparr> \<and> R t = Some (snd x))"

text \<open>What the loop over the threads leaves alone.\<close>

definition only_threads :: "Arrival \<Rightarrow> Arrival \<Rightarrow> bool" where
  "only_threads ar ar' \<longleftrightarrow> (\<exists>b L n. newSpace ar' = (newSpace ar)\<lparr>threadsBitmap := b, localThreadsInfos := L, nextUserThreadid := n\<rparr> \<and> length L = length (localThreadsInfos (newSpace ar)))
     \<and> sems ar' = sems ar \<and> (\<exists>tb lt ti U. sys ar' = (sys ar)\<lparr>tids := tb, lastTid := lt, procs := (procs (sys ar))\<lparr>threadsInfos := ti\<rparr>, uthreads := U\<rparr>)"

lemma only_threads_refl: "only_threads ar ar"
  unfolding only_threads_def
  by (intro conjI exI [of _ "threadsBitmap (newSpace ar)"] exI [of _ "localThreadsInfos (newSpace ar)"] exI [of _ "nextUserThreadid (newSpace ar)"]
      exI [of _ "tids (sys ar)"] exI [of _ "lastTid (sys ar)"] exI [of _ "threadsInfos (procs (sys ar))"] exI [of _ "uthreads (sys ar)"]) simp_all

lemma only_threads_trans: "only_threads x y \<Longrightarrow> only_threads y z \<Longrightarrow> only_threads x z"
  unfolding only_threads_def by (elim conjE exE) auto

text \<open>One thread.\<close>

lemma receive_thread_step:
  assumes "room_for (Suc n) (sys ar)" "bitmap_wf (threadsBitmap (newSpace ar))" "int i < numBits (threadsBitmap (newSpace ar))"
    and "i < length (localThreadsInfos (newSpace ar))" "fst x \<noteq> INT_MAX" "length (snd x) = NumTotalRegs"
  obtains ar' where "receive_thread ts a i (thread_messages (Some x) @ msgs, ar) = Some (msgs, ar')" "only_threads ar ar'" "room_for n (sys ar')"
    "bitmap_wf (threadsBitmap (newSpace ar'))" "numBits (threadsBitmap (newSpace ar')) = numBits (threadsBitmap (newSpace ar))"
    "marked (threadsBitmap (newSpace ar')) = insert (int i) (marked (threadsBitmap (newSpace ar)))"
    "has_thread (newSpace ar') (sys ar') (userRegisters ar') a (ts i) i x"
    "\<And>j. j \<noteq> i \<Longrightarrow> localThreadsInfos (newSpace ar') ! j = localThreadsInfos (newSpace ar) ! j"
    "\<And>t. t \<in> marked (tids (sys ar)) \<Longrightarrow> t \<in> marked (tids (sys ar')) \<and> threadsInfos (procs (sys ar')) t = threadsInfos (procs (sys ar)) t"
    "\<And>t. t \<noteq> ts i \<Longrightarrow> uthreads (sys ar') t = uthreads (sys ar) t \<and> userRegisters ar' t = userRegisters ar t"
proof -
  obtain u regs where x: "x = (u, regs)" by (cases x)
  obtain tid b where t: "new_tid (sys ar) = Some (tid, (sys ar)\<lparr>tids := b, lastTid := tid + 1\<rparr>)" "0 \<le> tid" "tid \<notin> marked (tids (sys ar))"
      "marked b = insert tid (marked (tids (sys ar)))" "room_for n ((sys ar)\<lparr>tids := b, lastTid := tid + 1\<rparr>)"
    using new_tid_room [OF assms(1)] .
  obtain c where c: "BitMap_Mark (threadsBitmap (newSpace ar)) (int i) = Some c" "bitmap_wf c" "numBits c = numBits (threadsBitmap (newSpace ar))"
      "marked c = insert (int i) (marked (threadsBitmap (newSpace ar)))"
    using Mark_spec [OF assms(2) _ assms(3)] by auto
  let ?info = "\<lparr>addrspace_idx = int i, userthread_id = u, thread_id = tid\<rparr>"
  define sp where "sp = (newSpace ar)\<lparr>threadsBitmap := c, localThreadsInfos := (localThreadsInfos (newSpace ar))[i := Some ?info],
         nextUserThreadid := (if nextUserThreadid (newSpace ar) > u + 1 then nextUserThreadid (newSpace ar) else u + 1)\<rparr>"
  define us where "us = (sys ar)\<lparr>tids := b, lastTid := tid + 1, procs := (procs (sys ar))\<lparr>threadsInfos := (threadsInfos (procs (sys ar)))(tid \<mapsto> ?info)\<rparr>,
           uthreads := (uthreads (sys ar))(ts i \<mapsto> \<lparr>ut_tid = tid, ut_space = Some a, isMain = False, upos = In_user, ut_args = (0, 0, 0)\<rparr>)\<rparr>"
  define ar' where "ar' = ar\<lparr>newSpace := sp, userRegisters := (userRegisters ar)(ts i \<mapsto> regs), sys := us\<rparr>"
  have regs: "receive_ints 40 (map le32 regs @ msgs) = Some (regs, msgs)"
    using receive_ints_map [of regs msgs] assms(6) x by simp
  have f: "newSpace ar' = sp" "sys ar' = us" "userRegisters ar' = (userRegisters ar)(ts i \<mapsto> regs)" "sems ar' = sems ar"
    by (simp_all add: ar'_def)
  show ?thesis
  proof
    show "receive_thread ts a i (thread_messages (Some x) @ msgs, ar) = Some (msgs, ar')"
      using t(1,2) c(1) regs assms(5) x by (simp add: receive_thread_def thread_messages_def ASSERT_def ar'_def sp_def us_def Let_def)
    show "only_threads ar ar'"
      unfolding only_threads_def f sp_def us_def by (rule conjI, (rule exI)+, rule conjI, rule refl, simp, rule conjI, rule refl, (rule exI)+, rule refl)
    show "room_for n (sys ar')" using t(5) by (simp add: f us_def room_for_def)
    show "has_thread (newSpace ar') (sys ar') (userRegisters ar') a (ts i) i x"
      unfolding has_thread_def f using assms(4) x t(4) by (intro exI [of _ tid]) (simp add: sp_def us_def)
    show "t \<in> marked (tids (sys ar')) \<and> threadsInfos (procs (sys ar')) t = threadsInfos (procs (sys ar)) t" if "t \<in> marked (tids (sys ar))" for t
      using that t(3,4) by (auto simp: f us_def)
  qed (use c in \<open>auto simp: f sp_def us_def\<close>)
qed

text \<open>All threads: \<open>f i\<close> is what was sent for the index \<open>i\<close>.\<close>

lemma has_thread_mono:
  assumes "has_thread sp us R a t i x" "localThreadsInfos sp' ! i = localThreadsInfos sp ! i"
    "\<And>t. t \<in> marked (tids us) \<Longrightarrow> t \<in> marked (tids us') \<and> threadsInfos (procs us') t = threadsInfos (procs us) t"
    "uthreads us' t = uthreads us t" "R' t = R t"
  shows "has_thread sp' us' R' a t i x"
  using assms unfolding has_thread_def by metis

lemma receive_threads:
  assumes "room_for (length is + n) (sys ar)" "bitmap_wf (threadsBitmap (newSpace ar))" "distinct is" "inj_on ts (set is)"
    "\<forall>i\<in>set is. int i < numBits (threadsBitmap (newSpace ar)) \<and> i < length (localThreadsInfos (newSpace ar))"
    "\<forall>i\<in>set is. \<forall>x. f i = Some x \<longrightarrow> fst x \<noteq> INT_MAX \<and> length (snd x) = NumTotalRegs"
  shows "\<exists>ar'. each (receive_thread ts a) is (concat (map (\<lambda>i. thread_messages (f i)) is) @ rest, ar) = Some (rest, ar') \<and> only_threads ar ar'
    \<and> (\<forall>i\<in>set is. \<forall>x. f i = Some x \<longrightarrow> has_thread (newSpace ar') (sys ar') (userRegisters ar') a (ts i) i x)
    \<and> (\<forall>i. i \<in> set is \<longrightarrow> f i = None \<longrightarrow> localThreadsInfos (newSpace ar') ! i = localThreadsInfos (newSpace ar) ! i)
    \<and> marked (threadsBitmap (newSpace ar')) = marked (threadsBitmap (newSpace ar)) \<union> int ` {i \<in> set is. f i \<noteq> None}
    \<and> (\<forall>i. i \<notin> set is \<longrightarrow> localThreadsInfos (newSpace ar') ! i = localThreadsInfos (newSpace ar) ! i)
    \<and> (\<forall>t. t \<in> marked (tids (sys ar)) \<longrightarrow> t \<in> marked (tids (sys ar')) \<and> threadsInfos (procs (sys ar')) t = threadsInfos (procs (sys ar)) t)
    \<and> (\<forall>t. t \<notin> ts ` set is \<longrightarrow> uthreads (sys ar') t = uthreads (sys ar) t \<and> userRegisters ar' t = userRegisters ar t)"
    (is "\<exists>ar'. ?loop is ar ar' \<and> only_threads ar ar' \<and> ?result is ar ar'")
  using assms
proof (induction "is" arbitrary: ar)
  case Nil
  then show ?case using only_threads_refl by auto
next
  case (Cons i "is")
  have new: "i \<notin> set is" "ts i \<notin> ts ` set is" using Cons.prems(3,4) by auto
  show ?case
  proof (cases "f i")
    case None
    have "room_for (length is + n) (sys ar)" using Cons.prems(1) by (auto simp: room_for_def)
    then obtain ar' where ar': "?loop is ar ar'" "only_threads ar ar'" "?result is ar ar'"
      using Cons.IH [of ar] Cons.prems(2-6) by (auto simp: inj_on_def)
    have "?loop (i # is) ar ar'"
      using ar'(1) None by (simp add: thread_messages_def receive_thread_def)
    moreover have "?result (i # is) ar ar'" using ar'(3) None new by auto
    ultimately show ?thesis using ar'(2) by blast
  next
    case (Some x)
    have x: "fst x \<noteq> INT_MAX" "length (snd x) = NumTotalRegs" using Cons.prems(6) Some by (cases x, auto)+
    have "room_for (Suc (length is + n)) (sys ar)" "int i < numBits (threadsBitmap (newSpace ar))" "i < length (localThreadsInfos (newSpace ar))"
      using Cons.prems(1,5) by auto
    from receive_thread_step [OF this(1) Cons.prems(2) this(2,3) x, of ts a "concat (map (\<lambda>i. thread_messages (f i)) is) @ rest"]
    obtain ar1 where s: "receive_thread ts a i (thread_messages (Some x) @ concat (map (\<lambda>i. thread_messages (f i)) is) @ rest, ar)
        = Some (concat (map (\<lambda>i. thread_messages (f i)) is) @ rest, ar1)" "only_threads ar ar1" "room_for (length is + n) (sys ar1)"
      "bitmap_wf (threadsBitmap (newSpace ar1))" "numBits (threadsBitmap (newSpace ar1)) = numBits (threadsBitmap (newSpace ar))"
      "marked (threadsBitmap (newSpace ar1)) = insert (int i) (marked (threadsBitmap (newSpace ar)))"
      "has_thread (newSpace ar1) (sys ar1) (userRegisters ar1) a (ts i) i x"
      "\<And>j. j \<noteq> i \<Longrightarrow> localThreadsInfos (newSpace ar1) ! j = localThreadsInfos (newSpace ar) ! j"
      "\<And>t. t \<in> marked (tids (sys ar)) \<Longrightarrow> t \<in> marked (tids (sys ar1)) \<and> threadsInfos (procs (sys ar1)) t = threadsInfos (procs (sys ar)) t"
      "\<And>t. t \<noteq> ts i \<Longrightarrow> uthreads (sys ar1) t = uthreads (sys ar) t \<and> userRegisters ar1 t = userRegisters ar t"
      by blast
    have "length (localThreadsInfos (newSpace ar1)) = length (localThreadsInfos (newSpace ar))" using s(2) by (auto simp: only_threads_def)
    then obtain ar' where ar': "?loop is ar1 ar'" "only_threads ar1 ar'" "?result is ar1 ar'"
      using Cons.IH [of ar1] Cons.prems(3-6) s(3-5) by (auto simp: inj_on_def)
    have loop: "?loop (i # is) ar ar'" using s(1) ar'(1) Some by simp
    have "has_thread (newSpace ar') (sys ar') (userRegisters ar') a (ts i) i x"
      by (rule has_thread_mono [OF s(7)]) (use ar'(3) new in auto)
    moreover have "\<forall>j\<in>set is. localThreadsInfos (newSpace ar1) ! j = localThreadsInfos (newSpace ar) ! j" using s(8) new(1) by metis
    ultimately have "?result (i # is) ar ar'"
      using ar'(3) Some new s(6,8-10) by (auto simp: image_iff)
    then show ?thesis using loop only_threads_trans [OF s(2) ar'(2)] by blast
  qed
qed

section \<open>Migration\<close>

text \<open>
  A process that can be sent: its table is installed, its semaphores have values below \<open>INT_MAX\<close>, and its threads have registers and
  ids below \<open>INT_MAX\<close>.
\<close>

definition sendable :: "AddrSpace \<Rightarrow> u32 list \<Rightarrow> (int \<Rightarrow> u32) \<Rightarrow> BitMap \<Rightarrow> (int \<rightharpoonup> u32 list) \<Rightarrow> Machine \<Rightarrow> bool" where
  "sendable sp regs semValue tm thr m \<longleftrightarrow> installed m (as_pageTable sp) \<and> length (as_pageTable sp) = unat (numPages sp)
     \<and> length regs = NumTotalRegs \<and> numBits (semBitmap sp) = MAX_SEM \<and> (\<forall>i\<in>marked (semBitmap sp). semValue i \<noteq> INT_MAX)
     \<and> is_int32 (nThreads sp) \<and> (\<forall>i<MaxThreadsPerProcess. \<forall>info. localThreadsInfos sp ! i = Some info \<longrightarrow> 0 \<le> thread_id info \<and> thread_id info < numBits tm \<and> userthread_id info \<noteq> INT_MAX)
     \<and> (\<forall>t r. thr t = Some r \<longrightarrow> length r = NumTotalRegs)"

text \<open>The id and the registers of the thread with the index \<open>i\<close>, if it is alive.\<close>

definition live_thread :: "AddrSpace \<Rightarrow> BitMap \<Rightarrow> (int \<rightharpoonup> u32 list) \<Rightarrow> nat \<Rightarrow> (u32 \<times> u32 list) option" where
  "live_thread sp tm thr i = (case localThreadsInfos sp ! i of None \<Rightarrow> None
     | Some info \<Rightarrow> if thread_id info < MaxThreads \<and> thread_id info \<in> marked tm
         then map_option (Pair (userthread_id info)) (thr (thread_id info)) else None)"

lemma sent_thread_live: "sendable sp regs semValue tm thr m \<Longrightarrow> i < MaxThreadsPerProcess \<Longrightarrow> sent_thread sp tm thr i = Some (live_thread sp tm thr i)"
  by (auto simp: sent_thread_def live_thread_def sendable_def Test_eq split: option.splits)

lemma those_Some: "those (map (\<lambda>x. Some (f x)) xs) = Some (map f xs)"
  by (induction xs) simp_all

abbreviation memory_messages :: "byte list \<Rightarrow> byte list list" where
  "memory_messages bs \<equiv> map (\<lambda>x. [x]) bs"

text \<open>All the messages of a process, in their order.\<close>

definition process_messages :: "AddrSpace \<Rightarrow> u32 list \<Rightarrow> (int \<Rightarrow> u32) \<Rightarrow> BitMap \<Rightarrow> (int \<rightharpoonup> u32 list) \<Rightarrow> Machine \<Rightarrow> byte list list" where
  "process_messages sp regs semValue tm thr m = le32 (numPages sp) # memory_messages (user_memory sp (mainMemory m)) @ map le32 regs
     @ map (\<lambda>i. le32 (if i \<in> marked (semBitmap sp) then semValue i else INT_MAX)) [0..MAX_SEM - 1]
     @ le32 (of_int (nThreads sp)) # concat (map (\<lambda>i. thread_messages (live_thread sp tm thr i)) [0..<MaxThreadsPerProcess])"

lemma SendProcess_messages:
  assumes "sendable sp regs semValue tm thr m" "all_sent ok"
  shows "\<exists>n m'. SendProcess eh ok stale True sp regs semValue tm thr m = Some (True, (n, process_messages sp regs semValue tm thr m), m')
    \<and> mainMemory m' = mainMemory m"
proof -
  have s: "installed m (as_pageTable sp)" "length (as_pageTable sp) = unat (numPages sp)" "numBits (semBitmap sp) = MAX_SEM"
    using assms(1) by (auto simp: sendable_def)
  obtain n m' where p: "send_pages eh ok stale 0 (unat (numPages sp)) (Suc 0, [le32 (numPages sp)]) m
      = Some (True, (n, le32 (numPages sp) # memory_messages (user_memory sp (mainMemory m))), m')" "mainMemory m' = mainMemory m"
    using send_pages_spec [OF assms(2) s(1), of 0 "unat (numPages sp)" eh stale "Suc 0" "[le32 (numPages sp)]"] s(2) by auto
  have "map (sem_message sp semValue) [0..MAX_SEM - 1] = map (\<lambda>i. Some (le32 (if i \<in> marked (semBitmap sp) then semValue i else INT_MAX))) [0..MAX_SEM - 1]"
    using s(3) by (auto simp: sem_message_def Test_eq)
  then have sm: "those (map (sem_message sp semValue) [0..MAX_SEM - 1]) = Some (map (\<lambda>i. le32 (if i \<in> marked (semBitmap sp) then semValue i else INT_MAX)) [0..MAX_SEM - 1])"
    by (simp only: those_Some)
  have "map (sent_thread sp tm thr) [0..<MaxThreadsPerProcess] = map (\<lambda>i. Some (live_thread sp tm thr i)) [0..<MaxThreadsPerProcess]"
    using sent_thread_live [OF assms(1)] by simp
  then have th: "those (map (sent_thread sp tm thr) [0..<MaxThreadsPerProcess]) = Some (map (live_thread sp tm thr) [0..<MaxThreadsPerProcess])"
    by (simp only: those_Some)
  show ?thesis
    unfolding SendProcess_def sm th
    by (simp add: send_message_ok [OF assms(2)] send_all_ok [OF assms(2)] ASSERT_def p process_messages_def comp_def del: upt_Suc upto.simps One_nat_def)
qed

text \<open>A system that can take a process of \<open>n\<close> pages at the address \<open>a\<close>.\<close>

definition can_take :: "u32 \<Rightarrow> nat \<Rightarrow> UserSys \<Rightarrow> bool" where
  "can_take n a us \<longleftrightarrow> procs_ok (procs us) \<and> nUsedAddrSpace us < MaxProcesses \<and> marked (pidMap (procs us)) \<noteq> {0..<MaxProcesses}
     \<and> spaces (procs us) a = None \<and> int (unat n) \<le> nAvailFrame (fprov (procs us)) \<and> room_for (Suc MaxThreadsPerProcess) us"

lemma empty_space_fields:
  assumes "AddrSpace_empty heap nt a n ps = Some ps'" "spaces ps' a = Some sp"
  shows "bitmap_wf (semBitmap sp)" "numBits (semBitmap sp) = MAX_SEM" "marked (semBitmap sp) = {}"
    "bitmap_wf (threadsBitmap sp)" "numBits (threadsBitmap sp) = 7" "marked (threadsBitmap sp) = {}" "localThreadsInfos sp = replicate 7 None"
proof -
  obtain b where b: "BitMap_new (heap 0) 7 = Some b" "bitmap_wf b" "numBits b = 7" "marked b = {}"
    using new_spec [of 7 "heap 0"] by auto
  obtain c where c: "BitMap_new (heap 1) MAX_SEM = Some c" "bitmap_wf c" "numBits c = MAX_SEM" "marked c = {}"
    using new_spec [of MAX_SEM "heap 1"] by auto
  have "semBitmap sp = c" "threadsBitmap sp = b" "localThreadsInfos sp = replicate 7 None"
    using assms b(1) c(1) by (auto simp: AddrSpace_empty_def finish_space_def InitializeThreadData_def bind_Some_iff)
  then show "bitmap_wf (semBitmap sp)" "numBits (semBitmap sp) = MAX_SEM" "marked (semBitmap sp) = {}"
    "bitmap_wf (threadsBitmap sp)" "numBits (threadsBitmap sp) = 7" "marked (threadsBitmap sp) = {}" "localThreadsInfos sp = replicate 7 None"
    using b c by simp_all
qed

text \<open>The first half of \<open>ListenProcess\<close>: the new space with the memory of the process.\<close>

lemma receive_memory:
  assumes us: "can_take n a us" and bs: "length bs = PageSize * unat n"
  obtains ps sp m pt where "AddrSpace_empty heap nt a n (procs us) = Some ps" "spaces ps = (spaces (procs us))(a \<mapsto> sp)" "numPages sp = n"
    "receive_pages eh 0 (unat n) (memory_messages bs @ rest) (RestoreState sp (mach ps)) = Some (rest, m)" "pageTable m = Some pt"
    "view pt (mainMemory m) = bs" "procs_ok (ps\<lparr>mach := m, spaces := (spaces ps)(a \<mapsto> sp\<lparr>as_pageTable := pt\<rparr>)\<rparr>)"
    "keeps_others (procs us) a (ps\<lparr>mach := m, spaces := (spaces ps)(a \<mapsto> sp\<lparr>as_pageTable := pt\<rparr>)\<rparr>)" "pid sp \<notin> marked (pidMap (procs us))"
proof -
  have u: "procs_ok (procs us)" "marked (pidMap (procs us)) \<noteq> {0..<MaxProcesses}" "spaces (procs us) a = None" "int (unat n) \<le> nAvailFrame (fprov (procs us))"
    using us by (auto simp: can_take_def)
  obtain p b fp m0 sp where e: "AddrSpace_empty heap nt a n (procs us) = Some (add_space a p b fp m0 sp (procs us))"
      "procs_ok (add_space a p b fp m0 sp (procs us))" "pid sp \<notin> marked (pidMap (procs us))" "numPages sp = n"
      "frames_in (as_pageTable sp) \<inter> taken (fprov (procs us)) = {}"
      "\<forall>x. x div PageSize \<notin> frames_in (as_pageTable sp) \<longrightarrow> mainMemory m0 x = mainMemory (mach (procs us)) x"
    using AddrSpace_empty_spec [OF u, of heap nt] by blast
  define ps where "ps = add_space a p b fp m0 sp (procs us)"
  have ps: "spaces ps = (spaces (procs us))(a \<mapsto> sp)" "mach ps = m0" "owned ps a = frames_in (as_pageTable sp)" by (simp_all add: ps_def)
  note ok = e(2) [folded ps_def]
  have so: "space_ok sp" using procs_okD(6) [OF ok, of a sp] ps(1) by simp
  have i: "installed (RestoreState sp (mach ps)) (as_pageTable sp)"
    using so e(4) procs_okD(2) [OF ok] by (simp add: installed_def RestoreState_def space_ok_def)
  have len: "length (as_pageTable sp) = unat n" using so e(4) by (simp add: space_ok_def)
  obtain m pt where c: "copy_in eh (RestoreState sp (mach ps)) (of_nat 0 * 128) bs = Some m" "installed m pt" "map core pt = map core (as_pageTable sp)"
      "view pt (mainMemory m) = overlay (view (as_pageTable sp) (mainMemory (RestoreState sp (mach ps)))) 0 bs"
      "\<forall>p. p div PageSize \<notin> frames_in (as_pageTable sp) \<longrightarrow> mainMemory m p = mainMemory m0 p"
    using copy_in_spec [OF i, of "of_nat 0 * 128" bs eh] bs len ps(2) by (auto simp: RestoreState_def)
  have v: "view pt (mainMemory m) = bs" using c(4) bs len by (simp add: overlay_def)
  let ?sp = "sp\<lparr>as_pageTable := pt\<rparr>" and ?ps = "ps\<lparr>mach := m, spaces := (spaces ps)(a \<mapsto> sp\<lparr>as_pageTable := pt\<rparr>)\<rparr>"
  have so': "space_ok ?sp" using so core_table_wf [OF c(3), of 0] map_core_length [OF c(3)] by (simp add: space_ok_def)
  have ow: "owned ?ps a = owned ps a" using core_frames_in [OF c(3)] ps(3) by (simp add: owned_def)
  have "owned ps a \<subseteq> taken (fprov ps)" using procs_okD(8) [OF ok] by auto
  then have ok': "procs_ok ?ps"
    by (intro procs_ok_update [OF ok, where a = a and x = "Some ?sp"]) (use procs_okD(1-5) [OF ok] so' ow c(2) in \<open>auto simp: installed_def\<close>)
  have k: "keeps_others (procs us) a ?ps"
  proof (rule keeps_othersI [OF u(1), where x = "Some ?sp"])
    show "mainMemory (mach ?ps) x = mainMemory (mach (procs us)) x" if "x div PageSize \<in> taken (fprov (procs us)) - owned (procs us) a" for x
      using that e(5,6) c(5) by (metis DiffD1 Procs.select_convs(1) Procs.surjective Procs.update_convs(1,6) disjoint_iff)
  qed (simp add: ps(1))
  show ?thesis
    using that [of ps sp m pt] e(1,3,4) ps(1) v ok' k receive_pages_copy [OF bs, of eh 0 rest] c(1,2) by (simp add: ps_def installed_def)
qed

text \<open>The second half: the semaphores and the threads, for a space \<open>newSpace ar\<close> that has none yet.\<close>

abbreviation sem_messages :: "AddrSpace \<Rightarrow> (int \<Rightarrow> u32) \<Rightarrow> byte list list" where
  "sem_messages sp semValue \<equiv> map (\<lambda>i. le32 (if i \<in> marked (semBitmap sp) then semValue i else INT_MAX)) [0..MAX_SEM - 1]"

abbreviation all_thread_messages :: "AddrSpace \<Rightarrow> BitMap \<Rightarrow> (int \<rightharpoonup> u32 list) \<Rightarrow> byte list list" where
  "all_thread_messages sp tm thr \<equiv> concat (map (\<lambda>i. thread_messages (live_thread sp tm thr i)) [0..<MaxThreadsPerProcess])"

lemma receive_rest:
  assumes s: "sendable sp regs semValue tm thr m" and inj: "inj_on ts {0..<MaxThreadsPerProcess}" "inj_on ks {0..<MAX_SEM}"
    and ar: "room_for MaxThreadsPerProcess (sys ar)" "sems ar = Map.empty" "bitmap_wf (semBitmap (newSpace ar))" "numBits (semBitmap (newSpace ar)) = MAX_SEM"
      "marked (semBitmap (newSpace ar)) = {}" "bitmap_wf (threadsBitmap (newSpace ar))" "numBits (threadsBitmap (newSpace ar)) = 7" "localThreadsInfos (newSpace ar) = replicate 7 None"
  obtains ar1 ar3 where "each (receive_sem ks) [0..MAX_SEM - 1] (sem_messages sp semValue @ rest, ar) = Some (rest, ar1)"
    "each (receive_thread ts a) [0..<MaxThreadsPerProcess] (all_thread_messages sp tm thr, ar1\<lparr>newSpace := (newSpace ar1)\<lparr>nThreads := nThreads sp\<rparr>\<rparr>) = Some ([], ar3)"
    "\<exists>L n sb tb. newSpace ar3 = (newSpace ar)\<lparr>threadsBitmap := tb, localThreadsInfos := L, nextUserThreadid := n, semBitmap := sb, nThreads := nThreads sp\<rparr>"
    "\<exists>tb lt ti U V. sys ar3 = (sys ar)\<lparr>tids := tb, lastTid := lt, procs := (procs (sys ar))\<lparr>threadsInfos := ti\<rparr>, uthreads := U, semObjects := V\<rparr>"
    "marked (semBitmap (newSpace ar3)) = marked (semBitmap sp)"
    "\<And>i. i \<in> marked (semBitmap sp) \<Longrightarrow> sems ar3 i = Some (ks i) \<and> semObjects (sys ar3) (ks i) = Some (sint (semValue i))"
    "\<And>i x. i < MaxThreadsPerProcess \<Longrightarrow> live_thread sp tm thr i = Some x \<Longrightarrow> has_thread (newSpace ar3) (sys ar3) (userRegisters ar3) a (ts i) i x"
    "\<And>i. i < MaxThreadsPerProcess \<Longrightarrow> live_thread sp tm thr i = None \<Longrightarrow> localThreadsInfos (newSpace ar3) ! i = None"
proof -
  have sub: "marked (semBitmap sp) \<subseteq> {0..<MAX_SEM}" using s marked_subset [of "semBitmap sp"] by (auto simp: sendable_def)
  have set: "set [0..MAX_SEM - 1] = {0..<MAX_SEM}" by auto
  have "\<forall>i\<in>{0..<MAX_SEM}. 0 \<le> i \<and> i < numBits (semBitmap (newSpace ar)) \<and> (i \<in> marked (semBitmap sp) \<longrightarrow> semValue i \<noteq> INT_MAX)"
    using s ar(4) by (auto simp: sendable_def)
  then obtain sb S V where sm: "each (receive_sem ks) [0..MAX_SEM - 1] (sem_messages sp semValue @ rest, ar)
      = Some (rest, ar\<lparr>newSpace := (newSpace ar)\<lparr>semBitmap := sb\<rparr>, sems := S, sys := (sys ar)\<lparr>semObjects := V\<rparr>\<rparr>)"
    "marked sb = marked (semBitmap (newSpace ar)) \<union> {i \<in> {0..<MAX_SEM}. i \<in> marked (semBitmap sp)}"
    "\<forall>i. S i = (if i \<in> {0..<MAX_SEM} \<and> i \<in> marked (semBitmap sp) then Some (ks i) else sems ar i)"
    "\<forall>i\<in>{0..<MAX_SEM}. i \<in> marked (semBitmap sp) \<longrightarrow> V (ks i) = Some (sint (semValue i))"
    using receive_sems [of ar "[0..MAX_SEM - 1]" "\<lambda>i. i \<in> marked (semBitmap sp)" semValue ks rest, unfolded set] inj(2) ar(3) distinct_upto by blast
  define ar1 where "ar1 = ar\<lparr>newSpace := (newSpace ar)\<lparr>semBitmap := sb\<rparr>, sems := S, sys := (sys ar)\<lparr>semObjects := V\<rparr>\<rparr>"
  define ar2 where "ar2 = ar1\<lparr>newSpace := (newSpace ar1)\<lparr>nThreads := nThreads sp\<rparr>\<rparr>"
  have ar2: "newSpace ar2 = (newSpace ar)\<lparr>semBitmap := sb, nThreads := nThreads sp\<rparr>" "sems ar2 = S" "sys ar2 = (sys ar)\<lparr>semObjects := V\<rparr>"
    by (simp_all add: ar2_def ar1_def)
  have "room_for (length [0..<MaxThreadsPerProcess] + 0) (sys ar2)" using ar(1) ar2(3) by (simp add: room_for_def)
  moreover have "\<forall>i\<in>set [0..<MaxThreadsPerProcess]. \<forall>x. live_thread sp tm thr i = Some x \<longrightarrow> fst x \<noteq> INT_MAX \<and> length (snd x) = NumTotalRegs"
    using s by (auto simp: live_thread_def sendable_def split: option.splits if_splits)
  ultimately obtain ar3 where th: "each (receive_thread ts a) [0..<MaxThreadsPerProcess] (all_thread_messages sp tm thr @ [], ar2) = Some ([], ar3)" "only_threads ar2 ar3"
     "\<forall>i\<in>{0..<MaxThreadsPerProcess}. \<forall>x. live_thread sp tm thr i = Some x \<longrightarrow> has_thread (newSpace ar3) (sys ar3) (userRegisters ar3) a (ts i) i x"
     "\<forall>i. i \<in> {0..<MaxThreadsPerProcess} \<longrightarrow> live_thread sp tm thr i = None \<longrightarrow> localThreadsInfos (newSpace ar3) ! i = localThreadsInfos (newSpace ar2) ! i"
    using receive_threads [of "[0..<MaxThreadsPerProcess]" 0 ar2 ts "live_thread sp tm thr" a "[]"] inj(1) ar(6-8) ar2(1) by (auto simp del: upt_Suc)
  obtain tb L n where n3: "newSpace ar3 = (newSpace ar2)\<lparr>threadsBitmap := tb, localThreadsInfos := L, nextUserThreadid := n\<rparr>"
    using th(2) by (auto simp: only_threads_def)
  have s3: "sems ar3 = S" "\<exists>tb lt ti U. sys ar3 = (sys ar2)\<lparr>tids := tb, lastTid := lt, procs := (procs (sys ar2))\<lparr>threadsInfos := ti\<rparr>, uthreads := U\<rparr>"
    using th(2) ar2(2) by (auto simp: only_threads_def)
  then have V3: "semObjects (sys ar3) = V" using ar2(3) by auto
  show ?thesis
  proof
    show "each (receive_sem ks) [0..MAX_SEM - 1] (sem_messages sp semValue @ rest, ar) = Some (rest, ar1)"
      using sm(1) unfolding ar1_def .
    show "each (receive_thread ts a) [0..<MaxThreadsPerProcess] (all_thread_messages sp tm thr, ar1\<lparr>newSpace := (newSpace ar1)\<lparr>nThreads := nThreads sp\<rparr>\<rparr>) = Some ([], ar3)"
      using th(1) unfolding ar2_def append_Nil2 .
    show "\<exists>L n sb tb. newSpace ar3 = (newSpace ar)\<lparr>threadsBitmap := tb, localThreadsInfos := L, nextUserThreadid := n, semBitmap := sb, nThreads := nThreads sp\<rparr>"
      unfolding n3 ar2(1) by (intro exI [of _ L] exI [of _ n] exI [of _ sb] exI [of _ tb]) simp
    show "\<exists>tb lt ti U V. sys ar3 = (sys ar)\<lparr>tids := tb, lastTid := lt, procs := (procs (sys ar))\<lparr>threadsInfos := ti\<rparr>, uthreads := U, semObjects := V\<rparr>"
      using s3(2) unfolding ar2(3)
    proof (elim exE)
      fix tb lt ti U assume "sys ar3 = (sys ar)\<lparr>semObjects := V, tids := tb, lastTid := lt, procs := (procs ((sys ar)\<lparr>semObjects := V\<rparr>))\<lparr>threadsInfos := ti\<rparr>, uthreads := U\<rparr>"
      then show ?thesis by (intro exI [of _ tb] exI [of _ lt] exI [of _ ti] exI [of _ U] exI [of _ V]) simp
    qed
    show "marked (semBitmap (newSpace ar3)) = marked (semBitmap sp)" unfolding n3 ar2(1) using sm(2) sub ar(5) by auto
    show "sems ar3 i = Some (ks i) \<and> semObjects (sys ar3) (ks i) = Some (sint (semValue i))" if "i \<in> marked (semBitmap sp)" for i
      using sm(3,4) that sub s3(1) V3 by auto
    show "has_thread (newSpace ar3) (sys ar3) (userRegisters ar3) a (ts i) i x" if "i < MaxThreadsPerProcess" "live_thread sp tm thr i = Some x" for i x
      using th(3) that by (cases x) auto
    show "localThreadsInfos (newSpace ar3) ! i = None" if "i < MaxThreadsPerProcess" "live_thread sp tm thr i = None" for i
      using th(4) that ar(8) ar2(1) by simp
  qed
qed

lemma sint_of_int32: "is_int32 x \<Longrightarrow> sint (of_int x :: u32) = x"
  using bytes_int_bytes [of x "[]"] unle32_le32 [of "of_int x" "[]"] by (simp add: bytes_int_def int_bytes_def)

lemma arrived_procs_ok:
  assumes "procs_ok (ps\<lparr>mach := m, spaces := (spaces ps)(a \<mapsto> sp)\<rparr>)"
    and "spaces ps' = (spaces ps)(a \<mapsto> sp')" "mach ps' = RestoreState tmp m" "fprov ps' = fprov ps" "pidMap ps' = pidMap ps" "lastPid ps' = lastPid ps"
    and "as_pageTable sp' = as_pageTable sp" "numPages sp' = numPages sp" "brk sp' = brk sp" "pid sp' = pid sp"
  shows "procs_ok ps'"
proof -
  have "procs_ok (ps'\<lparr>mach := m\<rparr>)"
    using thread_step [OF assms(1), of a sp "ps'\<lparr>mach := m\<rparr>" sp'] assms(2-) by simp
  then show ?thesis using procs_okD(2) [OF assms(1)] assms(3) by (simp add: procs_ok_def owned_def RestoreState_def)
qed

text \<open>The whole of \<open>ListenProcess\<close> on the messages of a process.\<close>

lemma ListenProcess_messages:
  assumes s: "sendable sp regs semValue tm thr m" and us: "can_take (numPages sp) a us"
    and inj: "inj_on ts {0..<MaxThreadsPerProcess}" "t0 \<notin> ts ` {0..<MaxThreadsPerProcess}" "inj_on ks {0..<MAX_SEM}"
  shows "\<exists>us' R sp'. ListenProcess eh heap nt a t0 ts ks tmp (process_messages sp regs semValue tm thr m) us = Some (pid sp', us', R, [])
    \<and> procs_ok (procs us') \<and> keeps_others (procs us) a (procs us') \<and> nUsedAddrSpace us' = nUsedAddrSpace us + 1
    \<and> spaces (procs us') a = Some sp' \<and> pid sp' \<notin> marked (pidMap (procs us))
    \<and> numPages sp' = numPages sp \<and> user_memory sp' (mainMemory (mach (procs us'))) = user_memory sp (mainMemory m)
    \<and> R t0 = Some (regs[2 := 1]) \<and> nThreads sp' = nThreads sp \<and> marked (semBitmap sp') = marked (semBitmap sp)
    \<and> (\<forall>i\<in>marked (semBitmap sp). \<exists>k. semList us' a i = Some k \<and> semObjects us' k = Some (sint (semValue i)))
    \<and> (\<forall>i<MaxThreadsPerProcess. case live_thread sp tm thr i of None \<Rightarrow> localThreadsInfos sp' ! i = None | Some x \<Rightarrow> has_thread sp' us' R a (ts i) i x)"
proof -
  have sd: "length (as_pageTable sp) = unat (numPages sp)" "length regs = NumTotalRegs" "is_int32 (nThreads sp)"
    using s by (auto simp: sendable_def)
  let ?nt = "le32 (of_int (nThreads sp)) # all_thread_messages sp tm thr"
  let ?rest = "map le32 regs @ sem_messages sp semValue @ ?nt"
  have "length (user_memory sp (mainMemory m)) = PageSize * unat (numPages sp)" using sd(1) by simp
  from receive_memory [OF us this, of heap nt eh ?rest] obtain ps sp1 m1 pt where
    r: "AddrSpace_empty heap nt a (numPages sp) (procs us) = Some ps" "spaces ps = (spaces (procs us))(a \<mapsto> sp1)" "numPages sp1 = numPages sp"
    "receive_pages eh 0 (unat (numPages sp)) (memory_messages (user_memory sp (mainMemory m)) @ ?rest) (RestoreState sp1 (mach ps)) = Some (?rest, m1)"
    "pageTable m1 = Some pt" "view pt (mainMemory m1) = user_memory sp (mainMemory m)"
    "procs_ok (ps\<lparr>mach := m1, spaces := (spaces ps)(a \<mapsto> sp1\<lparr>as_pageTable := pt\<rparr>)\<rparr>)"
    "keeps_others (procs us) a (ps\<lparr>mach := m1, spaces := (spaces ps)(a \<mapsto> sp1\<lparr>as_pageTable := pt\<rparr>)\<rparr>)" "pid sp1 \<notin> marked (pidMap (procs us))"
    by blast
  have sp1: "spaces ps a = Some sp1" using r(2) by simp
  note new = empty_space_fields [OF r(1) sp1]
  define us1 where "us1 = us\<lparr>nUsedAddrSpace := nUsedAddrSpace us + 1, procs := ps\<lparr>mach := m1\<rparr>\<rparr>"
  have "room_for (Suc MaxThreadsPerProcess) us1" using us by (simp add: can_take_def us1_def room_for_def)
  from new_tid_room [OF this] obtain tid tb where t: "new_tid us1 = Some (tid, us1\<lparr>tids := tb, lastTid := tid + 1\<rparr>)"
      "room_for MaxThreadsPerProcess (us1\<lparr>tids := tb, lastTid := tid + 1\<rparr>)"
    by blast
  define ar where "ar = \<lparr>sys = us1\<lparr>tids := tb, lastTid := tid + 1\<rparr>, newSpace = sp1\<lparr>as_pageTable := pt\<rparr>, sems = Map.empty, userRegisters = Map.empty\<rparr>"
  obtain ar1 ar3 where x: "each (receive_sem ks) [0..MAX_SEM - 1] (sem_messages sp semValue @ ?nt, ar) = Some (?nt, ar1)"
    "each (receive_thread ts a) [0..<MaxThreadsPerProcess] (all_thread_messages sp tm thr, ar1\<lparr>newSpace := (newSpace ar1)\<lparr>nThreads := nThreads sp\<rparr>\<rparr>) = Some ([], ar3)"
    "\<exists>L n sb tb. newSpace ar3 = (newSpace ar)\<lparr>threadsBitmap := tb, localThreadsInfos := L, nextUserThreadid := n, semBitmap := sb, nThreads := nThreads sp\<rparr>"
    "\<exists>tb lt ti U V. sys ar3 = (sys ar)\<lparr>tids := tb, lastTid := lt, procs := (procs (sys ar))\<lparr>threadsInfos := ti\<rparr>, uthreads := U, semObjects := V\<rparr>"
    "marked (semBitmap (newSpace ar3)) = marked (semBitmap sp)"
    "\<And>i. i \<in> marked (semBitmap sp) \<Longrightarrow> sems ar3 i = Some (ks i) \<and> semObjects (sys ar3) (ks i) = Some (sint (semValue i))"
    "\<And>i x. i < MaxThreadsPerProcess \<Longrightarrow> live_thread sp tm thr i = Some x \<Longrightarrow> has_thread (newSpace ar3) (sys ar3) (userRegisters ar3) a (ts i) i x"
    "\<And>i. i < MaxThreadsPerProcess \<Longrightarrow> live_thread sp tm thr i = None \<Longrightarrow> localThreadsInfos (newSpace ar3) ! i = None"
    by (rule receive_rest [OF s inj(1,3), where ar = ar and rest = ?nt and a = a]) (use t(2) new in \<open>simp_all add: ar_def\<close>)
  have sp3: "as_pageTable (newSpace ar3) = pt" "numPages (newSpace ar3) = numPages sp" "pid (newSpace ar3) = pid sp1" "brk (newSpace ar3) = brk sp1"
     "nThreads (newSpace ar3) = nThreads sp"
    using x(3) r(3) by (auto simp: ar_def)
  have us3: "nUsedAddrSpace (sys ar3) = nUsedAddrSpace us + 1" "spaces (procs (sys ar3)) = spaces ps"
     "mach (procs (sys ar3)) = m1" "fprov (procs (sys ar3)) = fprov ps" "pidMap (procs (sys ar3)) = pidMap ps" "lastPid (procs (sys ar3)) = lastPid ps"
    using x(4) by (auto simp: ar_def us1_def)
  let ?R = "(userRegisters ar3)(t0 \<mapsto> regs[2 := 1])"
  define us' where "us' = (sys ar3)\<lparr>procs := (procs (sys ar3))\<lparr>spaces := (spaces ps)(a \<mapsto> newSpace ar3), mach := RestoreState tmp m1\<rparr>,
      uthreads := (uthreads (sys ar3))(t0 \<mapsto> \<lparr>ut_tid = tid, ut_space = Some a, isMain = True, upos = In_user, ut_args = (0, 0, 0)\<rparr>),
      semList := (semList (sys ar3))(a := sems ar3)\<rparr>"
  have "ListenProcess eh heap nt a t0 ts ks tmp (process_messages sp regs semValue tm thr m) us = Some (pid (newSpace ar3), us', ?R, [])"
  proof -
    have "receive_ints NumTotalRegs (map le32 regs @ y) = Some (regs, y)" for y using receive_ints_map [of regs y] sd(2) by simp
    moreover have "\<not> nUsedAddrSpace us \<ge> MaxProcesses" using us by (simp add: can_take_def)
    ultimately show ?thesis
      using r(1,4,5) sp1 t(1) x(1,2) sint_of_int32 [OF sd(3)] us3(2,3) unfolding ListenProcess_def process_messages_def us1_def ar_def us'_def
      by (simp add: Let_def del: upto.simps upto_rec_numeral upt_rec_numeral upt_Suc)
  qed
  moreover have "procs_ok (procs us') \<and> keeps_others (procs us) a (procs us')"
    using arrived_procs_ok [OF r(7), of "procs us'" "newSpace ar3" tmp] r(8) sp3 us3 r(3) by (simp add: us'_def keeps_others_def RestoreState_def)
  moreover have "has_thread (newSpace ar3) us' ?R a (ts i) i y" if "i < MaxThreadsPerProcess" "live_thread sp tm thr i = Some y" for i y
    by (rule has_thread_mono [OF x(7) [OF that]]) (use inj(2) that(1) in \<open>auto simp: us'_def\<close>)
  moreover have "\<forall>i\<in>marked (semBitmap sp). \<exists>k. semList us' a i = Some k \<and> semObjects us' k = Some (sint (semValue i))"
    using x(6) by (simp add: us'_def)
  ultimately show ?thesis
    using sp3 us3(1) r(6,9) x(5,8) by (intro exI [of _ us'] exI [of _ ?R] exI [of _ "newSpace ar3"])
      (auto simp: us'_def RestoreState_def split: option.splits)
qed

section \<open>Properties\<close>

text \<open>
  C3. A process survives its migration. When every message gets through, \<open>SendProcess\<close> reports success, and a machine with room
  that receives what was sent has the process: a new space with a new pid whose memory is, byte for byte, that of the
  sender; the registers of the main thread, except that register 2 tells it that it has moved; every semaphore
  with its value; every live thread with its index, its id and its registers; and the count of threads. The other
  processes of the receiver keep their memory, and the frames and pids stay consistent.
\<close>

theorem migration_roundtrip:
  assumes "sendable sp regs semValue tm thr m" "all_sent ok" "can_take (numPages sp) a us"
    and "inj_on ts {0..<MaxThreadsPerProcess}" "t0 \<notin> ts ` {0..<MaxThreadsPerProcess}" "inj_on ks {0..<MAX_SEM}"
  shows "\<exists>n msgs m' us' R sp'. SendProcess eh ok stale True sp regs semValue tm thr m = Some (True, (n, msgs), m')
    \<and> ListenProcess eh' heap nt a t0 ts ks tmp msgs us = Some (pid sp', us', R, [])
    \<and> procs_ok (procs us') \<and> keeps_others (procs us) a (procs us') \<and> nUsedAddrSpace us' = nUsedAddrSpace us + 1
    \<and> spaces (procs us') a = Some sp' \<and> pid sp' \<notin> marked (pidMap (procs us))
    \<and> numPages sp' = numPages sp \<and> user_memory sp' (mainMemory (mach (procs us'))) = user_memory sp (mainMemory m)
    \<and> R t0 = Some (regs[2 := 1]) \<and> nThreads sp' = nThreads sp \<and> marked (semBitmap sp') = marked (semBitmap sp)
    \<and> (\<forall>i\<in>marked (semBitmap sp). \<exists>k. semList us' a i = Some k \<and> semObjects us' k = Some (sint (semValue i)))
    \<and> (\<forall>i<MaxThreadsPerProcess. case live_thread sp tm thr i of None \<Rightarrow> localThreadsInfos sp' ! i = None | Some x \<Rightarrow> has_thread sp' us' R a (ts i) i x)"
proof -
  obtain n m' where "SendProcess eh ok stale True sp regs semValue tm thr m = Some (True, (n, process_messages sp regs semValue tm thr m), m')"
    using SendProcess_messages [OF assms(1,2)] by blast
  with ListenProcess_messages [OF assms(1,3-6), of eh' heap nt tmp] show ?thesis by blast
qed

text \<open>A process of one page with one thread besides the main one, and a machine that has just started.\<close>

definition traveller :: AddrSpace where
  "traveller = \<lparr>pid = 0, as_pageTable = [new_entry 0 5], numPages = 1, brk = 128, nThreads = 2, nextUserThreadid = 4,
     threadsBitmap = \<lparr>numBits = 7, numWords = 1, words = [1]\<rparr>, localThreadsInfos = Some \<lparr>addrspace_idx = 0, userthread_id = 3, thread_id = 5\<rparr> # replicate 6 None,
     stackStartAddrs = replicate 7 0, semBitmap = \<lparr>numBits = 128, numWords = 4, words = [2, 0, 0, 0]\<rparr>\<rparr>"

definition home :: Machine where
  "home = (Machine_new 0 False)\<lparr>mainMemory := (\<lambda>x. of_nat x), pageTable := Some (as_pageTable traveller), pageTableSize := 1\<rparr>"

lemma traveller_sendable: "sendable traveller (replicate 40 7) (\<lambda>i. 3) \<lparr>numBits = 32, numWords = 1, words = [32]\<rparr> [5 \<mapsto> replicate 40 9] home"
proof -
  have "\<forall>i<MaxThreadsPerProcess. \<forall>info. localThreadsInfos traveller ! i = Some info \<longrightarrow> 0 \<le> thread_id info \<and> thread_id info < 32 \<and> userthread_id info \<noteq> INT_MAX"
    by (auto simp: traveller_def nth_Cons split: nat.splits)
  moreover have "installed home (as_pageTable traveller)" "length (as_pageTable traveller) = unat (numPages traveller)" "numBits (semBitmap traveller) = MAX_SEM" "is_int32 (nThreads traveller)"
    by (simp_all add: installed_def home_def traveller_def table_wf_def entry_ok_def new_entry_def Machine_new_def is_int32_def)
  ultimately show ?thesis by (simp add: sendable_def)
qed

lemma booted_can_take: "\<exists>us. can_take 1 0 us"
proof -
  obtain ps where ps: "procs_boot (\<lambda>_ _. 0) 0 False = Some ps" "procs_ok ps" "spaces ps = Map.empty" "marked (pidMap ps) = {}" using boot_ok .
  obtain b where b: "bitmap_wf b" "numBits b = MaxThreads" "marked b = {}" using new_spec [of MaxThreads "\<lambda>_. 0"] by auto
  have "nAvailFrame (fprov ps) = 2096" using ps(1) by (auto simp: procs_boot_def FrameProvider_new_def bind_Some_iff)
  then have "can_take 1 0 \<lparr>procs = ps, tids = b, lastTid = 1, nUsedAddrSpace = 0, uthreads = Map.empty, conds = (\<lambda>c. []), semFORK = - 1,
      semList = (\<lambda>a. Map.empty), semObjects = Map.empty, halted = False\<rparr>"
    using ps b by (simp add: can_take_def room_for_def)
  then show ?thesis by blast
qed

theorem migration_roundtrip_witness:
  "\<exists>us us' R sp' k n msgs m'. SendProcess (\<lambda>_. Some) (\<lambda>_. True) 0 True traveller (replicate 40 7) (\<lambda>i. 3) \<lparr>numBits = 32, numWords = 1, words = [32]\<rparr> [5 \<mapsto> replicate 40 9] home
      = Some (True, (n, msgs), m') \<and> ListenProcess (\<lambda>_. Some) (\<lambda>_ _. 0) 0 0 7 id nat traveller msgs us = Some (pid sp', us', R, [])
    \<and> user_memory sp' (mainMemory (mach (procs us'))) = user_memory traveller (mainMemory home) \<and> R 7 = Some ((replicate 40 7)[2 := 1])
    \<and> semList us' 0 1 = Some k \<and> semObjects us' k = Some 3 \<and> has_thread sp' us' R 0 0 0 (3, replicate 40 9)"
proof -
  let ?tm = "\<lparr>numBits = 32, numWords = 1, words = [32]\<rparr>"
  obtain us where us: "can_take 1 0 us" using booted_can_take by blast
  have tr: "numPages traveller = 1" "1 \<in> marked (semBitmap traveller)" "live_thread traveller ?tm [5 \<mapsto> replicate 40 9] 0 = Some (3, replicate 40 9)"
    by (simp_all add: traveller_def live_thread_def marked_def bit_numeral_rec del: replicate.simps)
  have "inj_on id {0..<MaxThreadsPerProcess}" "7 \<notin> id ` {0..<MaxThreadsPerProcess}" "inj_on nat {0..<MAX_SEM}" "all_sent (\<lambda>_. True)"
    by (auto simp: inj_on_def all_sent_def)
  from migration_roundtrip [OF traveller_sendable this(4) _ this(1-3), unfolded tr(1), OF us, of "\<lambda>_. Some" 0 "\<lambda>_. Some" "\<lambda>_ _. 0" 0 traveller]
  obtain n msgs m' us' R sp' where g: "SendProcess (\<lambda>_. Some) (\<lambda>_. True) 0 True traveller (replicate 40 7) (\<lambda>i. 3) ?tm [5 \<mapsto> replicate 40 9] home = Some (True, (n, msgs), m')"
    "ListenProcess (\<lambda>_. Some) (\<lambda>_ _. 0) 0 0 7 id nat traveller msgs us = Some (pid sp', us', R, [])"
    "user_memory sp' (mainMemory (mach (procs us'))) = user_memory traveller (mainMemory home)" "R 7 = Some ((replicate 40 7)[2 := 1])"
    "\<forall>i\<in>marked (semBitmap traveller). \<exists>k. semList us' 0 i = Some k \<and> semObjects us' k = Some (sint (3 :: u32))"
    "\<forall>i<MaxThreadsPerProcess. case live_thread traveller ?tm [5 \<mapsto> replicate 40 9] i of None \<Rightarrow> localThreadsInfos sp' ! i = None | Some x \<Rightarrow> has_thread sp' us' R 0 (id i) i x"
    by blast
  moreover have "has_thread sp' us' R 0 0 0 (3, replicate 40 9)" using g(6) [rule_format, of 0] tr(3) by simp
  moreover obtain k where "semList us' 0 1 = Some k" "semObjects us' k = Some 3" using g(5) tr(2) by auto
  ultimately show ?thesis by blast
qed

end
