(* ===== verification/Spec2Isabelle.thy ===== *)
theory Spec2Isabelle
  imports FsSpace Mips Devices Threads Processes PostOffice SynchList UserLife SysFiles FsTest Migrate
begin

text \<open>
  \<^bold>\<open>NonOS: a verified model of a Nachos kernel\<close>

  NonOS is a Nachos kernel in C++ (src/code): it runs user programs on a simulated MIPS machine, with
  kernel threads, a file system on a simulated disk, and a network. The model is that of the build with user
  programs, the real file system and the network (\<open>USER_PROGRAM\<close>, \<open>FILESYS\<close>, \<open>NETWORK\<close>), on a 32-bit
  little-endian host.

  \<^bold>\<open>Parts and how they interact.\<close>

  The hardware simulation (src/code/machine) keeps a clock and a list of pending interrupts; every kernel entry
  and every user instruction advances the clock, and a due interrupt calls the handler of its device. Device
  handlers wake threads through semaphores. Threads, the scheduler and the synchronization primitives
  (src/code/threads) run on top of it; they queue threads on linked lists. The synchronous disk turns disk
  interrupts into blocking reads and writes; file headers, open files, directories and the file system
  (src/code/filesys) use nothing else. Bit maps allocate disk sectors, open-file slots and thread ids. A user
  program runs instruction by instruction, its addresses translated by page tables; traps enter the kernel.

  \<^bold>\<open>Theories.\<close> Definitions keep the names of the source; each theory begins with its own description.

  \<^item> \<open>Prelude\<close>: results of kernel routines (\<open>None\<close> is a failed \<open>ASSERT\<close>, an access out of bounds or a division
    by zero: the kernel does not return), C division, little-endian integers, rules to go through a routine.
  \<^item> \<open>Bitmap\<close> (userprog/bitmap.cc): the word array, with the locale \<open>slot_allocator\<close> for its clients.
  \<^item> \<open>Disk\<close> (machine/disk.cc, filesys/synchdisk.cc): the asynchronous disk with its timing, the protocol of
    \<open>SynchDisk\<close> as a step relation, and the locale of a synchronous sector store that it implements.
  \<^item> \<open>FileHdr\<close> (filesys/filehdr.cc, openfile.cc): headers on disk, the map from bytes to sectors through the
    undirected block, reading and writing. \<open>FileAlloc\<close>: allocating, extending and releasing files.
  \<^item> \<open>Directory\<close> (filesys/directory.cc): a table of names, refined to a finite map by a locale.
  \<^item> \<open>FileSys\<close> (filesys/filesys.cc): all operations with their locks and the table of open files.
    \<open>FsSpace\<close>: the invariant of the whole volume (which sectors belong to whom) and its preservation.
  \<^item> \<open>LinkedList\<close> (threads/list.cc): the list with its pointers on a shared heap, refined to sequences.
  \<^item> \<open>Interrupt\<close> (machine/interrupt.cc, stats, timer.cc): clock, pending interrupts, dispatch, idling, under a
    locale that states what handlers may do. \<open>Devices\<close> (console.cc, network.cc, disk.cc, timer.cc, system.cc):
    the handlers of all devices, which interpret that locale.
  \<^item> \<open>Threads\<close> (threads/thread.cc, scheduler.cc, synch.cc): threads, semaphores, locks and conditions; a
    primitive that gives up the processor continues through an explicit stack of what is left to do.
  \<^item> \<open>Machine\<close> (machine/machine.cc, translate.cc) and \<open>Mips\<close> (mipssim.cc): registers, memory, translation and
    every instruction.
  \<^item> This theory joins interrupts, devices and threads.

  \<^bold>\<open>What the lemmas show.\<close>

  File system: formatting gives a consistent volume; creating, writing (extending) and removing files keep it
  consistent, with exact results; what a user writes is read back; creating and removing a file restores the
  free map; no sequence of calls hits an assertion or leaves a lock held; directories behave as maps;
  extending a file keeps all others. Disk: requests exclude each other, end, and read back what was written.
  Machine: an instruction of any program keeps the machine well formed unless it is one of four that stop
  the host; stores are confined to writable frames; translation, multiplication and overflow are exact.
  Lists: every sequence of operations on any number of lists on one heap acts as on sequences; sorted
  insertion is stable. Interrupts: a tick fires exactly what is due, in order; idling ends. Threads: each
  thread is in exactly one place, locks exclude, no wakeup is lost, every primitive returns control.
  Network: a packet that is not dropped arrives as it was sent.

  \<^bold>\<open>Parameters, fuel and bounds.\<close>

  The host (keyboard, sockets, \<open>rand\<close>, uninitialised memory, addresses that \<open>new\<close> returns) is a parameter, as is
  \<open>ExceptionHandler\<close> in \<open>Mips\<close>, with its contract \<open>handler_ok\<close>; \<open>Interrupt\<close> takes handlers and the context
  switch as parameters and states their contract as the locale \<open>interrupt_handlers\<close>. \<open>bts_fuel\<close> bounds the
  recursion of \<open>ByteToSector\<close> through the undirected block; one level is enough for every file within the
  maximal size of 924 sectors of 128 bytes, and \<open>ByteToSector_terminates\<close> proves it. Loops that follow
  pointers or wait for interrupts are \<open>partial_function\<close>s, and are proved to return. Integers of the kernel
  are unbounded in the model; the simulated machine, bit maps and data on disk use machine words.

  \<^bold>\<open>Not modelled.\<close>

  User processes above the machine (addrspace.cc, frameprovider.cc, userthread.cc, exception.cc: loading,
  address spaces, system calls), the synchronous console, synchronized lists, and the post office, file
  transfer and migration over the network are planned extensions. \<open>SWITCH\<close> (assembly), host system calls
  (sysdep.cc), start-up and command line (main.cc, system.cc apart from the timer handler), debugging output,
  the test programs, the object-file tools under bin and the stand-alone tests are outside of the model: they
  are host input and output, or programs that run on the system rather than part of it.
\<close>

section \<open>Interrupts, devices and threads together\<close>

text \<open>
  The kernel's handlers signal semaphores: \<open>ReadAvail\<close> and \<open>WriteDone\<close> of the console (synchconsole.cc),
  those of the post office for packets (post.cc), and \<open>RequestDone\<close> of the synchronous disk (synchdisk.cc).
\<close>

fun handler_semaphore :: "callback \<Rightarrow> nat" where
  "handler_semaphore ReadAvail = 0"
| "handler_semaphore WriteDone = 1"
| "handler_semaphore PacketAvail = 2"
| "handler_semaphore PacketSent = 3"
| "handler_semaphore RequestDone = 4"

definition thread_notify :: "callback \<Rightarrow> Sys \<Rightarrow> Sys" where
  "thread_notify c s = V (Sem (handler_semaphore c)) s"

text \<open>
  The switch of \<open>Thread::Yield\<close>, called at the end of a tick: the next ready thread runs. The tick with which
  it enables interrupts again is its own next \<open>OneTick\<close>.
\<close>

definition kernel_yield :: "Sys K \<Rightarrow> Sys K option" where
  "kernel_yield k = do {
     s \<leftarrow> Yield (others (world k));
     s \<leftarrow> resume s;
     Some (k\<lparr>world := (world k)\<lparr>others := s\<rparr>\<rparr>)
   }"

definition system_ok :: "Sys World \<Rightarrow> bool" where
  "system_ok w \<longleftrightarrow> devices_ok w \<and> at_rest (others w) \<and> \<not> idling (others w)"

lemma Random_others: "Random k = (r, k') \<Longrightarrow> others (world k') = others (world k)"
  by (auto simp: Random_def split: list.splits)

lemma Schedule_world: "Schedule f a n ty k = Some k' \<Longrightarrow> world k' = world k"
  by (auto simp: Schedule_def Let_def)

lemma kernel_timer_world: "kernel_timer f a k = Some k' \<Longrightarrow> world k' = world k"
  by (cases f) (auto simp: TimerInterruptHandler_def YieldOnReturn_def split: if_splits)

text \<open>A handler changes the rest of the kernel at most through one notification.\<close>

lemma device_call_others:
  assumes "device_call notify f a k = Some k'"
  shows "others (world k') = others (world k) \<or> (\<exists>c. others (world k') = notify c (others (world k)))"
proof (cases f)
  case TimerHandler
  then show ?thesis
    using assms
    by (auto simp: Timer_interrupt_def TimerExpired_def bind_Some_iff Let_def
        dest!: Schedule_world Random_others kernel_timer_world split: prod.splits if_splits)
next
  case ConsoleReadPoll
  then show ?thesis
    using assms
    by (auto simp: CheckCharAvail_def dev_defs bind_Some_iff Let_def dest!: Schedule_world
        split: if_splits list.splits key_event.splits)
next
  case NetworkReadPoll
  then show ?thesis
    using assms
    by (auto simp: CheckPktAvail_def dev_defs bind_Some_iff Let_def dest!: Schedule_world
        split: if_splits list.splits option.splits)
qed (use assms in \<open>auto simp: Disk_HandleInterrupt_def Console_WriteDone_def SendDone_def TimerInterruptHandler_def
       YieldOnReturn_def dev_defs Let_def split: if_splits\<close>)

lemma system_call_ok:
  assumes "irq_wf k" "system_ok (world k)" "inHandler k"
  shows "\<exists>k'. device_call thread_notify f a k = Some k' \<and> handled system_ok k k'"
proof -
  obtain k' where k': "device_call thread_notify f a k = Some k'" "handled devices_ok k k'"
    using device_call_ok [of k thread_notify f a] assms by (auto simp: system_ok_def)
  have "at_rest (others (world k')) \<and> \<not> idling (others (world k'))"
    using device_call_others [OF k'(1)] assms(2) V_at_rest by (auto simp: system_ok_def thread_notify_def)
  then show ?thesis using k' by (auto simp: handled_def system_ok_def)
qed

interpretation system: interrupt_handlers "device_call thread_notify" system_ok
  by unfold_locales (rule system_call_ok)



end
